(* ===== verification/Prelude.thy ===== *)
theory Prelude
  imports "HOL-Library.Word" "HOL-Library.Finite_Map" "HOL-Library.Monad_Syntax" Main
begin

text \<open>
  Shared vocabulary of the development: bytes and fixed-width arrays, Rust's checked and
  saturating integer operations, bounds-checked readers, and sums over finite maps. Every
  component theory imports this one.

  Conventions. \<open>u32\<close>, \<open>u64\<close>, \<open>u128\<close> are machine words of that width, so \<open>+\<close>, \<open>-\<close> and \<open>*\<close> wrap
  as Rust's do in a release build. A \<^verbatim>\<open>[u8; 32]\<close> is the 256-bit word its bytes spell in big-endian
  order (\<open>be_bytes 32\<close> gives the bytes back), so Rust's lexicographic order on such arrays is
  \<open><\<close> on the words; a \<^verbatim>\<open>[u8; 64]\<close> is a 512-bit word in the same way. A \<^verbatim>\<open>HashMap\<close> or \<^verbatim>\<open>BTreeMap\<close>
  is a finite map.
\<close>

section \<open>Bytes and words\<close>

type_synonym byte = "8 word"
type_synonym bytes = "8 word list"
type_synonym u16 = "16 word"
type_synonym u32 = "32 word"
type_synonym u64 = "64 word"
type_synonym u128 = "128 word"
type_synonym id32 = "256 word"
type_synonym arr64 = "512 word"

named_theorems codec_simps \<open>equations that run an encoder against the matching decoder\<close>

text \<open>Little-endian bytes of a word (\<^verbatim>\<open>to_le_bytes\<close>) and the word they spell (\<^verbatim>\<open>from_le_bytes\<close>).\<close>

definition le_bytes :: "nat \<Rightarrow> 'a::len word \<Rightarrow> bytes" where
  "le_bytes n w = map (\<lambda>i. ucast (drop_bit (8 * i) w)) [0..<n]"

fun of_le :: "bytes \<Rightarrow> 'a::len word" where
  "of_le [] = 0"
| "of_le (b # bs) = or (ucast b) (push_bit 8 (of_le bs))"

definition be_bytes :: "nat \<Rightarrow> 'a::len word \<Rightarrow> bytes" where
  "be_bytes n w = rev (le_bytes n w)"

definition of_be :: "bytes \<Rightarrow> 'a::len word" where
  "of_be bs = of_le (rev bs)"

lemma length_le_bytes [simp]: "length (le_bytes n w) = n"
  by (simp add: le_bytes_def)

lemma length_be_bytes [simp]: "length (be_bytes n w) = n"
  by (simp add: be_bytes_def)

lemma bit_of_le:
  "bit (of_le bs :: 'a::len word) n \<longleftrightarrow>
     n < LENGTH('a) \<and> n div 8 < length bs \<and> bit (bs ! (n div 8)) (n mod 8)"
proof (induction bs arbitrary: n)
  case Nil
  then show ?case by simp
next
  case (Cons b bs)
  show ?case
  proof (cases "n < 8")
    case True
    then show ?thesis by (auto simp: bit_simps)
  next
    case False
    then have "n div 8 = Suc ((n - 8) div 8)" and "n mod 8 = (n - 8) mod 8"
      by (auto simp: le_div_geq le_mod_geq)
    moreover have "\<not> bit b n" using False by (simp add: bit_imp_le_length impossible_bit)
    ultimately show ?thesis using False Cons.IH [of "n - 8"]
      by (auto simp: bit_simps)
  qed
qed

lemma nth_le_bytes: "i < n \<Longrightarrow> le_bytes n w ! i = ucast (drop_bit (8 * i) w)"
  by (simp add: le_bytes_def)

lemma of_le_le_bytes [simp]:
  fixes w :: "'a::len word"
  assumes "LENGTH('a) \<le> 8 * n"
  shows "of_le (le_bytes n w) = w"
proof (rule bit_word_eqI)
  fix k
  assume k: "k < LENGTH('a)"
  then have "k div 8 < n" using assms by auto
  then show "bit (of_le (le_bytes n w) :: 'a word) k \<longleftrightarrow> bit w k"
    using k by (simp add: bit_of_le nth_le_bytes bit_simps)
qed

lemma le_bytes_of_le [simp]:
  assumes "length bs = n" and "8 * n \<le> LENGTH('a)"
  shows "le_bytes n (of_le bs :: 'a::len word) = bs"
proof (rule nth_equalityI)
  show "length (le_bytes n (of_le bs :: 'a word)) = length bs" using assms by simp
next
  fix i
  assume "i < length (le_bytes n (of_le bs :: 'a word))"
  then have i: "i < n" by simp
  show "le_bytes n (of_le bs :: 'a word) ! i = bs ! i"
  proof (rule bit_word_eqI)
    fix k :: nat
    assume k: "k < LENGTH(8)"
    then have "(8 * i + k) div 8 = i" and "(8 * i + k) mod 8 = k" by auto
    moreover have "8 * i + k < LENGTH('a)" using assms(2) i k by simp
    ultimately show "bit (le_bytes n (of_le bs :: 'a word) ! i) k \<longleftrightarrow> bit (bs ! i) k"
      using i k assms by (simp add: nth_le_bytes bit_simps bit_of_le)
  qed
qed

lemma of_be_be_bytes [simp]:
  "LENGTH('a) \<le> 8 * n \<Longrightarrow> of_be (be_bytes n (w :: 'a::len word)) = w"
  by (simp add: of_be_def be_bytes_def)

lemma be_bytes_of_be [simp]:
  "length bs = n \<Longrightarrow> 8 * n \<le> LENGTH('a) \<Longrightarrow> be_bytes n (of_be bs :: 'a::len word) = bs"
  by (simp add: of_be_def be_bytes_def)

lemma le_bytes_inject [simp]:
  "LENGTH('a) \<le> 8 * n \<Longrightarrow> le_bytes n (v :: 'a::len word) = le_bytes n w \<longleftrightarrow> v = w"
  by (metis of_le_le_bytes)

lemma be_bytes_inject [simp]:
  "LENGTH('a) \<le> 8 * n \<Longrightarrow> be_bytes n (v :: 'a::len word) = be_bytes n w \<longleftrightarrow> v = w"
  by (simp add: be_bytes_def)

text \<open>The bytes of an ASCII literal (\<^verbatim>\<open>b"..."\<close> in the source).\<close>

definition ascii :: "string \<Rightarrow> bytes" where
  "ascii s = map (\<lambda>c. of_nat (of_char c)) s"

section \<open>Rust's checked and saturating operations\<close>

definition checked_add :: "'a::len word \<Rightarrow> 'a word \<Rightarrow> 'a word option" where
  "checked_add a b = (if unat a + unat b < 2 ^ LENGTH('a) then Some (a + b) else None)"

definition saturating_add :: "'a::len word \<Rightarrow> 'a word \<Rightarrow> 'a word" where
  "saturating_add a b = (if unat a + unat b < 2 ^ LENGTH('a) then a + b else - 1)"

definition saturating_sub :: "'a::len word \<Rightarrow> 'a word \<Rightarrow> 'a word" where
  "saturating_sub a b = (if b \<le> a then a - b else 0)"

definition saturating_mul :: "'a::len word \<Rightarrow> 'a word \<Rightarrow> 'a word" where
  "saturating_mul a b = (if unat a * unat b < 2 ^ LENGTH('a) then a * b else - 1)"

text \<open>\<^verbatim>\<open>div_ceil\<close>; the divisor is nonzero wherever the source uses it.\<close>

definition div_ceil :: "'a::len word \<Rightarrow> 'a word \<Rightarrow> 'a word" where
  "div_ceil a b = (if a mod b = 0 then a div b else a div b + 1)"

lemma unat_add_le: "unat ((a :: 'a::len word) + b) \<le> unat a + unat b"
  by (simp add: unat_word_ariths)

lemma unat_sub_if_le: "(b :: 'a::len word) \<le> a \<Longrightarrow> unat (a - b) = unat a - unat b"
  by (simp add: unat_sub)

lemma unat_add_small:
  "unat a + unat b < 2 ^ LENGTH('a) \<Longrightarrow> unat (a + b :: 'a::len word) = unat a + unat b"
  by (simp add: unat_word_ariths)

lemma checked_add_Some:
  "checked_add a b = Some (c :: 'a::len word) \<longleftrightarrow>
     c = a + b \<and> unat a + unat b < 2 ^ LENGTH('a)"
  by (auto simp: checked_add_def)

lemma unat_checked_add:
  "checked_add a b = Some (c :: 'a::len word) \<Longrightarrow> unat c = unat a + unat b"
  by (auto simp: checked_add_Some unat_word_ariths)

lemma unat_saturating_add:
  "unat (saturating_add a (b :: 'a::len word)) = min (unat a + unat b) (2 ^ LENGTH('a) - 1)"
  by (auto simp: saturating_add_def unat_word_ariths unsigned_minus_1_eq_mask mask_eq_exp_minus_1 min_def)

lemma unat_saturating_add_le: "unat (saturating_add a b) \<le> unat a + unat b"
  by (simp add: unat_saturating_add)

lemma unat_saturating_sub:
  "unat (saturating_sub a b) = unat a - unat b"
  by (auto simp: saturating_sub_def unat_sub word_le_nat_alt)

lemma unat_lt2p: "unat (a :: 'a::len word) < 2 ^ LENGTH('a)"
  by (rule unsigned_less)

lemma unat_ucast: "unat (ucast (a :: 'a::len word) :: 'b::len word) = unat a mod 2 ^ LENGTH('b)"
  by (simp add: unsigned_ucast_eq unsigned_take_bit_eq take_bit_eq_mod)

text \<open>Signed readings of a word.\<close>

lemma uint_of_sint: "uint v = sint v mod 2 ^ 64" for v :: u64
  by (simp add: uint_sint take_bit_eq_mod)

lemma uint_neg_of_sint:
  fixes v :: u64
  assumes "sint v < 0"
  shows "uint (- v) = - sint v"
proof -
  have le: "- sint v \<le> 2 ^ 63" using sint_ge [of v] by simp
  have "uint (- v) = - uint v mod 2 ^ 64" by (simp add: uint_word_ariths)
  also have "\<dots> = - sint v mod 2 ^ 64" unfolding uint_of_sint by (simp add: mod_minus_eq)
  also have "\<dots> = - sint v" using assms le by (intro mod_pos_pos_trivial) auto
  finally show ?thesis .
qed

text \<open> Widening products: \<^verbatim>\<open>a as u128 * b as u128\<close> never wraps, and \<^verbatim>\<open>as u64\<close> keeps the low bits.\<close>

lemma unat_u128_of_u64 [simp]: "unat (ucast (a :: u64) :: u128) = unat a"
  using unat_lt2p [of a] by (simp add: unat_ucast)

lemma unat_u64_mult_bound: "unat (a :: u64) * unat (b :: u64) < 2 ^ 128"
proof -
  have "unat a * unat b \<le> (2 ^ 64 - 1) * (2 ^ 64 - 1)"
    using unat_lt2p [of a] unat_lt2p [of b] by (intro mult_mono) auto
  also have "\<dots> < (2 :: nat) ^ 128" by simp
  finally show ?thesis .
qed

lemma unat_widening_mult:
  "unat ((ucast (a :: u64) :: u128) * ucast (b :: u64)) = unat a * unat b"
  using unat_u64_mult_bound [of a b] by (simp add: unat_word_ariths)

lemma unat_mul_div:
  "unat (ucast (((ucast (a :: u64) :: u128) * ucast (b :: u64)) div ucast (c :: u64)) :: u64) =
     (unat a * unat b div unat c) mod 2 ^ 64"
  by (simp add: unat_ucast unat_widening_mult unat_div)

section \<open>Results\<close>

text \<open>
  Rust's \<^verbatim>\<open>Result<T, E>\<close> is the sum \<open>'e + 'a\<close>: \<open>Inl\<close> the error, \<open>Inr\<close> the value. \<open>try_then\<close> is the
  \<^verbatim>\<open>?\<close> operator and \<open>ok_or\<close> turns an option into a result. A division by zero or an \<^verbatim>\<open>expect\<close> that
  fails is the error \<open>Panic\<close>.
\<close>

datatype panic = Panic

fun try_then :: "'e + 'a \<Rightarrow> ('a \<Rightarrow> 'e + 'b) \<Rightarrow> 'e + 'b" where
  "try_then (Inl e) f = Inl e"
| "try_then (Inr x) f = f x"

definition ok_or :: "'a option \<Rightarrow> 'e \<Rightarrow> 'e + 'a" where
  "ok_or x e = (case x of None \<Rightarrow> Inl e | Some v \<Rightarrow> Inr v)"

lemma try_then_Inr [simp]: "try_then m f = Inr y \<longleftrightarrow> (\<exists>x. m = Inr x \<and> f x = Inr y)"
  by (cases m) auto

lemma try_then_Inl: "try_then m f = Inl e \<longleftrightarrow> m = Inl e \<or> (\<exists>x. m = Inr x \<and> f x = Inl e)"
  by (cases m) auto

lemma ok_or_Inr [simp]: "ok_or x e = Inr v \<longleftrightarrow> x = Some v"
  by (simp add: ok_or_def split: option.splits)

lemma ok_or_Some [simp]: "ok_or (Some v) e = Inr v" and ok_or_None [simp]: "ok_or None e = Inl e"
  by (simp_all add: ok_or_def)

section \<open>Slices\<close>

text \<open>\<^verbatim>\<open>b.get(i..j)\<close>: the bytes from \<open>i\<close> to \<open>j\<close>, or \<open>None\<close> when the range is not inside \<open>b\<close>.\<close>

definition get_range :: "bytes \<Rightarrow> nat \<Rightarrow> nat \<Rightarrow> bytes option" where
  "get_range b i j = (if i \<le> j \<and> j \<le> length b then Some (take (j - i) (drop i b)) else None)"

lemma take_drop_glue [simp]:
  "m = k + n \<Longrightarrow> take n (drop k xs) @ drop m xs = drop k xs"
  by (metis add.commute append_take_drop_id drop_drop)

lemma take_drop_glue0 [simp]: "take n xs @ drop n xs = xs"
  by simp

section \<open>Readers\<close>

text \<open>
  A reader consumes a prefix of its input and returns the value with the remaining bytes:
  the bounds-checked cursor (\<^verbatim>\<open>Reader\<close> in lat-state, \<^verbatim>\<open>Rd\<close> in lat-crypto) with the bytes not yet
  read as its state.
\<close>

definition rd_take :: "nat \<Rightarrow> bytes \<Rightarrow> (bytes \<times> bytes) option" where
  "rd_take n b = (if n \<le> length b then Some (take n b, drop n b) else None)"

definition rd_u32 :: "bytes \<Rightarrow> (u32 \<times> bytes) option" where
  "rd_u32 b = do { (x, r) \<leftarrow> rd_take 4 b; Some (of_le x, r) }"

definition rd_u64 :: "bytes \<Rightarrow> (u64 \<times> bytes) option" where
  "rd_u64 b = do { (x, r) \<leftarrow> rd_take 8 b; Some (of_le x, r) }"

definition rd_arr32 :: "bytes \<Rightarrow> (id32 \<times> bytes) option" where
  "rd_arr32 b = do { (x, r) \<leftarrow> rd_take 32 b; Some (of_be x, r) }"

definition rd_arr64 :: "bytes \<Rightarrow> (arr64 \<times> bytes) option" where
  "rd_arr64 b = do { (x, r) \<leftarrow> rd_take 64 b; Some (of_be x, r) }"

text \<open>\<^verbatim>\<open>for _ in 0..n { v.push(read()?) }\<close>: read \<open>n\<close> items in a row.\<close>

fun rd_repeat :: "nat \<Rightarrow> (bytes \<Rightarrow> ('a \<times> bytes) option) \<Rightarrow> bytes \<Rightarrow> ('a list \<times> bytes) option" where
  "rd_repeat 0 rd b = Some ([], b)"
| "rd_repeat (Suc n) rd b = do {
     (x, r) \<leftarrow> rd b;
     (xs, r') \<leftarrow> rd_repeat n rd r;
     Some (x # xs, r') }"

lemma rd_take_Some:
  "rd_take n b = Some (x, r) \<longleftrightarrow> b = x @ r \<and> length x = n"
  by (auto simp: rd_take_def)

lemma rd_take_app [codec_simps]: "length x = n \<Longrightarrow> rd_take n (x @ r) = Some (x, r)"
  by (simp add: rd_take_def)

lemma bind_pair_Some:
  "Option.bind m (\<lambda>(x, r). f x r) = Some y \<longleftrightarrow> (\<exists>x r. m = Some (x, r) \<and> f x r = Some y)"
  by (auto simp: bind_eq_Some_conv)

lemma if_None_Some: "(if c then None else m) = Some y \<longleftrightarrow> \<not> c \<and> m = Some y"
  by simp

subsection \<open>Codecs\<close>

text \<open>
  The contract of a wire format: \<open>dec\<close> reads back what \<open>enc\<close> wrote and leaves the rest of the
  input alone. \<open>ok\<close> says which values the format can carry.
\<close>

locale decodes =
  fixes enc :: "'a \<Rightarrow> bytes"
    and dec :: "bytes \<Rightarrow> ('a \<times> bytes) option"
    and ok :: "'a \<Rightarrow> bool"
  assumes dec_enc: "ok x \<Longrightarrow> dec (enc x @ r) = Some (x, r)"
begin

lemma enc_prefix_free:
  "ok x \<Longrightarrow> ok y \<Longrightarrow> enc x @ r = enc y @ s \<Longrightarrow> x = y \<and> r = s"
  by (metis dec_enc option.inject prod.inject)

lemma enc_inject: "ok x \<Longrightarrow> ok y \<Longrightarrow> enc x = enc y \<longleftrightarrow> x = y"
  using enc_prefix_free [of x y "[]" "[]"] by auto

lemma rd_repeat_concat:
  "list_all ok xs \<Longrightarrow> rd_repeat (length xs) dec (concat (map enc xs) @ r) = Some (xs, r)"
  by (induction xs) (simp_all add: dec_enc)

end

text \<open>A canonical format also accepts nothing that \<open>enc\<close> did not write.\<close>

locale codec = decodes enc dec ok
  for enc :: "'a \<Rightarrow> bytes" and dec :: "bytes \<Rightarrow> ('a \<times> bytes) option" and ok :: "'a \<Rightarrow> bool" +
  assumes enc_dec: "dec b = Some (x, r) \<Longrightarrow> b = enc x @ r \<and> ok x"
begin

lemma read_back: "ok x \<Longrightarrow> dec (enc x @ r) = Some (x, r)"
  by (rule dec_enc)

lemma dec_Some_iff: "dec b = Some (x, r) \<longleftrightarrow> b = enc x @ r \<and> ok x"
  using dec_enc enc_dec by blast

lemma rd_repeat_dec:
  "rd_repeat n dec b = Some (xs, r) \<Longrightarrow>
     b = concat (map enc xs) @ r \<and> length xs = n \<and> list_all ok xs"
proof (induction n arbitrary: b xs)
  case 0
  then show ?case by simp
next
  case (Suc n)
  from Suc.prems obtain y b' ys where "dec b = Some (y, b')"
    and "rd_repeat n dec b' = Some (ys, r)" and "xs = y # ys"
    by (auto split: bind_splits)
  then show ?case using Suc.IH [of b' ys] enc_dec [of b y b'] by simp
qed

lemma rd_repeat_Some:
  "rd_repeat n dec b = Some (xs, r) \<longleftrightarrow>
     b = concat (map enc xs) @ r \<and> length xs = n \<and> list_all ok xs"
  using rd_repeat_dec rd_repeat_concat by blast

end

interpretation u32_codec: codec "le_bytes 4" rd_u32 "\<lambda>_. True"
  by unfold_locales (auto simp: rd_u32_def rd_take_Some codec_simps split: bind_splits)

interpretation u64_codec: codec "le_bytes 8" rd_u64 "\<lambda>_. True"
  by unfold_locales (auto simp: rd_u64_def rd_take_Some codec_simps split: bind_splits)

interpretation arr32_codec: codec "be_bytes 32" rd_arr32 "\<lambda>_. True"
  by unfold_locales (auto simp: rd_arr32_def rd_take_Some codec_simps split: bind_splits)

interpretation arr64_codec: codec "be_bytes 64" rd_arr64 "\<lambda>_. True"
  by unfold_locales (auto simp: rd_arr64_def rd_take_Some codec_simps split: bind_splits)

lemmas [codec_simps] =
  u32_codec.dec_enc [OF TrueI] u64_codec.dec_enc [OF TrueI]
  arr32_codec.dec_enc [OF TrueI] arr64_codec.dec_enc [OF TrueI]

lemmas word_dec_iff =
  u32_codec.dec_Some_iff u64_codec.dec_Some_iff arr32_codec.dec_Some_iff arr64_codec.dec_Some_iff

section \<open>Sums over finite maps\<close>

text \<open>The sum of a measure of the values of a map, used for conservation of value.\<close>

definition fm_sum :: "('v \<Rightarrow> nat) \<Rightarrow> ('k, 'v) fmap \<Rightarrow> nat" where
  "fm_sum f m = (\<Sum>k \<in> fset (fmdom m). f (the (fmlookup m k)))"

definition opt_sum :: "('v \<Rightarrow> nat) \<Rightarrow> 'v option \<Rightarrow> nat" where
  "opt_sum f x = (case x of None \<Rightarrow> 0 | Some v \<Rightarrow> f v)"

lemma opt_sum_simps [simp]: "opt_sum f None = 0" "opt_sum f (Some v) = f v"
  by (simp_all add: opt_sum_def)

lemma fm_sum_empty [simp]: "fm_sum f fmempty = 0"
  by (simp add: fm_sum_def)

lemma fm_sum_upd: "fm_sum f (fmupd k v m) + opt_sum f (fmlookup m k) = fm_sum f m + f v"
proof -
  let ?D = "fset (fmdom m) - {k}"
  have new: "fm_sum f (fmupd k v m) = f v + (\<Sum>j \<in> ?D. f (the (fmlookup m j)))"
  proof -
    have "fset (fmdom (fmupd k v m)) = insert k ?D" by auto
    then have "fm_sum f (fmupd k v m) =
        f v + (\<Sum>j \<in> ?D. f (the (fmlookup (fmupd k v m) j)))"
      by (simp add: fm_sum_def sum.insert_remove)
    moreover have "(\<Sum>j \<in> ?D. f (the (fmlookup (fmupd k v m) j))) = (\<Sum>j \<in> ?D. f (the (fmlookup m j)))"
      by (rule sum.cong) auto
    ultimately show ?thesis by simp
  qed
  show ?thesis
  proof (cases "fmlookup m k")
    case None
    then have "?D = fset (fmdom m)" by (auto simp: fmdom_notI)
    then show ?thesis using new None by (simp add: fm_sum_def)
  next
    case (Some w)
    then have "k \<in> fset (fmdom m)" by (meson fmdomI)
    then have "fm_sum f m = f w + (\<Sum>j \<in> ?D. f (the (fmlookup m j)))"
      using Some by (simp add: fm_sum_def sum.remove)
    then show ?thesis using new Some by simp
  qed
qed

lemma fm_sum_drop: "fm_sum f (fmdrop k m) + opt_sum f (fmlookup m k) = fm_sum f m"
proof -
  have D: "fm_sum f (fmdrop k m) = (\<Sum>j \<in> fset (fmdom m) - {k}. f (the (fmlookup m j)))"
    unfolding fm_sum_def by (rule sum.cong) auto
  show ?thesis
  proof (cases "fmlookup m k")
    case None
    then have "fset (fmdom m) - {k} = fset (fmdom m)" by (auto simp: fmdom_notI)
    then show ?thesis using D None by (simp add: fm_sum_def)
  next
    case (Some w)
    then have k: "k \<in> fset (fmdom m)" by (meson fmdomI)
    show ?thesis using D Some
      sum.remove [OF finite_fset k, of "\<lambda>j. f (the (fmlookup m j))"]
      by (simp add: fm_sum_def)
  qed
qed

lemma fm_sum_upd_None: "fmlookup m k = None \<Longrightarrow> fm_sum f (fmupd k v m) = fm_sum f m + f v"
  using fm_sum_upd [of f k v m] by simp

lemma fm_sum_member: "fmlookup m k = Some v \<Longrightarrow> f v \<le> fm_sum f m"
  using fm_sum_drop [of f k m] by simp

end
