(* ===== verification/VM.thy ===== *)
theory VM
  imports Prelude
begin

text \<open>
  The contract virtual machine (\<^verbatim>\<open>lat-vm/src/lib.rs\<close>): the stack machine \<open>execute\<close> with its gas
  schedule. The label assembler of the same file is in the theory \<open>Assembler\<close>.

  The machine state is the local variables of \<^verbatim>\<open>execute\<close> (stack, program counter, gas) with the
  storage it mutates; \<open>vm_step\<close> is one turn of its loop and \<open>vm_run\<close> the loop. The top of the
  stack is the head of the list. The program counter is a \<open>nat\<close>: it never leaves
  \<open>0..length code\<close>, and a Rust slice is shorter than \<open>2 ^ 63\<close>.
\<close>

section \<open>Gas, errors and the state\<close>

definition DEFAULT_GAS :: u64 where "DEFAULT_GAS = 100000"
definition MAX_STACK :: nat where "MAX_STACK = 1024"
definition SSTORE_GAS :: u64 where "SSTORE_GAS = 200"
definition SLOAD_GAS :: u64 where "SLOAD_GAS = 50"

definition gas_cost :: "byte \<Rightarrow> u64" where
  "gas_cost op = (if op = 0x12 then SSTORE_GAS else if op = 0x11 then SLOAD_GAS else 1)"

type_synonym storage = "(u64, u64) fmap"

datatype vm_error =
    OutOfGas
  | StackUnderflow
  | StackOverflow
  | BadJump
  | DivByZero
  | BadOpcode byte
  | Truncated

record vm =
  vstack :: "u64 list"
  vpc :: nat
  vgas :: u64
  vstore :: storage

text \<open>\<^verbatim>\<open>contract_id\<close>: the hash of the tag, the deployer and the code; \<open>blake3\<close> is a parameter.\<close>

definition contract_id :: "(bytes \<Rightarrow> id32) \<Rightarrow> id32 \<Rightarrow> bytes \<Rightarrow> id32" where
  "contract_id blake3 deployer code =
     blake3 (ascii ''LAT-contract'' @ be_bytes 32 deployer @ code)"

section \<open>Stack primitives\<close>

fun vm_pop :: "u64 list \<Rightarrow> vm_error + u64 \<times> u64 list" where
  "vm_pop [] = Inl StackUnderflow"
| "vm_pop (x # s) = Inr (x, s)"

definition vm_push :: "u64 list \<Rightarrow> u64 \<Rightarrow> vm_error + u64 list" where
  "vm_push s v = (if length s \<ge> MAX_STACK then Inl StackOverflow else Inr (v # s))"

definition bool_word :: "bool \<Rightarrow> u64" where
  "bool_word b = (if b then 1 else 0)"

section \<open>One instruction\<close>

text \<open>
  The shape of every binary arm: \<open>b\<close> is popped first, then \<open>a\<close>, then the result (or the
  arm's own error) is pushed.
\<close>

definition vm_bin :: "(u64 \<Rightarrow> u64 \<Rightarrow> vm_error + u64) \<Rightarrow> vm \<Rightarrow> vm_error + vm" where
  "vm_bin f s =
     try_then (vm_pop (vstack s)) (\<lambda>(b, st1).
     try_then (vm_pop st1) (\<lambda>(a, st2).
     try_then (f a b) (\<lambda>v.
     try_then (vm_push st2 v) (\<lambda>st3.
     Inr (s\<lparr>vstack := st3\<rparr>)))))"

definition vm_div :: "u64 \<Rightarrow> u64 \<Rightarrow> vm_error + u64" where
  "vm_div a b = (if b = 0 then Inl DivByZero else Inr (a div b))"

definition vm_mod :: "u64 \<Rightarrow> u64 \<Rightarrow> vm_error + u64" where
  "vm_mod a b = (if b = 0 then Inl DivByZero else Inr (a mod b))"

definition vm_push8 :: "bytes \<Rightarrow> vm \<Rightarrow> vm_error + vm" where
  "vm_push8 code s =
     try_then (ok_or (get_range code (vpc s) (vpc s + 8)) Truncated) (\<lambda>bs.
     try_then (vm_push (vstack s) (of_le bs)) (\<lambda>st.
     Inr (s\<lparr>vstack := st, vpc := vpc s + 8\<rparr>)))"

definition vm_jump :: "bytes \<Rightarrow> vm \<Rightarrow> vm_error + vm" where
  "vm_jump code s =
     try_then (vm_pop (vstack s)) (\<lambda>(dest, st).
     if unat dest \<ge> length code then Inl BadJump
     else Inr (s\<lparr>vstack := st, vpc := unat dest\<rparr>))"

definition vm_jumpi :: "bytes \<Rightarrow> vm \<Rightarrow> vm_error + vm" where
  "vm_jumpi code s =
     try_then (vm_pop (vstack s)) (\<lambda>(dest, st1).
     try_then (vm_pop st1) (\<lambda>(c, st2).
     if c \<noteq> 0 then
       if unat dest \<ge> length code then Inl BadJump
       else Inr (s\<lparr>vstack := st2, vpc := unat dest\<rparr>)
     else Inr (s\<lparr>vstack := st2\<rparr>)))"

definition vm_swap :: "vm \<Rightarrow> vm_error + vm" where
  "vm_swap s = (case vstack s of
      x # y # st \<Rightarrow> Inr (s\<lparr>vstack := y # x # st\<rparr>)
    | _ \<Rightarrow> Inl StackUnderflow)"

definition vm_dup :: "vm \<Rightarrow> vm_error + vm" where
  "vm_dup s = (case vstack s of
      [] \<Rightarrow> Inl StackUnderflow
    | x # st \<Rightarrow> try_then (vm_push (vstack s) x) (\<lambda>st'. Inr (s\<lparr>vstack := st'\<rparr>)))"

definition vm_sload :: "vm \<Rightarrow> vm_error + vm" where
  "vm_sload s =
     try_then (vm_pop (vstack s)) (\<lambda>(key, st).
     try_then (vm_push st (case fmlookup (vstore s) key of Some v \<Rightarrow> v | None \<Rightarrow> 0)) (\<lambda>st'.
     Inr (s\<lparr>vstack := st'\<rparr>)))"

definition vm_sstore :: "vm \<Rightarrow> vm_error + vm" where
  "vm_sstore s =
     try_then (vm_pop (vstack s)) (\<lambda>(val, st1).
     try_then (vm_pop st1) (\<lambda>(key, st2).
     Inr (s\<lparr>vstack := st2, vstore := fmupd key val (vstore s)\<rparr>)))"

definition vm_pushv :: "u64 \<Rightarrow> vm \<Rightarrow> vm_error + vm" where
  "vm_pushv v s = try_then (vm_push (vstack s) v) (\<lambda>st. Inr (s\<lparr>vstack := st\<rparr>))"

text \<open>The \<^verbatim>\<open>match op\<close> of the loop, STOP apart; \<open>s\<close> has its gas charged and \<^verbatim>\<open>pc += 1\<close> done.\<close>

definition vm_op :: "bytes \<Rightarrow> id32 \<Rightarrow> u64 \<Rightarrow> byte \<Rightarrow> vm \<Rightarrow> vm_error + vm" where
  "vm_op code caller inp op s =
    (if op = 0x01 then vm_push8 code s
     else if op = 0x02 then
       try_then (vm_pop (vstack s)) (\<lambda>(_, st). Inr (s\<lparr>vstack := st\<rparr>))
     else if op = 0x03 then vm_bin (\<lambda>a b. Inr (a + b)) s
     else if op = 0x04 then vm_bin (\<lambda>a b. Inr (a - b)) s
     else if op = 0x05 then vm_bin (\<lambda>a b. Inr (a * b)) s
     else if op = 0x06 then vm_bin vm_div s
     else if op = 0x07 then vm_bin vm_mod s
     else if op = 0x08 then vm_bin (\<lambda>a b. Inr (bool_word (a = b))) s
     else if op = 0x09 then vm_bin (\<lambda>a b. Inr (bool_word (a < b))) s
     else if op = 0x0A then vm_bin (\<lambda>a b. Inr (bool_word (a > b))) s
     else if op = 0x0B then vm_bin (\<lambda>a b. Inr (and a b)) s
     else if op = 0x0C then
       try_then (vm_pop (vstack s)) (\<lambda>(a, st).
       try_then (vm_push st (bool_word (a = 0))) (\<lambda>st'. Inr (s\<lparr>vstack := st'\<rparr>)))
     else if op = 0x0D then vm_jump code s
     else if op = 0x0E then vm_jumpi code s
     else if op = 0x0F then vm_dup s
     else if op = 0x10 then vm_swap s
     else if op = 0x11 then vm_sload s
     else if op = 0x12 then vm_sstore s
     else if op = 0x13 then vm_pushv (of_le (take 8 (be_bytes 32 caller))) s
     else if op = 0x14 then vm_pushv inp s
     else Inl (BadOpcode op))"

section \<open>The loop\<close>

datatype vm_status = Running vm | Halted vm | Failed vm_error vm

text \<open>
  One turn of the loop. A failing instruction leaves the storage as it found it, so the state
  in \<open>Failed\<close> is the one before the instruction.
\<close>

definition vm_step :: "bytes \<Rightarrow> id32 \<Rightarrow> u64 \<Rightarrow> vm \<Rightarrow> vm_status" where
  "vm_step code caller inp s =
    (if vpc s < length code then
       let op = code ! vpc s; cost = gas_cost op in
       if vgas s < cost then Failed OutOfGas s
       else
         let s1 = s\<lparr>vgas := vgas s - cost, vpc := vpc s + 1\<rparr> in
         if op = 0x00 then Halted s1
         else (case vm_op code caller inp op s1 of
             Inl e \<Rightarrow> Failed e s
           | Inr s2 \<Rightarrow> Running s2)
     else Halted s)"

lemma gas_cost_pos: "0 < gas_cost op"
  by (simp add: gas_cost_def SSTORE_GAS_def SLOAD_GAS_def word_less_nat_alt)

lemma vm_op_gas: "vm_op code caller inp op s = Inr s' \<Longrightarrow> vgas s' = vgas s"
  by (auto simp: vm_op_def vm_bin_def vm_push8_def vm_jump_def vm_jumpi_def vm_dup_def vm_swap_def
      vm_sload_def vm_sstore_def vm_pushv_def split: if_splits list.splits prod.splits)

lemma vm_step_gas:
  assumes "vm_step code caller inp s = Running s'"
  shows "unat (vgas s') + unat (gas_cost (code ! vpc s)) = unat (vgas s)"
  using assms vm_op_gas [of code caller inp "code ! vpc s" _ s']
  by (auto simp: vm_step_def Let_def unat_sub not_less word_le_nat_alt
      split: if_splits sum.splits dest!: vm_op_gas)

function vm_run :: "bytes \<Rightarrow> id32 \<Rightarrow> u64 \<Rightarrow> vm \<Rightarrow> vm_error option \<times> vm" where
  "vm_run code caller inp s =
    (case vm_step code caller inp s of
       Running s' \<Rightarrow> vm_run code caller inp s'
     | Halted s' \<Rightarrow> (None, s')
     | Failed e s' \<Rightarrow> (Some e, s'))"
  by pat_completeness auto

termination
proof (relation "measure (\<lambda>(_, _, _, s). unat (vgas s))")
  show "wf (measure (\<lambda>(_, _, _, s). unat (vgas (s :: vm))))" by simp
next
  fix code caller inp s s'
  assume "vm_step code caller inp s = Running s'"
  then show "((code, caller, inp, s'), (code, caller, inp, s)) \<in>
      measure (\<lambda>(_, _, _, s). unat (vgas s))"
    using vm_step_gas [of code caller inp s s'] gas_cost_pos [of "code ! vpc s"]
    by (simp add: word_less_nat_alt)
qed

declare vm_run.simps [simp del]

text \<open>\<^verbatim>\<open>execute\<close>: the error, if any, and the storage as the call leaves it.\<close>

definition vm_init :: "storage \<Rightarrow> u64 \<Rightarrow> vm" where
  "vm_init st gas = \<lparr>vstack = [], vpc = 0, vgas = gas, vstore = st\<rparr>"

definition execute :: "bytes \<Rightarrow> storage \<Rightarrow> id32 \<Rightarrow> u64 \<Rightarrow> u64 \<Rightarrow> vm_error option \<times> storage" where
  "execute code st caller inp gas =
     (let (e, s) = vm_run code caller inp (vm_init st gas) in (e, vstore s))"

section \<open>Properties\<close>

lemmas vm_op_defs = vm_op_def vm_bin_def vm_push8_def vm_jump_def vm_jumpi_def vm_swap_def
  vm_dup_def vm_sload_def vm_sstore_def vm_pushv_def

lemma vm_pop_Inr [simp]: "vm_pop st = Inr (x, st') \<longleftrightarrow> st = x # st'"
  by (cases st) auto

lemma vm_push_Inr [simp]: "vm_push st v = Inr st' \<longleftrightarrow> st' = v # st \<and> length st < MAX_STACK"
  by (auto simp: vm_push_def)

lemma vm_op_stack:
  "vm_op code caller inp op s = Inr s' \<Longrightarrow> length (vstack s) \<le> MAX_STACK \<Longrightarrow>
     length (vstack s') \<le> MAX_STACK"
  by (auto simp: vm_op_defs split: if_splits list.splits prod.splits)

lemma vm_op_store:
  "vm_op code caller inp op s = Inr s' \<Longrightarrow>
     fcard (fmdom (vstore s')) \<le> fcard (fmdom (vstore s)) + (if op = 0x12 then 1 else 0)"
  by (auto simp: vm_op_defs fcard_finsert_if split: if_splits list.splits prod.splits)

subsection \<open>Executions as sequences of steps\<close>

inductive vm_steps :: "bytes \<Rightarrow> id32 \<Rightarrow> u64 \<Rightarrow> vm \<Rightarrow> nat \<Rightarrow> vm \<Rightarrow> bool"
  for code caller inp where
  vm_refl: "vm_steps code caller inp s 0 s"
| vm_more: "vm_steps code caller inp s n s' \<Longrightarrow> vm_step code caller inp s' = Running s'' \<Longrightarrow>
     vm_steps code caller inp s (Suc n) s''"

lemma vm_step_pc:
  "vm_step code caller inp s = Running s' \<Longrightarrow> vpc s' \<le> length code"
  by (auto simp: vm_step_def vm_op_defs get_range_def Let_def
      split: if_splits sum.splits list.splits prod.splits)

lemma vm_steps_inv:
  assumes "vm_steps code caller inp s n s'"
    and "length (vstack s) \<le> MAX_STACK" and "vpc s \<le> length code"
  shows "length (vstack s') \<le> MAX_STACK \<and> vpc s' \<le> length code \<and>
    n + unat (vgas s') \<le> unat (vgas s) \<and>
    200 * fcard (fmdom (vstore s')) + unat (vgas s') \<le>
    200 * fcard (fmdom (vstore s)) + unat (vgas s)"
  using assms
proof (induction rule: vm_steps.induct)
  case vm_refl
  then show ?case by simp
next
  case (vm_more s n s' s'')
  let ?op = "code ! vpc s'" and ?t = "s'\<lparr>vgas := vgas s' - gas_cost (code ! vpc s'), vpc := vpc s' + 1\<rparr>"
  from vm_more.hyps(2) have op: "vm_op code caller inp ?op ?t = Inr s''"
    by (auto simp: vm_step_def Let_def split: if_splits sum.splits)
  note gas = vm_step_gas [OF vm_more.hyps(2)]
  have "0 < unat (gas_cost ?op)" using gas_cost_pos by (simp add: word_less_nat_alt)
  moreover have "?op = 0x12 \<Longrightarrow> unat (gas_cost ?op) = 200"
    by (simp add: gas_cost_def SSTORE_GAS_def)
  moreover have "length (vstack s'') \<le> MAX_STACK"
    using vm_op_stack [OF op] vm_more by simp
  moreover note vm_op_store [OF op] vm_step_pc [OF vm_more.hyps(2)]
  ultimately show ?case using vm_more gas by (auto split: if_splits)
qed

lemma vm_run_steps:
  "vm_run code caller inp s = (r, s') \<Longrightarrow>
     \<exists>n t. vm_steps code caller inp s n t \<and>
       (case r of None \<Rightarrow> vm_step code caller inp t = Halted s'
        | Some e \<Rightarrow> vm_step code caller inp t = Failed e s')"
proof (induction code caller inp s rule: vm_run.induct)
  case (1 code caller inp s)
  show ?case
  proof (cases "vm_step code caller inp s")
    case (Running u)
    then have "vm_run code caller inp u = (r, s')"
      using "1.prems" vm_run.simps [of code caller inp s] by simp
    from "1.IH" [OF Running this] obtain n t where t: "vm_steps code caller inp u n t"
      and r: "case r of None \<Rightarrow> vm_step code caller inp t = Halted s'
        | Some e \<Rightarrow> vm_step code caller inp t = Failed e s'" by blast
    from t have "vm_steps code caller inp s (Suc n) t"
      using Running by induction (auto intro: vm_steps.intros)
    with r show ?thesis by blast
  next
    case (Halted u)
    then have "vm_step code caller inp s = Halted s'" and "r = None"
      using "1.prems" vm_run.simps [of code caller inp s] by auto
    then show ?thesis by (intro exI [of _ 0] exI [of _ s]) (simp add: vm_refl)
  next
    case (Failed e u)
    then have "vm_step code caller inp s = Failed e s'" and "r = Some e"
      using "1.prems" vm_run.simps [of code caller inp s] by auto
    then show ?thesis by (intro exI [of _ 0] exI [of _ s]) (simp add: vm_refl)
  qed
qed

lemma vm_step_end_store:
  "vm_step code caller inp t = Halted s' \<Longrightarrow> vstore s' = vstore t"
  "vm_step code caller inp t = Failed e s' \<Longrightarrow> vstore s' = vstore t"
  by (auto simp: vm_step_def Let_def split: if_splits sum.splits)

subsection \<open>The gas limit decides only whether a call finishes\<close>

lemma vm_gas_pc_commute: "(s :: vm)\<lparr>vpc := p, vgas := g\<rparr> = s\<lparr>vgas := g, vpc := p\<rparr>"
  by simp

lemma vm_op_set_gas:
  "vm_op code caller inp op (s\<lparr>vgas := g\<rparr>) =
     (case vm_op code caller inp op s of Inl e \<Rightarrow> Inl e | Inr s' \<Rightarrow> Inr (s'\<lparr>vgas := g\<rparr>))"
  by (cases "vstack s"; cases "tl (vstack s)")
     (simp_all add: vm_op_defs vm_push_def vm_div_def vm_mod_def get_range_def)

lemma vm_step_more_gas:
  assumes "vgas s \<le> g" and "vm_step code caller inp s = Running s'"
  shows "vm_step code caller inp (s\<lparr>vgas := g\<rparr>) =
      Running (s'\<lparr>vgas := g - (vgas s - vgas s')\<rparr>) \<and> vgas s' \<le> g - (vgas s - vgas s')"
proof -
  let ?op = "code ! vpc s" and ?c = "gas_cost (code ! vpc s)"
  from assms(2) have pc: "vpc s < length code" and c: "?c \<le> vgas s" and nz: "?op \<noteq> 0"
    and op: "vm_op code caller inp ?op (s\<lparr>vgas := vgas s - ?c, vpc := vpc s + 1\<rparr>) = Inr s'"
    by (auto simp: vm_step_def Let_def not_less split: if_splits sum.splits)
  have g': "vgas s' = vgas s - ?c" using vm_op_gas [OF op] by simp
  have c2: "?c \<le> g" using c assms(1) by simp
  have "vm_op code caller inp ?op (s\<lparr>vgas := g - ?c, vpc := vpc s + 1\<rparr>) =
      Inr (s'\<lparr>vgas := g - ?c\<rparr>)"
    using op vm_op_set_gas [of code caller inp ?op "g - ?c" "s\<lparr>vgas := vgas s - ?c, vpc := vpc s + 1\<rparr>"]
    by (simp add: vm_gas_pc_commute)
  then have "vm_step code caller inp (s\<lparr>vgas := g\<rparr>) = Running (s'\<lparr>vgas := g - ?c\<rparr>)"
    using pc c2 nz by (simp add: vm_step_def Let_def not_less)
  moreover have "vgas s - vgas s' = ?c" by (simp add: g')
  moreover have "vgas s' \<le> g - ?c"
    using c assms(1) unfolding g' by (simp add: word_le_nat_alt unat_sub)
  ultimately show ?thesis by simp
qed

lemma vm_step_end_more_gas:
  assumes "vgas s \<le> g"
  shows "vm_step code caller inp s = Halted s' \<Longrightarrow>
      \<exists>t. vm_step code caller inp (s\<lparr>vgas := g\<rparr>) = Halted t \<and> vstore t = vstore s'"
    and "vm_step code caller inp s = Failed e s' \<Longrightarrow> e \<noteq> OutOfGas \<Longrightarrow>
      \<exists>t. vm_step code caller inp (s\<lparr>vgas := g\<rparr>) = Failed e t \<and> vstore t = vstore s'"
  using assms
    vm_op_set_gas [of code caller inp "code ! vpc s" "g - gas_cost (code ! vpc s)"
      "s\<lparr>vgas := vgas s - gas_cost (code ! vpc s), vpc := vpc s + 1\<rparr>"]
  by (auto simp: vm_step_def Let_def vm_gas_pc_commute split: if_splits sum.splits)

lemma vm_run_more_gas:
  "vm_run code caller inp s = (r, s') \<Longrightarrow> r \<noteq> Some OutOfGas \<Longrightarrow> vgas s \<le> g \<Longrightarrow>
     \<exists>t. vm_run code caller inp (s\<lparr>vgas := g\<rparr>) = (r, t) \<and> vstore t = vstore s'"
proof (induction code caller inp s arbitrary: g rule: vm_run.induct)
  case (1 code caller inp s)
  show ?case
  proof (cases "vm_step code caller inp s")
    case (Running u)
    let ?g = "g - (vgas s - vgas u)"
    from vm_step_more_gas [OF "1.prems"(3) Running]
    have run: "vm_step code caller inp (s\<lparr>vgas := g\<rparr>) = Running (u\<lparr>vgas := ?g\<rparr>)"
      and le: "vgas u \<le> ?g" by auto
    from "1.prems"(1) Running have "vm_run code caller inp u = (r, s')"
      by (subst (asm) vm_run.simps) simp
    from "1.IH" [OF Running this "1.prems"(2) le] show ?thesis
      by (subst vm_run.simps) (simp add: run)
  next
    case (Halted u)
    then have "r = None" "u = s'"
      using "1.prems"(1) vm_run.simps [of code caller inp s] by auto
    with vm_step_end_more_gas(1) [OF "1.prems"(3) Halted] show ?thesis
      by (subst vm_run.simps) auto
  next
    case (Failed e u)
    then have "r = Some e" "u = s'"
      using "1.prems"(1) vm_run.simps [of code caller inp s] by auto
    with vm_step_end_more_gas(2) [OF "1.prems"(3) Failed] "1.prems"(2) show ?thesis
      by (subst vm_run.simps) auto
  qed
qed

subsection \<open>The claims\<close>

text \<open>
  every execution is bounded. Whatever the code, after \<open>n\<close> loop turns the machine has spent
  at least \<open>n\<close> units of gas, its stack holds at most \<open>MAX_STACK\<close> words, the program counter is
  inside the code or at its end, and every new storage entry has been paid for with 200 units.
\<close>

theorem vm_steps_bounded:
  assumes "vm_steps code caller inp (vm_init st gas) n s"
  shows "n + unat (vgas s) \<le> unat gas \<and> length (vstack s) \<le> MAX_STACK \<and>
    vpc s \<le> length code \<and>
    200 * fcard (fmdom (vstore s)) + unat (vgas s) \<le> 200 * fcard (fmdom st) + unat gas"
  using vm_steps_inv [OF assms] by (simp add: vm_init_def)

theorem vm_steps_bounded_witness:
  "\<exists>s. vm_steps [0x01,7,0,0,0,0,0,0,0,0x0F,0x12] 0 0 (vm_init fmempty 100) 1 s \<and>
     1 + unat (vgas s) \<le> 100"
proof -
  let ?code = "[0x01,7,0,0,0,0,0,0,0,0x0F,0x12] :: bytes"
  have "vm_step ?code 0 0 (vm_init fmempty 100) =
      Running \<lparr>vstack = [7], vpc = 9, vgas = 99, vstore = fmempty\<rparr>"
    by (simp add: vm_step_def vm_init_def gas_cost_def vm_op_def vm_push8_def get_range_def
        vm_push_def MAX_STACK_def Let_def)
  then have steps: "vm_steps ?code 0 0 (vm_init fmempty 100) (Suc 0)
      \<lparr>vstack = [7], vpc = 9, vgas = 99, vstore = fmempty\<rparr>"
    by (rule vm_more [OF vm_refl])
  from vm_steps_bounded [OF steps] show ?thesis using steps by (intro exI) (auto simp: One_nat_def)
qed

text \<open>
  C16: a call cannot bloat the state. One run of \<open>execute\<close> adds at most one storage entry per 200
  units of gas, so a call at the default limit adds at most 500.
\<close>

theorem execute_store_bound:
  assumes "execute code st caller inp gas = (r, st')"
  shows "fcard (fmdom st') \<le> fcard (fmdom st) + unat gas div 200"
proof -
  obtain s where run: "vm_run code caller inp (vm_init st gas) = (r, s)" and st': "st' = vstore s"
    using assms by (auto simp: execute_def split: prod.splits)
  from vm_run_steps [OF run] obtain n t where t: "vm_steps code caller inp (vm_init st gas) n t"
    and eq: "vstore s = vstore t"
    by (auto split: option.splits dest: vm_step_end_store)
  have "200 * fcard (fmdom (vstore t)) + unat (vgas t) \<le> 200 * fcard (fmdom st) + unat gas"
    using vm_steps_inv [OF t] by (simp add: vm_init_def)
  then show ?thesis unfolding st' eq by linarith
qed

theorem execute_store_bound_witness:
  "execute [0x01,7,0,0,0,0,0,0,0,0x0F,0x12] fmempty 0 0 300 =
     (None, fmupd 7 7 fmempty) \<and> fcard (fmdom (fmupd (7::u64) (7::u64) fmempty)) \<le> 1"
proof -
  have run: "execute [0x01,7,0,0,0,0,0,0,0,0x0F,0x12] fmempty 0 0 300 = (None, fmupd 7 7 fmempty)"
    by (simp add: execute_def vm_run.simps vm_step_def vm_init_def gas_cost_def vm_op_defs
        get_range_def vm_push_def MAX_STACK_def SSTORE_GAS_def Let_def)
  from execute_store_bound [OF run] show ?thesis using run by (simp add: fcard_finsert_if)
qed

text \<open>
  execution is deterministic in everything but running out: if a call ends other than by
  \<open>OutOfGas\<close>, any larger gas limit gives the same outcome and the same storage.
\<close>

theorem execute_gas_monotone:
  assumes "execute code st caller inp gas = (r, st')" and "r \<noteq> Some OutOfGas" and "gas \<le> gas'"
  shows "execute code st caller inp gas' = (r, st')"
proof -
  obtain s where run: "vm_run code caller inp (vm_init st gas) = (r, s)" and st': "st' = vstore s"
    using assms by (auto simp: execute_def split: prod.splits)
  have "\<exists>t. vm_run code caller inp (vm_init st gas\<lparr>vgas := gas'\<rparr>) = (r, t) \<and> vstore t = vstore s"
    using vm_run_more_gas [OF run assms(2)] assms(3) by (simp add: vm_init_def)
  then show ?thesis by (auto simp: execute_def st' vm_init_def)
qed

theorem execute_gas_monotone_witness:
  "execute [0x0F] fmempty 0 0 DEFAULT_GAS = (Some StackUnderflow, fmempty)"
proof -
  have "execute [0x0F] fmempty 0 0 1 = (Some StackUnderflow, fmempty)"
    by (simp add: execute_def vm_run.simps vm_step_def vm_init_def gas_cost_def vm_op_defs)
  from execute_gas_monotone [OF this] show ?thesis by (simp add: DEFAULT_GAS_def)
qed

end
