(* ===== verification/Assembler.thy ===== *)
theory Assembler
  imports VM
begin

text \<open>
  The label assembler of \<^verbatim>\<open>lat-vm/src/lib.rs\<close> (module \<^verbatim>\<open>assembler\<close>) and the byte helpers of module
  \<^verbatim>\<open>asm\<close>. \<open>assemble\<close> has the two passes of the source: \<open>asm_offsets\<close> records where every label
  falls, \<open>asm_emit\<close> encodes. The lemmas show when assembly succeeds and that every instruction
  of the result sits at the offset its labels were given.
\<close>

definition asm_push :: "u64 \<Rightarrow> bytes" where
  "asm_push v = 0x01 # le_bytes 8 v"

datatype instr =
    Push u64
  | PushLabel string
  | Label string
  | Pop | Add | Sub | Mul | Div | Mod | Eq | Lt | Gt | And | Not | Jump | JumpI | Dup | Swap
  | Sload | Sstore | Caller | Input | Stop | Revert

datatype asm_error = UndefinedLabel string | DuplicateLabel string

fun instr_width :: "instr \<Rightarrow> nat" where
  "instr_width (Label _) = 0"
| "instr_width (Push _) = 9"
| "instr_width (PushLabel _) = 9"
| "instr_width Revert = length (asm_push 0) + length (asm_push 0) + 1"
| "instr_width _ = 1"

text \<open>\<^verbatim>\<open>opcode\<close>; \<open>None\<close> is the \<^verbatim>\<open>unreachable!\<close> arm.\<close>

fun opcode :: "instr \<Rightarrow> byte option" where
  "opcode Pop = Some 0x02"
| "opcode Add = Some 0x03"
| "opcode Sub = Some 0x04"
| "opcode Mul = Some 0x05"
| "opcode Div = Some 0x06"
| "opcode Mod = Some 0x07"
| "opcode Eq = Some 0x08"
| "opcode Lt = Some 0x09"
| "opcode Gt = Some 0x0A"
| "opcode And = Some 0x0B"
| "opcode Not = Some 0x0C"
| "opcode Jump = Some 0x0D"
| "opcode JumpI = Some 0x0E"
| "opcode Dup = Some 0x0F"
| "opcode Swap = Some 0x10"
| "opcode Sload = Some 0x11"
| "opcode Sstore = Some 0x12"
| "opcode Caller = Some 0x13"
| "opcode Input = Some 0x14"
| "opcode Stop = Some 0x00"
| "opcode (Push _) = None"
| "opcode (PushLabel _) = None"
| "opcode (Label _) = None"
| "opcode Revert = None"

text \<open>Pass 1: label to byte offset.\<close>

fun asm_offsets ::
  "instr list \<Rightarrow> (string, nat) fmap \<Rightarrow> nat \<Rightarrow> asm_error + (string, nat) fmap" where
  "asm_offsets [] offs pc = Inr offs"
| "asm_offsets (Label name # items) offs pc =
     (if fmlookup offs name \<noteq> None then Inl (DuplicateLabel name)
      else asm_offsets items (fmupd name pc offs) (pc + instr_width (Label name)))"
| "asm_offsets (i # items) offs pc = asm_offsets items offs (pc + instr_width i)"

text \<open>Pass 2: emit. The source appends to one output vector.\<close>

fun asm_item :: "(string, nat) fmap \<Rightarrow> instr \<Rightarrow> asm_error + bytes" where
  "asm_item offs (Label _) = Inr []"
| "asm_item offs (Push v) = Inr (asm_push v)"
| "asm_item offs (PushLabel name) =
     try_then (ok_or (fmlookup offs name) (UndefinedLabel name)) (\<lambda>off.
     Inr (asm_push (of_nat off)))"
| "asm_item offs Revert = Inr (asm_push 1 @ asm_push 0 @ [0x06])"
| "asm_item offs i = Inr [the (opcode i)]"

fun asm_emit :: "(string, nat) fmap \<Rightarrow> instr list \<Rightarrow> bytes \<Rightarrow> asm_error + bytes" where
  "asm_emit offs [] out = Inr out"
| "asm_emit offs (i # items) out =
     try_then (asm_item offs i) (\<lambda>bs. asm_emit offs items (out @ bs))"

definition assemble :: "instr list \<Rightarrow> asm_error + bytes" where
  "assemble items =
     try_then (asm_offsets items fmempty 0) (\<lambda>offs. asm_emit offs items [])"

section \<open>What the assembler promises\<close>

text \<open>The byte offset of the \<open>i\<close>-th item, the labels a program defines and those it uses.\<close>

definition item_offset :: "instr list \<Rightarrow> nat \<Rightarrow> nat" where
  "item_offset items i = sum_list (map instr_width (take i items))"

fun defined_labels :: "instr list \<Rightarrow> string list" where
  "defined_labels [] = []"
| "defined_labels (Label l # items) = l # defined_labels items"
| "defined_labels (_ # items) = defined_labels items"

fun used_labels :: "instr list \<Rightarrow> string list" where
  "used_labels [] = []"
| "used_labels (PushLabel l # items) = l # used_labels items"
| "used_labels (_ # items) = used_labels items"

text \<open>The position a label resolves to: the offset of the item that defines it.\<close>

fun label_offset :: "instr list \<Rightarrow> string \<Rightarrow> nat option" where
  "label_offset [] l = None"
| "label_offset (Label l' # items) l =
     (if l' = l then Some 0 else label_offset items l)"
| "label_offset (i # items) l = map_option (\<lambda>n. instr_width i + n) (label_offset items l)"

lemma opcode_None_iff:
  "opcode i = None \<longleftrightarrow> (case i of Push _ \<Rightarrow> True | PushLabel _ \<Rightarrow> True | Label _ \<Rightarrow> True
     | Revert \<Rightarrow> True | _ \<Rightarrow> False)"
  by (cases i) auto

lemma asm_item_length: "asm_item offs i = Inr bs \<Longrightarrow> length bs = instr_width i"
  by (cases i) (auto simp: asm_push_def)

lemma asm_item_Inr_iff:
  "(\<exists>bs. asm_item offs i = Inr bs) \<longleftrightarrow> (\<forall>l. i = PushLabel l \<longrightarrow> fmlookup offs l \<noteq> None)"
  by (cases i) auto

lemma asm_emit_Inr:
  "asm_emit offs items out = Inr code \<longleftrightarrow>
     (\<exists>bss. code = out @ concat bss \<and> list_all2 (\<lambda>i bs. asm_item offs i = Inr bs) items bss)"
proof (induction items arbitrary: out)
  case Nil
  then show ?case by auto
next
  case (Cons i items)
  show ?case
    by (auto simp: Cons.IH list_all2_Cons1) (metis append.assoc concat.simps(2))+
qed

lemma asm_emit_error:
  "asm_emit offs items out = Inl e \<longleftrightarrow>
     (\<exists>l. e = UndefinedLabel l \<and> find (\<lambda>l. fmlookup offs l = None) (used_labels items) = Some l)"
proof (induction items arbitrary: out)
  case Nil
  then show ?case by simp
next
  case (Cons i items)
  then show ?case by (cases i) (auto simp: try_then_Inl ok_or_def split: option.splits)
qed

lemma asm_offsets_lookup:
  "asm_offsets items offs pc = Inr offs' \<Longrightarrow>
     fmlookup offs' l = (case fmlookup offs l of Some n \<Rightarrow> Some n
       | None \<Rightarrow> (case label_offset items l of None \<Rightarrow> None | Some n \<Rightarrow> Some (pc + n)))"
proof (induction items offs pc rule: asm_offsets.induct)
  case (2 name items offs pc)
  then show ?case by (auto split: if_splits option.splits)
qed (auto split: option.splits)

lemma asm_offsets_Inr:
  "(\<exists>offs'. asm_offsets items offs pc = Inr offs') \<longleftrightarrow>
     distinct (defined_labels items) \<and> (\<forall>l \<in> set (defined_labels items). fmlookup offs l = None)"
  by (induction items offs pc rule: asm_offsets.induct) auto

lemma label_offset_None: "label_offset items l = None \<longleftrightarrow> l \<notin> set (defined_labels items)"
  by (induction items l rule: label_offset.induct) auto

lemma label_offset_Cons:
  "label_offset (i # items) l = (if i = Label l then Some 0
     else map_option (\<lambda>n. instr_width i + n) (label_offset items l))"
  by (cases i) (auto simp: option.map_ident)

lemma label_offset_Some:
  "label_offset items l = Some n \<Longrightarrow>
     \<exists>j < length items. items ! j = Label l \<and> n = item_offset items j"
proof (induction items arbitrary: n)
  case (Cons i items)
  show ?case
  proof (cases "i = Label l")
    case True
    then show ?thesis using Cons.prems
      by (intro exI [of _ 0]) (simp add: item_offset_def label_offset_Cons)
  next
    case False
    then obtain m where m: "label_offset items l = Some m" "n = instr_width i + m"
      using Cons.prems by (auto simp: label_offset_Cons)
    from Cons.IH [OF m(1)] obtain j where "j < length items" "items ! j = Label l"
      "m = item_offset items j" by blast
    then show ?thesis using m(2) by (intro exI [of _ "Suc j"]) (simp add: item_offset_def)
  qed
qed simp

lemma used_labels_iff: "l \<in> set (used_labels items) \<longleftrightarrow> PushLabel l \<in> set items"
  by (induction items rule: used_labels.induct) auto

lemma defined_labels_iff: "l \<in> set (defined_labels items) \<longleftrightarrow> Label l \<in> set items"
  by (induction items rule: defined_labels.induct) auto

text \<open>The bytes an item must become, by the opcode table and the label positions alone.\<close>

definition item_bytes :: "instr list \<Rightarrow> instr \<Rightarrow> bytes" where
  "item_bytes items i = (case i of
      Label _ \<Rightarrow> []
    | Push v \<Rightarrow> 0x01 # le_bytes 8 v
    | PushLabel l \<Rightarrow> 0x01 # le_bytes 8 (of_nat (the (label_offset items l)) :: u64)
    | Revert \<Rightarrow> 0x01 # le_bytes 8 (1 :: u64) @ 0x01 # le_bytes 8 (0 :: u64) @ [0x06]
    | _ \<Rightarrow> [the (opcode i)])"

lemma asm_item_bytes:
  assumes "\<And>l. fmlookup offs l = label_offset items l"
  shows "asm_item offs i = Inr bs \<longleftrightarrow>
    bs = item_bytes items i \<and> (\<forall>l. i = PushLabel l \<longrightarrow> label_offset items l \<noteq> None)"
  by (cases i) (auto simp: item_bytes_def asm_push_def assms)

lemma list_all2_fun:
  "list_all2 (\<lambda>x y. y = f x \<and> P x) xs ys \<longleftrightarrow> ys = map f xs \<and> (\<forall>x \<in> set xs. P x)"
  by (induction xs arbitrary: ys) (auto simp: list_all2_Cons1)

lemma assemble_Inr:
  "assemble items = Inr code \<longleftrightarrow>
     distinct (defined_labels items) \<and> set (used_labels items) \<subseteq> set (defined_labels items) \<and>
     code = concat (map (item_bytes items) items)"
proof (cases "asm_offsets items fmempty 0")
  case (Inl e)
  then show ?thesis using asm_offsets_Inr [of items fmempty 0] by (auto simp: assemble_def)
next
  case (Inr offs)
  have lk: "\<And>l. fmlookup offs l = label_offset items l"
    using asm_offsets_lookup [OF Inr] by (simp split: option.splits)
  have "assemble items = Inr code \<longleftrightarrow>
      (\<exists>bss. code = concat bss \<and> list_all2 (\<lambda>i bs. asm_item offs i = Inr bs) items bss)"
    using Inr by (simp add: assemble_def asm_emit_Inr)
  also have "\<dots> \<longleftrightarrow> code = concat (map (item_bytes items) items) \<and>
      (\<forall>l \<in> set (used_labels items). label_offset items l \<noteq> None)"
    unfolding asm_item_bytes [OF lk] list_all2_fun Ball_def used_labels_iff by blast
  finally show ?thesis
    using asm_offsets_Inr [of items fmempty 0] Inr
    by (auto simp: label_offset_None subset_iff)
qed

lemma length_item_bytes: "length (item_bytes items i) = instr_width i"
  by (cases i) (auto simp: item_bytes_def asm_push_def)

lemma concat_slice:
  assumes "i < length xs" and "\<And>x. length (f x) = w x"
  shows "take (w (xs ! i)) (drop (sum_list (map w (take i xs))) (concat (map f xs))) = f (xs ! i)"
proof -
  have "length (concat (map f (take i xs))) = sum_list (map w (take i xs))"
    using assms(2) by (simp add: length_concat comp_def)
  moreover have "concat (map f xs) =
      concat (map f (take i xs)) @ f (xs ! i) @ concat (map f (drop (Suc i) xs))"
    using assms(1) by (metis concat.simps(2) concat_append id_take_nth_drop list.simps(9) map_append)
  ultimately show ?thesis using assms(2) by simp
qed

text \<open>
  the assembler emits every instruction where its labels say. On success the \<open>i\<close>-th item's
  bytes (opcode table, little-endian operands, three-part REVERT) stand at its offset, and a
  \<open>PushLabel\<close> carries the offset of the one item that defines its label.
\<close>

theorem assemble_correct:
  assumes "assemble items = Inr code" and "i < length items"
  shows "take (instr_width (items ! i)) (drop (item_offset items i) code) = item_bytes items (items ! i)
    \<and> (\<forall>l. items ! i = PushLabel l \<longrightarrow>
        (\<exists>j < length items. items ! j = Label l \<and>
           item_bytes items (items ! i) = asm_push (of_nat (item_offset items j))))"
proof
  from assms(1) have code: "code = concat (map (item_bytes items) items)"
    and lab: "set (used_labels items) \<subseteq> set (defined_labels items)" by (auto simp: assemble_Inr)
  show "take (instr_width (items ! i)) (drop (item_offset items i) code) = item_bytes items (items ! i)"
    using concat_slice [OF assms(2), of "item_bytes items" instr_width] length_item_bytes
    by (simp add: code item_offset_def)
  show "\<forall>l. items ! i = PushLabel l \<longrightarrow> (\<exists>j < length items. items ! j = Label l \<and>
      item_bytes items (items ! i) = asm_push (of_nat (item_offset items j)))"
  proof (intro allI impI)
    fix l
    assume l: "items ! i = PushLabel l"
    then have "l \<in> set (used_labels items)" using assms(2) by (metis nth_mem used_labels_iff)
    then obtain n where n: "label_offset items l = Some n" using lab label_offset_None by fastforce
    from label_offset_Some [OF n] obtain j where "j < length items" "items ! j = Label l"
      "n = item_offset items j" by blast
    then show "\<exists>j < length items. items ! j = Label l \<and>
        item_bytes items (items ! i) = asm_push (of_nat (item_offset items j))"
      using l n by (auto simp: item_bytes_def asm_push_def)
  qed
qed

theorem assemble_correct_witness:
  "take 9 (drop 0 [0x01,0x0A,0,0,0,0,0,0,0,0x0D,0x00]) =
     item_bytes [PushLabel ''e'', Jump, Label ''e'', Stop] (PushLabel ''e'')"
proof -
  have "assemble [PushLabel ''e'', Jump, Label ''e'', Stop] =
      Inr [0x01,0x0A,0,0,0,0,0,0,0,0x0D,0x00]"
    by (simp add: assemble_def asm_push_def le_bytes_def upt_rec)
  from assemble_correct [OF this, of 0] show ?thesis by (simp add: item_offset_def)
qed

text \<open>
  assembly fails exactly on a label defined twice or a label used and never defined.
\<close>

theorem assemble_ok_iff:
  "(\<exists>code. assemble items = Inr code) \<longleftrightarrow>
     distinct (defined_labels items) \<and> set (used_labels items) \<subseteq> set (defined_labels items)"
  by (auto simp: assemble_Inr)

end
