(* ===== verification/Curve.thy ===== *)
theory Curve
  imports Assembler
begin

text \<open>
  The bonding curve of \<^verbatim>\<open>lat-contracts/src/bonding_curve.rs\<close>: the contract program as the source
  builds it with the assembler, the call ABI, and the Rust reference \<open>apply_buy\<close> / \<open>apply_sell\<close>.
  The lemmas give the constant-product invariant, the absence of wrap-around and of division by
  zero under it, and that a round trip never profits.
\<close>

section \<open>Parameters and call ABI\<close>

definition VLAT0 :: u64 where "VLAT0 = 30 * 100000"
definition VTOK0 :: u64 where "VTOK0 = 1000000000"
definition GRADUATE_LAT :: u64 where "GRADUATE_LAT = 500 * 100000"
definition FEE_DIVISOR :: u64 where "FEE_DIVISOR = 100"
definition MAX_TRADE :: u64 where "MAX_TRADE = 5000000000"

definition SLOT_VLAT :: u64 where "SLOT_VLAT = 0"
definition SLOT_VTOK :: u64 where "SLOT_VTOK = 1"
definition SLOT_REAL_LAT :: u64 where "SLOT_REAL_LAT = 2"
definition SLOT_GRADUATED :: u64 where "SLOT_GRADUATED = 3"
definition SLOT_INIT :: u64 where "SLOT_INIT = 4"
definition S_SIDE :: u64 where "S_SIDE = 10"
definition S_AMOUNT :: u64 where "S_AMOUNT = 11"
definition S_KEY :: u64 where "S_KEY = 12"
definition S_HOLD :: u64 where "S_HOLD = 13"
definition S_FEE :: u64 where "S_FEE = 14"
definition S_NET :: u64 where "S_NET = 15"
definition S_DENOM :: u64 where "S_DENOM = 16"
definition S_OUT :: u64 where "S_OUT = 17"

definition BIT63 :: u64 where "BIT63 = push_bit 63 1"
definition MASK63 :: u64 where "MASK63 = BIT63 - 1"

definition holdings_key :: "id32 \<Rightarrow> u64" where
  "holdings_key caller =
     (let c = of_le (take 8 (be_bytes 32 caller)) :: u64 in or (and c MASK63) BIT63)"

definition encode_trade :: "bool \<Rightarrow> u64 \<Rightarrow> u64" where
  "encode_trade is_buy amount = or (push_bit 63 (bool_word is_buy)) (and amount MASK63)"

definition decode_trade :: "u64 \<Rightarrow> bool \<times> u64" where
  "decode_trade inp = (drop_bit 63 inp = 1, and inp MASK63)"

section \<open>The contract program\<close>

definition load :: "u64 \<Rightarrow> instr list" where
  "load slot = [Push slot, Sload]"

definition save :: "u64 \<Rightarrow> instr list" where
  "save slot = [Push slot, Swap, Sstore]"

text \<open>The program in the order the source appends it, one list per comment of the source.\<close>

definition prog_prologue :: "instr list" where
  "prog_prologue =
     load SLOT_INIT @ [PushLabel ''post_init'', JumpI]
     @ [Push SLOT_VLAT, Push VLAT0, Sstore] @ [Push SLOT_VTOK, Push VTOK0, Sstore]
     @ [Push SLOT_REAL_LAT, Push 0, Sstore] @ [Push SLOT_GRADUATED, Push 0, Sstore]
     @ [Push SLOT_INIT, Push 1, Sstore] @ [Label ''post_init'']
     @ load SLOT_GRADUATED @ [PushLabel ''rev'', JumpI]"

definition prog_decode :: "instr list" where
  "prog_decode =
     [Input, Push BIT63, Div] @ save S_SIDE
     @ [Input, Push MASK63, And] @ save S_AMOUNT
     @ [Caller, Push MASK63, And, Push BIT63, Add] @ save S_KEY
     @ load S_AMOUNT @ [Push 0, Eq] @ [PushLabel ''rev'', JumpI]
     @ load S_AMOUNT @ [Push MAX_TRADE, Gt] @ [PushLabel ''rev'', JumpI]
     @ load S_SIDE @ [PushLabel ''buy'', JumpI]"

definition prog_sell :: "instr list" where
  "prog_sell =
     [Label ''sell'']
     @ load S_KEY @ [Sload] @ save S_HOLD
     @ load S_AMOUNT @ load S_HOLD @ [Gt, PushLabel ''rev'', JumpI]
     @ load SLOT_VTOK @ load S_AMOUNT @ [Add] @ save S_DENOM
     @ load SLOT_VLAT @ load S_AMOUNT @ [Mul] @ load S_DENOM @ [Div] @ save S_OUT
     @ load SLOT_VTOK @ load S_AMOUNT @ [Add] @ save SLOT_VTOK
     @ load SLOT_VLAT @ load S_OUT @ [Sub] @ save SLOT_VLAT
     @ load SLOT_REAL_LAT @ load S_OUT @ [Lt, PushLabel ''rl_zero'', JumpI]
     @ load SLOT_REAL_LAT @ load S_OUT @ [Sub] @ save SLOT_REAL_LAT
     @ [PushLabel ''rl_done'', Jump]
     @ [Label ''rl_zero'', Push 0] @ save SLOT_REAL_LAT @ [Label ''rl_done'']
     @ load S_HOLD @ load S_AMOUNT @ [Sub] @ load S_KEY @ [Swap, Sstore]
     @ [PushLabel ''grad'', Jump]"

definition prog_buy :: "instr list" where
  "prog_buy =
     [Label ''buy'']
     @ load S_AMOUNT @ [Push FEE_DIVISOR, Div] @ save S_FEE
     @ load S_AMOUNT @ load S_FEE @ [Sub] @ save S_NET
     @ load SLOT_VLAT @ load S_NET @ [Add] @ save S_DENOM
     @ load SLOT_VTOK @ load S_NET @ [Mul] @ load S_DENOM @ [Div] @ save S_OUT
     @ load SLOT_VLAT @ load S_NET @ [Add] @ save SLOT_VLAT
     @ load SLOT_VTOK @ load S_OUT @ [Sub] @ save SLOT_VTOK
     @ load SLOT_REAL_LAT @ load S_NET @ [Add] @ save SLOT_REAL_LAT
     @ load S_KEY @ [Sload] @ load S_OUT @ [Add] @ load S_KEY @ [Swap, Sstore]
     @ [PushLabel ''grad'', Jump]"

definition prog_exits :: "instr list" where
  "prog_exits =
     [Label ''grad''] @ load SLOT_REAL_LAT @ [Push GRADUATE_LAT, Lt, PushLabel ''end'', JumpI]
     @ [Push SLOT_GRADUATED, Push 1, Sstore]
     @ [Label ''end'', Stop] @ [Label ''rev'', Revert]"

definition program :: "u64 option \<Rightarrow> asm_error + bytes" where
  "program salt =
     assemble ((case salt of Some s \<Rightarrow> [Push s, Pop] | None \<Rightarrow> [])
       @ prog_prologue @ prog_decode @ prog_sell @ prog_buy @ prog_exits)"

definition bytecode :: "asm_error + bytes" where
  "bytecode = program None"

definition bytecode_for :: "u64 \<Rightarrow> asm_error + bytes" where
  "bytecode_for salt = program (Some salt)"

definition ticker_salt :: "(bytes \<Rightarrow> id32) \<Rightarrow> bytes \<Rightarrow> u64" where
  "ticker_salt blake3 ticker =
     of_le (take 8 (be_bytes 32 (blake3 (ascii ''LAT-curve-salt'' @ ticker))))"

definition curve_id :: "(bytes \<Rightarrow> id32) \<Rightarrow> id32 \<Rightarrow> bytes \<Rightarrow> asm_error + id32" where
  "curve_id blake3 creator ticker =
     try_then (bytecode_for (ticker_salt blake3 ticker)) (\<lambda>code.
     Inr (contract_id blake3 creator code))"

section \<open>The reference curve\<close>

record curve =
  vlat :: u64
  vtok :: u64
  real_lat :: u64
  graduated :: bool

definition curve_default :: curve where
  "curve_default = \<lparr>vlat = VLAT0, vtok = VTOK0, real_lat = 0, graduated = False\<rparr>"

record fill =
  fill_out :: u64
  fill_fee :: u64

text \<open>\<^verbatim>\<open>None\<close> of the source is a trade that would revert; \<open>Panic\<close> is the division by zero.\<close>

definition apply_buy :: "curve \<Rightarrow> u64 \<Rightarrow> panic + (fill \<times> curve) option" where
  "apply_buy c amount =
    (if graduated c \<or> amount = 0 \<or> amount > MAX_TRADE then Inr None
     else
       let fee = amount div FEE_DIVISOR; net = amount - fee; denom = vlat c + net in
       if denom = 0 then Inl Panic
       else
         let tok = ucast ((ucast (vtok c) * ucast net :: u128) div ucast denom) :: u64;
             c1 = c\<lparr>vlat := vlat c + net, vtok := vtok c - tok, real_lat := real_lat c + net\<rparr>;
             c2 = (if real_lat c1 \<ge> GRADUATE_LAT then c1\<lparr>graduated := True\<rparr> else c1) in
         Inr (Some (\<lparr>fill_out = tok, fill_fee = fee\<rparr>, c2)))"

definition apply_sell :: "curve \<Rightarrow> u64 \<Rightarrow> u64 \<Rightarrow> panic + (fill \<times> curve) option" where
  "apply_sell c amount hold =
    (if graduated c \<or> amount = 0 \<or> amount > MAX_TRADE \<or> amount > hold then Inr None
     else
       let denom = vtok c + amount in
       if denom = 0 then Inl Panic
       else
         let gross = ucast ((ucast (vlat c) * ucast amount :: u128) div ucast denom) :: u64;
             fee = gross div FEE_DIVISOR;
             c1 = c\<lparr>vtok := vtok c + amount, vlat := vlat c - gross,
                    real_lat := saturating_sub (real_lat c) gross\<rparr> in
         Inr (Some (\<lparr>fill_out = gross - fee, fill_fee = fee\<rparr>, c1)))"

definition price_scaled :: "curve \<Rightarrow> panic + u64" where
  "price_scaled c =
    (if vtok c = 0 then Inl Panic
     else Inr (ucast ((ucast (vlat c) * 1000000000 :: u128) div ucast (vtok c))))"

definition graduation_bps :: "curve \<Rightarrow> u64" where
  "graduation_bps c =
     ucast (min ((ucast (real_lat c) * 10000 :: u128) div ucast GRADUATE_LAT) 10000)"

section \<open>The constant product\<close>

text \<open>
  The reachable curves: the product of the reserves never falls below its initial value, the
  token reserve never exceeds it, the LAT reserve is the virtual one plus what was collected,
  and an open curve has collected less than the graduation target.
\<close>

definition curve_inv :: "curve \<Rightarrow> bool" where
  "curve_inv c \<longleftrightarrow>
     3000000 * 1000000000 \<le> unat (vlat c) * unat (vtok c) \<and> unat (vtok c) \<le> 1000000000 \<and>
     unat (vlat c) = 3000000 + unat (real_lat c) \<and>
     (if graduated c then unat (real_lat c) < 50000000 + 5000000000
      else unat (real_lat c) < 50000000)"

lemmas curve_params = VLAT0_def VTOK0_def GRADUATE_LAT_def FEE_DIVISOR_def MAX_TRADE_def

lemma swap_product:
  fixes v t n :: nat
  shows "(v + n) * (t * n div (v + n)) \<le> t * n" and "t * n div (v + n) \<le> t"
    and "v * t \<le> (v + n) * (t - t * n div (v + n))"
proof -
  let ?out = "t * n div (v + n)"
  show *: "(v + n) * ?out \<le> t * n" by simp
  also have "\<dots> \<le> (v + n) * t" by (simp add: algebra_simps)
  finally have "(v + n) * ?out \<le> (v + n) * t" .
  then show "?out \<le> t" by (cases "v + n = 0") auto
  then have "(v + n) * (t - ?out) = (v + n) * t - (v + n) * ?out" by (simp add: diff_mult_distrib2)
  also have "\<dots> \<ge> (v + n) * t - t * n" using * by (intro diff_le_mono2)
  finally show "v * t \<le> (v + n) * (t - ?out)" by (simp add: algebra_simps)
qed

lemma unat_buy_net:
  "unat (amount - amount div FEE_DIVISOR) = unat amount - unat amount div 100"
  by (simp add: FEE_DIVISOR_def unat_sub word_le_nat_alt unat_div)

text \<open> What a fill of each side is, on natural numbers, for a curve within its bounds.\<close>

lemma apply_buy_cases:
  assumes inv: "curve_inv c" and net: "net = unat amount - unat amount div 100"
    and tok: "tok = unat (vtok c) * net div (unat (vlat c) + net)"
  shows "apply_buy c amount = Inr None \<and> (graduated c \<or> amount = 0 \<or> amount > MAX_TRADE) \<or>
    (\<exists>f c'. apply_buy c amount = Inr (Some (f, c')) \<and>
       \<not> graduated c \<and> 0 < unat amount \<and> unat amount \<le> 5000000000 \<and>
       unat (fill_out f) = tok \<and> unat (fill_fee f) = unat amount div 100 \<and>
       unat (vlat c') = unat (vlat c) + net \<and> unat (vtok c') = unat (vtok c) - tok \<and>
       unat (real_lat c') = unat (real_lat c) + net \<and>
       (graduated c' \<longleftrightarrow> unat (real_lat c') \<ge> 50000000))"
proof (cases "graduated c \<or> amount = 0 \<or> amount > MAX_TRADE")
  case True
  then show ?thesis by (simp add: apply_buy_def)
next
  case False
  let ?net = "amount - amount div FEE_DIVISOR"
  let ?tok = "ucast ((ucast (vtok c) * ucast ?net :: u128) div ucast (vlat c + ?net)) :: u64"
  let ?c1 = "c\<lparr>vlat := vlat c + ?net, vtok := vtok c - ?tok, real_lat := real_lat c + ?net\<rparr>"
  let ?c2 = "if real_lat ?c1 \<ge> GRADUATE_LAT then ?c1\<lparr>graduated := True\<rparr> else ?c1"
  from False have amt: "0 < unat amount" "unat amount \<le> 5000000000" "\<not> graduated c"
    by (auto simp: word_le_nat_alt word_less_nat_alt MAX_TRADE_def unat_gt_0 not_less)
  have rl: "unat (real_lat c) < 50000000" and vl: "unat (vlat c) < 53000000"
    and vt: "unat (vtok c) \<le> 1000000000"
    using inv amt by (auto simp: curve_inv_def)
  have n: "unat ?net = net" "0 < net" "net \<le> 5000000000"
    using amt unat_buy_net [of amount] unfolding net by (auto simp: div_less_dividend)
  have v': "unat (vlat c + ?net) = unat (vlat c) + net" using vl n by (subst unat_add_small) auto
  have r': "unat (real_lat c + ?net) = unat (real_lat c) + net" using rl n by (subst unat_add_small) auto
  have out: "unat ?tok = tok"
  proof -
    have "unat (vtok c) * net div (unat (vlat c) + net) < 2 ^ 64"
      using swap_product(2) [where v = "unat (vlat c)" and t = "unat (vtok c)" and n = net] vt by auto
    then show ?thesis unfolding unat_mul_div n(1) v' tok by (rule mod_less)
  qed
  then have "?tok \<le> vtok c"
    using swap_product(2) [where v = "unat (vlat c)" and t = "unat (vtok c)" and n = net]
    by (simp add: word_le_nat_alt tok)
  then have t': "unat (vtok c - ?tok) = unat (vtok c) - unat ?tok" by (simp add: unat_sub_if_le)
  have nz: "vlat c + ?net \<noteq> 0" using v' n by (metis add_is_0 less_not_refl unat_0)
  have "apply_buy c amount = Inr (Some (\<lparr>fill_out = ?tok, fill_fee = amount div FEE_DIVISOR\<rparr>, ?c2))"
    using False nz by (simp add: apply_buy_def Let_def)
  moreover have "graduated ?c2 \<longleftrightarrow> unat (real_lat c) + net \<ge> 50000000"
    using amt r' by (auto simp: word_le_nat_alt GRADUATE_LAT_def)
  moreover have "unat (vlat ?c2) = unat (vlat c) + net" "unat (vtok ?c2) = unat (vtok c) - unat ?tok"
    "unat (real_lat ?c2) = unat (real_lat c) + net" using v' t' r' by auto
  moreover have "unat (amount div FEE_DIVISOR) = unat amount div 100"
    by (simp add: FEE_DIVISOR_def unat_div)
  ultimately show ?thesis using amt out unfolding tok by (intro disjI2 exI conjI) auto
qed

lemma apply_sell_cases:
  assumes inv: "curve_inv c" and held: "unat (vtok c) + unat hold \<le> 1000000000"
    and gross: "g = unat (vlat c) * unat amount div (unat (vtok c) + unat amount)"
  shows "apply_sell c amount hold = Inr None \<and>
      (graduated c \<or> amount = 0 \<or> amount > MAX_TRADE \<or> amount > hold) \<or>
    (\<exists>f c'. apply_sell c amount hold = Inr (Some (f, c')) \<and>
       \<not> graduated c \<and> 0 < unat amount \<and> amount \<le> hold \<and>
       g \<le> unat (real_lat c) \<and>
       unat (fill_out f) = g - g div 100 \<and> unat (fill_fee f) = g div 100 \<and>
       unat (vlat c') = unat (vlat c) - g \<and> unat (vtok c') = unat (vtok c) + unat amount \<and>
       unat (real_lat c') = unat (real_lat c) - g \<and> \<not> graduated c')"
proof (cases "graduated c \<or> amount = 0 \<or> amount > MAX_TRADE \<or> amount > hold")
  case True
  then show ?thesis by (simp add: apply_sell_def)
next
  case False
  let ?gross = "ucast ((ucast (vlat c) * ucast amount :: u128) div ucast (vtok c + amount)) :: u64"
  from False have amt: "0 < unat amount" "unat amount \<le> unat hold" "\<not> graduated c" "amount \<le> hold"
    by (auto simp: word_le_nat_alt unat_gt_0 not_less)
  have rl: "unat (real_lat c) < 50000000" and vl: "unat (vlat c) = 3000000 + unat (real_lat c)"
    and k: "3000000 * 1000000000 \<le> unat (vlat c) * unat (vtok c)"
    using inv amt by (auto simp: curve_inv_def)
  have t': "unat (vtok c + amount) = unat (vtok c) + unat amount"
    using held amt by (subst unat_add_small) auto
  have gle: "g \<le> unat (vlat c)" unfolding gross by (rule swap_product)
  then have "g < 2 ^ 64" using rl vl by auto
  then have g: "unat ?gross = g" unfolding unat_mul_div t' gross by (rule mod_less)
  have "unat (vtok c) * unat (vlat c) \<le> (unat (vtok c) + unat amount) * (unat (vlat c) - g)"
    unfolding gross by (rule swap_product)
  also have "\<dots> \<le> 1000000000 * (unat (vlat c) - g)"
    using held amt by (intro mult_right_mono) auto
  finally have "3000000 \<le> unat (vlat c) - g" using k by (simp add: mult.commute)
  then have gr: "g \<le> unat (real_lat c)" using vl by simp
  have v': "unat (vlat c - ?gross) = unat (vlat c) - g"
    using gle g by (subst unat_sub_if_le) (auto simp: word_le_nat_alt)
  have f: "unat (?gross div FEE_DIVISOR) = g div 100"
    unfolding FEE_DIVISOR_def unat_div g by simp
  have o: "unat (?gross - ?gross div FEE_DIVISOR) = g - g div 100"
    by (subst unat_sub_if_le) (auto simp: word_le_nat_alt f g simp del: unat_mul_div)
  have nz: "vtok c + amount \<noteq> 0" using t' amt by (metis add_is_0 less_not_refl unat_0)
  show ?thesis
    using False nz amt gr v' t' f o g
    by (simp add: apply_sell_def Let_def unat_saturating_sub)
qed

lemma curve_inv_buy:
  assumes "curve_inv c" and "apply_buy c amount = Inr (Some (f, c'))"
  shows "curve_inv c'" and "unat (vtok c') + unat (fill_out f) = unat (vtok c)"
    and "unat (vlat c') + unat (fill_fee f) = unat (vlat c) + unat amount"
proof -
  define net where "net = unat amount - unat amount div 100"
  let ?tok = "unat (vtok c) * net div (unat (vlat c) + net)"
  from apply_buy_cases [OF assms(1) net_def refl] assms(2) have *:
    "\<not> graduated c" "unat amount \<le> 5000000000"
    "unat (fill_out f) = ?tok" "unat (fill_fee f) = unat amount div 100"
    "unat (vlat c') = unat (vlat c) + net" "unat (vtok c') = unat (vtok c) - ?tok"
    "unat (real_lat c') = unat (real_lat c) + net"
    "graduated c' \<longleftrightarrow> unat (real_lat c') \<ge> 50000000"
    by auto
  note sp = swap_product [where v = "unat (vlat c)" and t = "unat (vtok c)" and n = net]
  have net: "net + unat amount div 100 = unat amount" by (simp add: net_def)
  show "unat (vtok c') + unat (fill_out f) = unat (vtok c)" using sp(2) * by linarith
  show "unat (vlat c') + unat (fill_fee f) = unat (vlat c) + unat amount" using * net by linarith
  have "unat (vlat c) * unat (vtok c) \<le> unat (vlat c') * unat (vtok c')"
    using sp(3) unfolding *(5,6) .
  then show "curve_inv c'" using * net assms(1) unfolding curve_inv_def
    by (intro conjI) (auto split: if_splits)
qed

lemma curve_inv_sell:
  assumes "curve_inv c" and "unat (vtok c) + unat hold \<le> 1000000000"
    and "apply_sell c amount hold = Inr (Some (f, c'))"
  shows "curve_inv c'" and "unat (vtok c') = unat (vtok c) + unat amount" and "amount \<le> hold"
    and "unat (vlat c') + unat (fill_out f) + unat (fill_fee f) = unat (vlat c)"
proof -
  let ?g = "unat (vlat c) * unat amount div (unat (vtok c) + unat amount)"
  from apply_sell_cases [OF assms(1,2) refl, of amount] assms(3) have *:
    "\<not> graduated c" "amount \<le> hold" "?g \<le> unat (real_lat c)"
    "unat (fill_out f) = ?g - ?g div 100" "unat (fill_fee f) = ?g div 100"
    "unat (vlat c') = unat (vlat c) - ?g" "unat (vtok c') = unat (vtok c) + unat amount"
    "unat (real_lat c') = unat (real_lat c) - ?g" "\<not> graduated c'"
    by auto
  note sp = swap_product [where v = "unat (vtok c)" and t = "unat (vlat c)" and n = "unat amount"]
  show "unat (vtok c') = unat (vtok c) + unat amount" "amount \<le> hold" using * by auto
  show "unat (vlat c') + unat (fill_out f) + unat (fill_fee f) = unat (vlat c)"
    using sp(2) div_le_dividend [of ?g 100] unfolding *(4,5,6) by linarith
  have "unat (vtok c) * unat (vlat c) \<le> unat (vtok c') * unat (vlat c')"
    using sp(3) unfolding *(6,7) .
  then show "curve_inv c'" unfolding curve_inv_def
    using * assms(1,2) unfolding curve_inv_def
    by (intro conjI) (auto simp: word_le_nat_alt mult.commute split: if_splits)
qed

section \<open>The claims\<close>

text \<open>
  a buy on a curve within its invariant never wraps or divides by zero. It is refused exactly
  when the curve has graduated or the amount is zero or too large; otherwise the tokens paid out
  are those the reserve loses, the LAT reserve gains the amount less the fee, and the invariant
  (in particular the constant product) holds again.
\<close>

theorem curve_buy_safe:
  assumes "curve_inv c"
  shows "case apply_buy c amount of
      Inl _ \<Rightarrow> False
    | Inr None \<Rightarrow> graduated c \<or> amount = 0 \<or> amount > MAX_TRADE
    | Inr (Some (f, c')) \<Rightarrow> curve_inv c' \<and> \<not> graduated c \<and>
        unat (vtok c') + unat (fill_out f) = unat (vtok c) \<and>
        unat (vlat c') + unat (fill_fee f) = unat (vlat c) + unat amount"
proof -
  consider (refused) "apply_buy c amount = Inr None" "graduated c \<or> amount = 0 \<or> amount > MAX_TRADE"
    | (filled) f c' where "apply_buy c amount = Inr (Some (f, c'))" "\<not> graduated c"
    using apply_buy_cases [OF assms refl refl, of amount] by blast
  then show ?thesis
  proof cases
    case refused
    then show ?thesis by simp
  next
    case filled
    then show ?thesis using curve_inv_buy [OF assms filled(1)] by simp
  qed
qed

theorem curve_buy_safe_witness:
  "curve_inv curve_default \<and>
   (case apply_buy curve_default 1000000 of Inr (Some (f, c')) \<Rightarrow>
      fill_out f = 248120300 \<and> curve_inv c' | _ \<Rightarrow> False)"
proof -
  have i: "curve_inv curve_default"
    by (simp add: curve_inv_def curve_default_def curve_params)
  have "apply_buy curve_default 1000000 = Inr (Some (\<lparr>fill_out = 248120300, fill_fee = 10000\<rparr>,
      \<lparr>vlat = 3990000, vtok = 751879700, real_lat = 990000, graduated = False\<rparr>))"
    by (simp add: apply_buy_def curve_default_def curve_params)
  then show ?thesis using curve_buy_safe [OF i, of 1000000] i by simp
qed

text \<open>
  C15: a sell of tokens that were bought from the curve (the holding and the reserve together do
  not exceed the supply) never wraps, divides by zero or pays out more LAT than was collected:
  payout and fee come out of the LAT reserve, which stays above its virtual part.
\<close>

theorem curve_sell_safe:
  assumes "curve_inv c" and "unat (vtok c) + unat hold \<le> unat VTOK0"
  shows "case apply_sell c amount hold of
      Inl _ \<Rightarrow> False
    | Inr None \<Rightarrow> graduated c \<or> amount = 0 \<or> amount > MAX_TRADE \<or> amount > hold
    | Inr (Some (f, c')) \<Rightarrow> curve_inv c' \<and> amount \<le> hold \<and>
        unat (vtok c') = unat (vtok c) + unat amount \<and>
        unat (vlat c') + unat (fill_out f) + unat (fill_fee f) = unat (vlat c) \<and>
        unat (real_lat c') + unat (fill_out f) + unat (fill_fee f) = unat (real_lat c)"
proof -
  have h: "unat (vtok c) + unat hold \<le> 1000000000" using assms(2) by (simp add: VTOK0_def)
  consider (refused) "apply_sell c amount hold = Inr None"
      "graduated c \<or> amount = 0 \<or> amount > MAX_TRADE \<or> amount > hold"
    | (filled) f c' where "apply_sell c amount hold = Inr (Some (f, c'))"
    using apply_sell_cases [OF assms(1) h refl, of amount] by blast
  then show ?thesis
  proof cases
    case refused
    then show ?thesis by simp
  next
    case filled
    note i = curve_inv_sell [OF assms(1) h filled]
    have "unat (real_lat c') + unat (fill_out f) + unat (fill_fee f) = unat (real_lat c)"
      using i(1,4) assms(1) by (simp add: curve_inv_def)
    then show ?thesis using filled i by simp
  qed
qed

theorem curve_sell_safe_witness:
  "case apply_sell \<lparr>vlat = 3990000, vtok = 751879700, real_lat = 990000, graduated = False\<rparr>
      248120300 248120300 of
     Inr (Some (f, c')) \<Rightarrow> fill_out f = 980100 \<and> curve_inv c' | _ \<Rightarrow> False"
proof -
  let ?c = "\<lparr>vlat = 3990000, vtok = 751879700, real_lat = 990000, graduated = False\<rparr>"
  have i: "curve_inv ?c" by (simp add: curve_inv_def)
  have h: "unat (vtok ?c) + unat (248120300 :: u64) \<le> unat VTOK0" by (simp add: VTOK0_def)
  have "apply_sell ?c 248120300 248120300 = Inr (Some (\<lparr>fill_out = 980100, fill_fee = 9899\<rparr>,
      \<lparr>vlat = 3000001, vtok = 1000000000, real_lat = 1, graduated = False\<rparr>))"
    by (simp add: apply_sell_def curve_params saturating_sub_def)
  then show ?thesis using curve_sell_safe [OF i h, of 248120300] by simp
qed

text \<open>
  buying and selling straight back never profits: the payout and both fees together are at
  most what was paid in.
\<close>

theorem curve_round_trip:
  assumes "curve_inv c" and "apply_buy c amount = Inr (Some (f, c'))"
    and "apply_sell c' (fill_out f) (fill_out f) = Inr (Some (g, c''))"
  shows "unat (fill_out g) + unat (fill_fee g) + unat (fill_fee f) \<le> unat amount"
proof -
  define net where "net = unat amount - unat amount div 100"
  let ?tok = "unat (vtok c) * net div (unat (vlat c) + net)"
  from apply_buy_cases [OF assms(1) net_def refl] assms(2) have b:
    "unat (fill_out f) = ?tok" "unat (fill_fee f) = unat amount div 100"
    "unat (vlat c') = unat (vlat c) + net" by auto
  note inv' = curve_inv_buy [OF assms(1,2)]
  have "unat (vtok c') + unat (fill_out f) \<le> 1000000000"
    using inv'(2) assms(1) by (simp add: curve_inv_def)
  from apply_sell_cases [OF inv'(1) this refl, of "fill_out f"] assms(3) have
    "unat (fill_out g) + unat (fill_fee g) = unat (vlat c') * unat (fill_out f) div unat (vtok c)"
    using inv'(2) by auto
  also have "\<dots> \<le> unat (vtok c) * net div unat (vtok c)"
    using swap_product(1) [where v = "unat (vlat c)" and t = "unat (vtok c)" and n = net]
    unfolding b by (rule div_le_mono)
  also have "\<dots> \<le> net" by (cases "unat (vtok c) = 0") auto
  finally show ?thesis unfolding b net_def by (simp add: le_diff_conv2)
qed

theorem curve_round_trip_witness:
  "unat (980100 :: u64) + unat (9899 :: u64) + unat (10000 :: u64) \<le> unat (1000000 :: u64) \<and>
   curve_inv curve_default"
proof -
  have i: "curve_inv curve_default"
    by (simp add: curve_inv_def curve_default_def curve_params)
  have b: "apply_buy curve_default 1000000 = Inr (Some (\<lparr>fill_out = 248120300, fill_fee = 10000\<rparr>,
      \<lparr>vlat = 3990000, vtok = 751879700, real_lat = 990000, graduated = False\<rparr>))"
    by (simp add: apply_buy_def curve_default_def curve_params)
  have s: "apply_sell \<lparr>vlat = 3990000, vtok = 751879700, real_lat = 990000, graduated = False\<rparr>
      (fill_out \<lparr>fill_out = 248120300, fill_fee = 10000\<rparr>)
      (fill_out \<lparr>fill_out = 248120300, fill_fee = 10000\<rparr>) =
      Inr (Some (\<lparr>fill_out = 980100, fill_fee = 9899\<rparr>,
      \<lparr>vlat = 3000001, vtok = 1000000000, real_lat = 1, graduated = False\<rparr>))"
    by (simp add: apply_sell_def curve_params saturating_sub_def)
  from curve_round_trip [OF i b s] show ?thesis using i by simp
qed

lemmas prog_defs = prog_prologue_def prog_decode_def prog_sell_def prog_buy_def prog_exits_def
  load_def save_def

text \<open>
  the contract program assembles for every salt (the source's \<^verbatim>\<open>expect\<close> cannot fail), and the
  salt costs exactly the ten bytes of a dead \<open>Push; Pop\<close>.
\<close>

theorem program_assembles:
  "\<exists>code code'. program salt = Inr code \<and> program None = Inr code' \<and>
     length code = length code' + (case salt of None \<Rightarrow> 0 | Some _ \<Rightarrow> 10)"
proof -
  let ?body = "prog_prologue @ prog_decode @ prog_sell @ prog_buy @ prog_exits"
  let ?pre = "case salt of Some s \<Rightarrow> [Push s, Pop] | None \<Rightarrow> []"
  have d: "distinct (defined_labels ?body)" "set (used_labels ?body) \<subseteq> set (defined_labels ?body)"
    by (simp_all add: prog_defs)
  have "defined_labels (?pre @ ?body) = defined_labels ?body"
    "used_labels (?pre @ ?body) = used_labels ?body" by (simp_all split: option.splits)
  with d have a: "assemble (?pre @ ?body) = Inr (concat (map (item_bytes (?pre @ ?body)) (?pre @ ?body)))"
    and b: "assemble ?body = Inr (concat (map (item_bytes ?body) ?body))"
    by (simp_all only: assemble_Inr)
  have len: "length (concat (map (item_bytes p) q)) = sum_list (map instr_width q)" for p q
    by (simp add: length_concat comp_def length_item_bytes)
  show ?thesis
    using a b len [of "?pre @ ?body" "?pre @ ?body"] len [of ?body ?body]
    unfolding program_def by (cases salt) auto
qed

text \<open>
  the call word carries a trade faithfully, and a holding never shares a slot with the curve's
  fixed storage: every holdings key has bit 63 set and every fixed slot is below 18.
\<close>

theorem trade_word_roundtrip:
  assumes "amount \<le> MASK63"
  shows "decode_trade (encode_trade is_buy amount) = (is_buy, amount) \<and> holdings_key caller \<ge> BIT63"
proof
  have mask: "MASK63 = mask 63" by (simp add: MASK63_def BIT63_def mask_eq_decr_exp)
  have m: "bit MASK63 n \<longleftrightarrow> n < 63" for n
    unfolding mask by (simp only: bit_mask_iff) auto
  have "and amount MASK63 = amount"
  proof -
    have "unat amount < 2 ^ 63"
      using assms by (simp add: word_le_nat_alt MASK63_def BIT63_def)
    then have "unat (take_bit 63 amount) = unat amount"
      by (simp add: unsigned_take_bit_eq take_bit_nat_eq_self)
    then have "take_bit 63 amount = amount" by (simp only: word_unat_eq_iff)
    then show ?thesis unfolding mask by (simp only: take_bit_eq_mask)
  qed
  moreover have "and (encode_trade is_buy amount) MASK63 = and amount MASK63"
    by (rule bit_word_eqI) (auto simp: encode_trade_def bit_simps m)
  moreover have "drop_bit 63 (encode_trade is_buy amount) = bool_word is_buy"
    by (rule bit_word_eqI) (auto simp: encode_trade_def bit_simps m bool_word_def)
  ultimately show "decode_trade (encode_trade is_buy amount) = (is_buy, amount)"
    by (simp add: decode_trade_def bool_word_def)
  show "holdings_key caller \<ge> BIT63"
    unfolding holdings_key_def Let_def
    by (subst or.commute) (simp add: word_le_def unsigned_or_eq or_greater_eq)
qed

theorem trade_word_roundtrip_witness:
  "decode_trade (encode_trade True 5000) = (True, 5000) \<and> holdings_key 7 \<ge> BIT63"
  by (rule trade_word_roundtrip) (simp add: MASK63_def BIT63_def word_le_nat_alt)

end
