(* ===== verification/Crypto.thy ===== *)
theory Crypto
  imports Prelude
begin

text \<open>
  The cryptographic core of \<^verbatim>\<open>lat-crypto/src/lib.rs\<close>: keys, twisted-ElGamal ciphertexts, the
  baby-step/giant-step decryption and the unshield view key; and the Schnorr signatures of
  \<^verbatim>\<open>schnorr.rs\<close>.

  The group, the scalars, the hashes and Bulletproofs come from third-party crates
  (curve25519-dalek, sha2, blake3, bulletproofs). They are the record \<open>prims\<close>, an argument of
  every definition that uses them: \<open>'g\<close> is the type of group elements, \<open>'s\<close> of scalars, \<open>'r\<close> of
  range proofs. What the code relies on are the named predicates \<open>module_laws\<close> (scalar
  multiplication is a module action), \<open>encoding_laws\<close> (encodings are canonical),
  \<open>order_large\<close> (the base point's order exceeds \<open>2 ^ 64\<close>) and, where a proof system needs them,
  the laws of the range proofs. \<open>toy_prims\<close> satisfies them.
\<close>

section \<open>The third-party primitives\<close>

record ('g, 's, 'r) prims =
  smul :: "'s \<Rightarrow> 'g \<Rightarrow> 'g"
  base_g :: 'g
  base_h :: 'g
  compress :: "'g \<Rightarrow> id32"
  decompress :: "id32 \<Rightarrow> 'g option"
  scalar_from :: "u64 \<Rightarrow> 's"
  scalar_bytes :: "'s \<Rightarrow> id32"
  scalar_canonical :: "id32 \<Rightarrow> 's option"
  scalar_wide :: "arr64 \<Rightarrow> 's"
  point_wide :: "arr64 \<Rightarrow> 'g"
  sha512 :: "bytes \<Rightarrow> arr64"
  sha256 :: "bytes \<Rightarrow> id32"
  blake3 :: "bytes \<Rightarrow> id32"
  rp_prove :: "bytes \<Rightarrow> (u64 \<times> 's) list \<Rightarrow> ('r \<times> id32 list) option"
  rp_verify :: "bytes \<Rightarrow> 'r \<Rightarrow> id32 list \<Rightarrow> bool"
  rp_bytes :: "'r \<Rightarrow> bytes"
  rp_from :: "bytes \<Rightarrow> 'r option"

definition module_laws :: "('g::ab_group_add, 's::comm_ring_1, 'r) prims \<Rightarrow> bool" where
  "module_laws P \<longleftrightarrow>
     (\<forall>a b g. smul P (a + b) g = smul P a g + smul P b g) \<and>
     (\<forall>a g h. smul P a (g + h) = smul P a g + smul P a h) \<and>
     (\<forall>a b g. smul P (a * b) g = smul P a (smul P b g)) \<and>
     (\<forall>g. smul P 1 g = g) \<and>
     (\<forall>a. scalar_from P a = of_nat (unat a))"

definition encoding_laws :: "('g, 's, 'r) prims \<Rightarrow> bool" where
  "encoding_laws P \<longleftrightarrow>
     (\<forall>p. decompress P (compress P p) = Some p) \<and>
     (\<forall>c p. decompress P c = Some p \<longrightarrow> compress P p = c) \<and>
     (\<forall>s. scalar_canonical P (scalar_bytes P s) = Some s) \<and>
     (\<forall>b s. scalar_canonical P b = Some s \<longrightarrow> scalar_bytes P s = b) \<and>
     (\<forall>r. rp_from P (rp_bytes P r) = Some r) \<and>
     (\<forall>b r. rp_from P b = Some r \<longrightarrow> rp_bytes P r = b) \<and>
     (\<forall>r. length (rp_bytes P r) < 2 ^ 16)"

definition order_large :: "('g, 's, 'r) prims \<Rightarrow> bool" where
  "order_large P \<longleftrightarrow>
     (\<forall>a b. smul P (scalar_from P a) (base_g P) = smul P (scalar_from P b) (base_g P) \<longrightarrow> a = b)"

text \<open>Range proofs accept what their prover made, for the commitments \<open>v \<cdot> G + s \<cdot> H\<close>.\<close>

definition range_complete :: "('g::ab_group_add, 's, 'r) prims \<Rightarrow> bool" where
  "range_complete P \<longleftrightarrow>
     (\<forall>l vs rp cs. rp_prove P l vs = Some (rp, cs) \<longrightarrow>
        rp_verify P l rp cs \<and>
        cs = map (\<lambda>(v, s). compress P
               (smul P (scalar_from P v) (base_g P) + smul P s (base_h P))) vs)"

text \<open>A toy instance, to show that the laws can hold together: the ring of \<open>w\<close>-bit words.\<close>

definition toy_prims :: "('a::len word, 'a word, unit) prims" where
  "toy_prims = \<lparr>smul = (*), base_g = 1, base_h = 1, compress = ucast,
     decompress = (\<lambda>c. if ucast (ucast c :: 'a word) = c then Some (ucast c) else None),
     scalar_from = ucast, scalar_bytes = ucast,
     scalar_canonical = (\<lambda>c. if ucast (ucast c :: 'a word) = c then Some (ucast c) else None),
     scalar_wide = ucast, point_wide = ucast,
     sha512 = (\<lambda>bs. of_le bs), sha256 = (\<lambda>bs. of_le bs), blake3 = (\<lambda>bs. of_le bs),
     rp_prove = (\<lambda>l vs. Some ((), map (\<lambda>(v, s). ucast (ucast v * 1 + s * 1 :: 'a word)) vs)),
     rp_verify = (\<lambda>l r cs. True),
     rp_bytes = (\<lambda>r. []), rp_from = (\<lambda>b. if b = [] then Some () else None)\<rparr>"

lemma toy_module_laws: "module_laws (toy_prims :: ('a::len word, 'a word, unit) prims)"
  by (simp add: module_laws_def toy_prims_def algebra_simps)

lemma ucast_up_down: "LENGTH('a) \<le> LENGTH('b) \<Longrightarrow> ucast (ucast (w :: 'a::len word) :: 'b::len word) = w"
  by (rule bit_word_eqI) (auto simp: bit_simps)

lemma toy_encoding_laws:
  "LENGTH('a) \<le> 256 \<Longrightarrow> encoding_laws (toy_prims :: ('a::len word, 'a word, unit) prims)"
  by (auto simp: encoding_laws_def toy_prims_def ucast_up_down)

lemma toy_order_large: "order_large (toy_prims :: (u64, u64, unit) prims)"
  by (simp add: order_large_def toy_prims_def)

lemma toy_range_complete: "range_complete (toy_prims :: ('a::len word, 'a word, unit) prims)"
  by (simp add: range_complete_def toy_prims_def)

subsection \<open>Working with the laws\<close>

named_theorems smul_simps \<open>scalar multiplication as a module action\<close>

lemma smul_laws:
  assumes "module_laws P"
  shows "smul P (a + b) g = smul P a g + smul P b g" "smul P a (g + h) = smul P a g + smul P a h"
    "smul P (a * b) g = smul P a (smul P b g)" "smul P 1 g = g"
    "scalar_from P n = of_nat (unat n)"
  using assms unfolding module_laws_def by blast+

lemma smul_zero:
  assumes "module_laws P"
  shows "smul P 0 g = 0" "smul P a 0 = 0"
  using smul_laws(1) [OF assms, of 0 0 g] smul_laws(2) [OF assms, of a 0 0] by auto

lemma smul_minus:
  assumes "module_laws P"
  shows "smul P (- a) g = - smul P a g" "smul P a (- g) = - smul P a g"
    "smul P (a - b) g = smul P a g - smul P b g" "smul P a (g - h) = smul P a g - smul P a h"
proof -
  show m: "smul P (- a) g = - smul P a g" for a g
    using smul_laws(1) [OF assms, of a "- a" g] smul_zero(1) [OF assms, of g]
    by (simp add: eq_neg_iff_add_eq_0 add.commute)
  show n: "smul P a (- g) = - smul P a g" for g
    using smul_laws(2) [OF assms, of a g "- g"] smul_zero(2) [OF assms, of a]
    by (simp add: eq_neg_iff_add_eq_0 add.commute)
  show "smul P (a - b) g = smul P a g - smul P b g"
    using smul_laws(1) [OF assms, of a "- b" g] m by simp
  show "smul P a (g - h) = smul P a g - smul P a h"
    using smul_laws(2) [OF assms, of a g "- h"] n by simp
qed

lemma smul_commute:
  "module_laws P \<Longrightarrow> smul P a (smul P b g) = smul P b (smul P a g)"
  by (metis mult.commute smul_laws(3))

lemmas smul_lin = smul_laws(1,2,3) smul_zero smul_minus

lemma encoding_decompress:
  "encoding_laws P \<Longrightarrow> decompress P c = Some p \<longleftrightarrow> compress P p = c"
  by (auto simp: encoding_laws_def)

lemma encoding_scalar:
  "encoding_laws P \<Longrightarrow> scalar_canonical P b = Some s \<longleftrightarrow> scalar_bytes P s = b"
  by (auto simp: encoding_laws_def)

lemma encoding_rp:
  "encoding_laws P \<Longrightarrow> rp_from P b = Some r \<longleftrightarrow> rp_bytes P r = b"
  by (auto simp: encoding_laws_def)

lemma encoding_self:
  assumes "encoding_laws P"
  shows "decompress P (compress P p) = Some p" "scalar_canonical P (scalar_bytes P s) = Some s"
    "rp_from P (rp_bytes P r) = Some r"
  using assms by (auto simp: encoding_laws_def)

lemma compress_inject: "encoding_laws P \<Longrightarrow> compress P p = compress P q \<longleftrightarrow> p = q"
  by (metis encoding_decompress option.inject)

section \<open>Keys and ciphertexts\<close>

text \<open>A secret key is its scalar, a public key its point.\<close>

record 'g ciphertext =
  ct_c :: 'g
  ct_d :: 'g

definition wide_hash :: "('g, 's, 'r) prims \<Rightarrow> bytes \<Rightarrow> 's" where
  "wide_hash P bs = scalar_wide P (sha512 P bs)"

definition key_from_seed :: "('g, 's, 'r) prims \<Rightarrow> id32 \<Rightarrow> 's" where
  "key_from_seed P seed = wide_hash P (ascii ''Latebra.WalletSeed.v1'' @ be_bytes 32 seed)"

definition public_key :: "('g, 's, 'r) prims \<Rightarrow> 's \<Rightarrow> 'g" where
  "public_key P x = smul P x (base_g P)"

definition encrypt_with_randomness ::
  "('g::plus, 's, 'r) prims \<Rightarrow> 'g \<Rightarrow> u64 \<Rightarrow> 's \<Rightarrow> 'g ciphertext" where
  "encrypt_with_randomness P pk amount r =
     (let b = scalar_from P amount in
      \<lparr>ct_c = smul P b (base_g P) + smul P r pk, ct_d = smul P r (base_g P)\<rparr>)"

definition ct_mint :: "('g::zero, 's, 'r) prims \<Rightarrow> u64 \<Rightarrow> 'g ciphertext" where
  "ct_mint P amount = \<lparr>ct_c = smul P (scalar_from P amount) (base_g P), ct_d = 0\<rparr>"

definition ct_zero :: "'g::zero ciphertext" where
  "ct_zero = \<lparr>ct_c = 0, ct_d = 0\<rparr>"

definition ct_add :: "'g::plus ciphertext \<Rightarrow> 'g ciphertext \<Rightarrow> 'g ciphertext" where
  "ct_add a b = \<lparr>ct_c = ct_c a + ct_c b, ct_d = ct_d a + ct_d b\<rparr>"

definition ct_sub :: "'g::minus ciphertext \<Rightarrow> 'g ciphertext \<Rightarrow> 'g ciphertext" where
  "ct_sub a b = \<lparr>ct_c = ct_c a - ct_c b, ct_d = ct_d a - ct_d b\<rparr>"

definition ct_to_bytes :: "('g, 's, 'r) prims \<Rightarrow> 'g ciphertext \<Rightarrow> bytes" where
  "ct_to_bytes P ct = be_bytes 32 (compress P (ct_c ct)) @ be_bytes 32 (compress P (ct_d ct))"

text \<open>The argument is a \<^verbatim>\<open>[u8; 64]\<close>, given by its bytes.\<close>

definition ct_from_bytes :: "('g, 's, 'r) prims \<Rightarrow> bytes \<Rightarrow> 'g ciphertext option" where
  "ct_from_bytes P b = do {
     c \<leftarrow> decompress P (of_be (take 32 b));
     d \<leftarrow> decompress P (of_be (take 32 (drop 32 b)));
     Some \<lparr>ct_c = c, ct_d = d\<rparr> }"

definition pk_to_bytes :: "('g, 's, 'r) prims \<Rightarrow> 'g \<Rightarrow> id32" where
  "pk_to_bytes P pk = compress P pk"

definition pk_from_bytes :: "('g, 's, 'r) prims \<Rightarrow> id32 \<Rightarrow> 'g option" where
  "pk_from_bytes P b = decompress P b"

section \<open>Bounded discrete logarithm\<close>

definition BSGS_STEP :: u64 where "BSGS_STEP = 65536"

text \<open>
  The baby table: \<open>j \<cdot> G \<mapsto> j\<close> for \<open>j < step\<close>, filled in ascending order, with the running point.
\<close>

fun baby_rows :: "('g::plus, 's, 'r) prims \<Rightarrow> nat \<Rightarrow> u64 \<Rightarrow> 'g \<Rightarrow> (id32, u64) fmap \<Rightarrow> (id32, u64) fmap" where
  "baby_rows P 0 j acc table = table"
| "baby_rows P (Suc n) j acc table =
     baby_rows P n (j + 1) (acc + base_g P) (fmupd (compress P acc) j table)"

definition baby_table :: "('g::{plus,zero}, 's, 'r) prims \<Rightarrow> (id32, u64) fmap" where
  "baby_table P = baby_rows P (unat BSGS_STEP) 0 0 fmempty"

definition giant_stride :: "('g, 's, 'r) prims \<Rightarrow> 'g" where
  "giant_stride P = smul P (scalar_from P BSGS_STEP) (base_g P)"

lemma giant_step_bound:
  assumes "saturating_mul i BSGS_STEP < bound"
  shows "unat i < 2 ^ 48"
proof (rule ccontr)
  assume "\<not> unat i < 2 ^ 48"
  then have "saturating_mul i BSGS_STEP = - 1"
    by (simp add: saturating_mul_def BSGS_STEP_def)
  then show False using assms unat_lt2p [of bound]
    by (simp add: word_less_nat_alt unsigned_minus_1_eq_mask mask_eq_exp_minus_1)
qed

function dlog_loop ::
  "('g::minus, 's, 'r) prims \<Rightarrow> (id32, u64) fmap \<Rightarrow> u64 \<Rightarrow> 'g \<Rightarrow> u64 \<Rightarrow> u64 option" where
  "dlog_loop P table bound cur i =
    (if saturating_mul i BSGS_STEP < bound then
       (case fmlookup table (compress P cur) of
          Some j \<Rightarrow> Some (i * BSGS_STEP + j)
        | None \<Rightarrow> dlog_loop P table bound (cur - giant_stride P) (i + 1))
     else None)"
  by pat_completeness auto

termination
proof (relation "measure (\<lambda>(_, _, _, _, i). 2 ^ 64 - unat i)")
  fix P table bound cur i
  assume "saturating_mul i BSGS_STEP < bound"
  then have "unat i < 2 ^ 48" by (rule giant_step_bound)
  moreover from this have "unat (i + 1) = unat i + 1" by (simp add: unat_word_ariths)
  ultimately show "((P, table, bound, cur - giant_stride P, i + 1), P, table, bound, cur, i)
      \<in> measure (\<lambda>(_, _, _, _, i). 2 ^ 64 - unat i)" by simp
qed simp

declare dlog_loop.simps [simp del]

definition discrete_log :: "('g::{minus,plus,zero}, 's, 'r) prims \<Rightarrow> 'g \<Rightarrow> u32 \<Rightarrow> u64 option" where
  "discrete_log P point max_bits =
    (let bound = (if max_bits \<ge> 64 then - 1 else push_bit (unat max_bits) 1) in
     dlog_loop P (baby_table P) bound point 0)"

definition decrypt ::
  "('g::{minus,plus,zero}, 's, 'r) prims \<Rightarrow> 's \<Rightarrow> 'g ciphertext \<Rightarrow> u32 \<Rightarrow> u64 option" where
  "decrypt P x ct max_bits = (let m = ct_c ct - smul P x (ct_d ct) in discrete_log P m max_bits)"

section \<open>The unshield view key\<close>

definition UNSHIELD_VIEW_SEED :: id32 where
  "UNSHIELD_VIEW_SEED = of_be (ascii ''latebra/unshield-view-key/v1'' @ [0, 0, 0, 0])"

definition unshield_view_key :: "('g, 's, 'r) prims \<Rightarrow> 'g" where
  "unshield_view_key P = public_key P (key_from_seed P UNSHIELD_VIEW_SEED)"

definition unshield_reveals :: "('g::minus, 's, 'r) prims \<Rightarrow> 'g ciphertext \<Rightarrow> u64 \<Rightarrow> bool" where
  "unshield_reveals P ct amount =
     (let x_view = key_from_seed P UNSHIELD_VIEW_SEED in
      ct_c ct - smul P (scalar_from P amount) (base_g P) = smul P x_view (ct_d ct))"

section \<open>Schnorr signatures\<close>

record 's signature =
  sig_r :: id32
  sig_s :: 's

definition sig_challenge :: "('g, 's, 'r) prims \<Rightarrow> id32 \<Rightarrow> 'g \<Rightarrow> bytes \<Rightarrow> 's" where
  "sig_challenge P r pk msg =
     wide_hash P (ascii ''Latebra.Schnorr.v1'' @ be_bytes 32 r @ be_bytes 32 (compress P pk) @ msg)"

definition sig_to_bytes :: "('g, 's, 'r) prims \<Rightarrow> 's signature \<Rightarrow> bytes" where
  "sig_to_bytes P sg = be_bytes 32 (sig_r sg) @ be_bytes 32 (scalar_bytes P (sig_s sg))"

definition sig_from_bytes :: "('g, 's, 'r) prims \<Rightarrow> bytes \<Rightarrow> 's signature option" where
  "sig_from_bytes P b =
    (if length b \<noteq> 64 then None
     else do {
       s \<leftarrow> scalar_canonical P (of_be (drop 32 b));
       Some \<lparr>sig_r = of_be (take 32 b), sig_s = s\<rparr> })"

definition schnorr_sign :: "('g, 's::comm_ring_1, 'r) prims \<Rightarrow> 's \<Rightarrow> bytes \<Rightarrow> 's signature" where
  "schnorr_sign P x msg =
    (let k = wide_hash P (ascii ''Latebra.Schnorr.nonce.v1'' @ be_bytes 32 (scalar_bytes P x) @ msg);
         r = compress P (smul P k (base_g P));
         e = sig_challenge P r (public_key P x) msg in
     \<lparr>sig_r = r, sig_s = k + e * x\<rparr>)"

definition schnorr_verify ::
  "('g::plus, 's, 'r) prims \<Rightarrow> 'g \<Rightarrow> bytes \<Rightarrow> 's signature \<Rightarrow> bool" where
  "schnorr_verify P pk msg sg =
    (case decompress P (sig_r sg) of
       None \<Rightarrow> False
     | Some r \<Rightarrow>
         let e = sig_challenge P (sig_r sg) pk msg in
         smul P (sig_s sg) (base_g P) = r + smul P e pk)"

section \<open>Correctness of decryption\<close>

lemma baby_rows_lookup:
  assumes laws: "module_laws P" "encoding_laws P" "order_large P"
    and "acc = smul P (scalar_from P j) (base_g P)" and "unat j + n < 2 ^ 64"
  shows "fmlookup (baby_rows P n j acc t) (compress P (smul P (scalar_from P m) (base_g P))) =
    (if unat j \<le> unat m \<and> unat m < unat j + n then Some m
     else fmlookup t (compress P (smul P (scalar_from P m) (base_g P))))"
  using assms(4,5)
proof (induction n arbitrary: j acc t)
  case 0
  then show ?case by auto
next
  case (Suc n)
  have j1: "unat (j + 1) = unat j + 1" using Suc.prems(2) by (simp add: unat_word_ariths)
  have acc1: "acc + base_g P = smul P (scalar_from P (j + 1)) (base_g P)"
    using Suc.prems(1) j1 by (simp add: smul_laws [OF laws(1)] add.commute)
  have key: "compress P acc = compress P (smul P (scalar_from P m) (base_g P)) \<longleftrightarrow> j = m"
    using laws(3) Suc.prems(1) by (auto simp: compress_inject [OF laws(2)] order_large_def)
  have "unat j = unat m \<longleftrightarrow> j = m" by (simp add: word_unat_eq_iff)
  then show ?case
    using Suc.IH [OF acc1] Suc.prems(2) j1 key by auto
qed

lemma baby_table_lookup:
  assumes "module_laws P" "encoding_laws P" "order_large P"
  shows "fmlookup (baby_table P) (compress P (smul P (scalar_from P m) (base_g P))) =
    (if unat m < 65536 then Some m else None)"
  using baby_rows_lookup [OF assms, of 0 0 65536 fmempty m]
  by (simp add: baby_table_def BSGS_STEP_def smul_laws(5) [OF assms(1)] smul_zero [OF assms(1)])

lemma dlog_loop_finds:
  assumes laws: "module_laws P" "encoding_laws P" "order_large P"
    and bound: "\<And>k. k * 65536 \<le> unat m \<Longrightarrow> k * 65536 < unat bound"
    and "cur = smul P (scalar_from P (m - i * BSGS_STEP)) (base_g P)" and "unat i * 65536 \<le> unat m"
  shows "dlog_loop P (baby_table P) bound cur i = Some m"
  using assms(5,6)
proof (induction "unat m - unat i * 65536" arbitrary: i cur rule: less_induct)
  case less
  have m: "unat m < 2 ^ 64" using unat_lt2p [of m] by simp
  have iS: "unat (i * BSGS_STEP) = unat i * 65536"
    using less.prems(2) m by (simp add: unat_word_ariths BSGS_STEP_def)
  have rest: "unat (m - i * BSGS_STEP) = unat m - unat i * 65536"
    using less.prems(2) iS by (subst unat_sub_if_le) (auto simp: word_le_nat_alt)
  have sat: "saturating_mul i BSGS_STEP < bound"
    using bound [OF less.prems(2)] less.prems(2) m iS
    by (simp add: saturating_mul_def BSGS_STEP_def word_less_nat_alt)
  show ?case
  proof (cases "unat m - unat i * 65536 < 65536")
    case True
    then show ?thesis using sat baby_table_lookup [OF laws, of "m - i * BSGS_STEP"] rest
      by (subst dlog_loop.simps) (simp add: less.prems(1))
  next
    case False
    then have i1: "unat (i + 1) = unat i + 1" "unat (i + 1) * 65536 \<le> unat m"
      using m less.prems(2) by (simp_all add: unat_word_ariths)
    have step: "m - (i + 1) * BSGS_STEP = (m - i * BSGS_STEP) - BSGS_STEP" by (simp add: algebra_simps)
    have "unat (m - i * BSGS_STEP) = unat (m - (i + 1) * BSGS_STEP) + unat BSGS_STEP"
      using False rest unfolding step by (subst unat_sub_if_le) (auto simp: word_le_nat_alt BSGS_STEP_def)
    then have "cur - giant_stride P = smul P (scalar_from P (m - (i + 1) * BSGS_STEP)) (base_g P)"
      by (simp add: less.prems(1) giant_stride_def smul_laws [OF laws(1)])
    moreover have "unat m - unat (i + 1) * 65536 < unat m - unat i * 65536" using i1 False by simp
    ultimately have "dlog_loop P (baby_table P) bound (cur - giant_stride P) (i + 1) = Some m"
      using less.hyps i1 by blast
    then show ?thesis using sat False baby_table_lookup [OF laws, of "m - i * BSGS_STEP"] rest
      by (subst dlog_loop.simps) (simp add: less.prems(1))
  qed
qed

lemma discrete_log_finds:
  assumes laws: "module_laws P" "encoding_laws P" "order_large P" and "unat m < 2 ^ unat max_bits"
  shows "discrete_log P (smul P (scalar_from P m) (base_g P)) max_bits = Some m"
proof -
  have "k * 65536 < unat (if max_bits \<ge> 64 then - 1 else push_bit (unat max_bits) 1 :: u64)"
    if "k * 65536 \<le> unat m" for k
  proof (cases "max_bits \<ge> 64")
    case True
    have "k * 65536 < 2 ^ 64" using that unat_lt2p [of m] by simp
    moreover have "even (k * 65536)" and "odd (2 ^ 64 - 1 :: nat)" by simp_all
    then have "k * 65536 \<noteq> 2 ^ 64 - 1" by metis
    ultimately have "k * 65536 < 2 ^ 64 - 1" by linarith
    then show ?thesis using True
      by (simp add: unsigned_minus_1_eq_mask mask_eq_exp_minus_1)
  next
    case False
    then have "unat max_bits < 64" by (simp add: word_le_nat_alt)
    then have "unat (push_bit (unat max_bits) 1 :: u64) = 2 ^ unat max_bits"
      using power_strict_increasing [of "unat max_bits" 64 "2 :: nat"]
      unfolding unsigned_push_bit_eq by (simp add: push_bit_of_1 take_bit_nat_eq_self)
    then show ?thesis using False that assms(4) by simp
  qed
  then show ?thesis unfolding discrete_log_def Let_def
    by (intro dlog_loop_finds [OF laws]) auto
qed

section \<open>The claims\<close>

text \<open>
  decryption inverts encryption. For every key, randomness and balance below the search bound,
  the baby-step/giant-step search returns exactly the encrypted balance.
\<close>

theorem decrypt_encrypt:
  assumes "module_laws P" and "encoding_laws P" and "order_large P"
    and "unat m < 2 ^ unat max_bits"
  shows "decrypt P x (encrypt_with_randomness P (public_key P x) m r) max_bits = Some m"
  using discrete_log_finds [OF assms]
  by (simp add: decrypt_def encrypt_with_randomness_def public_key_def Let_def
      smul_commute [OF assms(1), of r x])

theorem decrypt_encrypt_witness:
  "decrypt (toy_prims :: (u64, u64, unit) prims) 5
     (encrypt_with_randomness toy_prims (public_key toy_prims 5) 1000000 77) 20 = Some 1000000"
  by (rule decrypt_encrypt [OF toy_module_laws toy_encoding_laws toy_order_large]) simp_all

text \<open>
  ciphertexts under one key add and subtract like the balances they hide, as long as the sum
  (difference) is a 64-bit balance.
\<close>

theorem encryption_homomorphic:
  assumes "module_laws P"
  shows "(unat a + unat b < 2 ^ 64 \<longrightarrow>
      ct_add (encrypt_with_randomness P pk a r) (encrypt_with_randomness P pk b r') =
      encrypt_with_randomness P pk (a + b) (r + r')) \<and>
    (b \<le> a \<longrightarrow>
      ct_sub (encrypt_with_randomness P pk a r) (encrypt_with_randomness P pk b r') =
      encrypt_with_randomness P pk (a - b) (r - r'))"
proof -
  note l = smul_laws [OF assms] and m = smul_minus [OF assms]
  have p: "scalar_from P (a + b) = scalar_from P a + scalar_from P b" if "unat a + unat b < 2 ^ 64"
    using that by (simp add: l(5) unat_add_small)
  have s: "scalar_from P (a - b) = scalar_from P a - scalar_from P b" if "b \<le> a"
    using that by (simp add: l(5) unat_sub_if_le word_le_nat_alt of_nat_diff)
  show ?thesis
    by (auto simp: ct_add_def ct_sub_def encrypt_with_randomness_def Let_def p s l(1) m(3))
qed

theorem encryption_homomorphic_witness:
  "ct_add (encrypt_with_randomness toy_prims (7 :: u64) 30 2) (encrypt_with_randomness toy_prims 7 12 3) =
     encrypt_with_randomness (toy_prims :: (u64, u64, unit) prims) 7 42 5"
  using encryption_homomorphic [OF toy_module_laws [where 'a = 64], of 30 12 7 2 3] by simp

text \<open>
  the unshield check reads the amount exactly. A ciphertext made for the view key passes the
  check for the amount it encrypts and for no other.
\<close>

theorem unshield_reveals_iff:
  assumes "module_laws P" and "order_large P"
  shows "unshield_reveals P (encrypt_with_randomness P (unshield_view_key P) a r) b \<longleftrightarrow> a = b"
proof -
  let ?x = "key_from_seed P UNSHIELD_VIEW_SEED" and ?G = "base_g P"
  have "smul P r (smul P ?x ?G) = smul P ?x (smul P r ?G)" by (rule smul_commute [OF assms(1)])
  then have "unshield_reveals P (encrypt_with_randomness P (unshield_view_key P) a r) b \<longleftrightarrow>
      smul P (scalar_from P a) ?G = smul P (scalar_from P b) ?G"
    by (simp add: unshield_reveals_def encrypt_with_randomness_def unshield_view_key_def
        public_key_def Let_def algebra_simps)
  then show ?thesis using assms(2) by (auto simp: order_large_def)
qed

theorem unshield_reveals_iff_witness:
  "\<not> unshield_reveals (toy_prims :: (u64, u64, unit) prims)
      (encrypt_with_randomness toy_prims (unshield_view_key toy_prims) 10 3) 11"
  using unshield_reveals_iff [OF toy_module_laws [where 'a = 64] toy_order_large, of 10 3 11] by simp

text \<open> every signature the wallet makes verifies under its public key.\<close>

theorem schnorr_complete:
  assumes "module_laws P" and "encoding_laws P"
  shows "schnorr_verify P (public_key P x) msg (schnorr_sign P x msg)"
proof -
  have "decompress P (compress P p) = Some p" for p using assms(2) by (simp add: encoding_laws_def)
  then show ?thesis
    by (simp add: schnorr_verify_def schnorr_sign_def Let_def public_key_def smul_lin [OF assms(1)])
qed

theorem schnorr_complete_witness:
  "schnorr_verify (toy_prims :: (u64, u64, unit) prims) (public_key toy_prims 9) [1, 2]
     (schnorr_sign toy_prims 9 [1, 2])"
  by (rule schnorr_complete [OF toy_module_laws toy_encoding_laws]) simp

definition sig_accepts :: "('g::plus, 's, 'r) prims \<Rightarrow> 'g \<Rightarrow> 'g \<Rightarrow> 's \<Rightarrow> 's \<Rightarrow> bool" where
  "sig_accepts P pk r e s \<longleftrightarrow> smul P s (base_g P) = r + smul P e pk"

text \<open>
  signatures are sound in the usual sense: whoever can answer two different challenges for one
  commitment under a key knows the key's secret (it is computed from the two answers).
\<close>

theorem schnorr_extract:
  assumes "module_laws P" and "sig_accepts P pk r e s" and "sig_accepts P pk r e' s'"
    and "(e - e') * d = 1"
  shows "public_key P (d * (s - s')) = pk"
proof -
  have "smul P (s - s') (base_g P) = smul P (e - e') pk"
    using assms(2,3) by (simp add: sig_accepts_def smul_minus [OF assms(1)] algebra_simps)
  then have "smul P d (smul P (s - s') (base_g P)) = smul P ((e - e') * d) pk"
    by (simp add: smul_laws(3) [OF assms(1), symmetric] mult.commute)
  then show ?thesis using assms(4)
    by (simp add: public_key_def smul_laws(3,4) [OF assms(1)])
qed

theorem schnorr_extract_witness:
  "public_key (toy_prims :: (u64, u64, unit) prims) (1 * (12 - 7)) = 5"
  by (rule schnorr_extract [OF toy_module_laws, of 5 2 2 12 1 7])
     (simp_all add: sig_accepts_def toy_prims_def)

text \<open>
  the 64-byte signature encoding is a bijection between the signatures and the byte strings
  that decode: no two strings carry one signature.
\<close>

theorem signature_codec:
  assumes "encoding_laws P"
  shows "sig_from_bytes P b = Some sg \<longleftrightarrow> sig_to_bytes P sg = b"
proof
  assume "sig_from_bytes P b = Some sg"
  then obtain s where len: "length b = 64" and s: "scalar_bytes P s = of_be (drop 32 b)"
    and sg: "sg = \<lparr>sig_r = of_be (take 32 b), sig_s = s\<rparr>"
    by (auto simp: sig_from_bytes_def encoding_scalar [OF assms] split: if_splits bind_splits)
  show "sig_to_bytes P sg = b" using len by (simp add: sig_to_bytes_def sg s)
next
  assume b: "sig_to_bytes P sg = b"
  have "scalar_canonical P (scalar_bytes P (sig_s sg)) = Some (sig_s sg)"
    by (simp add: encoding_scalar [OF assms])
  then show "sig_from_bytes P b = Some sg"
    by (simp add: sig_from_bytes_def sig_to_bytes_def flip: b)
qed

theorem signature_codec_witness:
  "sig_from_bytes (toy_prims :: (u64, u64, unit) prims)
     (sig_to_bytes (toy_prims :: (u64, u64, unit) prims) \<lparr>sig_r = 3, sig_s = 4\<rparr>) = Some \<lparr>sig_r = 3, sig_s = 4\<rparr>"
  using signature_codec [OF toy_encoding_laws [where 'a = 64]] by simp

end
