(* ===== verification/Solvent.thy ===== *)
theory Solvent
  imports Crypto
begin

text \<open>
  The zero-knowledge transfers built on the ciphertexts of \<open>Crypto\<close>: the solvent confidential
  transfer of \<^verbatim>\<open>lat-crypto/src/solvent.rs\<close>, the range component of \<^verbatim>\<open>range.rs\<close>, the conservation
  proof of \<^verbatim>\<open>conservation.rs\<close> and the stealth addresses of \<^verbatim>\<open>stealth.rs\<close>. Where the source draws
  random scalars they are arguments.

  For each proof system the lemmas give completeness (what the prover makes verifies), special
  soundness (two accepting answers to different challenges yield the secrets the proof is about)
  and, for the transfer, the exactness of its wire format.
\<close>

section \<open>Wire readers\<close>

definition enc_point :: "('g, 's, 'r) prims \<Rightarrow> 'g \<Rightarrow> bytes" where
  "enc_point P p = be_bytes 32 (compress P p)"

definition enc_scalar :: "('g, 's, 'r) prims \<Rightarrow> 's \<Rightarrow> bytes" where
  "enc_scalar P s = be_bytes 32 (scalar_bytes P s)"

definition rd_point :: "('g, 's, 'r) prims \<Rightarrow> bytes \<Rightarrow> ('g \<times> bytes) option" where
  "rd_point P b = do { (s, r) \<leftarrow> rd_take 32 b; p \<leftarrow> decompress P (of_be s); Some (p, r) }"

definition rd_comp :: "bytes \<Rightarrow> (id32 \<times> bytes) option" where
  "rd_comp b = do { (s, r) \<leftarrow> rd_take 32 b; Some (of_be s, r) }"

definition rd_scalar :: "('g, 's, 'r) prims \<Rightarrow> bytes \<Rightarrow> ('s \<times> bytes) option" where
  "rd_scalar P b = do { (s, r) \<leftarrow> rd_take 32 b; x \<leftarrow> scalar_canonical P (of_be s); Some (x, r) }"

text \<open>A range proof with its length prefix.\<close>

definition enc_rp :: "('g, 's, 'r) prims \<Rightarrow> 'r \<Rightarrow> bytes" where
  "enc_rp P rp = (let bs = rp_bytes P rp in le_bytes 4 (of_nat (length bs) :: u32) @ bs)"

definition rd_rp :: "('g, 's, 'r) prims \<Rightarrow> bytes \<Rightarrow> ('r \<times> bytes) option" where
  "rd_rp P b = do {
     (n, r) \<leftarrow> rd_u32 b;
     (s, r') \<leftarrow> rd_take (unat n) r;
     rp \<leftarrow> rp_from P s;
     Some (rp, r') }"

lemma point_codec: "encoding_laws P \<Longrightarrow> codec (enc_point P) (rd_point P) (\<lambda>_. True)"
  by unfold_locales (auto simp: rd_point_def enc_point_def rd_take_Some codec_simps
      encoding_self dest!: encoding_decompress [THEN iffD1, rotated] split: bind_splits)

lemma scalar_codec: "encoding_laws P \<Longrightarrow> codec (enc_scalar P) (rd_scalar P) (\<lambda>_. True)"
  by unfold_locales (auto simp: rd_scalar_def enc_scalar_def rd_take_Some codec_simps
      encoding_self dest!: encoding_scalar [THEN iffD1, rotated] split: bind_splits)

interpretation comp_codec: codec "be_bytes 32" rd_comp "\<lambda>_. True"
  by unfold_locales (auto simp: rd_comp_def rd_take_Some codec_simps split: bind_splits)

lemma rp_codec:
  assumes "encoding_laws P"
  shows "codec (enc_rp P) (rd_rp P) (\<lambda>_. True)"
proof
  fix x r
  have len: "length (rp_bytes P x) < 2 ^ 16" using assms by (simp add: encoding_laws_def)
  then have "unat (of_nat (length (rp_bytes P x)) :: u32) = length (rp_bytes P x)"
    by (simp add: unat_of_nat)
  then show "rd_rp P (enc_rp P x @ r) = Some (x, r)"
    by (simp add: rd_rp_def enc_rp_def Let_def codec_simps encoding_self [OF assms])
next
  fix b x r
  assume "rd_rp P b = Some (x, r)"
  then obtain n :: u32 and s where "b = le_bytes 4 n @ s @ r" "length s = unat n" "rp_bytes P x = s"
    by (auto simp: rd_rp_def u32_codec.dec_Some_iff rd_take_Some encoding_rp [OF assms]
        split: bind_splits)
  then show "b = enc_rp P x @ r \<and> True" by (simp add: enc_rp_def Let_def)
qed

section \<open>The solvent transfer\<close>

record ('g, 's, 'r) solvent_transfer =
  st_sender :: 'g
  st_receiver :: 'g
  st_nonce :: u64
  st_fee :: u64
  st_c_sender :: 'g
  st_c_receiver :: 'g
  st_d :: 'g
  st_v_t :: id32
  st_v_b :: id32
  st_rp_t :: 'r
  st_rp_b :: 'r
  st_a1 :: 'g
  st_a2 :: 'g
  st_a3 :: 'g
  st_a4 :: 'g
  st_a5 :: 'g
  st_a6 :: 'g
  st_a7 :: 'g
  st_z_x :: 's
  st_z_t :: 's
  st_z_r :: 's
  st_z_b :: 's
  st_z_st :: 's
  st_z_sb :: 's

definition solvent_challenge ::
  "('g, 's, 'r) prims \<Rightarrow> u32 \<Rightarrow> u64 \<Rightarrow> u64 \<Rightarrow> 'g list \<Rightarrow> 's" where
  "solvent_challenge P token nonce fee points =
     wide_hash P (ascii ''Latebra.SolventTransfer.v2'' @ le_bytes 4 token @ le_bytes 8 nonce
       @ le_bytes 8 fee @ concat (map (enc_point P) points))"

text \<open>The random scalars of \<^verbatim>\<open>create\<close>: \<open>r\<close>, the two range blindings and the six nonces.\<close>

record 's solvent_coins =
  sc_r :: 's
  sc_s_t :: 's
  sc_s_b :: 's
  sc_k_x :: 's
  sc_k_t :: 's
  sc_k_r :: 's
  sc_k_b :: 's
  sc_k_st :: 's
  sc_k_sb :: 's

definition solvent_create ::
  "('g::ab_group_add, 's::comm_ring_1, 'r) prims \<Rightarrow> 's \<Rightarrow> 'g \<Rightarrow> u32 \<Rightarrow> u64 \<Rightarrow> u64 \<Rightarrow> u64 \<Rightarrow>
   'g ciphertext \<Rightarrow> u64 \<Rightarrow> 's solvent_coins \<Rightarrow> ('g, 's, 'r) solvent_transfer option" where
  "solvent_create P x receiver_pk token amount fee current_balance ct nonce coins = do {
     spent \<leftarrow> checked_add amount fee;
     if spent > current_balance then None
     else do {
       let sender = public_key P x;
       let b_val = current_balance - spent;
       let t = scalar_from P amount;
       let b = scalar_from P b_val;
       let r = sc_r coins;
       let c_sender = smul P t (base_g P) + smul P r sender;
       let c_receiver = smul P t (base_g P) + smul P r receiver_pk;
       let d = smul P r (base_g P);
       let c_rem = ct_c ct - c_sender - smul P (scalar_from P fee) (base_g P);
       let d_rem = ct_d ct - d;
       let h = base_h P;
       (rp_t, vts) \<leftarrow> rp_prove P (ascii ''Latebra.Range.amount'') [(amount, sc_s_t coins)];
       (rp_b, vbs) \<leftarrow> rp_prove P (ascii ''Latebra.Range.balance'') [(b_val, sc_s_b coins)];
       let v_t = hd vts;
       let v_b = hd vbs;
       big_vt \<leftarrow> decompress P v_t;
       big_vb \<leftarrow> decompress P v_b;
       let a1 = smul P (sc_k_x coins) (base_g P);
       let a2 = smul P (sc_k_t coins) (base_g P) + smul P (sc_k_r coins) sender;
       let a3 = smul P (sc_k_t coins) (base_g P) + smul P (sc_k_r coins) receiver_pk;
       let a4 = smul P (sc_k_r coins) (base_g P);
       let a5 = smul P (sc_k_t coins) (base_g P) + smul P (sc_k_st coins) h;
       let a6 = smul P (sc_k_b coins) (base_g P) + smul P (sc_k_x coins) d_rem;
       let a7 = smul P (sc_k_b coins) (base_g P) + smul P (sc_k_sb coins) h;
       let e = solvent_challenge P token nonce fee
         [sender, receiver_pk, c_sender, c_receiver, d, c_rem, d_rem, big_vt, big_vb,
          a1, a2, a3, a4, a5, a6, a7];
       Some \<lparr>st_sender = sender, st_receiver = receiver_pk, st_nonce = nonce, st_fee = fee,
         st_c_sender = c_sender, st_c_receiver = c_receiver, st_d = d, st_v_t = v_t, st_v_b = v_b,
         st_rp_t = rp_t, st_rp_b = rp_b, st_a1 = a1, st_a2 = a2, st_a3 = a3, st_a4 = a4,
         st_a5 = a5, st_a6 = a6, st_a7 = a7,
         st_z_x = sc_k_x coins + e * x,
         st_z_t = sc_k_t coins + e * t,
         st_z_r = sc_k_r coins + e * r,
         st_z_b = sc_k_b coins + e * b,
         st_z_st = sc_k_st coins + e * sc_s_t coins,
         st_z_sb = sc_k_sb coins + e * sc_s_b coins\<rparr>
     } }"

definition solvent_to_bytes ::
  "('g, 's, 'r) prims \<Rightarrow> ('g, 's, 'r) solvent_transfer \<Rightarrow> bytes" where
  "solvent_to_bytes P st =
     concat (map (enc_point P)
       [st_sender st, st_receiver st, st_c_sender st, st_c_receiver st, st_d st])
     @ be_bytes 32 (st_v_t st) @ be_bytes 32 (st_v_b st)
     @ concat (map (enc_point P)
       [st_a1 st, st_a2 st, st_a3 st, st_a4 st, st_a5 st, st_a6 st, st_a7 st])
     @ concat (map (enc_scalar P)
       [st_z_x st, st_z_t st, st_z_r st, st_z_b st, st_z_st st, st_z_sb st])
     @ concat (map (enc_rp P) [st_rp_t st, st_rp_b st])
     @ le_bytes 8 (st_nonce st) @ le_bytes 8 (st_fee st)"

definition solvent_from_bytes ::
  "('g, 's, 'r) prims \<Rightarrow> bytes \<Rightarrow> ('g, 's, 'r) solvent_transfer option" where
  "solvent_from_bytes P b = do {
     (sender, b) \<leftarrow> rd_point P b;
     (receiver, b) \<leftarrow> rd_point P b;
     (c_sender, b) \<leftarrow> rd_point P b;
     (c_receiver, b) \<leftarrow> rd_point P b;
     (d, b) \<leftarrow> rd_point P b;
     (v_t, b) \<leftarrow> rd_comp b;
     (v_b, b) \<leftarrow> rd_comp b;
     (a1, b) \<leftarrow> rd_point P b;
     (a2, b) \<leftarrow> rd_point P b;
     (a3, b) \<leftarrow> rd_point P b;
     (a4, b) \<leftarrow> rd_point P b;
     (a5, b) \<leftarrow> rd_point P b;
     (a6, b) \<leftarrow> rd_point P b;
     (a7, b) \<leftarrow> rd_point P b;
     (z_x, b) \<leftarrow> rd_scalar P b;
     (z_t, b) \<leftarrow> rd_scalar P b;
     (z_r, b) \<leftarrow> rd_scalar P b;
     (z_b, b) \<leftarrow> rd_scalar P b;
     (z_st, b) \<leftarrow> rd_scalar P b;
     (z_sb, b) \<leftarrow> rd_scalar P b;
     (rp_t, b) \<leftarrow> rd_rp P b;
     (rp_b, b) \<leftarrow> rd_rp P b;
     (nonce, b) \<leftarrow> rd_u64 b;
     (fee, b) \<leftarrow> rd_u64 b;
     if b \<noteq> [] then None
     else Some \<lparr>st_sender = sender, st_receiver = receiver, st_nonce = nonce, st_fee = fee,
       st_c_sender = c_sender, st_c_receiver = c_receiver, st_d = d, st_v_t = v_t, st_v_b = v_b,
       st_rp_t = rp_t, st_rp_b = rp_b, st_a1 = a1, st_a2 = a2, st_a3 = a3, st_a4 = a4,
       st_a5 = a5, st_a6 = a6, st_a7 = a7, st_z_x = z_x, st_z_t = z_t, st_z_r = z_r,
       st_z_b = z_b, st_z_st = z_st, st_z_sb = z_sb\<rparr> }"

definition sender_ciphertext :: "('g, 's, 'r) solvent_transfer \<Rightarrow> 'g ciphertext" where
  "sender_ciphertext st = \<lparr>ct_c = st_c_sender st, ct_d = st_d st\<rparr>"

definition receiver_ciphertext :: "('g, 's, 'r) solvent_transfer \<Rightarrow> 'g ciphertext" where
  "receiver_ciphertext st = \<lparr>ct_c = st_c_receiver st, ct_d = st_d st\<rparr>"

text \<open>The seven relations \<^verbatim>\<open>c1\<close> to \<^verbatim>\<open>c7\<close> of \<^verbatim>\<open>verify\<close>, for a challenge \<open>e\<close>.\<close>

definition solvent_relations ::
  "('g::plus, 's, 'r) prims \<Rightarrow> ('g, 's, 'r) solvent_transfer \<Rightarrow> 'g \<Rightarrow> 'g \<Rightarrow> 'g \<Rightarrow> 'g \<Rightarrow> 's \<Rightarrow> bool" where
  "solvent_relations P st c_rem d_rem big_vt big_vb e \<longleftrightarrow>
     smul P (st_z_x st) (base_g P) = st_a1 st + smul P e (st_sender st) \<and>
     smul P (st_z_t st) (base_g P) + smul P (st_z_r st) (st_sender st) =
       st_a2 st + smul P e (st_c_sender st) \<and>
     smul P (st_z_t st) (base_g P) + smul P (st_z_r st) (st_receiver st) =
       st_a3 st + smul P e (st_c_receiver st) \<and>
     smul P (st_z_r st) (base_g P) = st_a4 st + smul P e (st_d st) \<and>
     smul P (st_z_t st) (base_g P) + smul P (st_z_st st) (base_h P) = st_a5 st + smul P e big_vt \<and>
     smul P (st_z_b st) (base_g P) + smul P (st_z_x st) d_rem = st_a6 st + smul P e c_rem \<and>
     smul P (st_z_b st) (base_g P) + smul P (st_z_sb st) (base_h P) = st_a7 st + smul P e big_vb"

definition solvent_verify ::
  "('g::ab_group_add, 's, 'r) prims \<Rightarrow> u32 \<Rightarrow> 'g ciphertext \<Rightarrow> ('g, 's, 'r) solvent_transfer \<Rightarrow> bool" where
  "solvent_verify P token ct st =
    (let c_rem = ct_c ct - st_c_sender st - smul P (scalar_from P (st_fee st)) (base_g P);
         d_rem = ct_d ct - st_d st in
     if \<not> rp_verify P (ascii ''Latebra.Range.amount'') (st_rp_t st) [st_v_t st] then False
     else if \<not> rp_verify P (ascii ''Latebra.Range.balance'') (st_rp_b st) [st_v_b st] then False
     else (case (decompress P (st_v_t st), decompress P (st_v_b st)) of
         (Some big_vt, Some big_vb) \<Rightarrow>
           let e = solvent_challenge P token (st_nonce st) (st_fee st)
             [st_sender st, st_receiver st, st_c_sender st, st_c_receiver st, st_d st, c_rem, d_rem,
              big_vt, big_vb, st_a1 st, st_a2 st, st_a3 st, st_a4 st, st_a5 st, st_a6 st, st_a7 st] in
           solvent_relations P st c_rem d_rem big_vt big_vb e
       | _ \<Rightarrow> False))"

section \<open>The transfer's claims\<close>

lemmas st_dec_iff =
  codec.dec_Some_iff [OF point_codec] codec.dec_Some_iff [OF scalar_codec]
  codec.dec_Some_iff [OF rp_codec]

lemma solvent_bytes_iff:
  assumes "encoding_laws P"
  shows "solvent_from_bytes P b = Some st \<longleftrightarrow> b = solvent_to_bytes P st"
proof
  assume "solvent_from_bytes P b = Some st"
  then show "b = solvent_to_bytes P st"
    unfolding solvent_from_bytes_def solvent_to_bytes_def bind_pair_Some st_dec_iff [OF assms]
      word_dec_iff comp_codec.dec_Some_iff
    by (elim exE conjE) (simp split: if_splits, hypsubst, simp)
next
  assume b: "b = solvent_to_bytes P st"
  show "solvent_from_bytes P b = Some st"
    unfolding b solvent_from_bytes_def solvent_to_bytes_def
    by (simp add: codec.read_back [OF point_codec [OF assms]] codec.read_back [OF scalar_codec [OF assms]]
      codec.read_back [OF rp_codec [OF assms]] comp_codec.dec_enc codec_simps
      u64_codec.dec_enc [where r = "[]", simplified])
qed

text \<open>
  the wire format of a transfer is exact: a byte string decodes to a transfer iff it is that
  transfer's encoding, so decoding inverts encoding and no transfer has two encodings.
\<close>

theorem solvent_codec:
  assumes "encoding_laws P"
  shows "solvent_from_bytes P b = Some st \<longleftrightarrow> b = solvent_to_bytes P st"
  by (rule solvent_bytes_iff [OF assms])

subsection \<open>Completeness\<close>

text \<open>
  The balance a key \<open>x\<close> reads in a ciphertext, as a scalar multiple of the base point.
\<close>

definition holds_balance :: "('g::ab_group_add, 's, 'r) prims \<Rightarrow> 's \<Rightarrow> 'g ciphertext \<Rightarrow> 's \<Rightarrow> bool" where
  "holds_balance P x ct m \<longleftrightarrow> ct_c ct = smul P m (base_g P) + smul P x (ct_d ct)"

lemma answer_lin:
  "module_laws P \<Longrightarrow> smul P (k + e * w) g = smul P k g + smul P e (smul P w g)"
  by (simp add: smul_lin)

lemma solvent_relations_complete:
  fixes P :: "('g::ab_group_add, 's::comm_ring_1, 'r) prims"
  assumes M: "module_laws P"
    and st: "st_sender st = public_key P x"
      "st_c_sender st = smul P t (base_g P) + smul P r (public_key P x)"
      "st_c_receiver st = smul P t (base_g P) + smul P r (st_receiver st)"
      "st_d st = smul P r (base_g P)"
      "st_a1 st = smul P kx (base_g P)"
      "st_a2 st = smul P kt (base_g P) + smul P kr (public_key P x)"
      "st_a3 st = smul P kt (base_g P) + smul P kr (st_receiver st)"
      "st_a4 st = smul P kr (base_g P)"
      "st_a5 st = smul P kt (base_g P) + smul P kst (base_h P)"
      "st_a6 st = smul P kb (base_g P) + smul P kx d_rem"
      "st_a7 st = smul P kb (base_g P) + smul P ksb (base_h P)"
      "st_z_x st = kx + e * x" "st_z_t st = kt + e * t" "st_z_r st = kr + e * r"
      "st_z_b st = kb + e * b" "st_z_st st = kst + e * s_t" "st_z_sb st = ksb + e * s_b"
    and vt: "vt = smul P t (base_g P) + smul P s_t (base_h P)"
    and vb: "vb = smul P b (base_g P) + smul P s_b (base_h P)"
    and rem: "c_rem = smul P b (base_g P) + smul P x d_rem"
  shows "solvent_relations P st c_rem d_rem vt vb e"
  unfolding solvent_relations_def st vt vb rem answer_lin [OF M] public_key_def smul_laws(2) [OF M]
  by (intro conjI) (simp_all add: algebra_simps)

lemma solvent_created_verifies:
  assumes "module_laws P" and "encoding_laws P" and "range_complete P"
    and holds: "holds_balance P x ct (scalar_from P bal)"
    and created: "solvent_create P x pk token amount fee bal ct nonce coins = Some st"
  shows "solvent_verify P token ct st \<and> unat amount + unat fee \<le> unat bal"
proof -
  note M = assms(1) and l = smul_laws [OF assms(1)]
  from created obtain spent rpt vts rpb vbs vt vb where
    sp: "checked_add amount fee = Some spent" "\<not> spent > bal"
    and pt: "rp_prove P (ascii ''Latebra.Range.amount'') [(amount, sc_s_t coins)] = Some (rpt, vts)"
    and pb: "rp_prove P (ascii ''Latebra.Range.balance'') [(bal - spent, sc_s_b coins)] = Some (rpb, vbs)"
    and dt: "decompress P (hd vts) = Some vt" and db: "decompress P (hd vbs) = Some vb"
    by (auto simp: solvent_create_def Let_def bind_eq_Some_conv split: if_splits)
  have leq: "unat amount + unat fee \<le> unat bal"
    using sp unat_checked_add [OF sp(1)] by (simp add: word_less_nat_alt)
  have spent: "unat spent = unat amount + unat fee" by (rule unat_checked_add [OF sp(1)])
  have ct: "rp_verify P (ascii ''Latebra.Range.amount'') rpt [hd vts]"
      "hd vts = compress P (smul P (scalar_from P amount) (base_g P) + smul P (sc_s_t coins) (base_h P))"
    using assms(3) pt unfolding range_complete_def by force+
  have cb: "rp_verify P (ascii ''Latebra.Range.balance'') rpb [hd vbs]"
      "hd vbs = compress P (smul P (scalar_from P (bal - spent)) (base_g P) + smul P (sc_s_b coins) (base_h P))"
    using assms(3) pb unfolding range_complete_def by force+
  have vt: "vt = smul P (scalar_from P amount) (base_g P) + smul P (sc_s_t coins) (base_h P)"
    using dt ct(2) encoding_self(1) [OF assms(2)] by simp
  have vb: "vb = smul P (scalar_from P (bal - spent)) (base_g P) + smul P (sc_s_b coins) (base_h P)"
    using db cb(2) encoding_self(1) [OF assms(2)] by simp
  have bal: "scalar_from P bal = scalar_from P amount + scalar_from P fee + scalar_from P (bal - spent)"
    using leq spent by (simp add: l(5) unat_sub_if_le word_le_nat_alt of_nat_diff)
  have rem: "ct_c ct - (smul P (scalar_from P amount) (base_g P) + smul P (sc_r coins) (public_key P x))
      - smul P (scalar_from P fee) (base_g P) =
      smul P (scalar_from P (bal - spent)) (base_g P) + smul P x (ct_d ct - smul P (sc_r coins) (base_g P))"
    using holds smul_commute [OF M, of "sc_r coins" x "base_g P"]
    by (simp add: holds_balance_def bal smul_lin [OF M] public_key_def algebra_simps)
  have rel: "st_fee st = fee" "st_nonce st = nonce" "st_v_t st = hd vts" "st_v_b st = hd vbs"
    "st_rp_t st = rpt" "st_rp_b st = rpb"
    using created sp pt pb dt db by (auto simp: solvent_create_def Let_def)
  have "\<exists>e. e = solvent_challenge P token (st_nonce st) (st_fee st)
             [st_sender st, st_receiver st, st_c_sender st, st_c_receiver st, st_d st,
              ct_c ct - st_c_sender st - smul P (scalar_from P fee) (base_g P), ct_d ct - st_d st,
              vt, vb, st_a1 st, st_a2 st, st_a3 st, st_a4 st, st_a5 st, st_a6 st, st_a7 st] \<and>
       solvent_relations P st (ct_c ct - st_c_sender st - smul P (scalar_from P fee) (base_g P))
         (ct_d ct - st_d st) vt vb e"
  proof (intro exI conjI, rule refl)
    show "solvent_relations P st (ct_c ct - st_c_sender st - smul P (scalar_from P fee) (base_g P))
         (ct_d ct - st_d st) vt vb (solvent_challenge P token (st_nonce st) (st_fee st)
             [st_sender st, st_receiver st, st_c_sender st, st_c_receiver st, st_d st,
              ct_c ct - st_c_sender st - smul P (scalar_from P fee) (base_g P), ct_d ct - st_d st,
              vt, vb, st_a1 st, st_a2 st, st_a3 st, st_a4 st, st_a5 st, st_a6 st, st_a7 st])"
      using created sp pt pb dt db
      by (intro solvent_relations_complete [OF M, where x = x and t = "scalar_from P amount"
          and r = "sc_r coins" and b = "scalar_from P (bal - spent)" and s_t = "sc_s_t coins"
          and s_b = "sc_s_b coins" and kx = "sc_k_x coins" and kt = "sc_k_t coins"
          and kr = "sc_k_r coins" and kb = "sc_k_b coins" and kst = "sc_k_st coins"
          and ksb = "sc_k_sb coins"])
        (auto simp: solvent_create_def Let_def rem vt vb)
  qed
  then show ?thesis
    using leq ct(1) cb(1) dt db unfolding solvent_verify_def by (simp add: rel Let_def)
qed

text \<open>What the code takes for granted when it asks for a range proof: the prover does not fail.\<close>

definition range_total :: "('g, 's, 'r) prims \<Rightarrow> bool" where
  "range_total P \<longleftrightarrow> (\<forall>l v s. rp_prove P l [(v, s)] \<noteq> None)"

lemma range_made:
  assumes "encoding_laws P" and "range_complete P" and "range_total P"
  obtains rp c p where "rp_prove P l [(v, s)] = Some (rp, [c])" and "decompress P c = Some p"
proof -
  obtain rp cs where p: "rp_prove P l [(v, s)] = Some (rp, cs)" using assms(3) by (fastforce simp: range_total_def)
  then have "cs = [compress P (smul P (scalar_from P v) (base_g P) + smul P s (base_h P))]"
    using assms(2) unfolding range_complete_def by force
  then show ?thesis using p encoding_self(1) [OF assms(1)] by (intro that) auto
qed

text \<open>
  C13: the prover is complete. From a balance the sender really holds, \<open>create\<close> builds a transfer
  exactly when the amount and the fee together are covered by that balance, provided the range prover
  does not fail, and every transfer it builds passes \<open>verify\<close> against that balance.
\<close>

theorem solvent_complete:
  assumes "module_laws P" and "encoding_laws P" and "range_complete P" and "range_total P"
    and "holds_balance P x ct (scalar_from P bal)"
  shows "((\<exists>st. solvent_create P x pk token amount fee bal ct nonce coins = Some st) \<longleftrightarrow>
      unat amount + unat fee \<le> unat bal) \<and>
    (\<forall>st. solvent_create P x pk token amount fee bal ct nonce coins = Some st \<longrightarrow> solvent_verify P token ct st)"
proof -
  have "\<exists>st. solvent_create P x pk token amount fee bal ct nonce coins = Some st"
    if le: "unat amount + unat fee \<le> unat bal"
  proof -
    have "unat amount + unat fee < 2 ^ 64" using le unat_lt2p [of bal] by simp
    then obtain spent where sp: "checked_add amount fee = Some spent" by (auto simp: checked_add_def)
    moreover have "\<not> spent > bal" using unat_checked_add [OF sp] le by (simp add: word_less_nat_alt)
    moreover obtain rpt vt pt where "rp_prove P (ascii ''Latebra.Range.amount'') [(amount, sc_s_t coins)] = Some (rpt, [vt])"
      "decompress P vt = Some pt" by (rule range_made [OF assms(2-4)])
    moreover obtain rpb vb pb where "rp_prove P (ascii ''Latebra.Range.balance'') [(bal - spent, sc_s_b coins)] = Some (rpb, [vb])"
      "decompress P vb = Some pb" by (rule range_made [OF assms(2-4)])
    ultimately show ?thesis by (simp add: solvent_create_def Let_def)
  qed
  then show ?thesis using solvent_created_verifies [OF assms(1-3,5)] by blast
qed

definition demo_coins :: "u64 solvent_coins" where
  "demo_coins = \<lparr>sc_r = 11, sc_s_t = 2, sc_s_b = 3, sc_k_x = 4, sc_k_t = 5, sc_k_r = 6, sc_k_b = 7,
     sc_k_st = 8, sc_k_sb = 9\<rparr>"

theorem solvent_complete_witness:
  "\<exists>st. solvent_create (toy_prims :: (u64, u64, unit) prims) 3 10 0 40 2 100
      \<lparr>ct_c = 115, ct_d = 5\<rparr> 0 demo_coins = Some st \<and>
    solvent_verify toy_prims 0 \<lparr>ct_c = 115, ct_d = 5\<rparr> st"
proof -
  have h: "holds_balance (toy_prims :: (u64, u64, unit) prims) 3 \<lparr>ct_c = 115, ct_d = 5\<rparr>
      (scalar_from toy_prims 100)"
    by (simp add: holds_balance_def toy_prims_def)
  have t: "range_total (toy_prims :: (u64, u64, unit) prims)" by (simp add: range_total_def toy_prims_def)
  show ?thesis
    using solvent_complete [OF toy_module_laws toy_encoding_laws toy_range_complete t h, of 10 0 40 2 0 demo_coins] by auto
qed

subsection \<open>Soundness\<close>

text \<open>
  From two accepted answers to different challenges: each linear relation gives its witness as the
  difference of the answers over the difference of the challenges.
\<close>

lemma extract1:
  assumes M: "module_laws P" and "smul P z g = a + smul P e y" and "smul P z' g = a + smul P e' y"
    and d: "d * (e - e') = 1"
  shows "smul P (d * (z - z')) g = y"
proof -
  have "smul P (z - z') g = smul P (e - e') y"
    using assms(2,3) by (simp add: smul_minus [OF M])
  then have "smul P d (smul P (z - z') g) = smul P (d * (e - e')) y" by (simp add: smul_laws(3) [OF M])
  then show ?thesis by (simp add: d smul_laws(3,4) [OF M])
qed

lemma extract2:
  assumes M: "module_laws P"
    and "smul P z g + smul P w h = a + smul P e y" and "smul P z' g + smul P w' h = a + smul P e' y"
    and d: "d * (e - e') = 1"
  shows "smul P (d * (z - z')) g + smul P (d * (w - w')) h = y"
proof -
  have "smul P (z - z') g + smul P (w - w') h = smul P (e - e') y"
    using assms(2,3) by (simp add: smul_minus [OF M] algebra_simps)
  then have "smul P d (smul P (z - z') g + smul P (w - w') h) = smul P (d * (e - e')) y"
    by (simp add: smul_laws(3) [OF M])
  then show ?thesis by (simp add: d smul_laws(2,3,4) [OF M])
qed

lemma balance_from_parts:
  assumes M: "module_laws P"
    and "smul P t g + ry = cs" and "ry = smul P x d"
    and "smul P b g + smul P x (D - d) = C - cs - smul P f g"
  shows "C = smul P (t + f + b) g + smul P x D"
proof -
  have "C = smul P b g + smul P x (D - d) + cs + smul P f g" using assms(4) by (simp add: algebra_simps)
  also have "\<dots> = smul P (t + f + b) g + smul P x D"
    unfolding assms(2) [symmetric] assms(3)
    by (simp add: smul_laws(1) [OF M] smul_minus(4) [OF M] algebra_simps)
  finally show ?thesis .
qed

lemma solvent_extract:
  fixes P :: "('g::ab_group_add, 's::comm_ring_1, 'r) prims"
  assumes M: "module_laws P"
    and rem: "c_rem = ct_c ct - st_c_sender st - smul P (scalar_from P (st_fee st)) (base_g P)"
      "d_rem = ct_d ct - st_d st"
    and acc: "solvent_relations P st c_rem d_rem vt vb e"
    and acc': "solvent_relations P (st\<lparr>st_z_x := zx, st_z_t := zt, st_z_r := zr, st_z_b := zb,
        st_z_st := zst, st_z_sb := zsb\<rparr>) c_rem d_rem vt vb e'"
    and d: "d * (e - e') = 1"
    and xe: "x = d * (st_z_x st - zx)" and te: "t = d * (st_z_t st - zt)" and be: "b = d * (st_z_b st - zb)"
  shows "public_key P x = st_sender st"
    and "holds_balance P x ct (t + scalar_from P (st_fee st) + b)"
    and "\<exists>r. sender_ciphertext st = \<lparr>ct_c = smul P t (base_g P) + smul P r (st_sender st), ct_d = smul P r (base_g P)\<rparr> \<and>
     receiver_ciphertext st = \<lparr>ct_c = smul P t (base_g P) + smul P r (st_receiver st), ct_d = smul P r (base_g P)\<rparr>"
    and "vt = smul P t (base_g P) + smul P (d * (st_z_st st - zst)) (base_h P)"
    and "vb = smul P b (base_g P) + smul P (d * (st_z_sb st - zsb)) (base_h P)"
proof -
  let ?x = "d * (st_z_x st - zx)" and ?t = "d * (st_z_t st - zt)" and ?r = "d * (st_z_r st - zr)"
    and ?b = "d * (st_z_b st - zb)" and ?st = "d * (st_z_st st - zst)" and ?sb = "d * (st_z_sb st - zsb)"
  note A = acc [unfolded solvent_relations_def] and A' = acc' [unfolded solvent_relations_def, simplified]
  have x: "smul P ?x (base_g P) = st_sender st" using A A' d by (intro extract1 [OF M]) auto
  have r: "smul P ?r (base_g P) = st_d st" using A A' d by (intro extract1 [OF M]) auto
  have cs: "smul P ?t (base_g P) + smul P ?r (st_sender st) = st_c_sender st"
    using A A' d by (intro extract2 [OF M]) auto
  have cr: "smul P ?t (base_g P) + smul P ?r (st_receiver st) = st_c_receiver st"
    using A A' d by (intro extract2 [OF M]) auto
  have vt: "smul P ?t (base_g P) + smul P ?st (base_h P) = vt"
    using A A' d by (intro extract2 [OF M]) auto
  have br: "smul P ?b (base_g P) + smul P ?x d_rem = c_rem"
    using A A' d by (intro extract2 [OF M]) auto
  have vb: "smul P ?b (base_g P) + smul P ?sb (base_h P) = vb"
    using A A' d by (intro extract2 [OF M]) auto
  have "smul P ?r (st_sender st) = smul P ?x (st_d st)"
    unfolding x [symmetric] r [symmetric] by (rule smul_commute [OF M])
  then have "holds_balance P ?x ct (?t + scalar_from P (st_fee st) + ?b)"
    unfolding holds_balance_def by (rule balance_from_parts [OF M cs _ br [unfolded rem]])
  then show "holds_balance P x ct (t + scalar_from P (st_fee st) + b)" by (simp only: xe te be)
  show "public_key P x = st_sender st" using x by (simp add: xe public_key_def)
  show "\<exists>r. sender_ciphertext st = \<lparr>ct_c = smul P t (base_g P) + smul P r (st_sender st), ct_d = smul P r (base_g P)\<rparr> \<and>
     receiver_ciphertext st = \<lparr>ct_c = smul P t (base_g P) + smul P r (st_receiver st), ct_d = smul P r (base_g P)\<rparr>"
    using r cs cr by (intro exI [of _ ?r]) (simp add: te sender_ciphertext_def receiver_ciphertext_def)
  show "vt = smul P t (base_g P) + smul P ?st (base_h P)" "vb = smul P b (base_g P) + smul P ?sb (base_h P)"
    using vt vb by (simp_all add: te be)
qed

text \<open>
  The challenge of a transfer that decodes, as \<open>verify\<close> computes it, and two transfers that differ in
  their answers only: the same first message.
\<close>

definition transfer_challenge ::
  "('g::ab_group_add, 's, 'r) prims \<Rightarrow> u32 \<Rightarrow> 'g ciphertext \<Rightarrow> ('g, 's, 'r) solvent_transfer \<Rightarrow> 's" where
  "transfer_challenge P token ct st = solvent_challenge P token (st_nonce st) (st_fee st)
     [st_sender st, st_receiver st, st_c_sender st, st_c_receiver st, st_d st,
      ct_c ct - st_c_sender st - smul P (scalar_from P (st_fee st)) (base_g P), ct_d ct - st_d st,
      the (decompress P (st_v_t st)), the (decompress P (st_v_b st)),
      st_a1 st, st_a2 st, st_a3 st, st_a4 st, st_a5 st, st_a6 st, st_a7 st]"

definition same_message :: "('g, 's, 'r) solvent_transfer \<Rightarrow> ('g, 's, 'r) solvent_transfer \<Rightarrow> bool" where
  "same_message st st' \<longleftrightarrow> st' = st\<lparr>st_z_x := st_z_x st', st_z_t := st_z_t st', st_z_r := st_z_r st',
     st_z_b := st_z_b st', st_z_st := st_z_st st', st_z_sb := st_z_sb st'\<rparr>"

text \<open>
  What the range proofs promise: from an accepted proof for one commitment an extractor reads a 64-bit
  value and a blinding that open it. A non-zero multiple of \<open>G\<close> that is written as a multiple of \<open>H\<close>
  breaks the commitments.
\<close>

definition range_extractor ::
  "('g::plus, 's, 'r) prims \<Rightarrow> (bytes \<Rightarrow> 'r \<Rightarrow> id32 \<Rightarrow> u64 \<times> 's) \<Rightarrow> bool" where
  "range_extractor P X \<longleftrightarrow> (\<forall>l rp c. rp_verify P l rp [c] \<longrightarrow>
     decompress P c = Some (smul P (scalar_from P (fst (X l rp c))) (base_g P) + smul P (snd (X l rp c)) (base_h P)))"

definition breaks_binding :: "('g, 's::zero, 'r) prims \<Rightarrow> 's \<Rightarrow> 's \<Rightarrow> bool" where
  "breaks_binding P a b \<longleftrightarrow> a \<noteq> 0 \<and> smul P a (base_g P) = smul P b (base_h P)"

lemma two_openings:
  assumes "module_laws P"
    and "smul P a (base_g P) + smul P r (base_h P) = smul P b (base_g P) + smul P s (base_h P)"
  shows "a = b \<or> breaks_binding P (a - b) (s - r)"
  using assms(2) by (auto simp: breaks_binding_def smul_minus [OF assms(1)] algebra_simps)

lemma solvent_verifyD:
  assumes "solvent_verify P token ct st"
  shows "rp_verify P (ascii ''Latebra.Range.amount'') (st_rp_t st) [st_v_t st]"
    and "rp_verify P (ascii ''Latebra.Range.balance'') (st_rp_b st) [st_v_b st]"
    and "solvent_relations P st (ct_c ct - st_c_sender st - smul P (scalar_from P (st_fee st)) (base_g P))
      (ct_d ct - st_d st) (the (decompress P (st_v_t st))) (the (decompress P (st_v_b st)))
      (transfer_challenge P token ct st)"
  using assms by (auto simp: solvent_verify_def transfer_challenge_def Let_def split: if_splits option.splits)

text \<open>
  C7: an accepted transfer moves value the sender has. Take a transfer that \<open>verify\<close> accepts, and a second
  one with the same first message that \<open>verify\<close> accepts when the random oracle answers with another
  challenge. The differences of their answers give a key \<open>x\<close> of the sender, an amount \<open>t\<close> and a remainder
  \<open>b\<close>: the ciphertext debited encrypts \<open>t\<close> to the sender, the one credited the same \<open>t\<close> to the receiver, and
  the sender's balance is \<open>t + fee + b\<close>. Moreover \<open>t\<close> and \<open>b\<close> are the 64-bit numbers \<open>v\<close> and \<open>w\<close> of the two
  range proofs, so that the balance covers the amount and the fee as numbers, unless the extracted values
  give a relation between the generators \<open>G\<close> and \<open>H\<close>, which breaks the commitments.
\<close>

theorem solvent_sound:
  fixes P :: "('g::ab_group_add, 's::comm_ring_1, 'r) prims"
  assumes "module_laws P" and "range_extractor P X"
    and "solvent_verify P token ct st" and "solvent_verify (P\<lparr>sha512 := oracle\<rparr>) token ct st'"
    and "same_message st st'"
    and "d * (transfer_challenge P token ct st - transfer_challenge (P\<lparr>sha512 := oracle\<rparr>) token ct st) = 1"
    and "x = d * (st_z_x st - st_z_x st')" and "t = d * (st_z_t st - st_z_t st')"
    and "b = d * (st_z_b st - st_z_b st')"
    and "(v, s) = X (ascii ''Latebra.Range.amount'') (st_rp_t st) (st_v_t st)"
    and "(w, u) = X (ascii ''Latebra.Range.balance'') (st_rp_b st) (st_v_b st)"
  shows "public_key P x = st_sender st \<and> holds_balance P x ct (t + scalar_from P (st_fee st) + b) \<and>
    (\<exists>r. sender_ciphertext st = \<lparr>ct_c = smul P t (base_g P) + smul P r (st_sender st), ct_d = smul P r (base_g P)\<rparr> \<and>
      receiver_ciphertext st = \<lparr>ct_c = smul P t (base_g P) + smul P r (st_receiver st), ct_d = smul P r (base_g P)\<rparr>) \<and>
    (t = scalar_from P v \<and> b = scalar_from P w \<and>
       holds_balance P x ct (of_nat (unat v + unat (st_fee st) + unat w)) \<or>
     breaks_binding P (t - scalar_from P v) (s - d * (st_z_st st - st_z_st st')) \<or>
     breaks_binding P (b - scalar_from P w) (u - d * (st_z_sb st - st_z_sb st')))"
proof -
  let ?st' = "st\<lparr>st_z_x := st_z_x st', st_z_t := st_z_t st', st_z_r := st_z_r st',
     st_z_b := st_z_b st', st_z_st := st_z_st st', st_z_sb := st_z_sb st'\<rparr>"
  let ?vt = "the (decompress P (st_v_t st))" and ?vb = "the (decompress P (st_v_b st))"
  let ?c = "ct_c ct - st_c_sender st - smul P (scalar_from P (st_fee st)) (base_g P)"
  let ?e' = "transfer_challenge (P\<lparr>sha512 := oracle\<rparr>) token ct st"
  note V = solvent_verifyD [OF assms(3)]
  have "solvent_verify (P\<lparr>sha512 := oracle\<rparr>) token ct ?st'" using assms(4,5) by (simp add: same_message_def)
  from solvent_verifyD(3) [OF this]
  have A': "solvent_relations P ?st' ?c (ct_d ct - st_d st) ?vt ?vb ?e'"
    by (simp add: solvent_relations_def transfer_challenge_def)
  note E = solvent_extract [OF assms(1) refl refl V(3) A' assms(6-9)]
  have "?vt = smul P (scalar_from P v) (base_g P) + smul P s (base_h P)"
    "?vb = smul P (scalar_from P w) (base_g P) + smul P u (base_h P)"
    using assms(2) V(1,2) assms(10,11) [symmetric] unfolding range_extractor_def by fastforce+
  then have "t = scalar_from P v \<or> breaks_binding P (t - scalar_from P v) (s - d * (st_z_st st - st_z_st st'))"
    "b = scalar_from P w \<or> breaks_binding P (b - scalar_from P w) (u - d * (st_z_sb st - st_z_sb st'))"
    using E(4,5) by (auto intro!: two_openings [OF assms(1)])
  moreover have "scalar_from P v + scalar_from P (st_fee st) + scalar_from P w = of_nat (unat v + unat (st_fee st) + unat w)"
    by (simp add: smul_laws(5) [OF assms(1)])
  ultimately show ?thesis using E(1-3) by metis
qed

definition demo_transfer :: "(u64, u64, unit) solvent_transfer" where
  "demo_transfer = \<lparr>st_sender = 3, st_receiver = 10, st_nonce = 0, st_fee = 2, st_c_sender = 73,
     st_c_receiver = 150, st_d = 11, st_v_t = 42, st_v_b = 61, st_rp_t = (), st_rp_b = (),
     st_a1 = 0, st_a2 = 0, st_a3 = 0, st_a4 = 0, st_a5 = 0, st_a6 = 0, st_a7 = 0,
     st_z_x = 3, st_z_t = 40, st_z_r = 11, st_z_b = 58, st_z_st = 2, st_z_sb = 3\<rparr>"

text \<open>Toy primitives whose oracle answers 1 and whose range proofs accept the commitments that decompress.\<close>

definition checking_prims :: "(u64, u64, unit) prims" where
  "checking_prims = toy_prims\<lparr>sha512 := (\<lambda>bs. 1), rp_verify := (\<lambda>l r cs. \<forall>c \<in> set cs. decompress toy_prims c \<noteq> (None :: u64 option))\<rparr>"

theorem solvent_sound_witness:
  "holds_balance checking_prims 3 \<lparr>ct_c = 115, ct_d = 5\<rparr> (40 + 2 + 58)"
proof -
  let ?other = "demo_transfer\<lparr>st_z_x := 0, st_z_t := 0, st_z_r := 0, st_z_b := 0, st_z_st := 0, st_z_sb := 0\<rparr>"
  let ?ct = "\<lparr>ct_c = 115, ct_d = 5\<rparr> :: u64 ciphertext"
  have m: "module_laws checking_prims"
    using toy_module_laws [where 'a = 64] by (simp add: checking_prims_def module_laws_def)
  have x: "range_extractor checking_prims (\<lambda>l rp c. (ucast c, 0))"
    by (simp add: range_extractor_def checking_prims_def toy_prims_def)
  have e: "transfer_challenge checking_prims 0 ?ct demo_transfer = 1"
    "transfer_challenge (checking_prims\<lparr>sha512 := \<lambda>bs. 0\<rparr>) 0 ?ct demo_transfer = 0"
    by (simp_all add: transfer_challenge_def solvent_challenge_def wide_hash_def checking_prims_def toy_prims_def)
  have a: "solvent_verify checking_prims 0 ?ct demo_transfer"
    by (simp add: solvent_verify_def solvent_challenge_def wide_hash_def solvent_relations_def demo_transfer_def
        checking_prims_def toy_prims_def Let_def)
  have b: "solvent_verify (checking_prims\<lparr>sha512 := \<lambda>bs. 0\<rparr>) 0 ?ct ?other"
    by (simp add: solvent_verify_def solvent_challenge_def wide_hash_def solvent_relations_def demo_transfer_def
        checking_prims_def toy_prims_def Let_def)
  have "same_message demo_transfer ?other" by (simp add: same_message_def)
  from solvent_sound [OF m x a b this _ refl refl refl refl refl, of 1, unfolded e] show ?thesis
    by (simp add: demo_transfer_def checking_prims_def toy_prims_def)
qed

theorem solvent_codec_witness:
  "solvent_from_bytes (toy_prims :: (u64, u64, unit) prims)
     (solvent_to_bytes toy_prims demo_transfer) = Some demo_transfer"
  using solvent_codec [OF toy_encoding_laws [where 'a = 64]] by simp

section \<open>Range components\<close>

record ('g, 's, 'r) range_component =
  rc_commitment :: id32
  rc_proof :: 'r
  rc_a_cv :: 'g
  rc_a_v :: 'g
  rc_z_v :: 's
  rc_z_rho :: 's
  rc_z_s :: 's

definition range_link_challenge ::
  "('g, 's, 'r) prims \<Rightarrow> 'g \<Rightarrow> 'g \<Rightarrow> 'g \<Rightarrow> 'g \<Rightarrow> 'g \<Rightarrow> 'g \<Rightarrow> 's" where
  "range_link_challenge P blinding_base h cv v_commit a_cv a_v =
     wide_hash P (ascii ''Latebra.RangeLink.v1''
       @ concat (map (enc_point P) [blinding_base, h, cv, v_commit, a_cv, a_v]))"

definition range_prove ::
  "('g::plus, 's::comm_ring_1, 'r) prims \<Rightarrow> u64 \<Rightarrow> 'g \<Rightarrow> 's \<Rightarrow> 'g \<Rightarrow> 's \<Rightarrow> 's \<Rightarrow> 's \<Rightarrow> 's \<Rightarrow>
   ('g, 's, 'r) range_component option" where
  "range_prove P val blinding_base rho cv s k_v k_rho k_s = do {
     let h = base_h P;
     (range_proof, cs) \<leftarrow> rp_prove P (ascii ''Latebra.Range.v1'') [(val, s)];
     let commitment = hd cs;
     v_commit \<leftarrow> decompress P commitment;
     let v = scalar_from P val;
     let a_cv = smul P k_v (base_g P) + smul P k_rho blinding_base;
     let a_v = smul P k_v (base_g P) + smul P k_s h;
     let e = range_link_challenge P blinding_base h cv v_commit a_cv a_v;
     Some \<lparr>rc_commitment = commitment, rc_proof = range_proof, rc_a_cv = a_cv, rc_a_v = a_v,
       rc_z_v = k_v + e * v, rc_z_rho = k_rho + e * rho, rc_z_s = k_s + e * s\<rparr> }"

definition range_verify ::
  "('g::plus, 's, 'r) prims \<Rightarrow> ('g, 's, 'r) range_component \<Rightarrow> 'g \<Rightarrow> 'g \<Rightarrow> bool" where
  "range_verify P rc blinding_base cv =
    (let h = base_h P in
     if \<not> rp_verify P (ascii ''Latebra.Range.v1'') (rc_proof rc) [rc_commitment rc] then False
     else (case decompress P (rc_commitment rc) of
         None \<Rightarrow> False
       | Some v_commit \<Rightarrow>
           let e = range_link_challenge P blinding_base h cv v_commit (rc_a_cv rc) (rc_a_v rc) in
           smul P (rc_z_v rc) (base_g P) + smul P (rc_z_rho rc) blinding_base =
             rc_a_cv rc + smul P e cv \<and>
           smul P (rc_z_v rc) (base_g P) + smul P (rc_z_s rc) h = rc_a_v rc + smul P e v_commit))"

text \<open>
  a range component made for a commitment \<open>cv = v \<cdot> G + rho \<cdot> P\<close> verifies against it.
\<close>

theorem range_component_complete:
  assumes M: "module_laws P" and "encoding_laws P" and "range_complete P"
    and cv: "cv = smul P (scalar_from P val) (base_g P) + smul P rho blinding_base"
    and "range_prove P val blinding_base rho cv s k_v k_rho k_s = Some rc"
  shows "range_verify P rc blinding_base cv"
proof -
  from assms(5) obtain rp cs vc where
    p: "rp_prove P (ascii ''Latebra.Range.v1'') [(val, s)] = Some (rp, cs)"
    and d: "decompress P (hd cs) = Some vc"
    by (auto simp: range_prove_def Let_def bind_eq_Some_conv)
  have c: "rp_verify P (ascii ''Latebra.Range.v1'') rp [hd cs]"
      "hd cs = compress P (smul P (scalar_from P val) (base_g P) + smul P s (base_h P))"
    using assms(3) p unfolding range_complete_def by force+
  have "vc = smul P (scalar_from P val) (base_g P) + smul P s (base_h P)"
    using d c(2) encoding_self(1) [OF assms(2)] by simp
  then show ?thesis using assms(5) p d c(1) cv
    by (auto simp: range_prove_def range_verify_def Let_def answer_lin [OF M] smul_laws(2) [OF M]
        add_ac)
qed

theorem range_component_complete_witness:
  "\<exists>rc. range_prove (toy_prims :: (u64, u64, unit) prims) 5 7 3 26 1 2 3 4 = Some rc \<and>
     range_verify toy_prims rc 7 26"
proof -
  have c: "(26 :: u64) = smul toy_prims (scalar_from toy_prims 5) (base_g toy_prims) + smul toy_prims 3 7"
    by (simp add: toy_prims_def)
  have "\<exists>rc. range_prove (toy_prims :: (u64, u64, unit) prims) 5 7 3 26 1 2 3 4 = Some rc"
    by (simp add: range_prove_def toy_prims_def Let_def)
  then obtain rc where rc: "range_prove (toy_prims :: (u64, u64, unit) prims) 5 7 3 26 1 2 3 4 = Some rc"
    by blast
  show ?thesis
    using range_component_complete [OF toy_module_laws toy_encoding_laws toy_range_complete c rc] rc
    by auto
qed

section \<open>Conservation of committed deltas\<close>

text \<open>A Rust \<^verbatim>\<open>i64\<close> is a 64-bit word read as signed (\<open>sint\<close>).\<close>

definition scalar_from_i64 :: "('g, 's::uminus, 'r) prims \<Rightarrow> u64 \<Rightarrow> 's" where
  "scalar_from_i64 P v = (if sint v \<ge> 0 then scalar_from P v else - scalar_from P (- v))"

definition conservation_challenge :: "('g, 's, 'r) prims \<Rightarrow> 'g list \<Rightarrow> 'g \<Rightarrow> 'g \<Rightarrow> 's" where
  "conservation_challenge P commitments agg a =
     wide_hash P (ascii ''Latebra.Conservation.v1'' @ le_bytes 8 (of_nat (length commitments) :: u64)
       @ concat (map (enc_point P) commitments) @ enc_point P agg @ enc_point P a)"

record ('g, 's) conserved_deltas =
  cd_commitments :: "'g list"
  cd_a :: 'g
  cd_z :: 's

text \<open>\<open>blinds\<close> are the random blindings, one per value, and \<open>k\<close> the Schnorr nonce.\<close>

definition conserved_create ::
  "('g::ab_group_add, 's::comm_ring_1, 'r) prims \<Rightarrow> u64 list \<Rightarrow> 's list \<Rightarrow> 's \<Rightarrow>
   ('g, 's) conserved_deltas option" where
  "conserved_create P vals blinds k =
    (if sum_list (map sint vals) \<noteq> 0 then None
     else
       let commitments = map2 (\<lambda>v s. smul P (scalar_from_i64 P v) (base_g P) + smul P s (base_h P)) vals blinds;
           blinding_sum = sum_list blinds;
           agg = sum_list commitments;
           a = smul P k (base_h P);
           e = conservation_challenge P commitments agg a in
       Some \<lparr>cd_commitments = commitments, cd_a = a, cd_z = k + e * blinding_sum\<rparr>)"

definition conserved_verify :: "('g::ab_group_add, 's, 'r) prims \<Rightarrow> ('g, 's) conserved_deltas \<Rightarrow> bool" where
  "conserved_verify P cd =
    (let h = base_h P;
         agg = sum_list (cd_commitments cd);
         e = conservation_challenge P (cd_commitments cd) agg (cd_a cd) in
     smul P (cd_z cd) h = cd_a cd + smul P e agg)"

lemma scalar_from_i64:
  assumes M: "module_laws P"
  shows "scalar_from_i64 P v = of_int (sint v)"
proof (cases "sint v \<ge> 0")
  case True
  then have "uint v = sint v" using sint_lt [of v] by (simp add: uint_of_sint)
  then have "of_nat (unat v) = (of_int (sint v) :: 'b)" by (metis of_int_of_nat_eq uint_nat)
  then show ?thesis using True by (simp add: scalar_from_i64_def smul_laws(5) [OF M])
next
  case False
  then have "of_nat (unat (- v)) = (of_int (- sint v) :: 'b)"
    using uint_neg_of_sint [of v] by (metis not_le of_int_of_nat_eq uint_nat)
  then show ?thesis using False by (simp add: scalar_from_i64_def smul_laws(5) [OF M])
qed

lemma sum_commitments:
  assumes M: "module_laws P" and "length vals = length blinds"
  shows "sum_list (map2 (\<lambda>v s. smul P (scalar_from_i64 P v) g + smul P s h) vals blinds) =
    smul P (of_int (sum_list (map sint vals))) g + smul P (sum_list blinds) h"
  using assms(2)
  by (induction vals blinds rule: list_induct2)
     (simp_all add: smul_lin [OF M] scalar_from_i64 [OF M] add_ac)

text \<open>
  conservation is exactly provable. Deltas that sum to zero get a proof that verifies, and
  deltas that do not are refused.
\<close>

theorem conserved_complete:
  assumes M: "module_laws P" and len: "length vals = length blinds"
  shows "case conserved_create P vals blinds k of
      None \<Rightarrow> sum_list (map sint vals) \<noteq> 0
    | Some cd \<Rightarrow> sum_list (map sint vals) = 0 \<and> conserved_verify P cd"
  using sum_commitments [OF M len, of "base_g P" "base_h P"]
  by (simp add: conserved_create_def conserved_verify_def Let_def answer_lin [OF M] smul_zero [OF M])

theorem conserved_complete_witness:
  "case conserved_create (toy_prims :: (u64, u64, unit) prims) [5, - 5] [1, 2] 9 of
     None \<Rightarrow> False | Some cd \<Rightarrow> conserved_verify toy_prims cd"
proof -
  have s: "sum_list (map sint [5 :: u64, - 5]) = 0" by simp
  show ?thesis
    using conserved_complete [OF toy_module_laws [where 'a = 64], of "[5, - 5]" "[1, 2]" 9] s
    by (auto split: option.splits)
qed

text \<open>
  two accepting answers to different challenges open the sum of the committed deltas as a
  multiple of the blinding base alone, that is, as a commitment to zero.
\<close>

lemma conserved_sound:
  assumes "module_laws P"
    and "smul P z (base_h P) = a + smul P e (sum_list cs)"
    and "smul P z' (base_h P) = a + smul P e' (sum_list cs)" and "d * (e - e') = 1"
  shows "sum_list cs = smul P 0 (base_g P) + smul P (d * (z - z')) (base_h P)"
  using extract1 [OF assms] by (simp add: smul_zero [OF assms(1)])

section \<open>Stealth addresses\<close>

record 'g stealth_output =
  so_ephemeral :: 'g
  so_one_time :: 'g

definition shared_scalar :: "('g, 's, 'r) prims \<Rightarrow> 'g \<Rightarrow> 's" where
  "shared_scalar P shared = wide_hash P (ascii ''Latebra.Stealth.v1'' @ enc_point P shared)"

definition stealth_send :: "('g::plus, 's, 'r) prims \<Rightarrow> 'g \<Rightarrow> 's \<Rightarrow> 'g stealth_output" where
  "stealth_send P recipient r =
    (let shared = smul P r recipient; s = shared_scalar P shared in
     \<lparr>so_ephemeral = smul P r (base_g P), so_one_time = smul P s (base_g P) + recipient\<rparr>)"

definition stealth_receive :: "('g::plus, 's::plus, 'r) prims \<Rightarrow> 's \<Rightarrow> 'g \<Rightarrow> 'g \<Rightarrow> 's option" where
  "stealth_receive P x ephemeral one_time =
    (let shared = smul P x ephemeral; s = shared_scalar P shared;
         expected = smul P s (base_g P) + public_key P x in
     if expected = one_time then Some (s + x) else None)"

text \<open>
  a stealth payment reaches its recipient and nobody else can take it for theirs without the
  key: the recipient recovers a spend key whose public key is the one-time account, and whatever
  key \<open>stealth_receive\<close> returns, for any output, opens the account it was asked about.
\<close>

theorem stealth_delivery:
  assumes M: "module_laws P"
  shows "(let out = stealth_send P (public_key P a) r in
      \<exists>p. stealth_receive P a (so_ephemeral out) (so_one_time out) = Some p \<and>
          public_key P p = so_one_time out) \<and>
    (stealth_receive P b eph ot = Some q \<longrightarrow> public_key P q = ot)"
  by (auto simp: stealth_send_def stealth_receive_def public_key_def Let_def smul_laws(1) [OF M]
      smul_commute [OF M, of r a] split: if_splits)

theorem stealth_delivery_witness:
  "public_key (toy_prims :: (u64, u64, unit) prims)
     (the (stealth_receive (toy_prims :: (u64, u64, unit) prims) 6
        (so_ephemeral (stealth_send (toy_prims :: (u64, u64, unit) prims) (public_key toy_prims 6) 4))
        (so_one_time (stealth_send (toy_prims :: (u64, u64, unit) prims) (public_key toy_prims 6) 4)))) =
   so_one_time (stealth_send (toy_prims :: (u64, u64, unit) prims) (public_key toy_prims 6) 4)"
  using stealth_delivery [OF toy_module_laws [where 'a = 64], of 6 4 0 0 0 0] by (auto simp: Let_def)

end
