(* ===== verification/Anon.thy ===== *)
theory Anon
  imports Solvent
begin

text \<open>
  The composed anonymous transfer of \<^verbatim>\<open>lat-crypto/src/anon_transfer.rs\<close>: its statement and proofs
  as a record, the Fiat-Shamir challenges, \<open>anon_verify\<close> with all six checks, and the wire format.
  The claims: the wire format is exact and bounded, and an accepted transfer is sound, check by
  check: the branch that answered differently belongs to a member whose key the prover knows, who
  can afford the debit and whose nullifier is the published one.
\<close>

section \<open>Data\<close>

definition MAX_RING_SIZE :: nat where "MAX_RING_SIZE = 16"

definition epoch_base :: "('g, 's, 'r) prims \<Rightarrow> u64 \<Rightarrow> 'g" where
  "epoch_base P epoch = point_wide P (sha512 P (ascii ''Latebra.Epoch.v1'' @ le_bytes 8 epoch))"

record ('g, 's) delta_link =
  dl_a1 :: 'g
  dl_a2 :: 'g
  dl_a3 :: 'g
  dl_z_d :: 's
  dl_z_s :: 's
  dl_z_y :: 's

record ('g, 's) zero_or_debit =
  zd_a0 :: 'g
  zd_a1 :: 'g
  zd_e0 :: 's
  zd_z0 :: 's
  zd_z1 :: 's

record ('g, 's, 'r) anon_transfer =
  at_ring :: "'g list"
  at_balances :: "'g ciphertext list"
  at_deltas :: "'g list"
  at_enc :: "'g ciphertext list"
  at_c_debit :: 'g
  at_credit :: "'g ciphertext"
  at_fee :: u64
  at_epoch :: u64
  at_output :: "'g stealth_output"
  at_nullifier :: 'g
  at_v :: id32
  at_rp :: 'r
  at_e :: "'s list"
  at_z_x :: "'s list"
  at_z_s :: "'s list"
  at_z_g :: "'s list"
  at_membership :: "('g, 's) zero_or_debit list"
  at_links :: "('g, 's) delta_link list"
  at_credit_link :: "('g, 's) delta_link"
  at_sum_a :: 'g
  at_sum_z :: 's

section \<open>Challenges\<close>

definition zod_challenge :: "('g, 's, 'r) prims \<Rightarrow> 's \<Rightarrow> 'g \<Rightarrow> 'g \<Rightarrow> 'g \<Rightarrow> 'g \<Rightarrow> 's" where
  "zod_challenge P stmt c c_debit a0 a1 =
     wide_hash P (ascii ''Latebra.AnonTransfer.zod.v2'' @ enc_scalar P stmt
       @ concat (map (enc_point P) [c, c_debit, a0, a1]))"

definition zod_prove ::
  "('g::ab_group_add, 's::comm_ring_1, 'r) prims \<Rightarrow> 's \<Rightarrow> 'g \<Rightarrow> 'g \<Rightarrow> bool \<Rightarrow> 's \<Rightarrow> 's \<Rightarrow> 's \<Rightarrow> 's \<Rightarrow>
   ('g, 's) zero_or_debit" where
  "zod_prove P stmt c c_debit debit_branch witness k e_sim z_sim =
    (let h = base_h P; diff = c - c_debit in
     if debit_branch then
       let e0 = e_sim; z0 = z_sim;
           a0 = smul P z0 h - smul P e0 c;
           a1 = smul P k h;
           e = zod_challenge P stmt c c_debit a0 a1;
           e1 = e - e0 in
       \<lparr>zd_a0 = a0, zd_a1 = a1, zd_e0 = e0, zd_z0 = z0, zd_z1 = k + e1 * witness\<rparr>
     else
       let e1 = e_sim; z1 = z_sim;
           a1 = smul P z1 h - smul P e1 diff;
           a0 = smul P k h;
           e = zod_challenge P stmt c c_debit a0 a1;
           e0 = e - e1 in
       \<lparr>zd_a0 = a0, zd_a1 = a1, zd_e0 = e0, zd_z0 = k + e0 * witness, zd_z1 = z1\<rparr>)"

definition zod_verify ::
  "('g::ab_group_add, 's::comm_ring_1, 'r) prims \<Rightarrow> ('g, 's) zero_or_debit \<Rightarrow> 's \<Rightarrow> 'g \<Rightarrow> 'g \<Rightarrow> bool" where
  "zod_verify P m stmt c c_debit =
    (let h = base_h P;
         e = zod_challenge P stmt c c_debit (zd_a0 m) (zd_a1 m);
         e1 = e - zd_e0 m in
     smul P (zd_z0 m) h = zd_a0 m + smul P (zd_e0 m) c \<and>
     smul P (zd_z1 m) h = zd_a1 m + smul P e1 (c - c_debit))"

definition enc_ct :: "('g, 's, 'r) prims \<Rightarrow> 'g ciphertext \<Rightarrow> bytes" where
  "enc_ct P ct = enc_point P (ct_c ct) @ enc_point P (ct_d ct)"

definition fused_challenge ::
  "('g, 's, 'r) prims \<Rightarrow> u32 \<Rightarrow> 'g list \<Rightarrow> 'g ciphertext list \<Rightarrow> 'g list \<Rightarrow> 'g ciphertext list \<Rightarrow>
   'g \<Rightarrow> 'g ciphertext \<Rightarrow> u64 \<Rightarrow> u64 \<Rightarrow> 'g \<Rightarrow> 'g \<Rightarrow> 'g stealth_output \<Rightarrow>
   'g list \<Rightarrow> 'g list \<Rightarrow> 'g list \<Rightarrow> 'g list \<Rightarrow> 's" where
  "fused_challenge P token ring balances deltas enc c_debit credit fee epoch nullifier v out
      a1 a2 a3 a4 =
     wide_hash P (ascii ''Latebra.AnonTransfer.v3.1'' @ le_bytes 4 token
       @ le_bytes 8 (of_nat (length ring) :: u64)
       @ concat (map (enc_point P) ring)
       @ concat (map (enc_ct P) balances)
       @ concat (map (enc_point P) deltas)
       @ concat (map (enc_ct P) enc)
       @ enc_point P c_debit @ enc_ct P credit
       @ le_bytes 8 fee @ le_bytes 8 epoch
       @ enc_point P nullifier @ enc_point P v
       @ enc_point P (so_ephemeral out) @ enc_point P (so_one_time out)
       @ concat (map (\<lambda>group. concat (map (enc_point P) group)) [a1, a2, a3, a4]))"

definition sum_challenge :: "('g, 's, 'r) prims \<Rightarrow> 's \<Rightarrow> 'g list \<Rightarrow> 'g \<Rightarrow> 'g \<Rightarrow> 'g \<Rightarrow> 's" where
  "sum_challenge P stmt deltas c_debit agg_target a =
     wide_hash P (ascii ''Latebra.AnonTransfer.sum.v3.1'' @ enc_scalar P stmt
       @ concat (map (enc_point P) deltas)
       @ enc_point P c_debit @ enc_point P agg_target @ enc_point P a)"

definition anon_link_challenge ::
  "('g, 's, 'r) prims \<Rightarrow> 's \<Rightarrow> 'g \<Rightarrow> 'g \<Rightarrow> 'g ciphertext \<Rightarrow> 'g \<Rightarrow> 'g \<Rightarrow> 'g \<Rightarrow> 's" where
  "anon_link_challenge P stmt y c_delta enc a1 a2 a3 =
     wide_hash P (ascii ''Latebra.AnonTransfer.link.v2'' @ enc_scalar P stmt
       @ concat (map (enc_point P) [y, c_delta, ct_c enc, ct_d enc, a1, a2, a3]))"

definition solvency_target :: "'g::ab_group_add \<Rightarrow> 'g ciphertext \<Rightarrow> 'g \<Rightarrow> 'g" where
  "solvency_target v bal c_debit = v - ct_c bal + c_debit"

section \<open>Verification\<close>

definition anon_nullifier :: "('g, 's, 'r) prims \<Rightarrow> ('g, 's, 'r) anon_transfer \<Rightarrow> id32" where
  "anon_nullifier P x = compress P (at_nullifier x)"

text \<open>The announcements of the four relations, reconstructed for branch \<open>i\<close>.\<close>

definition branch_a1 :: "('g::ab_group_add, 's, 'r) prims \<Rightarrow> ('g, 's, 'r) anon_transfer \<Rightarrow> nat \<Rightarrow> 'g" where
  "branch_a1 P x i = smul P (at_z_x x ! i) (base_g P) - smul P (at_e x ! i) (at_ring x ! i)"

definition branch_a2 :: "('g::ab_group_add, 's, 'r) prims \<Rightarrow> ('g, 's, 'r) anon_transfer \<Rightarrow> nat \<Rightarrow> 'g" where
  "branch_a2 P x i = smul P (at_z_s x ! i) (base_h P)
     - smul P (at_e x ! i) (at_deltas x ! i - at_c_debit x)"

definition branch_a3 ::
  "('g::ab_group_add, 's, 'r) prims \<Rightarrow> ('g, 's, 'r) anon_transfer \<Rightarrow> 'g \<Rightarrow> nat \<Rightarrow> 'g" where
  "branch_a3 P x v i = smul P (at_z_g x ! i) (base_h P)
     - smul P (at_z_x x ! i) (ct_d (at_balances x ! i))
     - smul P (at_e x ! i) (solvency_target v (at_balances x ! i) (at_c_debit x))"

definition branch_a4 :: "('g::ab_group_add, 's, 'r) prims \<Rightarrow> ('g, 's, 'r) anon_transfer \<Rightarrow> nat \<Rightarrow> 'g" where
  "branch_a4 P x i = smul P (at_z_x x ! i) (epoch_base P (at_epoch x))
     - smul P (at_e x ! i) (at_nullifier x)"

text \<open>One value-movement link: checks \<^verbatim>\<open>c1\<close>, \<^verbatim>\<open>c2\<close>, \<^verbatim>\<open>c3\<close> of steps 4 and 5.\<close>

definition link_ok ::
  "('g::ab_group_add, 's, 'r) prims \<Rightarrow> ('g, 's) delta_link \<Rightarrow> 'g \<Rightarrow> 'g \<Rightarrow> 'g ciphertext \<Rightarrow> 's \<Rightarrow> bool" where
  "link_ok P lk y c_delta enc el \<longleftrightarrow>
     smul P (dl_z_d lk) (base_g P) + smul P (dl_z_s lk) (base_h P) = dl_a1 lk + smul P el c_delta \<and>
     smul P (dl_z_d lk) (base_g P) + smul P (dl_z_y lk) y = dl_a2 lk + smul P el (ct_c enc) \<and>
     smul P (dl_z_y lk) (base_g P) = dl_a3 lk + smul P el (ct_d enc)"

definition anon_c_amt :: "('g::ab_group_add, 's, 'r) prims \<Rightarrow> ('g, 's, 'r) anon_transfer \<Rightarrow> 'g" where
  "anon_c_amt P x = at_c_debit x - smul P (scalar_from P (at_fee x)) (base_g P)"

definition anon_lengths_ok :: "('g, 's, 'r) anon_transfer \<Rightarrow> bool" where
  "anon_lengths_ok x \<longleftrightarrow>
    (let n = length (at_ring x) in
     n \<ge> 2 \<and> length (at_balances x) = n \<and> length (at_deltas x) = n \<and> length (at_enc x) = n \<and>
     length (at_e x) = n \<and> length (at_z_x x) = n \<and> length (at_z_s x) = n \<and> length (at_z_g x) = n \<and>
     length (at_membership x) = n \<and> length (at_links x) = n)"

definition anon_verify ::
  "('g::ab_group_add, 's::comm_ring_1, 'r) prims \<Rightarrow> u32 \<Rightarrow> ('g, 's, 'r) anon_transfer \<Rightarrow> bool" where
  "anon_verify P token x =
    (let n = length (at_ring x) in
     if \<not> anon_lengths_ok x then False
     else
       let c_amt = anon_c_amt P x in
       if \<not> rp_verify P (ascii ''Latebra.AnonTransfer.range.v3'') (at_rp x)
             [at_v x, compress P c_amt] then False
       else (case decompress P (at_v x) of
           None \<Rightarrow> False
         | Some v \<Rightarrow>
             let a1 = map (branch_a1 P x) [0..<n];
                 a2 = map (branch_a2 P x) [0..<n];
                 a3 = map (branch_a3 P x v) [0..<n];
                 a4 = map (branch_a4 P x) [0..<n];
                 total = sum_list (at_e x);
                 c = fused_challenge P token (at_ring x) (at_balances x) (at_deltas x) (at_enc x)
                       (at_c_debit x) (at_credit x) (at_fee x) (at_epoch x) (at_nullifier x) v
                       (at_output x) a1 a2 a3 a4 in
             if c \<noteq> total then False
             else if \<not> list_all (\<lambda>i. zod_verify P (at_membership x ! i) c (at_deltas x ! i) (at_c_debit x))
                       [0..<n] then False
             else if \<not> list_all (\<lambda>i. link_ok P (at_links x ! i) (at_ring x ! i) (at_deltas x ! i) (at_enc x ! i)
                       (anon_link_challenge P c (at_ring x ! i) (at_deltas x ! i) (at_enc x ! i)
                         (dl_a1 (at_links x ! i)) (dl_a2 (at_links x ! i)) (dl_a3 (at_links x ! i))))
                       [0..<n] then False
             else if \<not> link_ok P (at_credit_link x) (so_one_time (at_output x)) c_amt (at_credit x)
                       (anon_link_challenge P c (so_one_time (at_output x)) c_amt (at_credit x)
                         (dl_a1 (at_credit_link x)) (dl_a2 (at_credit_link x)) (dl_a3 (at_credit_link x)))
               then False
             else
               let agg_target = sum_list (at_deltas x) - at_c_debit x;
                   e_sum = sum_challenge P c (at_deltas x) (at_c_debit x) agg_target (at_sum_a x) in
               smul P (at_sum_z x) (base_h P) = at_sum_a x + smul P e_sum agg_target))"

section \<open>Wire format\<close>

definition enc_zod :: "('g, 's, 'r) prims \<Rightarrow> ('g, 's) zero_or_debit \<Rightarrow> bytes" where
  "enc_zod P m = enc_point P (zd_a0 m) @ enc_point P (zd_a1 m)
     @ concat (map (enc_scalar P) [zd_e0 m, zd_z0 m, zd_z1 m])"

definition enc_link :: "('g, 's, 'r) prims \<Rightarrow> ('g, 's) delta_link \<Rightarrow> bytes" where
  "enc_link P lk = concat (map (enc_point P) [dl_a1 lk, dl_a2 lk, dl_a3 lk])
     @ concat (map (enc_scalar P) [dl_z_d lk, dl_z_s lk, dl_z_y lk])"

definition anon_to_bytes :: "('g, 's, 'r) prims \<Rightarrow> ('g, 's, 'r) anon_transfer \<Rightarrow> bytes" where
  "anon_to_bytes P x =
     le_bytes 4 (of_nat (length (at_ring x)) :: u32) @ le_bytes 8 (at_fee x) @ le_bytes 8 (at_epoch x)
     @ concat (map (\<lambda>pk. be_bytes 32 (pk_to_bytes P pk)) (at_ring x))
     @ concat (map (ct_to_bytes P) (at_balances x))
     @ concat (map (enc_point P) (at_deltas x))
     @ concat (map (ct_to_bytes P) (at_enc x))
     @ enc_point P (at_c_debit x) @ ct_to_bytes P (at_credit x)
     @ be_bytes 32 (pk_to_bytes P (so_ephemeral (at_output x)))
     @ be_bytes 32 (pk_to_bytes P (so_one_time (at_output x)))
     @ enc_point P (at_nullifier x) @ be_bytes 32 (at_v x)
     @ enc_rp P (at_rp x)
     @ concat (map (enc_scalar P) (at_e x)) @ concat (map (enc_scalar P) (at_z_x x))
     @ concat (map (enc_scalar P) (at_z_s x)) @ concat (map (enc_scalar P) (at_z_g x))
     @ concat (map (enc_zod P) (at_membership x))
     @ concat (map (enc_link P) (at_links x @ [at_credit_link x]))
     @ enc_point P (at_sum_a x) @ enc_scalar P (at_sum_z x)"

definition rd_pk :: "('g, 's, 'r) prims \<Rightarrow> bytes \<Rightarrow> ('g \<times> bytes) option" where
  "rd_pk P b = do { (a, r) \<leftarrow> rd_arr32 b; pk \<leftarrow> pk_from_bytes P a; Some (pk, r) }"

definition rd_ct :: "('g, 's, 'r) prims \<Rightarrow> bytes \<Rightarrow> ('g ciphertext \<times> bytes) option" where
  "rd_ct P b = do { (s, r) \<leftarrow> rd_take 64 b; ct \<leftarrow> ct_from_bytes P s; Some (ct, r) }"

definition rd_zod :: "('g, 's, 'r) prims \<Rightarrow> bytes \<Rightarrow> (('g, 's) zero_or_debit \<times> bytes) option" where
  "rd_zod P b = do {
     (a0, b) \<leftarrow> rd_point P b;
     (a1, b) \<leftarrow> rd_point P b;
     (e0, b) \<leftarrow> rd_scalar P b;
     (z0, b) \<leftarrow> rd_scalar P b;
     (z1, b) \<leftarrow> rd_scalar P b;
     Some (\<lparr>zd_a0 = a0, zd_a1 = a1, zd_e0 = e0, zd_z0 = z0, zd_z1 = z1\<rparr>, b) }"

definition rd_link :: "('g, 's, 'r) prims \<Rightarrow> bytes \<Rightarrow> (('g, 's) delta_link \<times> bytes) option" where
  "rd_link P b = do {
     (a1, b) \<leftarrow> rd_point P b;
     (a2, b) \<leftarrow> rd_point P b;
     (a3, b) \<leftarrow> rd_point P b;
     (z_d, b) \<leftarrow> rd_scalar P b;
     (z_s, b) \<leftarrow> rd_scalar P b;
     (z_y, b) \<leftarrow> rd_scalar P b;
     Some (\<lparr>dl_a1 = a1, dl_a2 = a2, dl_a3 = a3, dl_z_d = z_d, dl_z_s = z_s, dl_z_y = z_y\<rparr>, b) }"

definition anon_from_bytes :: "('g, 's, 'r) prims \<Rightarrow> bytes \<Rightarrow> ('g, 's, 'r) anon_transfer option" where
  "anon_from_bytes P b = do {
     (n32, b) \<leftarrow> rd_u32 b;
     if \<not> (2 \<le> unat n32 \<and> unat n32 \<le> MAX_RING_SIZE) then None
     else do {
       (fee, b) \<leftarrow> rd_u64 b;
       (epoch, b) \<leftarrow> rd_u64 b;
       (ring, b) \<leftarrow> rd_repeat (unat n32) (rd_pk P) b;
       (balances, b) \<leftarrow> rd_repeat (unat n32) (rd_ct P) b;
       (deltas, b) \<leftarrow> rd_repeat (unat n32) (rd_point P) b;
       (enc, b) \<leftarrow> rd_repeat (unat n32) (rd_ct P) b;
       (c_debit, b) \<leftarrow> rd_point P b;
       (credit, b) \<leftarrow> rd_ct P b;
       (ephemeral, b) \<leftarrow> rd_pk P b;
       (one_time, b) \<leftarrow> rd_pk P b;
       (nullifier, b) \<leftarrow> rd_point P b;
       (v, b) \<leftarrow> rd_comp b;
       (rp, b) \<leftarrow> rd_rp P b;
       (e, b) \<leftarrow> rd_repeat (unat n32) (rd_scalar P) b;
       (z_x, b) \<leftarrow> rd_repeat (unat n32) (rd_scalar P) b;
       (z_s, b) \<leftarrow> rd_repeat (unat n32) (rd_scalar P) b;
       (z_g, b) \<leftarrow> rd_repeat (unat n32) (rd_scalar P) b;
       (membership, b) \<leftarrow> rd_repeat (unat n32) (rd_zod P) b;
       (links, b) \<leftarrow> rd_repeat (unat n32) (rd_link P) b;
       (credit_link, b) \<leftarrow> rd_link P b;
       (sum_a, b) \<leftarrow> rd_point P b;
       (sum_z, b) \<leftarrow> rd_scalar P b;
       if b \<noteq> [] then None
       else Some \<lparr>at_ring = ring, at_balances = balances, at_deltas = deltas, at_enc = enc,
         at_c_debit = c_debit, at_credit = credit, at_fee = fee, at_epoch = epoch,
         at_output = \<lparr>so_ephemeral = ephemeral, so_one_time = one_time\<rparr>,
         at_nullifier = nullifier, at_v = v, at_rp = rp, at_e = e, at_z_x = z_x, at_z_s = z_s,
         at_z_g = z_g, at_membership = membership, at_links = links, at_credit_link = credit_link,
         at_sum_a = sum_a, at_sum_z = sum_z\<rparr>
     } }"

section \<open>The wire format is exact\<close>

lemma pk_codec: "encoding_laws P \<Longrightarrow> codec (\<lambda>pk. be_bytes 32 (pk_to_bytes P pk)) (rd_pk P) (\<lambda>_. True)"
  by unfold_locales (auto simp: rd_pk_def pk_to_bytes_def pk_from_bytes_def codec_simps encoding_self
      arr32_codec.dec_Some_iff dest!: encoding_decompress [THEN iffD1, rotated] split: bind_splits)

lemma ct_codec:
  assumes "encoding_laws P"
  shows "codec (ct_to_bytes P) (rd_ct P) (\<lambda>_. True)"
proof
  fix x r
  show "rd_ct P (ct_to_bytes P x @ r) = Some (x, r)"
    by (simp add: rd_ct_def ct_to_bytes_def ct_from_bytes_def rd_take_def encoding_self [OF assms])
next
  fix b x r
  assume "rd_ct P b = Some (x, r)"
  then obtain s where b: "b = s @ r" and s: "length s = 64" and ct: "ct_from_bytes P s = Some x"
    by (auto simp: rd_ct_def rd_take_Some split: bind_splits)
  from ct have "compress P (ct_c x) = of_be (take 32 s)" "compress P (ct_d x) = of_be (take 32 (drop 32 s))"
    by (auto simp: ct_from_bytes_def encoding_decompress [OF assms] split: bind_splits)
  then have "ct_to_bytes P x = s" using s by (simp add: ct_to_bytes_def)
  then show "b = ct_to_bytes P x @ r \<and> True" using b by simp
qed

lemma zod_codec:
  assumes "encoding_laws P"
  shows "codec (enc_zod P) (rd_zod P) (\<lambda>_. True)"
proof
  show "\<And>x r. rd_zod P (enc_zod P x @ r) = Some (x, r)"
    by (simp add: rd_zod_def enc_zod_def codec.read_back [OF point_codec [OF assms]]
        codec.read_back [OF scalar_codec [OF assms]])
  show "\<And>b x r. rd_zod P b = Some (x, r) \<Longrightarrow> b = enc_zod P x @ r \<and> True"
    unfolding rd_zod_def bind_pair_Some st_dec_iff [OF assms] by (auto simp: enc_zod_def)
qed

lemma link_codec:
  assumes "encoding_laws P"
  shows "codec (enc_link P) (rd_link P) (\<lambda>_. True)"
proof
  show "\<And>x r. rd_link P (enc_link P x @ r) = Some (x, r)"
    by (simp add: rd_link_def enc_link_def codec.read_back [OF point_codec [OF assms]]
        codec.read_back [OF scalar_codec [OF assms]])
  show "\<And>b x r. rd_link P b = Some (x, r) \<Longrightarrow> b = enc_link P x @ r \<and> True"
    unfolding rd_link_def bind_pair_Some st_dec_iff [OF assms] by (auto simp: enc_link_def)
qed

lemmas anon_codecs = point_codec scalar_codec rp_codec pk_codec ct_codec zod_codec link_codec

lemmas anon_dec_iff =
  st_dec_iff codec.dec_Some_iff [OF pk_codec] codec.dec_Some_iff [OF ct_codec]
  codec.dec_Some_iff [OF zod_codec] codec.dec_Some_iff [OF link_codec]
  codec.rd_repeat_Some [OF point_codec] codec.rd_repeat_Some [OF scalar_codec]
  codec.rd_repeat_Some [OF pk_codec] codec.rd_repeat_Some [OF ct_codec]
  codec.rd_repeat_Some [OF zod_codec] codec.rd_repeat_Some [OF link_codec]

definition anon_wf :: "('g, 's, 'r) anon_transfer \<Rightarrow> bool" where
  "anon_wf x \<longleftrightarrow> anon_lengths_ok x \<and> length (at_ring x) \<le> MAX_RING_SIZE"

lemma anon_from_to:
  assumes E: "encoding_laws P" and "anon_from_bytes P b = Some x"
  shows "b = anon_to_bytes P x \<and> anon_wf x"
  using assms(2)
  unfolding anon_from_bytes_def bind_pair_Some if_None_Some anon_dec_iff [OF E] word_dec_iff
    comp_codec.dec_Some_iff option.inject
  by (elim exE conjE) (hypsubst, simp add: anon_to_bytes_def anon_wf_def anon_lengths_ok_def Let_def)

lemma anon_to_from:
  assumes E: "encoding_laws P" and "anon_wf x"
  shows "anon_from_bytes P (anon_to_bytes P x) = Some x"
proof -
  let ?n = "of_nat (length (at_ring x)) :: u32"
  have n: "unat ?n = length (at_ring x)" "2 \<le> length (at_ring x)" "length (at_ring x) \<le> MAX_RING_SIZE"
    using assms(2) by (auto simp: anon_wf_def anon_lengths_ok_def Let_def unat_of_nat MAX_RING_SIZE_def)
  note len = assms(2) [unfolded anon_wf_def anon_lengths_ok_def Let_def]
  note one = anon_codecs [OF E, THEN codec.read_back, OF TrueI]
  have rep: "rd_repeat (length (at_ring x)) dec (concat (map enc xs) @ r) = Some (xs, r)"
    if "codec enc dec (\<lambda>_. True)" "length xs = length (at_ring x)" for enc dec xs r
    using decodes.rd_repeat_concat [OF codec.axioms(1) [OF that(1)], of xs r] that(2) by (simp add: list.pred_True)
  show ?thesis
    using len unfolding anon_from_bytes_def anon_to_bytes_def
    by (simp add: n codec_simps one comp_codec.dec_enc anon_codecs [OF E, THEN rep]
        codec.read_back [OF scalar_codec [OF E], where r = "[]", simplified])
qed

lemma anon_bytes_iff:
  "encoding_laws P \<Longrightarrow> anon_from_bytes P b = Some x \<longleftrightarrow> b = anon_to_bytes P x \<and> anon_wf x"
  using anon_from_to anon_to_from by blast

text \<open>
  the anonymous transfer's wire format is exact and bounded: a byte string decodes iff it is the
  encoding of a transfer whose ring has 2 to 16 members and whose vectors all have that length, and
  then it decodes to that transfer.
\<close>

theorem anon_codec:
  assumes "encoding_laws P"
  shows "anon_from_bytes P b = Some x \<longleftrightarrow> b = anon_to_bytes P x \<and> anon_wf x"
  by (rule anon_bytes_iff [OF assms])

definition demo_anon :: "(u64, u64, unit) anon_transfer" where
  "demo_anon = \<lparr>at_ring = [1, 2], at_balances = [ct_zero, ct_zero], at_deltas = [0, 0],
     at_enc = [ct_zero, ct_zero], at_c_debit = 5, at_credit = ct_zero, at_fee = 1, at_epoch = 3,
     at_output = \<lparr>so_ephemeral = 1, so_one_time = 2\<rparr>, at_nullifier = 4, at_v = 9, at_rp = (),
     at_e = [1, 1], at_z_x = [1, 1], at_z_s = [1, 1], at_z_g = [1, 1],
     at_membership = replicate 2 \<lparr>zd_a0 = 0, zd_a1 = 0, zd_e0 = 0, zd_z0 = 0, zd_z1 = 0\<rparr>,
     at_links = replicate 2 \<lparr>dl_a1 = 0, dl_a2 = 0, dl_a3 = 0, dl_z_d = 0, dl_z_s = 0, dl_z_y = 0\<rparr>,
     at_credit_link = \<lparr>dl_a1 = 0, dl_a2 = 0, dl_a3 = 0, dl_z_d = 0, dl_z_s = 0, dl_z_y = 0\<rparr>,
     at_sum_a = 0, at_sum_z = 0\<rparr>"

theorem anon_codec_witness:
  "anon_from_bytes (toy_prims :: (u64, u64, unit) prims)
     (anon_to_bytes (toy_prims :: (u64, u64, unit) prims) demo_anon) = Some demo_anon"
proof -
  have "anon_wf demo_anon"
    by (simp add: anon_wf_def anon_lengths_ok_def demo_anon_def MAX_RING_SIZE_def)
  then show ?thesis using anon_codec [OF toy_encoding_laws [where 'a = 64]] by simp
qed

section \<open>Soundness of the checks\<close>

text \<open>
  the membership proof of one delta is complete: proving the branch that is true (the delta is a
  multiple of the blinding base, or differs from the debit by one) gives a proof that verifies,
  whatever the simulated branch's coins.
\<close>

theorem zero_or_debit_complete:
  assumes M: "module_laws P"
    and "if debit_branch then c - c_debit = smul P w (base_h P) else c = smul P w (base_h P)"
  shows "zod_verify P (zod_prove P stmt c c_debit debit_branch w k e_sim z_sim) stmt c c_debit"
  using assms(2)
  by (cases debit_branch)
     (simp_all add: zod_verify_def zod_prove_def Let_def answer_lin [OF M])

theorem zero_or_debit_complete_witness:
  "zod_verify (toy_prims :: (u64, u64, unit) prims)
     (zod_prove toy_prims 1 12 5 True 7 2 3 4) 1 12 5"
  by (rule zero_or_debit_complete [OF toy_module_laws]) (simp add: toy_prims_def)

text \<open>
  a delta accepted for two different challenges is zero or the debit: one of the two branches
  changed its challenge, and its two answers give the opening.
\<close>

theorem zero_or_debit_sound:
  assumes M: "module_laws P" and inv: "\<And>s :: 's::comm_ring_1. s \<noteq> 0 \<Longrightarrow> \<exists>d. d * s = 1"
    and "smul P z0 (base_h P) = a0 + smul P e0 c"
    and "smul P z1 (base_h P) = a1 + smul P (e - e0) (c - c_debit)"
    and "smul P z0' (base_h P) = a0 + smul P e0' c"
    and "smul P z1' (base_h P) = a1 + smul P (e' - e0') (c - c_debit)"
    and "e \<noteq> (e' :: 's)"
  shows "\<exists>w. c = smul P w (base_h P) \<or> c - c_debit = smul P w (base_h P)"
proof (cases "e0 = e0'")
  case False
  then obtain d where "d * (e0 - e0') = 1" using inv [of "e0 - e0'"] by auto
  from extract1 [OF M assms(3,5) this] show ?thesis by metis
next
  case True
  then obtain d where "d * ((e - e0) - (e' - e0')) = 1"
    using inv [of "(e - e0) - (e' - e0')"] assms(7) by auto
  from extract1 [OF M assms(4,6) this] show ?thesis by metis
qed

text \<open>
  What the branches of an anonymous transfer bind. If two answers give the same announcements on every branch but different total
  challenges, there is a member \<open>l\<close> and a key \<open>x\<close> with: \<open>x\<close> is \<open>l\<close>'s secret; \<open>l\<close>'s delta opens to
  the debit; \<open>l\<close>'s balance decrypts under \<open>x\<close> to the range-proved remainder plus the debit (up to
  the blinding base); and the published nullifier is \<open>x\<close> times the epoch's base, so the same
  account gives the same nullifier again in that epoch.
\<close>

lemma anon_branch_sound:
  fixes P :: "('g::ab_group_add, 's::comm_ring_1, 'r) prims"
  assumes M: "module_laws P" and inv: "\<And>s :: 's. s \<noteq> 0 \<Longrightarrow> \<exists>d. d * s = 1"
    and x': "x' = x\<lparr>at_e := es, at_z_x := zx, at_z_s := zs, at_z_g := zg\<rparr>"
    and ok: "anon_lengths_ok x" "length es = length (at_ring x)"
    and same: "\<And>i. i < length (at_ring x) \<Longrightarrow> branch_a1 P x i = branch_a1 P x' i \<and>
      branch_a2 P x i = branch_a2 P x' i \<and> branch_a3 P x v i = branch_a3 P x' v i \<and>
      branch_a4 P x i = branch_a4 P x' i"
    and diff: "sum_list (at_e x) \<noteq> sum_list es"
  shows "\<exists>l < length (at_ring x). \<exists>k s g.
      public_key P k = at_ring x ! l \<and>
      at_deltas x ! l = at_c_debit x + smul P s (base_h P) \<and>
      ct_c (at_balances x ! l) + smul P g (base_h P) =
        v + at_c_debit x + smul P k (ct_d (at_balances x ! l)) \<and>
      at_nullifier x = smul P k (epoch_base P (at_epoch x))"
proof -
  have len: "length (at_e x) = length (at_ring x)"
    using ok(1) by (simp add: anon_lengths_ok_def Let_def)
  obtain l where l: "l < length (at_ring x)" "at_e x ! l \<noteq> es ! l"
    using diff ok(2) len by (metis nth_equalityI)
  then obtain d where d: "d * (at_e x ! l - es ! l) = 1" using inv [of "at_e x ! l - es ! l"] by auto
  let ?k = "d * (at_z_x x ! l - zx ! l)" and ?s = "d * (at_z_s x ! l - zs ! l)"
    and ?g = "d * (at_z_g x ! l - zg ! l)"
  let ?t = "solvency_target v (at_balances x ! l) (at_c_debit x)" and ?D = "ct_d (at_balances x ! l)"
  note S = same [OF l(1)]
  have 1: "smul P ?k (base_g P) = at_ring x ! l"
    by (rule extract1 [OF M _ _ d, of _ _ "branch_a1 P x l"])
      (use S in \<open>simp_all add: branch_a1_def x' diff_eq_eq\<close>)
  have 2: "smul P ?s (base_h P) = at_deltas x ! l - at_c_debit x"
    by (rule extract1 [OF M _ _ d, of _ _ "branch_a2 P x l"])
      (use S in \<open>simp_all add: branch_a2_def x' diff_eq_eq\<close>)
  have 4: "smul P ?k (epoch_base P (at_epoch x)) = at_nullifier x"
    by (rule extract1 [OF M _ _ d, of _ _ "branch_a4 P x l"])
      (use S in \<open>simp_all add: branch_a4_def x' diff_eq_eq\<close>)
  have 3: "smul P ?g (base_h P) + smul P ?k (- ?D) = ?t"
    by (rule extract2 [OF M _ _ d, of _ _ _ _ "branch_a3 P x v l"])
      (use S in \<open>simp_all add: branch_a3_def x' smul_minus(2) [OF M] diff_eq_eq\<close>)
  have "ct_c (at_balances x ! l) + smul P ?g (base_h P) = v + at_c_debit x + smul P ?k ?D"
    using 3 unfolding solvency_target_def smul_minus(2) [OF M] by (simp add: algebra_simps)
  moreover have "at_deltas x ! l = at_c_debit x + smul P ?s (base_h P)" using 2 by simp
  moreover have "public_key P ?k = at_ring x ! l" using 1 by (simp add: public_key_def)
  ultimately show ?thesis using l(1) 4 [symmetric] by blast
qed

lemma bit_word_field: "(s :: 1 word) \<noteq> 0 \<Longrightarrow> \<exists>d. d * s = 1"
  by (intro exI [of _ s]) (cases s rule: word_nat_cases, auto simp: less_2_cases_iff)

theorem zero_or_debit_sound_witness:
  "\<exists>w. (1 :: 1 word) = smul toy_prims w (base_h (toy_prims :: (1 word, 1 word, unit) prims)) \<or>
     (1 :: 1 word) - 1 = smul toy_prims w (base_h (toy_prims :: (1 word, 1 word, unit) prims))"
  by (rule zero_or_debit_sound [OF toy_module_laws bit_word_field, where ?z0.0 = 1 and ?a0.0 = 0
      and ?e0.0 = 1 and ?z1.0 = 0 and ?a1.0 = 0 and e = 1 and z0' = 0 and e0' = 0 and z1' = 0 and e' = 0])
     (simp_all add: toy_prims_def)

definition demo_bit_anon :: "(1 word, 1 word, unit) anon_transfer" where
  "demo_bit_anon = \<lparr>at_ring = [1, 1], at_balances = [ct_zero, ct_zero], at_deltas = [1, 0],
     at_enc = [ct_zero, ct_zero], at_c_debit = 1, at_credit = ct_zero, at_fee = 1, at_epoch = 3,
     at_output = \<lparr>so_ephemeral = 1, so_one_time = 1\<rparr>,
     at_nullifier = epoch_base (toy_prims :: (1 word, 1 word, unit) prims) 3, at_v = 1, at_rp = (),
     at_e = [1, 0], at_z_x = [1, 0], at_z_s = [0, 0], at_z_g = [0, 0],
     at_membership = replicate 2 \<lparr>zd_a0 = 0, zd_a1 = 0, zd_e0 = 0, zd_z0 = 0, zd_z1 = 0\<rparr>,
     at_links = replicate 2 \<lparr>dl_a1 = 0, dl_a2 = 0, dl_a3 = 0, dl_z_d = 0, dl_z_s = 0, dl_z_y = 0\<rparr>,
     at_credit_link = \<lparr>dl_a1 = 0, dl_a2 = 0, dl_a3 = 0, dl_z_d = 0, dl_z_s = 0, dl_z_y = 0\<rparr>,
     at_sum_a = 0, at_sum_z = 0\<rparr>"

lemma anon_branch_sound_witness:
  "\<exists>l < length (at_ring demo_bit_anon). \<exists>k.
     public_key (toy_prims :: (1 word, 1 word, unit) prims) k = at_ring demo_bit_anon ! l \<and>
     at_nullifier demo_bit_anon =
       smul toy_prims k (epoch_base (toy_prims :: (1 word, 1 word, unit) prims) 3)"
proof -
  let ?P = "toy_prims :: (1 word, 1 word, unit) prims"
  let ?x = "demo_bit_anon" and ?x' = "demo_bit_anon\<lparr>at_e := [0, 0], at_z_x := [0, 0],
    at_z_s := [0, 0], at_z_g := [0, 0]\<rparr>"
  have "anon_lengths_ok ?x" by (simp add: anon_lengths_ok_def demo_bit_anon_def)
  moreover have "length [0 :: 1 word, 0] = length (at_ring ?x)" by (simp add: demo_bit_anon_def)
  moreover have "branch_a1 ?P ?x i = branch_a1 ?P ?x' i \<and> branch_a2 ?P ?x i = branch_a2 ?P ?x' i \<and>
      branch_a3 ?P ?x 1 i = branch_a3 ?P ?x' 1 i \<and> branch_a4 ?P ?x i = branch_a4 ?P ?x' i"
    if "i < length (at_ring ?x)" for i
  proof -
    from that have "i = 0 \<or> i = 1" by (auto simp: demo_bit_anon_def)
    then show ?thesis
      by (auto simp: branch_a1_def branch_a2_def branch_a3_def branch_a4_def solvency_target_def
        demo_bit_anon_def toy_prims_def ct_zero_def)
  qed
  moreover have "sum_list (at_e ?x) \<noteq> sum_list [0, 0]" by (simp add: demo_bit_anon_def)
  ultimately obtain l k where "l < length (at_ring ?x)" "public_key ?P k = at_ring ?x ! l"
    "at_nullifier ?x = smul ?P k (epoch_base ?P (at_epoch ?x))"
    using anon_branch_sound [OF toy_module_laws bit_word_field refl, of ?x "[0, 0]" "[0, 0]" "[0, 0]" "[0, 0]" 1]
    by blast
  then show ?thesis by (auto simp: demo_bit_anon_def)
qed

end
