(* ===== verification/Types.thy ===== *)
theory Types
  imports Anon
begin

text \<open>
  The core types of \<^verbatim>\<open>lat-types/src/lib.rs\<close>: networks and addresses, the transaction with its
  canonical encoding, signing bytes and decoder, the HTLC id, the finality-vote message and ticker
  normalisation. Bech32 is a third-party crate: its two functions are arguments.

  A \<^verbatim>\<open>String\<close> is its bytes, which \<open>utf8_valid\<close> accepts. The fields of a constructor stand in
  the order of the source's struct variant.
\<close>

section \<open>Networks and addresses\<close>

datatype network = Mainnet | Testnet

fun hrp :: "network \<Rightarrow> string" where
  "hrp Mainnet = ''lat''"
| "hrp Testnet = ''latt''"

definition from_hrp :: "string \<Rightarrow> network option" where
  "from_hrp h = (if h = ''lat'' then Some Mainnet else if h = ''latt'' then Some Testnet else None)"

record 'g address =
  addr_network :: network
  addr_key :: 'g

datatype address_error = Bech32 | UnknownPrefix | BadLength | BadKey

definition address_id :: "('g, 's, 'r) prims \<Rightarrow> 'g address \<Rightarrow> id32" where
  "address_id P a = pk_to_bytes P (addr_key a)"

definition address_encode ::
  "('g, 's, 'r) prims \<Rightarrow> (string \<Rightarrow> bytes \<Rightarrow> string) \<Rightarrow> 'g address \<Rightarrow> string" where
  "address_encode P b32_encode a =
     b32_encode (hrp (addr_network a)) (be_bytes 32 (pk_to_bytes P (addr_key a)))"

definition address_parse ::
  "('g, 's, 'r) prims \<Rightarrow> (string \<Rightarrow> (string \<times> bytes) option) \<Rightarrow> string \<Rightarrow> address_error + 'g address" where
  "address_parse P b32_decode s =
     try_then (ok_or (b32_decode s) Bech32) (\<lambda>(h, data).
     try_then (ok_or (from_hrp h) UnknownPrefix) (\<lambda>network.
     if length data \<noteq> 32 then Inl BadLength
     else try_then (ok_or (pk_from_bytes P (of_be data)) BadKey) (\<lambda>key.
       Inr \<lparr>addr_network = network, addr_key = key\<rparr>)))"

section \<open>Strings\<close>

definition cont_byte :: "byte \<Rightarrow> bool" where
  "cont_byte b \<longleftrightarrow> 0x80 \<le> b \<and> b \<le> 0xBF"

text \<open>\<^verbatim>\<open>String::from_utf8\<close> accepts exactly the well-formed UTF-8 sequences.\<close>

fun utf8_valid :: "bytes \<Rightarrow> bool" where
  "utf8_valid [] = True"
| "utf8_valid (b # bs) =
    (if b < 0x80 then utf8_valid bs
     else if 0xC2 \<le> b \<and> b \<le> 0xDF then
       (case bs of c # r \<Rightarrow> cont_byte c \<and> utf8_valid r | _ \<Rightarrow> False)
     else if 0xE0 \<le> b \<and> b \<le> 0xEF then
       (case bs of c # d # r \<Rightarrow>
          (if b = 0xE0 then 0xA0 \<le> c \<and> c \<le> 0xBF
           else if b = 0xED then 0x80 \<le> c \<and> c \<le> 0x9F
           else cont_byte c) \<and> cont_byte d \<and> utf8_valid r
        | _ \<Rightarrow> False)
     else if 0xF0 \<le> b \<and> b \<le> 0xF4 then
       (case bs of c # d # e # r \<Rightarrow>
          (if b = 0xF0 then 0x90 \<le> c \<and> c \<le> 0xBF
           else if b = 0xF4 then 0x80 \<le> c \<and> c \<le> 0x8F
           else cont_byte c) \<and> cont_byte d \<and> cont_byte e \<and> utf8_valid r
        | _ \<Rightarrow> False)
     else False)"

text \<open>The UTF-8 encodings of the characters \<^verbatim>\<open>str::trim\<close> removes (Unicode \<^verbatim>\<open>White_Space\<close>).\<close>

definition ws_encodings :: "bytes list" where
  "ws_encodings =
     [[0x09], [0x0A], [0x0B], [0x0C], [0x0D], [0x20], [0xC2, 0x85], [0xC2, 0xA0], [0xE1, 0x9A, 0x80],
      [0xE2, 0x80, 0x80], [0xE2, 0x80, 0x81], [0xE2, 0x80, 0x82], [0xE2, 0x80, 0x83],
      [0xE2, 0x80, 0x84], [0xE2, 0x80, 0x85], [0xE2, 0x80, 0x86], [0xE2, 0x80, 0x87],
      [0xE2, 0x80, 0x88], [0xE2, 0x80, 0x89], [0xE2, 0x80, 0x8A], [0xE2, 0x80, 0xA8],
      [0xE2, 0x80, 0xA9], [0xE2, 0x80, 0xAF], [0xE2, 0x81, 0x9F], [0xE3, 0x80, 0x80]]"

function trim_with :: "bytes list \<Rightarrow> bytes \<Rightarrow> bytes" where
  "trim_with ws b =
    (case find (\<lambda>w. w \<noteq> [] \<and> take (length w) b = w) ws of
       None \<Rightarrow> b
     | Some w \<Rightarrow> trim_with ws (drop (length w) b))"
  by pat_completeness auto

termination
proof (relation "measure (\<lambda>(ws, b). length b)")
  fix ws b w
  assume "find (\<lambda>w. w \<noteq> [] \<and> take (length w) b = w) ws = Some w"
  then have "w \<noteq> []" and "take (length w) b = w" by (auto simp: find_Some_iff)
  then have "b \<noteq> []" by auto
  then show "((ws, drop (length w) b), ws, b) \<in> measure (\<lambda>(ws, b). length b)"
    using \<open>w \<noteq> []\<close> by simp
qed simp

declare trim_with.simps [simp del]

definition trim :: "bytes \<Rightarrow> bytes" where
  "trim b = rev (trim_with (map rev ws_encodings) (rev (trim_with ws_encodings b)))"

definition ascii_alnum :: "byte \<Rightarrow> bool" where
  "ascii_alnum b \<longleftrightarrow> (0x30 \<le> b \<and> b \<le> 0x39) \<or> (0x41 \<le> b \<and> b \<le> 0x5A) \<or> (0x61 \<le> b \<and> b \<le> 0x7A)"

definition ascii_upper :: "byte \<Rightarrow> byte" where
  "ascii_upper b = (if 0x61 \<le> b \<and> b \<le> 0x7A then b - 0x20 else b)"

text \<open>\<^verbatim>\<open>normalize_ticker\<close>; the byte \<open>0x24\<close> is \<^verbatim>\<open>$\<close>.\<close>

definition normalize_ticker :: "bytes \<Rightarrow> bytes option" where
  "normalize_ticker inp =
    (let t = trim inp;
         s = (case t of c # r \<Rightarrow> if c = 0x24 then r else t | [] \<Rightarrow> t) in
     if s = [] \<or> length s > 10 \<or> \<not> list_all ascii_alnum s then None
     else Some (map ascii_upper s))"

section \<open>Transactions\<close>

datatype (dead 'g, dead 's, dead 'r) transaction =
    Register id32 u64
  | CreateToken bytes id32 u64 arr64
  | SolventTransfer u32 "('g, 's, 'r) solvent_transfer"
  | Rollover id32 u64 arr64
  | DeployContract id32 bytes arr64
  | CallContract id32 id32 u64 u64 arr64
  | PublicTransfer u32 id32 id32 u64 u64 u64 arr64
  | Shield u32 id32 id32 u64 u64 u64 arr64
  | Unshield u32 id32 u64 "('g, 's, 'r) solvent_transfer" arr64
  | ShieldStealth u32 id32 id32 id32 u64 u64 u64 arr64
  | AnonTransfer u32 "('g, 's, 'r) anon_transfer"
  | Stake id32 u64 u64 arr64
  | Unstake id32 u64 u64 arr64
  | SlashEvidence id32 id32 u64 id32 arr64 id32 arr64
  | AddLiquidity u32 id32 u64 u64 u64 u64 arr64
  | RemoveLiquidity u32 id32 u64 u64 u64 arr64
  | Swap u32 id32 bool u64 u64 u64 u64 arr64
  | CurveTrade u32 id32 bool u64 u64 u64 u64 arr64
  | HtlcLock u32 id32 id32 u64 id32 u64 u64 u64 arr64
  | HtlcClaim id32 id32
  | HtlcRefund id32

definition htlc_id ::
  "(bytes \<Rightarrow> id32) \<Rightarrow> u32 \<Rightarrow> id32 \<Rightarrow> id32 \<Rightarrow> u64 \<Rightarrow> id32 \<Rightarrow> u64 \<Rightarrow> u64 \<Rightarrow> id32" where
  "htlc_id hash token sender recipient amount hashlock expiry nonce =
     hash (ascii ''LAT-htlc-v1'' @ le_bytes 4 token @ be_bytes 32 sender @ be_bytes 32 recipient
       @ le_bytes 8 amount @ be_bytes 32 hashlock @ le_bytes 8 expiry @ le_bytes 8 nonce)"

definition bool_byte :: "bool \<Rightarrow> byte" where
  "bool_byte b = (if b then 1 else 0)"

fun encode :: "('g, 's, 'r) prims \<Rightarrow> ('g, 's, 'r) transaction \<Rightarrow> bytes" where
  "encode P (Register pubkey pow_nonce) =
     [0x00] @ be_bytes 32 pubkey @ le_bytes 8 pow_nonce"
| "encode P (CreateToken ticker creator supply sg) =
     [0x02] @ le_bytes 2 (of_nat (length ticker) :: u16) @ ticker @ be_bytes 32 creator
     @ le_bytes 8 supply @ be_bytes 64 sg"
| "encode P (SolventTransfer token xfer) =
     [0x03] @ le_bytes 4 token @ solvent_to_bytes P xfer"
| "encode P (Rollover account nonce sg) =
     [0x04] @ be_bytes 32 account @ le_bytes 8 nonce @ be_bytes 64 sg"
| "encode P (DeployContract deployer code sg) =
     [0x05] @ be_bytes 32 deployer @ le_bytes 4 (of_nat (length code) :: u32) @ code @ be_bytes 64 sg"
| "encode P (PublicTransfer token sender recipient amount fee nonce sg) =
     [0x07] @ le_bytes 4 token @ be_bytes 32 sender @ be_bytes 32 recipient @ le_bytes 8 amount
     @ le_bytes 8 fee @ le_bytes 8 nonce @ be_bytes 64 sg"
| "encode P (Shield token sender recipient amount fee nonce sg) =
     [0x08] @ le_bytes 4 token @ be_bytes 32 sender @ be_bytes 32 recipient @ le_bytes 8 amount
     @ le_bytes 8 fee @ le_bytes 8 nonce @ be_bytes 64 sg"
| "encode P (Unshield token recipient amount xfer sg) =
     (let x = solvent_to_bytes P xfer in
      [0x09] @ le_bytes 4 token @ be_bytes 32 recipient @ le_bytes 8 amount
      @ le_bytes 4 (of_nat (length x) :: u32) @ x @ be_bytes 64 sg)"
| "encode P (ShieldStealth token sender ephemeral one_time amount fee nonce sg) =
     [0x0A] @ le_bytes 4 token @ be_bytes 32 sender @ be_bytes 32 ephemeral @ be_bytes 32 one_time
     @ le_bytes 8 amount @ le_bytes 8 fee @ le_bytes 8 nonce @ be_bytes 64 sg"
| "encode P (AnonTransfer token xfer) =
     (let x = anon_to_bytes P xfer in
      [0x0B] @ le_bytes 4 token @ le_bytes 4 (of_nat (length x) :: u32) @ x)"
| "encode P (CallContract contract caller inp nonce sg) =
     [0x06] @ be_bytes 32 contract @ be_bytes 32 caller @ le_bytes 8 inp @ le_bytes 8 nonce
     @ be_bytes 64 sg"
| "encode P (Stake validator amount nonce sg) =
     [0x0C] @ be_bytes 32 validator @ le_bytes 8 amount @ le_bytes 8 nonce @ be_bytes 64 sg"
| "encode P (Unstake validator amount nonce sg) =
     [0x0D] @ be_bytes 32 validator @ le_bytes 8 amount @ le_bytes 8 nonce @ be_bytes 64 sg"
| "encode P (SlashEvidence validator beneficiary height block_a sig_a block_b sig_b) =
     [0x0E] @ be_bytes 32 validator @ be_bytes 32 beneficiary @ le_bytes 8 height
     @ be_bytes 32 block_a @ be_bytes 64 sig_a @ be_bytes 32 block_b @ be_bytes 64 sig_b"
| "encode P (AddLiquidity token provider lat_amount tok_amount fee nonce sg) =
     [0x0F] @ le_bytes 4 token @ be_bytes 32 provider @ le_bytes 8 lat_amount @ le_bytes 8 tok_amount
     @ le_bytes 8 fee @ le_bytes 8 nonce @ be_bytes 64 sg"
| "encode P (RemoveLiquidity token provider lp_amount fee nonce sg) =
     [0x10] @ le_bytes 4 token @ be_bytes 32 provider @ le_bytes 8 lp_amount
     @ le_bytes 8 fee @ le_bytes 8 nonce @ be_bytes 64 sg"
| "encode P (Swap token trader lat_in amount_in min_out fee nonce sg) =
     [0x11] @ le_bytes 4 token @ be_bytes 32 trader @ [bool_byte lat_in] @ le_bytes 8 amount_in
     @ le_bytes 8 min_out @ le_bytes 8 fee @ le_bytes 8 nonce @ be_bytes 64 sg"
| "encode P (CurveTrade token trader is_buy amount min_out fee nonce sg) =
     [0x15] @ le_bytes 4 token @ be_bytes 32 trader @ [bool_byte is_buy] @ le_bytes 8 amount
     @ le_bytes 8 min_out @ le_bytes 8 fee @ le_bytes 8 nonce @ be_bytes 64 sg"
| "encode P (HtlcLock token sender recipient amount hashlock expiry fee nonce sg) =
     [0x12] @ le_bytes 4 token @ be_bytes 32 sender @ be_bytes 32 recipient @ le_bytes 8 amount
     @ be_bytes 32 hashlock @ le_bytes 8 expiry @ le_bytes 8 fee @ le_bytes 8 nonce @ be_bytes 64 sg"
| "encode P (HtlcClaim lock_id preimage) =
     [0x13] @ be_bytes 32 lock_id @ be_bytes 32 preimage"
| "encode P (HtlcRefund lock_id) = [0x14] @ be_bytes 32 lock_id"

text \<open>The variants whose encoding ends in a signature (the \<^verbatim>\<open>matches!\<close> of \<^verbatim>\<open>signing_bytes\<close>).\<close>

fun carries_sig :: "('g, 's, 'r) transaction \<Rightarrow> bool" where
  "carries_sig (CreateToken _ _ _ _) = True"
| "carries_sig (Rollover _ _ _) = True"
| "carries_sig (DeployContract _ _ _) = True"
| "carries_sig (CallContract _ _ _ _ _) = True"
| "carries_sig (PublicTransfer _ _ _ _ _ _ _) = True"
| "carries_sig (Shield _ _ _ _ _ _ _) = True"
| "carries_sig (Unshield _ _ _ _ _) = True"
| "carries_sig (ShieldStealth _ _ _ _ _ _ _ _) = True"
| "carries_sig (Stake _ _ _ _) = True"
| "carries_sig (Unstake _ _ _ _) = True"
| "carries_sig (AddLiquidity _ _ _ _ _ _ _) = True"
| "carries_sig (RemoveLiquidity _ _ _ _ _ _) = True"
| "carries_sig (Swap _ _ _ _ _ _ _ _) = True"
| "carries_sig (CurveTrade _ _ _ _ _ _ _ _) = True"
| "carries_sig (HtlcLock _ _ _ _ _ _ _ _ _) = True"
| "carries_sig _ = False"

definition signing_bytes :: "('g, 's, 'r) prims \<Rightarrow> ('g, 's, 'r) transaction \<Rightarrow> bytes" where
  "signing_bytes P tx =
    (let v = encode P tx in if carries_sig tx then take (length v - 64) v else v)"

definition finality_vote_signing_bytes :: "id32 \<Rightarrow> u64 \<Rightarrow> bytes" where
  "finality_vote_signing_bytes block_id height =
     ascii ''LAT-finality-v1'' @ [0] @ be_bytes 32 block_id @ le_bytes 8 height"

section \<open>Decoding\<close>

text \<open>
  Reads at a fixed offset of the bytes after the tag: \<^verbatim>\<open>rest.get(i..i+n)?.try_into().ok()?\<close>.
\<close>

definition at_u16 :: "bytes \<Rightarrow> nat \<Rightarrow> u16 option" where
  "at_u16 b i = map_option of_le (get_range b i (i + 2))"

definition at_u32 :: "bytes \<Rightarrow> nat \<Rightarrow> u32 option" where
  "at_u32 b i = map_option of_le (get_range b i (i + 4))"

definition at_u64 :: "bytes \<Rightarrow> nat \<Rightarrow> u64 option" where
  "at_u64 b i = map_option of_le (get_range b i (i + 8))"

definition at_arr32 :: "bytes \<Rightarrow> nat \<Rightarrow> id32 option" where
  "at_arr32 b i = map_option of_be (get_range b i (i + 32))"

definition at_arr64 :: "bytes \<Rightarrow> nat \<Rightarrow> arr64 option" where
  "at_arr64 b i = map_option of_be (get_range b i (i + 64))"

definition at_bool :: "bytes \<Rightarrow> nat \<Rightarrow> bool option" where
  "at_bool b i = (if b ! i = 0 then Some False else if b ! i = 1 then Some True else None)"

definition decode_create_token :: "bytes \<Rightarrow> ('g, 's, 'r) transaction option" where
  "decode_create_token rest = do {
     len16 \<leftarrow> at_u16 rest 0;
     let len = unat len16;
     ticker \<leftarrow> get_range rest 2 (2 + len);
     if \<not> utf8_valid ticker then None
     else do {
       creator \<leftarrow> at_arr32 rest (2 + len);
       supply \<leftarrow> at_u64 rest (2 + len + 32);
       sg \<leftarrow> at_arr64 rest (2 + len + 40);
       if length rest \<noteq> 2 + len + 104 then None
       else Some (CreateToken ticker creator supply sg) } }"

definition decode_solvent :: "('g, 's, 'r) prims \<Rightarrow> bytes \<Rightarrow> ('g, 's, 'r) transaction option" where
  "decode_solvent P rest = do {
     token \<leftarrow> at_u32 rest 0;
     body \<leftarrow> get_range rest 4 (length rest);
     xfer \<leftarrow> solvent_from_bytes P body;
     Some (SolventTransfer token xfer) }"

definition decode_deploy :: "bytes \<Rightarrow> ('g, 's, 'r) transaction option" where
  "decode_deploy rest = do {
     deployer \<leftarrow> at_arr32 rest 0;
     len32 \<leftarrow> at_u32 rest 32;
     let len = unat len32;
     code \<leftarrow> get_range rest 36 (36 + len);
     sg \<leftarrow> at_arr64 rest (36 + len);
     if length rest \<noteq> 36 + len + 64 then None
     else Some (DeployContract deployer code sg) }"

definition decode_unshield :: "('g, 's, 'r) prims \<Rightarrow> bytes \<Rightarrow> ('g, 's, 'r) transaction option" where
  "decode_unshield P rest = do {
     token \<leftarrow> at_u32 rest 0;
     recipient \<leftarrow> at_arr32 rest 4;
     amount \<leftarrow> at_u64 rest 36;
     xlen32 \<leftarrow> at_u32 rest 44;
     let xlen = unat xlen32;
     x \<leftarrow> get_range rest 48 (48 + xlen);
     xfer \<leftarrow> solvent_from_bytes P x;
     sg \<leftarrow> at_arr64 rest (48 + xlen);
     if length rest \<noteq> 48 + xlen + 64 then None
     else Some (Unshield token recipient amount xfer sg) }"

definition decode_anon :: "('g, 's, 'r) prims \<Rightarrow> bytes \<Rightarrow> ('g, 's, 'r) transaction option" where
  "decode_anon P rest = do {
     token \<leftarrow> at_u32 rest 0;
     xlen32 \<leftarrow> at_u32 rest 4;
     let xlen = unat xlen32;
     x \<leftarrow> get_range rest 8 (8 + xlen);
     xfer \<leftarrow> anon_from_bytes P x;
     if length rest \<noteq> 8 + xlen then None
     else Some (AnonTransfer token xfer) }"

text \<open>The arms whose body has a fixed length, which they check first.\<close>

definition decode_fixed :: "byte \<Rightarrow> bytes \<Rightarrow> ('g, 's, 'r) transaction option" where
  "decode_fixed tag rest =
    (if tag = 0x00 then
       (if length rest \<noteq> 40 then None
        else do { pubkey \<leftarrow> at_arr32 rest 0; pow_nonce \<leftarrow> at_u64 rest 32; Some (Register pubkey pow_nonce) })
     else if tag = 0x04 then
       (if length rest \<noteq> 104 then None
        else do {
          account \<leftarrow> at_arr32 rest 0; nonce \<leftarrow> at_u64 rest 32; sg \<leftarrow> at_arr64 rest 40;
          Some (Rollover account nonce sg) })
     else if tag = 0x06 then
       (if length rest \<noteq> 144 then None
        else do {
          contract \<leftarrow> at_arr32 rest 0; caller \<leftarrow> at_arr32 rest 32; inp \<leftarrow> at_u64 rest 64;
          nonce \<leftarrow> at_u64 rest 72; sg \<leftarrow> at_arr64 rest 80;
          Some (CallContract contract caller inp nonce sg) })
     else if tag = 0x07 \<or> tag = 0x08 then
       (if length rest \<noteq> 156 then None
        else do {
          token \<leftarrow> at_u32 rest 0; sender \<leftarrow> at_arr32 rest 4; recipient \<leftarrow> at_arr32 rest 36;
          amount \<leftarrow> at_u64 rest 68; fee \<leftarrow> at_u64 rest 76; nonce \<leftarrow> at_u64 rest 84;
          sg \<leftarrow> at_arr64 rest 92;
          Some (if tag = 0x07 then PublicTransfer token sender recipient amount fee nonce sg
                else Shield token sender recipient amount fee nonce sg) })
     else if tag = 0x0A then
       (if length rest \<noteq> 188 then None
        else do {
          token \<leftarrow> at_u32 rest 0; sender \<leftarrow> at_arr32 rest 4; ephemeral \<leftarrow> at_arr32 rest 36;
          one_time \<leftarrow> at_arr32 rest 68; amount \<leftarrow> at_u64 rest 100; fee \<leftarrow> at_u64 rest 108;
          nonce \<leftarrow> at_u64 rest 116; sg \<leftarrow> at_arr64 rest 124;
          Some (ShieldStealth token sender ephemeral one_time amount fee nonce sg) })
     else if tag = 0x0C \<or> tag = 0x0D then
       (if length rest \<noteq> 112 then None
        else do {
          validator \<leftarrow> at_arr32 rest 0; amount \<leftarrow> at_u64 rest 32; nonce \<leftarrow> at_u64 rest 40;
          sg \<leftarrow> at_arr64 rest 48;
          Some (if tag = 0x0C then Stake validator amount nonce sg else Unstake validator amount nonce sg) })
     else if tag = 0x0E then
       (if length rest \<noteq> 264 then None
        else do {
          validator \<leftarrow> at_arr32 rest 0; beneficiary \<leftarrow> at_arr32 rest 32; height \<leftarrow> at_u64 rest 64;
          block_a \<leftarrow> at_arr32 rest 72; sig_a \<leftarrow> at_arr64 rest 104; block_b \<leftarrow> at_arr32 rest 168;
          sig_b \<leftarrow> at_arr64 rest 200;
          Some (SlashEvidence validator beneficiary height block_a sig_a block_b sig_b) })
     else if tag = 0x0F then
       (if length rest \<noteq> 132 then None
        else do {
          token \<leftarrow> at_u32 rest 0; provider \<leftarrow> at_arr32 rest 4; lat_amount \<leftarrow> at_u64 rest 36;
          tok_amount \<leftarrow> at_u64 rest 44; fee \<leftarrow> at_u64 rest 52; nonce \<leftarrow> at_u64 rest 60;
          sg \<leftarrow> at_arr64 rest 68;
          Some (AddLiquidity token provider lat_amount tok_amount fee nonce sg) })
     else if tag = 0x10 then
       (if length rest \<noteq> 124 then None
        else do {
          token \<leftarrow> at_u32 rest 0; provider \<leftarrow> at_arr32 rest 4; lp_amount \<leftarrow> at_u64 rest 36;
          fee \<leftarrow> at_u64 rest 44; nonce \<leftarrow> at_u64 rest 52; sg \<leftarrow> at_arr64 rest 60;
          Some (RemoveLiquidity token provider lp_amount fee nonce sg) })
     else if tag = 0x11 \<or> tag = 0x15 then
       (if length rest \<noteq> 133 then None
        else do {
          side \<leftarrow> at_bool rest 36;
          token \<leftarrow> at_u32 rest 0; trader \<leftarrow> at_arr32 rest 4; amount \<leftarrow> at_u64 rest 37;
          min_out \<leftarrow> at_u64 rest 45; fee \<leftarrow> at_u64 rest 53; nonce \<leftarrow> at_u64 rest 61;
          sg \<leftarrow> at_arr64 rest 69;
          Some (if tag = 0x11 then Swap token trader side amount min_out fee nonce sg
                else CurveTrade token trader side amount min_out fee nonce sg) })
     else if tag = 0x12 then
       (if length rest \<noteq> 196 then None
        else do {
          token \<leftarrow> at_u32 rest 0; sender \<leftarrow> at_arr32 rest 4; recipient \<leftarrow> at_arr32 rest 36;
          amount \<leftarrow> at_u64 rest 68; hashlock \<leftarrow> at_arr32 rest 76; expiry \<leftarrow> at_u64 rest 108;
          fee \<leftarrow> at_u64 rest 116; nonce \<leftarrow> at_u64 rest 124; sg \<leftarrow> at_arr64 rest 132;
          Some (HtlcLock token sender recipient amount hashlock expiry fee nonce sg) })
     else if tag = 0x13 then
       (if length rest \<noteq> 64 then None
        else do { lock_id \<leftarrow> at_arr32 rest 0; preimage \<leftarrow> at_arr32 rest 32; Some (HtlcClaim lock_id preimage) })
     else if tag = 0x14 then
       (if length rest \<noteq> 32 then None
        else do { lock_id \<leftarrow> at_arr32 rest 0; Some (HtlcRefund lock_id) })
     else None)"

text \<open>\<^verbatim>\<open>Transaction::decode\<close>. Tag \<open>0x01\<close> is retired, and every other unlisted tag is unknown.\<close>

definition decode :: "('g, 's, 'r) prims \<Rightarrow> bytes \<Rightarrow> ('g, 's, 'r) transaction option" where
  "decode P b = (case b of
      [] \<Rightarrow> None
    | tag # rest \<Rightarrow>
        if tag = 0x02 then decode_create_token rest
        else if tag = 0x03 then decode_solvent P rest
        else if tag = 0x05 then decode_deploy rest
        else if tag = 0x09 then decode_unshield P rest
        else if tag = 0x0B then decode_anon P rest
        else decode_fixed tag rest)"

section \<open>Round trips\<close>

text \<open>What the wire can carry: lengths that fit their prefixes and a valid string.\<close>

fun tx_wf :: "('g, 's, 'r) prims \<Rightarrow> ('g, 's, 'r) transaction \<Rightarrow> bool" where
  "tx_wf P (CreateToken ticker _ _ _) \<longleftrightarrow> length ticker < 2 ^ 16 \<and> utf8_valid ticker"
| "tx_wf P (DeployContract _ code _) \<longleftrightarrow> length code < 2 ^ 32"
| "tx_wf P (Unshield _ _ _ xfer _) \<longleftrightarrow> length (solvent_to_bytes P xfer) < 2 ^ 32"
| "tx_wf P (AnonTransfer _ xfer) \<longleftrightarrow> anon_wf xfer \<and> length (anon_to_bytes P xfer) < 2 ^ 32"
| "tx_wf P _ \<longleftrightarrow> True"

lemmas at_defs = at_u16_def at_u32_def at_u64_def at_arr32_def at_arr64_def get_range_def

lemma at_bool_glue:
  assumes "at_bool b 36 = Some v" and "length b = 133"
  shows "bool_byte v # drop 37 b = drop 36 b"
proof -
  have "bool_byte v = b ! 36" using assms(1) by (auto simp: at_bool_def bool_byte_def split: if_splits)
  then show ?thesis using Cons_nth_drop_Suc [of 36 b] assms(2) by simp
qed

lemma decode_fixed_encode:
  assumes "decode_fixed tag rest = Some tx"
  shows "encode P tx = tag # rest \<and> tx_wf P tx \<and> tag \<notin> {0x02, 0x03, 0x05, 0x09, 0x0B}"
  using assms unfolding decode_fixed_def
  by (auto simp: at_defs at_bool_glue split: if_splits bind_splits)

lemma decode_create_token_encode:
  assumes "decode_create_token rest = Some tx"
  shows "encode P tx = 0x02 # rest \<and> tx_wf P tx"
proof -
  from assms obtain len16 where l: "at_u16 rest 0 = Some len16"
    by (auto simp: decode_create_token_def split: bind_splits)
  define len where "len = unat len16"
  have b: "len < 2 ^ 16" using unat_lt2p [of len16] by (simp add: len_def)
  have t: "take 2 rest = le_bytes 2 (of_nat len :: u16)" and r2: "2 \<le> length rest"
    using l by (auto simp: at_defs len_def numeral_2_eq_2 split: if_splits)
  have n: "length rest = 2 + len + 104" and u: "utf8_valid (take len (drop 2 rest))"
    and tx: "tx = CreateToken (take len (drop 2 rest)) (of_be (take 32 (drop (2 + len) rest)))
      (of_le (take 8 (drop (2 + len + 32) rest))) (of_be (take 64 (drop (2 + len + 40) rest)))"
    using assms l by (auto simp: decode_create_token_def at_defs Let_def len_def split: if_splits)
  have "le_bytes 2 (of_nat len :: u16) @ take len (drop 2 rest) @ take 32 (drop (2 + len) rest)
      @ take 8 (drop (2 + len + 32) rest) @ take 64 (drop (2 + len + 40) rest) = rest"
    using n by (simp flip: t)
  then show ?thesis using n u b by (simp add: tx)
qed

lemma decode_deploy_encode:
  assumes "decode_deploy rest = Some tx"
  shows "encode P tx = 0x05 # rest \<and> tx_wf P tx"
proof -
  from assms obtain len32 where l: "at_u32 rest 32 = Some len32"
    by (auto simp: decode_deploy_def split: bind_splits)
  define len where "len = unat len32"
  have b: "len < 2 ^ 32" using unat_lt2p [of len32] by (simp add: len_def)
  have t: "take 4 (drop 32 rest) = le_bytes 4 (of_nat len :: u32)"
    using l by (auto simp: at_defs len_def split: if_splits)
  have n: "length rest = 36 + len + 64"
    and tx: "tx = DeployContract (of_be (take 32 rest)) (take len (drop 36 rest))
      (of_be (take 64 (drop (36 + len) rest)))"
    using assms l by (auto simp: decode_deploy_def at_defs Let_def len_def split: if_splits)
  have "take 32 rest @ le_bytes 4 (of_nat len :: u32) @ take len (drop 36 rest)
      @ take 64 (drop (36 + len) rest) = rest"
    using n by (simp flip: t)
  then show ?thesis using n b by (simp add: tx)
qed

lemma decode_solvent_encode:
  assumes "encoding_laws P" and "decode_solvent P rest = Some tx"
  shows "encode P tx = 0x03 # rest \<and> tx_wf P tx"
  using assms(2)
  by (auto simp: decode_solvent_def at_defs solvent_bytes_iff [OF assms(1)] split: if_splits bind_splits)
    (metis append_take_drop_id)

lemma decode_unshield_encode:
  assumes "encoding_laws P" and "decode_unshield P rest = Some tx"
  shows "encode P tx = 0x09 # rest \<and> tx_wf P tx"
proof -
  from assms(2) obtain len32 where l: "at_u32 rest 44 = Some len32"
    by (auto simp: decode_unshield_def split: bind_splits)
  define len where "len = unat len32"
  have b: "len < 2 ^ 32" using unat_lt2p [of len32] by (simp add: len_def)
  have t: "take 4 (drop 44 rest) = le_bytes 4 (of_nat len :: u32)"
    using l by (auto simp: at_defs len_def split: if_splits)
  obtain xfer where n: "length rest = 48 + len + 64" and x: "take len (drop 48 rest) = solvent_to_bytes P xfer"
    and tx: "tx = Unshield (of_le (take 4 rest)) (of_be (take 32 (drop 4 rest)))
      (of_le (take 8 (drop 36 rest))) xfer (of_be (take 64 (drop (48 + len) rest)))"
    using assms(2) l
    by (auto simp: decode_unshield_def at_defs Let_def len_def solvent_bytes_iff [OF assms(1)]
        split: if_splits bind_splits)
  have lx: "length (solvent_to_bytes P xfer) = len" using n by (simp flip: x)
  have "take 4 rest @ take 32 (drop 4 rest) @ take 8 (drop 36 rest) @ le_bytes 4 (of_nat len :: u32)
      @ take len (drop 48 rest) @ take 64 (drop (48 + len) rest) = rest"
    using n by (simp flip: t)
  then show ?thesis using n b lx by (simp add: tx x)
qed

lemma decode_anon_encode:
  assumes "encoding_laws P" and "decode_anon P rest = Some tx"
  shows "encode P tx = 0x0B # rest \<and> tx_wf P tx"
proof -
  from assms(2) obtain len32 where l: "at_u32 rest 4 = Some len32"
    by (auto simp: decode_anon_def split: bind_splits)
  define len where "len = unat len32"
  have b: "len < 2 ^ 32" using unat_lt2p [of len32] by (simp add: len_def)
  have t: "take 4 (drop 4 rest) = le_bytes 4 (of_nat len :: u32)"
    using l by (auto simp: at_defs len_def split: if_splits)
  obtain xfer where n: "length rest = 8 + len" and x: "take len (drop 8 rest) = anon_to_bytes P xfer"
    and wf: "anon_wf xfer" and tx: "tx = AnonTransfer (of_le (take 4 rest)) xfer"
    using assms(2) l
    by (auto simp: decode_anon_def at_defs Let_def len_def anon_bytes_iff [OF assms(1)]
        split: if_splits bind_splits)
  have lx: "length (anon_to_bytes P xfer) = len" using n by (simp flip: x)
  have "take 4 rest @ le_bytes 4 (of_nat len :: u32) @ take len (drop 8 rest) = rest"
    using n by (simp flip: t)
  then show ?thesis using n b lx wf by (simp add: tx x)
qed

lemma decode_encode_all:
  assumes "decode P b = Some tx" and "encoding_laws P"
  shows "encode P tx = b \<and> tx_wf P tx"
  using assms(1)
  by (auto simp: decode_def split: list.splits if_splits
      dest: decode_create_token_encode [where P = P] decode_deploy_encode [where P = P]
        decode_solvent_encode [OF assms(2)] decode_unshield_encode [OF assms(2)]
        decode_anon_encode [OF assms(2)] decode_fixed_encode [where P = P])

lemma at_bool_byte: "i < length xs \<Longrightarrow> xs ! i = bool_byte v \<Longrightarrow> at_bool xs i = Some v"
  by (auto simp: at_bool_def bool_byte_def)

lemma unat_of_nat_u16 [simp]: "n < 2 ^ 16 \<Longrightarrow> unat (of_nat n :: u16) = n"
  by (simp add: unat_of_nat)

lemma unat_of_nat_u32 [simp]: "n < 2 ^ 32 \<Longrightarrow> unat (of_nat n :: u32) = n"
  by (simp add: unat_of_nat)

lemma decode_encode:
  assumes E: "encoding_laws P" and wf: "tx_wf P tx"
  shows "decode P (encode P tx) = Some tx"
proof (cases tx)
  case (CreateToken ticker creator amount sg)
  then show ?thesis using wf
    by (simp add: decode_def decode_create_token_def at_defs Let_def)
next
  case (DeployContract deployer code sg)
  then show ?thesis using wf by (simp add: decode_def decode_deploy_def at_defs Let_def)
next
  case (SolventTransfer token xfer)
  have "solvent_from_bytes P (solvent_to_bytes P xfer) = Some xfer" by (simp add: solvent_bytes_iff [OF E])
  then show ?thesis using SolventTransfer
    by (simp add: decode_def decode_solvent_def at_defs)
next
  case (Unshield token recipient amount xfer sg)
  have "solvent_from_bytes P (solvent_to_bytes P xfer) = Some xfer" by (simp add: solvent_bytes_iff [OF E])
  then show ?thesis using wf Unshield
    by (simp add: decode_def decode_unshield_def at_defs Let_def)
next
  case (AnonTransfer token xfer)
  then have "anon_from_bytes P (anon_to_bytes P xfer) = Some xfer"
    using wf by (simp add: anon_bytes_iff [OF E])
  then show ?thesis using wf AnonTransfer
    by (simp add: decode_def decode_anon_def at_defs Let_def)
next
  case (Swap token trader lat_in amount_in min_out fee nonce sg)
  then show ?thesis
    by (simp add: decode_def decode_fixed_def at_defs at_bool_byte [where v = lat_in] nth_append)
next
  case (CurveTrade token trader is_buy amount min_out fee nonce sg)
  then show ?thesis
    by (simp add: decode_def decode_fixed_def at_defs at_bool_byte [where v = is_buy] nth_append)
qed (simp_all add: decode_def decode_fixed_def at_defs)

text \<open>
  C4: the transaction format is canonical. A byte string decodes to a transaction iff it is that
  transaction's encoding and the transaction fits the wire (lengths within their prefixes, a ticker
  that is valid UTF-8, a ring of 2 to 16): every transaction survives the round trip, and no two
  byte strings decode to the same transaction.
\<close>

theorem transaction_codec:
  assumes "encoding_laws P"
  shows "decode P b = Some tx \<longleftrightarrow> b = encode P tx \<and> tx_wf P tx"
  using decode_encode [OF assms] decode_encode_all [OF _ assms] by blast

theorem transaction_codec_witness:
  "decode (toy_prims :: (u64, u64, unit) prims)
     (encode (toy_prims :: (u64, u64, unit) prims) (CreateToken [0x44, 0x4F, 0x47] 7 1000 9)) =
   Some (CreateToken [0x44, 0x4F, 0x47] 7 1000 9)"
  using transaction_codec [OF toy_encoding_laws [where 'a = 64]] by simp

fun with_sig :: "('g, 's, 'r) transaction \<Rightarrow> arr64 \<Rightarrow> ('g, 's, 'r) transaction" where
  "with_sig (CreateToken t c s _) g = CreateToken t c s g"
| "with_sig (Rollover a n _) g = Rollover a n g"
| "with_sig (DeployContract d c _) g = DeployContract d c g"
| "with_sig (CallContract k c i n _) g = CallContract k c i n g"
| "with_sig (PublicTransfer t f to a fe n _) g = PublicTransfer t f to a fe n g"
| "with_sig (Shield t f to a fe n _) g = Shield t f to a fe n g"
| "with_sig (Unshield t to a x _) g = Unshield t to a x g"
| "with_sig (ShieldStealth t f e ot a fe n _) g = ShieldStealth t f e ot a fe n g"
| "with_sig (Stake v a n _) g = Stake v a n g"
| "with_sig (Unstake v a n _) g = Unstake v a n g"
| "with_sig (AddLiquidity t p l k fe n _) g = AddLiquidity t p l k fe n g"
| "with_sig (RemoveLiquidity t p l fe n _) g = RemoveLiquidity t p l fe n g"
| "with_sig (Swap t r d a m fe n _) g = Swap t r d a m fe n g"
| "with_sig (CurveTrade t r d a m fe n _) g = CurveTrade t r d a m fe n g"
| "with_sig (HtlcLock t f to a h e fe n _) g = HtlcLock t f to a h e fe n g"
| "with_sig tx g = tx"

lemma take_minus_sig: "take (length (xs @ be_bytes 64 (g :: arr64)) - 64) (xs @ be_bytes 64 g) = xs"
  by simp

lemma encode_with_sig:
  "carries_sig tx \<Longrightarrow> encode P (with_sig tx g) = signing_bytes P tx @ be_bytes 64 g"
  unfolding signing_bytes_def Let_def
  by (cases tx) (simp_all only: encode.simps with_sig.simps carries_sig.simps if_True Let_def
      append_assoc [symmetric] take_minus_sig)

lemma tx_wf_with_sig: "tx_wf P (with_sig tx g) = tx_wf P tx"
  by (cases tx) simp_all

text \<open>
  a signature covers everything but itself. The signing bytes of two well-formed transactions
  are equal only if the transactions agree in every field except the trailing signature: for
  variants without one, they are equal; for the others, replacing one signature by the other makes
  them equal.
\<close>

theorem signing_bytes_bind:
  assumes E: "encoding_laws P" and wf: "tx_wf P tx" "tx_wf P tx'"
    and "carries_sig tx" "carries_sig tx'" and "signing_bytes P tx = signing_bytes P tx'"
  shows "with_sig tx g = with_sig tx' g"
proof -
  have eq: "encode P (with_sig tx g) = encode P (with_sig tx' g)"
    unfolding encode_with_sig [OF assms(4)] encode_with_sig [OF assms(5)] assms(6) ..
  have "Some (with_sig tx g) = decode P (encode P (with_sig tx g))"
    by (rule decode_encode [OF E, symmetric]) (simp add: tx_wf_with_sig wf)
  also have "\<dots> = decode P (encode P (with_sig tx' g))" unfolding eq ..
  also have "\<dots> = Some (with_sig tx' g)"
    by (rule decode_encode [OF E]) (simp add: tx_wf_with_sig wf)
  finally show ?thesis by (rule option.inject [THEN iffD1])
qed

theorem signing_bytes_bind_witness:
  "with_sig (Stake 1 2 3 4 :: (u64, u64, unit) transaction) 0 = with_sig (Stake 1 2 3 5) 0"
proof -
  have "signing_bytes P (Stake v a n g) = signing_bytes P (Stake v a n g')" for P v a n g g'
    using encode_with_sig [of "Stake v a n g" P 0] encode_with_sig [of "Stake v a n g'" P 0]
    unfolding with_sig.simps by (simp only: carries_sig.simps append_same_eq simp_thms)
  from signing_bytes_bind [OF toy_encoding_laws [where 'a = 64] _ _ _ _ this, of 1 2 3 4 5 0]
  show ?thesis by simp
qed

section \<open>Tickers and addresses\<close>

lemma trim_with_id:
  assumes "\<And>w. w \<in> set ws \<Longrightarrow> w \<noteq> [] \<Longrightarrow> b \<noteq> [] \<Longrightarrow> hd w \<noteq> hd b"
  shows "trim_with ws b = b"
proof -
  have "find (\<lambda>w. w \<noteq> [] \<and> take (length w) b = w) ws = None"
    unfolding find_None_iff
  proof (intro notI, elim exE conjE)
    fix w assume w: "w \<in> set ws" "w \<noteq> []" "take (length w) b = w"
    then have "b \<noteq> []" by auto
    moreover from this w have "hd w = hd b" by (metis hd_take length_greater_0_conv)
    ultimately show False using assms w by blast
  qed
  then show ?thesis by (subst trim_with.simps) simp
qed

lemma trim_visible:
  assumes "s \<noteq> []" and "\<forall>b \<in> set s. ascii_alnum b \<or> b = 0x24"
  shows "trim s = s"
proof -
  have nw: "\<forall>w \<in> set ws_encodings. \<not> ascii_alnum (hd w) \<and> hd w \<noteq> 0x24 \<and>
      \<not> ascii_alnum (last w) \<and> last w \<noteq> 0x24 \<and> w \<noteq> []"
    by (simp add: ws_encodings_def ascii_alnum_def)
  have h: "ascii_alnum (hd s) \<or> hd s = 0x24" "ascii_alnum (last s) \<or> last s = 0x24"
    using assms by auto
  have "trim_with ws_encodings s = s" using nw h by (intro trim_with_id) metis
  moreover have "trim_with (map rev ws_encodings) (rev s) = rev s"
    using nw h assms(1) by (intro trim_with_id) (auto simp: hd_rev)
  ultimately show ?thesis by (simp add: trim_def)
qed

lemma ascii_upper_alnum: "ascii_alnum b \<Longrightarrow> ascii_alnum (ascii_upper b)"
  by (auto simp: ascii_alnum_def ascii_upper_def word_le_nat_alt unat_sub)

lemma ascii_upper_idem: "ascii_upper (ascii_upper b) = ascii_upper b"
  by (auto simp: ascii_upper_def word_le_nat_alt unat_sub)

lemma normalize_alnum:
  assumes "s \<noteq> []" "length s \<le> 10" "list_all ascii_alnum s"
  shows "normalize_ticker s = Some (map ascii_upper s)"
    and "normalize_ticker (0x24 # s) = Some (map ascii_upper s)"
proof -
  have "trim s = s" and "trim (0x24 # s) = 0x24 # s"
    using assms by (auto intro!: trim_visible simp: list_all_iff)
  moreover have "hd s \<noteq> 0x24" using assms by (cases s) (auto simp: ascii_alnum_def)
  ultimately show "normalize_ticker s = Some (map ascii_upper s)"
    "normalize_ticker (0x24 # s) = Some (map ascii_upper s)"
    using assms by (auto simp: normalize_ticker_def Let_def split: list.splits)
qed

text \<open>
  ticker normalisation is a canonical form. Its results have 1 to 10 ASCII alphanumerics, are
  fixed points of it, and a leading \<^verbatim>\<open>$\<close> or a change of case gives the same result, so uniqueness
  of normalised tickers is uniqueness up to those.
\<close>

theorem normalize_ticker_canonical:
  assumes "normalize_ticker t = Some n"
  shows "normalize_ticker n = Some n \<and> normalize_ticker (0x24 # n) = Some n \<and>
    n \<noteq> [] \<and> length n \<le> 10 \<and> list_all ascii_alnum n \<and>
    (\<forall>s. map ascii_upper s = n \<and> list_all ascii_alnum s \<longrightarrow> normalize_ticker s = Some n)"
proof -
  define s where "s = (case trim t of c # r \<Rightarrow> if c = 0x24 then r else trim t | [] \<Rightarrow> trim t)"
  have s: "s \<noteq> []" "length s \<le> 10" "list_all ascii_alnum s" "n = map ascii_upper s"
    using assms unfolding normalize_ticker_def Let_def s_def [symmetric] by (auto split: if_splits)
  have n: "n \<noteq> []" "length n \<le> 10" "list_all ascii_alnum n"
    using s ascii_upper_alnum by (auto simp: list_all_iff)
  have "map ascii_upper n = n" using s(4) ascii_upper_idem by simp
  moreover have "normalize_ticker s' = Some n" if "map ascii_upper s' = n" "list_all ascii_alnum s'" for s'
  proof -
    have "s' \<noteq> []" "length s' \<le> 10" using that(1) n by auto
    from normalize_alnum(1) [OF this that(2)] show ?thesis using that(1) by simp
  qed
  ultimately show ?thesis using n normalize_alnum [OF n] by simp
qed

theorem normalize_ticker_canonical_witness:
  "normalize_ticker [0x20, 0x24, 0x64, 0x6F, 0x47] = Some [0x44, 0x4F, 0x47] \<and>
   normalize_ticker [0x44, 0x4F, 0x47] = Some [0x44, 0x4F, 0x47]"
proof -
  have t: "normalize_ticker [0x20, 0x24, 0x64, 0x6F, 0x47] = Some [0x44, 0x4F, 0x47]"
    by (simp add: normalize_ticker_def trim_def trim_with.simps ws_encodings_def ascii_alnum_def
        ascii_upper_def)
  from normalize_ticker_canonical [OF t] t show ?thesis by simp
qed

text \<open>
  address strings round-trip. With a Bech32 whose decoder inverts its encoder on 32-byte
  payloads, parsing an encoded address gives the address back, network included.
\<close>

theorem address_roundtrip:
  assumes "encoding_laws P"
    and "\<And>h d. length d = 32 \<Longrightarrow> b32_decode (b32_encode h d) = Some (h, d)"
  shows "address_parse P b32_decode (address_encode P b32_encode a) = Inr a"
proof -
  have "from_hrp (hrp n) = Some n" for n by (cases n) (simp_all add: from_hrp_def)
  then show ?thesis using assms
    by (simp add: address_parse_def address_encode_def pk_to_bytes_def pk_from_bytes_def encoding_self)
qed

definition demo_b32_encode :: "string \<Rightarrow> bytes \<Rightarrow> string" where
  "demo_b32_encode h d = map (\<lambda>b. char_of (unat b)) d @ h"

definition demo_b32_decode :: "string \<Rightarrow> (string \<times> bytes) option" where
  "demo_b32_decode s = Some (drop 32 s, map (\<lambda>c. of_nat (of_char c)) (take 32 s))"

theorem address_roundtrip_witness:
  "address_parse (toy_prims :: (u64, u64, unit) prims) demo_b32_decode
     (address_encode (toy_prims :: (u64, u64, unit) prims) demo_b32_encode
        \<lparr>addr_network = Testnet, addr_key = 5\<rparr>) = Inr \<lparr>addr_network = Testnet, addr_key = 5\<rparr>"
proof (rule address_roundtrip [OF toy_encoding_laws])
  fix h and d :: bytes
  assume "length d = 32"
  moreover have "unat b mod 256 = unat b" for b :: byte using unat_lt2p [of b] by simp
  ultimately show "demo_b32_decode (demo_b32_encode h d) = Some (h, d)"
    by (simp add: demo_b32_decode_def demo_b32_encode_def comp_def)
qed simp

end
