(* ===== verification/Ledger.thy ===== *)
theory Ledger
  imports Types VM Curve
begin

text \<open>
  The ledger state of \<^verbatim>\<open>lat-state/src/lib.rs\<close>: accounts, tokens, contracts, nullifiers, validators,
  pools, curves, LP shares and HTLCs, with the record accessors and the queries on them. The
  transaction handlers are in \<open>Ledger_Apply\<close>, the record encodings in \<open>Records\<close>.

  The store's column of encoded records is the record \<open>ledger\<close> of finite maps, one per kind of
  record (a record key is one tag byte and the object's id, and decoding inverts encoding:
  theory \<open>Records\<close>). The read cache mirrors the store and is not a part of the state.
\<close>

section \<open>Parameters\<close>

definition LAT_TOKEN :: u32 where "LAT_TOKEN = 0"
definition FLAT_TX_FEE :: u64 where "FLAT_TX_FEE = 1000"
definition EPOCH_BLOCKS :: u64 where "EPOCH_BLOCKS = 20"
definition MIN_VALIDATOR_STAKE :: u64 where "MIN_VALIDATOR_STAKE = 1000 * 100000"
definition UNBONDING_BLOCKS :: u64 where "UNBONDING_BLOCKS = 240"
definition DEFAULT_MAX_VALIDATORS :: nat where "DEFAULT_MAX_VALIDATORS = 64"
definition SLASH_FRACTION_BPS :: u64 where "SLASH_FRACTION_BPS = 1000"
definition SLASH_REWARD_BPS :: u64 where "SLASH_REWARD_BPS = 500"
definition SWAP_FEE_BPS :: u64 where "SWAP_FEE_BPS = 30"
definition MIN_POOL_LIQUIDITY :: u64 where "MIN_POOL_LIQUIDITY = 1000"

lemmas ledger_params = LAT_TOKEN_def FLAT_TX_FEE_def EPOCH_BLOCKS_def MIN_VALIDATOR_STAKE_def
  UNBONDING_BLOCKS_def SLASH_FRACTION_BPS_def SLASH_REWARD_BPS_def SWAP_FEE_BPS_def
  MIN_POOL_LIQUIDITY_def

definition epoch_of :: "u64 \<Rightarrow> u64" where
  "epoch_of height = height div EPOCH_BLOCKS"

section \<open>Objects\<close>

record validator =
  val_staked :: u64
  val_unbonding :: "(u64 \<times> u64) list"
  val_tombstoned :: bool

definition validator_default :: validator where
  "validator_default = \<lparr>val_staked = 0, val_unbonding = [], val_tombstoned = False\<rparr>"

definition release_matured :: "validator \<Rightarrow> u64 \<Rightarrow> u64 \<times> validator" where
  "release_matured v height =
     (sum_list (map fst (filter (\<lambda>(amount, release). release \<le> height) (val_unbonding v))),
      v\<lparr>val_unbonding := filter (\<lambda>(amount, release). \<not> release \<le> height) (val_unbonding v)\<rparr>)"

record pool =
  pool_token :: u32
  pool_lat :: u64
  pool_tok :: u64
  pool_lp_supply :: u64

record curve_pool =
  cp_token :: u32
  cp_vlat :: u64
  cp_vtok :: u64
  cp_real_lat :: u64
  cp_graduated :: bool

definition curve_from_math :: "u32 \<Rightarrow> curve \<Rightarrow> curve_pool" where
  "curve_from_math token c = \<lparr>cp_token = token, cp_vlat = vlat c, cp_vtok = vtok c,
     cp_real_lat = real_lat c, cp_graduated = graduated c\<rparr>"

definition curve_genesis :: "u32 \<Rightarrow> curve_pool" where
  "curve_genesis token = curve_from_math token curve_default"

definition curve_math :: "curve_pool \<Rightarrow> curve" where
  "curve_math cp = \<lparr>vlat = cp_vlat cp, vtok = cp_vtok cp, real_lat = cp_real_lat cp,
     graduated = cp_graduated cp\<rparr>"

record htlc =
  htlc_token :: u32
  htlc_from :: id32
  htlc_to :: id32
  htlc_amount :: u64
  htlc_hashlock :: id32
  htlc_expiry :: u64

record token_meta =
  tm_id :: u32
  tm_ticker :: bytes
  tm_creator :: id32
  tm_supply :: u64

record 'g account =
  acc_balances :: "(u32, 'g ciphertext) fmap"
  acc_pending :: "(u32, 'g ciphertext) fmap"
  acc_public :: "(u32, u64) fmap"
  acc_nonce :: u64

definition account_default :: "'g account" where
  "account_default = \<lparr>acc_balances = fmempty, acc_pending = fmempty, acc_public = fmempty, acc_nonce = 0\<rparr>"

definition acct_balance :: "'g::zero account \<Rightarrow> u32 \<Rightarrow> 'g ciphertext" where
  "acct_balance a token = (case fmlookup (acc_balances a) token of Some ct \<Rightarrow> ct | None \<Rightarrow> ct_zero)"

definition acct_pending :: "'g::zero account \<Rightarrow> u32 \<Rightarrow> 'g ciphertext" where
  "acct_pending a token = (case fmlookup (acc_pending a) token of Some ct \<Rightarrow> ct | None \<Rightarrow> ct_zero)"

definition acct_set :: "'g account \<Rightarrow> u32 \<Rightarrow> 'g ciphertext \<Rightarrow> 'g account" where
  "acct_set a token ct = a\<lparr>acc_balances := fmupd token ct (acc_balances a)\<rparr>"

definition acct_set_pending :: "'g account \<Rightarrow> u32 \<Rightarrow> 'g ciphertext \<Rightarrow> 'g account" where
  "acct_set_pending a token ct = a\<lparr>acc_pending := fmupd token ct (acc_pending a)\<rparr>"

definition acct_public :: "'g account \<Rightarrow> u32 \<Rightarrow> u64" where
  "acct_public a token = (case fmlookup (acc_public a) token of Some v \<Rightarrow> v | None \<Rightarrow> 0)"

definition acct_set_public :: "'g account \<Rightarrow> u32 \<Rightarrow> u64 \<Rightarrow> 'g account" where
  "acct_set_public a token amount = a\<lparr>acc_public := fmupd token amount (acc_public a)\<rparr>"

record contract =
  con_code :: bytes
  con_storage :: storage

datatype dirty_key =
    DirtyAccount id32
  | DirtyToken u32
  | DirtyContract id32
  | DirtyNullifier id32
  | DirtyValidator id32
  | DirtyPool u32
  | DirtyCurve u32
  | DirtyLp u32 id32
  | DirtyHtlc id32
  | DirtyMeta

section \<open>The ledger\<close>

text \<open>\<open>l_meta\<close> is the stored \<^verbatim>\<open>next_token_id\<close> record, which exists once a token was created.\<close>

record 'g ledger =
  l_next_token_id :: u32
  l_accounts :: "(id32, 'g account) fmap"
  l_tokens :: "(u32, token_meta) fmap"
  l_tickers :: "(bytes, u32) fmap"
  l_meta :: "u32 option"
  l_contracts :: "(id32, contract) fmap"
  l_nullifiers :: "id32 fset"
  l_validators :: "(id32, validator) fmap"
  l_pools :: "(u32, pool) fmap"
  l_curves :: "(u32, curve_pool) fmap"
  l_lps :: "(u32 \<times> id32, u64) fmap"
  l_htlcs :: "(id32, htlc) fmap"
  l_dirty :: "dirty_key fset"
  l_max_validators :: nat

definition ledger_new :: "'g ledger" where
  "ledger_new = \<lparr>l_next_token_id = 1, l_accounts = fmempty, l_tokens = fmempty, l_tickers = fmempty,
     l_meta = None, l_contracts = fmempty, l_nullifiers = {||}, l_validators = fmempty,
     l_pools = fmempty, l_curves = fmempty, l_lps = fmempty, l_htlcs = fmempty,
     l_dirty = {|DirtyMeta|}, l_max_validators = DEFAULT_MAX_VALIDATORS\<rparr>"

datatype ledger_error =
    AlreadyRegistered | SenderNotRegistered | ReceiverNotRegistered | CreatorNotRegistered
  | InvalidProof | InvalidTicker | TickerTaken | BadNonce | ContractExists | NoSuchContract
  | ContractFailed | BadSignature | InsufficientPublicBalance | WrongUnshieldReceiver
  | UnshieldAmountMismatch | WrongEpoch | NullifierSeen | BadRing | StaleRingBalance
  | InsufficientStake | BadEvidence | NothingToSlash | BadPoolToken | PoolNotFound
  | InsufficientLiquidity | SlippageExceeded | HtlcNotFound | HtlcExpired | HtlcNotExpired
  | BadPreimage | HtlcExists | ZeroAmount | CurveNotFound | CurveGraduated | CurveInsolvent
  | LedgerPanic

text \<open>\<open>LedgerPanic\<close> stands for a division by zero of the source, which has no error value.\<close>

section \<open>Record accessors\<close>

definition get_account :: "'g ledger \<Rightarrow> id32 \<Rightarrow> 'g account option" where
  "get_account L i = fmlookup (l_accounts L) i"

definition put_account :: "id32 \<Rightarrow> 'g account \<Rightarrow> 'g ledger \<Rightarrow> 'g ledger" where
  "put_account i a L = L\<lparr>l_accounts := fmupd i a (l_accounts L)\<rparr>"

definition is_registered :: "'g ledger \<Rightarrow> id32 \<Rightarrow> bool" where
  "is_registered L i \<longleftrightarrow> fmlookup (l_accounts L) i \<noteq> None"

definition token_by_id :: "'g ledger \<Rightarrow> u32 \<Rightarrow> token_meta option" where
  "token_by_id L t = fmlookup (l_tokens L) t"

text \<open>One batch: the token, its ticker index and the meta record.\<close>

definition put_token :: "token_meta \<Rightarrow> 'g ledger \<Rightarrow> 'g ledger" where
  "put_token t L = L\<lparr>l_tokens := fmupd (tm_id t) t (l_tokens L),
     l_tickers := fmupd (tm_ticker t) (tm_id t) (l_tickers L), l_meta := Some (l_next_token_id L)\<rparr>"

definition ticker_taken :: "'g ledger \<Rightarrow> bytes \<Rightarrow> bool" where
  "ticker_taken L norm \<longleftrightarrow> fmlookup (l_tickers L) norm \<noteq> None"

definition get_contract :: "'g ledger \<Rightarrow> id32 \<Rightarrow> contract option" where
  "get_contract L i = fmlookup (l_contracts L) i"

definition put_contract :: "id32 \<Rightarrow> contract \<Rightarrow> 'g ledger \<Rightarrow> 'g ledger" where
  "put_contract i c L = L\<lparr>l_contracts := fmupd i c (l_contracts L)\<rparr>"

definition has_contract :: "'g ledger \<Rightarrow> id32 \<Rightarrow> bool" where
  "has_contract L i \<longleftrightarrow> fmlookup (l_contracts L) i \<noteq> None"

definition insert_nullifier :: "id32 \<Rightarrow> 'g ledger \<Rightarrow> 'g ledger" where
  "insert_nullifier nf L = L\<lparr>l_nullifiers := finsert nf (l_nullifiers L)\<rparr>"

definition nullifier_seen :: "'g ledger \<Rightarrow> id32 \<Rightarrow> bool" where
  "nullifier_seen L nf \<longleftrightarrow> nf |\<in>| l_nullifiers L"

definition get_validator :: "'g ledger \<Rightarrow> id32 \<Rightarrow> validator option" where
  "get_validator L i = fmlookup (l_validators L) i"

definition put_validator :: "id32 \<Rightarrow> validator \<Rightarrow> 'g ledger \<Rightarrow> 'g ledger" where
  "put_validator i v L =
    (if val_staked v = 0 \<and> val_unbonding v = [] then L\<lparr>l_validators := fmdrop i (l_validators L)\<rparr>
     else L\<lparr>l_validators := fmupd i v (l_validators L)\<rparr>)"

definition get_pool :: "'g ledger \<Rightarrow> u32 \<Rightarrow> pool option" where
  "get_pool L t = fmlookup (l_pools L) t"

definition put_pool :: "pool \<Rightarrow> 'g ledger \<Rightarrow> 'g ledger" where
  "put_pool p L =
    (if pool_lp_supply p = 0 then L\<lparr>l_pools := fmdrop (pool_token p) (l_pools L)\<rparr>
     else L\<lparr>l_pools := fmupd (pool_token p) p (l_pools L)\<rparr>)"

definition get_curve :: "'g ledger \<Rightarrow> u32 \<Rightarrow> curve_pool option" where
  "get_curve L t = fmlookup (l_curves L) t"

definition put_curve :: "curve_pool \<Rightarrow> 'g ledger \<Rightarrow> 'g ledger" where
  "put_curve c L = L\<lparr>l_curves := fmupd (cp_token c) c (l_curves L)\<rparr>"

definition lp_shares :: "'g ledger \<Rightarrow> u32 \<Rightarrow> id32 \<Rightarrow> u64" where
  "lp_shares L token provider =
     (case fmlookup (l_lps L) (token, provider) of Some s \<Rightarrow> s | None \<Rightarrow> 0)"

definition put_lp :: "u32 \<Rightarrow> id32 \<Rightarrow> u64 \<Rightarrow> 'g ledger \<Rightarrow> 'g ledger" where
  "put_lp token provider shares L =
    (if shares = 0 then L\<lparr>l_lps := fmdrop (token, provider) (l_lps L)\<rparr>
     else L\<lparr>l_lps := fmupd (token, provider) shares (l_lps L)\<rparr>)"

definition get_htlc :: "'g ledger \<Rightarrow> id32 \<Rightarrow> htlc option" where
  "get_htlc L i = fmlookup (l_htlcs L) i"

definition put_htlc :: "id32 \<Rightarrow> htlc \<Rightarrow> 'g ledger \<Rightarrow> 'g ledger" where
  "put_htlc i h L = L\<lparr>l_htlcs := fmupd i h (l_htlcs L)\<rparr>"

definition drop_htlc :: "id32 \<Rightarrow> 'g ledger \<Rightarrow> 'g ledger" where
  "drop_htlc i L = L\<lparr>l_htlcs := fmdrop i (l_htlcs L)\<rparr>"

definition mark :: "dirty_key \<Rightarrow> 'g ledger \<Rightarrow> 'g ledger" where
  "mark k L = L\<lparr>l_dirty := finsert k (l_dirty L)\<rparr>"

definition mark_all :: "dirty_key list \<Rightarrow> 'g ledger \<Rightarrow> 'g ledger" where
  "mark_all ks L = L\<lparr>l_dirty := l_dirty L |\<union>| fset_of_list ks\<rparr>"

section \<open>Queries and direct credits\<close>

definition staked :: "'g ledger \<Rightarrow> id32 \<Rightarrow> u64" where
  "staked L i = (case get_validator L i of Some v \<Rightarrow> val_staked v | None \<Rightarrow> 0)"

definition unbonding :: "'g ledger \<Rightarrow> id32 \<Rightarrow> (u64 \<times> u64) list" where
  "unbonding L i = (case get_validator L i of Some v \<Rightarrow> val_unbonding v | None \<Rightarrow> [])"

definition ledger_balance :: "'g::zero ledger \<Rightarrow> id32 \<Rightarrow> u32 \<Rightarrow> 'g ciphertext option" where
  "ledger_balance L i token = map_option (\<lambda>a. acct_balance a token) (get_account L i)"

definition ledger_pending :: "'g::zero ledger \<Rightarrow> id32 \<Rightarrow> u32 \<Rightarrow> 'g ciphertext option" where
  "ledger_pending L i token = map_option (\<lambda>a. acct_pending a token) (get_account L i)"

definition ledger_nonce :: "'g ledger \<Rightarrow> id32 \<Rightarrow> u64 option" where
  "ledger_nonce L i = map_option acc_nonce (get_account L i)"

definition public_balance :: "'g ledger \<Rightarrow> id32 \<Rightarrow> u32 \<Rightarrow> u64 option" where
  "public_balance L i token = map_option (\<lambda>a. acct_public a token) (get_account L i)"

definition account_or_default :: "'g ledger \<Rightarrow> id32 \<Rightarrow> 'g account" where
  "account_or_default L i = (case get_account L i of Some a \<Rightarrow> a | None \<Rightarrow> account_default)"

definition validator_or_default :: "'g ledger \<Rightarrow> id32 \<Rightarrow> validator" where
  "validator_or_default L i = (case get_validator L i of Some v \<Rightarrow> v | None \<Rightarrow> validator_default)"

definition credit_public :: "id32 \<Rightarrow> u32 \<Rightarrow> u64 \<Rightarrow> 'g ledger \<Rightarrow> 'g ledger" where
  "credit_public i token amount L =
    (if amount = 0 then L
     else
       let acct = account_or_default L i;
           new = saturating_add (acct_public acct token) amount in
       mark (DirtyAccount i) (put_account i (acct_set_public acct token new) L))"

definition token_lookup :: "'g ledger \<Rightarrow> bytes \<Rightarrow> token_meta option" where
  "token_lookup L ticker = do {
     norm \<leftarrow> normalize_ticker ticker;
     i \<leftarrow> fmlookup (l_tickers L) norm;
     token_by_id L i }"

definition token_count :: "'g ledger \<Rightarrow> nat" where
  "token_count L = fcard (fmdom (l_tickers L))"

definition contract_storage :: "'g ledger \<Rightarrow> id32 \<Rightarrow> u64 \<Rightarrow> u64" where
  "contract_storage L c key =
     (case get_contract L c of
        Some k \<Rightarrow> (case fmlookup (con_storage k) key of Some v \<Rightarrow> v | None \<Rightarrow> 0)
      | None \<Rightarrow> 0)"

definition register :: "id32 \<Rightarrow> 'g ledger \<Rightarrow> ledger_error + 'g ledger" where
  "register i L =
    (if is_registered L i then Inl AlreadyRegistered
     else Inr (mark (DirtyAccount i) (put_account i account_default L)))"

definition reward_miner ::
  "('g::{plus,zero}, 's, 'r) prims \<Rightarrow> id32 \<Rightarrow> u32 \<Rightarrow> u64 \<Rightarrow> 'g ledger \<Rightarrow> 'g ledger" where
  "reward_miner P miner token amount L =
    (if amount = 0 then L
     else
       let acct = account_or_default L miner;
           new = ct_add (acct_balance acct token) (ct_mint P amount) in
       mark (DirtyAccount miner) (put_account miner (acct_set acct token new) L))"

definition credit_genesis ::
  "('g::{plus,zero}, 's, 'r) prims \<Rightarrow> id32 \<Rightarrow> u64 \<Rightarrow> 'g ledger \<Rightarrow> ledger_error + 'g ledger" where
  "credit_genesis P i amount L =
     try_then (ok_or (get_account L i) ReceiverNotRegistered) (\<lambda>acct.
     let new = ct_add (acct_balance acct LAT_TOKEN) (ct_mint P amount) in
     Inr (mark (DirtyAccount i) (put_account i (acct_set acct LAT_TOKEN new) L)))"

text \<open>
  \<^verbatim>\<open>validator_set\<close>: the eligible validators by stake descending, then id ascending, capped.
\<close>

definition val_before :: "id32 \<times> u64 \<Rightarrow> id32 \<times> u64 \<Rightarrow> bool" where
  "val_before a b \<longleftrightarrow> snd b < snd a \<or> (snd a = snd b \<and> fst a < fst b)"

definition val_rank :: "id32 \<times> u64 \<Rightarrow> nat \<times> nat" where
  "val_rank v = (2 ^ 64 - unat (snd v), unat (fst v))"

definition eligible :: "validator \<Rightarrow> bool" where
  "eligible v \<longleftrightarrow> \<not> val_tombstoned v \<and> val_staked v \<ge> MIN_VALIDATOR_STAKE"

definition eligible_validators :: "'g ledger \<Rightarrow> (id32 \<times> u64) list" where
  "eligible_validators L =
     map (\<lambda>i. (i, val_staked (the (get_validator L i))))
       (filter (\<lambda>i. eligible (the (get_validator L i))) (sorted_list_of_fset (fmdom (l_validators L))))"

fun insert_val :: "id32 \<times> u64 \<Rightarrow> (id32 \<times> u64) list \<Rightarrow> (id32 \<times> u64) list" where
  "insert_val v [] = [v]"
| "insert_val v (w # ws) = (if val_before v w then v # w # ws else w # insert_val v ws)"

definition sort_vals :: "(id32 \<times> u64) list \<Rightarrow> (id32 \<times> u64) list" where
  "sort_vals vs = foldr insert_val vs []"

definition validator_set :: "'g ledger \<Rightarrow> (id32 \<times> u64) list" where
  "validator_set L = take (l_max_validators L) (sort_vals (eligible_validators L))"

text \<open>\<^verbatim>\<open>set_max_validators\<close>; \<^verbatim>\<open>assert!(n > 0)\<close> panics.\<close>

definition set_max_validators :: "nat \<Rightarrow> 'g ledger \<Rightarrow> panic + 'g ledger" where
  "set_max_validators n L = (if n = 0 then Inl Panic else Inr (L\<lparr>l_max_validators := n\<rparr>))"

definition ring_candidates :: "'g ledger \<Rightarrow> u32 \<Rightarrow> (id32 \<times> 'g ciphertext) list" where
  "ring_candidates L token =
     List.map_filter (\<lambda>i. case get_account L i of
         Some a \<Rightarrow> map_option (\<lambda>ct. (i, ct)) (fmlookup (acc_balances a) token)
       | None \<Rightarrow> None)
       (sorted_list_of_fset (fmdom (l_accounts L)))"

end
