(* ===== verification/Ledger_Apply.thy ===== *)
theory Ledger_Apply
  imports Ledger
begin

text \<open>
  The transaction handlers of \<^verbatim>\<open>lat-state/src/lib.rs\<close>: one definition per arm of \<^verbatim>\<open>apply_inner\<close>,
  in the order of the source, then \<open>apply_inner\<close> itself, \<open>dirty_keys_for\<close> and \<open>apply_at_with\<close>.

  An arm returns the error or the new ledger. Only \<open>AddLiquidity\<close> can fail after it has written,
  so \<open>apply_inner\<close> returns the error, if any, and the ledger as it is then.
\<close>

section \<open>Shared steps\<close>

datatype 'g proof_pass = PassAnon | PassAgainstBalance "'g ciphertext"

function isqrt_loop :: "u128 \<Rightarrow> u128 \<Rightarrow> u128 \<Rightarrow> u128" where
  "isqrt_loop n x y = (if y < x then isqrt_loop n y ((y + n div y) div 2) else x)"
  by pat_completeness auto

termination
  by (relation "measure (\<lambda>(n, x, y). unat x)") (auto simp: word_less_nat_alt)

declare isqrt_loop.simps [simp del]

definition isqrt :: "u128 \<Rightarrow> u64" where
  "isqrt n = (if n = 0 then 0 else ucast (isqrt_loop n n (div_ceil n 2)))"

definition check_sig ::
  "('g::ab_group_add, 's, 'r) prims \<Rightarrow> id32 \<Rightarrow> ('g, 's, 'r) transaction \<Rightarrow> arr64 \<Rightarrow> ledger_error + unit" where
  "check_sig P i tx sg =
     try_then (ok_or (pk_from_bytes P i) BadSignature) (\<lambda>pk.
     try_then (ok_or (sig_from_bytes P (be_bytes 64 sg)) BadSignature) (\<lambda>s.
     if schnorr_verify P pk (signing_bytes P tx) s then Inr () else Inl BadSignature))"

text \<open>\<^verbatim>\<open>if let Some(mut a) = self.account(id) { ...; self.put_account(id, a) }\<close>\<close>

definition update_account :: "id32 \<Rightarrow> ('g account \<Rightarrow> 'g account) \<Rightarrow> 'g ledger \<Rightarrow> 'g ledger" where
  "update_account i f L = (case get_account L i of Some a \<Rightarrow> put_account i (f a) L | None \<Rightarrow> L)"

definition bump_nonce :: "'g account \<Rightarrow> 'g account" where
  "bump_nonce a = a\<lparr>acc_nonce := acc_nonce a + 1\<rparr>"

text \<open>Debit a public balance by an amount that was checked to be there.\<close>

definition debit_public :: "u32 \<Rightarrow> u64 \<Rightarrow> 'g account \<Rightarrow> 'g account" where
  "debit_public token amount a = acct_set_public a token (acct_public a token - amount)"

definition add_public :: "u32 \<Rightarrow> u64 \<Rightarrow> 'g account \<Rightarrow> 'g account" where
  "add_public token amount a = acct_set_public a token (saturating_add (acct_public a token) amount)"

definition add_pending :: "u32 \<Rightarrow> 'g::{plus,zero} ciphertext \<Rightarrow> 'g account \<Rightarrow> 'g account" where
  "add_pending token ct a = acct_set_pending a token (ct_add (acct_pending a token) ct)"

text \<open>The confidential debit of \<^verbatim>\<open>SolventTransfer\<close> and \<^verbatim>\<open>Unshield\<close>: amount, fee, nonce.\<close>

definition debit_confidential ::
  "('g::ab_group_add, 's, 'r) prims \<Rightarrow> u32 \<Rightarrow> ('g, 's, 'r) solvent_transfer \<Rightarrow> 'g account \<Rightarrow> 'g account" where
  "debit_confidential P token xfer s =
    (let new1 = ct_sub (acct_balance s token) (sender_ciphertext xfer);
         new = (if st_fee xfer > 0 then ct_sub new1 (ct_mint P (st_fee xfer)) else new1) in
     bump_nonce (acct_set s token new))"

section \<open>The arms\<close>

definition apply_create_token ::
  "('g::ab_group_add, 's, 'r) prims \<Rightarrow> bytes \<Rightarrow> id32 \<Rightarrow> u64 \<Rightarrow> arr64 \<Rightarrow> ('g, 's, 'r) transaction \<Rightarrow>
   'g ledger \<Rightarrow> ledger_error + 'g ledger" where
  "apply_create_token P ticker creator amount sg tx L =
     try_then (check_sig P creator tx sg) (\<lambda>_.
     try_then (ok_or (normalize_ticker ticker) InvalidTicker) (\<lambda>norm.
     if ticker_taken L norm then Inl TickerTaken
     else try_then (ok_or (get_account L creator) CreatorNotRegistered) (\<lambda>acct.
       if acct_public acct LAT_TOKEN < FLAT_TX_FEE then Inl InsufficientPublicBalance
       else
         let acct1 = acct_set_public acct LAT_TOKEN (acct_public acct LAT_TOKEN - FLAT_TX_FEE);
             i = l_next_token_id L;
             L1 = L\<lparr>l_next_token_id := l_next_token_id L + 1\<rparr>;
             L2 = put_token \<lparr>tm_id = i, tm_ticker = norm, tm_creator = creator, tm_supply = amount\<rparr> L1;
             new = ct_add (acct_balance acct1 i) (ct_mint P amount) in
         Inr (put_account creator (acct_set acct1 i new) L2))))"

text \<open>
  \<open>pre\<close> is the evidence of the parallel pre-pass; it counts only for the ciphertext it names.
\<close>

definition preverified_against :: "'g proof_pass option \<Rightarrow> 'g ciphertext \<Rightarrow> bool" where
  "preverified_against pre bal = (case pre of Some (PassAgainstBalance b) \<Rightarrow> b = bal | _ \<Rightarrow> False)"

definition apply_solvent_transfer ::
  "('g::ab_group_add, 's, 'r) prims \<Rightarrow> 'g proof_pass option \<Rightarrow> u32 \<Rightarrow> ('g, 's, 'r) solvent_transfer \<Rightarrow>
   'g ledger \<Rightarrow> ledger_error + 'g ledger" where
  "apply_solvent_transfer P pre token xfer L =
    (let sender_id = pk_to_bytes P (st_sender xfer); receiver_id = pk_to_bytes P (st_receiver xfer) in
     try_then (ok_or (get_account L sender_id) SenderNotRegistered) (\<lambda>a.
     let sender_bal = acct_balance a token in
     if st_nonce xfer \<noteq> acc_nonce a then Inl BadNonce
     else if \<not> preverified_against pre sender_bal \<and> \<not> solvent_verify P token sender_bal xfer then Inl InvalidProof
     else if \<not> is_registered L receiver_id then Inl ReceiverNotRegistered
     else
       let L1 = update_account sender_id (debit_confidential P token xfer) L in
       Inr (update_account receiver_id (add_pending token (receiver_ciphertext xfer)) L1)))"

text \<open>Rollover merges the pending tokens one by one; they are independent of each other.\<close>

definition merge_pending :: "'g::{plus,zero} account \<Rightarrow> u32 \<Rightarrow> 'g account" where
  "merge_pending a token =
    (let merged = ct_add (acct_balance a token) (acct_pending a token) in
     acct_set_pending (acct_set a token merged) token ct_zero)"

definition apply_rollover ::
  "('g::ab_group_add, 's, 'r) prims \<Rightarrow> id32 \<Rightarrow> u64 \<Rightarrow> arr64 \<Rightarrow> ('g, 's, 'r) transaction \<Rightarrow>
   'g ledger \<Rightarrow> ledger_error + 'g ledger" where
  "apply_rollover P account nonce sg tx L =
     try_then (check_sig P account tx sg) (\<lambda>_.
     try_then (ok_or (get_account L account) SenderNotRegistered) (\<lambda>acct.
     if nonce \<noteq> acc_nonce acct then Inl BadNonce
     else
       let tokens = sorted_list_of_fset (fmdom (acc_pending acct));
           acct1 = foldl merge_pending acct tokens in
       Inr (put_account account (bump_nonce acct1) L)))"

definition apply_deploy ::
  "('g::ab_group_add, 's, 'r) prims \<Rightarrow> id32 \<Rightarrow> bytes \<Rightarrow> arr64 \<Rightarrow> ('g, 's, 'r) transaction \<Rightarrow>
   'g ledger \<Rightarrow> ledger_error + 'g ledger" where
  "apply_deploy P deployer code sg tx L =
     try_then (check_sig P deployer tx sg) (\<lambda>_.
     try_then (ok_or (get_account L deployer) SenderNotRegistered) (\<lambda>acct.
     if acct_public acct LAT_TOKEN < FLAT_TX_FEE then Inl InsufficientPublicBalance
     else
       let i = contract_id (blake3 P) deployer code in
       if has_contract L i then Inl ContractExists
       else
         let L1 = put_account deployer (debit_public LAT_TOKEN FLAT_TX_FEE acct) L in
         Inr (put_contract i \<lparr>con_code = code, con_storage = fmempty\<rparr> L1)))"

definition apply_call ::
  "('g::ab_group_add, 's, 'r) prims \<Rightarrow> id32 \<Rightarrow> id32 \<Rightarrow> u64 \<Rightarrow> u64 \<Rightarrow> arr64 \<Rightarrow> ('g, 's, 'r) transaction \<Rightarrow>
   'g ledger \<Rightarrow> ledger_error + 'g ledger" where
  "apply_call P contract caller inp nonce sg tx L =
     try_then (check_sig P caller tx sg) (\<lambda>_.
     try_then (ok_or (get_account L caller) SenderNotRegistered) (\<lambda>caller_acct.
     if nonce \<noteq> acc_nonce caller_acct then Inl BadNonce
     else try_then (ok_or (get_contract L contract) NoSuchContract) (\<lambda>c.
       if acct_public caller_acct LAT_TOKEN < FLAT_TX_FEE then Inl InsufficientPublicBalance
       else (case execute (con_code c) (con_storage c) caller inp DEFAULT_GAS of
           (Some _, _) \<Rightarrow> Inl ContractFailed
         | (None, st) \<Rightarrow>
             let L1 = put_contract contract (c\<lparr>con_storage := st\<rparr>) L in
             Inr (update_account caller (\<lambda>a. bump_nonce (debit_public LAT_TOKEN FLAT_TX_FEE a)) L1)))))"

definition apply_public_transfer ::
  "('g::ab_group_add, 's, 'r) prims \<Rightarrow> u32 \<Rightarrow> id32 \<Rightarrow> id32 \<Rightarrow> u64 \<Rightarrow> u64 \<Rightarrow> u64 \<Rightarrow> arr64 \<Rightarrow>
   ('g, 's, 'r) transaction \<Rightarrow> 'g ledger \<Rightarrow> ledger_error + 'g ledger" where
  "apply_public_transfer P token sender recipient amount fee nonce sg tx L =
     try_then (check_sig P sender tx sg) (\<lambda>_.
     try_then (ok_or (get_account L sender) SenderNotRegistered) (\<lambda>a.
     if nonce \<noteq> acc_nonce a then Inl BadNonce
     else if \<not> is_registered L recipient then Inl ReceiverNotRegistered
     else try_then (ok_or (checked_add amount fee) InsufficientPublicBalance) (\<lambda>total.
       if acct_public a token < total then Inl InsufficientPublicBalance
       else
         let L1 = update_account sender (\<lambda>s. bump_nonce (debit_public token total s)) L in
         Inr (update_account recipient (add_public token amount) L1))))"

definition apply_shield ::
  "('g::ab_group_add, 's, 'r) prims \<Rightarrow> u32 \<Rightarrow> id32 \<Rightarrow> id32 \<Rightarrow> u64 \<Rightarrow> u64 \<Rightarrow> u64 \<Rightarrow> arr64 \<Rightarrow>
   ('g, 's, 'r) transaction \<Rightarrow> 'g ledger \<Rightarrow> ledger_error + 'g ledger" where
  "apply_shield P token sender recipient amount fee nonce sg tx L =
     try_then (check_sig P sender tx sg) (\<lambda>_.
     try_then (ok_or (get_account L sender) SenderNotRegistered) (\<lambda>a.
     if nonce \<noteq> acc_nonce a then Inl BadNonce
     else if \<not> is_registered L recipient then Inl ReceiverNotRegistered
     else try_then (ok_or (checked_add amount fee) InsufficientPublicBalance) (\<lambda>total.
       if acct_public a token < total then Inl InsufficientPublicBalance
       else
         let L1 = update_account sender (\<lambda>s. bump_nonce (debit_public token total s)) L in
         Inr (update_account recipient (add_pending token (ct_mint P amount)) L1))))"

definition apply_unshield ::
  "('g::ab_group_add, 's, 'r) prims \<Rightarrow> 'g proof_pass option \<Rightarrow> u32 \<Rightarrow> id32 \<Rightarrow> u64 \<Rightarrow>
   ('g, 's, 'r) solvent_transfer \<Rightarrow> arr64 \<Rightarrow> ('g, 's, 'r) transaction \<Rightarrow> 'g ledger \<Rightarrow> ledger_error + 'g ledger" where
  "apply_unshield P pre token recipient amount xfer sg tx L =
    (let sender_id = pk_to_bytes P (st_sender xfer) in
     try_then (check_sig P sender_id tx sg) (\<lambda>_.
     if st_receiver xfer \<noteq> unshield_view_key P then Inl WrongUnshieldReceiver
     else try_then (ok_or (get_account L sender_id) SenderNotRegistered) (\<lambda>a.
       let sender_bal = acct_balance a token in
       if st_nonce xfer \<noteq> acc_nonce a then Inl BadNonce
       else if \<not> preverified_against pre sender_bal \<and> \<not> solvent_verify P token sender_bal xfer then Inl InvalidProof
       else if \<not> unshield_reveals P (receiver_ciphertext xfer) amount then Inl UnshieldAmountMismatch
       else if \<not> is_registered L recipient then Inl ReceiverNotRegistered
       else
         let L1 = update_account sender_id (debit_confidential P token xfer) L in
         Inr (credit_public recipient token amount L1))))"

definition apply_shield_stealth ::
  "('g::ab_group_add, 's, 'r) prims \<Rightarrow> u32 \<Rightarrow> id32 \<Rightarrow> id32 \<Rightarrow> u64 \<Rightarrow> u64 \<Rightarrow> u64 \<Rightarrow> arr64 \<Rightarrow>
   ('g, 's, 'r) transaction \<Rightarrow> 'g ledger \<Rightarrow> ledger_error + 'g ledger" where
  "apply_shield_stealth P token sender one_time amount fee nonce sg tx L =
     try_then (check_sig P sender tx sg) (\<lambda>_.
     try_then (ok_or (get_account L sender) SenderNotRegistered) (\<lambda>a.
     if nonce \<noteq> acc_nonce a then Inl BadNonce
     else try_then (ok_or (checked_add amount fee) InsufficientPublicBalance) (\<lambda>total.
       if acct_public a token < total then Inl InsufficientPublicBalance
       else
         let L1 = update_account sender (\<lambda>s. bump_nonce (debit_public token total s)) L;
             r = account_or_default L1 one_time in
         Inr (put_account one_time (add_pending token (ct_mint P amount) r) L1))))"

fun check_ring ::
  "('g::ab_group_add, 's, 'r) prims \<Rightarrow> 'g ledger \<Rightarrow> u32 \<Rightarrow> id32 fset \<Rightarrow> ('g \<times> 'g ciphertext) list \<Rightarrow>
   ledger_error + unit" where
  "check_ring P L token seen [] = Inr ()"
| "check_ring P L token seen ((member, claimed) # rest) =
    (let i = pk_to_bytes P member in
     if i |\<in>| seen then Inl BadRing
     else try_then (ok_or (get_account L i) BadRing) (\<lambda>acct.
       if acct_balance acct token \<noteq> claimed then Inl StaleRingBalance
       else check_ring P L token (finsert i seen) rest))"

definition debit_member ::
  "('g::ab_group_add, 's, 'r) prims \<Rightarrow> u32 \<Rightarrow> 'g ledger \<Rightarrow> 'g \<times> 'g ciphertext \<Rightarrow> 'g ledger" where
  "debit_member P token L md =
     update_account (pk_to_bytes P (fst md))
       (\<lambda>a. acct_set a token (ct_sub (acct_balance a token) (snd md))) L"

definition apply_anon_transfer ::
  "('g::ab_group_add, 's::comm_ring_1, 'r) prims \<Rightarrow> 'g proof_pass option \<Rightarrow> u64 \<Rightarrow> u32 \<Rightarrow>
   ('g, 's, 'r) anon_transfer \<Rightarrow> 'g ledger \<Rightarrow> ledger_error + 'g ledger" where
  "apply_anon_transfer P pre height token xfer L =
    (if at_epoch xfer \<noteq> epoch_of height then Inl WrongEpoch
     else
       let nf = anon_nullifier P xfer in
       if nullifier_seen L nf then Inl NullifierSeen
       else
         let n = length (at_ring xfer) in
         if length (at_balances xfer) \<noteq> n \<or> length (at_enc xfer) \<noteq> n then Inl BadRing
         else try_then (check_ring P L token {||} (zip (at_ring xfer) (at_balances xfer))) (\<lambda>_.
           if pre \<noteq> Some PassAnon \<and> \<not> anon_verify P token xfer then Inl InvalidProof
           else
             let L1 = foldl (debit_member P token) L (zip (at_ring xfer) (at_enc xfer));
                 one_time = pk_to_bytes P (so_one_time (at_output xfer));
                 r = account_or_default L1 one_time;
                 L2 = put_account one_time (add_pending token (at_credit xfer) r) L1 in
             Inr (insert_nullifier nf L2)))"

definition apply_stake ::
  "('g::ab_group_add, 's, 'r) prims \<Rightarrow> u64 \<Rightarrow> id32 \<Rightarrow> u64 \<Rightarrow> u64 \<Rightarrow> arr64 \<Rightarrow> ('g, 's, 'r) transaction \<Rightarrow>
   'g ledger \<Rightarrow> ledger_error + 'g ledger" where
  "apply_stake P height vid amount nonce sg tx L =
     try_then (check_sig P vid tx sg) (\<lambda>_.
     try_then (ok_or (get_account L vid) SenderNotRegistered) (\<lambda>acct.
     if nonce \<noteq> acc_nonce acct then Inl BadNonce
     else
       let (released, v) = release_matured (validator_or_default L vid) height;
           available = saturating_add (acct_public acct LAT_TOKEN) released in
       if available < amount then Inl InsufficientPublicBalance
       else
         let acct1 = bump_nonce (acct_set_public acct LAT_TOKEN (available - amount));
             v1 = v\<lparr>val_staked := saturating_add (val_staked v) amount\<rparr> in
         Inr (put_validator vid v1 (put_account vid acct1 L))))"

definition apply_unstake ::
  "('g::ab_group_add, 's, 'r) prims \<Rightarrow> u64 \<Rightarrow> id32 \<Rightarrow> u64 \<Rightarrow> u64 \<Rightarrow> arr64 \<Rightarrow> ('g, 's, 'r) transaction \<Rightarrow>
   'g ledger \<Rightarrow> ledger_error + 'g ledger" where
  "apply_unstake P height vid amount nonce sg tx L =
     try_then (check_sig P vid tx sg) (\<lambda>_.
     try_then (ok_or (get_account L vid) SenderNotRegistered) (\<lambda>acct.
     if nonce \<noteq> acc_nonce acct then Inl BadNonce
     else
       let (released, v) = release_matured (validator_or_default L vid) height in
       if val_staked v < amount then Inl InsufficientStake
       else
         let v1 = v\<lparr>val_staked := val_staked v - amount\<rparr>;
             v2 = (if amount > 0 then
                     v1\<lparr>val_unbonding := val_unbonding v1 @ [(amount, height + UNBONDING_BLOCKS)]\<rparr>
                   else v1);
             acct1 = bump_nonce (acct_set_public acct LAT_TOKEN
                       (saturating_add (acct_public acct LAT_TOKEN) released)) in
         Inr (put_validator vid v2 (put_account vid acct1 L))))"

text \<open>The \<^verbatim>\<open>while remaining > 0\<close> loop over the unbonding entries.\<close>

fun slash_unbonding :: "u64 \<Rightarrow> (u64 \<times> u64) list \<Rightarrow> (u64 \<times> u64) list" where
  "slash_unbonding remaining [] = []"
| "slash_unbonding remaining ((amount, release) # rest) =
    (if remaining > 0 then
       let t = min remaining amount in (amount - t, release) # slash_unbonding (remaining - t) rest
     else (amount, release) # rest)"

definition slash_total :: "validator \<Rightarrow> u64" where
  "slash_total v = saturating_add (val_staked v) (sum_list (map fst (val_unbonding v)))"

definition slash_amount :: "u64 \<Rightarrow> u64" where
  "slash_amount tot = max (ucast ((ucast tot * ucast SLASH_FRACTION_BPS :: u128) div 10000)) 1"

definition slash_validator :: "u64 \<Rightarrow> validator \<Rightarrow> validator" where
  "slash_validator slashed v =
    (let from_bonded = min slashed (val_staked v);
         remaining = slashed - from_bonded in
     v\<lparr>val_staked := val_staked v - from_bonded,
       val_unbonding := filter (\<lambda>(a, _). a > 0) (slash_unbonding remaining (val_unbonding v)),
       val_tombstoned := True\<rparr>)"

definition check_evidence ::
  "('g::ab_group_add, 's, 'r) prims \<Rightarrow> 'g \<Rightarrow> u64 \<Rightarrow> id32 \<Rightarrow> arr64 \<Rightarrow> ledger_error + unit" where
  "check_evidence P pk vote_height block sg =
     try_then (ok_or (sig_from_bytes P (be_bytes 64 sg)) BadEvidence) (\<lambda>s.
     if schnorr_verify P pk (finality_vote_signing_bytes block vote_height) s then Inr ()
     else Inl BadEvidence)"

definition apply_slash ::
  "('g::ab_group_add, 's, 'r) prims \<Rightarrow> id32 \<Rightarrow> id32 \<Rightarrow> u64 \<Rightarrow> id32 \<Rightarrow> arr64 \<Rightarrow> id32 \<Rightarrow> arr64 \<Rightarrow>
   'g ledger \<Rightarrow> ledger_error + 'g ledger" where
  "apply_slash P vid beneficiary vote_height block_a sig_a block_b sig_b L =
    (if block_a = block_b then Inl BadEvidence
     else try_then (ok_or (pk_from_bytes P vid) BadEvidence) (\<lambda>pk.
       try_then (check_evidence P pk vote_height block_a sig_a) (\<lambda>_.
       try_then (check_evidence P pk vote_height block_b sig_b) (\<lambda>_.
       let v = validator_or_default L vid in
       if val_tombstoned v then Inl NothingToSlash
       else
         let tot = slash_total v in
         if tot = 0 then Inl NothingToSlash
         else
           let slashed = slash_amount tot;
               L1 = put_validator vid (slash_validator slashed v) L;
               reward = ucast ((ucast slashed * ucast SLASH_REWARD_BPS :: u128) div 10000) :: u64 in
           Inr (if reward > 0 then update_account beneficiary (add_public LAT_TOKEN reward) L1 else L1)))))"

subsection \<open>Pools and curves\<close>

text \<open>\<open>pool_deposit\<close> is the \<^verbatim>\<open>match self.pool(*token)\<close> of \<open>AddLiquidity\<close>: pool, token leg, shares.\<close>

definition pool_deposit ::
  "'g ledger \<Rightarrow> u32 \<Rightarrow> u64 \<Rightarrow> u64 \<Rightarrow> ledger_error + (pool \<times> u64 \<times> u64)" where
  "pool_deposit L token lat_amount tok_amount =
    (case get_pool L token of
       None \<Rightarrow>
         let lp0 = isqrt (ucast lat_amount * ucast tok_amount) in
         if lp0 \<le> MIN_POOL_LIQUIDITY then Inl InsufficientLiquidity
         else Inr (\<lparr>pool_token = token, pool_lat = lat_amount, pool_tok = tok_amount, pool_lp_supply = lp0\<rparr>,
                   tok_amount, lp0 - MIN_POOL_LIQUIDITY)
     | Some p \<Rightarrow>
         if pool_lat p = 0 then Inl LedgerPanic
         else
           let needed = div_ceil (ucast lat_amount * ucast (pool_tok p) :: u128) (ucast (pool_lat p)) in
           if unat needed \<ge> 2 ^ 64 then Inl InsufficientLiquidity
           else
             let tok_needed = ucast needed :: u64 in
             if tok_needed > tok_amount then Inl SlippageExceeded
             else
               let minted = ucast ((ucast lat_amount * ucast (pool_lp_supply p) :: u128)
                              div ucast (pool_lat p)) :: u64 in
               if minted = 0 \<or> tok_needed = 0 then Inl InsufficientLiquidity
               else try_then (ok_or (checked_add (pool_lat p) lat_amount) InsufficientLiquidity) (\<lambda>lat1.
                 try_then (ok_or (checked_add (pool_tok p) tok_needed) InsufficientLiquidity) (\<lambda>tok1.
                 try_then (ok_or (checked_add (pool_lp_supply p) minted) InsufficientLiquidity) (\<lambda>lp1.
                 Inr (p\<lparr>pool_lat := lat1, pool_tok := tok1, pool_lp_supply := lp1\<rparr>, tok_needed, minted)))))"

text \<open>
  The arm up to the account write, which the overflow check of the shares follows; so the ledger
  of a failure of that check has the account debited.
\<close>

definition apply_add_liquidity ::
  "('g::ab_group_add, 's, 'r) prims \<Rightarrow> u32 \<Rightarrow> id32 \<Rightarrow> u64 \<Rightarrow> u64 \<Rightarrow> u64 \<Rightarrow> u64 \<Rightarrow> arr64 \<Rightarrow>
   ('g, 's, 'r) transaction \<Rightarrow> 'g ledger \<Rightarrow> ledger_error option \<times> 'g ledger" where
  "apply_add_liquidity P token provider lat_amount tok_amount fee nonce sg tx L =
    (case try_then (check_sig P provider tx sg) (\<lambda>_.
       if token = LAT_TOKEN \<or> token_by_id L token = None then Inl BadPoolToken
       else if lat_amount = 0 \<or> tok_amount = 0 then Inl ZeroAmount
       else try_then (ok_or (get_account L provider) SenderNotRegistered) (\<lambda>acct.
       if nonce \<noteq> acc_nonce acct then Inl BadNonce
       else try_then (pool_deposit L token lat_amount tok_amount) (\<lambda>(pool, tok_used, minted).
       try_then (ok_or (checked_add lat_amount fee) InsufficientPublicBalance) (\<lambda>lat_total.
       if acct_public acct LAT_TOKEN < lat_total \<or> acct_public acct token < tok_used
       then Inl InsufficientPublicBalance
       else Inr (pool, minted, put_account provider
              (bump_nonce (debit_public token tok_used (debit_public LAT_TOKEN lat_total acct))) L))))) of
       Inl e \<Rightarrow> (Some e, L)
     | Inr (pool, minted, L1) \<Rightarrow>
         (case checked_add (lp_shares L1 token provider) minted of
            None \<Rightarrow> (Some InsufficientLiquidity, L1)
          | Some shares \<Rightarrow> (None, put_pool pool (put_lp token provider shares L1))))"

definition apply_remove_liquidity ::
  "('g::ab_group_add, 's, 'r) prims \<Rightarrow> u32 \<Rightarrow> id32 \<Rightarrow> u64 \<Rightarrow> u64 \<Rightarrow> u64 \<Rightarrow> arr64 \<Rightarrow>
   ('g, 's, 'r) transaction \<Rightarrow> 'g ledger \<Rightarrow> ledger_error + 'g ledger" where
  "apply_remove_liquidity P token provider lp_amount fee nonce sg tx L =
     try_then (check_sig P provider tx sg) (\<lambda>_.
     if lp_amount = 0 then Inl ZeroAmount
     else try_then (ok_or (get_account L provider) SenderNotRegistered) (\<lambda>acct.
     if nonce \<noteq> acc_nonce acct then Inl BadNonce
     else try_then (ok_or (get_pool L token) PoolNotFound) (\<lambda>p.
       let shares = lp_shares L token provider in
       if shares < lp_amount then Inl InsufficientLiquidity
       else if pool_lp_supply p = 0 then Inl LedgerPanic
       else
         let lat_out = ucast ((ucast lp_amount * ucast (pool_lat p) :: u128) div ucast (pool_lp_supply p)) :: u64;
             tok_out = ucast ((ucast lp_amount * ucast (pool_tok p) :: u128) div ucast (pool_lp_supply p)) :: u64 in
         if lat_out = 0 \<and> tok_out = 0 then Inl InsufficientLiquidity
         else if acct_public acct LAT_TOKEN < fee then Inl InsufficientPublicBalance
         else
           let acct1 = bump_nonce (debit_public LAT_TOKEN fee acct);
               p1 = p\<lparr>pool_lat := pool_lat p - lat_out, pool_tok := pool_tok p - tok_out,
                      pool_lp_supply := pool_lp_supply p - lp_amount\<rparr>;
               acct2 = add_public token tok_out (add_public LAT_TOKEN lat_out acct1) in
           Inr (put_pool p1 (put_lp token provider (shares - lp_amount) (put_account provider acct2 L))))))"

definition swap_out :: "u64 \<Rightarrow> u64 \<Rightarrow> u64 \<Rightarrow> u64" where
  "swap_out r_in r_out amount_in =
    (let in_after_fee = ucast amount_in * ucast (10000 - SWAP_FEE_BPS) :: u128 in
     ucast (in_after_fee * ucast r_out div (ucast r_in * 10000 + in_after_fee)))"

definition apply_swap ::
  "('g::ab_group_add, 's, 'r) prims \<Rightarrow> u32 \<Rightarrow> id32 \<Rightarrow> bool \<Rightarrow> u64 \<Rightarrow> u64 \<Rightarrow> u64 \<Rightarrow> u64 \<Rightarrow> arr64 \<Rightarrow>
   ('g, 's, 'r) transaction \<Rightarrow> 'g ledger \<Rightarrow> ledger_error + 'g ledger" where
  "apply_swap P token trader lat_in amount_in min_out fee nonce sg tx L =
     try_then (check_sig P trader tx sg) (\<lambda>_.
     if amount_in = 0 then Inl ZeroAmount
     else try_then (ok_or (get_account L trader) SenderNotRegistered) (\<lambda>acct.
     if nonce \<noteq> acc_nonce acct then Inl BadNonce
     else try_then (ok_or (get_pool L token) PoolNotFound) (\<lambda>p.
       let (r_in, r_out) = (if lat_in then (pool_lat p, pool_tok p) else (pool_tok p, pool_lat p));
           out = swap_out r_in r_out amount_in in
       if out = 0 \<or> out < min_out then Inl SlippageExceeded
       else try_then (ok_or (checked_add r_in amount_in) InsufficientLiquidity) (\<lambda>new_r_in.
         let out_token = (if lat_in then token else LAT_TOKEN) in
         try_then (if lat_in then ok_or (checked_add amount_in fee) InsufficientPublicBalance
                   else Inr fee) (\<lambda>lat_debit.
         let tok_debit = (if lat_in then 0 else amount_in) in
         if acct_public acct LAT_TOKEN < lat_debit \<or> acct_public acct token < tok_debit
         then Inl InsufficientPublicBalance
         else
           let acct1 = debit_public LAT_TOKEN lat_debit acct;
               acct2 = (if lat_in then acct1 else debit_public token tok_debit acct1);
               acct3 = bump_nonce (add_public out_token out acct2);
               p1 = (if lat_in then p\<lparr>pool_lat := new_r_in, pool_tok := r_out - out\<rparr>
                     else p\<lparr>pool_tok := new_r_in, pool_lat := r_out - out\<rparr>) in
           Inr (put_pool p1 (put_account trader acct3 L)))))))"

text \<open>The two branches of \<open>CurveTrade\<close>, from the trader's account and the opened curve.\<close>

definition curve_trade_buy ::
  "u32 \<Rightarrow> id32 \<Rightarrow> id32 \<Rightarrow> u64 \<Rightarrow> u64 \<Rightarrow> u64 \<Rightarrow> 'g account \<Rightarrow> curve \<Rightarrow> 'g ledger \<Rightarrow> ledger_error + 'g ledger" where
  "curve_trade_buy token trader creator amount min_out fee acct math L =
    (case apply_buy math amount of
       Inl Panic \<Rightarrow> Inl LedgerPanic
     | Inr None \<Rightarrow> Inl SlippageExceeded
     | Inr (Some (fill, math1)) \<Rightarrow>
         if fill_out fill = 0 \<or> fill_out fill < min_out then Inl SlippageExceeded
         else try_then (ok_or (checked_add amount fee) InsufficientPublicBalance) (\<lambda>lat_debit.
           if acct_public acct LAT_TOKEN < lat_debit then Inl InsufficientPublicBalance
           else
             let acct1 = bump_nonce (add_public token (fill_out fill) (debit_public LAT_TOKEN lat_debit acct)) in
             Inr (put_curve (curve_from_math token math1)
                   (credit_public creator LAT_TOKEN (fill_fee fill) (put_account trader acct1 L)))))"

definition curve_trade_sell ::
  "u32 \<Rightarrow> id32 \<Rightarrow> id32 \<Rightarrow> u64 \<Rightarrow> u64 \<Rightarrow> u64 \<Rightarrow> 'g account \<Rightarrow> curve \<Rightarrow> 'g ledger \<Rightarrow> ledger_error + 'g ledger" where
  "curve_trade_sell token trader creator amount min_out fee acct math L =
    (let held = acct_public acct token in
     if held < amount then Inl InsufficientPublicBalance
     else
       (case apply_sell math amount held of
          Inl Panic \<Rightarrow> Inl LedgerPanic
        | Inr None \<Rightarrow> Inl SlippageExceeded
        | Inr (Some (fill, math1)) \<Rightarrow>
            try_then (ok_or (checked_add (fill_out fill) (fill_fee fill)) CurveInsolvent) (\<lambda>gross.
            if gross > real_lat math then Inl CurveInsolvent
            else if fill_out fill < min_out then Inl SlippageExceeded
            else if acct_public acct LAT_TOKEN < fee then Inl InsufficientPublicBalance
            else
              let acct1 = debit_public LAT_TOKEN fee acct;
                  acct2 = acct_set_public acct1 token (held - amount);
                  acct3 = bump_nonce (add_public LAT_TOKEN (fill_out fill) acct2) in
              Inr (put_curve (curve_from_math token math1)
                    (credit_public creator LAT_TOKEN (fill_fee fill) (put_account trader acct3 L))))))"

definition apply_curve_trade ::
  "('g::ab_group_add, 's, 'r) prims \<Rightarrow> u32 \<Rightarrow> id32 \<Rightarrow> bool \<Rightarrow> u64 \<Rightarrow> u64 \<Rightarrow> u64 \<Rightarrow> u64 \<Rightarrow> arr64 \<Rightarrow>
   ('g, 's, 'r) transaction \<Rightarrow> 'g ledger \<Rightarrow> ledger_error + 'g ledger" where
  "apply_curve_trade P token trader is_buy amount min_out fee nonce sg tx L =
     try_then (check_sig P trader tx sg) (\<lambda>_.
     if amount = 0 then Inl ZeroAmount
     else if token = LAT_TOKEN then Inl BadPoolToken
     else try_then (ok_or (token_by_id L token) BadPoolToken) (\<lambda>meta.
     try_then (ok_or (get_account L trader) SenderNotRegistered) (\<lambda>acct.
     if nonce \<noteq> acc_nonce acct then Inl BadNonce
     else try_then (case get_curve L token of
           Some c \<Rightarrow> Inr c
         | None \<Rightarrow> if is_buy then Inr (curve_genesis token) else Inl CurveNotFound) (\<lambda>cp.
       if cp_graduated cp then Inl CurveGraduated
       else if is_buy
       then curve_trade_buy token trader (tm_creator meta) amount min_out fee acct (curve_math cp) L
       else curve_trade_sell token trader (tm_creator meta) amount min_out fee acct (curve_math cp) L))))"

subsection \<open>Hash time-locked contracts\<close>

definition apply_htlc_lock ::
  "('g::ab_group_add, 's, 'r) prims \<Rightarrow> u64 \<Rightarrow> u32 \<Rightarrow> id32 \<Rightarrow> id32 \<Rightarrow> u64 \<Rightarrow> id32 \<Rightarrow> u64 \<Rightarrow> u64 \<Rightarrow> u64 \<Rightarrow> arr64 \<Rightarrow>
   ('g, 's, 'r) transaction \<Rightarrow> 'g ledger \<Rightarrow> ledger_error + 'g ledger" where
  "apply_htlc_lock P height token sender recipient amount hashlock expiry fee nonce sg tx L =
     try_then (check_sig P sender tx sg) (\<lambda>_.
     if amount = 0 then Inl ZeroAmount
     else if expiry \<le> height then Inl HtlcExpired
     else try_then (ok_or (get_account L sender) SenderNotRegistered) (\<lambda>acct.
     if nonce \<noteq> acc_nonce acct then Inl BadNonce
     else
       let i = htlc_id (blake3 P) token sender recipient amount hashlock expiry nonce in
       if get_htlc L i \<noteq> None then Inl HtlcExists
       else try_then (if token = LAT_TOKEN then ok_or (checked_add amount fee) InsufficientPublicBalance
                      else Inr fee) (\<lambda>lat_debit.
         let tok_debit = (if token = LAT_TOKEN then 0 else amount) in
         if acct_public acct LAT_TOKEN < lat_debit \<or> acct_public acct token < tok_debit
         then Inl InsufficientPublicBalance
         else
           let acct1 = debit_public LAT_TOKEN lat_debit acct;
               acct2 = (if token \<noteq> LAT_TOKEN then debit_public token tok_debit acct1 else acct1) in
           Inr (put_htlc i \<lparr>htlc_token = token, htlc_from = sender, htlc_to = recipient,
                  htlc_amount = amount, htlc_hashlock = hashlock, htlc_expiry = expiry\<rparr>
                 (put_account sender (bump_nonce acct2) L)))))"

definition apply_htlc_claim ::
  "('g, 's, 'r) prims \<Rightarrow> u64 \<Rightarrow> id32 \<Rightarrow> id32 \<Rightarrow> 'g ledger \<Rightarrow> ledger_error + 'g ledger" where
  "apply_htlc_claim P height i preimage L =
     try_then (ok_or (get_htlc L i) HtlcNotFound) (\<lambda>h.
     if height \<ge> htlc_expiry h then Inl HtlcExpired
     else if sha256 P (be_bytes 32 preimage) \<noteq> htlc_hashlock h then Inl BadPreimage
     else Inr (credit_public (htlc_to h) (htlc_token h) (htlc_amount h) (drop_htlc i L)))"

definition apply_htlc_refund :: "u64 \<Rightarrow> id32 \<Rightarrow> 'g ledger \<Rightarrow> ledger_error + 'g ledger" where
  "apply_htlc_refund height i L =
     try_then (ok_or (get_htlc L i) HtlcNotFound) (\<lambda>h.
     if height < htlc_expiry h then Inl HtlcNotExpired
     else Inr (credit_public (htlc_from h) (htlc_token h) (htlc_amount h) (drop_htlc i L)))"

section \<open>The dispatcher\<close>

text \<open>An arm that fails leaves the ledger as it was.\<close>

definition or_keep :: "'g ledger \<Rightarrow> ledger_error + 'g ledger \<Rightarrow> ledger_error option \<times> 'g ledger" where
  "or_keep L r = (case r of Inl e \<Rightarrow> (Some e, L) | Inr L1 \<Rightarrow> (None, L1))"

fun apply_inner ::
  "('g::ab_group_add, 's::comm_ring_1, 'r) prims \<Rightarrow> ('g, 's, 'r) transaction \<Rightarrow> u64 \<Rightarrow> 'g proof_pass option \<Rightarrow>
   'g ledger \<Rightarrow> ledger_error option \<times> 'g ledger" where
  "apply_inner P (Register pubkey pow_nonce) height pre L = or_keep L (register pubkey L)"
| "apply_inner P (CreateToken ticker creator amount sg) height pre L =
     or_keep L (apply_create_token P ticker creator amount sg (CreateToken ticker creator amount sg) L)"
| "apply_inner P (SolventTransfer token xfer) height pre L =
     or_keep L (apply_solvent_transfer P pre token xfer L)"
| "apply_inner P (Rollover account nonce sg) height pre L =
     or_keep L (apply_rollover P account nonce sg (Rollover account nonce sg) L)"
| "apply_inner P (DeployContract deployer code sg) height pre L =
     or_keep L (apply_deploy P deployer code sg (DeployContract deployer code sg) L)"
| "apply_inner P (CallContract contract caller inp nonce sg) height pre L =
     or_keep L (apply_call P contract caller inp nonce sg (CallContract contract caller inp nonce sg) L)"
| "apply_inner P (PublicTransfer token sender recipient amount fee nonce sg) height pre L =
     or_keep L (apply_public_transfer P token sender recipient amount fee nonce sg
       (PublicTransfer token sender recipient amount fee nonce sg) L)"
| "apply_inner P (Shield token sender recipient amount fee nonce sg) height pre L =
     or_keep L (apply_shield P token sender recipient amount fee nonce sg
       (Shield token sender recipient amount fee nonce sg) L)"
| "apply_inner P (Unshield token recipient amount xfer sg) height pre L =
     or_keep L (apply_unshield P pre token recipient amount xfer sg (Unshield token recipient amount xfer sg) L)"
| "apply_inner P (ShieldStealth token sender ephemeral one_time amount fee nonce sg) height pre L =
     or_keep L (apply_shield_stealth P token sender one_time amount fee nonce sg
       (ShieldStealth token sender ephemeral one_time amount fee nonce sg) L)"
| "apply_inner P (AnonTransfer token xfer) height pre L =
     or_keep L (apply_anon_transfer P pre height token xfer L)"
| "apply_inner P (Stake vid amount nonce sg) height pre L =
     or_keep L (apply_stake P height vid amount nonce sg (Stake vid amount nonce sg) L)"
| "apply_inner P (Unstake vid amount nonce sg) height pre L =
     or_keep L (apply_unstake P height vid amount nonce sg (Unstake vid amount nonce sg) L)"
| "apply_inner P (SlashEvidence vid beneficiary vote_height block_a sig_a block_b sig_b) height pre L =
     or_keep L (apply_slash P vid beneficiary vote_height block_a sig_a block_b sig_b L)"
| "apply_inner P (AddLiquidity token provider lat_amount tok_amount fee nonce sg) height pre L =
     apply_add_liquidity P token provider lat_amount tok_amount fee nonce sg
       (AddLiquidity token provider lat_amount tok_amount fee nonce sg) L"
| "apply_inner P (RemoveLiquidity token provider lp_amount fee nonce sg) height pre L =
     or_keep L (apply_remove_liquidity P token provider lp_amount fee nonce sg
       (RemoveLiquidity token provider lp_amount fee nonce sg) L)"
| "apply_inner P (transaction.Swap token trader lat_in amount_in min_out fee nonce sg) height pre L =
     or_keep L (apply_swap P token trader lat_in amount_in min_out fee nonce sg
       (transaction.Swap token trader lat_in amount_in min_out fee nonce sg) L)"
| "apply_inner P (CurveTrade token trader is_buy amount min_out fee nonce sg) height pre L =
     or_keep L (apply_curve_trade P token trader is_buy amount min_out fee nonce sg
       (CurveTrade token trader is_buy amount min_out fee nonce sg) L)"
| "apply_inner P (HtlcLock token sender recipient amount hashlock expiry fee nonce sg) height pre L =
     or_keep L (apply_htlc_lock P height token sender recipient amount hashlock expiry fee nonce sg
       (HtlcLock token sender recipient amount hashlock expiry fee nonce sg) L)"
| "apply_inner P (HtlcClaim i preimage) height pre L = or_keep L (apply_htlc_claim P height i preimage L)"
| "apply_inner P (HtlcRefund i) height pre L = or_keep L (apply_htlc_refund height i L)"

fun dirty_keys_for ::
  "('g::ab_group_add, 's::comm_ring_1, 'r) prims \<Rightarrow> 'g ledger \<Rightarrow> ('g, 's, 'r) transaction \<Rightarrow> dirty_key list" where
  "dirty_keys_for P L (Register pubkey pow_nonce) = [DirtyAccount pubkey]"
| "dirty_keys_for P L (CreateToken ticker creator amount sg) =
     [DirtyAccount creator, DirtyToken (saturating_sub (l_next_token_id L) 1), DirtyMeta]"
| "dirty_keys_for P L (SolventTransfer token xfer) =
     [DirtyAccount (pk_to_bytes P (st_sender xfer)), DirtyAccount (pk_to_bytes P (st_receiver xfer))]"
| "dirty_keys_for P L (Rollover account nonce sg) = [DirtyAccount account]"
| "dirty_keys_for P L (DeployContract deployer code sg) =
     [DirtyContract (contract_id (blake3 P) deployer code), DirtyAccount deployer]"
| "dirty_keys_for P L (CallContract contract caller inp nonce sg) =
     [DirtyContract contract, DirtyAccount caller]"
| "dirty_keys_for P L (PublicTransfer token sender recipient amount fee nonce sg) =
     [DirtyAccount sender, DirtyAccount recipient]"
| "dirty_keys_for P L (Shield token sender recipient amount fee nonce sg) =
     [DirtyAccount sender, DirtyAccount recipient]"
| "dirty_keys_for P L (Unshield token recipient amount xfer sg) =
     [DirtyAccount (pk_to_bytes P (st_sender xfer)), DirtyAccount recipient]"
| "dirty_keys_for P L (ShieldStealth token sender ephemeral one_time amount fee nonce sg) =
     [DirtyAccount sender, DirtyAccount one_time]"
| "dirty_keys_for P L (AnonTransfer token xfer) =
     map (\<lambda>m. DirtyAccount (pk_to_bytes P m)) (at_ring xfer)
     @ [DirtyAccount (pk_to_bytes P (so_one_time (at_output xfer))), DirtyNullifier (anon_nullifier P xfer)]"
| "dirty_keys_for P L (Stake vid amount nonce sg) = [DirtyAccount vid, DirtyValidator vid]"
| "dirty_keys_for P L (Unstake vid amount nonce sg) = [DirtyAccount vid, DirtyValidator vid]"
| "dirty_keys_for P L (SlashEvidence vid beneficiary vote_height block_a sig_a block_b sig_b) =
     [DirtyValidator vid]"
| "dirty_keys_for P L (AddLiquidity token provider lat_amount tok_amount fee nonce sg) =
     [DirtyAccount provider, DirtyPool token, DirtyLp token provider]"
| "dirty_keys_for P L (RemoveLiquidity token provider lp_amount fee nonce sg) =
     [DirtyAccount provider, DirtyPool token, DirtyLp token provider]"
| "dirty_keys_for P L (transaction.Swap token trader lat_in amount_in min_out fee nonce sg) =
     [DirtyAccount trader, DirtyPool token]"
| "dirty_keys_for P L (CurveTrade token trader is_buy amount min_out fee nonce sg) =
     [DirtyAccount trader, DirtyCurve token]"
| "dirty_keys_for P L (HtlcLock token sender recipient amount hashlock expiry fee nonce sg) =
     [DirtyAccount sender, DirtyHtlc (htlc_id (blake3 P) token sender recipient amount hashlock expiry nonce)]"
| "dirty_keys_for P L (HtlcClaim i preimage) = [DirtyHtlc i]"
| "dirty_keys_for P L (HtlcRefund i) = [DirtyHtlc i]"

definition apply_at_with ::
  "('g::ab_group_add, 's::comm_ring_1, 'r) prims \<Rightarrow> ('g, 's, 'r) transaction \<Rightarrow> u64 \<Rightarrow> 'g proof_pass option \<Rightarrow>
   'g ledger \<Rightarrow> ledger_error option \<times> 'g ledger" where
  "apply_at_with P tx height pre L =
    (case apply_inner P tx height pre L of
       (None, L1) \<Rightarrow> (None, mark_all (dirty_keys_for P L1 tx) L1)
     | (Some e, L1) \<Rightarrow> (Some e, L1))"

definition apply_at ::
  "('g::ab_group_add, 's::comm_ring_1, 'r) prims \<Rightarrow> ('g, 's, 'r) transaction \<Rightarrow> u64 \<Rightarrow>
   'g ledger \<Rightarrow> ledger_error option \<times> 'g ledger" where
  "apply_at P tx height L = apply_at_with P tx height None L"

definition ledger_apply ::
  "('g::ab_group_add, 's::comm_ring_1, 'r) prims \<Rightarrow> ('g, 's, 'r) transaction \<Rightarrow>
   'g ledger \<Rightarrow> ledger_error option \<times> 'g ledger" where
  "ledger_apply P tx L = apply_at P tx 0 L"

end
