(* ===== verification/Ledger_Frames.thy ===== *)
theory Ledger_Frames
  imports Ledger_Apply
begin

text \<open>
  What each write of the ledger leaves alone and what a read returns after it: the facts that the
  proofs about the handlers share.
\<close>

section \<open>Frames\<close>

text \<open> A write changes the field it is named after and no other.\<close>

lemma put_account_frame [simp]:
  "l_next_token_id (put_account i a L) = l_next_token_id L"
  "l_tokens (put_account i a L) = l_tokens L"
  "l_tickers (put_account i a L) = l_tickers L"
  "l_meta (put_account i a L) = l_meta L"
  "l_contracts (put_account i a L) = l_contracts L"
  "l_nullifiers (put_account i a L) = l_nullifiers L"
  "l_validators (put_account i a L) = l_validators L"
  "l_pools (put_account i a L) = l_pools L"
  "l_curves (put_account i a L) = l_curves L"
  "l_lps (put_account i a L) = l_lps L"
  "l_htlcs (put_account i a L) = l_htlcs L"
  "l_dirty (put_account i a L) = l_dirty L"
  "l_max_validators (put_account i a L) = l_max_validators L"
  by (simp_all add: put_account_def)

lemma put_contract_frame [simp]:
  "l_next_token_id (put_contract i c L) = l_next_token_id L"
  "l_accounts (put_contract i c L) = l_accounts L"
  "l_tokens (put_contract i c L) = l_tokens L"
  "l_tickers (put_contract i c L) = l_tickers L"
  "l_meta (put_contract i c L) = l_meta L"
  "l_nullifiers (put_contract i c L) = l_nullifiers L"
  "l_validators (put_contract i c L) = l_validators L"
  "l_pools (put_contract i c L) = l_pools L"
  "l_curves (put_contract i c L) = l_curves L"
  "l_lps (put_contract i c L) = l_lps L"
  "l_htlcs (put_contract i c L) = l_htlcs L"
  "l_dirty (put_contract i c L) = l_dirty L"
  "l_max_validators (put_contract i c L) = l_max_validators L"
  by (simp_all add: put_contract_def)

lemma insert_nullifier_frame [simp]:
  "l_next_token_id (insert_nullifier nf L) = l_next_token_id L"
  "l_accounts (insert_nullifier nf L) = l_accounts L"
  "l_tokens (insert_nullifier nf L) = l_tokens L"
  "l_tickers (insert_nullifier nf L) = l_tickers L"
  "l_meta (insert_nullifier nf L) = l_meta L"
  "l_contracts (insert_nullifier nf L) = l_contracts L"
  "l_validators (insert_nullifier nf L) = l_validators L"
  "l_pools (insert_nullifier nf L) = l_pools L"
  "l_curves (insert_nullifier nf L) = l_curves L"
  "l_lps (insert_nullifier nf L) = l_lps L"
  "l_htlcs (insert_nullifier nf L) = l_htlcs L"
  "l_dirty (insert_nullifier nf L) = l_dirty L"
  "l_max_validators (insert_nullifier nf L) = l_max_validators L"
  by (simp_all add: insert_nullifier_def)

lemma put_validator_frame [simp]:
  "l_next_token_id (put_validator i v L) = l_next_token_id L"
  "l_accounts (put_validator i v L) = l_accounts L"
  "l_tokens (put_validator i v L) = l_tokens L"
  "l_tickers (put_validator i v L) = l_tickers L"
  "l_meta (put_validator i v L) = l_meta L"
  "l_contracts (put_validator i v L) = l_contracts L"
  "l_nullifiers (put_validator i v L) = l_nullifiers L"
  "l_pools (put_validator i v L) = l_pools L"
  "l_curves (put_validator i v L) = l_curves L"
  "l_lps (put_validator i v L) = l_lps L"
  "l_htlcs (put_validator i v L) = l_htlcs L"
  "l_dirty (put_validator i v L) = l_dirty L"
  "l_max_validators (put_validator i v L) = l_max_validators L"
  by (simp_all add: put_validator_def)

lemma put_pool_frame [simp]:
  "l_next_token_id (put_pool p L) = l_next_token_id L"
  "l_accounts (put_pool p L) = l_accounts L"
  "l_tokens (put_pool p L) = l_tokens L"
  "l_tickers (put_pool p L) = l_tickers L"
  "l_meta (put_pool p L) = l_meta L"
  "l_contracts (put_pool p L) = l_contracts L"
  "l_nullifiers (put_pool p L) = l_nullifiers L"
  "l_validators (put_pool p L) = l_validators L"
  "l_curves (put_pool p L) = l_curves L"
  "l_lps (put_pool p L) = l_lps L"
  "l_htlcs (put_pool p L) = l_htlcs L"
  "l_dirty (put_pool p L) = l_dirty L"
  "l_max_validators (put_pool p L) = l_max_validators L"
  by (simp_all add: put_pool_def)

lemma put_curve_frame [simp]:
  "l_next_token_id (put_curve cp L) = l_next_token_id L"
  "l_accounts (put_curve cp L) = l_accounts L"
  "l_tokens (put_curve cp L) = l_tokens L"
  "l_tickers (put_curve cp L) = l_tickers L"
  "l_meta (put_curve cp L) = l_meta L"
  "l_contracts (put_curve cp L) = l_contracts L"
  "l_nullifiers (put_curve cp L) = l_nullifiers L"
  "l_validators (put_curve cp L) = l_validators L"
  "l_pools (put_curve cp L) = l_pools L"
  "l_lps (put_curve cp L) = l_lps L"
  "l_htlcs (put_curve cp L) = l_htlcs L"
  "l_dirty (put_curve cp L) = l_dirty L"
  "l_max_validators (put_curve cp L) = l_max_validators L"
  by (simp_all add: put_curve_def)

lemma put_lp_frame [simp]:
  "l_next_token_id (put_lp t i n L) = l_next_token_id L"
  "l_accounts (put_lp t i n L) = l_accounts L"
  "l_tokens (put_lp t i n L) = l_tokens L"
  "l_tickers (put_lp t i n L) = l_tickers L"
  "l_meta (put_lp t i n L) = l_meta L"
  "l_contracts (put_lp t i n L) = l_contracts L"
  "l_nullifiers (put_lp t i n L) = l_nullifiers L"
  "l_validators (put_lp t i n L) = l_validators L"
  "l_pools (put_lp t i n L) = l_pools L"
  "l_curves (put_lp t i n L) = l_curves L"
  "l_htlcs (put_lp t i n L) = l_htlcs L"
  "l_dirty (put_lp t i n L) = l_dirty L"
  "l_max_validators (put_lp t i n L) = l_max_validators L"
  by (simp_all add: put_lp_def)

lemma put_htlc_frame [simp]:
  "l_next_token_id (put_htlc i h L) = l_next_token_id L"
  "l_accounts (put_htlc i h L) = l_accounts L"
  "l_tokens (put_htlc i h L) = l_tokens L"
  "l_tickers (put_htlc i h L) = l_tickers L"
  "l_meta (put_htlc i h L) = l_meta L"
  "l_contracts (put_htlc i h L) = l_contracts L"
  "l_nullifiers (put_htlc i h L) = l_nullifiers L"
  "l_validators (put_htlc i h L) = l_validators L"
  "l_pools (put_htlc i h L) = l_pools L"
  "l_curves (put_htlc i h L) = l_curves L"
  "l_lps (put_htlc i h L) = l_lps L"
  "l_dirty (put_htlc i h L) = l_dirty L"
  "l_max_validators (put_htlc i h L) = l_max_validators L"
  by (simp_all add: put_htlc_def)

lemma drop_htlc_frame [simp]:
  "l_next_token_id (drop_htlc i L) = l_next_token_id L"
  "l_accounts (drop_htlc i L) = l_accounts L"
  "l_tokens (drop_htlc i L) = l_tokens L"
  "l_tickers (drop_htlc i L) = l_tickers L"
  "l_meta (drop_htlc i L) = l_meta L"
  "l_contracts (drop_htlc i L) = l_contracts L"
  "l_nullifiers (drop_htlc i L) = l_nullifiers L"
  "l_validators (drop_htlc i L) = l_validators L"
  "l_pools (drop_htlc i L) = l_pools L"
  "l_curves (drop_htlc i L) = l_curves L"
  "l_lps (drop_htlc i L) = l_lps L"
  "l_dirty (drop_htlc i L) = l_dirty L"
  "l_max_validators (drop_htlc i L) = l_max_validators L"
  by (simp_all add: drop_htlc_def)

lemma mark_frame [simp]:
  "l_next_token_id (mark k L) = l_next_token_id L"
  "l_accounts (mark k L) = l_accounts L"
  "l_tokens (mark k L) = l_tokens L"
  "l_tickers (mark k L) = l_tickers L"
  "l_meta (mark k L) = l_meta L"
  "l_contracts (mark k L) = l_contracts L"
  "l_nullifiers (mark k L) = l_nullifiers L"
  "l_validators (mark k L) = l_validators L"
  "l_pools (mark k L) = l_pools L"
  "l_curves (mark k L) = l_curves L"
  "l_lps (mark k L) = l_lps L"
  "l_htlcs (mark k L) = l_htlcs L"
  "l_max_validators (mark k L) = l_max_validators L"
  by (simp_all add: mark_def)

lemma mark_all_frame [simp]:
  "l_next_token_id (mark_all ks L) = l_next_token_id L"
  "l_accounts (mark_all ks L) = l_accounts L"
  "l_tokens (mark_all ks L) = l_tokens L"
  "l_tickers (mark_all ks L) = l_tickers L"
  "l_meta (mark_all ks L) = l_meta L"
  "l_contracts (mark_all ks L) = l_contracts L"
  "l_nullifiers (mark_all ks L) = l_nullifiers L"
  "l_validators (mark_all ks L) = l_validators L"
  "l_pools (mark_all ks L) = l_pools L"
  "l_curves (mark_all ks L) = l_curves L"
  "l_lps (mark_all ks L) = l_lps L"
  "l_htlcs (mark_all ks L) = l_htlcs L"
  "l_max_validators (mark_all ks L) = l_max_validators L"
  by (simp_all add: mark_all_def)

lemma update_account_frame [simp]:
  "l_next_token_id (update_account i f L) = l_next_token_id L"
  "l_tokens (update_account i f L) = l_tokens L"
  "l_tickers (update_account i f L) = l_tickers L"
  "l_meta (update_account i f L) = l_meta L"
  "l_contracts (update_account i f L) = l_contracts L"
  "l_nullifiers (update_account i f L) = l_nullifiers L"
  "l_validators (update_account i f L) = l_validators L"
  "l_pools (update_account i f L) = l_pools L"
  "l_curves (update_account i f L) = l_curves L"
  "l_lps (update_account i f L) = l_lps L"
  "l_htlcs (update_account i f L) = l_htlcs L"
  "l_dirty (update_account i f L) = l_dirty L"
  "l_max_validators (update_account i f L) = l_max_validators L"
  by (simp_all add: update_account_def split: option.splits)

lemma credit_public_frame [simp]:
  "l_next_token_id (credit_public i t n L) = l_next_token_id L"
  "l_tokens (credit_public i t n L) = l_tokens L"
  "l_tickers (credit_public i t n L) = l_tickers L"
  "l_meta (credit_public i t n L) = l_meta L"
  "l_contracts (credit_public i t n L) = l_contracts L"
  "l_nullifiers (credit_public i t n L) = l_nullifiers L"
  "l_validators (credit_public i t n L) = l_validators L"
  "l_pools (credit_public i t n L) = l_pools L"
  "l_curves (credit_public i t n L) = l_curves L"
  "l_lps (credit_public i t n L) = l_lps L"
  "l_htlcs (credit_public i t n L) = l_htlcs L"
  "l_max_validators (credit_public i t n L) = l_max_validators L"
  by (simp_all add: credit_public_def Let_def)

section \<open>Reads after writes\<close>

lemma get_account_put [simp]:
  "get_account (put_account i a L) j = (if j = i then Some a else get_account L j)"
  by (simp add: get_account_def put_account_def)

lemma get_account_frames [simp]:
  "get_account (put_contract c con L) j = get_account L j"
  "get_account (insert_nullifier nf L) j = get_account L j"
  "get_account (put_validator i v L) j = get_account L j"
  "get_account (put_pool p L) j = get_account L j"
  "get_account (put_curve cp L) j = get_account L j"
  "get_account (put_lp t i n L) j = get_account L j"
  "get_account (put_htlc h hl L) j = get_account L j"
  "get_account (drop_htlc h L) j = get_account L j"
  "get_account (mark k L) j = get_account L j"
  "get_account (mark_all ks L) j = get_account L j"
  by (simp_all add: get_account_def)

lemma get_account_update [simp]:
  "get_account (update_account i f L) j =
     (if j = i then map_option f (get_account L j) else get_account L j)"
  by (auto simp: update_account_def split: option.splits)

lemma get_account_credit:
  "get_account (credit_public i t n L) j =
     (if j = i \<and> n \<noteq> 0 then Some (add_public t n (account_or_default L i)) else get_account L j)"
  by (simp add: credit_public_def Let_def add_public_def)

lemma put_account_self: "get_account L i = Some a \<Longrightarrow> put_account i (f a) L = update_account i f L"
  by (simp add: update_account_def)

section \<open>Accounts\<close>

lemma acct_public_set [simp]:
  "acct_public (acct_set_public a u n) t = (if t = u then n else acct_public a t)"
  by (simp add: acct_public_def acct_set_public_def)

lemma acct_public_keep [simp]:
  "acct_public (acct_set a u ct) t = acct_public a t"
  "acct_public (acct_set_pending a u ct) t = acct_public a t"
  "acct_public (bump_nonce a) t = acct_public a t"
  "acct_public (add_pending u ct' a') t = acct_public a' t"
  by (simp_all add: acct_public_def acct_set_def acct_set_pending_def bump_nonce_def add_pending_def)

lemma acct_public_default [simp]: "acct_public account_default t = 0"
  by (simp add: acct_public_def account_default_def)

lemma acct_public_debit [simp]:
  "acct_public (debit_public u n a) t = (if t = u then acct_public a t - n else acct_public a t)"
  by (simp add: debit_public_def)

lemma acct_public_add [simp]:
  "acct_public (add_public u n a) t =
     (if t = u then saturating_add (acct_public a t) n else acct_public a t)"
  by (simp add: add_public_def)

lemma acct_public_confidential [simp]:
  "acct_public (debit_confidential P u x a) t = acct_public a t"
  by (simp add: debit_confidential_def Let_def)

lemma acct_public_merge [simp]: "acct_public (foldl merge_pending a ts) t = acct_public a t"
  by (induction ts arbitrary: a) (simp_all add: merge_pending_def Let_def)

lemma acc_nonce_keep [simp]:
  "acc_nonce (acct_set a u ct) = acc_nonce a"
  "acc_nonce (acct_set_pending a u ct) = acc_nonce a"
  "acc_nonce (acct_set_public a u n) = acc_nonce a"
  "acc_nonce (debit_public u n a) = acc_nonce a"
  "acc_nonce (add_public u n a) = acc_nonce a"
  "acc_nonce (bump_nonce a) = acc_nonce a + 1"
  "acc_nonce account_default = 0"
  by (simp_all add: acct_set_def acct_set_pending_def acct_set_public_def debit_public_def
      add_public_def bump_nonce_def account_default_def)

lemma acc_nonce_pending [simp]: "acc_nonce (add_pending u ct a) = acc_nonce a"
  by (simp add: add_pending_def)

lemma acc_nonce_confidential [simp]: "acc_nonce (debit_confidential P u x a) = acc_nonce a + 1"
  by (simp add: debit_confidential_def Let_def)

lemma acc_nonce_merge [simp]: "acc_nonce (foldl merge_pending a ts) = acc_nonce a"
  by (induction ts arbitrary: a) (simp_all add: merge_pending_def Let_def)

section \<open>The ring of an anonymous transfer\<close>

lemma debit_member_frame [simp]:
  "l_next_token_id (debit_member P t L md) = l_next_token_id L"
  "l_tokens (debit_member P t L md) = l_tokens L"
  "l_tickers (debit_member P t L md) = l_tickers L"
  "l_meta (debit_member P t L md) = l_meta L"
  "l_contracts (debit_member P t L md) = l_contracts L"
  "l_nullifiers (debit_member P t L md) = l_nullifiers L"
  "l_validators (debit_member P t L md) = l_validators L"
  "l_pools (debit_member P t L md) = l_pools L"
  "l_curves (debit_member P t L md) = l_curves L"
  "l_lps (debit_member P t L md) = l_lps L"
  "l_htlcs (debit_member P t L md) = l_htlcs L"
  "l_dirty (debit_member P t L md) = l_dirty L"
  "l_max_validators (debit_member P t L md) = l_max_validators L"
  by (simp_all add: debit_member_def)

lemma debit_members_frame [simp]:
  "l_next_token_id (foldl (debit_member P t) L mds) = l_next_token_id L"
  "l_tokens (foldl (debit_member P t) L mds) = l_tokens L"
  "l_tickers (foldl (debit_member P t) L mds) = l_tickers L"
  "l_meta (foldl (debit_member P t) L mds) = l_meta L"
  "l_contracts (foldl (debit_member P t) L mds) = l_contracts L"
  "l_nullifiers (foldl (debit_member P t) L mds) = l_nullifiers L"
  "l_validators (foldl (debit_member P t) L mds) = l_validators L"
  "l_pools (foldl (debit_member P t) L mds) = l_pools L"
  "l_curves (foldl (debit_member P t) L mds) = l_curves L"
  "l_lps (foldl (debit_member P t) L mds) = l_lps L"
  "l_htlcs (foldl (debit_member P t) L mds) = l_htlcs L"
  "l_dirty (foldl (debit_member P t) L mds) = l_dirty L"
  "l_max_validators (foldl (debit_member P t) L mds) = l_max_validators L"
  by (induction mds arbitrary: L) simp_all

text \<open> A ring debit touches the members' accounts only, and of those only the ciphertext.\<close>

lemma get_account_debit_members:
  "(case get_account (foldl (debit_member P t) L mds) j of
      None \<Rightarrow> get_account L j = None
    | Some b \<Rightarrow> \<exists>a. get_account L j = Some a \<and> acc_nonce b = acc_nonce a \<and>
        acc_public b = acc_public a \<and> acc_pending b = acc_pending a \<and>
        (j \<notin> (pk_to_bytes P \<circ> fst) ` set mds \<longrightarrow> b = a))"
proof (induction mds arbitrary: L)
  case Nil
  show ?case by (simp split: option.splits)
next
  case (Cons md mds)
  show ?case using Cons [of "debit_member P t L md"]
    by (auto simp: debit_member_def acct_set_def split: option.splits if_splits)
qed

end
