(* ===== verification/Ledger_Pools.thy ===== *)
theory Ledger_Pools
  imports Ledger_Frames
begin

text \<open>
  The constant-product pools: the integer square root that prices the first deposit, the output
  of a swap, the shares of a deposit and of a withdrawal, and the invariant of the pool records.
\<close>

section \<open>The integer square root\<close>

lemma four_mult_le: "4 * (a * b) \<le> (a + b) ^ 2" for a b :: nat
proof -
  have "0 \<le> (int a - int b) ^ 2" by simp
  then have "int (4 * (a * b)) \<le> int ((a + b) ^ 2)" by (simp add: power2_eq_square algebra_simps)
  then show ?thesis by (simp only: of_nat_le_iff)
qed

lemma newton_above:
  fixes n x :: nat
  assumes "0 < x"
  shows "n < ((x + n div x) div 2 + 1) ^ 2"
proof -
  let ?q = "n div x" and ?y = "(x + n div x) div 2"
  have "n < x * (?q + 1)" using assms by (simp add: dividend_less_times_div)
  moreover have "4 * (x * (?q + 1)) \<le> (x + (?q + 1)) ^ 2" by (rule four_mult_le)
  moreover have "x + (q + 1) \<le> 2 * ((x + q) div 2 + 1)" for q by presburger
  then have "x + (?q + 1) \<le> 2 * (?y + 1)" .
  then have "(x + (?q + 1)) ^ 2 \<le> (2 * (?y + 1)) ^ 2" by (intro power_mono) simp_all
  ultimately show ?thesis by (simp add: power2_eq_square)
qed

lemma newton_stops:
  fixes n x :: nat
  assumes "0 < x" and "x \<le> (x + n div x) div 2"
  shows "x ^ 2 \<le> n"
proof -
  have "x \<le> q" if "x \<le> (x + q) div 2" for q using that by presburger
  then have "x \<le> n div x" using assms(2) .
  then have "x * x \<le> x * (n div x)" by simp
  also have "\<dots> \<le> n" by simp
  finally show ?thesis by (simp add: power2_eq_square)
qed

text \<open> The next estimate of the loop does not wrap.\<close>

lemma newton_word:
  fixes n y :: u128
  assumes "0 < unat y" and "unat y \<le> 2 ^ 127" and "unat n < (unat y + 1) ^ 2"
  shows "unat ((y + n div y) div 2) = (unat y + unat n div unat y) div 2"
    and "(unat y + unat n div unat y) div 2 \<le> 2 ^ 127"
proof -
  have "unat n div unat y \<le> 2 ^ 127 - 1"
  proof (cases "unat y = 1")
    case True
    then show ?thesis using assms(3) by (simp add: power2_eq_square)
  next
    case False
    then have "unat n div unat y \<le> unat n div 2" using assms(1) by (intro div_le_mono2) auto
    also have "\<dots> \<le> (2 ^ 128 - 1) div 2" using unat_lt2p [of n] by (intro div_le_mono) simp
    finally show ?thesis by simp
  qed
  then have sum: "unat y + unat (n div y) < 2 ^ 128" using assms(2) by (simp add: unat_div)
  then have "unat (y + n div y) = unat y + unat n div unat y"
    by (subst unat_add_small) (simp_all add: unat_div)
  then show "unat ((y + n div y) div 2) = (unat y + unat n div unat y) div 2"
    by (simp add: unat_div)
  show "(unat y + unat n div unat y) div 2 \<le> 2 ^ 127" using sum by (simp add: unat_div)
qed

lemma isqrt_loop_correct:
  assumes "0 < unat n" and "0 < unat x" and "0 < unat y" and "unat n < (unat x + 1) ^ 2"
    and "unat y \<le> 2 ^ 127" and "unat y = (unat x + unat n div unat x) div 2"
  shows "unat (isqrt_loop n x y) ^ 2 \<le> unat n \<and> unat n < (unat (isqrt_loop n x y) + 1) ^ 2"
  using assms
proof (induction n x y rule: isqrt_loop.induct)
  case (1 n x y)
  show ?case
  proof (cases "y < x")
    case True
    have ny: "unat n < (unat y + 1) ^ 2" using newton_above [of "unat x" "unat n"] 1(3,7) by simp
    note w = newton_word [OF 1(4) 1(6) ny]
    have "2 \<le> unat y + unat n div unat y"
      using 1(2,4) by (cases "unat y = 1") simp_all
    then have "0 < unat ((y + n div y) div 2)" unfolding w(1) by simp
    moreover have "unat ((y + n div y) div 2) \<le> 2 ^ 127" unfolding w(1) by (rule w(2))
    ultimately show ?thesis
      using 1(1) [OF True 1(2) 1(4) _ ny _ w(1)] True by (simp add: isqrt_loop.simps [of n x y])
  next
    case False
    then have "isqrt_loop n x y = x" and "unat x \<le> unat y"
      by (simp_all add: isqrt_loop.simps [of n x y] word_less_nat_alt not_less)
    then show ?thesis using newton_stops [of "unat x" "unat n"] 1(3,5,7) by simp
  qed
qed

lemma isqrt_bounds:
  shows "unat (isqrt n) ^ 2 \<le> unat n" and "unat n < (unat (isqrt n) + 1) ^ 2"
proof -
  have "unat (isqrt n) ^ 2 \<le> unat n \<and> unat n < (unat (isqrt n) + 1) ^ 2"
  proof (cases "n = 0")
    case True
    then show ?thesis by (simp add: isqrt_def)
  next
    case False
    then have n: "0 < unat n" by (simp add: unat_gt_0)
    have lt: "unat n < 2 ^ 128" using unat_lt2p [of n] by simp
    have y: "unat (div_ceil n 2) = (unat n + 1) div 2"
    proof -
      have half: "(if k mod 2 = 0 then k div 2 else k div 2 + 1) = (k + 1) div 2" for k :: nat
        by presburger
      have "unat (n div 2 + 1) = unat n div 2 + 1"
        using lt by (subst unat_add_small) (simp_all add: unat_div)
      moreover have "n mod 2 = 0 \<longleftrightarrow> unat n mod 2 = 0" by (simp add: unat_mod word_eq_iff_unsigned flip: unat_eq_0)
      ultimately have "unat (div_ceil n 2) = (if unat n mod 2 = 0 then unat n div 2 else unat n div 2 + 1)"
        by (auto simp: div_ceil_def unat_div)
      also have "\<dots> = (unat n + 1) div 2" by (rule half)
      finally show ?thesis .
    qed
    have loop: "unat (isqrt_loop n n (div_ceil n 2)) ^ 2 \<le> unat n \<and>
        unat n < (unat (isqrt_loop n n (div_ceil n 2)) + 1) ^ 2"
      using n lt by (intro isqrt_loop_correct) (simp_all add: y power2_eq_square)
    then have "unat (isqrt_loop n n (div_ceil n 2)) ^ 2 < (2 ^ 64) ^ 2" using lt by simp
    then have "unat (isqrt_loop n n (div_ceil n 2)) < 2 ^ 64" by (rule power_less_imp_less_base) simp
    then have "unat (isqrt n) = unat (isqrt_loop n n (div_ceil n 2))"
      using False by (simp add: isqrt_def unat_ucast)
    then show ?thesis using loop by simp
  qed
  then show "unat (isqrt n) ^ 2 \<le> unat n" and "unat n < (unat (isqrt n) + 1) ^ 2" by simp_all
qed


text \<open>
  the loop of \<^verbatim>\<open>isqrt\<close> ends on every 128-bit input, never wraps, and returns the integer square
  root, which fits 64 bits.
\<close>

theorem isqrt_is_floor_sqrt:
  "unat (isqrt n) ^ 2 \<le> unat n \<and> unat n < (unat (isqrt n) + 1) ^ 2"
  using isqrt_bounds [of n] by blast

section \<open>Swaps\<close>

text \<open>
  A product that wraps only makes the output smaller, so the two bounds below need no bound on
  the amounts: the output is less than the reserve and the product of the reserves never falls.
\<close>

lemma swap_denominator:
  "unat (ucast r_in * 10000 + ucast amount_in * ucast (10000 - SWAP_FEE_BPS) :: u128) =
     unat (r_in :: u64) * 10000 + unat (amount_in :: u64) * 9970"
proof -
  have a: "unat (ucast r_in * 10000 :: u128) = unat r_in * 10000"
    using unat_lt2p [of r_in] by (simp add: unat_word_ariths)
  have b: "unat (ucast amount_in * ucast (10000 - SWAP_FEE_BPS) :: u128) = unat amount_in * 9970"
    using unat_lt2p [of amount_in] by (simp add: SWAP_FEE_BPS_def unat_word_ariths)
  show ?thesis using unat_lt2p [of r_in] unat_lt2p [of amount_in]
    by (subst unat_add_small) (simp_all add: a b)
qed

lemma swap_out_le:
  "unat (swap_out r_in r_out amount_in) \<le>
     unat amount_in * 9970 * unat r_out div (unat r_in * 10000 + unat amount_in * 9970)"
proof -
  let ?i = "ucast amount_in * ucast (10000 - SWAP_FEE_BPS) :: u128"
  have i: "unat ?i = unat amount_in * 9970"
    using unat_lt2p [of amount_in] by (simp add: SWAP_FEE_BPS_def unat_word_ariths)
  have "unat (?i * ucast r_out) \<le> unat ?i * unat (ucast r_out :: u128)"
    unfolding unat_word_ariths by (rule mod_less_eq_dividend)
  then have "unat (?i * ucast r_out) \<le> unat amount_in * 9970 * unat r_out" unfolding i by simp
  then have "unat (?i * ucast r_out) div (unat r_in * 10000 + unat amount_in * 9970) \<le>
      unat amount_in * 9970 * unat r_out div (unat r_in * 10000 + unat amount_in * 9970)"
    by (rule div_le_mono)
  moreover have "unat (swap_out r_in r_out amount_in) \<le>
      unat (?i * ucast r_out) div (unat r_in * 10000 + unat amount_in * 9970)"
    by (simp add: swap_out_def Let_def unat_ucast unat_div swap_denominator)
  ultimately show ?thesis by (rule order_trans [rotated])
qed

lemma swap_nat:
  fixes a r s :: nat
  defines "out \<equiv> a * 9970 * s div (r * 10000 + a * 9970)"
  shows "out \<le> s" and "r * s \<le> (r + a) * (s - out)" and "0 < r \<Longrightarrow> 0 < s \<Longrightarrow> out < s"
proof -
  have o: "out * (r * 10000 + a * 9970) \<le> a * 9970 * s" unfolding out_def by simp
  show le: "out \<le> s"
  proof (cases "r * 10000 + a * 9970 = 0")
    case True
    then show ?thesis by (simp add: out_def)
  next
    case False
    have "out * (r * 10000 + a * 9970) \<le> s * (r * 10000 + a * 9970)" using o by (simp add: algebra_simps)
    then show ?thesis using False by auto
  qed
  then obtain d where d: "s = out + d" using le_Suc_ex by blast
  have "out * r * 10000 \<le> d * a * 9970" using o d by (simp add: algebra_simps)
  also have "\<dots> \<le> d * a * 10000" by simp
  finally have "out * r \<le> d * a" by simp
  then show "r * s \<le> (r + a) * (s - out)" using d by (simp add: algebra_simps)
  show "out < s" if "0 < r" "0 < s"
  proof (rule ccontr)
    assume "\<not> out < s"
    then have "out = s" using le by simp
    then have "s * (r * 10000) \<le> 0" using o by (simp add: algebra_simps)
    then show False using that by simp
  qed
qed

lemma swap_out_bounds:
  assumes "out = swap_out r_in r_out amount_in"
  shows "unat out \<le> unat r_out"
    and "unat r_in * unat r_out \<le> (unat r_in + unat amount_in) * (unat r_out - unat out)"
    and "0 < unat r_in \<Longrightarrow> 0 < unat r_out \<Longrightarrow> unat out < unat r_out"
proof -
  note le = swap_out_le [of r_in r_out amount_in, folded assms]
  note sw = swap_nat [where a = "unat amount_in" and s = "unat r_out" and r = "unat r_in"]
  show "unat out \<le> unat r_out" using le sw(1) by (rule order_trans)
  show "unat r_in * unat r_out \<le> (unat r_in + unat amount_in) * (unat r_out - unat out)"
    using le sw(2) by (meson diff_le_mono2 mult_le_mono2 order_trans)
  show "0 < unat r_in \<Longrightarrow> 0 < unat r_out \<Longrightarrow> unat out < unat r_out"
    using le sw(3) by simp
qed


section \<open>Deposits and withdrawals\<close>

lemma div_ceil_upper:
  fixes a b :: "'a::len word"
  assumes "0 < unat b"
  shows "unat a \<le> unat (div_ceil a b) * unat b"
proof (cases "a mod b = 0")
  case True
  then have "unat a mod unat b = 0" by (metis unat_0 unat_mod)
  then show ?thesis using True mod_div_mult_eq [of "unat a" "unat b"] by (simp add: div_ceil_def unat_div)
next
  case False
  have "unat a mod unat b \<noteq> 0" using False by (metis unat_eq_zero unat_mod)
  then have "unat b \<noteq> 1" by auto
  then have b: "2 \<le> unat b" using assms by simp
  have "unat a div unat b \<le> unat a div 2" using b by (intro div_le_mono2) auto
  moreover have "0 < unat a" using \<open>unat a mod unat b \<noteq> 0\<close> by (cases "unat a = 0") auto
  then have "unat a div 2 + 1 \<le> unat a" by presburger
  ultimately have "unat a div unat b + 1 < 2 ^ LENGTH('a)" using unat_lt2p [of a] by linarith
  then have "unat (a div b + 1) = unat a div unat b + 1" by (subst unat_add_small) (simp_all add: unat_div)
  then show ?thesis using False dividend_less_times_div [OF assms, of "unat a"]
    by (simp add: div_ceil_def algebra_simps)
qed

text \<open>The shares outstanding for a token, over all providers.\<close>

definition lp_total :: "u32 \<Rightarrow> 'g ledger \<Rightarrow> nat" where
  "lp_total t L = fm_sum unat (fmfilter (\<lambda>k. fst k = t) (l_lps L))"

lemma lp_total_put_same:
  "lp_total t (put_lp t i n L) + unat (lp_shares L t i) = lp_total t L + unat n"
proof -
  let ?m = "fmfilter (\<lambda>k. fst k = t) (l_lps L)"
  have "opt_sum unat (fmlookup ?m (t, i)) = unat (lp_shares L t i)"
    by (simp add: lp_shares_def split: option.splits)
  moreover have "lp_total t (put_lp t i n L) =
      (if n = 0 then fm_sum unat (fmdrop (t, i) ?m) else fm_sum unat (fmupd (t, i) n ?m))"
    by (auto simp: lp_total_def put_lp_def intro!: arg_cong [where f = "fm_sum unat"] fmap_ext)
  ultimately show ?thesis
    using fm_sum_upd [of unat "(t, i)" n ?m] fm_sum_drop [of unat "(t, i)" ?m]
    by (auto simp: lp_total_def [of t L])
qed

lemma lp_total_put_other: "u \<noteq> t \<Longrightarrow> lp_total t (put_lp u i n L) = lp_total t L"
  by (auto simp: lp_total_def put_lp_def intro!: arg_cong [where f = "fm_sum unat"] fmap_ext)

lemma lp_shares_le_total: "unat (lp_shares L t i) \<le> lp_total t L"
proof (cases "fmlookup (l_lps L) (t, i)")
  case (Some n)
  then have "fmlookup (fmfilter (\<lambda>k. fst k = t) (l_lps L)) (t, i) = Some n" by simp
  from fm_sum_member [OF this, of unat] Some show ?thesis by (simp add: lp_shares_def lp_total_def)
qed (simp add: lp_shares_def)

lemma lp_total_cong: "l_lps L = l_lps M \<Longrightarrow> lp_total t L = lp_total t M"
  unfolding lp_total_def by metis

text \<open>
  A pool record is filed under its own token, which is not LAT; both reserves are positive; the
  shares of all providers and the burnt minimum are within the supply, which does not exceed the
  geometric mean of the reserves. A token without a pool has no shares.
\<close>

definition pool_wf :: "u32 \<Rightarrow> nat \<Rightarrow> pool \<Rightarrow> bool" where
  "pool_wf t shares p \<longleftrightarrow>
     pool_token p = t \<and> t \<noteq> LAT_TOKEN \<and> 0 < unat (pool_lat p) \<and> 0 < unat (pool_tok p) \<and>
     shares + 1000 \<le> unat (pool_lp_supply p) \<and>
     unat (pool_lp_supply p) ^ 2 \<le> unat (pool_lat p) * unat (pool_tok p)"

definition pools_wf :: "'g ledger \<Rightarrow> bool" where
  "pools_wf L \<longleftrightarrow> (\<forall>t. case get_pool L t of
     Some p \<Rightarrow> pool_wf t (lp_total t L) p
   | None \<Rightarrow> lp_total t L = 0)"

lemma pools_wf_Some: "pools_wf L \<Longrightarrow> get_pool L t = Some p \<Longrightarrow> pool_wf t (lp_total t L) p"
  unfolding pools_wf_def by (metis option.simps(5))

lemma pools_wf_None: "pools_wf L \<Longrightarrow> get_pool L t = None \<Longrightarrow> lp_total t L = 0"
  unfolding pools_wf_def by (metis option.simps(4))

lemma pools_wf_cong:
  "l_pools L = l_pools M \<Longrightarrow> l_lps L = l_lps M \<Longrightarrow> pools_wf L \<longleftrightarrow> pools_wf M"
  using lp_total_cong [of L M] by (simp add: pools_wf_def get_pool_def split: option.splits)

text \<open> Rewriting one pool and one provider's shares keeps the invariant when the new record has it.\<close>

lemma pools_wf_put:
  assumes "pools_wf L" and "l_pools M = l_pools (put_pool p L)" and "t = pool_token p"
    and "\<And>u. u \<noteq> t \<Longrightarrow> lp_total u M = lp_total u L" and "pool_wf t (lp_total t M) p"
  shows "pools_wf M"
  unfolding pools_wf_def
proof
  fix u
  have lp: "pool_lp_supply p \<noteq> 0" using assms(5) by (auto simp: pool_wf_def)
  show "case get_pool M u of None \<Rightarrow> lp_total u M = 0 | Some q \<Rightarrow> pool_wf u (lp_total u M) q"
  proof (cases "u = t")
    case True
    then show ?thesis using assms(2,3,5) lp by (simp add: get_pool_def put_pool_def)
  next
    case False
    then have "get_pool M u = get_pool L u" using assms(2,3) lp by (simp add: get_pool_def put_pool_def)
    moreover have "lp_total u M = lp_total u L" using False by (rule assms(4))
    ultimately show ?thesis using assms(1) unfolding pools_wf_def by metis
  qed
qed

lemma pool_deposit_new:
  assumes "pool_deposit L t a b = Inr (p, used, minted)" and "get_pool L t = None"
    and "t \<noteq> LAT_TOKEN" and "a \<noteq> 0" and "b \<noteq> 0"
  shows "used = b" and "pool_lat p = a" and "pool_tok p = b" and "pool_wf t (unat minted) p"
proof -
  from assms have lp: "p = \<lparr>pool_token = t, pool_lat = a, pool_tok = b,
      pool_lp_supply = isqrt (ucast a * ucast b)\<rparr>"
    and m: "minted = isqrt (ucast a * ucast b) - 1000" and big: "1000 < isqrt (ucast a * ucast b)"
    and u: "used = b"
    by (auto simp: pool_deposit_def Let_def MIN_POOL_LIQUIDITY_def not_le split: if_splits)
  have "unat (isqrt (ucast a * ucast b)) ^ 2 \<le> unat a * unat b"
    using isqrt_bounds(1) [of "ucast a * ucast b"] by (simp add: unat_widening_mult)
  moreover have "unat minted + 1000 = unat (isqrt (ucast a * ucast b))"
    using big by (simp add: m unat_sub word_less_nat_alt word_le_nat_alt)
  ultimately show "pool_wf t (unat minted) p" and "used = b" and "pool_lat p = a" and "pool_tok p = b"
    using assms(3-5) u by (simp_all add: pool_wf_def lp unat_gt_0)
qed

lemma pool_deposit_old:
  assumes "pool_deposit L t a b = Inr (p, used, minted)" and "get_pool L t = Some q"
  shows "used \<le> b" and "pool_token p = pool_token q"
    and "unat (pool_lat p) = unat (pool_lat q) + unat a"
    and "unat (pool_tok p) = unat (pool_tok q) + unat used"
    and "unat (pool_lp_supply p) = unat (pool_lp_supply q) + unat minted"
    and "unat a * unat (pool_tok q) \<le> unat used * unat (pool_lat q)"
    and "unat minted * unat (pool_lat q) \<le> unat a * unat (pool_lp_supply q)"
proof -
  let ?needed = "div_ceil (ucast a * ucast (pool_tok q) :: u128) (ucast (pool_lat q))"
  from assms have nz: "pool_lat q \<noteq> 0" and fits: "unat ?needed < 2 ^ 64" and u: "used = ucast ?needed"
    and le: "used \<le> b"
    and m: "minted = ucast ((ucast a * ucast (pool_lp_supply q) :: u128) div ucast (pool_lat q))"
    and sums: "checked_add (pool_lat q) a = Some (pool_lat p)"
      "checked_add (pool_tok q) used = Some (pool_tok p)"
      "checked_add (pool_lp_supply q) minted = Some (pool_lp_supply p)"
    and tk: "pool_token p = pool_token q"
    by (auto simp: pool_deposit_def Let_def not_le split: if_splits)
  show "used \<le> b" "pool_token p = pool_token q" using le tk by simp_all
  show "unat (pool_lat p) = unat (pool_lat q) + unat a"
    "unat (pool_tok p) = unat (pool_tok q) + unat used"
    "unat (pool_lp_supply p) = unat (pool_lp_supply q) + unat minted"
    using sums by (simp_all add: unat_checked_add)
  have "unat used = unat ?needed" using fits u by (simp add: unat_ucast)
  then show "unat a * unat (pool_tok q) \<le> unat used * unat (pool_lat q)"
    using div_ceil_upper [of "ucast (pool_lat q) :: u128" "ucast a * ucast (pool_tok q)"] nz
    by (simp add: unat_widening_mult unat_gt_0)
  have "unat minted \<le> unat a * unat (pool_lp_supply q) div unat (pool_lat q)"
    unfolding m unat_mul_div by simp
  then have "unat minted * unat (pool_lat q) \<le>
      unat a * unat (pool_lp_supply q) div unat (pool_lat q) * unat (pool_lat q)"
    by (rule mult_right_mono) simp
  also have "\<dots> \<le> unat a * unat (pool_lp_supply q)" by simp
  finally show "unat minted * unat (pool_lat q) \<le> unat a * unat (pool_lp_supply q)" .
qed


section \<open>The three pool transactions\<close>

lemma lp_shares_frame [simp]: "lp_shares (put_account i a L) t j = lp_shares L t j"
  by (simp add: lp_shares_def)

lemma lp_total_frame [simp]:
  "lp_total t (put_account i a L) = lp_total t L" "lp_total t (put_pool p L) = lp_total t L"
  by (rule lp_total_cong, simp)+

lemma deposit_wf:
  assumes wf: "pools_wf L" and d: "pool_deposit L t a b = Inr (p, used, minted)"
    and pos: "t \<noteq> LAT_TOKEN" "a \<noteq> 0" "b \<noteq> 0"
  shows "pool_wf t (lp_total t L + unat minted) p" and "pool_token p = t" and "used \<le> b"
proof -
  have "pool_wf t (lp_total t L + unat minted) p \<and> used \<le> b"
  proof (cases "get_pool L t")
    case None
    then show ?thesis using pool_deposit_new [OF d None pos] pools_wf_None [OF wf None] by simp
  next
    case (Some q)
    note o = pool_deposit_old [OF d Some] and q = pools_wf_Some [OF wf Some]
    let ?l = "unat (pool_lat q)" and ?k = "unat (pool_tok q)" and ?s = "unat (pool_lp_supply q)"
    have lp: "(?s + unat minted) * ?l \<le> ?s * (?l + unat a)" using o(7) by (simp add: algebra_simps)
    have tok: "?k * (?l + unat a) \<le> (?k + unat used) * ?l" using o(6) by (simp add: algebra_simps)
    have "(?s + unat minted) ^ 2 * ?l ^ 2 = ((?s + unat minted) * ?l) ^ 2" by (simp add: power_mult_distrib)
    also have "\<dots> \<le> (?s * (?l + unat a)) ^ 2" using lp by (rule power_mono) simp
    also have "\<dots> = ?s ^ 2 * (?l + unat a) ^ 2" by (simp add: power_mult_distrib)
    also have "\<dots> \<le> (?l * ?k) * (?l + unat a) ^ 2"
      using q by (intro mult_right_mono) (simp_all add: pool_wf_def)
    also have "\<dots> = ?l * (?l + unat a) * (?k * (?l + unat a))" by (simp add: power2_eq_square algebra_simps)
    also have "\<dots> \<le> ?l * (?l + unat a) * ((?k + unat used) * ?l)" using tok by (intro mult_left_mono) simp_all
    also have "\<dots> = (?l + unat a) * (?k + unat used) * ?l ^ 2" by (simp add: power2_eq_square algebra_simps)
    finally have "(?s + unat minted) ^ 2 \<le> (?l + unat a) * (?k + unat used)"
      using q by (simp add: pool_wf_def)
    then show ?thesis using o q by (simp add: pool_wf_def)
  qed
  then show "pool_wf t (lp_total t L + unat minted) p" and "used \<le> b" by simp_all
  then show "pool_token p = t" by (simp add: pool_wf_def)
qed

lemma add_liquidity_cases:
  assumes wf: "pools_wf L"
    and run: "apply_add_liquidity P token provider lat_amount tok_amount fee nonce sg tx L = (r, L1)"
  obtains e where "r = Some e" and "L1 = L"
  | acct pool used minted where "r = None" and "get_account L provider = Some acct"
      and "nonce = acc_nonce acct" and "token \<noteq> LAT_TOKEN" and "lat_amount \<noteq> 0" and "tok_amount \<noteq> 0"
      and "pool_deposit L token lat_amount tok_amount = Inr (pool, used, minted)"
      and "unat lat_amount + unat fee \<le> unat (acct_public acct LAT_TOKEN)" and "used \<le> acct_public acct token"
      and "unat (lp_shares L token provider) + unat minted < 2 ^ 64"
      and "L1 = put_pool pool (put_lp token provider (lp_shares L token provider + minted)
             (put_account provider (bump_nonce (debit_public token used
                (debit_public LAT_TOKEN (lat_amount + fee) acct))) L))"
proof -
  consider e where "r = Some e" and "L1 = L"
    | acct pool used minted total where "get_account L provider = Some acct"
      and "nonce = acc_nonce acct" and "token \<noteq> LAT_TOKEN" and "lat_amount \<noteq> 0" and "tok_amount \<noteq> 0"
      and "pool_deposit L token lat_amount tok_amount = Inr (pool, used, minted)"
      and "checked_add lat_amount fee = Some total" and "total \<le> acct_public acct LAT_TOKEN"
      and "used \<le> acct_public acct token"
      and "(r, L1) = (case checked_add (lp_shares L token provider) minted of
            None \<Rightarrow> (Some InsufficientLiquidity, put_account provider (bump_nonce (debit_public token used
                (debit_public LAT_TOKEN total acct))) L)
          | Some shares \<Rightarrow> (None, put_pool pool (put_lp token provider shares (put_account provider
                (bump_nonce (debit_public token used (debit_public LAT_TOKEN total acct))) L))))"
    using run unfolding apply_add_liquidity_def
    by (auto simp: not_less split: sum.splits if_splits)
  then show thesis
  proof cases
    case 1
    then show thesis by (rule that)
  next
    case 2
    note d = deposit_wf [OF wf 2(6,3,4,5)]
    have "unat (lp_shares L token provider) + unat minted < 2 ^ 64"
      using d(1) lp_shares_le_total [of L token provider] unat_lt2p [of "pool_lp_supply pool"]
      by (simp add: pool_wf_def)
    then show thesis using 2 that
      by (auto simp: checked_add_Some word_le_nat_alt unat_add_small checked_add_def split: if_splits)
  qed
qed

lemma add_liquidity_wf:
  assumes "pools_wf L"
    and "apply_add_liquidity P token provider lat_amount tok_amount fee nonce sg tx L = (r, L1)"
  shows "pools_wf L1"
  using assms(2)
proof (cases rule: add_liquidity_cases [OF assms(1), consumes 1])
  case 1
  then show ?thesis using assms(1) by simp
next
  case (2 acct pool used minted)
  note d = deposit_wf [OF assms(1) 2(7,4,5,6)]
  show ?thesis
  proof (rule pools_wf_put [OF assms(1), where p = pool and t = token])
    show "lp_total u L1 = lp_total u L" if "u \<noteq> token" for u
      using that by (simp add: 2(11) lp_total_put_other)
    have "lp_total token L1 = lp_total token L + unat minted"
      using lp_total_put_same [of token provider "lp_shares L token provider + minted"
        "put_account provider (bump_nonce (debit_public token used
                (debit_public LAT_TOKEN (lat_amount + fee) acct))) L"] 2(10)
      by (simp add: 2(11) unat_add_small)
    then show "pool_wf token (lp_total token L1) pool" using d(1) by simp
  qed (use 2 d in \<open>simp_all add: put_pool_def\<close>)
qed

lemma remove_liquidity_Inr:
  assumes wf: "pools_wf L"
    and run: "apply_remove_liquidity P token provider lp_amount fee nonce sg tx L = Inr L1"
  obtains acct p lat_out tok_out q where "get_account L provider = Some acct"
      and "nonce = acc_nonce acct" and "token \<noteq> LAT_TOKEN" and "get_pool L token = Some p"
      and "lp_amount \<le> lp_shares L token provider" and "fee \<le> acct_public acct LAT_TOKEN"
      and "unat lat_out = unat lp_amount * unat (pool_lat p) div unat (pool_lp_supply p)"
      and "unat tok_out = unat lp_amount * unat (pool_tok p) div unat (pool_lp_supply p)"
      and "pool_token q = token" and "unat (pool_lat q) + unat lat_out = unat (pool_lat p)"
      and "unat (pool_tok q) + unat tok_out = unat (pool_tok p)"
      and "unat (pool_lp_supply q) + unat lp_amount = unat (pool_lp_supply p)"
      and "unat lp_amount + 1000 \<le> unat (pool_lp_supply p)"
      and "L1 = put_pool q (put_lp token provider (lp_shares L token provider - lp_amount)
             (put_account provider (add_public token tok_out (add_public LAT_TOKEN lat_out
                (bump_nonce (debit_public LAT_TOKEN fee acct)))) L))"
proof -
  from run obtain acct p where a: "get_account L provider = Some acct" "nonce = acc_nonce acct"
      "get_pool L token = Some p" "lp_amount \<le> lp_shares L token provider"
      "fee \<le> acct_public acct LAT_TOKEN" and
    L1: "L1 = (let lat_out = ucast ((ucast lp_amount * ucast (pool_lat p) :: u128) div ucast (pool_lp_supply p)) :: u64;
             tok_out = ucast ((ucast lp_amount * ucast (pool_tok p) :: u128) div ucast (pool_lp_supply p)) :: u64 in
       put_pool (p\<lparr>pool_lat := pool_lat p - lat_out, pool_tok := pool_tok p - tok_out,
                      pool_lp_supply := pool_lp_supply p - lp_amount\<rparr>)
         (put_lp token provider (lp_shares L token provider - lp_amount)
             (put_account provider (add_public token tok_out (add_public LAT_TOKEN lat_out
                (bump_nonce (debit_public LAT_TOKEN fee acct)))) L)))"
    unfolding apply_remove_liquidity_def by (auto simp: Let_def not_less split: if_splits)
  define lat_out where "lat_out = (ucast ((ucast lp_amount * ucast (pool_lat p) :: u128) div ucast (pool_lp_supply p)) :: u64)"
  define tok_out where "tok_out = (ucast ((ucast lp_amount * ucast (pool_tok p) :: u128) div ucast (pool_lp_supply p)) :: u64)"
  note p = pools_wf_Some [OF wf a(3)]
  have lp: "unat lp_amount + 1000 \<le> unat (pool_lp_supply p)"
    using p a(4) lp_shares_le_total [of L token provider] by (simp add: pool_wf_def word_le_nat_alt)
  have out: "unat lp_amount * unat r div unat (pool_lp_supply p) \<le> unat (r :: u64)" for r
  proof -
    have "unat lp_amount * unat r div unat (pool_lp_supply p) \<le>
        unat (pool_lp_supply p) * unat r div unat (pool_lp_supply p)"
      using lp by (intro div_le_mono mult_right_mono) simp_all
    then show ?thesis using lp by simp
  qed
  have lo: "unat lat_out = unat lp_amount * unat (pool_lat p) div unat (pool_lp_supply p)"
    using out [of "pool_lat p"] unat_lt2p [of "pool_lat p"] unfolding lat_out_def unat_mul_div by simp
  have to: "unat tok_out = unat lp_amount * unat (pool_tok p) div unat (pool_lp_supply p)"
    using out [of "pool_tok p"] unat_lt2p [of "pool_tok p"] unfolding tok_out_def unat_mul_div by simp
  have le: "lat_out \<le> pool_lat p" "tok_out \<le> pool_tok p" "lp_amount \<le> pool_lp_supply p"
    using out [of "pool_lat p"] out [of "pool_tok p"] lp by (simp_all add: word_le_nat_alt lo to)
  show thesis
    by (rule that [of acct p lat_out tok_out "p\<lparr>pool_lat := pool_lat p - lat_out, pool_tok := pool_tok p - tok_out,
            pool_lp_supply := pool_lp_supply p - lp_amount\<rparr>"])
      (use a p lp lo to le L1 in \<open>simp_all add: pool_wf_def unat_sub Let_def word_le_nat_alt
         flip: lat_out_def tok_out_def\<close>)
qed

lemma remainder_mult:
  fixes a l s :: nat
  assumes "a \<le> s" and "l' + a * l div s = l"
  shows "l * (s - a) \<le> l' * s"
proof -
  have "a * l div s * s \<le> a * l" by simp
  moreover obtain d where "s = a + d" using assms(1) le_Suc_ex by blast
  moreover have "l * s = l' * s + a * l div s * s" using assms(2) by (metis add_mult_distrib)
  ultimately show ?thesis by (simp add: algebra_simps)
qed

lemma shares_square:
  fixes l k s :: nat
  assumes "s ^ 2 \<le> l * k" and "0 < s" and "l * s' \<le> l' * s" and "k * s' \<le> k' * s"
  shows "s' ^ 2 \<le> l' * k'"
proof -
  have "s' ^ 2 * s ^ 2 \<le> (l * k) * s' ^ 2" using assms(1) by simp
  also have "\<dots> = (l * s') * (k * s')" by (simp add: power2_eq_square algebra_simps)
  also have "\<dots> \<le> (l' * s) * (k' * s)" using assms(3,4) by (rule mult_le_mono)
  also have "\<dots> = (l' * k') * s ^ 2" by (simp add: power2_eq_square algebra_simps)
  finally show ?thesis using assms(2) by simp
qed

lemma remove_liquidity_wf:
  assumes wf: "pools_wf L"
    and run: "apply_remove_liquidity P token provider lp_amount fee nonce sg tx L = Inr L1"
  shows "pools_wf L1"
  using remove_liquidity_Inr [OF assms]
proof cases
  case (1 acct p lat_out tok_out q)
  note p = pools_wf_Some [OF wf 1(4)]
  let ?s = "unat (pool_lp_supply p)" and ?a = "unat lp_amount"
  have s': "unat (pool_lp_supply q) = ?s - ?a" using 1(12) by simp
  have "unat (pool_lat p) * (?s - ?a) \<le> unat (pool_lat q) * ?s"
    using 1 by (intro remainder_mult) simp_all
  moreover have "unat (pool_tok p) * (?s - ?a) \<le> unat (pool_tok q) * ?s"
    using 1 by (intro remainder_mult) simp_all
  moreover have "0 < (?s - ?a)" using 1(13) by simp
  ultimately have q: "(?s - ?a) ^ 2 \<le> unat (pool_lat q) * unat (pool_tok q)"
    "0 < unat (pool_lat q)" "0 < unat (pool_tok q)"
    using p shares_square [of ?s "unat (pool_lat p)" "unat (pool_tok p)" "?s - ?a"
        "unat (pool_lat q)" "unat (pool_tok q)"]
    by (auto simp: pool_wf_def intro: ccontr)
  show ?thesis
  proof (rule pools_wf_put [OF wf, where p = q and t = token])
    show "lp_total u L1 = lp_total u L" if "u \<noteq> token" for u
      using that by (simp add: 1(14) lp_total_put_other)
    have sh: "?a \<le> unat (lp_shares L token provider)" using 1(5) by (simp add: word_le_nat_alt)
    have sum: "lp_total token L1 + ?a = lp_total token L"
      using lp_total_put_same [of token provider "lp_shares L token provider - lp_amount"
        "put_account provider (add_public token tok_out (add_public LAT_TOKEN lat_out
                (bump_nonce (debit_public LAT_TOKEN fee acct)))) L"] sh
      by (simp add: 1(14) unat_sub 1(5))
    then have "lp_total token L1 + 1000 \<le> unat (pool_lp_supply q)"
      using p s' unfolding pool_wf_def by linarith
    then show "pool_wf token (lp_total token L1) q"
      using p q s' 1(9) unfolding pool_wf_def by simp
  qed (use 1 in \<open>simp_all add: put_pool_def\<close>)
qed

lemma swap_Inr:
  assumes wf: "pools_wf L"
    and run: "apply_swap P token trader lat_in amount_in min_out fee nonce sg tx L = Inr L1"
  obtains acct p q out where "get_account L trader = Some acct" and "nonce = acc_nonce acct"
      and "token \<noteq> LAT_TOKEN" and "get_pool L token = Some p" and "amount_in \<noteq> 0" and "min_out \<le> out"
      and "pool_token q = token" and "pool_lp_supply q = pool_lp_supply p"
      and "unat (if lat_in then pool_lat q else pool_tok q) =
             unat (if lat_in then pool_lat p else pool_tok p) + unat amount_in"
      and "unat (if lat_in then pool_tok q else pool_lat q) + unat out =
             unat (if lat_in then pool_tok p else pool_lat p)"
      and "unat (pool_lat p) * unat (pool_tok p) \<le> unat (pool_lat q) * unat (pool_tok q)"
      and "0 < unat (pool_lat q)" and "0 < unat (pool_tok q)"
      and "unat (if lat_in then amount_in else 0) + unat fee \<le> unat (acct_public acct LAT_TOKEN)"
      and "lat_in \<or> amount_in \<le> acct_public acct token"
      and "L1 = put_pool q (put_account trader (bump_nonce (add_public (if lat_in then token else LAT_TOKEN) out
             (if lat_in then debit_public LAT_TOKEN (amount_in + fee) acct
              else debit_public token amount_in (debit_public LAT_TOKEN fee acct)))) L)"
proof -
  from run obtain acct p where a: "get_account L trader = Some acct" "nonce = acc_nonce acct"
      "get_pool L token = Some p" "amount_in \<noteq> 0"
    unfolding apply_swap_def by (auto split: if_splits)
  define r_in where "r_in = (if lat_in then pool_lat p else pool_tok p)"
  define r_out where "r_out = (if lat_in then pool_tok p else pool_lat p)"
  define out where "out = swap_out r_in r_out amount_in"
  define q where "q = (if lat_in then p\<lparr>pool_lat := r_in + amount_in, pool_tok := r_out - out\<rparr>
                       else p\<lparr>pool_tok := r_in + amount_in, pool_lat := r_out - out\<rparr>)"
  from run a have b: "min_out \<le> out" "checked_add r_in amount_in = Some (r_in + amount_in)"
      "unat (if lat_in then amount_in else 0) + unat fee \<le> unat (acct_public acct LAT_TOKEN)"
      "lat_in \<or> amount_in \<le> acct_public acct token"
    and L1: "L1 = put_pool q (put_account trader (bump_nonce (add_public (if lat_in then token else LAT_TOKEN) out
             (if lat_in then debit_public LAT_TOKEN (amount_in + fee) acct
              else debit_public token amount_in (debit_public LAT_TOKEN fee acct)))) L)"
    unfolding apply_swap_def
    by (cases lat_in; auto simp: Let_def not_less word_le_nat_alt unat_add_small checked_add_Some
          q_def out_def r_in_def r_out_def split: if_splits)+
  note p = pools_wf_Some [OF wf a(3)]
  have pos: "0 < unat r_in" "0 < unat r_out" using p by (simp_all add: r_in_def r_out_def pool_wf_def)
  note o = swap_out_bounds [OF out_def]
  have i: "unat (r_in + amount_in) = unat r_in + unat amount_in" using b(2) by (rule unat_checked_add)
  have s: "unat (r_out - out) = unat r_out - unat out" using o(1) by (simp add: unat_sub word_le_nat_alt)
  show thesis
    by (rule that [of acct p out q])
      (use a b p pos o(2) o(3) i s L1 in \<open>auto simp: pool_wf_def q_def r_in_def r_out_def mult.commute split: if_splits\<close>)
qed

lemma swap_wf:
  assumes wf: "pools_wf L"
    and run: "apply_swap P token trader lat_in amount_in min_out fee nonce sg tx L = Inr L1"
  shows "pools_wf L1"
  using swap_Inr [OF assms]
proof cases
  case (1 acct p q out)
  note p = pools_wf_Some [OF wf 1(4)]
  have "lp_total u L1 = lp_total u L" for u by (simp add: 1(16))
  then show ?thesis
    using pools_wf_put [OF wf, of L1 q token] p 1 by (simp add: pool_wf_def put_pool_def)
qed

end
