(* ===== verification/Ledger_Arms.thy ===== *)
theory Ledger_Arms
  imports Ledger_Pools
begin

text \<open>
  What a successful handler has checked and what it has written, one lemma per arm. The proofs of
  conservation, replay protection and dirty marking use these instead of the handlers themselves.
\<close>

lemma register_Inr:
  "register i L = Inr L1 \<Longrightarrow>
     get_account L i = None \<and> L1 = mark (DirtyAccount i) (put_account i account_default L)"
  by (auto simp: register_def is_registered_def get_account_def split: if_splits)

lemma create_token_Inr:
  assumes "apply_create_token P ticker creator amount sg tx L = Inr L1"
  obtains acct norm where "check_sig P creator tx sg = Inr ()" and "normalize_ticker ticker = Some norm"
    and "\<not> ticker_taken L norm" and "get_account L creator = Some acct"
    and "FLAT_TX_FEE \<le> acct_public acct LAT_TOKEN"
    and "L1 = put_account creator
          (acct_set (debit_public LAT_TOKEN FLAT_TX_FEE acct) (l_next_token_id L)
            (ct_add (acct_balance (debit_public LAT_TOKEN FLAT_TX_FEE acct) (l_next_token_id L)) (ct_mint P amount)))
          (put_token \<lparr>tm_id = l_next_token_id L, tm_ticker = norm, tm_creator = creator, tm_supply = amount\<rparr>
            (L\<lparr>l_next_token_id := l_next_token_id L + 1\<rparr>))"
  using assms unfolding apply_create_token_def
  by (auto simp: Let_def debit_public_def not_less split: if_splits)

lemma solvent_Inr:
  assumes "apply_solvent_transfer P pre token xfer L = Inr L1"
  obtains a where "get_account L (pk_to_bytes P (st_sender xfer)) = Some a" and "st_nonce xfer = acc_nonce a"
    and "preverified_against pre (acct_balance a token) \<or> solvent_verify P token (acct_balance a token) xfer"
    and "is_registered L (pk_to_bytes P (st_receiver xfer))"
    and "L1 = update_account (pk_to_bytes P (st_receiver xfer)) (add_pending token (receiver_ciphertext xfer))
          (update_account (pk_to_bytes P (st_sender xfer)) (debit_confidential P token xfer) L)"
  using assms unfolding apply_solvent_transfer_def by (auto simp: Let_def split: if_splits)

lemma rollover_Inr:
  assumes "apply_rollover P account nonce sg tx L = Inr L1"
  obtains a where "check_sig P account tx sg = Inr ()" and "get_account L account = Some a"
    and "nonce = acc_nonce a"
    and "L1 = put_account account
          (bump_nonce (foldl merge_pending a (sorted_list_of_fset (fmdom (acc_pending a))))) L"
  using assms unfolding apply_rollover_def by (auto simp: Let_def split: if_splits)

lemma deploy_Inr:
  assumes "apply_deploy P deployer code sg tx L = Inr L1"
  obtains a where "get_account L deployer = Some a" and "FLAT_TX_FEE \<le> acct_public a LAT_TOKEN"
    and "\<not> has_contract L (contract_id (blake3 P) deployer code)"
    and "L1 = put_contract (contract_id (blake3 P) deployer code) \<lparr>con_code = code, con_storage = fmempty\<rparr>
          (put_account deployer (debit_public LAT_TOKEN FLAT_TX_FEE a) L)"
  using assms unfolding apply_deploy_def by (auto simp: Let_def not_less split: if_splits)

lemma call_Inr:
  assumes "apply_call P contract caller inp nonce sg tx L = Inr L1"
  obtains a c st where "get_account L caller = Some a" and "nonce = acc_nonce a"
    and "get_contract L contract = Some c" and "FLAT_TX_FEE \<le> acct_public a LAT_TOKEN"
    and "execute (con_code c) (con_storage c) caller inp DEFAULT_GAS = (None, st)"
    and "L1 = update_account caller (\<lambda>a. bump_nonce (debit_public LAT_TOKEN FLAT_TX_FEE a))
          (put_contract contract (c\<lparr>con_storage := st\<rparr>) L)"
  using assms unfolding apply_call_def by (auto simp: not_less split: if_splits prod.splits option.splits)

lemma checked_total:
  "checked_add (amount :: u64) fee = Some n \<Longrightarrow> \<not> p < n \<Longrightarrow> unat amount + unat fee \<le> unat p \<and> n = amount + fee"
  by (auto simp: checked_add_Some not_less word_le_nat_alt unat_add_small)

lemma public_transfer_Inr:
  assumes "apply_public_transfer P token sender recipient amount fee nonce sg tx L = Inr L1"
  obtains a where "get_account L sender = Some a" and "nonce = acc_nonce a" and "is_registered L recipient"
    and "unat amount + unat fee \<le> unat (acct_public a token)"
    and "L1 = update_account recipient (add_public token amount)
          (update_account sender (\<lambda>s. bump_nonce (debit_public token (amount + fee) s)) L)"
  using assms unfolding apply_public_transfer_def
  by (auto simp: Let_def dest!: checked_total split: if_splits)

lemma shield_Inr:
  assumes "apply_shield P token sender recipient amount fee nonce sg tx L = Inr L1"
  obtains a where "get_account L sender = Some a" and "nonce = acc_nonce a" and "is_registered L recipient"
    and "unat amount + unat fee \<le> unat (acct_public a token)"
    and "L1 = update_account recipient (add_pending token (ct_mint P amount))
          (update_account sender (\<lambda>s. bump_nonce (debit_public token (amount + fee) s)) L)"
  using assms unfolding apply_shield_def by (auto simp: Let_def dest!: checked_total split: if_splits)

lemma unshield_Inr:
  assumes "apply_unshield P pre token recipient amount xfer sg tx L = Inr L1"
  obtains a where "check_sig P (pk_to_bytes P (st_sender xfer)) tx sg = Inr ()"
    and "st_receiver xfer = unshield_view_key P"
    and "get_account L (pk_to_bytes P (st_sender xfer)) = Some a" and "st_nonce xfer = acc_nonce a"
    and "preverified_against pre (acct_balance a token) \<or> solvent_verify P token (acct_balance a token) xfer"
    and "unshield_reveals P (receiver_ciphertext xfer) amount" and "is_registered L recipient"
    and "L1 = credit_public recipient token amount
          (update_account (pk_to_bytes P (st_sender xfer)) (debit_confidential P token xfer) L)"
  using assms unfolding apply_unshield_def by (auto simp: Let_def split: if_splits)

lemma shield_stealth_Inr:
  assumes "apply_shield_stealth P token sender one_time amount fee nonce sg tx L = Inr L1"
  obtains a where "get_account L sender = Some a" and "nonce = acc_nonce a"
    and "unat amount + unat fee \<le> unat (acct_public a token)"
    and "L1 = (let M = update_account sender (\<lambda>s. bump_nonce (debit_public token (amount + fee) s)) L in
          put_account one_time (add_pending token (ct_mint P amount) (account_or_default M one_time)) M)"
  using assms unfolding apply_shield_stealth_def
  by (auto simp: Let_def dest!: checked_total split: if_splits)

lemma anon_Inr:
  assumes "apply_anon_transfer P pre height token xfer L = Inr L1"
  obtains "at_epoch xfer = epoch_of height" and "\<not> nullifier_seen L (anon_nullifier P xfer)"
    and "check_ring P L token {||} (zip (at_ring xfer) (at_balances xfer)) = Inr ()"
    and "pre = Some PassAnon \<or> anon_verify P token xfer"
    and "length (at_balances xfer) = length (at_ring xfer)" and "length (at_enc xfer) = length (at_ring xfer)"
    and "L1 = (let M = foldl (debit_member P token) L (zip (at_ring xfer) (at_enc xfer));
                i = pk_to_bytes P (so_one_time (at_output xfer)) in
          insert_nullifier (anon_nullifier P xfer)
            (put_account i (add_pending token (at_credit xfer) (account_or_default M i)) M))"
  using assms unfolding apply_anon_transfer_def by (auto simp: Let_def split: if_splits)

lemma stake_Inr:
  assumes "apply_stake P height vid amount nonce sg tx L = Inr L1"
  obtains a released v where "get_account L vid = Some a" and "nonce = acc_nonce a"
    and "release_matured (validator_or_default L vid) height = (released, v)"
    and "amount \<le> saturating_add (acct_public a LAT_TOKEN) released"
    and "L1 = put_validator vid (v\<lparr>val_staked := saturating_add (val_staked v) amount\<rparr>)
          (put_account vid (bump_nonce (acct_set_public a LAT_TOKEN
             (saturating_add (acct_public a LAT_TOKEN) released - amount))) L)"
  using assms unfolding apply_stake_def
  by (cases "release_matured (validator_or_default L vid) height")
    (auto simp: Let_def not_less split: if_splits)

lemma unstake_Inr:
  assumes "apply_unstake P height vid amount nonce sg tx L = Inr L1"
  obtains a released v where "get_account L vid = Some a" and "nonce = acc_nonce a"
    and "release_matured (validator_or_default L vid) height = (released, v)"
    and "amount \<le> val_staked v"
    and "L1 = put_validator vid (v\<lparr>val_staked := val_staked v - amount,
             val_unbonding := val_unbonding v @ (if 0 < amount then [(amount, height + UNBONDING_BLOCKS)] else [])\<rparr>)
          (put_account vid (bump_nonce (acct_set_public a LAT_TOKEN
             (saturating_add (acct_public a LAT_TOKEN) released))) L)"
proof -
  obtain released v where rv: "release_matured (validator_or_default L vid) height = (released, v)"
    by fastforce
  show thesis
    using assms that rv unfolding apply_unstake_def
    by (cases "0 < amount") (auto simp: Let_def not_less split: if_splits)
qed

lemma slash_Inr:
  assumes "apply_slash P vid beneficiary vote_height block_a sig_a block_b sig_b L = Inr L1"
  obtains pk where "block_a \<noteq> block_b" and "pk_from_bytes P vid = Some pk"
    and "check_evidence P pk vote_height block_a sig_a = Inr ()"
    and "check_evidence P pk vote_height block_b sig_b = Inr ()"
    and "\<not> val_tombstoned (validator_or_default L vid)"
    and "slash_total (validator_or_default L vid) \<noteq> 0"
    and "L1 = (let s = slash_amount (slash_total (validator_or_default L vid));
                 M = put_validator vid (slash_validator s (validator_or_default L vid)) L;
                 reward = ucast ((ucast s * ucast SLASH_REWARD_BPS :: u128) div 10000) :: u64 in
          if reward > 0 then update_account beneficiary (add_public LAT_TOKEN reward) M else M)"
  using assms unfolding apply_slash_def by (auto simp: Let_def split: if_splits)

lemma htlc_lock_Inr:
  assumes "apply_htlc_lock P height token sender recipient amount hashlock expiry fee nonce sg tx L = Inr L1"
  obtains a where "get_account L sender = Some a" and "nonce = acc_nonce a" and "amount \<noteq> 0"
    and "height < expiry"
    and "get_htlc L (htlc_id (blake3 P) token sender recipient amount hashlock expiry nonce) = None"
    and "unat (if token = LAT_TOKEN then amount else 0) + unat fee \<le> unat (acct_public a LAT_TOKEN)"
    and "token = LAT_TOKEN \<or> amount \<le> acct_public a token"
    and "L1 = put_htlc (htlc_id (blake3 P) token sender recipient amount hashlock expiry nonce)
          \<lparr>htlc_token = token, htlc_from = sender, htlc_to = recipient,
           htlc_amount = amount, htlc_hashlock = hashlock, htlc_expiry = expiry\<rparr>
          (put_account sender (bump_nonce
             (if token = LAT_TOKEN then debit_public LAT_TOKEN (amount + fee) a
              else debit_public token amount (debit_public LAT_TOKEN fee a))) L)"
  using assms unfolding apply_htlc_lock_def
  by (auto simp: Let_def not_less not_le word_le_nat_alt word_less_nat_alt dest!: checked_total [unfolded not_less word_le_nat_alt] split: if_splits)

lemma htlc_claim_Inr:
  assumes "apply_htlc_claim P height i preimage L = Inr L1"
  obtains h where "get_htlc L i = Some h" and "height < htlc_expiry h"
    and "sha256 P (be_bytes 32 preimage) = htlc_hashlock h"
    and "L1 = credit_public (htlc_to h) (htlc_token h) (htlc_amount h) (drop_htlc i L)"
  using assms unfolding apply_htlc_claim_def by (auto simp: not_le split: if_splits)

lemma htlc_refund_Inr:
  assumes "apply_htlc_refund height i L = Inr L1"
  obtains h where "get_htlc L i = Some h" and "htlc_expiry h \<le> height"
    and "L1 = credit_public (htlc_from h) (htlc_token h) (htlc_amount h) (drop_htlc i L)"
  using assms unfolding apply_htlc_refund_def by (auto simp: not_less split: if_splits)

lemma curve_buy_Inr:
  assumes "curve_trade_buy token trader creator amount min_out fee acct math L = Inr L1"
  obtains f math1 where "apply_buy math amount = Inr (Some (f, math1))" and "min_out \<le> fill_out f"
    and "fill_out f \<noteq> 0" and "unat amount + unat fee \<le> unat (acct_public acct LAT_TOKEN)"
    and "L1 = put_curve (curve_from_math token math1) (credit_public creator LAT_TOKEN (fill_fee f)
          (put_account trader (bump_nonce (add_public token (fill_out f)
             (debit_public LAT_TOKEN (amount + fee) acct))) L))"
  using assms unfolding curve_trade_buy_def
  by (auto simp: Let_def not_less dest!: checked_total [unfolded not_less]
      split: sum.splits panic.splits option.splits prod.splits if_splits)

lemma curve_sell_Inr:
  assumes "curve_trade_sell token trader creator amount min_out fee acct math L = Inr L1"
  obtains f math1 where "apply_sell math amount (acct_public acct token) = Inr (Some (f, math1))"
    and "min_out \<le> fill_out f" and "amount \<le> acct_public acct token"
    and "unat (fill_out f) + unat (fill_fee f) \<le> unat (real_lat math)"
    and "fee \<le> acct_public acct LAT_TOKEN"
    and "L1 = put_curve (curve_from_math token math1) (credit_public creator LAT_TOKEN (fill_fee f)
          (put_account trader (bump_nonce (add_public LAT_TOKEN (fill_out f)
             (acct_set_public (debit_public LAT_TOKEN fee acct) token (acct_public acct token - amount)))) L))"
  using assms unfolding curve_trade_sell_def
  by (auto simp: Let_def not_less checked_add_Some word_le_nat_alt unat_add_small
      split: sum.splits panic.splits option.splits prod.splits if_splits)

lemma curve_trade_Inr:
  assumes "apply_curve_trade P token trader is_buy amount min_out fee nonce sg tx L = Inr L1"
  obtains meta acct cp where "amount \<noteq> 0" and "token \<noteq> LAT_TOKEN" and "token_by_id L token = Some meta"
    and "get_account L trader = Some acct" and "nonce = acc_nonce acct"
    and "get_curve L token = Some cp \<or> get_curve L token = None \<and> is_buy \<and> cp = curve_genesis token"
    and "\<not> cp_graduated cp"
    and "if is_buy then curve_trade_buy token trader (tm_creator meta) amount min_out fee acct (curve_math cp) L = Inr L1
         else curve_trade_sell token trader (tm_creator meta) amount min_out fee acct (curve_math cp) L = Inr L1"
  using assms unfolding apply_curve_trade_def
  by (cases is_buy; auto split: if_splits option.splits)

end
