(* ===== verification/Ledger_Value.thy ===== *)
theory Ledger_Value
  imports Ledger_Arms
begin

text \<open>
  The public value of the ledger: what accounts, pools, curves, hash locks and validators hold of a
  token in the open. No transaction creates any, beyond what it takes out of the confidential
  balances or, for a curve's own token, what the curve mints.
\<close>

section \<open>What a record holds\<close>

definition acc_holds :: "u32 \<Rightarrow> 'g account \<Rightarrow> nat" where
  "acc_holds t a = unat (acct_public a t)"

definition pool_holds :: "u32 \<Rightarrow> pool \<Rightarrow> nat" where
  "pool_holds t p = (if t = LAT_TOKEN then unat (pool_lat p) else 0) +
     (if t = pool_token p then unat (pool_tok p) else 0)"

definition curve_holds :: "u32 \<Rightarrow> curve_pool \<Rightarrow> nat" where
  "curve_holds t c = (if t = LAT_TOKEN then unat (cp_real_lat c) else 0)"

definition coin :: "u32 \<Rightarrow> u32 \<Rightarrow> u64 \<Rightarrow> nat" where
  "coin t u n = (if t = u then unat n else 0)"

definition htlc_holds :: "u32 \<Rightarrow> htlc \<Rightarrow> nat" where
  "htlc_holds t h = coin t (htlc_token h) (htlc_amount h)"

definition val_total :: "validator \<Rightarrow> nat" where
  "val_total v = unat (val_staked v) + (\<Sum>(a, _) \<leftarrow> val_unbonding v. unat a)"

definition val_holds :: "u32 \<Rightarrow> validator \<Rightarrow> nat" where
  "val_holds t v = (if t = LAT_TOKEN then val_total v else 0)"

definition acc_sum :: "u32 \<Rightarrow> 'g ledger \<Rightarrow> nat" where
  "acc_sum t L = fm_sum (acc_holds t) (l_accounts L)"

definition pool_sum :: "u32 \<Rightarrow> 'g ledger \<Rightarrow> nat" where
  "pool_sum t L = fm_sum (pool_holds t) (l_pools L)"

definition curve_sum :: "u32 \<Rightarrow> 'g ledger \<Rightarrow> nat" where
  "curve_sum t L = fm_sum (curve_holds t) (l_curves L)"

definition htlc_sum :: "u32 \<Rightarrow> 'g ledger \<Rightarrow> nat" where
  "htlc_sum t L = fm_sum (htlc_holds t) (l_htlcs L)"

definition val_sum :: "u32 \<Rightarrow> 'g ledger \<Rightarrow> nat" where
  "val_sum t L = fm_sum (val_holds t) (l_validators L)"

definition public_total :: "u32 \<Rightarrow> 'g ledger \<Rightarrow> nat" where
  "public_total t L = acc_sum t L + pool_sum t L + curve_sum t L + htlc_sum t L + val_sum t L"

lemmas sum_defs = acc_sum_def pool_sum_def curve_sum_def htlc_sum_def val_sum_def

section \<open>How the writes change it\<close>

lemma acc_sum_put:
  "acc_sum t (put_account i a L) + opt_sum (acc_holds t) (get_account L i) = acc_sum t L + acc_holds t a"
  using fm_sum_upd [of "acc_holds t" i a "l_accounts L"]
  by (simp add: acc_sum_def put_account_def get_account_def)

lemma acc_sum_put_over:
  "get_account L i = Some b \<Longrightarrow> acc_sum t (put_account i a L) + acc_holds t b = acc_sum t L + acc_holds t a"
  using acc_sum_put [of t i a L] by simp

lemma acc_sum_update:
  "get_account L i = Some b \<Longrightarrow>
     acc_sum t (update_account i f L) + acc_holds t b = acc_sum t L + acc_holds t (f b)"
  using acc_sum_put_over [of L i b t "f b"] by (simp add: update_account_def)

lemma acc_sum_update_le:
  assumes "\<And>a. acc_holds t (f a) \<le> acc_holds t a + n"
  shows "acc_sum t (update_account i f L) \<le> acc_sum t L + n"
proof (cases "get_account L i")
  case (Some b)
  then show ?thesis using acc_sum_update [OF Some, of t f] assms [of b] by linarith
qed (simp add: update_account_def)

lemma acc_sum_keep:
  assumes "\<And>a. acc_holds t (f a) = acc_holds t a"
  shows "acc_sum t (update_account i f L) = acc_sum t L"
proof (cases "get_account L i")
  case (Some b)
  then show ?thesis using acc_sum_update [OF Some, of t f] assms [of b] by linarith
qed (simp add: update_account_def)

lemma acc_holds_add: "acc_holds t (add_public u n a) \<le> acc_holds t a + coin t u n"
  by (simp add: acc_holds_def coin_def unat_saturating_add_le)

lemma acc_holds_debit:
  "n \<le> acct_public a u \<Longrightarrow> acc_holds t (debit_public u n a) + coin t u n = acc_holds t a"
  by (simp add: acc_holds_def coin_def unat_sub word_le_nat_alt)

lemma acc_holds_keep [simp]:
  "acc_holds t (bump_nonce a) = acc_holds t a"
  "acc_holds t (acct_set a u ct) = acc_holds t a"
  "acc_holds t (add_pending u ct' a') = acc_holds t a'"
  "acc_holds t (debit_confidential P u x b) = acc_holds t b"
  "acc_holds t account_default = 0"
  by (simp_all add: acc_holds_def)

lemma acc_holds_merge [simp]: "acc_holds t (foldl merge_pending a ts) = acc_holds t a"
  by (simp add: acc_holds_def)

lemma opt_sum_default:
  "opt_sum (acc_holds t) (get_account L i) = acc_holds t (account_or_default L i)"
  by (simp add: account_or_default_def split: option.splits)

lemma acc_sum_credit: "acc_sum t (credit_public i u n L) \<le> acc_sum t L + coin t u n"
proof (cases "n = 0")
  case False
  then have "acc_sum t (credit_public i u n L) =
      acc_sum t (put_account i (add_public u n (account_or_default L i)) L)"
    by (simp add: credit_public_def Let_def add_public_def acc_sum_def)
  then show ?thesis
    using acc_sum_put [of t i "add_public u n (account_or_default L i)" L]
      acc_holds_add [of t u n "account_or_default L i"] by (simp add: opt_sum_default)
qed (simp add: credit_public_def)

lemma acc_sum_stealth:
  "acc_sum t (put_account i (add_pending u ct (account_or_default L i)) L) = acc_sum t L"
  using acc_sum_put [of t i "add_pending u ct (account_or_default L i)" L] by (simp add: opt_sum_default)

lemma acc_sum_debit_members: "acc_sum t (foldl (debit_member P u) L mds) = acc_sum t L"
  by (induction mds arbitrary: L) (simp_all add: debit_member_def acc_sum_keep)

lemma pool_sum_put:
  "pool_sum t (put_pool p L) + opt_sum (pool_holds t) (get_pool L (pool_token p)) \<le> pool_sum t L + pool_holds t p"
  using fm_sum_upd [of "pool_holds t" "pool_token p" p "l_pools L"]
    fm_sum_drop [of "pool_holds t" "pool_token p" "l_pools L"]
  by (simp add: pool_sum_def put_pool_def get_pool_def)

lemma curve_sum_put:
  "curve_sum t (put_curve c L) + opt_sum (curve_holds t) (get_curve L (cp_token c)) =
     curve_sum t L + curve_holds t c"
  using fm_sum_upd [of "curve_holds t" "cp_token c" c "l_curves L"]
  by (simp add: curve_sum_def put_curve_def get_curve_def)

lemma htlc_sum_put:
  "htlc_sum t (put_htlc i h L) + opt_sum (htlc_holds t) (get_htlc L i) = htlc_sum t L + htlc_holds t h"
  using fm_sum_upd [of "htlc_holds t" i h "l_htlcs L"]
  by (simp add: htlc_sum_def put_htlc_def get_htlc_def)

lemma htlc_sum_drop:
  "htlc_sum t (drop_htlc i L) + opt_sum (htlc_holds t) (get_htlc L i) = htlc_sum t L"
  using fm_sum_drop [of "htlc_holds t" i "l_htlcs L"]
  by (simp add: htlc_sum_def drop_htlc_def get_htlc_def)

lemma val_sum_put:
  "val_sum t (put_validator i v L) + val_holds t (validator_or_default L i) = val_sum t L + val_holds t v"
proof -
  have d: "opt_sum (val_holds t) (get_validator L i) = val_holds t (validator_or_default L i)"
    by (simp add: validator_or_default_def validator_default_def val_holds_def val_total_def split: option.splits)
  show ?thesis
    using fm_sum_upd [of "val_holds t" i v "l_validators L"] d
      fm_sum_drop [of "val_holds t" i "l_validators L"]
    by (auto simp: val_sum_def put_validator_def get_validator_def val_holds_def val_total_def)
qed

lemma sum_frame [simp]:
  "pool_sum t (put_account i a L) = pool_sum t L" "curve_sum t (put_account i a L) = curve_sum t L"
  "htlc_sum t (put_account i a L) = htlc_sum t L" "val_sum t (put_account i a L) = val_sum t L"
  "pool_sum t (update_account i f L) = pool_sum t L" "curve_sum t (update_account i f L) = curve_sum t L"
  "htlc_sum t (update_account i f L) = htlc_sum t L" "val_sum t (update_account i f L) = val_sum t L"
  "pool_sum t (credit_public i u n L) = pool_sum t L" "curve_sum t (credit_public i u n L) = curve_sum t L"
  "htlc_sum t (credit_public i u n L) = htlc_sum t L" "val_sum t (credit_public i u n L) = val_sum t L"
  by (simp_all add: sum_defs)

lemma other_sums [simp]:
  "public_total t (put_contract i c L) = public_total t L"
  "public_total t (insert_nullifier nf L) = public_total t L"
  "public_total t (put_token m L) = public_total t L"
  "public_total t (put_lp u i n L) = public_total t L"
  "public_total t (mark k L) = public_total t L"
  "public_total t (mark_all ks L) = public_total t L"
  "public_total t (L\<lparr>l_next_token_id := i2\<rparr>) = public_total t L"
  by (simp_all add: public_total_def sum_defs put_token_def)

lemma public_total_account:
  "get_account L i = Some b \<Longrightarrow>
     public_total t (put_account i a L) + acc_holds t b = public_total t L + acc_holds t a"
  using acc_sum_put_over [of L i b t a] by (simp add: public_total_def)

lemma public_total_account_keep:
  "get_account L i = Some b \<Longrightarrow> acc_holds t a = acc_holds t b \<Longrightarrow>
     public_total t (put_account i a L) = public_total t L"
  using public_total_account [of L i b t a] by simp

lemma public_total_update:
  "get_account L i = Some b \<Longrightarrow>
     public_total t (update_account i f L) + acc_holds t b = public_total t L + acc_holds t (f b)"
  using acc_sum_update [of L i b t f] by (simp add: public_total_def)

lemma public_total_keep:
  "(\<And>a. acc_holds t (f a) = acc_holds t a) \<Longrightarrow> public_total t (update_account i f L) = public_total t L"
  by (simp add: public_total_def acc_sum_keep)

lemma public_total_add:
  "public_total t (update_account i (add_public u n) L) \<le> public_total t L + coin t u n"
  using acc_sum_update_le [of t "add_public u n" "coin t u n" i L, OF acc_holds_add]
  by (simp add: public_total_def)

lemma public_total_credit: "public_total t (credit_public i u n L) \<le> public_total t L + coin t u n"
  using acc_sum_credit [of t i u n L] by (simp add: public_total_def)

lemma public_total_stealth:
  "public_total t (put_account i (add_pending u ct (account_or_default L i)) L) = public_total t L"
  by (simp add: public_total_def acc_sum_stealth)

lemma public_total_debit_members: "public_total t (foldl (debit_member P u) L mds) = public_total t L"
  by (induction mds arbitrary: L) (simp_all add: debit_member_def public_total_keep)

lemma public_total_pool:
  "public_total t (put_pool p L) + opt_sum (pool_holds t) (get_pool L (pool_token p)) \<le>
     public_total t L + pool_holds t p"
  using pool_sum_put [of t p L] by (simp add: public_total_def sum_defs)

lemma public_total_curve:
  "public_total t (put_curve c L) + opt_sum (curve_holds t) (get_curve L (cp_token c)) =
     public_total t L + curve_holds t c"
  using curve_sum_put [of t c L] by (simp add: public_total_def sum_defs)

lemma public_total_htlc:
  "get_htlc L i = None \<Longrightarrow> public_total t (put_htlc i h L) = public_total t L + htlc_holds t h"
  using htlc_sum_put [of t i h L] by (simp add: public_total_def sum_defs)

lemma public_total_drop_htlc:
  "get_htlc L i = Some h \<Longrightarrow> public_total t (drop_htlc i L) + htlc_holds t h = public_total t L"
  using htlc_sum_drop [of t i L] by (simp add: public_total_def sum_defs)

lemma public_total_validator:
  "public_total t (put_validator i v L) + val_holds t (validator_or_default L i) =
     public_total t L + val_holds t v"
  using val_sum_put [of t i v L] by (simp add: public_total_def sum_defs)


section \<open>Validators\<close>

lemma unat_sum_list_le: "unat (sum_list (map f xs)) \<le> (\<Sum>x \<leftarrow> xs. unat (f x :: 'a::len word))"
proof (induction xs)
  case (Cons x xs)
  then show ?case using unat_add_le [of "f x" "sum_list (map f xs)"] by simp
qed simp

lemma release_holds:
  assumes "release_matured v h = (released, w)"
  shows "unat released + val_total w \<le> val_total v" and "val_staked w = val_staked v"
    and "val_tombstoned w = val_tombstoned v"
proof -
  have split: "(\<Sum>(a, _) \<leftarrow> filter Q xs. unat a) + (\<Sum>(a, _) \<leftarrow> filter (\<lambda>x. \<not> Q x) xs. unat a) =
      (\<Sum>(a, _) \<leftarrow> xs. unat a)" for Q and xs :: "(u64 \<times> u64) list"
    by (induction xs) auto
  let ?Q = "\<lambda>(amount :: u64, release). release \<le> h"
  have "unat released \<le> (\<Sum>(a, _) \<leftarrow> filter ?Q (val_unbonding v). unat a)"
    using assms unat_sum_list_le [of fst "filter ?Q (val_unbonding v)"]
    by (auto simp: release_matured_def case_prod_beta')
  moreover have "w = v\<lparr>val_unbonding := filter (\<lambda>x. \<not> ?Q x) (val_unbonding v)\<rparr>"
    using assms by (auto simp: release_matured_def case_prod_beta')
  ultimately show "unat released + val_total w \<le> val_total v"
    "val_staked w = val_staked v" "val_tombstoned w = val_tombstoned v"
    using split [of ?Q "val_unbonding v"] by (simp_all add: val_total_def)
qed

lemma slash_unbonding_sum:
  "unat r \<le> (\<Sum>(a, _) \<leftarrow> us. unat a) \<Longrightarrow>
     (\<Sum>(a, _) \<leftarrow> slash_unbonding r us. unat a) + unat r = (\<Sum>(a, _) \<leftarrow> us. unat a)"
proof (induction r us rule: slash_unbonding.induct)
  case (2 r a rel us)
  show ?case
  proof (cases "r > 0")
    case True
    let ?t = "min r a"
    have t: "unat ?t = min (unat r) (unat a)" by (simp add: min_def word_le_nat_alt)
    have r: "unat (r - ?t) = unat r - unat ?t" and a: "unat (a - ?t) = unat a - unat ?t"
      by (simp_all add: unat_sub)
    have "unat (r - ?t) \<le> (\<Sum>(a, _) \<leftarrow> us. unat a)" using 2(2) by (simp add: r t)
    from 2(1) [OF True refl this] True show ?thesis using r a t
      by (cases "r \<le> a") (simp_all add: Let_def min_def word_le_nat_alt split: if_splits)
  next
    case False
    then have "unat r = 0" by (simp add: word_less_nat_alt)
    then show ?thesis using False by simp
  qed
qed simp

lemma positive_sum: "(\<Sum>(a, _) \<leftarrow> filter (\<lambda>(a, _). a > 0) us. unat a) = (\<Sum>(a, _) \<leftarrow> us. unat (a :: u64))"
  by (induction us) (auto simp: word_less_nat_alt)

lemma slash_total_le: "unat (slash_total v) \<le> val_total v"
proof -
  have "unat (slash_total v) \<le> unat (val_staked v) + unat (sum_list (map fst (val_unbonding v)))"
    by (simp add: slash_total_def unat_saturating_add_le)
  then show ?thesis using unat_sum_list_le [of fst "val_unbonding v"]
    by (simp add: val_total_def case_prod_beta')
qed

lemma slash_validator_total:
  assumes "unat s \<le> val_total v"
  shows "val_total (slash_validator s v) + unat s = val_total v"
proof -
  let ?b = "min s (val_staked v)"
  have b: "unat ?b = min (unat s) (unat (val_staked v))" by (simp add: min_def word_le_nat_alt)
  have "unat (s - ?b) = unat s - unat ?b" "unat (val_staked v - ?b) = unat (val_staked v) - unat ?b"
    by (simp_all add: unat_sub)
  moreover from this have "unat (s - ?b) \<le> (\<Sum>(a, _) \<leftarrow> val_unbonding v. unat a)"
    using assms b unfolding val_total_def by linarith
  ultimately show ?thesis using slash_unbonding_sum [of "s - ?b" "val_unbonding v"] b
    by (cases "s \<le> val_staked v")
      (simp_all add: slash_validator_def Let_def val_total_def positive_sum min_def word_le_nat_alt split: if_splits)
qed

lemma unat_slash_amount: "unat (slash_amount n) = max (unat n div 10) 1"
proof -
  have "unat ((ucast n * ucast SLASH_FRACTION_BPS :: u128) div 10000) = unat n * 1000 div 10000"
    using unat_widening_mult [of n SLASH_FRACTION_BPS] by (simp add: SLASH_FRACTION_BPS_def unat_div)
  then have "unat (ucast ((ucast n * ucast SLASH_FRACTION_BPS :: u128) div 10000) :: u64) = unat n div 10"
    using unat_lt2p [of n] by (simp add: unat_ucast)
  then show ?thesis by (simp add: slash_amount_def max_def word_le_nat_alt)
qed

lemma slash_amount_le: "n \<noteq> 0 \<Longrightarrow> unat (slash_amount n) \<le> unat n"
proof -
  assume "n \<noteq> 0"
  then have "0 < unat n" by (simp add: unat_gt_0)
  then show ?thesis unfolding unat_slash_amount by auto
qed

lemma unat_slash_reward:
  "unat (ucast ((ucast s * ucast SLASH_REWARD_BPS :: u128) div 10000) :: u64) = unat (s :: u64) div 20"
proof -
  have "unat ((ucast s * ucast SLASH_REWARD_BPS :: u128) div 10000) = unat s * 500 div 10000"
    using unat_widening_mult [of s SLASH_REWARD_BPS] by (simp add: SLASH_REWARD_BPS_def unat_div)
  then show ?thesis using unat_lt2p [of s] by (simp add: unat_ucast)
qed

section \<open>The arms\<close>

text \<open> A transparent debit followed by writes that add no more than it took.\<close>

lemma public_total_debit:
  assumes "get_account L i = Some a" and "unat n + unat m \<le> unat (acct_public a u)"
  shows "public_total t (update_account i (\<lambda>s. bump_nonce (debit_public u (n + m) s)) L) + coin t u n + coin t u m \<le>
    public_total t L"
proof -
  have nm: "unat (n + m) = unat n + unat m" using assms(2) unat_lt2p [of "acct_public a u"]
    by (intro unat_add_small) simp
  then have "acc_holds t (debit_public u (n + m) a) + coin t u (n + m) = acc_holds t a"
    using assms(2) by (intro acc_holds_debit) (simp add: word_le_nat_alt)
  then show ?thesis
    using public_total_update [OF assms(1), of t "\<lambda>s. bump_nonce (debit_public u (n + m) s)"] nm
    by (simp add: coin_def split: if_splits)
qed

lemma public_transfer_value:
  assumes "apply_public_transfer P token sender recipient amount fee nonce sg tx L = Inr L1"
  shows "public_total t L1 + coin t token fee \<le> public_total t L"
  using assms
proof (cases rule: public_transfer_Inr [consumes 1])
  case (1 a)
  show ?thesis unfolding 1(5)
    using public_total_debit [OF 1(1,4), of t] public_total_add [of t recipient token amount
        "update_account sender (\<lambda>s. bump_nonce (debit_public token (amount + fee) s)) L"]
    by linarith
qed

lemma shield_value:
  assumes "apply_shield P token sender recipient amount fee nonce sg tx L = Inr L1"
  shows "public_total t L1 + coin t token amount + coin t token fee \<le> public_total t L"
  using assms
proof (cases rule: shield_Inr [consumes 1])
  case (1 a)
  show ?thesis unfolding 1(5)
    using public_total_debit [OF 1(1,4), of t] by (simp add: public_total_keep)
qed

lemma shield_stealth_value:
  assumes "apply_shield_stealth P token sender one_time amount fee nonce sg tx L = Inr L1"
  shows "public_total t L1 + coin t token amount + coin t token fee \<le> public_total t L"
  using assms
proof (cases rule: shield_stealth_Inr [consumes 1])
  case (1 a)
  show ?thesis unfolding 1(4) Let_def
    using public_total_debit [OF 1(1,3), of t] by (simp add: public_total_stealth)
qed

lemma solvent_value:
  assumes "apply_solvent_transfer P pre token xfer L = Inr L1"
  shows "public_total t L1 = public_total t L"
  using assms by (elim solvent_Inr) (simp add: public_total_keep)

lemma unshield_value:
  assumes "apply_unshield P pre token recipient amount xfer sg tx L = Inr L1"
  shows "public_total t L1 \<le> public_total t L + coin t token amount"
  using assms
proof (cases rule: unshield_Inr [consumes 1])
  case (1 a)
  show ?thesis unfolding 1(8)
    using public_total_credit [of t recipient token amount
      "update_account (pk_to_bytes P (st_sender xfer)) (debit_confidential P token xfer) L"]
    by (simp add: public_total_keep)
qed

lemma anon_value:
  assumes "apply_anon_transfer P pre height token xfer L = Inr L1"
  shows "public_total t L1 = public_total t L"
  using assms by (elim anon_Inr) (simp add: Let_def public_total_stealth public_total_debit_members)

lemma rollover_value:
  assumes "apply_rollover P account nonce sg tx L = Inr L1"
  shows "public_total t L1 = public_total t L"
  using assms
proof (cases rule: rollover_Inr [consumes 1])
  case (1 a)
  show ?thesis unfolding 1(4) by (rule public_total_account_keep [OF 1(2)]) simp
qed

lemma register_value:
  assumes "register i L = Inr L1"
  shows "public_total t L1 = public_total t L"
proof -
  note r = register_Inr [OF assms]
  then have "acc_sum t (put_account i account_default L) = acc_sum t L"
    using acc_sum_put [of t i account_default L] by simp
  then have "public_total t (put_account i account_default L) = public_total t L"
    by (simp add: public_total_def)
  then show ?thesis using r by simp
qed

lemma flat_fee_value:
  assumes "get_account L i = Some a" and "FLAT_TX_FEE \<le> acct_public a LAT_TOKEN"
    and "acc_holds t b = acc_holds t (debit_public LAT_TOKEN FLAT_TX_FEE a)"
  shows "public_total t (put_account i b L) + coin t LAT_TOKEN FLAT_TX_FEE \<le> public_total t L"
  using public_total_account [OF assms(1), of t b] acc_holds_debit [OF assms(2), of t] assms(3)
  by linarith

lemma create_token_value:
  assumes "apply_create_token P ticker creator amount sg tx L = Inr L1"
  shows "public_total t L1 + coin t LAT_TOKEN FLAT_TX_FEE \<le> public_total t L"
  using assms
proof (cases rule: create_token_Inr [consumes 1])
  case (1 acct norm)
  let ?M = "put_token \<lparr>tm_id = l_next_token_id L, tm_ticker = norm, tm_creator = creator, tm_supply = amount\<rparr>
            (L\<lparr>l_next_token_id := l_next_token_id L + 1\<rparr>)"
  have "get_account ?M creator = Some acct" using 1(4) by (simp add: get_account_def put_token_def)
  from flat_fee_value [OF this 1(5), of t] show ?thesis unfolding 1(6)
    by (metis acc_holds_keep(2) other_sums(3,7))
qed

lemma deploy_value:
  assumes "apply_deploy P deployer code sg tx L = Inr L1"
  shows "public_total t L1 + coin t LAT_TOKEN FLAT_TX_FEE \<le> public_total t L"
  using assms
proof (cases rule: deploy_Inr [consumes 1])
  case (1 a)
  then show ?thesis using flat_fee_value [OF 1(1,2), of t] by simp
qed

lemma call_value:
  assumes "apply_call P contract caller inp nonce sg tx L = Inr L1"
  shows "public_total t L1 + coin t LAT_TOKEN FLAT_TX_FEE \<le> public_total t L"
  using assms
proof (cases rule: call_Inr [consumes 1])
  case (1 a c st)
  let ?M = "put_contract contract (c\<lparr>con_storage := st\<rparr>) L"
  have "get_account ?M caller = Some a" using 1(1) by simp
  from public_total_update [OF this, of t "\<lambda>a. bump_nonce (debit_public LAT_TOKEN FLAT_TX_FEE a)"]
  show ?thesis unfolding 1(6) using acc_holds_debit [OF 1(4), of t] by simp
qed

lemma stake_value:
  assumes "apply_stake P height vid amount nonce sg tx L = Inr L1"
  shows "public_total t L1 \<le> public_total t L"
  using assms
proof (cases rule: stake_Inr [consumes 1])
  case (1 a released v)
  let ?avail = "saturating_add (acct_public a LAT_TOKEN) released"
  let ?v = "v\<lparr>val_staked := saturating_add (val_staked v) amount\<rparr>"
  let ?b = "bump_nonce (acct_set_public a LAT_TOKEN (?avail - amount))"
  let ?M = "put_account vid ?b L"
  have "val_total ?v \<le> val_total v + unat amount"
    using unat_saturating_add_le [of "val_staked v" amount] by (simp add: val_total_def)
  then have "val_total ?v + unat released \<le> val_total (validator_or_default L vid) + unat amount"
    using release_holds(1) [OF 1(3)] by linarith
  moreover have "unat (?avail - amount) + unat amount \<le> unat (acct_public a LAT_TOKEN) + unat released"
    using 1(4) unat_saturating_add_le [of "acct_public a LAT_TOKEN" released]
    by (simp add: unat_sub word_le_nat_alt)
  moreover have "validator_or_default ?M vid = validator_or_default L vid"
    by (simp add: validator_or_default_def get_validator_def)
  ultimately show ?thesis unfolding 1(5)
    using public_total_validator [of t vid ?v ?M] public_total_account [OF 1(1), of t ?b]
    by (simp add: val_holds_def acc_holds_def split: if_splits)
qed

lemma unstake_value:
  assumes "apply_unstake P height vid amount nonce sg tx L = Inr L1"
  shows "public_total t L1 \<le> public_total t L"
  using assms
proof (cases rule: unstake_Inr [consumes 1])
  case (1 a released v)
  let ?v = "v\<lparr>val_staked := val_staked v - amount,
             val_unbonding := val_unbonding v @ (if 0 < amount then [(amount, height + UNBONDING_BLOCKS)] else [])\<rparr>"
  let ?b = "bump_nonce (acct_set_public a LAT_TOKEN (saturating_add (acct_public a LAT_TOKEN) released))"
  let ?M = "put_account vid ?b L"
  have "val_total ?v = val_total v"
    using 1(4) by (auto simp: val_total_def unat_sub word_le_nat_alt word_less_nat_alt)
  then have "val_total ?v + unat released \<le> val_total (validator_or_default L vid)"
    using release_holds(1) [OF 1(3)] by linarith
  moreover have "validator_or_default ?M vid = validator_or_default L vid"
    by (simp add: validator_or_default_def get_validator_def)
  ultimately show ?thesis unfolding 1(5)
    using public_total_validator [of t vid ?v ?M] public_total_account [OF 1(1), of t ?b]
      unat_saturating_add_le [of "acct_public a LAT_TOKEN" released]
    by (simp add: val_holds_def acc_holds_def split: if_splits)
qed

lemma slash_value:
  assumes "apply_slash P vid beneficiary vote_height block_a sig_a block_b sig_b L = Inr L1"
  shows "public_total t L1 \<le> public_total t L"
  using assms
proof (cases rule: slash_Inr [consumes 1])
  case (1 pk)
  define v where "v = validator_or_default L vid"
  define s where "s = slash_amount (slash_total v)"
  define reward where "reward = (ucast ((ucast s * ucast SLASH_REWARD_BPS :: u128) div 10000) :: u64)"
  define M where "M = put_validator vid (slash_validator s v) L"
  have "unat s \<le> val_total v"
    using slash_amount_le [of "slash_total v"] slash_total_le [of v] 1(6) by (simp add: s_def v_def)
  then have "val_total (slash_validator s v) + unat s = val_total v" by (rule slash_validator_total)
  moreover have "unat reward \<le> unat s" by (simp add: reward_def unat_slash_reward)
  ultimately have "public_total t M + coin t LAT_TOKEN reward \<le> public_total t L"
    using public_total_validator [of t vid "slash_validator s v" L]
    by (simp add: M_def val_holds_def coin_def flip: v_def split: if_splits)
  moreover have "L1 = (if reward > 0 then update_account beneficiary (add_public LAT_TOKEN reward) M else M)"
    using 1(7) by (simp add: Let_def s_def v_def reward_def M_def)
  ultimately show ?thesis using public_total_add [of t beneficiary LAT_TOKEN reward M]
    by (simp split: if_splits)
qed

lemma htlc_lock_value:
  assumes "apply_htlc_lock P height token sender recipient amount hashlock expiry fee nonce sg tx L = Inr L1"
  shows "public_total t L1 + coin t LAT_TOKEN fee \<le> public_total t L"
  using assms
proof (cases rule: htlc_lock_Inr [consumes 1])
  case (1 a)
  let ?i = "htlc_id (blake3 P) token sender recipient amount hashlock expiry nonce"
  let ?h = "\<lparr>htlc_token = token, htlc_from = sender, htlc_to = recipient,
           htlc_amount = amount, htlc_hashlock = hashlock, htlc_expiry = expiry\<rparr>"
  let ?b = "bump_nonce (if token = LAT_TOKEN then debit_public LAT_TOKEN (amount + fee) a
              else debit_public token amount (debit_public LAT_TOKEN fee a))"
  have "acc_holds t ?b + coin t token amount + coin t LAT_TOKEN fee \<le> acc_holds t a"
    using 1(6,7) unat_lt2p [of "acct_public a LAT_TOKEN"]
    by (auto simp: acc_holds_def coin_def unat_sub word_le_nat_alt unat_add_small)
  moreover have "get_htlc (put_account sender ?b L) ?i = None" using 1(5) by (simp add: get_htlc_def)
  ultimately show ?thesis unfolding 1(8)
    using public_total_account [OF 1(1), of t ?b] public_total_htlc [of "put_account sender ?b L" ?i t ?h]
    by (simp add: htlc_holds_def)
qed

lemma htlc_release_value:
  assumes "get_htlc L i = Some h"
  shows "public_total t (credit_public j (htlc_token h) (htlc_amount h) (drop_htlc i L)) \<le> public_total t L"
  using public_total_drop_htlc [OF assms, of t]
    public_total_credit [of t j "htlc_token h" "htlc_amount h" "drop_htlc i L"]
  by (simp add: htlc_holds_def)

lemma add_liquidity_value:
  assumes wf: "pools_wf L"
    and run: "apply_add_liquidity P token provider lat_amount tok_amount fee nonce sg tx L = (r, L1)"
  shows "public_total t L1 + (if r = None then coin t LAT_TOKEN fee else 0) \<le> public_total t L"
  using run
proof (cases rule: add_liquidity_cases [OF wf, consumes 1])
  case (2 acct p used minted)
  let ?b = "bump_nonce (debit_public token used (debit_public LAT_TOKEN (lat_amount + fee) acct))"
  let ?M = "put_lp token provider (lp_shares L token provider + minted) (put_account provider ?b L)"
  note d = deposit_wf [OF wf 2(7,4,5,6)]
  have "acc_holds t ?b + coin t LAT_TOKEN lat_amount + coin t token used + coin t LAT_TOKEN fee \<le> acc_holds t acct"
    using 2(4,8,9) unat_lt2p [of "acct_public acct LAT_TOKEN"]
    by (auto simp: acc_holds_def coin_def unat_sub word_le_nat_alt unat_add_small)
  moreover have "pool_holds t p = opt_sum (pool_holds t) (get_pool L token) +
      coin t LAT_TOKEN lat_amount + coin t token used"
  proof (cases "get_pool L token")
    case None
    then show ?thesis using pool_deposit_new [OF 2(7) None 2(4,5,6)] d(2)
      by (auto simp: pool_holds_def coin_def)
  next
    case (Some q)
    then show ?thesis using pool_deposit_old [OF 2(7) Some] d(2)
      by (auto simp: pool_holds_def coin_def)
  qed
  moreover have "get_pool ?M token = get_pool L token" by (simp add: get_pool_def)
  ultimately show ?thesis unfolding 2(11)
    using public_total_pool [of t p ?M] public_total_account [OF 2(2), of t ?b] d(2) by simp
qed simp

lemma remove_liquidity_value:
  assumes wf: "pools_wf L"
    and run: "apply_remove_liquidity P token provider lp_amount fee nonce sg tx L = Inr L1"
  shows "public_total t L1 + coin t LAT_TOKEN fee \<le> public_total t L"
  using remove_liquidity_Inr [OF assms]
proof cases
  case (1 acct p lat_out tok_out q)
  let ?b = "add_public token tok_out (add_public LAT_TOKEN lat_out (bump_nonce (debit_public LAT_TOKEN fee acct)))"
  let ?M = "put_lp token provider (lp_shares L token provider - lp_amount) (put_account provider ?b L)"
  have "acc_holds t ?b + coin t LAT_TOKEN fee \<le> acc_holds t acct + coin t LAT_TOKEN lat_out + coin t token tok_out"
    using acc_holds_debit [OF 1(6), of t]
      acc_holds_add [of t LAT_TOKEN lat_out "bump_nonce (debit_public LAT_TOKEN fee acct)"]
      acc_holds_add [of t token tok_out "add_public LAT_TOKEN lat_out (bump_nonce (debit_public LAT_TOKEN fee acct))"]
    by simp
  moreover have "pool_holds t q + coin t LAT_TOKEN lat_out + coin t token tok_out = pool_holds t p"
    using 1 pools_wf_Some [OF wf 1(4)] by (auto simp: pool_holds_def coin_def pool_wf_def)
  moreover have "get_pool ?M token = Some p" using 1(4) by (simp add: get_pool_def)
  ultimately show ?thesis unfolding 1(14)
    using public_total_pool [of t q ?M] public_total_account [OF 1(1), of t ?b] 1(9) by simp
qed

lemma swap_value:
  assumes wf: "pools_wf L"
    and run: "apply_swap P token trader lat_in amount_in min_out fee nonce sg tx L = Inr L1"
  shows "public_total t L1 + coin t LAT_TOKEN fee \<le> public_total t L"
  using swap_Inr [OF assms]
proof cases
  case (1 acct p q out)
  let ?d = "if lat_in then debit_public LAT_TOKEN (amount_in + fee) acct
            else debit_public token amount_in (debit_public LAT_TOKEN fee acct)"
  let ?i = "if lat_in then LAT_TOKEN else token" and ?o = "if lat_in then token else LAT_TOKEN"
  let ?b = "bump_nonce (add_public ?o out ?d)"
  have "acc_holds t ?d + coin t ?i amount_in + coin t LAT_TOKEN fee \<le> acc_holds t acct"
    using 1(3,14,15) unat_lt2p [of "acct_public acct LAT_TOKEN"]
    by (auto simp: acc_holds_def coin_def unat_sub word_le_nat_alt unat_add_small)
  then have "acc_holds t ?b + coin t ?i amount_in + coin t LAT_TOKEN fee \<le> acc_holds t acct + coin t ?o out"
    using acc_holds_add [of t ?o out ?d] by simp
  moreover have "pool_holds t q + coin t ?o out = pool_holds t p + coin t ?i amount_in"
    using 1 pools_wf_Some [OF wf 1(4)] by (auto simp: pool_holds_def coin_def pool_wf_def)
  moreover have "get_pool (put_account trader ?b L) token = Some p" using 1(4) by (simp add: get_pool_def)
  ultimately show ?thesis unfolding 1(16)
    using public_total_pool [of t q "put_account trader ?b L"] public_total_account [OF 1(1), of t ?b] 1(7)
    by simp
qed

lemma buy_value:
  assumes "apply_buy c amount = Inr (Some (f, c'))"
  shows "unat (real_lat c') + unat (fill_fee f) \<le> unat (real_lat c) + unat amount"
proof -
  from assms have r: "real_lat c' = real_lat c + (amount - amount div FEE_DIVISOR)"
    and f: "fill_fee f = amount div FEE_DIVISOR"
    by (auto simp: apply_buy_def Let_def split: if_splits)
  show ?thesis
    using unat_add_le [of "real_lat c" "amount - amount div FEE_DIVISOR"]
    unfolding r f unat_buy_net by (simp add: FEE_DIVISOR_def unat_div)
qed

lemma sell_value:
  assumes "apply_sell c amount hold = Inr (Some (f, c'))"
    and "unat (fill_out f) + unat (fill_fee f) \<le> unat (real_lat c)"
  shows "unat (real_lat c') + unat (fill_out f) + unat (fill_fee f) = unat (real_lat c)"
proof -
  from assms(1) obtain gross where r: "real_lat c' = saturating_sub (real_lat c) gross"
    and f: "fill_fee f = gross div FEE_DIVISOR" and o: "fill_out f = gross - gross div FEE_DIVISOR"
    by (auto simp: apply_sell_def Let_def split: if_splits)
  have "unat (fill_out f) + unat (fill_fee f) = unat gross"
    unfolding o unat_buy_net by (simp add: f FEE_DIVISOR_def unat_div)
  then show ?thesis using assms(2) by (simp add: r unat_saturating_sub)
qed

lemma curve_trade_value:
  assumes "apply_curve_trade P token trader is_buy amount min_out fee nonce sg tx L = Inr L1"
    and "t \<noteq> token \<or> \<not> is_buy"
  shows "public_total t L1 + coin t LAT_TOKEN fee \<le> public_total t L"
  using assms(1)
proof (cases rule: curve_trade_Inr [consumes 1])
  case (1 meta acct cp)
  have old: "opt_sum (curve_holds t) (get_curve L token) = curve_holds t cp"
    using 1(6) by (auto simp: curve_holds_def curve_genesis_def curve_from_math_def curve_default_def)
  have put: "public_total t (put_curve (curve_from_math token m) (credit_public i LAT_TOKEN n (put_account trader b L)))
      + acc_holds t acct + coin t LAT_TOKEN (cp_real_lat cp)
      \<le> public_total t L + acc_holds t b + coin t LAT_TOKEN n + coin t LAT_TOKEN (real_lat m)" for m i n b
  proof -
    have "get_curve (credit_public i LAT_TOKEN n (put_account trader b L)) token = get_curve L token"
      by (simp add: get_curve_def)
    then show ?thesis
      using public_total_curve [of t "curve_from_math token m" "credit_public i LAT_TOKEN n (put_account trader b L)"]
        public_total_credit [of t i LAT_TOKEN n "put_account trader b L"]
        public_total_account [OF 1(4), of t b] old
      by (simp add: curve_holds_def coin_def curve_from_math_def split: if_splits)
  qed
  show ?thesis
  proof (cases is_buy)
    case True
    then have "curve_trade_buy token trader (tm_creator meta) amount min_out fee acct (curve_math cp) L = Inr L1"
      using 1(8) by simp
    then show ?thesis
    proof (cases rule: curve_buy_Inr [consumes 1])
      case b: (1 f m)
      let ?b = "bump_nonce (add_public token (fill_out f) (debit_public LAT_TOKEN (amount + fee) acct))"
      have "acc_holds t ?b + coin t LAT_TOKEN amount + coin t LAT_TOKEN fee \<le> acc_holds t acct"
        using b(4) assms(2) True 1(2) unat_lt2p [of "acct_public acct LAT_TOKEN"]
        by (auto simp: acc_holds_def coin_def unat_sub word_le_nat_alt unat_add_small)
      then show ?thesis unfolding b(5)
        using put [of m "tm_creator meta" "fill_fee f" ?b] buy_value [OF b(1)]
        by (simp add: coin_def curve_math_def split: if_splits)
    qed
  next
    case False
    then have "curve_trade_sell token trader (tm_creator meta) amount min_out fee acct (curve_math cp) L = Inr L1"
      using 1(8) by simp
    then show ?thesis
    proof (cases rule: curve_sell_Inr [consumes 1])
      case s: (1 f m)
      let ?d = "acct_set_public (debit_public LAT_TOKEN fee acct) token (acct_public acct token - amount)"
      let ?b = "bump_nonce (add_public LAT_TOKEN (fill_out f) ?d)"
      have "acc_holds t ?d + coin t LAT_TOKEN fee \<le> acc_holds t acct"
        using s(3,5) 1(2) by (auto simp: acc_holds_def coin_def unat_sub word_le_nat_alt)
      then have "acc_holds t ?b + coin t LAT_TOKEN fee \<le> acc_holds t acct + coin t LAT_TOKEN (fill_out f)"
        using acc_holds_add [of t LAT_TOKEN "fill_out f" ?d] by simp
      then show ?thesis unfolding s(6)
        using put [of m "tm_creator meta" "fill_fee f" ?b] sell_value [OF s(1)] s(4)
        by (simp add: coin_def curve_math_def split: if_splits)
    qed
  qed
qed

section \<open>Every transaction\<close>

text \<open>What a transaction brings into the open from the confidential side.\<close>

fun unshielded :: "u32 \<Rightarrow> ('g, 's, 'r) transaction \<Rightarrow> nat" where
  "unshielded t (Unshield token recipient amount xfer sg) = coin t token amount"
| "unshielded t _ = 0"

text \<open>A curve mints its own token to a buyer, and only that one.\<close>

fun mints :: "u32 \<Rightarrow> ('g, 's, 'r) transaction \<Rightarrow> bool" where
  "mints t (CurveTrade token trader is_buy amount min_out fee nonce sg) \<longleftrightarrow> is_buy \<and> t = token"
| "mints t _ \<longleftrightarrow> False"

lemma or_keep_None: "or_keep L r = (None, L1) \<longleftrightarrow> r = Inr L1"
  by (auto simp: or_keep_def split: sum.splits)

lemma or_keep_Some: "or_keep L r = (Some e, L1) \<longleftrightarrow> r = Inl e \<and> L1 = L"
  by (auto simp: or_keep_def split: sum.splits)

text \<open> A transaction that fails leaves the ledger as it was.\<close>

lemma apply_inner_Some:
  assumes "pools_wf L" and "apply_inner P tx height pre L = (Some e, L1)"
  shows "L1 = L"
proof (cases tx)
  case (AddLiquidity token provider lat_amount tok_amount fee nonce sg)
  then have "apply_add_liquidity P token provider lat_amount tok_amount fee nonce sg tx L = (Some e, L1)"
    using assms(2) by simp
  then show ?thesis by (cases rule: add_liquidity_cases [OF assms(1), consumes 1]) simp_all
qed (use assms(2) in \<open>simp_all add: or_keep_Some\<close>)

text \<open>The fee that a transaction takes from the public side, which the block pays to its miner.\<close>

fun public_fee :: "('g, 's, 'r) transaction \<Rightarrow> (u32 \<times> u64) option" where
  "public_fee (PublicTransfer token sender recipient amount fee nonce sg) = Some (token, fee)"
| "public_fee (Shield token sender recipient amount fee nonce sg) = Some (token, fee)"
| "public_fee (ShieldStealth token sender e one_time amount fee nonce sg) = Some (token, fee)"
| "public_fee (AddLiquidity token provider lat_amount tok_amount fee nonce sg) = Some (LAT_TOKEN, fee)"
| "public_fee (RemoveLiquidity token provider lp_amount fee nonce sg) = Some (LAT_TOKEN, fee)"
| "public_fee (transaction.Swap token trader lat_in amount_in min_out fee nonce sg) = Some (LAT_TOKEN, fee)"
| "public_fee (CurveTrade token trader is_buy amount min_out fee nonce sg) = Some (LAT_TOKEN, fee)"
| "public_fee (HtlcLock token sender recipient amount hashlock expiry fee nonce sg) = Some (LAT_TOKEN, fee)"
| "public_fee (CreateToken ticker creator supply sg) = Some (LAT_TOKEN, FLAT_TX_FEE)"
| "public_fee (DeployContract deployer code sg) = Some (LAT_TOKEN, FLAT_TX_FEE)"
| "public_fee (CallContract contract caller inp nonce sg) = Some (LAT_TOKEN, FLAT_TX_FEE)"
| "public_fee _ = None"

definition fee_coin :: "u32 \<Rightarrow> ('g, 's, 'r) transaction \<Rightarrow> nat" where
  "fee_coin t tx = (case public_fee tx of Some (u, fee) \<Rightarrow> coin t u fee | None \<Rightarrow> 0)"

lemma add_leD1_fee: "(a :: nat) + b + c \<le> d \<Longrightarrow> a + c \<le> d"
  by simp

lemma apply_inner_value:
  assumes wf: "pools_wf L" and run: "apply_inner P tx height pre L = (None, L1)" and m: "\<not> mints t tx"
  shows "public_total t L1 + fee_coin t tx \<le> public_total t L + unshielded t tx"
proof (cases tx)
  case (AddLiquidity token provider lat_amount tok_amount fee nonce sg)
  then have "apply_add_liquidity P token provider lat_amount tok_amount fee nonce sg tx L = (None, L1)"
    using run by simp
  from add_liquidity_value [OF wf this, of t] show ?thesis using AddLiquidity by (simp add: fee_coin_def)
next
  case (HtlcClaim i preimage)
  then show ?thesis using run htlc_release_value
    by (fastforce simp: or_keep_None fee_coin_def elim: htlc_claim_Inr)
next
  case (HtlcRefund i)
  then show ?thesis using run htlc_release_value
    by (fastforce simp: or_keep_None fee_coin_def elim: htlc_refund_Inr)
next
  case (Unshield token recipient amount xfer sg)
  then show ?thesis using run unshield_value by (fastforce simp: or_keep_None fee_coin_def)
next
  case (CurveTrade token trader is_buy amount min_out fee nonce sg)
  then show ?thesis using run m curve_trade_value
    by (auto simp: or_keep_None fee_coin_def intro!: curve_trade_value)
qed (use run in \<open>simp_all add: or_keep_None fee_coin_def,
   (blast intro: le_trans [OF eq_imp_le] register_value create_token_value solvent_value rollover_value deploy_value
     call_value public_transfer_value anon_value stake_value unstake_value slash_value
     remove_liquidity_value [OF wf] swap_value [OF wf] htlc_lock_value
     add_leD1_fee [OF shield_value] add_leD1_fee [OF shield_stealth_value])+\<close>)

section \<open>The pools, under every transaction\<close>

fun pool_tx :: "('g, 's, 'r) transaction \<Rightarrow> bool" where
  "pool_tx (AddLiquidity token provider lat_amount tok_amount fee nonce sg) \<longleftrightarrow> True"
| "pool_tx (RemoveLiquidity token provider lp_amount fee nonce sg) \<longleftrightarrow> True"
| "pool_tx (transaction.Swap token trader lat_in amount_in min_out fee nonce sg) \<longleftrightarrow> True"
| "pool_tx _ \<longleftrightarrow> False"

lemma put_token_frame [simp]:
  "l_pools (put_token m L) = l_pools L" "l_lps (put_token m L) = l_lps L"
  "l_nullifiers (put_token m L) = l_nullifiers L" "l_contracts (put_token m L) = l_contracts L"
  "l_accounts (put_token m L) = l_accounts L" "l_validators (put_token m L) = l_validators L"
  "l_curves (put_token m L) = l_curves L" "l_htlcs (put_token m L) = l_htlcs L"
  "l_dirty (put_token m L) = l_dirty L" "l_next_token_id (put_token m L) = l_next_token_id L"
  "l_max_validators (put_token m L) = l_max_validators L"
  by (simp_all add: put_token_def)

lemma apply_inner_pools_frame:
  assumes "apply_inner P tx height pre L = (None, L1)" and "\<not> pool_tx tx"
  shows "l_pools L1 = l_pools L \<and> l_lps L1 = l_lps L"
proof (cases tx)
  case (CurveTrade token trader is_buy amount min_out fee nonce sg)
  then have "apply_curve_trade P token trader is_buy amount min_out fee nonce sg tx L = Inr L1"
    using assms(1) by (simp add: or_keep_None)
  then show ?thesis
    by (elim curve_trade_Inr) (auto elim!: curve_buy_Inr curve_sell_Inr split: if_splits)
next
  case (Register i n)
  then show ?thesis using assms(1) by (auto simp: or_keep_None dest!: register_Inr)
qed (use assms in \<open>auto simp: or_keep_None Let_def elim!: create_token_Inr solvent_Inr rollover_Inr deploy_Inr
  call_Inr public_transfer_Inr shield_Inr unshield_Inr shield_stealth_Inr anon_Inr stake_Inr unstake_Inr
  slash_Inr htlc_lock_Inr htlc_claim_Inr htlc_refund_Inr\<close>)

lemma apply_inner_pools_wf:
  assumes wf: "pools_wf L" and run: "apply_inner P tx height pre L = (r, L1)"
  shows "pools_wf L1"
proof (cases r)
  case (Some e)
  then show ?thesis using apply_inner_Some [OF wf] run wf by blast
next
  case None
  show ?thesis
  proof (cases "pool_tx tx")
    case False
    then show ?thesis using apply_inner_pools_frame run None pools_wf_cong wf by metis
  next
    case True
    then show ?thesis using run None
      by (cases tx) (auto simp: or_keep_None intro: add_liquidity_wf [OF wf] remove_liquidity_wf [OF wf] swap_wf [OF wf])
  qed
qed

text \<open>
  The value behind one share: \<open>lat * tok\<close> over \<open>lp_supply\<close> squared. Cross-multiplied, so that
  nothing is rounded.
\<close>

definition share_value_le :: "pool \<Rightarrow> pool \<Rightarrow> bool" where
  "share_value_le p q \<longleftrightarrow>
     unat (pool_lat p) * unat (pool_tok p) * unat (pool_lp_supply q) ^ 2 \<le>
     unat (pool_lat q) * unat (pool_tok q) * unat (pool_lp_supply p) ^ 2"

lemma share_value_legs:
  assumes "unat (pool_lat p) * unat (pool_lp_supply q) \<le> unat (pool_lat q) * unat (pool_lp_supply p)"
    and "unat (pool_tok p) * unat (pool_lp_supply q) \<le> unat (pool_tok q) * unat (pool_lp_supply p)"
  shows "share_value_le p q"
  using mult_le_mono [OF assms] by (simp add: share_value_le_def power2_eq_square algebra_simps)

lemma deposit_share_value:
  assumes wf: "pools_wf L" and d: "pool_deposit L t a b = Inr (p, used, minted)" and old: "get_pool L t = Some q"
  shows "share_value_le q p"
proof (rule share_value_legs)
  note o = pool_deposit_old [OF d old] and q = pools_wf_Some [OF wf old]
  let ?l = "unat (pool_lat q)" and ?k = "unat (pool_tok q)" and ?s = "unat (pool_lp_supply q)"
  show "?l * unat (pool_lp_supply p) \<le> unat (pool_lat p) * ?s" using o by (simp add: algebra_simps)
  have "?l * (?k * unat minted) \<le> ?l * (unat used * ?s)"
  proof -
    have "?l * (?k * unat minted) = ?k * (unat minted * ?l)" by (simp add: algebra_simps)
    also have "\<dots> \<le> ?k * (unat a * ?s)" using o(7) by (rule mult_le_mono2)
    also have "\<dots> = (unat a * ?k) * ?s" by (simp add: algebra_simps)
    also have "\<dots> \<le> (unat used * ?l) * ?s" using o(6) by (rule mult_le_mono1)
    finally show ?thesis by (simp add: algebra_simps)
  qed
  then have "?k * unat minted \<le> unat used * ?s" using q by (simp add: pool_wf_def)
  then show "?k * unat (pool_lp_supply p) \<le> unat (pool_tok p) * ?s" using o by (simp add: algebra_simps)
qed

lemma remove_share_value:
  assumes wf: "pools_wf L"
    and run: "apply_remove_liquidity P token provider lp_amount fee nonce sg tx L = Inr L1"
  obtains p q where "get_pool L token = Some p" and "get_pool L1 token = Some q" and "share_value_le p q"
    and "\<And>u. u \<noteq> token \<Longrightarrow> get_pool L1 u = get_pool L u"
  using remove_liquidity_Inr [OF assms]
proof cases
  case (1 acct p lat_out tok_out q)
  have s: "unat (pool_lp_supply q) = unat (pool_lp_supply p) - unat lp_amount" using 1(12) by simp
  have "share_value_le p q"
    using 1 by (intro share_value_legs; unfold s; intro remainder_mult) simp_all
  moreover have "pool_lp_supply q \<noteq> 0" using 1(12,13) by auto
  ultimately show thesis using 1(4,9,14) that [of p q] by (simp add: get_pool_def put_pool_def)
qed

lemma swap_share_value:
  assumes wf: "pools_wf L"
    and run: "apply_swap P token trader lat_in amount_in min_out fee nonce sg tx L = Inr L1"
  obtains p q where "get_pool L token = Some p" and "get_pool L1 token = Some q" and "share_value_le p q"
    and "\<And>u. u \<noteq> token \<Longrightarrow> get_pool L1 u = get_pool L u"
  using swap_Inr [OF assms]
proof cases
  case (1 acct p q out)
  have "share_value_le p q" using 1(8,11) by (simp add: share_value_le_def)
  moreover have "pool_lp_supply q \<noteq> 0" using pools_wf_Some [OF wf 1(4)] 1(8) by (auto simp: pool_wf_def)
  ultimately show thesis using 1(4,7,16) that [of p q] by (simp add: get_pool_def put_pool_def)
qed

lemma add_share_value:
  assumes wf: "pools_wf L"
    and run: "apply_add_liquidity P token provider lat_amount tok_amount fee nonce sg tx L = (None, L1)"
  obtains q where "get_pool L1 token = Some q" and "\<And>p. get_pool L token = Some p \<Longrightarrow> share_value_le p q"
    and "\<And>u. u \<noteq> token \<Longrightarrow> get_pool L1 u = get_pool L u"
  using run
proof (cases rule: add_liquidity_cases [OF wf, consumes 1])
  case (2 acct p used minted)
  note d = deposit_wf [OF wf 2(7,4,5,6)]
  then have "pool_lp_supply p \<noteq> 0" by (auto simp: pool_wf_def)
  then show thesis using 2(11) d(2) that [of p] deposit_share_value [OF wf 2(7)]
    by (simp add: get_pool_def put_pool_def)
qed simp

lemma apply_inner_share_value:
  assumes wf: "pools_wf L" and run: "apply_inner P tx height pre L = (r, L1)" and p: "get_pool L t = Some p"
  shows "\<exists>q. get_pool L1 t = Some q \<and> share_value_le p q"
proof (cases r)
  case (Some e)
  then have "L1 = L" using apply_inner_Some [OF wf] run by blast
  then show ?thesis using p by (simp add: share_value_le_def)
next
  case None
  show ?thesis
  proof (cases "pool_tx tx")
    case False
    then have "l_pools L1 = l_pools L" using apply_inner_pools_frame run None by blast
    then show ?thesis using p by (simp add: get_pool_def share_value_le_def)
  next
    case True
    have refl: "share_value_le p p" by (simp add: share_value_le_def)
    from True show ?thesis using run None p refl
      by (cases tx; simp add: or_keep_None)
        (metis add_share_value [OF wf] remove_share_value [OF wf] swap_share_value [OF wf] option.inject)+
  qed
qed

lemma apply_at_eq:
  "apply_at P tx height L = (r, L1) \<longleftrightarrow> (\<exists>M. apply_inner P tx height None L = (r, M) \<and>
     L1 = (if r = None then mark_all (dirty_keys_for P M tx) M else M))"
  by (auto simp: apply_at_def apply_at_with_def split: prod.splits option.splits)

lemma apply_at_failed:
  assumes "pools_wf L" and "fst (apply_at P tx height L) = Some e"
  shows "snd (apply_at P tx height L) = L"
proof -
  obtain r L1 where run: "apply_at P tx height L = (r, L1)" by fastforce
  then have "r = Some e" using assms(2) by simp
  then have "L1 = L" using run apply_inner_Some [OF assms(1)] by (auto simp: apply_at_eq)
  then show ?thesis using run by simp
qed

section \<open>The properties\<close>

text \<open>
  C1: no transaction creates public value. In a ledger with well-formed pools, whatever the
  transaction and whether it succeeds or not, the total of a token held openly by accounts, pools,
  curves, hash locks and validators grows by at most what an unshielding takes out of the
  confidential balances; the only exception is a purchase on the token's own bonding curve, which
  mints it. For LAT there is no exception.
\<close>

theorem public_value_conserved:
  assumes "pools_wf L" and "\<not> mints t tx"
  shows "public_total t (snd (apply_at P tx height L)) \<le> public_total t L + unshielded t tx"
proof -
  obtain r L1 where run: "apply_at P tx height L = (r, L1)" by fastforce
  then obtain M where M: "apply_inner P tx height None L = (r, M)"
    and L1: "public_total t L1 = public_total t M" by (auto simp: apply_at_eq)
  show ?thesis
  proof (cases r)
    case None
    then show ?thesis using apply_inner_value [OF assms(1) _ assms(2)] M run L1 by fastforce
  next
    case (Some e)
    then have "M = L" using apply_inner_Some [OF assms(1)] M by simp
    then show ?thesis using run L1 by simp
  qed
qed

text \<open>
  C20: a rejected transaction has no effect. The deposit handler debits the account before its
  last overflow check, and the other handlers check first; with well-formed pools that last
  check cannot fail, so every error leaves the ledger exactly as it was.
\<close>

theorem failed_transaction_no_effect:
  assumes "pools_wf L" and "fst (apply_at P tx height L) = Some e"
  shows "snd (apply_at P tx height L) = L"
  using assms by (rule apply_at_failed)

text \<open>
  C5: every transaction keeps the pools well formed, and no pool loses value per share or
  disappears: the product of the reserves over the square of the share supply never falls, for a
  deposit, a withdrawal, a swap or anything else, so rounding never costs the other providers.
\<close>

theorem pool_share_value:
  assumes "pools_wf L" and "get_pool L t = Some p"
  shows "pools_wf (snd (apply_at P tx height L)) \<and>
    (\<exists>q. get_pool (snd (apply_at P tx height L)) t = Some q \<and> share_value_le p q)"
proof -
  obtain r L1 where run: "apply_at P tx height L = (r, L1)" by fastforce
  then obtain M where M: "apply_inner P tx height None L = (r, M)"
    and f: "l_pools L1 = l_pools M" "l_lps L1 = l_lps M" by (auto simp: apply_at_eq)
  have "pools_wf L1" using apply_inner_pools_wf [OF assms(1) M] pools_wf_cong [OF f] by simp
  moreover have "\<exists>q. get_pool L1 t = Some q \<and> share_value_le p q"
    using apply_inner_share_value [OF assms(1) M assms(2)] f by (simp add: get_pool_def)
  ultimately show ?thesis using run by simp
qed

text \<open>A ledger with one account, one pool and one hash lock.\<close>

definition demo_ledger :: "u64 ledger" where
  "demo_ledger = put_htlc 9 \<lparr>htlc_token = 0, htlc_from = 0, htlc_to = 8, htlc_amount = 50,
       htlc_hashlock = 0, htlc_expiry = 10\<rparr>
     (put_pool \<lparr>pool_token = 1, pool_lat = 2000, pool_tok = 2000, pool_lp_supply = 2000\<rparr>
     (put_lp 1 0 1000
     (put_account 0 (acct_set_public account_default 0 5000) ledger_new)))"

lemma demo_fields:
  "get_account demo_ledger i = (if i = 0 then Some (acct_set_public account_default 0 5000) else None)"
  "get_pool demo_ledger t =
     (if t = 1 then Some \<lparr>pool_token = 1, pool_lat = 2000, pool_tok = 2000, pool_lp_supply = 2000\<rparr> else None)"
  "get_htlc demo_ledger h = (if h = 9 then Some \<lparr>htlc_token = 0, htlc_from = 0, htlc_to = 8,
     htlc_amount = 50, htlc_hashlock = 0, htlc_expiry = 10\<rparr> else None)"
  by (simp_all add: demo_ledger_def get_account_def get_pool_def get_htlc_def put_pool_def put_htlc_def
      put_lp_def put_account_def ledger_new_def)

lemma demo_wf: "pools_wf demo_ledger"
proof -
  have "lp_total t demo_ledger = (if t = 1 then 1000 else 0)" for t
  proof -
    have m: "l_lps demo_ledger = fmupd (1, 0) 1000 fmempty"
      by (simp add: demo_ledger_def put_lp_def ledger_new_def)
    show ?thesis unfolding lp_total_def m by (simp add: fm_sum_upd_None)
  qed
  then show ?thesis by (simp add: pools_wf_def demo_fields pool_wf_def LAT_TOKEN_def)
qed

lemma toy_sig:
  "sig_from_bytes (toy_prims :: (u64, u64, unit) prims) (be_bytes 64 (0 :: arr64)) = Some \<lparr>sig_r = 0, sig_s = 0\<rparr>"
proof -
  have zeros: "be_bytes n (0 :: 'a::len word) = replicate n 0" for n
    by (simp add: be_bytes_def le_bytes_def flip: map_replicate_trivial) (simp add: map_replicate_const)
  have "of_be (replicate 32 0) = (0 :: id32)" using of_be_be_bytes [of 32 "0 :: id32"] by (simp add: zeros)
  then show ?thesis by (simp add: sig_from_bytes_def zeros toy_prims_def)
qed

lemma toy_check_sig: "check_sig (toy_prims :: (u64, u64, unit) prims) 0 tx 0 = Inr ()"
proof -
  have "decompress (toy_prims :: (u64, u64, unit) prims) 0 = Some 0"
    "smul (toy_prims :: (u64, u64, unit) prims) = (*)" by (simp_all add: toy_prims_def)
  then show ?thesis
    by (simp add: check_sig_def pk_from_bytes_def schnorr_verify_def toy_sig)
qed

theorem public_value_conserved_witness:
  "fst (apply_at (toy_prims :: (u64, u64, unit) prims) (HtlcRefund 9) 10 demo_ledger) = None \<and>
   public_total 0 (snd (apply_at (toy_prims :: (u64, u64, unit) prims) (HtlcRefund 9) 10 demo_ledger)) \<le>
     public_total 0 demo_ledger"
  using public_value_conserved [OF demo_wf, of 0 "HtlcRefund 9" "toy_prims :: (u64, u64, unit) prims" 10]
  by (simp add: apply_at_def apply_at_with_def apply_htlc_refund_def demo_fields or_keep_def)

theorem failed_transaction_no_effect_witness:
  "snd (apply_at (toy_prims :: (u64, u64, unit) prims) (HtlcRefund 9) 9 demo_ledger) = demo_ledger"
  by (rule failed_transaction_no_effect [OF demo_wf, of _ _ _ HtlcNotExpired])
    (simp add: apply_at_def apply_at_with_def apply_htlc_refund_def demo_fields or_keep_def)

theorem pool_share_value_witness:
  "\<exists>q. get_pool (snd (apply_at (toy_prims :: (u64, u64, unit) prims)
       (transaction.Swap 1 0 True 100 1 0 0 0) 1 demo_ledger)) 1 = Some q \<and> pool_tok q = 1906 \<and>
     share_value_le \<lparr>pool_token = 1, pool_lat = 2000, pool_tok = 2000, pool_lp_supply = 2000\<rparr> q"
proof -
  let ?run = "apply_at (toy_prims :: (u64, u64, unit) prims) (transaction.Swap 1 0 True 100 1 0 0 0) 1 demo_ledger"
  have "fst ?run = None \<and> map_option pool_tok (get_pool (snd ?run) 1) = Some 1906"
    by (simp add: apply_at_def apply_at_with_def apply_swap_def demo_fields or_keep_def toy_check_sig
        swap_out_def SWAP_FEE_BPS_def checked_add_def LAT_TOKEN_def Let_def)
      (simp add: get_pool_def put_pool_def)
  then show ?thesis
    using pool_share_value [OF demo_wf, of 1 _ "toy_prims :: (u64, u64, unit) prims" "transaction.Swap 1 0 True 100 1 0 0 0" 1]
    by (auto simp: demo_fields)
qed

end
