(* ===== verification/Ledger_Safety.thy ===== *)
theory Ledger_Safety
  imports Ledger_Value
begin

text \<open>
  Authorisation and uniqueness: nonces, replays, the records that are written once, and what a
  hash lock, a validator record or the evidence of the parallel pre-pass can do.
\<close>

section \<open>Nonces\<close>

text \<open>The account whose nonce a transaction uses, with the nonce it names.\<close>

fun signer :: "('g::ab_group_add, 's, 'r) prims \<Rightarrow> ('g, 's, 'r) transaction \<Rightarrow> (id32 \<times> u64) option" where
  "signer P (SolventTransfer token xfer) = Some (pk_to_bytes P (st_sender xfer), st_nonce xfer)"
| "signer P (Rollover account nonce sg) = Some (account, nonce)"
| "signer P (CallContract contract caller inp nonce sg) = Some (caller, nonce)"
| "signer P (PublicTransfer token sender recipient amount fee nonce sg) = Some (sender, nonce)"
| "signer P (Shield token sender recipient amount fee nonce sg) = Some (sender, nonce)"
| "signer P (Unshield token recipient amount xfer sg) = Some (pk_to_bytes P (st_sender xfer), st_nonce xfer)"
| "signer P (ShieldStealth token sender ephemeral one_time amount fee nonce sg) = Some (sender, nonce)"
| "signer P (Stake vid amount nonce sg) = Some (vid, nonce)"
| "signer P (Unstake vid amount nonce sg) = Some (vid, nonce)"
| "signer P (AddLiquidity token provider lat_amount tok_amount fee nonce sg) = Some (provider, nonce)"
| "signer P (RemoveLiquidity token provider lp_amount fee nonce sg) = Some (provider, nonce)"
| "signer P (transaction.Swap token trader lat_in amount_in min_out fee nonce sg) = Some (trader, nonce)"
| "signer P (CurveTrade token trader is_buy amount min_out fee nonce sg) = Some (trader, nonce)"
| "signer P (HtlcLock token sender recipient amount hashlock expiry fee nonce sg) = Some (sender, nonce)"
| "signer P (Register pubkey pow_nonce) = None"
| "signer P (CreateToken ticker creator amount sg) = None"
| "signer P (DeployContract deployer code sg) = None"
| "signer P (AnonTransfer token xfer) = None"
| "signer P (SlashEvidence vid beneficiary vote_height block_a sig_a block_b sig_b) = None"
| "signer P (HtlcClaim i preimage) = None"
| "signer P (HtlcRefund i) = None"

definition bump_of :: "(id32 \<times> u64) option \<Rightarrow> id32 \<Rightarrow> u64" where
  "bump_of s j = (case s of Some (i, n) \<Rightarrow> if i = j then 1 else 0 | None \<Rightarrow> 0)"

lemma bump_of_simps [simp]:
  "bump_of None j = 0" "bump_of (Some (i, n)) j = (if i = j then 1 else 0)"
  by (simp_all add: bump_of_def)

text \<open>\<open>bumps L L1 s\<close>: every account of \<open>L\<close> is still there, with its nonce raised exactly for the signer \<open>s\<close>.\<close>

definition bumps :: "'g ledger \<Rightarrow> 'g ledger \<Rightarrow> (id32 \<times> u64) option \<Rightarrow> bool" where
  "bumps L L1 s \<longleftrightarrow> (\<forall>j a. get_account L j = Some a \<longrightarrow>
     (\<exists>b. get_account L1 j = Some b \<and> acc_nonce b = acc_nonce a + bump_of s j))"

lemma account_or_default_Some: "get_account L i = Some a \<Longrightarrow> account_or_default L i = a"
  by (simp add: account_or_default_def)

lemma get_account_put_token [simp]: "get_account (put_token m L) j = get_account L j"
  by (simp add: get_account_def)

lemma get_account_next [simp]: "get_account (L\<lparr>l_next_token_id := n\<rparr>) j = get_account L j"
  by (simp add: get_account_def)

lemma anon_bumps:
  assumes "apply_anon_transfer P pre height token xfer L = Inr L1"
  shows "bumps L L1 None"
  unfolding bumps_def
proof (intro allI impI)
  fix j a
  assume a: "get_account L j = Some a"
  let ?M = "foldl (debit_member P token) L (zip (at_ring xfer) (at_enc xfer))"
  obtain b where b: "get_account ?M j = Some b" "acc_nonce b = acc_nonce a"
    using get_account_debit_members [where P = P and t = token and L = L and
        mds = "zip (at_ring xfer) (at_enc xfer)" and j = j] a
    by (auto split: option.splits)
  show "\<exists>b. get_account L1 j = Some b \<and> acc_nonce b = acc_nonce a + bump_of None j"
    using assms b by (elim anon_Inr) (auto simp: Let_def account_or_default_Some)
qed

lemma curve_trade_bumps:
  assumes "apply_curve_trade P token trader is_buy amount min_out fee nonce sg tx L = Inr L1"
  shows "bumps L L1 (Some (trader, nonce))"
  using assms unfolding bumps_def
  by (elim curve_trade_Inr)
    (auto elim!: curve_buy_Inr curve_sell_Inr simp: get_account_credit account_or_default_def split: if_splits)

lemma add_liquidity_bumps:
  assumes "pools_wf L"
    and "apply_add_liquidity P token provider lat_amount tok_amount fee nonce sg tx L = (None, L1)"
  shows "bumps L L1 (Some (provider, nonce))"
  using assms(2)
  by (cases rule: add_liquidity_cases [OF assms(1), consumes 1]) (auto simp: bumps_def)

lemma register_bumps: "register i L = Inr L1 \<Longrightarrow> bumps L L1 None"
  by (auto simp: bumps_def dest!: register_Inr)

lemma apply_inner_bumps:
  assumes wf: "pools_wf L" and run: "apply_inner P tx height pre L = (None, L1)"
  shows "bumps L L1 (signer P tx)"
proof (cases tx)
  case (AddLiquidity token provider lat_amount tok_amount fee nonce sg)
  then show ?thesis using run add_liquidity_bumps [OF wf] by simp
next
  case (RemoveLiquidity token provider lp_amount fee nonce sg)
  then show ?thesis using run by (auto simp: or_keep_None bumps_def elim!: remove_liquidity_Inr [OF wf])
next
  case (Swap token trader lat_in amount_in min_out fee nonce sg)
  then show ?thesis using run by (auto simp: or_keep_None bumps_def elim!: swap_Inr [OF wf])
next
  case (CurveTrade token trader is_buy amount min_out fee nonce sg)
  then show ?thesis using run curve_trade_bumps by (simp add: or_keep_None)
next
  case (AnonTransfer token xfer)
  then show ?thesis using run anon_bumps by (simp add: or_keep_None)
next
  case (Register i n)
  then show ?thesis using run register_bumps by (simp add: or_keep_None)
qed (use run in \<open>auto simp: or_keep_None Let_def bumps_def get_account_credit account_or_default_def
  elim!: create_token_Inr solvent_Inr rollover_Inr deploy_Inr
  call_Inr public_transfer_Inr shield_Inr unshield_Inr shield_stealth_Inr stake_Inr unstake_Inr
  slash_Inr htlc_lock_Inr htlc_claim_Inr htlc_refund_Inr\<close>)

lemma apply_inner_signer:
  assumes wf: "pools_wf L" and run: "apply_inner P tx height pre L = (None, L1)" and s: "signer P tx = Some (i, n)"
  shows "ledger_nonce L i = Some n"
proof (cases tx)
  case (AddLiquidity token provider lat_amount tok_amount fee nonce sg)
  then have "apply_add_liquidity P token provider lat_amount tok_amount fee nonce sg tx L = (None, L1)"
    using run by simp
  then show ?thesis using s AddLiquidity
    by (cases rule: add_liquidity_cases [OF wf, consumes 1]) (auto simp: ledger_nonce_def)
qed (use run s in \<open>auto simp: or_keep_None ledger_nonce_def
  elim!: solvent_Inr rollover_Inr call_Inr public_transfer_Inr shield_Inr unshield_Inr shield_stealth_Inr
   stake_Inr unstake_Inr htlc_lock_Inr curve_trade_Inr remove_liquidity_Inr [OF wf] swap_Inr [OF wf]\<close>)

lemma apply_at_None:
  "fst (apply_at P tx height L) = None \<Longrightarrow> \<exists>M. apply_inner P tx height None L = (None, M) \<and>
     snd (apply_at P tx height L) = mark_all (dirty_keys_for P M tx) M"
  by (auto simp: apply_at_def apply_at_with_def split: prod.splits option.splits)

lemma apply_at_NoneI: "apply_inner P tx height None L = (None, M) \<Longrightarrow> fst (apply_at P tx height L) = None"
  by (simp add: apply_at_def apply_at_with_def)

lemma pools_wf_mark [simp]: "pools_wf (mark_all ks L) = pools_wf L"
  by (rule pools_wf_cong) simp_all

lemma ledger_nonce_mark [simp]: "ledger_nonce (mark_all ks L) i = ledger_nonce L i"
  by (simp add: ledger_nonce_def)

section \<open>Replays\<close>

fun is_slash :: "('g, 's, 'r) transaction \<Rightarrow> bool" where
  "is_slash (SlashEvidence vid beneficiary vote_height block_a sig_a block_b sig_b) \<longleftrightarrow> True"
| "is_slash _ \<longleftrightarrow> False"

text \<open>What makes a transaction without a nonce fail the second time.\<close>

definition spent ::
  "('g::ab_group_add, 's::comm_ring_1, 'r) prims \<Rightarrow> ('g, 's, 'r) transaction \<Rightarrow> 'g ledger \<Rightarrow> bool" where
  "spent P tx L = (case tx of
       Register pubkey pow_nonce \<Rightarrow> is_registered L pubkey
     | CreateToken ticker creator amount sg \<Rightarrow>
         (case normalize_ticker ticker of Some norm \<Rightarrow> ticker_taken L norm | None \<Rightarrow> True)
     | DeployContract deployer code sg \<Rightarrow> has_contract L (contract_id (blake3 P) deployer code)
     | AnonTransfer token xfer \<Rightarrow> nullifier_seen L (anon_nullifier P xfer)
     | HtlcClaim i preimage \<Rightarrow> get_htlc L i = None
     | HtlcRefund i \<Rightarrow> get_htlc L i = None
     | _ \<Rightarrow> (case signer P tx of Some (i, n) \<Rightarrow> ledger_nonce L i \<noteq> Some n | None \<Rightarrow> False))"

lemma spent_signer: "signer P tx = Some (i, n) \<Longrightarrow> spent P tx L \<longleftrightarrow> ledger_nonce L i \<noteq> Some n"
  by (cases tx) (auto simp: spent_def)

lemma spent_mark [simp]: "spent P tx (mark_all ks L) = spent P tx L"
  by (cases tx) (simp_all add: spent_def is_registered_def ticker_taken_def has_contract_def
      nullifier_seen_def get_htlc_def split: option.splits)

lemma success_spends:
  assumes wf: "pools_wf L" and run: "apply_inner P tx height pre L = (None, L1)" and ns: "\<not> is_slash tx"
  shows "spent P tx L1"
proof (cases "signer P tx")
  case (Some s)
  obtain i n where s: "s = (i, n)" by fastforce
  have "ledger_nonce L i = Some n" using apply_inner_signer [OF wf run] Some s by simp
  moreover have "bumps L L1 (Some (i, n))" using apply_inner_bumps [OF wf run] Some s by simp
  ultimately have "ledger_nonce L1 i = Some (n + 1)" by (fastforce simp: bumps_def ledger_nonce_def)
  then show ?thesis using spent_signer [OF Some [unfolded s], of L1] by simp
next
  case None
  then show ?thesis using run ns
    by (cases tx) (auto simp: spent_def or_keep_None is_registered_def ticker_taken_def has_contract_def
        nullifier_seen_def get_htlc_def put_token_def put_contract_def insert_nullifier_def drop_htlc_def
        put_account_def mark_def Let_def
        dest!: register_Inr elim!: create_token_Inr deploy_Inr anon_Inr htlc_claim_Inr htlc_refund_Inr
        split: option.splits)
qed

lemma spent_fails:
  assumes wf: "pools_wf L" and sp: "spent P tx L"
  shows "fst (apply_inner P tx height pre L) \<noteq> None"
proof
  assume "fst (apply_inner P tx height pre L) = None"
  then obtain L1 where run: "apply_inner P tx height pre L = (None, L1)" by (metis prod.collapse)
  show False
  proof (cases "signer P tx")
    case (Some s)
    then show ?thesis using apply_inner_signer [OF wf run] sp spent_signer by (metis surj_pair)
  next
    case None
    then show ?thesis using run sp
      by (cases tx) (auto simp: spent_def or_keep_None is_registered_def get_account_def
          dest!: register_Inr elim!: create_token_Inr deploy_Inr anon_Inr htlc_claim_Inr htlc_refund_Inr
          split: option.splits)
  qed
qed

text \<open>
  an accepted transaction raises the nonce of the account that signed it by one and no other
  nonce, and it had to name the nonce the account was at; no account is ever removed.
\<close>

theorem nonce_discipline:
  assumes "pools_wf L" and "fst (apply_at P tx height L) = None" and "get_account L j = Some a"
  shows "(\<exists>b. get_account (snd (apply_at P tx height L)) j = Some b \<and>
      acc_nonce b = acc_nonce a + bump_of (signer P tx) j) \<and>
    (\<forall>n. signer P tx = Some (j, n) \<longrightarrow> n = acc_nonce a)"
proof -
  obtain M where M: "apply_inner P tx height None L = (None, M)"
    and L1: "snd (apply_at P tx height L) = mark_all (dirty_keys_for P M tx) M"
    using apply_at_None [OF assms(2)] by blast
  have "\<exists>b. get_account M j = Some b \<and> acc_nonce b = acc_nonce a + bump_of (signer P tx) j"
    using apply_inner_bumps [OF assms(1) M] assms(3) unfolding bumps_def by blast
  moreover have "n = acc_nonce a" if "signer P tx = Some (j, n)" for n
    using apply_inner_signer [OF assms(1) M that] assms(3) by (simp add: ledger_nonce_def)
  ultimately show ?thesis using L1 by auto
qed

theorem nonce_discipline_witness:
  "map_option acc_nonce (get_account (snd (apply_at (toy_prims :: (u64, u64, unit) prims)
       (Rollover 0 0 0) 1 demo_ledger)) 0) = Some 1"
proof -
  have "fst (apply_at (toy_prims :: (u64, u64, unit) prims) (Rollover 0 0 0) 1 demo_ledger) = None"
    by (simp add: apply_at_def apply_at_with_def apply_rollover_def toy_check_sig demo_fields or_keep_def Let_def
        acct_set_public_def account_default_def)
  from nonce_discipline [OF demo_wf this, of 0] show ?thesis by (auto simp: demo_fields)
qed

section \<open>Records that are written once\<close>

text \<open>
  \<open>keeps L L1\<close>: nullifiers stay spent, tickers keep their token, tokens their record, contracts
  their code, and the token counter does not go back.
\<close>

definition keeps :: "'g ledger \<Rightarrow> 'g ledger \<Rightarrow> bool" where
  "keeps L L1 \<longleftrightarrow> l_nullifiers L |\<subseteq>| l_nullifiers L1 \<and>
     (\<forall>norm i. fmlookup (l_tickers L) norm = Some i \<longrightarrow> fmlookup (l_tickers L1) norm = Some i) \<and>
     (\<forall>i c. get_contract L i = Some c \<longrightarrow> (\<exists>d. get_contract L1 i = Some d \<and> con_code d = con_code c)) \<and>
     (\<forall>i m. fmlookup (l_tokens L) i = Some m \<longrightarrow> fmlookup (l_tokens L1) i = Some m)"

text \<open>
  Tokens, their ticker index and the counter agree: the index is one to one with the tokens, and
  the ids in use are the ones below the counter; LAT has no record.
\<close>

definition tokens_wf :: "'g ledger \<Rightarrow> bool" where
  "tokens_wf L \<longleftrightarrow>
     (\<forall>i m. token_by_id L i = Some m \<longrightarrow>
        tm_id m = i \<and> i \<noteq> LAT_TOKEN \<and> i < l_next_token_id L \<and> fmlookup (l_tickers L) (tm_ticker m) = Some i) \<and>
     (\<forall>norm i. fmlookup (l_tickers L) norm = Some i \<longrightarrow>
        (\<exists>m. token_by_id L i = Some m \<and> tm_ticker m = norm)) \<and>
     l_next_token_id L \<noteq> 0"

lemma same_tokens:
  assumes "l_tokens M = l_tokens L" and "l_tickers M = l_tickers L" and "l_next_token_id M = l_next_token_id L"
  shows "tokens_wf M = tokens_wf L"
  using assms by (simp add: tokens_wf_def token_by_id_def)

fun is_create :: "('g, 's, 'r) transaction \<Rightarrow> bool" where
  "is_create (CreateToken ticker creator amount sg) \<longleftrightarrow> True"
| "is_create _ \<longleftrightarrow> False"

lemma apply_inner_tokens_frame:
  assumes wf: "pools_wf L" and run: "apply_inner P tx height pre L = (None, L1)" and nc: "\<not> is_create tx"
  shows "l_tokens L1 = l_tokens L \<and> l_tickers L1 = l_tickers L \<and> l_next_token_id L1 = l_next_token_id L"
proof (cases tx)
  case (CurveTrade token trader is_buy amount min_out fee nonce sg)
  then have "apply_curve_trade P token trader is_buy amount min_out fee nonce sg tx L = Inr L1"
    using run by (simp add: or_keep_None)
  then show ?thesis
    by (elim curve_trade_Inr) (auto elim!: curve_buy_Inr curve_sell_Inr split: if_splits)
next
  case (AddLiquidity token provider lat_amount tok_amount fee nonce sg)
  then have "apply_add_liquidity P token provider lat_amount tok_amount fee nonce sg tx L = (None, L1)"
    using run by simp
  then show ?thesis by (cases rule: add_liquidity_cases [OF wf, consumes 1]) simp_all
next
  case (Register i n)
  then show ?thesis using run by (auto simp: or_keep_None dest!: register_Inr)
qed (use run nc in \<open>auto simp: or_keep_None Let_def elim!: solvent_Inr rollover_Inr deploy_Inr
  call_Inr public_transfer_Inr shield_Inr unshield_Inr shield_stealth_Inr anon_Inr stake_Inr unstake_Inr
  slash_Inr htlc_lock_Inr htlc_claim_Inr htlc_refund_Inr remove_liquidity_Inr [OF wf] swap_Inr [OF wf]\<close>)

lemma create_token_wf:
  assumes run: "apply_create_token P ticker creator amount sg tx L = Inr L1" and wf: "tokens_wf L"
    and room: "unat (l_next_token_id L) + 1 < 2 ^ 32"
  obtains norm where "normalize_ticker ticker = Some norm" and "fmlookup (l_tickers L) norm = None"
    and "token_by_id L (l_next_token_id L) = None" and "tokens_wf L1"
    and "l_tokens L1 = fmupd (l_next_token_id L) \<lparr>tm_id = l_next_token_id L, tm_ticker = norm,
           tm_creator = creator, tm_supply = amount\<rparr> (l_tokens L)"
    and "l_tickers L1 = fmupd norm (l_next_token_id L) (l_tickers L)"
    and "l_next_token_id L1 = l_next_token_id L + 1"
  using run
proof (cases rule: create_token_Inr [consumes 1])
  case (1 acct norm)
  let ?n = "l_next_token_id L"
  have next_id: "unat (?n + 1) = unat ?n + 1" using room by (intro unat_add_small [THEN trans]) simp_all
  have fresh: "token_by_id L ?n = None"
    using wf by (cases "token_by_id L ?n") (auto simp: tokens_wf_def)
  have nt: "fmlookup (l_tickers L) norm = None" using 1(3) by (simp add: ticker_taken_def)
  have F: "l_tokens L1 = fmupd ?n \<lparr>tm_id = ?n, tm_ticker = norm, tm_creator = creator, tm_supply = amount\<rparr> (l_tokens L)"
    "l_tickers L1 = fmupd norm ?n (l_tickers L)" "l_next_token_id L1 = ?n + 1"
    by (simp_all add: 1(6) put_token_def)
  have "tokens_wf L1"
    unfolding tokens_wf_def
  proof (rule conjI [OF _ conjI]; (intro allI impI)?)
    fix i m
    assume m: "token_by_id L1 i = Some m"
    show "tm_id m = i \<and> i \<noteq> LAT_TOKEN \<and> i < l_next_token_id L1 \<and>
        fmlookup (l_tickers L1) (tm_ticker m) = Some i"
    proof (cases "i = ?n")
      case True
      then show ?thesis using m wf next_id
        by (auto simp: token_by_id_def F tokens_wf_def LAT_TOKEN_def word_less_nat_alt)
    next
      case False
      then have old: "token_by_id L i = Some m" using m by (simp add: token_by_id_def F)
      from wf old have w: "tm_id m = i" "i \<noteq> LAT_TOKEN" "i < ?n" "fmlookup (l_tickers L) (tm_ticker m) = Some i"
        unfolding tokens_wf_def by blast+
      then have "tm_ticker m \<noteq> norm" and "unat i < unat (?n + 1)"
        using nt next_id by (auto simp: word_less_nat_alt)
      then show ?thesis using w by (simp add: F word_less_nat_alt)
    qed
  next
    fix t i
    assume "fmlookup (l_tickers L1) t = Some i"
    then show "\<exists>m. token_by_id L1 i = Some m \<and> tm_ticker m = t"
      using wf fresh by (fastforce simp: F token_by_id_def tokens_wf_def split: if_splits)
  next
    show "l_next_token_id L1 \<noteq> 0" using next_id by (auto simp: F(3))
  qed
  then show thesis using that [of norm] 1(2) nt fresh F by blast
qed

fun touches_contract :: "('g, 's, 'r) transaction \<Rightarrow> bool" where
  "touches_contract (DeployContract deployer code sg) \<longleftrightarrow> True"
| "touches_contract (CallContract contract caller inp nonce sg) \<longleftrightarrow> True"
| "touches_contract _ \<longleftrightarrow> False"

lemma apply_inner_once_frame:
  assumes wf: "pools_wf L" and run: "apply_inner P tx height pre L = (None, L1)"
  shows "l_nullifiers L |\<subseteq>| l_nullifiers L1" and "\<not> touches_contract tx \<Longrightarrow> l_contracts L1 = l_contracts L"
proof -
  have "l_nullifiers L |\<subseteq>| l_nullifiers L1 \<and> (\<not> touches_contract tx \<longrightarrow> l_contracts L1 = l_contracts L)"
  proof (cases tx)
    case (CurveTrade token trader is_buy amount min_out fee nonce sg)
    then have "apply_curve_trade P token trader is_buy amount min_out fee nonce sg tx L = Inr L1"
      using run by (simp add: or_keep_None)
    then show ?thesis
      by (elim curve_trade_Inr) (auto elim!: curve_buy_Inr curve_sell_Inr split: if_splits)
  next
    case (AddLiquidity token provider lat_amount tok_amount fee nonce sg)
    then have "apply_add_liquidity P token provider lat_amount tok_amount fee nonce sg tx L = (None, L1)"
      using run by simp
    then show ?thesis by (cases rule: add_liquidity_cases [OF wf, consumes 1]) simp_all
  next
    case (Register i n)
    then show ?thesis using run by (auto simp: or_keep_None dest!: register_Inr)
  next
    case (AnonTransfer token xfer)
    then show ?thesis using run
      by (auto simp: or_keep_None Let_def insert_nullifier_def elim!: anon_Inr)
  qed (use run in \<open>auto simp: or_keep_None Let_def elim!: create_token_Inr solvent_Inr rollover_Inr deploy_Inr
    call_Inr public_transfer_Inr shield_Inr unshield_Inr shield_stealth_Inr stake_Inr unstake_Inr
    slash_Inr htlc_lock_Inr htlc_claim_Inr htlc_refund_Inr remove_liquidity_Inr [OF wf] swap_Inr [OF wf]\<close>)
  then show "l_nullifiers L |\<subseteq>| l_nullifiers L1"
    and "\<not> touches_contract tx \<Longrightarrow> l_contracts L1 = l_contracts L" by simp_all
qed

lemma apply_inner_contracts:
  assumes wf: "pools_wf L" and run: "apply_inner P tx height pre L = (None, L1)" and c: "get_contract L i = Some c"
  shows "\<exists>d. get_contract L1 i = Some d \<and> con_code d = con_code c"
proof (cases "touches_contract tx")
  case False
  then show ?thesis using apply_inner_once_frame(2) [OF wf run] c by (simp add: get_contract_def)
next
  case True
  then show ?thesis using run c
    by (cases tx) (auto simp: or_keep_None has_contract_def get_contract_def put_contract_def
        elim!: deploy_Inr call_Inr)
qed

lemma apply_inner_keeps:
  assumes wf: "pools_wf L" and run: "apply_inner P tx height pre L = (None, L1)" and tk: "tokens_wf L"
    and room: "unat (l_next_token_id L) + 1 < 2 ^ 32"
  shows "tokens_wf L1" and "keeps L L1"
proof -
  have "tokens_wf L1 \<and> (\<forall>norm i. fmlookup (l_tickers L) norm = Some i \<longrightarrow> fmlookup (l_tickers L1) norm = Some i) \<and>
     (\<forall>i m. fmlookup (l_tokens L) i = Some m \<longrightarrow> fmlookup (l_tokens L1) i = Some m)"
  proof (cases "is_create tx")
    case False
    with apply_inner_tokens_frame [OF wf run] tk show ?thesis using same_tokens [of L1 L] by simp
  next
    case True
    then obtain ticker creator amount sg where "tx = CreateToken ticker creator amount sg" by (cases tx) auto
    then have "apply_create_token P ticker creator amount sg tx L = Inr L1" using run by (simp add: or_keep_None)
    from create_token_wf [OF this tk room] obtain norm where "fmlookup (l_tickers L) norm = None"
      "token_by_id L (l_next_token_id L) = None" "tokens_wf L1"
      "l_tokens L1 = fmupd (l_next_token_id L) \<lparr>tm_id = l_next_token_id L, tm_ticker = norm,
           tm_creator = creator, tm_supply = amount\<rparr> (l_tokens L)"
      "l_tickers L1 = fmupd norm (l_next_token_id L) (l_tickers L)" by metis
    then show ?thesis by (simp add: token_by_id_def)
  qed
  then show "tokens_wf L1" and "keeps L L1"
    using apply_inner_once_frame(1) [OF wf run] apply_inner_contracts [OF wf run]
    unfolding keeps_def by blast+
qed

text \<open>
  C18: what the ledger promises to write once stays written. As long as the 32-bit token counter
  has room, every transaction keeps tokens and tickers one to one (a ticker names one token for
  ever, ids are never reused and LAT is never redefined), keeps the code of every deployed
  contract, and never forgets a spent nullifier.
\<close>

theorem registry_permanent:
  assumes "pools_wf L" and "tokens_wf L" and "unat (l_next_token_id L) + 1 < 2 ^ 32"
  shows "tokens_wf (snd (apply_at P tx height L)) \<and> keeps L (snd (apply_at P tx height L))"
proof (cases "fst (apply_at P tx height L)")
  case None
  then obtain M where M: "apply_inner P tx height None L = (None, M)"
    and L1: "snd (apply_at P tx height L) = mark_all (dirty_keys_for P M tx) M"
    using apply_at_None by blast
  note k = apply_inner_keeps [OF assms(1) M assms(2,3)]
  then have "tokens_wf (mark_all ks M)" for ks using same_tokens [of "mark_all ks M" M] by simp
  moreover have "keeps L (mark_all ks M)" for ks using k(2) by (simp add: keeps_def get_contract_def)
  ultimately show ?thesis using L1 by simp
next
  case (Some e)
  then show ?thesis using apply_at_failed [OF assms(1) Some] assms(2) by (simp add: keeps_def)
qed

lemma demo_tokens_wf: "tokens_wf demo_ledger"
  by (simp add: tokens_wf_def token_by_id_def demo_ledger_def put_htlc_def put_pool_def put_lp_def
      put_account_def ledger_new_def)

theorem registry_permanent_witness:
  "fst (apply_at (toy_prims :: (u64, u64, unit) prims) (CreateToken [0x43] 0 7 0) 1 demo_ledger) = None \<and>
   tokens_wf (snd (apply_at (toy_prims :: (u64, u64, unit) prims) (CreateToken [0x43] 0 7 0) 1 demo_ledger))"
proof -
  have "fst (apply_at (toy_prims :: (u64, u64, unit) prims) (CreateToken [0x43] 0 7 0) 1 demo_ledger) = None"
    using normalize_alnum(1) [of "[0x43]"]
    by (simp add: apply_at_def apply_at_with_def apply_create_token_def toy_check_sig demo_fields or_keep_def Let_def
        ascii_alnum_def ticker_taken_def LAT_TOKEN_def FLAT_TX_FEE_def demo_ledger_def put_htlc_def put_pool_def
        put_lp_def put_account_def ledger_new_def get_account_def)
  then show ?thesis
    using registry_permanent [OF demo_wf demo_tokens_wf,
      of "toy_prims :: (u64, u64, unit) prims" "CreateToken [0x43] 0 7 0" 1]
    by (simp add: demo_ledger_def put_htlc_def put_pool_def put_lp_def put_account_def ledger_new_def)
qed

section \<open>Replays after other transactions\<close>

lemma validator_or_default_put:
  "validator_or_default (put_validator i v L) j =
     (if j = i then (if val_staked v = 0 \<and> val_unbonding v = [] then validator_default else v)
      else validator_or_default L j)"
  by (simp add: validator_or_default_def get_validator_def put_validator_def)

text \<open>Evidence tombstones the validator, or takes all it has; neither can be taken twice.\<close>

lemma slash_once:
  assumes run: "apply_inner P tx height pre L = (None, L1)" and s: "is_slash tx"
  shows "fst (apply_inner P tx height' pre' (mark_all ks L1)) \<noteq> None"
proof -
  obtain vid who h ba sa bb sb where tx: "tx = SlashEvidence vid who h ba sa bb sb" using s by (cases tx) auto
  have a: "apply_slash P vid who h ba sa bb sb L = Inr L1" using run by (simp add: tx or_keep_None)
  let ?v = "validator_or_default (mark_all ks L1) vid"
  have "val_tombstoned ?v \<or> slash_total ?v = 0"
    using a
  proof (cases rule: slash_Inr [consumes 1])
    case (1 pk)
    have "validator_or_default (mark_all ks L1) vid =
        validator_or_default (put_validator vid (slash_validator (slash_amount (slash_total (validator_or_default L vid)))
          (validator_or_default L vid)) L) vid"
      by (simp add: 1(7) Let_def validator_or_default_def get_validator_def)
    then show ?thesis
      by (simp add: validator_or_default_put slash_validator_def Let_def slash_total_def validator_default_def saturating_add_def)
  qed
  moreover have "\<not> val_tombstoned ?v \<and> slash_total ?v \<noteq> 0"
    if "apply_slash P vid who h ba sa bb sb (mark_all ks L1) = Inr M" for M
    using that by (cases rule: slash_Inr [consumes 1]) blast
  ultimately show ?thesis by (auto simp: tx or_keep_def split: sum.splits)
qed

text \<open>The ledger after more transactions, accepted or not.\<close>

definition after_txs ::
  "('g::ab_group_add, 's::comm_ring_1, 'r) prims \<Rightarrow> (('g, 's, 'r) transaction \<times> u64) list \<Rightarrow> 'g ledger \<Rightarrow> 'g ledger" where
  "after_txs P later L = foldl (\<lambda>M x. snd (apply_at P (fst x) (snd x) M)) L later"

lemma after_txs_simps [simp]:
  "after_txs P [] L = L"
  "after_txs P (later @ [x]) L = snd (apply_at P (fst x) (snd x) (after_txs P later L))"
  by (simp_all add: after_txs_def)

lemma pools_wf_apply_at: "pools_wf L \<Longrightarrow> pools_wf (snd (apply_at P tx height L))"
  using apply_inner_pools_wf [of L P tx height None] apply_at_None [of P tx height L] apply_at_failed [of L P tx height]
  by (cases "fst (apply_at P tx height L)") auto

lemma nonce_step:
  assumes "pools_wf L" and "ledger_nonce L i = Some n"
  shows "ledger_nonce (snd (apply_at P tx height L)) i \<in> {Some n, Some (n + 1)}"
proof (cases "fst (apply_at P tx height L)")
  case None
  then obtain M where M: "apply_inner P tx height None L = (None, M)"
    and L1: "snd (apply_at P tx height L) = mark_all (dirty_keys_for P M tx) M" using apply_at_None by blast
  obtain a where "get_account L i = Some a" "acc_nonce a = n" using assms(2) by (auto simp: ledger_nonce_def)
  then obtain b where "get_account M i = Some b" "acc_nonce b = n + bump_of (signer P tx) i"
    using apply_inner_bumps [OF assms(1) M] unfolding bumps_def by blast
  then show ?thesis by (simp add: L1) (simp add: ledger_nonce_def bump_of_def split: option.splits prod.splits)
next
  case (Some e)
  then show ?thesis using apply_at_failed [OF assms(1) Some] assms(2) by simp
qed

lemma nonce_after:
  assumes "pools_wf L" and "ledger_nonce L i = Some n"
  shows "\<exists>k\<le>length later. ledger_nonce (after_txs P later L) i = Some (n + of_nat k)"
proof (induction later rule: rev_induct)
  case (snoc x later)
  have wf: "pools_wf (after_txs P later L)"
    by (induction later rule: rev_induct) (auto simp: assms(1) intro: pools_wf_apply_at)
  obtain k where k: "k \<le> length later" "ledger_nonce (after_txs P later L) i = Some (n + of_nat k)" using snoc by blast
  from nonce_step [OF wf k(2), of P "fst x" "snd x"] show ?case
  proof
    assume "ledger_nonce (snd (apply_at P (fst x) (snd x) (after_txs P later L))) i = Some (n + of_nat k)"
    then show ?thesis using k(1) by (intro exI [of _ k]) simp
  next
    assume "ledger_nonce (snd (apply_at P (fst x) (snd x) (after_txs P later L))) i \<in> {Some (n + of_nat k + 1)}"
    then show ?thesis using k(1) by (intro exI [of _ "Suc k"]) (simp add: add.assoc add.commute [of 1])
  qed
qed (simp add: assms(2))

text \<open>A lock and a tombstone can come back; what the other transactions without a nonce create stays.\<close>

fun recurs :: "('g, 's, 'r) transaction \<Rightarrow> bool" where
  "recurs (SlashEvidence vid beneficiary vote_height block_a sig_a block_b sig_b) \<longleftrightarrow> True"
| "recurs (HtlcClaim i preimage) \<longleftrightarrow> True"
| "recurs (HtlcRefund i) \<longleftrightarrow> True"
| "recurs _ \<longleftrightarrow> False"

lemma ticker_taken_step:
  assumes "pools_wf L" and "apply_inner P tx height pre L = (None, M)" and "ticker_taken L norm"
  shows "ticker_taken M norm"
proof (cases "is_create tx")
  case True
  then show ?thesis using assms(2,3)
    by (cases tx) (auto simp: or_keep_None ticker_taken_def put_token_def elim!: create_token_Inr)
qed (use apply_inner_tokens_frame [OF assms(1,2)] assms(3) in \<open>simp add: ticker_taken_def\<close>)

lemma spent_step:
  assumes "pools_wf L" and "signer P tx = None" and "\<not> recurs tx" and "spent P tx L"
  shows "spent P tx (snd (apply_at P tx1 height L))"
proof (cases "fst (apply_at P tx1 height L)")
  case None
  then obtain M where M: "apply_inner P tx1 height None L = (None, M)"
    and L1: "snd (apply_at P tx1 height L) = mark_all (dirty_keys_for P M tx1) M" using apply_at_None by blast
  have "is_registered L i \<Longrightarrow> is_registered M i" for i
    using apply_inner_bumps [OF assms(1) M] by (auto simp: bumps_def is_registered_def get_account_def fmlookup_dom_iff)
  moreover have "has_contract L i \<Longrightarrow> has_contract M i" for i
    using apply_inner_contracts [OF assms(1) M] by (auto simp: has_contract_def get_contract_def fmlookup_dom_iff)
  moreover have "nullifier_seen L nf \<Longrightarrow> nullifier_seen M nf" for nf
    using apply_inner_once_frame(1) [OF assms(1) M] by (auto simp: nullifier_seen_def)
  moreover note ticker_taken_step [OF assms(1) M]
  ultimately have "spent P tx M" using assms(2-4) by (cases tx) (auto simp: spent_def split: option.splits)
  then show ?thesis by (simp add: L1)
next
  case (Some e)
  then show ?thesis using apply_at_failed [OF assms(1) Some] assms(4) by simp
qed

lemma spent_after:
  assumes "pools_wf L" and "spent P tx L" and "\<not> recurs tx" and "length later < 2 ^ 64 - 1"
    and "\<And>i n. signer P tx = Some (i, n) \<Longrightarrow> ledger_nonce L i = Some (n + 1)"
  shows "spent P tx (after_txs P later L)"
proof (cases "signer P tx")
  case (Some s)
  then obtain i n where s: "signer P tx = Some (i, n)" by (cases s) simp
  obtain k where k: "k \<le> length later" "ledger_nonce (after_txs P later L) i = Some (n + 1 + of_nat k)"
    using nonce_after [OF assms(1) assms(5) [OF s]] by blast
  have "(of_nat (Suc k) :: u64) \<noteq> 0"
    using k(1) assms(4) by (intro notI) (simp only: word_of_nat_eq_0_iff, auto dest: dvd_imp_le)
  then have "n + 1 + of_nat k \<noteq> n" by (simp add: add.assoc)
  then show ?thesis using k(2) by (simp add: spent_signer [OF s])
next
  case None
  have "pools_wf (after_txs P later L) \<and> spent P tx (after_txs P later L)" for later
  proof (induction later rule: rev_induct)
    case (snoc x later)
    then show ?case by (auto intro!: pools_wf_apply_at spent_step [OF _ None assms(3)])
  qed (simp add: assms(1,2))
  then show ?thesis by blast
qed

text \<open>
  C2: a transaction cannot be replayed. Once any transaction has been accepted, at whatever height, the same transaction
  is rejected at every height when it is applied again. It is rejected also after up to \<open>2 ^ 64 - 2\<close> other transactions,
  accepted or not: by its nonce, or by the registration, the ticker, the contract or the nullifier it would have to create
  again. Only a settlement of a hash lock and the evidence of an equivocation are left to the first part, since a lock or a
  tombstone can come back.
\<close>

theorem replay_rejected:
  assumes "pools_wf L" and "fst (apply_at P tx height L) = None"
  shows "fst (apply_at P tx height' (snd (apply_at P tx height L))) \<noteq> None \<and>
    (\<not> recurs tx \<and> length later < 2 ^ 64 - 1 \<longrightarrow>
       fst (apply_at P tx height' (after_txs P later (snd (apply_at P tx height L)))) \<noteq> None)"
proof -
  obtain M where M: "apply_inner P tx height None L = (None, M)"
    and L1: "snd (apply_at P tx height L) = mark_all (dirty_keys_for P M tx) M"
    using apply_at_None [OF assms(2)] by blast
  let ?L1 = "snd (apply_at P tx height L)"
  have wf: "pools_wf ?L1" by (rule pools_wf_apply_at [OF assms(1)])
  have fails: "fst (apply_at P tx height' N) \<noteq> None" if "spent P tx N" "pools_wf N" for N
    using spent_fails [OF that(2,1)] apply_at_None [of P tx height' N] by (metis fst_conv)
  show ?thesis
  proof (cases "is_slash tx")
    case True
    have "fst (apply_inner P tx height' None ?L1) \<noteq> None" unfolding L1 by (rule slash_once [OF M True])
    moreover have "recurs tx" using True by (cases tx) simp_all
    ultimately show ?thesis using apply_at_None by fastforce
  next
    case False
    have s: "spent P tx ?L1" using success_spends [OF assms(1) M False] by (simp add: L1)
    have n: "ledger_nonce ?L1 i = Some (n + 1)" if "signer P tx = Some (i, n)" for i n
      using apply_inner_signer [OF assms(1) M that] apply_inner_bumps [OF assms(1) M] that
      by (fastforce simp: L1 bumps_def ledger_nonce_def)
    have "pools_wf (after_txs P later ?L1)"
      by (induction later rule: rev_induct) (auto simp: wf intro: pools_wf_apply_at)
    then show ?thesis using fails [OF s wf] fails [OF spent_after [OF wf s _ _ n]] by blast
  qed
qed

theorem replay_rejected_witness:
  "fst (apply_at (toy_prims :: (u64, u64, unit) prims) (HtlcRefund 9) 12
     (snd (apply_at toy_prims (HtlcRefund 9) 10 demo_ledger))) \<noteq> None \<and>
   fst (apply_at (toy_prims :: (u64, u64, unit) prims) (Rollover 0 0 0) 12
     (after_txs toy_prims [(HtlcRefund 9, 10), (Rollover 0 1 0, 11)] (snd (apply_at toy_prims (Rollover 0 0 0) 1 demo_ledger)))) \<noteq> None"
proof -
  have "fst (apply_at (toy_prims :: (u64, u64, unit) prims) (HtlcRefund 9) 10 demo_ledger) = None"
    by (simp add: apply_at_def apply_at_with_def apply_htlc_refund_def demo_fields or_keep_def)
  moreover have "fst (apply_at (toy_prims :: (u64, u64, unit) prims) (Rollover 0 0 0) 1 demo_ledger) = None"
    by (simp add: apply_at_def apply_at_with_def apply_rollover_def toy_check_sig demo_fields or_keep_def Let_def
        acct_set_public_def account_default_def)
  ultimately show ?thesis
    using replay_rejected [OF demo_wf, where P = "toy_prims :: (u64, u64, unit) prims" and tx = "HtlcRefund 9"
        and height = 10 and height' = 12 and later = "[]"]
      replay_rejected [OF demo_wf, where P = "toy_prims :: (u64, u64, unit) prims" and tx = "Rollover 0 0 0"
        and height = 1 and height' = 12 and later = "[(HtlcRefund 9, 10), (Rollover 0 1 0, 11)]"] by simp
qed

end
