(* ===== verification/Ledger_Settlement.thy ===== *)
theory Ledger_Settlement
  imports Ledger_Safety
begin

text \<open>
  Hash locks settle once, validators are ranked and slashed as promised, and the evidence of the
  parallel pre-pass changes no verdict.
\<close>

section \<open>Hash locks\<close>

lemma get_htlc_frame [simp]:
  "get_htlc (put_account i a L) h = get_htlc L h" "get_htlc (update_account i f L) h = get_htlc L h"
  "get_htlc (credit_public i t n L) h = get_htlc L h" "get_htlc (mark_all ks L) h = get_htlc L h"
  "get_htlc (put_validator v w L) h = get_htlc L h" "get_htlc (put_pool p L) h = get_htlc L h"
  "get_htlc (put_lp t i n L) h = get_htlc L h" "get_htlc (put_curve c L) h = get_htlc L h"
  "get_htlc (put_contract i k L) h = get_htlc L h" "get_htlc (insert_nullifier nf L) h = get_htlc L h"
  "get_htlc (put_token m L) h = get_htlc L h" "get_htlc (L\<lparr>l_next_token_id := next_id\<rparr>) h = get_htlc L h"
  "get_htlc (foldl (debit_member P u) L mds) h = get_htlc L h" "get_htlc (mark dk L) h = get_htlc L h"
  by (simp_all add: get_htlc_def)

lemma get_htlc_drop [simp]: "get_htlc (drop_htlc i L) h = (if h = i then None else get_htlc L h)"
  by (simp add: get_htlc_def drop_htlc_def)

lemma get_htlc_put [simp]: "get_htlc (put_htlc i l L) h = (if h = i then Some l else get_htlc L h)"
  by (simp add: get_htlc_def put_htlc_def)

fun settles :: "id32 \<Rightarrow> ('g, 's, 'r) transaction \<Rightarrow> bool" where
  "settles i (HtlcClaim j preimage) \<longleftrightarrow> i = j"
| "settles i (HtlcRefund j) \<longleftrightarrow> i = j"
| "settles i _ \<longleftrightarrow> False"

lemma apply_inner_escrow:
  assumes wf: "pools_wf L" and run: "apply_inner P tx height pre L = (None, L1)"
    and h: "get_htlc L i = Some l" and ns: "\<not> settles i tx"
  shows "get_htlc L1 i = Some l"
proof (cases tx)
  case (CurveTrade token trader is_buy amount min_out fee nonce sg)
  then have "apply_curve_trade P token trader is_buy amount min_out fee nonce sg tx L = Inr L1"
    using run by (simp add: or_keep_None)
  then show ?thesis using h
    by (elim curve_trade_Inr) (auto elim!: curve_buy_Inr curve_sell_Inr split: if_splits)
next
  case (AddLiquidity token provider lat_amount tok_amount fee nonce sg)
  then have "apply_add_liquidity P token provider lat_amount tok_amount fee nonce sg tx L = (None, L1)"
    using run by simp
  then show ?thesis using h by (cases rule: add_liquidity_cases [OF wf, consumes 1]) simp_all
next
  case (Register j n)
  then show ?thesis using run h by (auto simp: or_keep_None dest!: register_Inr)
qed (use run h ns in \<open>auto simp: or_keep_None Let_def elim!: create_token_Inr solvent_Inr rollover_Inr deploy_Inr
    call_Inr public_transfer_Inr shield_Inr unshield_Inr shield_stealth_Inr anon_Inr stake_Inr unstake_Inr
    slash_Inr htlc_lock_Inr htlc_claim_Inr htlc_refund_Inr remove_liquidity_Inr [OF wf] swap_Inr [OF wf]\<close>)

text \<open>
  C17: a hash lock settles exactly once and to the right side. While it is open, a claim is accepted
  exactly before the expiry and with a preimage of the hash, a refund exactly from the expiry on, so
  at every height one of the two exits is shut and after the expiry the refund always works. Either
  way the lock is consumed and only the party it names is credited, with its amount. No other
  transaction touches the lock.
\<close>

theorem htlc_settlement:
  fixes P :: "('g::ab_group_add, 's::comm_ring_1, 'r) prims"
  assumes "pools_wf L" and "get_htlc L i = Some h"
  shows "(fst (apply_at P (HtlcClaim i preimage) height L) = None \<longleftrightarrow>
      height < htlc_expiry h \<and> sha256 P (be_bytes 32 preimage) = htlc_hashlock h) \<and>
    (fst (apply_at P (HtlcRefund i) height L) = None \<longleftrightarrow> htlc_expiry h \<le> height) \<and>
    (\<forall>tx who. fst (apply_at P tx height L) = None \<longrightarrow>
       (tx = HtlcClaim i preimage \<and> who = htlc_to h \<or> tx = HtlcRefund i \<and> who = htlc_from h) \<longrightarrow>
       snd (apply_at P tx height L) =
         mark (DirtyHtlc i) (credit_public who (htlc_token h) (htlc_amount h) (drop_htlc i L))) \<and>
    (\<forall>tx. \<not> settles i tx \<longrightarrow> get_htlc (snd (apply_at P tx height L)) i = Some h)"
proof (intro conjI allI impI)
  show "fst (apply_at P (HtlcClaim i preimage) height L) = None \<longleftrightarrow>
      height < htlc_expiry h \<and> sha256 P (be_bytes 32 preimage) = htlc_hashlock h"
    using assms(2) by (auto simp: apply_at_def apply_at_with_def apply_htlc_claim_def or_keep_def)
  show "fst (apply_at P (HtlcRefund i) height L) = None \<longleftrightarrow> htlc_expiry h \<le> height"
    using assms(2) by (auto simp: apply_at_def apply_at_with_def apply_htlc_refund_def or_keep_def)
next
  fix tx :: "('g, 's, 'r) transaction" and who
  assume "fst (apply_at P tx height L) = None"
    and "tx = HtlcClaim i preimage \<and> who = htlc_to h \<or> tx = HtlcRefund i \<and> who = htlc_from h"
  then show "snd (apply_at P tx height L) =
      mark (DirtyHtlc i) (credit_public who (htlc_token h) (htlc_amount h) (drop_htlc i L))"
    using assms(2)
    by (auto simp: apply_at_def apply_at_with_def apply_htlc_refund_def apply_htlc_claim_def or_keep_def
        mark_all_def mark_def split: if_splits)
next
  fix tx :: "('g, 's, 'r) transaction"
  assume ns: "\<not> settles i tx"
  show "get_htlc (snd (apply_at P tx height L)) i = Some h"
  proof (cases "fst (apply_at P tx height L)")
    case None
    then obtain M where "apply_inner P tx height None L = (None, M)"
      and "snd (apply_at P tx height L) = mark_all (dirty_keys_for P M tx) M" using apply_at_None by blast
    then show ?thesis using apply_inner_escrow [OF assms(1) _ assms(2) ns] by simp
  next
    case (Some e)
    then show ?thesis using apply_at_failed [OF assms(1) Some] assms(2) by simp
  qed
qed

theorem htlc_settlement_witness:
  "fst (apply_at (toy_prims :: (u64, u64, unit) prims) (HtlcRefund 9) 10 demo_ledger) = None \<and>
   fst (apply_at (toy_prims :: (u64, u64, unit) prims) (HtlcRefund 9) 9 demo_ledger) \<noteq> None"
proof -
  have h: "get_htlc demo_ledger 9 = Some \<lparr>htlc_token = 0, htlc_from = 0, htlc_to = 8, htlc_amount = 50,
      htlc_hashlock = 0, htlc_expiry = 10\<rparr>" by (simp add: demo_fields)
  show ?thesis
    using htlc_settlement [OF demo_wf h, of "toy_prims :: (u64, u64, unit) prims" 0 10]
      htlc_settlement [OF demo_wf h, of "toy_prims :: (u64, u64, unit) prims" 0 9] by simp
qed

section \<open>The validator set\<close>

lemma set_insert_val: "set (insert_val v ws) = insert v (set ws)"
  by (induction ws) auto

lemma sort_vals_simps [simp]: "sort_vals [] = []" "sort_vals (v # vs) = insert_val v (sort_vals vs)"
  by (simp_all add: sort_vals_def)

lemma set_sort_vals: "set (sort_vals vs) = set vs"
  by (induction vs) (simp_all add: set_insert_val)

lemma length_insert_val: "length (insert_val v ws) = Suc (length ws)"
  by (induction ws) auto

lemma length_sort_vals: "length (sort_vals vs) = length vs"
  by (induction vs) (simp_all add: length_insert_val)

lemma val_before_trans: "val_before a b \<Longrightarrow> val_before b c \<Longrightarrow> val_before a c"
  by (auto simp: val_before_def)

lemma val_before_total: "fst a \<noteq> fst b \<Longrightarrow> val_before a b \<or> val_before b a"
  by (auto simp: val_before_def not_less_iff_gr_or_eq)

lemma sorted_insert_val:
  "sorted_wrt val_before ws \<Longrightarrow> fst v \<notin> fst ` set ws \<Longrightarrow> sorted_wrt val_before (insert_val v ws)"
proof (induction ws)
  case (Cons w ws)
  show ?case
  proof (cases "val_before v w")
    case True
    then show ?thesis using Cons.prems by (auto intro: val_before_trans)
  next
    case False
    then have "val_before w v" using Cons.prems val_before_total [of v w] by auto
    then show ?thesis using False Cons by (auto simp: set_insert_val)
  qed
qed simp

lemma sorted_sort_vals: "distinct (map fst vs) \<Longrightarrow> sorted_wrt val_before (sort_vals vs)"
  by (induction vs) (auto intro!: sorted_insert_val simp: set_sort_vals)

lemma sorted_distinct: "sorted_wrt val_before vs \<Longrightarrow> distinct vs"
  by (induction vs) (auto simp: val_before_def)

lemma distinct_fst_insert: "distinct (map fst (insert_val v ws)) \<longleftrightarrow> distinct (map fst (v # ws))"
  by (induction ws) (auto simp: set_insert_val)

lemma distinct_fst_sort: "distinct (map fst (sort_vals vs)) \<longleftrightarrow> distinct (map fst vs)"
  by (induction vs) (auto simp: distinct_fst_insert set_sort_vals)

lemma eligible_mem:
  "(i, s) \<in> set (eligible_validators L) \<longleftrightarrow>
     (\<exists>v. get_validator L i = Some v \<and> eligible v \<and> s = val_staked v)"
  by (force simp: eligible_validators_def get_validator_def fmlookup_dom_iff)

lemma eligible_distinct: "distinct (map fst (eligible_validators L))"
proof -
  have "map fst (eligible_validators L) =
      filter (\<lambda>i. eligible (the (get_validator L i))) (sorted_list_of_fset (fmdom (l_validators L)))"
    by (simp add: eligible_validators_def comp_def)
  then show ?thesis by (simp add: sorted_list_of_fset.rep_eq)
qed

text \<open>
  the validator set is what the consensus layer needs. It is ranked strictly by stake and then
  by id, names no validator twice, has at most the configured size, holds only untombstoned
  validators with at least the minimum stake, with their stakes; and an eligible validator is left
  out only when the set is full of validators ranked before it.
\<close>

theorem validator_set_ranked:
  "sorted_wrt val_before (validator_set L) \<and> distinct (map fst (validator_set L)) \<and>
   length (validator_set L) \<le> l_max_validators L \<and>
   (\<forall>(i, s) \<in> set (validator_set L). \<exists>v. get_validator L i = Some v \<and> \<not> val_tombstoned v \<and>
      val_staked v = s \<and> MIN_VALIDATOR_STAKE \<le> s) \<and>
   (\<forall>i v. get_validator L i = Some v \<and> eligible v \<and> (i, val_staked v) \<notin> set (validator_set L) \<longrightarrow>
      length (validator_set L) = l_max_validators L \<and>
      (\<forall>w \<in> set (validator_set L). val_before w (i, val_staked v)))"
proof -
  let ?all = "sort_vals (eligible_validators L)" and ?n = "l_max_validators L"
  have sorted: "sorted_wrt val_before ?all" by (rule sorted_sort_vals [OF eligible_distinct])
  have split: "?all = validator_set L @ drop ?n ?all" by (simp add: validator_set_def)
  have mem: "(i, s) \<in> set (validator_set L) \<Longrightarrow> \<exists>v. get_validator L i = Some v \<and> eligible v \<and> s = val_staked v" for i s
    using eligible_mem [of i s L] by (auto simp: validator_set_def set_sort_vals dest: in_set_takeD)
  have out: "length (validator_set L) = ?n \<and> (\<forall>w \<in> set (validator_set L). val_before w (i, val_staked v))"
    if "get_validator L i = Some v" "eligible v" "(i, val_staked v) \<notin> set (validator_set L)" for i v
  proof -
    have "(i, val_staked v) \<in> set ?all" using that eligible_mem [of i "val_staked v" L] by (simp add: set_sort_vals)
    then have "(i, val_staked v) \<in> set (drop ?n ?all)" using that(3) split by (metis UnE set_append)
    moreover from this have "?n < length ?all" by (metis drop_all emptyE not_le_imp_less set_empty2)
    moreover have "sorted_wrt val_before (validator_set L @ drop ?n ?all)" using sorted split by simp
    then have "\<forall>w \<in> set (validator_set L). \<forall>u \<in> set (drop ?n ?all). val_before w u"
      unfolding sorted_wrt_append by blast
    ultimately show ?thesis by (simp add: validator_set_def)
  qed
  have "sorted_wrt val_before (validator_set L)"
    using sorted by (simp add: validator_set_def sorted_wrt_take)
  moreover have "distinct (map fst (validator_set L))"
    using eligible_distinct [of L] by (simp add: validator_set_def distinct_fst_sort flip: take_map)
  ultimately show ?thesis using mem out by (auto simp: eligible_def validator_set_def)
qed

section \<open>Slashing\<close>

lemma slash_fields [simp]: "val_tombstoned (slash_validator s v)"
  by (simp add: slash_validator_def Let_def)

lemma val_total_slashed:
  "val_total (slash_validator s v) = 0 \<longleftrightarrow>
     val_staked (slash_validator s v) = 0 \<and> val_unbonding (slash_validator s v) = []"
proof -
  have "(\<Sum>(a, _) \<leftarrow> filter (\<lambda>(a, _). a > 0) us. unat a) = 0 \<longleftrightarrow> filter (\<lambda>(a, _). a > 0) us = []"
    for us :: "(u64 \<times> u64) list" by (induction us) (auto simp: unat_eq_0)
  then show ?thesis by (simp add: slash_validator_def Let_def val_total_def unat_eq_0)
qed

text \<open>
  C19: slashing takes what it says. Accepted evidence names two different blocks that the validator
  signed at one height, and the validator was not yet tombstoned; it loses a tenth of its bonded and
  unbonding total, at least one unit; whatever record of it is left is tombstoned, and its record is
  gone exactly when nothing is left of its total, so it is not eligible afterwards; the reporter
  gains at most a twentieth of the loss; no other validator changes.
\<close>

theorem slash_exact:
  assumes "fst (apply_at P (SlashEvidence vid who vote_height block_a sig_a block_b sig_b) height L) = None"
    and "L1 = snd (apply_at P (SlashEvidence vid who vote_height block_a sig_a block_b sig_b) height L)"
    and "v = validator_or_default L vid" and "s = max (unat (slash_total v) div 10) 1"
  shows "block_a \<noteq> block_b \<and>
    (\<exists>pk. pk_from_bytes P vid = Some pk \<and> (\<forall>(block, sg) \<in> {(block_a, sig_a), (block_b, sig_b)}.
       \<exists>t. sig_from_bytes P (be_bytes 64 sg) = Some t \<and>
         schnorr_verify P pk (finality_vote_signing_bytes block vote_height) t)) \<and>
    \<not> val_tombstoned v \<and> val_total (validator_or_default L1 vid) + s = val_total v \<and>
    \<not> eligible (validator_or_default L1 vid) \<and>
    (if val_total v = s then get_validator L1 vid = None
     else \<exists>r. get_validator L1 vid = Some r \<and> val_tombstoned r) \<and>
    (\<forall>j a. get_account L j = Some a \<longrightarrow> (\<exists>b. get_account L1 j = Some b \<and> (\<forall>t.
       unat (acct_public b t) \<le> unat (acct_public a t) + (if j = who \<and> t = LAT_TOKEN then s div 20 else 0)))) \<and>
    (\<forall>j. j \<noteq> vid \<longrightarrow> validator_or_default L1 j = validator_or_default L j)"
proof -
  let ?tx = "SlashEvidence vid who vote_height block_a sig_a block_b sig_b"
  obtain M where "apply_inner P ?tx height None L = (None, M)"
    and L1: "L1 = mark_all (dirty_keys_for P M ?tx) M" using apply_at_None [OF assms(1)] assms(2) by blast
  then have "apply_slash P vid who vote_height block_a sig_a block_b sig_b L = Inr M"
    by (simp add: or_keep_None)
  then show ?thesis
  proof (cases rule: slash_Inr [consumes 1])
    case (1 pk)
    define sw where "sw = slash_amount (slash_total v)"
    define reward where "reward = (ucast ((ucast sw * ucast SLASH_REWARD_BPS :: u128) div 10000) :: u64)"
    define N where "N = put_validator vid (slash_validator sw v) L"
    have M: "M = (if reward > 0 then update_account who (add_public LAT_TOKEN reward) N else N)"
      using 1(7) by (simp add: Let_def sw_def assms(3) reward_def N_def)
    have s: "unat sw = s" by (simp add: sw_def assms(4) unat_slash_amount)
    have r: "unat reward = s div 20" unfolding reward_def unat_slash_reward s ..
    have "validator_or_default L1 j = validator_or_default N j" for j
      by (simp add: L1 M validator_or_default_def get_validator_def)
    note vals = this [unfolded N_def validator_or_default_put]
    have ev: "\<exists>t. sig_from_bytes P (be_bytes 64 sg) = Some t \<and>
         schnorr_verify P pk (finality_vote_signing_bytes block vote_height) t"
      if "check_evidence P pk vote_height block sg = Inr ()" for block sg
      using that by (auto simp: check_evidence_def split: if_splits)
    have "unat sw \<le> val_total v"
      using slash_amount_le [of "slash_total v"] slash_total_le [of v] 1(6) by (simp add: sw_def assms(3))
    then have total: "val_total (slash_validator sw v) + s = val_total v"
      using slash_validator_total [of sw v] by (simp add: s)
    have "val_total (validator_or_default L1 vid) = val_total (slash_validator sw v)"
      by (auto simp: vals val_total_def validator_default_def)
    moreover have "\<not> eligible (validator_or_default L1 vid)"
      by (auto simp: vals eligible_def validator_default_def MIN_VALIDATOR_STAKE_def)
    moreover have "if val_total v = s then get_validator L1 vid = None
        else \<exists>r. get_validator L1 vid = Some r \<and> val_tombstoned r"
    proof -
      have "get_validator L1 vid = get_validator N vid" by (simp add: L1 M get_validator_def)
      moreover have "val_total (slash_validator sw v) = 0 \<longleftrightarrow> val_total v = s" using total by linarith
      ultimately show ?thesis using val_total_slashed [of sw v]
        by (auto simp: N_def put_validator_def get_validator_def)
    qed
    moreover have "\<exists>b. get_account L1 j = Some b \<and> (\<forall>t. unat (acct_public b t) \<le> unat (acct_public a t) +
        (if j = who \<and> t = LAT_TOKEN then s div 20 else 0))" if "get_account L j = Some a" for j a
      using that unat_saturating_add_le [of "acct_public a LAT_TOKEN" reward]
      by (auto simp: L1 M N_def r)
    ultimately show ?thesis using 1(1,2,5) ev [OF 1(3)] ev [OF 1(4)] total vals assms(3) by auto
  qed
qed

text \<open>A validator with twice the minimum stake, whose identity is the toy key 0.\<close>

definition demo_validators :: "u64 ledger" where
  "demo_validators = put_validator 0 \<lparr>val_staked = 200000000, val_unbonding = [], val_tombstoned = False\<rparr>
     (put_account 0 account_default ledger_new)"

lemma demo_validator_fields:
  "get_validator demo_validators i =
     (if i = 0 then Some \<lparr>val_staked = 200000000, val_unbonding = [], val_tombstoned = False\<rparr> else None)"
  "get_account demo_validators i = (if i = 0 then Some account_default else None)"
  by (simp_all add: demo_validators_def put_validator_def get_validator_def put_account_def ledger_new_def
      get_account_def)

lemma toy_check_evidence: "check_evidence (toy_prims :: (u64, u64, unit) prims) 0 h b 0 = Inr ()"
proof -
  have "sig_from_bytes (toy_prims :: (u64, u64, unit) prims) (be_bytes 64 (0 :: arr64)) =
      Some \<lparr>sig_r = 0, sig_s = 0\<rparr>" by (rule toy_sig)
  moreover have "decompress (toy_prims :: (u64, u64, unit) prims) 0 = Some 0"
    "smul (toy_prims :: (u64, u64, unit) prims) = (*)" by (simp_all add: toy_prims_def)
  ultimately show ?thesis by (simp add: check_evidence_def schnorr_verify_def)
qed

lemma demo_slash:
  "apply_slash (toy_prims :: (u64, u64, unit) prims) 0 0 5 1 0 2 0 demo_validators =
     Inr (update_account 0 (add_public LAT_TOKEN 1000000)
       (put_validator 0 \<lparr>val_staked = 180000000, val_unbonding = [], val_tombstoned = True\<rparr> demo_validators))"
proof -
  have "pk_from_bytes (toy_prims :: (u64, u64, unit) prims) 0 = Some 0"
    by (simp add: pk_from_bytes_def toy_prims_def)
  moreover have "slash_amount 200000000 = 20000000"
    by (simp add: slash_amount_def SLASH_FRACTION_BPS_def max_def word_le_nat_alt)
  ultimately show ?thesis
    by (simp add: apply_slash_def toy_check_evidence validator_or_default_def demo_validator_fields
        slash_total_def saturating_add_def slash_validator_def SLASH_REWARD_BPS_def Let_def min_def)
qed

theorem slash_exact_witness:
  "val_total (validator_or_default (snd (apply_at (toy_prims :: (u64, u64, unit) prims)
      (SlashEvidence 0 0 5 1 0 2 0) 9 demo_validators)) 0) = 180000000"
proof -
  have "fst (apply_at (toy_prims :: (u64, u64, unit) prims) (SlashEvidence 0 0 5 1 0 2 0) 9 demo_validators) = None"
    by (simp add: apply_at_def apply_at_with_def demo_slash or_keep_def)
  from slash_exact [OF this refl refl refl]
  have "val_total (validator_or_default (snd (apply_at (toy_prims :: (u64, u64, unit) prims)
      (SlashEvidence 0 0 5 1 0 2 0) 9 demo_validators)) 0) + 20000000 = 200000000"
    by (simp add: validator_or_default_def demo_validator_fields slash_total_def saturating_add_def val_total_def)
  then show ?thesis by simp
qed

theorem validator_set_ranked_witness:
  "(0, 200000000) \<in> set (validator_set demo_validators)"
proof (rule ccontr)
  assume out: "(0, 200000000) \<notin> set (validator_set demo_validators)"
  note r = validator_set_ranked [of demo_validators]
  note full = r [THEN conjunct2, THEN conjunct2, THEN conjunct2, THEN conjunct2, THEN spec, THEN spec]
  have v: "get_validator demo_validators 0 =
      Some \<lparr>val_staked = 200000000, val_unbonding = [], val_tombstoned = False\<rparr>"
    by (simp add: demo_validator_fields)
  have "eligible \<lparr>val_staked = 200000000, val_unbonding = [], val_tombstoned = False\<rparr>"
    by (simp add: eligible_def MIN_VALIDATOR_STAKE_def word_le_nat_alt)
  then have "length (validator_set demo_validators) = l_max_validators demo_validators"
    using full [of 0 "\<lparr>val_staked = 200000000, val_unbonding = [], val_tombstoned = False\<rparr>"] v out
    by simp
  moreover have "l_max_validators demo_validators = 64"
    by (simp add: demo_validators_def put_validator_def put_account_def ledger_new_def DEFAULT_MAX_VALIDATORS_def)
  moreover have "fst ` set (validator_set demo_validators) \<subseteq> {0}"
    using r by (auto simp: demo_validator_fields split: if_splits)
  then have "card (set (map fst (validator_set demo_validators))) \<le> 1"
    using card_mono [of "{0 :: id32}" "fst ` set (validator_set demo_validators)"] by simp
  then have "length (validator_set demo_validators) \<le> 1" using r distinct_card by fastforce
  ultimately show False by simp
qed

text \<open>The life of the slashed validator's record when it leaves and comes back.\<close>

definition exit_1 :: "u64 ledger" where
  "exit_1 = snd (apply_at (toy_prims :: (u64, u64, unit) prims) (SlashEvidence 0 0 5 1 0 2 0) 9 demo_validators)"

definition exit_2 :: "u64 ledger" where
  "exit_2 = snd (apply_at (toy_prims :: (u64, u64, unit) prims) (Unstake 0 180000000 0 0) 10 exit_1)"

definition exit_3 :: "u64 ledger" where
  "exit_3 = snd (apply_at (toy_prims :: (u64, u64, unit) prims) (Unstake 0 0 1 0) 250 exit_2)"

definition exit_4 :: "u64 ledger" where
  "exit_4 = snd (apply_at (toy_prims :: (u64, u64, unit) prims) (Stake 0 150000000 2 0) 251 exit_3)"

lemma get_validator_frame [simp]:
  "get_validator (put_account i a L) j = get_validator L j"
  "get_validator (update_account i f L) j = get_validator L j"
  "get_validator (mark_all ks L) j = get_validator L j"
  "get_validator (put_validator i v L) j =
     (if j = i then (if val_staked v = 0 \<and> val_unbonding v = [] then None else Some v) else get_validator L j)"
  by (simp_all add: get_validator_def put_validator_def)

lemma exit_1_fields:
  "get_validator exit_1 0 = Some \<lparr>val_staked = 180000000, val_unbonding = [], val_tombstoned = True\<rparr>"
  "get_account exit_1 0 = Some (add_public LAT_TOKEN 1000000 account_default)"
  by (simp_all add: exit_1_def apply_at_def apply_at_with_def demo_slash or_keep_def demo_validator_fields)

lemma exit_2_fields:
  "get_validator exit_2 0 = Some \<lparr>val_staked = 0, val_unbonding = [(180000000, 250)], val_tombstoned = True\<rparr>"
  "map_option (\<lambda>a. (acc_nonce a, acct_public a 0)) (get_account exit_2 0) = Some (1, 1000000)"
  by (simp_all add: exit_2_def apply_at_def apply_at_with_def apply_unstake_def toy_check_sig exit_1_fields
      or_keep_def validator_or_default_def release_matured_def UNBONDING_BLOCKS_def LAT_TOKEN_def
      saturating_add_def)

lemma exit_3_fields:
  "get_validator exit_3 0 = None"
  "map_option (\<lambda>a. (acc_nonce a, acct_public a 0)) (get_account exit_3 0) = Some (2, 181000000)"
  using exit_2_fields
  by (auto simp: exit_3_def apply_at_def apply_at_with_def apply_unstake_def toy_check_sig
      or_keep_def validator_or_default_def release_matured_def UNBONDING_BLOCKS_def LAT_TOKEN_def
      saturating_add_def)

lemma exit_4_fields:
  "get_validator exit_4 0 = Some \<lparr>val_staked = 150000000, val_unbonding = [], val_tombstoned = False\<rparr>"
  "fst (apply_at (toy_prims :: (u64, u64, unit) prims) (Stake 0 150000000 2 0) 251 exit_3) = None"
  using exit_3_fields
  by (auto simp: exit_4_def apply_at_def apply_at_with_def apply_stake_def toy_check_sig
      or_keep_def validator_or_default_def validator_default_def release_matured_def LAT_TOKEN_def
      saturating_add_def)

text \<open>
  The tombstone of a slashed validator is not permanent. The record is deleted once it is
  drained, tombstone included, so a validator that was slashed, unstaked everything and waited for
  the unbonding period can stake again: it is eligible, and the very evidence it was slashed on is
  accepted a second time.
\<close>

lemma tombstone_forgotten:
  "val_tombstoned (the (get_validator exit_1 0)) \<and> get_validator exit_3 0 = None \<and>
   eligible (the (get_validator exit_4 0)) \<and>
   fst (apply_at (toy_prims :: (u64, u64, unit) prims) (SlashEvidence 0 0 5 1 0 2 0) 252 exit_4) = None"
proof -
  have "pk_from_bytes (toy_prims :: (u64, u64, unit) prims) 0 = Some 0"
    by (simp add: pk_from_bytes_def toy_prims_def)
  then have "\<exists>M. apply_slash (toy_prims :: (u64, u64, unit) prims) 0 0 5 1 0 2 0 exit_4 = Inr M"
    by (simp add: apply_slash_def toy_check_evidence validator_or_default_def exit_4_fields
        slash_total_def saturating_add_def Let_def)
  then have "fst (apply_at (toy_prims :: (u64, u64, unit) prims) (SlashEvidence 0 0 5 1 0 2 0) 252 exit_4) = None"
    by (auto simp: apply_at_def apply_at_with_def or_keep_def)
  then show ?thesis
    by (simp add: exit_1_fields exit_3_fields exit_4_fields eligible_def MIN_VALIDATOR_STAKE_def word_le_nat_alt)
qed

section \<open>The parallel pre-pass\<close>

text \<open>Evidence is good when the proof it stands for has been verified, against the ciphertext it names.\<close>

fun pass_ok ::
  "('g::ab_group_add, 's::comm_ring_1, 'r) prims \<Rightarrow> ('g, 's, 'r) transaction \<Rightarrow> 'g proof_pass \<Rightarrow> bool" where
  "pass_ok P (AnonTransfer token xfer) PassAnon \<longleftrightarrow> anon_verify P token xfer"
| "pass_ok P (SolventTransfer token xfer) (PassAgainstBalance b) \<longleftrightarrow> solvent_verify P token b xfer"
| "pass_ok P (Unshield token recipient amount xfer sg) (PassAgainstBalance b) \<longleftrightarrow> solvent_verify P token b xfer"
| "pass_ok P _ _ \<longleftrightarrow> True"

lemma preverified_None [simp]: "\<not> preverified_against None b"
  by (simp add: preverified_against_def)

lemma preverified_ok:
  "\<not> preverified_against (Some p) bal \<and> \<not> verified \<longleftrightarrow> \<not> verified"
  if "\<And>b. p = PassAgainstBalance b \<Longrightarrow> b = bal \<Longrightarrow> verified"
  using that by (auto simp: preverified_against_def split: proof_pass.splits)

text \<open>
  the pre-pass changes no verdict. A transaction applied with evidence from the parallel
  verification, when that evidence is good, gives the same result and the same ledger as applied
  without it; evidence against a balance that has changed since is ignored.
\<close>

lemma prepass_same_verdict:
  assumes "pass_ok P tx p"
  shows "apply_at_with P tx height (Some p) L = apply_at P tx height L"
proof -
  have "apply_inner P tx height (Some p) L = apply_inner P tx height None L"
  proof (cases tx)
    case (SolventTransfer token xfer)
    then have *: "\<And>b. p = PassAgainstBalance b \<Longrightarrow> solvent_verify P token b xfer" using assms by auto
    have same: "(\<not> preverified_against (Some p) b \<and> \<not> solvent_verify P token b xfer) =
        (\<not> preverified_against None b \<and> \<not> solvent_verify P token b xfer)" for b
      using preverified_ok [of p b "solvent_verify P token b xfer"] * by simp
    then show ?thesis
      by (simp only: SolventTransfer apply_inner.simps apply_solvent_transfer_def Let_def same)
  next
    case (Unshield token recipient amount xfer sg)
    then have *: "\<And>b. p = PassAgainstBalance b \<Longrightarrow> solvent_verify P token b xfer" using assms by auto
    have same: "(\<not> preverified_against (Some p) b \<and> \<not> solvent_verify P token b xfer) =
        (\<not> preverified_against None b \<and> \<not> solvent_verify P token b xfer)" for b
      using preverified_ok [of p b "solvent_verify P token b xfer"] * by simp
    then show ?thesis
      by (simp only: Unshield apply_inner.simps apply_unshield_def Let_def same)
  next
    case (AnonTransfer token xfer)
    then have "p = PassAnon \<Longrightarrow> anon_verify P token xfer" using assms by simp
    then have "Some p \<noteq> Some PassAnon \<and> \<not> anon_verify P token xfer \<longleftrightarrow> \<not> anon_verify P token xfer" by blast
    then show ?thesis
      by (simp add: AnonTransfer apply_anon_transfer_def Let_def)
  qed simp_all
  then show ?thesis by (simp add: apply_at_def apply_at_with_def)
qed

lemma prepass_same_verdict_witness:
  "apply_at_with (toy_prims :: (u64, u64, unit) prims) (HtlcRefund 9) 10 (Some PassAnon) demo_ledger =
     apply_at toy_prims (HtlcRefund 9) 10 demo_ledger"
  by (rule prepass_same_verdict) simp

end
