(* ===== verification/Ledger_Dirty.thy ===== *)
theory Ledger_Dirty
  imports Ledger_Settlement
begin

text \<open>
  The dirty set of \<^verbatim>\<open>lat-state/src/lib.rs\<close>: the commitment re-hashes only the entries that were
  marked, so every entry a transaction changes has to be marked (\<^verbatim>\<open>dirty_keys_for\<close>, \<^verbatim>\<open>mark\<close>).
  \<open>touched S L M\<close> says that \<open>M\<close> differs from \<open>L\<close> in entries of \<open>S\<close> only; there is one rule per
  write, and each handler is a composition of writes.
\<close>

section \<open>Entries\<close>

fun same_entry :: "dirty_key \<Rightarrow> 'g ledger \<Rightarrow> 'g ledger \<Rightarrow> bool" where
  "same_entry (DirtyAccount i) L M \<longleftrightarrow> get_account M i = get_account L i"
| "same_entry (DirtyToken t) L M \<longleftrightarrow> token_by_id M t = token_by_id L t"
| "same_entry (DirtyContract i) L M \<longleftrightarrow> get_contract M i = get_contract L i"
| "same_entry (DirtyNullifier nf) L M \<longleftrightarrow> nullifier_seen M nf = nullifier_seen L nf"
| "same_entry (DirtyValidator i) L M \<longleftrightarrow> get_validator M i = get_validator L i"
| "same_entry (DirtyPool t) L M \<longleftrightarrow> get_pool M t = get_pool L t"
| "same_entry (DirtyCurve t) L M \<longleftrightarrow> get_curve M t = get_curve L t"
| "same_entry (DirtyLp t i) L M \<longleftrightarrow> lp_shares M t i = lp_shares L t i"
| "same_entry (DirtyHtlc i) L M \<longleftrightarrow> get_htlc M i = get_htlc L i"
| "same_entry DirtyMeta L M \<longleftrightarrow> l_next_token_id M = l_next_token_id L"

definition touched :: "dirty_key set \<Rightarrow> 'g ledger \<Rightarrow> 'g ledger \<Rightarrow> bool" where
  "touched S L M \<longleftrightarrow> (\<forall>k. k \<notin> S \<longrightarrow> same_entry k L M)"

lemma same_entry_refl [simp]: "same_entry k L L"
  by (cases k) simp_all

lemma same_entry_sym: "same_entry k L M \<Longrightarrow> same_entry k M L"
  by (cases k) simp_all

lemma same_entry_trans: "same_entry k L M \<Longrightarrow> same_entry k M N \<Longrightarrow> same_entry k L N"
  by (cases k) simp_all

lemma touchedD: "touched S L M \<Longrightarrow> k \<notin> S \<Longrightarrow> same_entry k L M"
  by (simp add: touched_def)

lemma touched_refl: "touched S L L"
  by (simp add: touched_def)

lemma touched_mono: "touched S L M \<Longrightarrow> S \<subseteq> T \<Longrightarrow> touched T L M"
  by (auto simp: touched_def)

lemma touched_step: "touched S L M \<Longrightarrow> (\<And>k. k \<notin> S \<Longrightarrow> same_entry k M N) \<Longrightarrow> touched S L N"
  unfolding touched_def by (meson same_entry_trans)

section \<open>The writes\<close>

lemmas entry_defs = get_account_def token_by_id_def get_contract_def nullifier_seen_def get_validator_def
  get_pool_def get_curve_def lp_shares_def get_htlc_def

lemma same_entry_marks [simp]:
  "same_entry k L (mark d M) = same_entry k L M" "same_entry k L (mark_all ks M) = same_entry k L M"
  by (cases k; simp add: entry_defs)+

lemma touched_marks [simp]:
  "touched S L (mark d M) = touched S L M" "touched S L (mark_all ks M) = touched S L M"
  by (simp_all add: touched_def)

lemma touched_put_account:
  assumes "touched S L M" and "DirtyAccount i \<in> S"
  shows "touched S L (put_account i a M)"
proof (rule touched_step [OF assms(1)])
  fix k assume "k \<notin> S"
  then show "same_entry k M (put_account i a M)" using assms(2)
    by (cases k) (auto simp: entry_defs put_account_def)
qed

lemma touched_update_account:
  "touched S L M \<Longrightarrow> DirtyAccount i \<in> S \<Longrightarrow> touched S L (update_account i f M)"
  by (simp add: update_account_def touched_put_account split: option.splits)

lemma touched_credit_public:
  assumes "touched S L M" and "n \<noteq> 0 \<Longrightarrow> DirtyAccount i \<in> S"
  shows "touched S L (credit_public i t n M)"
  using assms by (simp add: credit_public_def Let_def touched_put_account)

lemma touched_put_contract:
  assumes "touched S L M" and "DirtyContract i \<in> S"
  shows "touched S L (put_contract i c M)"
proof (rule touched_step [OF assms(1)])
  fix k assume "k \<notin> S"
  then show "same_entry k M (put_contract i c M)" using assms(2)
    by (cases k) (auto simp: entry_defs put_contract_def)
qed

lemma touched_insert_nullifier:
  assumes "touched S L M" and "DirtyNullifier nf \<in> S"
  shows "touched S L (insert_nullifier nf M)"
proof (rule touched_step [OF assms(1)])
  fix k assume "k \<notin> S"
  then show "same_entry k M (insert_nullifier nf M)" using assms(2)
    by (cases k) (auto simp: entry_defs insert_nullifier_def)
qed

lemma touched_put_validator:
  assumes "touched S L M" and "DirtyValidator i \<in> S"
  shows "touched S L (put_validator i v M)"
proof (rule touched_step [OF assms(1)])
  fix k assume "k \<notin> S"
  then show "same_entry k M (put_validator i v M)" using assms(2)
    by (cases k) (auto simp: entry_defs put_validator_def)
qed

lemma touched_put_pool:
  assumes "touched S L M" and "DirtyPool (pool_token p) \<in> S"
  shows "touched S L (put_pool p M)"
proof (rule touched_step [OF assms(1)])
  fix k assume "k \<notin> S"
  then show "same_entry k M (put_pool p M)" using assms(2)
    by (cases k) (auto simp: entry_defs put_pool_def)
qed

lemma touched_put_curve:
  assumes "touched S L M" and "DirtyCurve (cp_token c) \<in> S"
  shows "touched S L (put_curve c M)"
proof (rule touched_step [OF assms(1)])
  fix k assume "k \<notin> S"
  then show "same_entry k M (put_curve c M)" using assms(2)
    by (cases k) (auto simp: entry_defs put_curve_def)
qed

lemma touched_put_lp:
  assumes "touched S L M" and "DirtyLp t i \<in> S"
  shows "touched S L (put_lp t i n M)"
proof (rule touched_step [OF assms(1)])
  fix k assume "k \<notin> S"
  then show "same_entry k M (put_lp t i n M)" using assms(2)
    by (cases k) (auto simp: entry_defs put_lp_def)
qed

lemma touched_put_htlc:
  assumes "touched S L M" and "DirtyHtlc i \<in> S"
  shows "touched S L (put_htlc i h M)"
proof (rule touched_step [OF assms(1)])
  fix k assume "k \<notin> S"
  then show "same_entry k M (put_htlc i h M)" using assms(2)
    by (cases k) (auto simp: entry_defs put_htlc_def)
qed

lemma touched_drop_htlc:
  assumes "touched S L M" and "DirtyHtlc i \<in> S"
  shows "touched S L (drop_htlc i M)"
proof (rule touched_step [OF assms(1)])
  fix k assume "k \<notin> S"
  then show "same_entry k M (drop_htlc i M)" using assms(2)
    by (cases k) (auto simp: entry_defs drop_htlc_def)
qed

lemma touched_put_token:
  assumes "touched S L M" and "DirtyToken (tm_id m) \<in> S"
  shows "touched S L (put_token m M)"
proof (rule touched_step [OF assms(1)])
  fix k assume "k \<notin> S"
  then show "same_entry k M (put_token m M)" using assms(2)
    by (cases k) (auto simp: entry_defs put_token_def)
qed

lemma touched_next_id:
  assumes "touched S L M" and "DirtyMeta \<in> S"
  shows "touched S L (M\<lparr>l_next_token_id := n\<rparr>)"
proof (rule touched_step [OF assms(1)])
  fix k assume "k \<notin> S"
  then show "same_entry k M (M\<lparr>l_next_token_id := n\<rparr>)" using assms(2)
    by (cases k) (auto simp: entry_defs)
qed

lemma touched_debit_members:
  assumes "touched S L M" and "\<And>m. m \<in> fst ` set mds \<Longrightarrow> DirtyAccount (pk_to_bytes P m) \<in> S"
  shows "touched S L (foldl (debit_member P t) M mds)"
  using assms by (induction mds arbitrary: M) (simp_all add: debit_member_def touched_update_account)

lemmas touched_intros = touched_refl touched_put_account touched_update_account touched_credit_public
  touched_put_contract touched_insert_nullifier touched_put_validator touched_put_pool touched_put_curve
  touched_put_lp touched_put_htlc touched_drop_htlc touched_put_token touched_next_id touched_debit_members

section \<open>The transactions\<close>

lemma l_dirty_credit:
  "l_dirty (credit_public i t n L) = (if n = 0 then l_dirty L else finsert (DirtyAccount i) (l_dirty L))"
  by (simp add: credit_public_def Let_def mark_def)

lemma l_dirty_mark [simp]: "l_dirty (mark k L) = finsert k (l_dirty L)"
  by (simp add: mark_def)

lemma l_dirty_put_token [simp]: "l_dirty (put_token m L) = l_dirty L"
  by (simp add: put_token_def)

lemma l_dirty_mark_all: "fset (l_dirty (mark_all ks L)) = fset (l_dirty L) \<union> set ks"
  by (simp add: mark_all_def fset_of_list.rep_eq)

lemma cp_token_from_math [simp]: "cp_token (curve_from_math token c) = token"
  by (simp add: curve_from_math_def)

lemma curve_trade_touched:
  assumes "apply_curve_trade P token trader is_buy amount min_out fee nonce sg tx L = Inr L1"
  shows "touched (fset (l_dirty L1) \<union> {DirtyAccount trader, DirtyCurve token}) L L1 \<and> l_dirty L |\<subseteq>| l_dirty L1"
  using assms
  by (elim curve_trade_Inr)
    (auto elim!: curve_buy_Inr curve_sell_Inr simp: l_dirty_credit intro!: touched_intros split: if_splits)

lemma anon_touched:
  assumes "apply_anon_transfer P pre height token xfer L = Inr L1"
  shows "touched (set (dirty_keys_for P L1 (AnonTransfer token xfer))) L L1"
  using assms
  by (elim anon_Inr) (auto simp: Let_def intro!: touched_intros dest: set_zip_leftD)

lemma create_token_touched:
  assumes "apply_create_token P ticker creator amount sg tx L = Inr L1" and "l_next_token_id L \<noteq> - 1"
  shows "touched (set (dirty_keys_for P L1 (CreateToken ticker creator amount sg))) L L1"
proof -
  have "l_next_token_id L + 1 \<noteq> 0" using assms(2) by (metis add_eq_0_iff minus_equation_iff)
  then have "saturating_sub (l_next_token_id L + 1) 1 = l_next_token_id L"
    by (simp add: saturating_sub_def word_le_nat_alt Suc_le_eq unat_gt_0)
  then show ?thesis using assms(1)
    by (elim create_token_Inr) (auto simp: put_token_def [THEN arg_cong [where f = l_next_token_id]] intro!: touched_intros)
qed

lemma apply_inner_touched:
  assumes wf: "pools_wf L" and run: "apply_inner P tx height pre L = (None, L1)" and ns: "\<not> is_slash tx"
    and room: "l_next_token_id L \<noteq> - 1"
  shows "touched (fset (l_dirty L1) \<union> set (dirty_keys_for P L1 tx)) L L1 \<and> l_dirty L |\<subseteq>| l_dirty L1"
proof (cases tx)
  case (CurveTrade token trader is_buy amount min_out fee nonce sg)
  then show ?thesis using run curve_trade_touched by (simp add: or_keep_None)
next
  case (AddLiquidity token provider lat_amount tok_amount fee nonce sg)
  then have "apply_add_liquidity P token provider lat_amount tok_amount fee nonce sg tx L = (None, L1)"
    using run by simp
  then show ?thesis
    by (cases rule: add_liquidity_cases [OF wf, consumes 1])
      (auto simp: AddLiquidity deposit_wf(2) [OF wf] intro!: touched_intros)
next
  case (Register i n)
  then show ?thesis using run by (auto simp: or_keep_None intro!: touched_intros dest!: register_Inr)
next
  case (CreateToken ticker creator amount sg)
  then have "apply_create_token P ticker creator amount sg tx L = Inr L1" using run by (simp add: or_keep_None)
  from create_token_touched [OF this room] this show ?thesis using CreateToken
    by (auto elim!: create_token_Inr intro: touched_mono)
next
  case (AnonTransfer token xfer)
  then have "apply_anon_transfer P pre height token xfer L = Inr L1" using run by (simp add: or_keep_None)
  from anon_touched [OF this] this show ?thesis using AnonTransfer
    by (auto elim!: anon_Inr simp: Let_def intro: touched_mono)
qed (use run ns in \<open>auto simp: or_keep_None Let_def l_dirty_credit intro!: touched_intros
  elim!: solvent_Inr rollover_Inr deploy_Inr call_Inr public_transfer_Inr shield_Inr unshield_Inr
   shield_stealth_Inr stake_Inr unstake_Inr htlc_lock_Inr htlc_claim_Inr htlc_refund_Inr
   remove_liquidity_Inr [OF wf] swap_Inr [OF wf]\<close>)

lemma slash_touched:
  assumes "apply_slash P vid who h ba sa bb sb L = Inr L1"
  shows "touched {DirtyAccount who, DirtyValidator vid} L L1 \<and> l_dirty L1 = l_dirty L"
  using assms by (elim slash_Inr) (auto simp: Let_def intro!: touched_intros)

text \<open>The one entry a transaction changes and leaves unmarked: the account that slashing evidence pays.\<close>

fun unmarked :: "('g, 's, 'r) transaction \<Rightarrow> dirty_key set" where
  "unmarked (SlashEvidence vid beneficiary vote_height block_a sig_a block_b sig_b) = {DirtyAccount beneficiary}"
| "unmarked _ = {}"

lemma apply_at_marks:
  assumes "pools_wf L" and "l_next_token_id L \<noteq> - 1"
  shows "l_dirty L |\<subseteq>| l_dirty (snd (apply_at P tx height L)) \<and>
    (\<forall>k. k |\<notin>| l_dirty (snd (apply_at P tx height L)) \<longrightarrow> k \<notin> unmarked tx \<longrightarrow>
      same_entry k L (snd (apply_at P tx height L)))"
proof (cases "fst (apply_at P tx height L)")
  case None
  then obtain M where M: "apply_inner P tx height None L = (None, M)"
    and L1: "snd (apply_at P tx height L) = mark_all (dirty_keys_for P M tx) M"
    using apply_at_None by blast
  have "touched (fset (l_dirty M) \<union> set (dirty_keys_for P M tx) \<union> unmarked tx) L M \<and> l_dirty L |\<subseteq>| l_dirty M"
  proof (cases "is_slash tx")
    case True
    then obtain vid who h ba sa bb sb where tx: "tx = SlashEvidence vid who h ba sa bb sb" by (cases tx) auto
    then have "apply_slash P vid who h ba sa bb sb L = Inr M" using M by (simp add: or_keep_None)
    from slash_touched [OF this] show ?thesis by (auto simp: tx elim: touched_mono)
  next
    case False
    then show ?thesis using apply_inner_touched [OF assms(1) M False assms(2)] by (blast intro: touched_mono)
  qed
  then show ?thesis using L1 touchedD l_dirty_mark_all [of "dirty_keys_for P M tx" M]
    by (auto simp: less_eq_fset.rep_eq)
next
  case (Some e)
  then show ?thesis using apply_at_failed [OF assms(1) Some] by simp
qed

lemma unmarked_other [simp]: "\<not> is_slash tx \<Longrightarrow> unmarked tx = {}"
  by (cases tx) auto

text \<open>
  C6: what a transaction changes is marked for the state commitment, with one exception. Whatever a
  transaction does, every account, token, contract, nullifier, validator, pool, curve, share, hash
  lock or meta entry that differs afterwards is marked dirty, and no earlier mark is lost. The one
  entry it can change without marking it is the account that slashing evidence pays, which
  \<open>slash_misses_beneficiary\<close> shows to happen. The ledger's pools are well formed and its token counter
  is not at the last id.
\<close>

theorem changes_are_marked:
  assumes "pools_wf L" and "l_next_token_id L \<noteq> - 1"
  shows "l_dirty L |\<subseteq>| l_dirty (snd (apply_at P tx height L)) \<and>
    (\<forall>k. \<not> same_entry k L (snd (apply_at P tx height L)) \<longrightarrow>
      k |\<in>| l_dirty (snd (apply_at P tx height L)) \<or> k \<in> unmarked tx)"
  using apply_at_marks [OF assms] by blast

theorem changes_are_marked_witness:
  "DirtyHtlc 9 |\<in>| l_dirty (snd (apply_at (toy_prims :: (u64, u64, unit) prims) (HtlcRefund 9) 10 demo_ledger)) \<and>
   DirtyMeta |\<in>| l_dirty (snd (apply_at (toy_prims :: (u64, u64, unit) prims) (HtlcRefund 9) 10 demo_ledger))"
proof -
  have room: "l_next_token_id demo_ledger \<noteq> - 1" and m: "DirtyMeta |\<in>| l_dirty demo_ledger"
    by (simp_all add: demo_ledger_def put_htlc_def put_pool_def put_lp_def put_account_def ledger_new_def)
  have "get_htlc (snd (apply_at (toy_prims :: (u64, u64, unit) prims) (HtlcRefund 9) 10 demo_ledger)) 9 = None"
    by (simp add: apply_at_def apply_at_with_def apply_htlc_refund_def demo_fields or_keep_def)
  then have "\<not> same_entry (DirtyHtlc 9) demo_ledger
      (snd (apply_at (toy_prims :: (u64, u64, unit) prims) (HtlcRefund 9) 10 demo_ledger))"
    by (simp add: demo_fields)
  then show ?thesis
    using changes_are_marked [OF demo_wf room, where P = "toy_prims :: (u64, u64, unit) prims" and tx = "HtlcRefund 9" and height = 10] m
    by auto
qed

text \<open>
  Slashing evidence is the exception the dirty set misses: the beneficiary of accepted evidence
  is paid into its public balance, and neither the handler nor \<^verbatim>\<open>dirty_keys_for\<close> marks that account.
  The committed root keeps the old balance until another transaction touches the account.
\<close>

lemma slash_misses_beneficiary:
  "let L1 = snd (apply_at (toy_prims :: (u64, u64, unit) prims) (SlashEvidence 0 0 5 1 0 2 0) 9 demo_validators) in
   fst (apply_at (toy_prims :: (u64, u64, unit) prims) (SlashEvidence 0 0 5 1 0 2 0) 9 demo_validators) = None \<and>
   public_balance demo_validators 0 LAT_TOKEN = Some 0 \<and> public_balance L1 0 LAT_TOKEN = Some 1000000 \<and>
   DirtyAccount 0 |\<notin>| l_dirty L1"
proof -
  have "l_dirty demo_validators = {|DirtyMeta|}"
    by (simp add: demo_validators_def put_account_def ledger_new_def)
  moreover have "acct_public account_default LAT_TOKEN = 0"
    by (simp add: acct_public_def account_default_def)
  ultimately show ?thesis
    by (simp add: apply_at_def apply_at_with_def demo_slash or_keep_def public_balance_def demo_validator_fields
        add_public_def saturating_add_def l_dirty_mark_all)
qed

end
