(* ===== verification/Codecs.thy ===== *)
theory Codecs
  imports Prelude
begin

text \<open>
  Combinators for the record and snapshot formats: pairs, length-prefixed lists and byte strings,
  and maps written in key order. Each comes with the law that carries \<open>decodes\<close> or \<open>codec\<close> over.
\<close>

section \<open>Pairs\<close>

definition enc_pair :: "('a \<Rightarrow> bytes) \<Rightarrow> ('b \<Rightarrow> bytes) \<Rightarrow> 'a \<times> 'b \<Rightarrow> bytes" where
  "enc_pair f g p = f (fst p) @ g (snd p)"

definition rd_pair ::
  "(bytes \<Rightarrow> ('a \<times> bytes) option) \<Rightarrow> (bytes \<Rightarrow> ('b \<times> bytes) option) \<Rightarrow> bytes \<Rightarrow> (('a \<times> 'b) \<times> bytes) option" where
  "rd_pair f g b = do { (x, r) \<leftarrow> f b; (y, r') \<leftarrow> g r; Some ((x, y), r') }"

lemma decodes_pair:
  assumes "decodes e1 d1 ok1" and "decodes e2 d2 ok2"
  shows "decodes (enc_pair e1 e2) (rd_pair d1 d2) (\<lambda>p. ok1 (fst p) \<and> ok2 (snd p))"
  by (rule decodes.intro)
    (auto simp: enc_pair_def rd_pair_def decodes.dec_enc [OF assms(1)] decodes.dec_enc [OF assms(2)])

lemma codec_pair:
  assumes "codec e1 d1 ok1" and "codec e2 d2 ok2"
  shows "codec (enc_pair e1 e2) (rd_pair d1 d2) (\<lambda>p. ok1 (fst p) \<and> ok2 (snd p))"
proof (intro codec.intro codec_axioms.intro)
  show "decodes (enc_pair e1 e2) (rd_pair d1 d2) (\<lambda>p. ok1 (fst p) \<and> ok2 (snd p))"
    by (rule decodes_pair [OF codec.axioms(1) [OF assms(1)] codec.axioms(1) [OF assms(2)]])
next
  fix b p r
  assume "rd_pair d1 d2 b = Some (p, r)"
  then show "b = enc_pair e1 e2 p @ r \<and> ok1 (fst p) \<and> ok2 (snd p)"
    by (auto simp: rd_pair_def enc_pair_def codec.dec_Some_iff [OF assms(1)]
        codec.dec_Some_iff [OF assms(2)] split: bind_splits)
qed

section \<open>Converted values\<close>

text \<open>A record is read as the tuple of its fields and put together.\<close>

definition rd_map :: "('a \<Rightarrow> 'b) \<Rightarrow> (bytes \<Rightarrow> ('a \<times> bytes) option) \<Rightarrow> bytes \<Rightarrow> ('b \<times> bytes) option" where
  "rd_map f rd b = do { (x, r) \<leftarrow> rd b; Some (f x, r) }"

lemma decodes_map:
  assumes "decodes e d ok" and "\<And>x. ok' x \<Longrightarrow> ok (g x) \<and> f (g x) = x"
  shows "decodes (\<lambda>x. e (g x)) (rd_map f d) ok'"
  by (rule decodes.intro) (simp add: rd_map_def decodes.dec_enc [OF assms(1)] assms(2))

lemma codec_map:
  assumes "codec e d ok" and "\<And>x. g (f x) = x" and "\<And>x. f (g x) = x"
  shows "codec (\<lambda>x. e (g x)) (rd_map f d) (\<lambda>x. ok (g x))"
proof (intro codec.intro codec_axioms.intro)
  show "decodes (\<lambda>x. e (g x)) (rd_map f d) (\<lambda>x. ok (g x))"
    by (rule decodes_map [OF codec.axioms(1) [OF assms(1)]]) (simp add: assms(3))
next
  fix b x r
  assume "rd_map f d b = Some (x, r)"
  then show "b = e (g x) @ r \<and> ok (g x)"
    by (auto simp: rd_map_def codec.dec_Some_iff [OF assms(1)] assms(2) split: bind_splits)
qed

section \<open>Length-prefixed lists\<close>

definition enc_list :: "('a \<Rightarrow> bytes) \<Rightarrow> 'a list \<Rightarrow> bytes" where
  "enc_list e xs = le_bytes 4 (of_nat (length xs) :: u32) @ concat (map e xs)"

definition rd_list :: "(bytes \<Rightarrow> ('a \<times> bytes) option) \<Rightarrow> bytes \<Rightarrow> ('a list \<times> bytes) option" where
  "rd_list rd b = do { (n, r) \<leftarrow> rd_u32 b; rd_repeat (unat n) rd r }"

lemma decodes_list:
  assumes "decodes e d ok"
  shows "decodes (enc_list e) (rd_list d) (\<lambda>xs. length xs < 2 ^ 32 \<and> list_all ok xs)"
  by (rule decodes.intro)
    (auto simp: enc_list_def rd_list_def codec_simps unat_of_nat decodes.rd_repeat_concat [OF assms])

lemma codec_list:
  assumes "codec e d ok"
  shows "codec (enc_list e) (rd_list d) (\<lambda>xs. length xs < 2 ^ 32 \<and> list_all ok xs)"
proof (intro codec.intro codec_axioms.intro)
  show "decodes (enc_list e) (rd_list d) (\<lambda>xs. length xs < 2 ^ 32 \<and> list_all ok xs)"
    by (rule decodes_list [OF codec.axioms(1) [OF assms]])
next
  fix b xs r
  assume "rd_list d b = Some (xs, r)"
  then obtain n b' where b: "rd_u32 b = Some (n, b')" and xs: "rd_repeat (unat n) d b' = Some (xs, r)"
    by (auto simp: rd_list_def split: bind_splits)
  from codec.rd_repeat_dec [OF assms xs]
  have e: "b' = concat (map e xs) @ r" "length xs = unat n" "list_all ok xs" by simp_all
  then have "of_nat (length xs) = n" by simp
  then show "b = enc_list e xs @ r \<and> length xs < 2 ^ 32 \<and> list_all ok xs"
    using b e unat_lt2p [of n] by (simp add: enc_list_def word_dec_iff)
qed

text \<open>A length-prefixed byte string.\<close>

definition enc_bytes :: "bytes \<Rightarrow> bytes" where
  "enc_bytes b = le_bytes 4 (of_nat (length b) :: u32) @ b"

definition rd_bytes :: "bytes \<Rightarrow> (bytes \<times> bytes) option" where
  "rd_bytes b = do { (n, r) \<leftarrow> rd_u32 b; rd_take (unat n) r }"

lemma codec_bytes: "codec enc_bytes rd_bytes (\<lambda>b. length b < 2 ^ 32)"
proof (intro codec.intro codec_axioms.intro decodes.intro)
  fix x r :: bytes
  assume "length x < 2 ^ 32"
  then show "rd_bytes (enc_bytes x @ r) = Some (x, r)"
    by (simp add: enc_bytes_def rd_bytes_def codec_simps unat_of_nat)
next
  fix b x r
  assume "rd_bytes b = Some (x, r)"
  then show "b = enc_bytes x @ r \<and> length x < 2 ^ 32"
    using unat_lt2p [where 'a = 32]
    by (auto simp: rd_bytes_def enc_bytes_def word_dec_iff rd_take_Some split: bind_splits)
qed

interpretation bytes_codec: codec enc_bytes rd_bytes "\<lambda>b. length b < 2 ^ 32"
  by (rule codec_bytes)

section \<open>Maps in key order\<close>

definition fm_entries :: "('k::linorder, 'v) fmap \<Rightarrow> ('k \<times> 'v) list" where
  "fm_entries m = map (\<lambda>k. (k, the (fmlookup m k))) (sorted_list_of_fset (fmdom m))"

text \<open>\<^verbatim>\<open>m.insert(k, v)\<close> for each entry read, in order.\<close>

definition fm_of :: "('k \<times> 'v) list \<Rightarrow> ('k, 'v) fmap" where
  "fm_of kvs = foldl (\<lambda>m kv. fmupd (fst kv) (snd kv) m) fmempty kvs"

lemma map_fst_entries [simp]: "map fst (fm_entries m) = sorted_list_of_fset (fmdom m)"
  by (simp add: fm_entries_def o_def)

lemma distinct_keys [simp]: "distinct (sorted_list_of_fset S)"
  by (simp add: sorted_list_of_fset.rep_eq)

lemma distinct_entries: "distinct (map fst (fm_entries m))"
  by simp

lemma distinct_fm_entries [simp]: "distinct (fm_entries m)"
  using distinct_entries [of m] by (simp only: distinct_map)

lemma image_fst_entries [simp]: "fst ` set (fm_entries m) = fset (fmdom m)"
  by (metis list.set_map map_fst_entries sorted_list_of_fset_simps(1))

lemma length_entries [simp]: "length (fm_entries m) = fcard (fmdom m)"
  by (metis distinct_card distinct_entries fcard.rep_eq length_map map_fst_entries
      sorted_list_of_fset_simps(1))

lemma set_entries: "(k, v) \<in> set (fm_entries m) \<longleftrightarrow> fmlookup m k = Some v"
  by (auto simp: fm_entries_def fmdom_notD image_iff dest: fmdomI)

lemma option_ext: "(\<And>v. x = Some v \<longleftrightarrow> y = Some v) \<Longrightarrow> x = y"
  by (cases x; cases y) auto

lemma fmlookup_foldl_upd:
  "distinct (map fst kvs) \<Longrightarrow>
     fmlookup (foldl (\<lambda>m kv. fmupd (fst kv) (snd kv) m) m kvs) k =
       (case map_of kvs k of Some v \<Rightarrow> Some v | None \<Rightarrow> fmlookup m k)"
proof (induction kvs arbitrary: m)
  case Nil
  show ?case by simp
next
  case (Cons kv kvs)
  then have "map_of kvs (fst kv) = None" by (simp add: map_of_eq_None_iff)
  with Cons show ?case by (auto split: option.splits)
qed

lemma fm_of_entries [simp]: "fm_of (fm_entries m) = m"
proof (rule fmap_ext)
  fix k
  have "map_of (fm_entries m) k = fmlookup m k"
    using map_of_eq_Some_iff [OF distinct_entries, of m k] set_entries [of k _ m]
    by (cases "fmlookup m k") (auto simp: map_of_eq_None_iff fmdom_notI)
  then show "fmlookup (fm_of (fm_entries m)) k = fmlookup m k"
    by (simp add: fm_of_def fmlookup_foldl_upd split: option.split)
qed

lemma list_all_entries:
  "list_all Q (fm_entries m) \<longleftrightarrow> (\<forall>k v. fmlookup m k = Some v \<longrightarrow> Q (k, v))"
  by (auto simp: list_all_iff set_entries)

definition enc_fmap :: "('k::linorder \<times> 'v \<Rightarrow> bytes) \<Rightarrow> ('k, 'v) fmap \<Rightarrow> bytes" where
  "enc_fmap e m = enc_list e (fm_entries m)"

definition rd_fmap :: "(bytes \<Rightarrow> (('k \<times> 'v) \<times> bytes) option) \<Rightarrow> bytes \<Rightarrow> (('k, 'v) fmap \<times> bytes) option" where
  "rd_fmap rd = rd_map fm_of (rd_list rd)"

lemma decodes_fmap:
  assumes "decodes e d ok"
  shows "decodes (enc_fmap e) (rd_fmap d)
    (\<lambda>m. fcard (fmdom m) < 2 ^ 32 \<and> (\<forall>k v. fmlookup m k = Some v \<longrightarrow> ok (k, v)))"
  unfolding rd_fmap_def enc_fmap_def
  by (rule decodes_map [OF decodes_list [OF assms]]) (simp add: list_all_entries)

section \<open>Whole inputs\<close>

text \<open>\<^verbatim>\<open>(r.off == b.len()).then_some(x)\<close>: the input is exactly one encoding.\<close>

definition rd_all :: "(bytes \<Rightarrow> ('a \<times> bytes) option) \<Rightarrow> bytes \<Rightarrow> 'a option" where
  "rd_all rd b = do { (x, r) \<leftarrow> rd b; if r = [] then Some x else None }"

lemma rd_all_enc: "decodes e d ok \<Longrightarrow> ok x \<Longrightarrow> rd_all d (e x) = Some x"
  using decodes.dec_enc [of e d ok x "[]"] by (simp add: rd_all_def)

lemma rd_all_iff:
  assumes "codec e d ok"
  shows "rd_all d b = Some x \<longleftrightarrow> b = e x \<and> ok x"
proof
  assume "rd_all d b = Some x"
  then have "d b = Some (x, [])" by (auto simp: rd_all_def split: bind_splits if_splits)
  then show "b = e x \<and> ok x" using codec.enc_dec [OF assms] by fastforce
next
  assume "b = e x \<and> ok x"
  then show "rd_all d b = Some x" using rd_all_enc [OF codec.axioms(1) [OF assms]] by simp
qed

end
