(* ===== verification/Records.thy ===== *)
theory Records
  imports Ledger_Dirty Codecs "HOL-Library.Product_Lexorder"
begin

text \<open>
  The record bodies and keys of \<^verbatim>\<open>lat-state/src/lib.rs\<close> (\<^verbatim>\<open>encode_account\<close>, \<^verbatim>\<open>decode_account\<close> and so
  on, \<^verbatim>\<open>rec_key\<close>, \<^verbatim>\<open>trie_key\<close>), the leaves of the state commitment (\<^verbatim>\<open>trie_kv\<close>) and the laws of the
  codecs. Field order and endianness are the source's. A pool, curve, hash lock or token body is
  canonical (\<open>codec\<close>). An account, contract or validator body reads back (\<open>decodes\<close>) but is not
  unique: the reader accepts map keys in any order and any nonzero tombstone byte.
\<close>

section \<open>Record keys\<close>

definition REC_ACCOUNT :: byte where "REC_ACCOUNT = 0x61"
definition REC_TOKEN :: byte where "REC_TOKEN = 0x74"
definition REC_TICKER :: byte where "REC_TICKER = 0x75"
definition REC_CONTRACT :: byte where "REC_CONTRACT = 0x63"
definition REC_NULLIFIER :: byte where "REC_NULLIFIER = 0x6E"
definition REC_VALIDATOR :: byte where "REC_VALIDATOR = 0x76"
definition REC_POOL :: byte where "REC_POOL = 0x70"
definition REC_CURVE :: byte where "REC_CURVE = 0x43"
definition REC_LP :: byte where "REC_LP = 0x6C"
definition REC_HTLC :: byte where "REC_HTLC = 0x68"
definition REC_META :: byte where "REC_META = 0x6D"

lemmas rec_tags = REC_ACCOUNT_def REC_TOKEN_def REC_TICKER_def REC_CONTRACT_def REC_NULLIFIER_def
  REC_VALIDATOR_def REC_POOL_def REC_CURVE_def REC_LP_def REC_HTLC_def REC_META_def

definition rec_key :: "byte \<Rightarrow> bytes \<Rightarrow> bytes" where
  "rec_key tag body = tag # body"

definition lp_key :: "u32 \<Rightarrow> id32 \<Rightarrow> bytes" where
  "lp_key token provider = REC_LP # be_bytes 4 token @ be_bytes 32 provider"

section \<open>Fixed-size bodies\<close>

definition encode_pool :: "pool \<Rightarrow> bytes" where
  "encode_pool p = le_bytes 4 (pool_token p) @ le_bytes 8 (pool_lat p) @ le_bytes 8 (pool_tok p)
     @ le_bytes 8 (pool_lp_supply p)"

definition rd_pool :: "bytes \<Rightarrow> (pool \<times> bytes) option" where
  "rd_pool b = do {
     (token, r) \<leftarrow> rd_u32 b; (lat, r) \<leftarrow> rd_u64 r; (tok, r) \<leftarrow> rd_u64 r; (lp_supply, r) \<leftarrow> rd_u64 r;
     Some (\<lparr>pool_token = token, pool_lat = lat, pool_tok = tok, pool_lp_supply = lp_supply\<rparr>, r) }"

definition decode_pool :: "bytes \<Rightarrow> pool option" where
  "decode_pool b = rd_all rd_pool b"

definition encode_curve :: "curve_pool \<Rightarrow> bytes" where
  "encode_curve c = le_bytes 4 (cp_token c) @ le_bytes 8 (cp_vlat c) @ le_bytes 8 (cp_vtok c)
     @ le_bytes 8 (cp_real_lat c) @ [if cp_graduated c then 1 else 0]"

definition rd_flag :: "bytes \<Rightarrow> (bool \<times> bytes) option" where
  "rd_flag b = do {
     (x, r) \<leftarrow> rd_take 1 b;
     if hd x = 0 then Some (False, r) else if hd x = 1 then Some (True, r) else None }"

definition rd_curve :: "bytes \<Rightarrow> (curve_pool \<times> bytes) option" where
  "rd_curve b = do {
     (token, r) \<leftarrow> rd_u32 b; (vl, r) \<leftarrow> rd_u64 r; (vt, r) \<leftarrow> rd_u64 r; (rl, r) \<leftarrow> rd_u64 r;
     (g, r) \<leftarrow> rd_flag r;
     Some (\<lparr>cp_token = token, cp_vlat = vl, cp_vtok = vt, cp_real_lat = rl, cp_graduated = g\<rparr>, r) }"

definition decode_curve :: "bytes \<Rightarrow> curve_pool option" where
  "decode_curve b = rd_all rd_curve b"

definition encode_htlc :: "htlc \<Rightarrow> bytes" where
  "encode_htlc h = le_bytes 4 (htlc_token h) @ be_bytes 32 (htlc_from h) @ be_bytes 32 (htlc_to h)
     @ le_bytes 8 (htlc_amount h) @ be_bytes 32 (htlc_hashlock h) @ le_bytes 8 (htlc_expiry h)"

definition rd_htlc :: "bytes \<Rightarrow> (htlc \<times> bytes) option" where
  "rd_htlc b = do {
     (token, r) \<leftarrow> rd_u32 b; (sender, r) \<leftarrow> rd_arr32 r; (recipient, r) \<leftarrow> rd_arr32 r; (amount, r) \<leftarrow> rd_u64 r;
     (hashlock, r) \<leftarrow> rd_arr32 r; (expiry, r) \<leftarrow> rd_u64 r;
     Some (\<lparr>htlc_token = token, htlc_from = sender, htlc_to = recipient, htlc_amount = amount,
            htlc_hashlock = hashlock, htlc_expiry = expiry\<rparr>, r) }"

definition decode_htlc :: "bytes \<Rightarrow> htlc option" where
  "decode_htlc b = rd_all rd_htlc b"

section \<open>Bodies of variable size\<close>

definition encode_token :: "token_meta \<Rightarrow> bytes" where
  "encode_token t = le_bytes 4 (tm_id t) @ enc_bytes (tm_ticker t) @ be_bytes 32 (tm_creator t)
     @ le_bytes 8 (tm_supply t)"

definition rd_token :: "bytes \<Rightarrow> (token_meta \<times> bytes) option" where
  "rd_token b = do {
     (i, r) \<leftarrow> rd_u32 b; (ticker, r) \<leftarrow> rd_bytes r;
     if \<not> utf8_valid ticker then None
     else do {
       (creator, r) \<leftarrow> rd_arr32 r; (supply, r) \<leftarrow> rd_u64 r;
       Some (\<lparr>tm_id = i, tm_ticker = ticker, tm_creator = creator, tm_supply = supply\<rparr>, r) } }"

definition decode_token :: "bytes \<Rightarrow> token_meta option" where
  "decode_token b = rd_all rd_token b"

definition rd_ciphertext :: "('g, 's, 'r) prims \<Rightarrow> bytes \<Rightarrow> ('g ciphertext \<times> bytes) option" where
  "rd_ciphertext P b = do { (x, r) \<leftarrow> rd_take 64 b; ct \<leftarrow> ct_from_bytes P x; Some (ct, r) }"

definition encode_ct_map :: "('g, 's, 'r) prims \<Rightarrow> (u32, 'g ciphertext) fmap \<Rightarrow> bytes" where
  "encode_ct_map P m = enc_fmap (enc_pair (le_bytes 4) (ct_to_bytes P)) m"

definition rd_ct_map :: "('g, 's, 'r) prims \<Rightarrow> bytes \<Rightarrow> ((u32, 'g ciphertext) fmap \<times> bytes) option" where
  "rd_ct_map P = rd_fmap (rd_pair rd_u32 (rd_ciphertext P))"

definition encode_u64_map :: "(u32, u64) fmap \<Rightarrow> bytes" where
  "encode_u64_map m = enc_fmap (enc_pair (le_bytes 4) (le_bytes 8)) m"

definition rd_u64_map :: "bytes \<Rightarrow> ((u32, u64) fmap \<times> bytes) option" where
  "rd_u64_map = rd_fmap (rd_pair rd_u32 rd_u64)"

definition encode_account :: "('g, 's, 'r) prims \<Rightarrow> 'g account \<Rightarrow> bytes" where
  "encode_account P a = le_bytes 8 (acc_nonce a) @ encode_ct_map P (acc_balances a)
     @ encode_ct_map P (acc_pending a) @ encode_u64_map (acc_public a)"

definition rd_account :: "('g, 's, 'r) prims \<Rightarrow> bytes \<Rightarrow> ('g account \<times> bytes) option" where
  "rd_account P b = do {
     (nonce, r) \<leftarrow> rd_u64 b; (balances, r) \<leftarrow> rd_ct_map P r; (pending, r) \<leftarrow> rd_ct_map P r;
     (public, r) \<leftarrow> rd_u64_map r;
     Some (\<lparr>acc_balances = balances, acc_pending = pending, acc_public = public, acc_nonce = nonce\<rparr>, r) }"

definition decode_account :: "('g, 's, 'r) prims \<Rightarrow> bytes \<Rightarrow> 'g account option" where
  "decode_account P b = rd_all (rd_account P) b"

definition encode_contract :: "contract \<Rightarrow> bytes" where
  "encode_contract c = enc_bytes (con_code c) @ enc_fmap (enc_pair (le_bytes 8) (le_bytes 8)) (con_storage c)"

definition rd_contract :: "bytes \<Rightarrow> (contract \<times> bytes) option" where
  "rd_contract b = do {
     (code, r) \<leftarrow> rd_bytes b; (st, r) \<leftarrow> rd_fmap (rd_pair rd_u64 rd_u64) r;
     Some (\<lparr>con_code = code, con_storage = st\<rparr>, r) }"

definition decode_contract :: "bytes \<Rightarrow> contract option" where
  "decode_contract b = rd_all rd_contract b"

definition encode_validator :: "validator \<Rightarrow> bytes" where
  "encode_validator v = le_bytes 8 (val_staked v) @ enc_list (enc_pair (le_bytes 8) (le_bytes 8)) (val_unbonding v)
     @ [if val_tombstoned v then 1 else 0]"

definition rd_validator :: "bytes \<Rightarrow> (validator \<times> bytes) option" where
  "rd_validator b = do {
     (stake, r) \<leftarrow> rd_u64 b; (unbonding, r) \<leftarrow> rd_list (rd_pair rd_u64 rd_u64) r; (x, r) \<leftarrow> rd_take 1 r;
     Some (\<lparr>val_staked = stake, val_unbonding = unbonding, val_tombstoned = (hd x \<noteq> 0)\<rparr>, r) }"

definition decode_validator :: "bytes \<Rightarrow> validator option" where
  "decode_validator b = rd_all rd_validator b"

section \<open>The codecs\<close>

text \<open>What the 32-bit counts and lengths can carry.\<close>

definition token_fits :: "token_meta \<Rightarrow> bool" where
  "token_fits t \<longleftrightarrow> length (tm_ticker t) < 2 ^ 32 \<and> utf8_valid (tm_ticker t)"

definition account_fits :: "'g account \<Rightarrow> bool" where
  "account_fits a \<longleftrightarrow> fcard (fmdom (acc_balances a)) < 2 ^ 32 \<and> fcard (fmdom (acc_pending a)) < 2 ^ 32 \<and>
     fcard (fmdom (acc_public a)) < 2 ^ 32"

definition contract_fits :: "contract \<Rightarrow> bool" where
  "contract_fits c \<longleftrightarrow> length (con_code c) < 2 ^ 32 \<and> fcard (fmdom (con_storage c)) < 2 ^ 32"

definition validator_fits :: "validator \<Rightarrow> bool" where
  "validator_fits v \<longleftrightarrow> length (val_unbonding v) < 2 ^ 32"

interpretation pool_codec: codec encode_pool rd_pool "\<lambda>_. True"
  by unfold_locales (auto simp: rd_pool_def encode_pool_def word_dec_iff codec_simps split: bind_splits)

lemma rd_flag_Some: "rd_flag b = Some (f, r) \<longleftrightarrow> b = (if f then 1 else 0) # r"
  by (cases b) (auto simp: rd_flag_def rd_take_def)

interpretation flag_codec: codec "\<lambda>f. [if f then 1 else 0]" rd_flag "\<lambda>_. True"
  by unfold_locales (simp_all add: rd_flag_Some)

lemma rd_flag_Cons [codec_simps]: "rd_flag (x # r) =
    (if x = 0 then Some (False, r) else if x = 1 then Some (True, r) else None)"
  by (simp add: rd_flag_def rd_take_def)

interpretation curve_codec: codec encode_curve rd_curve "\<lambda>_. True"
  by unfold_locales
    (auto simp: rd_curve_def encode_curve_def word_dec_iff flag_codec.dec_Some_iff codec_simps split: bind_splits)

interpretation htlc_codec: codec encode_htlc rd_htlc "\<lambda>_. True"
  by unfold_locales (auto simp: rd_htlc_def encode_htlc_def word_dec_iff codec_simps split: bind_splits)

interpretation token_codec: codec encode_token rd_token token_fits
  by unfold_locales
    (auto simp: rd_token_def encode_token_def token_fits_def word_dec_iff bytes_codec.dec_Some_iff codec_simps
      bytes_codec.dec_enc split: bind_splits if_splits)


interpretation u64_pair: codec "enc_pair (le_bytes 8) (le_bytes 8)" "rd_pair rd_u64 rd_u64" "\<lambda>_. True"
  using codec_pair [OF u64_codec.codec_axioms u64_codec.codec_axioms] by simp

interpretation u64_map: decodes "enc_fmap (enc_pair (le_bytes 4) (le_bytes 8))" "rd_fmap (rd_pair rd_u32 rd_u64)"
  "\<lambda>m. fcard (fmdom m) < 2 ^ 32"
  using decodes_fmap [OF decodes_pair [OF u32_codec.decodes_axioms u64_codec.decodes_axioms]] by simp

interpretation storage_map: decodes "enc_fmap (enc_pair (le_bytes 8) (le_bytes 8))" "rd_fmap (rd_pair rd_u64 rd_u64)"
  "\<lambda>m. fcard (fmdom m) < 2 ^ 32"
  using decodes_fmap [OF decodes_pair [OF u64_codec.decodes_axioms u64_codec.decodes_axioms]] by simp

interpretation unbonding_list: codec "enc_list (enc_pair (le_bytes 8) (le_bytes 8))" "rd_list (rd_pair rd_u64 rd_u64)"
  "\<lambda>us. length us < 2 ^ 32"
  using codec_list [OF u64_pair.codec_axioms] by (simp add: list.pred_True)

interpretation contract_codec: decodes encode_contract rd_contract contract_fits
  by unfold_locales
    (auto simp: rd_contract_def encode_contract_def contract_fits_def bytes_codec.dec_enc storage_map.dec_enc)

interpretation validator_codec: decodes encode_validator rd_validator validator_fits
  by unfold_locales
    (auto simp: rd_validator_def encode_validator_def validator_fits_def codec_simps unbonding_list.dec_enc rd_take_def)

lemma ciphertext_codec:
  assumes "encoding_laws P"
  shows "decodes (ct_to_bytes P) (rd_ciphertext P) (\<lambda>_. True)"
  by (rule decodes.intro)
    (simp add: rd_ciphertext_def ct_to_bytes_def ct_from_bytes_def rd_take_def encoding_self [OF assms])

lemma ct_map_codec:
  assumes "encoding_laws P"
  shows "decodes (encode_ct_map P) (rd_ct_map P) (\<lambda>m. fcard (fmdom m) < 2 ^ 32)"
  using decodes_fmap [OF decodes_pair [OF u32_codec.decodes_axioms ciphertext_codec [OF assms]]]
  by (simp add: encode_ct_map_def [abs_def] rd_ct_map_def)

lemma account_codec:
  assumes "encoding_laws P"
  shows "decodes (encode_account P) (rd_account P) account_fits"
  by (rule decodes.intro)
    (simp add: rd_account_def encode_account_def account_fits_def codec_simps
      decodes.dec_enc [OF ct_map_codec [OF assms]] encode_u64_map_def rd_u64_map_def u64_map.dec_enc)

text \<open>
  every record reads back as it was written, whole: pools, curves, hash locks, tokens, accounts,
  contracts and validators, under the bounds that their 32-bit counts set. For the first four the
  decoder accepts nothing else, so a body determines its object and the object its body.
\<close>

theorem record_round_trip:
  assumes "encoding_laws P"
  shows "(decode_pool b = Some p \<longleftrightarrow> b = encode_pool p) \<and> (decode_curve b = Some c \<longleftrightarrow> b = encode_curve c) \<and>
    (decode_htlc b = Some h \<longleftrightarrow> b = encode_htlc h) \<and>
    (decode_token b = Some t \<longleftrightarrow> b = encode_token t \<and> token_fits t) \<and>
    (account_fits a \<longrightarrow> decode_account P (encode_account P a) = Some a) \<and>
    (contract_fits k \<longrightarrow> decode_contract (encode_contract k) = Some k) \<and>
    (validator_fits v \<longrightarrow> decode_validator (encode_validator v) = Some v)"
  using rd_all_iff [OF pool_codec.codec_axioms] rd_all_iff [OF curve_codec.codec_axioms]
    rd_all_iff [OF htlc_codec.codec_axioms] rd_all_iff [OF token_codec.codec_axioms]
    rd_all_enc [OF account_codec [OF assms]] rd_all_enc [OF contract_codec.decodes_axioms]
    rd_all_enc [OF validator_codec.decodes_axioms]
  by (simp add: decode_pool_def decode_curve_def decode_htlc_def decode_token_def decode_account_def
      decode_contract_def decode_validator_def)

theorem record_round_trip_witness:
  "decode_account (toy_prims :: (u64, u64, unit) prims)
     (encode_account (toy_prims :: (u64, u64, unit) prims) (acct_set_public account_default 3 4)) =
     Some (acct_set_public account_default 3 4)"
proof -
  have "account_fits (acct_set_public (account_default :: u64 account) 3 4)"
    by (simp add: account_fits_def acct_set_public_def account_default_def fcard.rep_eq)
  then show ?thesis using record_round_trip [OF toy_encoding_laws [where 'a = 64],
      where a = "acct_set_public account_default 3 4"] by simp
qed

text \<open>
  the record readers are not canonical. A validator body with the tombstone byte 2 is accepted
  and reads as a tombstoned validator, whose own encoding is another byte string; likewise an
  account body with the same token listed twice.
\<close>

theorem record_encoding_not_unique:
  "decode_validator (le_bytes 8 (5 :: u64) @ le_bytes 4 (0 :: u32) @ [2]) =
     Some \<lparr>val_staked = 5, val_unbonding = [], val_tombstoned = True\<rparr> \<and>
   encode_validator \<lparr>val_staked = 5, val_unbonding = [], val_tombstoned = True\<rparr> \<noteq>
     le_bytes 8 (5 :: u64) @ le_bytes 4 (0 :: u32) @ [2] \<and>
   rd_all rd_u64_map (le_bytes 4 (2 :: u32) @ le_bytes 4 (7 :: u32) @ le_bytes 8 (1 :: u64)
       @ le_bytes 4 (7 :: u32) @ le_bytes 8 (9 :: u64)) = Some (fmupd 7 9 fmempty)"
proof (intro conjI)
  show "decode_validator (le_bytes 8 (5 :: u64) @ le_bytes 4 (0 :: u32) @ [2]) =
     Some \<lparr>val_staked = 5, val_unbonding = [], val_tombstoned = True\<rparr>"
    by (simp add: decode_validator_def rd_all_def rd_validator_def codec_simps rd_list_def rd_take_def)
  show "encode_validator \<lparr>val_staked = 5, val_unbonding = [], val_tombstoned = True\<rparr> \<noteq>
     le_bytes 8 (5 :: u64) @ le_bytes 4 (0 :: u32) @ [2]"
    by (simp add: encode_validator_def enc_list_def)
  have two: "rd_repeat 2 rd b = rd_repeat (Suc (Suc 0)) rd b" for rd :: "bytes \<Rightarrow> ((u32 \<times> u64) \<times> bytes) option" and b
    by (simp only: numeral_2_eq_2)
  show "rd_all rd_u64_map (le_bytes 4 (2 :: u32) @ le_bytes 4 (7 :: u32) @ le_bytes 8 (1 :: u64)
       @ le_bytes 4 (7 :: u32) @ le_bytes 8 (9 :: u64)) = Some (fmupd 7 9 fmempty)"
    using u32_codec.dec_enc [of "7 :: u32" "le_bytes 8 (9 :: u64)"] u64_codec.dec_enc [of "9 :: u64" "[]"]
    by (simp add: rd_all_def rd_u64_map_def rd_fmap_def rd_map_def rd_list_def rd_pair_def fm_of_def
        codec_simps two)
qed

section \<open>The commitment's leaves\<close>

definition trie_key :: "('g, 's, 'r) prims \<Rightarrow> string \<Rightarrow> bytes \<Rightarrow> id32" where
  "trie_key P tag body = blake3 P (ascii ''LAT-trie/'' @ ascii tag @ body)"

definition account_leaf :: "('g, 's, 'r) prims \<Rightarrow> id32 \<Rightarrow> 'g account \<Rightarrow> bytes" where
  "account_leaf P i a = ascii ''LAT-state-acct'' @ be_bytes 32 i @ le_bytes 8 (acc_nonce a)
     @ encode_ct_map P (acc_balances a) @ encode_ct_map P (acc_pending a) @ encode_u64_map (acc_public a)"

definition token_leaf :: "token_meta \<Rightarrow> bytes" where
  "token_leaf t = ascii ''LAT-state-token'' @ le_bytes 4 (tm_id t) @ enc_bytes (tm_ticker t)
     @ be_bytes 32 (tm_creator t) @ le_bytes 8 (tm_supply t)"

definition contract_leaf :: "id32 \<Rightarrow> contract \<Rightarrow> bytes" where
  "contract_leaf i c = ascii ''LAT-state-contract'' @ be_bytes 32 i @ enc_bytes (con_code c)
     @ enc_fmap (enc_pair (le_bytes 8) (le_bytes 8)) (con_storage c)"

definition pool_leaf :: "pool \<Rightarrow> bytes" where
  "pool_leaf p = ascii ''LAT-state-pool'' @ encode_pool p"

definition curve_leaf :: "curve_pool \<Rightarrow> bytes" where
  "curve_leaf c = ascii ''LAT-state-curve'' @ encode_curve c"

definition lp_leaf :: "u32 \<Rightarrow> id32 \<Rightarrow> u64 \<Rightarrow> bytes" where
  "lp_leaf token provider shares = ascii ''LAT-state-lp'' @ le_bytes 4 token @ be_bytes 32 provider
     @ le_bytes 8 shares"

definition htlc_leaf :: "id32 \<Rightarrow> htlc \<Rightarrow> bytes" where
  "htlc_leaf i h = ascii ''LAT-state-htlc'' @ be_bytes 32 i @ encode_htlc h"

definition validator_leaf :: "id32 \<Rightarrow> validator \<Rightarrow> bytes" where
  "validator_leaf i v = ascii ''LAT-state-val'' @ be_bytes 32 i @ encode_validator v"

fun trie_path :: "('g, 's, 'r) prims \<Rightarrow> dirty_key \<Rightarrow> id32" where
  "trie_path P (DirtyAccount i) = trie_key P ''acct'' (be_bytes 32 i)"
| "trie_path P (DirtyToken t) = trie_key P ''tokn'' (le_bytes 4 t)"
| "trie_path P (DirtyContract i) = trie_key P ''ctrt'' (be_bytes 32 i)"
| "trie_path P (DirtyNullifier nf) = trie_key P ''null'' (be_bytes 32 nf)"
| "trie_path P (DirtyValidator i) = trie_key P ''val'' (be_bytes 32 i)"
| "trie_path P (DirtyPool t) = trie_key P ''pool'' (le_bytes 4 t)"
| "trie_path P (DirtyCurve t) = trie_key P ''curv'' (le_bytes 4 t)"
| "trie_path P (DirtyLp t i) = trie_key P ''lp'' (le_bytes 4 t @ be_bytes 32 i)"
| "trie_path P (DirtyHtlc i) = trie_key P ''htlc'' (be_bytes 32 i)"
| "trie_path P DirtyMeta = trie_key P ''meta'' []"

fun trie_value :: "('g, 's, 'r) prims \<Rightarrow> 'g ledger \<Rightarrow> dirty_key \<Rightarrow> bytes option" where
  "trie_value P L (DirtyAccount i) = map_option (account_leaf P i) (get_account L i)"
| "trie_value P L (DirtyToken t) = map_option token_leaf (token_by_id L t)"
| "trie_value P L (DirtyContract i) = map_option (contract_leaf i) (get_contract L i)"
| "trie_value P L (DirtyNullifier nf) = (if nullifier_seen L nf then Some [1] else None)"
| "trie_value P L (DirtyValidator i) = map_option (validator_leaf i) (get_validator L i)"
| "trie_value P L (DirtyPool t) = map_option pool_leaf (get_pool L t)"
| "trie_value P L (DirtyCurve t) = map_option curve_leaf (get_curve L t)"
| "trie_value P L (DirtyLp t i) =
     (let shares = lp_shares L t i in if shares > 0 then Some (lp_leaf t i shares) else None)"
| "trie_value P L (DirtyHtlc i) = map_option (htlc_leaf i) (get_htlc L i)"
| "trie_value P L DirtyMeta = Some (le_bytes 4 (l_next_token_id L))"

definition trie_kv :: "('g, 's, 'r) prims \<Rightarrow> 'g ledger \<Rightarrow> dirty_key \<Rightarrow> id32 \<times> bytes option" where
  "trie_kv P L k = (trie_path P k, trie_value P L k)"

lemma same_entry_value: "same_entry k L M \<Longrightarrow> trie_value P M k = trie_value P L k"
  by (cases k) simp_all

end
