(* ===== verification/Ledger_Snapshot.thy ===== *)
theory Ledger_Snapshot
  imports Records
begin

text \<open>
  The ledger snapshot of \<^verbatim>\<open>lat-state/src/lib.rs\<close> (\<^verbatim>\<open>Ledger::encode\<close>, \<^verbatim>\<open>Ledger::decode\<close>). The encoder
  writes the records of each kind in key order; the decoder puts them back one at a time through the
  same accessors the handlers use, marks each, and leaves the root to the next \<^verbatim>\<open>state_root\<close> (which
  the source calls at the end of \<^verbatim>\<open>decode\<close>; theory \<open>Commitment\<close>).
\<close>

definition LEDGER_MAGIC :: bytes where "LEDGER_MAGIC = ascii ''LATLEDG6''"

section \<open>Encoding\<close>

definition enc_lp :: "(u32 \<times> id32) \<times> u64 \<Rightarrow> bytes" where
  "enc_lp e = (be_bytes 4 (fst (fst e)) @ be_bytes 32 (snd (fst e))) @ le_bytes 8 (snd e)"

definition ledger_encode :: "('g, 's, 'r) prims \<Rightarrow> 'g ledger \<Rightarrow> bytes" where
  "ledger_encode P L = LEDGER_MAGIC @ le_bytes 4 (l_next_token_id L)
     @ enc_list (enc_pair (be_bytes 32) (encode_account P)) (fm_entries (l_accounts L))
     @ enc_list encode_token (map snd (fm_entries (l_tokens L)))
     @ enc_list (enc_pair (be_bytes 32) encode_contract) (fm_entries (l_contracts L))
     @ enc_list (be_bytes 32) (sorted_list_of_fset (l_nullifiers L))
     @ enc_list (enc_pair (be_bytes 32) encode_validator) (fm_entries (l_validators L))
     @ enc_list encode_pool (map snd (fm_entries (l_pools L)))
     @ enc_list enc_lp (fm_entries (l_lps L))
     @ enc_list (enc_pair (be_bytes 32) encode_htlc) (fm_entries (l_htlcs L))
     @ enc_list encode_curve (map snd (fm_entries (l_curves L)))"

section \<open>Decoding\<close>

definition rd_live_pool :: "bytes \<Rightarrow> (pool \<times> bytes) option" where
  "rd_live_pool b = do { (p, r) \<leftarrow> rd_pool b; if pool_lp_supply p = 0 then None else Some (p, r) }"

definition rd_lp :: "bytes \<Rightarrow> (((u32 \<times> id32) \<times> u64) \<times> bytes) option" where
  "rd_lp b = do {
     (x, r) \<leftarrow> rd_take 4 b; (provider, r) \<leftarrow> rd_arr32 r; (shares, r) \<leftarrow> rd_u64 r;
     if shares = 0 then None else Some (((of_be x, provider), shares), r) }"

definition load_account :: "'g ledger \<Rightarrow> id32 \<times> 'g account \<Rightarrow> 'g ledger" where
  "load_account L e = mark (DirtyAccount (fst e)) (put_account (fst e) (snd e) L)"

definition load_token :: "'g ledger \<Rightarrow> token_meta \<Rightarrow> 'g ledger" where
  "load_token L t = mark (DirtyToken (tm_id t)) (put_token t L)"

definition load_contract :: "'g ledger \<Rightarrow> id32 \<times> contract \<Rightarrow> 'g ledger" where
  "load_contract L e = mark (DirtyContract (fst e)) (put_contract (fst e) (snd e) L)"

definition load_nullifier :: "'g ledger \<Rightarrow> id32 \<Rightarrow> 'g ledger" where
  "load_nullifier L nf = mark (DirtyNullifier nf) (insert_nullifier nf L)"

definition load_validator :: "'g ledger \<Rightarrow> id32 \<times> validator \<Rightarrow> 'g ledger" where
  "load_validator L e = mark (DirtyValidator (fst e)) (put_validator (fst e) (snd e) L)"

definition load_pool :: "'g ledger \<Rightarrow> pool \<Rightarrow> 'g ledger" where
  "load_pool L p = mark (DirtyPool (pool_token p)) (put_pool p L)"

definition load_lp :: "'g ledger \<Rightarrow> (u32 \<times> id32) \<times> u64 \<Rightarrow> 'g ledger" where
  "load_lp L e = mark (DirtyLp (fst (fst e)) (snd (fst e))) (put_lp (fst (fst e)) (snd (fst e)) (snd e) L)"

definition load_htlc :: "'g ledger \<Rightarrow> id32 \<times> htlc \<Rightarrow> 'g ledger" where
  "load_htlc L e = mark (DirtyHtlc (fst e)) (put_htlc (fst e) (snd e) L)"

definition load_curve :: "'g ledger \<Rightarrow> curve_pool \<Rightarrow> 'g ledger" where
  "load_curve L c = mark (DirtyCurve (cp_token c)) (put_curve c L)"

definition ledger_decode :: "('g, 's, 'r) prims \<Rightarrow> bytes \<Rightarrow> 'g ledger option" where
  "ledger_decode P b = do {
     (magic, r) \<leftarrow> rd_take 8 b;
     if magic \<noteq> LEDGER_MAGIC then None
     else do {
       (next_id, r) \<leftarrow> rd_u32 r;
       (accounts, r) \<leftarrow> rd_list (rd_pair rd_arr32 (rd_account P)) r;
       (tokens, r) \<leftarrow> rd_list rd_token r;
       (contracts, r) \<leftarrow> rd_list (rd_pair rd_arr32 rd_contract) r;
       (nullifiers, r) \<leftarrow> rd_list rd_arr32 r;
       (validators, r) \<leftarrow> rd_list (rd_pair rd_arr32 rd_validator) r;
       (pools, r) \<leftarrow> rd_list rd_live_pool r;
       (lps, r) \<leftarrow> rd_list rd_lp r;
       (htlcs, r) \<leftarrow> rd_list (rd_pair rd_arr32 rd_htlc) r;
       (curves, r) \<leftarrow> rd_list rd_curve r;
       if r \<noteq> [] then None
       else
         let L0 = ledger_new\<lparr>l_next_token_id := next_id, l_meta := Some next_id\<rparr>;
             L1 = foldl load_account L0 accounts;
             L2 = foldl load_token L1 tokens;
             L3 = foldl load_contract L2 contracts;
             L4 = foldl load_nullifier L3 nullifiers;
             L5 = foldl load_validator L4 validators;
             L6 = foldl load_pool L5 pools;
             L7 = foldl load_lp L6 lps;
             L8 = foldl load_htlc L7 htlcs in
         Some (foldl load_curve L8 curves) } }"

section \<open>What a snapshot can carry\<close>

definition all_keys :: "'g ledger \<Rightarrow> dirty_key fset" where
  "all_keys L = finsert DirtyMeta (DirtyAccount |`| fmdom (l_accounts L) |\<union>| DirtyToken |`| fmdom (l_tokens L)
     |\<union>| DirtyContract |`| fmdom (l_contracts L) |\<union>| DirtyNullifier |`| l_nullifiers L
     |\<union>| DirtyValidator |`| fmdom (l_validators L) |\<union>| DirtyPool |`| fmdom (l_pools L)
     |\<union>| (\<lambda>e. DirtyLp (fst e) (snd e)) |`| fmdom (l_lps L) |\<union>| DirtyHtlc |`| fmdom (l_htlcs L)
     |\<union>| DirtyCurve |`| fmdom (l_curves L))"

text \<open>
  Every record sits under its own key and no record is one the accessors would have deleted.
\<close>

definition records_wf :: "'g ledger \<Rightarrow> bool" where
  "records_wf L \<longleftrightarrow> tokens_wf L \<and>
     (\<forall>i v. fmlookup (l_validators L) i = Some v \<longrightarrow> val_staked v \<noteq> 0 \<or> val_unbonding v \<noteq> []) \<and>
     (\<forall>t p. fmlookup (l_pools L) t = Some p \<longrightarrow> pool_token p = t \<and> pool_lp_supply p \<noteq> 0) \<and>
     (\<forall>e n. fmlookup (l_lps L) e = Some n \<longrightarrow> n \<noteq> 0) \<and>
     (\<forall>t c. fmlookup (l_curves L) t = Some c \<longrightarrow> cp_token c = t)"

text \<open>The counts and lengths fit their 32-bit fields.\<close>

definition snapshot_fits :: "'g ledger \<Rightarrow> bool" where
  "snapshot_fits L \<longleftrightarrow>
     fcard (fmdom (l_accounts L)) < 2 ^ 32 \<and> fcard (fmdom (l_tokens L)) < 2 ^ 32 \<and>
     fcard (fmdom (l_contracts L)) < 2 ^ 32 \<and> fcard (l_nullifiers L) < 2 ^ 32 \<and>
     fcard (fmdom (l_validators L)) < 2 ^ 32 \<and> fcard (fmdom (l_pools L)) < 2 ^ 32 \<and>
     fcard (fmdom (l_lps L)) < 2 ^ 32 \<and> fcard (fmdom (l_htlcs L)) < 2 ^ 32 \<and>
     fcard (fmdom (l_curves L)) < 2 ^ 32 \<and>
     (\<forall>i a. fmlookup (l_accounts L) i = Some a \<longrightarrow> account_fits a) \<and>
     (\<forall>t m. fmlookup (l_tokens L) t = Some m \<longrightarrow> token_fits m) \<and>
     (\<forall>i c. fmlookup (l_contracts L) i = Some c \<longrightarrow> contract_fits c) \<and>
     (\<forall>i v. fmlookup (l_validators L) i = Some v \<longrightarrow> validator_fits v)"

section \<open>Loading\<close>

abbreviation upd_all :: "('k, 'v) fmap \<Rightarrow> ('k \<times> 'v) list \<Rightarrow> ('k, 'v) fmap" where
  "upd_all m kvs \<equiv> foldl (\<lambda>m kv. fmupd (fst kv) (snd kv) m) m kvs"

lemma upd_all_entries [simp]: "upd_all fmempty (fm_entries m) = m"
  using fm_of_entries [of m] by (simp add: fm_of_def)

lemma fst_entries [simp]: "fst |`| fset_of_list (fm_entries m) = fmdom m"
  by (simp add: fset_of_list.rep_eq flip: fset_inject)

lemma load_accounts:
  "foldl load_account L es = L\<lparr>l_accounts := upd_all (l_accounts L) es,
     l_dirty := l_dirty L |\<union>| DirtyAccount |`| (fst |`| fset_of_list es)\<rparr>"
  by (induction es arbitrary: L) (simp_all add: load_account_def mark_def put_account_def)

lemma load_tokens:
  "foldl load_token L ts = L\<lparr>l_tokens := upd_all (l_tokens L) (map (\<lambda>t. (tm_id t, t)) ts),
     l_tickers := upd_all (l_tickers L) (map (\<lambda>t. (tm_ticker t, tm_id t)) ts),
     l_meta := (if ts = [] then l_meta L else Some (l_next_token_id L)),
     l_dirty := l_dirty L |\<union>| DirtyToken |`| (tm_id |`| fset_of_list ts)\<rparr>"
  by (induction ts arbitrary: L) (simp_all add: load_token_def mark_def put_token_def)

lemma load_contracts:
  "foldl load_contract L es = L\<lparr>l_contracts := upd_all (l_contracts L) es,
     l_dirty := l_dirty L |\<union>| DirtyContract |`| (fst |`| fset_of_list es)\<rparr>"
  by (induction es arbitrary: L) (simp_all add: load_contract_def mark_def put_contract_def)

lemma load_nullifiers:
  "foldl load_nullifier L ns = L\<lparr>l_nullifiers := l_nullifiers L |\<union>| fset_of_list ns,
     l_dirty := l_dirty L |\<union>| DirtyNullifier |`| fset_of_list ns\<rparr>"
  by (induction ns arbitrary: L) (simp_all add: load_nullifier_def mark_def insert_nullifier_def)

lemma load_validators:
  "list_all (\<lambda>e. val_staked (snd e) \<noteq> 0 \<or> val_unbonding (snd e) \<noteq> []) es \<Longrightarrow>
   foldl load_validator L es = L\<lparr>l_validators := upd_all (l_validators L) es,
     l_dirty := l_dirty L |\<union>| DirtyValidator |`| (fst |`| fset_of_list es)\<rparr>"
  by (induction es arbitrary: L) (auto simp: load_validator_def mark_def put_validator_def)

lemma load_pools:
  "list_all (\<lambda>p. pool_lp_supply p \<noteq> 0) ps \<Longrightarrow>
   foldl load_pool L ps = L\<lparr>l_pools := upd_all (l_pools L) (map (\<lambda>p. (pool_token p, p)) ps),
     l_dirty := l_dirty L |\<union>| DirtyPool |`| (pool_token |`| fset_of_list ps)\<rparr>"
  by (induction ps arbitrary: L) (simp_all add: load_pool_def mark_def put_pool_def)

lemma load_lps:
  "list_all (\<lambda>e. snd e \<noteq> 0) es \<Longrightarrow>
   foldl load_lp L es = L\<lparr>l_lps := upd_all (l_lps L) es,
     l_dirty := l_dirty L |\<union>| (\<lambda>e. DirtyLp (fst e) (snd e)) |`| (fst |`| fset_of_list es)\<rparr>"
  by (induction es arbitrary: L) (simp_all add: load_lp_def mark_def put_lp_def)

lemma load_htlcs:
  "foldl load_htlc L es = L\<lparr>l_htlcs := upd_all (l_htlcs L) es,
     l_dirty := l_dirty L |\<union>| DirtyHtlc |`| (fst |`| fset_of_list es)\<rparr>"
  by (induction es arbitrary: L) (simp_all add: load_htlc_def mark_def put_htlc_def)

lemma load_curves:
  "foldl load_curve L cs = L\<lparr>l_curves := upd_all (l_curves L) (map (\<lambda>c. (cp_token c, c)) cs),
     l_dirty := l_dirty L |\<union>| DirtyCurve |`| (cp_token |`| fset_of_list cs)\<rparr>"
  by (induction cs arbitrary: L) (simp_all add: load_curve_def mark_def put_curve_def)

text \<open>The records whose key is a field of the body.\<close>

lemma keyed_entries:
  assumes "\<forall>k v. fmlookup m k = Some v \<longrightarrow> f v = k"
  shows "map (\<lambda>v. (f v, v)) (map snd (fm_entries m)) = fm_entries m"
    and "f |`| fset_of_list (map snd (fm_entries m)) = fmdom m"
proof -
  have "map (\<lambda>v. (f v, v)) (map snd (fm_entries m)) = map (\<lambda>e. e) (fm_entries m)"
    unfolding map_map by (rule map_cong) (auto simp: set_entries assms)
  then show e: "map (\<lambda>v. (f v, v)) (map snd (fm_entries m)) = fm_entries m" by simp
  have "(\<lambda>e. f (snd e)) ` set (fm_entries m) = fst ` set (fm_entries m)"
    by (rule image_cong) (auto simp: set_entries assms)
  then show "f |`| fset_of_list (map snd (fm_entries m)) = fmdom m"
    by (simp add: fset_of_list.rep_eq image_image flip: fset_inject)
qed

text \<open>Replaying the tokens rebuilds their ticker index.\<close>

lemma rebuilt_tickers:
  assumes "tokens_wf L"
  shows "upd_all fmempty (map (\<lambda>t. (tm_ticker t, tm_id t)) (map snd (fm_entries (l_tokens L)))) = l_tickers L"
    (is "upd_all fmempty ?ts = _")
proof (rule fmap_ext)
  fix norm
  have tick: "\<And>i m. fmlookup (l_tokens L) i = Some m \<Longrightarrow> tm_id m = i \<and> fmlookup (l_tickers L) (tm_ticker m) = Some i"
    and owner: "\<And>n i. fmlookup (l_tickers L) n = Some i \<Longrightarrow> \<exists>m. fmlookup (l_tokens L) i = Some m \<and> tm_ticker m = n"
    using assms unfolding tokens_wf_def token_by_id_def by blast+
  have "inj_on (tm_ticker \<circ> snd) (set (fm_entries (l_tokens L)))"
  proof (rule inj_onI)
    fix x y
    assume xy: "x \<in> set (fm_entries (l_tokens L))" "y \<in> set (fm_entries (l_tokens L))"
      and eq: "(tm_ticker \<circ> snd) x = (tm_ticker \<circ> snd) y"
    then have "fmlookup (l_tokens L) (fst x) = Some (snd x)" "fmlookup (l_tokens L) (fst y) = Some (snd y)"
      by (metis prod.collapse set_entries)+
    moreover from this have "fst x = fst y" using tick eq by (metis comp_apply option.inject)
    ultimately show "x = y" by (simp add: prod_eq_iff)
  qed
  then have d: "distinct (map fst ?ts)"
    by (simp add: distinct_map o_def)
  have mem: "(norm, i) \<in> set ?ts \<longleftrightarrow> fmlookup (l_tickers L) norm = Some i" for i
  proof
    assume "(norm, i) \<in> set ?ts"
    then obtain k m where "fmlookup (l_tokens L) k = Some m" "tm_ticker m = norm" "tm_id m = i"
      by (auto simp: set_entries)
    then show "fmlookup (l_tickers L) norm = Some i" using tick by blast
  next
    assume "fmlookup (l_tickers L) norm = Some i"
    then obtain m where m: "fmlookup (l_tokens L) i = Some m" "tm_ticker m = norm" using owner by blast
    then have "(i, m) \<in> set (fm_entries (l_tokens L))" "tm_id m = i" using tick by (simp_all add: set_entries)
    then show "(norm, i) \<in> set ?ts" using m(2) by (auto intro: rev_image_eqI)
  qed
  have "map_of ?ts norm = fmlookup (l_tickers L) norm"
    by (rule option_ext) (rule trans [OF map_of_eq_Some_iff [OF d] mem])
  then show "fmlookup (upd_all fmempty ?ts) norm = fmlookup (l_tickers L) norm"
    by (simp add: fmlookup_foldl_upd [OF d] del: map_map split: option.split)
qed

section \<open>The round trip\<close>

interpretation live_pool_codec: codec encode_pool rd_live_pool "\<lambda>p. pool_lp_supply p \<noteq> 0"
  by unfold_locales
    (auto simp: rd_live_pool_def pool_codec.dec_enc pool_codec.dec_Some_iff split: bind_splits if_splits)

interpretation lp_codec: codec enc_lp rd_lp "\<lambda>e. snd e \<noteq> 0"
  by unfold_locales
    (auto simp: rd_lp_def enc_lp_def codec_simps word_dec_iff rd_take_Some split: bind_splits if_splits)

lemmas list_reads =
  decodes.dec_enc [OF decodes_list [OF token_codec.decodes_axioms]]
  decodes.dec_enc [OF decodes_list [OF decodes_pair [OF arr32_codec.decodes_axioms contract_codec.decodes_axioms]]]
  decodes.dec_enc [OF decodes_list [OF arr32_codec.decodes_axioms]]
  decodes.dec_enc [OF decodes_list [OF decodes_pair [OF arr32_codec.decodes_axioms validator_codec.decodes_axioms]]]
  decodes.dec_enc [OF decodes_list [OF live_pool_codec.decodes_axioms]]
  decodes.dec_enc [OF decodes_list [OF lp_codec.decodes_axioms]]
  decodes.dec_enc [OF decodes_list [OF decodes_pair [OF arr32_codec.decodes_axioms htlc_codec.decodes_axioms]]]
  decodes.dec_enc [OF decodes_list [OF curve_codec.decodes_axioms]]

lemma list_all_values: "list_all Q (map snd (fm_entries m)) \<longleftrightarrow> (\<forall>k v. fmlookup m k = Some v \<longrightarrow> Q v)"
  using set_entries [of _ _ m] by (fastforce simp: list_all_iff)

lemma loaded_ledger:
  assumes wf: "records_wf L"
  shows "(let L0 = ledger_new\<lparr>l_next_token_id := l_next_token_id L, l_meta := Some (l_next_token_id L)\<rparr>;
             L1 = foldl load_account L0 (fm_entries (l_accounts L));
             L2 = foldl load_token L1 (map snd (fm_entries (l_tokens L)));
             L3 = foldl load_contract L2 (fm_entries (l_contracts L));
             L4 = foldl load_nullifier L3 (sorted_list_of_fset (l_nullifiers L));
             L5 = foldl load_validator L4 (fm_entries (l_validators L));
             L6 = foldl load_pool L5 (map snd (fm_entries (l_pools L)));
             L7 = foldl load_lp L6 (fm_entries (l_lps L));
             L8 = foldl load_htlc L7 (fm_entries (l_htlcs L)) in
         foldl load_curve L8 (map snd (fm_entries (l_curves L)))) =
     L\<lparr>l_meta := Some (l_next_token_id L), l_dirty := all_keys L, l_max_validators := DEFAULT_MAX_VALIDATORS\<rparr>"
proof -
  have tok: "\<forall>k v. fmlookup (l_tokens L) k = Some v \<longrightarrow> tm_id v = k"
    using wf by (auto simp: records_wf_def tokens_wf_def token_by_id_def)
  have pool: "\<forall>k v. fmlookup (l_pools L) k = Some v \<longrightarrow> pool_token v = k"
    and curve: "\<forall>k v. fmlookup (l_curves L) k = Some v \<longrightarrow> cp_token v = k"
    using wf by (auto simp: records_wf_def)
  have live: "list_all (\<lambda>e. val_staked (snd e) \<noteq> 0 \<or> val_unbonding (snd e) \<noteq> []) (fm_entries (l_validators L))"
    "list_all (\<lambda>p. pool_lp_supply p \<noteq> 0) (map snd (fm_entries (l_pools L)))"
    "list_all (\<lambda>e. snd e \<noteq> 0) (fm_entries (l_lps L))"
    using wf by (auto simp: records_wf_def list_all_entries list_all_values)
  have ticks: "upd_all fmempty (map (\<lambda>t. (tm_ticker t, tm_id t)) (map snd (fm_entries (l_tokens L)))) = l_tickers L"
    using wf by (intro rebuilt_tickers) (simp add: records_wf_def)
  have nulls: "fset_of_list (sorted_list_of_fset (l_nullifiers L)) = l_nullifiers L"
    by (simp add: fset_of_list.rep_eq flip: fset_inject)
  define E :: "'a ledger" where "E = ledger_new\<lparr>l_next_token_id := l_next_token_id L, l_meta := Some (l_next_token_id L)\<rparr>"
  have E: "l_accounts E = fmempty" "l_tokens E = fmempty" "l_tickers E = fmempty" "l_contracts E = fmempty"
    "l_nullifiers E = {||}" "l_validators E = fmempty" "l_pools E = fmempty" "l_lps E = fmempty"
    "l_htlcs E = fmempty" "l_curves E = fmempty" "l_meta E = Some (l_next_token_id L)"
    "l_next_token_id E = l_next_token_id L" "l_dirty E = {|DirtyMeta|}"
    by (simp_all add: E_def ledger_new_def)
  note steps = load_accounts load_tokens load_contracts load_nullifiers load_validators [OF live(1)]
    load_pools [OF live(2)] load_lps [OF live(3)] load_htlcs load_curves
    keyed_entries [OF tok] keyed_entries [OF pool] keyed_entries [OF curve] fst_entries
    ticks [unfolded map_map] nulls
  define A1 where "A1 = foldl load_account E (fm_entries (l_accounts L))"
  have A1: "A1 = E\<lparr>l_accounts := l_accounts L, l_dirty := {|DirtyMeta|} |\<union>| DirtyAccount |`| fmdom (l_accounts L)\<rparr>"
    unfolding A1_def steps by (simp add: E)
  define A3 where "A3 = foldl load_contract (foldl load_token A1 (map snd (fm_entries (l_tokens L)))) (fm_entries (l_contracts L))"
  have A3: "A3 = A1\<lparr>l_tokens := l_tokens L, l_tickers := l_tickers L, l_contracts := l_contracts L,
      l_dirty := l_dirty A1 |\<union>| DirtyToken |`| fmdom (l_tokens L) |\<union>| DirtyContract |`| fmdom (l_contracts L)\<rparr>"
    unfolding A3_def steps by (simp add: A1 E steps)
  define A5 where "A5 = foldl load_validator (foldl load_nullifier A3 (sorted_list_of_fset (l_nullifiers L)))
      (fm_entries (l_validators L))"
  have A5: "A5 = A3\<lparr>l_nullifiers := l_nullifiers L, l_validators := l_validators L,
      l_dirty := l_dirty A3 |\<union>| DirtyNullifier |`| l_nullifiers L |\<union>| DirtyValidator |`| fmdom (l_validators L)\<rparr>"
    unfolding A5_def steps by (simp add: A3 A1 E)
  define A7 where "A7 = foldl load_lp (foldl load_pool A5 (map snd (fm_entries (l_pools L)))) (fm_entries (l_lps L))"
  have A7: "A7 = A5\<lparr>l_pools := l_pools L, l_lps := l_lps L,
      l_dirty := l_dirty A5 |\<union>| DirtyPool |`| fmdom (l_pools L)
        |\<union>| (\<lambda>e. DirtyLp (fst e) (snd e)) |`| fmdom (l_lps L)\<rparr>"
    unfolding A7_def steps by (simp add: A5 A3 A1 E)
  have "foldl load_curve (foldl load_htlc A7 (fm_entries (l_htlcs L))) (map snd (fm_entries (l_curves L))) =
      A7\<lparr>l_htlcs := l_htlcs L, l_curves := l_curves L,
        l_dirty := l_dirty A7 |\<union>| DirtyHtlc |`| fmdom (l_htlcs L) |\<union>| DirtyCurve |`| fmdom (l_curves L)\<rparr>"
    unfolding steps by (simp add: A7 A5 A3 A1 E)
  also have "\<dots> = L\<lparr>l_meta := Some (l_next_token_id L), l_dirty := all_keys L, l_max_validators := DEFAULT_MAX_VALIDATORS\<rparr>"
    by (simp add: A7 A5 A3 A1 E_def ledger_new_def all_keys_def)
  finally show ?thesis
    by (simp only: Let_def A7_def A5_def A3_def A1_def E_def)
qed

text \<open>
  A snapshot restores the ledger. Decoding the encoding of a ledger gives back every account,
  token, ticker, contract, nullifier, validator, pool, share, hash lock and curve and the token
  counter, with every entry marked for the commitment; what it does not carry is the validator cap,
  which comes back as the default.
\<close>

lemma snapshot_round_trip:
  assumes P: "encoding_laws P" and wf: "records_wf L" and fits: "snapshot_fits L"
  shows "ledger_decode P (ledger_encode P L) = Some (L\<lparr>l_meta := Some (l_next_token_id L),
     l_dirty := all_keys L, l_max_validators := DEFAULT_MAX_VALIDATORS\<rparr>)"
proof -
  have lists: "list_all (\<lambda>p. account_fits (snd p)) (fm_entries (l_accounts L))"
    "list_all token_fits (map snd (fm_entries (l_tokens L)))"
    "list_all (\<lambda>p. contract_fits (snd p)) (fm_entries (l_contracts L))"
    "list_all (\<lambda>p. validator_fits (snd p)) (fm_entries (l_validators L))"
    "list_all (\<lambda>p. pool_lp_supply p \<noteq> 0) (map snd (fm_entries (l_pools L)))"
    "list_all (\<lambda>e. snd e \<noteq> 0) (fm_entries (l_lps L))"
    using wf fits by (simp_all add: records_wf_def snapshot_fits_def list_all_entries list_all_values)
  have nulls: "length (sorted_list_of_fset (l_nullifiers L)) = fcard (l_nullifiers L)"
    by (simp add: fcard.rep_eq sorted_list_of_fset.rep_eq)
  have counts: "fcard (fmdom (l_accounts L)) < 4294967296" "fcard (fmdom (l_tokens L)) < 4294967296"
    "fcard (fmdom (l_contracts L)) < 4294967296" "fcard (l_nullifiers L) < 4294967296"
    "fcard (fmdom (l_validators L)) < 4294967296" "fcard (fmdom (l_pools L)) < 4294967296"
    "fcard (fmdom (l_lps L)) < 4294967296" "fcard (fmdom (l_htlcs L)) < 4294967296"
    "fcard (fmdom (l_curves L)) < 4294967296"
    using fits by (simp_all add: snapshot_fits_def)
  have magic: "rd_take 8 (LEDGER_MAGIC @ r) = Some (LEDGER_MAGIC, r)" for r
    by (simp add: rd_take_def LEDGER_MAGIC_def ascii_def)
  note accounts = decodes.dec_enc [OF decodes_list [OF decodes_pair [OF arr32_codec.decodes_axioms account_codec [OF P]]]]
  have last_curves: "rd_list rd_curve (enc_list encode_curve (map snd (fm_entries (l_curves L)))) =
      Some (map snd (fm_entries (l_curves L)), [])"
    using list_reads(8) [of "map snd (fm_entries (l_curves L))" "[]"] counts by (simp add: list.pred_True)
  show ?thesis
    unfolding ledger_decode_def ledger_encode_def
    by (simp add: magic codec_simps accounts list_reads last_curves lists counts nulls list.pred_True
        loaded_ledger [OF wf, unfolded Let_def])
qed

end
