(* ===== verification/Ledger_Reach.thy ===== *)
theory Ledger_Reach
  imports Ledger_Snapshot
begin

text \<open>
  The ledgers a chain can be in: the empty ledger, closed under transactions at any height, accepted
  or not, and under the direct credits of \<^verbatim>\<open>lat-chain\<close> (genesis accounts, coinbase and fee
  credits). The invariants of the other theories hold in every one of them, so the properties
  that assume an invariant apply to every state of a run.
\<close>

section \<open>Records under their keys\<close>

definition stored_ok :: "'g ledger \<Rightarrow> bool" where
  "stored_ok L \<longleftrightarrow>
     (\<forall>i v. fmlookup (l_validators L) i = Some v \<longrightarrow> val_staked v \<noteq> 0 \<or> val_unbonding v \<noteq> []) \<and>
     (\<forall>t p. fmlookup (l_pools L) t = Some p \<longrightarrow> pool_token p = t \<and> pool_lp_supply p \<noteq> 0) \<and>
     (\<forall>e n. fmlookup (l_lps L) e = Some n \<longrightarrow> n \<noteq> 0) \<and>
     (\<forall>t c. fmlookup (l_curves L) t = Some c \<longrightarrow> cp_token c = t)"

lemma records_wf_split: "records_wf L \<longleftrightarrow> tokens_wf L \<and> stored_ok L"
  by (simp add: records_wf_def stored_ok_def)

lemma put_token_records [simp]:
  "l_validators (put_token m L) = l_validators L" "l_pools (put_token m L) = l_pools L"
  "l_lps (put_token m L) = l_lps L" "l_curves (put_token m L) = l_curves L"
  by (simp_all add: put_token_def)

lemma stored_ok_frames [simp]:
  "stored_ok (put_account i a L) = stored_ok L" "stored_ok (update_account i f L) = stored_ok L"
  "stored_ok (credit_public i t n L) = stored_ok L" "stored_ok (mark d L) = stored_ok L"
  "stored_ok (mark_all ks L) = stored_ok L" "stored_ok (put_contract i c L) = stored_ok L"
  "stored_ok (insert_nullifier nf L) = stored_ok L" "stored_ok (put_htlc i h L) = stored_ok L"
  "stored_ok (drop_htlc i L) = stored_ok L"
  "stored_ok (put_token m L) = stored_ok L" "stored_ok (L\<lparr>l_next_token_id := k\<rparr>) = stored_ok L"
  by (simp_all add: stored_ok_def)

lemma stored_ok_debit_members [simp]: "stored_ok (foldl (debit_member P t) L mds) = stored_ok L"
  by (simp add: stored_ok_def)

lemma stored_ok_put_validator: "stored_ok L \<Longrightarrow> stored_ok (put_validator i v L)"
  by (auto simp: stored_ok_def put_validator_def split: if_splits)

lemma stored_ok_put_pool: "stored_ok L \<Longrightarrow> stored_ok (put_pool p L)"
  by (auto simp: stored_ok_def put_pool_def split: if_splits)

lemma stored_ok_put_lp: "stored_ok L \<Longrightarrow> stored_ok (put_lp t i n L)"
  by (auto simp: stored_ok_def put_lp_def split: if_splits)

lemma stored_ok_put_curve: "stored_ok L \<Longrightarrow> stored_ok (put_curve c L)"
  by (auto simp: stored_ok_def put_curve_def split: if_splits)

lemmas stored_ok_intros = stored_ok_put_validator stored_ok_put_pool stored_ok_put_lp stored_ok_put_curve

lemma apply_inner_stored_ok:
  assumes wf: "pools_wf L" and run: "apply_inner P tx height pre L = (None, L1)" and ok: "stored_ok L"
  shows "stored_ok L1"
proof (cases tx)
  case (CurveTrade token trader is_buy amount min_out fee nonce sg)
  then have "apply_curve_trade P token trader is_buy amount min_out fee nonce sg tx L = Inr L1"
    using run by (simp add: or_keep_None)
  then show ?thesis using ok
    by (elim curve_trade_Inr)
      (auto elim!: curve_buy_Inr curve_sell_Inr intro!: stored_ok_intros split: if_splits)
next
  case (AddLiquidity token provider lat_amount tok_amount fee nonce sg)
  then have "apply_add_liquidity P token provider lat_amount tok_amount fee nonce sg tx L = (None, L1)"
    using run by simp
  then show ?thesis using ok
    by (cases rule: add_liquidity_cases [OF wf, consumes 1]) (auto intro!: stored_ok_intros)
next
  case (Register i n)
  then show ?thesis using run ok by (auto simp: or_keep_None dest!: register_Inr)
qed (use run ok in \<open>auto simp: or_keep_None Let_def intro!: stored_ok_intros
  elim!: create_token_Inr solvent_Inr rollover_Inr deploy_Inr call_Inr public_transfer_Inr shield_Inr unshield_Inr
   shield_stealth_Inr anon_Inr stake_Inr unstake_Inr slash_Inr htlc_lock_Inr htlc_claim_Inr htlc_refund_Inr
   remove_liquidity_Inr [OF wf] swap_Inr [OF wf]\<close>)

section \<open>Reachable ledgers\<close>

text \<open>
  The token counter is 32 bits wide; a run that would create the last token is not followed
  further (the source's \<^verbatim>\<open>+= 1\<close> wraps there in a release build).
\<close>

inductive reachable :: "('g::ab_group_add, 's::comm_ring_1, 'r) prims \<Rightarrow> 'g ledger \<Rightarrow> bool" for P where
  start: "reachable P ledger_new"
| tx: "reachable P L \<Longrightarrow> unat (l_next_token_id L) + 1 < 2 ^ 32 \<Longrightarrow> reachable P (snd (apply_at P tx height L))"
| credit: "reachable P L \<Longrightarrow> reachable P (credit_public i t n L)"
| reward: "reachable P L \<Longrightarrow> reachable P (reward_miner P i t n L)"
| genesis: "reachable P L \<Longrightarrow> credit_genesis P i n L = Inr M \<Longrightarrow> reachable P M"

definition ledger_inv :: "'g ledger \<Rightarrow> bool" where
  "ledger_inv L \<longleftrightarrow> pools_wf L \<and> records_wf L"

lemma ledger_inv_new: "ledger_inv ledger_new"
proof -
  have "lp_total t (ledger_new :: 'a ledger) = 0" for t
    by (simp add: lp_total_def ledger_new_def fm_sum_def)
  then show ?thesis
    by (simp add: ledger_inv_def pools_wf_def get_pool_def records_wf_def tokens_wf_def token_by_id_def
        ledger_new_def)
qed

lemma ledger_inv_accounts:
  assumes "ledger_inv L"
  shows "ledger_inv (put_account i a L)" "ledger_inv (mark d L)"
  using assms pools_wf_cong [of "put_account i a L" L] pools_wf_cong [of "mark d L" L]
    same_tokens [of "put_account i a L" L] same_tokens [of "mark d L" L]
  by (simp_all add: ledger_inv_def records_wf_split)

lemma ledger_inv_credit:
  assumes "ledger_inv L"
  shows "ledger_inv (credit_public i t n L)" "ledger_inv (reward_miner P i t n L)"
    and "credit_genesis P i n L = Inr M \<Longrightarrow> ledger_inv M"
  using assms by (auto simp: credit_public_def reward_miner_def credit_genesis_def Let_def ledger_inv_accounts)

lemma ledger_inv_apply_at:
  assumes inv: "ledger_inv L" and room: "unat (l_next_token_id L) + 1 < 2 ^ 32"
  shows "ledger_inv (snd (apply_at P tx height L))"
proof (cases "fst (apply_at P tx height L)")
  case None
  then obtain M where M: "apply_inner P tx height None L = (None, M)"
    and L1: "snd (apply_at P tx height L) = mark_all (dirty_keys_for P M tx) M"
    using apply_at_None by blast
  have wf: "pools_wf L" and tok: "tokens_wf L" and st: "stored_ok L"
    using inv by (simp_all add: ledger_inv_def records_wf_split)
  have "pools_wf M" "tokens_wf M" "stored_ok M"
    using apply_inner_pools_wf [OF wf M] apply_inner_keeps(1) [OF wf M tok room]
      apply_inner_stored_ok [OF wf M st] by simp_all
  then show ?thesis
    using L1 same_tokens [of "mark_all (dirty_keys_for P M tx) M" M] by (simp add: ledger_inv_def records_wf_split)
next
  case (Some e)
  then show ?thesis using inv apply_at_failed [OF _ Some] by (simp add: ledger_inv_def)
qed

text \<open>
  C14: every ledger a chain can reach is consistent. Starting from the empty ledger, under any
  sequence of transactions at any heights and of reward and fee credits, the pools keep their
  invariant, tokens and tickers stay one to one below the token counter, every record lies under
  the key its body names, and no drained pool, share or validator record is kept.
\<close>

theorem reachable_invariant:
  assumes "reachable P L"
  shows "pools_wf L \<and> records_wf L"
proof -
  from assms have "ledger_inv L"
    by (induction rule: reachable.induct) (auto intro: ledger_inv_new ledger_inv_apply_at ledger_inv_credit)
  then show ?thesis by (simp add: ledger_inv_def)
qed

theorem reachable_invariant_witness:
  "pools_wf (snd (apply_at (toy_prims :: (u64, u64, unit) prims) (Register 5 0) 1
     (credit_public 4 0 7 ledger_new)))"
proof -
  have "reachable (toy_prims :: (u64, u64, unit) prims) (snd (apply_at (toy_prims :: (u64, u64, unit) prims)
      (Register 5 0) 1 (credit_public 4 0 7 ledger_new)))"
    by (intro reachable.tx reachable.credit reachable.start) (simp add: ledger_new_def)
  from reachable_invariant [OF this] show ?thesis by simp
qed

text \<open>The two results together: a reachable ledger survives its snapshot.\<close>

lemma reachable_snapshot:
  "encoding_laws P \<Longrightarrow> reachable P L \<Longrightarrow> snapshot_fits L \<Longrightarrow>
     ledger_decode P (ledger_encode P L) = Some (L\<lparr>l_meta := Some (l_next_token_id L), l_dirty := all_keys L,
       l_max_validators := DEFAULT_MAX_VALIDATORS\<rparr>)"
  using reachable_invariant snapshot_round_trip by blast

end
