(* ===== verification/Store.thy ===== *)
theory Store
  imports Codecs "HOL-Library.List_Lexorder" "HOL-Library.Sublist"
begin

text \<open>
  The key-value storage of \<^verbatim>\<open>lat-store\<close>: columns and write batches (\<^verbatim>\<open>lib.rs\<close>), the in-memory store
  \<^verbatim>\<open>MemStore\<close>, and the copy-on-write \<^verbatim>\<open>OverlayStore\<close> (\<^verbatim>\<open>overlay.rs\<close>). The trait \<^verbatim>\<open>KVStore\<close> is the
  locale \<open>kv_store\<close>: what a get returns after a batch, and what a prefix scan returns. Both stores
  are interpretations of it, the overlay over any store that is one.

  The locks of the source serialise the calls, so a call is one step of the model. A byte string
  is ordered as Rust orders \<^verbatim>\<open>Vec<u8>\<close>, lexicographically.
\<close>

section \<open>Columns and batches\<close>

datatype column = ColState | ColBlocks | ColTxIndex | ColMeta | ColObjects

definition all_columns :: "column list" where
  "all_columns = [ColState, ColBlocks, ColTxIndex, ColMeta, ColObjects]"

fun column_id :: "column \<Rightarrow> byte" where
  "column_id ColState = 0"
| "column_id ColBlocks = 1"
| "column_id ColTxIndex = 2"
| "column_id ColMeta = 3"
| "column_id ColObjects = 4"

text \<open>\<^verbatim>\<open>Put v\<close> is \<open>Some v\<close> and \<^verbatim>\<open>Delete\<close> is \<open>None\<close>, as \<^verbatim>\<open>WriteBatch::ops\<close> presents them.\<close>

type_synonym batch = "(column \<times> bytes \<times> bytes option) list"

definition batch_put :: "column \<Rightarrow> bytes \<Rightarrow> bytes \<Rightarrow> batch \<Rightarrow> batch" where
  "batch_put c k v b = b @ [(c, k, Some v)]"

definition batch_delete :: "column \<Rightarrow> bytes \<Rightarrow> batch \<Rightarrow> batch" where
  "batch_delete c k b = b @ [(c, k, None)]"

text \<open>What a batch says about a key: its last operation on it, if any.\<close>

fun batch_last :: "batch \<Rightarrow> column \<Rightarrow> bytes \<Rightarrow> bytes option option" where
  "batch_last [] c k = None"
| "batch_last ((c', k', op) # b) c k =
    (case batch_last b c k of
       Some r \<Rightarrow> Some r
     | None \<Rightarrow> if c = c' \<and> k = k' then Some op else None)"

definition after_batch :: "(column \<Rightarrow> bytes \<Rightarrow> bytes option) \<Rightarrow> batch \<Rightarrow> column \<Rightarrow> bytes \<Rightarrow> bytes option" where
  "after_batch g b c k = (case batch_last b c k of Some op \<Rightarrow> op | None \<Rightarrow> g c k)"

lemma batch_last_append:
  "batch_last (a @ b) c k = (case batch_last b c k of Some r \<Rightarrow> Some r | None \<Rightarrow> batch_last a c k)"
  by (induction a c k rule: batch_last.induct) (auto split: option.splits)

lemma after_batch_Nil [simp]: "after_batch g [] = g"
  by (simp add: after_batch_def fun_eq_iff)

lemma after_batch_append: "after_batch g (a @ b) = after_batch (after_batch g a) b"
  by (auto simp: after_batch_def batch_last_append fun_eq_iff split: option.splits)

lemma after_batch_put [simp]:
  "after_batch g (batch_put c k v b) c' k' = (if c' = c \<and> k' = k then Some v else after_batch g b c' k')"
  by (auto simp: after_batch_def batch_put_def batch_last_append)

lemma after_batch_delete [simp]:
  "after_batch g (batch_delete c k b) c' k' = (if c' = c \<and> k' = k then None else after_batch g b c' k')"
  by (auto simp: after_batch_def batch_delete_def batch_last_append)

section \<open>The contract of a store\<close>

text \<open>
  \<open>inv\<close> is the store's own invariant. A write applies the whole batch, in order. A scan lists
  exactly the entries of the column under the prefix, in strictly ascending key order.
\<close>

locale kv_store =
  fixes get :: "'s \<Rightarrow> column \<Rightarrow> bytes \<Rightarrow> bytes option"
    and commit :: "'s \<Rightarrow> batch \<Rightarrow> 's"
    and scan :: "'s \<Rightarrow> column \<Rightarrow> bytes \<Rightarrow> (bytes \<times> bytes) list"
    and inv :: "'s \<Rightarrow> bool"
  assumes inv_commit: "inv s \<Longrightarrow> inv (commit s b)"
    and get_commit: "inv s \<Longrightarrow> get (commit s b) = after_batch (get s) b"
    and set_scan: "inv s \<Longrightarrow> (k, v) \<in> set (scan s c p) \<longleftrightarrow> get s c k = Some v \<and> prefix p k"
    and sorted_scan: "inv s \<Longrightarrow> sorted_wrt (<) (map fst (scan s c p))"
begin

lemma commit_commit: "inv s \<Longrightarrow> get (commit (commit s a) b) = get (commit s (a @ b))"
  by (simp add: get_commit inv_commit after_batch_append)

lemma get_put: "inv s \<Longrightarrow> get (commit s [(c, k, Some v)]) c k = Some v"
  by (simp add: get_commit after_batch_def)

lemma get_delete: "inv s \<Longrightarrow> get (commit s [(c, k, None)]) c k = None"
  by (simp add: get_commit after_batch_def)

lemma get_other: "inv s \<Longrightarrow> (c', k') \<noteq> (c, k) \<Longrightarrow> get (commit s [(c, k, op)]) c' k' = get s c' k'"
  by (auto simp: get_commit after_batch_def)

lemma distinct_scan: "inv s \<Longrightarrow> distinct (map fst (scan s c p))"
  using sorted_scan strict_sorted_iff by blast

lemma map_of_scan: "inv s \<Longrightarrow> map_of (scan s c p) k = (if prefix p k then get s c k else None)"
  by (rule option_ext) (simp add: map_of_eq_Some_iff [OF distinct_scan] set_scan)

end

text \<open>A scan is determined by what the store returns for each key, whatever the store is.\<close>

lemma scan_unique:
  assumes "sorted_wrt (<) (map fst xs)" and "sorted_wrt (<) (map fst ys)"
    and "\<And>k v. (k, v) \<in> set xs \<longleftrightarrow> (k, v) \<in> set ys"
  shows "xs = (ys :: (bytes \<times> bytes) list)"
proof -
  have s: "set xs = set ys" using assms(3) by (auto simp: set_eq_iff)
  have "map fst xs = map fst ys"
    using assms(1,2) s by (intro strict_sorted_equal) (simp_all add: strict_sorted_iff)
  moreover have d: "distinct (map fst ys)" using assms(2) strict_sorted_iff by blast
  ultimately show ?thesis
  proof (intro nth_equalityI)
    show "length xs = length ys" using \<open>map fst xs = map fst ys\<close> by (metis length_map)
  next
    fix i
    assume i: "i < length xs"
    moreover have len: "length xs = length ys" using \<open>map fst xs = map fst ys\<close> by (metis length_map)
    ultimately have k: "fst (xs ! i) = fst (ys ! i)" using \<open>map fst xs = map fst ys\<close> by (metis nth_map)
    have "xs ! i \<in> set ys" and "ys ! i \<in> set ys" using nth_mem [OF i] nth_mem [of i ys] i len s by simp_all
    moreover obtain a v where x: "xs ! i = (a, v)" by fastforce
    moreover obtain w where "ys ! i = (a, w)" using k x by (cases "ys ! i") simp
    ultimately show "xs ! i = ys ! i" using eq_key_imp_eq_value [OF d, of a v w] by simp
  qed
qed

section \<open>The in-memory store\<close>

type_synonym mem_store = "(column, (bytes, bytes) fmap) fmap"

definition mem_new :: mem_store where "mem_new = fmempty"

definition mem_get :: "mem_store \<Rightarrow> column \<Rightarrow> bytes \<Rightarrow> bytes option" where
  "mem_get s c k = (case fmlookup s c of None \<Rightarrow> None | Some m \<Rightarrow> fmlookup m k)"

definition mem_contains :: "mem_store \<Rightarrow> column \<Rightarrow> bytes \<Rightarrow> bool" where
  "mem_contains s c k = (case fmlookup s c of None \<Rightarrow> False | Some m \<Rightarrow> fmlookup m k \<noteq> None)"

definition mem_op :: "mem_store \<Rightarrow> column \<times> bytes \<times> bytes option \<Rightarrow> mem_store" where
  "mem_op s op = (case op of (c, k, v) \<Rightarrow>
     let m = (case fmlookup s c of Some m \<Rightarrow> m | None \<Rightarrow> fmempty) in
     fmupd c (case v of Some x \<Rightarrow> fmupd k x m | None \<Rightarrow> fmdrop k m) s)"

definition mem_write :: "mem_store \<Rightarrow> batch \<Rightarrow> mem_store" where
  "mem_write s b = foldl mem_op s b"

text \<open>\<^verbatim>\<open>map.range(prefix..).take_while(|k| k.starts_with(prefix))\<close> over the ordered map.\<close>

definition mem_scan :: "mem_store \<Rightarrow> column \<Rightarrow> bytes \<Rightarrow> (bytes \<times> bytes) list" where
  "mem_scan s c p = (case fmlookup s c of
       None \<Rightarrow> []
     | Some m \<Rightarrow> takeWhile (\<lambda>e. prefix p (fst e)) (dropWhile (\<lambda>e. fst e < p) (fm_entries m)))"

definition mem_len :: "mem_store \<Rightarrow> nat" where
  "mem_len s = fm_sum (\<lambda>m. fcard (fmdom m)) s"

definition mem_clear :: "mem_store \<Rightarrow> mem_store" where
  "mem_clear s = fmempty"

definition mem_is_empty :: "mem_store \<Rightarrow> bool" where
  "mem_is_empty s \<longleftrightarrow> mem_len s = 0"

text \<open>
  The keys under a prefix are the first ones from the prefix on: everything below the prefix is
  dropped, and in ascending order no key without the prefix lies between two keys with it.
\<close>

lemma prefix_le: "prefix p k \<Longrightarrow> p \<le> (k :: 'a::linorder list)"
  by (auto simp: prefix_def list_le_def list_less_def lexord_append_rightI) (metis append_self_conv lexord_append_rightI neq_Nil_conv)

lemma prefix_between:
  assumes "prefix p k" and "p \<le> j" and "j \<le> k"
  shows "prefix p (j :: 'a::linorder list)"
  using assms
proof (induction p arbitrary: j k)
  case Nil
  then show ?case by simp
next
  case (Cons a p)
  from Cons.prems(1) obtain k' where k: "k = a # k'" "prefix p k'" by (cases k) auto
  with Cons.prems obtain b j' where j: "j = b # j'" by (cases j) (auto simp: list_le_def)
  have "b = a" using Cons.prems(2,3) k j by (auto simp: list_le_def list_less_def)
  then show ?case using Cons.IH [OF k(2), of j'] Cons.prems(2,3) k j by simp
qed

lemma takeWhile_dropWhile_range:
  assumes "sorted_wrt (<) (map fst xs)"
  shows "takeWhile (\<lambda>e. prefix p (fst e)) (dropWhile (\<lambda>e. fst e < p) xs) =
    filter (\<lambda>e. prefix p (fst e)) (xs :: (bytes \<times> bytes) list)"
  using assms
proof (induction xs)
  case Nil
  then show ?case by simp
next
  case (Cons x xs)
  show ?case
  proof (cases "fst x < p")
    case True
    then have "\<not> prefix p (fst x)" using prefix_le leD by blast
    then show ?thesis using Cons True by simp
  next
    case False
    show ?thesis
    proof (cases "prefix p (fst x)")
      case True
      have "\<not> fst e < p" if "e \<in> set xs" for e
      proof -
        have "fst x < fst e" using Cons.prems that by auto
        then show ?thesis using False by (meson less_trans)
      qed
      then have "dropWhile (\<lambda>e. fst e < p) xs = xs" by (simp add: dropWhile_eq_self_iff)
      then show ?thesis using Cons False True by simp
    next
      case no: False
      have "\<not> prefix p (fst e)" if "e \<in> set xs" for e
      proof
        assume "prefix p (fst e)"
        moreover have "fst x < fst e" using Cons.prems that by auto
        ultimately have "prefix p (fst x)" using prefix_between [of p "fst e" "fst x"] False by simp
        then show False using no by simp
      qed
      then show ?thesis using False no by (simp add: filter_empty_conv)
    qed
  qed
qed

lemma sorted_entries: "sorted_wrt (<) (map fst (fm_entries m))"
  using strict_sorted_list_of_set by (simp add: sorted_list_of_fset.rep_eq)

lemma mem_scan_eq:
  "mem_scan s c p = (case fmlookup s c of None \<Rightarrow> [] | Some m \<Rightarrow> filter (\<lambda>e. prefix p (fst e)) (fm_entries m))"
  by (simp add: mem_scan_def takeWhile_dropWhile_range [OF sorted_entries] split: option.split)

lemma mem_get_op: "mem_get (mem_op s (c, k, v)) = after_batch (mem_get s) [(c, k, v)]"
  by (auto simp: mem_get_def mem_op_def after_batch_def Let_def fun_eq_iff split: option.splits)

lemma mem_get_write: "mem_get (mem_write s b) = after_batch (mem_get s) b"
proof (induction b arbitrary: s)
  case Nil
  show ?case by (simp add: mem_write_def)
next
  case (Cons op b)
  obtain c k v where op: "op = (c, k, v)" by (cases op)
  have "mem_get (mem_write s (op # b)) = after_batch (mem_get (mem_op s op)) b"
    using Cons [of "mem_op s op"] by (simp add: mem_write_def)
  also have "\<dots> = after_batch (mem_get s) ([op] @ b)" by (simp only: op mem_get_op after_batch_append)
  finally show ?case by simp
qed

interpretation mem: kv_store mem_get mem_write mem_scan "\<lambda>_. True"
proof
  show "mem_get (mem_write s b) = after_batch (mem_get s) b" for s b by (rule mem_get_write)
  show "(k, v) \<in> set (mem_scan s c p) \<longleftrightarrow> mem_get s c k = Some v \<and> prefix p k" for k v s c p
    by (auto simp: mem_scan_eq mem_get_def set_entries split: option.splits)
  show "sorted_wrt (<) (map fst (mem_scan s c p))" for s c p
    by (cases "fmlookup s c")
      (simp_all add: mem_scan_eq sorted_wrt_map sorted_wrt_filter sorted_entries [unfolded sorted_wrt_map])
qed simp

section \<open>The overlay\<close>

text \<open>The base is any store; its operations are arguments of the definitions that use it.\<close>

record 'b overlay =
  ov_base :: 'b
  ov_top :: mem_store
  ov_tomb :: "(column \<times> bytes) fset"

definition ov_new :: "'b \<Rightarrow> 'b overlay" where
  "ov_new base = \<lparr>ov_base = base, ov_top = mem_new, ov_tomb = {||}\<rparr>"

definition ov_get :: "('b \<Rightarrow> column \<Rightarrow> bytes \<Rightarrow> bytes option) \<Rightarrow> 'b overlay \<Rightarrow> column \<Rightarrow> bytes \<Rightarrow> bytes option" where
  "ov_get bget s c k = (case mem_get (ov_top s) c k of
       Some v \<Rightarrow> Some v
     | None \<Rightarrow> if (c, k) |\<in>| ov_tomb s then None else bget (ov_base s) c k)"

definition ov_op :: "batch \<times> (column \<times> bytes) fset \<Rightarrow> column \<times> bytes \<times> bytes option \<Rightarrow> batch \<times> (column \<times> bytes) fset" where
  "ov_op acc op = (case op of (c, k, v) \<Rightarrow> (case v of
       Some x \<Rightarrow> (batch_put c k x (fst acc), snd acc |-| {|(c, k)|})
     | None \<Rightarrow> (batch_delete c k (fst acc), finsert (c, k) (snd acc))))"

definition ov_write :: "'b overlay \<Rightarrow> batch \<Rightarrow> 'b overlay" where
  "ov_write s b = (let (top_batch, tomb) = foldl ov_op ([], ov_tomb s) b in
     s\<lparr>ov_top := mem_write (ov_top s) top_batch, ov_tomb := tomb\<rparr>)"

definition ov_scan ::
  "('b \<Rightarrow> column \<Rightarrow> bytes \<Rightarrow> (bytes \<times> bytes) list) \<Rightarrow> 'b overlay \<Rightarrow> column \<Rightarrow> bytes \<Rightarrow> (bytes \<times> bytes) list" where
  "ov_scan bscan s c p =
    (let merged = fm_of (bscan (ov_base s) c p @ mem_scan (ov_top s) c p) in
     fm_entries (fmfilter (\<lambda>k. (c, k) |\<notin>| ov_tomb s) merged))"

text \<open>\<^verbatim>\<open>flush\<close>: the puts of the top column by column, then the deletes (a set: in any order).\<close>

definition flush_puts :: "mem_store \<Rightarrow> batch" where
  "flush_puts layer = concat (map (\<lambda>c. map (\<lambda>e. (c, fst e, Some (snd e))) (mem_scan layer c [])) all_columns)"

definition ov_flush :: "('b \<Rightarrow> batch \<Rightarrow> 'b) \<Rightarrow> (column \<times> bytes) list \<Rightarrow> 'b overlay \<Rightarrow> 'b overlay" where
  "ov_flush bwrite tombs s =
    (let b = flush_puts (ov_top s) @ map (\<lambda>(c, k). (c, k, None)) tombs in
     s\<lparr>ov_base := (if b = [] then ov_base s else bwrite (ov_base s) b), ov_top := mem_clear (ov_top s),
       ov_tomb := {||}\<rparr>)"

text \<open>A tombstoned key has no value in the write layer.\<close>

definition ov_ok :: "'b overlay \<Rightarrow> bool" where
  "ov_ok s \<longleftrightarrow> (\<forall>c k. (c, k) |\<in>| ov_tomb s \<longrightarrow> mem_get (ov_top s) c k = None)"

lemma ov_fold:
  "foldl ov_op (tb, tomb) b = (tb', tomb') \<Longrightarrow>
     tb' = tb @ b \<and> ((c, k) |\<in>| tomb' \<longleftrightarrow>
       (case batch_last b c k of Some r \<Rightarrow> r = None | None \<Rightarrow> (c, k) |\<in>| tomb))"
proof (induction b arbitrary: tb tomb)
  case Nil
  then show ?case by simp
next
  case (Cons op b)
  obtain c' k' v where op: "op = (c', k', v)" by (cases op)
  show ?case
    using Cons.prems Cons.IH [of "fst (ov_op (tb, tomb) op)" "snd (ov_op (tb, tomb) op)"]
    by (cases v) (auto simp: op ov_op_def batch_put_def batch_delete_def split: option.splits)
qed

lemma ov_write_parts:
  "ov_base (ov_write s b) = ov_base s" "ov_top (ov_write s b) = mem_write (ov_top s) b"
  "(c, k) |\<in>| ov_tomb (ov_write s b) \<longleftrightarrow>
     (case batch_last b c k of Some r \<Rightarrow> r = None | None \<Rightarrow> (c, k) |\<in>| ov_tomb s)"
proof -
  obtain tb tomb where f: "foldl ov_op ([], ov_tomb s) b = (tb, tomb)" by fastforce
  from ov_fold [OF f, of c k] f
  show "ov_base (ov_write s b) = ov_base s" "ov_top (ov_write s b) = mem_write (ov_top s) b"
    "(c, k) |\<in>| ov_tomb (ov_write s b) \<longleftrightarrow>
       (case batch_last b c k of Some r \<Rightarrow> r = None | None \<Rightarrow> (c, k) |\<in>| ov_tomb s)"
    by (simp_all add: ov_write_def)
qed

text \<open>A put-only batch of the entries of a store writes those entries and nothing else.\<close>

lemma batch_last_puts:
  "distinct (map fst es) \<Longrightarrow> batch_last (map (\<lambda>e. (d, fst e, Some (snd e))) es) c k =
     (if c = d then map_option Some (map_of es k) else None)"
proof (induction es)
  case Nil
  show ?case by simp
next
  case (Cons e es)
  then have "map_of es (fst e) = None" by (simp add: map_of_eq_None_iff)
  with Cons show ?case by (cases e) (auto split: option.splits)
qed

lemma batch_last_concat:
  "distinct cs \<Longrightarrow> (\<And>d. distinct (map fst (f d))) \<Longrightarrow>
     batch_last (concat (map (\<lambda>d. map (\<lambda>e. (d, fst e, Some (snd e))) (f d)) cs)) c k =
       (if c \<in> set cs then map_option Some (map_of (f c) k) else None)"
  by (induction cs) (auto simp: batch_last_append batch_last_puts split: option.splits)

lemma all_columns_all: "c \<in> set all_columns" "distinct all_columns"
  by (cases c; simp add: all_columns_def) (simp add: all_columns_def)

lemma batch_last_flush: "batch_last (flush_puts layer) c k = map_option Some (mem_get layer c k)"
  unfolding flush_puts_def
  by (subst batch_last_concat) (simp_all add: all_columns_all mem.distinct_scan mem.map_of_scan)

lemma batch_last_deletes:
  "batch_last (map (\<lambda>(c, k). (c, k, None)) ts) c k = (if (c, k) \<in> set ts then Some None else None)"
  by (induction ts) (auto split: option.splits if_splits)

lemma mem_get_clear [simp]: "mem_get (mem_clear s) c k = None"
  by (simp add: mem_clear_def mem_get_def)

context kv_store
begin

lemma overlay_get_write:
  assumes "ov_ok s"
  shows "ov_get get (ov_write s b) c k = after_batch (ov_get get s) b c k"
proof (cases "batch_last b c k")
  case None
  then show ?thesis
    using ov_write_parts(3) [where s = s and b = b and c = c and k = k]
    by (simp add: ov_get_def ov_write_parts(1,2) mem_get_write after_batch_def split: option.split)
next
  case (Some r)
  then show ?thesis
    using ov_write_parts(3) [where s = s and b = b and c = c and k = k]
    by (cases r) (simp_all add: ov_get_def ov_write_parts(1,2) mem_get_write after_batch_def)
qed

lemma overlay_ok_write: "ov_ok s \<Longrightarrow> ov_ok (ov_write s b)"
  unfolding ov_ok_def ov_write_parts by (auto simp: mem_get_write after_batch_def split: option.splits)

lemma overlay_merged:
  assumes "inv (ov_base s)"
  shows "fmlookup (fm_of (scan (ov_base s) c p @ mem_scan (ov_top s) c p)) k =
    (if prefix p k then (case mem_get (ov_top s) c k of Some v \<Rightarrow> Some v | None \<Rightarrow> get (ov_base s) c k) else None)"
  using distinct_scan [OF assms] mem.distinct_scan
  by (simp add: fm_of_def fmlookup_foldl_upd map_of_scan [OF assms] mem.map_of_scan split: option.splits)

text \<open>An overlay over a store is a store.\<close>

lemma overlay_store: "kv_store (ov_get get) ov_write (ov_scan scan) (\<lambda>s. inv (ov_base s) \<and> ov_ok s)"
proof
  fix s :: "'s overlay" and b c p k v
  assume i: "inv (ov_base s) \<and> ov_ok s"
  then show "inv (ov_base (ov_write s b)) \<and> ov_ok (ov_write s b)"
    by (simp add: ov_write_parts overlay_ok_write)
  show "ov_get get (ov_write s b) = after_batch (ov_get get s) b"
    using i overlay_get_write by (simp add: fun_eq_iff)
  show "(k, v) \<in> set (ov_scan scan s c p) \<longleftrightarrow> ov_get get s c k = Some v \<and> prefix p k"
    using i by (auto simp: ov_scan_def set_entries overlay_merged ov_get_def ov_ok_def split: option.splits if_splits)
  show "sorted_wrt (<) (map fst (ov_scan scan s c p))"
    unfolding ov_scan_def Let_def by (rule sorted_entries)
qed

text \<open>Flushing moves the write layer into the base and changes no read.\<close>

lemma overlay_flush:
  assumes "inv (ov_base s)" and "ov_ok s" and "set tombs = fset (ov_tomb s)"
  shows "get (ov_base (ov_flush commit tombs s)) = ov_get get s"
    and "ov_get get (ov_flush commit tombs s) = ov_get get s"
proof -
  let ?b = "flush_puts (ov_top s) @ map (\<lambda>(c, k). (c, k, None)) tombs"
  have base: "get (ov_base (ov_flush commit tombs s)) = after_batch (get (ov_base s)) ?b"
    using assms(1) by (auto simp: ov_flush_def Let_def get_commit)
  have "after_batch (get (ov_base s)) ?b c k = ov_get get s c k" for c k
    using assms(2,3)
    by (auto simp: after_batch_def batch_last_append batch_last_deletes batch_last_flush ov_get_def ov_ok_def
        split: option.splits)
  then show b: "get (ov_base (ov_flush commit tombs s)) = ov_get get s" using base by (simp add: fun_eq_iff)
  have "ov_top (ov_flush commit tombs s) = mem_clear (ov_top s)" "ov_tomb (ov_flush commit tombs s) = {||}"
    by (simp_all add: ov_flush_def Let_def)
  then show "ov_get get (ov_flush commit tombs s) = ov_get get s"
    using b by (simp add: ov_get_def fun_eq_iff)
qed

end

interpretation overlay: kv_store "ov_get mem_get" ov_write "ov_scan mem_scan" "\<lambda>s. True \<and> ov_ok s"
  by (rule mem.overlay_store)

section \<open>The claims\<close>

text \<open>
  The overlay is transparent. Reads after a batch see exactly the batch over what was read
  before, the shared base is not touched, and folding the layer into the base with \<^verbatim>\<open>flush\<close> changes
  neither a read nor a scan: the base then holds what the overlay showed, and the scan of the
  merged layers is the scan of that base.
\<close>

lemma overlay_transparent:
  assumes "ov_ok s" and "set tombs = fset (ov_tomb s)"
  shows "ov_get mem_get (ov_write s b) = after_batch (ov_get mem_get s) b \<and>
    ov_base (ov_write s b) = ov_base s \<and> ov_ok (ov_write s b) \<and>
    ov_get mem_get (ov_flush mem_write tombs s) = ov_get mem_get s \<and>
    mem_get (ov_base (ov_flush mem_write tombs s)) = ov_get mem_get s \<and>
    ov_scan mem_scan s c p = mem_scan (ov_base (ov_flush mem_write tombs s)) c p"
proof -
  note f = mem.overlay_flush [OF TrueI assms]
  have "ov_scan mem_scan s c p = mem_scan (ov_base (ov_flush mem_write tombs s)) c p"
    by (rule scan_unique) (use assms(1) f in \<open>simp_all add: overlay.sorted_scan mem.sorted_scan overlay.set_scan mem.set_scan\<close>)
  then show ?thesis
    using f assms(1) overlay.get_commit [of s b] by (simp add: ov_write_parts mem.overlay_ok_write)
qed

lemma overlay_transparent_witness:
  "let base = mem_write mem_new [(ColState, [1], Some [10]), (ColState, [2], Some [20])];
       s = ov_write (ov_new base) [(ColState, [1], None), (ColState, [3], Some [30])] in
   ov_scan mem_scan s ColState [] = [([2], [20]), ([3], [30])] \<and>
   mem_scan (ov_base (ov_flush mem_write [(ColState, [1])] s)) ColState [] = [([2], [20]), ([3], [30])]"
proof -
  let ?base = "mem_write mem_new [(ColState, [1], Some [10]), (ColState, [2], Some [20])]"
  let ?s = "ov_write (ov_new ?base) [(ColState, [1], None), (ColState, [3], Some [30])]"
  have new: "ov_ok (ov_new ?base)" by (simp add: ov_ok_def ov_new_def)
  then have ok: "ov_ok ?s" using overlay_transparent [OF new, of "[]"] by (simp add: ov_new_def)
  have tomb: "set [(ColState, [1 :: byte])] = fset (ov_tomb ?s)"
    by (simp add: ov_write_def ov_new_def ov_op_def)
  have "ov_scan mem_scan ?s ColState [] = [([2], [20]), ([3], [30])]"
  proof (rule scan_unique)
    show "sorted_wrt (<) (map fst (ov_scan mem_scan ?s ColState []))" using ok by (simp add: overlay.sorted_scan)
    show "sorted_wrt (<) (map fst [([2 :: byte], [20 :: byte]), ([3], [30])])" by (simp add: list_less_def)
    fix k v
    show "(k, v) \<in> set (ov_scan mem_scan ?s ColState []) \<longleftrightarrow> (k, v) \<in> set [([2], [20]), ([3], [30])]"
      using ok by (simp only: overlay.set_scan simp_thms)
        (auto simp: ov_get_def ov_write_def ov_new_def ov_op_def batch_put_def batch_delete_def mem_get_write
          after_batch_def mem_new_def mem_get_def split: if_splits)
  qed
  then show ?thesis using overlay_transparent [OF ok tomb, of "[]" ColState "[]"] by simp
qed

text \<open>
  a prefix scan, which the source does as a range from the prefix cut at the first key without
  it, returns exactly the entries under the prefix, in ascending key order and each key once.
\<close>

theorem scan_is_filter:
  "mem_scan s c p = filter (\<lambda>e. prefix p (fst e)) (mem_scan s c []) \<and>
   sorted_wrt (<) (map fst (mem_scan s c p)) \<and>
   set (mem_scan s c p) = {(k, v). mem_get s c k = Some v \<and> prefix p k}"
proof (intro conjI)
  show "mem_scan s c p = filter (\<lambda>e. prefix p (fst e)) (mem_scan s c [])"
    by (simp add: mem_scan_eq split: option.split)
  show "sorted_wrt (<) (map fst (mem_scan s c p))" by (simp add: mem.sorted_scan)
  show "set (mem_scan s c p) = {(k, v). mem_get s c k = Some v \<and> prefix p k}"
    by (auto simp: mem.set_scan)
qed

end
