(* ===== verification/SparseMerkle.thy ===== *)
theory SparseMerkle
  imports Store Crypto
begin

text \<open>
  The authenticated state trie \<^verbatim>\<open>lat-store/src/smt.rs\<close>: a sparse Merkle tree of depth 256 whose nodes
  are stored under their own hash. blake3 is the parameter \<open>blake3 P\<close>. A depth \<open>d\<close> of the source
  is given by the number \<open>n = 256 - d\<close> of levels below it, so the recursions are on \<open>n\<close>; the bit of
  a key that decides at \<open>Suc n\<close> levels is bit \<open>n\<close> of the word the key's bytes spell.

  The specification is \<open>tree_hash\<close>, the hash of the full binary tree of a finite map. A node in the
  store represents a map when its hash is the tree hash of the map and its children represent the
  two halves. Nothing holds of hashes that collide, so the results are stated relative to a set of
  hash inputs on which blake3 is injective; the set has to contain the inputs of the trees at hand.
\<close>

section \<open>Hashing\<close>

definition KEY_BITS :: nat where "KEY_BITS = 256"

definition leaf_input :: "('g, 's, 'r) prims \<Rightarrow> id32 \<Rightarrow> bytes \<Rightarrow> bytes" where
  "leaf_input P key value = 0 # be_bytes 32 key @ be_bytes 32 (blake3 P value)"

definition node_input :: "id32 \<Rightarrow> id32 \<Rightarrow> bytes" where
  "node_input l r = 1 # be_bytes 32 l @ be_bytes 32 r"

definition empty_input :: bytes where
  "empty_input = ascii ''LAT-smt-v1/empty''"

definition hash_leaf :: "('g, 's, 'r) prims \<Rightarrow> id32 \<Rightarrow> bytes \<Rightarrow> id32" where
  "hash_leaf P key value = blake3 P (leaf_input P key value)"

definition hash_internal :: "('g, 's, 'r) prims \<Rightarrow> id32 \<Rightarrow> id32 \<Rightarrow> id32" where
  "hash_internal P l r = blake3 P (node_input l r)"

text \<open>\<^verbatim>\<open>defaults()[256 - n]\<close>, and the fold of \<^verbatim>\<open>single_leaf_subtree_hash\<close> up to \<open>n\<close> levels.\<close>

fun default_hash :: "('g, 's, 'r) prims \<Rightarrow> nat \<Rightarrow> id32" where
  "default_hash P 0 = blake3 P empty_input"
| "default_hash P (Suc n) = hash_internal P (default_hash P n) (default_hash P n)"

definition empty_root :: "('g, 's, 'r) prims \<Rightarrow> id32" where
  "empty_root P = default_hash P KEY_BITS"

fun single_leaf_hash :: "('g, 's, 'r) prims \<Rightarrow> nat \<Rightarrow> id32 \<Rightarrow> id32 \<Rightarrow> id32" where
  "single_leaf_hash P 0 key leaf = leaf"
| "single_leaf_hash P (Suc n) key leaf =
    (if bit key n then hash_internal P (default_hash P n) (single_leaf_hash P n key leaf)
     else hash_internal P (single_leaf_hash P n key leaf) (default_hash P n))"

section \<open>Nodes\<close>

datatype node = SLeaf id32 bytes | SInternal id32 id32

fun node_encode :: "node \<Rightarrow> bytes" where
  "node_encode (SLeaf key value) = 0 # be_bytes 32 key @ value"
| "node_encode (SInternal l r) = 1 # be_bytes 32 l @ be_bytes 32 r"

definition node_decode :: "bytes \<Rightarrow> node option" where
  "node_decode b = (case b of
       [] \<Rightarrow> None
     | tag # _ \<Rightarrow>
         if tag = 0 then do {
           key \<leftarrow> get_range b 1 33;
           value \<leftarrow> get_range b 33 (length b);
           Some (SLeaf (of_be key) value) }
         else if tag = 1 then do {
           l \<leftarrow> get_range b 1 33;
           r \<leftarrow> get_range b 33 65;
           Some (SInternal (of_be l) (of_be r)) }
         else None)"

lemma node_decode_encode [simp]: "node_decode (node_encode nd) = Some nd"
  by (cases nd) (simp_all add: node_decode_def get_range_def)

text \<open>\<^verbatim>\<open>self.store.get(Column::State, hash).and_then(|b| Node::decode(&b))\<close>\<close>

definition node_at :: "(column \<Rightarrow> bytes \<Rightarrow> bytes option) \<Rightarrow> id32 \<Rightarrow> node option" where
  "node_at g h = Option.bind (g ColState (be_bytes 32 h)) node_decode"

section \<open>Proofs\<close>

datatype terminal = TEmpty | TLeaf id32 bytes

record merkle_proof =
  mp_siblings :: "id32 list"
  mp_terminal :: terminal

text \<open>The siblings from \<open>n\<close> levels downwards, folded up onto the terminal's hash.\<close>

fun climb :: "('g, 's, 'r) prims \<Rightarrow> id32 \<Rightarrow> nat \<Rightarrow> id32 list \<Rightarrow> id32 \<Rightarrow> id32" where
  "climb P key n [] cur = cur"
| "climb P key n (sib # sibs) cur =
    (let below = climb P key (n - 1) sibs cur in
     if bit key (n - 1) then hash_internal P sib below else hash_internal P below sib)"

definition terminal_hash :: "('g, 's, 'r) prims \<Rightarrow> nat \<Rightarrow> terminal \<Rightarrow> id32" where
  "terminal_hash P n t = (case t of
       TEmpty \<Rightarrow> default_hash P n
     | TLeaf k v \<Rightarrow> single_leaf_hash P n k (hash_leaf P k v))"

text \<open>
  \<^verbatim>\<open>defs[depth]\<close> panics for more than 256 siblings; \<^verbatim>\<open>verify\<close> checks that before it calls this.
\<close>

definition compute_root :: "('g, 's, 'r) prims \<Rightarrow> merkle_proof \<Rightarrow> id32 \<Rightarrow> id32" where
  "compute_root P pf key =
     climb P key KEY_BITS (mp_siblings pf)
       (terminal_hash P (KEY_BITS - length (mp_siblings pf)) (mp_terminal pf))"

definition smt_verify :: "('g, 's, 'r) prims \<Rightarrow> id32 \<Rightarrow> id32 \<Rightarrow> bytes option \<Rightarrow> merkle_proof \<Rightarrow> bool" where
  "smt_verify P root key expected pf =
    (if length (mp_siblings pf) > KEY_BITS \<or> compute_root P pf key \<noteq> root then False
     else (case (expected, mp_terminal pf) of
         (Some v, TLeaf k w) \<Rightarrow> k = key \<and> w = v
       | (Some _, TEmpty) \<Rightarrow> False
       | (None, TEmpty) \<Rightarrow> True
       | (None, TLeaf k _) \<Rightarrow> k \<noteq> key))"

section \<open>The tree over a store\<close>

text \<open>
  \<open>g\<close> is the store's \<^verbatim>\<open>get\<close>. Below level 0 the source indexes out of bounds, which panics.
\<close>

fun smt_find :: "('g, 's, 'r) prims \<Rightarrow> (column \<Rightarrow> bytes \<Rightarrow> bytes option) \<Rightarrow> nat \<Rightarrow> id32 \<Rightarrow> id32 \<Rightarrow>
    panic + bytes option" where
  "smt_find P g n cur key =
    (if cur = default_hash P n then Inr None
     else (case node_at g cur of
         None \<Rightarrow> Inr None
       | Some (SLeaf k v) \<Rightarrow> Inr (if k = key then Some v else None)
       | Some (SInternal l r) \<Rightarrow> (case n of
             0 \<Rightarrow> Inl Panic
           | Suc m \<Rightarrow> smt_find P g m (if bit key m then r else l) key)))"

fun smt_path :: "('g, 's, 'r) prims \<Rightarrow> (column \<Rightarrow> bytes \<Rightarrow> bytes option) \<Rightarrow> nat \<Rightarrow> id32 \<Rightarrow> id32 \<Rightarrow>
    panic + id32 list \<times> terminal" where
  "smt_path P g n cur key =
    (if cur = default_hash P n then Inr ([], TEmpty)
     else (case node_at g cur of
         None \<Rightarrow> Inl Panic
       | Some (SLeaf k v) \<Rightarrow> Inr ([], TLeaf k v)
       | Some (SInternal l r) \<Rightarrow> (case n of
             0 \<Rightarrow> Inl Panic
           | Suc m \<Rightarrow> try_then (smt_path P g m (if bit key m then r else l) key) (\<lambda>(sibs, t).
               Inr ((if bit key m then l else r) # sibs, t)))))"

definition smt_get :: "('g, 's, 'r) prims \<Rightarrow> (column \<Rightarrow> bytes \<Rightarrow> bytes option) \<Rightarrow> id32 \<Rightarrow> id32 \<Rightarrow>
    panic + bytes option" where
  "smt_get P g root key = smt_find P g KEY_BITS root key"

definition smt_prove :: "('g, 's, 'r) prims \<Rightarrow> (column \<Rightarrow> bytes \<Rightarrow> bytes option) \<Rightarrow> id32 \<Rightarrow> id32 \<Rightarrow>
    panic + merkle_proof" where
  "smt_prove P g root key = try_then (smt_path P g KEY_BITS root key)
     (\<lambda>(sibs, t). Inr \<lparr>mp_siblings = sibs, mp_terminal = t\<rparr>)"

definition place_leaf :: "('g, 's, 'r) prims \<Rightarrow> nat \<Rightarrow> id32 \<Rightarrow> bytes \<Rightarrow> batch \<Rightarrow> id32 \<times> batch" where
  "place_leaf P n key value b =
    (let h = single_leaf_hash P n key (hash_leaf P key value) in
     (h, batch_put ColState (be_bytes 32 h) (node_encode (SLeaf key value)) b))"

definition store_internal :: "('g, 's, 'r) prims \<Rightarrow> id32 \<Rightarrow> id32 \<Rightarrow> batch \<Rightarrow> id32 \<times> batch" where
  "store_internal P l r b =
    (let h = hash_internal P l r in
     (h, batch_put ColState (be_bytes 32 h) (node_encode (SInternal l r)) b))"

text \<open>
  \<^verbatim>\<open>split\<close>: at the first differing bit the two leaves are the children; above it, on the way back,
  the sibling is empty. Two equal keys would run past the last level.
\<close>

fun smt_split :: "('g, 's, 'r) prims \<Rightarrow> nat \<Rightarrow> id32 \<Rightarrow> bytes \<Rightarrow> id32 \<Rightarrow> bytes \<Rightarrow> batch \<Rightarrow> panic + id32 \<times> batch" where
  "smt_split P 0 ka va kb vb b = Inl Panic"
| "smt_split P (Suc n) ka va kb vb b =
    (if bit ka n \<noteq> bit kb n then
       let (ha, b1) = place_leaf P n ka va b; (hb, b2) = place_leaf P n kb vb b1 in
       Inr (if bit ka n then store_internal P hb ha b2 else store_internal P ha hb b2)
     else try_then (smt_split P n ka va kb vb b) (\<lambda>(cur, b1).
       Inr (if bit ka n then store_internal P (default_hash P n) cur b1
            else store_internal P cur (default_hash P n) b1)))"

fun smt_upsert :: "('g, 's, 'r) prims \<Rightarrow> (column \<Rightarrow> bytes \<Rightarrow> bytes option) \<Rightarrow> nat \<Rightarrow> id32 \<Rightarrow> id32 \<Rightarrow> bytes \<Rightarrow>
    batch \<Rightarrow> panic + id32 \<times> batch" where
  "smt_upsert P g n h key value b =
    (if h = default_hash P n then Inr (place_leaf P n key value b)
     else (case node_at g h of
         None \<Rightarrow> Inl Panic
       | Some (SLeaf k v) \<Rightarrow>
           if k = key then Inr (place_leaf P n key value b) else smt_split P n key value k v b
       | Some (SInternal l r) \<Rightarrow> (case n of
             0 \<Rightarrow> Inl Panic
           | Suc m \<Rightarrow>
               if bit key m then
                 try_then (smt_upsert P g m r key value b) (\<lambda>(r', b1). Inr (store_internal P l r' b1))
               else
                 try_then (smt_upsert P g m l key value b) (\<lambda>(l', b1). Inr (store_internal P l' r b1)))))"

definition smt_collapse :: "('g, 's, 'r) prims \<Rightarrow> (column \<Rightarrow> bytes \<Rightarrow> bytes option) \<Rightarrow> nat \<Rightarrow> id32 \<Rightarrow> id32 \<Rightarrow>
    batch \<Rightarrow> id32 \<times> batch" where
  "smt_collapse P g m l r b =
    (let left_empty = l = default_hash P m; right_empty = r = default_hash P m in
     if left_empty \<and> right_empty then (default_hash P (Suc m), b)
     else if left_empty \<noteq> right_empty then
       (case node_at g (if left_empty then r else l) of
          Some (SLeaf k v) \<Rightarrow> place_leaf P (Suc m) k v b
        | _ \<Rightarrow> store_internal P l r b)
     else store_internal P l r b)"

fun smt_delete :: "('g, 's, 'r) prims \<Rightarrow> (column \<Rightarrow> bytes \<Rightarrow> bytes option) \<Rightarrow> nat \<Rightarrow> id32 \<Rightarrow> id32 \<Rightarrow>
    batch \<Rightarrow> panic + id32 \<times> batch" where
  "smt_delete P g n h key b =
    (if h = default_hash P n then Inr (h, b)
     else (case node_at g h of
         None \<Rightarrow> Inl Panic
       | Some (SLeaf k v) \<Rightarrow> Inr (if k = key then default_hash P n else h, b)
       | Some (SInternal l r) \<Rightarrow> (case n of
             0 \<Rightarrow> Inl Panic
           | Suc m \<Rightarrow>
               if bit key m then
                 try_then (smt_delete P g m r key b) (\<lambda>(r', b1). Inr (smt_collapse P g m l r' b1))
               else
                 try_then (smt_delete P g m l key b) (\<lambda>(l', b1). Inr (smt_collapse P g m l' r b1)))))"

text \<open>\<^verbatim>\<open>update\<close> and \<^verbatim>\<open>remove\<close>: the new root and the batch that the store then writes.\<close>

definition smt_update :: "('g, 's, 'r) prims \<Rightarrow> (column \<Rightarrow> bytes \<Rightarrow> bytes option) \<Rightarrow> id32 \<Rightarrow> id32 \<Rightarrow> bytes \<Rightarrow>
    panic + id32 \<times> batch" where
  "smt_update P g root key value = smt_upsert P g KEY_BITS root key value []"

definition smt_remove :: "('g, 's, 'r) prims \<Rightarrow> (column \<Rightarrow> bytes \<Rightarrow> bytes option) \<Rightarrow> id32 \<Rightarrow> id32 \<Rightarrow>
    panic + id32 \<times> batch" where
  "smt_remove P g root key = smt_delete P g KEY_BITS root key []"

declare smt_find.simps [simp del] smt_path.simps [simp del] smt_upsert.simps [simp del] smt_delete.simps [simp del]

section \<open>The specification\<close>

text \<open>The two halves of a map at the bit that decides, and the hash of the full tree.\<close>

abbreviation lo :: "nat \<Rightarrow> (id32, bytes) fmap \<Rightarrow> (id32, bytes) fmap" where
  "lo n m \<equiv> fmfilter (\<lambda>k. \<not> bit k n) m"

abbreviation hi :: "nat \<Rightarrow> (id32, bytes) fmap \<Rightarrow> (id32, bytes) fmap" where
  "hi n m \<equiv> fmfilter (\<lambda>k. bit k n) m"

fun tree_hash :: "('g, 's, 'r) prims \<Rightarrow> nat \<Rightarrow> (id32, bytes) fmap \<Rightarrow> id32" where
  "tree_hash P 0 m = (case fm_entries m of [] \<Rightarrow> blake3 P empty_input | kv # _ \<Rightarrow> hash_leaf P (fst kv) (snd kv))"
| "tree_hash P (Suc n) m = hash_internal P (tree_hash P n (lo n m)) (tree_hash P n (hi n m))"

text \<open>The strings that are hashed in that tree.\<close>

fun tree_inputs :: "('g, 's, 'r) prims \<Rightarrow> nat \<Rightarrow> (id32, bytes) fmap \<Rightarrow> bytes set" where
  "tree_inputs P 0 m = (case fm_entries m of [] \<Rightarrow> {empty_input} | kv # _ \<Rightarrow> {leaf_input P (fst kv) (snd kv), snd kv})"
| "tree_inputs P (Suc n) m = insert (node_input (tree_hash P n (lo n m)) (tree_hash P n (hi n m)))
     (tree_inputs P n (lo n m) \<union> tree_inputs P n (hi n m))"

text \<open>All keys of the map agree above \<open>n\<close> levels, with each other or with a given key.\<close>

definition same_path :: "nat \<Rightarrow> (id32, bytes) fmap \<Rightarrow> bool" where
  "same_path n m \<longleftrightarrow> (\<forall>j k. fmlookup m j \<noteq> None \<longrightarrow> fmlookup m k \<noteq> None \<longrightarrow> drop_bit n j = drop_bit n k)"

definition on_path :: "nat \<Rightarrow> id32 \<Rightarrow> (id32, bytes) fmap \<Rightarrow> bool" where
  "on_path n key m \<longleftrightarrow> (\<forall>k. fmlookup m k \<noteq> None \<longrightarrow> drop_bit n k = drop_bit n key)"

lemma drop_bit_eq_iff: "drop_bit n j = drop_bit n (k :: id32) \<longleftrightarrow> (\<forall>i\<ge>n. bit j i = bit k i)"
proof
  assume eq: "drop_bit n j = drop_bit n k"
  show "\<forall>i\<ge>n. bit j i = bit k i"
  proof (intro allI impI)
    fix i
    assume "n \<le> i"
    then show "bit j i = bit k i"
      using arg_cong [OF eq, of "\<lambda>w. bit w (i - n)"] by (simp add: bit_drop_bit_eq)
  qed
next
  assume "\<forall>i\<ge>n. bit j i = bit k i"
  then show "drop_bit n j = drop_bit n k" by (intro bit_eqI) (simp add: bit_drop_bit_eq)
qed

lemma all_ge_Suc: "(\<forall>i\<ge>n. Q i) \<longleftrightarrow> (\<forall>i\<ge>Suc n. Q i) \<and> Q n"
proof (intro iffI conjI allI impI; (elim conjE)?)
  fix i
  assume q: "\<forall>i\<ge>Suc n. Q i" "Q n" and i: "n \<le> i"
  show "Q i"
  proof (cases "i = n")
    case True
    then show ?thesis using q by simp
  next
    case False
    then show ?thesis using q i by simp
  qed
qed simp_all

lemma drop_bit_Suc_iff:
  "drop_bit n j = drop_bit n (k :: id32) \<longleftrightarrow> drop_bit (Suc n) j = drop_bit (Suc n) k \<and> bit j n = bit k n"
  unfolding drop_bit_eq_iff by (rule all_ge_Suc)

lemma in_halves:
  "fmlookup (lo n m) k \<noteq> None \<longleftrightarrow> fmlookup m k \<noteq> None \<and> \<not> bit k n"
  "fmlookup (hi n m) k \<noteq> None \<longleftrightarrow> fmlookup m k \<noteq> None \<and> bit k n"
  by simp_all

lemma same_path_halves:
  "same_path (Suc n) m \<Longrightarrow> same_path n (lo n m)" "same_path (Suc n) m \<Longrightarrow> same_path n (hi n m)"
  unfolding same_path_def in_halves using drop_bit_Suc_iff [of n] by blast+

lemma on_path_halves:
  "on_path (Suc n) key m \<Longrightarrow> bit key n \<Longrightarrow> on_path n key (hi n m)"
  "on_path (Suc n) key m \<Longrightarrow> \<not> bit key n \<Longrightarrow> on_path n key (lo n m)"
  unfolding on_path_def in_halves using drop_bit_Suc_iff [of n] by blast+

lemma top_path: "same_path 256 m" "on_path 256 key m"
proof -
  have "drop_bit 256 (k :: id32) = 0" for k
    by (rule bit_eqI) (auto simp: bit_drop_bit_eq dest: bit_imp_le_length)
  then show "same_path 256 m" "on_path 256 key m" by (simp_all add: same_path_def on_path_def)
qed

lemma same_path_single [simp]: "same_path n (fmupd k v fmempty)" "same_path n fmempty"
  by (simp_all add: same_path_def)

lemma on_path_upd: "on_path n key m \<Longrightarrow> same_path n (fmupd key v m)"
  by (simp add: on_path_def same_path_def)

lemma on_path_drop: "on_path n key m \<Longrightarrow> same_path n (fmdrop key m)"
  by (simp add: on_path_def same_path_def)

lemma on_path_0: "on_path 0 key m \<Longrightarrow> fmlookup m k = Some v \<Longrightarrow> k = key"
  by (auto simp: on_path_def)

lemma halves_ext:
  assumes "lo n m = lo n m'" and "hi n m = hi n m'"
  shows "m = m'"
proof (rule fmap_ext)
  fix k
  show "fmlookup m k = fmlookup m' k"
    using arg_cong [OF assms(1), of "\<lambda>x. fmlookup x k"] arg_cong [OF assms(2), of "\<lambda>x. fmlookup x k"]
    by (cases "bit k n") simp_all
qed

lemma halves_upd [simp]:
  "lo n (fmupd k v m) = (if bit k n then lo n m else fmupd k v (lo n m))"
  "hi n (fmupd k v m) = (if bit k n then fmupd k v (hi n m) else hi n m)"
  by (auto intro!: fmap_ext)

lemma halves_drop [simp]:
  "lo n (fmdrop k m) = (if bit k n then lo n m else fmdrop k (lo n m))"
  "hi n (fmdrop k m) = (if bit k n then fmdrop k (hi n m) else hi n m)"
  by (auto intro!: fmap_ext)

lemma halves_empty [simp]: "lo n fmempty = fmempty" "hi n fmempty = fmempty"
  by (auto intro!: fmap_ext)

lemma fm_entries_empty [simp]: "fm_entries fmempty = []"
  by (simp add: fm_entries_def sorted_list_of_fset.rep_eq)

lemma fm_entries_single [simp]: "fm_entries (fmupd k v fmempty) = [(k, v)]"
  by (simp add: fm_entries_def sorted_list_of_fset.rep_eq)

lemma tree_hash_empty [simp]: "tree_hash P n fmempty = default_hash P n"
  by (induction n) simp_all

lemma tree_hash_single [simp]: "tree_hash P n (fmupd k v fmempty) = single_leaf_hash P n k (hash_leaf P k v)"
  by (induction n) simp_all

lemma fm_entries_Nil_iff: "fm_entries m = [] \<longleftrightarrow> m = fmempty"
  by (metis fm_entries_empty fm_of_entries)

text \<open>At level 0 a map on one path is empty or a single entry.\<close>

lemma level_0:
  assumes "same_path 0 m"
  obtains "m = fmempty" | k v where "m = fmupd k v fmempty"
proof (cases "fm_entries m")
  case Nil
  then show ?thesis using that(1) by (simp add: fm_entries_Nil_iff)
next
  case (Cons kv kvs)
  obtain k v where kv: "kv = (k, v)" by (cases kv)
  then have k: "fmlookup m k = Some v" using Cons set_entries [of k v m] by simp
  have "m = fmupd k v fmempty"
  proof (rule fmap_ext)
    fix j
    show "fmlookup m j = fmlookup (fmupd k v fmempty) j"
    proof (cases "j = k")
      case True
      then show ?thesis using k by simp
    next
      case False
      then have "fmlookup m j = None" using assms k unfolding same_path_def by (metis drop_bit_0 id_apply option.distinct(1))
      then show ?thesis using False by simp
    qed
  qed
  then show ?thesis by (rule that(2))
qed

section \<open>Injectivity\<close>

lemma node_input_inject [simp]: "node_input l r = node_input l' r' \<longleftrightarrow> l = l' \<and> r = r'"
  by (auto simp: node_input_def)

lemma leaf_input_inject: "leaf_input P k v = leaf_input P k' v' \<longleftrightarrow> k = k' \<and> blake3 P v = blake3 P v'"
  by (auto simp: leaf_input_def)

lemma inputs_differ [simp]:
  "leaf_input P k v \<noteq> node_input l r" "node_input l r \<noteq> leaf_input P k v"
  "empty_input \<noteq> node_input l r" "node_input l r \<noteq> empty_input"
  "leaf_input P k v \<noteq> empty_input" "empty_input \<noteq> leaf_input P k v"
  by (simp_all add: leaf_input_def node_input_def empty_input_def ascii_def)

fun root_input :: "('g, 's, 'r) prims \<Rightarrow> nat \<Rightarrow> (id32, bytes) fmap \<Rightarrow> bytes" where
  "root_input P 0 m = (case fm_entries m of [] \<Rightarrow> empty_input | kv # _ \<Rightarrow> leaf_input P (fst kv) (snd kv))"
| "root_input P (Suc n) m = node_input (tree_hash P n (lo n m)) (tree_hash P n (hi n m))"

lemma root_input: "tree_hash P n m = blake3 P (root_input P n m)" "root_input P n m \<in> tree_inputs P n m"
  by (cases n; simp add: hash_leaf_def hash_internal_def split: list.split)+

lemma root_input_level: "root_input P 0 m \<noteq> root_input P (Suc n) m'" "root_input P (Suc n) m' \<noteq> root_input P 0 m"
  by (simp_all split: list.split)

lemma root_input_0:
  assumes inj: "inj_on (blake3 P) C" and C: "tree_inputs P 0 m \<subseteq> C" "tree_inputs P 0 m' \<subseteq> C"
    and path: "same_path 0 m" "same_path 0 m'" and eq: "root_input P 0 m = root_input P 0 m'"
  shows "m = m'"
proof (cases rule: level_0 [OF path(1)])
  case 1
  show ?thesis by (cases rule: level_0 [OF path(2)]) (use 1 eq in simp_all)
next
  case m: (2 k v)
  show ?thesis
  proof (cases rule: level_0 [OF path(2)])
    case 1
    then show ?thesis using eq m by simp
  next
    case (2 k' v')
    then have "k = k'" "blake3 P v = blake3 P v'" "v \<in> C" "v' \<in> C"
      using eq m C by (simp_all add: leaf_input_inject)
    then show ?thesis using m 2 inj_onD [OF inj, of v v'] by simp
  qed
qed

lemma tree_hash_inj:
  assumes inj: "inj_on (blake3 P) C"
    and "tree_inputs P n m \<subseteq> C" and "tree_inputs P n' m' \<subseteq> C"
    and "same_path n m" and "same_path n' m'" and "tree_hash P n m = tree_hash P n' m'"
  shows "n = n' \<and> m = m'"
  using assms(2-)
proof (induction n arbitrary: n' m m')
  case 0
  have eq: "root_input P 0 m = root_input P n' m'"
    using inj_onD [OF inj] root_input [of P 0 m] root_input [of P n' m'] 0 by auto
  then have "n' = 0" using root_input_level(1) [of P m] by (cases n') (auto simp del: root_input.simps)
  then show ?case using eq root_input_0 [OF inj, of m m'] 0 by simp
next
  case (Suc n)
  have eq: "root_input P (Suc n) m = root_input P n' m'"
    using inj_onD [OF inj] root_input [of P "Suc n" m] root_input [of P n' m'] Suc.prems by auto
  then obtain j where j: "n' = Suc j"
    using root_input_level(2) [of P n m] by (cases n') (auto simp del: root_input.simps)
  then have h: "tree_hash P n (lo n m) = tree_hash P j (lo j m')" "tree_hash P n (hi n m) = tree_hash P j (hi j m')"
    using eq by simp_all
  have "n = j \<and> lo n m = lo j m'" and "n = j \<and> hi n m = hi j m'"
    using Suc.prems j h by (intro Suc.IH; simp add: same_path_halves)+
  then show ?case using j halves_ext by auto
qed

text \<open>
  a state root commits to one map. If blake3 has no collision among the strings hashed in the
  full trees of two maps, the trees have the same root only when the maps are equal.
\<close>

theorem root_binds_contents:
  assumes "inj_on (blake3 P) (tree_inputs P KEY_BITS m \<union> tree_inputs P KEY_BITS m')"
    and "tree_hash P KEY_BITS m = tree_hash P KEY_BITS m'"
  shows "m = m'"
  using tree_hash_inj [OF assms(1) Un_upper1 Un_upper2 _ _ assms(2)] top_path by (simp add: KEY_BITS_def)

end
