(* ===== verification/SparseMerkle_Refines.thy ===== *)
theory SparseMerkle_Refines
  imports SparseMerkle
begin

text \<open>
  The operations of \<^verbatim>\<open>lat-store/src/smt.rs\<close> against the finite map the tree stands for: lookups, the
  insertion and the removal of a key, and the proofs and their verification.

  A stored node is a view of a map at its level: a leaf for a single entry, or an internal node
  whose children are the hashes of the two halves, each half empty or stored itself. A single entry
  may be stored either way: \<^verbatim>\<open>collapse\<close> looks for the leaf to pull up in the store and not in the batch
  being written, so after a removal a chain of internal nodes can stay above a lone leaf.
\<close>

section \<open>The invariant of the stored nodes\<close>

definition held :: "('g, 's, 'r) prims \<Rightarrow> (column \<Rightarrow> bytes \<Rightarrow> bytes option) \<Rightarrow> nat \<Rightarrow> (id32, bytes) fmap \<Rightarrow> bool" where
  "held P g n m \<longleftrightarrow> m = fmempty \<or> g ColState (be_bytes 32 (tree_hash P n m)) \<noteq> None"

fun node_view :: "('g, 's, 'r) prims \<Rightarrow> (column \<Rightarrow> bytes \<Rightarrow> bytes option) \<Rightarrow> nat \<Rightarrow> (id32, bytes) fmap \<Rightarrow> node \<Rightarrow> bool" where
  "node_view P g n m (SLeaf k v) \<longleftrightarrow> m = fmupd k v fmempty"
| "node_view P g n m (SInternal l r) \<longleftrightarrow> (case n of
      0 \<Rightarrow> False
    | Suc j \<Rightarrow> l = tree_hash P j (lo j m) \<and> r = tree_hash P j (hi j m) \<and> held P g j (lo j m) \<and> held P g j (hi j m))"

text \<open>\<open>fits\<close>: a map of keys on one path whose tree hashes only strings of the collision-free set.\<close>

definition fits :: "('g, 's, 'r) prims \<Rightarrow> bytes set \<Rightarrow> nat \<Rightarrow> (id32, bytes) fmap \<Rightarrow> bool" where
  "fits P C n m \<longleftrightarrow> same_path n m \<and> tree_inputs P n m \<subseteq> C"

definition trie_ok :: "('g, 's, 'r) prims \<Rightarrow> bytes set \<Rightarrow> (column \<Rightarrow> bytes \<Rightarrow> bytes option) \<Rightarrow> bool" where
  "trie_ok P C g \<longleftrightarrow> (\<forall>n m b. fits P C n m \<longrightarrow> g ColState (be_bytes 32 (tree_hash P n m)) = Some b \<longrightarrow>
     (\<exists>nd. node_decode b = Some nd \<and> node_view P g n m nd))"

text \<open>Nothing that was stored is lost, though it may be stored differently.\<close>

definition grows :: "(column \<Rightarrow> bytes \<Rightarrow> bytes option) \<Rightarrow> (column \<Rightarrow> bytes \<Rightarrow> bytes option) \<Rightarrow> bool" where
  "grows g g' \<longleftrightarrow> (\<forall>c k. g c k \<noteq> None \<longrightarrow> g' c k \<noteq> None)"

lemma grows_refl [simp]: "grows g g"
  by (simp add: grows_def)

lemma grows_trans: "grows g g' \<Longrightarrow> grows g' g'' \<Longrightarrow> grows g g''"
  by (simp add: grows_def)

lemma held_grows: "grows g g' \<Longrightarrow> held P g n m \<Longrightarrow> held P g' n m"
  by (auto simp: held_def grows_def)

lemma held_empty [simp]: "held P g n fmempty"
  by (simp add: held_def)

lemma node_view_grows: "grows g g' \<Longrightarrow> node_view P g n m nd \<Longrightarrow> node_view P g' n m nd"
  by (cases nd) (auto dest: held_grows split: nat.splits)

lemma fits_halves:
  assumes "fits P C (Suc n) m"
  shows "fits P C n (lo n m)" and "fits P C n (hi n m)"
  using assms by (auto simp: fits_def same_path_halves)

lemma fits_hash_eq:
  assumes "inj_on (blake3 P) C" and "fits P C n m" and "fits P C n' m'"
  shows "tree_hash P n m = tree_hash P n' m' \<longleftrightarrow> n = n' \<and> m = m'"
  using tree_hash_inj [OF assms(1), of n m n' m'] assms(2,3) by (auto simp: fits_def)

lemma fits_default:
  assumes "inj_on (blake3 P) C" and "fits P C n m" and "fits P C n fmempty"
  shows "tree_hash P n m = default_hash P n \<longleftrightarrow> m = fmempty"
  using fits_hash_eq [OF assms] by simp

lemma trie_okE:
  "trie_ok P C g \<Longrightarrow> fits P C n m \<Longrightarrow> g ColState (be_bytes 32 (tree_hash P n m)) = Some b \<Longrightarrow>
     \<exists>nd. node_decode b = Some nd \<and> node_view P g n m nd"
  unfolding trie_ok_def by blast

lemma trie_okD:
  assumes "trie_ok P C g" and "fits P C n m" and "held P g n m" and "m \<noteq> fmempty"
  obtains nd where "node_at g (tree_hash P n m) = Some nd" and "node_view P g n m nd"
proof -
  obtain b where "g ColState (be_bytes 32 (tree_hash P n m)) = Some b" using assms(3,4) by (auto simp: held_def)
  with trie_okE [OF assms(1,2) this] show ?thesis by (auto simp: node_at_def intro: that)
qed

lemma trie_ok_node:
  assumes "trie_ok P C g" and "fits P C n m" and "node_at g (tree_hash P n m) = Some nd"
  shows "node_view P g n m nd"
proof -
  obtain b where b: "g ColState (be_bytes 32 (tree_hash P n m)) = Some b" "node_decode b = Some nd"
    using assms(3) by (auto simp: node_at_def bind_eq_Some_conv)
  with trie_okE [OF assms(1,2) this(1)] show ?thesis by simp
qed

lemma trie_ok_empty [simp]: "trie_ok P C (\<lambda>c k. None)"
  by (simp add: trie_ok_def)

section \<open>Writing a node\<close>

text \<open>One more put: a view of some map at the hash of that map.\<close>

definition puts_node :: "('g, 's, 'r) prims \<Rightarrow> bytes set \<Rightarrow> (column \<Rightarrow> bytes \<Rightarrow> bytes option) \<Rightarrow> nat \<Rightarrow> (id32, bytes) fmap \<Rightarrow>
    id32 \<times> batch \<Rightarrow> bool" where
  "puts_node P C g n m hb \<longleftrightarrow> fst hb = tree_hash P n m \<and> trie_ok P C (after_batch g (snd hb)) \<and>
     grows g (after_batch g (snd hb)) \<and> held P (after_batch g (snd hb)) n m"

lemma puts_nodeD:
  assumes "puts_node P C g n m (h, b)"
  shows "h = tree_hash P n m" and "trie_ok P C (after_batch g b)" and "grows g (after_batch g b)"
    and "held P (after_batch g b) n m"
  using assms by (simp_all add: puts_node_def)

lemma put_node:
  assumes inj: "inj_on (blake3 P) C" and ok: "trie_ok P C (after_batch g b)" and grow: "grows g (after_batch g b)"
    and fit: "fits P C n m" and view: "node_view P (after_batch g b) n m nd"
  shows "puts_node P C g n m (tree_hash P n m,
    batch_put ColState (be_bytes 32 (tree_hash P n m)) (node_encode nd) b)"
proof -
  let ?b = "batch_put ColState (be_bytes 32 (tree_hash P n m)) (node_encode nd) b"
  have g: "grows (after_batch g b) (after_batch g ?b)" by (simp add: grows_def)
  have "trie_ok P C (after_batch g ?b)"
    unfolding trie_ok_def
  proof (intro allI impI)
    fix n' m' x
    assume fit': "fits P C n' m'" and x: "after_batch g ?b ColState (be_bytes 32 (tree_hash P n' m')) = Some x"
    show "\<exists>nd. node_decode x = Some nd \<and> node_view P (after_batch g ?b) n' m' nd"
    proof (cases "tree_hash P n' m' = tree_hash P n m")
      case True
      then have "n' = n" "m' = m" using fits_hash_eq [OF inj fit' fit] by simp_all
      moreover have "node_decode x = Some nd" using x True by auto
      ultimately show ?thesis using node_view_grows [OF g view] by blast
    next
      case False
      then have "after_batch g b ColState (be_bytes 32 (tree_hash P n' m')) = Some x" using x by simp
      then show ?thesis using ok fit' node_view_grows [OF g] unfolding trie_ok_def by blast
    qed
  qed
  then show ?thesis using grows_trans [OF grow g] by (simp add: puts_node_def held_def)
qed

lemma place_leaf_ok:
  assumes "inj_on (blake3 P) C" and "trie_ok P C (after_batch g b)" and "grows g (after_batch g b)"
    and "fits P C n (fmupd k v fmempty)"
  shows "puts_node P C g n (fmupd k v fmempty) (place_leaf P n k v b)"
  using put_node [OF assms, of "SLeaf k v"] by (simp add: place_leaf_def Let_def)

lemma store_internal_ok:
  assumes "inj_on (blake3 P) C" and "trie_ok P C (after_batch g b)" and "grows g (after_batch g b)"
    and "fits P C (Suc n) m" and "held P (after_batch g b) n (lo n m)" and "held P (after_batch g b) n (hi n m)"
  shows "puts_node P C g (Suc n) m (store_internal P (tree_hash P n (lo n m)) (tree_hash P n (hi n m)) b)"
  using put_node [OF assms(1-4), of "SInternal (tree_hash P n (lo n m)) (tree_hash P n (hi n m))"] assms(5,6)
  by (simp add: store_internal_def Let_def)

section \<open>Lookups\<close>

text \<open>What the recursions see at a node, by cases on the map it stands for.\<close>

lemma node_cases:
  assumes "inj_on (blake3 P) C" and "trie_ok P C g" and "fits P C n m" and "held P g n m" and "fits P C n fmempty"
  obtains (empty) "m = fmempty" "tree_hash P n m = default_hash P n"
  | (leaf) k v where "m = fmupd k v fmempty" "tree_hash P n m \<noteq> default_hash P n"
      "node_at g (tree_hash P n m) = Some (SLeaf k v)"
  | (internal) j where "n = Suc j" "tree_hash P n m \<noteq> default_hash P n"
      "node_at g (tree_hash P n m) = Some (SInternal (tree_hash P j (lo j m)) (tree_hash P j (hi j m)))"
      "fits P C j (lo j m)" "fits P C j (hi j m)" "held P g j (lo j m)" "held P g j (hi j m)" "fits P C j fmempty"
proof (cases "m = fmempty")
  case True
  then show ?thesis by (intro empty) simp_all
next
  case False
  then have ne: "tree_hash P n m \<noteq> default_hash P n" using fits_default [OF assms(1,3,5)] by simp
  obtain nd where nd: "node_at g (tree_hash P n m) = Some nd" "node_view P g n m nd"
    by (rule trie_okD [OF assms(2-4) False])
  show ?thesis
  proof (cases nd)
    case (SLeaf k v)
    then show ?thesis using nd ne by (intro leaf) simp_all
  next
    case (SInternal l r)
    then obtain j where j: "n = Suc j" using nd by (cases n) simp_all
    then have "fits P C j fmempty" using fits_halves [OF assms(5) [unfolded j]] by simp
    then show ?thesis using nd ne SInternal fits_halves [OF assms(3) [unfolded j]] j by (intro internal [of j]) simp_all
  qed
qed

lemma smt_find_step:
  "cur = default_hash P n \<Longrightarrow> smt_find P g n cur key = Inr None"
  "cur \<noteq> default_hash P n \<Longrightarrow> node_at g cur = Some (SLeaf k v) \<Longrightarrow>
     smt_find P g n cur key = Inr (if k = key then Some v else None)"
  "cur \<noteq> default_hash P (Suc j) \<Longrightarrow> node_at g cur = Some (SInternal l r) \<Longrightarrow>
     smt_find P g (Suc j) cur key = smt_find P g j (if bit key j then r else l) key"
  by (subst smt_find.simps, simp del: default_hash.simps)+

lemma smt_path_step:
  "cur = default_hash P n \<Longrightarrow> smt_path P g n cur key = Inr ([], TEmpty)"
  "cur \<noteq> default_hash P n \<Longrightarrow> node_at g cur = Some (SLeaf k v) \<Longrightarrow> smt_path P g n cur key = Inr ([], TLeaf k v)"
  "cur \<noteq> default_hash P (Suc j) \<Longrightarrow> node_at g cur = Some (SInternal l r) \<Longrightarrow>
     smt_path P g (Suc j) cur key = try_then (smt_path P g j (if bit key j then r else l) key)
       (\<lambda>(sibs, t). Inr ((if bit key j then l else r) # sibs, t))"
  by (subst smt_path.simps, simp del: default_hash.simps)+

lemma smt_find_ok:
  assumes "inj_on (blake3 P) C" and "trie_ok P C g"
    and "fits P C n m" and "held P g n m" and "fits P C n fmempty"
  shows "smt_find P g n (tree_hash P n m) key = Inr (fmlookup m key)"
  using assms(3-)
proof (induction n arbitrary: m)
  case 0
  show ?case
    by (rule node_cases [OF assms(1,2) 0]) (simp_all add: smt_find_step del: tree_hash.simps)
next
  case (Suc n)
  show ?case
    by (rule node_cases [OF assms(1,2) Suc.prems])
      (simp_all add: smt_find_step Suc.IH del: tree_hash.simps default_hash.simps)
qed

text \<open>A generated proof ends at the empty subtree or the leaf met on the way.\<close>

definition ends_at :: "(id32, bytes) fmap \<Rightarrow> id32 \<Rightarrow> terminal \<Rightarrow> bool" where
  "ends_at m key t = (case t of
       TEmpty \<Rightarrow> fmlookup m key = None
     | TLeaf k v \<Rightarrow> fmlookup m key = (if k = key then Some v else None))"

lemma smt_path_ok:
  assumes "inj_on (blake3 P) C" and "trie_ok P C g"
    and "fits P C n m" and "held P g n m" and "fits P C n fmempty"
  shows "\<exists>sibs t. smt_path P g n (tree_hash P n m) key = Inr (sibs, t) \<and> length sibs \<le> n \<and> ends_at m key t \<and>
    climb P key n sibs (terminal_hash P (n - length sibs) t) = tree_hash P n m"
  using assms(3-)
proof (induction n arbitrary: m)
  case 0
  show ?case
    by (rule node_cases [OF assms(1,2) 0])
      (simp_all add: smt_path_step ends_at_def terminal_hash_def del: tree_hash.simps)
next
  case (Suc n)
  show ?case
  proof (rule node_cases [OF assms(1,2) Suc.prems])
    fix j
    assume "Suc n = Suc j" and ne: "tree_hash P (Suc n) m \<noteq> default_hash P (Suc n)"
      and nd: "node_at g (tree_hash P (Suc n) m) = Some (SInternal (tree_hash P j (lo j m)) (tree_hash P j (hi j m)))"
      and sub: "fits P C j (lo j m)" "fits P C j (hi j m)" "held P g j (lo j m)" "held P g j (hi j m)" "fits P C j fmempty"
    then have j: "j = n" by simp
    note ih = Suc.IH [OF sub(1,3,5) [unfolded j]] Suc.IH [OF sub(2,4,5) [unfolded j]]
    show ?thesis
    proof (cases "bit key n")
      case True
      then obtain sibs t where p: "smt_path P g n (tree_hash P n (hi n m)) key = Inr (sibs, t)"
        and q: "length sibs \<le> n" "ends_at (hi n m) key t"
        "climb P key n sibs (terminal_hash P (n - length sibs) t) = tree_hash P n (hi n m)"
        using ih(2) by blast
      have "smt_path P g (Suc n) (tree_hash P (Suc n) m) key = Inr (tree_hash P n (lo n m) # sibs, t)"
        using ne nd True p by (simp add: smt_path_step(3) j del: tree_hash.simps default_hash.simps)
      then show ?thesis using q True by (simp add: ends_at_def split: terminal.splits)
    next
      case False
      then obtain sibs t where p: "smt_path P g n (tree_hash P n (lo n m)) key = Inr (sibs, t)"
        and q: "length sibs \<le> n" "ends_at (lo n m) key t"
        "climb P key n sibs (terminal_hash P (n - length sibs) t) = tree_hash P n (lo n m)"
        using ih(1) by blast
      have "smt_path P g (Suc n) (tree_hash P (Suc n) m) key = Inr (tree_hash P n (hi n m) # sibs, t)"
        using ne nd False p by (simp add: smt_path_step(3) j del: tree_hash.simps default_hash.simps)
      then show ?thesis using q False by (simp add: ends_at_def split: terminal.splits)
    qed
  qed (simp_all add: smt_path_step ends_at_def terminal_hash_def del: tree_hash.simps default_hash.simps)
qed

section \<open>Insertion\<close>

lemma smt_upsert_step:
  "h = default_hash P n \<Longrightarrow> smt_upsert P g n h key v b = Inr (place_leaf P n key v b)"
  "h \<noteq> default_hash P n \<Longrightarrow> node_at g h = Some (SLeaf k w) \<Longrightarrow>
     smt_upsert P g n h key v b = (if k = key then Inr (place_leaf P n key v b) else smt_split P n key v k w b)"
  "h \<noteq> default_hash P (Suc j) \<Longrightarrow> node_at g h = Some (SInternal l r) \<Longrightarrow>
     smt_upsert P g (Suc j) h key v b =
       (if bit key j then try_then (smt_upsert P g j r key v b) (\<lambda>(r', b1). Inr (store_internal P l r' b1))
        else try_then (smt_upsert P g j l key v b) (\<lambda>(l', b1). Inr (store_internal P l' r b1)))"
  by (subst smt_upsert.simps, simp del: default_hash.simps)+

text \<open>A step that put the tree of one half, then the node above it.\<close>

lemma store_above:
  assumes inj: "inj_on (blake3 P) C" and fit: "fits P C (Suc n) m"
    and put: "puts_node P C g n m1 (h, b)"
    and m1: "(m1 = lo n m \<and> held P g n (hi n m)) \<or> (m1 = hi n m \<and> held P g n (lo n m))"
  shows "puts_node P C g (Suc n) m
    (store_internal P (tree_hash P n (lo n m)) (tree_hash P n (hi n m)) b)"
  using m1 held_grows [OF puts_nodeD(3) [OF put]] puts_nodeD(4) [OF put]
  by (intro store_internal_ok [OF inj puts_nodeD(2,3) [OF put] fit]) auto

lemma single_comm: "k \<noteq> k' \<Longrightarrow> fmupd k v (fmupd k' v' fmempty) = fmupd k' v' (fmupd k v fmempty)"
  by (auto intro: fmap_ext)

lemma smt_split_ok:
  assumes inj: "inj_on (blake3 P) C" and "ka \<noteq> kb" and "drop_bit n ka = drop_bit n kb"
    and "trie_ok P C (after_batch g b)" and "grows g (after_batch g b)"
    and "fits P C n (fmupd ka va (fmupd kb vb fmempty))"
  shows "\<exists>hb. smt_split P n ka va kb vb b = Inr hb \<and> puts_node P C g n (fmupd ka va (fmupd kb vb fmempty)) hb"
  using assms(3-)
proof (induction n)
  case 0
  then show ?case using assms(2) by simp
next
  case (Suc n)
  let ?m = "fmupd ka va (fmupd kb vb fmempty)"
  note sub = fits_halves [OF Suc.prems(4)]
  show ?case
  proof (cases "bit ka n = bit kb n")
    case True
    then have "drop_bit n ka = drop_bit n kb" using Suc.prems(1) drop_bit_Suc_iff by blast
    moreover have "fits P C n ?m" using sub True by (cases "bit ka n") simp_all
    ultimately obtain h b1 where s: "smt_split P n ka va kb vb b = Inr (h, b1)" and p: "puts_node P C g n ?m (h, b1)"
      using Suc by (metis surj_pair)
    have "puts_node P C g (Suc n) ?m (store_internal P (tree_hash P n (lo n ?m)) (tree_hash P n (hi n ?m)) b1)"
      by (rule store_above [OF inj Suc.prems(4) p]) (use True in auto)
    then show ?thesis using s True puts_nodeD(1) [OF p] by (cases "bit ka n") simp_all
  next
    case False
    have fa: "fits P C n (fmupd ka va fmempty)" and fb: "fits P C n (fmupd kb vb fmempty)"
      using sub False by (cases "bit ka n"; cases "bit kb n"; simp)+
    obtain ha b1 where a: "place_leaf P n ka va b = (ha, b1)" by fastforce
    note pa = place_leaf_ok [OF inj Suc.prems(2,3) fa, unfolded a]
    obtain hb b2 where b: "place_leaf P n kb vb b1 = (hb, b2)" by fastforce
    note pb = place_leaf_ok [OF inj puts_nodeD(2,3) [OF pa] fb, unfolded b]
    have ha: "held P (after_batch g b2) n (fmupd ka va fmempty)"
    proof -
      have "grows (after_batch g b1) (after_batch g b2)"
        using b by (auto simp: place_leaf_def Let_def grows_def)
      then show ?thesis using held_grows puts_nodeD(4) [OF pa] by blast
    qed
    have "puts_node P C g (Suc n) ?m (store_internal P (tree_hash P n (lo n ?m)) (tree_hash P n (hi n ?m)) b2)"
      by (rule store_internal_ok [OF inj puts_nodeD(2,3) [OF pb] Suc.prems(4)])
        (use False ha puts_nodeD(4) [OF pb] in \<open>cases "bit ka n"; simp\<close>)+
    moreover have "smt_split P (Suc n) ka va kb vb b =
        Inr (store_internal P (tree_hash P n (lo n ?m)) (tree_hash P n (hi n ?m)) b2)"
      using False a b puts_nodeD(1) [OF pa] puts_nodeD(1) [OF pb] by (cases "bit ka n") simp_all
    ultimately show ?thesis by blast
  qed
qed

lemma smt_upsert_ok:
  assumes inj: "inj_on (blake3 P) C" and ok: "trie_ok P C g"
    and b: "trie_ok P C (after_batch g b)" "grows g (after_batch g b)"
    and "fits P C n m" and "held P g n m" and "fits P C n fmempty" and "fits P C n (fmupd key v m)"
  shows "\<exists>hb. smt_upsert P g n (tree_hash P n m) key v b = Inr hb \<and> puts_node P C g n (fmupd key v m) hb"
  using assms(5-)
proof (induction n arbitrary: m)
  case 0
  show ?case
  proof (rule node_cases [OF inj ok 0(1-3)])
    assume "m = fmempty" "tree_hash P 0 m = default_hash P 0"
    then show ?case using 0 place_leaf_ok [OF inj b] by (simp add: smt_upsert_step(1) del: tree_hash.simps default_hash.simps)
  next
    fix k w
    assume m: "m = fmupd k w fmempty" and ne: "tree_hash P 0 m \<noteq> default_hash P 0"
      "node_at g (tree_hash P 0 m) = Some (SLeaf k w)"
    have "k = key" using 0(4) m by (auto simp: fits_def same_path_def split: if_splits)
    then have "smt_upsert P g 0 (tree_hash P 0 m) key v b = Inr (place_leaf P 0 key v b)"
      using smt_upsert_step(2) [OF ne] by simp
    moreover have "puts_node P C g 0 (fmupd key v m) (place_leaf P 0 key v b)"
      using place_leaf_ok [OF inj b, of 0 key v] 0(4) m \<open>k = key\<close> by simp
    ultimately show ?case by blast
  qed simp
next
  case (Suc n)
  show ?case
  proof (rule node_cases [OF inj ok Suc.prems(1-3)])
    assume "m = fmempty" "tree_hash P (Suc n) m = default_hash P (Suc n)"
    then show ?case using Suc.prems place_leaf_ok [OF inj b]
      by (simp add: smt_upsert_step(1) del: tree_hash.simps default_hash.simps)
  next
    fix k w
    assume m: "m = fmupd k w fmempty" and ne: "tree_hash P (Suc n) m \<noteq> default_hash P (Suc n)"
      "node_at g (tree_hash P (Suc n) m) = Some (SLeaf k w)"
    show ?case
    proof (cases "k = key")
      case True
      then have "smt_upsert P g (Suc n) (tree_hash P (Suc n) m) key v b = Inr (place_leaf P (Suc n) key v b)"
        using smt_upsert_step(2) [OF ne] by simp
      moreover have "puts_node P C g (Suc n) (fmupd key v m) (place_leaf P (Suc n) key v b)"
        using place_leaf_ok [OF inj b, of "Suc n" key v] Suc.prems(4) m True by simp
      ultimately show ?thesis by blast
    next
      case False
      have "drop_bit (Suc n) key = drop_bit (Suc n) k"
        using Suc.prems(4) m by (auto simp: fits_def same_path_def)
      then have "\<exists>hb. smt_split P (Suc n) key v k w b = Inr hb \<and> puts_node P C g (Suc n) (fmupd key v m) hb"
        using smt_split_ok [OF inj _ _ b, of key k "Suc n" v w] False Suc.prems(4) m by simp
      then show ?thesis using False by (simp add: smt_upsert_step(2) [OF ne] del: smt_split.simps tree_hash.simps)
    qed
  next
    fix j
    assume "Suc n = Suc j" and ne: "tree_hash P (Suc n) m \<noteq> default_hash P (Suc n)"
      and nd: "node_at g (tree_hash P (Suc n) m) = Some (SInternal (tree_hash P j (lo j m)) (tree_hash P j (hi j m)))"
      and sub: "fits P C j (lo j m)" "fits P C j (hi j m)" "held P g j (lo j m)" "held P g j (hi j m)" "fits P C j fmempty"
    then have j: "j = n" by simp
    let ?m = "fmupd key v m"
    note new = fits_halves [OF Suc.prems(4)]
    show ?case
    proof (cases "bit key n")
      case True
      then obtain h b1 where s: "smt_upsert P g n (tree_hash P n (hi n m)) key v b = Inr (h, b1)"
        and p: "puts_node P C g n (hi n ?m) (h, b1)"
        using Suc.IH [OF sub(2,4,5) [unfolded j]] new by auto
      have "puts_node P C g (Suc n) ?m (store_internal P (tree_hash P n (lo n ?m)) (tree_hash P n (hi n ?m)) b1)"
        by (rule store_above [OF inj Suc.prems(4) p]) (use True sub j in auto)
      then show ?thesis using True s puts_nodeD(1) [OF p]
        by (simp add: smt_upsert_step(3) [OF ne nd [unfolded j]] del: tree_hash.simps default_hash.simps)
    next
      case False
      then obtain h b1 where s: "smt_upsert P g n (tree_hash P n (lo n m)) key v b = Inr (h, b1)"
        and p: "puts_node P C g n (lo n ?m) (h, b1)"
        using Suc.IH [OF sub(1,3,5) [unfolded j]] new by auto
      have "puts_node P C g (Suc n) ?m (store_internal P (tree_hash P n (lo n ?m)) (tree_hash P n (hi n ?m)) b1)"
        by (rule store_above [OF inj Suc.prems(4) p]) (use False sub j in auto)
      then show ?thesis using False s puts_nodeD(1) [OF p]
        by (simp add: smt_upsert_step(3) [OF ne nd [unfolded j]] del: tree_hash.simps default_hash.simps)
    qed
  qed
qed

section \<open>Removal\<close>

lemma smt_delete_step:
  "h = default_hash P n \<Longrightarrow> smt_delete P g n h key b = Inr (h, b)"
  "h \<noteq> default_hash P n \<Longrightarrow> node_at g h = Some (SLeaf k w) \<Longrightarrow>
     smt_delete P g n h key b = Inr (if k = key then default_hash P n else h, b)"
  "h \<noteq> default_hash P (Suc j) \<Longrightarrow> node_at g h = Some (SInternal l r) \<Longrightarrow>
     smt_delete P g (Suc j) h key b =
       (if bit key j then try_then (smt_delete P g j r key b) (\<lambda>(r', b1). Inr (smt_collapse P g j l r' b1))
        else try_then (smt_delete P g j l key b) (\<lambda>(l', b1). Inr (smt_collapse P g j l' r b1)))"
  by (subst smt_delete.simps, simp del: default_hash.simps)+

lemma fmdrop_single [simp]:
  "fmdrop j (fmupd k v fmempty) = (if j = k then fmempty else fmupd k v fmempty)"
  by (auto intro!: fmap_ext)

lemma single_half:
  "lo n m = fmupd k v fmempty \<Longrightarrow> \<not> bit k n" "hi n m = fmupd k v fmempty \<Longrightarrow> bit k n"
  using in_halves [where n = n and m = m and k = k] by simp_all

text \<open>Nothing is put when the whole subtree is gone.\<close>

lemma puts_nothing:
  "trie_ok P C (after_batch g b) \<Longrightarrow> grows g (after_batch g b) \<Longrightarrow> puts_node P C g n fmempty (default_hash P n, b)"
  by (simp add: puts_node_def)

lemma smt_collapse_ok:
  assumes inj: "inj_on (blake3 P) C" and ok: "trie_ok P C g"
    and b: "trie_ok P C (after_batch g b)" "grows g (after_batch g b)"
    and fit: "fits P C (Suc n) m" "fits P C n fmempty"
    and half: "held P (after_batch g b) n (lo n m)" "held P (after_batch g b) n (hi n m)"
  shows "puts_node P C g (Suc n) m (smt_collapse P g n (tree_hash P n (lo n m)) (tree_hash P n (hi n m)) b)"
proof -
  let ?l = "tree_hash P n (lo n m)" and ?r = "tree_hash P n (hi n m)"
  note sub = fits_halves [OF fit(1)]
  note l = fits_default [OF inj sub(1) fit(2)] and r = fits_default [OF inj sub(2) fit(2)]
  have keep: "puts_node P C g (Suc n) m (store_internal P ?l ?r b)"
    by (rule store_internal_ok [OF inj b fit(1) half])
  have lift: "puts_node P C g (Suc n) m (place_leaf P (Suc n) k v b)" if "m = fmupd k v fmempty" for k v
    using place_leaf_ok [OF inj b, of "Suc n" k v] fit(1) that by simp
  show ?thesis
  proof (cases "lo n m = fmempty"; cases "hi n m = fmempty")
    assume e: "lo n m = fmempty" "hi n m = fmempty"
    then have "m = fmempty" by - (rule halves_ext [of n], simp_all)
    then show ?thesis using puts_nothing [OF b, of "Suc n"] e by (simp add: smt_collapse_def)
  next
    assume e: "lo n m = fmempty" "hi n m \<noteq> fmempty"
    have c: "smt_collapse P g n ?l ?r b = (case node_at g ?r of
        Some (SLeaf k v) \<Rightarrow> place_leaf P (Suc n) k v b | _ \<Rightarrow> store_internal P ?l ?r b)"
      using e r by (simp add: smt_collapse_def split: option.split node.split)
    have "m = fmupd k v fmempty" if "node_at g ?r = Some (SLeaf k v)" for k v
    proof -
      have "hi n m = fmupd k v fmempty" using trie_ok_node [OF ok sub(2) that] by simp
      moreover from this have "bit k n" by (rule single_half)
      ultimately show ?thesis using e by - (rule halves_ext [of n], simp_all)
    qed
    then show ?thesis unfolding c using keep lift by (auto split: option.split node.split)
  next
    assume e: "lo n m \<noteq> fmempty" "hi n m = fmempty"
    have c: "smt_collapse P g n ?l ?r b = (case node_at g ?l of
        Some (SLeaf k v) \<Rightarrow> place_leaf P (Suc n) k v b | _ \<Rightarrow> store_internal P ?l ?r b)"
      using e l by (simp add: smt_collapse_def split: option.split node.split)
    have "m = fmupd k v fmempty" if "node_at g ?l = Some (SLeaf k v)" for k v
    proof -
      have "lo n m = fmupd k v fmempty" using trie_ok_node [OF ok sub(1) that] by simp
      moreover from this have "\<not> bit k n" by (rule single_half)
      ultimately show ?thesis using e by - (rule halves_ext [of n], simp_all)
    qed
    then show ?thesis unfolding c using keep lift by (auto split: option.split node.split)
  next
    assume "lo n m \<noteq> fmempty" "hi n m \<noteq> fmempty"
    then show ?thesis using keep l r by (simp add: smt_collapse_def)
  qed
qed

lemma smt_delete_ok:
  assumes inj: "inj_on (blake3 P) C" and ok: "trie_ok P C g"
    and b: "trie_ok P C (after_batch g b)" "grows g (after_batch g b)"
    and "fits P C n m" and "held P g n m" and "fits P C n fmempty" and "fits P C n (fmdrop key m)"
  shows "\<exists>hb. smt_delete P g n (tree_hash P n m) key b = Inr hb \<and> puts_node P C g n (fmdrop key m) hb"
  using assms(5-)
proof (induction n arbitrary: m)
  case 0
  show ?case
  proof (rule node_cases [OF inj ok 0(1-3)])
    assume m: "m = fmempty"
    then show ?case using puts_nothing [OF b, of 0] by (simp add: smt_delete_step(1) del: tree_hash.simps default_hash.simps)
  next
    fix k w
    assume m: "m = fmupd k w fmempty" and ne: "tree_hash P 0 m \<noteq> default_hash P 0"
      "node_at g (tree_hash P 0 m) = Some (SLeaf k w)"
    have "smt_delete P g 0 (tree_hash P 0 m) key b = Inr (if k = key then default_hash P 0 else tree_hash P 0 m, b)"
      by (rule smt_delete_step(2) [OF ne])
    moreover have "puts_node P C g 0 (fmdrop key m) (if k = key then default_hash P 0 else tree_hash P 0 m, b)"
      using puts_nothing [OF b, of 0] b m held_grows [OF b(2) 0(2)]
      by (auto simp: puts_node_def simp del: tree_hash.simps default_hash.simps)
    ultimately show ?case by blast
  qed simp
next
  case (Suc n)
  show ?case
  proof (rule node_cases [OF inj ok Suc.prems(1-3)])
    assume "m = fmempty"
    then show ?case using puts_nothing [OF b, of "Suc n"] by (simp add: smt_delete_step(1) del: tree_hash.simps default_hash.simps)
  next
    fix k w
    assume m: "m = fmupd k w fmempty" and ne: "tree_hash P (Suc n) m \<noteq> default_hash P (Suc n)"
      "node_at g (tree_hash P (Suc n) m) = Some (SLeaf k w)"
    have "smt_delete P g (Suc n) (tree_hash P (Suc n) m) key b =
        Inr (if k = key then default_hash P (Suc n) else tree_hash P (Suc n) m, b)"
      by (rule smt_delete_step(2) [OF ne])
    moreover have "puts_node P C g (Suc n) (fmdrop key m)
        (if k = key then default_hash P (Suc n) else tree_hash P (Suc n) m, b)"
      using puts_nothing [OF b, of "Suc n"] b m held_grows [OF b(2) Suc.prems(2)]
      by (auto simp: puts_node_def simp del: tree_hash.simps default_hash.simps)
    ultimately show ?case by blast
  next
    fix j
    assume "Suc n = Suc j" and ne: "tree_hash P (Suc n) m \<noteq> default_hash P (Suc n)"
      and nd: "node_at g (tree_hash P (Suc n) m) = Some (SInternal (tree_hash P j (lo j m)) (tree_hash P j (hi j m)))"
      and sub: "fits P C j (lo j m)" "fits P C j (hi j m)" "held P g j (lo j m)" "held P g j (hi j m)" "fits P C j fmempty"
    then have j: "j = n" by simp
    let ?m = "fmdrop key m"
    note new = fits_halves [OF Suc.prems(4)]
    show ?case
    proof (cases "bit key n")
      case True
      then obtain h b1 where s: "smt_delete P g n (tree_hash P n (hi n m)) key b = Inr (h, b1)"
        and p: "puts_node P C g n (hi n ?m) (h, b1)"
        using Suc.IH [OF sub(2,4,5) [unfolded j]] new by auto
      have "puts_node P C g (Suc n) ?m (smt_collapse P g n (tree_hash P n (lo n ?m)) (tree_hash P n (hi n ?m)) b1)"
        by (rule smt_collapse_ok [OF inj ok puts_nodeD(2,3) [OF p] Suc.prems(4) sub(5) [unfolded j] _ puts_nodeD(4) [OF p]])
          (use True held_grows [OF puts_nodeD(3) [OF p] sub(3)] j in simp)
      then show ?thesis using True s puts_nodeD(1) [OF p]
        by (simp add: smt_delete_step(3) [OF ne nd [unfolded j]] del: tree_hash.simps default_hash.simps)
    next
      case False
      then obtain h b1 where s: "smt_delete P g n (tree_hash P n (lo n m)) key b = Inr (h, b1)"
        and p: "puts_node P C g n (lo n ?m) (h, b1)"
        using Suc.IH [OF sub(1,3,5) [unfolded j]] new by auto
      have "puts_node P C g (Suc n) ?m (smt_collapse P g n (tree_hash P n (lo n ?m)) (tree_hash P n (hi n ?m)) b1)"
        by (rule smt_collapse_ok [OF inj ok puts_nodeD(2,3) [OF p] Suc.prems(4) sub(5) [unfolded j] puts_nodeD(4) [OF p]])
          (use False held_grows [OF puts_nodeD(3) [OF p] sub(4)] j in simp)
      then show ?thesis using False s puts_nodeD(1) [OF p]
        by (simp add: smt_delete_step(3) [OF ne nd [unfolded j]] del: tree_hash.simps default_hash.simps)
    qed
  qed
qed

section \<open>Verification\<close>

text \<open>The strings that \<^verbatim>\<open>compute_root\<close> hashes, with the tree its terminal stands for.\<close>

definition terminal_map :: "terminal \<Rightarrow> (id32, bytes) fmap" where
  "terminal_map t = (case t of TEmpty \<Rightarrow> fmempty | TLeaf k v \<Rightarrow> fmupd k v fmempty)"

fun climb_inputs :: "('g, 's, 'r) prims \<Rightarrow> id32 \<Rightarrow> nat \<Rightarrow> id32 list \<Rightarrow> terminal \<Rightarrow> bytes set" where
  "climb_inputs P key n [] t = tree_inputs P n (terminal_map t)"
| "climb_inputs P key n (sib # sibs) t =
    (let below = climb P key (n - 1) sibs (terminal_hash P (n - 1 - length sibs) t) in
     insert (if bit key (n - 1) then node_input sib below else node_input below sib)
       (climb_inputs P key (n - 1) sibs t))"

lemma terminal_hash_map: "terminal_hash P n t = tree_hash P n (terminal_map t)"
  by (simp add: terminal_hash_def terminal_map_def split: terminal.split)

lemma climb_sound:
  assumes inj: "inj_on (blake3 P) C" and "length sibs \<le> n" and "fits P C n m" and "climb_inputs P key n sibs t \<subseteq> C"
    and "climb P key n sibs (terminal_hash P (n - length sibs) t) = tree_hash P n m"
  shows "ends_at m key t"
  using assms(2-)
proof (induction sibs arbitrary: n m)
  case Nil
  have "fits P C n (terminal_map t)"
    using Nil.prems(3) by (simp add: fits_def terminal_map_def split: terminal.split)
  from fits_hash_eq [OF inj this Nil.prems(2)] have "m = terminal_map t"
    using Nil.prems(4) by (simp add: terminal_hash_map)
  then show ?case by (auto simp: ends_at_def terminal_map_def split: terminal.split)
next
  case (Cons sib sibs)
  obtain j where n: "n = Suc j" using Cons.prems(1) by (cases n) simp_all
  let ?below = "climb P key j sibs (terminal_hash P (j - length sibs) t)"
  note sub = fits_halves [OF Cons.prems(2) [unfolded n]]
  have top: "node_input (tree_hash P j (lo j m)) (tree_hash P j (hi j m)) \<in> C"
    using Cons.prems(2) by (simp add: fits_def n)
  show ?case
  proof (cases "bit key j")
    case True
    then have "node_input sib ?below = node_input (tree_hash P j (lo j m)) (tree_hash P j (hi j m))"
      using Cons.prems(3,4) by (intro inj_onD [OF inj _ _ top]) (simp_all add: n hash_internal_def Let_def)
    then have "ends_at (hi j m) key t" using Cons.IH [of j, OF _ sub(2)] Cons.prems(1,3) by (simp add: n Let_def)
    then show ?thesis using True by (simp add: ends_at_def split: terminal.splits)
  next
    case False
    then have "node_input ?below sib = node_input (tree_hash P j (lo j m)) (tree_hash P j (hi j m))"
      using Cons.prems(3,4) by (intro inj_onD [OF inj _ _ top]) (simp_all add: n hash_internal_def Let_def)
    then have "ends_at (lo j m) key t" using Cons.IH [of j, OF _ sub(1)] Cons.prems(1,3) by (simp add: n Let_def)
    then show ?thesis using False by (simp add: ends_at_def split: terminal.splits)
  qed
qed

text \<open>Whatever the terminal, the check against it decides what the map holds.\<close>

lemma ends_at_verdict:
  assumes "ends_at m key (mp_terminal pf)" and "length (mp_siblings pf) \<le> KEY_BITS" and "compute_root P pf key = root"
  shows "smt_verify P root key expected pf \<longleftrightarrow> expected = fmlookup m key"
  using assms by (auto simp: smt_verify_def ends_at_def split: terminal.splits option.splits if_splits)

section \<open>A trie over a store\<close>

text \<open>\<open>trie_at P C g root m\<close>: the store read by \<open>g\<close> holds the trie of \<open>m\<close>, whose root is \<open>root\<close>.\<close>

definition trie_at :: "('g, 's, 'r) prims \<Rightarrow> bytes set \<Rightarrow> (column \<Rightarrow> bytes \<Rightarrow> bytes option) \<Rightarrow> id32 \<Rightarrow>
    (id32, bytes) fmap \<Rightarrow> bool" where
  "trie_at P C g root m \<longleftrightarrow> trie_ok P C g \<and> root = tree_hash P KEY_BITS m \<and> tree_inputs P KEY_BITS m \<subseteq> C \<and>
     held P g KEY_BITS m"

text \<open>A set of strings on which blake3 has no collision, and which the empty trie hashes.\<close>

definition collision_free :: "('g, 's, 'r) prims \<Rightarrow> bytes set \<Rightarrow> bool" where
  "collision_free P C \<longleftrightarrow> inj_on (blake3 P) C \<and> tree_inputs P KEY_BITS fmempty \<subseteq> C"

lemma fits_top: "tree_inputs P KEY_BITS m \<subseteq> C \<Longrightarrow> fits P C KEY_BITS m"
  by (simp add: fits_def KEY_BITS_def top_path del: tree_inputs.simps)

lemma trie_atD:
  assumes "trie_at P C g root m"
  shows "trie_ok P C g" and "root = tree_hash P KEY_BITS m" and "fits P C KEY_BITS m" and "held P g KEY_BITS m"
  using assms fits_top by (auto simp: trie_at_def)

lemma collision_freeD:
  assumes "collision_free P C"
  shows "inj_on (blake3 P) C" and "fits P C KEY_BITS fmempty"
  using assms fits_top by (auto simp: collision_free_def)

lemma trie_at_empty: "collision_free P C \<Longrightarrow> trie_at P C (\<lambda>c k. None) (empty_root P) fmempty"
  by (simp add: trie_at_def collision_free_def empty_root_def del: tree_inputs.simps)

lemma smt_get_ok:
  "collision_free P C \<Longrightarrow> trie_at P C g root m \<Longrightarrow> smt_get P g root key = Inr (fmlookup m key)"
  using smt_find_ok [of P C g KEY_BITS m key] trie_atD [of P C g root m] collision_freeD [of P C]
  by (simp add: smt_get_def)

lemma trie_at_put:
  assumes "puts_node P C g KEY_BITS m' (h, b)" and "tree_inputs P KEY_BITS m' \<subseteq> C" and "trie_at P C g root m"
  shows "trie_at P C (after_batch g b) h m'" and "trie_at P C (after_batch g b) root m"
  using assms puts_nodeD [OF assms(1)] held_grows [OF puts_nodeD(3) [OF assms(1)], of P KEY_BITS m]
  by (simp_all add: trie_at_def)

lemma smt_update_ok:
  assumes "collision_free P C" and "trie_at P C g root m" and "tree_inputs P KEY_BITS (fmupd key v m) \<subseteq> C"
  obtains root' b where "smt_update P g root key v = Inr (root', b)"
    and "puts_node P C g KEY_BITS (fmupd key v m) (root', b)"
  using smt_upsert_ok [OF collision_freeD(1) [OF assms(1)] trie_atD(1) [OF assms(2)], of "[]" KEY_BITS m key v]
    trie_atD [OF assms(2)] collision_freeD(2) [OF assms(1)] fits_top [OF assms(3)]
  by (auto simp: smt_update_def)

lemma smt_remove_ok:
  assumes "collision_free P C" and "trie_at P C g root m" and "tree_inputs P KEY_BITS (fmdrop key m) \<subseteq> C"
  obtains root' b where "smt_remove P g root key = Inr (root', b)"
    and "puts_node P C g KEY_BITS (fmdrop key m) (root', b)"
  using smt_delete_ok [OF collision_freeD(1) [OF assms(1)] trie_atD(1) [OF assms(2)], of "[]" KEY_BITS m key]
    trie_atD [OF assms(2)] collision_freeD(2) [OF assms(1)] fits_top [OF assms(3)]
  by (auto simp: smt_remove_def)

lemma merkle_complete:
  assumes "collision_free P C" and "trie_at P C g root m"
  shows "\<exists>pf. smt_prove P g root key = Inr pf \<and> (\<forall>expected. smt_verify P root key expected pf \<longleftrightarrow> expected = fmlookup m key)"
proof -
  obtain sibs t where p: "smt_path P g KEY_BITS (tree_hash P KEY_BITS m) key = Inr (sibs, t)" "length sibs \<le> KEY_BITS"
    "ends_at m key t" "climb P key KEY_BITS sibs (terminal_hash P (KEY_BITS - length sibs) t) = tree_hash P KEY_BITS m"
    using smt_path_ok [OF collision_freeD(1) [OF assms(1)] trie_atD(1,3,4) [OF assms(2)] collision_freeD(2) [OF assms(1)]]
    by blast
  then have "smt_verify P root key e \<lparr>mp_siblings = sibs, mp_terminal = t\<rparr> \<longleftrightarrow> e = fmlookup m key" for e
    using trie_atD(2) [OF assms(2)] by (intro ends_at_verdict) (simp_all add: compute_root_def)
  then show ?thesis using p(1) trie_atD(2) [OF assms(2)] by (simp add: smt_prove_def)
qed

lemma merkle_sound:
  assumes "collision_free P C" and "tree_inputs P KEY_BITS m \<subseteq> C"
    and "climb_inputs P key KEY_BITS (mp_siblings pf) (mp_terminal pf) \<subseteq> C"
    and "smt_verify P (tree_hash P KEY_BITS m) key expected pf"
  shows "expected = fmlookup m key"
proof -
  have v: "length (mp_siblings pf) \<le> KEY_BITS" "compute_root P pf key = tree_hash P KEY_BITS m"
    using assms(4) by (simp_all add: smt_verify_def split: if_splits)
  then have "ends_at m key (mp_terminal pf)"
    using climb_sound [OF collision_freeD(1) [OF assms(1)] v(1) fits_top [OF assms(2)] assms(3)]
    by (simp add: compute_root_def)
  then show ?thesis using ends_at_verdict v assms(4) by blast
qed

text \<open>Over any store: the batch that an update returns, once written, is the trie of the updated map.\<close>

context kv_store
begin

lemma update_refines:
  assumes "collision_free P C" and "inv s" and "trie_at P C (get s) root m"
    and "tree_inputs P KEY_BITS (fmupd key v m) \<subseteq> C"
  shows "\<exists>root' b. smt_update P (get s) root key v = Inr (root', b) \<and>
    trie_at P C (get (commit s b)) root' (fmupd key v m) \<and> trie_at P C (get (commit s b)) root m"
proof -
  obtain root' b where "smt_update P (get s) root key v = Inr (root', b)"
    and p: "puts_node P C (get s) KEY_BITS (fmupd key v m) (root', b)"
    by (rule smt_update_ok [OF assms(1,3,4)])
  with trie_at_put [OF p assms(4,3)] show ?thesis using assms(2) by (auto simp: get_commit)
qed

lemma remove_refines:
  assumes "collision_free P C" and "inv s" and "trie_at P C (get s) root m"
    and "tree_inputs P KEY_BITS (fmdrop key m) \<subseteq> C"
  shows "\<exists>root' b. smt_remove P (get s) root key = Inr (root', b) \<and>
    trie_at P C (get (commit s b)) root' (fmdrop key m) \<and> trie_at P C (get (commit s b)) root m"
proof -
  obtain root' b where "smt_remove P (get s) root key = Inr (root', b)"
    and p: "puts_node P C (get s) KEY_BITS (fmdrop key m) (root', b)"
    by (rule smt_remove_ok [OF assms(1,3,4)])
  with trie_at_put [OF p assms(4,3)] show ?thesis using assms(2) by (auto simp: get_commit)
qed

end

section \<open>The claims\<close>

text \<open>
  C8: the trie over a store is a finite map, and its root is a function of that map alone. A get
  reads the map; an update or a removal returns the root of the updated map, whatever the order of
  the operations before, and a batch whose write makes the store hold it; it never panics; and the
  root from before still reads the old map from the store after the write.
\<close>

theorem smt_refines_map:
  assumes "collision_free P C" and "trie_at P C (mem_get s) root m"
    and "tree_inputs P KEY_BITS (fmupd key v m) \<subseteq> C" and "tree_inputs P KEY_BITS (fmdrop key m) \<subseteq> C"
  shows "smt_get P (mem_get s) root k = Inr (fmlookup m k) \<and>
    (\<exists>b. smt_update P (mem_get s) root key v = Inr (tree_hash P KEY_BITS (fmupd key v m), b) \<and>
      trie_at P C (mem_get (mem_write s b)) (tree_hash P KEY_BITS (fmupd key v m)) (fmupd key v m) \<and>
      smt_get P (mem_get (mem_write s b)) (tree_hash P KEY_BITS (fmupd key v m)) k =
        Inr (if k = key then Some v else fmlookup m k) \<and>
      smt_get P (mem_get (mem_write s b)) root k = Inr (fmlookup m k)) \<and>
    (\<exists>b. smt_remove P (mem_get s) root key = Inr (tree_hash P KEY_BITS (fmdrop key m), b) \<and>
      trie_at P C (mem_get (mem_write s b)) (tree_hash P KEY_BITS (fmdrop key m)) (fmdrop key m) \<and>
      smt_get P (mem_get (mem_write s b)) (tree_hash P KEY_BITS (fmdrop key m)) k =
        Inr (if k = key then None else fmlookup m k) \<and>
      smt_get P (mem_get (mem_write s b)) root k = Inr (fmlookup m k))"
proof (intro conjI)
  show "smt_get P (mem_get s) root k = Inr (fmlookup m k)" by (rule smt_get_ok [OF assms(1,2)])
next
  obtain r b where u: "smt_update P (mem_get s) root key v = Inr (r, b)"
    and n: "trie_at P C (mem_get (mem_write s b)) r (fmupd key v m)"
    and o: "trie_at P C (mem_get (mem_write s b)) root m"
    using mem.update_refines [OF assms(1) TrueI assms(2,3)] by blast
  show "\<exists>b. smt_update P (mem_get s) root key v = Inr (tree_hash P KEY_BITS (fmupd key v m), b) \<and>
      trie_at P C (mem_get (mem_write s b)) (tree_hash P KEY_BITS (fmupd key v m)) (fmupd key v m) \<and>
      smt_get P (mem_get (mem_write s b)) (tree_hash P KEY_BITS (fmupd key v m)) k =
        Inr (if k = key then Some v else fmlookup m k) \<and>
      smt_get P (mem_get (mem_write s b)) root k = Inr (fmlookup m k)"
    using u n smt_get_ok [OF assms(1) n, of k] smt_get_ok [OF assms(1) o, of k] trie_atD(2) [OF n] by auto
next
  obtain r b where u: "smt_remove P (mem_get s) root key = Inr (r, b)"
    and n: "trie_at P C (mem_get (mem_write s b)) r (fmdrop key m)"
    and o: "trie_at P C (mem_get (mem_write s b)) root m"
    using mem.remove_refines [OF assms(1) TrueI assms(2,4)] by blast
  show "\<exists>b. smt_remove P (mem_get s) root key = Inr (tree_hash P KEY_BITS (fmdrop key m), b) \<and>
      trie_at P C (mem_get (mem_write s b)) (tree_hash P KEY_BITS (fmdrop key m)) (fmdrop key m) \<and>
      smt_get P (mem_get (mem_write s b)) (tree_hash P KEY_BITS (fmdrop key m)) k =
        Inr (if k = key then None else fmlookup m k) \<and>
      smt_get P (mem_get (mem_write s b)) root k = Inr (fmlookup m k)"
    using u n smt_get_ok [OF assms(1) n, of k] smt_get_ok [OF assms(1) o, of k] trie_atD(2) [OF n] by auto
qed

text \<open>
  C10: Merkle proofs are exact. The proof the trie generates for a key verifies under its root for
  exactly one answer, the value the map holds or its absence; and whatever its siblings and its
  terminal, a proof that verifies answers as the map does, unless blake3 collides on the strings
  hashed in the tree and in the proof.
\<close>

theorem merkle_proofs_exact:
  assumes "collision_free P C" and "trie_at P C g root m"
  shows "(\<exists>pf. smt_prove P g root key = Inr pf \<and>
      (\<forall>expected. smt_verify P root key expected pf \<longleftrightarrow> expected = fmlookup m key)) \<and>
    (\<forall>pf expected. climb_inputs P key KEY_BITS (mp_siblings pf) (mp_terminal pf) \<subseteq> C \<longrightarrow>
      smt_verify P root key expected pf \<longrightarrow> expected = fmlookup m key)"
  using merkle_complete [OF assms] merkle_sound [OF assms(1), of m key] assms(2) by (simp add: trie_at_def)

section \<open>A hash for the witnesses\<close>

text \<open>
  A hash that numbers the strings of three small tries: the empty one, that of one entry under key
  0, and that of this entry and one under the key of the top bit. The strings of length 13 and 45
  are hashed to these two keys.
\<close>

definition toy_rank :: "bytes \<Rightarrow> nat" where
  "toy_rank b = (if b = empty_input then 0
     else if length b = 65 then
       (if hd b = 1 then Suc (max (unat (of_be (take 32 (drop 1 b)) :: id32)) (unat (of_be (drop 33 b) :: id32)))
        else if of_be (take 32 (drop 1 b)) = (0 :: id32) then 1000 else 1500)
     else if length b = 13 then 0 else if length b = 45 then 2 ^ 255 else if length b = 66 then 2001 else 2000)"

definition toy_smt :: "(u64, u64, unit) prims" where
  "toy_smt = toy_prims\<lparr>blake3 := \<lambda>b. of_nat (toy_rank b)\<rparr>"

definition toy_key :: id32 where
  "toy_key = push_bit 255 1"

definition toy_leaf :: bytes where
  "toy_leaf = ascii ''LAT-state-acct'' @ replicate 52 0"

abbreviation toy_map :: "(id32, bytes) fmap" where
  "toy_map \<equiv> fmupd 0 [1, 0, 0, 0] fmempty"

abbreviation toy_map2 :: "(id32, bytes) fmap" where
  "toy_map2 \<equiv> fmupd toy_key toy_leaf toy_map"

definition toy_strings :: "bytes set" where
  "toy_strings = {empty_input, leaf_input toy_smt 0 [1, 0, 0, 0], [1, 0, 0, 0], leaf_input toy_smt toy_key toy_leaf, toy_leaf} \<union>
     (\<lambda>i. node_input (of_nat i) (of_nat i)) ` {..<256} \<union> (\<lambda>i. node_input (of_nat (1000 + i)) (of_nat i)) ` {..<256} \<union>
     (\<lambda>i. node_input (of_nat (1500 + i)) (of_nat i)) ` {..<255} \<union> {node_input (of_nat 1255) (of_nat 1755)}"

lemma unat_small: "n \<le> 3000 \<Longrightarrow> unat (of_nat n :: id32) = n"
  by (simp add: unat_of_nat)

lemma toy_key_bits: "bit toy_key i \<longleftrightarrow> i = 255"
  unfolding toy_key_def bit_push_bit_iff by (auto simp: bit_1_iff)

lemma toy_key_nonzero [simp]: "toy_key \<noteq> 0" "0 \<noteq> toy_key"
  using toy_key_bits [of 255] by auto

lemma toy_rank_simps [simp]:
  "toy_rank empty_input = 0" "toy_rank (leaf_input P 0 v) = 1000" "toy_rank [1, 0, 0, 0] = 2000"
  "toy_rank (leaf_input P toy_key v) = 1500" "toy_rank toy_leaf = 2001"
  "toy_rank (node_input l r) = Suc (max (unat l) (unat r))"
  by (simp_all add: toy_rank_def empty_input_def leaf_input_def node_input_def ascii_def toy_leaf_def)

lemma toy_blake3 [simp]: "blake3 toy_smt b = of_nat (toy_rank b)"
  by (simp add: toy_smt_def)

lemma toy_default: "n \<le> 256 \<Longrightarrow> default_hash toy_smt n = of_nat n"
  by (induction n) (simp_all add: hash_internal_def unat_small)

lemma toy_single:
  assumes "n \<le> 256" and "c \<le> 1500" and "\<forall>i<n. \<not> bit key i"
  shows "single_leaf_hash toy_smt n key (of_nat c) = of_nat (c + n)"
  using assms
proof (induction n)
  case 0
  then show ?case by simp
next
  case (Suc n)
  have "unat (of_nat (c + n) :: id32) = c + n" "unat (of_nat n :: id32) = n"
    using Suc.prems by (simp_all only: unat_small)
  then show ?case using Suc toy_default [of n] by (simp add: hash_internal_def del: of_nat_add)
qed

lemma toy_inputs_empty: "n \<le> 256 \<Longrightarrow> tree_inputs toy_smt n fmempty \<subseteq> toy_strings"
  by (induction n) (auto simp: toy_strings_def toy_default)

lemma toy_inputs_map: "n \<le> 256 \<Longrightarrow> tree_inputs toy_smt n toy_map \<subseteq> toy_strings"
proof (induction n)
  case 0
  then show ?case by (simp add: toy_strings_def)
next
  case (Suc n)
  have "node_input (single_leaf_hash toy_smt n 0 (of_nat 1000)) (default_hash toy_smt n) \<in> toy_strings"
    using Suc.prems toy_single [of n 1000 0] toy_default [of n] by (auto simp: toy_strings_def)
  then show ?case using Suc toy_inputs_empty [of n] by (simp add: hash_leaf_def)
qed

lemma toy_inputs_leaf: "n \<le> 255 \<Longrightarrow> tree_inputs toy_smt n (fmupd toy_key toy_leaf fmempty) \<subseteq> toy_strings"
proof (induction n)
  case 0
  then show ?case by (simp add: toy_strings_def)
next
  case (Suc n)
  have "node_input (single_leaf_hash toy_smt n toy_key (of_nat 1500)) (default_hash toy_smt n) \<in> toy_strings"
    using Suc.prems toy_single [of n 1500 toy_key] toy_default [of n] toy_key_bits by (auto simp: toy_strings_def)
  then show ?case using Suc toy_inputs_empty [of n] by (simp add: hash_leaf_def toy_key_bits)
qed

lemma toy_inj: "inj_on (blake3 toy_smt) toy_strings"
proof (rule inj_onI)
  fix a b
  assume ab: "a \<in> toy_strings" "b \<in> toy_strings" and eq: "blake3 toy_smt a = blake3 toy_smt b"
  have small: "x \<in> toy_strings \<Longrightarrow> toy_rank x \<le> 3000" for x
    by (auto simp: toy_strings_def unat_small simp del: of_nat_add of_nat_numeral)
  have "toy_rank a = toy_rank b"
    using arg_cong [OF eq, of unat] ab by (simp add: unat_small small)
  then show "a = b"
    using ab unfolding toy_strings_def by (auto simp: unat_small simp del: of_nat_add of_nat_numeral)
qed

lemma toy_collision_free: "collision_free toy_smt toy_strings"
  using toy_inj toy_inputs_empty [of 256] by (simp add: collision_free_def KEY_BITS_def del: tree_inputs.simps)

lemma toy_trie: "trie_at toy_smt toy_strings (mem_get mem_new) (empty_root toy_smt) fmempty"
proof -
  have "mem_get mem_new = (\<lambda>c k. None)" by (simp add: mem_get_def mem_new_def fun_eq_iff)
  then show ?thesis using trie_at_empty [OF toy_collision_free] by simp
qed

lemma toy_halves:
  "lo 255 toy_map2 = toy_map" "hi 255 toy_map2 = fmupd toy_key toy_leaf fmempty"
  by (auto intro!: fmap_ext simp: toy_key_bits)

lemma toy_top:
  "tree_inputs toy_smt KEY_BITS toy_map \<subseteq> toy_strings" "tree_inputs toy_smt KEY_BITS fmempty \<subseteq> toy_strings"
  "tree_inputs toy_smt KEY_BITS toy_map2 \<subseteq> toy_strings"
proof -
  show "tree_inputs toy_smt KEY_BITS toy_map \<subseteq> toy_strings" "tree_inputs toy_smt KEY_BITS fmempty \<subseteq> toy_strings"
    using toy_inputs_map [of 256] toy_inputs_empty [of 256] by (simp_all add: KEY_BITS_def del: tree_inputs.simps)
  have l: "tree_hash toy_smt 255 toy_map = of_nat 1255"
    "tree_hash toy_smt 255 (fmupd toy_key toy_leaf fmempty) = of_nat 1755"
    using toy_single [of 255 1000 0] toy_single [of 255 1500 toy_key]
    by (simp_all add: hash_leaf_def toy_key_bits)
  have "tree_inputs toy_smt (Suc 255) toy_map2 =
      insert (node_input (tree_hash toy_smt 255 toy_map) (tree_hash toy_smt 255 (fmupd toy_key toy_leaf fmempty)))
        (tree_inputs toy_smt 255 toy_map \<union> tree_inputs toy_smt 255 (fmupd toy_key toy_leaf fmempty))"
    by (simp only: tree_inputs.simps toy_halves)
  also have "\<dots> \<subseteq> toy_strings"
    unfolding l using toy_inputs_map [of 255] toy_inputs_leaf [of 255] by (simp add: toy_strings_def)
  finally show "tree_inputs toy_smt KEY_BITS toy_map2 \<subseteq> toy_strings" by (simp add: KEY_BITS_def)
qed

theorem smt_refines_map_witness:
  "\<exists>b. smt_update toy_smt (mem_get mem_new) (empty_root toy_smt) 0 [1, 0, 0, 0] =
      Inr (tree_hash toy_smt KEY_BITS toy_map, b) \<and>
    smt_get toy_smt (mem_get (mem_write mem_new b)) (tree_hash toy_smt KEY_BITS toy_map) 0 = Inr (Some [1, 0, 0, 0])"
  using smt_refines_map [OF toy_collision_free toy_trie, of 0 "[1, 0, 0, 0]" 0] toy_top by auto

theorem merkle_proofs_exact_witness:
  "(\<exists>pf. smt_prove toy_smt (mem_get mem_new) (empty_root toy_smt) 0 = Inr pf \<and>
      smt_verify toy_smt (empty_root toy_smt) 0 None pf) \<and>
   \<not> smt_verify toy_smt (empty_root toy_smt) 0 (Some [1, 0, 0, 0]) \<lparr>mp_siblings = [], mp_terminal = TLeaf 0 [1, 0, 0, 0]\<rparr>"
proof -
  let ?pf = "\<lparr>mp_siblings = [], mp_terminal = TLeaf 0 [1, 0, 0, 0]\<rparr>"
  note exact = merkle_proofs_exact [OF toy_collision_free toy_trie, where key = 0]
  have c: "climb_inputs toy_smt 0 KEY_BITS (mp_siblings ?pf) (mp_terminal ?pf) \<subseteq> toy_strings"
    using toy_top(1) by (simp add: terminal_map_def del: tree_inputs.simps)
  have "\<not> smt_verify toy_smt (empty_root toy_smt) 0 (Some [1, 0, 0, 0]) ?pf"
    by (rule notI) (drule exact [THEN conjunct2, rule_format, OF c], simp)
  moreover obtain pf where "smt_prove toy_smt (mem_get mem_new) (empty_root toy_smt) 0 = Inr pf"
    "smt_verify toy_smt (empty_root toy_smt) 0 None pf"
    using exact [THEN conjunct1] by auto
  ultimately show ?thesis by blast
qed

theorem root_binds_contents_witness:
  "fmdrop 1 toy_map = toy_map \<and> tree_hash toy_smt KEY_BITS toy_map \<noteq> tree_hash toy_smt KEY_BITS fmempty"
proof
  have i: "inj_on (blake3 toy_smt) (tree_inputs toy_smt KEY_BITS m \<union> tree_inputs toy_smt KEY_BITS m')"
    if "tree_inputs toy_smt KEY_BITS m \<subseteq> toy_strings" "tree_inputs toy_smt KEY_BITS m' \<subseteq> toy_strings" for m m'
    by (rule inj_on_subset [OF toy_inj]) (use that in blast)
  show "fmdrop 1 toy_map = toy_map"
    by (rule root_binds_contents [OF i]) (use toy_top in simp_all)
  have "toy_map \<noteq> fmempty" using arg_cong [of toy_map fmempty "\<lambda>x. fmlookup x 0"] by auto
  then show "tree_hash toy_smt KEY_BITS toy_map \<noteq> tree_hash toy_smt KEY_BITS fmempty"
    using root_binds_contents [OF i [OF toy_top(1,2)]] by blast
qed

end
