(* ===== verification/Prune.thy ===== *)
theory Prune
  imports SparseMerkle_Refines
begin

text \<open>
  The mark-and-sweep of \<^verbatim>\<open>lat-store/src/smt.rs\<close>: \<^verbatim>\<open>reachable_nodes\<close>, a depth-first search with an
  explicit stack, and \<^verbatim>\<open>prune\<close>, which deletes from the trie's column what the search did not mark.
  The search is specified by the inductive predicate \<open>live_node\<close>. Every step of it shortens the
  stack or marks one more of finitely many hashes.
\<close>

section \<open>The sweep\<close>

definition present :: "(column \<Rightarrow> bytes \<Rightarrow> bytes option) \<Rightarrow> id32 \<Rightarrow> bool" where
  "present g h \<longleftrightarrow> g ColState (be_bytes 32 h) \<noteq> None"

lemma unmarked_decreases: "h |\<notin>| live \<Longrightarrow> card (- insert h (fset live)) < card (- fset (live :: id32 fset))"
  by (intro psubset_card_mono) auto

text \<open>\<^verbatim>\<open>stack.pop()\<close> takes the last element pushed, here the head.\<close>

function mark_nodes :: "(column \<Rightarrow> bytes \<Rightarrow> bytes option) \<Rightarrow> id32 list \<Rightarrow> id32 fset \<Rightarrow> id32 fset" where
  "mark_nodes g [] live = live"
| "mark_nodes g (h # stack) live =
    (if h |\<in>| live then mark_nodes g stack live
     else (case g ColState (be_bytes 32 h) of
         None \<Rightarrow> mark_nodes g stack live
       | Some b \<Rightarrow> (case node_decode b of
             Some (SInternal l r) \<Rightarrow> mark_nodes g (r # l # stack) (finsert h live)
           | _ \<Rightarrow> mark_nodes g stack (finsert h live))))"
  by pat_completeness auto

termination
  by (relation "measures [\<lambda>(g, stack, live). card (- fset live), \<lambda>(g, stack, live). length stack]")
    (use unmarked_decreases in auto)

definition reachable_nodes :: "(column \<Rightarrow> bytes \<Rightarrow> bytes option) \<Rightarrow> id32 list \<Rightarrow> id32 fset" where
  "reachable_nodes g roots = mark_nodes g (rev roots) {||}"

record prune_stats =
  ps_kept :: nat
  ps_dropped :: nat

text \<open>The statistics and the batch that is written (the source writes only a non-empty one).\<close>

definition smt_prune :: "(column \<Rightarrow> bytes \<Rightarrow> bytes option) \<Rightarrow> (column \<Rightarrow> bytes \<Rightarrow> (bytes \<times> bytes) list) \<Rightarrow> id32 list \<Rightarrow>
    prune_stats \<times> batch" where
  "smt_prune g scan roots =
    (let live = reachable_nodes g roots;
         dead = filter (\<lambda>k. \<not> (length k = 32 \<and> of_be k |\<in>| live)) (map fst (scan ColState []))
     in (\<lparr>ps_kept = fcard live, ps_dropped = length dead\<rparr>, map (\<lambda>k. (ColState, k, None)) dead))"

section \<open>What is marked\<close>

definition kids :: "(column \<Rightarrow> bytes \<Rightarrow> bytes option) \<Rightarrow> id32 \<Rightarrow> id32 list" where
  "kids g h = (case node_at g h of Some (SInternal l r) \<Rightarrow> [r, l] | _ \<Rightarrow> [])"

inductive live_node :: "(column \<Rightarrow> bytes \<Rightarrow> bytes option) \<Rightarrow> id32 set \<Rightarrow> id32 \<Rightarrow> bool" for g roots where
  live_root: "h \<in> roots \<Longrightarrow> present g h \<Longrightarrow> live_node g roots h"
| live_kid: "live_node g roots h \<Longrightarrow> c \<in> set (kids g h) \<Longrightarrow> present g c \<Longrightarrow> live_node g roots c"

lemma live_present: "live_node g roots h \<Longrightarrow> present g h"
  by (induction rule: live_node.induct) simp_all

text \<open>A step of the search and its induction, in terms of the children.\<close>

lemma mark_nodes_skip: "h |\<in>| live \<or> \<not> present g h \<Longrightarrow> mark_nodes g (h # stack) live = mark_nodes g stack live"
  by (auto simp: present_def)

lemma mark_nodes_visit:
  "h |\<notin>| live \<Longrightarrow> present g h \<Longrightarrow> mark_nodes g (h # stack) live = mark_nodes g (kids g h @ stack) (finsert h live)"
  by (cases "g ColState (be_bytes 32 h)")
    (simp_all add: present_def kids_def node_at_def split: option.split node.split)

lemma mark_induct [case_names Nil skip visit]:
  assumes nil: "\<And>live. Q [] live"
    and skip: "\<And>h stack live. h |\<in>| live \<or> \<not> present g h \<Longrightarrow> Q stack live \<Longrightarrow> Q (h # stack) live"
    and visit: "\<And>h stack live. h |\<notin>| live \<Longrightarrow> present g h \<Longrightarrow> Q (kids g h @ stack) (finsert h live) \<Longrightarrow> Q (h # stack) live"
  shows "Q stack live"
proof (induction "(stack, live)" arbitrary: stack live
    rule: wf_induct_rule [OF wf_measures [of "[\<lambda>(stack, live). card (- fset live), \<lambda>(stack, live). length stack]"]])
  case less: 1
  show ?case
  proof (cases stack)
    case Nil
    then show ?thesis by (simp add: nil)
  next
    case (Cons h rest)
    show ?thesis
    proof (cases "h |\<in>| live \<or> \<not> present g h")
      case True
      have "Q rest live" by (rule less) (simp add: Cons)
      then show ?thesis using True Cons skip by simp
    next
      case False
      then have "Q (kids g h @ rest) (finsert h live)"
        by (intro less) (simp add: unmarked_decreases)
      then show ?thesis using False Cons visit by simp
    qed
  qed
qed

text \<open>The children of the marked nodes are marked or still on the stack.\<close>

definition kids_within :: "(column \<Rightarrow> bytes \<Rightarrow> bytes option) \<Rightarrow> id32 set \<Rightarrow> id32 set \<Rightarrow> bool" where
  "kids_within g L W \<longleftrightarrow> (\<forall>h\<in>L. \<forall>c\<in>set (kids g h). present g c \<longrightarrow> c \<in> W)"

lemma mark_nodes_complete:
  assumes "kids_within g (fset live) (fset live \<union> set stack)"
  shows "fset live \<subseteq> fset (mark_nodes g stack live) \<and>
    (\<forall>h\<in>set stack. present g h \<longrightarrow> h |\<in>| mark_nodes g stack live) \<and>
    kids_within g (fset (mark_nodes g stack live)) (fset (mark_nodes g stack live))"
  using assms
proof (induction stack live rule: mark_induct [where g = g])
  case (Nil live)
  then show ?case by simp
next
  case (skip h stack live)
  then have "kids_within g (fset live) (fset live \<union> set stack)" by (auto simp: kids_within_def)
  with skip show ?case by (auto simp: mark_nodes_skip simp del: mark_nodes.simps)
next
  case (visit h stack live)
  then have "kids_within g (fset (finsert h live)) (fset (finsert h live) \<union> set (kids g h @ stack))"
    by (auto simp: kids_within_def)
  with visit(3) show ?case
    by (simp add: mark_nodes_visit [OF visit(1,2)] del: mark_nodes.simps)
qed

lemma mark_nodes_sound:
  assumes "\<forall>h\<in>fset live. live_node g roots h" and "\<forall>h\<in>set stack. present g h \<longrightarrow> live_node g roots h"
  shows "\<forall>h\<in>fset (mark_nodes g stack live). live_node g roots h"
  using assms
proof (induction stack live rule: mark_induct [where g = g])
  case (Nil live)
  then show ?case by simp
next
  case (skip h stack live)
  then show ?case by (simp add: mark_nodes_skip del: mark_nodes.simps)
next
  case (visit h stack live)
  have "live_node g roots h" using visit by simp
  with visit(3-) show ?case
    by (subst mark_nodes_visit [OF visit(1,2)]) (auto intro: live_kid)
qed

text \<open>The search marks exactly the stored nodes reachable from the roots.\<close>

lemma reachable_nodes_iff: "h |\<in>| reachable_nodes g roots \<longleftrightarrow> live_node g (set roots) h"
proof
  show "h |\<in>| reachable_nodes g roots \<Longrightarrow> live_node g (set roots) h"
    using mark_nodes_sound [of "{||}" g "set roots" "rev roots"] by (auto simp: reachable_nodes_def intro: live_root)
  have c: "(\<forall>h\<in>set (rev roots). present g h \<longrightarrow> h |\<in>| reachable_nodes g roots) \<and>
      kids_within g (fset (reachable_nodes g roots)) (fset (reachable_nodes g roots))"
    using mark_nodes_complete [of g "{||}" "rev roots"] by (simp add: reachable_nodes_def kids_within_def)
  show "live_node g (set roots) h \<Longrightarrow> h |\<in>| reachable_nodes g roots"
    by (induction rule: live_node.induct) (use c in \<open>auto simp: kids_within_def\<close>)
qed

section \<open>What is left after the sweep\<close>

context kv_store
begin

lemma prune_get:
  assumes "inv s"
  shows "get (commit s (snd (smt_prune (get s) (scan s) roots))) c k =
    (if c = ColState \<and> \<not> (length k = 32 \<and> live_node (get s) (set roots) (of_be k)) then None else get s c k)"
proof -
  let ?dead = "filter (\<lambda>k. \<not> (length k = 32 \<and> live_node (get s) (set roots) (of_be k))) (map fst (scan s ColState []))"
  have scan: "k \<in> fst ` set (scan s ColState []) \<longleftrightarrow> get s ColState k \<noteq> None"
    using set_scan [OF assms, of k _ ColState "[]"] by (auto simp: image_iff) (metis fst_conv)
  have last: "batch_last (map (\<lambda>k. (ColState, k, None)) ks) c k = (if c = ColState \<and> k \<in> set ks then Some None else None)"
    for ks
    by (induction ks) (auto split: option.splits if_splits)
  have "snd (smt_prune (get s) (scan s) roots) = map (\<lambda>k. (ColState, k, None)) ?dead"
    by (simp add: smt_prune_def reachable_nodes_iff Let_def)
  then show ?thesis
    using scan by (auto simp: get_commit [OF assms] after_batch_def last)
qed

lemma prune_keeps:
  fixes roots :: "id32 list"
  assumes "inv s" and inj: "inj_on (blake3 P) C" and ok: "trie_ok P C (get s)"
  defines "s' \<equiv> commit s (snd (smt_prune (get s) (scan s) roots))"
  shows "trie_ok P C (get s')"
    and "root \<in> set roots \<Longrightarrow> root = tree_hash P n m \<Longrightarrow> held P (get s) n m \<Longrightarrow> held P (get s') n m"
proof -
  have same: "get s' ColState (be_bytes 32 h) = (if live_node (get s) (set roots) h then get s ColState (be_bytes 32 h) else None)"
    for h
    by (simp add: s'_def prune_get [OF assms(1)])
  have held: "held P (get s') n m" if "held P (get s) n m" and "m \<noteq> fmempty \<Longrightarrow> live_node (get s) (set roots) (tree_hash P n m)" for n m
    using that by (auto simp: held_def same)
  show "trie_ok P C (get s')"
    unfolding trie_ok_def
  proof (intro allI impI)
    fix n m b
    assume fit: "fits P C n m" and b: "get s' ColState (be_bytes 32 (tree_hash P n m)) = Some b"
    then have live: "live_node (get s) (set roots) (tree_hash P n m)" and b': "get s ColState (be_bytes 32 (tree_hash P n m)) = Some b"
      by (simp_all add: same split: if_splits)
    obtain nd where nd: "node_decode b = Some nd" "node_view P (get s) n m nd" using trie_okE [OF ok fit b'] by blast
    have "node_view P (get s') n m nd"
    proof (cases nd)
      case (SLeaf k v)
      then show ?thesis using nd by simp
    next
      case (SInternal l r)
      then obtain j where j: "n = Suc j" "l = tree_hash P j (lo j m)" "r = tree_hash P j (hi j m)"
        "held P (get s) j (lo j m)" "held P (get s) j (hi j m)"
        using nd(2) by (cases n) simp_all
      have k: "set (kids (get s) (tree_hash P n m)) = {l, r}"
        using b' nd(1) SInternal by (auto simp: kids_def node_at_def)
      have "live_node (get s) (set roots) c" if "c \<in> {l, r}" "present (get s) c" for c
        using live_kid [OF live] that k by simp
      then have "held P (get s') j (lo j m)" "held P (get s') j (hi j m)"
        using j by (intro held; auto simp: held_def present_def)+
      then show ?thesis using SInternal j by simp
    qed
    then show "\<exists>nd. node_decode b = Some nd \<and> node_view P (get s') n m nd" using nd(1) by blast
  qed
  show "root \<in> set roots \<Longrightarrow> root = tree_hash P n m \<Longrightarrow> held P (get s) n m \<Longrightarrow> held P (get s') n m"
    by (rule held) (auto simp: held_def present_def intro: live_root)
qed

end

section \<open>The claims\<close>

text \<open>
  C12: pruning keeps every retained root and nothing that no retained root needs. The sweep ends; a
  trie whose root is retained is still there, with every lookup it had; a node is in the column
  afterwards exactly when it was there and is reachable from a retained root; the other columns are
  not touched.
\<close>

theorem prune_keeps_retained:
  assumes "collision_free P C" and "trie_at P C (mem_get s) root m" and "root \<in> set roots"
  shows "let s' = mem_write s (snd (smt_prune (mem_get s) (mem_scan s) roots)) in
    trie_at P C (mem_get s') root m \<and> smt_get P (mem_get s') root k = Inr (fmlookup m k) \<and>
    (present (mem_get s') h \<longleftrightarrow> live_node (mem_get s) (set roots) h) \<and>
    (c \<noteq> ColState \<longrightarrow> mem_get s' c x = mem_get s c x)"
proof -
  let ?s' = "mem_write s (snd (smt_prune (mem_get s) (mem_scan s) roots))"
  note p = mem.prune_keeps [OF TrueI collision_freeD(1) [OF assms(1)] trie_atD(1) [OF assms(2)], where roots = roots]
  have t: "trie_at P C (mem_get ?s') root m"
    using assms(2) p(1) p(2) [OF assms(3), where n = KEY_BITS and m = m] by (simp add: trie_at_def)
  have "present (mem_get ?s') h \<longleftrightarrow> live_node (mem_get s) (set roots) h"
    using live_present [of "mem_get s" "set roots" h] by (auto simp: present_def mem.prune_get)
  then show ?thesis using t smt_get_ok [OF assms(1) t] by (simp add: mem.prune_get Let_def)
qed

theorem prune_keeps_retained_witness:
  "smt_get toy_smt (mem_get (mem_write mem_new (snd (smt_prune (mem_get mem_new) (mem_scan mem_new) [empty_root toy_smt]))))
     (empty_root toy_smt) 3 = Inr None"
  using prune_keeps_retained [OF toy_collision_free toy_trie, of "[empty_root toy_smt]" 3] by (simp add: Let_def)

end
