(* ===== verification/Commitment.thy ===== *)
theory Commitment
  imports SparseMerkle_Refines Ledger_Reach
begin

text \<open>
  The state commitment of \<^verbatim>\<open>lat-state/src/lib.rs\<close>: \<^verbatim>\<open>Ledger::state_root\<close>, which folds the entries
  marked dirty into the authenticated trie, and the account proofs of light clients,
  \<^verbatim>\<open>account_proof\<close> and \<^verbatim>\<open>verify_account_proof\<close>.

  The trie is specified by \<open>commits\<close>: it holds, at the path of every entry of the ledger, that entry's
  leaf, and nothing else. Between two root computations it does so except at the paths of the
  entries marked dirty. The dirty set is a hash set, visited in any order; the order is an argument.
\<close>

section \<open>The root\<close>

text \<open>\<^verbatim>\<open>get\<close> and \<^verbatim>\<open>write\<close> are the store's. The pending entries \<open>ks\<close>, one trie update each.\<close>

fun commit_keys :: "('g, 's, 'r) prims \<Rightarrow> ('t \<Rightarrow> column \<Rightarrow> bytes \<Rightarrow> bytes option) \<Rightarrow> ('t \<Rightarrow> batch \<Rightarrow> 't) \<Rightarrow>
    'g ledger \<Rightarrow> dirty_key list \<Rightarrow> id32 \<Rightarrow> 't \<Rightarrow> panic + id32 \<times> 't" where
  "commit_keys P get write L [] root s = Inr (root, s)"
| "commit_keys P get write L (k # ks) root s =
    (let (tk, value) = trie_kv P L k in
     try_then (case value of
         Some v \<Rightarrow> smt_update P (get s) root tk v
       | None \<Rightarrow> smt_remove P (get s) root tk)
     (\<lambda>(root', b). commit_keys P get write L ks root' (write s b)))"

definition state_root :: "('g, 's, 'r) prims \<Rightarrow> ('t \<Rightarrow> column \<Rightarrow> bytes \<Rightarrow> bytes option) \<Rightarrow> ('t \<Rightarrow> batch \<Rightarrow> 't) \<Rightarrow>
    dirty_key list \<Rightarrow> 'g ledger \<times> id32 \<times> 't \<Rightarrow> panic + id32 \<times> ('g ledger \<times> id32 \<times> 't)" where
  "state_root P get write ks st = (case st of (L, root, s) \<Rightarrow>
     if l_dirty L = {||} then Inr (root, st)
     else try_then (commit_keys P get write L ks root s) (\<lambda>(root', s').
       Inr (root', (L\<lparr>l_dirty := {||}\<rparr>, root', s'))))"

section \<open>Account proofs\<close>

record account_proof =
  ap_preimage :: bytes
  ap_proof :: merkle_proof

definition ap_account_id :: "account_proof \<Rightarrow> id32 option" where
  "ap_account_id pf = map_option of_be (get_range (ap_preimage pf) 14 46)"

definition prove_account :: "('g, 's, 'r) prims \<Rightarrow> ('t \<Rightarrow> column \<Rightarrow> bytes \<Rightarrow> bytes option) \<Rightarrow> ('t \<Rightarrow> batch \<Rightarrow> 't) \<Rightarrow>
    dirty_key list \<Rightarrow> id32 \<Rightarrow> 'g ledger \<times> id32 \<times> 't \<Rightarrow> panic + account_proof option \<times> ('g ledger \<times> id32 \<times> 't)" where
  "prove_account P get write ks i st = (case get_account (fst st) i of
       None \<Rightarrow> Inr (None, st)
     | Some a \<Rightarrow> try_then (state_root P get write ks st) (\<lambda>(root, st').
         try_then (smt_prove P (get (snd (snd st'))) root (trie_path P (DirtyAccount i))) (\<lambda>pf.
           Inr (Some \<lparr>ap_preimage = account_leaf P i a, ap_proof = pf\<rparr>, st'))))"

definition verify_account_proof :: "('g, 's, 'r) prims \<Rightarrow> id32 \<Rightarrow> account_proof \<Rightarrow> bool" where
  "verify_account_proof P root pf = (case ap_account_id pf of
       None \<Rightarrow> False
     | Some i \<Rightarrow> smt_verify P root (trie_path P (DirtyAccount i)) (Some (ap_preimage pf)) (ap_proof pf))"

section \<open>The paths of different entries\<close>

fun path_input :: "dirty_key \<Rightarrow> bytes" where
  "path_input (DirtyAccount i) = ascii ''LAT-trie/acct'' @ be_bytes 32 i"
| "path_input (DirtyToken t) = ascii ''LAT-trie/tokn'' @ le_bytes 4 t"
| "path_input (DirtyContract i) = ascii ''LAT-trie/ctrt'' @ be_bytes 32 i"
| "path_input (DirtyNullifier nf) = ascii ''LAT-trie/null'' @ be_bytes 32 nf"
| "path_input (DirtyValidator i) = ascii ''LAT-trie/val'' @ be_bytes 32 i"
| "path_input (DirtyPool t) = ascii ''LAT-trie/pool'' @ le_bytes 4 t"
| "path_input (DirtyCurve t) = ascii ''LAT-trie/curv'' @ le_bytes 4 t"
| "path_input (DirtyLp t i) = ascii ''LAT-trie/lp'' @ le_bytes 4 t @ be_bytes 32 i"
| "path_input (DirtyHtlc i) = ascii ''LAT-trie/htlc'' @ be_bytes 32 i"
| "path_input DirtyMeta = ascii ''LAT-trie/meta''"

lemma trie_path_input: "trie_path P k = blake3 P (path_input k)"
  by (cases k) (simp_all add: trie_key_def ascii_def)

text \<open>Domain separation: no two entries share a path, but for a collision of blake3.\<close>

lemma path_input_inject: "path_input k = path_input k' \<longleftrightarrow> k = k'"
  by (cases k; cases k') (simp_all add: ascii_def)

definition paths_distinct :: "('g, 's, 'r) prims \<Rightarrow> dirty_key set \<Rightarrow> bool" where
  "paths_distinct P K \<longleftrightarrow> inj_on (blake3 P) (path_input ` K)"

lemma paths_distinctD:
  "paths_distinct P K \<Longrightarrow> k \<in> K \<Longrightarrow> k' \<in> K \<Longrightarrow> trie_path P k = trie_path P k' \<Longrightarrow> k = k'"
  unfolding paths_distinct_def trie_path_input by (metis path_input_inject inj_onD imageI)

lemma paths_distinct_mono: "paths_distinct P K \<Longrightarrow> K' \<subseteq> K \<Longrightarrow> paths_distinct P K'"
  unfolding paths_distinct_def by (erule inj_on_subset) auto

section \<open>What the trie commits\<close>

definition live :: "('g, 's, 'r) prims \<Rightarrow> 'g ledger \<Rightarrow> dirty_key set" where
  "live P L = {k. trie_value P L k \<noteq> None}"

definition committed :: "('g, 's, 'r) prims \<Rightarrow> 'g ledger \<Rightarrow> id32 \<Rightarrow> bytes \<Rightarrow> bool" where
  "committed P L t v \<longleftrightarrow> (\<exists>k. trie_path P k = t \<and> trie_value P L k = Some v)"

definition commits_except :: "('g, 's, 'r) prims \<Rightarrow> dirty_key set \<Rightarrow> 'g ledger \<Rightarrow> (id32, bytes) fmap \<Rightarrow> bool" where
  "commits_except P D L m \<longleftrightarrow> (\<forall>t. t \<notin> trie_path P ` D \<longrightarrow> (\<forall>v. fmlookup m t = Some v \<longleftrightarrow> committed P L t v))"

abbreviation commits :: "('g, 's, 'r) prims \<Rightarrow> 'g ledger \<Rightarrow> (id32, bytes) fmap \<Rightarrow> bool" where
  "commits P \<equiv> commits_except P {}"

text \<open>A ledger commits at most one map, so its root does not depend on how the trie was built.\<close>

lemma commits_unique: "commits P L m \<Longrightarrow> commits P L m' \<Longrightarrow> m = m'"
  unfolding commits_except_def by (intro fmap_ext option_ext) simp

lemma commits_lookup:
  assumes "commits P L m" and "paths_distinct P (insert k (live P L))"
  shows "fmlookup m (trie_path P k) = trie_value P L k"
proof (rule option_ext)
  fix v
  show "fmlookup m (trie_path P k) = Some v \<longleftrightarrow> trie_value P L k = Some v"
    using assms(1) paths_distinctD [OF assms(2), of _ k]
    by (auto simp: commits_except_def committed_def live_def)
qed

text \<open>The maps that the trie goes through.\<close>

definition set_leaf :: "('g, 's, 'r) prims \<Rightarrow> 'g ledger \<Rightarrow> dirty_key \<Rightarrow> (id32, bytes) fmap \<Rightarrow> (id32, bytes) fmap" where
  "set_leaf P L k m = (case trie_value P L k of
       Some v \<Rightarrow> fmupd (trie_path P k) v m
     | None \<Rightarrow> fmdrop (trie_path P k) m)"

fun commit_maps :: "('g, 's, 'r) prims \<Rightarrow> 'g ledger \<Rightarrow> dirty_key list \<Rightarrow> (id32, bytes) fmap \<Rightarrow> (id32, bytes) fmap list" where
  "commit_maps P L [] m = []"
| "commit_maps P L (k # ks) m = set_leaf P L k m # commit_maps P L ks (set_leaf P L k m)"

definition hashed :: "('g, 's, 'r) prims \<Rightarrow> (id32, bytes) fmap list \<Rightarrow> bytes set" where
  "hashed P ms = (\<Union>m\<in>set ms. tree_inputs P KEY_BITS m)"

lemma set_leaf_lookup:
  "fmlookup (set_leaf P L k m) t = (if t = trie_path P k then trie_value P L k else fmlookup m t)"
  by (simp add: set_leaf_def split: option.split)

lemma set_leaf_commits:
  assumes "commits_except P D L m" and "paths_distinct P (insert k (D \<union> live P L))"
  shows "commits_except P (D - {k}) L (set_leaf P L k m)"
  unfolding commits_except_def
proof (intro allI impI)
  fix t v
  assume t: "t \<notin> trie_path P ` (D - {k})"
  show "fmlookup (set_leaf P L k m) t = Some v \<longleftrightarrow> committed P L t v"
  proof (cases "t = trie_path P k")
    case True
    have "trie_value P L k' = Some v \<Longrightarrow> trie_path P k' = t \<Longrightarrow> k' = k" for k'
      using True paths_distinctD [OF assms(2), of k' k] by (auto simp: live_def)
    then show ?thesis using True by (auto simp: set_leaf_lookup committed_def)
  next
    case False
    then have "t \<notin> trie_path P ` D" using t by auto
    then show ?thesis using False assms(1) by (simp add: set_leaf_lookup commits_except_def)
  qed
qed

context kv_store
begin

lemma commit_keys_ok:
  assumes "collision_free P C" and "inv s" and "trie_at P C (get s) root m"
    and "hashed P (commit_maps P L ks m) \<subseteq> C" and "commits_except P D L m"
    and "paths_distinct P (set ks \<union> D \<union> live P L)" and "D \<subseteq> set ks"
  shows "\<exists>root' s' m'. commit_keys P get commit L ks root s = Inr (root', s') \<and> inv s' \<and>
    trie_at P C (get s') root' m' \<and> commits P L m' \<and>
    (\<forall>r0 m0. trie_at P C (get s) r0 m0 \<longrightarrow> trie_at P C (get s') r0 m0)"
  using assms(2-)
proof (induction ks arbitrary: root s m D)
  case Nil
  then show ?case by auto
next
  case (Cons k ks)
  let ?m = "set_leaf P L k m"
  have fit: "tree_inputs P KEY_BITS ?m \<subseteq> C" and rest: "hashed P (commit_maps P L ks ?m) \<subseteq> C"
    using Cons.prems(3) by (auto simp: hashed_def)
  have put: "\<exists>root' b. (case trie_value P L k of
        Some v \<Rightarrow> smt_update P (get s) root (trie_path P k) v
      | None \<Rightarrow> smt_remove P (get s) root (trie_path P k)) = Inr (root', b) \<and>
      puts_node P C (get s) KEY_BITS ?m (root', b)"
  proof (cases "trie_value P L k")
    case None
    then have f: "tree_inputs P KEY_BITS (fmdrop (trie_path P k) m) \<subseteq> C" using fit by (simp add: set_leaf_def)
    show ?thesis by (rule smt_remove_ok [OF assms(1) Cons.prems(2) f]) (simp add: None set_leaf_def)
  next
    case (Some v)
    then have f: "tree_inputs P KEY_BITS (fmupd (trie_path P k) v m) \<subseteq> C" using fit by (simp add: set_leaf_def)
    show ?thesis by (rule smt_update_ok [OF assms(1) Cons.prems(2) f]) (simp add: Some set_leaf_def)
  qed
  then obtain root' b where b: "(case trie_value P L k of
        Some v \<Rightarrow> smt_update P (get s) root (trie_path P k) v
      | None \<Rightarrow> smt_remove P (get s) root (trie_path P k)) = Inr (root', b)"
    and p: "puts_node P C (get s) KEY_BITS ?m (root', b)"
    by blast
  note get = get_commit [OF Cons.prems(1), of b]
  have t: "trie_at P C (get (commit s b)) root' ?m"
    and old: "trie_at P C (get s) r0 m0 \<Longrightarrow> trie_at P C (get (commit s b)) r0 m0" for r0 m0
    using trie_at_put [OF p fit] Cons.prems(2) by (simp_all add: get)
  have c: "commits_except P (D - {k}) L ?m"
    by (rule set_leaf_commits [OF Cons.prems(4)]) (rule paths_distinct_mono [OF Cons.prems(5)], auto)
  have d: "paths_distinct P (set ks \<union> (D - {k}) \<union> live P L)" and sub: "D - {k} \<subseteq> set ks"
    using Cons.prems(6) by (auto intro: paths_distinct_mono [OF Cons.prems(5)])
  show ?case
    using Cons.IH [OF inv_commit [OF Cons.prems(1)] t rest c d sub] old by (auto simp: trie_kv_def b)
qed

lemma state_root_ok:
  assumes "collision_free P C" and "inv s" and "trie_at P C (get s) root m"
    and "hashed P (commit_maps P L ks m) \<subseteq> C" and "commits_except P (fset (l_dirty L)) L m"
    and "paths_distinct P (fset (l_dirty L) \<union> live P L)" and "set ks = fset (l_dirty L)"
  shows "\<exists>s' m'. state_root P get commit ks (L, root, s) =
      Inr (tree_hash P KEY_BITS m', (L\<lparr>l_dirty := {||}\<rparr>, tree_hash P KEY_BITS m', s')) \<and> inv s' \<and>
    trie_at P C (get s') (tree_hash P KEY_BITS m') m' \<and> commits P L m' \<and>
    (\<forall>r0 m0. trie_at P C (get s) r0 m0 \<longrightarrow> trie_at P C (get s') r0 m0)"
proof (cases "l_dirty L = {||}")
  case True
  then have "L\<lparr>l_dirty := {||}\<rparr> = L" by simp
  then show ?thesis using assms True trie_atD(2) [OF assms(3)] by (auto simp: state_root_def)
next
  case False
  obtain root' s' m' where "commit_keys P get commit L ks root s = Inr (root', s')" "inv s'"
    "trie_at P C (get s') root' m'" "commits P L m'"
    "\<forall>r0 m0. trie_at P C (get s) r0 m0 \<longrightarrow> trie_at P C (get s') r0 m0"
    using commit_keys_ok [OF assms(1-5)] assms(6,7) by auto
  then show ?thesis using False trie_atD(2) [of P C "get s'" root' m'] by (auto simp: state_root_def)
qed

end

section \<open>The claims\<close>

lemma commits_after:
  assumes "commits_except P D L m" and "D \<subseteq> D'" and "\<And>k. k \<notin> D' \<Longrightarrow> same_entry k L L'"
  shows "commits_except P D' L' m"
  unfolding commits_except_def
proof (intro allI impI)
  fix t v
  assume t: "t \<notin> trie_path P ` D'"
  have "trie_value P L' k = trie_value P L k" if "trie_path P k = t" for k
    using same_entry_value [OF assms(3)] t that by blast
  then have "committed P L' t v \<longleftrightarrow> committed P L t v" by (auto simp: committed_def)
  then show "fmlookup m t = Some v \<longleftrightarrow> committed P L' t v"
    using assms(1,2) t unfolding commits_except_def by blast
qed

text \<open>
  C9: the incremental state root is the root of the whole state. After any transaction other than
  slashing evidence, accepted or not, folding only the entries marked dirty into the trie, in any
  order, gives the root of the trie that commits exactly the entries of the new ledger; the store
  then holds that trie, and every trie it held before.
\<close>

theorem root_tracks_ledger:
  assumes "collision_free P C" and "trie_at P C (mem_get s) root m"
    and "commits_except P (fset (l_dirty L)) L m"
    and "pools_wf L" and "\<not> is_slash tx" and "l_next_token_id L \<noteq> - 1"
    and "L' = snd (apply_at P tx height L)" and "set ks = fset (l_dirty L')"
    and "paths_distinct P (fset (l_dirty L') \<union> live P L')" and "hashed P (commit_maps P L' ks m) \<subseteq> C"
  shows "\<exists>s' m'. state_root P mem_get mem_write ks (L', root, s) =
      Inr (tree_hash P KEY_BITS m', (L'\<lparr>l_dirty := {||}\<rparr>, tree_hash P KEY_BITS m', s')) \<and>
    commits P L' m' \<and> trie_at P C (mem_get s') (tree_hash P KEY_BITS m') m' \<and>
    trie_at P C (mem_get s') root m"
proof -
  note marks = apply_at_marks [OF assms(4,6), where P = P and tx = tx and height = height, folded assms(7)]
  have "commits_except P (fset (l_dirty L')) L' m"
    by (rule commits_after [OF assms(3)]) (use marks assms(5) in \<open>auto simp: less_eq_fset.rep_eq\<close>)
  from mem.state_root_ok [OF assms(1) TrueI assms(2,10) this assms(9,8)] show ?thesis
    using assms(2) by blast
qed

text \<open>
  C11: light clients learn the truth. Where the root commits the ledger, every account has a proof
  that verifies under the root, and a proof that verifies shows exactly the leaf of the account it
  names, unless blake3 collides.
\<close>

theorem account_proofs_exact:
  assumes "collision_free P C" and "trie_at P C (mem_get s) root m" and "commits P L m"
    and "paths_distinct P (insert (DirtyAccount i) (live P L))" and "l_dirty L = {||}"
  shows "(\<forall>a. get_account L i = Some a \<longrightarrow> (\<exists>pf. prove_account P mem_get mem_write [] i (L, root, s) =
        Inr (Some pf, (L, root, s)) \<and> ap_account_id pf = Some i \<and> verify_account_proof P root pf)) \<and>
    (\<forall>pf. ap_account_id pf = Some i \<longrightarrow> verify_account_proof P root pf \<longrightarrow>
       climb_inputs P (trie_path P (DirtyAccount i)) KEY_BITS (mp_siblings (ap_proof pf)) (mp_terminal (ap_proof pf)) \<subseteq> C \<longrightarrow>
       (\<exists>a. get_account L i = Some a \<and> ap_preimage pf = account_leaf P i a))"
proof (intro conjI allI impI)
  fix a
  assume a: "get_account L i = Some a"
  have l: "fmlookup m (trie_path P (DirtyAccount i)) = Some (account_leaf P i a)"
    using commits_lookup [OF assms(3,4)] a by simp
  obtain pf where pf: "smt_prove P (mem_get s) root (trie_path P (DirtyAccount i)) = Inr pf"
    and v: "smt_verify P root (trie_path P (DirtyAccount i)) (Some (account_leaf P i a)) pf"
    using merkle_complete [OF assms(1,2)] l by metis
  have i: "ap_account_id \<lparr>ap_preimage = account_leaf P i a, ap_proof = pf\<rparr> = Some i"
    by (simp add: ap_account_id_def account_leaf_def get_range_def ascii_def)
  show "\<exists>pf. prove_account P mem_get mem_write [] i (L, root, s) = Inr (Some pf, (L, root, s)) \<and>
      ap_account_id pf = Some i \<and> verify_account_proof P root pf"
    using a pf v i assms(5) by (simp add: prove_account_def state_root_def verify_account_proof_def)
next
  fix pf
  assume i: "ap_account_id pf = Some i" and v: "verify_account_proof P root pf"
    and c: "climb_inputs P (trie_path P (DirtyAccount i)) KEY_BITS (mp_siblings (ap_proof pf)) (mp_terminal (ap_proof pf)) \<subseteq> C"
  have "Some (ap_preimage pf) = fmlookup m (trie_path P (DirtyAccount i))"
    using merkle_sound [OF assms(1) _ c] v i assms(2) by (simp add: verify_account_proof_def trie_at_def)
  then show "\<exists>a. get_account L i = Some a \<and> ap_preimage pf = account_leaf P i a"
    using commits_lookup [OF assms(3,4)] by (cases "get_account L i") simp_all
qed

section \<open>The witnesses\<close>

text \<open>The empty ledger after a registration: the meta entry and one account.\<close>

abbreviation toy_ledger :: "u64 ledger" where
  "toy_ledger \<equiv> snd (apply_at toy_smt (Register 0 0) 1 ledger_new)"

lemma toy_run: "toy_ledger = put_account 0 account_default ledger_new\<lparr>l_dirty := {|DirtyMeta, DirtyAccount 0|}\<rparr>"
  by (auto simp: apply_at_def apply_at_with_def or_keep_def register_def is_registered_def put_account_def
      ledger_new_def mark_def mark_all_def get_account_def)

lemma toy_paths: "trie_path toy_smt DirtyMeta = 0" "trie_path toy_smt (DirtyAccount i) = toy_key"
proof -
  show "trie_path toy_smt DirtyMeta = 0"
    by (simp add: trie_path_input toy_rank_def empty_input_def ascii_def)
  have "trie_path toy_smt (DirtyAccount i) = of_nat (2 ^ 255)"
    by (simp add: trie_path_input toy_rank_def empty_input_def ascii_def)
  also have "\<dots> = toy_key" by (simp add: toy_key_def push_bit_eq_mult)
  finally show "trie_path toy_smt (DirtyAccount i) = toy_key" .
qed

lemma zero_bytes: "le_bytes n (0 :: 'a::len word) = replicate n 0" "be_bytes n (0 :: 'a::len word) = replicate n 0"
  by (simp_all add: le_bytes_def be_bytes_def map_replicate_const)

lemma toy_leaf_account: "account_leaf toy_smt 0 account_default = toy_leaf"
  by (simp add: account_leaf_def toy_leaf_def account_default_def encode_ct_map_def encode_u64_map_def
      enc_fmap_def enc_list_def zero_bytes replicate_add [symmetric])

lemma toy_meta: "le_bytes 4 (1 :: u32) = [1, 0, 0, 0]"
  by (simp add: le_bytes_def upt_rec)

lemma toy_values: "trie_value toy_smt toy_ledger k =
    (if k = DirtyMeta then Some [1, 0, 0, 0] else if k = DirtyAccount 0 then Some toy_leaf else None)"
  unfolding toy_run
  by (cases k) (simp_all add: entry_defs put_account_def ledger_new_def toy_leaf_account toy_meta)

lemma toy_live: "live toy_smt toy_ledger = {DirtyMeta, DirtyAccount 0}"
  by (auto simp: live_def toy_values split: if_splits)

lemma toy_dirty: "fset (l_dirty toy_ledger) = {DirtyMeta, DirtyAccount 0}"
  by (simp add: toy_run)

lemma toy_distinct: "paths_distinct toy_smt (fset (l_dirty toy_ledger) \<union> live toy_smt toy_ledger)"
proof -
  have "blake3 toy_smt (path_input DirtyMeta) = 0" "blake3 toy_smt (path_input (DirtyAccount 0)) = toy_key"
    using toy_paths by (simp_all only: trie_path_input)
  then show ?thesis
    by (auto simp: paths_distinct_def toy_dirty toy_live simp del: path_input.simps toy_blake3)
qed

lemma new_dirty: "l_dirty ledger_new = {|DirtyMeta|}"
  by (simp add: ledger_new_def)

lemma toy_same: "k \<notin> fset (l_dirty toy_ledger) \<Longrightarrow> same_entry k ledger_new toy_ledger"
  unfolding toy_dirty unfolding toy_run
  by (cases k) (simp_all add: entry_defs put_account_def)

lemma toy_maps: "commit_maps toy_smt toy_ledger [DirtyMeta, DirtyAccount 0] fmempty = [toy_map, toy_map2]"
  by (simp add: set_leaf_def toy_values toy_paths del: trie_path.simps trie_value.simps)

lemma toy_hashed: "hashed toy_smt (commit_maps toy_smt toy_ledger [DirtyMeta, DirtyAccount 0] fmempty) \<subseteq> toy_strings"
  unfolding toy_maps hashed_def using toy_top by (simp del: tree_inputs.simps)

lemma toy_before: "commits_except toy_smt (fset (l_dirty ledger_new)) ledger_new fmempty"
proof -
  have "trie_value toy_smt ledger_new k = None" if "k \<noteq> DirtyMeta" for k
    using that by (cases k) (simp_all add: ledger_new_def entry_defs)
  then have "committed toy_smt ledger_new t v \<Longrightarrow> t = trie_path toy_smt DirtyMeta" for t v
    by (metis committed_def option.distinct(1))
  then show ?thesis by (auto simp: commits_except_def ledger_new_def)
qed

theorem root_tracks_ledger_witness:
  "\<exists>s' m'. state_root toy_smt mem_get mem_write [DirtyMeta, DirtyAccount 0] (toy_ledger, empty_root toy_smt, mem_new) =
      Inr (tree_hash toy_smt KEY_BITS m', (toy_ledger\<lparr>l_dirty := {||}\<rparr>, tree_hash toy_smt KEY_BITS m', s')) \<and>
    commits toy_smt toy_ledger m'"
proof -
  have wf: "pools_wf (ledger_new :: u64 ledger)" by (simp add: ledger_inv_new [unfolded ledger_inv_def])
  have room: "l_next_token_id (ledger_new :: u64 ledger) \<noteq> - 1" by (simp add: ledger_new_def)
  from root_tracks_ledger [OF toy_collision_free toy_trie toy_before wf _ room refl _ toy_distinct toy_hashed]
  show ?thesis by (simp add: toy_dirty) blast
qed

theorem account_proofs_exact_witness:
  "\<exists>s root pf. prove_account toy_smt mem_get mem_write [] 0 (toy_ledger\<lparr>l_dirty := {||}\<rparr>, root, s) =
      Inr (Some pf, (toy_ledger\<lparr>l_dirty := {||}\<rparr>, root, s)) \<and> verify_account_proof toy_smt root pf"
proof -
  let ?L = "toy_ledger\<lparr>l_dirty := {||}\<rparr>"
  have before: "commits_except toy_smt (fset (l_dirty toy_ledger)) toy_ledger fmempty"
    by (rule commits_after [OF toy_before _ toy_same]) (simp_all add: toy_dirty new_dirty)
  obtain s m where t: "trie_at toy_smt toy_strings (mem_get s) (tree_hash toy_smt KEY_BITS m) m"
    and c: "commits toy_smt toy_ledger m"
    using mem.state_root_ok [OF toy_collision_free TrueI toy_trie toy_hashed before toy_distinct]
    by (auto simp: toy_dirty)
  have same: "trie_value toy_smt ?L k = trie_value toy_smt toy_ledger k" for k
    by (cases k) (simp_all add: entry_defs)
  have "commits toy_smt ?L m" using c by (simp add: commits_except_def committed_def same)
  moreover have "paths_distinct toy_smt (insert (DirtyAccount 0) (live toy_smt ?L))"
    by (rule paths_distinct_mono [OF toy_distinct]) (auto simp: live_def same toy_dirty)
  moreover have "get_account ?L 0 = Some account_default" by (simp add: toy_run get_account_def put_account_def)
  ultimately show ?thesis
    using account_proofs_exact [OF toy_collision_free t, of ?L 0] by auto
qed

end
