(* ===== verification/Ledger_Store.thy ===== *)
theory Ledger_Store
  imports Commitment "HOL-Library.Multiset"
begin

text \<open>
  The object records of \<^verbatim>\<open>lat-state/src/lib.rs\<close> as entries of a store: \<^verbatim>\<open>Ledger::object_records\<close> lists them,
  \<^verbatim>\<open>Ledger::from_records\<close> boots a ledger from them, \<^verbatim>\<open>Ledger::rehome\<close> moves a ledger onto another store. Elsewhere
  the column is the record \<open>ledger\<close> of finite maps; here is what justifies that: a ledger and its
  records determine each other.
\<close>

section \<open>Records as store entries\<close>

definition record_entries :: "('g, 's, 'r) prims \<Rightarrow> 'g ledger \<Rightarrow> (bytes \<times> bytes) list" where
  "record_entries P L =
     map (\<lambda>(i, a). (rec_key REC_ACCOUNT (be_bytes 32 i), encode_account P a)) (fm_entries (l_accounts L))
     @ map (\<lambda>(t, m). (rec_key REC_TOKEN (be_bytes 4 t), encode_token m)) (fm_entries (l_tokens L))
     @ map (\<lambda>(n, t). (rec_key REC_TICKER n, be_bytes 4 t)) (fm_entries (l_tickers L))
     @ (case l_meta L of Some n \<Rightarrow> [([REC_META], le_bytes 4 n)] | None \<Rightarrow> [])
     @ map (\<lambda>(i, c). (rec_key REC_CONTRACT (be_bytes 32 i), encode_contract c)) (fm_entries (l_contracts L))
     @ map (\<lambda>nf. (rec_key REC_NULLIFIER (be_bytes 32 nf), [1])) (sorted_list_of_fset (l_nullifiers L))
     @ map (\<lambda>(i, v). (rec_key REC_VALIDATOR (be_bytes 32 i), encode_validator v)) (fm_entries (l_validators L))
     @ map (\<lambda>(t, p). (rec_key REC_POOL (be_bytes 4 t), encode_pool p)) (fm_entries (l_pools L))
     @ map (\<lambda>(t, c). (rec_key REC_CURVE (be_bytes 4 t), encode_curve c)) (fm_entries (l_curves L))
     @ map (\<lambda>((t, i), n). (lp_key t i, le_bytes 8 n)) (fm_entries (l_lps L))
     @ map (\<lambda>(i, h). (rec_key REC_HTLC (be_bytes 32 i), encode_htlc h)) (fm_entries (l_htlcs L))"

definition object_records :: "('g, 's, 'r) prims \<Rightarrow> 'g ledger \<Rightarrow> (bytes \<times> bytes) list" where
  "object_records P L = sort_key fst (record_entries P L)"

section \<open>Booting from records\<close>

text \<open>What is read of one entry, key and body; \<open>key.get(1..)\<close> converted to an array has to have its length.\<close>

definition key_id :: "bytes \<Rightarrow> id32 option" where
  "key_id k = (if length k = 33 then Some (of_be (drop 1 k)) else None)"

definition rec_account :: "('g, 's, 'r) prims \<Rightarrow> bytes \<times> bytes \<Rightarrow> (id32 \<times> 'g account) option" where
  "rec_account P e = do { i \<leftarrow> key_id (fst e); a \<leftarrow> decode_account P (snd e); Some (i, a) }"

definition rec_token :: "bytes \<times> bytes \<Rightarrow> (u32 \<times> token_meta) option" where
  "rec_token e = do { t \<leftarrow> decode_token (snd e);
     if drop 1 (fst e) \<noteq> be_bytes 4 (tm_id t) then None else Some (tm_id t, t) }"

definition rec_contract :: "bytes \<times> bytes \<Rightarrow> (id32 \<times> contract) option" where
  "rec_contract e = do { i \<leftarrow> key_id (fst e); c \<leftarrow> decode_contract (snd e); Some (i, c) }"

definition rec_nullifier :: "bytes \<times> bytes \<Rightarrow> id32 option" where
  "rec_nullifier e = key_id (fst e)"

definition rec_validator :: "bytes \<times> bytes \<Rightarrow> (id32 \<times> validator) option" where
  "rec_validator e = do { i \<leftarrow> key_id (fst e); v \<leftarrow> decode_validator (snd e); Some (i, v) }"

definition rec_pool :: "bytes \<times> bytes \<Rightarrow> (u32 \<times> pool) option" where
  "rec_pool e = do { p \<leftarrow> decode_pool (snd e);
     if drop 1 (fst e) \<noteq> be_bytes 4 (pool_token p) then None else Some (pool_token p, p) }"

definition rec_lp :: "bytes \<times> bytes \<Rightarrow> ((u32 \<times> id32) \<times> u64) option" where
  "rec_lp e = (if length (fst e) = 37 \<and> length (snd e) = 8
     then Some ((of_be (take 4 (drop 1 (fst e))), of_be (drop 5 (fst e))), of_le (snd e)) else None)"

definition rec_htlc :: "bytes \<times> bytes \<Rightarrow> (id32 \<times> htlc) option" where
  "rec_htlc e = do { i \<leftarrow> key_id (fst e); h \<leftarrow> decode_htlc (snd e); Some (i, h) }"

text \<open>
  Curves and tickers are not visited; they are whatever a later read finds in the store. A record that a
  read cannot decode (which then panics) is left out.
\<close>

definition rec_curve :: "bytes \<times> bytes \<Rightarrow> (u32 \<times> curve_pool) option" where
  "rec_curve e = (if length (fst e) = 5 then map_option (\<lambda>c. (of_be (drop 1 (fst e)), c)) (decode_curve (snd e)) else None)"

definition rec_ticker :: "bytes \<times> bytes \<Rightarrow> (bytes \<times> u32) option" where
  "rec_ticker e = (if length (snd e) = 4 then Some (drop 1 (fst e), of_be (snd e)) else None)"

text \<open>\<^verbatim>\<open>for (key, body) in scan { ... ? ... }\<close>: the entries read, or \<open>None\<close> at the first that is malformed.\<close>

definition read_kind :: "('t \<Rightarrow> column \<Rightarrow> bytes \<Rightarrow> (bytes \<times> bytes) list) \<Rightarrow> 't \<Rightarrow> byte \<Rightarrow>
    (bytes \<times> bytes \<Rightarrow> 'a option) \<Rightarrow> 'a list option" where
  "read_kind scan base tag rd = those (map rd (scan base ColObjects [tag]))"

definition from_records :: "('g, 's, 'r) prims \<Rightarrow> ('t \<Rightarrow> column \<Rightarrow> bytes \<Rightarrow> bytes option) \<Rightarrow>
    ('t \<Rightarrow> column \<Rightarrow> bytes \<Rightarrow> (bytes \<times> bytes) list) \<Rightarrow> 't \<Rightarrow> 'g ledger option" where
  "from_records P get scan base =
    (if scan base ColObjects [] = [] then None
     else do {
       next_id \<leftarrow> (case get base ColObjects [REC_META] of
           Some meta \<Rightarrow> if length meta = 4 then Some (of_le meta) else None
         | None \<Rightarrow> Some 1);
       accounts \<leftarrow> read_kind scan base REC_ACCOUNT (rec_account P);
       tokens \<leftarrow> read_kind scan base REC_TOKEN rec_token;
       contracts \<leftarrow> read_kind scan base REC_CONTRACT rec_contract;
       nullifiers \<leftarrow> read_kind scan base REC_NULLIFIER rec_nullifier;
       validators \<leftarrow> read_kind scan base REC_VALIDATOR rec_validator;
       pools \<leftarrow> read_kind scan base REC_POOL rec_pool;
       lps \<leftarrow> read_kind scan base REC_LP rec_lp;
       htlcs \<leftarrow> read_kind scan base REC_HTLC rec_htlc;
       Some \<lparr>l_next_token_id = next_id, l_accounts = fmap_of_list accounts, l_tokens = fmap_of_list tokens,
         l_tickers = foldl (\<lambda>m (_, t). fmupd (tm_ticker t) (tm_id t) m)
           (fmap_of_list (List.map_filter rec_ticker (scan base ColObjects [REC_TICKER]))) tokens,
         l_meta = map_option of_le (get base ColObjects [REC_META]),
         l_contracts = fmap_of_list contracts, l_nullifiers = fset_of_list nullifiers,
         l_validators = fmap_of_list validators, l_pools = fmap_of_list pools,
         l_curves = fmap_of_list (List.map_filter rec_curve (scan base ColObjects [REC_CURVE])),
         l_lps = fmap_of_list lps, l_htlcs = fmap_of_list htlcs,
         l_dirty = finsert DirtyMeta (fset_of_list (map (DirtyAccount \<circ> fst) accounts @ map (DirtyToken \<circ> fst) tokens
           @ map (DirtyContract \<circ> fst) contracts @ map DirtyNullifier nullifiers @ map (DirtyValidator \<circ> fst) validators
           @ map (DirtyPool \<circ> fst) pools @ map (\<lambda>e. DirtyLp (fst (fst e)) (snd (fst e))) lps @ map (DirtyHtlc \<circ> fst) htlcs)),
         l_max_validators = DEFAULT_MAX_VALIDATORS\<rparr> })"

section \<open>Moving a ledger to another store\<close>

definition rehome_batch :: "(bytes \<times> bytes) list \<Rightarrow> (bytes \<times> bytes) list \<Rightarrow> (bytes \<times> bytes) list \<Rightarrow>
    (bytes \<times> bytes) list \<Rightarrow> (bytes \<times> bytes) list \<Rightarrow> batch" where
  "rehome_batch old_objects old_state objects state staged =
     map (\<lambda>(k, _). (ColObjects, k, None)) old_objects @ map (\<lambda>(k, _). (ColState, k, None)) old_state
     @ map (\<lambda>(k, v). (ColObjects, k, Some v)) objects @ map (\<lambda>(k, v). (ColState, k, Some v)) state
     @ map (\<lambda>(k, v). (ColMeta, k, Some v)) staged"

definition rehome :: "('g, 's, 'r) prims \<Rightarrow> dirty_key list \<Rightarrow> mem_store \<Rightarrow> (bytes \<times> bytes) list \<Rightarrow>
    'g ledger \<times> id32 \<times> mem_store \<Rightarrow> panic + 'g ledger \<times> id32 \<times> mem_store" where
  "rehome P ks base staged st = try_then (state_root P mem_get mem_write ks st) (\<lambda>(_, L, root, s).
     Inr (L\<lparr>l_max_validators := DEFAULT_MAX_VALIDATORS\<rparr>, root,
       mem_write base (rehome_batch (mem_scan base ColObjects []) (mem_scan base ColState [])
         (object_records P L) (mem_scan s ColState []) staged)))"

section \<open>Reading back what was written\<close>

lemma those_map_Some: "(\<And>x. x \<in> set xs \<Longrightarrow> f x = Some (g x)) \<Longrightarrow> those (map f xs) = Some (map g xs)"
  by (induction xs) auto

lemma map_of_graph:
  assumes "\<And>x w. (x, w) \<in> set ys \<longleftrightarrow> m x = Some w"
  shows "map_of ys = m"
proof (intro ext option_ext)
  fix x w
  have "m x = Some v" if "map_of ys x = Some v" for v using map_of_SomeD [OF that] assms by blast
  moreover have "\<exists>v. map_of ys x = Some v" if "m x = Some w" using that assms by (metis weak_map_of_SomeI)
  ultimately show "map_of ys x = Some w \<longleftrightarrow> m x = Some w" by fastforce
qed

lemma fmap_of_graph:
  assumes "\<And>x w. (x, w) \<in> set ys \<longleftrightarrow> fmlookup m x = Some w"
  shows "fmap_of_list ys = m" and "fst |`| fset_of_list ys = fmdom m"
proof -
  show "fmap_of_list ys = m" by (rule fmap_ext) (simp add: fmlookup_of_list map_of_graph [of ys "fmlookup m"] assms)
  show "fst |`| fset_of_list ys = fmdom m"
    using assms by (force simp: fset_eq_iff fset_of_list_elem fmlookup_dom_iff)
qed

text \<open>A kind of records that the scan lists under its tag reads back as the map it was written from.\<close>

lemma read_kind_graph:
  assumes "\<And>k v. (k, v) \<in> set (scan base ColObjects [tag]) \<longleftrightarrow> (\<exists>x w. fmlookup m x = Some w \<and> k = kf x \<and> v = enc w)"
    and "\<And>x w. fmlookup m x = Some w \<Longrightarrow> rd (kf x, enc w) = Some (x, w)"
  obtains ys where "read_kind scan base tag rd = Some ys" and "\<And>x w. (x, w) \<in> set ys \<longleftrightarrow> fmlookup m x = Some w"
proof -
  let ?xs = "scan base ColObjects [tag]" and ?g = "\<lambda>e. the (rd e)"
  have rd: "rd e = Some (?g e)" if "e \<in> set ?xs" for e
  proof -
    obtain k v where e: "e = (k, v)" by (cases e)
    have "(k, v) \<in> set ?xs" using that e by simp
    then have "\<exists>x w. fmlookup m x = Some w \<and> k = kf x \<and> v = enc w" by (simp only: assms(1))
    then show ?thesis using assms(2) e by (elim exE conjE) simp
  qed
  have "(x, w) \<in> set (map ?g ?xs) \<longleftrightarrow> fmlookup m x = Some w" for x w
  proof
    assume "(x, w) \<in> set (map ?g ?xs)"
    then obtain k v where e: "(k, v) \<in> set ?xs" "(x, w) = ?g (k, v)" by auto
    from e(1) have "\<exists>x w. fmlookup m x = Some w \<and> k = kf x \<and> v = enc w" by (simp only: assms(1))
    then show "fmlookup m x = Some w" using e(2) assms(2) by (elim exE conjE) simp
  next
    assume m: "fmlookup m x = Some w"
    then have "(kf x, enc w) \<in> set ?xs" unfolding assms(1) by blast
    then have "?g (kf x, enc w) \<in> set (map ?g ?xs)" by (simp add: rev_image_eqI)
    then show "(x, w) \<in> set (map ?g ?xs)" using assms(2) [OF m] by simp
  qed
  moreover have "read_kind scan base tag rd = Some (map ?g ?xs)"
    unfolding read_kind_def using rd by (rule those_map_Some)
  ultimately show thesis using that by blast
qed

section \<open>The records of a ledger\<close>

lemma set_object_records [simp]: "set (object_records P L) = set (record_entries P L)"
  by (simp add: object_records_def)

lemma entries_of_kind:
  "(k, v) \<in> set (record_entries P L) \<and> prefix [REC_ACCOUNT] k \<longleftrightarrow>
     (\<exists>i a. fmlookup (l_accounts L) i = Some a \<and> k = rec_key REC_ACCOUNT (be_bytes 32 i) \<and> v = encode_account P a)"
  "(k, v) \<in> set (record_entries P L) \<and> prefix [REC_TOKEN] k \<longleftrightarrow>
     (\<exists>t m. fmlookup (l_tokens L) t = Some m \<and> k = rec_key REC_TOKEN (be_bytes 4 t) \<and> v = encode_token m)"
  "(k, v) \<in> set (record_entries P L) \<and> prefix [REC_TICKER] k \<longleftrightarrow>
     (\<exists>n t. fmlookup (l_tickers L) n = Some t \<and> k = rec_key REC_TICKER n \<and> v = be_bytes 4 t)"
  "(k, v) \<in> set (record_entries P L) \<and> prefix [REC_CONTRACT] k \<longleftrightarrow>
     (\<exists>i c. fmlookup (l_contracts L) i = Some c \<and> k = rec_key REC_CONTRACT (be_bytes 32 i) \<and> v = encode_contract c)"
  "(k, v) \<in> set (record_entries P L) \<and> prefix [REC_NULLIFIER] k \<longleftrightarrow>
     (\<exists>nf. nf |\<in>| l_nullifiers L \<and> k = rec_key REC_NULLIFIER (be_bytes 32 nf) \<and> v = [1])"
  "(k, v) \<in> set (record_entries P L) \<and> prefix [REC_VALIDATOR] k \<longleftrightarrow>
     (\<exists>i w. fmlookup (l_validators L) i = Some w \<and> k = rec_key REC_VALIDATOR (be_bytes 32 i) \<and> v = encode_validator w)"
  "(k, v) \<in> set (record_entries P L) \<and> prefix [REC_POOL] k \<longleftrightarrow>
     (\<exists>t p. fmlookup (l_pools L) t = Some p \<and> k = rec_key REC_POOL (be_bytes 4 t) \<and> v = encode_pool p)"
  "(k, v) \<in> set (record_entries P L) \<and> prefix [REC_CURVE] k \<longleftrightarrow>
     (\<exists>t c. fmlookup (l_curves L) t = Some c \<and> k = rec_key REC_CURVE (be_bytes 4 t) \<and> v = encode_curve c)"
  "(k, v) \<in> set (record_entries P L) \<and> prefix [REC_LP] k \<longleftrightarrow>
     (\<exists>e n. fmlookup (l_lps L) e = Some n \<and> k = lp_key (fst e) (snd e) \<and> v = le_bytes 8 n)"
  "(k, v) \<in> set (record_entries P L) \<and> prefix [REC_HTLC] k \<longleftrightarrow>
     (\<exists>i h. fmlookup (l_htlcs L) i = Some h \<and> k = rec_key REC_HTLC (be_bytes 32 i) \<and> v = encode_htlc h)"
  "([REC_META], v) \<in> set (record_entries P L) \<longleftrightarrow> map_option (le_bytes 4) (l_meta L) = Some v"
  by (auto simp: record_entries_def set_entries rec_key_def lp_key_def rec_tags sorted_list_of_fset.rep_eq image_iff Bex_def
      split: option.splits)

lemma key_id_rec_key [simp]: "key_id (rec_key tag (be_bytes 32 i)) = Some i"
  by (simp add: key_id_def rec_key_def)

lemma set_rec_filter: "y \<in> set (List.map_filter f xs) \<longleftrightarrow> (\<exists>x\<in>set xs. f x = Some y)"
  by (force simp: List.map_filter_def)

lemma upd_present:
  assumes "\<And>e. e \<in> set es \<Longrightarrow> fmlookup m (tm_ticker (snd e)) = Some (tm_id (snd e))"
  shows "foldl (\<lambda>m (_, t). fmupd (tm_ticker t) (tm_id t) m) m es = m"
  using assms
proof (induction es)
  case (Cons e es)
  have "fmupd (tm_ticker (snd e)) (tm_id (snd e)) m = m" using Cons.prems [of e] by (intro fmap_ext) auto
  then show ?case using Cons by (simp add: case_prod_unfold)
qed simp

text \<open>The counter record is the counter, and is absent only before the first token.\<close>

definition meta_wf :: "'g ledger \<Rightarrow> bool" where
  "meta_wf L \<longleftrightarrow> (case l_meta L of Some n \<Rightarrow> n = l_next_token_id L | None \<Rightarrow> l_next_token_id L = 1)"

definition records_fit :: "'g ledger \<Rightarrow> bool" where
  "records_fit L \<longleftrightarrow> (\<forall>i a. fmlookup (l_accounts L) i = Some a \<longrightarrow> account_fits a) \<and>
     (\<forall>t m. fmlookup (l_tokens L) t = Some m \<longrightarrow> token_fits m) \<and>
     (\<forall>i c. fmlookup (l_contracts L) i = Some c \<longrightarrow> contract_fits c) \<and>
     (\<forall>i v. fmlookup (l_validators L) i = Some v \<longrightarrow> validator_fits v)"

lemma from_records_object_records:
  assumes P: "encoding_laws P" and wf: "records_wf L" and fit: "records_fit L" and meta: "meta_wf L"
    and objects: "\<And>k v. mem_get base ColObjects k = Some v \<longleftrightarrow> (k, v) \<in> set (object_records P L)"
    and some: "object_records P L \<noteq> []"
  shows "from_records P mem_get mem_scan base = Some (L\<lparr>l_dirty := all_keys L |-| DirtyCurve |`| fmdom (l_curves L),
     l_max_validators := DEFAULT_MAX_VALIDATORS\<rparr>)"
proof -
  note trip = record_round_trip [OF P]
  have scan: "(k, v) \<in> set (mem_scan base ColObjects [tag]) \<longleftrightarrow> (k, v) \<in> set (record_entries P L) \<and> prefix [tag] k" for k v tag
    by (simp add: mem.set_scan objects)
  have tok: "\<And>i m. fmlookup (l_tokens L) i = Some m \<Longrightarrow> tm_id m = i \<and> fmlookup (l_tickers L) (tm_ticker m) = Some i"
    using wf unfolding records_wf_def tokens_wf_def token_by_id_def by blast
  have pool: "\<And>t p. fmlookup (l_pools L) t = Some p \<Longrightarrow> pool_token p = t" using wf unfolding records_wf_def by blast
  have reads: "token_fits m \<Longrightarrow> decode_token (encode_token m) = Some m" "decode_pool (encode_pool p) = Some p"
    "decode_curve (encode_curve c) = Some c" "decode_htlc (encode_htlc h) = Some h" for m p c h
    using trip by blast+
  obtain accounts where accounts: "read_kind mem_scan base REC_ACCOUNT (rec_account P) = Some accounts"
      "\<And>x w. (x, w) \<in> set accounts \<longleftrightarrow> fmlookup (l_accounts L) x = Some w"
    by (rule read_kind_graph [of mem_scan base REC_ACCOUNT "l_accounts L" "\<lambda>i. rec_key REC_ACCOUNT (be_bytes 32 i)" "encode_account P" "rec_account P", OF trans [OF scan]], rule entries_of_kind) (use fit trip in \<open>auto simp: rec_account_def records_fit_def\<close>)
  obtain tokens where tokens: "read_kind mem_scan base REC_TOKEN rec_token = Some tokens"
      "\<And>x w. (x, w) \<in> set tokens \<longleftrightarrow> fmlookup (l_tokens L) x = Some w"
    by (rule read_kind_graph [of mem_scan base REC_TOKEN "l_tokens L" "\<lambda>t. rec_key REC_TOKEN (be_bytes 4 t)" "encode_token" "rec_token", OF trans [OF scan]], rule entries_of_kind) (use fit tok in \<open>auto simp: rec_token_def records_fit_def rec_key_def reads\<close>)
  obtain contracts where contracts: "read_kind mem_scan base REC_CONTRACT rec_contract = Some contracts"
      "\<And>x w. (x, w) \<in> set contracts \<longleftrightarrow> fmlookup (l_contracts L) x = Some w"
    by (rule read_kind_graph [of mem_scan base REC_CONTRACT "l_contracts L" "\<lambda>i. rec_key REC_CONTRACT (be_bytes 32 i)" "encode_contract" "rec_contract", OF trans [OF scan]], rule entries_of_kind) (use fit trip in \<open>auto simp: rec_contract_def records_fit_def\<close>)
  obtain validators where validators: "read_kind mem_scan base REC_VALIDATOR rec_validator = Some validators"
      "\<And>x w. (x, w) \<in> set validators \<longleftrightarrow> fmlookup (l_validators L) x = Some w"
    by (rule read_kind_graph [of mem_scan base REC_VALIDATOR "l_validators L" "\<lambda>i. rec_key REC_VALIDATOR (be_bytes 32 i)" "encode_validator" "rec_validator", OF trans [OF scan]], rule entries_of_kind) (use fit trip in \<open>auto simp: rec_validator_def records_fit_def\<close>)
  obtain pools where pools: "read_kind mem_scan base REC_POOL rec_pool = Some pools"
      "\<And>x w. (x, w) \<in> set pools \<longleftrightarrow> fmlookup (l_pools L) x = Some w"
    by (rule read_kind_graph [of mem_scan base REC_POOL "l_pools L" "\<lambda>t. rec_key REC_POOL (be_bytes 4 t)" "encode_pool" "rec_pool", OF trans [OF scan]], rule entries_of_kind) (use pool in \<open>auto simp: rec_pool_def rec_key_def reads\<close>)
  obtain lps where lps: "read_kind mem_scan base REC_LP rec_lp = Some lps"
      "\<And>x w. (x, w) \<in> set lps \<longleftrightarrow> fmlookup (l_lps L) x = Some w"
    by (rule read_kind_graph [of mem_scan base REC_LP "l_lps L" "\<lambda>e. lp_key (fst e) (snd e)" "le_bytes 8" "rec_lp", OF trans [OF scan]], rule entries_of_kind) (auto simp: rec_lp_def lp_key_def)
  obtain htlcs where htlcs: "read_kind mem_scan base REC_HTLC rec_htlc = Some htlcs"
      "\<And>x w. (x, w) \<in> set htlcs \<longleftrightarrow> fmlookup (l_htlcs L) x = Some w"
    by (rule read_kind_graph [of mem_scan base REC_HTLC "l_htlcs L" "\<lambda>i. rec_key REC_HTLC (be_bytes 32 i)" "encode_htlc" "rec_htlc", OF trans [OF scan]], rule entries_of_kind) (auto simp: rec_htlc_def reads)
  note scans = trans [OF scan entries_of_kind(3)] trans [OF scan entries_of_kind(5)] trans [OF scan entries_of_kind(8)]
  have tickers: "fmap_of_list (List.map_filter rec_ticker (mem_scan base ColObjects [REC_TICKER])) = l_tickers L"
  proof (rule fmap_of_graph)
    have "rec_ticker e = Some (n, t) \<longleftrightarrow> length (snd e) = 4 \<and> drop 1 (fst e) = n \<and> of_be (snd e) = t" for e n t
      by (auto simp: rec_ticker_def)
    then show "(n, t) \<in> set (List.map_filter rec_ticker (mem_scan base ColObjects [REC_TICKER])) \<longleftrightarrow>
        fmlookup (l_tickers L) n = Some t" for n t
      by (force simp: set_rec_filter Bex_def scans rec_key_def)
  qed
  have curves: "fmap_of_list (List.map_filter rec_curve (mem_scan base ColObjects [REC_CURVE])) = l_curves L"
  proof (rule fmap_of_graph)
    have "rec_curve e = Some (t, c) \<longleftrightarrow> length (fst e) = 5 \<and> of_be (drop 1 (fst e)) = t \<and> decode_curve (snd e) = Some c" for e t c
      by (auto simp: rec_curve_def)
    then show "(t, c) \<in> set (List.map_filter rec_curve (mem_scan base ColObjects [REC_CURVE])) \<longleftrightarrow>
        fmlookup (l_curves L) t = Some c" for t c
      by (force simp: set_rec_filter Bex_def scans rec_key_def reads)
  qed
  obtain nullifiers where nullifiers: "read_kind mem_scan base REC_NULLIFIER rec_nullifier = Some nullifiers"
      "fset_of_list nullifiers = l_nullifiers L"
  proof
    let ?xs = "mem_scan base ColObjects [REC_NULLIFIER]" and ?g = "\<lambda>e. the (key_id (fst e))"
    show "read_kind mem_scan base REC_NULLIFIER rec_nullifier = Some (map ?g ?xs)"
      unfolding read_kind_def by (rule those_map_Some) (auto simp: scans rec_nullifier_def)
    show "fset_of_list (map ?g ?xs) = l_nullifiers L"
      by (auto simp: fset_eq_iff fset_of_list_elem scans image_iff Bex_def)
  qed
  have "mem_scan base ColObjects [] \<noteq> []"
    using some objects mem.set_scan [OF TrueI, of _ _ base ColObjects "[]"] by (metis Nil_prefix last_in_set prod.collapse set_empty2 empty_iff)
  moreover have "mem_get base ColObjects [REC_META] = map_option (le_bytes 4) (l_meta L)"
    by (intro option_ext) (simp only: objects set_object_records entries_of_kind(11))
  moreover have "(case map_option (le_bytes 4) (l_meta L) of Some meta \<Rightarrow> if length meta = 4 then Some (of_le meta) else None
      | None \<Rightarrow> Some 1) = Some (l_next_token_id L)"
    using meta by (auto simp: meta_wf_def split: option.splits)
  moreover have "map_option of_le (map_option (le_bytes 4) (l_meta L)) = l_meta L"
    by (cases "l_meta L") simp_all
  moreover have "foldl (\<lambda>m (_, t). fmupd (tm_ticker t) (tm_id t) m) (l_tickers L) tokens = l_tickers L"
    by (rule upd_present) (use tokens(2) tok in \<open>metis prod.collapse\<close>)
  moreover note ends = fmap_of_graph [OF accounts(2)] fmap_of_graph [OF tokens(2)] fmap_of_graph [OF contracts(2)]
    fmap_of_graph [OF validators(2)] fmap_of_graph [OF pools(2)] fmap_of_graph [OF lps(2)] fmap_of_graph [OF htlcs(2)]
  moreover have "finsert DirtyMeta (fset_of_list (map (DirtyAccount \<circ> fst) accounts @ map (DirtyToken \<circ> fst) tokens
      @ map (DirtyContract \<circ> fst) contracts @ map DirtyNullifier nullifiers @ map (DirtyValidator \<circ> fst) validators
      @ map (DirtyPool \<circ> fst) pools @ map (\<lambda>e. DirtyLp (fst (fst e)) (snd (fst e))) lps @ map (DirtyHtlc \<circ> fst) htlcs)) =
    all_keys L |-| DirtyCurve |`| fmdom (l_curves L)" (is "?l = ?r")
  proof -
    have img: "(f \<circ> fst) |`| A = f |`| B" "(\<lambda>e. f (fst e)) |`| A = f |`| B" if "fst |`| A = B" for f :: "'x \<Rightarrow> dirty_key" and A :: "('x \<times> 'y) fset" and B
      using that by (auto simp: fset.map_comp o_def)
    have "(\<lambda>e. DirtyLp (fst (fst e)) (snd (fst e))) |`| fset_of_list lps = (\<lambda>e. DirtyLp (fst e) (snd e)) |`| fmdom (l_lps L)"
      using img(2) [OF ends(12), of "\<lambda>e. DirtyLp (fst e) (snd e)"] .
    then show ?thesis
      using nullifiers(2) by (auto simp: all_keys_def img [OF ends(2)] img [OF ends(4)] img [OF ends(6)] img [OF ends(8)] img [OF ends(10)]
        img [OF ends(14)])
  qed
  ultimately show ?thesis
    by (simp add: from_records_def accounts(1) tokens(1) contracts(1) validators(1) pools(1) lps(1) htlcs(1)
        nullifiers tickers curves)
qed

section \<open>What a move leaves on the store\<close>

lemma distinct_record_keys: "inj f \<Longrightarrow> distinct (map fst (map (\<lambda>(x, v). (f x, g v)) (fm_entries m)))"
proof -
  assume "inj f"
  moreover have "map fst (map (\<lambda>(x, v). (f x, g v)) es) = map f (map fst es)" for es by (induction es) auto
  ultimately show ?thesis using distinct_entries [of m] by (simp only: distinct_map) (auto intro: inj_on_subset)
qed

lemma distinct_records: "distinct (map fst (record_entries P L))"
proof -
  have inj: "inj (\<lambda>i :: id32. rec_key tag (be_bytes 32 i))" "inj (\<lambda>t :: u32. rec_key tag (be_bytes 4 t))" "inj (rec_key tag)" for tag
    by (simp_all add: inj_def rec_key_def)
  have "inj (\<lambda>e :: u32 \<times> id32. lp_key (fst e) (snd e))"
    by (simp add: inj_def lp_key_def prod_eq_iff)
  from distinct_record_keys [OF this, of "le_bytes 8" "l_lps L"]
  have lps: "distinct (map fst (map (\<lambda>((t, i), n). (lp_key t i, le_bytes 8 n)) (fm_entries (l_lps L))))"
    by (simp add: case_prod_unfold)
  have nulls: "distinct (map fst (map (\<lambda>nf. (rec_key REC_NULLIFIER (be_bytes 32 nf), [1 :: byte])) (sorted_list_of_fset (l_nullifiers L))))"
    by (simp add: distinct_map o_def sorted_list_of_fset.rep_eq inj_on_def rec_key_def)
  have metas: "distinct (map fst (case l_meta L of Some n \<Rightarrow> [([REC_META], le_bytes 4 n)] | None \<Rightarrow> []))"
    by (simp split: option.split)
  show ?thesis
    unfolding record_entries_def map_append distinct_append
    by (intro conjI distinct_record_keys inj lps nulls metas) (auto simp: rec_key_def lp_key_def rec_tags split: option.splits)
qed

lemma map_of_rev: "distinct (map fst es) \<Longrightarrow> map_of (rev es) = map_of es"
  by (rule map_of_graph) (simp add: map_of_eq_Some_iff)

lemma batch_last_drops:
  "batch_last (map (\<lambda>(k, _). (d, k, None)) es) c k = (if c = d \<and> (\<exists>v. (k, v) \<in> set es) then Some None else None)"
  by (induction es) (auto split: option.splits)

lemma batch_last_staged:
  "batch_last (map (\<lambda>(k, v). (d, k, Some v)) es) c k = (if c = d then map_option Some (map_of (rev es) k) else None)"
  by (induction es) (auto simp: map_add_def split: option.splits)

lemma distinct_object_records: "distinct (map fst (object_records P L))"
proof -
  have "mset (map fst (object_records P L)) = mset (map fst (record_entries P L))" by (metis mset_map mset_sort object_records_def)
  then show ?thesis using distinct_records [of P L] mset_eq_imp_distinct_iff by blast
qed

lemma adopted_objects:
  "mem_get (mem_write mem_new (map (\<lambda>(k, v). (ColObjects, k, Some v)) (object_records P L))) ColObjects k = Some v \<longleftrightarrow>
   (k, v) \<in> set (object_records P L)"
proof -
  have "map_of (object_records P L) k = Some v \<longleftrightarrow> (k, v) \<in> set (object_records P L)"
    by (rule map_of_eq_Some_iff [OF distinct_object_records])
  then show ?thesis
    by (auto simp: mem.get_commit after_batch_def batch_last_staged map_of_rev [OF distinct_object_records] mem_new_def mem_get_def
        simp del: set_map split: option.split)
qed

lemma rehome_get:
  assumes "rehome P ks base staged st = Inr (L', root', base')"
  obtains L s where "state_root P mem_get mem_write ks st = Inr (root', L, root', s)" and "L' = L\<lparr>l_max_validators := DEFAULT_MAX_VALIDATORS\<rparr>"
    and "\<And>k v. mem_get base' ColObjects k = Some v \<longleftrightarrow> (k, v) \<in> set (object_records P L)"
    and "\<And>k. mem_get base' ColState k = mem_get s ColState k"
    and "\<And>k. mem_get base' ColMeta k = (case map_of (rev staged) k of Some v \<Rightarrow> Some v | None \<Rightarrow> mem_get base ColMeta k)"
    and "\<And>k. mem_get base' ColBlocks k = mem_get base ColBlocks k" and "\<And>k. mem_get base' ColTxIndex k = mem_get base ColTxIndex k"
proof -
  obtain L s where root: "state_root P mem_get mem_write ks st = Inr (root', L, root', s)" and L': "L' = L\<lparr>l_max_validators := DEFAULT_MAX_VALIDATORS\<rparr>"
    and base': "base' = mem_write base (rehome_batch (mem_scan base ColObjects []) (mem_scan base ColState []) (object_records P L)
        (mem_scan s ColState []) staged)"
  proof -
    from assms obtain r L s where "state_root P mem_get mem_write ks st = Inr (r, L, root', s)" "L' = L\<lparr>l_max_validators := DEFAULT_MAX_VALIDATORS\<rparr>"
        "base' = mem_write base (rehome_batch (mem_scan base ColObjects []) (mem_scan base ColState []) (object_records P L)
        (mem_scan s ColState []) staged)" by (auto simp: rehome_def)
    moreover from this(1) have "r = root'" by (cases st) (auto simp: state_root_def split: if_splits)
    ultimately show thesis using that by blast
  qed
  note distinct = distinct_object_records [of P L]
  have look: "map_of (object_records P L) k = Some v \<longleftrightarrow> (k, v) \<in> set (object_records P L)" for k v
    by (rule map_of_eq_Some_iff [OF distinct])
  note last = batch_last_append batch_last_drops batch_last_staged map_of_rev [OF distinct] map_of_rev [OF mem.distinct_scan [OF TrueI]]
    mem.map_of_scan
  have get: "mem_get base' c k = after_batch (mem_get base) (rehome_batch (mem_scan base ColObjects []) (mem_scan base ColState [])
      (object_records P L) (mem_scan s ColState []) staged) c k" for c k
    unfolding base' by (simp add: mem.get_commit)
  have gone: "mem_get base c k = None" if "\<nexists>v. (k, v) \<in> set (mem_scan base c [])" for c k
    using that by (cases "mem_get base c k") (simp_all add: mem.set_scan)
  show thesis
  proof (rule that [OF root L'])
    show "mem_get base' ColObjects k = Some v \<longleftrightarrow> (k, v) \<in> set (object_records P L)" for k v
      unfolding get after_batch_def rehome_batch_def look [symmetric]
      using gone [of k ColObjects] by (auto simp: last split: option.splits)
    show "mem_get base' ColState k = mem_get s ColState k" for k
      unfolding get after_batch_def rehome_batch_def
      using gone [of k ColState] by (auto simp: last split: option.splits)
    show "mem_get base' ColMeta k = (case map_of (rev staged) k of Some v \<Rightarrow> Some v | None \<Rightarrow> mem_get base ColMeta k)" for k
      unfolding get after_batch_def rehome_batch_def by (auto simp: last split: option.splits)
    show "mem_get base' ColBlocks k = mem_get base ColBlocks k" "mem_get base' ColTxIndex k = mem_get base ColTxIndex k" for k
      unfolding get after_batch_def rehome_batch_def by (simp_all add: last)
  qed
qed

text \<open>
  A restart reads the entries back. After a ledger has moved onto a durable store, booting from the records there gives
  back every account, token, ticker, contract, nullifier, validator, pool, share, hash lock and curve and the
  token counter. The trie nodes moved along, the block log is untouched and the staged metadata is in the same batch.
  Every entry is marked for the new root except the bonding curves.
\<close>

lemma restart_restores_ledger:
  assumes "encoding_laws P" and "records_wf L" and "records_fit L" and "meta_wf L" and "object_records P L \<noteq> []"
    and "rehome P ks base staged (L, root, s) = Inr (L', root', base')"
  shows "from_records P mem_get mem_scan base' = Some (L'\<lparr>l_dirty := all_keys L |-| DirtyCurve |`| fmdom (l_curves L)\<rparr>) \<and>
    L' = L\<lparr>l_dirty := {||}, l_max_validators := DEFAULT_MAX_VALIDATORS\<rparr> \<and>
    (\<forall>k. mem_get base' ColBlocks k = mem_get base ColBlocks k) \<and> (\<forall>k. mem_get base' ColTxIndex k = mem_get base ColTxIndex k) \<and>
    (\<forall>k. mem_get base' ColMeta k = (case map_of (rev staged) k of Some v \<Rightarrow> Some v | None \<Rightarrow> mem_get base ColMeta k))"
proof -
  obtain M s' where root: "state_root P mem_get mem_write ks (L, root, s) = Inr (root', M, root', s')"
    and L': "L' = M\<lparr>l_max_validators := DEFAULT_MAX_VALIDATORS\<rparr>"
    and objects: "\<And>k v. mem_get base' ColObjects k = Some v \<longleftrightarrow> (k, v) \<in> set (object_records P M)"
    and rest: "\<And>k. mem_get base' ColMeta k = (case map_of (rev staged) k of Some v \<Rightarrow> Some v | None \<Rightarrow> mem_get base ColMeta k)"
      "\<And>k. mem_get base' ColBlocks k = mem_get base ColBlocks k" "\<And>k. mem_get base' ColTxIndex k = mem_get base ColTxIndex k"
    using assms(6) by (rule rehome_get) blast
  have M: "M = L\<lparr>l_dirty := {||}\<rparr>" using root by (auto simp: state_root_def split: if_splits)
  have same: "object_records P M = object_records P L" by (simp add: object_records_def record_entries_def M)
  have "from_records P mem_get mem_scan base' = Some (L\<lparr>l_dirty := all_keys L |-| DirtyCurve |`| fmdom (l_curves L),
     l_max_validators := DEFAULT_MAX_VALIDATORS\<rparr>)"
    by (rule from_records_object_records [OF assms(1-4) _ assms(5)]) (simp only: objects same)
  then show ?thesis by (simp add: rest L' M)
qed

text \<open>A ledger with one account and one validator.\<close>

lemma demo_restart:
  fixes P :: "(u64, 's, 'r) prims"
  defines "L \<equiv> (demo_validators :: u64 ledger)\<lparr>l_dirty := {||}\<rparr>"
  shows "records_wf L" and "records_fit L" and "meta_wf L" and "object_records P L \<noteq> []"
    and "all_keys L |-| DirtyCurve |`| fmdom (l_curves L) = {|DirtyMeta, DirtyAccount 0, DirtyValidator 0|}"
    and "l_max_validators L = DEFAULT_MAX_VALIDATORS"
proof -
  have fields: "l_accounts L = fmupd 0 account_default fmempty" "l_validators L = fmupd 0 \<lparr>val_staked = 200000000, val_unbonding = [], val_tombstoned = False\<rparr> fmempty"
    "l_tokens L = fmempty" "l_tickers L = fmempty" "l_meta L = None" "l_next_token_id L = 1" "l_contracts L = fmempty"
    "l_nullifiers L = {||}" "l_pools L = fmempty" "l_lps L = fmempty" "l_htlcs L = fmempty" "l_curves L = fmempty"
    "l_max_validators L = DEFAULT_MAX_VALIDATORS"
    by (simp_all add: L_def demo_validators_def put_validator_def put_account_def ledger_new_def)
  show "records_wf L" by (simp add: records_wf_def fields tokens_wf_def token_by_id_def)
  show "records_fit L" by (simp add: records_fit_def fields account_fits_def validator_fits_def account_default_def fcard_fempty)
  show "meta_wf L" by (simp add: meta_wf_def fields)
  show "object_records P L \<noteq> []"
    by (simp add: object_records_def record_entries_def fields fm_entries_def sorted_list_of_fset.rep_eq)
  show "all_keys L |-| DirtyCurve |`| fmdom (l_curves L) = {|DirtyMeta, DirtyAccount 0, DirtyValidator 0|}"
    by (auto simp: all_keys_def fields)
  show "l_max_validators L = DEFAULT_MAX_VALIDATORS" by (rule fields(13))
qed

lemma demo_from_records:
  fixes P :: "(u64, 's, 'r) prims"
  assumes "encoding_laws P"
  shows "\<exists>M. from_records P mem_get mem_scan (mem_write mem_new (map (\<lambda>(k, v). (ColObjects, k, Some v))
     (object_records P ((demo_validators :: u64 ledger)\<lparr>l_dirty := {||}\<rparr>)))) = Some M"
  using from_records_object_records [OF assms demo_restart(1-3) adopted_objects demo_restart(4)] by blast

lemma restart_restores_ledger_witness:
  "\<exists>L' base'. rehome (toy_prims :: (u64, u64, unit) prims) [] mem_new [] (demo_validators\<lparr>l_dirty := {||}\<rparr>, 0, mem_new) = Inr (L', 0, base') \<and>
     from_records (toy_prims :: (u64, u64, unit) prims) mem_get mem_scan base' =
       Some (demo_validators\<lparr>l_dirty := {|DirtyMeta, DirtyAccount 0, DirtyValidator 0|}\<rparr>)"
proof -
  let ?P = "toy_prims :: (u64, u64, unit) prims" and ?L = "demo_validators\<lparr>l_dirty := {||}\<rparr>"
  obtain L' base' where r: "rehome ?P [] mem_new [] (?L, 0, mem_new) = Inr (L', 0, base')"
    by (simp add: rehome_def state_root_def)
  from restart_restores_ledger [OF toy_encoding_laws demo_restart(1-4) r] demo_restart(5,6) r show ?thesis
    by (intro exI [of _ L'] exI [of _ base']) simp
qed

end
