(* ===== verification/Parallel.thy ===== *)
theory Parallel
  imports Ledger_Settlement Codecs
begin

text \<open>
  Parallel block application, \<^verbatim>\<open>lat-state/src/parallel.rs\<close>: the pre-pass that verifies confidential
  proofs, the scheduling of a run of transparent transactions into waves, and the execution of a
  wave by several workers on copies of the ledger. The number of workers, which the source asks of
  the operating system, is an argument. A worker is a function of the ledger it was given, so the
  order in which workers run does not matter; their results are joined in the order of the chunks.

  The reference is \<open>apply_all\<close>, one transaction after the other. The argument is made once, in the
  locale \<open>local_actions\<close>: actions with a footprint, which read and write nothing outside of it.
\<close>

section \<open>The model\<close>

fun access_set :: "('g, 's, 'r) transaction \<Rightarrow> id32 list option" where
  "access_set (Register pubkey pow_nonce) = Some [pubkey]"
| "access_set (PublicTransfer token sender recipient amount fee nonce sg) = Some [sender, recipient]"
| "access_set (Shield token sender recipient amount fee nonce sg) = Some [sender, recipient]"
| "access_set _ = None"

definition MIN_PARALLEL :: nat where "MIN_PARALLEL = 8"

text \<open>\<^verbatim>\<open>slice::chunks\<close>\<close>

function chunks :: "nat \<Rightarrow> 'a list \<Rightarrow> 'a list list" where
  "chunks n xs = (if xs = [] \<or> n = 0 then [] else take n xs # chunks n (drop n xs))"
  by pat_completeness auto

termination
  by (relation "measure (\<lambda>(n, xs). length xs)") auto

declare chunks.simps [simp del]

subsection \<open>The pre-pass\<close>

datatype ('g, 's, 'r) job =
    JobAnon "('g, 's, 'r) transaction"
  | JobSolvent "('g, 's, 'r) transaction" "'g ciphertext"

definition accounts_written :: "dirty_key list \<Rightarrow> id32 list" where
  "accounts_written ks = List.map_filter (\<lambda>k. case k of DirtyAccount i \<Rightarrow> Some i | _ \<Rightarrow> None) ks"

definition solvent_job ::
  "('g::ab_group_add, 's, 'r) prims \<Rightarrow> 'g ledger \<Rightarrow> id32 set \<Rightarrow> nat \<Rightarrow> ('g, 's, 'r) transaction \<Rightarrow> u32 \<Rightarrow>
   ('g, 's, 'r) solvent_transfer \<Rightarrow> (nat \<times> ('g, 's, 'r) job) list" where
  "solvent_job P L written i tx token xfer =
    (let sender = pk_to_bytes P (st_sender xfer) in
     if sender \<in> written then []
     else (case ledger_balance L sender token of
         Some bal \<Rightarrow> [(i, JobSolvent tx bal)]
       | None \<Rightarrow> []))"

fun preverify_jobs ::
  "('g::ab_group_add, 's::comm_ring_1, 'r) prims \<Rightarrow> 'g ledger \<Rightarrow> id32 set \<Rightarrow> nat \<Rightarrow> ('g, 's, 'r) transaction list \<Rightarrow>
   (nat \<times> ('g, 's, 'r) job) list" where
  "preverify_jobs P L written i [] = []"
| "preverify_jobs P L written i (tx # txs) =
    (case tx of
       AnonTransfer token xfer \<Rightarrow> [(i, JobAnon tx)]
     | SolventTransfer token xfer \<Rightarrow> solvent_job P L written i tx token xfer
     | Unshield token recipient amount xfer sg \<Rightarrow> solvent_job P L written i tx token xfer
     | _ \<Rightarrow> [])
    @ preverify_jobs P L (written \<union> set (accounts_written (dirty_keys_for P L tx))) (i + 1) txs"

definition run_job ::
  "('g::ab_group_add, 's::comm_ring_1, 'r) prims \<Rightarrow> nat \<times> ('g, 's, 'r) job \<Rightarrow> (nat \<times> 'g proof_pass) option" where
  "run_job P ij = (case snd ij of
       JobAnon (AnonTransfer token xfer) \<Rightarrow> if anon_verify P token xfer then Some (fst ij, PassAnon) else None
     | JobSolvent (SolventTransfer token xfer) bal \<Rightarrow>
         if solvent_verify P token bal xfer then Some (fst ij, PassAgainstBalance bal) else None
     | JobSolvent (Unshield token recipient amount xfer sg) bal \<Rightarrow>
         if solvent_verify P token bal xfer then Some (fst ij, PassAgainstBalance bal) else None
     | _ \<Rightarrow> None)"

definition preverify_confidential ::
  "('g::ab_group_add, 's::comm_ring_1, 'r) prims \<Rightarrow> nat \<Rightarrow> 'g ledger \<Rightarrow> ('g, 's, 'r) transaction list \<Rightarrow>
   (nat \<times> 'g proof_pass) list" where
  "preverify_confidential P workers L txs =
    (let jobs = preverify_jobs P L {} 0 txs in
     if length jobs < 2 then []
     else
       let w = min workers (length jobs); chunk_len = (length jobs + w - 1) div w in
       concat (map (List.map_filter (run_job P)) (chunks chunk_len jobs)))"

subsection \<open>Waves\<close>

text \<open>
  \<^verbatim>\<open>next_wave\<close> and the waves so far. The source indexes \<^verbatim>\<open>waves[w]\<close>, which would panic out of range;
  \<open>waves_ok\<close> below shows that \<open>w\<close> is at most the number of waves, so the update is in range.
\<close>

definition wave_of :: "('k, nat) fmap \<Rightarrow> 'k list \<Rightarrow> nat" where
  "wave_of next_wave s = foldr max (map (\<lambda>a. case fmlookup next_wave a of Some w \<Rightarrow> w | None \<Rightarrow> 0) s) 0"

definition schedule_step :: "('k, nat) fmap \<times> nat list list \<Rightarrow> nat \<times> 'k list \<Rightarrow> ('k, nat) fmap \<times> nat list list" where
  "schedule_step st ks = (case st of (next_wave, waves) \<Rightarrow> (case ks of (k, s) \<Rightarrow>
     let w = wave_of next_wave s;
         waves1 = (if w = length waves then waves @ [[]] else waves) in
     (foldl (\<lambda>m a. fmupd a (w + 1) m) next_wave s, waves1[w := waves1 ! w @ [k]])))"

definition schedule_waves :: "'k list list \<Rightarrow> nat list list" where
  "schedule_waves sets = snd (foldl schedule_step (fmempty, []) (enumerate 0 sets))"

subsection \<open>Execution\<close>

text \<open>Transactions of the run, given by their indices, in order, up to the first error.\<close>

fun run_chunk ::
  "('g::ab_group_add, 's::comm_ring_1, 'r) prims \<Rightarrow> u64 \<Rightarrow> ('g, 's, 'r) transaction list \<Rightarrow> nat list \<Rightarrow> 'g ledger \<Rightarrow>
   (nat \<times> ledger_error) option \<times> 'g ledger" where
  "run_chunk P height run [] L = (None, L)"
| "run_chunk P height run (k # ks) L =
    (case apply_at P (run ! k) height L of
       (None, L1) \<Rightarrow> run_chunk P height run ks L1
     | (Some e, L1) \<Rightarrow> (Some (k, e), L1))"

definition account_record :: "'g ledger \<Rightarrow> id32 \<Rightarrow> 'g account option" where
  "account_record L i = get_account L i"

definition adopt_account_record :: "id32 \<Rightarrow> 'g account \<Rightarrow> 'g ledger \<Rightarrow> 'g ledger" where
  "adopt_account_record i a L = mark (DirtyAccount i) (put_account i a L)"

definition chunk_written :: "id32 list list \<Rightarrow> nat list \<Rightarrow> 'g ledger \<Rightarrow> (id32 \<times> 'g account) list" where
  "chunk_written sets chunk view =
     List.map_filter (\<lambda>a. map_option (Pair a) (account_record view a)) (rev (remdups (rev (concat (map ((!) sets) chunk)))))"

definition lower_err :: "(nat \<times> ledger_error) option \<Rightarrow> (nat \<times> ledger_error) option \<Rightarrow> (nat \<times> ledger_error) option" where
  "lower_err acc r = (case r of
       None \<Rightarrow> acc
     | Some (k, e) \<Rightarrow> (case acc of None \<Rightarrow> r | Some (fk, fe) \<Rightarrow> if k < fk then r else acc))"

definition execute_wave ::
  "('g::ab_group_add, 's::comm_ring_1, 'r) prims \<Rightarrow> nat \<Rightarrow> ('g, 's, 'r) transaction list \<Rightarrow> id32 list list \<Rightarrow>
   nat list \<Rightarrow> u64 \<Rightarrow> 'g ledger \<Rightarrow> ledger_error option \<times> 'g ledger" where
  "execute_wave P workers run sets wave height L =
    (let w = min workers (length wave) in
     if length wave < MIN_PARALLEL \<or> w < 2 then
       (case run_chunk P height run wave L of (err, L1) \<Rightarrow> (map_option snd err, L1))
     else
       let chunk_len = (length wave + w - 1) div w;
           cs = chunks chunk_len wave;
           results = map (\<lambda>c. run_chunk P height run c L) cs in
       (case foldl lower_err None (map fst results) of
          Some (k, e) \<Rightarrow> (Some e, L)
        | None \<Rightarrow> (None, foldl (\<lambda>M (i, a). adopt_account_record i a M) L
            (concat (map2 (chunk_written sets) cs (map snd results))))))"

fun apply_waves ::
  "('g::ab_group_add, 's::comm_ring_1, 'r) prims \<Rightarrow> nat \<Rightarrow> ('g, 's, 'r) transaction list \<Rightarrow> id32 list list \<Rightarrow>
   u64 \<Rightarrow> nat list list \<Rightarrow> 'g ledger \<Rightarrow> ledger_error option \<times> 'g ledger" where
  "apply_waves P workers run sets height [] L = (None, L)"
| "apply_waves P workers run sets height (wave # waves) L =
    (case execute_wave P workers run sets wave height L of
       (None, L1) \<Rightarrow> apply_waves P workers run sets height waves L1
     | (Some e, L1) \<Rightarrow> (Some e, L1))"

definition apply_run ::
  "('g::ab_group_add, 's::comm_ring_1, 'r) prims \<Rightarrow> nat \<Rightarrow> ('g, 's, 'r) transaction list \<Rightarrow> u64 \<Rightarrow> 'g ledger \<Rightarrow>
   ledger_error option \<times> 'g ledger" where
  "apply_run P workers run height L =
    (let sets = map (\<lambda>tx. the (access_set tx)) run in
     apply_waves P workers run sets height (schedule_waves sets) L)"

function block_loop ::
  "('g::ab_group_add, 's::comm_ring_1, 'r) prims \<Rightarrow> nat \<Rightarrow> (nat \<Rightarrow> 'g proof_pass option) \<Rightarrow> u64 \<Rightarrow> nat \<Rightarrow>
   ('g, 's, 'r) transaction list \<Rightarrow> 'g ledger \<Rightarrow> ledger_error option \<times> 'g ledger" where
  "block_loop P workers pre height i txs L =
    (case txs of
       [] \<Rightarrow> (None, L)
     | tx # rest \<Rightarrow>
         if access_set tx = None then
           (case (case pre i of
                Some p \<Rightarrow> apply_at_with P tx height (Some p) L
              | None \<Rightarrow> apply_at P tx height L) of
              (None, L1) \<Rightarrow> block_loop P workers pre height (i + 1) rest L1
            | (Some e, L1) \<Rightarrow> (Some e, L1))
         else
           let run = tx # takeWhile (\<lambda>t. access_set t \<noteq> None) rest in
           (case apply_run P workers run height L of
              (None, L1) \<Rightarrow> block_loop P workers pre height (i + length run) (dropWhile (\<lambda>t. access_set t \<noteq> None) rest) L1
            | (Some e, L1) \<Rightarrow> (Some e, L1)))"
  by pat_completeness auto

termination
  by (relation "measure (\<lambda>(P, workers, pre, height, i, txs, L). length txs)")
    (auto simp: less_Suc_eq_le length_dropWhile_le)

declare block_loop.simps [simp del]

definition apply_block_parallel ::
  "('g::ab_group_add, 's::comm_ring_1, 'r) prims \<Rightarrow> nat \<Rightarrow> 'g ledger \<Rightarrow> ('g, 's, 'r) transaction list \<Rightarrow> u64 \<Rightarrow>
   ledger_error option \<times> 'g ledger" where
  "apply_block_parallel P workers L txs height =
     block_loop P workers (map_of (preverify_confidential P workers L txs)) height 0 txs L"

section \<open>The sequential reference\<close>

fun apply_all ::
  "('g::ab_group_add, 's::comm_ring_1, 'r) prims \<Rightarrow> u64 \<Rightarrow> ('g, 's, 'r) transaction list \<Rightarrow> 'g ledger \<Rightarrow>
   ledger_error option \<times> 'g ledger" where
  "apply_all P height [] L = (None, L)"
| "apply_all P height (tx # txs) L =
    (case apply_at P tx height L of
       (None, L1) \<Rightarrow> apply_all P height txs L1
     | (Some e, L1) \<Rightarrow> (Some e, L1))"

lemma apply_all_append:
  "apply_all P height (xs @ ys) L =
    (case apply_all P height xs L of
       (None, L1) \<Rightarrow> apply_all P height ys L1
     | (Some e, L1) \<Rightarrow> (Some e, L1))"
  by (induction xs arbitrary: L) (auto split: prod.split option.split)

section \<open>Actions with a footprint\<close>

text \<open>\<open>None\<close> is failure; which error it was is left out.\<close>

fun act_run :: "('x \<Rightarrow> 's \<Rightarrow> 's option) \<Rightarrow> 'x list \<Rightarrow> 's \<Rightarrow> 's option" where
  "act_run act [] s = Some s"
| "act_run act (x # xs) s = Option.bind (act x s) (act_run act xs)"

lemma act_run_append: "act_run act (xs @ ys) s = Option.bind (act_run act xs s) (act_run act ys)"
  by (induction xs arbitrary: s) (simp_all split: bind_splits)

locale local_actions =
  fixes act :: "'x \<Rightarrow> 's \<Rightarrow> 's option"
    and foot :: "'x \<Rightarrow> 'k set"
    and look :: "'s \<Rightarrow> 'k \<Rightarrow> 'v"
  assumes ext: "(\<And>k. look s k = look t k) \<Longrightarrow> s = t"
    and frame: "act x s = Some s' \<Longrightarrow> k \<notin> foot x \<Longrightarrow> look s' k = look s k"
    and only_foot: "(\<And>k. k \<in> foot x \<Longrightarrow> look s k = look t k) \<Longrightarrow> act x s = Some s' \<Longrightarrow>
      \<exists>t'. act x t = Some t' \<and> (\<forall>k\<in>foot x. look t' k = look s' k)"
begin

lemma commute_Some:
  assumes "foot x \<inter> foot y = {}" and "act x s = Some s1" and "act y s1 = Some u"
  shows "Option.bind (act y s) (act x) = Some u"
proof -
  have "look s1 k = look s k" if "k \<in> foot y" for k using frame [OF assms(2)] assms(1) that by blast
  from only_foot [OF this assms(3)] obtain t1 where t1: "act y s = Some t1" "\<forall>k\<in>foot y. look t1 k = look u k" by blast
  have "look s k = look t1 k" if "k \<in> foot x" for k using frame [OF t1(1)] assms(1) that by fastforce
  from only_foot [OF this assms(2)] obtain t2 where t2: "act x t1 = Some t2" "\<forall>k\<in>foot x. look t2 k = look s1 k" by blast
  have "look t2 k = look u k" for k
  proof (cases "k \<in> foot x")
    case True
    then have "k \<notin> foot y" using assms(1) by blast
    then show ?thesis using t2 True frame [OF assms(3)] by simp
  next
    case False
    then have "look t2 k = look t1 k" using frame [OF t2(1)] by simp
    moreover have "look t1 k = look u k"
      using t1 False frame [OF t1(1), of k] frame [OF assms(2), of k] frame [OF assms(3), of k] by (cases "k \<in> foot y") simp_all
    ultimately show ?thesis by simp
  qed
  then have "t2 = u" by (rule ext)
  then show ?thesis using t1 t2 by simp
qed

lemma commute: "foot x \<inter> foot y = {} \<Longrightarrow> Option.bind (act x s) (act y) = Option.bind (act y s) (act x)"
proof (rule option_ext)
  fix u
  assume d: "foot x \<inter> foot y = {}"
  then have "foot y \<inter> foot x = {}" by blast
  then show "Option.bind (act x s) (act y) = Some u \<longleftrightarrow> Option.bind (act y s) (act x) = Some u"
    using commute_Some [OF d, of s _ u] commute_Some [of y x s _ u] by (auto simp: bind_eq_Some_conv)
qed

text \<open>An action moves past a list of actions that it does not conflict with.\<close>

lemma move_back:
  "(\<And>y. y \<in> set ys \<Longrightarrow> foot x \<inter> foot y = {}) \<Longrightarrow> act_run act (x # ys) s = act_run act (ys @ [x]) s"
proof (induction ys arbitrary: s)
  case Nil
  show ?case by simp
next
  case (Cons y ys)
  have xy: "foot x \<inter> foot y = {}" using Cons.prems by simp
  have "act_run act (x # y # ys) s = Option.bind (Option.bind (act x s) (act y)) (act_run act ys)" by (simp split: bind_splits)
  also have "\<dots> = Option.bind (Option.bind (act y s) (act x)) (act_run act ys)" by (simp only: commute [OF xy])
  also have "\<dots> = Option.bind (act y s) (act_run act (x # ys))" by (simp split: bind_splits)
  also have "\<dots> = act_run act ((y # ys) @ [x]) s" using Cons by (simp cong: Option.bind_cong)
  finally show ?case .
qed

lemma run_frame: "act_run act xs s = Some s' \<Longrightarrow> k \<notin> (\<Union>x\<in>set xs. foot x) \<Longrightarrow> look s' k = look s k"
  by (induction xs arbitrary: s) (auto simp: bind_eq_Some_conv frame)

lemma run_only_foot:
  assumes "\<And>k. k \<in> (\<Union>x\<in>set xs. foot x) \<Longrightarrow> look s k = look t k" and "act_run act xs s = Some s'"
  shows "\<exists>t'. act_run act xs t = Some t' \<and> (\<forall>k\<in>(\<Union>x\<in>set xs. foot x). look t' k = look s' k)"
  using assms
proof (induction xs arbitrary: s t)
  case Nil
  then show ?case by simp
next
  case (Cons x xs)
  then obtain s1 where s1: "act x s = Some s1" "act_run act xs s1 = Some s'" by (auto simp: bind_eq_Some_conv)
  obtain t1 where t1: "act x t = Some t1" "\<forall>k\<in>foot x. look t1 k = look s1 k"
    using only_foot [OF _ s1(1), of t] Cons.prems(1) by auto
  have "look s1 k = look t1 k" if "k \<in> (\<Union>x\<in>set (x # xs). foot x)" for k
    using t1 frame [OF s1(1), of k] frame [OF t1(1), of k] Cons.prems(1) [OF that] by (cases "k \<in> foot x") simp_all
  note same = this
  obtain t' where t': "act_run act xs t1 = Some t'" "\<forall>k\<in>(\<Union>x\<in>set xs. foot x). look t' k = look s' k"
    using Cons.IH [OF _ s1(2), of t1] same by auto
  have "look t' k = look s' k" if k: "k \<in> (\<Union>x\<in>set (x # xs). foot x)" for k
  proof (cases "k \<in> (\<Union>x\<in>set xs. foot x)")
    case True
    then show ?thesis using t'(2) by blast
  next
    case False
    then show ?thesis using same [OF k] run_frame [OF t'(1)] run_frame [OF s1(2)] by simp
  qed
  then show ?case using t1 t' by auto
qed

text \<open>
  Chunks that share no key, each run from the same state, all succeed exactly when their run in
  sequence does, and each sees there what it computed alone.
\<close>

definition separate :: "'x list list \<Rightarrow> bool" where
  "separate cs \<longleftrightarrow> sorted_wrt (\<lambda>c d. (\<Union>x\<in>set c. foot x) \<inter> (\<Union>x\<in>set d. foot x) = {}) cs"

lemma chunks_from_sequence:
  assumes "separate cs" and "act_run act (concat cs) s = Some u" and "c \<in> set cs"
  shows "\<exists>t. act_run act c s = Some t \<and> (\<forall>k\<in>(\<Union>x\<in>set c. foot x). look t k = look u k)"
  using assms
proof (induction cs arbitrary: s)
  case Nil
  then show ?case by simp
next
  case (Cons d cs)
  obtain s1 where s1: "act_run act d s = Some s1" "act_run act (concat cs) s1 = Some u"
    using Cons.prems(2) by (auto simp: act_run_append bind_eq_Some_conv)
  have apart: "k \<in> (\<Union>x\<in>set d. foot x) \<Longrightarrow> k \<notin> (\<Union>x\<in>set (concat cs). foot x)" for k
    using Cons.prems(1) unfolding separate_def by fastforce
  show ?case
  proof (cases "c = d")
    case True
    then show ?thesis using s1 run_frame [OF s1(2)] apart by auto
  next
    case False
    then have c: "c \<in> set cs" using Cons.prems(3) by simp
    obtain t where t: "act_run act c s1 = Some t" "\<forall>k\<in>(\<Union>x\<in>set c. foot x). look t k = look u k"
      using Cons.IH [OF _ s1(2) c] Cons.prems(1) by (auto simp: separate_def)
    have "look s1 k = look s k" if "k \<in> (\<Union>x\<in>set c. foot x)" for k
      using run_frame [OF s1(1), of k] apart [of k] that c by auto
    from run_only_foot [OF this t(1)] show ?thesis using t(2) by auto
  qed
qed

lemma sequence_from_chunks:
  assumes "separate cs" and "\<And>c. c \<in> set cs \<Longrightarrow> act_run act c s \<noteq> None"
  shows "act_run act (concat cs) s \<noteq> None"
  using assms
proof (induction cs arbitrary: s)
  case Nil
  then show ?case by simp
next
  case (Cons d cs)
  obtain s1 where s1: "act_run act d s = Some s1" using Cons.prems(2) [of d] by auto
  have "act_run act c s1 \<noteq> None" if c: "c \<in> set cs" for c
  proof -
    obtain t where t: "act_run act c s = Some t" using Cons.prems(2) [of c] c by auto
    have "look s k = look s1 k" if "k \<in> (\<Union>x\<in>set c. foot x)" for k
    proof -
      have "k \<notin> (\<Union>x\<in>set d. foot x)" using Cons.prems(1) c that unfolding separate_def by fastforce
      then show ?thesis using run_frame [OF s1] by simp
    qed
    from run_only_foot [OF this t] show ?thesis by auto
  qed
  then have "act_run act (concat cs) s1 \<noteq> None" using Cons.IH Cons.prems(1) by (simp add: separate_def)
  then show ?case using s1 by (simp add: act_run_append)
qed

end

section \<open>The schedule\<close>

text \<open>
  After \<open>n\<close> transactions: every key of a scheduled transaction is free again only after its wave, and
  two transactions of one wave share no key.
\<close>

definition waves_ok :: "'k list list \<Rightarrow> nat \<Rightarrow> ('k, nat) fmap \<Rightarrow> nat list list \<Rightarrow> bool" where
  "waves_ok sets n next_wave waves \<longleftrightarrow>
     (\<forall>w<length waves. \<forall>j\<in>set (waves ! w). j < n \<and> (\<forall>a\<in>set (sets ! j). \<exists>m. fmlookup next_wave a = Some m \<and> w < m)) \<and>
     (\<forall>a m. fmlookup next_wave a = Some m \<longrightarrow> m \<le> length waves) \<and>
     (\<forall>wave\<in>set waves. sorted_wrt (\<lambda>i j. set (sets ! i) \<inter> set (sets ! j) = {}) wave)"

lemma wave_of_ge: "a \<in> set s \<Longrightarrow> fmlookup next_wave a = Some m \<Longrightarrow> m \<le> wave_of next_wave s"
  by (induction s) (auto simp: wave_of_def)

lemma wave_of_le: "(\<forall>a m. fmlookup next_wave a = Some m \<longrightarrow> m \<le> b) \<Longrightarrow> wave_of next_wave s \<le> b"
  by (induction s) (auto simp: wave_of_def split: option.split)

lemma fmlookup_foldl_set:
  "fmlookup (foldl (\<lambda>m a. fmupd a v m) next_wave s) a = (if a \<in> set s then Some v else fmlookup next_wave a)"
  by (induction s arbitrary: next_wave) auto

lemma list_update_append:
  assumes "w < length ws"
  shows "concat (ws[w := ws ! w @ [k]]) = concat (take w ws) @ ws ! w @ [k] @ concat (drop (Suc w) ws)"
    and "concat ws = concat (take w ws) @ ws ! w @ concat (drop (Suc w) ws)"
proof -
  show "concat (ws[w := ws ! w @ [k]]) = concat (take w ws) @ ws ! w @ [k] @ concat (drop (Suc w) ws)"
    by (simp add: upd_conv_take_nth_drop [OF assms])
  have "concat (take w ws @ ws ! w # drop (Suc w) ws) = concat (take w ws) @ ws ! w @ concat (drop (Suc w) ws)" by simp
  then show "concat ws = concat (take w ws) @ ws ! w @ concat (drop (Suc w) ws)"
    using id_take_nth_drop [OF assms] by simp
qed

lemma schedule_step_ok:
  assumes ok: "waves_ok sets n next_wave waves"
  defines "w \<equiv> wave_of next_wave (sets ! n)"
  defines "ws \<equiv> if w = length waves then waves @ [[]] else waves"
  shows "schedule_step (next_wave, waves) (n, sets ! n) =
      (foldl (\<lambda>m a. fmupd a (w + 1) m) next_wave (sets ! n), ws[w := ws ! w @ [n]])"
    and "w < length ws" and "concat ws = concat waves"
    and "waves_ok sets (Suc n) (foldl (\<lambda>m a. fmupd a (w + 1) m) next_wave (sets ! n)) (ws[w := ws ! w @ [n]])"
    and "w \<le> v \<Longrightarrow> v < length ws \<Longrightarrow> j \<in> set (ws ! v) \<Longrightarrow> set (sets ! j) \<inter> set (sets ! n) = {}"
proof -
  have le: "w \<le> length waves" unfolding w_def using ok by (intro wave_of_le) (simp add: waves_ok_def)
  show "schedule_step (next_wave, waves) (n, sets ! n) =
      (foldl (\<lambda>m a. fmupd a (w + 1) m) next_wave (sets ! n), ws[w := ws ! w @ [n]])"
    by (simp add: schedule_step_def w_def ws_def Let_def)
  show len: "w < length ws" and "concat ws = concat waves" using le by (auto simp: ws_def)
  have items: "j < n \<and> (\<forall>a\<in>set (sets ! j). \<exists>m. fmlookup next_wave a = Some m \<and> v < m)"
    if "v < length ws" "j \<in> set (ws ! v)" for v j
    using that ok by (auto simp: waves_ok_def ws_def nth_append split: if_splits)
  have apart: "set (sets ! j) \<inter> set (sets ! n) = {}" if "w \<le> v" "v < length ws" "j \<in> set (ws ! v)" for v j
  proof -
    have "a \<notin> set (sets ! n)" if a: "a \<in> set (sets ! j)" for a
    proof
      assume "a \<in> set (sets ! n)"
      obtain m where m: "fmlookup next_wave a = Some m" "v < m"
        using items [OF \<open>v < length ws\<close> \<open>j \<in> set (ws ! v)\<close>] a by blast
      have "m \<le> w" using wave_of_ge [OF \<open>a \<in> set (sets ! n)\<close> m(1)] by (simp add: w_def)
      then show False using m \<open>w \<le> v\<close> by simp
    qed
    then show ?thesis by blast
  qed
  show "w \<le> v \<Longrightarrow> v < length ws \<Longrightarrow> j \<in> set (ws ! v) \<Longrightarrow> set (sets ! j) \<inter> set (sets ! n) = {}" by (rule apart)
  have sep: "sorted_wrt (\<lambda>i j. set (sets ! i) \<inter> set (sets ! j) = {}) wave" if "wave \<in> set ws" for wave
    using that ok by (auto simp: waves_ok_def ws_def split: if_splits)
  let ?ws = "ws[w := ws ! w @ [n]]" and ?next = "foldl (\<lambda>m a. fmupd a (w + 1) m) next_wave (sets ! n)"
  show "waves_ok sets (Suc n) ?next ?ws"
    unfolding waves_ok_def
  proof (intro conjI allI impI ballI)
    fix v j
    assume v: "v < length ?ws" and j: "j \<in> set (?ws ! v)"
    then have cases: "(v = w \<and> j = n) \<or> j \<in> set (ws ! v)" using len by (cases "v = w") auto
    then show "j < Suc n" using items [of v j] v by auto
    fix a
    assume a: "a \<in> set (sets ! j)"
    show "\<exists>m. fmlookup ?next a = Some m \<and> v < m"
    proof (cases "j \<in> set (ws ! v)")
      case True
      then obtain m where m: "fmlookup next_wave a = Some m" "v < m" using items [of v j] v a by auto
      have "v \<le> w" if "a \<in> set (sets ! n)" using wave_of_ge [OF that m(1)] m(2) by (simp add: w_def)
      then show ?thesis using m by (auto simp: fmlookup_foldl_set)
    next
      case False
      then show ?thesis using cases a by (simp add: fmlookup_foldl_set)
    qed
  next
    fix a m
    assume "fmlookup ?next a = Some m"
    then have "m = w + 1 \<or> fmlookup next_wave a = Some m" by (auto simp: fmlookup_foldl_set split: if_splits)
    then show "m \<le> length ?ws" using len ok by (auto simp: waves_ok_def ws_def le_Suc_eq split: if_splits)
  next
    fix wave
    assume "wave \<in> set ?ws"
    then have "wave \<in> set ws \<or> wave = ws ! w @ [n]" using set_update_subset_insert by fastforce
    then show "sorted_wrt (\<lambda>i j. set (sets ! i) \<inter> set (sets ! j) = {}) wave"
      using sep len apart [of w] by (auto simp: sorted_wrt_append)
  qed
qed

text \<open>Every transaction is scheduled.\<close>

lemma schedule_indices: "set (concat (schedule_waves sets)) = {..<length sets}"
proof -
  have "n \<le> length sets \<Longrightarrow> \<exists>next_wave waves. foldl schedule_step (fmempty, []) (enumerate 0 (take n sets)) = (next_wave, waves) \<and>
      waves_ok sets n next_wave waves \<and> set (concat waves) = {..<n}" for n
  proof (induction n)
    case 0
    show ?case by (simp add: waves_ok_def)
  next
    case (Suc n)
    then obtain next_wave waves where f: "foldl schedule_step (fmempty, []) (enumerate 0 (take n sets)) = (next_wave, waves)"
      and ok: "waves_ok sets n next_wave waves" and all: "set (concat waves) = {..<n}"
      by auto
    note st = schedule_step_ok [OF ok]
    have "foldl schedule_step (fmempty, []) (enumerate 0 (take (Suc n) sets)) = schedule_step (next_wave, waves) (n, sets ! n)"
      using Suc.prems f by (simp add: take_Suc_conv_app_nth enumerate_append_eq)
    moreover have "set (concat (ws[w := ws ! w @ [n]])) = insert n (set (concat ws))" if "w < length ws" for w ws
      unfolding list_update_append [OF that] by auto
    ultimately show ?case using st(1,3,4) st(2) all by (auto simp: lessThan_Suc)
  qed
  from this [of "length sets"] show ?thesis by (auto simp: schedule_waves_def)
qed

context local_actions
begin

text \<open>Running the waves one after the other is running the block in its order.\<close>

lemma schedule_prefix:
  assumes "n \<le> length sets" and "\<And>k. k < length sets \<Longrightarrow> foot (item k) = set (sets ! k)"
  shows "\<exists>next_wave waves. foldl schedule_step (fmempty, []) (enumerate 0 (take n sets)) = (next_wave, waves) \<and>
    waves_ok sets n next_wave waves \<and>
    act_run act (map item (concat waves)) s = act_run act (map item [0..<n]) s"
  using assms(1)
proof (induction n)
  case 0
  show ?case by (simp add: waves_ok_def)
next
  case (Suc n)
  then obtain next_wave waves where f: "foldl schedule_step (fmempty, []) (enumerate 0 (take n sets)) = (next_wave, waves)"
    and ok: "waves_ok sets n next_wave waves"
    and run: "act_run act (map item (concat waves)) s = act_run act (map item [0..<n]) s"
    by auto
  have n: "n < length sets" using Suc.prems by simp
  define w where "w = wave_of next_wave (sets ! n)"
  define ws where "ws = (if w = length waves then waves @ [[]] else waves)"
  note st = schedule_step_ok [OF ok, folded w_def, folded ws_def]
  let ?A = "map item (concat (take w ws) @ ws ! w)" and ?B = "map item (concat (drop (Suc w) ws))"
  have "foldl schedule_step (fmempty, []) (enumerate 0 (take (Suc n) sets)) =
      schedule_step (next_wave, waves) (n, sets ! n)"
    using n f by (simp add: take_Suc_conv_app_nth enumerate_append_eq)
  moreover have "act_run act (map item (concat (ws[w := ws ! w @ [n]]))) s = act_run act (map item [0..<Suc n]) s"
  proof -
    have B: "foot (item n) \<inter> foot y = {}" if y: "y \<in> set ?B" for y
    proof -
      obtain v j where "v < length ws" "w < v" "j \<in> set (ws ! v)" "y = item j"
        using y by (auto simp: in_set_conv_nth) (metis Suc_le_lessD add.commute add_lessD1 le_add1 less_diff_conv less_SucI nth_mem plus_nat.simps(2))
      moreover from this have "j < n" using st(4) ok st(2) by (auto simp: ws_def waves_ok_def nth_append split: if_splits)
      ultimately show ?thesis using st(5) [of v j] assms(2) n by auto
    qed
    have "act_run act (map item (concat (ws[w := ws ! w @ [n]]))) s = act_run act (?A @ (item n # ?B)) s"
      by (simp add: list_update_append(1) [OF st(2)])
    also have "\<dots> = act_run act (?A @ (?B @ [item n])) s"
      unfolding act_run_append [of act ?A] using move_back [OF B] by (simp only: cong: Option.bind_cong)
    also have "\<dots> = act_run act (map item (concat waves) @ [item n]) s"
      using st(3) list_update_append(2) [OF st(2)] by (simp flip: st(3))
    also have "\<dots> = act_run act (map item [0..<n] @ [item n]) s"
      by (simp only: act_run_append run)
    finally show ?thesis by simp
  qed
  ultimately show ?case using st(1,4) by auto
qed

lemma schedule_run:
  assumes "\<And>k. k < length sets \<Longrightarrow> foot (item k) = set (sets ! k)"
  shows "act_run act (map item (concat (schedule_waves sets))) s = act_run act (map item [0..<length sets]) s"
    and "\<forall>wave\<in>set (schedule_waves sets). (\<forall>k\<in>set wave. k < length sets) \<and>
      sorted_wrt (\<lambda>i j. foot (item i) \<inter> foot (item j) = {}) wave"
proof -
  obtain next_wave waves where f: "foldl schedule_step (fmempty, []) (enumerate 0 sets) = (next_wave, waves)"
    and ok: "waves_ok sets (length sets) next_wave waves"
    and run: "act_run act (map item (concat waves)) s = act_run act (map item [0..<length sets]) s"
    using schedule_prefix [OF le_refl assms, where s = s] by auto
  then show "act_run act (map item (concat (schedule_waves sets))) s = act_run act (map item [0..<length sets]) s"
    by (simp add: schedule_waves_def)
  have small: "k < length sets" if "wave \<in> set waves" "k \<in> set wave" for wave k
    using ok that unfolding waves_ok_def by (metis in_set_conv_nth)
  have "sorted_wrt (\<lambda>i j. set (sets ! i) \<inter> set (sets ! j) = {}) wave" if "wave \<in> set waves" for wave
    using ok that by (simp add: waves_ok_def)
  from sorted_wrt_mono_rel [OF _ this]
  have "sorted_wrt (\<lambda>i j. foot (item i) \<inter> foot (item j) = {}) wave" if "wave \<in> set waves" for wave
    using that small assms by simp
  then show "\<forall>wave\<in>set (schedule_waves sets). (\<forall>k\<in>set wave. k < length sets) \<and>
      sorted_wrt (\<lambda>i j. foot (item i) \<inter> foot (item j) = {}) wave"
    using f small by (simp add: schedule_waves_def)
qed

end

section \<open>Transparent transactions are local\<close>

text \<open>What a transparent transaction does to the accounts, whatever the rest of the ledger is.\<close>

definition tx_act ::
  "('g::ab_group_add, 's::comm_ring_1, 'r) prims \<Rightarrow> ('g, 's, 'r) transaction \<Rightarrow> (id32, 'g account) fmap \<Rightarrow>
   (id32, 'g account) fmap option" where
  "tx_act P tx A = (if access_set tx = None then None
     else (case apply_at P tx 0 (ledger_new\<lparr>l_accounts := A\<rparr>) of
       (None, L) \<Rightarrow> Some (l_accounts L)
     | (Some e, L) \<Rightarrow> None))"

definition tx_foot :: "('g, 's, 'r) transaction \<Rightarrow> id32 set" where
  "tx_foot tx = (case access_set tx of Some s \<Rightarrow> set s | None \<Rightarrow> {})"

lemma try_then_case: "try_then m f = (case m of Inl e \<Rightarrow> Inl e | Inr x \<Rightarrow> f x)"
  by (cases m) simp_all

lemmas local_defs = apply_at_def apply_at_with_def or_keep_def register_def is_registered_def update_account_def
  put_account_def get_account_def mark_def mark_all_def apply_public_transfer_def apply_shield_def try_then_case ok_or_def

lemma apply_at_local:
  assumes "access_set tx \<noteq> None"
  shows "(\<exists>e. tx_act P tx (l_accounts L) = None \<and> apply_at P tx height L = (Some e, L)) \<or>
    (\<exists>A. tx_act P tx (l_accounts L) = Some A \<and>
      apply_at P tx height L = (None, L\<lparr>l_accounts := A, l_dirty := l_dirty L |\<union>| DirtyAccount |`| fset_of_list (the (access_set tx))\<rparr>))"
proof (cases tx)
  case (Register pubkey pow_nonce)
  then show ?thesis by (auto simp: tx_act_def local_defs)
next
  case (PublicTransfer token sender recipient amount fee nonce sg)
  then show ?thesis
    by (auto simp: tx_act_def local_defs Let_def split: option.splits sum.splits if_splits)
next
  case (Shield token sender recipient amount fee nonce sg)
  then show ?thesis
    by (auto simp: tx_act_def local_defs Let_def split: option.splits sum.splits if_splits)
qed (use assms in simp_all)

text \<open>Both kinds of transfer check the sender's account and then rewrite the two accounts.\<close>

definition transfer_act ::
  "id32 \<Rightarrow> id32 \<Rightarrow> ('g account \<Rightarrow> bool) \<Rightarrow> ('g account \<Rightarrow> 'g account) \<Rightarrow> ('g account \<Rightarrow> 'g account) \<Rightarrow>
   (id32, 'g account) fmap \<Rightarrow> (id32, 'g account) fmap option" where
  "transfer_act i j pre f g A = (case fmlookup A i of
       None \<Rightarrow> None
     | Some a \<Rightarrow> if pre a \<and> fmlookup A j \<noteq> None
         then (let A1 = fmupd i (f a) A in Some (fmupd j (g (the (fmlookup A1 j))) A1)) else None)"

lemma tx_act_register:
  "tx_act P (Register i n) A = (if fmlookup A i \<noteq> None then None else Some (fmupd i account_default A))"
  by (simp add: tx_act_def local_defs)

lemma tx_act_transfer:
  "tx_act P (PublicTransfer token i j amount fee nonce sg) A =
     transfer_act i j (\<lambda>a. check_sig P i (PublicTransfer token i j amount fee nonce sg) sg = Inr () \<and> nonce = acc_nonce a \<and>
         (\<exists>total. checked_add amount fee = Some total \<and> \<not> acct_public a token < total))
       (\<lambda>a. bump_nonce (debit_public token (the (checked_add amount fee)) a)) (add_public token amount) A"
  "tx_act P (Shield token i j amount fee nonce sg) A =
     transfer_act i j (\<lambda>a. check_sig P i (Shield token i j amount fee nonce sg) sg = Inr () \<and> nonce = acc_nonce a \<and>
         (\<exists>total. checked_add amount fee = Some total \<and> \<not> acct_public a token < total))
       (\<lambda>a. bump_nonce (debit_public token (the (checked_add amount fee)) a)) (add_pending token (ct_mint P amount)) A"
proof -
  note defs = tx_act_def transfer_act_def local_defs Let_def
  show "tx_act P (PublicTransfer token i j amount fee nonce sg) A =
     transfer_act i j (\<lambda>a. check_sig P i (PublicTransfer token i j amount fee nonce sg) sg = Inr () \<and> nonce = acc_nonce a \<and>
         (\<exists>total. checked_add amount fee = Some total \<and> \<not> acct_public a token < total))
       (\<lambda>a. bump_nonce (debit_public token (the (checked_add amount fee)) a)) (add_public token amount) A"
    by (cases "check_sig P i (PublicTransfer token i j amount fee nonce sg) sg"; cases "fmlookup A i";
        cases "fmlookup A j"; cases "checked_add amount fee"; cases "i = j") (simp_all add: defs)
  show "tx_act P (Shield token i j amount fee nonce sg) A =
     transfer_act i j (\<lambda>a. check_sig P i (Shield token i j amount fee nonce sg) sg = Inr () \<and> nonce = acc_nonce a \<and>
         (\<exists>total. checked_add amount fee = Some total \<and> \<not> acct_public a token < total))
       (\<lambda>a. bump_nonce (debit_public token (the (checked_add amount fee)) a)) (add_pending token (ct_mint P amount)) A"
    by (cases "check_sig P i (Shield token i j amount fee nonce sg) sg"; cases "fmlookup A i";
        cases "fmlookup A j"; cases "checked_add amount fee"; cases "i = j") (simp_all add: defs)
qed

lemma transfer_act_frame:
  "transfer_act i j pre f g A = Some B \<Longrightarrow> k \<noteq> i \<Longrightarrow> k \<noteq> j \<Longrightarrow> fmlookup B k = fmlookup A k"
  by (auto simp: transfer_act_def Let_def split: option.splits if_splits)

lemma transfer_act_local:
  assumes "fmlookup A i = fmlookup A' i" and "fmlookup A j = fmlookup A' j" and "transfer_act i j pre f g A = Some B"
  shows "\<exists>B'. transfer_act i j pre f g A' = Some B' \<and> fmlookup B' i = fmlookup B i \<and> fmlookup B' j = fmlookup B j"
  using assms by (auto simp: transfer_act_def Let_def split: option.splits if_splits)

lemma transfer_act_registered:
  "transfer_act i j pre f g A = Some B \<Longrightarrow> fmlookup B i \<noteq> None \<and> fmlookup B j \<noteq> None"
  by (auto simp: transfer_act_def Let_def split: option.splits if_splits)

lemma tx_act_cases:
  assumes "tx_act P tx A = Some B"
  obtains (register) i n where "tx = Register i n" "access_set tx = Some [i]" "fmlookup A i = None" "B = fmupd i account_default A"
  | (transfer) i j pre f g where "access_set tx = Some [i, j]" "\<And>A. tx_act P tx A = transfer_act i j pre f g A"
proof (cases tx)
  case (Register i n)
  then show ?thesis using assms register by (auto simp: tx_act_register split: if_splits)
next
  case (PublicTransfer token i j amount fee nonce sg)
  show ?thesis
    by (rule transfer [OF _ tx_act_transfer(1) [of P token i j amount fee nonce sg, folded PublicTransfer]])
      (simp add: PublicTransfer)
next
  case (Shield token i j amount fee nonce sg)
  show ?thesis
    by (rule transfer [OF _ tx_act_transfer(2) [of P token i j amount fee nonce sg, folded Shield]])
      (simp add: Shield)
qed (use assms in \<open>simp_all add: tx_act_def\<close>)

interpretation transparent: local_actions "tx_act P" tx_foot fmlookup
  for P :: "('g::ab_group_add, 's::comm_ring_1, 'r) prims"
proof
  show "(\<And>k. fmlookup s k = fmlookup t k) \<Longrightarrow> s = t" for s t :: "(id32, 'g account) fmap"
    by (rule fmap_ext) simp
next
  fix x :: "('g, 's, 'r) transaction" and s s' :: "(id32, 'g account) fmap" and k
  assume a: "tx_act P x s = Some s'" and k: "k \<notin> tx_foot x"
  show "fmlookup s' k = fmlookup s k"
  proof (cases rule: tx_act_cases [OF a])
    case (1 i n)
    then show ?thesis using k by (auto simp: tx_foot_def)
  next
    case (2 i j pre f g)
    then show ?thesis using k a by (auto simp: tx_foot_def intro: transfer_act_frame)
  qed
next
  fix x :: "('g, 's, 'r) transaction" and s t s' :: "(id32, 'g account) fmap"
  assume same: "\<And>k. k \<in> tx_foot x \<Longrightarrow> fmlookup s k = fmlookup t k" and a: "tx_act P x s = Some s'"
  show "\<exists>t'. tx_act P x t = Some t' \<and> (\<forall>k\<in>tx_foot x. fmlookup t' k = fmlookup s' k)"
  proof (cases rule: tx_act_cases [OF a])
    case (1 i n)
    then show ?thesis using same by (auto simp: tx_foot_def tx_act_register)
  next
    case (2 i j pre f g)
    then show ?thesis using same a transfer_act_local [of s i t j pre f g s'] by (auto simp: tx_foot_def)
  qed
qed

lemma tx_act_registered:
  assumes "tx_act P tx A = Some B" and "k \<in> tx_foot tx"
  shows "fmlookup B k \<noteq> None"
proof (cases rule: tx_act_cases [OF assms(1)])
  case (1 i n)
  then show ?thesis using assms(2) by (simp add: tx_foot_def)
next
  case (2 i j pre f g)
  then show ?thesis using assms transfer_act_registered [of i j pre f g A B] by (auto simp: tx_foot_def)
qed

lemma act_run_registered:
  "act_run (tx_act P) txs A = Some B \<Longrightarrow> k \<in> (\<Union>x\<in>set txs. tx_foot x) \<Longrightarrow> fmlookup B k \<noteq> None"
proof (induction txs arbitrary: A)
  case Nil
  then show ?case by simp
next
  case (Cons tx txs)
  then obtain A1 where A1: "tx_act P tx A = Some A1" "act_run (tx_act P) txs A1 = Some B"
    by (auto simp: bind_eq_Some_conv)
  show ?case
  proof (cases "k \<in> (\<Union>x\<in>set txs. tx_foot x)")
    case True
    then show ?thesis using Cons.IH [OF A1(2)] by simp
  next
    case False
    then have "k \<in> tx_foot tx" using Cons.prems(2) by simp
    then show ?thesis using tx_act_registered [OF A1(1)] transparent.run_frame [OF A1(2) False] by simp
  qed
qed

section \<open>Runs of the ledger\<close>

definition touched_keys :: "('g, 's, 'r) transaction list \<Rightarrow> dirty_key fset" where
  "touched_keys txs = DirtyAccount |`| fset_of_list (concat (map (\<lambda>tx. the (access_set tx)) txs))"

definition touch :: "('g, 's, 'r) transaction list \<Rightarrow> (id32, 'g account) fmap \<Rightarrow> 'g ledger \<Rightarrow> 'g ledger" where
  "touch txs A L = L\<lparr>l_accounts := A, l_dirty := l_dirty L |\<union>| touched_keys txs\<rparr>"

abbreviation transparent :: "('g, 's, 'r) transaction \<Rightarrow> bool" where
  "transparent tx \<equiv> access_set tx \<noteq> None"

lemma touch_Nil [simp]: "touch [] (l_accounts L) L = L"
  by (simp add: touch_def touched_keys_def)

lemma touch_touch: "touch ys B (touch xs A L) = touch (xs @ ys) B L"
  by (simp add: touch_def touched_keys_def funion_assoc fimage_funion)

lemma touch_accounts [simp]: "l_accounts (touch txs A L) = A"
  by (simp add: touch_def)

lemma touched_keys_cong: "set xs = set ys \<Longrightarrow> touched_keys xs = touched_keys ys"
  by (auto simp: touched_keys_def fset_of_list.rep_eq simp flip: fset_inject)

text \<open>A run of transparent transactions, in terms of the accounts.\<close>

lemma apply_all_transparent:
  assumes "\<forall>tx\<in>set txs. transparent tx"
  shows "(case act_run (tx_act P) txs (l_accounts L) of
      None \<Rightarrow> fst (apply_all P height txs L) \<noteq> None
    | Some A \<Rightarrow> apply_all P height txs L = (None, touch txs A L))"
  using assms
proof (induction txs arbitrary: L)
  case Nil
  show ?case by simp
next
  case (Cons tx txs)
  have t: "transparent tx" using Cons.prems by simp
  from apply_at_local [OF t, of P L height] show ?case
  proof (elim disjE exE conjE)
    fix e
    assume "tx_act P tx (l_accounts L) = None" "apply_at P tx height L = (Some e, L)"
    then show ?thesis by simp
  next
    fix A
    assume a: "tx_act P tx (l_accounts L) = Some A" and
      r: "apply_at P tx height L = (None, L\<lparr>l_accounts := A, l_dirty := l_dirty L |\<union>| DirtyAccount |`| fset_of_list (the (access_set tx))\<rparr>)"
    have r': "apply_at P tx height L = (None, touch [tx] A L)" using r by (simp add: touch_def touched_keys_def)
    show ?thesis
      using Cons.IH [of "touch [tx] A L"] Cons.prems a r' by (simp add: touch_touch split: option.splits)
  qed
qed

lemma run_chunk_apply_all:
  "apply_all P height (map ((!) run) ks) L = (map_option snd (fst (run_chunk P height run ks L)), snd (run_chunk P height run ks L))"
  by (induction ks arbitrary: L) (auto split: prod.split option.split)

lemma run_chunk_transparent:
  assumes "\<forall>k\<in>set ks. transparent (run ! k)"
  shows "(case act_run (tx_act P) (map ((!) run) ks) (l_accounts L) of
      None \<Rightarrow> fst (run_chunk P height run ks L) \<noteq> None
    | Some A \<Rightarrow> run_chunk P height run ks L = (None, touch (map ((!) run) ks) A L))"
  using apply_all_transparent [where txs = "map ((!) run) ks" and P = P and L = L and height = height] assms
  by (auto simp: run_chunk_apply_all prod_eq_iff split: option.splits)

lemma concat_chunks: "0 < n \<Longrightarrow> concat (chunks n xs) = xs"
proof (induction n xs rule: chunks.induct)
  case (1 n xs)
  then show ?case by (subst chunks.simps) auto
qed

lemma lower_err_None: "foldl lower_err acc rs = None \<longleftrightarrow> acc = None \<and> (\<forall>r\<in>set rs. r = None)"
  by (induction rs arbitrary: acc) (auto simp: lower_err_def split: option.splits)

lemma adopt_all:
  "foldl (\<lambda>M (i, a). adopt_account_record i a M) L ws =
     L\<lparr>l_accounts := foldl (\<lambda>m e. fmupd (fst e) (snd e) m) (l_accounts L) ws,
       l_dirty := l_dirty L |\<union>| DirtyAccount |`| fset_of_list (map fst ws)\<rparr>"
proof (induction ws arbitrary: L)
  case Nil
  show ?case by simp
next
  case (Cons e ws)
  show ?case using Cons [of "adopt_account_record (fst e) (snd e) L"]
    by (cases e) (simp add: adopt_account_record_def mark_def put_account_def)
qed

lemma adopted_accounts:
  assumes "\<And>i a. (i, a) \<in> set ws \<Longrightarrow> fmlookup A i = Some a"
    and "\<And>k. k \<notin> fst ` set ws \<Longrightarrow> fmlookup A k = fmlookup B k"
  shows "foldl (\<lambda>m e. fmupd (fst e) (snd e) m) B ws = A"
  using assms
proof (induction ws arbitrary: B)
  case Nil
  then show ?case by (auto intro: fmap_ext)
next
  case (Cons e ws)
  have "fmlookup A k = fmlookup (fmupd (fst e) (snd e) B) k" if "k \<notin> fst ` set ws" for k
    using Cons.prems(1) [of "fst e" "snd e"] Cons.prems(2) [of k] that by auto
  then show ?case using Cons.IH [of "fmupd (fst e) (snd e) B"] Cons.prems(1) by simp
qed

text \<open>What a parallel step has to do: fail exactly when the sequence fails, else give its ledger.\<close>

definition outcome ::
  "('g::ab_group_add, 's::comm_ring_1, 'r) prims \<Rightarrow> ('g, 's, 'r) transaction list \<Rightarrow> 'g ledger \<Rightarrow>
   ledger_error option \<times> 'g ledger \<Rightarrow> bool" where
  "outcome P txs L r \<longleftrightarrow> (case act_run (tx_act P) txs (l_accounts L) of
       None \<Rightarrow> fst r \<noteq> None
     | Some A \<Rightarrow> r = (None, touch txs A L))"

lemma sorted_wrt_chunks:
  "sorted_wrt R (concat cs) \<Longrightarrow> sorted_wrt (\<lambda>c d. \<forall>x\<in>set c. \<forall>y\<in>set d. R x y) cs"
  by (induction cs) (auto simp: sorted_wrt_append)

lemma set_map_filter: "y \<in> set (List.map_filter f xs) \<longleftrightarrow> (\<exists>x\<in>set xs. f x = Some y)"
  by (induction xs) (auto simp: map_filter_simps split: option.splits)

lemma chunk_written_set:
  "(i, a) \<in> set (chunk_written sets chunk view) \<longleftrightarrow>
     (\<exists>k\<in>set chunk. i \<in> set (sets ! k)) \<and> get_account view i = Some a"
  by (auto simp: chunk_written_def set_map_filter account_record_def)

lemma fst_graph:
  assumes "\<And>i a. (i, a) \<in> W \<longleftrightarrow> i \<in> F \<and> m i = Some a" and "\<And>i. i \<in> F \<Longrightarrow> m i \<noteq> None"
  shows "fst ` W = F"
proof (intro equalityI subsetI)
  fix i
  assume "i \<in> F"
  then obtain a where "m i = Some a" using assms(2) by blast
  then have "(i, a) \<in> W" using \<open>i \<in> F\<close> assms(1) by simp
  then show "i \<in> fst ` W" by (rule rev_image_eqI) simp
qed (use assms(1) in fastforce)

lemma execute_wave_ok:
  assumes wave: "\<forall>k\<in>set wave. k < length run" and lane: "\<forall>tx\<in>set run. transparent tx"
    and apart: "sorted_wrt (\<lambda>i j. tx_foot (run ! i) \<inter> tx_foot (run ! j) = {}) wave"
  shows "outcome P (map ((!) run) wave) L
    (execute_wave P workers run (map (\<lambda>tx. the (access_set tx)) run) wave height L)"
proof -
  let ?sets = "map (\<lambda>tx. the (access_set tx)) run" and ?w = "min workers (length wave)"
  let ?txs = "map ((!) run) wave"
  have lane': "\<forall>k\<in>set ks. transparent (run ! k)" if "set ks \<subseteq> set wave" for ks
    using that wave lane by (meson nth_mem subsetD)
  show ?thesis
  proof (cases "length wave < MIN_PARALLEL \<or> ?w < 2")
    case True
    then show ?thesis
      using run_chunk_transparent [OF lane' [OF subset_refl], where P = P and L = L and height = height]
      by (auto simp: outcome_def execute_wave_def split: option.splits prod.splits)
  next
    case False
    define cs where "cs = chunks ((length wave + ?w - 1) div ?w) wave"
    have "0 < (length wave + ?w - 1) div ?w" using False by (auto simp: div_greater_zero_iff MIN_PARALLEL_def)
    then have cs: "concat cs = wave" by (simp add: cs_def concat_chunks)
    then have sub: "set c \<subseteq> set wave" if "c \<in> set cs" for c using that by auto
    let ?tcs = "map (map ((!) run)) cs"
    have txs: "concat ?tcs = ?txs" using cs by (simp flip: map_concat)
    have sep: "transparent.separate ?tcs"
      using sorted_wrt_chunks [OF apart [folded cs]] unfolding transparent.separate_def sorted_wrt_map
      by (rule sorted_wrt_mono_rel [rotated]) auto
    let ?results = "map (\<lambda>c. run_chunk P height run c L) cs"
    note chunk = run_chunk_transparent [OF lane' [OF sub], where P = P and L = L and height = height]
    show ?thesis
    proof (cases "act_run (tx_act P) ?txs (l_accounts L)")
      case None
      have "\<exists>c\<in>set cs. act_run (tx_act P) (map ((!) run) c) (l_accounts L) = None"
        using transparent.sequence_from_chunks [OF sep, of P "l_accounts L"] None txs by fastforce
      then have "\<exists>c\<in>set cs. fst (run_chunk P height run c L) \<noteq> None" using chunk by fastforce
      then have "foldl lower_err None (map fst ?results) \<noteq> None" by (auto simp: lower_err_None)
      then show ?thesis using None False by (auto simp: outcome_def execute_wave_def Let_def cs_def)
    next
      case (Some A)
      have alone: "\<exists>B. act_run (tx_act P) (map ((!) run) c) (l_accounts L) = Some B \<and>
          (\<forall>k\<in>(\<Union>x\<in>set (map ((!) run) c). tx_foot x). fmlookup B k = fmlookup A k)" if "c \<in> set cs" for c
        using transparent.chunks_from_sequence [OF sep, of P "l_accounts L" A "map ((!) run) c"] Some txs that by simp
      have res: "fst (run_chunk P height run c L) = None \<and> (\<forall>k\<in>set c. \<forall>i\<in>tx_foot (run ! k).
          get_account (snd (run_chunk P height run c L)) i = fmlookup A i)" if c: "c \<in> set cs" for c
        using alone [OF c] chunk [OF c] by (auto simp: get_account_def)
      then have none: "foldl lower_err None (map fst ?results) = None" by (simp add: lower_err_None)
      let ?ws = "concat (map2 (chunk_written ?sets) cs (map snd ?results))"
      have ws: "?ws = concat (map (\<lambda>c. chunk_written ?sets c (snd (run_chunk P height run c L))) cs)"
        by (simp add: map2_map_map [symmetric] zip_map2 zip_same_conv_map comp_def)
      have foot: "set (?sets ! k) = tx_foot (run ! k)" if "k \<in> set wave" for k
      proof -
        have "k < length run" "access_set (run ! k) \<noteq> None" using that wave lane' [OF subset_refl] by auto
        then show ?thesis by (auto simp: tx_foot_def)
      qed
      have reg: "fmlookup A i \<noteq> None" if "i \<in> (\<Union>x\<in>set ?txs. tx_foot x)" for i
        using act_run_registered [OF Some that] .
      have mem: "(i, a) \<in> set ?ws \<longleftrightarrow> i \<in> (\<Union>x\<in>set ?txs. tx_foot x) \<and> fmlookup A i = Some a" for i a
      proof -
        have "(i, a) \<in> set ?ws \<longleftrightarrow> (\<exists>c\<in>set cs. (\<exists>k\<in>set c. i \<in> set (?sets ! k)) \<and>
            get_account (snd (run_chunk P height run c L)) i = Some a)"
          by (simp only: ws set_concat set_map image_image UN_iff chunk_written_set)
        also have "\<dots> \<longleftrightarrow> (\<exists>c\<in>set cs. (\<exists>k\<in>set c. i \<in> tx_foot (run ! k)) \<and> fmlookup A i = Some a)"
        proof (rule bex_cong [OF refl])
          fix c
          assume c: "c \<in> set cs"
          have "(\<exists>k\<in>set c. i \<in> set (?sets ! k)) \<longleftrightarrow> (\<exists>k\<in>set c. i \<in> tx_foot (run ! k))"
            by (rule bex_cong [OF refl]) (use foot sub [OF c] in blast)
          moreover have "(\<exists>k\<in>set c. i \<in> tx_foot (run ! k)) \<Longrightarrow>
              get_account (snd (run_chunk P height run c L)) i = fmlookup A i"
            using res [OF c] by blast
          ultimately show "((\<exists>k\<in>set c. i \<in> set (?sets ! k)) \<and> get_account (snd (run_chunk P height run c L)) i = Some a) =
              ((\<exists>k\<in>set c. i \<in> tx_foot (run ! k)) \<and> fmlookup A i = Some a)"
            by metis
        qed
        also have "\<dots> \<longleftrightarrow> (\<exists>k\<in>set wave. i \<in> tx_foot (run ! k)) \<and> fmlookup A i = Some a"
          unfolding cs [symmetric] set_concat by blast
        finally show ?thesis by simp
      qed
      note keys = fst_graph [OF mem reg]
      have "execute_wave P workers run ?sets wave height L =
          (None, foldl (\<lambda>M (i, a). adopt_account_record i a M) L ?ws)"
        using False none by (simp add: execute_wave_def Let_def cs_def)
      also have "\<dots> = (None, touch ?txs A L)"
      proof -
        have "foldl (\<lambda>m e. fmupd (fst e) (snd e) m) (l_accounts L) ?ws = A"
        proof (rule adopted_accounts)
          show "(i, a) \<in> set ?ws \<Longrightarrow> fmlookup A i = Some a" for i a by (simp only: mem)
          fix k
          assume "k \<notin> fst ` set ?ws"
          then have "k \<notin> (\<Union>x\<in>set ?txs. tx_foot x)" by (simp only: keys not_False_eq_True)
          then show "fmlookup A k = fmlookup (l_accounts L) k" by (rule transparent.run_frame [OF Some])
        qed
        moreover have "DirtyAccount |`| fset_of_list (map fst ?ws) = touched_keys ?txs"
        proof -
          have "(\<Union>x\<in>set ?txs. tx_foot x) = (\<Union>x\<in>set ?txs. set (the (access_set x)))"
            using lane' [OF subset_refl] by (fastforce simp: tx_foot_def)
          with keys have "set (map fst ?ws) = (\<Union>x\<in>set ?txs. set (the (access_set x)))" by (simp only: set_map)
          then show ?thesis by (simp only: touched_keys_def fset_of_list.rep_eq fimage.rep_eq set_concat set_map image_image flip: fset_inject)
        qed
        ultimately show ?thesis by (simp add: adopt_all touch_def)
      qed
      finally show ?thesis using Some by (simp add: outcome_def)
    qed
  qed
qed

lemma apply_waves_ok:
  assumes "\<forall>tx\<in>set run. transparent tx"
    and "\<forall>wave\<in>set waves. (\<forall>k\<in>set wave. k < length run) \<and>
      sorted_wrt (\<lambda>i j. tx_foot (run ! i) \<inter> tx_foot (run ! j) = {}) wave"
  shows "outcome P (map ((!) run) (concat waves)) L
    (apply_waves P workers run (map (\<lambda>tx. the (access_set tx)) run) height waves L)"
  using assms(2)
proof (induction waves arbitrary: L)
  case Nil
  show ?case by (simp add: outcome_def)
next
  case (Cons wave waves)
  let ?sets = "map (\<lambda>tx. the (access_set tx)) run"
  have w: "outcome P (map ((!) run) wave) L (execute_wave P workers run ?sets wave height L)"
    using Cons.prems by (intro execute_wave_ok [OF _ assms(1)]) simp_all
  show ?case
  proof (cases "act_run (tx_act P) (map ((!) run) wave) (l_accounts L)")
    case None
    then show ?thesis using w by (auto simp: outcome_def act_run_append split: prod.split option.splits)
  next
    case (Some A)
    then have "execute_wave P workers run ?sets wave height L = (None, touch (map ((!) run) wave) A L)"
      using w by (simp add: outcome_def)
    then show ?thesis
      using Cons.IH [of "touch (map ((!) run) wave) A L"] Cons.prems Some
      by (simp add: outcome_def act_run_append touch_touch split: option.splits)
  qed
qed

lemma apply_run_ok:
  assumes "\<forall>tx\<in>set run. transparent tx"
  shows "outcome P run L (apply_run P workers run height L)"
proof -
  let ?sets = "map (\<lambda>tx. the (access_set tx)) run" and ?waves = "schedule_waves (map (\<lambda>tx. the (access_set tx)) run)"
  have foot: "tx_foot (run ! k) = set (?sets ! k)" if "k < length ?sets" for k
    using assms that by (fastforce simp: tx_foot_def dest: nth_mem split: option.split)
  note sched = transparent.schedule_run [of ?sets "(!) run", OF foot]
  have "outcome P (map ((!) run) (concat ?waves)) L (apply_waves P workers run ?sets height ?waves L)"
    by (rule apply_waves_ok [OF assms]) (use sched(2) in simp)
  moreover have "act_run (tx_act P) (map ((!) run) (concat ?waves)) A = act_run (tx_act P) run A" for A
    using sched(1) [of P A] by (simp add: map_nth)
  moreover have "touched_keys (map ((!) run) (concat ?waves)) = touched_keys run" if "act_run (tx_act P) run A = Some B" for A B
  proof -
    have "set (concat ?waves) = {..<length run}" using schedule_indices [of ?sets] by simp
    then have "set (map ((!) run) (concat ?waves)) = set run" 
      by (simp only: set_map) (auto simp: set_conv_nth)
    then show ?thesis by (rule touched_keys_cong)
  qed
  ultimately show ?thesis by (auto simp: outcome_def apply_run_def touch_def Let_def split: option.splits)
qed

section \<open>The pre-pass gives good evidence\<close>

lemma preverify_jobs_at:
  "(i, job) \<in> set (preverify_jobs P L W n txs) \<Longrightarrow>
     n \<le> i \<and> i < n + length txs \<and> (job = JobAnon (txs ! (i - n)) \<or> (\<exists>bal. job = JobSolvent (txs ! (i - n)) bal))"
proof (induction P L W n txs rule: preverify_jobs.induct)
  case (1 P L W n)
  then show ?case by simp
next
  case (2 P L W n tx txs)
  show ?case
  proof (cases "(i, job) \<in> set (preverify_jobs P L (W \<union> set (accounts_written (dirty_keys_for P L tx))) (n + 1) txs)")
    case True
    from 2(1) [OF True] show ?thesis by (auto simp: nth_Cons' Suc_diff_Suc)
  next
    case False
    then show ?thesis
      using 2(2) by (auto simp: solvent_job_def Let_def split: transaction.splits if_splits option.splits)
  qed
qed

lemma run_job_ok:
  "run_job P (i, job) = Some (j, p) \<Longrightarrow> job = JobAnon tx \<or> job = JobSolvent tx bal \<Longrightarrow> j = i \<and> pass_ok P tx p"
  by (cases tx) (auto simp: run_job_def split: if_splits)

lemma in_chunks: "c \<in> set (chunks n xs) \<Longrightarrow> x \<in> set c \<Longrightarrow> x \<in> set xs"
proof (induction n xs rule: chunks.induct)
  case (1 n xs)
  then show ?case by (subst (asm) (2) chunks.simps) (auto dest: in_set_takeD in_set_dropD split: if_splits)
qed

lemma preverify_ok:
  assumes "map_of (preverify_confidential P workers L txs) i = Some p"
  shows "i < length txs \<and> pass_ok P (txs ! i) p"
proof -
  have "(i, p) \<in> set (preverify_confidential P workers L txs)" using assms by (rule map_of_SomeD)
  then have "\<exists>c\<in>set (preverify_jobs P L {} 0 txs). run_job P c = Some (i, p)"
    by (auto simp: preverify_confidential_def Let_def set_map_filter split: if_splits dest!: in_chunks)
  then obtain k job where c: "(k, job) \<in> set (preverify_jobs P L {} 0 txs)" "run_job P (k, job) = Some (i, p)"
    by fastforce
  from preverify_jobs_at [OF c(1)] run_job_ok [OF c(2)] show ?thesis by fastforce
qed

section \<open>The block\<close>

lemma block_loop_ok:
  assumes "\<And>j p. j < length txs \<Longrightarrow> pre (i + j) = Some p \<Longrightarrow> pass_ok P (txs ! j) p"
  shows "(fst (block_loop P workers pre height i txs L) = None \<longleftrightarrow> fst (apply_all P height txs L) = None) \<and>
    (fst (apply_all P height txs L) = None \<longrightarrow> block_loop P workers pre height i txs L = apply_all P height txs L)"
  using assms
proof (induction P workers pre height i txs L rule: block_loop.induct)
  case (1 P workers pre height i txs L)
  show ?case
  proof (cases txs)
    case Nil
    then show ?thesis by (simp add: block_loop.simps)
  next
    case (Cons tx rest)
    show ?thesis
    proof (cases "access_set tx")
      case None
      have p: "(case pre i of Some p \<Rightarrow> apply_at_with P tx height (Some p) L | None \<Rightarrow> apply_at P tx height L) =
          apply_at P tx height L"
        using "1.prems" [of 0] Cons by (auto split: option.split intro: prepass_same_verdict)
      have prems: "j < length rest \<Longrightarrow> pre (i + 1 + j) = Some p \<Longrightarrow> pass_ok P (rest ! j) p" for j p
        using "1.prems" [of "Suc j" p] Cons by simp
      have "block_loop P workers pre height i txs L =
          (case apply_at P tx height L of (None, L1) \<Rightarrow> block_loop P workers pre height (i + 1) rest L1 | (Some e, L1) \<Rightarrow> (Some e, L1))"
        using None Cons p by (subst block_loop.simps) simp
      then show ?thesis
        using "1.IH"(1) [OF Cons None] prems p Cons by (auto split: prod.splits option.splits)
    next
      case (Some S)
      define run where "run = tx # takeWhile transparent rest"
      define later where "later = dropWhile transparent rest"
      have txs: "txs = run @ later" by (simp add: Cons run_def later_def)
      have lane: "\<forall>t\<in>set run. transparent t" using Some by (auto simp: run_def dest: set_takeWhileD)
      have prems: "j < length later \<Longrightarrow> pre (i + length run + j) = Some p \<Longrightarrow> pass_ok P (later ! j) p" for j p
        using "1.prems" [of "length run + j" p] txs by (simp add: nth_append add.assoc)
      have b: "block_loop P workers pre height i txs L =
          (case apply_run P workers run height L of
             (None, L1) \<Rightarrow> block_loop P workers pre height (i + length run) later L1
           | (Some e, L1) \<Rightarrow> (Some e, L1))"
        unfolding run_def later_def using Some Cons by (subst block_loop.simps) (simp add: Let_def del: not_None_eq)
      have s: "apply_all P height txs L = (case apply_all P height run L of
          (None, L1) \<Rightarrow> apply_all P height later L1 | (Some e, L1) \<Rightarrow> (Some e, L1))"
        by (simp only: txs apply_all_append)
      note par = apply_run_ok [OF lane, where P = P and L = L and workers = workers and height = height]
      note seq = apply_all_transparent [OF lane, where P = P and L = L and height = height]
      show ?thesis
      proof (cases "act_run (tx_act P) run (l_accounts L)")
        case None
        then have "fst (apply_run P workers run height L) \<noteq> None" "fst (apply_all P height run L) \<noteq> None"
          using par seq by (simp_all add: outcome_def)
        then obtain e L1 e' L1' where "apply_run P workers run height L = (Some e, L1)"
            "apply_all P height run L = (Some e', L1')"
          by (cases "apply_run P workers run height L"; cases "apply_all P height run L") auto
        then show ?thesis unfolding b s by simp
      next
        case (Some A)
        then have r: "apply_run P workers run height L = (None, touch run A L)" "apply_all P height run L = (None, touch run A L)"
          using par seq by (simp_all add: outcome_def)
        have "access_set tx \<noteq> None" using \<open>access_set tx = Some S\<close> by simp
        from "1.IH"(2) [OF Cons this, folded run_def later_def, OF refl r(1) [symmetric] refl] prems
        show ?thesis unfolding b s r by simp
      qed
    qed
  qed
qed

lemma apply_block_sequential:
  "(fst (apply_block_parallel P workers L txs height) = None \<longleftrightarrow> fst (apply_all P height txs L) = None) \<and>
   (fst (apply_all P height txs L) = None \<longrightarrow>
      apply_block_parallel P workers L txs height = apply_all P height txs L)"
  unfolding apply_block_parallel_def
  by (rule block_loop_ok) (use preverify_ok in fastforce)

text \<open>
  C3: Applying a block with parallel workers is applying its transactions one after the other: for every number of
  workers the block is refused by the one exactly when it is refused by the other, and when it is accepted the
  ledgers are equal, the set of records to persist included. (When both refuse, the block is discarded by the chain; the
  error reported can be that of another transaction of the block.)
\<close>

theorem parallel_equals_sequential:
  "(fst (apply_block_parallel P workers L txs height) = None \<longleftrightarrow> fst (apply_all P height txs L) = None) \<and>
   (fst (apply_all P height txs L) = None \<longrightarrow>
      apply_block_parallel P workers L txs height = apply_all P height txs L)"
  by (rule apply_block_sequential)

theorem parallel_equals_sequential_witness:
  "apply_block_parallel (toy_prims :: (u64, u64, unit) prims) 4 demo_ledger
     (map (\<lambda>k. Register k 0) [20, 21, 22, 23, 24, 25, 26, 27]) 10 =
   (None, snd (apply_all toy_prims 10 (map (\<lambda>k. Register k 0) [20, 21, 22, 23, 24, 25, 26, 27]) demo_ledger))"
proof -
  have "fst (apply_all (toy_prims :: (u64, u64, unit) prims) 10
      (map (\<lambda>k. Register k 0) [20, 21, 22, 23, 24, 25, 26, 27]) demo_ledger) = None"
    by (simp add: local_defs demo_ledger_def ledger_new_def)
  with parallel_equals_sequential [of "toy_prims :: (u64, u64, unit) prims" 4 demo_ledger
      "map (\<lambda>k. Register k 0) [20, 21, 22, 23, 24, 25, 26, 27]" 10]
  show ?thesis by (simp only: prod_eq_iff fst_conv snd_conv simp_thms)
qed

end
