(* ===== verification/Consensus.thy ===== *)
theory Consensus
  imports Ledger Codecs
begin

text \<open>
  The stateless rules of \<^verbatim>\<open>lat-chain/src/lib.rs\<close>: fees and the per-transaction rules, the
  emission schedule, proof of work and the difficulty adjustment, the anti-spam work of a registration, and
  the block format with its two hashes.

  \<^verbatim>\<open>pow_hash\<close> is the default build's, blake3; the RandomX build replaces it by a native library.
  Hashes are read as 256-bit words, most significant byte first.
\<close>

section \<open>Parameters\<close>

definition DEFAULT_DIFFICULTY :: u64 where "DEFAULT_DIFFICULTY = 256"
definition TARGET_BLOCK_TIME_SECS :: u64 where "TARGET_BLOCK_TIME_SECS = 3"
definition RETARGET_CLAMP :: u64 where "RETARGET_CLAMP = 2"
definition REGISTRATION_POW_BITS :: u32 where "REGISTRATION_POW_BITS = 8"
definition GENESIS_TIMESTAMP :: u64 where "GENESIS_TIMESTAMP = 1750000000"
definition MIN_TRANSFER_FEE :: u64 where "MIN_TRANSFER_FEE = 1000"
definition MAX_CONTRACT_CODE_BYTES :: nat where "MAX_CONTRACT_CODE_BYTES = 24 * 1024"
definition MAX_TXS_PER_BLOCK :: nat where "MAX_TXS_PER_BLOCK = 1000"
definition INITIAL_BLOCK_REWARD :: u64 where "INITIAL_BLOCK_REWARD = 5000000"
definition HALVING_INTERVAL :: u64 where "HALVING_INTERVAL = 131072"
definition HEADER_LEN :: nat where "HEADER_LEN = 32 + 8 + 8 + 32 + 32 + 32 + 8"

lemmas chain_params = TARGET_BLOCK_TIME_SECS_def RETARGET_CLAMP_def REGISTRATION_POW_BITS_def
  MIN_TRANSFER_FEE_def MAX_CONTRACT_CODE_BYTES_def MAX_TXS_PER_BLOCK_def INITIAL_BLOCK_REWARD_def HALVING_INTERVAL_def

datatype chain_error =
    OrphanBlock
  | BadHeight
  | BadTxRoot
  | BadStateRoot
  | BadPow
  | BadRegistrationPow
  | LedgerFault ledger_error
  | Storage
  | FeeTooLow
  | OversizedContract
  | TooManyTxs
  | RingTooLarge

section \<open>Proof of work\<close>

definition byte_leading_zeros :: "byte \<Rightarrow> nat" where
  "byte_leading_zeros b = length (takeWhile (\<lambda>i. \<not> bit b i) [7, 6, 5, 4, 3, 2, 1, 0])"

fun zero_bits :: "bytes \<Rightarrow> nat" where
  "zero_bits [] = 0"
| "zero_bits (b # bs) = (if b = 0 then 8 + zero_bits bs else byte_leading_zeros b)"

definition leading_zero_bits :: "id32 \<Rightarrow> u32" where
  "leading_zero_bits hash = of_nat (zero_bits (be_bytes 32 hash))"

definition meets_bits :: "id32 \<Rightarrow> u32 \<Rightarrow> bool" where
  "meets_bits hash bits \<longleftrightarrow> leading_zero_bits hash \<ge> bits"

definition hash_to_u64 :: "id32 \<Rightarrow> u64" where
  "hash_to_u64 hash = of_be (take 8 (be_bytes 32 hash))"

definition meets_difficulty :: "id32 \<Rightarrow> u64 \<Rightarrow> bool" where
  "meets_difficulty hash difficulty \<longleftrightarrow>
     (if difficulty \<le> 1 then True else hash_to_u64 hash \<le> (- 1) div difficulty)"

text \<open>\<^verbatim>\<open>Ord::clamp\<close>, which panics when \<open>hi < lo\<close>; here \<open>lo \<le> current \<le> hi\<close>.\<close>

definition clamp :: "'a::linorder \<Rightarrow> 'a \<Rightarrow> 'a \<Rightarrow> 'a" where
  "clamp x lo hi = (if x < lo then lo else if x > hi then hi else x)"

definition retarget :: "u64 \<Rightarrow> u64 \<Rightarrow> u64" where
  "retarget current actual_secs =
    (let target = TARGET_BLOCK_TIME_SECS; actual = max actual_secs 1;
         raw = ucast ((ucast current * ucast target :: u128) div ucast actual);
         lo = current div RETARGET_CLAMP; hi = saturating_mul current RETARGET_CLAMP
     in max (clamp raw lo hi) 1)"

definition registration_pow_hash :: "('g, 's, 'r) prims \<Rightarrow> id32 \<Rightarrow> u64 \<Rightarrow> id32" where
  "registration_pow_hash P pubkey nonce = blake3 P (ascii ''LAT-REG'' @ be_bytes 32 pubkey @ le_bytes 8 nonce)"

definition verify_registration_pow :: "('g, 's, 'r) prims \<Rightarrow> id32 \<Rightarrow> u64 \<Rightarrow> bool" where
  "verify_registration_pow P pubkey nonce = meets_bits (registration_pow_hash P pubkey nonce) REGISTRATION_POW_BITS"

text \<open>The search for a nonce; \<^verbatim>\<open>nonce += 1\<close> wraps, so it may run forever.\<close>

partial_function (option) search_nonce :: "(u64 \<Rightarrow> bool) \<Rightarrow> u64 \<Rightarrow> u64 option" where
  "search_nonce found nonce = (if found nonce then Some nonce else search_nonce found (nonce + 1))"

definition mine_registration :: "('g, 's, 'r) prims \<Rightarrow> id32 \<Rightarrow> ('g, 's, 'r) transaction option" where
  "mine_registration P pubkey = map_option (Register pubkey)
     (search_nonce (\<lambda>nonce. meets_bits (registration_pow_hash P pubkey nonce) REGISTRATION_POW_BITS) 0)"

section \<open>Fees, rules and emission\<close>

fun tx_fee :: "('g, 's, 'r) transaction \<Rightarrow> u64" where
  "tx_fee (SolventTransfer token xfer) = st_fee xfer"
| "tx_fee (Unshield token recipient amount xfer sg) = st_fee xfer"
| "tx_fee (AnonTransfer token xfer) = at_fee xfer"
| "tx_fee (PublicTransfer token sender recipient amount fee nonce sg) = fee"
| "tx_fee (Shield token sender recipient amount fee nonce sg) = fee"
| "tx_fee (ShieldStealth token sender e one_time amount fee nonce sg) = fee"
| "tx_fee (AddLiquidity token provider lat_amount tok_amount fee nonce sg) = fee"
| "tx_fee (RemoveLiquidity token provider lp_amount fee nonce sg) = fee"
| "tx_fee (transaction.Swap token trader lat_in amount_in min_out fee nonce sg) = fee"
| "tx_fee (CurveTrade token trader is_buy amount min_out fee nonce sg) = fee"
| "tx_fee (HtlcLock token sender recipient amount hashlock expiry fee nonce sg) = fee"
| "tx_fee (CreateToken ticker creator supply sg) = FLAT_TX_FEE"
| "tx_fee (DeployContract deployer code sg) = FLAT_TX_FEE"
| "tx_fee (CallContract contract caller inp nonce sg) = FLAT_TX_FEE"
| "tx_fee _ = 0"

definition fee_floor :: "u64 \<Rightarrow> chain_error + unit" where
  "fee_floor fee = (if fee < MIN_TRANSFER_FEE then Inl FeeTooLow else Inr ())"

fun check_tx :: "('g, 's, 'r) prims \<Rightarrow> ('g, 's, 'r) transaction \<Rightarrow> chain_error + unit" where
  "check_tx P (Register pubkey pow_nonce) =
     (if verify_registration_pow P pubkey pow_nonce then Inr () else Inl BadRegistrationPow)"
| "check_tx P (SolventTransfer token xfer) = fee_floor (st_fee xfer)"
| "check_tx P (PublicTransfer token sender recipient amount fee nonce sg) = fee_floor fee"
| "check_tx P (Shield token sender recipient amount fee nonce sg) = fee_floor fee"
| "check_tx P (ShieldStealth token sender e one_time amount fee nonce sg) = fee_floor fee"
| "check_tx P (AddLiquidity token provider lat_amount tok_amount fee nonce sg) = fee_floor fee"
| "check_tx P (RemoveLiquidity token provider lp_amount fee nonce sg) = fee_floor fee"
| "check_tx P (transaction.Swap token trader lat_in amount_in min_out fee nonce sg) = fee_floor fee"
| "check_tx P (CurveTrade token trader is_buy amount min_out fee nonce sg) = fee_floor fee"
| "check_tx P (HtlcLock token sender recipient amount hashlock expiry fee nonce sg) = fee_floor fee"
| "check_tx P (Unshield token recipient amount xfer sg) = fee_floor (st_fee xfer)"
| "check_tx P (DeployContract deployer code sg) =
     (if length code > MAX_CONTRACT_CODE_BYTES then Inl OversizedContract else Inr ())"
| "check_tx P (AnonTransfer token xfer) =
     try_then (fee_floor (at_fee xfer)) (\<lambda>_.
       if length (at_ring xfer) > MAX_RING_SIZE then Inl RingTooLarge else Inr ())"
| "check_tx P _ = Inr ()"

definition emission :: "u64 \<Rightarrow> u64" where
  "emission height =
    (let halvings = height div HALVING_INTERVAL in
     if halvings \<ge> 64 then 0 else drop_bit (unat halvings) INITIAL_BLOCK_REWARD)"

section \<open>Blocks\<close>

record block_header =
  bh_prev_hash :: id32
  bh_height :: u64
  bh_timestamp :: u64
  bh_tx_root :: id32
  bh_state_root :: id32
  bh_miner :: id32
  bh_nonce :: u64

definition header_encode :: "block_header \<Rightarrow> bytes" where
  "header_encode h = be_bytes 32 (bh_prev_hash h) @ le_bytes 8 (bh_height h) @ le_bytes 8 (bh_timestamp h)
     @ be_bytes 32 (bh_tx_root h) @ be_bytes 32 (bh_state_root h) @ be_bytes 32 (bh_miner h) @ le_bytes 8 (bh_nonce h)"

definition pow_hash :: "('g, 's, 'r) prims \<Rightarrow> bytes \<Rightarrow> id32" where
  "pow_hash P b = blake3 P b"

definition header_id :: "('g, 's, 'r) prims \<Rightarrow> block_header \<Rightarrow> id32" where
  "header_id P h = pow_hash P (header_encode h)"

definition header_decode :: "bytes \<Rightarrow> block_header option" where
  "header_decode b =
    (if length b \<noteq> HEADER_LEN then None
     else Some \<lparr>bh_prev_hash = of_be (take 32 b), bh_height = of_le (take 8 (drop 32 b)),
       bh_timestamp = of_le (take 8 (drop 40 b)), bh_tx_root = of_be (take 32 (drop 48 b)),
       bh_state_root = of_be (take 32 (drop 80 b)), bh_miner = of_be (take 32 (drop 112 b)),
       bh_nonce = of_le (take 8 (drop 144 b))\<rparr>)"

record ('g, 's, 'r) block =
  blk_header :: block_header
  blk_txs :: "('g, 's, 'r) transaction list"

definition block_encode :: "('g, 's, 'r) prims \<Rightarrow> ('g, 's, 'r) block \<Rightarrow> bytes" where
  "block_encode P b = header_encode (blk_header b) @ le_bytes 4 (of_nat (length (blk_txs b)) :: u32)
     @ concat (map (\<lambda>tx. let e = encode P tx in le_bytes 4 (of_nat (length e) :: u32) @ e) (blk_txs b))"

text \<open>One turn of the decoding loop: a length, that many bytes, and a transaction in them.\<close>

definition rd_tx ::
  "('g::ab_group_add, 's::comm_ring_1, 'r) prims \<Rightarrow> bytes \<Rightarrow> (('g, 's, 'r) transaction \<times> bytes) option" where
  "rd_tx P b = do {
     (len, r) \<leftarrow> rd_u32 b;
     (txb, r') \<leftarrow> rd_take (unat len) r;
     tx \<leftarrow> decode P txb;
     Some (tx, r') }"

definition block_decode ::
  "('g::ab_group_add, 's::comm_ring_1, 'r) prims \<Rightarrow> bytes \<Rightarrow> ('g, 's, 'r) block option" where
  "block_decode P b = do {
     hb \<leftarrow> get_range b 0 HEADER_LEN;
     header \<leftarrow> header_decode hb;
     (count, r) \<leftarrow> rd_u32 (drop HEADER_LEN b);
     (txs, r') \<leftarrow> rd_repeat (unat count) (rd_tx P) r;
     if r' \<noteq> [] then None else Some \<lparr>blk_header = header, blk_txs = txs\<rparr> }"

definition tx_root :: "('g, 's, 'r) prims \<Rightarrow> ('g, 's, 'r) transaction list \<Rightarrow> id32" where
  "tx_root P txs = blake3 P (ascii ''LAT-txroot'' @ concat (map (\<lambda>tx. be_bytes 32 (blake3 P (encode P tx))) txs))"

section \<open>The emission schedule\<close>

lemma unat_emission: "unat (emission h) = 5000000 div 2 ^ (unat h div 131072)"
proof (cases "h div HALVING_INTERVAL \<ge> 64")
  case True
  then have k: "64 \<le> unat h div 131072" by (simp add: word_le_nat_alt unat_div HALVING_INTERVAL_def)
  have "(5000000 :: nat) < 2 ^ 64" by simp
  also have "\<dots> \<le> 2 ^ (unat h div 131072)" by (rule power_increasing [OF k]) simp
  finally show ?thesis using True by (simp add: emission_def)
next
  case False
  have "unat (drop_bit k INITIAL_BLOCK_REWARD) = 5000000 div 2 ^ k" for k
    unfolding unat_drop_bit_eq by (simp add: drop_bit_eq_div INITIAL_BLOCK_REWARD_def)
  then show ?thesis using False by (simp add: emission_def unat_div HALVING_INTERVAL_def)
qed

lemma halving_sum: "(\<Sum>k<m. a div 2 ^ k) + 2 * (a div 2 ^ m) \<le> 2 * (a :: nat)"
proof (induction m)
  case 0
  show ?case by simp
next
  case (Suc m)
  have "2 * (a div 2 ^ Suc m) \<le> a div 2 ^ m" by (simp add: power_Suc2 div_mult2_eq del: power_Suc)
  then show ?case using Suc by simp
qed

text \<open>
  the coinbase supply is capped. The reward never grows with the height, is zero from the
  twenty-third halving on, and the rewards of any number of blocks come to at most
  13,107,200 LAT (1,310,720,000,000 base units).
\<close>

theorem emission_capped:
  assumes "n \<le> 2 ^ 64"
  shows "(\<Sum>h<n. unat (emission (of_nat h))) \<le> 1310720000000 \<and>
    (\<forall>h h'. h \<le> h' \<longrightarrow> emission h' \<le> emission h) \<and>
    (\<forall>h. h \<ge> 23 * HALVING_INTERVAL \<longrightarrow> emission h = 0)"
proof (intro conjI allI impI)
  let ?f = "\<lambda>h. 5000000 div 2 ^ (h div 131072) :: nat"
  have "(\<Sum>h<n. unat (emission (of_nat h))) = (\<Sum>h<n. ?f h)"
    using assms by (intro sum.cong refl) (simp add: unat_emission unat_of_nat)
  also have "\<dots> \<le> (\<Sum>h<n * 131072. ?f h)" by (rule sum_mono2) auto
  also have "\<dots> = (\<Sum>k<n. \<Sum>h = k * 131072..<k * 131072 + 131072. ?f h)" by (rule sum.nat_group [symmetric])
  also have "\<dots> = (\<Sum>k<n. 131072 * (5000000 div 2 ^ k))"
  proof (rule sum.cong [OF refl])
    fix k
    have "?f h = 5000000 div 2 ^ k" if "h \<in> {k * 131072..<k * 131072 + 131072}" for h
    proof -
      have "h div 131072 = k" using that by (intro div_nat_eqI) auto
      then show ?thesis by simp
    qed
    then show "(\<Sum>h = k * 131072..<k * 131072 + 131072. ?f h) = 131072 * (5000000 div 2 ^ k)" by simp
  qed
  also have "\<dots> = 131072 * (\<Sum>k<n. 5000000 div 2 ^ k)" by (simp add: sum_distrib_left)
  also have "\<dots> \<le> 131072 * 10000000" using halving_sum [of 5000000 n] by simp
  finally show "(\<Sum>h<n. unat (emission (of_nat h))) \<le> 1310720000000" by simp
next
  fix h h' :: u64
  assume "h \<le> h'"
  then have "unat h div 131072 \<le> unat h' div 131072" by (simp add: word_le_nat_alt div_le_mono)
  then have "(2 :: nat) ^ (unat h div 131072) \<le> 2 ^ (unat h' div 131072)" by (rule power_increasing) simp
  then show "emission h' \<le> emission h" by (simp add: word_le_nat_alt unat_emission div_le_mono2)
next
  fix h :: u64
  assume "h \<ge> 23 * HALVING_INTERVAL"
  then have "23 \<le> unat h div 131072"
    using div_le_mono [of "23 * 131072" "unat h" 131072] by (simp add: word_le_nat_alt HALVING_INTERVAL_def)
  then have "(2 :: nat) ^ 23 \<le> 2 ^ (unat h div 131072)" by (rule power_increasing) simp
  then have "unat (emission h) = 0" by (simp add: unat_emission)
  then show "emission h = 0" by (simp only: unat_eq_zero)
qed

theorem emission_capped_witness:
  "(\<Sum>h<10000000. unat (emission (of_nat h))) \<le> 1310720000000 \<and> emission 131071 = 5000000 \<and> emission 131072 = 2500000"
proof -
  have "emission 131071 = 5000000" "emission 131072 = 2500000"
    by (simp_all add: word_unat_eq_iff unat_emission)
  with emission_capped [of 10000000] show ?thesis by simp
qed

section \<open>The difficulty adjustment\<close>

lemma clamp_unat: "unat (clamp x lo hi) = clamp (unat x) (unat lo) (unat (hi :: 'a::len word))"
  by (simp add: clamp_def word_less_nat_alt)

lemma unat_max_word: "unat (max a b :: 'a::len word) = max (unat a) (unat b)"
  by (simp add: max_def word_le_nat_alt)

lemma unat_saturating_mul: "unat (saturating_mul a (b :: 'a::len word)) = min (unat a * unat b) (2 ^ LENGTH('a) - 1)"
proof (cases "unat a * unat b < 2 ^ LENGTH('a)")
  case True
  then have "unat a * unat b \<le> 2 ^ LENGTH('a) - 1" by linarith
  then show ?thesis using True by (simp add: saturating_mul_def unat_word_ariths)
next
  case False
  then have "2 ^ LENGTH('a) - 1 \<le> unat a * unat b" by linarith
  then show ?thesis using False
    by (simp add: saturating_mul_def unsigned_minus_1_eq_mask mask_eq_exp_minus_1)
qed

lemma unat_retarget:
  "unat (retarget c s) = max (clamp ((unat c * 3 div max (unat s) 1) mod 2 ^ 64) (unat c div 2) (min (unat c * 2) (2 ^ 64 - 1))) 1"
  unfolding retarget_def Let_def TARGET_BLOCK_TIME_SECS_def RETARGET_CLAMP_def
  by (simp only: clamp_unat unat_max_word unat_mul_div unat_div unat_saturating_mul) simp

lemma times3_div:
  fixes c s :: nat
  shows "s \<le> 3 \<Longrightarrow> c \<le> c * 3 div max s 1" and "3 \<le> s \<Longrightarrow> c * 3 div max s 1 \<le> c"
proof -
  assume "s \<le> 3"
  then have "c * max s 1 \<le> c * 3" by (intro mult_left_mono) auto
  then show "c \<le> c * 3 div max s 1" by (simp add: less_eq_div_iff_mult_less_eq)
next
  assume "3 \<le> s"
  then have "c * 3 div s \<le> c * 3 div 3" by (intro div_le_mono2) auto
  then show "c * 3 div max s 1 \<le> c" using \<open>3 \<le> s\<close> by simp
qed

text \<open>
  The difficulty is steered toward the target time and cannot jump. The next difficulty is never
  zero, never more than double and never less than half (rounded down) of the current one; and as long as
  \<open>3 \<cdot> current\<close> fits in 64 bits, a block faster than the target never lowers it and a slower one never raises it.
\<close>

lemma retarget_steers:
  assumes "0 < current"
  shows "0 < retarget current secs \<and> unat (retarget current secs) \<le> 2 * unat current \<and>
    unat current \<le> 2 * unat (retarget current secs) + 1 \<and>
    (3 * unat current < 2 ^ 64 \<longrightarrow>
      (secs \<le> TARGET_BLOCK_TIME_SECS \<longrightarrow> current \<le> retarget current secs) \<and>
      (secs \<ge> TARGET_BLOCK_TIME_SECS \<longrightarrow> retarget current secs \<le> current))"
proof -
  let ?c = "unat current" and ?s = "unat secs" and ?r = "unat (retarget current secs)"
  let ?raw = "?c * 3 div max ?s 1"
  have c: "0 < ?c" using assms by (simp add: word_less_nat_alt)
  have r: "?r = max (clamp (?raw mod 2 ^ 64) (?c div 2) (min (?c * 2) (2 ^ 64 - 1))) 1" by (rule unat_retarget)
  have lt: "?c < 2 ^ 64" using unat_lt2p [of current] by simp
  have pos: "0 < ?r" unfolding r by simp
  have up: "?r \<le> 2 * ?c" using c by (auto simp: r clamp_def)
  have down: "?c \<le> 2 * ?r + 1" using lt by (auto simp: r clamp_def)
  have steer: "(?s \<le> 3 \<longrightarrow> ?c \<le> ?r) \<and> (3 \<le> ?s \<longrightarrow> ?r \<le> ?c)" if "3 * ?c < 2 ^ 64"
  proof -
    have "?raw \<le> ?c * 3" by simp
    then have m: "?raw mod 2 ^ 64 = ?raw" using that by (intro mod_less) linarith
    show ?thesis using times3_div [of ?s ?c] c lt unfolding r m by (auto simp: clamp_def)
  qed
  show ?thesis
    using pos up down steer by (simp add: word_less_nat_alt word_le_nat_alt TARGET_BLOCK_TIME_SECS_def)
qed

lemma retarget_steers_witness:
  "retarget 256 1 = 512 \<and> 256 \<le> retarget 256 (1 :: u64) \<and> retarget 256 30 = 128 \<and> retarget 256 30 \<le> 256"
  using retarget_steers [of 256 1] retarget_steers [of 256 30]
  by (simp add: retarget_def clamp_def saturating_mul_def chain_params Let_def)

text \<open>
  Beyond that bound the product is cut to 64 bits: at this difficulty a block that is too fast halves the
  difficulty instead of raising it.
\<close>

lemma retarget_truncates: "retarget 0x5555555555555556 1 = 0x2AAAAAAAAAAAAAAB"
  by (simp add: retarget_def clamp_def saturating_mul_def chain_params Let_def)

section \<open>The registration work\<close>

lemma search_nonce_found: "search_nonce found n = Some k \<Longrightarrow> found k"
  by (rule search_nonce.raw_induct [where P = "\<lambda>found n k. found k"]) (auto split: if_splits)

lemma search_nonce_ends: "found m \<Longrightarrow> \<exists>k. search_nonce found n = Some k"
proof (induction "unat (m - n)" arbitrary: n)
  case 0
  then have "n = m" by (simp add: unat_eq_zero)
  then show ?case using 0 by (subst search_nonce.simps) simp
next
  case (Suc d)
  have "unat (m - (n + 1)) = d"
  proof -
    have "m - n \<noteq> 0" using Suc.hyps(2) by auto
    from unat_minus_one [OF this] have "unat (m - n - 1) = d" using Suc.hyps(2) by linarith
    moreover have "m - (n + 1) = m - n - 1" by simp
    ultimately show ?thesis by (simp only:)
  qed
  from Suc.hyps(1) [OF this [symmetric] Suc.prems] show ?case by (subst search_nonce.simps) auto
qed

text \<open>
  The search for a registration nonce ends exactly when there is one, however far it is, and the transaction it
  returns passes the consensus check: the miner and the verifier use one target.
\<close>

lemma mine_registration_ends:
  "(\<exists>n. verify_registration_pow P pubkey n) \<longleftrightarrow>
     (\<exists>n. mine_registration P pubkey = Some (Register pubkey n) \<and> check_tx P (Register pubkey n) = Inr ())"
proof
  assume "\<exists>n. verify_registration_pow P pubkey n"
  then obtain k where k: "search_nonce (\<lambda>nonce. meets_bits (registration_pow_hash P pubkey nonce) REGISTRATION_POW_BITS) 0 = Some k"
    using search_nonce_ends [of "\<lambda>nonce. meets_bits (registration_pow_hash P pubkey nonce) REGISTRATION_POW_BITS"]
    unfolding verify_registration_pow_def by blast
  show "\<exists>n. mine_registration P pubkey = Some (Register pubkey n) \<and> check_tx P (Register pubkey n) = Inr ()"
    using search_nonce_found [OF k] k by (auto simp: mine_registration_def verify_registration_pow_def)
qed (auto split: if_splits)

section \<open>The block format\<close>

lemma length_header_encode [simp]: "length (header_encode h) = HEADER_LEN"
  by (simp add: header_encode_def HEADER_LEN_def)

lemma header_decode_encode: "header_decode (header_encode h) = Some h"
  by (simp add: header_decode_def) (simp add: header_encode_def)

lemma header_codec: "header_decode b = Some h \<longleftrightarrow> b = header_encode h"
proof
  assume "header_decode b = Some h"
  then show "b = header_encode h"
    by (auto simp: header_decode_def header_encode_def HEADER_LEN_def split: if_splits)
qed (simp add: header_decode_encode)

lemma header_encode_inject: "header_encode h = header_encode h' \<longleftrightarrow> h = h'"
  by (metis header_decode_encode option.inject)

definition tx_fits :: "('g, 's, 'r) prims \<Rightarrow> ('g, 's, 'r) transaction \<Rightarrow> bool" where
  "tx_fits P tx \<longleftrightarrow> tx_wf P tx \<and> length (encode P tx) < 2 ^ 32"

definition block_wf :: "('g, 's, 'r) prims \<Rightarrow> ('g, 's, 'r) block \<Rightarrow> bool" where
  "block_wf P b \<longleftrightarrow> length (blk_txs b) < 2 ^ 32 \<and> list_all (tx_fits P) (blk_txs b)"

lemma rd_tx_bytes: "rd_tx P b = Option.bind (rd_bytes b) (\<lambda>(txb, r). map_option (\<lambda>tx. (tx, r)) (decode P txb))"
  by (auto simp: rd_tx_def rd_bytes_def map_conv_bind_option split: bind_split)

lemma codec_tx:
  assumes "encoding_laws P"
  shows "codec (\<lambda>tx. enc_bytes (encode P tx)) (rd_tx P) (tx_fits P)"
proof (intro codec.intro codec_axioms.intro decodes.intro)
  fix tx r
  assume ok: "tx_fits P tx"
  then have "rd_bytes (enc_bytes (encode P tx) @ r) = Some (encode P tx, r)"
    by (simp add: tx_fits_def bytes_codec.dec_enc)
  then show "rd_tx P (enc_bytes (encode P tx) @ r) = Some (tx, r)"
    using ok decode_encode [OF assms] by (simp add: rd_tx_bytes tx_fits_def)
next
  fix b tx r
  assume "rd_tx P b = Some (tx, r)"
  then obtain txb where "rd_bytes b = Some (txb, r)" and d: "decode P txb = Some tx"
    by (auto simp: rd_tx_bytes split: bind_splits)
  then have "b = enc_bytes txb @ r" "length txb < 2 ^ 32" using bytes_codec.enc_dec by blast+
  then show "b = enc_bytes (encode P tx) @ r \<and> tx_fits P tx"
    using decode_encode_all [OF d assms] by (simp add: tx_fits_def)
qed

lemma block_encode_list:
  "block_encode P b = header_encode (blk_header b) @ enc_list (\<lambda>tx. enc_bytes (encode P tx)) (blk_txs b)"
  by (simp add: block_encode_def enc_list_def enc_bytes_def Let_def)

lemma block_decode_list:
  "block_decode P b = (if HEADER_LEN \<le> length b then
     Option.bind (header_decode (take HEADER_LEN b)) (\<lambda>h.
       map_option (\<lambda>txs. \<lparr>blk_header = h, blk_txs = txs\<rparr>) (rd_all (rd_list (rd_tx P)) (drop HEADER_LEN b)))
   else None)"
  by (auto simp: block_decode_def get_range_def rd_all_def rd_list_def map_conv_bind_option split: bind_split)

lemma block_decode_iff:
  assumes "encoding_laws P"
  shows "block_decode P b = Some blk \<longleftrightarrow> b = block_encode P blk \<and> block_wf P blk"
proof -
  note list = rd_all_iff [OF codec_list [OF codec_tx [OF assms]]]
  have "block_decode P b = Some blk \<longleftrightarrow> HEADER_LEN \<le> length b \<and> take HEADER_LEN b = header_encode (blk_header blk) \<and>
      drop HEADER_LEN b = enc_list (\<lambda>tx. enc_bytes (encode P tx)) (blk_txs blk) \<and> block_wf P blk"
    by (cases blk) (auto simp: block_decode_list header_codec list block_wf_def bind_eq_Some_conv)
  also have "\<dots> \<longleftrightarrow> b = block_encode P blk \<and> block_wf P blk"
  proof
    assume "HEADER_LEN \<le> length b \<and> take HEADER_LEN b = header_encode (blk_header blk) \<and>
      drop HEADER_LEN b = enc_list (\<lambda>tx. enc_bytes (encode P tx)) (blk_txs blk) \<and> block_wf P blk"
    then show "b = block_encode P blk \<and> block_wf P blk"
      unfolding block_encode_list by (metis append_take_drop_id)
  qed (simp add: block_encode_list)
  finally show ?thesis .
qed

text \<open>
  The block format is canonical: a byte string decodes to a block iff it is that block's encoding and every
  transaction of it fits the wire. So every block survives the round trip, and trailing or missing bytes are refused.
\<close>

lemma block_codec:
  assumes "encoding_laws P"
  shows "block_decode P b = Some blk \<longleftrightarrow> b = block_encode P blk \<and> block_wf P blk"
  by (rule block_decode_iff [OF assms])

lemma block_codec_witness:
  "block_decode (toy_prims :: (u64, u64, unit) prims) (block_encode (toy_prims :: (u64, u64, unit) prims)
     \<lparr>blk_header = \<lparr>bh_prev_hash = 1, bh_height = 2, bh_timestamp = 3, bh_tx_root = 4, bh_state_root = 5, bh_miner = 6,
        bh_nonce = 7\<rparr>, blk_txs = [Register 8 9]\<rparr>) =
   Some \<lparr>blk_header = \<lparr>bh_prev_hash = 1, bh_height = 2, bh_timestamp = 3, bh_tx_root = 4, bh_state_root = 5, bh_miner = 6,
        bh_nonce = 7\<rparr>, blk_txs = [Register 8 9]\<rparr>"
  by (simp add: block_codec [OF toy_encoding_laws [where 'a = 64]] block_wf_def tx_fits_def)

section \<open>What a block id commits\<close>

text \<open>The strings hashed for a block: each transaction, the list of their hashes, the header.\<close>

definition tx_root_input :: "('g, 's, 'r) prims \<Rightarrow> ('g, 's, 'r) transaction list \<Rightarrow> bytes" where
  "tx_root_input P txs = ascii ''LAT-txroot'' @ concat (map (\<lambda>tx. be_bytes 32 (blake3 P (encode P tx))) txs)"

definition block_inputs :: "('g, 's, 'r) prims \<Rightarrow> ('g, 's, 'r) block \<Rightarrow> bytes set" where
  "block_inputs P b = insert (header_encode (blk_header b)) (insert (tx_root_input P (blk_txs b)) (encode P ` set (blk_txs b)))"

lemma be_bytes_32_nonempty [simp]: "be_bytes 32 (x :: id32) \<noteq> []"
  by (metis length_0_conv length_be_bytes zero_neq_numeral)

lemma concat_hashes_inject: "concat (map (be_bytes 32) xs) = concat (map (be_bytes 32) (ys :: id32 list)) \<Longrightarrow> xs = ys"
  by (induction xs ys rule: list_induct2') (simp_all add: append_eq_append_conv)

text \<open>
  a block id names one block. Two blocks whose transactions fit the wire, whose headers commit their own
  transactions and which have the same id are equal, unless blake3 collides on what was hashed for them.
\<close>

theorem block_id_binds:
  assumes "encoding_laws P" and "block_wf P a" and "block_wf P b"
    and "bh_tx_root (blk_header a) = tx_root P (blk_txs a)" and "bh_tx_root (blk_header b) = tx_root P (blk_txs b)"
    and "inj_on (blake3 P) (block_inputs P a \<union> block_inputs P b)"
    and "header_id P (blk_header a) = header_id P (blk_header b)"
  shows "a = b"
proof -
  have "header_encode (blk_header a) = header_encode (blk_header b)"
    by (rule inj_onD [OF assms(6)]) (use assms(7) in \<open>simp_all add: header_id_def pow_hash_def block_inputs_def\<close>)
  then have h: "blk_header a = blk_header b" by (simp add: header_encode_inject)
  then have "blake3 P (tx_root_input P (blk_txs a)) = blake3 P (tx_root_input P (blk_txs b))"
    using assms(4,5) by (simp add: tx_root_def tx_root_input_def)
  then have "tx_root_input P (blk_txs a) = tx_root_input P (blk_txs b)"
    by (rule inj_onD [OF assms(6)]) (simp_all add: block_inputs_def)
  then have m: "map (\<lambda>tx. blake3 P (encode P tx)) (blk_txs a) = map (\<lambda>tx. blake3 P (encode P tx)) (blk_txs b)"
    using concat_hashes_inject [of "map (\<lambda>tx. blake3 P (encode P tx)) (blk_txs a)" "map (\<lambda>tx. blake3 P (encode P tx)) (blk_txs b)"]
    by (simp add: tx_root_input_def comp_def)
  have "inj_on (\<lambda>tx. blake3 P (encode P tx)) (set (blk_txs a) \<union> set (blk_txs b))"
  proof (rule inj_onI)
    fix x y
    assume xy: "x \<in> set (blk_txs a) \<union> set (blk_txs b)" "y \<in> set (blk_txs a) \<union> set (blk_txs b)"
      and e: "blake3 P (encode P x) = blake3 P (encode P y)"
    have "encode P x = encode P y" by (rule inj_onD [OF assms(6) e]) (use xy in \<open>auto simp: block_inputs_def\<close>)
    moreover have "tx_wf P x" "tx_wf P y" using xy assms(2,3) by (auto simp: block_wf_def tx_fits_def list_all_iff)
    ultimately show "x = y" using decode_encode [OF assms(1)] by (metis option.inject)
  qed
  with m have "blk_txs a = blk_txs b" by (rule map_inj_on)
  with h show ?thesis by (cases a; cases b) simp
qed

abbreviation tail_prims :: "(u64, u64, unit) prims" where
  "tail_prims \<equiv> toy_prims\<lparr>blake3 := \<lambda>b. of_le (drop 144 b)\<rparr>"

abbreviation demo_block :: "u64 \<Rightarrow> (u64, u64, unit) block" where
  "demo_block n \<equiv> \<lparr>blk_header = \<lparr>bh_prev_hash = 0, bh_height = 1, bh_timestamp = 0, bh_tx_root = 0, bh_state_root = 0,
     bh_miner = 0, bh_nonce = n\<rparr>, blk_txs = []\<rparr>"

theorem block_id_binds_witness:
  "header_id tail_prims (blk_header (demo_block 1)) \<noteq> header_id tail_prims (blk_header (demo_block 2))"
proof
  assume same: "header_id tail_prims (blk_header (demo_block 1)) = header_id tail_prims (blk_header (demo_block 2))"
  have laws: "encoding_laws tail_prims" using toy_encoding_laws [where 'a = 64] by (simp add: encoding_laws_def)
  have "tx_root tail_prims [] = 0" by (simp add: tx_root_def ascii_def)
  moreover have "block_wf tail_prims (demo_block n)" for n by (simp add: block_wf_def)
  moreover have "inj_on (blake3 tail_prims) (block_inputs tail_prims (demo_block 1) \<union> block_inputs tail_prims (demo_block 2))"
  proof -
    have "blake3 tail_prims (header_encode (blk_header (demo_block n))) = of_le (le_bytes 8 n)" for n
      by (simp add: header_encode_def)
    then have h: "blake3 tail_prims (header_encode (blk_header (demo_block 1))) = 1"
      "blake3 tail_prims (header_encode (blk_header (demo_block 2))) = 2" by (simp_all add: le_bytes_def upt_rec)
    have "blake3 tail_prims (tx_root_input tail_prims []) = 0" by (simp add: tx_root_input_def ascii_def)
    with h show ?thesis unfolding block_inputs_def by (intro inj_onI) auto
  qed
  ultimately show False using block_id_binds [OF laws _ _ _ _ _ same] by simp
qed

end
