(* ===== verification/Finality.thy ===== *)
theory Finality
  imports Ledger_Settlement Codecs
begin

text \<open>
  Finality votes and certificates, \<^verbatim>\<open>lat-chain/src/finality.rs\<close>. A certificate is judged against a list
  of validators with their stakes; it verifies when distinct members with more than two thirds of
  the stake have signed. The main result ties it to the ledger: two certificates for different blocks at one height
  contain evidence that the ledger accepts against validators with more than a third of the stake.
\<close>

section \<open>Votes\<close>

record vote =
  vo_block_id :: id32
  vo_height :: u64
  vo_validator :: id32
  vo_sig :: arr64

definition vote_sign :: "('g::ab_group_add, 's::comm_ring_1, 'r) prims \<Rightarrow> 's \<Rightarrow> id32 \<Rightarrow> u64 \<Rightarrow> vote" where
  "vote_sign P sk block_id height =
    (let sg = sig_to_bytes P (schnorr_sign P sk (finality_vote_signing_bytes block_id height)) in
     \<lparr>vo_block_id = block_id, vo_height = height, vo_validator = pk_to_bytes P (public_key P sk), vo_sig = of_be sg\<rparr>)"

definition vote_verify :: "('g::ab_group_add, 's, 'r) prims \<Rightarrow> vote \<Rightarrow> bool" where
  "vote_verify P v = (case pk_from_bytes P (vo_validator v) of
       None \<Rightarrow> False
     | Some pk \<Rightarrow> (case sig_from_bytes P (be_bytes 64 (vo_sig v)) of
           None \<Rightarrow> False
         | Some sg \<Rightarrow> schnorr_verify P pk (finality_vote_signing_bytes (vo_block_id v) (vo_height v)) sg))"

definition vote_encode :: "vote \<Rightarrow> bytes" where
  "vote_encode v = be_bytes 32 (vo_block_id v) @ le_bytes 8 (vo_height v) @ be_bytes 32 (vo_validator v) @ be_bytes 64 (vo_sig v)"

definition vote_decode :: "bytes \<Rightarrow> vote option" where
  "vote_decode b =
    (if length b \<noteq> 136 then None
     else Some \<lparr>vo_block_id = of_be (take 32 b), vo_height = of_le (take 8 (drop 32 b)),
       vo_validator = of_be (take 32 (drop 40 b)), vo_sig = of_be (take 64 (drop 72 b))\<rparr>)"

section \<open>Certificates\<close>

record certificate =
  ce_block_id :: id32
  ce_height :: u64
  ce_votes :: "(id32 \<times> arr64) list"

text \<open>The loop over the votes, with the set of signers seen and the stake counted so far.\<close>

fun tally :: "('g::ab_group_add, 's, 'r) prims \<Rightarrow> (id32 \<times> u64) list \<Rightarrow> id32 \<Rightarrow> u64 \<Rightarrow>
    id32 set \<Rightarrow> u128 \<Rightarrow> (id32 \<times> arr64) list \<Rightarrow> u128 option" where
  "tally P vset block height seen voted [] = Some voted"
| "tally P vset block height seen voted ((validator, sg) # votes) =
    (if validator \<in> seen then None
     else (case find (\<lambda>(i, _). i = validator) vset of
         None \<Rightarrow> None
       | Some (_, stake) \<Rightarrow>
           if vote_verify P \<lparr>vo_block_id = block, vo_height = height, vo_validator = validator, vo_sig = sg\<rparr>
           then tally P vset block height (insert validator seen) (voted + ucast stake) votes
           else None))"

definition cert_verify :: "('g::ab_group_add, 's, 'r) prims \<Rightarrow> (id32 \<times> u64) list \<Rightarrow> certificate \<Rightarrow> bool" where
  "cert_verify P vset c =
    (if ce_votes c = [] \<or> vset = [] then False
     else
       let total = sum_list (map (\<lambda>(_, s). ucast s) vset) :: u128 in
       (case tally P vset (ce_block_id c) (ce_height c) {} 0 (ce_votes c) of
          None \<Rightarrow> False
        | Some voted \<Rightarrow> 3 * voted > 2 * total))"

definition cert_encode :: "certificate \<Rightarrow> bytes" where
  "cert_encode c = be_bytes 32 (ce_block_id c) @ le_bytes 8 (ce_height c)
     @ le_bytes 4 (of_nat (length (ce_votes c)) :: u32)
     @ concat (map (\<lambda>(validator, sg). be_bytes 32 validator @ be_bytes 64 sg) (ce_votes c))"

definition cert_decode :: "bytes \<Rightarrow> certificate option" where
  "cert_decode b = do {
     (block_id, r) \<leftarrow> rd_arr32 b;
     (height, r1) \<leftarrow> rd_u64 r;
     (count, r2) \<leftarrow> rd_u32 r1;
     (votes, r3) \<leftarrow> rd_repeat (unat count) (rd_pair rd_arr32 rd_arr64) r2;
     if r3 = [] then Some \<lparr>ce_block_id = block_id, ce_height = height, ce_votes = votes\<rparr> else None }"

section \<open>The wire formats\<close>

lemma vote_codec: "vote_decode b = Some v \<longleftrightarrow> b = vote_encode v"
proof
  assume "vote_decode b = Some v"
  then show "b = vote_encode v" by (auto simp: vote_decode_def vote_encode_def split: if_splits)
next
  assume "b = vote_encode v"
  then show "vote_decode b = Some v" by (cases v) (simp add: vote_decode_def vote_encode_def)
qed

lemma codec_signed: "codec (\<lambda>(i, sg). be_bytes 32 i @ be_bytes 64 sg) (rd_pair rd_arr32 rd_arr64) (\<lambda>_. True)"
  using codec_pair [OF arr32_codec.codec_axioms arr64_codec.codec_axioms]
  by (simp add: enc_pair_def [abs_def] case_prod_beta')

lemma cert_codec: "cert_decode b = Some c \<longleftrightarrow> b = cert_encode c \<and> length (ce_votes c) < 2 ^ 32"
proof -
  let ?e = "\<lambda>(i, sg). be_bytes 32 i @ be_bytes 64 sg" and ?d = "rd_pair rd_arr32 rd_arr64"
  have d: "cert_decode b = rd_all (rd_map (\<lambda>(i, h, vs). \<lparr>ce_block_id = i, ce_height = h, ce_votes = vs\<rparr>)
      (rd_pair rd_arr32 (rd_pair rd_u64 (rd_list ?d)))) b" for b
    by (auto simp: cert_decode_def rd_all_def rd_map_def rd_pair_def rd_list_def bind_assoc split_def cong: if_cong)
  note parts = codec_map [OF codec_pair [OF arr32_codec.codec_axioms
      codec_pair [OF u64_codec.codec_axioms codec_list [OF codec_signed]]],
      of "\<lambda>c. (ce_block_id c, ce_height c, ce_votes c)" "\<lambda>(i, h, vs). \<lparr>ce_block_id = i, ce_height = h, ce_votes = vs\<rparr>"]
  show ?thesis unfolding d
    by (subst rd_all_iff [OF parts]) (auto simp: enc_pair_def enc_list_def cert_encode_def list_all_iff)
qed

section \<open>What a certificate shows\<close>

definition stake_of :: "(id32 \<times> u64) list \<Rightarrow> id32 \<Rightarrow> nat" where
  "stake_of vset i = (case map_of vset i of Some s \<Rightarrow> unat s | None \<Rightarrow> 0)"

lemma find_map_of: "find (\<lambda>(i, _). i = v) vset = map_option (Pair v) (map_of vset v)"
  by (induction vset) auto

lemma tally_Some:
  "tally P vset block height seen voted votes = Some w \<Longrightarrow>
     distinct (map fst votes) \<and> fst ` set votes \<inter> seen = {} \<and> fst ` set votes \<subseteq> fst ` set vset \<and>
     (\<forall>(i, sg)\<in>set votes. vote_verify P \<lparr>vo_block_id = block, vo_height = height, vo_validator = i, vo_sig = sg\<rparr>) \<and>
     w = voted + of_nat (\<Sum>i \<leftarrow> map fst votes. stake_of vset i)"
proof (induction P vset block height seen voted votes rule: tally.induct)
  case (2 P vset block height seen voted i sg votes)
  then obtain s where "map_of vset i = Some s" "i \<notin> seen"
      "vote_verify P \<lparr>vo_block_id = block, vo_height = height, vo_validator = i, vo_sig = sg\<rparr>"
      "tally P vset block height (insert i seen) (voted + ucast s) votes = Some w"
    by (auto simp: find_map_of split: if_splits option.splits)
  moreover from this have "of_nat (stake_of vset i) = (ucast s :: u128)" "i \<in> fst ` set vset"
    by (auto simp: stake_of_def dest: map_of_SomeD intro: rev_image_eqI)
  ultimately show ?case using 2(1) by (auto simp: find_map_of add.assoc)
qed simp

lemma stake_total:
  "distinct (map fst vset) \<Longrightarrow> (\<Sum>(i, s) \<leftarrow> vset. unat s) = (\<Sum>i \<in> fst ` set vset. stake_of vset i)"
proof -
  assume d: "distinct (map fst vset)"
  have "(\<Sum>(i, s) \<leftarrow> vset. unat s) = (\<Sum>i \<leftarrow> map fst vset. stake_of vset i)"
    using d by (auto simp: stake_of_def comp_def split_def intro!: arg_cong [of _ _ sum_list] map_cong)
  also have "\<dots> = (\<Sum>i \<in> fst ` set vset. stake_of vset i)"
    using d by (simp only: sum_list_distinct_conv_sum_set set_map)
  finally show ?thesis .
qed

lemma stake_bound: "(\<Sum>(i, s) \<leftarrow> vset. unat (s :: u64)) \<le> length vset * (2 ^ 64 - 1)"
proof (induction vset)
  case (Cons e vset)
  then show ?case using unat_lt2p [of "snd e"] by (auto simp: split_def)
qed simp

lemma unat_stake_sum: "sum_list (map (\<lambda>(_, s). ucast s) vset) = (of_nat (\<Sum>(i, s) \<leftarrow> vset. unat (s :: u64)) :: u128)"
  by (induction vset) auto

lemma unat_of_nat_u128: "n < 2 ^ 128 \<Longrightarrow> unat (of_nat n :: u128) = n"
  by (simp add: unat_of_nat)

text \<open>The quorum, in natural numbers: the sums of the source do not overflow.\<close>

lemma cert_quorum:
  assumes "cert_verify P vset c" and "distinct (map fst vset)" and "length vset < 2 ^ 62"
  shows "distinct (map fst (ce_votes c))" and "fst ` set (ce_votes c) \<subseteq> fst ` set vset"
    and "\<And>i sg. (i, sg) \<in> set (ce_votes c) \<Longrightarrow>
      vote_verify P \<lparr>vo_block_id = ce_block_id c, vo_height = ce_height c, vo_validator = i, vo_sig = sg\<rparr>"
    and "2 * (\<Sum>i \<in> fst ` set vset. stake_of vset i) < 3 * (\<Sum>i \<in> fst ` set (ce_votes c). stake_of vset i)"
proof -
  obtain w where t: "tally P vset (ce_block_id c) (ce_height c) {} 0 (ce_votes c) = Some w"
    and q: "3 * w > 2 * (sum_list (map (\<lambda>(_, s). ucast s) vset) :: u128)"
    using assms(1) by (auto simp: cert_verify_def Let_def split: if_splits option.splits)
  note ok = tally_Some [OF t]
  show d: "distinct (map fst (ce_votes c))" and sub: "fst ` set (ce_votes c) \<subseteq> fst ` set vset" using ok by simp_all
  show "(i, sg) \<in> set (ce_votes c) \<Longrightarrow>
      vote_verify P \<lparr>vo_block_id = ce_block_id c, vo_height = ce_height c, vo_validator = i, vo_sig = sg\<rparr>" for i sg
    using ok by auto
  let ?T = "\<Sum>i \<in> fst ` set vset. stake_of vset i" and ?V = "\<Sum>i \<in> fst ` set (ce_votes c). stake_of vset i"
  have "?T \<le> length vset * (2 ^ 64 - 1)" using stake_bound [of vset] stake_total [OF assms(2)] by simp
  also have "\<dots> \<le> 2 ^ 62 * (2 ^ 64 - 1)" using assms(3) by (intro mult_right_mono) simp_all
  finally have T: "3 * ?T < 2 ^ 128" by simp
  have "?V \<le> ?T" by (rule sum_mono2) (use sub in auto)
  then have V: "3 * ?V < 2 ^ 128" using T by linarith
  have "w = of_nat (\<Sum>i \<leftarrow> map fst (ce_votes c). stake_of vset i)" using ok by simp
  also have "(\<Sum>i \<leftarrow> map fst (ce_votes c). stake_of vset i) = ?V"
    using d by (simp only: sum_list_distinct_conv_sum_set set_map)
  finally have "w = of_nat ?V" .
  then have "3 * w = of_nat (3 * ?V)" by (simp only: of_nat_mult of_nat_numeral)
  with unat_of_nat_u128 [OF V] have "unat (3 * w) = 3 * ?V" by (simp only:)
  moreover have "2 * (sum_list (map (\<lambda>(_, s). ucast s) vset) :: u128) = of_nat (2 * ?T)"
    by (simp only: unat_stake_sum stake_total [OF assms(2)] of_nat_mult of_nat_numeral)
  with unat_of_nat_u128 [of "2 * ?T"] T have "unat (2 * (sum_list (map (\<lambda>(_, s). ucast s) vset) :: u128)) = 2 * ?T"
    by (simp only:)
  ultimately show "2 * ?T < 3 * ?V" using q by (simp add: word_less_nat_alt)
qed

text \<open>
  C35: conflicting certificates convict more than a third of the stake. When one validator set certifies two
  different blocks at one height, the validators that signed both hold more than a third of the total stake,
  and for each of them the two signatures are evidence that the ledger accepts: the validator is slashed unless it has
  nothing left to lose.
\<close>

theorem conflicting_certificates_slashable:
  assumes "distinct (map fst vset)" and "length vset < 2 ^ 62"
    and "cert_verify P vset a" and "cert_verify P vset b"
    and "ce_height a = ce_height b" and "ce_block_id a \<noteq> ce_block_id b"
  shows "\<exists>F. F \<subseteq> fst ` set (ce_votes a) \<inter> fst ` set (ce_votes b) \<and>
    (\<Sum>i \<in> fst ` set vset. stake_of vset i) < 3 * (\<Sum>i\<in>F. stake_of vset i) \<and>
    (\<forall>i\<in>F. \<exists>sa sb. (i, sa) \<in> set (ce_votes a) \<and> (i, sb) \<in> set (ce_votes b) \<and>
       (\<forall>L beneficiary. \<not> val_tombstoned (validator_or_default L i) \<longrightarrow> slash_total (validator_or_default L i) \<noteq> 0 \<longrightarrow>
         (\<exists>L'. apply_slash P i beneficiary (ce_height a) (ce_block_id a) sa (ce_block_id b) sb L = Inr L')))"
proof (intro exI conjI)
  let ?A = "fst ` set (ce_votes a)" and ?B = "fst ` set (ce_votes b)" and ?S = "stake_of vset"
  note qa = cert_quorum [OF assms(3,1,2)] and qb = cert_quorum [OF assms(4,1,2)]
  have "sum ?S (?A \<union> ?B) + sum ?S (?A \<inter> ?B) = sum ?S ?A + sum ?S ?B" by (rule sum.union_inter) simp_all
  moreover have "sum ?S (?A \<union> ?B) \<le> sum ?S (fst ` set vset)" by (rule sum_mono2) (use qa(2) qb(2) in auto)
  ultimately show "sum ?S (fst ` set vset) < 3 * sum ?S (?A \<inter> ?B)" using qa(4) qb(4) by linarith
  show "\<forall>i\<in>?A \<inter> ?B. \<exists>sa sb. (i, sa) \<in> set (ce_votes a) \<and> (i, sb) \<in> set (ce_votes b) \<and>
       (\<forall>L beneficiary. \<not> val_tombstoned (validator_or_default L i) \<longrightarrow> slash_total (validator_or_default L i) \<noteq> 0 \<longrightarrow>
         (\<exists>L'. apply_slash P i beneficiary (ce_height a) (ce_block_id a) sa (ce_block_id b) sb L = Inr L'))"
  proof
    fix i
    assume "i \<in> ?A \<inter> ?B"
    then obtain sa sb where s: "(i, sa) \<in> set (ce_votes a)" "(i, sb) \<in> set (ce_votes b)" by auto
    from qa(3) [OF s(1)] qb(3) [OF s(2)] obtain pk where "pk_from_bytes P i = Some pk"
        "check_evidence P pk (ce_height a) (ce_block_id a) sa = Inr ()"
        "check_evidence P pk (ce_height a) (ce_block_id b) sb = Inr ()"
      using assms(5) by (auto simp: vote_verify_def check_evidence_def split: option.splits)
    with s assms(6) show "\<exists>sa sb. (i, sa) \<in> set (ce_votes a) \<and> (i, sb) \<in> set (ce_votes b) \<and>
       (\<forall>L beneficiary. \<not> val_tombstoned (validator_or_default L i) \<longrightarrow> slash_total (validator_or_default L i) \<noteq> 0 \<longrightarrow>
         (\<exists>L'. apply_slash P i beneficiary (ce_height a) (ce_block_id a) sa (ce_block_id b) sb L = Inr L'))"
      by (fastforce simp: apply_slash_def Let_def)
  qed
qed simp

text \<open>A validator with all the stake signs two blocks at height 5.\<close>

abbreviation demo_cert :: "id32 \<Rightarrow> certificate" where
  "demo_cert i \<equiv> \<lparr>ce_block_id = i, ce_height = 5, ce_votes = [(0, 0)]\<rparr>"

lemma demo_cert_verify: "cert_verify (toy_prims :: (u64, u64, unit) prims) [(0, 100)] (demo_cert i)"
proof -
  have "vote_verify (toy_prims :: (u64, u64, unit) prims)
      \<lparr>vo_block_id = i, vo_height = 5, vo_validator = 0, vo_sig = 0\<rparr>"
  proof -
    have "decompress (toy_prims :: (u64, u64, unit) prims) 0 = Some 0"
      "smul (toy_prims :: (u64, u64, unit) prims) = (*)" by (simp_all add: toy_prims_def)
    then show ?thesis by (simp add: vote_verify_def pk_from_bytes_def schnorr_verify_def toy_sig)
  qed
  then show ?thesis by (simp add: cert_verify_def)
qed

theorem conflicting_certificates_slashable_witness:
  "\<exists>sa sb. (0, sa) \<in> set (ce_votes (demo_cert 1)) \<and> (0, sb) \<in> set (ce_votes (demo_cert 2)) \<and>
     (\<exists>L'. apply_slash (toy_prims :: (u64, u64, unit) prims) 0 7 5 1 sa 2 sb demo_validators = Inr L')"
proof -
  have "\<not> val_tombstoned (validator_or_default demo_validators 0)" "slash_total (validator_or_default demo_validators 0) \<noteq> 0"
    by (simp_all add: validator_or_default_def demo_validator_fields slash_total_def saturating_add_def)
  with conflicting_certificates_slashable [OF _ _ demo_cert_verify [of 1] demo_cert_verify [of 2]]
  obtain F where F: "F \<subseteq> {0 :: id32}" "100 < 3 * (\<Sum>i\<in>F. stake_of [(0, 100)] i)"
    and slash: "\<forall>i\<in>F. \<exists>sa sb. (i, sa) \<in> set (ce_votes (demo_cert 1)) \<and> (i, sb) \<in> set (ce_votes (demo_cert 2)) \<and>
       (\<forall>(L :: u64 ledger) beneficiary. \<not> val_tombstoned (validator_or_default L i) \<longrightarrow>
         slash_total (validator_or_default L i) \<noteq> 0 \<longrightarrow>
         (\<exists>L'. apply_slash (toy_prims :: (u64, u64, unit) prims) i beneficiary 5 1 sa 2 sb L = Inr L'))"
    by (auto simp: stake_of_def)
  then have "0 \<in> F" by (cases "F = {}") auto
  with slash show ?thesis
    using \<open>\<not> val_tombstoned _\<close> \<open>slash_total _ \<noteq> 0\<close> by fastforce
qed

end
