(* ===== verification/Mempool.thy ===== *)
theory Mempool
  imports Consensus "HOL-Library.Multiset"
begin

text \<open>
  The pool of pending transactions, \<^verbatim>\<open>lat-chain/src/mempool.rs\<close>. \<^verbatim>\<open>swap_remove\<close>, \<^verbatim>\<open>position\<close>,
  \<^verbatim>\<open>min_by_key\<close> (the first minimum) and the stable \<^verbatim>\<open>sort_by_key\<close> are the standard library's.
\<close>

section \<open>The model\<close>

definition MAX_MEMPOOL_TXS :: nat where "MAX_MEMPOOL_TXS = 8192"
definition MAX_SEEN :: nat where "MAX_SEEN = 2 ^ 16"

definition tx_hash :: "('g, 's, 'r) prims \<Rightarrow> ('g, 's, 'r) transaction \<Rightarrow> id32" where
  "tx_hash P tx = blake3 P (encode P tx)"

fun tx_nullifier :: "('g, 's, 'r) prims \<Rightarrow> ('g, 's, 'r) transaction \<Rightarrow> id32 option" where
  "tx_nullifier P (AnonTransfer token xfer) = Some (anon_nullifier P xfer)"
| "tx_nullifier P _ = None"

record ('g, 's, 'r) mempool =
  mp_txs :: "('g, 's, 'r) transaction list"
  mp_seen :: "id32 fset"

definition mp_new :: "('g, 's, 'r) mempool" where
  "mp_new = \<lparr>mp_txs = [], mp_seen = {||}\<rparr>"

text \<open>The chain of \<^verbatim>\<open>matches!\<close> guards at the head of \<^verbatim>\<open>add\<close>.\<close>

fun below_floor :: "('g, 's, 'r) transaction \<Rightarrow> bool" where
  "below_floor (SolventTransfer token xfer) \<longleftrightarrow> st_fee xfer < MIN_TRANSFER_FEE"
| "below_floor (PublicTransfer token sender recipient amount fee nonce sg) \<longleftrightarrow> fee < MIN_TRANSFER_FEE"
| "below_floor (Shield token sender recipient amount fee nonce sg) \<longleftrightarrow> fee < MIN_TRANSFER_FEE"
| "below_floor (ShieldStealth token sender e one_time amount fee nonce sg) \<longleftrightarrow> fee < MIN_TRANSFER_FEE"
| "below_floor (Unshield token recipient amount xfer sg) \<longleftrightarrow> st_fee xfer < MIN_TRANSFER_FEE"
| "below_floor (AnonTransfer token xfer) \<longleftrightarrow> at_fee xfer < MIN_TRANSFER_FEE"
| "below_floor (AddLiquidity token provider lat_amount tok_amount fee nonce sg) \<longleftrightarrow> fee < MIN_TRANSFER_FEE"
| "below_floor (RemoveLiquidity token provider lp_amount fee nonce sg) \<longleftrightarrow> fee < MIN_TRANSFER_FEE"
| "below_floor (transaction.Swap token trader lat_in amount_in min_out fee nonce sg) \<longleftrightarrow> fee < MIN_TRANSFER_FEE"
| "below_floor (HtlcLock token sender recipient amount hashlock expiry fee nonce sg) \<longleftrightarrow> fee < MIN_TRANSFER_FEE"
| "below_floor _ \<longleftrightarrow> False"

fun oversized :: "('g, 's, 'r) transaction \<Rightarrow> bool" where
  "oversized (DeployContract deployer code sg) \<longleftrightarrow> length code > MAX_CONTRACT_CODE_BYTES"
| "oversized _ \<longleftrightarrow> False"

fun position :: "('a \<Rightarrow> bool) \<Rightarrow> 'a list \<Rightarrow> nat option" where
  "position p [] = None"
| "position p (x # xs) = (if p x then Some 0 else map_option Suc (position p xs))"

definition swap_remove :: "nat \<Rightarrow> 'a list \<Rightarrow> 'a list" where
  "swap_remove i xs = butlast (xs[i := last xs])"

definition cheapest :: "('a \<Rightarrow> u64) \<Rightarrow> 'a list \<Rightarrow> (nat \<times> u64) option" where
  "cheapest f xs = (case map f xs of
       [] \<Rightarrow> None
     | k # ks \<Rightarrow> let m = fold min ks k in map_option (\<lambda>i. (i, m)) (position (\<lambda>x. f x = m) xs))"

text \<open>Fee replacement among spends with one nullifier: the pool without the resident, or a refusal.\<close>

definition replace_spend ::
  "('g, 's, 'r) prims \<Rightarrow> ('g, 's, 'r) transaction \<Rightarrow> ('g, 's, 'r) transaction list \<Rightarrow> ('g, 's, 'r) transaction list option" where
  "replace_spend P tx txs = (case tx_nullifier P tx of
       None \<Rightarrow> Some txs
     | Some nf \<Rightarrow> (case position (\<lambda>t. tx_nullifier P t = Some nf) txs of
           None \<Rightarrow> Some txs
         | Some idx \<Rightarrow> if tx_fee tx > tx_fee (txs ! idx) then Some (swap_remove idx txs) else None))"

definition make_room :: "('g, 's, 'r) transaction \<Rightarrow> ('g, 's, 'r) transaction list \<Rightarrow> ('g, 's, 'r) transaction list option" where
  "make_room tx txs =
    (if length txs \<ge> MAX_MEMPOOL_TXS then
       (case cheapest tx_fee txs of
          Some (idx, min_fee) \<Rightarrow> if tx_fee tx > min_fee then Some (swap_remove idx txs) else None
        | None \<Rightarrow> None)
     else Some txs)"

definition mp_add ::
  "('g, 's, 'r) prims \<Rightarrow> ('g, 's, 'r) transaction \<Rightarrow> ('g, 's, 'r) mempool \<Rightarrow> bool \<times> ('g, 's, 'r) mempool" where
  "mp_add P tx mp =
    (if below_floor tx then (False, mp)
     else (case replace_spend P tx (mp_txs mp) of
         None \<Rightarrow> (False, mp)
       | Some txs1 \<Rightarrow>
           let mp1 = mp\<lparr>mp_txs := txs1\<rparr>; h = tx_hash P tx in
           if oversized tx then (False, mp1)
           else if h |\<in>| mp_seen mp then (False, mp1)
           else (case make_room tx txs1 of
               None \<Rightarrow> (False, mp1)
             | Some txs2 \<Rightarrow>
                 let seen1 = (if fcard (mp_seen mp) \<ge> MAX_SEEN then {||} else mp_seen mp) in
                 (True, \<lparr>mp_txs = txs2 @ [tx], mp_seen = finsert h seen1\<rparr>))))"

definition mp_len :: "('g, 's, 'r) mempool \<Rightarrow> nat" where
  "mp_len mp = length (mp_txs mp)"

definition mp_is_empty :: "('g, 's, 'r) mempool \<Rightarrow> bool" where
  "mp_is_empty mp \<longleftrightarrow> mp_txs mp = []"

text \<open>\<^verbatim>\<open>Reverse(fee)\<close> orders as the complement \<open>2 ^ 64 - 1 - fee\<close> does.\<close>

definition drain_order :: "('g, 's, 'r) transaction list \<Rightarrow> nat list" where
  "drain_order txs = sort_key (\<lambda>i. - 1 - tx_fee (txs ! i)) [0..<length txs]"

definition mp_drain :: "nat \<Rightarrow> ('g, 's, 'r) mempool \<Rightarrow> ('g, 's, 'r) transaction list \<times> ('g, 's, 'r) mempool" where
  "mp_drain max_txs mp =
    (let txs = mp_txs mp; n = min max_txs (length txs) in
     if n = 0 then ([], mp)
     else
       let picked = take n (drain_order txs) in
       (map ((!) txs) picked, mp\<lparr>mp_txs := map ((!) txs) (filter (\<lambda>i. i \<notin> set picked) [0..<length txs])\<rparr>))"

definition remove_included ::
  "('g, 's, 'r) prims \<Rightarrow> ('g, 's, 'r) transaction list \<Rightarrow> ('g, 's, 'r) mempool \<Rightarrow> ('g, 's, 'r) mempool" where
  "remove_included P included mp =
    (let ids = set (map (tx_hash P) included); nfs = set (List.map_filter (tx_nullifier P) included) in
     mp\<lparr>mp_txs := filter (\<lambda>t. tx_hash P t \<notin> ids \<and>
        \<not> (case tx_nullifier P t of Some nf \<Rightarrow> nf \<in> nfs | None \<Rightarrow> False)) (mp_txs mp)\<rparr>)"

definition prune_expired :: "u64 \<Rightarrow> ('g, 's, 'r) mempool \<Rightarrow> ('g, 's, 'r) mempool" where
  "prune_expired next_height mp =
     mp\<lparr>mp_txs := filter (\<lambda>t. case t of AnonTransfer token xfer \<Rightarrow> at_epoch xfer = epoch_of next_height | _ \<Rightarrow> True) (mp_txs mp)\<rparr>"

section \<open>Vectors\<close>

lemma position_Some: "position p xs = Some i \<Longrightarrow> i < length xs \<and> p (xs ! i)"
  by (induction xs arbitrary: i) (auto split: if_splits)

lemma position_None: "position p xs = None \<longleftrightarrow> (\<forall>x\<in>set xs. \<not> p x)"
  by (induction xs) auto

lemma mset_swap_remove: "i < length xs \<Longrightarrow> add_mset (xs ! i) (mset (swap_remove i xs)) = mset xs"
proof (cases xs rule: rev_cases)
  case (snoc ys y)
  assume i: "i < length xs"
  show ?thesis
  proof (cases "i < length ys")
    case True
    then show ?thesis using snoc mset_update [of i ys y]
      by (simp add: swap_remove_def list_update_append nth_append)
  next
    case False
    then show ?thesis using snoc i by (simp add: swap_remove_def list_update_append nth_append less_Suc_eq)
  qed
qed simp

lemma swap_remove_props:
  assumes "i < length xs"
  shows "length (swap_remove i xs) = length xs - 1" "set (swap_remove i xs) \<subseteq> set xs"
proof -
  show "length (swap_remove i xs) = length xs - 1" by (simp add: swap_remove_def)
  show "set (swap_remove i xs) \<subseteq> set xs"
    using mset_swap_remove [OF assms] by (metis insert_subset set_mset_add_mset_insert set_mset_mset subset_refl)
qed

lemma cheapest_Some:
  assumes "cheapest f xs = Some (i, m)"
  shows "i < length xs \<and> f (xs ! i) = m"
  using assms by (auto simp: cheapest_def Let_def dest: position_Some split: list.splits)

section \<open>The invariant\<close>

text \<open>The pool is bounded, pays the floor, and holds at most one spend per nullifier.\<close>

definition spends :: "('g, 's, 'r) prims \<Rightarrow> id32 \<Rightarrow> ('g, 's, 'r) transaction multiset \<Rightarrow> nat" where
  "spends P nf M = size (filter_mset (\<lambda>t. tx_nullifier P t = Some nf) M)"

definition mp_inv :: "('g, 's, 'r) prims \<Rightarrow> ('g, 's, 'r) mempool \<Rightarrow> bool" where
  "mp_inv P mp \<longleftrightarrow> length (mp_txs mp) \<le> MAX_MEMPOOL_TXS \<and> fcard (mp_seen mp) \<le> MAX_SEEN \<and>
     (\<forall>tx\<in>set (mp_txs mp). \<not> below_floor tx \<and> \<not> oversized tx) \<and> (\<forall>nf. spends P nf (mset (mp_txs mp)) \<le> 1)"

lemma spends_mono: "M \<subseteq># N \<Longrightarrow> spends P nf M \<le> spends P nf N"
  unfolding spends_def by (intro size_mset_mono multiset_filter_mono)

lemma spends_add:
  "spends P nf (add_mset t M) = (if tx_nullifier P t = Some nf then Suc (spends P nf M) else spends P nf M)"
  by (simp add: spends_def)

lemma spends_zero: "\<forall>t\<in>#M. tx_nullifier P t \<noteq> Some nf \<Longrightarrow> spends P nf M = 0"
  by (simp add: spends_def filter_mset_eq_conv)

lemma mp_inv_new: "mp_inv P mp_new"
  by (simp add: mp_inv_def mp_new_def spends_def fcard_fempty)

lemma mp_inv_sub:
  assumes "mp_inv P mp" and "mset txs \<subseteq># mset (mp_txs mp)"
  shows "mp_inv P (mp\<lparr>mp_txs := txs\<rparr>)"
proof -
  have "length txs \<le> length (mp_txs mp)" using size_mset_mono [OF assms(2)] by simp
  moreover have "set txs \<subseteq> set (mp_txs mp)" using set_mset_mono [OF assms(2)] by simp
  moreover have "spends P nf (mset txs) \<le> 1" for nf
    using assms(1) spends_mono [OF assms(2), of P nf] unfolding mp_inv_def by (metis le_trans)
  ultimately show ?thesis using assms(1) unfolding mp_inv_def by auto
qed

lemma swap_remove_sub: "i < length xs \<Longrightarrow> mset (swap_remove i xs) \<subseteq># mset xs"
  by (metis mset_subset_eq_add_mset_cancel mset_subset_eq_insertD mset_swap_remove subset_mset.dual_order.refl
      subset_mset.less_imp_le)

lemma replace_spend_Some:
  assumes "replace_spend P tx txs = Some txs1" and "\<forall>nf. spends P nf (mset txs) \<le> 1"
  shows "mset txs1 \<subseteq># mset txs \<and> (\<forall>nf. tx_nullifier P tx = Some nf \<longrightarrow> spends P nf (mset txs1) = 0)"
proof (cases "tx_nullifier P tx")
  case None
  then show ?thesis using assms(1) by (simp add: replace_spend_def)
next
  case (Some nf)
  show ?thesis
  proof (cases "position (\<lambda>t. tx_nullifier P t = Some nf) txs")
    case None
    then have "spends P nf (mset txs) = 0" by (intro spends_zero) (simp add: position_None)
    then show ?thesis using assms(1) Some None by (simp add: replace_spend_def)
  next
    case (Some i)
    note p = position_Some [OF Some]
    have t: "txs1 = swap_remove i txs"
      using assms(1) Some \<open>tx_nullifier P tx = Some nf\<close> by (simp add: replace_spend_def split: if_splits)
    have "spends P nf (mset txs) = Suc (spends P nf (mset (swap_remove i txs)))"
      using mset_swap_remove [of i txs] p spends_add [of P nf "txs ! i"] by metis
    with assms(2) have "spends P nf (mset txs1) = 0" unfolding t by (metis One_nat_def Suc_le_mono le_zero_eq)
    then show ?thesis using swap_remove_sub [of i txs] p \<open>tx_nullifier P tx = Some nf\<close> unfolding t by simp
  qed
qed

lemma make_room_Some:
  assumes "make_room tx txs = Some txs2" and "length txs \<le> MAX_MEMPOOL_TXS"
  shows "mset txs2 \<subseteq># mset txs \<and> length txs2 < MAX_MEMPOOL_TXS"
proof (cases "length txs \<ge> MAX_MEMPOOL_TXS")
  case True
  then obtain i where "i < length txs" "txs2 = swap_remove i txs"
    using assms(1) by (auto simp: make_room_def split: option.splits if_splits dest: cheapest_Some)
  then show ?thesis using assms(2) swap_remove_sub [of i txs] swap_remove_props(1) [of i txs] by auto
next
  case False
  then show ?thesis using assms by (simp add: make_room_def)
qed

lemma mp_inv_add:
  assumes "mp_inv P mp"
  shows "mp_inv P (snd (mp_add P tx mp))"
proof (cases "below_floor tx \<or> replace_spend P tx (mp_txs mp) = None")
  case True
  then show ?thesis using assms by (auto simp: mp_add_def)
next
  case False
  then obtain txs1 where r: "replace_spend P tx (mp_txs mp) = Some txs1" and f: "\<not> below_floor tx" by auto
  have one: "\<forall>nf. spends P nf (mset (mp_txs mp)) \<le> 1" using assms by (simp add: mp_inv_def)
  note rs = replace_spend_Some [OF r one]
  have inv1: "mp_inv P (mp\<lparr>mp_txs := txs1\<rparr>)" using mp_inv_sub [OF assms] rs by blast
  show ?thesis
  proof (cases "oversized tx \<or> tx_hash P tx |\<in>| mp_seen mp \<or> make_room tx txs1 = None")
    case True
    then show ?thesis using r f inv1 by (auto simp: mp_add_def Let_def)
  next
    case False
    then obtain txs2 where m: "make_room tx txs1 = Some txs2" by auto
    note mr = make_room_Some [OF m]
    let ?seen = "if fcard (mp_seen mp) \<ge> MAX_SEEN then {||} else mp_seen mp"
    have e: "snd (mp_add P tx mp) = \<lparr>mp_txs = txs2 @ [tx], mp_seen = finsert (tx_hash P tx) ?seen\<rparr>"
      using r f m False by (simp add: mp_add_def Let_def)
    have len: "length txs1 \<le> MAX_MEMPOOL_TXS" using inv1 by (simp add: mp_inv_def)
    have "fcard ?seen < MAX_SEEN" by (simp add: fcard_fempty MAX_SEEN_def not_le)
    then have "fcard (finsert (tx_hash P tx) ?seen) \<le> MAX_SEEN" by (simp add: fcard_finsert_if)
    moreover have "set txs2 \<subseteq> set txs1" using mr [OF len] by (metis set_mset_mono set_mset_mset)
    moreover have "spends P nf (mset (txs2 @ [tx])) \<le> 1" for nf
    proof -
      have "spends P nf (mset txs2) \<le> spends P nf (mset txs1)" using mr [OF len] by (blast intro: spends_mono)
      moreover have "spends P nf (mset txs1) \<le> 1" using inv1 by (simp add: mp_inv_def)
      ultimately show ?thesis using rs by (auto simp: spends_add)
    qed
    ultimately show ?thesis using e f False mr [OF len] inv1 by (auto simp: mp_inv_def)
  qed
qed

section \<open>Draining\<close>

lemma drain_order_props:
  shows "set (drain_order txs) = {..<length txs}" "distinct (drain_order txs)" "length (drain_order txs) = length txs"
    "sorted_wrt (\<lambda>i j. tx_fee (txs ! i) \<ge> tx_fee (txs ! j)) (drain_order txs)"
    "filter (\<lambda>i. tx_fee (txs ! i) = k) (drain_order txs) = filter (\<lambda>i. tx_fee (txs ! i) = k) [0..<length txs]"
proof -
  show "set (drain_order txs) = {..<length txs}" "distinct (drain_order txs)" "length (drain_order txs) = length txs"
    by (auto simp: drain_order_def)
  have "sorted (map (\<lambda>i. - 1 - tx_fee (txs ! i)) (drain_order txs))" by (simp add: drain_order_def)
  then have "sorted_wrt (\<lambda>i j. - 1 - tx_fee (txs ! i) \<le> - 1 - tx_fee (txs ! j)) (drain_order txs)"
    by (simp add: sorted_map)
  moreover have "(- 1 - a \<le> - 1 - b) = (b \<le> (a :: u64))" for a b
  proof -
    have "unat (- 1 - x) = 2 ^ 64 - 1 - unat x" for x :: u64
      by (simp add: unat_sub unsigned_minus_1_eq_mask mask_eq_exp_minus_1)
    then show ?thesis using unat_lt2p [of a] unat_lt2p [of b] by (simp add: word_le_nat_alt) linarith
  qed
  ultimately show "sorted_wrt (\<lambda>i j. tx_fee (txs ! i) \<ge> tx_fee (txs ! j)) (drain_order txs)" by simp
  have "filter (\<lambda>i. - 1 - tx_fee (txs ! i) = - 1 - k) (drain_order txs) =
      filter (\<lambda>i. - 1 - tx_fee (txs ! i) = - 1 - k) [0..<length txs]"
    unfolding drain_order_def by (rule sort_key_stable)
  then show "filter (\<lambda>i. tx_fee (txs ! i) = k) (drain_order txs) = filter (\<lambda>i. tx_fee (txs ! i) = k) [0..<length txs]"
    by simp
qed

lemma mset_split:
  assumes "distinct is" and "set is \<subseteq> {..<n}"
  shows "mset is + mset (filter (\<lambda>i. i \<notin> set is) [0..<n]) = mset [0..<n]"
proof -
  have "mset (filter (\<lambda>i. i \<in> set is) [0..<n]) = mset is"
    by (rule set_eq_iff_mset_eq_distinct [THEN iffD1]) (use assms in auto)
  then show ?thesis using multiset_partition [of "mset [0..<n]" "\<lambda>i. i \<in> set is"] by simp
qed

lemma filter_split:
  assumes "distinct is"
  shows "filter (\<lambda>i. i \<notin> set (take n is)) is = drop n is"
proof -
  have d: "distinct (take n is @ drop n is)" using assms by simp
  have "filter (\<lambda>i. i \<notin> set (take n is)) (take n is @ drop n is) = drop n is"
    using d unfolding filter_append distinct_append by (auto simp: filter_id_conv)
  then show ?thesis by simp
qed

text \<open>
  draining takes the best-paying transactions. It returns as many as asked for and there are, by falling
  fee; nothing that stays pays more than anything that was taken; no transaction is lost or invented; and among
  transactions of equal fee the order of submission is kept, those taken coming first.
\<close>

theorem drain_takes_best:
  assumes "mp_drain n mp = (picked, mp')"
  shows "length picked = min n (length (mp_txs mp)) \<and>
    sorted_wrt (\<lambda>a b. tx_fee a \<ge> tx_fee b) picked \<and>
    (\<forall>a\<in>set picked. \<forall>b\<in>set (mp_txs mp'). tx_fee a \<ge> tx_fee b) \<and>
    mset picked + mset (mp_txs mp') = mset (mp_txs mp) \<and>
    (\<forall>k. filter (\<lambda>t. tx_fee t = k) (picked @ mp_txs mp') = filter (\<lambda>t. tx_fee t = k) (mp_txs mp))"
proof -
  let ?txs = "mp_txs mp" and ?m = "min n (length (mp_txs mp))"
  let ?o = "drain_order ?txs"
  let ?rest = "filter (\<lambda>i. i \<notin> set (take ?m ?o)) [0..<length ?txs]"
  note o = drain_order_props [of ?txs]
  have all: "map ((!) ?txs) [0..<length ?txs] = ?txs" by (simp add: map_nth)
  have p: "picked = map ((!) ?txs) (take ?m ?o)" and r: "mp_txs mp' = map ((!) ?txs) ?rest"
    using assms all by (auto simp: mp_drain_def Let_def split: if_splits)
  have len: "length picked = ?m" using o(3) by (simp add: p)
  have sorted: "sorted_wrt (\<lambda>i j. tx_fee (?txs ! i) \<ge> tx_fee (?txs ! j)) (take ?m ?o @ drop ?m ?o)" using o(4) by simp
  have picked: "sorted_wrt (\<lambda>a b. tx_fee a \<ge> tx_fee b) picked"
    using sorted unfolding sorted_wrt_append p sorted_wrt_map by blast
  have rest: "set ?rest = set (drop ?m ?o)"
  proof -
    have "set (filter (\<lambda>i. i \<notin> set (take ?m ?o)) ?o) = set (drop ?m ?o)" by (simp only: filter_split [OF o(2)])
    then show ?thesis using o(1) by auto
  qed
  have best: "\<forall>a\<in>set picked. \<forall>b\<in>set (mp_txs mp'). tx_fee a \<ge> tx_fee b"
    using sorted unfolding p r set_map rest sorted_wrt_append by blast
  have ms: "mset picked + mset (mp_txs mp') = mset ?txs"
  proof -
    have "mset (take ?m ?o) + mset ?rest = mset [0..<length ?txs]"
      by (rule mset_split) (use o(1,2) in \<open>auto dest: in_set_takeD\<close>)
    then have "image_mset ((!) ?txs) (mset (take ?m ?o) + mset ?rest) = mset (map ((!) ?txs) [0..<length ?txs])"
      by simp
    then show ?thesis unfolding all p r by simp
  qed
  have fifo: "filter (\<lambda>t. tx_fee t = k) (picked @ mp_txs mp') = filter (\<lambda>t. tx_fee t = k) ?txs" for k
  proof -
    let ?k = "filter (\<lambda>i. tx_fee (?txs ! i) = k)"
    have "?k ?rest = filter (\<lambda>i. i \<notin> set (take ?m ?o)) (?k [0..<length ?txs])" by (simp add: conj_commute)
    also have "\<dots> = ?k (filter (\<lambda>i. i \<notin> set (take ?m ?o)) ?o)" by (simp add: o(5) [symmetric] conj_commute)
    also have "\<dots> = ?k (drop ?m ?o)" by (simp only: filter_split [OF o(2)])
    finally have "?k (take ?m ?o) @ ?k ?rest = ?k [0..<length ?txs]"
      by (simp only: filter_append [symmetric] append_take_drop_id o(5))
    then have k: "?k (take ?m ?o @ ?rest) = ?k [0..<length ?txs]" by (simp only: filter_append)
    have push: "filter (\<lambda>t. tx_fee t = k) (map ((!) ?txs) xs) = map ((!) ?txs) (?k xs)" for xs
      by (simp add: filter_map comp_def)
    have "filter (\<lambda>t. tx_fee t = k) (picked @ mp_txs mp') = map ((!) ?txs) (?k (take ?m ?o @ ?rest))"
      by (simp only: p r map_append [symmetric] push)
    also have "\<dots> = filter (\<lambda>t. tx_fee t = k) (map ((!) ?txs) [0..<length ?txs])" by (simp only: k push)
    finally show ?thesis by (simp only: all)
  qed
  show ?thesis using len picked best ms fifo by blast
qed

text \<open>
  The pool keeps its promises under every operation: it never holds more than its cap (nor remembers more hashes
  than its cap), never holds a transfer under the fee floor or an oversized contract, and never holds two
  anonymous spends with one nullifier.
\<close>

lemma mempool_invariant:
  assumes "mp_inv P mp"
  shows "mp_inv P (snd (mp_add P tx mp)) \<and> mp_inv P (snd (mp_drain n mp)) \<and>
    mp_inv P (remove_included P included mp) \<and> mp_inv P (prune_expired next_height mp)"
proof (intro conjI)
  show "mp_inv P (snd (mp_add P tx mp))" by (rule mp_inv_add [OF assms])
  show "mp_inv P (remove_included P included mp)" "mp_inv P (prune_expired next_height mp)"
    unfolding remove_included_def prune_expired_def Let_def by (rule mp_inv_sub [OF assms], simp)+
  let ?txs = "mp_txs mp" and ?m = "min n (length (mp_txs mp))"
  have "mset (map ((!) ?txs) (filter (\<lambda>i. i \<notin> set (take ?m (drain_order ?txs))) [0..<length ?txs])) \<subseteq>#
      mset (map ((!) ?txs) [0..<length ?txs])"
    unfolding mset_map mset_filter by (intro image_mset_subseteq_mono multiset_filter_subset)
  then show "mp_inv P (snd (mp_drain n mp))"
    using mp_inv_sub [OF assms] assms by (auto simp: mp_drain_def Let_def map_nth)
qed

section \<open>Admission and consensus\<close>

text \<open>
  What the pool admits, a block may carry: every transaction from the wire that \<open>mp_add\<close> accepts passes
  \<open>check_tx\<close>, but for registrations, whose work the pool does not check, and curve trades, which the list of
  guards leaves out.
\<close>

lemma admitted_passes_check:
  assumes "fst (mp_add P tx mp)" and "tx_wf P tx"
    and "\<nexists>pubkey n. tx = Register pubkey n"
    and "\<nexists>token trader is_buy amount min_out fee nonce sg. tx = CurveTrade token trader is_buy amount min_out fee nonce sg"
  shows "check_tx P tx = Inr ()"
proof -
  have "\<not> below_floor tx \<and> \<not> oversized tx"
    using assms(1) by (auto simp: mp_add_def Let_def split: if_splits option.splits)
  then show ?thesis
    using assms(2-) by (cases tx) (auto simp: fee_floor_def anon_wf_def)
qed

lemma curve_trade_below_floor_admitted:
  "\<not> below_floor (CurveTrade token trader is_buy amount min_out 0 nonce sg)"
  "check_tx P (CurveTrade token trader is_buy amount min_out 0 nonce sg) = Inl FeeTooLow"
  by (simp_all add: fee_floor_def MIN_TRANSFER_FEE_def)

text \<open>
  The resident of a nullifier is taken out before the checks that can still refuse the newcomer. A spend that was
  drained and is offered again takes a cheaper one with it, and the pool ends up with neither.
\<close>

lemma reoffered_spend_loses_both:
  assumes "tx_nullifier P hi = Some nf" and "tx_nullifier P lo = Some nf" and "tx_fee lo < tx_fee hi"
    and "\<not> below_floor lo" and "\<not> below_floor hi" and "\<not> oversized lo" and "\<not> oversized hi"
    and "tx_hash P lo \<noteq> tx_hash P hi"
  shows "\<exists>mp1 mp2 mp3 mp4. mp_add P hi mp_new = (True, mp1) \<and> mp_drain 1 mp1 = ([hi], mp2) \<and>
    mp_add P lo mp2 = (True, mp3) \<and> mp_txs mp3 = [lo] \<and> mp_add P hi mp3 = (False, mp4) \<and> mp_txs mp4 = []"
  using assms
  by (simp add: mp_add_def mp_new_def replace_spend_def make_room_def Let_def mp_drain_def drain_order_def
      swap_remove_def MAX_MEMPOOL_TXS_def MAX_SEEN_def fcard_fempty fcard_finsert_if)

section \<open>Witnesses\<close>

abbreviation demo_pool :: "(u64, u64, unit) mempool" where
  "demo_pool \<equiv> \<lparr>mp_txs = [PublicTransfer 0 1 2 5 1000 0 0, PublicTransfer 0 3 4 5 2000 0 0, PublicTransfer 0 5 6 5 2000 0 0],
     mp_seen = {||}\<rparr>"

lemma demo_pool_inv: "mp_inv toy_prims demo_pool"
  by (simp add: mp_inv_def spends_def MAX_MEMPOOL_TXS_def MAX_SEEN_def MIN_TRANSFER_FEE_def fcard_fempty)

lemma mempool_invariant_witness:
  "mp_inv (toy_prims :: (u64, u64, unit) prims) (snd (mp_add toy_prims (Register 7 0) demo_pool)) \<and>
   fst (mp_add (toy_prims :: (u64, u64, unit) prims) (Register 7 0) demo_pool)"
  using mempool_invariant [OF demo_pool_inv, of "Register 7 0"]
  by (simp add: mp_add_def replace_spend_def make_room_def Let_def MAX_MEMPOOL_TXS_def)

theorem drain_takes_best_witness:
  "map tx_fee (fst (mp_drain 2 demo_pool)) = [2000, 2000] \<and>
   list_all (\<lambda>t. tx_fee t \<le> 2000) (mp_txs (snd (mp_drain 2 demo_pool)))"
proof -
  have three: "[0..<length (mp_txs demo_pool)] = [0, 1, 2]" by (simp add: upt_rec numeral_2_eq_2)
  have "drain_order (mp_txs demo_pool) = [1, 2, 0]" unfolding drain_order_def three by simp
  then have "fst (mp_drain 2 demo_pool) = [PublicTransfer 0 3 4 5 2000 0 0, PublicTransfer 0 5 6 5 2000 0 0]"
    by (simp add: mp_drain_def Let_def numeral_2_eq_2)
  then show ?thesis using drain_takes_best [of 2 demo_pool, OF prod.collapse [symmetric]] by (simp add: list_all_iff)
qed

end
