(* ===== verification/Block_Log.thy ===== *)
theory Block_Log
  imports Store Mempool
begin

text \<open>
  The durable log of blocks and its transaction index, \<^verbatim>\<open>lat-chain/src/store.rs\<close>, over any key-value store. The
  operations take the store's functions as arguments; the lemmas are proved in the locale \<open>kv_store\<close> and
  hold of every store that satisfies the contract. The sequence number wraps at \<open>2 ^ 64\<close> appends, so the logs
  considered are shorter.
\<close>

section \<open>The model\<close>

definition NEXT_SEQ :: bytes where "NEXT_SEQ = ascii ''chain/next-seq''"
definition BLK_ID :: bytes where "BLK_ID = ascii ''chain/blk/''"

definition blk_id_key :: "id32 \<Rightarrow> bytes" where
  "blk_id_key i = BLK_ID @ be_bytes 32 i"

record 't chain_store =
  cs_kv :: 't
  cs_next_seq :: u64

definition cs_new :: "('t \<Rightarrow> column \<Rightarrow> bytes \<Rightarrow> bytes option) \<Rightarrow> 't \<Rightarrow> 't chain_store" where
  "cs_new get kv = \<lparr>cs_kv = kv, cs_next_seq = (case get kv ColMeta NEXT_SEQ of
       Some b \<Rightarrow> if length b = 8 then of_le b else 0
     | None \<Rightarrow> 0)\<rparr>"

definition tx_loc :: "id32 \<Rightarrow> nat \<Rightarrow> bytes" where
  "tx_loc i pos = be_bytes 32 i @ le_bytes 4 (of_nat pos :: u32)"

definition append_batch :: "('g, 's, 'r) prims \<Rightarrow> u64 \<Rightarrow> id32 \<Rightarrow> bytes \<Rightarrow> ('g, 's, 'r) transaction list \<Rightarrow> batch" where
  "append_batch P seq i encoded txs =
    (let b0 = batch_put ColMeta (blk_id_key i) (be_bytes 8 seq) (batch_put ColBlocks (be_bytes 8 seq) encoded []);
         b1 = foldl (\<lambda>b (pos, tx). batch_put ColTxIndex (be_bytes 32 (tx_hash P tx)) (tx_loc i pos) b) b0 (enumerate 0 txs)
     in batch_put ColMeta NEXT_SEQ (le_bytes 8 (seq + 1)) b1)"

definition cs_append :: "('g, 's, 'r) prims \<Rightarrow> ('t \<Rightarrow> batch \<Rightarrow> 't) \<Rightarrow> id32 \<Rightarrow> bytes \<Rightarrow>
    ('g, 's, 'r) transaction list \<Rightarrow> 't chain_store \<Rightarrow> 't chain_store" where
  "cs_append P write i encoded txs cs =
     \<lparr>cs_kv = write (cs_kv cs) (append_batch P (cs_next_seq cs) i encoded txs), cs_next_seq = cs_next_seq cs + 1\<rparr>"

definition blocks_in_order :: "('t \<Rightarrow> column \<Rightarrow> bytes \<Rightarrow> (bytes \<times> bytes) list) \<Rightarrow> 't chain_store \<Rightarrow> bytes list" where
  "blocks_in_order scan cs = map snd (scan (cs_kv cs) ColBlocks [])"

definition cs_block_by_id :: "('t \<Rightarrow> column \<Rightarrow> bytes \<Rightarrow> bytes option) \<Rightarrow> 't chain_store \<Rightarrow> id32 \<Rightarrow> bytes option" where
  "cs_block_by_id get cs i = do { seq_key \<leftarrow> get (cs_kv cs) ColMeta (blk_id_key i); get (cs_kv cs) ColBlocks seq_key }"

definition cs_tx_location :: "('t \<Rightarrow> column \<Rightarrow> bytes \<Rightarrow> bytes option) \<Rightarrow> 't chain_store \<Rightarrow> id32 \<Rightarrow> (id32 \<times> u32) option" where
  "cs_tx_location get cs h = do {
     v \<leftarrow> get (cs_kv cs) ColTxIndex (be_bytes 32 h);
     if length v \<noteq> 36 then None else Some (of_be (take 32 v), of_le (drop 32 v)) }"

section \<open>Big-endian keys sort as numbers\<close>

lemma be_bytes_Suc: "be_bytes (Suc n) (w :: 'a::len word) = ucast (drop_bit (8 * n) w) # be_bytes n w"
  by (simp add: be_bytes_def le_bytes_def)

lemma unat_byte_of: "unat (ucast (drop_bit (8 * n) (w :: 'a::len word)) :: byte) = unat w div 256 ^ n mod 256"
proof -
  have "unat (drop_bit (8 * n) w) = unat w div 256 ^ n"
    unfolding unat_drop_bit_eq by (simp add: drop_bit_eq_div power_mult)
  then show ?thesis by (simp add: unat_ucast)
qed

lemma be_bytes_less:
  "be_bytes n (a :: 'a::len word) < be_bytes n (b :: 'a word) \<longleftrightarrow> unat a mod 256 ^ n < unat b mod 256 ^ n"
proof (induction n)
  case 0
  then show ?case by (simp add: be_bytes_def le_bytes_def)
next
  case (Suc n)
  let ?h = "\<lambda>w :: 'a word. unat w div 256 ^ n mod 256" and ?t = "\<lambda>w :: 'a word. unat w mod 256 ^ n"
  have split: "unat w mod 256 ^ Suc n = 256 ^ n * ?h w + ?t w" for w :: "'a word"
    by (simp add: mod_mult2_eq power_Suc2 del: power_Suc)
  have t: "?t w < 256 ^ n" for w :: "'a word" by simp
  have "256 ^ n * ?h a + ?t a < 256 ^ n * ?h b + ?t b \<longleftrightarrow> ?h a < ?h b \<or> ?h a = ?h b \<and> ?t a < ?t b"
  proof (cases "?h a" "?h b" rule: linorder_cases)
    case less
    then have "256 ^ n * (?h a + 1) \<le> 256 ^ n * ?h b" by (intro mult_left_mono) simp_all
    then have "256 ^ n * ?h a + ?t a < 256 ^ n * ?h b + ?t b" using t [of a] unfolding distrib_left by linarith
    then show ?thesis using less by simp
  next
    case greater
    then have "256 ^ n * (?h b + 1) \<le> 256 ^ n * ?h a" by (intro mult_left_mono) simp_all
    then have "\<not> 256 ^ n * ?h a + ?t a < 256 ^ n * ?h b + ?t b" using t [of b] unfolding distrib_left by linarith
    then show ?thesis using greater by simp
  qed simp
  then show ?case
    unfolding be_bytes_Suc split using Suc by (simp add: word_less_nat_alt word_unat_eq_iff unat_byte_of)
qed

lemma seq_keys_sorted: "n \<le> 2 ^ 64 \<Longrightarrow> sorted_wrt (<) (map (\<lambda>j. be_bytes 8 (of_nat j :: u64)) [0..<n])"
  unfolding sorted_wrt_map
  by (rule sorted_wrt_mono_rel [OF _ sorted_wrt_upt]) (auto simp: be_bytes_less unat_of_nat)

section \<open>The log\<close>

text \<open>The appended blocks, and for each transaction hash where it was indexed, in order.\<close>

type_synonym ('g, 's, 'r) log = "(id32 \<times> bytes \<times> ('g, 's, 'r) transaction list) list"

definition positions :: "('g, 's, 'r) log \<Rightarrow> (id32 \<times> nat) list" where
  "positions log = map (\<lambda>(j, i, _). (i, j)) (enumerate 0 log)"

definition tx_positions :: "('g, 's, 'r) prims \<Rightarrow> id32 \<Rightarrow> ('g, 's, 'r) transaction list \<Rightarrow> (id32 \<times> id32 \<times> nat) list" where
  "tx_positions P i txs = map (\<lambda>(pos, tx). (tx_hash P tx, i, pos)) (enumerate 0 txs)"

definition locations :: "('g, 's, 'r) prims \<Rightarrow> ('g, 's, 'r) log \<Rightarrow> (id32 \<times> id32 \<times> nat) list" where
  "locations P log = concat (map (\<lambda>(i, _, txs). tx_positions P i txs) log)"

definition logged :: "('g, 's, 'r) prims \<Rightarrow> (column \<Rightarrow> bytes \<Rightarrow> bytes option) \<Rightarrow> ('g, 's, 'r) log \<Rightarrow> bool" where
  "logged P g log \<longleftrightarrow>
     (\<forall>k v. g ColBlocks k = Some v \<longleftrightarrow> (\<exists>j<length log. k = be_bytes 8 (of_nat j :: u64) \<and> v = fst (snd (log ! j)))) \<and>
     (\<forall>i. g ColMeta (blk_id_key i) = map_option (\<lambda>j. be_bytes 8 (of_nat j :: u64)) (map_of (rev (positions log)) i)) \<and>
     g ColMeta NEXT_SEQ = (if log = [] then None else Some (le_bytes 8 (of_nat (length log) :: u64))) \<and>
     (\<forall>h. g ColTxIndex (be_bytes 32 h) = map_option (\<lambda>(i, pos). tx_loc i pos) (map_of (rev (locations P log)) h))"

fun append_all :: "('g, 's, 'r) prims \<Rightarrow> ('t \<Rightarrow> batch \<Rightarrow> 't) \<Rightarrow> ('g, 's, 'r) log \<Rightarrow> 't chain_store \<Rightarrow> 't chain_store" where
  "append_all P write [] cs = cs"
| "append_all P write ((i, encoded, txs) # log) cs = append_all P write log (cs_append P write i encoded txs cs)"

lemma append_all_append: "append_all P write (a @ b) cs = append_all P write b (append_all P write a cs)"
  by (induction a arbitrary: cs) auto

lemma enumerate_snoc: "enumerate n (xs @ [x]) = enumerate n xs @ [(n + length xs, x)]"
  by (simp add: enumerate_append_eq)

lemma blk_keys [simp]: "blk_id_key i \<noteq> NEXT_SEQ" "blk_id_key i = blk_id_key j \<longleftrightarrow> i = j"
  by (auto simp: blk_id_key_def BLK_ID_def NEXT_SEQ_def ascii_def)

lemma after_index_puts:
  "after_batch g (foldl (\<lambda>b (pos, tx). batch_put ColTxIndex (be_bytes 32 (tx_hash P tx)) (tx_loc i pos) b) b0 ps) c k =
    (if c = ColTxIndex then
       (case map_of (rev (map (\<lambda>(pos, tx). (be_bytes 32 (tx_hash P tx), tx_loc i pos)) ps)) k of
          Some v \<Rightarrow> Some v
        | None \<Rightarrow> after_batch g b0 c k)
     else after_batch g b0 c k)"
proof (induction ps rule: rev_induct)
  case (snoc e ps)
  then show ?case by (cases e) (auto split: option.splits)
qed simp

lemma map_of_rev_tx:
  "map_of (rev (map (\<lambda>(pos, tx). (be_bytes 32 (tx_hash P tx), tx_loc i pos)) ps)) (be_bytes 32 h) =
     map_option (\<lambda>(i, pos). tx_loc i pos) (map_of (rev (map (\<lambda>(pos, tx). (tx_hash P tx, i, pos)) ps)) h)"
  by (induction ps rule: rev_induct) auto

lemma map_of_rev_append: "map_of (rev (xs @ ys)) k = (case map_of (rev ys) k of Some v \<Rightarrow> Some v | None \<Rightarrow> map_of (rev xs) k)"
  by (simp add: map_add_def split: option.split)

lemma positions_snoc: "positions (log @ [(i, e, txs)]) = positions log @ [(i, length log)]"
  by (simp add: positions_def enumerate_snoc)

lemma locations_snoc: "locations P (log @ [(i, e, txs)]) = locations P log @ tx_positions P i txs"
  by (simp add: locations_def)

lemma logged_append:
  assumes "logged P g log" and "length log < 2 ^ 64 - 1"
  shows "logged P (after_batch g (append_batch P (of_nat (length log)) i e txs)) (log @ [(i, e, txs)])"
proof -
  let ?n = "of_nat (length log) :: u64"
  have same: "(of_nat j :: u64) = ?n \<longleftrightarrow> j = length log" if "j \<le> length log" for j
    using that assms(2) by (simp add: word_unat_eq_iff unat_of_nat)
  have g: "g ColBlocks k = Some v \<longleftrightarrow> (\<exists>j<length log. k = be_bytes 8 (of_nat j :: u64) \<and> v = fst (snd (log ! j)))"
    "g ColMeta (blk_id_key a) = map_option (\<lambda>j. be_bytes 8 (of_nat j :: u64)) (map_of (rev (positions log)) a)"
    "g ColTxIndex (be_bytes 32 h) = map_option (\<lambda>(i, pos). tx_loc i pos) (map_of (rev (locations P log)) h)" for k v a h
    using assms(1) unfolding logged_def by blast+
  let ?g = "after_batch g (append_batch P ?n i e txs)"
  have blocks: "?g ColBlocks k = (if k = be_bytes 8 ?n then Some e else g ColBlocks k)" for k
    by (simp add: append_batch_def Let_def after_index_puts)
  have meta: "?g ColMeta k = (if k = NEXT_SEQ then Some (le_bytes 8 (?n + 1))
      else if k = blk_id_key i then Some (be_bytes 8 ?n) else g ColMeta k)" for k
    by (simp add: append_batch_def Let_def after_index_puts)
  have index: "?g ColTxIndex (be_bytes 32 h) =
      (case map_option (\<lambda>(i, pos). tx_loc i pos) (map_of (rev (tx_positions P i txs)) h) of
         Some v \<Rightarrow> Some v | None \<Rightarrow> g ColTxIndex (be_bytes 32 h))" for h
    by (simp add: append_batch_def Let_def after_index_puts map_of_rev_tx tx_positions_def split: option.split)
  have "?g ColBlocks k = Some v \<longleftrightarrow>
      (\<exists>j<length (log @ [(i, e, txs)]). k = be_bytes 8 (of_nat j :: u64) \<and> v = fst (snd ((log @ [(i, e, txs)]) ! j)))" for k v
  proof (cases "k = be_bytes 8 ?n")
    case True
    then show ?thesis using same by (auto simp: blocks less_Suc_eq nth_append) (metis less_imp_le nat_neq_iff)
  next
    case False
    then show ?thesis using g(1) by (auto simp: blocks less_Suc_eq nth_append)
  qed
  moreover have "?g ColMeta (blk_id_key a) =
      map_option (\<lambda>j. be_bytes 8 (of_nat j :: u64)) (map_of (rev (positions (log @ [(i, e, txs)]))) a)" for a
    by (simp add: meta g(2) positions_snoc)
  moreover have "?g ColTxIndex (be_bytes 32 h) =
      map_option (\<lambda>(i, pos). tx_loc i pos) (map_of (rev (locations P (log @ [(i, e, txs)]))) h)" for h
    by (simp add: index g(3) locations_snoc map_of_rev_append map_add_def split: option.split)
  ultimately show ?thesis by (simp add: logged_def meta)
qed

text \<open>What the queries answer on a log.\<close>

lemma logged_positions:
  assumes "map_of (rev (positions log)) i = Some j"
  shows "j < length log \<and> fst (log ! j) = i"
proof -
  have "(i, j) \<in> set (positions log)" using map_of_SomeD [OF assms] by simp
  then show ?thesis by (auto simp: positions_def in_set_enumerate_eq)
qed

lemma positions_block:
  "map_option (\<lambda>j. fst (snd (log ! j))) (map_of (rev (positions log)) i) = map_of (rev (map (\<lambda>(i, e, _). (i, e)) log)) i"
proof (induction log rule: rev_induct)
  case (snoc x log)
  obtain a e txs where x: "x = (a, e, txs)" by (cases x)
  have "map_option (\<lambda>j. fst (snd ((log @ [x]) ! j))) (map_of (rev (positions log)) i) =
      map_option (\<lambda>j. fst (snd (log ! j))) (map_of (rev (positions log)) i)"
    by (cases "map_of (rev (positions log)) i") (auto simp: nth_append dest: logged_positions)
  then show ?case using snoc by (auto simp: x positions_snoc nth_append)
qed (simp add: positions_def)

context kv_store
begin

lemma log_blocks:
  assumes "inv (cs_kv cs)" and "logged P (get (cs_kv cs)) log" and "length log \<le> 2 ^ 64"
  shows "blocks_in_order scan cs = map (\<lambda>(_, e, _). e) log"
proof -
  let ?ys = "map (\<lambda>j. (be_bytes 8 (of_nat j :: u64), fst (snd (log ! j)))) [0..<length log]"
  have "scan (cs_kv cs) ColBlocks [] = ?ys"
  proof (rule scan_unique)
    show "sorted_wrt (<) (map fst (scan (cs_kv cs) ColBlocks []))" by (rule sorted_scan [OF assms(1)])
    show "sorted_wrt (<) (map fst ?ys)" using seq_keys_sorted [OF assms(3)] by (simp add: comp_def)
    show "(k, v) \<in> set (scan (cs_kv cs) ColBlocks []) \<longleftrightarrow> (k, v) \<in> set ?ys" for k v
      using assms(1,2) by (auto simp: set_scan logged_def)
  qed
  then have "blocks_in_order scan cs = map (\<lambda>j. (\<lambda>(_, e, _). e) (log ! j)) [0..<length log]"
    by (simp add: blocks_in_order_def comp_def split_def)
  also have "\<dots> = map (\<lambda>(_, e, _). e) log" by (rule nth_equalityI) simp_all
  finally show ?thesis .
qed

lemma log_block_by_id:
  assumes "logged P (get (cs_kv cs)) log"
  shows "cs_block_by_id get cs i = map_of (rev (map (\<lambda>(i, e, _). (i, e)) log)) i"
proof (cases "map_of (rev (positions log)) i")
  case None
  then show ?thesis using assms positions_block [of log i] by (simp add: cs_block_by_id_def logged_def)
next
  case (Some j)
  then have "get (cs_kv cs) ColMeta (blk_id_key i) = Some (be_bytes 8 (of_nat j :: u64))"
    using assms by (simp add: logged_def)
  moreover have "get (cs_kv cs) ColBlocks (be_bytes 8 (of_nat j :: u64)) = Some (fst (snd (log ! j)))"
    using assms logged_positions [OF Some] unfolding logged_def by blast
  ultimately show ?thesis using positions_block [of log i] Some by (simp add: cs_block_by_id_def)
qed

lemma log_tx_location:
  assumes "logged P (get (cs_kv cs)) log"
  shows "cs_tx_location get cs h = map_option (\<lambda>(i, pos). (i, of_nat pos)) (map_of (rev (locations P log)) h)"
proof -
  have "length (tx_loc i pos) = 36 \<and> of_be (take 32 (tx_loc i pos)) = i \<and> of_le (drop 32 (tx_loc i pos)) = (of_nat pos :: u32)" for i pos
    by (simp add: tx_loc_def)
  then show ?thesis using assms
    by (cases "map_of (rev (locations P log)) h") (auto simp: cs_tx_location_def logged_def)
qed

lemma append_all_logged:
  assumes "inv s" and "\<And>c k. get s c k = None" and "length log < 2 ^ 64"
  shows "inv (cs_kv (append_all P commit log (cs_new get s))) \<and>
    logged P (get (cs_kv (append_all P commit log (cs_new get s)))) log \<and>
    cs_next_seq (append_all P commit log (cs_new get s)) = of_nat (length log)"
  using assms(3)
proof (induction log rule: rev_induct)
  case Nil
  then show ?case using assms by (simp add: cs_new_def logged_def positions_def locations_def)
next
  case (snoc x log)
  obtain i e txs where x: "x = (i, e, txs)" by (cases x)
  have "length log < 2 ^ 64 - 1" using snoc.prems by simp
  then show ?case
    using snoc logged_append [of P "get (cs_kv (append_all P commit log (cs_new get s)))" log i e txs]
    by (simp add: x append_all_append cs_append_def inv_commit get_commit)
qed

lemma reopened:
  assumes "logged P (get (cs_kv cs)) log" and "cs_next_seq cs = of_nat (length log)"
  shows "cs_new get (cs_kv cs) = cs"
  using assms by (cases cs) (simp add: cs_new_def logged_def)

end

text \<open>
  C36: the block log is what was appended to it. After any sequence of fewer than \<open>2 ^ 64\<close> appends to an empty store:
  the blocks come back in the order of the appends; a block id finds the last block logged under it, and nothing
  else; a transaction hash finds its last position; and opening the store again continues where it stopped.
\<close>

theorem block_log_exact:
  assumes "length log < 2 ^ 64" and "cs = append_all P mem_write log (cs_new mem_get mem_new)"
  shows "blocks_in_order mem_scan cs = map (\<lambda>(_, e, _). e) log \<and>
    (\<forall>i. cs_block_by_id mem_get cs i = map_of (rev (map (\<lambda>(i, e, _). (i, e)) log)) i) \<and>
    (\<forall>h. cs_tx_location mem_get cs h = map_option (\<lambda>(i, pos). (i, of_nat pos)) (map_of (rev (locations P log)) h)) \<and>
    cs_new mem_get (cs_kv cs) = cs"
proof -
  have "mem_get mem_new c k = None" for c k by (simp add: mem_get_def mem_new_def)
  from mem.append_all_logged [OF TrueI this assms(1), of P, folded assms(2)]
  have l: "logged P (mem_get (cs_kv cs)) log" and n: "cs_next_seq cs = of_nat (length log)" by simp_all
  show ?thesis
    using mem.log_blocks [OF TrueI l] mem.log_block_by_id [OF l] mem.log_tx_location [OF l] mem.reopened [OF l n] assms(1)
    by simp
qed

theorem block_log_exact_witness:
  "blocks_in_order mem_scan (append_all (toy_prims :: (u64, u64, unit) prims) mem_write
     [(1, [7], [Register 10 0]), (2, [8, 9], [])] (cs_new mem_get mem_new)) = [[7], [8, 9]]"
  using block_log_exact [OF _ refl, of "[(1, [7], [Register 10 0]), (2, [8, 9], [])]" "toy_prims :: (u64, u64, unit) prims"]
  by simp

end
