(* ===== verification/Chain.thy ===== *)
theory Chain
  imports Parallel Commitment Prune Finality Block_Log
begin

text \<open>
  The block tree and fork choice of \<^verbatim>\<open>lat-chain/src/lib.rs\<close>: the state transition of a block, the \<^verbatim>\<open>Blockchain\<close> with its
  genesis, \<^verbatim>\<open>apply_block\<close> (extension, reorganisation, side branch), the structural \<^verbatim>\<open>insert_skeleton\<close>,
  finality, mining and the queries.

  A ledger of the chain is \<open>lstate\<close>: the ledger, the root of its commitment and the store of the trie. \<^verbatim>\<open>clone\<close> is
  sharing of the value, and \<^verbatim>\<open>flush\<close> is invisible on it (theory \<open>Store\<close>: the overlay shows the batch over the base). The
  record \<open>host\<close> collects what the source takes from elsewhere: the third-party primitives, the number of workers
  and the iteration order of the dirty hash set.

  Not in the record \<open>blockchain\<close>: the snapshot file, the boot mode and the durable base of the ledger
  records, which only startup and shutdown read.
\<close>

section \<open>The state transition of a block\<close>

record ('g, 's, 'r) host =
  h_prims :: "('g, 's, 'r) prims"
  h_workers :: nat
  h_order :: "dirty_key fset \<Rightarrow> dirty_key list"

type_synonym 'g lstate = "'g ledger \<times> id32 \<times> mem_store"

text \<open>What can come out instead of a value: an error, a panic, or nothing at all.\<close>

datatype fault =
    Reject chain_error
  | Crash
  | Diverge

definition ledger_root :: "('g, 's, 'r) host \<Rightarrow> 'g lstate \<Rightarrow> fault + id32 \<times> 'g lstate" where
  "ledger_root E st = (case state_root (h_prims E) mem_get mem_write (h_order E (l_dirty (fst st))) st of
       Inl p \<Rightarrow> Inl Crash
     | Inr r \<Rightarrow> Inr r)"

text \<open>The two lists of fees that the block's miner earns, as the \<^verbatim>\<open>match\<close> collects them.\<close>

fun confidential_fee :: "('g, 's, 'r) transaction \<Rightarrow> (u32 \<times> u64) option" where
  "confidential_fee (SolventTransfer token xfer) = (if st_fee xfer > 0 then Some (token, st_fee xfer) else None)"
| "confidential_fee (Unshield token recipient amount xfer sg) = (if st_fee xfer > 0 then Some (token, st_fee xfer) else None)"
| "confidential_fee (AnonTransfer token xfer) = (if at_fee xfer > 0 then Some (token, at_fee xfer) else None)"
| "confidential_fee _ = None"

fun transparent_fee :: "('g, 's, 'r) transaction \<Rightarrow> (u32 \<times> u64) option" where
  "transparent_fee (PublicTransfer token sender recipient amount fee nonce sg) = (if fee > 0 then Some (token, fee) else None)"
| "transparent_fee (Shield token sender recipient amount fee nonce sg) = (if fee > 0 then Some (token, fee) else None)"
| "transparent_fee (ShieldStealth token sender e one_time amount fee nonce sg) = (if fee > 0 then Some (token, fee) else None)"
| "transparent_fee (AddLiquidity token provider lat_amount tok_amount fee nonce sg) =
     (if fee > 0 then Some (LAT_TOKEN, fee) else None)"
| "transparent_fee (RemoveLiquidity token provider lp_amount fee nonce sg) = (if fee > 0 then Some (LAT_TOKEN, fee) else None)"
| "transparent_fee (transaction.Swap token trader lat_in amount_in min_out fee nonce sg) =
     (if fee > 0 then Some (LAT_TOKEN, fee) else None)"
| "transparent_fee (CurveTrade token trader is_buy amount min_out fee nonce sg) =
     (if fee > 0 then Some (LAT_TOKEN, fee) else None)"
| "transparent_fee (HtlcLock token sender recipient amount hashlock expiry fee nonce sg) =
     (if fee > 0 then Some (LAT_TOKEN, fee) else None)"
| "transparent_fee (CreateToken ticker creator supply sg) = Some (LAT_TOKEN, FLAT_TX_FEE)"
| "transparent_fee (DeployContract deployer code sg) = Some (LAT_TOKEN, FLAT_TX_FEE)"
| "transparent_fee (CallContract contract caller inp nonce sg) = Some (LAT_TOKEN, FLAT_TX_FEE)"
| "transparent_fee _ = None"

definition pay_miner ::
  "('g::ab_group_add, 's::comm_ring_1, 'r) prims \<Rightarrow> id32 \<Rightarrow> u64 \<Rightarrow> ('g, 's, 'r) transaction list \<Rightarrow> 'g ledger \<Rightarrow> 'g ledger" where
  "pay_miner P miner height txs L =
    (if miner = 0 then L
     else
       let L1 = reward_miner P miner LAT_TOKEN (emission height) L;
           L2 = foldl (\<lambda>M (token, fee). reward_miner P miner token fee M) L1 (List.map_filter confidential_fee txs)
       in foldl (\<lambda>M (token, fee). credit_public miner token fee M) L2 (List.map_filter transparent_fee txs))"

definition apply_txs_and_reward ::
  "('g::ab_group_add, 's::comm_ring_1, 'r) host \<Rightarrow> ('g, 's, 'r) transaction list \<Rightarrow> id32 \<Rightarrow> u64 \<Rightarrow> 'g ledger \<Rightarrow>
   chain_error option \<times> 'g ledger" where
  "apply_txs_and_reward E txs miner height L =
    (case apply_block_parallel (h_prims E) (h_workers E) L txs height of
       (Some e, L1) \<Rightarrow> (Some (LedgerFault e), L1)
     | (None, L1) \<Rightarrow> (None, pay_miner (h_prims E) miner height txs L1))"

definition apply_block_state ::
  "('g::ab_group_add, 's::comm_ring_1, 'r) host \<Rightarrow> ('g, 's, 'r) block \<Rightarrow> 'g lstate \<Rightarrow> fault + 'g lstate" where
  "apply_block_state E b st = (case st of (L, root, s) \<Rightarrow>
     (case apply_txs_and_reward E (blk_txs b) (bh_miner (blk_header b)) (bh_height (blk_header b)) L of
        (Some e, L1) \<Rightarrow> Inl (Reject e)
      | (None, L1) \<Rightarrow> try_then (ledger_root E (L1, root, s)) (\<lambda>(r, st').
          if r \<noteq> bh_state_root (blk_header b) then Inl (Reject BadStateRoot) else Inr st')))"

section \<open>The chain\<close>

record tree_node =
  tn_encoded :: bytes
  tn_header :: block_header
  tn_height :: u64
  tn_child_difficulty :: u64
  tn_cum_work :: u128

type_synonym block_tree = "(id32, tree_node) fmap"
type_synonym validators = "(id32 \<times> u64) list"

record 'g blockchain =
  bc_tree :: block_tree
  bc_genesis_id :: id32
  bc_premine :: "(id32 \<times> u64) list"
  bc_public_premine :: "(id32 \<times> u64) list"
  bc_active_tip :: id32
  bc_active_height :: u64
  bc_active_state :: "'g lstate"
  bc_active_chain :: "id32 list"
  bc_store :: "mem_store chain_store option"
  bc_prune_window :: "u64 option"
  bc_finalized :: "(u64 \<times> id32) option"
  bc_recent_sets :: "(u64 \<times> validators) list"

definition FINALITY_SET_WINDOW :: nat where "FINALITY_SET_WINDOW = 64"

text \<open>\<^verbatim>\<open>Vec::get\<close>\<close>

definition vec_get :: "'a list \<Rightarrow> nat \<Rightarrow> 'a option" where
  "vec_get xs i = (if i < length xs then Some (xs ! i) else None)"

subsection \<open>Finality\<close>

definition note_validator_set :: "'g blockchain \<Rightarrow> 'g blockchain" where
  "note_validator_set c =
    (let sets = bc_recent_sets c @ [(bc_active_height c, validator_set (fst (bc_active_state c)))]
     in c\<lparr>bc_recent_sets := drop (length sets - FINALITY_SET_WINDOW) sets\<rparr>)"

definition validator_set_at :: "'g blockchain \<Rightarrow> u64 \<Rightarrow> validators option" where
  "validator_set_at c height = map_option snd (find (\<lambda>(h, _). h = height) (rev (bc_recent_sets c)))"

definition try_finalize ::
  "('g::ab_group_add, 's, 'r) host \<Rightarrow> certificate \<Rightarrow> 'g blockchain \<Rightarrow> bool \<times> 'g blockchain" where
  "try_finalize E cert c =
    (if (case bc_finalized c of Some (fh, _) \<Rightarrow> ce_height cert \<le> fh | None \<Rightarrow> False) then (False, c)
     else if vec_get (bc_active_chain c) (unat (ce_height cert)) \<noteq> Some (ce_block_id cert) then (False, c)
     else (case validator_set_at c (ce_height cert) of
         None \<Rightarrow> (False, c)
       | Some vset \<Rightarrow>
           if \<not> cert_verify (h_prims E) vset cert then (False, c)
           else (True, c\<lparr>bc_finalized := Some (ce_height cert, ce_block_id cert)\<rparr>)))"

subsection \<open>Genesis\<close>

definition premine_account ::
  "('g::ab_group_add, 's, 'r) prims \<Rightarrow> panic + 'g ledger \<Rightarrow> id32 \<times> u64 \<Rightarrow> panic + 'g ledger" where
  "premine_account P r e = try_then r (\<lambda>L. case e of (i, amount) \<Rightarrow>
     (case credit_genesis P i amount (snd (or_keep L (register i L))) of Inl _ \<Rightarrow> Inl Panic | Inr M \<Rightarrow> Inr M))"

definition public_premine_account :: "'g ledger \<Rightarrow> id32 \<times> u64 \<Rightarrow> 'g ledger" where
  "public_premine_account L e = (case e of (i, amount) \<Rightarrow>
     credit_public i LAT_TOKEN amount (snd (or_keep L (register i L))))"

definition genesis_state ::
  "('g::ab_group_add, 's, 'r) prims \<Rightarrow> (id32 \<times> u64) list \<Rightarrow> (id32 \<times> u64) list \<Rightarrow> panic + 'g lstate" where
  "genesis_state P premine public_premine =
     try_then (foldl (premine_account P) (Inr ledger_new) premine) (\<lambda>L.
       Inr (foldl public_premine_account L public_premine, empty_root P, mem_new))"

definition genesis_with_public ::
  "('g::ab_group_add, 's::comm_ring_1, 'r) host \<Rightarrow> (id32 \<times> u64) list \<Rightarrow> (id32 \<times> u64) list \<Rightarrow> u64 \<Rightarrow>
   fault + 'g blockchain" where
  "genesis_with_public E premine public_premine difficulty0 =
    (let P = h_prims E; difficulty = max difficulty0 1 in
     case genesis_state P premine public_premine of
       Inl _ \<Rightarrow> Inl Crash
     | Inr state0 \<Rightarrow> try_then (ledger_root E state0) (\<lambda>(root, state).
         let header = \<lparr>bh_prev_hash = 0, bh_height = 0, bh_timestamp = GENESIS_TIMESTAMP, bh_tx_root = 0,
               bh_state_root = root, bh_miner = 0, bh_nonce = 0\<rparr>;
             gid = header_id P header;
             node = \<lparr>tn_encoded = block_encode P \<lparr>blk_header = header, blk_txs = []\<rparr>, tn_header = header, tn_height = 0,
               tn_child_difficulty = difficulty, tn_cum_work = 0\<rparr>
         in Inr (note_validator_set
             \<lparr>bc_tree = fmupd gid node fmempty, bc_genesis_id = gid, bc_premine = premine, bc_public_premine = public_premine,
              bc_active_tip = gid, bc_active_height = 0, bc_active_state = state, bc_active_chain = [gid], bc_store = None,
              bc_prune_window = None, bc_finalized = None, bc_recent_sets = []\<rparr>)))"

definition set_prune_window :: "u64 \<Rightarrow> 'g blockchain \<Rightarrow> 'g blockchain" where
  "set_prune_window window c = c\<lparr>bc_prune_window := Some (max window 1)\<rparr>"

subsection \<open>Paths and replay\<close>

text \<open>The walk to the genesis; \<open>None\<close> is a walk that never ends. The path is built back to front.\<close>

partial_function (option) path_loop :: "block_tree \<Rightarrow> id32 \<Rightarrow> id32 \<Rightarrow> id32 list \<Rightarrow> id32 list option" where
  "path_loop tree gid cur path =
    (if cur = gid then Some (cur # path)
     else (case fmlookup tree cur of
         Some node \<Rightarrow> path_loop tree gid (bh_prev_hash (tn_header node)) (cur # path)
       | None \<Rightarrow> Some (cur # path)))"

definition path_to :: "'g blockchain \<Rightarrow> id32 \<Rightarrow> id32 list option" where
  "path_to c i = path_loop (bc_tree c) (bc_genesis_id c) i []"

fun replay_path ::
  "('g::ab_group_add, 's::comm_ring_1, 'r) host \<Rightarrow> block_tree \<Rightarrow> id32 \<Rightarrow> id32 list \<Rightarrow> 'g lstate \<Rightarrow> fault + 'g lstate" where
  "replay_path E tree gid [] st = Inr st"
| "replay_path E tree gid (i # path) st =
    (if i = gid then replay_path E tree gid path st
     else try_then (ok_or (fmlookup tree i) (Reject OrphanBlock)) (\<lambda>node.
       try_then (ok_or (block_decode (h_prims E) (tn_encoded node)) (Reject BadTxRoot)) (\<lambda>b.
       try_then (apply_block_state E b st) (replay_path E tree gid path))))"

definition rebuild_state ::
  "('g::ab_group_add, 's::comm_ring_1, 'r) host \<Rightarrow> 'g blockchain \<Rightarrow> id32 list \<Rightarrow> fault + 'g lstate" where
  "rebuild_state E c path = (case genesis_state (h_prims E) (bc_premine c) (bc_public_premine c) of
       Inl _ \<Rightarrow> Inl Crash
     | Inr st \<Rightarrow> replay_path E (bc_tree c) (bc_genesis_id c) path st)"

subsection \<open>Pruning and the block log\<close>

definition prune_history :: "('g, 's, 'r) host \<Rightarrow> id32 list \<Rightarrow> 'g lstate \<Rightarrow> fault + 'g lstate" where
  "prune_history E retain st = try_then (ledger_root E st) (\<lambda>(root, L, root', s).
     Inr (L, root', mem_write s (snd (smt_prune (mem_get s) (mem_scan s) (root # retain)))))"

definition maybe_prune :: "('g, 's, 'r) host \<Rightarrow> 'g blockchain \<Rightarrow> fault option \<times> 'g blockchain" where
  "maybe_prune E c = (case bc_prune_window c of
       None \<Rightarrow> (None, c)
     | Some window \<Rightarrow>
         if bc_active_height c = 0 \<or> bc_active_height c mod window \<noteq> 0 then (None, c)
         else
           let retain = List.map_filter (\<lambda>i. map_option (\<lambda>n. bh_state_root (tn_header n)) (fmlookup (bc_tree c) i))
                 (take (unat (window + 1)) (rev (bc_active_chain c)))
           in (case prune_history E retain (bc_active_state c) of
               Inl f \<Rightarrow> (Some f, c)
             | Inr st \<Rightarrow> (None, c\<lparr>bc_active_state := st\<rparr>)))"

definition persist ::
  "('g, 's, 'r) host \<Rightarrow> ('g, 's, 'r) block \<Rightarrow> bytes \<Rightarrow> 'g blockchain \<Rightarrow> 'g blockchain" where
  "persist E b encoded c = (case bc_store c of
       None \<Rightarrow> c
     | Some cs \<Rightarrow> c\<lparr>bc_store := Some (cs_append (h_prims E) mem_write (header_id (h_prims E) (blk_header b)) encoded (blk_txs b) cs)\<rparr>)"

subsection \<open>Accepting a block\<close>

text \<open>The structural checks shared by \<^verbatim>\<open>apply_block\<close> and \<^verbatim>\<open>insert_skeleton\<close>, and the node they make.\<close>

definition check_link :: "('g, 's, 'r) prims \<Rightarrow> block_tree \<Rightarrow> ('g, 's, 'r) block \<Rightarrow> chain_error + tree_node" where
  "check_link P tree b =
    (if length (blk_txs b) > MAX_TXS_PER_BLOCK then Inl TooManyTxs
     else try_then (ok_or (fmlookup tree (bh_prev_hash (blk_header b))) OrphanBlock) (\<lambda>parent.
       if bh_height (blk_header b) \<noteq> tn_height parent + 1 then Inl BadHeight
       else if bh_tx_root (blk_header b) \<noteq> tx_root P (blk_txs b) then Inl BadTxRoot
       else if \<not> meets_difficulty (header_id P (blk_header b)) (tn_child_difficulty parent) then Inl BadPow
       else Inr parent))"

fun check_txs :: "('g, 's, 'r) prims \<Rightarrow> ('g, 's, 'r) transaction list \<Rightarrow> chain_error + unit" where
  "check_txs P [] = Inr ()"
| "check_txs P (tx # txs) = try_then (check_tx P tx) (\<lambda>_. check_txs P txs)"

definition child_node :: "tree_node \<Rightarrow> block_header \<Rightarrow> bytes \<Rightarrow> tree_node" where
  "child_node parent header encoded =
    (let required = tn_child_difficulty parent in
     \<lparr>tn_encoded = encoded, tn_header = header, tn_height = bh_height header,
      tn_child_difficulty = retarget required (saturating_sub (bh_timestamp header) (bh_timestamp (tn_header parent))),
      tn_cum_work = tn_cum_work parent + ucast required\<rparr>)"

definition extend_tip ::
  "('g::ab_group_add, 's::comm_ring_1, 'r) host \<Rightarrow> ('g, 's, 'r) block \<Rightarrow> id32 \<Rightarrow> tree_node \<Rightarrow> 'g blockchain \<Rightarrow>
   fault option \<times> 'g blockchain" where
  "extend_tip E b i node c = (case apply_block_state E b (bc_active_state c) of
       Inl f \<Rightarrow> (Some f, c)
     | Inr next_state \<Rightarrow>
         let c1 = persist E b (tn_encoded node) c;
             c2 = c1\<lparr>bc_tree := fmupd i node (bc_tree c1), bc_active_state := next_state, bc_active_tip := i,
                  bc_active_height := bh_height (blk_header b), bc_active_chain := bc_active_chain c1 @ [i]\<rparr>
         in maybe_prune E (note_validator_set c2))"

definition switch_branch ::
  "('g::ab_group_add, 's::comm_ring_1, 'r) host \<Rightarrow> ('g, 's, 'r) block \<Rightarrow> id32 \<Rightarrow> tree_node \<Rightarrow> 'g blockchain \<Rightarrow>
   fault option \<times> 'g blockchain" where
  "switch_branch E b i node c =
    (let c1 = c\<lparr>bc_tree := fmupd i node (bc_tree c)\<rparr> in
     case path_to c1 i of
       None \<Rightarrow> (Some Diverge, c1)
     | Some path \<Rightarrow>
         if (case bc_finalized c1 of Some (fh, fid) \<Rightarrow> vec_get path (unat fh) \<noteq> Some fid | None \<Rightarrow> False)
         then (None, persist E b (tn_encoded node) c1)
         else (case rebuild_state E c1 path of
             Inl f \<Rightarrow> (Some f, c1\<lparr>bc_tree := fmdrop i (bc_tree c1)\<rparr>)
           | Inr new_state \<Rightarrow>
               let c2 = persist E b (tn_encoded node) c1;
                   c3 = c2\<lparr>bc_active_state := new_state, bc_active_tip := i, bc_active_height := bh_height (blk_header b),
                        bc_active_chain := path, bc_recent_sets := []\<rparr>
               in maybe_prune E (note_validator_set c3)))"

definition apply_block ::
  "('g::ab_group_add, 's::comm_ring_1, 'r) host \<Rightarrow> ('g, 's, 'r) block \<Rightarrow> 'g blockchain \<Rightarrow> fault option \<times> 'g blockchain" where
  "apply_block E b c =
    (let P = h_prims E; i = header_id P (blk_header b) in
     if i |\<in>| fmdom (bc_tree c) then (None, c)
     else (case check_link P (bc_tree c) b of
         Inl e \<Rightarrow> (Some (Reject e), c)
       | Inr parent \<Rightarrow> (case check_txs P (blk_txs b) of
             Inl e \<Rightarrow> (Some (Reject e), c)
           | Inr _ \<Rightarrow>
               let node = child_node parent (blk_header b) (block_encode P b) in
               (case fmlookup (bc_tree c) (bc_active_tip c) of
                  None \<Rightarrow> (Some Crash, c)
                | Some tip \<Rightarrow>
                    if bh_prev_hash (blk_header b) = bc_active_tip c then extend_tip E b i node c
                    else if tn_cum_work node > tn_cum_work tip then switch_branch E b i node c
                    else (None, (persist E b (tn_encoded node) c)\<lparr>bc_tree := fmupd i node (bc_tree c)\<rparr>)))))"

definition insert_skeleton ::
  "('g::ab_group_add, 's::comm_ring_1, 'r) host \<Rightarrow> ('g, 's, 'r) block \<Rightarrow> bytes \<Rightarrow> 'g blockchain \<Rightarrow>
   fault option \<times> 'g blockchain" where
  "insert_skeleton E b encoded c =
    (let P = h_prims E; i = header_id P (blk_header b) in
     if i |\<in>| fmdom (bc_tree c) then (None, c)
     else (case check_link P (bc_tree c) b of
         Inl e \<Rightarrow> (Some (Reject e), c)
       | Inr parent \<Rightarrow>
           let node = child_node parent (blk_header b) encoded in
           (case fmlookup (bc_tree c) (bc_active_tip c) of
              None \<Rightarrow> (Some Crash, c)
            | Some tip \<Rightarrow>
                let c1 = c\<lparr>bc_tree := fmupd i node (bc_tree c)\<rparr> in
                if bh_prev_hash (blk_header b) = bc_active_tip c then
                  (None, c1\<lparr>bc_active_tip := i, bc_active_height := bh_height (blk_header b),
                     bc_active_chain := bc_active_chain c1 @ [i]\<rparr>)
                else if tn_cum_work node > tn_cum_work tip then
                  (case path_to c1 i of
                     None \<Rightarrow> (Some Diverge, c1)
                   | Some path \<Rightarrow> (None, c1\<lparr>bc_active_chain := path, bc_active_tip := i,
                       bc_active_height := bh_height (blk_header b)\<rparr>))
                else (None, c1))))"

subsection \<open>Mining\<close>

fun select_loop ::
  "('g::ab_group_add, 's::comm_ring_1, 'r) prims \<Rightarrow> u64 \<Rightarrow> ('g, 's, 'r) transaction list \<Rightarrow> 'g ledger \<Rightarrow>
   ('g, 's, 'r) transaction list" where
  "select_loop P height [] L = []"
| "select_loop P height (tx # txs) L =
    (case check_tx P tx of
       Inl _ \<Rightarrow> select_loop P height txs L
     | Inr _ \<Rightarrow> (case apply_at P tx height L of
           (None, L1) \<Rightarrow> tx # select_loop P height txs L1
         | (Some _, L1) \<Rightarrow> select_loop P height txs L1))"

definition select_valid ::
  "('g::ab_group_add, 's::comm_ring_1, 'r) host \<Rightarrow> ('g, 's, 'r) transaction list \<Rightarrow> 'g blockchain \<Rightarrow>
   ('g, 's, 'r) transaction list" where
  "select_valid E txs c = select_loop (h_prims E) (bc_active_height c + 1) txs (fst (bc_active_state c))"

text \<open>\<open>now\<close> is the clock. The search for a nonce may not end.\<close>

definition mine_with_reward ::
  "('g::ab_group_add, 's::comm_ring_1, 'r) host \<Rightarrow> u64 \<Rightarrow> id32 \<Rightarrow> ('g, 's, 'r) transaction list \<Rightarrow> 'g blockchain \<Rightarrow>
   fault + ('g, 's, 'r) block" where
  "mine_with_reward E now miner txs c = (case fmlookup (bc_tree c) (bc_active_tip c) of
       None \<Rightarrow> Inl Crash
     | Some tip \<Rightarrow>
         let P = h_prims E; difficulty = tn_child_difficulty tip; height = bc_active_height c + 1;
             (L, root, s) = bc_active_state c;
             post = (snd (apply_txs_and_reward E txs miner height L), root, s)
         in try_then (ledger_root E post) (\<lambda>(r, _).
             let header = \<lparr>bh_prev_hash = bc_active_tip c, bh_height = height, bh_timestamp = now, bh_tx_root = tx_root P txs,
                   bh_state_root = r, bh_miner = miner, bh_nonce = 0\<rparr>
             in (case search_nonce (\<lambda>n. meets_difficulty (header_id P (header\<lparr>bh_nonce := n\<rparr>)) difficulty) 0 of
                 None \<Rightarrow> Inl Diverge
               | Some n \<Rightarrow> Inr \<lparr>blk_header = header\<lparr>bh_nonce := n\<rparr>, blk_txs = txs\<rparr>)))"

definition mine ::
  "('g::ab_group_add, 's::comm_ring_1, 'r) host \<Rightarrow> u64 \<Rightarrow> ('g, 's, 'r) transaction list \<Rightarrow> 'g blockchain \<Rightarrow>
   fault + ('g, 's, 'r) block" where
  "mine E now txs c = mine_with_reward E now 0 txs c"

subsection \<open>Queries\<close>

definition chain_tx_location :: "'g blockchain \<Rightarrow> id32 \<Rightarrow> (id32 \<times> u32) option" where
  "chain_tx_location c h = Option.bind (bc_store c) (\<lambda>cs. cs_tx_location mem_get cs h)"

definition chain_difficulty :: "'g blockchain \<Rightarrow> panic + u64" where
  "chain_difficulty c = map_sum id tn_child_difficulty (ok_or (fmlookup (bc_tree c) (bc_active_tip c)) Panic)"

definition block_bytes :: "'g blockchain \<Rightarrow> u64 \<Rightarrow> bytes option" where
  "block_bytes c height = do { i \<leftarrow> vec_get (bc_active_chain c) (unat height); n \<leftarrow> fmlookup (bc_tree c) i; Some (tn_encoded n) }"

definition has_block :: "'g blockchain \<Rightarrow> id32 \<Rightarrow> bool" where
  "has_block c i \<longleftrightarrow> i |\<in>| fmdom (bc_tree c)"

definition active_height_of :: "'g blockchain \<Rightarrow> id32 \<Rightarrow> u64 option" where
  "active_height_of c i = do {
     n \<leftarrow> fmlookup (bc_tree c) i;
     if vec_get (bc_active_chain c) (unat (tn_height n)) = Some i then Some (tn_height n) else None }"

definition active_id_at :: "'g blockchain \<Rightarrow> u64 \<Rightarrow> id32 option" where
  "active_id_at c height = vec_get (bc_active_chain c) (unat height)"

definition block_by_id :: "'g blockchain \<Rightarrow> id32 \<Rightarrow> bytes option" where
  "block_by_id c i = map_option tn_encoded (fmlookup (bc_tree c) i)"

text \<open>The locator's loop; \<open>back\<close> and \<open>step\<close> wrap.\<close>

partial_function (option) locator_loop :: "id32 list \<Rightarrow> u64 \<Rightarrow> u64 \<Rightarrow> u64 \<Rightarrow> id32 list \<Rightarrow> id32 list option" where
  "locator_loop chain tip back step ids =
    (let h = saturating_sub tip back;
         ids1 = (case vec_get chain (unat h) of Some i \<Rightarrow> ids @ [i] | None \<Rightarrow> ids)
     in if h = 0 then Some ids1
        else locator_loop chain tip (back + step) (if length ids1 \<ge> 8 then step * 2 else step) ids1)"

definition locator :: "'g blockchain \<Rightarrow> id32 list option" where
  "locator c = locator_loop (bc_active_chain c) (bc_active_height c) 0 1 []"

end
