(* ===== verification/Chain_Tree.thy ===== *)
theory Chain_Tree
  imports Chain
begin

text \<open>
  The shape of the block tree. Every block but the genesis has its parent in the tree, one lower, and carries
  the difficulty and the cumulative work that the parent gives it. So a block has one path to the genesis,
  which \<^verbatim>\<open>path_to\<close> finds, and the path of a block never changes as blocks are added.
\<close>

section \<open>The invariant of the tree\<close>

definition linked :: "id32 \<Rightarrow> tree_node \<Rightarrow> tree_node \<Rightarrow> bool" where
  "linked i p n \<longleftrightarrow> unat (tn_height n) = Suc (unat (tn_height p)) \<and> bh_height (tn_header n) = tn_height n \<and>
     meets_difficulty i (tn_child_difficulty p) \<and>
     tn_child_difficulty n = retarget (tn_child_difficulty p)
       (saturating_sub (bh_timestamp (tn_header n)) (bh_timestamp (tn_header p))) \<and>
     tn_cum_work n = tn_cum_work p + ucast (tn_child_difficulty p)"

definition tree_ok :: "block_tree \<Rightarrow> id32 \<Rightarrow> bool" where
  "tree_ok T g \<longleftrightarrow>
     (\<exists>n. fmlookup T g = Some n \<and> tn_height n = 0 \<and> tn_child_difficulty n \<noteq> 0 \<and> tn_cum_work n = 0) \<and>
     (\<forall>i n. fmlookup T i = Some n \<longrightarrow> i \<noteq> g \<longrightarrow>
        (\<exists>p. fmlookup T (bh_prev_hash (tn_header n)) = Some p \<and> linked i p n))"

text \<open>The path of length \<open>Suc k\<close> that ends in \<open>i\<close>.\<close>

fun branch :: "block_tree \<Rightarrow> nat \<Rightarrow> id32 \<Rightarrow> id32 list" where
  "branch T 0 i = [i]"
| "branch T (Suc k) i = (case fmlookup T i of
       Some n \<Rightarrow> branch T k (bh_prev_hash (tn_header n)) @ [i]
     | None \<Rightarrow> [i])"

definition height_of :: "block_tree \<Rightarrow> id32 \<Rightarrow> nat" where
  "height_of T i = (case fmlookup T i of Some n \<Rightarrow> unat (tn_height n) | None \<Rightarrow> 0)"

definition work_of :: "block_tree \<Rightarrow> id32 \<Rightarrow> nat" where
  "work_of T i = (case fmlookup T i of Some n \<Rightarrow> unat (tn_cum_work n) | None \<Rightarrow> 0)"

abbreviation branch_to :: "block_tree \<Rightarrow> id32 \<Rightarrow> id32 list" where
  "branch_to T i \<equiv> branch T (height_of T i) i"

abbreviation known :: "block_tree \<Rightarrow> id32 \<Rightarrow> bool" where
  "known T i \<equiv> i |\<in>| fmdom T"

lemma knownE: "known T i \<Longrightarrow> (\<And>n. fmlookup T i = Some n \<Longrightarrow> thesis) \<Longrightarrow> thesis"
  by (auto simp: fmlookup_dom_iff)

lemma tree_genesis:
  assumes "tree_ok T g"
  shows "known T g" "height_of T g = 0" "work_of T g = 0"
  using assms by (auto simp: tree_ok_def height_of_def work_of_def fmlookup_dom_iff)

lemma tree_parent:
  assumes "tree_ok T g" and "fmlookup T i = Some n" and "i \<noteq> g"
  obtains p where "fmlookup T (bh_prev_hash (tn_header n)) = Some p" and "linked i p n"
  using assms unfolding tree_ok_def by blast

lemma height_zero: "tree_ok T g \<Longrightarrow> known T i \<Longrightarrow> height_of T i = 0 \<longleftrightarrow> i = g"
  by (metis height_of_def knownE linked_def nat.distinct(1) option.simps(5) tree_genesis(2) tree_parent)

lemma tree_step:
  assumes "tree_ok T g" and "known T i" and "height_of T i = Suc k"
  obtains n where "fmlookup T i = Some n" and "known T (bh_prev_hash (tn_header n))"
    and "height_of T (bh_prev_hash (tn_header n)) = k"
proof -
  obtain n where n: "fmlookup T i = Some n" using assms(2) by (rule knownE)
  have "i \<noteq> g" using assms tree_genesis(2) by force
  with tree_parent [OF assms(1) n] obtain p where "fmlookup T (bh_prev_hash (tn_header n)) = Some p" "linked i p n"
    by blast
  with that [OF n] show thesis using assms(3) n by (simp add: height_of_def linked_def fmdomI)
qed

section \<open>Paths\<close>

lemma branch_props:
  assumes "tree_ok T g"
  shows "known T i \<Longrightarrow> height_of T i = k \<Longrightarrow>
    length (branch T k i) = Suc k \<and> hd (branch T k i) = g \<and> last (branch T k i) = i \<and>
    (\<forall>j\<le>k. known T (branch T k i ! j) \<and> height_of T (branch T k i ! j) = j)"
proof (induction k arbitrary: i)
  case 0
  then show ?case using height_zero [OF assms] by simp
next
  case (Suc k)
  from Suc.prems obtain n where n: "fmlookup T i = Some n" and p: "known T (bh_prev_hash (tn_header n))"
      "height_of T (bh_prev_hash (tn_header n)) = k"
    by (rule tree_step [OF assms])
  note ih = Suc.IH [OF p]
  have "branch T k (bh_prev_hash (tn_header n)) \<noteq> []" using ih by auto
  then show ?case using ih n Suc.prems by (auto simp: nth_append le_Suc_eq)
qed

lemmas branch_to_props = branch_props [OF _ _ refl]

lemma branch_nonempty [simp]: "branch T k i \<noteq> []"
  by (cases k) (simp_all split: option.split)

lemma branch_distinct: "tree_ok T g \<Longrightarrow> known T i \<Longrightarrow> distinct (branch_to T i)"
  unfolding distinct_conv_nth using branch_to_props [of T g i] by (metis less_Suc_eq_le)

lemma height_bound: "tree_ok T g \<Longrightarrow> known T i \<Longrightarrow> height_of T i < fcard (fmdom T)"
proof -
  assume ok: "tree_ok T g" "known T i"
  have "set (branch_to T i) \<subseteq> fset (fmdom T)"
    using branch_to_props [OF ok] by (auto simp: in_set_conv_nth less_Suc_eq_le)
  then have "card (set (branch_to T i)) \<le> fcard (fmdom T)" by (simp add: fcard.rep_eq card_mono)
  then show ?thesis using distinct_card [OF branch_distinct [OF ok]] branch_to_props [OF ok] by simp
qed

lemma path_loop_branch:
  assumes "tree_ok T g"
  shows "known T i \<Longrightarrow> height_of T i = k \<Longrightarrow> path_loop T g i acc = Some (branch T k i @ acc)"
proof (induction k arbitrary: i acc)
  case 0
  then show ?case using height_zero [OF assms] by (subst path_loop.simps) simp
next
  case (Suc k)
  from Suc.prems obtain n where n: "fmlookup T i = Some n" and p: "known T (bh_prev_hash (tn_header n))"
      "height_of T (bh_prev_hash (tn_header n)) = k"
    by (rule tree_step [OF assms])
  moreover have "i \<noteq> g" using Suc.prems tree_genesis(2) [OF assms] by force
  ultimately show ?case using Suc.IH [OF p] by (subst path_loop.simps) simp
qed

text \<open>Adding a block leaves the paths of the others alone.\<close>

lemma height_of_upd: "known T j \<Longrightarrow> \<not> known T i \<Longrightarrow> height_of (fmupd i n T) j = height_of T j"
  by (auto simp: height_of_def)

lemma work_of_upd: "known T j \<Longrightarrow> \<not> known T i \<Longrightarrow> work_of (fmupd i n T) j = work_of T j"
  by (auto simp: work_of_def)

lemma branch_upd:
  assumes "tree_ok T g" and "\<not> known T i"
  shows "known T j \<Longrightarrow> height_of T j = k \<Longrightarrow> branch (fmupd i n T) k j = branch T k j"
proof (induction k arbitrary: j)
  case (Suc k)
  from Suc.prems obtain m where "fmlookup T j = Some m" and p: "known T (bh_prev_hash (tn_header m))"
      "height_of T (bh_prev_hash (tn_header m)) = k"
    by (rule tree_step [OF assms(1)])
  moreover have "j \<noteq> i" using Suc.prems assms(2) by blast
  ultimately show ?case using Suc.IH [OF p] by simp
qed simp

lemma branch_to_upd: "tree_ok T g \<Longrightarrow> \<not> known T i \<Longrightarrow> known T j \<Longrightarrow> branch_to (fmupd i n T) j = branch_to T j"
  using branch_upd [of T g i j "height_of T j" n] by (simp add: height_of_upd)

text \<open>A prefix of a path is the path of its last block.\<close>

lemma branch_prefix:
  assumes "tree_ok T g"
  shows "known T i \<Longrightarrow> height_of T i = k \<Longrightarrow> j \<le> k \<Longrightarrow> take (Suc j) (branch T k i) = branch T j (branch T k i ! j)"
proof (induction k arbitrary: i)
  case 0
  then show ?case by simp
next
  case (Suc k)
  from Suc.prems obtain n where n: "fmlookup T i = Some n" and p: "known T (bh_prev_hash (tn_header n))"
      "height_of T (bh_prev_hash (tn_header n)) = k"
    by (meson tree_step [OF assms])
  note l = branch_props [OF assms p]
  show ?case
  proof (cases "j = Suc k")
    case True
    then show ?thesis using l n by (simp add: nth_append)
  next
    case False
    then have "j \<le> k" using Suc.prems by simp
    then show ?thesis using Suc.IH [OF p] l n by (simp add: nth_append)
  qed
qed

lemma branch_through:
  assumes "tree_ok T g" and "known T i" and "known T j" and "branch_to T i ! k = branch_to T j ! k"
    and "k \<le> height_of T i" and "k \<le> height_of T j" and "m \<le> k"
  shows "branch_to T i ! m = branch_to T j ! m"
proof -
  have "take (Suc k) (branch_to T i) = take (Suc k) (branch_to T j)"
    using branch_prefix [OF assms(1,2) refl assms(5)] branch_prefix [OF assms(1,3) refl assms(6)] assms(4) by simp
  then show ?thesis using assms(7) by (metis le_imp_less_Suc nth_take)
qed

section \<open>Work\<close>

lemma work_bound:
  assumes "tree_ok T g"
  shows "known T i \<Longrightarrow> height_of T i = k \<Longrightarrow> work_of T i \<le> k * (2 ^ 64 - 1)"
proof (induction k arbitrary: i)
  case 0
  then show ?case using height_zero [OF assms] tree_genesis(3) [OF assms] by simp
next
  case (Suc k)
  from Suc.prems obtain n where n: "fmlookup T i = Some n" and p: "known T (bh_prev_hash (tn_header n))"
      "height_of T (bh_prev_hash (tn_header n)) = k"
    by (rule tree_step [OF assms])
  have "i \<noteq> g" using Suc.prems tree_genesis(2) [OF assms] by force
  then obtain q where q: "fmlookup T (bh_prev_hash (tn_header n)) = Some q" "linked i q n"
    using tree_parent [OF assms n] by blast
  then have "work_of T i \<le> work_of T (bh_prev_hash (tn_header n)) + unat (tn_child_difficulty q)"
    using n unat_add_le [of "tn_cum_work q" "ucast (tn_child_difficulty q)"] by (simp add: work_of_def linked_def)
  then show ?case using Suc.IH [OF p] unat_lt2p [of "tn_child_difficulty q"] by simp
qed

lemma work_no_wrap:
  assumes "tree_ok T g" and "fmlookup T i = Some p" and "fcard (fmdom T) < 2 ^ 64"
  shows "unat (tn_cum_work p + ucast (tn_child_difficulty p)) = work_of T i + unat (tn_child_difficulty p)"
proof -
  have k: "known T i" using assms(2) by (rule fmdomI)
  have "work_of T i \<le> height_of T i * (2 ^ 64 - 1)" by (rule work_bound [OF assms(1) k refl])
  also have "\<dots> \<le> (2 ^ 64 - 1) * (2 ^ 64 - 1)"
    using height_bound [OF assms(1) k] assms(3) by (intro mult_right_mono) simp_all
  finally have "work_of T i + unat (tn_child_difficulty p) < 2 ^ 128"
    using unat_lt2p [of "tn_child_difficulty p"] by simp
  then show ?thesis using assms(2) by (simp add: work_of_def unat_add_small)
qed

lemma child_difficulty_pos:
  assumes "tree_ok T g"
  shows "known T i \<Longrightarrow> fmlookup T i = Some n \<Longrightarrow> tn_child_difficulty n \<noteq> 0"
proof (cases "i = g")
  case True
  then show "fmlookup T i = Some n \<Longrightarrow> ?thesis" using assms by (auto simp: tree_ok_def)
next
  case False
  assume n: "fmlookup T i = Some n"
  have "0 < unat (retarget c s)" for c s unfolding unat_retarget by simp
  then have "retarget c s \<noteq> 0" for c s by (metis less_irrefl unsigned_0)
  then show ?thesis using tree_parent [OF assms n False] by (metis linked_def)
qed

section \<open>Growing the tree\<close>

lemma child_linked:
  assumes "tree_ok T g" and "fcard (fmdom T) < 2 ^ 64"
    and "fmlookup T (bh_prev_hash h) = Some p" and "bh_height h = tn_height p + 1"
    and "meets_difficulty i (tn_child_difficulty p)"
  shows "linked i p (child_node p h e)"
proof -
  have "unat (tn_height p) < fcard (fmdom T)"
    using height_bound [OF assms(1) fmdomI [OF assms(3)]] assms(3) by (simp add: height_of_def)
  then have "unat (tn_height p + 1) = Suc (unat (tn_height p))" using assms(2) by (simp add: unat_add_small)
  then show ?thesis using assms(4,5) by (simp add: linked_def child_node_def Let_def)
qed

lemma tree_ok_upd:
  assumes "tree_ok T g" and "\<not> known T i" and "fmlookup T (bh_prev_hash (tn_header n)) = Some p" and "linked i p n"
  shows "tree_ok (fmupd i n T) g"
proof -
  have "i \<noteq> g" using assms(2) tree_genesis(1) [OF assms(1)] by blast
  moreover have "i \<noteq> j" if "fmlookup T j = Some m" for j m using that assms(2) by (auto dest: fmdomI)
  ultimately show ?thesis
    using assms(1,3,4) unfolding tree_ok_def by (auto simp: fmlookup_dom_iff) (metis option.distinct(1))+
qed

lemma branch_to_child:
  assumes "tree_ok T g" and "\<not> known T i" and "fmlookup T (bh_prev_hash (tn_header n)) = Some p" and "linked i p n"
  shows "branch_to (fmupd i n T) i = branch_to T (bh_prev_hash (tn_header n)) @ [i]"
    and "height_of (fmupd i n T) i = Suc (height_of T (bh_prev_hash (tn_header n)))"
proof -
  let ?j = "bh_prev_hash (tn_header n)"
  have k: "known T ?j" using assms(3) by (rule fmdomI)
  show h: "height_of (fmupd i n T) i = Suc (height_of T ?j)" using assms(3,4) by (simp add: height_of_def linked_def)
  show "branch_to (fmupd i n T) i = branch_to T ?j @ [i]"
    using branch_upd [OF assms(1,2) k refl] by (simp add: h)
qed

end
