(* ===== verification/Chain_Inv.thy ===== *)
theory Chain_Inv
  imports Chain_Tree
begin

text \<open>
  What every operation of the chain keeps: the active chain is the path to the tip, the tip has the most work of all
  blocks that finality admits, the finalized block is on the active chain, and the active state is
  the replay of the active chain.
\<close>

section \<open>The spine\<close>

text \<open>A branch is shut out when it does not pass through the finalized block.\<close>

definition shut_out :: "block_tree \<Rightarrow> (u64 \<times> id32) option \<Rightarrow> id32 \<Rightarrow> bool" where
  "shut_out T fin i \<longleftrightarrow> (case fin of None \<Rightarrow> False | Some (fh, fid) \<Rightarrow> vec_get (branch_to T i) (unat fh) \<noteq> Some fid)"

definition spine :: "block_tree \<Rightarrow> id32 \<Rightarrow> id32 \<Rightarrow> u64 \<Rightarrow> id32 list \<Rightarrow> (u64 \<times> id32) option \<Rightarrow> bool" where
  "spine T g tip h ch fin \<longleftrightarrow> tree_ok T g \<and> known T tip \<and> unat h = height_of T tip \<and> ch = branch_to T tip \<and>
     \<not> shut_out T fin tip \<and> (\<forall>i. known T i \<longrightarrow> work_of T i \<le> work_of T tip \<or> shut_out T fin i)"

abbreviation chain_spine :: "'g blockchain \<Rightarrow> bool" where
  "chain_spine c \<equiv> spine (bc_tree c) (bc_genesis_id c) (bc_active_tip c) (bc_active_height c) (bc_active_chain c) (bc_finalized c)"

definition adds :: "block_tree \<Rightarrow> id32 \<Rightarrow> tree_node \<Rightarrow> bool" where
  "adds T i n \<longleftrightarrow> \<not> known T i \<and> (\<exists>p. fmlookup T (bh_prev_hash (tn_header n)) = Some p \<and> linked i p n)"

lemma shut_out_upd:
  "tree_ok T g \<Longrightarrow> \<not> known T i \<Longrightarrow> known T j \<Longrightarrow> shut_out (fmupd i n T) fin j = shut_out T fin j"
  by (simp add: shut_out_def branch_to_upd split: option.split)

lemma adds_tree: "tree_ok T g \<Longrightarrow> adds T i n \<Longrightarrow> tree_ok (fmupd i n T) g"
  by (auto simp: adds_def intro: tree_ok_upd)

lemma spine_tree: "spine T g tip h ch fin \<Longrightarrow> tree_ok T g"
  by (simp add: spine_def)

lemma spine_side:
  assumes "spine T g tip h ch fin" and "adds T i n"
    and "work_of (fmupd i n T) i \<le> work_of T tip \<or> shut_out (fmupd i n T) fin i"
  shows "spine (fmupd i n T) g tip h ch fin"
proof -
  have ok: "tree_ok T g" and tip: "known T tip" and new: "\<not> known T i"
    using assms(1,2) by (simp_all add: spine_def adds_def)
  show ?thesis
    using assms adds_tree [OF ok assms(2)] tip
      height_of_upd [OF tip new] work_of_upd [OF tip new] branch_to_upd [OF ok new tip] shut_out_upd [OF ok new]
      work_of_upd [OF _ new]
    unfolding spine_def by auto
qed

lemma spine_switch:
  assumes "spine T g tip h ch fin" and "adds T i n" and "work_of T tip \<le> work_of (fmupd i n T) i"
    and "\<not> shut_out (fmupd i n T) fin i"
  shows "spine (fmupd i n T) g i (tn_height n) (branch_to (fmupd i n T) i) fin"
proof -
  have ok: "tree_ok T g" and new: "\<not> known T i" and best: "\<And>j. known T j \<Longrightarrow> work_of T j \<le> work_of T tip \<or> shut_out T fin j"
    using assms(1,2) by (simp_all add: spine_def adds_def)
  have "work_of (fmupd i n T) j \<le> work_of (fmupd i n T) i \<or> shut_out (fmupd i n T) fin j" if "known (fmupd i n T) j" for j
  proof (cases "j = i")
    case False
    then have j: "known T j" using that by simp
    then show ?thesis using best [OF j] assms(3) work_of_upd [OF j new] shut_out_upd [OF ok new j] by auto
  qed simp
  then show ?thesis
    using adds_tree [OF ok assms(2)] assms(4) by (simp add: spine_def height_of_def)
qed

lemma extend_branch:
  assumes "spine T g tip h ch fin" and "adds T i n" and "bh_prev_hash (tn_header n) = tip"
  shows "branch_to (fmupd i n T) i = ch @ [i]" and "\<not> shut_out (fmupd i n T) fin i"
proof -
  have ok: "tree_ok T g" and ch: "ch = branch_to T tip" and fin: "\<not> shut_out T fin tip"
    using assms(1) by (simp_all add: spine_def)
  show b: "branch_to (fmupd i n T) i = ch @ [i]"
    using branch_to_child(1) [OF ok] assms(2,3) ch by (auto simp: adds_def)
  show "\<not> shut_out (fmupd i n T) fin i"
    using fin unfolding shut_out_def b ch by (auto simp: vec_get_def nth_append split: option.splits if_splits)
qed

lemma spine_finalize:
  assumes "spine T g tip h ch fin" and "vec_get ch (unat fh') = Some fid'"
    and "\<And>fh fid. fin = Some (fh, fid) \<Longrightarrow> fh < fh'"
  shows "spine T g tip h ch (Some (fh', fid'))"
proof -
  have ok: "tree_ok T g" and tip: "known T tip" and ch: "ch = branch_to T tip" and fin: "\<not> shut_out T fin tip"
    and best: "\<And>j. known T j \<Longrightarrow> work_of T j \<le> work_of T tip \<or> shut_out T fin j"
    using assms(1) by (simp_all add: spine_def)
  have on: "\<not> shut_out T (Some (fh', fid')) tip" using assms(2) by (simp add: shut_out_def ch)
  have "shut_out T (Some (fh', fid')) j" if j: "known T j" and out: "shut_out T fin j" for j
  proof (rule ccontr)
    assume "\<not> shut_out T (Some (fh', fid')) j"
    then have g: "vec_get (branch_to T j) (unat fh') = Some fid'" by (simp add: shut_out_def)
    obtain fh fid where f: "fin = Some (fh, fid)" using out by (auto simp: shut_out_def split: option.splits)
    have lt: "unat fh \<le> unat fh'" using assms(3) [OF f] by (simp add: word_less_nat_alt)
    have hj: "unat fh' \<le> height_of T j" and ht: "unat fh' \<le> height_of T tip"
      using g assms(2) branch_to_props [OF ok j] branch_to_props [OF ok tip]
      by (simp_all add: ch vec_get_def split: if_splits)
    have "branch_to T j ! unat fh' = branch_to T tip ! unat fh'"
      using g assms(2) by (simp add: ch vec_get_def split: if_splits)
    from branch_through [OF ok j tip this hj ht lt]
    have "vec_get (branch_to T j) (unat fh) = vec_get (branch_to T tip) (unat fh)"
      using hj ht lt branch_to_props [OF ok j] branch_to_props [OF ok tip] by (simp add: vec_get_def)
    then show False using out fin f by (simp add: shut_out_def)
  qed
  then show ?thesis using assms(1) on best unfolding spine_def by blast
qed

text \<open>The path of a block stays when its nodes stay.\<close>

lemma branch_kept:
  assumes "tree_ok T g" and "\<And>j. known T j \<Longrightarrow> fmlookup T' j = fmlookup T j" and "known T i"
  shows "branch_to T' i = branch_to T i" and "known T' i" and "height_of T' i = height_of T i"
proof -
  have b: "known T j \<Longrightarrow> height_of T j = k \<Longrightarrow> branch T' k j = branch T k j" for j k
  proof (induction k arbitrary: j)
    case (Suc k)
    from Suc.prems obtain m where "fmlookup T j = Some m" and p: "known T (bh_prev_hash (tn_header m))"
        "height_of T (bh_prev_hash (tn_header m)) = k"
      by (rule tree_step [OF assms(1)])
    then show ?case using Suc.IH [OF p] assms(2) [OF Suc.prems(1)] by simp
  qed simp
  show h: "height_of T' i = height_of T i" using assms(2) [OF assms(3)] by (simp add: height_of_def)
  show "known T' i" using assms(2) [OF assms(3)] assms(3) by (simp add: fmlookup_dom_iff)
  show "branch_to T' i = branch_to T i" using b [OF assms(3) refl] by (simp add: h)
qed

section \<open>The operations keep the spine\<close>

lemma note_fields [simp]:
  "bc_tree (note_validator_set c) = bc_tree c" "bc_genesis_id (note_validator_set c) = bc_genesis_id c"
  "bc_active_tip (note_validator_set c) = bc_active_tip c" "bc_active_height (note_validator_set c) = bc_active_height c"
  "bc_active_chain (note_validator_set c) = bc_active_chain c" "bc_finalized (note_validator_set c) = bc_finalized c"
  "bc_active_state (note_validator_set c) = bc_active_state c" "bc_premine (note_validator_set c) = bc_premine c"
  "bc_public_premine (note_validator_set c) = bc_public_premine c" "bc_prune_window (note_validator_set c) = bc_prune_window c"
  "bc_store (note_validator_set c) = bc_store c"
  by (simp_all add: note_validator_set_def Let_def)

lemma persist_fields [simp]:
  "bc_tree (persist E b e c) = bc_tree c" "bc_genesis_id (persist E b e c) = bc_genesis_id c"
  "bc_active_tip (persist E b e c) = bc_active_tip c" "bc_active_height (persist E b e c) = bc_active_height c"
  "bc_active_chain (persist E b e c) = bc_active_chain c" "bc_finalized (persist E b e c) = bc_finalized c"
  "bc_active_state (persist E b e c) = bc_active_state c" "bc_premine (persist E b e c) = bc_premine c"
  "bc_public_premine (persist E b e c) = bc_public_premine c" "bc_prune_window (persist E b e c) = bc_prune_window c"
  "bc_recent_sets (persist E b e c) = bc_recent_sets c"
  by (simp_all add: persist_def split: option.split)

lemma ledger_root_fault: "ledger_root E st = Inl f \<Longrightarrow> f = Crash"
  by (auto simp: ledger_root_def split: sum.splits)

lemma maybe_prune_fields:
  assumes "maybe_prune E c = (r, c')"
  shows "r = None \<or> r = Some Crash" and "c' = c\<lparr>bc_active_state := bc_active_state c'\<rparr>"
  using assms
  by (auto simp: maybe_prune_def prune_history_def Let_def try_then_case split: option.splits if_splits sum.splits prod.splits
      dest: ledger_root_fault)

text \<open>A block that passes the structural checks makes a node that may be added.\<close>

lemma check_link_adds:
  assumes "check_link P T b = Inr p" and "tree_ok T g" and "fcard (fmdom T) < 2 ^ 64"
    and "\<not> known T (header_id P (blk_header b))"
  shows "adds T (header_id P (blk_header b)) (child_node p (blk_header b) e)"
    and "fmlookup T (bh_prev_hash (blk_header b)) = Some p"
proof -
  have p: "fmlookup T (bh_prev_hash (blk_header b)) = Some p" "bh_height (blk_header b) = tn_height p + 1"
      "meets_difficulty (header_id P (blk_header b)) (tn_child_difficulty p)"
    using assms(1) by (auto simp: check_link_def try_then_case ok_or_def split: if_splits option.splits)
  have "tn_header (child_node p (blk_header b) e) = blk_header b" by (simp add: child_node_def Let_def)
  then show "adds T (header_id P (blk_header b)) (child_node p (blk_header b) e)"
    using child_linked [OF assms(2,3) p] assms(4) p(1) by (auto simp: adds_def)
  show "fmlookup T (bh_prev_hash (blk_header b)) = Some p" by (rule p(1))
qed

lemma child_fields [simp]:
  "tn_header (child_node p h e) = h" "tn_height (child_node p h e) = bh_height h" "tn_encoded (child_node p h e) = e"
  by (simp_all add: child_node_def Let_def)

lemma child_work:
  assumes "tree_ok T g" and "fmlookup T (bh_prev_hash h) = Some p" and "fcard (fmdom T) < 2 ^ 64"
  shows "unat (tn_cum_work (child_node p h e)) = work_of T (bh_prev_hash h) + unat (tn_child_difficulty p)"
    and "0 < unat (tn_child_difficulty p)"
  using work_no_wrap [OF assms] child_difficulty_pos [OF assms(1) fmdomI [OF assms(2)] assms(2)]
  by (simp_all add: child_node_def Let_def unat_gt_0)

lemma path_to_new:
  assumes "tree_ok (bc_tree c) (bc_genesis_id c)" and "adds (bc_tree c) i n"
  shows "path_to (c\<lparr>bc_tree := fmupd i n (bc_tree c)\<rparr>) i = Some (branch_to (fmupd i n (bc_tree c)) i)"
  using path_loop_branch [OF adds_tree [OF assms] _ refl, of i "[]"] by (simp add: path_to_def)

definition small :: "'g blockchain \<Rightarrow> bool" where
  "small c \<longleftrightarrow> fcard (fmdom (bc_tree c)) < 2 ^ 64"

text \<open>
  The cases of \<^verbatim>\<open>apply_block\<close> on a chain with a good spine: nothing happens; the tip is extended; a heavier branch
  becomes active; a branch stays aside.
\<close>

definition new_node :: "('g, 's, 'r) prims \<Rightarrow> tree_node \<Rightarrow> ('g, 's, 'r) block \<Rightarrow> tree_node" where
  "new_node P p b = child_node p (blk_header b) (block_encode P b)"

lemma maybe_prune_frame:
  assumes "maybe_prune E c = (r, c')"
  shows "bc_tree c' = bc_tree c" "bc_genesis_id c' = bc_genesis_id c" "bc_active_tip c' = bc_active_tip c"
    "bc_active_height c' = bc_active_height c" "bc_active_chain c' = bc_active_chain c" "bc_finalized c' = bc_finalized c"
    "bc_premine c' = bc_premine c" "bc_public_premine c' = bc_public_premine c" "bc_prune_window c' = bc_prune_window c"
    "bc_recent_sets c' = bc_recent_sets c"
  by (subst maybe_prune_fields(2) [OF assms], simp)+

lemma apply_block_cases:
  assumes "chain_spine c" and "small c" and "apply_block E b c = (r, c')"
  obtains (same) "c' = c" and "r \<noteq> Some Diverge"
  | (extended) p next_state c1 where "check_link (h_prims E) (bc_tree c) b = Inr p"
      and "adds (bc_tree c) (header_id (h_prims E) (blk_header b)) (new_node (h_prims E) p b)"
      and "bh_prev_hash (blk_header b) = bc_active_tip c"
      and "apply_block_state E b (bc_active_state c) = Inr next_state"
      and "c1 = (persist E b (block_encode (h_prims E) b) c)\<lparr>
             bc_tree := fmupd (header_id (h_prims E) (blk_header b)) (new_node (h_prims E) p b) (bc_tree c),
             bc_active_state := next_state, bc_active_tip := header_id (h_prims E) (blk_header b),
             bc_active_height := bh_height (blk_header b),
             bc_active_chain := bc_active_chain c @ [header_id (h_prims E) (blk_header b)]\<rparr>"
      and "maybe_prune E (note_validator_set c1) = (r, c')"
  | (switched) p path next_state c1 where "check_link (h_prims E) (bc_tree c) b = Inr p"
      and "adds (bc_tree c) (header_id (h_prims E) (blk_header b)) (new_node (h_prims E) p b)"
      and "work_of (bc_tree c) (bc_active_tip c) < unat (tn_cum_work (new_node (h_prims E) p b))"
      and "path = branch_to (fmupd (header_id (h_prims E) (blk_header b)) (new_node (h_prims E) p b) (bc_tree c))
             (header_id (h_prims E) (blk_header b))"
      and "\<not> shut_out (fmupd (header_id (h_prims E) (blk_header b)) (new_node (h_prims E) p b) (bc_tree c)) (bc_finalized c)
             (header_id (h_prims E) (blk_header b))"
      and "rebuild_state E (c\<lparr>bc_tree := fmupd (header_id (h_prims E) (blk_header b)) (new_node (h_prims E) p b) (bc_tree c)\<rparr>)
             path = Inr next_state"
      and "c1 = (persist E b (block_encode (h_prims E) b)
             (c\<lparr>bc_tree := fmupd (header_id (h_prims E) (blk_header b)) (new_node (h_prims E) p b) (bc_tree c)\<rparr>))\<lparr>
             bc_active_state := next_state, bc_active_tip := header_id (h_prims E) (blk_header b),
             bc_active_height := bh_height (blk_header b), bc_active_chain := path, bc_recent_sets := []\<rparr>"
      and "maybe_prune E (note_validator_set c1) = (r, c')"
  | (aside) p where "check_link (h_prims E) (bc_tree c) b = Inr p"
      and "adds (bc_tree c) (header_id (h_prims E) (blk_header b)) (new_node (h_prims E) p b)"
      and "unat (tn_cum_work (new_node (h_prims E) p b)) \<le> work_of (bc_tree c) (bc_active_tip c) \<or>
           shut_out (fmupd (header_id (h_prims E) (blk_header b)) (new_node (h_prims E) p b) (bc_tree c)) (bc_finalized c)
             (header_id (h_prims E) (blk_header b))"
      and "r = None" and "c' = (persist E b (block_encode (h_prims E) b) c)\<lparr>
             bc_tree := fmupd (header_id (h_prims E) (blk_header b)) (new_node (h_prims E) p b) (bc_tree c)\<rparr>"
proof -
  let ?P = "h_prims E" and ?T = "bc_tree c" and ?i = "header_id (h_prims E) (blk_header b)"
  have ok: "tree_ok ?T (bc_genesis_id c)" and tip: "known ?T (bc_active_tip c)" using assms(1) by (simp_all add: spine_def)
  obtain t where t: "fmlookup ?T (bc_active_tip c) = Some t" using tip by (rule knownE)
  show thesis
  proof (cases "known ?T ?i \<or> (\<nexists>p. check_link ?P ?T b = Inr p) \<or> check_txs ?P (blk_txs b) \<noteq> Inr ()")
    case True
    then have "c' = c \<and> r \<noteq> Some Diverge"
      using assms(3) by (auto simp: apply_block_def Let_def split: if_splits sum.splits)
    then show thesis using same by blast
  next
    case False
    then obtain p where new: "\<not> known ?T ?i" and p: "check_link ?P ?T b = Inr p" and txs: "check_txs ?P (blk_txs b) = Inr ()"
      by auto
    let ?n = "new_node ?P p b" and ?c1 = "c\<lparr>bc_tree := fmupd ?i (new_node (h_prims E) p b) ?T\<rparr>"
    have a: "adds ?T ?i ?n"
      unfolding new_node_def using check_link_adds(1) [OF p ok] assms(2) new by (simp add: small_def)
    have enc: "tn_encoded ?n = block_encode ?P b" by (simp add: new_node_def)
    have e: "apply_block E b c = (if bh_prev_hash (blk_header b) = bc_active_tip c then extend_tip E b ?i ?n c
        else if tn_cum_work ?n > tn_cum_work t then switch_branch E b ?i ?n c
        else (None, (persist E b (tn_encoded ?n) c)\<lparr>bc_tree := fmupd ?i ?n ?T\<rparr>))"
      using new p txs t by (simp add: apply_block_def Let_def new_node_def)
    show thesis
    proof (cases "bh_prev_hash (blk_header b) = bc_active_tip c")
      case True
      show thesis
      proof (cases "apply_block_state E b (bc_active_state c)")
        case (Inl f)
        then have "c' = c \<and> r = Some f" using assms(3) True by (simp add: e extend_tip_def)
        moreover have "f \<noteq> Diverge"
          using Inl by (auto simp: apply_block_state_def try_then_case dest: ledger_root_fault
              split: prod.splits option.splits sum.splits if_splits)
        ultimately show thesis using same by blast
      next
        case (Inr st)
        then show thesis
          using assms(3) True extended [OF p a True Inr refl] by (simp add: e extend_tip_def Let_def enc)
      qed
    next
      case False
      note side = False
      have path: "path_to ?c1 ?i = Some (branch_to (fmupd ?i ?n ?T) ?i)" using path_to_new [OF ok a] by simp
      have shut: "shut_out (fmupd ?i ?n ?T) (bc_finalized c) ?i \<longleftrightarrow>
          (case bc_finalized c of Some (fh, fid) \<Rightarrow> vec_get (branch_to (fmupd ?i ?n ?T) ?i) (unat fh) \<noteq> Some fid | None \<Rightarrow> False)"
        by (simp add: shut_out_def split: option.split)
      have heavier: "tn_cum_work ?n > tn_cum_work t \<longleftrightarrow> work_of ?T (bc_active_tip c) < unat (tn_cum_work ?n)"
        using t by (simp add: work_of_def word_less_nat_alt)
      have pu: "persist E b e (c\<lparr>bc_tree := T'\<rparr>) = (persist E b e c)\<lparr>bc_tree := T'\<rparr>" for e T'
        by (simp add: persist_def split: option.split)
      show thesis
      proof (cases "tn_cum_work ?n > tn_cum_work t \<and> \<not> shut_out (fmupd ?i ?n ?T) (bc_finalized c) ?i")
        case False
        then have "r = None \<and> c' = (persist E b (block_encode ?P b) c)\<lparr>bc_tree := fmupd ?i ?n ?T\<rparr>"
          using assms(3) side path shut by (auto simp: e switch_branch_def Let_def enc pu split: if_splits)
        then show thesis using aside [OF p a] False heavier by auto
      next
        case True
        show thesis
        proof (cases "rebuild_state E ?c1 (branch_to (fmupd ?i ?n ?T) ?i)")
          case (Inl f)
          have "fmdrop ?i (fmupd ?i ?n ?T) = ?T" using new by (intro fmap_ext) (auto simp: fmlookup_dom_iff)
          then have "c' = c \<and> r = Some f"
            using assms(3) side True Inl path shut by (simp add: e switch_branch_def Let_def)
          moreover have "f \<noteq> Diverge"
          proof -
            have "replay_path E T g q st \<noteq> Inl Diverge" for T g q st
              by (induction q arbitrary: st) (auto simp: try_then_Inl ok_or_def apply_block_state_def try_then_case
                  dest: ledger_root_fault split: option.splits prod.splits sum.splits if_splits)
            then show ?thesis using Inl by (auto simp: rebuild_state_def split: sum.splits)
          qed
          ultimately show thesis using same by blast
        next
          case (Inr st)
          have "maybe_prune E (note_validator_set ((persist E b (block_encode ?P b) ?c1)\<lparr>bc_active_state := st, bc_active_tip := ?i,
              bc_active_height := bh_height (blk_header b), bc_active_chain := branch_to (fmupd ?i ?n ?T) ?i,
              bc_recent_sets := []\<rparr>)) = (r, c')"
            using assms(3) side True Inr path shut by (simp add: e switch_branch_def Let_def enc)
          then show thesis using switched [OF p a _ refl _ Inr refl] True heavier by blast
        qed
      qed
    qed
  qed
qed

lemma apply_block_spine:
  assumes "chain_spine c" and "small c" and "apply_block E b c = (r, c')"
  shows "chain_spine c'" and "r \<noteq> Some Diverge" and "bc_finalized c' = bc_finalized c"
    and "bc_genesis_id c' = bc_genesis_id c" and "bc_premine c' = bc_premine c" and "bc_public_premine c' = bc_public_premine c"
    and "\<And>i. known (bc_tree c) i \<Longrightarrow> fmlookup (bc_tree c') i = fmlookup (bc_tree c) i"
    and "work_of (bc_tree c) (bc_active_tip c) \<le> work_of (bc_tree c') (bc_active_tip c')"
proof -
  let ?P = "h_prims E" and ?T = "bc_tree c" and ?i = "header_id (h_prims E) (blk_header b)"
  have ok: "tree_ok ?T (bc_genesis_id c)" and tip: "known ?T (bc_active_tip c)" using assms(1) by (simp_all add: spine_def)
  have all: "chain_spine c' \<and> r \<noteq> Some Diverge \<and> bc_finalized c' = bc_finalized c \<and> bc_genesis_id c' = bc_genesis_id c \<and>
      bc_premine c' = bc_premine c \<and> bc_public_premine c' = bc_public_premine c \<and>
      (\<forall>i. known ?T i \<longrightarrow> fmlookup (bc_tree c') i = fmlookup ?T i) \<and>
      work_of ?T (bc_active_tip c) \<le> work_of (bc_tree c') (bc_active_tip c')"
    using assms
  proof (cases rule: apply_block_cases)
    case same
    then show ?thesis using assms(1) by simp
  next
    case (extended p st c1)
    let ?n = "new_node ?P p b"
    have prev: "fmlookup ?T (bh_prev_hash (blk_header b)) = Some p"
      using check_link_adds(2) [OF extended(1) ok] assms(2) extended(2) by (simp add: small_def adds_def)
    have work: "work_of ?T (bc_active_tip c) < work_of (fmupd ?i ?n ?T) ?i"
      using child_work [OF ok prev] assms(2) extended(3) by (simp add: small_def new_node_def work_of_def)
    note ext = extend_branch [OF assms(1) extended(2)]
    have "spine (fmupd ?i ?n ?T) (bc_genesis_id c) ?i (tn_height ?n) (bc_active_chain c @ [?i]) (bc_finalized c)"
      using spine_switch [OF assms(1) extended(2)] work ext extended(3) by (simp add: new_node_def)
    then show ?thesis
      using maybe_prune_frame [OF extended(6)] maybe_prune_fields(1) [OF extended(6)] extended(2,5) work
      by (auto simp: new_node_def adds_def)
  next
    case (switched p path st c1)
    let ?n = "new_node ?P p b"
    have work: "work_of ?T (bc_active_tip c) < work_of (fmupd ?i ?n ?T) ?i" using switched(3) by (simp add: work_of_def)
    have "spine (fmupd ?i ?n ?T) (bc_genesis_id c) ?i (tn_height ?n) path (bc_finalized c)"
      unfolding switched(4) by (rule spine_switch [OF assms(1) switched(2) _ switched(5)]) (use work in simp)
    then show ?thesis
      using maybe_prune_frame [OF switched(8)] maybe_prune_fields(1) [OF switched(8)] switched(2,7) work
      by (auto simp: new_node_def adds_def)
  next
    case (aside p)
    let ?n = "new_node ?P p b"
    have "spine (fmupd ?i ?n ?T) (bc_genesis_id c) (bc_active_tip c) (bc_active_height c) (bc_active_chain c) (bc_finalized c)"
      by (rule spine_side [OF assms(1) aside(2)]) (use aside(3) in \<open>simp add: work_of_def\<close>)
    then show ?thesis using aside(2,4,5) work_of_upd [OF tip] by (auto simp: adds_def)
  qed
  then show "chain_spine c'" "r \<noteq> Some Diverge" "bc_finalized c' = bc_finalized c" "bc_genesis_id c' = bc_genesis_id c"
    "bc_premine c' = bc_premine c" "bc_public_premine c' = bc_public_premine c"
    "\<And>i. known (bc_tree c) i \<Longrightarrow> fmlookup (bc_tree c') i = fmlookup (bc_tree c) i"
    "work_of (bc_tree c) (bc_active_tip c) \<le> work_of (bc_tree c') (bc_active_tip c')"
    by blast+
qed

lemma try_finalize_cases:
  assumes "try_finalize E cert c = (r, c')"
  obtains "r = False" and "c' = c"
  | vset where "r = True" and "c' = c\<lparr>bc_finalized := Some (ce_height cert, ce_block_id cert)\<rparr>"
      and "vec_get (bc_active_chain c) (unat (ce_height cert)) = Some (ce_block_id cert)"
      and "\<And>fh fid. bc_finalized c = Some (fh, fid) \<Longrightarrow> fh < ce_height cert"
      and "validator_set_at c (ce_height cert) = Some vset" and "cert_verify (h_prims E) vset cert"
  using assms by (auto simp: try_finalize_def split: if_splits option.splits)

lemma try_finalize_spine:
  assumes "chain_spine c" and "try_finalize E cert c = (r, c')"
  shows "chain_spine c'"
  using assms(2)
proof (cases rule: try_finalize_cases)
  case (2 vset)
  then show ?thesis using spine_finalize [OF assms(1) 2(3,4)] by simp
qed (use assms(1) in simp)

lemma genesis_shape:
  assumes "genesis_with_public E premine public_premine d = Inr c"
  obtains st0 root L s header where "genesis_state (h_prims E) premine public_premine = Inr st0"
    and "ledger_root E st0 = Inr (root, L, root, s)" and "bh_state_root header = root"
    and "c = note_validator_set
      \<lparr>bc_tree = fmupd (header_id (h_prims E) header)
         \<lparr>tn_encoded = block_encode (h_prims E) \<lparr>blk_header = header, blk_txs = []\<rparr>, tn_header = header, tn_height = 0,
          tn_child_difficulty = max d 1, tn_cum_work = 0\<rparr> fmempty,
       bc_genesis_id = header_id (h_prims E) header, bc_premine = premine, bc_public_premine = public_premine,
       bc_active_tip = header_id (h_prims E) header, bc_active_height = 0, bc_active_state = (L, root, s),
       bc_active_chain = [header_id (h_prims E) header], bc_store = None, bc_prune_window = None, bc_finalized = None,
       bc_recent_sets = []\<rparr>"
proof -
  obtain st0 root st where g: "genesis_state (h_prims E) premine public_premine = Inr st0"
      "ledger_root E st0 = Inr (root, st)"
    using assms by (auto simp: genesis_with_public_def Let_def try_then_Inr split: sum.splits)
  moreover have "fst (snd st) = root"
    using g(2) by (cases st0)
      (auto simp: ledger_root_def state_root_def try_then_Inr split: sum.splits if_splits)
  ultimately obtain L s where st: "st = (L, root, s)" by (cases st) auto
  let ?h = "\<lparr>bh_prev_hash = 0, bh_height = 0, bh_timestamp = GENESIS_TIMESTAMP, bh_tx_root = 0, bh_state_root = root,
      bh_miner = 0, bh_nonce = 0\<rparr>"
  show thesis
    by (rule that [OF g [unfolded st], of ?h]) (use assms g st in \<open>simp_all add: genesis_with_public_def Let_def\<close>)
qed

lemma genesis_spine:
  assumes "genesis_with_public E premine public_premine d = Inr c"
  shows "chain_spine c" and "small c" and "bc_finalized c = None"
proof -
  have "max d 1 \<noteq> 0" by (cases "d \<le> 1") (auto simp: max_def)
  with assms show "chain_spine c" "small c" "bc_finalized c = None"
    by (auto elim!: genesis_shape simp: spine_def tree_ok_def height_of_def work_of_def shut_out_def small_def fcard.rep_eq)
qed

section \<open>The runs of a chain\<close>

text \<open>
  Blocks come off the wire, so their transactions fit it; a call that panics ends the run. The size bound keeps
  the height in 64 bits.
\<close>

inductive chain_step :: "('g::ab_group_add, 's::comm_ring_1, 'r) host \<Rightarrow> 'g blockchain \<Rightarrow> 'g blockchain \<Rightarrow> bool" for E where
  step_block: "small c \<Longrightarrow> block_wf (h_prims E) b \<Longrightarrow> apply_block E b c = (r, c') \<Longrightarrow> r \<noteq> Some Crash \<Longrightarrow> chain_step E c c'"
| step_finalize: "try_finalize E cert c = (r, c') \<Longrightarrow> chain_step E c c'"
| step_window: "chain_step E c (set_prune_window w c)"
| step_store: "chain_step E c (c\<lparr>bc_store := cs\<rparr>)"

inductive_cases chain_stepE: "chain_step E c c'"

definition chain_run :: "('g::ab_group_add, 's::comm_ring_1, 'r) host \<Rightarrow> 'g blockchain \<Rightarrow> bool" where
  "chain_run E c \<longleftrightarrow> (\<exists>premine public_premine d c0.
     genesis_with_public E premine public_premine d = Inr c0 \<and> (chain_step E)\<^sup>*\<^sup>* c0 c)"

lemma chain_step_spine: "chain_step E c c' \<Longrightarrow> chain_spine c \<Longrightarrow> chain_spine c'"
  by (induction rule: chain_step.induct)
    (auto intro: apply_block_spine(1) try_finalize_spine simp: set_prune_window_def)

lemma chain_steps_spine: "(chain_step E)\<^sup>*\<^sup>* c c' \<Longrightarrow> chain_spine c \<Longrightarrow> chain_spine c'"
  by (induction rule: rtranclp_induct) (auto intro: chain_step_spine)

lemma chain_run_spine: "chain_run E c \<Longrightarrow> chain_spine c"
  unfolding chain_run_def using genesis_spine(1) chain_steps_spine by blast

lemma chain_run_step:
  assumes "chain_run E c" and "chain_step E c c'"
  shows "chain_run E c'"
  using assms unfolding chain_run_def by (meson rtranclp.rtrancl_into_rtrancl)

end
