(* ===== verification/Chain_Runs.thy ===== *)
theory Chain_Runs
  imports Chain_Inv
begin

text \<open>
  What holds in every run of the chain: the fork choice and the irreversibility of finality, with a concrete run
  on which they are evaluated.
\<close>

section \<open>A concrete run\<close>

text \<open>
  A toy hash that is zero on everything but headers, where it is the height plus one, makes every trie empty. The run
  has a genesis with one funded account and a block in which it stakes.
\<close>

definition flat_prims :: "(u64, u64, unit) prims" where
  "flat_prims = toy_prims\<lparr>blake3 := \<lambda>b. if length b = HEADER_LEN then ucast (of_le (take 8 (drop 32 b)) :: u64) + 1 else 0\<rparr>"

definition flat_host :: "(u64, u64, unit) host" where
  "flat_host = \<lparr>h_prims = flat_prims, h_workers = 4,
     h_order = (\<lambda>d. filter (\<lambda>k. k |\<in>| d) [DirtyMeta, DirtyAccount 0, DirtyValidator 0])\<rparr>"

abbreviation stake_tx :: "(u64, u64, unit) transaction" where
  "stake_tx \<equiv> Stake 0 200000000 0 0"

definition stake_block :: "(u64, u64, unit) block" where
  "stake_block = \<lparr>blk_header = \<lparr>bh_prev_hash = 1, bh_height = 1, bh_timestamp = GENESIS_TIMESTAMP + 60,
       bh_tx_root = tx_root flat_prims [stake_tx], bh_state_root = 0, bh_miner = 0, bh_nonce = 0\<rparr>,
     blk_txs = [stake_tx]\<rparr>"

lemma flat_host_prims [simp]: "h_prims flat_host = flat_prims"
  by (simp add: flat_host_def)

lemma flat_id: "header_id flat_prims h = ucast (bh_height h) + 1"
  by (simp add: flat_prims_def header_id_def pow_hash_def header_encode_def HEADER_LEN_def)

lemma flat_blake3: "length b \<noteq> HEADER_LEN \<Longrightarrow> blake3 flat_prims b = 0"
  by (simp add: flat_prims_def)

lemma flat_default: "default_hash flat_prims n = 0"
  by (cases n) (simp_all add: flat_blake3 hash_internal_def node_input_def empty_input_def ascii_def HEADER_LEN_def)

lemma flat_leaf: "single_leaf_hash flat_prims n k (hash_leaf flat_prims k v) = 0"
  by (cases n) (simp_all add: flat_blake3 hash_leaf_def leaf_input_def hash_internal_def node_input_def HEADER_LEN_def)

lemma flat_commit: "\<exists>s'. commit_keys flat_prims mem_get mem_write L ks 0 s = Inr (0, s')"
proof (induction ks arbitrary: s)
  case (Cons k ks)
  then show ?case
    by (simp add: smt_update_def smt_remove_def smt_upsert.simps smt_delete.simps flat_default flat_leaf place_leaf_def Let_def
        split: prod.split option.split)
qed simp

lemma flat_root: "\<exists>s'. ledger_root flat_host (L, 0, s) = Inr (0, L\<lparr>l_dirty := {||}\<rparr>, 0, s')"
proof (cases "l_dirty L = {||}")
  case True
  then have "L\<lparr>l_dirty := {||}\<rparr> = L" by simp
  then show ?thesis using True by (simp add: ledger_root_def state_root_def flat_host_def)
next
  case False
  then show ?thesis using flat_commit [of L "h_order flat_host (l_dirty L)" s]
    by (auto simp: ledger_root_def state_root_def flat_host_def)
qed

abbreviation flat_premine :: "(id32 \<times> u64) list" where
  "flat_premine \<equiv> [(0, 300000000)]"

abbreviation flat_first :: "u64 ledger" where
  "flat_first \<equiv> public_premine_account ledger_new (0, 300000000)"

lemma flat_first_fields:
  "get_account flat_first 0 = Some (acct_set_public account_default LAT_TOKEN 300000000)"
  "l_validators flat_first = fmempty" "l_max_validators flat_first = DEFAULT_MAX_VALIDATORS"
  by (simp_all add: public_premine_account_def credit_public_def register_def ledger_new_def local_defs mark_def put_account_def
      account_or_default_def ledger_params saturating_add_def)

lemma flat_genesis:
  obtains c where "genesis_with_public flat_host [] flat_premine 1 = Inr c"
    and "fmdom (bc_tree c) = {|1|}" and "\<exists>n. fmlookup (bc_tree c) 1 = Some n \<and> tn_height n = 0 \<and> tn_child_difficulty n = 1 \<and> tn_cum_work n = 0"
    and "\<exists>s. bc_active_state c = (flat_first\<lparr>l_dirty := {||}\<rparr>, 0, s)"
    and "bc_active_tip c = 1" and "bc_active_height c = 0" and "bc_active_chain c = [1]" and "bc_finalized c = None"
    and "bc_store c = None" and "bc_prune_window c = None" and "bc_recent_sets c = [(0, [])]" and "bc_genesis_id c = 1"
proof -
  obtain s where s: "ledger_root flat_host (flat_first, 0, mem_new) = Inr (0, flat_first\<lparr>l_dirty := {||}\<rparr>, 0, s)"
    using flat_root by blast
  have g: "genesis_state flat_prims [] flat_premine = Inr (flat_first, 0, mem_new)"
    by (simp add: genesis_state_def empty_root_def flat_default)
  have v: "validator_set (flat_first\<lparr>l_dirty := {||}\<rparr>) = []"
    by (simp add: validator_set_def eligible_validators_def flat_first_fields sort_vals_def sorted_list_of_fset.rep_eq)
  show thesis
    by (rule that, simp add: genesis_with_public_def Let_def g s flat_id note_validator_set_def v FINALITY_SET_WINDOW_def) simp_all
qed


abbreviation stake_cert :: certificate where
  "stake_cert \<equiv> \<lparr>ce_block_id = 2, ce_height = 1, ce_votes = [(0, 0)]\<rparr>"

lemma flat_encoding: "encoding_laws flat_prims"
  using toy_encoding_laws [where 'a = 64] by (simp add: encoding_laws_def flat_prims_def)

lemma flat_curve: "smul flat_prims = (*)" "decompress flat_prims 0 = Some 0"
  by (simp_all add: flat_prims_def toy_prims_def)

lemma flat_sig: "sig_from_bytes flat_prims (be_bytes 64 (0 :: arr64)) = Some \<lparr>sig_r = 0, sig_s = 0\<rparr>"
  using toy_sig by (simp add: sig_from_bytes_def flat_prims_def)

lemma flat_checks: "check_sig flat_prims 0 tx 0 = Inr ()" "vote_verify flat_prims \<lparr>vo_block_id = i, vo_height = h, vo_validator = 0, vo_sig = 0\<rparr>"
  by (simp_all add: check_sig_def vote_verify_def pk_from_bytes_def schnorr_verify_def flat_sig flat_curve)

lemma flat_stake:
  obtains M where "apply_at flat_prims stake_tx 1 (flat_first\<lparr>l_dirty := {||}\<rparr>) = (None, M)"
    and "validator_set (M\<lparr>l_dirty := {||}\<rparr>) = [(0, 200000000)]"
proof -
  let ?L = "flat_first\<lparr>l_dirty := {||}\<rparr>"
  have f: "get_account ?L 0 = Some (acct_set_public account_default LAT_TOKEN 300000000)"
    "l_validators ?L = fmempty" "l_max_validators ?L = DEFAULT_MAX_VALIDATORS"
    using flat_first_fields by (simp_all add: get_account_def)
  then have v: "validator_or_default ?L 0 = validator_default" by (simp add: validator_or_default_def get_validator_def)
  have "apply_stake flat_prims 1 0 200000000 0 0 stake_tx ?L =
     Inr (put_validator 0 (validator_default\<lparr>val_staked := 200000000\<rparr>)
       (put_account 0 (bump_nonce (acct_set_public (acct_set_public account_default LAT_TOKEN 300000000) LAT_TOKEN 100000000)) ?L))"
    by (simp add: apply_stake_def flat_checks f v release_matured_def validator_default_def saturating_add_def Let_def
       acct_set_public_def acct_public_def account_default_def)
  then show thesis
    by (intro that, simp add: apply_at_def apply_at_with_def or_keep_def) (simp add: validator_set_def eligible_validators_def
      flat_first_fields mark_all_def put_validator_def get_validator_def put_account_def f sort_vals_def sorted_list_of_fset.rep_eq eligible_def ledger_params validator_default_def DEFAULT_MAX_VALIDATORS_def)
qed


lemma flat_block:
  assumes "genesis_with_public flat_host [] flat_premine 1 = Inr c"
    and "fmdom (bc_tree c) = {|1|}"
    and n: "fmlookup (bc_tree c) 1 = Some n" "tn_height n = 0" "tn_child_difficulty n = 1" "tn_cum_work n = 0"
    and st: "bc_active_state c = (flat_first\<lparr>l_dirty := {||}\<rparr>, 0, s)"
    and "bc_active_tip c = 1" and "bc_active_height c = 0" and "bc_active_chain c = [1]" and "bc_finalized c = None"
    and "bc_store c = None" and "bc_prune_window c = None" and "bc_recent_sets c = [(0, [])]" and "bc_genesis_id c = 1"
  obtains c' where "apply_block flat_host stake_block c = (None, c')" and "bc_active_chain c' = [1, 2]" and "bc_active_height c' = 1"
     and "bc_finalized c' = None" and "bc_recent_sets c' = [(0, []), (1, [(0, 200000000)])]"
     and "apply_block_state flat_host stake_block (bc_active_state c) = Inr (bc_active_state c')"
proof -
  obtain M where M: "apply_at flat_prims stake_tx 1 (flat_first\<lparr>l_dirty := {||}\<rparr>) = (None, M)"
    and v: "validator_set (M\<lparr>l_dirty := {||}\<rparr>) = [(0, 200000000)]" by (rule flat_stake)
  have p: "apply_block_parallel flat_prims (h_workers flat_host) (flat_first\<lparr>l_dirty := {||}\<rparr>) [stake_tx] 1 = (None, M)"
    using apply_block_sequential [of flat_prims "h_workers flat_host" "flat_first\<lparr>l_dirty := {||}\<rparr>" "[stake_tx]" 1] M by simp
  obtain s' where s': "ledger_root flat_host (M, 0, s) = Inr (0, M\<lparr>l_dirty := {||}\<rparr>, 0, s')" using flat_root by blast
  have a: "apply_block_state flat_host stake_block (bc_active_state c) = Inr (M\<lparr>l_dirty := {||}\<rparr>, 0, s')"
    by (simp add: apply_block_state_def apply_txs_and_reward_def stake_block_def p pay_miner_def s' st)
  have i: "header_id flat_prims (blk_header stake_block) = 2" by (simp add: flat_id stake_block_def)
  have l: "check_link flat_prims (bc_tree c) stake_block = Inr n"
    by (simp add: check_link_def stake_block_def MAX_TXS_PER_BLOCK_def n meets_difficulty_def)
  have t: "check_txs flat_prims (blk_txs stake_block) = Inr ()"
    by (simp add: stake_block_def)
  have h: "bh_prev_hash (blk_header stake_block) = 1" "bh_height (blk_header stake_block) = 1" by (simp_all add: stake_block_def)
  show thesis
    by (rule that, simp add: apply_block_def assms(2,8-14) i l t n extend_tip_def a persist_def maybe_prune_def
        note_validator_set_def h v Let_def)
      (simp_all add: assms(8-14) a v h FINALITY_SET_WINDOW_def)
qed

lemma flat_run:
  obtains c c' where "chain_run flat_host c" and "apply_block flat_host stake_block c = (None, c')" and "chain_run flat_host c'"
    and "bc_active_chain c = [1]" and "bc_active_chain c' = [1, 2]" and "small c" and "chain_difficulty c = Inr 1"
    and "\<exists>st. apply_block_state flat_host stake_block (bc_active_state c) = Inr st"
    and "try_finalize flat_host stake_cert c' = (True, c'\<lparr>bc_finalized := Some (1, 2)\<rparr>)"
    and "bc_finalized c' = None" and "validator_set_at c' 1 = Some [(0, 200000000)]"
    and "fst (snd (bc_active_state c)) = 0"
proof -
  obtain c where g: "genesis_with_public flat_host [] flat_premine 1 = Inr c" and c: "bc_active_chain c = [1]"
    and a: "\<exists>c'. apply_block flat_host stake_block c = (None, c') \<and> bc_active_chain c' = [1, 2] \<and> bc_active_height c' = 1 \<and>
      bc_finalized c' = None \<and> bc_recent_sets c' = [(0, []), (1, [(0, 200000000)])] \<and>
      apply_block_state flat_host stake_block (bc_active_state c) = Inr (bc_active_state c')"
    and d: "chain_difficulty c = Inr 1" and r0: "fst (snd (bc_active_state c)) = 0"
  proof (rule flat_genesis)
    fix c
    assume c: "genesis_with_public flat_host [] flat_premine 1 = Inr c" "fmdom (bc_tree c) = {|1|}"
      "\<exists>n. fmlookup (bc_tree c) 1 = Some n \<and> tn_height n = 0 \<and> tn_child_difficulty n = 1 \<and> tn_cum_work n = 0"
      "\<exists>s. bc_active_state c = (flat_first\<lparr>l_dirty := {||}\<rparr>, 0, s)" "bc_active_tip c = 1" "bc_active_height c = 0"
      "bc_active_chain c = [1]" "bc_finalized c = None" "bc_store c = None" "bc_prune_window c = None"
      "bc_recent_sets c = [(0, [])]" "bc_genesis_id c = 1"
    obtain n s where n: "fmlookup (bc_tree c) 1 = Some n" "tn_height n = 0" "tn_child_difficulty n = 1" "tn_cum_work n = 0"
      and s: "bc_active_state c = (flat_first\<lparr>l_dirty := {||}\<rparr>, 0, s)" using c(3,4) by blast
    have "chain_difficulty c = Inr 1" by (simp add: chain_difficulty_def c(5) n ok_or_def)
    moreover have "fst (snd (bc_active_state c)) = 0" by (simp add: s)
    ultimately show thesis using flat_block [OF c(1,2) n s c(5-)] that [OF c(1,7)] by blast
  qed
  then obtain c' where c': "apply_block flat_host stake_block c = (None, c')" "bc_active_chain c' = [1, 2]"
     "bc_active_height c' = 1" "bc_finalized c' = None" "bc_recent_sets c' = [(0, []), (1, [(0, 200000000)])]"
     "apply_block_state flat_host stake_block (bc_active_state c) = Inr (bc_active_state c')" by blast
  have run: "chain_run flat_host c" unfolding chain_run_def using g by blast
  have small: "small c" by (rule genesis_spine(2) [OF g])
  moreover have "block_wf (h_prims flat_host) stake_block"
    by (simp add: block_wf_def stake_block_def tx_fits_def)
  ultimately have "chain_step flat_host c c'" by (rule step_block [OF _ _ c'(1)]) simp
  with run have run': "chain_run flat_host c'" by (rule chain_run_step)
  have "cert_verify flat_prims [(0, 200000000)] stake_cert" by (simp add: cert_verify_def flat_checks)
  then have "try_finalize flat_host stake_cert c' = (True, c'\<lparr>bc_finalized := Some (1, 2)\<rparr>)"
    by (simp add: try_finalize_def c' vec_get_def validator_set_at_def)
  moreover have "validator_set_at c' 1 = Some [(0, 200000000)]" by (simp add: validator_set_at_def c')
  ultimately show thesis
    using that [OF run c'(1) run' c c'(2) small d exI
      [of "\<lambda>st. apply_block_state flat_host stake_block (bc_active_state c) = Inr st", OF c'(6)] _ c'(4) _ r0] by blast
qed

section \<open>Fork choice and finality\<close>

text \<open>
  C21: the fork choice. In every run, the active chain is the path that \<open>path_to\<close> finds from the genesis to the
  tip, its length is the active height plus one, and the tip carries the most cumulative work of all known blocks
  whose path passes through the finalized block; every known block has such a path.
\<close>

theorem fork_choice:
  assumes "chain_run E c"
  shows "path_to c (bc_active_tip c) = Some (bc_active_chain c) \<and>
    length (bc_active_chain c) = Suc (unat (bc_active_height c)) \<and>
    hd (bc_active_chain c) = bc_genesis_id c \<and> last (bc_active_chain c) = bc_active_tip c \<and>
    distinct (bc_active_chain c) \<and>
    (\<forall>i n. fmlookup (bc_tree c) i = Some n \<longrightarrow> (\<exists>path tip. path_to c i = Some path \<and>
       fmlookup (bc_tree c) (bc_active_tip c) = Some tip \<and>
       (tn_cum_work n \<le> tn_cum_work tip \<or>
        (\<exists>fh fid. bc_finalized c = Some (fh, fid) \<and> vec_get path (unat fh) \<noteq> Some fid))))"
proof -
  let ?T = "bc_tree c"
  have ok: "tree_ok ?T (bc_genesis_id c)" and tip: "known ?T (bc_active_tip c)"
    and h: "unat (bc_active_height c) = height_of ?T (bc_active_tip c)" and ch: "bc_active_chain c = branch_to ?T (bc_active_tip c)"
    and best: "\<And>i. known ?T i \<Longrightarrow> work_of ?T i \<le> work_of ?T (bc_active_tip c) \<or> shut_out ?T (bc_finalized c) i"
    using chain_run_spine [OF assms] by (simp_all add: spine_def)
  have path: "known ?T i \<Longrightarrow> path_to c i = Some (branch_to ?T i)" for i
    using path_loop_branch [OF ok _ refl, of i "[]"] by (simp add: path_to_def)
  obtain t where t: "fmlookup ?T (bc_active_tip c) = Some t" using tip by (rule knownE)
  have "\<exists>path tip. path_to c i = Some path \<and> fmlookup ?T (bc_active_tip c) = Some tip \<and>
       (tn_cum_work n \<le> tn_cum_work tip \<or>
        (\<exists>fh fid. bc_finalized c = Some (fh, fid) \<and> vec_get path (unat fh) \<noteq> Some fid))"
    if n: "fmlookup ?T i = Some n" for i n
    using path [OF fmdomI [OF n]] best [OF fmdomI [OF n]] t n
    by (auto simp: work_of_def word_le_nat_alt shut_out_def split: option.splits)
  then show ?thesis
    using path [OF tip] branch_to_props [OF ok tip] branch_distinct [OF ok tip] by (simp add: ch h)
qed

theorem fork_choice_witness:
  "\<exists>c. path_to c (bc_active_tip c) = Some [1, 2] \<and> length (bc_active_chain (c :: u64 blockchain)) = 2"
proof (rule flat_run)
  fix c c'
  assume "chain_run flat_host c'" "bc_active_chain c' = [1, 2]"
  with fork_choice [of flat_host c', THEN conjunct1] have "path_to c' (bc_active_tip c') = Some [1, 2]" by simp
  with \<open>bc_active_chain c' = [1, 2]\<close> show ?thesis by (intro exI [of _ c']) simp
qed

text \<open>
  C22: finality is irreversible. Once a block is finalized it stays on the active chain at its height, whatever blocks
  arrive and however much work they carry, and the watermark only moves up.
\<close>

theorem finality_irreversible:
  assumes "chain_run E c" and "bc_finalized c = Some (fh, fid)" and "(chain_step E)\<^sup>*\<^sup>* c c'"
  shows "vec_get (bc_active_chain c') (unat fh) = Some fid \<and> (\<exists>fh' fid'. bc_finalized c' = Some (fh', fid') \<and> fh \<le> fh')"
proof -
  have "chain_spine c' \<and> \<not> shut_out (bc_tree c') (Some (fh, fid)) (bc_active_tip c') \<and>
      (\<exists>fh' fid'. bc_finalized c' = Some (fh', fid') \<and> fh \<le> fh')"
    using assms(3)
  proof (induction rule: rtranclp_induct)
    case base
    then show ?case using chain_run_spine [OF assms(1)] assms(2) by (auto simp: spine_def)
  next
    case (step y z)
    have spine: "chain_spine z" using step chain_step_spine by blast
    from step.hyps(2) step.IH show ?case
    proof (cases rule: chain_step.cases)
      case (step_block b r)
      obtain fh' fid' where f: "bc_finalized y = Some (fh', fid')" "fh \<le> fh'" using step.IH by blast
      then have fz: "bc_finalized z = Some (fh', fid')"
        using apply_block_spine(3) [OF _ step_block(1,3)] step.IH by simp
      let ?Y = "bc_tree y" and ?Z = "bc_tree z"
      have ok: "tree_ok ?Y (bc_genesis_id y)" "tree_ok ?Z (bc_genesis_id z)" and tip: "known ?Y (bc_active_tip y)" "known ?Z (bc_active_tip z)"
        using step.IH spine by (simp_all add: spine_def)
      have ky: "vec_get (branch_to ?Y (bc_active_tip y)) (unat fh) = Some fid" using step.IH by (simp add: shut_out_def)
      have "\<not> shut_out ?Z (Some (fh, fid)) (bc_active_tip z)"
      proof -
        have y': "vec_get (branch_to ?Y (bc_active_tip y)) (unat fh') = Some fid'"
          using step.IH f(1) by (simp add: spine_def shut_out_def)
        have z': "vec_get (branch_to ?Z (bc_active_tip z)) (unat fh') = Some fid'"
          using spine fz by (simp add: spine_def shut_out_def)
        have old: "branch_to ?Z (bc_active_tip y) = branch_to ?Y (bc_active_tip y)" "known ?Z (bc_active_tip y)"
          "height_of ?Z (bc_active_tip y) = height_of ?Y (bc_active_tip y)"
          using branch_kept [OF ok(1) apply_block_spine(7) [OF _ step_block(1,3)] tip(1)] step.IH by simp_all
        have hz: "unat fh' \<le> height_of ?Z (bc_active_tip z)" and hy: "unat fh' \<le> height_of ?Z (bc_active_tip y)"
          using y' z' branch_to_props [OF ok(1) tip(1)] branch_to_props [OF ok(2) tip(2)] old(3)
          by (simp_all add: vec_get_def split: if_splits)
        have "branch_to ?Z (bc_active_tip z) ! unat fh' = branch_to ?Z (bc_active_tip y) ! unat fh'"
          using y' z' old by (simp add: vec_get_def split: if_splits)
        from branch_through [OF ok(2) tip(2) old(2) this hz hy, of "unat fh"] f(2)
        have "branch_to ?Z (bc_active_tip z) ! unat fh = branch_to ?Z (bc_active_tip y) ! unat fh" by (simp add: word_le_nat_alt)
        then show ?thesis
          using ky old hz f(2) branch_to_props [OF ok(2) tip(2)]
          by (simp add: shut_out_def vec_get_def word_le_nat_alt split: if_splits)
      qed
      then show ?thesis using spine fz f(2) by blast
    next
      case (step_finalize cert r)
      from step_finalize show ?thesis
      proof (cases rule: try_finalize_cases)
        case (2 vset)
        then show ?thesis using spine step.IH by (auto intro: order.strict_implies_order dest: order.strict_trans1)
      qed (use step.IH in simp)
    qed (auto simp: set_prune_window_def)
  qed
  then show ?thesis by (auto simp: spine_def shut_out_def)
qed

theorem finality_irreversible_witness:
  "\<exists>c. vec_get (bc_active_chain (set_prune_window 9 (c :: u64 blockchain))) 1 = Some 2 \<and> bc_finalized c = Some (1, 2)"
proof (rule flat_run)
  fix c c'
  assume c: "chain_run flat_host c'" "try_finalize flat_host stake_cert c' = (True, c'\<lparr>bc_finalized := Some (1, 2)\<rparr>)"
  let ?c = "c'\<lparr>bc_finalized := Some (1, 2)\<rparr>"
  have "chain_step flat_host c' ?c" by (rule step_finalize) (rule c(2))
  with c(1) have "chain_run flat_host ?c" by (rule chain_run_step)
  from finality_irreversible [OF this _ r_into_rtranclp [of "chain_step flat_host"], OF _ step_window, of 1 2 9]
  show ?thesis by (intro exI [of _ ?c]) simp
qed

end
