(* ===== verification/Chain_Replay.thy ===== *)
theory Chain_Replay
  imports Chain_Runs
begin

text \<open>
  The state of the chain as a function of its blocks: the active state is the sequential replay of the decoded
  blocks of the active chain, a rejected block changes nothing, and the blocks the miner builds are accepted.
\<close>

section \<open>One block\<close>

text \<open>The specification of a block: its transactions one after the other, then the miner's pay.\<close>

definition block_ledger ::
  "('g::ab_group_add, 's::comm_ring_1, 'r) prims \<Rightarrow> ('g, 's, 'r) block \<Rightarrow> 'g ledger \<Rightarrow> 'g ledger option" where
  "block_ledger P b L = (case apply_all P (bh_height (blk_header b)) (blk_txs b) L of
       (None, L1) \<Rightarrow> Some ((pay_miner P (bh_miner (blk_header b)) (bh_height (blk_header b)) (blk_txs b) L1)\<lparr>l_dirty := {||}\<rparr>)
     | (Some _, _) \<Rightarrow> None)"

fun replay_ledger ::
  "('g::ab_group_add, 's::comm_ring_1, 'r) prims \<Rightarrow> ('g, 's, 'r) block list \<Rightarrow> 'g ledger \<Rightarrow> 'g ledger option" where
  "replay_ledger P [] L = Some L"
| "replay_ledger P (b # bs) L = Option.bind (block_ledger P b L) (replay_ledger P bs)"

lemma replay_ledger_append [simp]:
  "replay_ledger P (bs @ cs) L = Option.bind (replay_ledger P bs L) (replay_ledger P cs)"
  by (induction bs arbitrary: L) (auto split: bind_split)

lemma ledger_root_Inr:
  assumes "ledger_root E (L, root, s) = Inr (r, st)"
  obtains s' where "st = (L\<lparr>l_dirty := {||}\<rparr>, r, s')"
  using assms by (cases "l_dirty L = {||}")
    (auto simp: ledger_root_def state_root_def try_then_case split: sum.splits)

lemma ledger_root_clean: "l_dirty L = {||} \<Longrightarrow> ledger_root E (L, root, s) = Inr (root, L, root, s)"
  by (simp add: ledger_root_def state_root_def)

lemma apply_block_state_ledger:
  assumes "apply_block_state E b (L, root, s) = Inr st"
  obtains L' s' where "st = (L', bh_state_root (blk_header b), s')" and "block_ledger (h_prims E) b L = Some L'"
    and "l_dirty L' = {||}"
proof -
  let ?h = "blk_header b" and ?P = "h_prims E"
  obtain L1 where p: "apply_block_parallel ?P (h_workers E) L (blk_txs b) (bh_height ?h) = (None, L1)"
    and r: "ledger_root E (pay_miner ?P (bh_miner ?h) (bh_height ?h) (blk_txs b) L1, root, s) = Inr (bh_state_root ?h, st)"
    using assms by (auto simp: apply_block_state_def apply_txs_and_reward_def split: prod.splits option.splits if_splits)
  have "apply_all ?P (bh_height ?h) (blk_txs b) L = (None, L1)"
    using p apply_block_sequential [of ?P "h_workers E" L "blk_txs b" "bh_height ?h"] by simp
  with r that show thesis by (auto elim!: ledger_root_Inr simp: block_ledger_def)
qed

section \<open>What the tree stores\<close>

definition stored :: "('g, 's, 'r) prims \<Rightarrow> block_tree \<Rightarrow> id32 \<Rightarrow> ('g, 's, 'r) block \<Rightarrow> bool" where
  "stored P T i b \<longleftrightarrow> block_wf P b \<and>
     (\<exists>n. fmlookup T i = Some n \<and> tn_encoded n = block_encode P b \<and> tn_header n = blk_header b)"

definition tree_stored :: "('g, 's, 'r) prims \<Rightarrow> block_tree \<Rightarrow> id32 \<Rightarrow> bool" where
  "tree_stored P T g \<longleftrightarrow> (\<forall>i. known T i \<longrightarrow> i \<noteq> g \<longrightarrow> (\<exists>b. stored P T i b))"

lemma stored_upd: "stored P T j b \<Longrightarrow> \<not> known T i \<Longrightarrow> stored P (fmupd i n T) j b"
  by (auto simp: stored_def dest: fmdomI)

lemma list_stored_upd:
  "list_all2 (stored P T) ids bs \<Longrightarrow> \<not> known T i \<Longrightarrow> list_all2 (stored P (fmupd i n T)) ids bs"
  by (erule list_all2_mono) (rule stored_upd)

lemma stored_new: "block_wf P b \<Longrightarrow> stored P (fmupd i (new_node P p b) T) i b"
  by (simp add: stored_def new_node_def)

lemma tree_stored_upd:
  assumes "tree_stored P T g" and "\<not> known T i" and "block_wf P b"
  shows "tree_stored P (fmupd i (new_node P p b) T) g"
  unfolding tree_stored_def
proof (intro allI impI)
  fix j
  assume j: "known (fmupd i (new_node P p b) T) j" "j \<noteq> g"
  show "\<exists>b'. stored P (fmupd i (new_node P p b) T) j b'"
  proof (cases "j = i")
    case True
    then show ?thesis using stored_new [OF assms(3)] by blast
  next
    case False
    then show ?thesis using j assms(1) stored_upd [OF _ assms(2)] unfolding tree_stored_def by fastforce
  qed
qed

lemma replay_path_ledger:
  assumes "encoding_laws (h_prims E)" and "tree_stored (h_prims E) T g"
  shows "replay_path E T g path (L, root, s) = Inr st \<Longrightarrow> g \<notin> set path \<Longrightarrow>
    \<exists>bs L' root' s'. st = (L', root', s') \<and> list_all2 (stored (h_prims E) T) path bs \<and>
      replay_ledger (h_prims E) bs L = Some L' \<and>
      (path \<noteq> [] \<longrightarrow> l_dirty L' = {||} \<and> root' = bh_state_root (blk_header (last bs)))"
proof (induction path arbitrary: L root s)
  case (Cons i path)
  let ?P = "h_prims E"
  obtain n b st1 where n: "fmlookup T i = Some n" and b: "block_decode ?P (tn_encoded n) = Some b"
    and a: "apply_block_state E b (L, root, s) = Inr st1" and r: "replay_path E T g path st1 = Inr st"
    using Cons.prems by auto
  obtain b' where b': "stored ?P T i b'" using assms(2) n Cons.prems(2) by (auto simp: tree_stored_def dest: fmdomI)
  then have "block_decode ?P (tn_encoded n) = Some b'"
    using n by (auto simp: stored_def block_decode_iff [OF assms(1)])
  then have st: "stored ?P T i b" using b b' by simp
  obtain L1 s1 where 1: "st1 = (L1, bh_state_root (blk_header b), s1)" "block_ledger ?P b L = Some L1" "l_dirty L1 = {||}"
    using a by (rule apply_block_state_ledger)
  have "g \<notin> set path" using Cons.prems(2) by simp
  from Cons.IH [OF r [unfolded 1(1)] this]
  obtain bs L' root' s' where 2: "st = (L', root', s')" "list_all2 (stored ?P T) path bs" "replay_ledger ?P bs L1 = Some L'"
    "path \<noteq> [] \<longrightarrow> l_dirty L' = {||} \<and> root' = bh_state_root (blk_header (last bs))" by blast
  show ?case
  proof (intro exI conjI)
    show "list_all2 (stored ?P T) (i # path) (b # bs)" using st 2(2) by simp
    show "replay_ledger ?P (b # bs) L = Some L'" using 1(2) 2(3) by simp
    show "i # path \<noteq> [] \<longrightarrow> l_dirty L' = {||} \<and> root' = bh_state_root (blk_header (last (b # bs)))"
      using 2 1 r by (cases path) auto
  qed (rule 2(1))
qed auto

section \<open>The active state\<close>

lemma branch_split:
  assumes "tree_ok T g" and "known T i" and "i \<noteq> g"
  obtains rest where "branch_to T i = g # rest" and "g \<notin> set rest" and "rest \<noteq> []" and "last rest = i"
proof (cases "branch_to T i")
  case (Cons x rest)
  then have "x = g" "last (x # rest) = i" "distinct (x # rest)"
    using branch_to_props [OF assms(1,2)] branch_distinct [OF assms(1,2)] by auto
  with Cons assms(3) that show thesis by (auto split: if_splits)
qed simp

definition replayed :: "('g::ab_group_add, 's::comm_ring_1, 'r) host \<Rightarrow> 'g blockchain \<Rightarrow> bool" where
  "replayed E c \<longleftrightarrow> tree_stored (h_prims E) (bc_tree c) (bc_genesis_id c) \<and>
     (\<exists>L0 r0 s0 L bs. genesis_state (h_prims E) (bc_premine c) (bc_public_premine c) = Inr (L0, r0, s0) \<and>
        L \<in> {L0, L0\<lparr>l_dirty := {||}\<rparr>} \<and> list_all2 (stored (h_prims E) (bc_tree c)) (tl (bc_active_chain c)) bs \<and>
        replay_ledger (h_prims E) bs L = Some (fst (bc_active_state c))) \<and>
     l_dirty (fst (bc_active_state c)) = {||} \<and>
     (\<exists>t. fmlookup (bc_tree c) (bc_active_tip c) = Some t \<and> fst (snd (bc_active_state c)) = bh_state_root (tn_header t))"

lemma replayedI:
  assumes "genesis_state (h_prims E) (bc_premine c) (bc_public_premine c) = Inr (L0, r0, s0)"
    and "L \<in> {L0, L0\<lparr>l_dirty := {||}\<rparr>}" and "list_all2 (stored (h_prims E) (bc_tree c)) (tl (bc_active_chain c)) bs"
    and "replay_ledger (h_prims E) bs L = Some (fst (bc_active_state c))"
    and "tree_stored (h_prims E) (bc_tree c) (bc_genesis_id c)" and "l_dirty (fst (bc_active_state c)) = {||}"
    and "fmlookup (bc_tree c) (bc_active_tip c) = Some t" and "fst (snd (bc_active_state c)) = bh_state_root (tn_header t)"
  shows "replayed E c"
  using assms unfolding replayed_def by blast

lemma maybe_prune_clean:
  assumes "maybe_prune E c = (r, c')" and "l_dirty (fst (bc_active_state c)) = {||}"
  shows "r = None" and "fst (bc_active_state c') = fst (bc_active_state c)"
    and "fst (snd (bc_active_state c')) = fst (snd (bc_active_state c))"
  using assms by (cases "bc_active_state c"; auto simp: maybe_prune_def prune_history_def ledger_root_clean Let_def
      split: option.splits if_splits)+

lemma apply_block_replayed:
  assumes "encoding_laws (h_prims E)" and "chain_spine c" and "small c" and "replayed E c"
    and "block_wf (h_prims E) b" and "apply_block E b c = (r, c')"
  shows "replayed E c'"
proof -
  let ?P = "h_prims E" and ?i = "header_id (h_prims E) (blk_header b)"
  obtain L0 r0 s0 L bs where g: "genesis_state ?P (bc_premine c) (bc_public_premine c) = Inr (L0, r0, s0)"
     "L \<in> {L0, L0\<lparr>l_dirty := {||}\<rparr>}" "list_all2 (stored ?P (bc_tree c)) (tl (bc_active_chain c)) bs"
     "replay_ledger ?P bs L = Some (fst (bc_active_state c))" and t: "tree_stored ?P (bc_tree c) (bc_genesis_id c)"
    using assms(4) unfolding replayed_def by blast
  show ?thesis
    using assms(2,3,6)
  proof (cases rule: apply_block_cases)
    case same
    then show ?thesis using assms(4) by simp
  next
    case (extended p st c1)
    let ?T = "fmupd ?i (new_node ?P p b) (bc_tree c)"
    have new: "\<not> known (bc_tree c) ?i" using extended(2) by (simp add: adds_def)
    obtain L' s' where st: "st = (L', bh_state_root (blk_header b), s')" "block_ledger ?P b (fst (bc_active_state c)) = Some L'"
       "l_dirty L' = {||}"
      using extended(4) by (cases "bc_active_state c") (auto elim: apply_block_state_ledger)
    have bs: "list_all2 (stored ?P ?T) (tl (bc_active_chain c) @ [?i]) (bs @ [b])"
      using list_stored_upd [OF g(3) new] stored_new [OF assms(5)] by (simp add: list_all2_appendI)
    have "bc_active_chain c \<noteq> []" using assms(2) by (auto simp: spine_def)
    with bs extended(5) have "list_all2 (stored ?P (bc_tree c')) (tl (bc_active_chain c')) (bs @ [b])"
      by (simp add: maybe_prune_frame [OF extended(6)])
    moreover have "replay_ledger ?P (bs @ [b]) L = Some (fst (bc_active_state c'))"
      using g(4) st extended(5) maybe_prune_clean(2) [OF extended(6)] by simp
    ultimately show ?thesis
      by (intro replayedI [where t = "new_node ?P p b" and L = L and bs = "bs @ [b]"])
        (use extended(5) g(2) st g(1) tree_stored_upd [OF t new assms(5)] maybe_prune_clean [OF extended(6)]
         in \<open>simp_all add: maybe_prune_frame [OF extended(6)] new_node_def\<close>)
  next
    case (switched p path st c1)
    let ?T = "fmupd ?i (new_node ?P p b) (bc_tree c)"
    have ok: "tree_ok (bc_tree c) (bc_genesis_id c)" and new: "\<not> known (bc_tree c) ?i"
      using assms(2) switched(2) by (simp_all add: spine_def adds_def)
    have ok': "tree_ok ?T (bc_genesis_id c)" by (rule adds_tree [OF ok switched(2)])
    have i: "known ?T ?i" "?i \<noteq> bc_genesis_id c" using new tree_genesis(1) [OF ok] by auto
    obtain rest where path: "path = bc_genesis_id c # rest" "bc_genesis_id c \<notin> set rest" "rest \<noteq> []" "last rest = ?i"
      unfolding switched(4) using ok' i by (rule branch_split)
    have "replay_path E ?T (bc_genesis_id c) rest (L0, r0, s0) = Inr st"
      using switched(6) g(1) path(1) by (simp add: rebuild_state_def)
    from replay_path_ledger [OF assms(1) tree_stored_upd [OF t new assms(5)] this path(2)]
    obtain cs L' root' s' where st: "st = (L', root', s')" "list_all2 (stored ?P ?T) rest cs" "replay_ledger ?P cs L0 = Some L'"
      "l_dirty L' = {||}" "root' = bh_state_root (blk_header (last cs))" using path(3) by blast
    have "stored ?P ?T (last rest) (last cs)" using st(2) path(3)
      by (cases "cs = []") (auto simp: list_all2_conv_all_nth last_conv_nth)
    then have root: "root' = bh_state_root (tn_header (new_node ?P p b))"
      using st(5) path(4) by (auto simp: stored_def)
    have "genesis_state ?P (bc_premine c') (bc_public_premine c') = Inr (L0, r0, s0)"
      using g(1) switched(7) by (simp add: maybe_prune_frame [OF switched(8)])
    then show ?thesis
      by (rule replayedI [where t = "new_node ?P p b" and bs = cs and L = L0])
        (use switched(7) st path(1,4) root tree_stored_upd [OF t new assms(5)] maybe_prune_clean [OF switched(8)]
         in \<open>simp_all add: maybe_prune_frame [OF switched(8)]\<close>)
  next
    case (aside p)
    have new: "\<not> known (bc_tree c) ?i" using aside(2) by (simp add: adds_def)
    have "?i \<noteq> bc_active_tip c" using new assms(2) by (auto simp: spine_def)
    moreover obtain n where "fmlookup (bc_tree c) (bc_active_tip c) = Some n" "l_dirty (fst (bc_active_state c)) = {||}"
      "fst (snd (bc_active_state c)) = bh_state_root (tn_header n)" using assms(4) by (auto simp: replayed_def)
    ultimately show ?thesis
      using g list_stored_upd [OF g(3) new] tree_stored_upd [OF t new assms(5)]
      by (intro replayedI [where bs = bs and L = L and t = n]) (simp_all add: aside(5))
  qed
qed

lemma genesis_replayed:
  assumes "genesis_with_public E premine public_premine d = Inr c"
  shows "replayed E c"
  using assms
proof (rule genesis_shape)
  fix st0 root L s header
  assume g: "genesis_state (h_prims E) premine public_premine = Inr st0" and r: "ledger_root E st0 = Inr (root, L, root, s)"
    and h: "bh_state_root header = root" and c: "c = note_validator_set
      \<lparr>bc_tree = fmupd (header_id (h_prims E) header)
         \<lparr>tn_encoded = block_encode (h_prims E) \<lparr>blk_header = header, blk_txs = []\<rparr>, tn_header = header, tn_height = 0,
          tn_child_difficulty = max d 1, tn_cum_work = 0\<rparr> fmempty,
       bc_genesis_id = header_id (h_prims E) header, bc_premine = premine, bc_public_premine = public_premine,
       bc_active_tip = header_id (h_prims E) header, bc_active_height = 0, bc_active_state = (L, root, s),
       bc_active_chain = [header_id (h_prims E) header], bc_store = None, bc_prune_window = None, bc_finalized = None,
       bc_recent_sets = []\<rparr>"
  obtain L0 r0 s0 where st0: "st0 = (L0, r0, s0)" by (cases st0)
  have "L = L0\<lparr>l_dirty := {||}\<rparr>" using r unfolding st0 by (auto elim: ledger_root_Inr)
  with g h show "replayed E c"
    by (auto simp: c st0 replayed_def tree_stored_def)
qed

lemma replayed_fields:
  "replayed E (c\<lparr>bc_store := cs\<rparr>) = replayed E c" "replayed E (c\<lparr>bc_finalized := f\<rparr>) = replayed E c"
  "replayed E (c\<lparr>bc_prune_window := w\<rparr>) = replayed E c"
  by (simp_all add: replayed_def)

lemma chain_step_replayed:
  assumes "encoding_laws (h_prims E)" and "chain_step E c c'" and "chain_spine c" and "replayed E c"
  shows "replayed E c'"
  using assms(2)
proof (cases rule: chain_step.cases)
  case (step_block b r)
  then show ?thesis using apply_block_replayed [OF assms(1,3) _ assms(4)] by blast
next
  case (step_finalize cert r)
  from step_finalize show ?thesis by (cases rule: try_finalize_cases) (use assms(4) in \<open>simp_all add: replayed_fields\<close>)
qed (use assms(4) in \<open>simp_all add: set_prune_window_def replayed_fields\<close>)

lemma chain_run_replayed:
  assumes "encoding_laws (h_prims E)" and "chain_run E c"
  shows "replayed E c"
proof -
  have "chain_spine c' \<and> replayed E c'" if g: "genesis_with_public E p pp d = Inr c0" and "(chain_step E)\<^sup>*\<^sup>* c0 c'" for p pp d c0 c'
    using that(2)
    by (induction rule: rtranclp_induct)
      (use genesis_spine(1) [OF g] genesis_replayed [OF g] chain_step_spine chain_step_replayed [OF assms(1)] in blast)+
  with assms(2) show ?thesis unfolding chain_run_def by blast
qed

text \<open>
  C23: the state is the history. In every run, whatever branches came and went, the ledger of the active state is the
  result of applying, one transaction after the other, the decoded blocks of the active chain to the genesis ledger (whose
  pending set is empty or that of a fresh genesis), and its root is the one in the header of the tip.
\<close>

theorem active_state_is_replay:
  assumes "encoding_laws (h_prims E)" and "chain_run E c"
  shows "\<exists>L0 r0 s0 L blocks tip. genesis_state (h_prims E) (bc_premine c) (bc_public_premine c) = Inr (L0, r0, s0) \<and>
    L \<in> {L0, L0\<lparr>l_dirty := {||}\<rparr>} \<and>
    map (\<lambda>i. Option.bind (block_by_id c i) (block_decode (h_prims E))) (tl (bc_active_chain c)) = map Some blocks \<and>
    replay_ledger (h_prims E) blocks L = Some (fst (bc_active_state c)) \<and>
    fmlookup (bc_tree c) (bc_active_tip c) = Some tip \<and> fst (snd (bc_active_state c)) = bh_state_root (tn_header tip)"
proof -
  obtain L0 r0 s0 L bs tip where r: "genesis_state (h_prims E) (bc_premine c) (bc_public_premine c) = Inr (L0, r0, s0)"
    "L \<in> {L0, L0\<lparr>l_dirty := {||}\<rparr>}" "list_all2 (stored (h_prims E) (bc_tree c)) (tl (bc_active_chain c)) bs"
    "replay_ledger (h_prims E) bs L = Some (fst (bc_active_state c))"
    "fmlookup (bc_tree c) (bc_active_tip c) = Some tip" "fst (snd (bc_active_state c)) = bh_state_root (tn_header tip)"
    using chain_run_replayed [OF assms] unfolding replayed_def by blast
  have "Option.bind (block_by_id c i) (block_decode (h_prims E)) = Some b" if "stored (h_prims E) (bc_tree c) i b" for i b
    using that by (auto simp: stored_def block_by_id_def block_decode_iff [OF assms(1)])
  then have "map (\<lambda>i. Option.bind (block_by_id c i) (block_decode (h_prims E))) (tl (bc_active_chain c)) = map Some bs"
    using r(3) by (auto simp: list_all2_conv_all_nth intro!: nth_equalityI)
  with r show ?thesis by blast
qed

lemma replay_path_clean:
  "replay_path E T g path st = Inr st' \<Longrightarrow> g \<notin> set path \<Longrightarrow> path \<noteq> [] \<Longrightarrow> l_dirty (fst st') = {||}"
proof (induction path arbitrary: st)
  case (Cons i path)
  then obtain b st1 where a: "apply_block_state E b st = Inr st1" and r: "replay_path E T g path st1 = Inr st'" by auto
  from a have "l_dirty (fst st1) = {||}" by (cases st) (auto elim: apply_block_state_ledger)
  with r Cons show ?case by (cases path) auto
qed simp

lemma apply_block_atomic:
  assumes "chain_run E c" and "small c"
  shows "fst (apply_block E b c) \<noteq> Some Diverge \<and> (fst (apply_block E b c) \<noteq> None \<longrightarrow> snd (apply_block E b c) = c)"
proof -
  obtain r c' where a: "apply_block E b c = (r, c')" by (cases "apply_block E b c")
  note spine = chain_run_spine [OF assms(1)]
  from spine assms(2) a show ?thesis
  proof (cases rule: apply_block_cases)
    case (extended p st c1)
    then have "l_dirty (fst st) = {||}" by (cases "bc_active_state c") (auto elim: apply_block_state_ledger)
    then have "r = None" using maybe_prune_clean(1) [OF extended(6)] extended(5) by simp
    then show ?thesis using a by simp
  next
    case (switched p path st c1)
    let ?i = "header_id (h_prims E) (blk_header b)"
    let ?T = "fmupd ?i (new_node (h_prims E) p b) (bc_tree c)"
    have ok: "tree_ok (bc_tree c) (bc_genesis_id c)" and new: "\<not> known (bc_tree c) ?i"
      using spine switched(2) by (simp_all add: spine_def adds_def)
    have i: "known ?T ?i" "?i \<noteq> bc_genesis_id c" using new tree_genesis(1) [OF ok] by auto
    obtain rest where path: "path = bc_genesis_id c # rest" "bc_genesis_id c \<notin> set rest" "rest \<noteq> []"
      unfolding switched(4) using adds_tree [OF ok switched(2)] i by (rule branch_split)
    have "l_dirty (fst st) = {||}"
      using switched(6) path by (auto simp: rebuild_state_def split: sum.splits dest: replay_path_clean)
    then have "r = None" using maybe_prune_clean(1) [OF switched(8)] switched(7) by simp
    then show ?thesis using a by simp
  qed (use a in auto)
qed

text \<open>
  C24: a rejected block has no effect. When \<open>apply_block\<close> returns an error, whichever check failed and even when the
  failure came in the middle of a reorganisation, the chain is exactly as before; and the walk to
  the genesis always ends.
\<close>

theorem rejected_block_no_effect:
  assumes "chain_run E c" and "small c"
  shows "fst (apply_block E b c) \<noteq> Some Diverge \<and> (fst (apply_block E b c) \<noteq> None \<longrightarrow> snd (apply_block E b c) = c)"
  by (rule apply_block_atomic [OF assms])

text \<open>The genesis chain refuses a second block whose parent it does not know.\<close>

theorem rejected_block_no_effect_witness:
  "\<exists>c. fst (apply_block flat_host (stake_block\<lparr>blk_header := (blk_header stake_block)\<lparr>bh_prev_hash := 7, bh_height := 9\<rparr>\<rparr>) c) \<noteq> Some Diverge \<and>
     bc_active_chain (c :: u64 blockchain) = [1]"
proof (rule flat_run)
  fix c c'
  assume "chain_run flat_host c" "bc_active_chain c = [1]" "small c"
  then show ?thesis using rejected_block_no_effect [of flat_host c] by blast
qed

theorem active_state_is_replay_witness:
  "\<exists>c blocks. map (\<lambda>i. Option.bind (block_by_id c i) (block_decode flat_prims)) [2] = map Some blocks \<and>
     bc_active_chain (c :: u64 blockchain) = [1, 2]"
proof (rule flat_run)
  fix c c'
  assume c: "chain_run flat_host c'" "bc_active_chain c' = [1, 2]"
  show ?thesis using active_state_is_replay [OF _ c(1)] flat_encoding c(2) by fastforce
qed

end
