(* ===== verification/Chain_Mining.thy ===== *)
theory Chain_Mining
  imports Chain_Replay
begin

text \<open>
  What every ledger of the chain satisfies, and what follows for the miner: the block built over the
  selected transactions is accepted, and paying the miner creates no public value.
\<close>

section \<open>Laws of ledgers along the chain\<close>

text \<open>
  A law that holds of the empty ledger and that every operation the chain runs on a ledger keeps, holds of the
  active state.
\<close>

locale ledger_law =
  fixes P :: "('g::ab_group_add, 's::comm_ring_1, 'r) prims"
    and I :: "'g ledger \<Rightarrow> bool"
  assumes start: "I ledger_new"
    and apply_tx: "I L \<Longrightarrow> I (snd (apply_at P tx height L))"
    and credit: "I L \<Longrightarrow> I (credit_public i t n L)"
    and reward: "I L \<Longrightarrow> I (reward_miner P i t n L)"
    and mint: "I L \<Longrightarrow> credit_genesis P i n L = Inr M \<Longrightarrow> I M"
    and new_account: "I L \<Longrightarrow> register i L = Inr M \<Longrightarrow> I M"
    and clean: "I L \<Longrightarrow> I (L\<lparr>l_dirty := {||}\<rparr>)"
begin

lemma apply_all: "I L \<Longrightarrow> apply_all P height txs L = (r, M) \<Longrightarrow> I M"
proof (induction txs arbitrary: L)
  case (Cons tx txs)
  then show ?case using apply_tx [OF Cons.prems(1), of tx height] by (auto split: prod.splits option.splits)
qed simp

lemma pay_miner: "I L \<Longrightarrow> I (pay_miner P miner height txs L)"
proof -
  have "I M \<Longrightarrow> I (foldl (\<lambda>M (token, fee). reward_miner P miner token fee M) M fs)"
    "I M \<Longrightarrow> I (foldl (\<lambda>M (token, fee). credit_public miner token fee M) M fs)" for M fs
    by (induction fs arbitrary: M) (auto simp: reward credit)
  then show "I L \<Longrightarrow> ?thesis" by (simp add: pay_miner_def Let_def reward)
qed

lemma block: "I L \<Longrightarrow> block_ledger P b L = Some M \<Longrightarrow> I M"
  by (auto simp: block_ledger_def intro!: clean pay_miner dest: apply_all split: prod.splits option.splits)

lemma replay: "I L \<Longrightarrow> replay_ledger P bs L = Some M \<Longrightarrow> I M"
  by (induction bs arbitrary: L) (auto simp: bind_eq_Some_conv dest: block)

lemma registered: "I L \<Longrightarrow> I (snd (or_keep L (register i L)))"
  using new_account by (auto simp: or_keep_def split: sum.splits)

lemma genesis:
  assumes "genesis_state P premine public_premine = Inr (L, root, s)"
  shows "I L"
proof -
  have pre: "foldl (premine_account P) r xs = Inr M \<Longrightarrow> (\<And>N. r = Inr N \<Longrightarrow> I N) \<Longrightarrow> I M" for r xs M
  proof (induction xs arbitrary: r)
    case (Cons x xs)
    have "I N" if N: "premine_account P r x = Inr N" for N
    proof -
      obtain i n where x: "x = (i, n)" by (cases x)
      obtain M0 where "r = Inr M0" and "credit_genesis P i n (snd (or_keep M0 (register i M0))) = Inr N"
        using N unfolding premine_account_def x by (cases r) (simp_all split: sum.split_asm)
      then show ?thesis using mint [OF registered [OF Cons.prems(2)]] by blast
    qed
    with Cons show ?case by simp
  qed simp
  have public: "I M \<Longrightarrow> I (foldl public_premine_account M xs)" for M xs
    by (induction xs arbitrary: M) (auto simp: public_premine_account_def credit registered split: prod.splits)
  obtain M where M: "foldl (premine_account P) (Inr ledger_new) premine = Inr M" "L = foldl public_premine_account M public_premine"
    using assms by (auto simp: genesis_state_def)
  have "I M" using pre [OF M(1)] start by simp
  then show ?thesis unfolding M(2) by (rule public)
qed

lemma chain:
  assumes "encoding_laws P" and "h_prims E = P" and "chain_run E c"
  shows "I (fst (bc_active_state c))"
proof -
  have "replayed E c" using chain_run_replayed assms by blast
  then obtain L0 r0 s0 L bs where "genesis_state P (bc_premine c) (bc_public_premine c) = Inr (L0, r0, s0)"
    "L \<in> {L0, L0\<lparr>l_dirty := {||}\<rparr>}" "replay_ledger P bs L = Some (fst (bc_active_state c))"
    unfolding replayed_def assms(2) by blast
  then show ?thesis using genesis clean replay by blast
qed

end

lemma pools_wf_steps:
  "pools_wf ledger_new" "pools_wf L \<Longrightarrow> pools_wf (snd (apply_at P tx height L))"
  "pools_wf L \<Longrightarrow> pools_wf (credit_public i t n L)" "pools_wf L \<Longrightarrow> pools_wf (reward_miner P i t n L)"
  "pools_wf L \<Longrightarrow> credit_genesis P i n L = Inr M \<Longrightarrow> pools_wf M" "pools_wf L \<Longrightarrow> register i L = Inr M \<Longrightarrow> pools_wf M"
  "pools_wf L \<Longrightarrow> pools_wf (L\<lparr>l_dirty := D\<rparr>)"
proof -
  show "pools_wf ledger_new" by (rule ledger_inv_new [unfolded ledger_inv_def, THEN conjunct1])
  have same [simp]: "pools_wf (put_account i a L) = pools_wf L" "pools_wf (mark k L) = pools_wf L"
    "pools_wf (L\<lparr>l_dirty := D\<rparr>) = pools_wf L" for i a k D and L :: "'z ledger"
    by (auto intro!: pools_wf_cong)
  show "pools_wf L \<Longrightarrow> pools_wf (snd (apply_at P tx height L))"
    using apply_inner_pools_wf [of L P tx height None] by (auto simp: apply_at_def apply_at_with_def split: prod.split option.split)
  show "pools_wf L \<Longrightarrow> pools_wf (credit_public i t n L)" "pools_wf L \<Longrightarrow> pools_wf (reward_miner P i t n L)"
    "pools_wf L \<Longrightarrow> credit_genesis P i n L = Inr M \<Longrightarrow> pools_wf M" "pools_wf L \<Longrightarrow> register i L = Inr M \<Longrightarrow> pools_wf M"
    "pools_wf L \<Longrightarrow> pools_wf (L\<lparr>l_dirty := D\<rparr>)"
    by (auto simp: credit_public_def reward_miner_def credit_genesis_def register_def Let_def split: if_splits)
qed

interpretation pools: ledger_law P pools_wf for P :: "('g::ab_group_add, 's::comm_ring_1, 'r) prims"
  by unfold_locales (fact pools_wf_steps)+

section \<open>Mining\<close>

lemma select_loop_applies:
  "pools_wf L \<Longrightarrow> \<exists>M. apply_all P height (select_loop P height txs L) L = (None, M)"
proof (induction txs arbitrary: L)
  case (Cons tx txs)
  obtain r L1 where a: "apply_at P tx height L = (r, L1)" by fastforce
  then have wf: "pools_wf L1" using pools_wf_steps(2) [OF Cons.prems, of P tx height] by simp
  have "L1 = L" if "r = Some e" for e using apply_at_failed [OF Cons.prems, of P tx height e] a that by simp
  with a Cons.IH [OF wf] Cons.IH [OF Cons.prems] show ?case by (auto split: sum.split option.split)
qed simp

lemma select_loop_checked: "check_txs P (select_loop P height txs L) = Inr ()"
  by (induction txs arbitrary: L) (auto split: sum.split option.split prod.split)

text \<open>
  C25: mining is live. In any run whose tree is smaller than its counters, take the transactions that \<open>select_valid\<close> picks
  from any pool, when they are no more than a block may carry. If every header has a nonce that meets the difficulty, and
  the root of the state after the picked transactions and the miner's pay can be computed, then mining returns a block with
  those transactions, and the chain accepts it: it becomes the tip, unless the very block is known already, which changes
  nothing.
\<close>

theorem mined_block_accepted:
  assumes "encoding_laws (h_prims E)" and "chain_run E c" and "small c"
    and "txs = select_valid E pool c" and "length txs \<le> MAX_TXS_PER_BLOCK"
    and "\<And>h d. chain_difficulty c = Inr d \<Longrightarrow> \<exists>n. meets_difficulty (header_id (h_prims E) (h\<lparr>bh_nonce := n\<rparr>)) d"
    and "\<And>M. apply_all (h_prims E) (bc_active_height c + 1) txs (fst (bc_active_state c)) = (None, M) \<Longrightarrow>
      \<exists>r. ledger_root E (pay_miner (h_prims E) miner (bc_active_height c + 1) txs M, snd (bc_active_state c)) = Inr r"
  shows "\<exists>b c'. mine_with_reward E now miner txs c = Inr b \<and> blk_txs b = txs \<and> apply_block E b c = (None, c') \<and>
      (if has_block c (header_id (h_prims E) (blk_header b)) then c' = c
       else bc_active_tip c' = header_id (h_prims E) (blk_header b) \<and>
          bc_active_height c' = bc_active_height c + 1 \<and>
          bc_active_chain c' = bc_active_chain c @ [header_id (h_prims E) (blk_header b)])"
proof -
  let ?P = "h_prims E" and ?h = "bc_active_height c + 1"
  note spine = chain_run_spine [OF assms(2)]
  have ok: "tree_ok (bc_tree c) (bc_genesis_id c)" and known: "known (bc_tree c) (bc_active_tip c)"
    and h: "unat (bc_active_height c) = height_of (bc_tree c) (bc_active_tip c)" using spine by (simp_all add: spine_def)
  obtain tip where tip: "fmlookup (bc_tree c) (bc_active_tip c) = Some tip" using known by (rule knownE)
  then have height: "bc_active_height c = tn_height tip" using h by (simp add: height_of_def word_unat_eq_iff)
  obtain L root s where st: "bc_active_state c = (L, root, s)" by (cases "bc_active_state c")
  have "pools_wf L" using pools.chain [OF assms(1) refl assms(2)] st by simp
  then obtain M where M: "apply_all ?P ?h txs L = (None, M)"
    using select_loop_applies assms(4) unfolding select_valid_def st by fastforce
  from M have par: "apply_txs_and_reward E txs miner ?h L = (None, pay_miner ?P miner ?h txs M)"
    using apply_block_sequential [of ?P "h_workers E" L txs ?h] by (simp add: apply_txs_and_reward_def)
  have checked: "check_txs ?P txs = Inr ()" by (simp add: assms(4) select_valid_def select_loop_checked)
  obtain r st' where r: "ledger_root E (pay_miner ?P miner ?h txs M, root, s) = Inr (r, st')"
    using assms(7) M unfolding st by fastforce
  show ?thesis
  proof -
    let ?H = "\<lparr>bh_prev_hash = bc_active_tip c, bh_height = ?h, bh_timestamp = now, bh_tx_root = tx_root ?P txs,
       bh_state_root = r, bh_miner = miner, bh_nonce = 0\<rparr>"
    let ?found = "\<lambda>n. meets_difficulty (header_id ?P (?H\<lparr>bh_nonce := n\<rparr>)) (tn_child_difficulty tip)"
    have "chain_difficulty c = Inr (tn_child_difficulty tip)" by (simp add: chain_difficulty_def tip ok_or_def)
    from assms(6) [OF this, of ?H] obtain m where m: "?found m" by (elim exE)
    obtain n where n: "search_nonce ?found 0 = Some n"
      using search_nonce_ends [of ?found m 0, OF m] by (elim exE)
    obtain b where b: "b = \<lparr>blk_header = ?H\<lparr>bh_nonce := n\<rparr>, blk_txs = txs\<rparr>" by simp
    then have f: "bh_prev_hash (blk_header b) = bc_active_tip c" "bh_height (blk_header b) = ?h" "blk_txs b = txs"
      "bh_tx_root (blk_header b) = tx_root ?P txs" "bh_state_root (blk_header b) = r" "bh_miner (blk_header b) = miner" by simp_all
    have pow: "meets_difficulty (header_id ?P (blk_header b)) (tn_child_difficulty tip)"
      using search_nonce_found [OF n] by (simp add: b)
    let ?i = "header_id ?P (blk_header b)"
    have mine: "mine_with_reward E now miner txs c = Inr b"
      using n by (simp add: mine_with_reward_def tip st par r Let_def b)
    have link: "check_link ?P (bc_tree c) b = Inr tip"
      using pow assms(5) by (simp add: check_link_def f tip height ok_or_def)
    have state: "apply_block_state E b (bc_active_state c) = Inr st'" by (simp add: apply_block_state_def st par r f)
    have "\<exists>c'. apply_block E b c = (None, c') \<and> (if has_block c ?i then c' = c
       else bc_active_tip c' = ?i \<and> bc_active_height c' = ?h \<and> bc_active_chain c' = bc_active_chain c @ [?i])"
    proof (cases "has_block c ?i")
      case False
      let ?c = "note_validator_set ((persist E b (block_encode ?P b) c)\<lparr>
          bc_tree := fmupd ?i (child_node tip (blk_header b) (block_encode ?P b)) (bc_tree c),
          bc_active_state := st', bc_active_tip := ?i, bc_active_height := ?h, bc_active_chain := bc_active_chain c @ [?i]\<rparr>)"
      obtain res c' where a: "maybe_prune E ?c = (res, c')" by (cases "maybe_prune E ?c")
      have dirty: "l_dirty (fst st') = {||}" using r by (auto elim: ledger_root_Inr)
      have "apply_block E b c = (res, c')"
        using False a by (simp add: apply_block_def link checked tip extend_tip_def state has_block_def f Let_def)
      then show ?thesis using maybe_prune_frame [OF a] maybe_prune_clean(1) [OF a] dirty False by simp
    next
      case True
      then show ?thesis by (simp add: apply_block_def has_block_def)
    qed
    then show ?thesis using mine f(3) by blast
  qed
qed

lemma select_loop_length: "length (select_loop P height txs L) \<le> length txs"
proof (induction txs arbitrary: L)
  case (Cons tx txs)
  then show ?case by (auto split: sum.split option.split prod.split intro: le_SucI)
qed simp

theorem mined_block_accepted_witness:
  "\<exists>c b c'. bc_active_chain (c :: u64 blockchain) = [1] \<and>
     mine_with_reward flat_host 5 9 (select_valid flat_host [stake_tx] c) c = Inr b \<and> apply_block flat_host b c = (None, c')"
proof (rule flat_run)
  fix c c' :: "u64 blockchain"
  assume c: "chain_run flat_host c" "bc_active_chain c = [1]" "small c" "chain_difficulty c = Inr 1"
    "fst (snd (bc_active_state c)) = 0"
  have "length (select_valid flat_host [stake_tx] c) \<le> MAX_TXS_PER_BLOCK"
    using select_loop_length [of flat_prims "bc_active_height c + 1" "[stake_tx]" "fst (bc_active_state c)"]
    by (simp add: select_valid_def MAX_TXS_PER_BLOCK_def)
  moreover have "\<exists>r. ledger_root flat_host (M, snd (bc_active_state c)) = Inr r" for M
    using flat_root [of M "snd (snd (bc_active_state c))"] c(5) by (metis prod.collapse)
  moreover have "\<exists>n. meets_difficulty (header_id (h_prims flat_host) (h\<lparr>bh_nonce := n\<rparr>)) d" if "chain_difficulty c = Inr d" for h d
    using that c(4) by (simp add: meets_difficulty_def)
  ultimately show ?thesis
    using mined_block_accepted [where E = flat_host and c = c and pool = "[stake_tx]" and miner = 9 and now = 5, OF _ c(1,3) refl]
      flat_encoding c(2) by fastforce
qed

section \<open>Value across a block\<close>

lemma public_total_reward: "public_total t (reward_miner P i u n L) = public_total t L"
proof -
  have "public_total t (put_account i (acct_set (account_or_default L i) u ct) L) = public_total t L" for ct
    using acc_sum_put [of t i "acct_set (account_or_default L i) u ct" L]
    by (simp add: opt_sum_default public_total_def acc_holds_def acct_public_def acct_set_def)
  then show ?thesis by (simp add: reward_miner_def Let_def)
qed

lemma apply_all_value:
  assumes "apply_all P height txs L = (None, M)" and "pools_wf L" and "\<And>tx. tx \<in> set txs \<Longrightarrow> \<not> mints t tx"
  shows "public_total t M + sum_list (map (fee_coin t) txs) \<le> public_total t L + sum_list (map (unshielded t) txs)"
  using assms
proof (induction txs arbitrary: L)
  case (Cons tx txs)
  obtain L1 where a: "apply_at P tx height L = (None, L1)" and r: "apply_all P height txs L1 = (None, M)"
    using Cons.prems(1) by (auto split: prod.splits option.splits)
  obtain N where N: "apply_inner P tx height None L = (None, N)" "public_total t L1 = public_total t N"
    using a by (auto simp: apply_at_eq)
  have "pools_wf L1" using pools_wf_steps(2) [OF Cons.prems(2), of P tx height] a by simp
  from Cons.IH [OF r this] Cons.prems(3) apply_inner_value [OF Cons.prems(2) N(1), of t] N(2)
  show ?case by simp
qed simp

lemma transparent_fee_coin:
  "fee_coin t tx = (case transparent_fee tx of Some (u, fee) \<Rightarrow> coin t u fee | None \<Rightarrow> 0)"
  by (cases tx) (auto simp: fee_coin_def coin_def word_gt_0)

lemma pay_miner_value:
  "public_total t (pay_miner P miner height txs L) \<le> public_total t L + sum_list (map (fee_coin t) txs)"
proof -
  have conf: "public_total t (foldl (\<lambda>M (token, fee). reward_miner P miner token fee M) M fs) = public_total t M" for M fs
    by (induction fs arbitrary: M) (auto simp: public_total_reward split: prod.split)
  have "public_total t (foldl (\<lambda>M (token, fee). credit_public miner token fee M) M (List.map_filter transparent_fee txs)) \<le>
      public_total t M + sum_list (map (fee_coin t) txs)" for M
  proof (induction txs arbitrary: M)
    case (Cons tx txs)
    show ?case
    proof (cases "transparent_fee tx")
      case None
      then show ?thesis using Cons.IH [of M] by (simp add: map_filter_simps transparent_fee_coin)
    next
      case (Some uf)
      obtain u fee where uf: "uf = (u, fee)" by (cases uf)
      show ?thesis
        using Cons.IH [of "credit_public miner u fee M"] public_total_credit [of t miner u fee M]
        by (simp add: map_filter_simps transparent_fee_coin Some uf)
    qed
  qed (simp add: map_filter_simps)
  from this [of "foldl (\<lambda>M (token, fee). reward_miner P miner token fee M) (reward_miner P miner LAT_TOKEN (emission height) L)
      (List.map_filter confidential_fee txs)"]
  show ?thesis by (simp add: pay_miner_def Let_def conf public_total_reward)
qed

text \<open>
  C26: a block creates public value only by unshielding. In any run, a block that the state transition accepts, its miner's
  pay included, leaves the public total of every token that none of its transactions buys on that token's curve at most what
  it was plus what its transactions unshield: the fees paid to the miner are no more than those collected.
\<close>

theorem block_creates_no_public_value:
  assumes "encoding_laws (h_prims E)" and "chain_run E c" and "apply_block_state E b (bc_active_state c) = Inr st"
    and "\<And>tx. tx \<in> set (blk_txs b) \<Longrightarrow> \<not> mints t tx"
  shows "public_total t (fst st) \<le> public_total t (fst (bc_active_state c)) + sum_list (map (unshielded t) (blk_txs b))"
proof -
  obtain L root s where L: "bc_active_state c = (L, root, s)" by (cases "bc_active_state c")
  have wf: "pools_wf L" using pools.chain [OF assms(1) refl assms(2)] L by simp
  obtain L' s' where st: "st = (L', bh_state_root (blk_header b), s')" "block_ledger (h_prims E) b L = Some L'"
    using assms(3) unfolding L by (rule apply_block_state_ledger)
  then obtain M where M: "apply_all (h_prims E) (bh_height (blk_header b)) (blk_txs b) L = (None, M)"
    and L': "L' = (pay_miner (h_prims E) (bh_miner (blk_header b)) (bh_height (blk_header b)) (blk_txs b) M)\<lparr>l_dirty := {||}\<rparr>"
    by (auto simp: block_ledger_def split: prod.splits option.splits)
  have "public_total t (K\<lparr>l_dirty := D\<rparr>) = public_total t K" for K :: "'a ledger" and D
    by (simp add: public_total_def sum_defs)
  then show ?thesis
    using pay_miner_value [of t "h_prims E" "bh_miner (blk_header b)" "bh_height (blk_header b)" "blk_txs b" M]
      apply_all_value [OF M wf assms(4)] by (simp add: st(1) L' L)
qed

theorem block_creates_no_public_value_witness:
  "\<exists>L st s. apply_block_state flat_host stake_block (L, s) = Inr st \<and> public_total 0 (fst st) \<le> public_total 0 L"
proof (rule flat_run)
  fix c c'
  assume c: "chain_run flat_host c" "\<exists>st. apply_block_state flat_host stake_block (bc_active_state c) = Inr st"
  then obtain st where st: "apply_block_state flat_host stake_block (bc_active_state c) = Inr st" by blast
  have "public_total 0 (fst st) \<le> public_total 0 (fst (bc_active_state c))"
    using block_creates_no_public_value [OF _ c(1) st, of 0] flat_encoding by (simp add: stake_block_def)
  with st show ?thesis by (metis prod.collapse)
qed

end
