(* ===== verification/Chain_Boot.thy ===== *)
theory Chain_Boot
  imports Chain_Replay Ledger_Store Ledger_Snapshot
begin

text \<open>
  Starting a chain without replaying it: the bytes of a snapshot file (\<^verbatim>\<open>lat-chain/src/snapshot.rs\<close>), and from
  \<^verbatim>\<open>lat-chain/src/lib.rs\<close> the structural rebuild with verification of the state (\<^verbatim>\<open>replay_from_snapshot\<close>), the boot from records,
  \<^verbatim>\<open>open\<close> with its fallbacks, and fast sync from a peer.

  An outcome is a fault, a refusal (\<^verbatim>\<open>None\<close>) or a value. \<^verbatim>\<open>Ledger::decode\<close> and \<^verbatim>\<open>Ledger::from_records\<close> end with a call of
  \<^verbatim>\<open>state_root\<close>; the callers here call it again at once, so it is computed there. \<open>open_chain\<close> is given the database as a store and the contents
  of the snapshot file; what it writes back (the snapshot, the anchor with the moved state, theory \<open>Ledger_Store\<close>)
  and the boot mode are not in its result.
\<close>

section \<open>The snapshot file\<close>

record 'g snapshot =
  sn_height :: u64
  sn_block_id :: id32
  sn_ledger :: "'g ledger"

definition SNAP_MAGIC :: bytes where "SNAP_MAGIC = ascii ''LATSNAP1''"

definition snapshot_write :: "('g, 's, 'r) prims \<Rightarrow> u64 \<Rightarrow> id32 \<Rightarrow> 'g ledger \<Rightarrow> bytes" where
  "snapshot_write P height block_id L =
    (let body = ledger_encode P L in
     SNAP_MAGIC @ le_bytes 8 height @ be_bytes 32 block_id @ be_bytes 32 (blake3 P body)
       @ le_bytes 4 (of_nat (length body) :: u32) @ body)"

definition snapshot_read :: "('g, 's, 'r) prims \<Rightarrow> bytes \<Rightarrow> 'g snapshot option" where
  "snapshot_read P b = do {
     magic \<leftarrow> get_range b 0 8;
     if magic \<noteq> SNAP_MAGIC then None
     else do {
       h \<leftarrow> get_range b 8 16;
       i \<leftarrow> get_range b 16 48;
       digest \<leftarrow> get_range b 48 80;
       n \<leftarrow> get_range b 80 84;
       let len = unat (of_le n :: u32);
       body \<leftarrow> get_range b 84 (84 + len);
       if 84 + len \<noteq> length b then None
       else if blake3 P body \<noteq> of_be digest then None
       else map_option (\<lambda>L. \<lparr>sn_height = of_le h, sn_block_id = of_be i, sn_ledger = L\<rparr>) (ledger_decode P body) } }"

lemma get_range_all: "get_range b 0 n = Some x \<longleftrightarrow> n \<le> length b \<and> x = take n b"
  by (auto simp: get_range_def)

text \<open>
  Snapshot files. Reading the file written for a ledger gives back its height, its block and the
  ledger, with every entry marked; and whatever bytes are read successfully have the layout of one: the magic, the height, the block,
  the hash of the body, its length and a body that decodes to the ledger, with nothing after it.
\<close>

lemma snapshot_file_exact:
  assumes "encoding_laws P" and "records_wf L" and "snapshot_fits L" and "length (ledger_encode P L) < 2 ^ 32"
  shows "snapshot_read P (snapshot_write P h i L) = Some \<lparr>sn_height = h, sn_block_id = i, sn_ledger =
      L\<lparr>l_meta := Some (l_next_token_id L), l_dirty := all_keys L, l_max_validators := DEFAULT_MAX_VALIDATORS\<rparr>\<rparr> \<and>
    (\<forall>b sn. snapshot_read P b = Some sn \<longrightarrow> (\<exists>body. ledger_decode P body = Some (sn_ledger sn) \<and> length body < 2 ^ 32 \<and>
       b = SNAP_MAGIC @ le_bytes 8 (sn_height sn) @ be_bytes 32 (sn_block_id sn) @ be_bytes 32 (blake3 P body)
         @ le_bytes 4 (of_nat (length body) :: u32) @ body))"
proof (intro conjI allI impI)
  have magic: "length SNAP_MAGIC = 8" by (simp add: SNAP_MAGIC_def ascii_def)
  have len: "unat (of_nat (length (ledger_encode P L)) :: u32) = length (ledger_encode P L)"
    using assms(4) by (simp add: unat_of_nat take_bit_nat_eq_self)
  show "snapshot_read P (snapshot_write P h i L) = Some \<lparr>sn_height = h, sn_block_id = i, sn_ledger =
      L\<lparr>l_meta := Some (l_next_token_id L), l_dirty := all_keys L, l_max_validators := DEFAULT_MAX_VALIDATORS\<rparr>\<rparr>"
    by (simp add: snapshot_read_def snapshot_write_def Let_def get_range_def magic len snapshot_round_trip [OF assms(1-3)])
next
  fix b sn
  assume read: "snapshot_read P b = Some sn"
  define n where "n = unat (of_le (take 4 (drop 80 b)) :: u32)"
  define body where "body = take n (drop 84 b)"
  have "84 \<le> length b \<and> SNAP_MAGIC = take 8 b \<and> length b = 84 + n \<and> blake3 P body = of_be (take 32 (drop 48 b)) \<and>
      map_option (\<lambda>L. \<lparr>sn_height = of_le (take 8 (drop 8 b)), sn_block_id = of_be (take 32 (drop 16 b)), sn_ledger = L\<rparr>)
        (ledger_decode P body) = Some sn"
    using read unfolding snapshot_read_def get_range_def n_def body_def by (simp add: Let_def split: if_splits)
  then obtain L' where r: "84 \<le> length b" "SNAP_MAGIC = take 8 b" "length b = 84 + n" "blake3 P body = of_be (take 32 (drop 48 b))"
    and L': "ledger_decode P body = Some L'"
      "sn = \<lparr>sn_height = of_le (take 8 (drop 8 b)), sn_block_id = of_be (take 32 (drop 16 b)), sn_ledger = L'\<rparr>"
    unfolding map_option_eq_Some by blast
  have body: "body = drop 84 b" using r(3) by (simp add: body_def)
  have tail: "k + m = l \<Longrightarrow> take m (drop k b) @ drop l b = drop k b" for k m l
    by (metis append_take_drop_id drop_drop add.commute)
  have t: "take 4 (drop 80 b) @ drop 84 b = drop 80 b" "take 32 (drop 48 b) @ drop 80 b = drop 48 b"
    "take 32 (drop 16 b) @ drop 48 b = drop 16 b" "take 8 (drop 8 b) @ drop 16 b = drop 8 b"
    by (rule tail, simp)+
  have "b = take 8 b @ take 8 (drop 8 b) @ take 32 (drop 16 b) @ take 32 (drop 48 b) @ take 4 (drop 80 b) @ drop 84 b"
    unfolding t append_take_drop_id ..
  then have b: "b = SNAP_MAGIC @ take 8 (drop 8 b) @ take 32 (drop 16 b) @ take 32 (drop 48 b) @ take 4 (drop 80 b) @ body"
    unfolding r(2) body .
  have n1: "length body = n" using r(3) by (simp add: body)
  have n2: "n < 2 ^ 32" unfolding n_def using unat_lt2p [of "of_le (take 4 (drop 80 b)) :: u32"] by simp
  note n = n1 n2
  have "take 4 (drop 80 b) = le_bytes 4 (of_nat (length body) :: u32)" using r(1) unfolding n(1) by (simp add: n_def)
  moreover have "take 8 (drop 8 b) = le_bytes 8 (sn_height sn)" "take 32 (drop 16 b) = be_bytes 32 (sn_block_id sn)"
    "take 32 (drop 48 b) = be_bytes 32 (blake3 P body)" using r(1,4) L'(2) by simp_all
  ultimately have "b = SNAP_MAGIC @ le_bytes 8 (sn_height sn) @ be_bytes 32 (sn_block_id sn) @ be_bytes 32 (blake3 P body)
         @ le_bytes 4 (of_nat (length body) :: u32) @ body"
    using b by argo
  moreover have "ledger_decode P body = Some (sn_ledger sn)" unfolding L'(2) by (simp add: L'(1))
  moreover have "length body < 2 ^ 32" unfolding n(1) by (rule n(2))
  ultimately show "\<exists>body. ledger_decode P body = Some (sn_ledger sn) \<and> length body < 2 ^ 32 \<and>
       b = SNAP_MAGIC @ le_bytes 8 (sn_height sn) @ be_bytes 32 (sn_block_id sn) @ be_bytes 32 (blake3 P body)
         @ le_bytes 4 (of_nat (length body) :: u32) @ body"
    by blast
qed

lemma snapshot_file_exact_witness:
  "map_option (\<lambda>s. (sn_height s, l_next_token_id (sn_ledger s))) (snapshot_read (toy_prims :: (u64, u64, unit) prims)
     (snapshot_write (toy_prims :: (u64, u64, unit) prims) 7 9 ledger_new)) = Some (7, 1)"
proof -
  have "records_wf (ledger_new :: u64 ledger)" by (simp add: records_wf_def ledger_new_def tokens_wf_def token_by_id_def)
  moreover have "snapshot_fits (ledger_new :: u64 ledger)" by (simp add: snapshot_fits_def ledger_new_def fcard_fempty)
  moreover have "length (ledger_encode (toy_prims :: (u64, u64, unit) prims) ledger_new) < 2 ^ 32"
    by (simp add: ledger_encode_def ledger_new_def enc_list_def fm_entries_def sorted_list_of_fset.rep_eq LEDGER_MAGIC_def ascii_def)
  ultimately show ?thesis
    using snapshot_file_exact [OF toy_encoding_laws [where 'a = 64], of ledger_new 7 9, THEN conjunct1] by (simp add: ledger_new_def)
qed

section \<open>The structural rebuild\<close>

definition and_then :: "'f + 'a option \<Rightarrow> ('a \<Rightarrow> 'f + 'b option) \<Rightarrow> 'f + 'b option" where
  "and_then m f = (case m of Inl e \<Rightarrow> Inl e | Inr None \<Rightarrow> Inr None | Inr (Some x) \<Rightarrow> f x)"

definition or_refused :: "'f + 'a option \<Rightarrow> (unit \<Rightarrow> 'f + 'a option) \<Rightarrow> 'f + 'a option" where
  "or_refused m f = (case m of Inr None \<Rightarrow> f () | _ \<Rightarrow> m)"

text \<open>\<^verbatim>\<open>.ok()?\<close>: an error is a refusal; a panic stays one.\<close>

definition refuse :: "fault + 'a \<Rightarrow> fault + 'a option" where
  "refuse m = (case m of Inl (Reject _) \<Rightarrow> Inr None | Inl f \<Rightarrow> Inl f | Inr x \<Rightarrow> Inr (Some x))"

definition done_as :: "'a \<Rightarrow> fault option \<Rightarrow> fault + 'a" where
  "done_as x r = (case r of None \<Rightarrow> Inr x | Some f \<Rightarrow> Inl f)"

fun insert_all ::
  "('g::ab_group_add, 's::comm_ring_1, 'r) host \<Rightarrow> bytes list \<Rightarrow> 'g blockchain \<Rightarrow> fault + 'g blockchain option" where
  "insert_all E [] c = Inr (Some c)"
| "insert_all E (bytes # existing) c =
    and_then (Inr (block_decode (h_prims E) bytes)) (\<lambda>b.
      let (r, c1) = insert_skeleton E b bytes c in
      and_then (refuse (done_as c1 r)) (insert_all E existing))"

fun replay_tail ::
  "('g::ab_group_add, 's::comm_ring_1, 'r) host \<Rightarrow> block_tree \<Rightarrow> id32 list \<Rightarrow> 'g lstate \<Rightarrow> fault + 'g lstate option" where
  "replay_tail E tree [] st = Inr (Some st)"
| "replay_tail E tree (i # ids) st =
    and_then (Inr (fmlookup tree i)) (\<lambda>n.
    and_then (Inr (block_decode (h_prims E) (tn_encoded n))) (\<lambda>b.
    and_then (refuse (map_sum Reject id (check_txs (h_prims E) (blk_txs b)))) (\<lambda>_.
    and_then (refuse (apply_block_state E b st)) (replay_tail E tree ids))))"

definition replay_from_snapshot ::
  "('g::ab_group_add, 's::comm_ring_1, 'r) host \<Rightarrow> u64 \<Rightarrow> id32 \<Rightarrow> 'g lstate \<Rightarrow> bytes list \<Rightarrow>
   (id32 \<times> u64) list \<Rightarrow> (id32 \<times> u64) list \<Rightarrow> u64 \<Rightarrow> fault + 'g blockchain option" where
  "replay_from_snapshot E height block_id state existing premine public_premine difficulty =
    and_then (refuse (genesis_with_public E premine public_premine difficulty)) (\<lambda>c0.
    and_then (insert_all E existing c0) (\<lambda>c.
      if vec_get (bc_active_chain c) (unat height) \<noteq> Some block_id then Inr None
      else and_then (refuse (ledger_root E state)) (\<lambda>(root, st).
        and_then (Inr (fmlookup (bc_tree c) block_id)) (\<lambda>n.
          if root \<noteq> bh_state_root (tn_header n) then Inr None
          else and_then (replay_tail E (bc_tree c) (drop (unat height + 1) (bc_active_chain c)) st) (\<lambda>st'.
            Inr (Some (c\<lparr>bc_active_state := st'\<rparr>)))))))"

section \<open>Opening a database\<close>

definition STATE_ANCHOR :: bytes where "STATE_ANCHOR = ascii ''state/anchor''"
definition FINALITY_ANCHOR :: bytes where "FINALITY_ANCHOR = ascii ''finality/anchor''"

definition anchor_bytes :: "u64 \<Rightarrow> id32 \<Rightarrow> bytes" where
  "anchor_bytes height block_id = le_bytes 8 height @ be_bytes 32 block_id"

definition boot_from_records ::
  "('g::ab_group_add, 's::comm_ring_1, 'r) host \<Rightarrow> mem_store \<Rightarrow> bytes list \<Rightarrow>
   (id32 \<times> u64) list \<Rightarrow> (id32 \<times> u64) list \<Rightarrow> u64 \<Rightarrow> fault + 'g blockchain option" where
  "boot_from_records E kv existing premine public_premine difficulty =
    and_then (Inr (mem_get kv ColMeta STATE_ANCHOR)) (\<lambda>anchor.
      if length anchor \<noteq> 40 then Inr None
      else and_then (Inr (from_records (h_prims E) mem_get mem_scan kv)) (\<lambda>L.
        replay_from_snapshot E (of_le (take 8 anchor)) (of_be (drop 8 anchor)) (L, empty_root (h_prims E), kv)
          existing premine public_premine difficulty))"

datatype boot_error =
    CorruptBlock
  | InvalidBlock chain_error
  | BootFault fault

fun replay_log ::
  "('g::ab_group_add, 's::comm_ring_1, 'r) host \<Rightarrow> bytes list \<Rightarrow> 'g blockchain \<Rightarrow> boot_error + 'g blockchain" where
  "replay_log E [] c = Inr c"
| "replay_log E (bytes # existing) c = (case block_decode (h_prims E) bytes of
     None \<Rightarrow> Inl CorruptBlock
   | Some b \<Rightarrow> (case apply_block E b c of
         (None, c1) \<Rightarrow> replay_log E existing c1
       | (Some (Reject e), _) \<Rightarrow> Inl (InvalidBlock e)
       | (Some f, _) \<Rightarrow> Inl (BootFault f)))"

definition restore_finality_anchor :: "mem_store \<Rightarrow> 'g blockchain \<Rightarrow> 'g blockchain" where
  "restore_finality_anchor kv c = (case mem_get kv ColMeta FINALITY_ANCHOR of
       None \<Rightarrow> c
     | Some bytes \<Rightarrow> (case (get_range bytes 0 8, get_range bytes 8 40) of
           (Some h, Some i) \<Rightarrow>
             if vec_get (bc_active_chain c) (unat (of_le h :: u64)) = Some (of_be i)
             then c\<lparr>bc_finalized := Some (of_le h, of_be i)\<rparr> else c
         | _ \<Rightarrow> c))"

definition open_with_public ::
  "('g::ab_group_add, 's::comm_ring_1, 'r) host \<Rightarrow> mem_store \<Rightarrow> bytes option \<Rightarrow>
   (id32 \<times> u64) list \<Rightarrow> (id32 \<times> u64) list \<Rightarrow> u64 \<Rightarrow> boot_error + 'g blockchain" where
  "open_with_public E kv snap_file premine public_premine difficulty =
    (let block_store = cs_new mem_get kv;
         existing = blocks_in_order mem_scan block_store;
         fast = or_refused (boot_from_records E kv existing premine public_premine difficulty) (\<lambda>_.
           and_then (Inr (Option.bind snap_file (snapshot_read (h_prims E)))) (\<lambda>sn.
             replay_from_snapshot E (sn_height sn) (sn_block_id sn) (sn_ledger sn, empty_root (h_prims E), mem_new)
               existing premine public_premine difficulty));
         booted = (case fast of
             Inl f \<Rightarrow> Inl (BootFault f)
           | Inr (Some c) \<Rightarrow> Inr c
           | Inr None \<Rightarrow> (case genesis_with_public E premine public_premine difficulty of
                 Inl f \<Rightarrow> Inl (BootFault f)
               | Inr c0 \<Rightarrow> replay_log E existing c0))
     in map_sum id (\<lambda>c. restore_finality_anchor kv (note_validator_set (c\<lparr>bc_store := Some block_store, bc_recent_sets := []\<rparr>))) booted)"

definition open_chain ::
  "('g::ab_group_add, 's::comm_ring_1, 'r) host \<Rightarrow> mem_store \<Rightarrow> bytes option \<Rightarrow> (id32 \<times> u64) list \<Rightarrow> u64 \<Rightarrow>
   boot_error + 'g blockchain" where
  "open_chain E kv snap_file premine difficulty = open_with_public E kv snap_file premine [] difficulty"

section \<open>Fast sync\<close>

definition state_sync_payload :: "('g, 's, 'r) prims \<Rightarrow> 'g blockchain \<Rightarrow> (u64 \<times> id32 \<times> (bytes \<times> bytes) list) option" where
  "state_sync_payload P c = (if bc_active_height c = 0 then None
     else Some (bc_active_height c, bc_active_tip c, object_records P (fst (bc_active_state c))))"

fun persist_all ::
  "('g::ab_group_add, 's::comm_ring_1, 'r) host \<Rightarrow> bytes list \<Rightarrow> 'g blockchain \<Rightarrow> bool \<times> 'g blockchain" where
  "persist_all E [] c = (True, c)"
| "persist_all E (bytes # blocks) c = (case block_decode (h_prims E) bytes of
     None \<Rightarrow> (False, c)
   | Some b \<Rightarrow> persist_all E blocks (persist E b bytes c))"

definition fast_sync_adopt ::
  "('g::ab_group_add, 's::comm_ring_1, 'r) host \<Rightarrow> bytes list \<Rightarrow> u64 \<Rightarrow> id32 \<Rightarrow> (bytes \<times> bytes) list \<Rightarrow> 'g blockchain \<Rightarrow>
   (fault + bool) \<times> 'g blockchain" where
  "fast_sync_adopt E blocks anchor_height anchor_id records c =
    (if bc_active_height c \<noteq> 0 \<or> anchor_height = 0 \<or> records = [] then (Inr False, c)
     else
       let P = h_prims E; base = mem_write mem_new (map (\<lambda>(k, v). (ColObjects, k, Some v)) records) in
       case from_records P mem_get mem_scan base of
         None \<Rightarrow> (Inr False, c)
       | Some L \<Rightarrow> (case fmlookup (bc_tree c) (bc_genesis_id c) of
             None \<Rightarrow> (Inl Crash, c)
           | Some g \<Rightarrow> (case replay_from_snapshot E anchor_height anchor_id (L, empty_root P, base) blocks
                 (bc_premine c) (bc_public_premine c) (tn_child_difficulty g) of
               Inl f \<Rightarrow> (Inl f, c)
             | Inr None \<Rightarrow> (Inr False, c)
             | Inr (Some built) \<Rightarrow>
                 if bc_genesis_id built \<noteq> bc_genesis_id c then (Inr False, c)
                 else (case persist_all E blocks c of
                     (False, c1) \<Rightarrow> (Inr False, c1)
                   | (True, c1) \<Rightarrow> (Inr True, note_validator_set (c1\<lparr>bc_tree := bc_tree built, bc_active_tip := bc_active_tip built,
                       bc_active_height := bc_active_height built, bc_active_chain := bc_active_chain built,
                       bc_active_state := bc_active_state built, bc_recent_sets := []\<rparr>))))))"

section \<open>The skeleton lands where acceptance did\<close>

lemma and_then_simps [simp]:
  "and_then (Inl e) f = Inl e" "and_then (Inr None) f = Inr None" "and_then (Inr (Some x)) f = f x"
  by (simp_all add: and_then_def)

lemma and_then_Some: "and_then m f = Inr (Some y) \<longleftrightarrow> (\<exists>x. m = Inr (Some x) \<and> f x = Inr (Some y))"
  by (auto simp: and_then_def split: sum.splits option.splits)

lemma refuse_Some [simp]: "refuse m = Inr (Some x) \<longleftrightarrow> m = Inr x"
  by (auto simp: refuse_def split: sum.splits fault.splits)

lemma refuse_Inr [simp]: "refuse (Inr x) = Inr (Some x)"
  by (simp add: refuse_def)

lemma done_as_Inr [simp]: "done_as x r = Inr y \<longleftrightarrow> r = None \<and> y = x" "done_as x None = Inr x"
  by (auto simp: done_as_def split: option.splits)

definition same_shape :: "'g blockchain \<Rightarrow> 'g blockchain \<Rightarrow> bool" where
  "same_shape c d \<longleftrightarrow> bc_tree d = bc_tree c \<and> bc_genesis_id d = bc_genesis_id c \<and> bc_active_tip d = bc_active_tip c \<and>
     bc_active_height d = bc_active_height c \<and> bc_active_chain d = bc_active_chain c"

lemma insert_skeleton_shape:
  assumes "apply_block E b c = (None, c')" and "same_shape c d" and "bc_finalized c = None"
  shows "\<exists>d'. insert_skeleton E b (block_encode (h_prims E) b) d = (None, d') \<and> same_shape c' d' \<and> bc_finalized c' = None"
proof -
  let ?P = "h_prims E" and ?i = "header_id (h_prims E) (blk_header b)"
  have d: "bc_tree d = bc_tree c" "bc_genesis_id d = bc_genesis_id c" "bc_active_tip d = bc_active_tip c"
    "bc_active_height d = bc_active_height c" "bc_active_chain d = bc_active_chain c"
    using assms(2) by (simp_all add: same_shape_def)
  show ?thesis
  proof (cases "known (bc_tree c) ?i")
    case True
    then show ?thesis using assms by (auto simp: apply_block_def insert_skeleton_def d Let_def)
  next
    case False
    then obtain p t where link: "check_link ?P (bc_tree c) b = Inr p" and t: "fmlookup (bc_tree c) (bc_active_tip c) = Some t"
      and txs: "check_txs ?P (blk_txs b) = Inr ()"
      using assms(1) by (auto simp: apply_block_def Let_def split: sum.splits option.splits)
    let ?n = "child_node p (blk_header b) (block_encode ?P b)"
    show ?thesis
    proof (cases "bh_prev_hash (blk_header b) = bc_active_tip c")
      case True
      then obtain st where "maybe_prune E (note_validator_set ((persist E b (tn_encoded ?n) c)\<lparr>bc_tree := fmupd ?i ?n (bc_tree c),
          bc_active_state := st, bc_active_tip := ?i, bc_active_height := bh_height (blk_header b),
          bc_active_chain := bc_active_chain c @ [?i]\<rparr>)) = (None, c')"
        using assms(1) False link txs t by (auto simp: apply_block_def Let_def extend_tip_def split: sum.splits)
      from maybe_prune_frame [OF this] show ?thesis
        using False link t True by (simp add: insert_skeleton_def d Let_def same_shape_def assms(3))
    next
      case branch: False
      let ?c1 = "c\<lparr>bc_tree := fmupd ?i ?n (bc_tree c)\<rparr>"
      show ?thesis
      proof (cases "tn_cum_work ?n > tn_cum_work t")
        case True
        then obtain path st where path: "path_to ?c1 ?i = Some path" and "maybe_prune E (note_validator_set
            ((persist E b (tn_encoded ?n) ?c1)\<lparr>bc_active_state := st, bc_active_tip := ?i,
             bc_active_height := bh_height (blk_header b), bc_active_chain := path, bc_recent_sets := []\<rparr>)) = (None, c')"
          using assms(1,3) False link txs t branch
          by (auto simp: apply_block_def Let_def switch_branch_def split: sum.splits option.splits)
        from maybe_prune_frame [OF this(2)] show ?thesis
          using False link t True branch path by (simp add: insert_skeleton_def d Let_def same_shape_def assms(3) path_to_def)
      next
        case light: False
        then have "c' = (persist E b (tn_encoded ?n) c)\<lparr>bc_tree := fmupd ?i ?n (bc_tree c)\<rparr>"
          using assms(1) False link txs t branch by (simp add: apply_block_def Let_def)
        then show ?thesis
          using False link t light branch by (simp add: insert_skeleton_def d Let_def same_shape_def assms(3))
      qed
    qed
  qed
qed

lemma replay_log_shape:
  assumes "encoding_laws (h_prims E)"
  shows "replay_log E existing c = Inr c' \<Longrightarrow> same_shape c d \<Longrightarrow> bc_finalized c = None \<Longrightarrow>
    \<exists>d'. insert_all E existing d = Inr (Some d') \<and> same_shape c' d'"
proof (induction existing arbitrary: c d)
  case (Cons bytes existing)
  from Cons.prems(1) obtain b c1 where b: "block_decode (h_prims E) bytes = Some b" and a: "apply_block E b c = (None, c1)"
    and r: "replay_log E existing c1 = Inr c'" by (auto split: option.splits prod.splits fault.splits)
  have "bytes = block_encode (h_prims E) b" using b by (simp add: block_decode_iff [OF assms])
  then obtain d1 where d1: "insert_skeleton E b bytes d = (None, d1)" "same_shape c1 d1" "bc_finalized c1 = None"
    using insert_skeleton_shape [OF a Cons.prems(2,3)] by blast
  from Cons.IH [OF r d1(2,3)] b d1(1) show ?case by simp
qed simp

section \<open>The skeleton is a chain\<close>

definition skeleton_ok :: "('g, 's, 'r) host \<Rightarrow> 'g blockchain \<Rightarrow> bool" where
  "skeleton_ok E c \<longleftrightarrow> spine (bc_tree c) (bc_genesis_id c) (bc_active_tip c) (bc_active_height c) (bc_active_chain c) None \<and>
     bc_finalized c = None \<and> tree_stored (h_prims E) (bc_tree c) (bc_genesis_id c)"

lemma insert_skeleton_ok:
  assumes P: "encoding_laws (h_prims E)" and c: "skeleton_ok E c" and "small c"
    and b: "block_decode (h_prims E) bytes = Some b" and i: "insert_skeleton E b bytes c = (None, c')"
  shows "skeleton_ok E c'" and "fcard (fmdom (bc_tree c')) \<le> Suc (fcard (fmdom (bc_tree c)))"
    and "bc_genesis_id c' = bc_genesis_id c"
proof -
  let ?P = "h_prims E" and ?T = "bc_tree c" and ?i = "header_id (h_prims E) (blk_header b)"
  have wf: "block_wf ?P b" and bytes: "bytes = block_encode ?P b" using b by (simp_all add: block_decode_iff [OF P])
  have spine: "spine ?T (bc_genesis_id c) (bc_active_tip c) (bc_active_height c) (bc_active_chain c) None" and fin: "bc_finalized c = None" and st: "tree_stored ?P ?T (bc_genesis_id c)"
    using c by (simp_all add: skeleton_ok_def)
  have ok: "tree_ok ?T (bc_genesis_id c)" using spine by (rule spine_tree)
  have none: "\<not> shut_out T None j" for T j by (simp add: shut_out_def)
  have "skeleton_ok E c' \<and> fcard (fmdom (bc_tree c')) \<le> Suc (fcard (fmdom ?T)) \<and> bc_genesis_id c' = bc_genesis_id c"
  proof (cases "known ?T ?i")
    case True
    then show ?thesis using i c by (simp add: insert_skeleton_def Let_def)
  next
    case new: False
    then obtain p t where link: "check_link ?P ?T b = Inr p" and t: "fmlookup ?T (bc_active_tip c) = Some t"
      using i by (auto simp: insert_skeleton_def Let_def split: sum.splits option.splits)
    let ?n = "new_node ?P p b" and ?T' = "fmupd ?i (new_node (h_prims E) p b) (bc_tree c)"
    have a: "adds ?T ?i ?n" and prev: "fmlookup ?T (bh_prev_hash (blk_header b)) = Some p"
      unfolding new_node_def using check_link_adds [OF link ok _ new] assms(3) by (simp_all add: small_def)
    have n: "child_node p (blk_header b) bytes = ?n" "tn_header ?n = blk_header b" "tn_height ?n = bh_height (blk_header b)"
      by (simp_all add: new_node_def bytes)
    have stored: "tree_stored ?P ?T' (bc_genesis_id c)" by (rule tree_stored_upd [OF st new wf])
    have card: "fcard (fmdom ?T') \<le> Suc (fcard (fmdom ?T))" using new by (simp add: fcard_finsert_disjoint)
    have path: "path_to (c\<lparr>bc_tree := ?T'\<rparr>) ?i = Some (branch_to ?T' ?i)" by (rule path_to_new [OF ok a])
    have w: "work_of ?T (bc_active_tip c) = unat (tn_cum_work t)" "work_of ?T' ?i = unat (tn_cum_work ?n)"
      using t by (simp_all add: work_of_def)
    consider (tip) "bh_prev_hash (blk_header b) = bc_active_tip c"
        "c' = c\<lparr>bc_tree := ?T', bc_active_tip := ?i, bc_active_height := bh_height (blk_header b),
           bc_active_chain := bc_active_chain c @ [?i]\<rparr>"
      | (heavier) "tn_cum_work ?n > tn_cum_work t" "c' = c\<lparr>bc_tree := ?T', bc_active_chain := branch_to ?T' ?i,
           bc_active_tip := ?i, bc_active_height := bh_height (blk_header b)\<rparr>"
      | (aside) "\<not> tn_cum_work ?n > tn_cum_work t" "c' = c\<lparr>bc_tree := ?T'\<rparr>"
      using i new link t path by (auto simp: insert_skeleton_def Let_def n split: if_splits)
    then show ?thesis
    proof cases
      case tip
      have "work_of ?T (bc_active_tip c) < work_of ?T' ?i"
        using child_work(1) [OF ok prev, of bytes] child_work(2) [OF ok prev] assms(3) tip(1) by (simp add: w(2) small_def n)
      then have "spine ?T' (bc_genesis_id c) ?i (tn_height ?n) (branch_to ?T' ?i) None"
        by (intro spine_switch [OF spine a _ none]) simp
      then show ?thesis
        using tip stored card extend_branch(1) [OF spine a] by (simp add: skeleton_ok_def n fin)
    next
      case heavier
      then have "work_of ?T (bc_active_tip c) \<le> work_of ?T' ?i" by (simp add: w word_less_nat_alt)
      from spine_switch [OF spine a this none] heavier(2) stored card show ?thesis by (simp add: skeleton_ok_def n fin)
    next
      case aside
      then have "work_of ?T' ?i \<le> work_of ?T (bc_active_tip c)" by (simp add: w word_less_nat_alt)
      from spine_side [OF spine a disjI1 [OF this]] aside(2) stored card show ?thesis by (simp add: skeleton_ok_def fin)
    qed
  qed
  then show "skeleton_ok E c'" "fcard (fmdom (bc_tree c')) \<le> Suc (fcard (fmdom (bc_tree c)))" "bc_genesis_id c' = bc_genesis_id c"
    by simp_all
qed

lemma insert_all_ok:
  assumes "encoding_laws (h_prims E)"
  shows "insert_all E existing c = Inr (Some c') \<Longrightarrow> skeleton_ok E c \<Longrightarrow>
    fcard (fmdom (bc_tree c)) + length existing < 2 ^ 64 \<Longrightarrow> skeleton_ok E c'"
proof (induction existing arbitrary: c)
  case (Cons bytes existing)
  from Cons.prems(1) obtain b where b: "block_decode (h_prims E) bytes = Some b"
    by (auto simp: and_then_Some)
  then obtain c1 where i: "insert_skeleton E b bytes c = (None, c1)" and r: "insert_all E existing c1 = Inr (Some c')"
    using Cons.prems(1) by (cases "insert_skeleton E b bytes c") (auto simp: and_then_Some)
  have "small c" using Cons.prems(3) by (simp add: small_def)
  note ok = insert_skeleton_ok [OF assms Cons.prems(2) this b i]
  have "fcard (fmdom (bc_tree c1)) + length existing < 2 ^ 64" using ok(2) Cons.prems(3) by simp
  from Cons.IH [OF r ok(1) this] show ?case .
qed simp

lemma genesis_skeleton:
  assumes "genesis_with_public E premine public_premine d = Inr c"
  shows "skeleton_ok E c" and "fcard (fmdom (bc_tree c)) = 1"
proof -
  show "skeleton_ok E c"
    using genesis_spine(1,3) [OF assms] genesis_replayed [OF assms] by (simp add: skeleton_ok_def replayed_def)
  show "fcard (fmdom (bc_tree c)) = 1" using assms by (auto elim!: genesis_shape simp: fcard.rep_eq)
qed

lemma replay_tail_ledger:
  assumes "encoding_laws (h_prims E)" and "tree_stored (h_prims E) T g"
  shows "replay_tail E T ids (L, root, s) = Inr (Some st) \<Longrightarrow> g \<notin> set ids \<Longrightarrow> l_dirty L = {||} \<Longrightarrow>
    \<exists>bs. list_all2 (stored (h_prims E) T) ids bs \<and> replay_ledger (h_prims E) bs L = Some (fst st) \<and> l_dirty (fst st) = {||} \<and>
      fst (snd st) = last (root # map (\<lambda>b. bh_state_root (blk_header b)) bs)"
proof (induction ids arbitrary: L root s)
  case (Cons i ids)
  let ?P = "h_prims E"
  obtain n b st1 where n: "fmlookup T i = Some n" and b: "block_decode ?P (tn_encoded n) = Some b"
    and a: "apply_block_state E b (L, root, s) = Inr st1" and r: "replay_tail E T ids st1 = Inr (Some st)"
    using Cons.prems by (auto simp: and_then_Some)
  obtain b' where b': "stored ?P T i b'" using assms(2) n Cons.prems(2) by (auto simp: tree_stored_def dest: fmdomI)
  then have "block_decode ?P (tn_encoded n) = Some b'"
    using n by (auto simp: stored_def block_decode_iff [OF assms(1)])
  then have st: "stored ?P T i b" using b b' by simp
  obtain L1 s1 where 1: "st1 = (L1, bh_state_root (blk_header b), s1)" "block_ledger ?P b L = Some L1" "l_dirty L1 = {||}"
    using a by (rule apply_block_state_ledger)
  have "g \<notin> set ids" using Cons.prems(2) by simp
  from Cons.IH [OF r [unfolded 1(1)] this 1(3)]
  obtain bs where "list_all2 (stored ?P T) ids bs" "replay_ledger ?P bs L1 = Some (fst st)" "l_dirty (fst st) = {||}"
    "fst (snd st) = last (bh_state_root (blk_header b) # map (\<lambda>b. bh_state_root (blk_header b)) bs)" by blast
  then show ?case using st 1(2) by (intro exI [of _ "b # bs"]) simp
qed auto

lemma skeleton_ok_shape: "skeleton_ok E c \<Longrightarrow> same_shape c d \<Longrightarrow> bc_finalized d = None \<Longrightarrow> skeleton_ok E d"
  by (simp add: skeleton_ok_def same_shape_def)

lemma same_shape_sym: "same_shape c d \<Longrightarrow> same_shape d c"
  by (simp add: same_shape_def)

lemma replay_log_run:
  assumes "encoding_laws (h_prims E)"
  shows "replay_log E existing c = Inr c' \<Longrightarrow> chain_run E c \<Longrightarrow> skeleton_ok E c \<Longrightarrow>
    fcard (fmdom (bc_tree c)) + length existing < 2 ^ 64 \<Longrightarrow> chain_run E c'"
proof (induction existing arbitrary: c)
  case (Cons bytes existing)
  from Cons.prems(1) obtain b c1 where b: "block_decode (h_prims E) bytes = Some b" and a: "apply_block E b c = (None, c1)"
    and r: "replay_log E existing c1 = Inr c'" by (auto split: option.splits prod.splits fault.splits)
  have wf: "block_wf (h_prims E) b" and e: "bytes = block_encode (h_prims E) b" using b by (simp_all add: block_decode_iff [OF assms])
  have small: "small c" using Cons.prems(4) by (simp add: small_def)
  have "bc_finalized c = None" "same_shape c c" using Cons.prems(3) by (simp_all add: skeleton_ok_def same_shape_def)
  then obtain d where d: "insert_skeleton E b bytes c = (None, d)" "same_shape c1 d" "bc_finalized c1 = None"
    using insert_skeleton_shape [OF a] unfolding e by blast
  note ok = insert_skeleton_ok [OF assms Cons.prems(3) small b d(1)]
  have "chain_run E c1" by (rule chain_run_step [OF Cons.prems(2) step_block [OF small wf a]]) simp
  moreover have "skeleton_ok E c1" by (rule skeleton_ok_shape [OF ok(1) same_shape_sym [OF d(2)] d(3)])
  moreover have "fcard (fmdom (bc_tree c1)) + length existing < 2 ^ 64" using ok(2) d(2) Cons.prems(4) by (simp add: same_shape_def)
  ultimately show ?case by (rule Cons.IH [OF r])
qed simp

lemma skeleton_path:
  assumes "skeleton_ok E c"
  shows "bc_active_chain c \<noteq> []" "last (bc_active_chain c) = bc_active_tip c" "hd (bc_active_chain c) = bc_genesis_id c"
    "distinct (bc_active_chain c)" "length (bc_active_chain c) = Suc (unat (bc_active_height c))"
    "path_to c (bc_active_tip c) = Some (bc_active_chain c)"
proof -
  have ok: "tree_ok (bc_tree c) (bc_genesis_id c)" and tip: "known (bc_tree c) (bc_active_tip c)"
    and ch: "bc_active_chain c = branch_to (bc_tree c) (bc_active_tip c)" and h: "unat (bc_active_height c) = height_of (bc_tree c) (bc_active_tip c)"
    using assms by (simp_all add: skeleton_ok_def spine_def)
  show "last (bc_active_chain c) = bc_active_tip c" "hd (bc_active_chain c) = bc_genesis_id c" "distinct (bc_active_chain c)"
    and len: "length (bc_active_chain c) = Suc (unat (bc_active_height c))"
    using branch_to_props [OF ok tip] branch_distinct [OF ok tip] by (simp_all add: ch h)
  then show "bc_active_chain c \<noteq> []" by auto
  show "path_to c (bc_active_tip c) = Some (bc_active_chain c)"
    using path_loop_branch [OF ok tip refl, of "[]"] by (simp add: path_to_def ch)
qed

text \<open>What a boot from a verified state has established.\<close>

lemma replay_from_snapshot_verified:
  assumes P: "encoding_laws (h_prims E)" and len: "length existing < 2 ^ 64 - 1"
    and r: "replay_from_snapshot E h i (L, root, s) existing premine public_premine d = Inr (Some c)"
  obtains n st bs t where "skeleton_ok E c" and "vec_get (bc_active_chain c) (unat h) = Some i"
    and "fmlookup (bc_tree c) i = Some n" and "ledger_root E (L, root, s) = Inr (bh_state_root (tn_header n), st)"
    and "list_all2 (stored (h_prims E) (bc_tree c)) (drop (unat h + 1) (bc_active_chain c)) bs"
    and "replay_ledger (h_prims E) bs (L\<lparr>l_dirty := {||}\<rparr>) = Some (fst (bc_active_state c))"
    and "l_dirty (fst (bc_active_state c)) = {||}"
    and "fmlookup (bc_tree c) (bc_active_tip c) = Some t" and "fst (snd (bc_active_state c)) = bh_state_root (tn_header t)"
proof -
  let ?P = "h_prims E"
  obtain c0 c1 n st where g: "genesis_with_public E premine public_premine d = Inr c0" and ia: "insert_all E existing c0 = Inr (Some c1)"
    and at: "vec_get (bc_active_chain c1) (unat h) = Some i" and n: "fmlookup (bc_tree c1) i = Some n"
    and lr: "ledger_root E (L, root, s) = Inr (bh_state_root (tn_header n), st)"
    and tail: "\<exists>st'. replay_tail E (bc_tree c1) (drop (unat h + 1) (bc_active_chain c1)) st = Inr (Some st') \<and> c = c1\<lparr>bc_active_state := st'\<rparr>"
    using r by (auto simp: replay_from_snapshot_def and_then_Some split: if_splits)
  then obtain st' where tail: "replay_tail E (bc_tree c1) (drop (unat h + 1) (bc_active_chain c1)) st = Inr (Some st')"
    and c: "c = c1\<lparr>bc_active_state := st'\<rparr>" by blast
  have ok1: "skeleton_ok E c1"
    by (rule insert_all_ok [OF P ia genesis_skeleton(1) [OF g]]) (use len genesis_skeleton(2) [OF g] in simp)
  then have ok: "skeleton_ok E c" by (simp add: skeleton_ok_def c)
  note path = skeleton_path [OF ok1]
  obtain s1 where st: "st = (L\<lparr>l_dirty := {||}\<rparr>, bh_state_root (tn_header n), s1)" using lr by (rule ledger_root_Inr)
  let ?tail = "drop (unat h + 1) (bc_active_chain c1)"
  have g_out: "bc_genesis_id c1 \<notin> set ?tail"
    using path(1,3,4) by (cases "bc_active_chain c1") (auto dest: in_set_dropD)
  have ts: "tree_stored ?P (bc_tree c1) (bc_genesis_id c1)" using ok1 by (simp add: skeleton_ok_def)
  obtain bs where bs: "list_all2 (stored ?P (bc_tree c1)) ?tail bs" "replay_ledger ?P bs (L\<lparr>l_dirty := {||}\<rparr>) = Some (fst st')"
    "l_dirty (fst st') = {||}" "fst (snd st') = last (bh_state_root (tn_header n) # map (\<lambda>b. bh_state_root (blk_header b)) bs)"
    using replay_tail_ledger [OF P ts tail [unfolded st] g_out] by auto
  obtain t where t: "fmlookup (bc_tree c1) (bc_active_tip c1) = Some t"
    using ok1 by (auto simp: skeleton_ok_def spine_def elim: knownE)
  have "fst (snd st') = bh_state_root (tn_header t)"
  proof (cases "?tail = []")
    case True
    then have "unat h = unat (bc_active_height c1)" using at path(5) by (auto simp: vec_get_def split: if_splits)
    then have "i = bc_active_tip c1"
      using at path(1,2,5) by (auto simp: vec_get_def last_conv_nth split: if_splits)
    then show ?thesis using bs True n t by simp
  next
    case False
    then have "bs \<noteq> []" "last ?tail = bc_active_tip c1" using bs(1) path(2) by (auto simp: last_drop)
    moreover have "stored ?P (bc_tree c1) (last ?tail) (last bs)"
      using bs(1) False \<open>bs \<noteq> []\<close> by (auto simp: list_all2_conv_all_nth last_conv_nth)
    ultimately show ?thesis using bs(4) t by (auto simp: stored_def last_map)
  qed
  with ok at n lr bs t show thesis by (intro that [of n st bs t]) (simp_all add: c)
qed

lemma boot_agrees:
  assumes P: "encoding_laws (h_prims E)" and len: "length existing < 2 ^ 64 - 1"
    and g: "genesis_with_public E premine public_premine d = Inr c0" and full: "replay_log E existing c0 = Inr c"
  shows "(\<forall>h i st c'. replay_from_snapshot E h i st existing premine public_premine d = Inr (Some c') \<longrightarrow>
      bc_tree c' = bc_tree c \<and> bc_active_tip c' = bc_active_tip c \<and> bc_active_height c' = bc_active_height c \<and>
      bc_active_chain c' = bc_active_chain c \<and> fst (snd (bc_active_state c')) = fst (snd (bc_active_state c))) \<and>
    (\<forall>st st'. ledger_root E st = Inr (fst (snd (bc_active_state c)), st') \<longrightarrow> (\<exists>c'.
      replay_from_snapshot E (bc_active_height c) (bc_active_tip c) st existing premine public_premine d = Inr (Some c') \<and>
      bc_genesis_id c' = bc_genesis_id c \<and> bc_active_chain c' = bc_active_chain c \<and> bc_active_state c' = st'))"
proof -
  note gs = genesis_skeleton [OF g]
  have run: "chain_run E c"
    by (rule replay_log_run [OF P full _ gs(1)]) (use g len gs(2) in \<open>auto simp: chain_run_def\<close>)
  obtain t where t: "fmlookup (bc_tree c) (bc_active_tip c) = Some t" "fst (snd (bc_active_state c)) = bh_state_root (tn_header t)"
    using chain_run_replayed [OF P run] unfolding replayed_def by blast
  have "same_shape c0 c0" "bc_finalized c0 = None" using gs(1) by (simp_all add: skeleton_ok_def same_shape_def)
  then obtain d1 where d1: "insert_all E existing c0 = Inr (Some d1)" "same_shape c d1"
    using replay_log_shape [OF P full] by blast
  have ok: "skeleton_ok E d1" by (rule insert_all_ok [OF P d1(1) gs(1)]) (use len gs(2) in simp)
  note shape = d1(2) [unfolded same_shape_def]
  show ?thesis
  proof (intro conjI allI impI)
    fix h i c' and st :: "'a lstate"
    assume r: "replay_from_snapshot E h i st existing premine public_premine d = Inr (Some c')"
    obtain L root s where st: "st = (L, root, s)" by (cases st)
    have c': "bc_tree c' = bc_tree c" "bc_active_tip c' = bc_active_tip c" "bc_active_height c' = bc_active_height c"
      "bc_active_chain c' = bc_active_chain c"
      using r shape by (auto simp: replay_from_snapshot_def and_then_Some g d1(1) split: if_splits)
    then show "bc_tree c' = bc_tree c" "bc_active_tip c' = bc_active_tip c" "bc_active_height c' = bc_active_height c"
      "bc_active_chain c' = bc_active_chain c" by simp_all
    from P len r [unfolded st] show "fst (snd (bc_active_state c')) = fst (snd (bc_active_state c))"
      by (rule replay_from_snapshot_verified) (use c' t in simp)
  next
    fix st st' :: "'a lstate"
    assume lr: "ledger_root E st = Inr (fst (snd (bc_active_state c)), st')"
    have at: "vec_get (bc_active_chain d1) (unat (bc_active_height c)) = Some (bc_active_tip c)"
      using skeleton_path [OF ok] shape by (simp add: vec_get_def last_conv_nth)
    have "drop (unat (bc_active_height c) + 1) (bc_active_chain d1) = []"
      using skeleton_path(5) [OF ok] shape by simp
    then show "\<exists>c'. replay_from_snapshot E (bc_active_height c) (bc_active_tip c) st existing premine public_premine d = Inr (Some c') \<and>
      bc_genesis_id c' = bc_genesis_id c \<and> bc_active_chain c' = bc_active_chain c \<and> bc_active_state c' = st'"
      using at t shape by (simp add: replay_from_snapshot_def g d1(1) lr)
  qed
qed

text \<open>
  C33: every way to boot gives the same chain. When the block log replays in full, the boot from a snapshot or from records
  can only arrive at the same tree, the same active chain and the same state root; and it does arrive there
  with any state whose recomputed root is the one committed by the tip.
\<close>

theorem boot_paths_agree:
  assumes P: "encoding_laws (h_prims E)" and len: "length existing < 2 ^ 64 - 1"
    and g: "genesis_with_public E premine public_premine d = Inr c0" and full: "replay_log E existing c0 = Inr c"
  shows "(\<forall>h i st c'. replay_from_snapshot E h i st existing premine public_premine d = Inr (Some c') \<longrightarrow>
      bc_tree c' = bc_tree c \<and> bc_active_tip c' = bc_active_tip c \<and> bc_active_height c' = bc_active_height c \<and>
      bc_active_chain c' = bc_active_chain c \<and> fst (snd (bc_active_state c')) = fst (snd (bc_active_state c))) \<and>
    (\<forall>st st'. ledger_root E st = Inr (fst (snd (bc_active_state c)), st') \<longrightarrow> (\<exists>c'.
      replay_from_snapshot E (bc_active_height c) (bc_active_tip c) st existing premine public_premine d = Inr (Some c') \<and>
      bc_genesis_id c' = bc_genesis_id c \<and> bc_active_chain c' = bc_active_chain c \<and> bc_active_state c' = st'))"
  using assms by (rule boot_agrees)

lemma flat_log:
  obtains c0 c where "genesis_with_public flat_host [] flat_premine 1 = Inr c0"
    and "replay_log flat_host [block_encode flat_prims stake_block] c0 = Inr c" and "bc_active_chain c = [1, 2]"
    and "bc_active_tip c = 2" and "bc_active_height c = 1" and "bc_genesis_id c = 1" and "fst (snd (bc_active_state c)) = 0"
    and "bc_active_height c0 = 0" and "bc_genesis_id c0 = 1" and "bc_premine c0 = []" and "bc_public_premine c0 = flat_premine"
    and "\<exists>g. fmlookup (bc_tree c0) 1 = Some g \<and> tn_child_difficulty g = 1" and "bc_store c0 = None"
proof (rule flat_genesis)
  fix c0
  assume c0: "genesis_with_public flat_host [] flat_premine 1 = Inr c0" "fmdom (bc_tree c0) = {|1|}"
    "\<exists>n. fmlookup (bc_tree c0) 1 = Some n \<and> tn_height n = 0 \<and> tn_child_difficulty n = 1 \<and> tn_cum_work n = 0"
    "\<exists>s. bc_active_state c0 = (flat_first\<lparr>l_dirty := {||}\<rparr>, 0, s)" "bc_active_tip c0 = 1" "bc_active_height c0 = 0"
    "bc_active_chain c0 = [1]" "bc_finalized c0 = None" "bc_store c0 = None" "bc_prune_window c0 = None"
    "bc_recent_sets c0 = [(0, [])]" "bc_genesis_id c0 = 1"
  obtain n s where n: "fmlookup (bc_tree c0) 1 = Some n" "tn_height n = 0" "tn_child_difficulty n = 1" "tn_cum_work n = 0"
    and s: "bc_active_state c0 = (flat_first\<lparr>l_dirty := {||}\<rparr>, 0, s)" using c0(3,4) by blast
  obtain c where c: "apply_block flat_host stake_block c0 = (None, c)" "bc_active_chain c = [1, 2]" "bc_active_height c = 1"
    "bc_finalized c = None" "apply_block_state flat_host stake_block (bc_active_state c0) = Inr (bc_active_state c)"
    by (rule flat_block [OF c0(1,2) n s c0(5-)])
  have wf: "block_wf flat_prims stake_block" by (simp add: block_wf_def stake_block_def tx_fits_def)
  then have "block_decode flat_prims (block_encode flat_prims stake_block) = Some stake_block"
    using flat_encoding by (simp add: block_decode_iff)
  then have log: "replay_log flat_host [block_encode flat_prims stake_block] c0 = Inr c" by (simp add: c(1))
  have spine: "chain_spine c" by (rule apply_block_spine(1) [OF genesis_spine(1,2) [OF c0(1)] c(1)])
  have ok: "tree_ok (bc_tree c) (bc_genesis_id c)" and tip: "known (bc_tree c) (bc_active_tip c)"
    and ch: "bc_active_chain c = branch_to (bc_tree c) (bc_active_tip c)" using spine by (simp_all add: spine_def)
  have "last (bc_active_chain c) = bc_active_tip c" using branch_to_props [OF ok tip] by (simp add: ch)
  then have tip2: "bc_active_tip c = 2" by (simp add: c(2))
  have "fst (snd (bc_active_state c)) = 0"
    using c(5) by (cases "bc_active_state c0") (auto elim!: apply_block_state_ledger simp: stake_block_def)
  moreover have "bc_premine c0 = [] \<and> bc_public_premine c0 = flat_premine"
    by (rule genesis_shape [OF c0(1)]) simp
  moreover have "\<exists>g. fmlookup (bc_tree c0) 1 = Some g \<and> tn_child_difficulty g = 1" using n by blast
  moreover have "bc_genesis_id c = 1"
    using apply_block_spine(4) [OF genesis_spine(1,2) [OF c0(1)] c(1)] c0(12) by simp
  ultimately show thesis using that [OF c0(1) log c(2) tip2 c(3)] c0(6,9,12) by blast
qed

theorem boot_paths_agree_witness:
  "\<exists>c st. replay_from_snapshot flat_host 1 2 (ledger_new, 0, mem_new) [block_encode flat_prims stake_block] [] flat_premine 1 =
     Inr (Some (c :: u64 blockchain)) \<and> bc_active_chain c = [1, 2] \<and> bc_active_state c = (ledger_new\<lparr>l_dirty := {||}\<rparr>, 0, st)"
proof (rule flat_log)
  fix c0 c
  assume c: "genesis_with_public flat_host [] flat_premine 1 = Inr c0"
    "replay_log flat_host [block_encode flat_prims stake_block] c0 = Inr c" "bc_active_chain c = [1, 2]"
    "bc_active_tip c = 2" "bc_active_height c = 1" "fst (snd (bc_active_state c)) = 0" "bc_genesis_id c = 1"
  obtain s where s: "ledger_root flat_host (ledger_new, 0, mem_new) = Inr (0, (ledger_new :: u64 ledger)\<lparr>l_dirty := {||}\<rparr>, 0, s)"
    using flat_root by blast
  then have "ledger_root flat_host (ledger_new, 0, mem_new) = Inr (fst (snd (bc_active_state c)), ledger_new\<lparr>l_dirty := {||}\<rparr>, 0, s)"
    by (simp add: c(6))
  with boot_paths_agree [OF _ _ c(1,2), THEN conjunct2] flat_encoding c(3,4,5) show ?thesis by fastforce
qed

section \<open>Fast sync\<close>

lemma persist_all_fields:
  "persist_all E bs c = (ok, c') \<Longrightarrow> c' = c\<lparr>bc_store := bc_store c'\<rparr>"
proof (induction bs arbitrary: c)
  case (Cons b bs)
  show ?case
  proof (cases "block_decode (h_prims E) b")
    case (Some blk)
    have "persist E blk b c = c\<lparr>bc_store := bc_store (persist E blk b c)\<rparr>" by (simp add: persist_def split: option.split)
    moreover have "c' = (persist E blk b c)\<lparr>bc_store := bc_store c'\<rparr>" using Cons Some by simp
    ultimately show ?thesis by (metis blockchain.update_convs(9) blockchain.surjective)
  qed (use Cons.prems in simp)
qed simp

text \<open>
  C34: fast sync trusts only proof of work. When \<open>fast_sync_adopt\<close> accepts a peer's blocks and records, the chain it adopts
  starts at the same genesis and is the path to the tip; the records recompute to the state root that the anchor
  block on this chain commits; every later block has been executed on them; and the state root is that of the tip. When it
  refuses, nothing but the block log can have changed.
\<close>

theorem fast_sync_verified:
  assumes "encoding_laws (h_prims E)" and "length blocks < 2 ^ 64 - 1"
    and "fast_sync_adopt E blocks h i records c = (r, c')"
  shows "(r \<noteq> Inr True \<longrightarrow> c' = c\<lparr>bc_store := bc_store c'\<rparr>) \<and>
    (r = Inr True \<longrightarrow> bc_genesis_id c' = bc_genesis_id c \<and> path_to c' (bc_active_tip c') = Some (bc_active_chain c') \<and>
      vec_get (bc_active_chain c') (unat h) = Some i \<and>
      (\<exists>L root n st later tip. fmlookup (bc_tree c') i = Some n \<and>
         from_records (h_prims E) mem_get mem_scan (mem_write mem_new (map (\<lambda>(k, v). (ColObjects, k, Some v)) records)) = Some L \<and>
         ledger_root E (L, empty_root (h_prims E), mem_write mem_new (map (\<lambda>(k, v). (ColObjects, k, Some v)) records)) = Inr (root, st) \<and>
         root = bh_state_root (tn_header n) \<and>
         map (\<lambda>j. Option.bind (block_by_id c' j) (block_decode (h_prims E))) (drop (unat h + 1) (bc_active_chain c')) = map Some later \<and>
         replay_ledger (h_prims E) later (L\<lparr>l_dirty := {||}\<rparr>) = Some (fst (bc_active_state c')) \<and>
         fmlookup (bc_tree c') (bc_active_tip c') = Some tip \<and> fst (snd (bc_active_state c')) = bh_state_root (tn_header tip)))"
proof -
  let ?P = "h_prims E" and ?base = "mem_write mem_new (map (\<lambda>(k, v). (ColObjects, k, Some v)) records)"
  show ?thesis
  proof (cases "r = Inr True")
    case False
    then show ?thesis
      using assms(3) by (auto simp: fast_sync_adopt_def Let_def dest: persist_all_fields split: if_splits option.splits sum.splits prod.splits bool.splits)
  next
    case True
    obtain L g built where L: "from_records ?P mem_get mem_scan ?base = Some L"
      and g: "fmlookup (bc_tree c) (bc_genesis_id c) = Some g"
      and b: "replay_from_snapshot E h i (L, empty_root ?P, ?base) blocks (bc_premine c) (bc_public_premine c) (tn_child_difficulty g) = Inr (Some built)"
      and same: "bc_genesis_id built = bc_genesis_id c"
      and c': "\<exists>c1. persist_all E blocks c = (True, c1) \<and> c' = note_validator_set (c1\<lparr>bc_tree := bc_tree built, bc_active_tip := bc_active_tip built,
         bc_active_height := bc_active_height built, bc_active_chain := bc_active_chain built,
         bc_active_state := bc_active_state built, bc_recent_sets := []\<rparr>)"
      using assms(3) True by (auto simp: fast_sync_adopt_def Let_def split: if_splits option.splits sum.splits prod.splits bool.splits)
    then obtain c1 where c1: "persist_all E blocks c = (True, c1)" and c': "c' = note_validator_set (c1\<lparr>bc_tree := bc_tree built,
       bc_active_tip := bc_active_tip built, bc_active_height := bc_active_height built, bc_active_chain := bc_active_chain built,
       bc_active_state := bc_active_state built, bc_recent_sets := []\<rparr>)" by blast
    have c1g: "bc_genesis_id c1 = bc_genesis_id c" by (subst persist_all_fields [OF c1]) simp
    obtain n st bs t where v: "skeleton_ok E built" "vec_get (bc_active_chain built) (unat h) = Some i"
      "fmlookup (bc_tree built) i = Some n" "ledger_root E (L, empty_root ?P, ?base) = Inr (bh_state_root (tn_header n), st)"
      "list_all2 (stored ?P (bc_tree built)) (drop (unat h + 1) (bc_active_chain built)) bs"
      "replay_ledger ?P bs (L\<lparr>l_dirty := {||}\<rparr>) = Some (fst (bc_active_state built))"
      "fmlookup (bc_tree built) (bc_active_tip built) = Some t" "fst (snd (bc_active_state built)) = bh_state_root (tn_header t)"
      by (rule replay_from_snapshot_verified [OF assms(1,2) b]) blast
    have "Option.bind (block_by_id c' j) (block_decode ?P) = Some bl" if "stored ?P (bc_tree built) j bl" for j bl
      using that by (auto simp: stored_def block_by_id_def block_decode_iff [OF assms(1)] c')
    then have "map (\<lambda>j. Option.bind (block_by_id c' j) (block_decode ?P)) (drop (unat h + 1) (bc_active_chain built)) = map Some bs"
      using v(5) by (auto simp: list_all2_conv_all_nth intro!: nth_equalityI)
    moreover have "path_to c' (bc_active_tip c') = Some (bc_active_chain c')"
      using skeleton_path(6) [OF v(1)] same c1g by (simp add: c' path_to_def)
    ultimately show ?thesis
      using True L v same c1g by (cases st) (auto simp: c')
  qed
qed

text \<open>A new node adopts the chain of one block with the records of a small ledger.\<close>

theorem fast_sync_verified_witness:
  "\<exists>c c' :: u64 blockchain. fast_sync_adopt flat_host [block_encode flat_prims stake_block] 1 2
      (object_records flat_prims (demo_validators\<lparr>l_dirty := {||}\<rparr>)) c = (Inr True, c') \<and>
    vec_get (bc_active_chain c') 1 = Some 2"
proof (rule flat_log)
  fix c0 c
  let ?L = "demo_validators\<lparr>l_dirty := {||}\<rparr>" and ?log = "[block_encode flat_prims stake_block]"
  let ?rs = "object_records flat_prims (demo_validators\<lparr>l_dirty := {||}\<rparr>)"
  let ?base = "mem_write mem_new (map (\<lambda>(k, v). (ColObjects, k, Some v)) ?rs)"
  assume c: "genesis_with_public flat_host [] flat_premine 1 = Inr c0" "replay_log flat_host ?log c0 = Inr c"
    "bc_active_chain c = [1, 2]" "bc_active_tip c = 2" "bc_active_height c = 1" "fst (snd (bc_active_state c)) = 0" "bc_genesis_id c = 1"
    and c0: "bc_active_height c0 = 0" "bc_genesis_id c0 = 1" "bc_premine c0 = []" "bc_public_premine c0 = flat_premine"
      "\<exists>g. fmlookup (bc_tree c0) 1 = Some g \<and> tn_child_difficulty g = 1" "bc_store c0 = None"
  obtain M where M: "from_records flat_prims mem_get mem_scan ?base = Some M"
    using demo_from_records [OF flat_encoding] by blast
  obtain s where "ledger_root flat_host (M, 0, ?base) = Inr (0, M\<lparr>l_dirty := {||}\<rparr>, 0, s)" using flat_root by blast
  then have "ledger_root flat_host (M, 0, ?base) = Inr (fst (snd (bc_active_state c)), M\<lparr>l_dirty := {||}\<rparr>, 0, s)"
    by (simp add: c(6))
  then obtain built where b: "replay_from_snapshot flat_host 1 2 (M, 0, ?base) ?log [] flat_premine 1 = Inr (Some built)"
    and "bc_active_chain built = [1, 2]" and gen: "bc_genesis_id built = 1"
    using boot_agrees [OF _ _ c(1,2), THEN conjunct2] flat_encoding c(3,4,5,7) by fastforce
  moreover have "block_decode flat_prims (block_encode flat_prims stake_block) = Some stake_block"
    using flat_encoding by (simp add: block_decode_iff block_wf_def stake_block_def tx_fits_def)
  moreover have "?rs \<noteq> []" by (rule demo_restart(4))
  moreover obtain g where g: "fmlookup (bc_tree c0) 1 = Some g" "tn_child_difficulty g = 1" using c0(5) by blast
  moreover have "empty_root flat_prims = 0" by (simp add: empty_root_def flat_default)
  ultimately have "\<exists>c1. fast_sync_adopt flat_host ?log 1 2 ?rs c0 = (Inr True, note_validator_set (c1\<lparr>bc_tree := bc_tree built,
      bc_active_tip := bc_active_tip built, bc_active_height := bc_active_height built, bc_active_chain := bc_active_chain built,
      bc_active_state := bc_active_state built, bc_recent_sets := []\<rparr>))"
    unfolding fast_sync_adopt_def Let_def flat_host_prims c0 M g by (intro exI [of _ "persist flat_host stake_block (block_encode flat_prims stake_block) c0"]) (simp add: g gen)
  then obtain c' where a: "fast_sync_adopt flat_host ?log 1 2 ?rs c0 = (Inr True, c')" by blast
  with fast_sync_verified [OF _ _ a] flat_encoding show ?thesis by fastforce
qed

end
