(* ===== verification/Bridge_Encoding.thy ===== *)
theory Bridge_Encoding
  imports Prelude
begin

text \<open>
  The byte encoders of \<^verbatim>\<open>lat-bridge/src/encoding.rs\<close> that the adapters of the other chains share: Base58, EIP-55
  addresses, Bitcoin script numbers and pushes, ABI words. The functions of the crates sha2, tiny-keccak, hex and bech32, and
  the test for a point of the Edwards curve, are the record \<open>remote\<close>.
\<close>

record remote =
  rm_sha256 :: "bytes \<Rightarrow> id32"
  rm_keccak :: "bytes \<Rightarrow> id32"
  rm_hex :: "bytes \<Rightarrow> string"
  rm_segwit_v0 :: "string \<Rightarrow> id32 \<Rightarrow> string"
  rm_on_curve :: "id32 \<Rightarrow> bool"

type_synonym addr20 = "160 word"

definition keccak256 :: "remote \<Rightarrow> bytes \<Rightarrow> id32" where
  "keccak256 R data = rm_keccak R data"

definition selector :: "remote \<Rightarrow> string \<Rightarrow> bytes" where
  "selector R signature = take 4 (be_bytes 32 (keccak256 R (ascii signature)))"

section \<open>Base58\<close>

definition B58 :: string where
  "B58 = ''123456789ABCDEFGHJKLMNPQRSTUVWXYZabcdefghijkmnopqrstuvwxyz''"

text \<open>One pass of \<^verbatim>\<open>for d in digits.iter_mut()\<close>: the last carry and the new digits.\<close>

fun b58_carry :: "u32 \<Rightarrow> bytes \<Rightarrow> u32 \<times> bytes" where
  "b58_carry carry [] = (carry, [])"
| "b58_carry carry (d # ds) =
    (let sum = carry + push_bit 8 (ucast d); (c, ds') = b58_carry (sum div 58) ds in (c, ucast (sum mod 58) # ds'))"

text \<open>\<^verbatim>\<open>while carry > 0\<close>.\<close>

function b58_push :: "u32 \<Rightarrow> bytes" where
  "b58_push carry = (if carry > 0 then ucast (carry mod 58) # b58_push (carry div 58) else [])"
  by auto

termination
proof (relation "measure unat")
  fix c :: u32
  assume "0 < c"
  then have "0 < unat c" by (simp add: unat_gt_0)
  then show "(c div 58, c) \<in> measure unat" by (simp add: unat_div)
qed simp

declare b58_push.simps [simp del]

definition b58_byte :: "bytes \<Rightarrow> byte \<Rightarrow> bytes" where
  "b58_byte digits b = (let (carry, ds) = b58_carry (ucast b) digits in ds @ b58_push carry)"

definition base58 :: "bytes \<Rightarrow> string" where
  "base58 input =
    (let zeros = length (takeWhile (\<lambda>b. b = 0) input);
         digits = foldl b58_byte [] input;
         out = replicate zeros (CHR ''1'') @ map (\<lambda>d. B58 ! unat d) (rev digits)
     in if out = [] then ''1'' else out)"

section \<open>EIP-55\<close>

definition is_ascii_digit :: "char \<Rightarrow> bool" where
  "is_ascii_digit c \<longleftrightarrow> (of_char c :: nat) \<in> {48..57}"

definition to_ascii_uppercase :: "char \<Rightarrow> char" where
  "to_ascii_uppercase c = (if (of_char c :: nat) \<in> {97..122} then char_of (of_char c - 32 :: nat) else c)"

definition eip55_char :: "bytes \<Rightarrow> nat \<times> char \<Rightarrow> char" where
  "eip55_char hash = (\<lambda>(i, c). if is_ascii_digit c then c
     else let nibble = and (drop_bit (if i mod 2 = 0 then 4 else 0) (hash ! (i div 2))) 0x0f in
       if nibble \<ge> 8 then to_ascii_uppercase c else c)"

definition eip55 :: "remote \<Rightarrow> addr20 \<Rightarrow> string" where
  "eip55 R addr = (let lower = rm_hex R (be_bytes 20 addr); hash = be_bytes 32 (keccak256 R (ascii lower)) in
     ''0x'' @ map (eip55_char hash) (List.enumerate 0 lower))"

section \<open>Bitcoin scripts and ABI words\<close>

text \<open>\<^verbatim>\<open>while abs > 0\<close>: the bytes of the magnitude.\<close>

function script_bytes :: "u64 \<Rightarrow> bytes" where
  "script_bytes a = (if a > 0 then ucast (and a 0xff) # script_bytes (drop_bit 8 a) else [])"
  by auto

termination
proof (relation "measure unat")
  fix a :: u64
  assume "0 < a"
  then have "0 < unat a" by (simp add: unat_gt_0)
  then show "(drop_bit 8 a, a) \<in> measure unat" by (simp add: drop_bit_eq_div unat_div)
qed simp

declare script_bytes.simps [simp del]

text \<open>An \<^verbatim>\<open>i64\<close> is the 64-bit word of its two's complement.\<close>

definition script_num :: "u64 \<Rightarrow> bytes" where
  "script_num n = (if n = 0 then []
     else let neg = n <s 0; out = script_bytes (if neg then - n else n) in
       if and (last out) 0x80 \<noteq> 0 then out @ [if neg then 0x80 else 0x00]
       else if neg then butlast out @ [or (last out) 0x80]
       else out)"

definition push_data :: "bytes \<Rightarrow> bytes \<Rightarrow> panic + bytes" where
  "push_data script data = (if length data \<le> 75 then Inr (script @ [of_nat (length data)] @ data) else Inl Panic)"

definition abi_word :: "bytes \<Rightarrow> panic + bytes" where
  "abi_word b = (if length b \<le> 32 then Inr (replicate (32 - length b) 0 @ b) else Inl Panic)"

section \<open>Base58 is exact\<close>

text \<open>The number that digits to the base \<open>b\<close> spell, least significant first; a numeral is normal without a leading zero.\<close>

fun radix :: "nat \<Rightarrow> bytes \<Rightarrow> nat" where
  "radix b [] = 0"
| "radix b (d # ds) = unat d + b * radix b ds"

definition numeral_ok :: "nat \<Rightarrow> bytes \<Rightarrow> bool" where
  "numeral_ok b ds \<longleftrightarrow> (\<forall>d\<in>set ds. unat d < b) \<and> (ds \<noteq> [] \<longrightarrow> last ds \<noteq> 0)"

lemma radix_append: "radix b (xs @ ys) = radix b xs + b ^ length xs * radix b ys"
  by (induction xs) (simp_all add: algebra_simps)

lemma radix_pos: "numeral_ok b ds \<Longrightarrow> ds \<noteq> [] \<Longrightarrow> 0 < radix b ds"
proof (induction ds)
  case (Cons d ds)
  then have "0 < b" by (auto simp: numeral_ok_def)
  with Cons show ?case by (cases "ds = []") (auto simp: numeral_ok_def unat_gt_0)
qed simp

lemma radix_unique: "numeral_ok b xs \<Longrightarrow> numeral_ok b ys \<Longrightarrow> radix b xs = radix b ys \<Longrightarrow> xs = ys"
proof (induction xs arbitrary: ys)
  case Nil
  then show ?case using radix_pos [of b ys] by fastforce
next
  case (Cons x xs)
  then have "ys \<noteq> []" using radix_pos [of b "x # xs"] by auto
  then obtain y zs where ys: "ys = y # zs" by (cases ys) auto
  have x: "unat x < b" and y: "unat y < b" using Cons.prems by (simp_all add: numeral_ok_def ys)
  have e: "unat x + b * radix b xs = unat y + b * radix b zs" using Cons.prems(3) by (simp add: ys)
  have xy: "unat x = unat y" using arg_cong [OF e, of "\<lambda>n. n mod b"] x y by simp
  then have "radix b xs = radix b zs" using e x by simp
  moreover have "numeral_ok b xs" "numeral_ok b zs" using Cons.prems(1,2) by (auto simp: numeral_ok_def ys split: if_splits)
  ultimately have "xs = zs" using Cons.IH by blast
  then show ?case using xy by (simp add: ys word_unat_eq_iff)
qed

lemma b58_carry_value:
  assumes "unat c \<le> 256" and "\<forall>d\<in>set ds. unat d < 58" and "b58_carry c ds = (c', ds')"
  shows "radix 58 ds' + 58 ^ length ds * unat c' = 256 * radix 58 ds + unat c"
    and "\<forall>d\<in>set ds'. unat d < 58" and "unat c' \<le> 256" and "length ds' = length ds"
    and "ds \<noteq> [] \<and> last ds \<noteq> 0 \<longrightarrow> 0 < unat c'"
proof -
  have "radix 58 ds' + 58 ^ length ds * unat c' = 256 * radix 58 ds + unat c \<and> (\<forall>d\<in>set ds'. unat d < 58) \<and>
      unat c' \<le> 256 \<and> length ds' = length ds \<and> (ds \<noteq> [] \<and> last ds \<noteq> 0 \<longrightarrow> 0 < unat c')"
    using assms
  proof (induction ds arbitrary: c ds')
    case (Cons d ds)
    let ?s = "c + push_bit 8 (ucast d) :: u32"
    have d: "unat d < 58" using Cons.prems(2) by simp
    have p: "unat (push_bit 8 (ucast d) :: u32) = 256 * unat d"
      using d by (simp add: push_bit_eq_mult unat_word_ariths unat_ucast)
    have s: "unat ?s = unat c + 256 * unat d"
      using Cons.prems(1) d by (subst unat_add_small) (simp_all add: p)
    have q: "unat (?s div 58) = (unat c + 256 * unat d) div 58" by (simp add: unat_div s)
    have r: "unat (ucast (?s mod 58) :: byte) = (unat c + 256 * unat d) mod 58"
      by (simp add: unat_ucast unat_mod s)
    obtain ds2 where b: "b58_carry (?s div 58) ds = (c', ds2)" and ds': "ds' = ucast (?s mod 58) # ds2"
      using Cons.prems(3) by (auto simp: Let_def split: prod.splits)
    have "unat (?s div 58) \<le> 256" using Cons.prems(1) d by (simp add: q)
    from Cons.IH [OF this _ b] Cons.prems(2)
    have ih: "radix 58 ds2 + 58 ^ length ds * unat c' = 256 * radix 58 ds + unat (?s div 58)" "\<forall>d\<in>set ds2. unat d < 58"
      "unat c' \<le> 256" "length ds2 = length ds" "ds \<noteq> [] \<and> last ds \<noteq> 0 \<longrightarrow> 0 < unat c'" by auto
    have "58 * (radix 58 ds2 + 58 ^ length ds * unat c') + (unat c + 256 * unat d) mod 58 =
        58 * (256 * radix 58 ds) + (unat c + 256 * unat d)"
      unfolding ih(1) q by simp
    moreover have "0 < unat c'" if "last (d # ds) \<noteq> 0"
    proof (cases "ds = []")
      case True
      then have "0 < unat d" using that by (simp add: unat_gt_0)
      then have "58 \<le> unat c + 256 * unat d" by simp
      then show ?thesis using True b q by (simp add: div_greater_zero_iff)
    qed (use that ih(5) in simp)
    ultimately show ?case using ih d by (auto simp: ds' r)
  qed simp
  then show "radix 58 ds' + 58 ^ length ds * unat c' = 256 * radix 58 ds + unat c" "\<forall>d\<in>set ds'. unat d < 58"
    "unat c' \<le> 256" "length ds' = length ds" "ds \<noteq> [] \<and> last ds \<noteq> 0 \<longrightarrow> 0 < unat c'" by blast+
qed

lemma b58_push_value: "radix 58 (b58_push c) = unat c \<and> numeral_ok 58 (b58_push c) \<and> (b58_push c = [] \<longleftrightarrow> c = 0)"
proof (induction c rule: b58_push.induct)
  case (1 c)
  show ?case
  proof (cases "c = 0")
    case False
    then have True: "c > 0" by (simp add: word_gt_0)
    have r: "unat (ucast (c mod 58) :: byte) = unat c mod 58" by (simp add: unat_ucast unat_mod)
    have ih: "radix 58 (b58_push (c div 58)) = unat c div 58" "numeral_ok 58 (b58_push (c div 58))"
      "b58_push (c div 58) = [] \<longleftrightarrow> unat c div 58 = 0"
      using 1 True by (simp_all add: unat_div unat_eq_0 [symmetric] del: unat_eq_0)
    have "unat c mod 58 = unat c" if "unat c div 58 = 0" using that by (simp add: div_eq_0_iff)
    then have "ucast (c mod 58) \<noteq> (0 :: byte)" if "unat c div 58 = 0"
      using that True r by (metis unat_0 unat_gt_0 less_irrefl)
    then show ?thesis
      using True ih r by (subst (1 2 3) b58_push.simps) (auto simp: numeral_ok_def)
  qed (subst (1 2 3) b58_push.simps, simp add: numeral_ok_def)
qed

lemma b58_byte_value:
  assumes "numeral_ok 58 ds"
  shows "numeral_ok 58 (b58_byte ds b)" and "radix 58 (b58_byte ds b) = 256 * radix 58 ds + unat b"
proof -
  obtain c' ds' where c: "b58_carry (ucast b) ds = (c', ds')" by fastforce
  have "unat (ucast b :: u32) = unat b" using unat_lt2p [of b] by (simp add: unat_ucast)
  moreover have "unat b < 256" using unat_lt2p [of b] by simp
  ultimately have b: "unat (ucast b :: u32) \<le> 256" "unat (ucast b :: u32) = unat b" by simp_all
  have ok: "\<forall>d\<in>set ds. unat d < 58" using assms by (simp add: numeral_ok_def)
  note v = b58_carry_value [OF b(1) ok c]
  show "radix 58 (b58_byte ds b) = 256 * radix 58 ds + unat b"
    using v(1,4) b(2) by (simp add: b58_byte_def c radix_append b58_push_value)
  have "ds' \<noteq> [] \<Longrightarrow> b58_push c' = [] \<Longrightarrow> False"
    using v(4,5) assms b58_push_value [of c'] by (auto simp: numeral_ok_def)
  then show "numeral_ok 58 (b58_byte ds b)"
    using v(2) b58_push_value [of c'] by (auto simp: b58_byte_def c numeral_ok_def)
qed

lemma foldl_radix: "foldl (\<lambda>v b. 256 * v + unat b) 0 bs = radix 256 (rev bs)"
  by (induction bs rule: rev_induct) simp_all

lemma b58_digits: "numeral_ok 58 (foldl b58_byte [] input)" "radix 58 (foldl b58_byte [] input) = radix 256 (rev input)"
proof -
  have "numeral_ok 58 ds \<Longrightarrow> numeral_ok 58 (foldl b58_byte ds input) \<and>
      radix 58 (foldl b58_byte ds input) = foldl (\<lambda>v b. 256 * v + unat b) (radix 58 ds) input" for ds
    by (induction input arbitrary: ds) (simp_all add: b58_byte_value)
  from this [of "[]"] show "numeral_ok 58 (foldl b58_byte [] input)" "radix 58 (foldl b58_byte [] input) = radix 256 (rev input)"
    by (simp_all add: numeral_ok_def foldl_radix)
qed

definition b58_index :: "char \<Rightarrow> nat" where
  "b58_index c = length (takeWhile (\<lambda>x. x \<noteq> c) B58)"

lemma b58_index_nth: "n < 58 \<Longrightarrow> b58_index (B58 ! n) = n"
proof -
  have "list_all (\<lambda>n. b58_index (B58 ! n) = n) [0..<58]" by code_simp
  then show "n < 58 \<Longrightarrow> ?thesis" by (simp add: list_all_iff)
qed

lemma length_B58: "length B58 = 58"
  by code_simp

lemma b58_one: "B58 ! 0 = CHR ''1''" "b58_index (CHR ''1'') = 0"
  by code_simp+

lemma foldl_b58_radix:
  "\<forall>d\<in>set ds. unat d < 58 \<Longrightarrow> foldl (\<lambda>v c. 58 * v + b58_index c) 0 (map (\<lambda>d. B58 ! unat d) (rev ds)) = radix 58 ds"
  by (induction ds) (simp_all add: b58_index_nth)

lemma strip_zeros:
  obtains r where "a = replicate (length (takeWhile (\<lambda>b. b = 0) a)) 0 @ r" and "numeral_ok 256 (rev r)"
    and "radix 256 (rev a) = radix 256 (rev r)"
proof -
  let ?z = "takeWhile (\<lambda>b. b = 0) a" and ?r = "dropWhile (\<lambda>b. b = 0) a"
  have z: "?z = replicate (length ?z) 0" by (metis (full_types) replicate_length_same set_takeWhileD)
  have r0: "radix 256 (replicate n 0) = 0" for n by (induction n) simp_all
  have r1: "radix 256 (rev (replicate n 0 @ r)) = radix 256 (rev r)" for n r by (simp add: radix_append r0)
  have "numeral_ok 256 (rev ?r)"
    using unat_lt2p [where 'a = 8] hd_dropWhile [of "\<lambda>b. b = 0" a] by (auto simp: numeral_ok_def last_rev)
  moreover have "a = replicate (length ?z) 0 @ ?r" using takeWhile_dropWhile_id [of "\<lambda>b. b = 0" a] z by simp
  moreover from this have "radix 256 (rev a) = radix 256 (rev ?r)" by (metis r1)
  ultimately show thesis using that by blast
qed

lemma base58_nonempty:
  assumes "a \<noteq> []"
  shows "base58 a = replicate (length (takeWhile (\<lambda>b. b = 0) a)) (CHR ''1'') @ map (\<lambda>d. B58 ! unat d) (rev (foldl b58_byte [] a))"
proof -
  have "foldl b58_byte [] a \<noteq> []" if "takeWhile (\<lambda>b. b = 0) a = []"
  proof
    assume "foldl b58_byte [] a = []"
    then have "radix 256 (rev a) = 0" using b58_digits(2) [of a] by simp
    moreover have "numeral_ok 256 (rev a)"
      using that assms unat_lt2p [where 'a = 8] by (cases a) (auto simp: numeral_ok_def split: if_splits)
    ultimately show False using radix_pos [of 256 "rev a"] assms by simp
  qed
  then show ?thesis by (auto simp: base58_def Let_def)
qed

text \<open>
  Base58 loses nothing. The characters are from the alphabet, the number they spell to the base 58 is the number the
  bytes spell to the base 256, and there are as many leading ones as leading zero bytes; so no two byte
  strings have the same encoding, other than the empty one, whose encoding is that of a zero byte.
\<close>

lemma base58_exact:
  assumes "a \<noteq> []"
  shows "set (base58 a) \<subseteq> set B58 \<and>
    length (takeWhile (\<lambda>c. c = CHR ''1'') (base58 a)) = length (takeWhile (\<lambda>b. b = 0) a) \<and>
    foldl (\<lambda>v c. 58 * v + b58_index c) 0 (base58 a) = foldl (\<lambda>v b. 256 * v + unat b) 0 a \<and>
    (base58 a = base58 b \<longrightarrow> a = b \<or> a = [0] \<and> b = [])"
proof -
  define zs where "zs = (\<lambda>a. length (takeWhile (\<lambda>b. b = 0) (a :: bytes)))"
  define ds where "ds = (\<lambda>a. foldl b58_byte [] a)"
  have e: "a \<noteq> [] \<Longrightarrow> base58 a = replicate (zs a) (CHR ''1'') @ map (\<lambda>d. B58 ! unat d) (rev (ds a))" for a
    using base58_nonempty by (simp add: zs_def ds_def)
  have ok: "numeral_ok 58 (ds a)" and val: "radix 58 (ds a) = radix 256 (rev a)" for a
    using b58_digits by (simp_all add: ds_def)
  have small: "\<forall>d\<in>set (ds a). unat d < 58" for a using ok [of a] by (simp add: numeral_ok_def)
  have ones: "takeWhile (\<lambda>c. c = CHR ''1'') (map (\<lambda>d. B58 ! unat d) (rev (ds a))) = []" for a
  proof (cases "ds a" rule: rev_cases)
    case (snoc xs x)
    then have "unat x < 58" "unat x \<noteq> 0" using ok [of a] by (simp_all add: numeral_ok_def unat_eq_0)
    then have "B58 ! unat x \<noteq> CHR ''1''" using b58_index_nth [of "unat x"] b58_one(2) by auto
    then show ?thesis by (simp add: snoc)
  qed simp
  have lead: "a \<noteq> [] \<Longrightarrow> length (takeWhile (\<lambda>c. c = CHR ''1'') (base58 a)) = zs a" for a
    unfolding e by (subst takeWhile_append2) (simp_all add: ones)
  have inv: "map (\<lambda>d. B58 ! unat d) (rev (ds a)) = drop (zs a) (base58 a)" if "a \<noteq> []" for a by (simp add: e [OF that])
  have num: "foldl (\<lambda>v c. 58 * v + b58_index c) 0 (base58 a) = radix 256 (rev a)" if "a \<noteq> []" for a
  proof -
    have "foldl (\<lambda>v c. 58 * v + b58_index c) 0 (replicate n (CHR ''1'')) = 0" for n by (induction n) (simp_all add: b58_one)
    then show ?thesis using foldl_b58_radix [OF small [of a]] val [of a] by (simp add: e [OF that])
  qed
  have "a = b" if b: "b \<noteq> []" and same: "base58 a = base58 b"
  proof -
    have z: "zs a = zs b" using lead [OF assms] lead [OF b] same by simp
    have v: "radix 256 (rev a) = radix 256 (rev b)" using num [OF assms] num [OF b] same by simp
    obtain r where r: "a = replicate (zs a) 0 @ r" "numeral_ok 256 (rev r)" "radix 256 (rev a) = radix 256 (rev r)"
      unfolding zs_def by (rule strip_zeros)
    obtain q where q: "b = replicate (zs b) 0 @ q" "numeral_ok 256 (rev q)" "radix 256 (rev b) = radix 256 (rev q)"
      unfolding zs_def by (rule strip_zeros)
    have "rev r = rev q" using radix_unique [OF r(2) q(2)] v r(3) q(3) by simp
    then show ?thesis using r(1) q(1) z by simp
  qed
  moreover have "a = [0]" if "b = []" and same: "base58 a = base58 b"
  proof -
    have one: "base58 a = ''1''" using that by (simp add: base58_def)
    have "zs a = 1" using lead [OF assms] one by simp
    moreover have "ds a = []" using e [OF assms] one calculation by simp
    then have "radix 256 (rev a) = 0" using val [of a] by simp
    obtain r where r: "a = replicate (zs a) 0 @ r" "numeral_ok 256 (rev r)" "radix 256 (rev a) = radix 256 (rev r)"
      unfolding zs_def by (rule strip_zeros)
    then have "r = []" using radix_pos [OF r(2)] \<open>radix 256 (rev a) = 0\<close> by fastforce
    ultimately show ?thesis using r(1) by simp
  qed
  moreover have "set (base58 a) \<subseteq> set B58"
    using small [of a] b58_one(1) length_B58 by (auto simp: e [OF assms] intro!: nth_mem) (metis nth_mem zero_less_numeral)
  ultimately show ?thesis using lead [OF assms] num [OF assms] by (auto simp: zs_def foldl_radix)
qed

lemma base58_exact_witness:
  "base58 (ascii ''hello world'') = ''StV1DL6CwTryKyV'' \<and>
   length (takeWhile (\<lambda>c. c = CHR ''1'') (base58 [0, 0, 7])) = 2"
proof
  show "base58 (ascii ''hello world'') = ''StV1DL6CwTryKyV''" by code_simp
  show "length (takeWhile (\<lambda>c. c = CHR ''1'') (base58 [0, 0, 7])) = 2"
    by (subst base58_exact [THEN conjunct2, THEN conjunct1]) simp_all
qed

section \<open>Script numbers are exact\<close>

text \<open>How Bitcoin reads a script number: little-endian, the top bit of the last byte is the sign.\<close>

definition script_value :: "bytes \<Rightarrow> int" where
  "script_value b = (if b = [] then 0
     else let m = int (radix 256 (butlast b @ [and (last b) 0x7f])) in if and (last b) 0x80 \<noteq> 0 then - m else m)"

lemma script_bytes_value: "radix 256 (script_bytes a) = unat a \<and> numeral_ok 256 (script_bytes a) \<and> (script_bytes a = [] \<longleftrightarrow> a = 0)"
proof (induction a rule: script_bytes.induct)
  case (1 a)
  show ?case
  proof (cases "a = 0")
    case False
    then have a: "a > 0" by (simp add: word_gt_0)
    have d: "unat (drop_bit 8 a) = unat a div 256" by (simp add: drop_bit_eq_div unat_div)
    have "and a 0xff = a mod 256" using take_bit_eq_mask [of 8 a] by (simp add: mask_eq_exp_minus_1 take_bit_eq_mod)
    then have r: "unat (ucast (and a 0xff) :: byte) = unat a mod 256" by (simp add: unat_ucast unat_mod)
    have ih: "radix 256 (script_bytes (drop_bit 8 a)) = unat a div 256" "numeral_ok 256 (script_bytes (drop_bit 8 a))"
      "script_bytes (drop_bit 8 a) = [] \<longleftrightarrow> unat a div 256 = 0"
      using 1 a d by (simp_all add: unat_eq_0 [symmetric] del: unat_eq_0)
    have "unat (ucast (and a 0xff) :: byte) = unat a" if "unat a div 256 = 0" using that r by (simp add: div_eq_0_iff)
    then have "ucast (and a 0xff) \<noteq> (0 :: byte)" if "unat a div 256 = 0"
      using that False by (metis unat_0 unat_eq_0)
    then show ?thesis
      using a ih r unat_lt2p [of "ucast (and a 0xff) :: byte"]
      by (subst (1 2 3) script_bytes.simps) (auto simp: numeral_ok_def)
  qed (subst (1 2 3) script_bytes.simps, simp add: numeral_ok_def)
qed

lemma radix_length: "numeral_ok 256 ds \<Longrightarrow> ds \<noteq> [] \<Longrightarrow> 256 ^ (length ds - 1) \<le> radix 256 ds"
proof (induction ds)
  case (Cons d ds)
  show ?case
  proof (cases ds)
    case Nil
    then show ?thesis using radix_pos [OF Cons.prems] by (simp add: Suc_le_eq)
  next
    case (Cons e es)
    then have "256 ^ length es \<le> radix 256 ds" using Cons.IH Cons.prems(1) by (simp add: numeral_ok_def)
    then show ?thesis using Cons by simp
  qed
qed simp

lemma sign_bits:
  fixes x :: byte
  shows "and x 0x80 = 0 \<Longrightarrow> and x 0x7f = x" "and x 0x80 = 0 \<Longrightarrow> and (or x 0x80) 0x7f = x" "and (or x 0x80) 0x80 \<noteq> 0"
proof -
  have "list_all (\<lambda>n. let x = of_nat n :: byte in (and x 0x80 = 0 \<longrightarrow> and x 0x7f = x \<and> and (or x 0x80) 0x7f = x) \<and>
      and (or x 0x80) 0x80 \<noteq> 0) [0..<256]" by code_simp
  moreover have "unat x \<in> set [0..<256]" using unat_lt2p [of x] by simp
  ultimately have "let x = of_nat (unat x) :: byte in (and x 0x80 = 0 \<longrightarrow> and x 0x7f = x \<and> and (or x 0x80) 0x7f = x) \<and>
      and (or x 0x80) 0x80 \<noteq> 0" unfolding list_all_iff by blast
  then show "and x 0x80 = 0 \<Longrightarrow> and x 0x7f = x" "and x 0x80 = 0 \<Longrightarrow> and (or x 0x80) 0x7f = x" "and (or x 0x80) 0x80 \<noteq> 0"
    by (simp_all add: Let_def)
qed

lemma magnitude: "int (unat (if n <s 0 then - n else (n :: u64))) = \<bar>sint n\<bar>"
  using uint_neg_of_sint [of n] uint_of_sint [of n] sint_lt [of n] by (simp add: word_sless_alt)

text \<open>
  A script number is read back as the number that was written, is at most nine bytes long (so the push of a locktime
  never panics) and minimal: the last byte is needed for the value or for the sign.
\<close>

lemma script_num_value:
  "script_value (script_num n) = sint n \<and> length (script_num n) \<le> 9 \<and>
   (script_num n = [] \<longleftrightarrow> n = 0) \<and>
   (n \<noteq> 0 \<and> and (last (script_num n)) 0x7f = 0 \<longrightarrow> 1 < length (script_num n) \<and> and (last (butlast (script_num n))) 0x80 \<noteq> 0)"
proof (cases "n = 0")
  case False
  let ?neg = "n <s 0"
  define out where "out = script_bytes (if ?neg then - n else n)"
  have "(if ?neg then - n else n) \<noteq> 0" using False by simp
  with script_bytes_value [of "if ?neg then - n else n"]
  have v: "int (radix 256 out) = \<bar>sint n\<bar>" "numeral_ok 256 out" "out \<noteq> []" by (simp_all only: magnitude out_def) auto
  have "256 ^ (length out - 1) < (256 :: nat) ^ 8"
    using radix_length [OF v(2,3)] script_bytes_value [of "if ?neg then - n else n"] unat_lt2p [of "if ?neg then - n else n"]
    by (simp add: out_def)
  then have "length out - 1 < 8" by (rule power_less_imp_less_exp [rotated]) simp
  then have len: "length out \<le> 8" by linarith
  have zero: "radix 256 (xs @ [0]) = radix 256 xs" for xs by (simp add: radix_append)
  have last: "last out \<noteq> 0" using v(2,3) by (simp add: numeral_ok_def)
  have sign: "?neg \<longleftrightarrow> sint n < 0" by (simp add: word_sless_alt)
  have glue: "butlast out @ [last out] = out" using v(3) by simp
  show ?thesis
  proof (cases "and (last out) 0x80 \<noteq> 0")
    case True
    then have "script_num n = out @ [if ?neg then 0x80 else 0x00]" using False by (simp add: script_num_def Let_def out_def)
    then show ?thesis using v(1,3) len zero True False sign by (simp add: script_value_def Let_def)
  next
    case low: False
    show ?thesis
    proof (cases ?neg)
      case True
      then have "script_num n = butlast out @ [or (last out) 0x80]" using False low by (simp add: script_num_def Let_def out_def)
      then show ?thesis using v(1) len low False sign True sign_bits [of "last out"] last glue
        by (simp add: script_value_def Let_def)
    next
      case pos: False
      then have "script_num n = out" using False low by (simp add: script_num_def Let_def out_def)
      then show ?thesis using v len low False sign pos sign_bits [of "last out"] last glue
        by (simp add: script_value_def Let_def)
    qed
  qed
qed (simp add: script_num_def script_value_def)

text \<open>Concrete functions, for examples.\<close>

definition plain_remote :: remote where
  "plain_remote = \<lparr>rm_sha256 = of_be, rm_keccak = of_be, rm_hex = (\<lambda>_. []), rm_segwit_v0 = (\<lambda>_ _. []), rm_on_curve = (\<lambda>_. False)\<rparr>"

end
