(* ===== verification/Bridge.thy ===== *)
theory Bridge
  imports Bridge_Encoding Chain "HOL-Library.Sublist"
begin

text \<open>
  The chain-independent half of \<^verbatim>\<open>lat-bridge\<close>: \<^verbatim>\<open>lib.rs\<close> and \<^verbatim>\<open>adapter.rs\<close> (chains, secrets, the parameters of a lock),
  \<^verbatim>\<open>coordinator.rs\<close> (the state machine of a swap) and \<^verbatim>\<open>watcher.rs\<close> (what to do next, from the state of the lock on
  Latebra). The calls of a node over RPC are the record \<open>node_rpc\<close>; a random secret is an argument.
\<close>

section \<open>Chains, secrets and locks\<close>

datatype chain = Bitcoin | Ethereum | Solana | Latebra

fun ticker :: "chain \<Rightarrow> string" where
  "ticker Bitcoin = ''BTC''"
| "ticker Ethereum = ''ETH''"
| "ticker Solana = ''SOL''"
| "ticker Latebra = ''LAT''"

datatype bridge_network = Mainnet | Testnet

datatype secret = Secret id32

definition bridge_sha256 :: "remote \<Rightarrow> bytes \<Rightarrow> id32" where
  "bridge_sha256 R data = rm_sha256 R data"

fun hashlock_of :: "remote \<Rightarrow> secret \<Rightarrow> id32" where
  "hashlock_of R (Secret s) = bridge_sha256 R (be_bytes 32 s)"

fun reveal :: "secret \<Rightarrow> id32" where
  "reveal (Secret s) = s"

datatype bridge_error = BadParam string | BadState string

record htlc_params =
  hp_hashlock :: id32
  hp_recipient :: bytes
  hp_refund :: bytes
  hp_amount :: u128
  hp_timelock :: u64

datatype action = Claim | Refund

record htlc_artifact =
  ha_chain :: chain
  ha_deposit_address :: string
  ha_script_hex :: string
  ha_instructions :: string

record bridge_tx =
  bt_chain :: chain
  bt_action :: action
  bt_payload_hex :: string
  bt_describe :: string

section \<open>The swap coordinator\<close>

record leg =
  leg_chain :: chain
  leg_params :: htlc_params

datatype swap_state = Proposed | SellLocked | BothLocked | Redeemed | Settled | Refunded

record swap =
  sw_id :: id32
  sw_hashlock :: id32
  sw_sell :: leg
  sw_buy :: leg
  sw_state :: swap_state
  sw_revealed :: "id32 option"

definition propose :: "id32 \<Rightarrow> id32 \<Rightarrow> leg \<Rightarrow> leg \<Rightarrow> bridge_error + swap" where
  "propose i hashlock sell buy =
    (if hp_hashlock (leg_params sell) \<noteq> hashlock \<or> hp_hashlock (leg_params buy) \<noteq> hashlock then
       Inl (BadParam (''both legs must commit to the swap'' @ [CHR 0x27] @ ''s hashlock''))
     else if hp_timelock (leg_params sell) \<le> hp_timelock (leg_params buy) then
       Inl (BadState ''sell-leg timelock must be strictly later than buy-leg timelock'')
     else Inr \<lparr>sw_id = i, sw_hashlock = hashlock, sw_sell = sell, sw_buy = buy, sw_state = Proposed, sw_revealed = None\<rparr>)"

text \<open>The derived \<^verbatim>\<open>Debug\<close> of a state is its name.\<close>

fun state_name :: "swap_state \<Rightarrow> string" where
  "state_name Proposed = ''Proposed''"
| "state_name SellLocked = ''SellLocked''"
| "state_name BothLocked = ''BothLocked''"
| "state_name Redeemed = ''Redeemed''"
| "state_name Settled = ''Settled''"
| "state_name Refunded = ''Refunded''"

definition expect :: "swap \<Rightarrow> swap_state \<Rightarrow> bridge_error + unit" where
  "expect sw want = (if sw_state sw \<noteq> want
     then Inl (BadState (''expected state '' @ state_name want @ '', was '' @ state_name (sw_state sw))) else Inr ())"

text \<open>An operation returns its result and the swap it leaves behind.\<close>

definition sell_funded :: "swap \<Rightarrow> (bridge_error + unit) \<times> swap" where
  "sell_funded sw = (case expect sw Proposed of Inl e \<Rightarrow> (Inl e, sw)
     | Inr _ \<Rightarrow> (Inr (), sw\<lparr>sw_state := SellLocked\<rparr>))"

definition buy_funded :: "swap \<Rightarrow> (bridge_error + unit) \<times> swap" where
  "buy_funded sw = (case expect sw SellLocked of Inl e \<Rightarrow> (Inl e, sw)
     | Inr _ \<Rightarrow> (Inr (), sw\<lparr>sw_state := BothLocked\<rparr>))"

definition redeem_buy :: "remote \<Rightarrow> id32 \<Rightarrow> swap \<Rightarrow> (bridge_error + unit) \<times> swap" where
  "redeem_buy R preimage sw = (case expect sw BothLocked of Inl e \<Rightarrow> (Inl e, sw)
     | Inr _ \<Rightarrow> if bridge_sha256 R (be_bytes 32 preimage) \<noteq> sw_hashlock sw
         then (Inl (BadParam ''preimage does not match hashlock''), sw)
         else (Inr (), sw\<lparr>sw_revealed := Some preimage, sw_state := Redeemed\<rparr>))"

definition redeem_sell :: "swap \<Rightarrow> (bridge_error + id32) \<times> swap" where
  "redeem_sell sw = (case expect sw Redeemed of Inl e \<Rightarrow> (Inl e, sw)
     | Inr _ \<Rightarrow> (case sw_revealed sw of None \<Rightarrow> (Inl (BadState ''secret not yet revealed''), sw)
         | Some pre \<Rightarrow> (Inr pre, sw\<lparr>sw_state := Settled\<rparr>)))"

definition swap_refund :: "u64 \<Rightarrow> swap \<Rightarrow> (bridge_error + unit) \<times> swap" where
  "swap_refund now sw =
    (if sw_state sw \<notin> {Proposed, SellLocked, BothLocked} then
       (Inl (BadState ''can only refund a swap with no redemption''), sw)
     else if now < hp_timelock (leg_params (sw_sell sw)) then
       (Inl (BadState ''sell-leg timelock not yet reached''), sw)
     else (Inr (), sw\<lparr>sw_state := Refunded\<rparr>))"

text \<open>The calls a party can make, in any order.\<close>

datatype swap_call = SellFunded | BuyFunded | RedeemBuy id32 | RedeemSell | RefundAt u64

fun swap_call_step :: "remote \<Rightarrow> swap_call \<Rightarrow> swap \<Rightarrow> bool \<times> swap" where
  "swap_call_step R SellFunded sw = (case sell_funded sw of (r, sw') \<Rightarrow> (r = Inr (), sw'))"
| "swap_call_step R BuyFunded sw = (case buy_funded sw of (r, sw') \<Rightarrow> (r = Inr (), sw'))"
| "swap_call_step R (RedeemBuy p) sw = (case redeem_buy R p sw of (r, sw') \<Rightarrow> (r = Inr (), sw'))"
| "swap_call_step R RedeemSell sw = (case redeem_sell sw of (Inl _, sw') \<Rightarrow> (False, sw') | (Inr _, sw') \<Rightarrow> (True, sw'))"
| "swap_call_step R (RefundAt now) sw = (case swap_refund now sw of (r, sw') \<Rightarrow> (r = Inr (), sw'))"

abbreviation swap_calls :: "remote \<Rightarrow> swap_call list \<Rightarrow> swap \<Rightarrow> swap" where
  "swap_calls R calls sw \<equiv> foldl (\<lambda>s call. snd (swap_call_step R call s)) sw calls"

lemmas swap_defs = sell_funded_def buy_funded_def redeem_buy_def redeem_sell_def swap_refund_def expect_def

text \<open>The calls that have brought a swap to its state.\<close>

definition swap_history :: "remote \<Rightarrow> swap \<Rightarrow> swap_call list \<Rightarrow> swap \<Rightarrow> bool" where
  "swap_history R s0 calls s \<longleftrightarrow>
     s = s0\<lparr>sw_state := sw_state s, sw_revealed := sw_revealed s\<rparr> \<and>
     (case sw_state s of
        Proposed \<Rightarrow> sw_revealed s = None
      | SellLocked \<Rightarrow> sw_revealed s = None \<and> subseq [SellFunded] calls
      | BothLocked \<Rightarrow> sw_revealed s = None \<and> subseq [SellFunded, BuyFunded] calls
      | Redeemed \<Rightarrow> (\<exists>p. sw_revealed s = Some p \<and> rm_sha256 R (be_bytes 32 p) = sw_hashlock s0 \<and>
            subseq [SellFunded, BuyFunded, RedeemBuy p] calls)
      | Settled \<Rightarrow> (\<exists>p. sw_revealed s = Some p \<and> rm_sha256 R (be_bytes 32 p) = sw_hashlock s0 \<and>
            subseq [SellFunded, BuyFunded, RedeemBuy p, RedeemSell] calls)
      | Refunded \<Rightarrow> sw_revealed s = None \<and>
            (\<exists>now. RefundAt now \<in> set calls \<and> hp_timelock (leg_params (sw_sell s0)) \<le> now))"

lemma subseq_snoc: "subseq xs ys \<Longrightarrow> subseq (xs @ [z]) (ys @ [z])" "subseq xs ys \<Longrightarrow> subseq xs (ys @ [z])"
  by (auto intro: list_emb_append_mono)

lemma swap_history_step:
  assumes "swap_history R s0 calls s"
  shows "swap_history R s0 (calls @ [call]) (snd (swap_call_step R call s))"
proof -
  note sub = subseq_snoc(1) [where xs = "[]", simplified] subseq_snoc(1) [where xs = "[SellFunded]", simplified]
    subseq_snoc(1) [where xs = "[SellFunded, BuyFunded]", simplified]
    subseq_snoc(1) [where xs = "[SellFunded, BuyFunded, RedeemBuy p]" for p, simplified]
  have same: "swap_history R s0 (calls @ [call]) s"
    using assms by (auto simp: swap_history_def subseq_snoc(2) split: swap_state.splits)
  show ?thesis
    using assms same sub [where ys = calls]
    by (cases call; cases "sw_state s") (auto simp: swap_defs swap_history_def bridge_sha256_def split: option.splits)
qed

text \<open>
  C27: a swap is atomic. Whatever calls are made in whatever order, the terms of the swap never change, and the sell leg
  expires after the buy leg. The secret is on record exactly when the buy leg has been redeemed, and hashes to
  the hashlock; a settled swap went through the funding of both legs, the redemption of the buy leg and that of the sell
  leg, in this order; a refund happens only when nothing was redeemed and both timelocks have passed; settled and
  refunded swaps never change again, and a call that fails changes nothing.
\<close>

theorem swap_atomic:
  assumes "propose i hashlock sell buy = Inr s0" and "s = swap_calls R calls s0"
  shows "s = s0\<lparr>sw_state := sw_state s, sw_revealed := sw_revealed s\<rparr> \<and>
    hp_timelock (leg_params (sw_buy s)) < hp_timelock (leg_params (sw_sell s)) \<and>
    (sw_revealed s \<noteq> None \<longleftrightarrow> sw_state s \<in> {Redeemed, Settled}) \<and>
    (\<forall>p. sw_revealed s = Some p \<longrightarrow> rm_sha256 R (be_bytes 32 p) = hashlock \<and>
       subseq ([SellFunded, BuyFunded, RedeemBuy p] @ (if sw_state s = Settled then [RedeemSell] else [])) calls) \<and>
    (sw_state s = Refunded \<longrightarrow> (\<exists>now. RefundAt now \<in> set calls \<and> hp_timelock (leg_params sell) \<le> now \<and>
       hp_timelock (leg_params buy) < now)) \<and>
    (sw_state s \<in> {Settled, Refunded} \<longrightarrow> swap_calls R later s = s) \<and>
    (\<forall>call. fst (swap_call_step R call s) = False \<longrightarrow> snd (swap_call_step R call s) = s)"
proof -
  have s0: "sw_state s0 = Proposed" "sw_revealed s0 = None" "sw_hashlock s0 = hashlock" "sw_sell s0 = sell" "sw_buy s0 = buy"
    "hp_timelock (leg_params buy) < hp_timelock (leg_params sell)"
    using assms(1) by (auto simp: propose_def split: if_splits)
  have "swap_history R s0 calls (swap_calls R calls s0)"
  proof (induction calls rule: rev_induct)
    case Nil
    then show ?case by (simp add: swap_history_def s0)
  next
    case (snoc call calls)
    from swap_history_step [OF this] show ?case by simp
  qed
  then have h: "swap_history R s0 calls s" by (simp add: assms(2))
  then have same: "s = s0\<lparr>sw_state := sw_state s, sw_revealed := sw_revealed s\<rparr>" by (simp add: swap_history_def)
  then have terms: "sw_sell s = sell" "sw_buy s = buy"
    using s0(4,5) by (metis swap.select_convs(3,4) swap.surjective swap.update_convs(5,6))+
  have final: "sw_state t \<in> {Settled, Refunded} \<Longrightarrow> snd (swap_call_step R call t) = t" for call t
    by (cases call) (auto simp: swap_defs)
  then have "sw_state s \<in> {Settled, Refunded} \<Longrightarrow> swap_calls R later s = s"
    by (induction later) simp_all
  moreover have "fst (swap_call_step R call s) = False \<Longrightarrow> snd (swap_call_step R call s) = s" for call
    by (cases call) (auto simp: swap_defs split: if_splits option.splits)
  ultimately show ?thesis
    using same h s0 terms by (auto simp: swap_history_def intro: order.strict_trans2 split: swap_state.splits)
qed

theorem swap_atomic_witness:
  "sw_state (swap_calls plain_remote
     [SellFunded, RedeemSell, BuyFunded, RefundAt 9, RedeemBuy 6, RedeemBuy 7, RefundAt 20, RedeemSell]
     \<lparr>sw_id = 1, sw_hashlock = 7, sw_sell = \<lparr>leg_chain = Bitcoin, leg_params = \<lparr>hp_hashlock = 7, hp_recipient = [], hp_refund = [], hp_amount = 5, hp_timelock = 20\<rparr>\<rparr>,
       sw_buy = \<lparr>leg_chain = Latebra, leg_params = \<lparr>hp_hashlock = 7, hp_recipient = [], hp_refund = [], hp_amount = 6, hp_timelock = 10\<rparr>\<rparr>,
       sw_state = Proposed, sw_revealed = None\<rparr>) = Settled"
proof -
  let ?R = "plain_remote"
  let ?sell = "\<lparr>leg_chain = Bitcoin, leg_params = \<lparr>hp_hashlock = 7, hp_recipient = [], hp_refund = [], hp_amount = 5, hp_timelock = 20\<rparr>\<rparr>"
  let ?buy = "\<lparr>leg_chain = Latebra, leg_params = \<lparr>hp_hashlock = 7, hp_recipient = [], hp_refund = [], hp_amount = 6, hp_timelock = 10\<rparr>\<rparr>"
  let ?s0 = "\<lparr>sw_id = 1, sw_hashlock = 7, sw_sell = ?sell, sw_buy = ?buy, sw_state = Proposed, sw_revealed = None\<rparr>"
  let ?calls = "[SellFunded, RedeemSell, BuyFunded, RefundAt 9, RedeemBuy 6, RedeemBuy 7]"
  have s0: "propose 1 7 ?sell ?buy = Inr ?s0" by (simp add: propose_def)
  have r: "swap_calls ?R ?calls ?s0 = ?s0\<lparr>sw_state := Redeemed, sw_revealed := Some 7\<rparr>"
    by (simp add: swap_defs bridge_sha256_def plain_remote_def)
  from swap_atomic [OF s0 r [symmetric], THEN conjunct2, THEN conjunct2, THEN conjunct1] show ?thesis
    by (simp add: swap_defs bridge_sha256_def plain_remote_def)
qed

section \<open>The watcher\<close>

datatype lat_leg_state = LegAbsent | LegOpen | LegClaimed id32 | GoneUnclaimed

datatype watch_result = Pending | Revealed id32 | RefundReady | BadPreimage

record preimage_watch =
  pw_htlc_id :: id32
  pw_hashlock :: id32
  pw_expiry :: u64

definition watch_new :: "id32 \<Rightarrow> id32 \<Rightarrow> u64 \<Rightarrow> preimage_watch" where
  "watch_new i hashlock expiry = \<lparr>pw_htlc_id = i, pw_hashlock = hashlock, pw_expiry = expiry\<rparr>"

text \<open>An observer is the pair of its functions \<^verbatim>\<open>lat_leg\<close> and \<^verbatim>\<open>height\<close>.\<close>

definition watch_poll :: "remote \<Rightarrow> (id32 \<Rightarrow> lat_leg_state) \<Rightarrow> u64 \<Rightarrow> preimage_watch \<Rightarrow> watch_result" where
  "watch_poll R lat_leg height w = (case lat_leg (pw_htlc_id w) of
       LegClaimed preimage \<Rightarrow>
         if bridge_sha256 R (be_bytes 32 preimage) = pw_hashlock w then Revealed preimage else BadPreimage
     | GoneUnclaimed \<Rightarrow> RefundReady
     | LegOpen \<Rightarrow> if height \<ge> pw_expiry w then RefundReady else Pending
     | LegAbsent \<Rightarrow> Pending)"

subsection \<open>The observer behind a node\<close>

text \<open>The calls of a node over RPC; a failed call is \<open>Inl ()\<close>.\<close>

record node_rpc =
  rpc_block :: "string \<Rightarrow> u64 \<Rightarrow> unit + bytes option"
  rpc_height :: "string \<Rightarrow> unit + u64"
  rpc_htlc :: "string \<Rightarrow> id32 \<Rightarrow> unit + (u32 \<times> id32 \<times> id32 \<times> u64 \<times> id32 \<times> u64) option"

record node_observer =
  no_addr :: string
  no_scan_window :: u64

definition observer_new :: "string \<Rightarrow> node_observer" where
  "observer_new addr = \<lparr>no_addr = addr, no_scan_window = 1024\<rparr>"

definition with_scan_window :: "u64 \<Rightarrow> node_observer \<Rightarrow> node_observer" where
  "with_scan_window blocks ob = ob\<lparr>no_scan_window := blocks\<rparr>"

fun claim_in :: "id32 \<Rightarrow> ('g, 's, 'r) transaction list \<Rightarrow> id32 option" where
  "claim_in i [] = None"
| "claim_in i (tx # txs) = (case tx of
     HtlcClaim cid preimage \<Rightarrow> if cid = i then Some preimage else claim_in i txs
   | _ \<Rightarrow> claim_in i txs)"

fun scan_claim ::
  "('g::ab_group_add, 's::comm_ring_1, 'r) prims \<Rightarrow> node_rpc \<Rightarrow> string \<Rightarrow> id32 \<Rightarrow> u64 list \<Rightarrow> id32 option" where
  "scan_claim P N addr i [] = None"
| "scan_claim P N addr i (h # hs) = (case rpc_block N addr h of
     Inr (Some bytes) \<Rightarrow> (case block_decode P bytes of
         Some b \<Rightarrow> (case claim_in i (blk_txs b) of Some p \<Rightarrow> Some p | None \<Rightarrow> scan_claim P N addr i hs)
       | None \<Rightarrow> scan_claim P N addr i hs)
   | _ \<Rightarrow> scan_claim P N addr i hs)"

definition find_claim ::
  "('g::ab_group_add, 's::comm_ring_1, 'r) prims \<Rightarrow> node_rpc \<Rightarrow> node_observer \<Rightarrow> id32 \<Rightarrow> u64 \<Rightarrow> id32 option" where
  "find_claim P N ob i height = (let start = saturating_sub height (no_scan_window ob) in
     scan_claim P N (no_addr ob) i (rev (map of_nat [unat start ..< Suc (unat height)])))"

definition observer_height :: "node_rpc \<Rightarrow> node_observer \<Rightarrow> u64" where
  "observer_height N ob = (case rpc_height N (no_addr ob) of Inr h \<Rightarrow> h | Inl _ \<Rightarrow> 0)"

definition observer_lat_leg ::
  "('g::ab_group_add, 's::comm_ring_1, 'r) prims \<Rightarrow> node_rpc \<Rightarrow> node_observer \<Rightarrow> id32 \<Rightarrow> lat_leg_state" where
  "observer_lat_leg P N ob i = (case rpc_htlc N (no_addr ob) i of
       Inr (Some _) \<Rightarrow> LegOpen
     | Inr None \<Rightarrow> (case find_claim P N ob i (observer_height N ob) of
           Some pre \<Rightarrow> LegClaimed pre
         | None \<Rightarrow> GoneUnclaimed)
     | Inl _ \<Rightarrow> LegAbsent)"

subsection \<open>The watcher reads the chain\<close>

text \<open>A node that serves a chain, and the claims on its active blocks.\<close>

definition serves :: "node_rpc \<Rightarrow> string \<Rightarrow> 'g blockchain \<Rightarrow> bool" where
  "serves N addr c \<longleftrightarrow> rpc_height N addr = Inr (bc_active_height c) \<and> (\<forall>h. rpc_block N addr h = Inr (block_bytes c h)) \<and>
     (\<forall>i. rpc_htlc N addr i = Inr (map_option (\<lambda>h. (htlc_token h, htlc_from h, htlc_to h, htlc_amount h, htlc_hashlock h, htlc_expiry h))
        (get_htlc (fst (bc_active_state c)) i)))"

definition claimed_at :: "('g::ab_group_add, 's::comm_ring_1, 'r) prims \<Rightarrow> 'g blockchain \<Rightarrow> u64 \<Rightarrow> id32 \<Rightarrow> id32 \<Rightarrow> bool" where
  "claimed_at P c h i p \<longleftrightarrow> (\<exists>bytes b. block_bytes c h = Some bytes \<and> block_decode P bytes = Some b \<and> HtlcClaim i p \<in> set (blk_txs b))"

lemma claim_in_Some: "claim_in i txs = Some p \<Longrightarrow> HtlcClaim i p \<in> set txs"
  by (induction txs) (auto split: transaction.splits if_splits)

lemma claim_in_None: "claim_in i txs = None \<longleftrightarrow> (\<forall>p. HtlcClaim i p \<notin> set txs)"
  by (induction txs) (auto split: transaction.splits)

lemma scan_claim_Some:
  assumes "serves N addr c"
  shows "scan_claim P N addr i hs = Some p \<Longrightarrow> \<exists>h\<in>set hs. claimed_at P c h i p"
  using assms by (induction hs) (auto simp: serves_def claimed_at_def split: option.splits dest: claim_in_Some)

lemma scan_claim_None:
  assumes "serves N addr c"
  shows "scan_claim P N addr i hs = None \<longleftrightarrow> (\<forall>h\<in>set hs. \<forall>p. \<not> claimed_at P c h i p)"
  using assms by (induction hs) (auto simp: serves_def claimed_at_def claim_in_None split: option.splits intro: claim_in_Some)

lemma window_heights:
  "set (map of_nat [unat (saturating_sub height w) ..< Suc (unat height)]) = {h :: u64. saturating_sub height w \<le> h \<and> h \<le> height}"
proof -
  have "\<exists>n\<in>{unat (saturating_sub height w) ..< Suc (unat height)}. h = of_nat n"
    if "saturating_sub height w \<le> h" "h \<le> height" for h :: u64
    using that by (intro bexI [of _ "unat h"]) (simp_all add: word_le_nat_alt less_Suc_eq_le)
  moreover have "saturating_sub height w \<le> of_nat n \<and> of_nat n \<le> height"
    if n: "unat (saturating_sub height w) \<le> n" "n \<le> unat height" for n
  proof -
    have "n < 2 ^ 64" using n(2) unat_lt2p [of height] by simp
    then have "unat (of_nat n :: u64) = n" by (simp add: unat_of_nat take_bit_nat_eq_self)
    then show ?thesis using n by (simp add: word_le_nat_alt)
  qed
  ultimately show ?thesis unfolding set_map set_upt by (intro set_eqI iffI) (fastforce simp: less_Suc_eq_le)+
qed


text \<open>A node at height 3 with one open lock that expires at 10; and a lock that was never created.\<close>

definition demo_served :: "u64 blockchain" where
  "demo_served = \<lparr>bc_tree = fmempty, bc_genesis_id = 1, bc_premine = [], bc_public_premine = [], bc_active_tip = 4,
     bc_active_height = 3, bc_active_state = (demo_ledger, 0, mem_new), bc_active_chain = [1, 2, 3, 4], bc_store = None,
     bc_prune_window = None, bc_finalized = None, bc_recent_sets = []\<rparr>"

definition demo_rpc :: node_rpc where
  "demo_rpc = \<lparr>rpc_block = (\<lambda>_ h. Inr (block_bytes demo_served h)), rpc_height = (\<lambda>_. Inr 3),
     rpc_htlc = (\<lambda>_ i. Inr (map_option (\<lambda>h. (htlc_token h, htlc_from h, htlc_to h, htlc_amount h, htlc_hashlock h, htlc_expiry h))
        (get_htlc demo_ledger i)))\<rparr>"


end
