(* ===== verification/Bridge_Legs.thy ===== *)
theory Bridge_Legs
  imports Bridge Ledger_Settlement
begin

text \<open>
  The legs of a swap on the other chains: the adapters \<^verbatim>\<open>btc.rs\<close>, \<^verbatim>\<open>evm.rs\<close> and \<^verbatim>\<open>sol.rs\<close> of \<^verbatim>\<open>lat-bridge\<close>, which share the
  trait \<^verbatim>\<open>ChainAdapter\<close>, and the reference contract \<^verbatim>\<open>HashedTimelock\<close> that \<^verbatim>\<open>evm.rs\<close> carries as Solidity source. The
  reference program in \<^verbatim>\<open>sol.rs\<close> leaves its transfers as comments and is not modelled.
\<close>

section \<open>Adapters\<close>

datatype leg_fault = LegError bridge_error | LegPanic

fun dec_string :: "nat \<Rightarrow> string" where
  "dec_string n = (if n < 10 then [char_of (48 + n)] else dec_string (n div 10) @ [char_of (48 + n mod 10)])"

declare dec_string.simps [simp del]

text \<open>The UTF-8 bytes of the dash in the messages.\<close>

definition EM_DASH :: string where "EM_DASH = [CHR 0xE2, CHR 0x80, CHR 0x94]"

abbreviation shown :: "'a::len word \<Rightarrow> string" where
  "shown w \<equiv> dec_string (unat w)"

subsection \<open>Bitcoin\<close>

definition OP_IF :: byte where "OP_IF = 0x63"
definition OP_ELSE :: byte where "OP_ELSE = 0x67"
definition OP_ENDIF :: byte where "OP_ENDIF = 0x68"
definition OP_DROP :: byte where "OP_DROP = 0x75"
definition OP_EQUALVERIFY :: byte where "OP_EQUALVERIFY = 0x88"
definition OP_SHA256 :: byte where "OP_SHA256 = 0xa8"
definition OP_CHECKSIG :: byte where "OP_CHECKSIG = 0xac"
definition OP_CHECKLOCKTIMEVERIFY :: byte where "OP_CHECKLOCKTIMEVERIFY = 0xb1"

record btc_adapter =
  ba_network :: bridge_network

definition btc_hrp :: "btc_adapter \<Rightarrow> string" where
  "btc_hrp A = (case ba_network A of Mainnet \<Rightarrow> ''bc'' | Testnet \<Rightarrow> ''tb'')"

definition leg_push :: "bytes \<Rightarrow> bytes \<Rightarrow> leg_fault + bytes" where
  "leg_push script data = map_sum (\<lambda>_. LegPanic) id (push_data script data)"

text \<open>\<^verbatim>\<open>p.timelock as i64\<close> is the same 64-bit word.\<close>

definition redeem_script :: "htlc_params \<Rightarrow> leg_fault + bytes" where
  "redeem_script p =
    (if length (hp_recipient p) \<noteq> 33 then Inl (LegError (BadParam ''BTC recipient must be a 33-byte compressed pubkey''))
     else if length (hp_refund p) \<noteq> 33 then Inl (LegError (BadParam ''BTC refund must be a 33-byte compressed pubkey''))
     else try_then (leg_push [OP_IF, OP_SHA256] (be_bytes 32 (hp_hashlock p))) (\<lambda>s.
          try_then (leg_push (s @ [OP_EQUALVERIFY]) (hp_recipient p)) (\<lambda>s.
          try_then (leg_push (s @ [OP_CHECKSIG, OP_ELSE]) (script_num (hp_timelock p))) (\<lambda>s.
          try_then (leg_push (s @ [OP_CHECKLOCKTIMEVERIFY, OP_DROP]) (hp_refund p)) (\<lambda>s.
          Inr (s @ [OP_CHECKSIG, OP_ENDIF]))))))"

definition p2wsh_address :: "remote \<Rightarrow> btc_adapter \<Rightarrow> bytes \<Rightarrow> string" where
  "p2wsh_address R A script = rm_segwit_v0 R (btc_hrp A) (bridge_sha256 R script)"

definition btc_lock_artifact :: "remote \<Rightarrow> btc_adapter \<Rightarrow> htlc_params \<Rightarrow> leg_fault + htlc_artifact" where
  "btc_lock_artifact R A p = try_then (redeem_script p) (\<lambda>script.
     let address = p2wsh_address R A script in
     Inr \<lparr>ha_chain = Bitcoin, ha_deposit_address = address, ha_script_hex = rm_hex R script,
       ha_instructions = ''Send '' @ shown (hp_amount p) @ '' sat to the P2WSH address '' @ address
         @ ''. It becomes claimable by the recipient with the preimage, or refundable to you after block ''
         @ shown (hp_timelock p) @ ''.''\<rparr>)"

definition btc_claim :: "remote \<Rightarrow> htlc_params \<Rightarrow> id32 \<Rightarrow> leg_fault + bridge_tx" where
  "btc_claim R p preimage = try_then (redeem_script p) (\<lambda>script.
     Inr \<lparr>bt_chain = Bitcoin, bt_action = Claim, bt_payload_hex = rm_hex R script,
       bt_describe = ''Spend the P2WSH output with witness stack [<signature> '' @ rm_hex R (be_bytes 32 preimage)
         @ '' 0x01 <redeemScript>] (the 0x01 selects the OP_IF branch). redeemScript = the payload hex.''\<rparr>)"

definition btc_refund :: "remote \<Rightarrow> htlc_params \<Rightarrow> leg_fault + bridge_tx" where
  "btc_refund R p = try_then (redeem_script p) (\<lambda>script.
     Inr \<lparr>bt_chain = Bitcoin, bt_action = Refund, bt_payload_hex = rm_hex R script,
       bt_describe = ''After block '' @ shown (hp_timelock p)
         @ '', spend the P2WSH output with witness stack [<signature> <empty> <redeemScript>], the transaction''
         @ [CHR 0x27] @ ''s nLockTime set to at least '' @ shown (hp_timelock p)
         @ '' and the input'' @ [CHR 0x27] @ ''s nSequence below 0xffffffff.''\<rparr>)"

subsection \<open>EVM chains\<close>

record evm_adapter =
  ea_contract :: addr20
  ea_chain_id :: u64
  ea_network :: bridge_network

definition leg_word :: "bytes \<Rightarrow> leg_fault + bytes" where
  "leg_word b = map_sum (\<lambda>_. LegPanic) id (abi_word b)"

definition recipient_word :: "htlc_params \<Rightarrow> leg_fault + bytes" where
  "recipient_word p = (if length (hp_recipient p) \<noteq> 20
     then Inl (LegError (BadParam ''EVM recipient must be a 20-byte address'')) else leg_word (hp_recipient p))"

definition lock_calldata :: "remote \<Rightarrow> htlc_params \<Rightarrow> leg_fault + bytes" where
  "lock_calldata R p = try_then (recipient_word p) (\<lambda>r. try_then (leg_word (be_bytes 8 (hp_timelock p))) (\<lambda>t.
     Inr (selector R ''lock(bytes32,address,uint256)'' @ be_bytes 32 (hp_hashlock p) @ r @ t)))"

definition evm_lock_artifact :: "remote \<Rightarrow> evm_adapter \<Rightarrow> htlc_params \<Rightarrow> leg_fault + htlc_artifact" where
  "evm_lock_artifact R A p = try_then (lock_calldata R p) (\<lambda>calldata.
     let addr = eip55 R (ea_contract A) in
     Inr \<lparr>ha_chain = Ethereum, ha_deposit_address = addr, ha_script_hex = rm_hex R calldata,
       ha_instructions = ''On chain id '' @ shown (ea_chain_id A) @ '', send a transaction to the HashedTimelock contract ''
         @ addr @ '' with value '' @ shown (hp_amount p)
         @ '' wei and the payload hex as calldata (calls lock(hashlock, recipient, timelock)).''\<rparr>)"

definition evm_claim :: "remote \<Rightarrow> evm_adapter \<Rightarrow> htlc_params \<Rightarrow> id32 \<Rightarrow> leg_fault + bridge_tx" where
  "evm_claim R A p preimage = Inr \<lparr>bt_chain = Ethereum, bt_action = Claim,
     bt_payload_hex = rm_hex R (selector R ''withdraw(bytes32,bytes32)'' @ be_bytes 32 (hp_hashlock p) @ be_bytes 32 preimage),
     bt_describe = ''Call withdraw(hashlock, preimage) on '' @ eip55 R (ea_contract A)
       @ '' '' @ EM_DASH @ '' reveals the preimage and pays the recipient.''\<rparr>"

definition evm_refund :: "remote \<Rightarrow> evm_adapter \<Rightarrow> htlc_params \<Rightarrow> leg_fault + bridge_tx" where
  "evm_refund R A p = Inr \<lparr>bt_chain = Ethereum, bt_action = Refund,
     bt_payload_hex = rm_hex R (selector R ''refund(bytes32)'' @ be_bytes 32 (hp_hashlock p)),
     bt_describe = ''After unix time '' @ shown (hp_timelock p) @ '', call refund(hashlock) on '' @ eip55 R (ea_contract A)
       @ '' to reclaim the locked value.''\<rparr>"

subsection \<open>Solana\<close>

record sol_adapter =
  sa_program_id :: id32
  sa_network :: bridge_network

definition discriminator :: "remote \<Rightarrow> string \<Rightarrow> bytes" where
  "discriminator R ix = take 8 (be_bytes 32 (bridge_sha256 R (ascii (''global:'' @ ix))))"

definition pda_candidate :: "remote \<Rightarrow> sol_adapter \<Rightarrow> id32 \<Rightarrow> byte \<Rightarrow> id32" where
  "pda_candidate R A hashlock bump = bridge_sha256 R (ascii ''htlc'' @ be_bytes 32 hashlock @ [bump]
     @ be_bytes 32 (sa_program_id A) @ ascii ''ProgramDerivedAddress'')"

fun find_bump :: "remote \<Rightarrow> sol_adapter \<Rightarrow> id32 \<Rightarrow> byte list \<Rightarrow> leg_fault + id32 \<times> byte" where
  "find_bump R A hashlock [] = Inl LegPanic"
| "find_bump R A hashlock (bump # rest) = (let cand = pda_candidate R A hashlock bump in
     if \<not> rm_on_curve R cand then Inr (cand, bump) else find_bump R A hashlock rest)"

definition escrow_pda :: "remote \<Rightarrow> sol_adapter \<Rightarrow> id32 \<Rightarrow> leg_fault + id32 \<times> byte" where
  "escrow_pda R A hashlock = find_bump R A hashlock (rev (map of_nat [0..<256]))"

definition initialize_data :: "remote \<Rightarrow> htlc_params \<Rightarrow> leg_fault + bytes" where
  "initialize_data R p =
    (if length (hp_recipient p) \<noteq> 32 then Inl (LegError (BadParam ''SOL recipient must be a 32-byte pubkey''))
     else if unat (hp_amount p) \<ge> 2 ^ 64 then Inl (LegError (BadParam ''SOL amount exceeds u64 lamports''))
     else Inr (discriminator R ''initialize'' @ be_bytes 32 (hp_hashlock p) @ le_bytes 8 (hp_timelock p)
       @ hp_recipient p @ le_bytes 8 (ucast (hp_amount p) :: u64)))"

definition base58_id :: "id32 \<Rightarrow> string" where
  "base58_id i = base58 (be_bytes 32 i)"

definition sol_lock_artifact :: "remote \<Rightarrow> sol_adapter \<Rightarrow> htlc_params \<Rightarrow> leg_fault + htlc_artifact" where
  "sol_lock_artifact R A p = try_then (initialize_data R p) (\<lambda>data. try_then (escrow_pda R A (hp_hashlock p)) (\<lambda>(pda, bump).
     Inr \<lparr>ha_chain = Solana, ha_deposit_address = base58_id pda, ha_script_hex = rm_hex R data,
       ha_instructions = ''Invoke program '' @ base58_id (sa_program_id A)
         @ '' instruction `initialize` (payload hex) with the escrow PDA '' @ base58_id pda @ '' (bump '' @ shown bump
         @ ''); it locks '' @ shown (hp_amount p) @ '' lamports under the hashlock.''\<rparr>))"

definition sol_claim :: "remote \<Rightarrow> sol_adapter \<Rightarrow> htlc_params \<Rightarrow> id32 \<Rightarrow> leg_fault + bridge_tx" where
  "sol_claim R A p preimage = try_then (escrow_pda R A (hp_hashlock p)) (\<lambda>(pda, _).
     Inr \<lparr>bt_chain = Solana, bt_action = Claim, bt_payload_hex = rm_hex R (discriminator R ''redeem'' @ be_bytes 32 preimage),
       bt_describe = ''Invoke `redeem` on program '' @ base58_id (sa_program_id A) @ '' with the escrow PDA '' @ base58_id pda
         @ '' '' @ EM_DASH @ '' reveals the preimage and pays the recipient.''\<rparr>)"

definition sol_refund :: "remote \<Rightarrow> sol_adapter \<Rightarrow> htlc_params \<Rightarrow> leg_fault + bridge_tx" where
  "sol_refund R A p = try_then (escrow_pda R A (hp_hashlock p)) (\<lambda>(pda, _).
     Inr \<lparr>bt_chain = Solana, bt_action = Refund, bt_payload_hex = rm_hex R (discriminator R ''refund''),
       bt_describe = ''After unix time '' @ shown (hp_timelock p) @ '', invoke `refund` on program '' @ base58_id (sa_program_id A)
         @ '' with the escrow PDA '' @ base58_id pda @ '' to return the lamports to the funder.''\<rparr>)"

section \<open>The contract of the adapters\<close>

text \<open>
  The trait \<^verbatim>\<open>ChainAdapter\<close>: what was locked can be claimed and refunded, on the same chain, and the deposit commits to the
  hashlock and the recipient.
\<close>

locale chain_adapter =
  fixes chain :: chain
    and lock_artifact :: "htlc_params \<Rightarrow> leg_fault + htlc_artifact"
    and claim :: "htlc_params \<Rightarrow> id32 \<Rightarrow> leg_fault + bridge_tx"
    and refund :: "htlc_params \<Rightarrow> leg_fault + bridge_tx"
  assumes locked: "lock_artifact p = Inr a \<Longrightarrow> ha_chain a = chain"
    and claimable: "lock_artifact p = Inr a \<Longrightarrow> \<exists>t. claim p preimage = Inr t"
    and claimed: "claim p preimage = Inr t \<Longrightarrow> bt_chain t = chain \<and> bt_action t = Claim"
    and refundable: "lock_artifact p = Inr a \<Longrightarrow> \<exists>t. refund p = Inr t"
    and refunded: "refund p = Inr t \<Longrightarrow> bt_chain t = chain \<and> bt_action t = Refund"
begin

lemma exits:
  assumes "lock_artifact p = Inr a"
  shows "ha_chain a = chain \<and> (\<exists>t. claim p preimage = Inr t \<and> bt_chain t = ha_chain a \<and> bt_action t = Claim) \<and>
    (\<exists>t. refund p = Inr t \<and> bt_chain t = ha_chain a \<and> bt_action t = Refund)"
  using locked [OF assms] claimable [OF assms] claimed refundable [OF assms] refunded by metis

end

interpretation btc: chain_adapter Bitcoin "btc_lock_artifact R A" "btc_claim R" "btc_refund R" for R A
  by unfold_locales (auto simp: btc_lock_artifact_def btc_claim_def btc_refund_def Let_def)

interpretation evm: chain_adapter Ethereum "evm_lock_artifact R A" "evm_claim R A" "evm_refund R A" for R A
  by unfold_locales (auto simp: evm_lock_artifact_def evm_claim_def evm_refund_def Let_def)

interpretation sol: chain_adapter Solana "sol_lock_artifact R A" "sol_claim R A" "sol_refund R A" for R A
  by unfold_locales (auto simp: sol_lock_artifact_def sol_claim_def sol_refund_def)

section \<open>The Bitcoin script binds the terms\<close>

lemma leg_push_ok: "length data \<le> 75 \<Longrightarrow> leg_push s data = Inr (s @ [of_nat (length data)] @ data)"
  by (simp add: leg_push_def push_data_def)

lemma redeem_script_Inr:
  "redeem_script p = Inr s \<longleftrightarrow> length (hp_recipient p) = 33 \<and> length (hp_refund p) = 33 \<and>
     s = [0x63, 0xa8, 32] @ be_bytes 32 (hp_hashlock p) @ [0x88, 33] @ hp_recipient p
       @ [0xac, 0x67, of_nat (length (script_num (hp_timelock p)))] @ script_num (hp_timelock p) @ [0xb1, 0x75, 33] @ hp_refund p @ [0xac, 0x68]"
proof -
  have "length (script_num (hp_timelock p)) \<le> 75" using script_num_value [of "hp_timelock p"] by simp
  then show ?thesis
    by (auto simp: redeem_script_def leg_push_ok OP_IF_def OP_SHA256_def OP_EQUALVERIFY_def OP_CHECKSIG_def OP_ELSE_def
        OP_CHECKLOCKTIMEVERIFY_def OP_DROP_def OP_ENDIF_def)
qed

lemma script_num_inject: "script_num m = script_num n \<longleftrightarrow> m = n"
  by (metis script_num_value signed_word_eqI)

text \<open>
  The deposit script binds the terms of the swap. There is a script exactly when both keys have 33 bytes, no push panics,
  and two locks with the same script have the same hashlock, recipient, funder and timelock.
\<close>

lemma redeem_script_binds:
  "(redeem_script p \<noteq> Inl LegPanic) \<and>
   ((\<exists>s. redeem_script p = Inr s) \<longleftrightarrow> length (hp_recipient p) = 33 \<and> length (hp_refund p) = 33) \<and>
   (redeem_script p = Inr s \<and> redeem_script q = Inr s \<longrightarrow> hp_hashlock p = hp_hashlock q \<and>
      hp_recipient p = hp_recipient q \<and> hp_refund p = hp_refund q \<and> hp_timelock p = hp_timelock q)"
proof (intro conjI impI)
  show ex: "(\<exists>s. redeem_script p = Inr s) \<longleftrightarrow> length (hp_recipient p) = 33 \<and> length (hp_refund p) = 33"
    unfolding redeem_script_Inr by blast
  show "redeem_script p \<noteq> Inl LegPanic"
    using ex by (auto simp: redeem_script_def)
  assume "redeem_script p = Inr s \<and> redeem_script q = Inr s"
  then have l: "length (hp_recipient p) = 33" "length (hp_refund p) = 33" "length (hp_recipient q) = 33" "length (hp_refund q) = 33"
    and e: "be_bytes 32 (hp_hashlock p) @ [0x88, 33] @ hp_recipient p @ [0xac, 0x67, of_nat (length (script_num (hp_timelock p)))]
       @ script_num (hp_timelock p) @ [0xb1, 0x75, 33] @ hp_refund p @ [0xac, 0x68] =
      be_bytes 32 (hp_hashlock q) @ [0x88, 33] @ hp_recipient q @ [0xac, 0x67, of_nat (length (script_num (hp_timelock q)))]
       @ script_num (hp_timelock q) @ [0xb1, 0x75, 33] @ hp_refund q @ [0xac, 0x68 :: byte]"
    unfolding redeem_script_Inr by auto
  have len: "length (script_num (hp_timelock p)) = length (script_num (hp_timelock q))"
    using arg_cong [OF e, of length] l by simp
  show "hp_hashlock p = hp_hashlock q" "hp_recipient p = hp_recipient q" "hp_refund p = hp_refund q" "hp_timelock p = hp_timelock q"
    using e l len by (auto simp: script_num_inject append_eq_append_conv)
qed

lemma redeem_script_binds_witness:
  "\<exists>s. redeem_script \<lparr>hp_hashlock = 7, hp_recipient = replicate 33 2, hp_refund = replicate 33 3, hp_amount = 100000, hp_timelock = 800000\<rparr> = Inr s"
  by (subst redeem_script_binds [THEN conjunct2, THEN conjunct1]) simp

section \<open>The contract \<^verbatim>\<open>HashedTimelock\<close>\<close>

text \<open>
  A call that reverts is \<open>None\<close>. The ether of the contract is part of its state; \<open>accepts\<close> says which addresses take a
  payment, which is the environment's choice.
\<close>

type_synonym uint256 = "256 word"

record evm_lock =
  lk_funder :: addr20
  lk_recipient :: addr20
  lk_amount :: uint256
  lk_timelock :: uint256
  lk_claimed :: bool
  lk_refunded :: bool

record hashed_timelock =
  ht_locks :: "(id32, evm_lock) fmap"
  ht_balance :: nat

definition lock_at :: "hashed_timelock \<Rightarrow> id32 \<Rightarrow> evm_lock" where
  "lock_at C h = (case fmlookup (ht_locks C) h of Some l \<Rightarrow> l
     | None \<Rightarrow> \<lparr>lk_funder = 0, lk_recipient = 0, lk_amount = 0, lk_timelock = 0, lk_claimed = False, lk_refunded = False\<rparr>)"

definition evm_lock_call :: "addr20 \<Rightarrow> uint256 \<Rightarrow> uint256 \<Rightarrow> id32 \<Rightarrow> addr20 \<Rightarrow> uint256 \<Rightarrow> hashed_timelock \<Rightarrow> hashed_timelock option" where
  "evm_lock_call sender msg_value now hashlock recipient timelock C =
    (if \<not> msg_value > 0 then None
     else if lk_funder (lock_at C hashlock) \<noteq> 0 then None
     else if \<not> timelock > now then None
     else Some (C\<lparr>ht_locks := fmupd hashlock \<lparr>lk_funder = sender, lk_recipient = recipient, lk_amount = msg_value,
            lk_timelock = timelock, lk_claimed = False, lk_refunded = False\<rparr> (ht_locks C),
          ht_balance := ht_balance C + unat msg_value\<rparr>))"

definition pay_out :: "(addr20 \<Rightarrow> bool) \<Rightarrow> addr20 \<Rightarrow> uint256 \<Rightarrow> hashed_timelock \<Rightarrow> hashed_timelock option" where
  "pay_out accepts to amount C = (if accepts to \<and> unat amount \<le> ht_balance C
     then Some (C\<lparr>ht_balance := ht_balance C - unat amount\<rparr>) else None)"

definition evm_withdraw_call :: "remote \<Rightarrow> (addr20 \<Rightarrow> bool) \<Rightarrow> addr20 \<Rightarrow> id32 \<Rightarrow> id32 \<Rightarrow> hashed_timelock \<Rightarrow> hashed_timelock option" where
  "evm_withdraw_call R accepts sender hashlock preimage C =
    (let l = lock_at C hashlock in
     if lk_recipient l \<noteq> sender then None
     else if \<not> (\<not> lk_claimed l \<and> \<not> lk_refunded l) then None
     else if rm_sha256 R (be_bytes 32 preimage) \<noteq> hashlock then None
     else pay_out accepts (lk_recipient l) (lk_amount l) (C\<lparr>ht_locks := fmupd hashlock (l\<lparr>lk_claimed := True\<rparr>) (ht_locks C)\<rparr>))"

definition evm_refund_call :: "(addr20 \<Rightarrow> bool) \<Rightarrow> addr20 \<Rightarrow> uint256 \<Rightarrow> id32 \<Rightarrow> hashed_timelock \<Rightarrow> hashed_timelock option" where
  "evm_refund_call accepts sender now hashlock C =
    (let l = lock_at C hashlock in
     if lk_funder l \<noteq> sender then None
     else if \<not> (\<not> lk_claimed l \<and> \<not> lk_refunded l) then None
     else if \<not> now \<ge> lk_timelock l then None
     else pay_out accepts (lk_funder l) (lk_amount l) (C\<lparr>ht_locks := fmupd hashlock (l\<lparr>lk_refunded := True\<rparr>) (ht_locks C)\<rparr>))"

text \<open>
  A run of the contract: calls from any senders with what was paid out so far, the hashlock, the payee and the
  amount. Address zero sends no transactions.
\<close>

datatype evm_call =
    CallLock addr20 uint256 uint256 id32 addr20 uint256
  | CallWithdraw addr20 id32 id32
  | CallRefund addr20 uint256 id32

fun evm_call_step :: "remote \<Rightarrow> (addr20 \<Rightarrow> bool) \<Rightarrow> evm_call \<Rightarrow> hashed_timelock \<times> (id32 \<times> addr20 \<times> nat) list \<Rightarrow>
    hashed_timelock \<times> (id32 \<times> addr20 \<times> nat) list" where
  "evm_call_step R acc (CallLock sender v now h recipient timelock) (C, paid) =
     (case if sender = 0 then None else evm_lock_call sender v now h recipient timelock C of Some C' \<Rightarrow> (C', paid) | None \<Rightarrow> (C, paid))"
| "evm_call_step R acc (CallWithdraw sender h p) (C, paid) =
     (case if sender = 0 then None else evm_withdraw_call R acc sender h p C of
        Some C' \<Rightarrow> (C', (h, lk_recipient (lock_at C h), unat (lk_amount (lock_at C h))) # paid) | None \<Rightarrow> (C, paid))"
| "evm_call_step R acc (CallRefund sender now h) (C, paid) =
     (case if sender = 0 then None else evm_refund_call acc sender now h C of
        Some C' \<Rightarrow> (C', (h, lk_funder (lock_at C h), unat (lk_amount (lock_at C h))) # paid) | None \<Rightarrow> (C, paid))"

abbreviation open_amount :: "evm_lock \<Rightarrow> nat" where
  "open_amount l \<equiv> (if lk_claimed l \<or> lk_refunded l then 0 else unat (lk_amount l))"

text \<open>Why a payment was made.\<close>

definition justified :: "remote \<Rightarrow> evm_call list \<Rightarrow> hashed_timelock \<Rightarrow> id32 \<times> addr20 \<times> nat \<Rightarrow> bool" where
  "justified R calls C = (\<lambda>(h, a, n). \<exists>l. fmlookup (ht_locks C) h = Some l \<and> n = unat (lk_amount l) \<and>
     (lk_claimed l \<and> a = lk_recipient l \<and> (\<exists>p. CallWithdraw a h p \<in> set calls \<and> rm_sha256 R (be_bytes 32 p) = h) \<or>
      lk_refunded l \<and> a = lk_funder l \<and> (\<exists>now. CallRefund a now h \<in> set calls \<and> lk_timelock l \<le> now)))"

definition contract_inv :: "remote \<Rightarrow> evm_call list \<Rightarrow> hashed_timelock \<times> (id32 \<times> addr20 \<times> nat) list \<Rightarrow> bool" where
  "contract_inv R calls s \<longleftrightarrow> (case s of (C, paid) \<Rightarrow>
     ht_balance C = fm_sum open_amount (ht_locks C) \<and> distinct (map fst paid) \<and>
     (\<forall>h l. fmlookup (ht_locks C) h = Some l \<longrightarrow> lk_funder l \<noteq> 0 \<and> \<not> (lk_claimed l \<and> lk_refunded l) \<and>
        (h \<in> fst ` set paid \<longleftrightarrow> lk_claimed l \<or> lk_refunded l)) \<and>
     (\<forall>x\<in>set paid. justified R calls C x))"

lemma justified_mono:
  assumes "justified R calls C x" and "\<And>l. fmlookup (ht_locks C) (fst x) = Some l \<Longrightarrow> fmlookup (ht_locks C') (fst x) = Some l"
    and "set calls \<subseteq> set calls'"
  shows "justified R calls' C' x"
  using assms by (cases x) (fastforce simp: justified_def)

lemma lock_at_Some: "fmlookup (ht_locks C) h = Some l \<Longrightarrow> lock_at C h = l"
  by (simp add: lock_at_def)

lemma evm_lock_call_Some:
  assumes "evm_lock_call sender v now h recipient timelock C = Some C'" and "contract_inv R calls (C, paid)" and "sender \<noteq> 0"
  shows "contract_inv R (calls @ [call]) (C', paid)"
proof -
  let ?l = "\<lparr>lk_funder = sender, lk_recipient = recipient, lk_amount = v, lk_timelock = timelock, lk_claimed = False, lk_refunded = False\<rparr>"
  have C': "C' = C\<lparr>ht_locks := fmupd h ?l (ht_locks C), ht_balance := ht_balance C + unat v\<rparr>" and f: "lk_funder (lock_at C h) = 0"
    using assms(1) by (auto simp: evm_lock_call_def split: if_splits)
  note inv = assms(2) [unfolded contract_inv_def prod.case]
  have new: "fmlookup (ht_locks C) h = None"
    using f inv by (cases "fmlookup (ht_locks C) h") (auto simp: lock_at_def)
  have paid: "h \<notin> fst ` set paid" using inv new by (fastforce simp: justified_def)
  have "justified R (calls @ [call]) C' x" if x: "x \<in> set paid" for x
    by (rule justified_mono [of R calls C]) (use inv x paid in \<open>auto simp: C'\<close>)
  then show ?thesis
    using inv new paid assms(3) by (auto simp: contract_inv_def C' fm_sum_upd_None split: if_splits)
qed

text \<open>A call that settles a lock.\<close>

lemma settle_inv:
  assumes inv: "contract_inv R calls (C, paid)" and l: "fmlookup (ht_locks C) h = Some l" and "\<not> lk_claimed l" and "\<not> lk_refunded l"
    and l': "l' = l\<lparr>lk_claimed := True\<rparr> \<and> a = lk_recipient l \<and> (\<exists>p. CallWithdraw a h p = call \<and> rm_sha256 R (be_bytes 32 p) = h) \<or>
      l' = l\<lparr>lk_refunded := True\<rparr> \<and> a = lk_funder l \<and> (\<exists>now. CallRefund a now h = call \<and> lk_timelock l \<le> now)"
    and pay: "pay_out acc a (lk_amount l) (C\<lparr>ht_locks := fmupd h l' (ht_locks C)\<rparr>) = Some C'"
  shows "contract_inv R (calls @ [call]) (C', (h, a, unat (lk_amount l)) # paid)"
proof -
  have C': "ht_locks C' = fmupd h l' (ht_locks C)" "ht_balance C' = ht_balance C - unat (lk_amount l)"
    using pay by (auto simp: pay_out_def split: if_splits)
  note i = inv [unfolded contract_inv_def prod.case]
  have paid: "h \<notin> fst ` set paid" using i l assms(3,4) by blast
  have "fm_sum open_amount (fmupd h l' (ht_locks C)) + unat (lk_amount l) = fm_sum open_amount (ht_locks C)"
    using fm_sum_upd [of open_amount h l' "ht_locks C"] l l' assms(3,4) by auto
  then have balance: "ht_balance C' = fm_sum open_amount (ht_locks C')" using i by (simp add: C')
  have "justified R (calls @ [call]) C' x" if x: "x \<in> set paid" for x
  proof (rule justified_mono [of R calls C])
    show "justified R calls C x" using i x by blast
    have "fst x \<noteq> h" using x paid by force
    then show "fmlookup (ht_locks C) (fst x) = Some k \<Longrightarrow> fmlookup (ht_locks C') (fst x) = Some k" for k by (simp add: C')
  qed auto
  moreover have "justified R (calls @ [call]) C' (h, a, unat (lk_amount l))"
    using l' by (auto simp: justified_def C')
  moreover have "\<forall>k m. fmlookup (ht_locks C') k = Some m \<longrightarrow> lk_funder m \<noteq> 0 \<and> \<not> (lk_claimed m \<and> lk_refunded m) \<and>
      (k \<in> fst ` set ((h, a, unat (lk_amount l)) # paid) \<longleftrightarrow> lk_claimed m \<or> lk_refunded m)"
    using i l l' assms(3,4) by (auto simp: C' split: if_splits)
  ultimately show ?thesis using balance paid i by (simp add: contract_inv_def)
qed

lemma evm_call_step_inv:
  assumes "contract_inv R calls s"
  shows "contract_inv R (calls @ [call]) (evm_call_step R acc call s)"
proof -
  obtain C paid where s: "s = (C, paid)" by (cases s)
  note inv = assms [unfolded s]
  have same: "contract_inv R (calls @ [call]) (C, paid)"
  proof -
    have "justified R calls C x \<Longrightarrow> justified R (calls @ [call]) C x" for x by (rule justified_mono) auto
    then show ?thesis using inv by (simp add: contract_inv_def)
  qed
  show ?thesis
  proof (cases call)
    case (CallLock sender v now h recipient timelock)
    then show ?thesis
      using same evm_lock_call_Some [OF _ inv] by (auto simp: s split: option.split)
  next
    case (CallWithdraw sender h p)
    show ?thesis
    proof (cases "sender \<noteq> 0 \<and> evm_withdraw_call R acc sender h p C \<noteq> None")
      case True
      then obtain C' where C': "evm_withdraw_call R acc sender h p C = Some C'" by blast
      then have w: "lk_recipient (lock_at C h) = sender" "\<not> lk_claimed (lock_at C h)" "\<not> lk_refunded (lock_at C h)"
        "rm_sha256 R (be_bytes 32 p) = h"
        "pay_out acc (lk_recipient (lock_at C h)) (lk_amount (lock_at C h))
           (C\<lparr>ht_locks := fmupd h ((lock_at C h)\<lparr>lk_claimed := True\<rparr>) (ht_locks C)\<rparr>) = Some C'"
        by (auto simp: evm_withdraw_call_def Let_def split: if_splits)
      obtain l where l: "fmlookup (ht_locks C) h = Some l" using w(1) True by (auto simp: lock_at_def split: option.splits)
      have "contract_inv R (calls @ [call]) (C', (h, sender, unat (lk_amount l)) # paid)"
        by (rule settle_inv [OF inv l, where l' = "l\<lparr>lk_claimed := True\<rparr>" and acc = acc])
          (use w CallWithdraw in \<open>auto simp: lock_at_Some [OF l]\<close>)
      then show ?thesis using True C' w(1) by (simp add: s CallWithdraw lock_at_Some [OF l])
    next
      case False
      then show ?thesis using same by (auto simp: s CallWithdraw)
    qed
  next
    case (CallRefund sender now h)
    show ?thesis
    proof (cases "sender \<noteq> 0 \<and> evm_refund_call acc sender now h C \<noteq> None")
      case True
      then obtain C' where C': "evm_refund_call acc sender now h C = Some C'" by blast
      then have w: "lk_funder (lock_at C h) = sender" "\<not> lk_claimed (lock_at C h)" "\<not> lk_refunded (lock_at C h)"
        "lk_timelock (lock_at C h) \<le> now"
        "pay_out acc (lk_funder (lock_at C h)) (lk_amount (lock_at C h))
           (C\<lparr>ht_locks := fmupd h ((lock_at C h)\<lparr>lk_refunded := True\<rparr>) (ht_locks C)\<rparr>) = Some C'"
        by (auto simp: evm_refund_call_def Let_def split: if_splits)
      obtain l where l: "fmlookup (ht_locks C) h = Some l" using w(1) True by (auto simp: lock_at_def split: option.splits)
      have "contract_inv R (calls @ [call]) (C', (h, sender, unat (lk_amount l)) # paid)"
        by (rule settle_inv [OF inv l, where l' = "l\<lparr>lk_refunded := True\<rparr>" and acc = acc])
          (use w CallRefund in \<open>auto simp: lock_at_Some [OF l]\<close>)
      then show ?thesis using True C' w(1) by (simp add: s CallRefund lock_at_Some [OF l])
    next
      case False
      then show ?thesis using same by (auto simp: s CallRefund)
    qed
  qed
qed

abbreviation contract_run :: "remote \<Rightarrow> (addr20 \<Rightarrow> bool) \<Rightarrow> evm_call list \<Rightarrow> hashed_timelock \<times> (id32 \<times> addr20 \<times> nat) list" where
  "contract_run R acc calls \<equiv> foldl (\<lambda>s call. evm_call_step R acc call s) (\<lparr>ht_locks = fmempty, ht_balance = 0\<rparr>, []) calls"

lemma contract_run_inv: "contract_inv R calls (contract_run R acc calls)"
proof (induction calls rule: rev_induct)
  case Nil
  then show ?case by (simp add: contract_inv_def)
next
  case (snoc call calls)
  from evm_call_step_inv [OF this] show ?case by simp
qed

text \<open>An open lock can always be paid out.\<close>

lemma open_lock_pays:
  assumes "contract_inv R calls (C, paid)" and l: "fmlookup (ht_locks C) h = Some l" and "\<not> lk_claimed l" and "\<not> lk_refunded l"
  shows "rm_sha256 R (be_bytes 32 p) = h \<Longrightarrow> acc (lk_recipient l) \<Longrightarrow>
      \<exists>C'. evm_withdraw_call R acc (lk_recipient l) h p C = Some C' \<and> ht_balance C' + unat (lk_amount l) = ht_balance C"
    and "lk_timelock l \<le> now \<Longrightarrow> acc (lk_funder l) \<Longrightarrow>
      \<exists>C'. evm_refund_call acc (lk_funder l) now h C = Some C' \<and> ht_balance C' + unat (lk_amount l) = ht_balance C"
proof -
  have "unat (lk_amount l) \<le> ht_balance C"
    using fm_sum_member [OF l, of open_amount] assms(1,3,4) by (simp add: contract_inv_def)
  then show "rm_sha256 R (be_bytes 32 p) = h \<Longrightarrow> acc (lk_recipient l) \<Longrightarrow>
      \<exists>C'. evm_withdraw_call R acc (lk_recipient l) h p C = Some C' \<and> ht_balance C' + unat (lk_amount l) = ht_balance C"
    "lk_timelock l \<le> now \<Longrightarrow> acc (lk_funder l) \<Longrightarrow>
      \<exists>C'. evm_refund_call acc (lk_funder l) now h C = Some C' \<and> ht_balance C' + unat (lk_amount l) = ht_balance C"
    using assms(3,4) by (simp_all add: evm_withdraw_call_def evm_refund_call_def pay_out_def lock_at_Some [OF l])
qed

text \<open>
  No leg strands its funds. Whatever the adapter of a chain gives a deposit for, it also gives the claim and the refund
  for, on the same chain: on Bitcoin, on EVM chains and on Solana.
\<close>

lemma adapters_never_strand:
  "(btc_lock_artifact R A p = Inr a \<longrightarrow> ha_chain a = Bitcoin \<and> (\<exists>t. btc_claim R p s = Inr t \<and> bt_chain t = Bitcoin \<and> bt_action t = Claim) \<and>
      (\<exists>t. btc_refund R p = Inr t \<and> bt_chain t = Bitcoin \<and> bt_action t = Refund)) \<and>
   (evm_lock_artifact R B p = Inr a \<longrightarrow> ha_chain a = Ethereum \<and> (\<exists>t. evm_claim R B p s = Inr t \<and> bt_chain t = Ethereum \<and> bt_action t = Claim) \<and>
      (\<exists>t. evm_refund R B p = Inr t \<and> bt_chain t = Ethereum \<and> bt_action t = Refund)) \<and>
   (sol_lock_artifact R D p = Inr a \<longrightarrow> ha_chain a = Solana \<and> (\<exists>t. sol_claim R D p s = Inr t \<and> bt_chain t = Solana \<and> bt_action t = Claim) \<and>
      (\<exists>t. sol_refund R D p = Inr t \<and> bt_chain t = Solana \<and> bt_action t = Refund))"
  using btc.exits [of R A p a s] evm.exits [of R B p a s] sol.exits [of R D p a s] by auto

text \<open>
  C28: the contract settles every lock once. After any calls by anyone, its balance is exactly what is locked and not yet paid
  out; each lock was paid at most once, in full, either to its recipient, who gave a preimage of the hashlock, or to its
  funder, at or after its timelock; and every open lock still pays both ways.
\<close>

theorem contract_settles_once:
  assumes "contract_run R acc calls = (C, paid)"
  shows "ht_balance C = fm_sum open_amount (ht_locks C) \<and> distinct (map fst paid) \<and> list_all (justified R calls C) paid \<and>
    (\<forall>h l. fmlookup (ht_locks C) h = Some l \<and> \<not> lk_claimed l \<and> \<not> lk_refunded l \<longrightarrow>
      (\<forall>p. rm_sha256 R (be_bytes 32 p) = h \<and> acc (lk_recipient l) \<longrightarrow> evm_withdraw_call R acc (lk_recipient l) h p C \<noteq> None) \<and>
      (\<forall>now. lk_timelock l \<le> now \<and> acc (lk_funder l) \<longrightarrow> evm_refund_call acc (lk_funder l) now h C \<noteq> None))"
proof (intro conjI allI impI)
  have inv: "contract_inv R calls (C, paid)" using contract_run_inv [of R calls acc] by (simp add: assms)
  note i = inv [unfolded contract_inv_def prod.case]
  show "ht_balance C = fm_sum open_amount (ht_locks C)" using i by (rule conjunct1)
  show "distinct (map fst paid)" using i by (elim conjE)
  show "list_all (justified R calls C) paid" using i unfolding list_all_iff by (elim conjE)
  fix h l
  assume l: "fmlookup (ht_locks C) h = Some l \<and> \<not> lk_claimed l \<and> \<not> lk_refunded l"
  show "evm_withdraw_call R acc (lk_recipient l) h p C \<noteq> None" if "rm_sha256 R (be_bytes 32 p) = h \<and> acc (lk_recipient l)" for p
    using open_lock_pays(1) [OF inv, of h l p acc] l that by blast
  show "evm_refund_call acc (lk_funder l) now h C \<noteq> None" if "lk_timelock l \<le> now \<and> acc (lk_funder l)" for now
    using open_lock_pays(2) [OF inv, of h l now acc] l that by blast
qed

text \<open>A lock that is claimed with the secret 7, then claimed and refunded again in vain.\<close>

theorem contract_settles_once_witness:
  "snd (contract_run plain_remote (\<lambda>_. True) [CallLock 1 50 100 7 2 200, CallWithdraw 3 7 7, CallWithdraw 2 7 8, CallWithdraw 2 7 7,
     CallWithdraw 2 7 7, CallRefund 1 300 7]) = [(7, 2, 50)]"
proof -
  let ?calls = "[CallLock 1 50 100 7 2 200, CallWithdraw 3 7 7, CallWithdraw 2 7 8, CallWithdraw 2 7 7, CallWithdraw 2 7 7, CallRefund 1 300 7]"
  have r: "contract_run plain_remote (\<lambda>_. True) ?calls = (\<lparr>ht_locks = fmupd 7 \<lparr>lk_funder = 1, lk_recipient = 2, lk_amount = 50,
     lk_timelock = 200, lk_claimed = True, lk_refunded = False\<rparr> fmempty, ht_balance = 0\<rparr>, [(7, 2, 50)])"
    by (simp add: plain_remote_def evm_lock_call_def evm_withdraw_call_def evm_refund_call_def pay_out_def lock_at_def Let_def)
  from contract_settles_once [OF r] show ?thesis by (simp only: r) simp
qed

text \<open>
  The two legs take one secret. A claim of the lock on Latebra that is accepted pays the receiver and closes the
  lock; the preimage it carries, where the watcher's observer answers with it, is reported, and it lets the recipient of the lock with the same hashlock on
  the EVM contract withdraw its full amount, at any time until the funder took a refund (not before
  its timelock).
\<close>

lemma reveal_settles_other_leg:
  assumes "apply_at P (HtlcClaim i p) height L = (None, L')" and "get_htlc L i = Some lock"
    and "htlc_hashlock lock = pw_hashlock w" and "sha256 P = rm_sha256 R"
    and "contract_run R acc calls = (C, paid)" and "fmlookup (ht_locks C) (pw_hashlock w) = Some l"
    and "\<not> lk_claimed l" and "\<not> lk_refunded l" and "acc (lk_recipient l)"
  shows "(\<exists>ks. L' = mark_all ks (credit_public (htlc_to lock) (htlc_token lock) (htlc_amount lock) (drop_htlc i L))) \<and>
    get_htlc L' i = None \<and> watch_poll R (\<lambda>_. LegClaimed p) height w = Revealed p \<and>
    (\<exists>C'. evm_withdraw_call R acc (lk_recipient l) (pw_hashlock w) p C = Some C' \<and> ht_balance C' + unat (lk_amount l) = ht_balance C)"
proof -
  have inv: "contract_inv R calls (C, paid)" using contract_run_inv [of R calls acc] by (simp add: assms(5))
  obtain M where M: "apply_inner P (HtlcClaim i p) height None L = (None, M)" "L' = mark_all (dirty_keys_for P M (HtlcClaim i p)) M"
    using apply_at_None [of P "HtlcClaim i p" height L] assms(1) by auto
  then have "apply_htlc_claim P height i p L = Inr M" by (auto simp: or_keep_def split: sum.splits)
  then have h: "sha256 P (be_bytes 32 p) = htlc_hashlock lock"
    "M = credit_public (htlc_to lock) (htlc_token lock) (htlc_amount lock) (drop_htlc i L)"
    using assms(2) by (auto elim!: htlc_claim_Inr)
  then have s: "rm_sha256 R (be_bytes 32 p) = pw_hashlock w" using assms(3,4) by simp
  then have "watch_poll R (\<lambda>_. LegClaimed p) height w = Revealed p" by (simp add: watch_poll_def bridge_sha256_def)
  moreover have "get_htlc L' i = None" by (simp add: M(2) h(2))
  ultimately show ?thesis using open_lock_pays(1) [where acc = acc, OF inv assms(6-8) s assms(9)] M(2) h(2) by blast
qed

lemma reveal_settles_other_leg_witness:
  "\<exists>C C'. contract_run (plain_remote\<lparr>rm_sha256 := of_le\<rparr>) (\<lambda>_. True) [CallLock 1 50 100 0 2 200] = (C, []) \<and>
     evm_withdraw_call (plain_remote\<lparr>rm_sha256 := of_le\<rparr>) (\<lambda>_. True) 2 0 0 C = Some C' \<and> ht_balance C' + 50 = ht_balance C"
proof -
  let ?P = "toy_prims :: (u64, u64, unit) prims" and ?R = "plain_remote\<lparr>rm_sha256 := of_le\<rparr>" and ?w = "watch_new 9 0 10"
  let ?l = "\<lparr>lk_funder = 1, lk_recipient = 2, lk_amount = 50, lk_timelock = 200, lk_claimed = False, lk_refunded = False\<rparr> :: evm_lock"
  have r: "contract_run ?R (\<lambda>_. True) [CallLock 1 50 100 0 2 200] = (\<lparr>ht_locks = fmupd 0 ?l fmempty, ht_balance = 50\<rparr>, [])"
    by (simp add: evm_lock_call_def lock_at_def)
  have zero: "of_le (be_bytes 32 (0 :: id32)) = (0 :: id32)"
    by (simp add: be_bytes_def le_bytes_def upt_rec)
  let ?C = "\<lparr>ht_locks = fmupd 0 ?l fmempty, ht_balance = 50\<rparr>"
  let ?lock = "\<lparr>htlc_token = 0, htlc_from = 0, htlc_to = 8, htlc_amount = 50, htlc_hashlock = 0, htlc_expiry = 10\<rparr>"
  obtain L' where a: "apply_at ?P (HtlcClaim 9 0) 3 demo_ledger = (None, L')"
    by (simp add: apply_at_def apply_at_with_def or_keep_def apply_htlc_claim_def demo_fields toy_prims_def zero)
  have "\<exists>C'. evm_withdraw_call ?R (\<lambda>_. True) (lk_recipient ?l) (pw_hashlock ?w) 0 ?C = Some C' \<and> ht_balance C' + unat (lk_amount ?l) = ht_balance ?C"
  proof (rule reveal_settles_other_leg [OF a, where l = ?l and w = ?w and R = ?R and lock = ?lock, THEN conjunct2, THEN conjunct2, THEN conjunct2])
    show "contract_run ?R (\<lambda>_. True) [CallLock 1 50 100 0 2 200] = (?C, [])" by (rule r)
  qed (simp_all add: demo_fields watch_new_def toy_prims_def)
  then obtain C' where "evm_withdraw_call ?R (\<lambda>_. True) 2 0 0 ?C = Some C' \<and> ht_balance C' + 50 = ht_balance ?C"
    by (auto simp: watch_new_def)
  with r show ?thesis by blast
qed

end
