(* ===== verification/Wire.thy ===== *)
theory Wire
  imports Codecs Types
begin

text \<open>
  The messages of \<^verbatim>\<open>lat-p2p\<close> (\<^verbatim>\<open>Msg\<close> in \<^verbatim>\<open>lib.rs\<close>) with their wire format and the frames that carry them over a
  stream. A slice \<^verbatim>\<open>rest.get(i..j)\<close> of the decoder is a reader of Prelude; most messages ignore the
  bytes after their last field. A stream is the list of its bytes, and ends where the list ends.
\<close>

definition PROTOCOL_VERSION :: u32 where "PROTOCOL_VERSION = 3"
definition MAX_MSG_BYTES :: nat where "MAX_MSG_BYTES = 4 * 1024 * 1024"
definition MAX_PEERS :: nat where "MAX_PEERS = 64"
definition MAX_PEER_ADDR_LEN :: nat where "MAX_PEER_ADDR_LEN = 128"
definition MAX_LOCATOR_IDS :: nat where "MAX_LOCATOR_IDS = 64"
definition MAX_UNBONDING_ENTRIES :: nat where "MAX_UNBONDING_ENTRIES = 1024"
definition MAX_RING_CANDIDATES :: nat where "MAX_RING_CANDIDATES = 64"

lemmas wire_limits = MAX_PEERS_def MAX_PEER_ADDR_LEN_def MAX_LOCATOR_IDS_def MAX_UNBONDING_ENTRIES_def MAX_RING_CANDIDATES_def

section \<open>Messages\<close>

type_synonym lock_view = "u32 \<times> id32 \<times> id32 \<times> u64 \<times> id32 \<times> u64"

datatype msg =
    GetTip
  | TipIs u64
  | GetBlock u64
  | BlockIs "bytes option"
  | NewBlock bytes
  | Ack bool
  | SubmitTx bytes
  | GetBalance id32 u32
  | BalanceReply "bytes option"
  | GetNonce id32
  | NonceReply "u64 option"
  | GetPending id32 u32
  | Hello bytes
  | GetPeers
  | Peers "bytes list"
  | FindCommon "id32 list"
  | CommonHeight u64
  | GetPublicBalance id32 u32
  | PublicBalanceReply "u64 option"
  | GetRingCandidates u32 u32
  | RingCandidates "(id32 \<times> arr64) list"
  | Handshake u32 id32 bytes
  | HandshakeAck u32 id32 bool
  | GetContractStorage id32 u64
  | ContractStorageReply u64
  | HasContract id32
  | FinalityVote bytes
  | FinalityCert bytes
  | GetFinalized
  | FinalizedReply "(u64 \<times> id32) option"
  | GetStake id32
  | StakeReply u64 "(u64 \<times> u64) list"
  | GetPool u32
  | PoolReply "(u64 \<times> u64 \<times> u64) option"
  | GetLpShares u32 id32
  | GetHtlc id32
  | HtlcReply "lock_view option"
  | GetHtlcs
  | HtlcsReply "(id32 \<times> lock_view) list"
  | GetCurve u32
  | CurveReply "(u64 \<times> u64 \<times> u64 \<times> bool) option"
  | NewTx bytes
  | BlockAnnounce id32 u64
  | GetStateManifest
  | StateManifest u64 id32 u64 u32
  | GetStateChunk u32
  | StateChunk "(bytes \<times> bytes) list"

section \<open>Encoding\<close>

abbreviation le32 :: "u32 \<Rightarrow> bytes" where "le32 \<equiv> le_bytes 4"
abbreviation le64 :: "u64 \<Rightarrow> bytes" where "le64 \<equiv> le_bytes 8"
abbreviation arr :: "id32 \<Rightarrow> bytes" where "arr \<equiv> be_bytes 32"

definition flag :: "bool \<Rightarrow> byte" where "flag b = (if b then 1 else 0)"

text \<open>\<^verbatim>\<open>match opt { Some(x) => { v.push(1); .. } None => v.push(0) }\<close>\<close>

fun put_opt :: "('a \<Rightarrow> bytes) \<Rightarrow> 'a option \<Rightarrow> bytes" where
  "put_opt f None = [0]"
| "put_opt f (Some x) = 1 # f x"

definition put_addr :: "bytes \<Rightarrow> bytes" where
  "put_addr b = of_nat (min (length b) MAX_PEER_ADDR_LEN) # take (min (length b) MAX_PEER_ADDR_LEN) b"

definition put_peers :: "bytes list \<Rightarrow> bytes" where
  "put_peers ps = of_nat (min (length ps) MAX_PEERS) # concat (map put_addr (take MAX_PEERS ps))"

definition put_locator :: "id32 list \<Rightarrow> bytes" where
  "put_locator ids = of_nat (min (length ids) MAX_LOCATOR_IDS) # concat (map arr (take MAX_LOCATOR_IDS ids))"

fun put_member :: "id32 \<times> arr64 \<Rightarrow> bytes" where
  "put_member (i, ct) = arr i @ be_bytes 64 ct"

definition put_ring :: "(id32 \<times> arr64) list \<Rightarrow> bytes" where
  "put_ring ms = (let n = min (length ms) MAX_RING_CANDIDATES in
     le32 (of_nat n) @ concat (map put_member (take n ms)))"

fun put_entry :: "u64 \<times> u64 \<Rightarrow> bytes" where
  "put_entry (amount, release) = le64 amount @ le64 release"

definition put_stake :: "u64 \<Rightarrow> (u64 \<times> u64) list \<Rightarrow> bytes" where
  "put_stake staked entries = le64 staked @ enc_list put_entry entries"

definition put_records :: "(bytes \<times> bytes) list \<Rightarrow> bytes" where
  "put_records records = enc_list (enc_pair enc_bytes enc_bytes) records"

fun put_pool_view :: "u64 \<times> u64 \<times> u64 \<Rightarrow> bytes" where
  "put_pool_view (lat, tok, lp) = le64 lat @ le64 tok @ le64 lp"

fun put_lock :: "lock_view \<Rightarrow> bytes" where
  "put_lock (token, sender, recipient, amount, hashlock, expiry) =
     le32 token @ arr sender @ arr recipient @ le64 amount @ arr hashlock @ le64 expiry"

definition put_locks :: "(id32 \<times> lock_view) list \<Rightarrow> bytes" where
  "put_locks locks = enc_list (enc_pair arr put_lock) locks"

fun put_curve_view :: "u64 \<times> u64 \<times> u64 \<times> bool \<Rightarrow> bytes" where
  "put_curve_view (vlat, vtok, real, graduated) = le64 vlat @ le64 vtok @ le64 real @ [flag graduated]"

fun encode_msg :: "msg \<Rightarrow> bytes" where
  "encode_msg GetTip = [0]"
| "encode_msg (TipIs h) = 1 # le64 h"
| "encode_msg (GetBlock h) = 2 # le64 h"
| "encode_msg (BlockIs b) = 3 # put_opt id b"
| "encode_msg (NewBlock b) = 4 # b"
| "encode_msg (Ack ok) = [5, flag ok]"
| "encode_msg (SubmitTx b) = 6 # b"
| "encode_msg (GetBalance i token) = 7 # arr i @ le32 token"
| "encode_msg (BalanceReply b) = 8 # put_opt id b"
| "encode_msg (GetNonce i) = 9 # arr i"
| "encode_msg (NonceReply n) = 10 # put_opt le64 n"
| "encode_msg (GetPending i token) = 11 # arr i @ le32 token"
| "encode_msg (Hello a) = 12 # a"
| "encode_msg GetPeers = [13]"
| "encode_msg (Peers ps) = 14 # put_peers ps"
| "encode_msg (FindCommon ids) = 15 # put_locator ids"
| "encode_msg (CommonHeight h) = 16 # le64 h"
| "encode_msg (GetPublicBalance i token) = 17 # arr i @ le32 token"
| "encode_msg (PublicBalanceReply n) = 18 # put_opt le64 n"
| "encode_msg (GetRingCandidates token n) = 19 # le32 token @ le32 n"
| "encode_msg (RingCandidates ms) = 20 # put_ring ms"
| "encode_msg (Handshake version genesis a) = 21 # le32 version @ arr genesis @ put_addr a"
| "encode_msg (HandshakeAck version genesis accepted) = 22 # le32 version @ arr genesis @ [flag accepted]"
| "encode_msg (GetContractStorage i key) = 23 # arr i @ le64 key"
| "encode_msg (ContractStorageReply v) = 24 # le64 v"
| "encode_msg (HasContract i) = 25 # arr i"
| "encode_msg (FinalityVote b) = 26 # b"
| "encode_msg (FinalityCert b) = 27 # b"
| "encode_msg GetFinalized = [28]"
| "encode_msg (FinalizedReply f) = 29 # put_opt (\<lambda>(h, i). le64 h @ arr i) f"
| "encode_msg (GetStake i) = 30 # arr i"
| "encode_msg (StakeReply staked entries) = 31 # put_stake staked entries"
| "encode_msg (NewTx b) = 32 # b"
| "encode_msg (BlockAnnounce i h) = 33 # arr i @ le64 h"
| "encode_msg GetStateManifest = [34]"
| "encode_msg (StateManifest h i records chunks) = 35 # le64 h @ arr i @ le64 records @ le32 chunks"
| "encode_msg (GetStateChunk n) = 36 # le32 n"
| "encode_msg (StateChunk records) = 37 # put_records records"
| "encode_msg (GetPool token) = 38 # le32 token"
| "encode_msg (PoolReply p) = 39 # put_opt put_pool_view p"
| "encode_msg (GetLpShares token i) = 40 # le32 token @ arr i"
| "encode_msg (GetHtlc i) = 41 # arr i"
| "encode_msg (HtlcReply h) = 42 # put_opt put_lock h"
| "encode_msg GetHtlcs = [43]"
| "encode_msg (HtlcsReply locks) = 44 # put_locks locks"
| "encode_msg (GetCurve token) = 45 # le32 token"
| "encode_msg (CurveReply c) = 46 # put_opt put_curve_view c"

section \<open>Decoding\<close>

text \<open>A field at the front of the input, and a value that must fill the input (\<open>rd_all\<close>).\<close>

definition front :: "(bytes \<Rightarrow> ('a \<times> bytes) option) \<Rightarrow> bytes \<Rightarrow> 'a option" where
  "front rd b = map_option fst (rd b)"

definition rd_u8 :: "bytes \<Rightarrow> (byte \<times> bytes) option" where
  "rd_u8 b = (case b of [] \<Rightarrow> None | x # r \<Rightarrow> Some (x, r))"

definition rd_nonzero :: "bytes \<Rightarrow> (bool \<times> bytes) option" where
  "rd_nonzero b = do { (x, r) \<leftarrow> rd_u8 b; Some (x \<noteq> 0, r) }"

definition rd_bool :: "bytes \<Rightarrow> (bool \<times> bytes) option" where
  "rd_bool b = do { (x, r) \<leftarrow> rd_u8 b; if x = 0 then Some (False, r) else if x = 1 then Some (True, r) else None }"

text \<open>\<^verbatim>\<open>match rest.first()? { 0 => None, 1 => Some(..), _ => return None }\<close>\<close>

definition rd_opt :: "(bytes \<Rightarrow> ('a \<times> bytes) option) \<Rightarrow> bytes \<Rightarrow> 'a option option" where
  "rd_opt rd b = (case b of [] \<Rightarrow> None
     | t # r \<Rightarrow> if t = 0 then Some None else if t = 1 then map_option Some (front rd r) else None)"

definition rd_rest :: "bytes \<Rightarrow> (bytes \<times> bytes) option" where
  "rd_rest b = Some (b, [])"

definition rd_addr :: "bytes \<Rightarrow> (bytes \<times> bytes) option" where
  "rd_addr b = do {
     (n, r) \<leftarrow> rd_u8 b;
     if unat n > MAX_PEER_ADDR_LEN then None
     else do { (s, r') \<leftarrow> rd_take (unat n) r; if utf8_valid s then Some (s, r') else None } }"

definition rd_peers :: "bytes \<Rightarrow> bytes list option" where
  "rd_peers b = do { (n, r) \<leftarrow> rd_u8 b;
     if unat n > MAX_PEERS then None else front (rd_repeat (unat n) rd_addr) r }"

definition rd_locator :: "bytes \<Rightarrow> id32 list option" where
  "rd_locator b = do { (n, r) \<leftarrow> rd_u8 b;
     if unat n > MAX_LOCATOR_IDS then None else front (rd_repeat (unat n) rd_arr32) r }"

definition rd_ring :: "bytes \<Rightarrow> (id32 \<times> arr64) list option" where
  "rd_ring b = do { (n, r) \<leftarrow> rd_u32 b;
     if unat n > MAX_RING_CANDIDATES then None else front (rd_repeat (unat n) (rd_pair rd_arr32 rd_arr64)) r }"

definition rd_stake :: "bytes \<Rightarrow> (u64 \<times> (u64 \<times> u64) list) option" where
  "rd_stake b = do { (staked, r) \<leftarrow> rd_u64 b; (n, r1) \<leftarrow> rd_u32 r;
     if unat n > MAX_UNBONDING_ENTRIES then None
     else do { (entries, r2) \<leftarrow> rd_repeat (unat n) (rd_pair rd_u64 rd_u64) r1;
       if r2 = [] then Some (staked, entries) else None } }"

definition rd_records :: "bytes \<Rightarrow> (bytes \<times> bytes) list option" where
  "rd_records b = rd_all (rd_list (rd_pair rd_bytes rd_bytes)) b"

definition rd_lock :: "bytes \<Rightarrow> (lock_view \<times> bytes) option" where
  "rd_lock = rd_pair rd_u32 (rd_pair rd_arr32 (rd_pair rd_arr32 (rd_pair rd_u64 (rd_pair rd_arr32 rd_u64))))"

definition rd_locks :: "bytes \<Rightarrow> (id32 \<times> lock_view) list option" where
  "rd_locks b = rd_all (rd_list (rd_pair rd_arr32 rd_lock)) b"

definition rd_handshake :: "bytes \<Rightarrow> msg option" where
  "rd_handshake b = do { (version, r) \<leftarrow> rd_u32 b; (genesis, r1) \<leftarrow> rd_arr32 r; (a, _) \<leftarrow> rd_addr r1;
     Some (Handshake version genesis a) }"

definition rd_handshake_ack :: "bytes \<Rightarrow> msg option" where
  "rd_handshake_ack b = do { (version, r) \<leftarrow> rd_u32 b; (genesis, r1) \<leftarrow> rd_arr32 r; (accepted, _) \<leftarrow> rd_nonzero r1;
     Some (HandshakeAck version genesis accepted) }"

definition decode_msg :: "bytes \<Rightarrow> msg option" where
  "decode_msg b = (case b of [] \<Rightarrow> None | tag # rest \<Rightarrow>
     if tag = 0 then Some GetTip
     else if tag = 1 then map_option TipIs (front rd_u64 rest)
     else if tag = 2 then map_option GetBlock (front rd_u64 rest)
     else if tag = 3 then map_option BlockIs (rd_opt rd_rest rest)
     else if tag = 4 then Some (NewBlock rest)
     else if tag = 5 then map_option Ack (front rd_nonzero rest)
     else if tag = 6 then Some (SubmitTx rest)
     else if tag = 7 then map_option (\<lambda>(i, token). GetBalance i token) (front (rd_pair rd_arr32 rd_u32) rest)
     else if tag = 8 then map_option BalanceReply (rd_opt rd_rest rest)
     else if tag = 9 then map_option GetNonce (front rd_arr32 rest)
     else if tag = 10 then map_option NonceReply (rd_opt rd_u64 rest)
     else if tag = 11 then map_option (\<lambda>(i, token). GetPending i token) (front (rd_pair rd_arr32 rd_u32) rest)
     else if tag = 12 then
       (if length rest > MAX_PEER_ADDR_LEN then None else if utf8_valid rest then Some (Hello rest) else None)
     else if tag = 13 then Some GetPeers
     else if tag = 14 then map_option Peers (rd_peers rest)
     else if tag = 15 then map_option FindCommon (rd_locator rest)
     else if tag = 16 then map_option CommonHeight (front rd_u64 rest)
     else if tag = 17 then map_option (\<lambda>(i, token). GetPublicBalance i token) (front (rd_pair rd_arr32 rd_u32) rest)
     else if tag = 18 then map_option PublicBalanceReply (rd_opt rd_u64 rest)
     else if tag = 19 then map_option (\<lambda>(token, n). GetRingCandidates token n) (front (rd_pair rd_u32 rd_u32) rest)
     else if tag = 20 then map_option RingCandidates (rd_ring rest)
     else if tag = 21 then rd_handshake rest
     else if tag = 22 then rd_handshake_ack rest
     else if tag = 23 then map_option (\<lambda>(i, key). GetContractStorage i key) (front (rd_pair rd_arr32 rd_u64) rest)
     else if tag = 24 then map_option ContractStorageReply (front rd_u64 rest)
     else if tag = 25 then map_option HasContract (front rd_arr32 rest)
     else if tag = 26 then Some (FinalityVote rest)
     else if tag = 27 then Some (FinalityCert rest)
     else if tag = 28 then Some GetFinalized
     else if tag = 30 then map_option GetStake (front rd_arr32 rest)
     else if tag = 32 then Some (NewTx rest)
     else if tag = 33 then map_option (\<lambda>(i, h). BlockAnnounce i h) (rd_all (rd_pair rd_arr32 rd_u64) rest)
     else if tag = 31 then map_option (\<lambda>(staked, entries). StakeReply staked entries) (rd_stake rest)
     else if tag = 29 then map_option FinalizedReply (rd_opt (rd_pair rd_u64 rd_arr32) rest)
     else if tag = 34 then Some GetStateManifest
     else if tag = 35 then map_option (\<lambda>(h, i, records, chunks). StateManifest h i records chunks)
       (rd_all (rd_pair rd_u64 (rd_pair rd_arr32 (rd_pair rd_u64 rd_u32))) rest)
     else if tag = 36 then map_option GetStateChunk (front rd_u32 rest)
     else if tag = 37 then map_option StateChunk (rd_records rest)
     else if tag = 38 then map_option GetPool (front rd_u32 rest)
     else if tag = 39 then map_option PoolReply (rd_opt (rd_pair rd_u64 (rd_pair rd_u64 rd_u64)) rest)
     else if tag = 40 then map_option (\<lambda>(token, i). GetLpShares token i) (front (rd_pair rd_u32 rd_arr32) rest)
     else if tag = 41 then map_option GetHtlc (front rd_arr32 rest)
     else if tag = 42 then map_option HtlcReply (rd_opt rd_lock rest)
     else if tag = 43 then Some GetHtlcs
     else if tag = 44 then map_option HtlcsReply (rd_locks rest)
     else if tag = 45 then map_option GetCurve (front rd_u32 rest)
     else if tag = 46 then map_option CurveReply (rd_opt (rd_pair rd_u64 (rd_pair rd_u64 (rd_pair rd_u64 rd_bool))) rest)
     else None)"

section \<open>Frames\<close>

datatype io_error = UnexpectedEof | InvalidData string | Refused

definition write_msg :: "msg \<Rightarrow> bytes" where
  "write_msg m = (let body = encode_msg m in le32 (of_nat (length body)) @ body)"

text \<open>What is left of the stream is part of the result.\<close>

definition read_msg :: "bytes \<Rightarrow> io_error + msg \<times> bytes" where
  "read_msg s = (case rd_u32 s of
       None \<Rightarrow> Inl UnexpectedEof
     | Some (n, r) \<Rightarrow>
         if unat n > MAX_MSG_BYTES then Inl (InvalidData ''message too large'')
         else (case rd_take (unat n) r of
             None \<Rightarrow> Inl UnexpectedEof
           | Some (buf, r') \<Rightarrow> (case decode_msg buf of
                 None \<Rightarrow> Inl (InvalidData ''bad message'')
               | Some m \<Rightarrow> Inr (m, r'))))"

text \<open>The messages of a stream up to its end or the first error.\<close>

function read_all :: "bytes \<Rightarrow> msg list \<times> io_error" where
  "read_all s = (case read_msg s of Inl e \<Rightarrow> ([], e) | Inr (m, r) \<Rightarrow> (case read_all r of (ms, e) \<Rightarrow> (m # ms, e)))"
  by auto

lemma read_msg_shorter: "read_msg s = Inr (m, r) \<Longrightarrow> length r < length s"
  by (auto simp: read_msg_def rd_take_def word_dec_iff split: option.splits if_splits) arith?

termination read_all
  by (relation "measure length") (auto dest: read_msg_shorter)

declare read_all.simps [simp del]

section \<open>The format is exact\<close>

text \<open>What a message may carry: the limits of the decoder.\<close>

definition addr_fits :: "bytes \<Rightarrow> bool" where
  "addr_fits a \<longleftrightarrow> length a \<le> MAX_PEER_ADDR_LEN \<and> utf8_valid a"

fun msg_fits :: "msg \<Rightarrow> bool" where
  "msg_fits (Hello a) \<longleftrightarrow> addr_fits a"
| "msg_fits (Peers ps) \<longleftrightarrow> length ps \<le> MAX_PEERS \<and> list_all addr_fits ps"
| "msg_fits (FindCommon ids) \<longleftrightarrow> length ids \<le> MAX_LOCATOR_IDS"
| "msg_fits (RingCandidates ms) \<longleftrightarrow> length ms \<le> MAX_RING_CANDIDATES"
| "msg_fits (Handshake version genesis a) \<longleftrightarrow> addr_fits a"
| "msg_fits (StakeReply bonded entries) \<longleftrightarrow> length entries \<le> MAX_UNBONDING_ENTRIES"
| "msg_fits (HtlcsReply locks) \<longleftrightarrow> length locks < 2 ^ 32"
| "msg_fits (StateChunk records) \<longleftrightarrow>
     length records < 2 ^ 32 \<and> list_all (\<lambda>r. length (fst r) < 2 ^ 32 \<and> length (snd r) < 2 ^ 32) records"
| "msg_fits _ \<longleftrightarrow> True"

lemma rd_u8_Cons [codec_simps]: "rd_u8 (x # r) = Some (x, r)"
  by (simp add: rd_u8_def)

lemma rd_u8_Some: "rd_u8 b = Some (x, r) \<longleftrightarrow> b = x # r"
  by (auto simp: rd_u8_def split: list.splits)

lemma rd_nonzero_flag [codec_simps]: "rd_nonzero (flag b # r) = Some (b, r)"
  by (simp add: rd_nonzero_def rd_u8_def flag_def)

lemma rd_bool_flag [codec_simps]: "rd_bool (flag b # r) = Some (b, r)"
  by (simp add: rd_bool_def rd_u8_def flag_def)

lemma rd_pair_app [codec_simps]: "f b = Some (x, r) \<Longrightarrow> rd_pair f g b = map_option (\<lambda>(y, r'). ((x, y), r')) (g r)"
  by (cases "g r") (auto simp: rd_pair_def)

lemma front_decodes: "decodes e d ok \<Longrightarrow> ok x \<Longrightarrow> front d (e x) = Some x"
  using decodes.dec_enc [of e d ok x "[]"] by (simp add: front_def)

lemma rd_opt_put:
  assumes "decodes e d ok" and "\<And>v. x = Some v \<Longrightarrow> ok v"
  shows "rd_opt d (put_opt e x) = Some x"
  using assms by (cases x) (simp_all add: rd_opt_def front_decodes)

lemma decodes_addr: "decodes put_addr rd_addr addr_fits"
  by (rule decodes.intro)
    (simp add: put_addr_def rd_addr_def addr_fits_def rd_u8_def MAX_PEER_ADDR_LEN_def min_absorb1 unat_of_nat codec_simps)

lemma decodes_member: "decodes put_member (rd_pair rd_arr32 rd_arr64) (\<lambda>_. True)"
  using decodes_pair [OF arr32_codec.decodes_axioms arr64_codec.decodes_axioms]
  by (simp add: enc_pair_def [abs_def] decodes_def)

lemma decodes_entry: "decodes put_entry (rd_pair rd_u64 rd_u64) (\<lambda>_. True)"
  using decodes_pair [OF u64_codec.decodes_axioms u64_codec.decodes_axioms]
  by (simp add: enc_pair_def [abs_def] decodes_def)

lemma decodes_pool_view: "decodes put_pool_view (rd_pair rd_u64 (rd_pair rd_u64 rd_u64)) (\<lambda>_. True)"
  by (rule decodes.intro) (clarsimp simp: codec_simps)

lemma decodes_lock: "decodes put_lock rd_lock (\<lambda>_. True)"
  by (rule decodes.intro) (clarsimp simp: rd_lock_def codec_simps)

lemma decodes_curve_view: "decodes put_curve_view (rd_pair rd_u64 (rd_pair rd_u64 (rd_pair rd_u64 rd_bool))) (\<lambda>_. True)"
  by (rule decodes.intro) (clarsimp simp: codec_simps)

lemma decodes_finalized: "decodes (\<lambda>(h, i). le64 h @ arr i) (rd_pair rd_u64 rd_arr32) (\<lambda>_. True)"
  by (rule decodes.intro) (clarsimp simp: codec_simps)

lemma decodes_rest: "rd_opt rd_rest (put_opt id x) = Some x"
  by (cases x) (simp_all add: rd_opt_def front_def rd_rest_def)

lemma rd_peers_put: "length ps \<le> MAX_PEERS \<Longrightarrow> list_all addr_fits ps \<Longrightarrow> rd_peers (put_peers ps) = Some ps"
  using decodes.rd_repeat_concat [OF decodes_addr, of ps "[]"]
  by (simp add: put_peers_def rd_peers_def rd_u8_def front_def min_absorb1 unat_of_nat MAX_PEERS_def)

lemma rd_locator_put: "length ids \<le> MAX_LOCATOR_IDS \<Longrightarrow> rd_locator (put_locator ids) = Some ids"
  using arr32_codec.rd_repeat_concat [of ids "[]"]
  by (simp add: put_locator_def rd_locator_def rd_u8_def front_def min_absorb1 unat_of_nat MAX_LOCATOR_IDS_def list_all_iff)

lemma rd_ring_put: "length ms \<le> MAX_RING_CANDIDATES \<Longrightarrow> rd_ring (put_ring ms) = Some ms"
  using decodes.rd_repeat_concat [OF decodes_member, of ms "[]"]
  by (simp add: put_ring_def rd_ring_def Let_def codec_simps front_def min_absorb1 unat_of_nat MAX_RING_CANDIDATES_def list_all_iff)

lemma rd_stake_put:
  "rd_stake (put_stake bonded entries) =
     (if length entries < 2 ^ 32 \<and> length entries > MAX_UNBONDING_ENTRIES then None
      else if length entries < 2 ^ 32 then Some (bonded, entries) else rd_stake (put_stake bonded entries))"
  using decodes.rd_repeat_concat [OF decodes_entry, of entries "[]"]
  by (simp add: put_stake_def rd_stake_def enc_list_def codec_simps unat_of_nat list_all_iff)

lemma decodes_records:
  "decodes put_records (rd_list (rd_pair rd_bytes rd_bytes)) (\<lambda>rs. msg_fits (StateChunk rs))"
  using decodes_list [OF decodes_pair [OF bytes_codec.decodes_axioms bytes_codec.decodes_axioms]]
  by (simp add: put_records_def [abs_def])

lemma decodes_locks: "decodes put_locks (rd_list (rd_pair rd_arr32 rd_lock)) (\<lambda>ls. msg_fits (HtlcsReply ls))"
  using decodes_list [OF decodes_pair [OF arr32_codec.decodes_axioms decodes_lock]]
  by (simp add: put_locks_def [abs_def] list_all_iff)

lemmas words_end = u32_codec.dec_enc [OF TrueI, where r = "[]", simplified] u64_codec.dec_enc [OF TrueI, where r = "[]", simplified]
  arr32_codec.dec_enc [OF TrueI, where r = "[]", simplified]

lemmas decode_fields = front_def rd_all_def codec_simps words_end decodes_rest rd_peers_put rd_locator_put rd_ring_put
  rd_opt_put [OF u64_codec.decodes_axioms] rd_opt_put [OF decodes_finalized] rd_opt_put [OF decodes_pool_view]
  rd_opt_put [OF decodes_lock] rd_opt_put [OF decodes_curve_view]

lemma decode_encode_msg: "msg_fits m \<Longrightarrow> decode_msg (encode_msg m) = Some m"
proof (cases m)
  case (StateChunk records)
  then show "msg_fits m \<Longrightarrow> ?thesis" using rd_all_enc [OF decodes_records] by (simp add: decode_msg_def rd_records_def)
next
  case (HtlcsReply locks)
  then show "msg_fits m \<Longrightarrow> ?thesis" using rd_all_enc [OF decodes_locks] by (simp add: decode_msg_def rd_locks_def)
next
  case (StakeReply bonded entries)
  then show "msg_fits m \<Longrightarrow> ?thesis"
    using rd_stake_put [of bonded entries] by (simp add: decode_msg_def MAX_UNBONDING_ENTRIES_def)
next
  case (Handshake version genesis a)
  then show "msg_fits m \<Longrightarrow> ?thesis"
    using decodes.dec_enc [OF decodes_addr, of a "[]"] by (simp add: decode_msg_def rd_handshake_def codec_simps)
next
  case (HandshakeAck version genesis accepted)
  then show ?thesis by (simp add: decode_msg_def rd_handshake_ack_def codec_simps)
qed (simp_all add: decode_msg_def decode_fields addr_fits_def)

lemma rd_repeat_all:
  assumes "\<And>b x r. d b = Some (x, r) \<Longrightarrow> ok x"
  shows "rd_repeat n d b = Some (xs, r) \<Longrightarrow> length xs = n \<and> list_all ok xs"
proof (induction n arbitrary: b xs)
  case (Suc n)
  from Suc.prems obtain y b' ys where y: "d b = Some (y, b')" and ys: "rd_repeat n d b' = Some (ys, r)" "xs = y # ys"
    by (auto split: bind_splits)
  show ?case using Suc.IH [OF ys(1)] assms [OF y] ys(2) by simp
qed simp

lemma rd_repeat_length: "rd_repeat n d b = Some (xs, r) \<Longrightarrow> length xs = n"
  using rd_repeat_all [where ok = "\<lambda>_. True"] by blast

lemma rd_addr_fits: "rd_addr b = Some (a, r) \<Longrightarrow> addr_fits a"
  by (auto simp: rd_addr_def addr_fits_def rd_take_Some split: bind_splits if_splits)

lemma rd_list_length: "rd_list d b = Some (xs, r) \<Longrightarrow> length xs < 2 ^ 32"
  using unat_lt2p [where 'a = 32]
  by (auto simp: rd_list_def dest!: rd_repeat_length split: bind_splits)

lemma rd_records_fit: "rd_records b = Some rs \<Longrightarrow> msg_fits (StateChunk rs)"
  using rd_all_iff [OF codec_list [OF codec_pair [OF bytes_codec.codec_axioms bytes_codec.codec_axioms]], of b rs]
  by (simp add: rd_records_def)

lemma front_rd_repeat:
  assumes "front (rd_repeat n d) b = Some xs" and "\<And>b x r. d b = Some (x, r) \<Longrightarrow> ok x"
  shows "length xs = n \<and> list_all ok xs"
proof -
  obtain r where "rd_repeat n d b = Some (xs, r)" using assms(1) by (auto simp: front_def)
  then show ?thesis by (rule rd_repeat_all [of d ok, rotated]) (rule assms(2))
qed

lemma front_length: "front (rd_repeat n d) b = Some xs \<Longrightarrow> length xs = n"
  by (auto simp: front_def dest: rd_repeat_length)

lemma decode_fits: "decode_msg b = Some m \<Longrightarrow> msg_fits m"
proof (cases b)
  case (Cons tag rest)
  assume d: "decode_msg b = Some m"
  have peers: "msg_fits (Peers ps)" if "rd_peers rest = Some ps" for ps
    using that front_rd_repeat [where d = rd_addr and ok = addr_fits] rd_addr_fits
    by (auto simp: rd_peers_def split: bind_splits if_splits)
  have locator: "msg_fits (FindCommon ids)" if "rd_locator rest = Some ids" for ids
    using that by (auto simp: rd_locator_def dest!: front_length split: bind_splits if_splits)
  have ring: "msg_fits (RingCandidates ms)" if "rd_ring rest = Some ms" for ms
    using that by (auto simp: rd_ring_def dest!: front_length split: bind_splits if_splits)
  have stake: "msg_fits (StakeReply bonded es)" if "rd_stake rest = Some (bonded, es)" for bonded es
    using that by (auto simp: rd_stake_def dest!: rd_repeat_length split: bind_splits if_splits)
  have handshake: "msg_fits m" if "rd_handshake rest = Some m"
    using that by (auto simp: rd_handshake_def dest!: rd_addr_fits split: bind_splits)
  have ack: "msg_fits m" if "rd_handshake_ack rest = Some m"
    using that by (auto simp: rd_handshake_ack_def split: bind_splits)
  have locks: "msg_fits (HtlcsReply ls)" if "rd_locks rest = Some ls" for ls
    using that by (auto simp: rd_locks_def rd_all_def dest!: rd_list_length split: bind_splits if_splits)
  note parts = peers locator ring stake handshake ack locks rd_records_fit
  show ?thesis
    using d unfolding decode_msg_def Cons list.case
    by (auto split: if_split_asm dest: parts simp: addr_fits_def)
qed (simp add: decode_msg_def)

section \<open>Streams of frames\<close>

definition sendable :: "msg \<Rightarrow> bool" where
  "sendable m \<longleftrightarrow> msg_fits m \<and> length (encode_msg m) \<le> MAX_MSG_BYTES"

lemma read_write:
  assumes "sendable m"
  shows "read_msg (write_msg m @ r) = Inr (m, r)"
proof -
  have "unat (of_nat (length (encode_msg m)) :: u32) = length (encode_msg m)"
    using assms by (simp add: unat_of_nat sendable_def MAX_MSG_BYTES_def)
  then show ?thesis
    using assms decode_encode_msg by (simp add: sendable_def read_msg_def write_msg_def Let_def codec_simps rd_take_def)
qed

lemma read_cut:
  assumes "sendable m" and "k < length (write_msg m)"
  shows "read_msg (take k (write_msg m)) = Inl UnexpectedEof"
proof (cases "k < 4")
  case True
  then show ?thesis by (simp add: read_msg_def rd_u32_def rd_take_def)
next
  case False
  let ?n = "of_nat (length (encode_msg m)) :: u32"
  have n: "unat ?n = length (encode_msg m)" using assms(1) by (simp add: unat_of_nat sendable_def MAX_MSG_BYTES_def)
  have "take k (write_msg m) = le32 ?n @ take (k - 4) (encode_msg m)" using False by (simp add: write_msg_def Let_def)
  moreover have "k - 4 < length (encode_msg m)" using assms(2) False by (simp add: write_msg_def Let_def)
  ultimately show ?thesis
    using assms(1) n by (simp add: read_msg_def codec_simps rd_take_def sendable_def)
qed

lemma read_all_cut:
  "list_all sendable ms \<Longrightarrow>
     \<exists>j\<le>length ms. read_all (take k (concat (map write_msg ms))) = (take j ms, UnexpectedEof) \<and>
       length (concat (map write_msg (take j ms))) \<le> k \<and>
       (j < length ms \<longrightarrow> k < length (concat (map write_msg (take (Suc j) ms))))"
proof (induction ms arbitrary: k)
  case Nil
  then show ?case by (simp add: read_all.simps read_msg_def rd_u32_def rd_take_def)
next
  case (Cons m ms)
  then have m: "sendable m" and ms: "list_all sendable ms" by simp_all
  show ?case
  proof (cases "k < length (write_msg m)")
    case True
    then have "read_all (take k (concat (map write_msg (m # ms)))) = (take 0 (m # ms), UnexpectedEof)"
      using read_cut [OF m] by (simp add: read_all.simps)
    then show ?thesis using True by (intro exI [of _ 0]) simp
  next
    case False
    obtain j where j: "j \<le> length ms"
        "read_all (take (k - length (write_msg m)) (concat (map write_msg ms))) = (take j ms, UnexpectedEof)"
        "length (concat (map write_msg (take j ms))) \<le> k - length (write_msg m)"
        "j < length ms \<longrightarrow> k - length (write_msg m) < length (concat (map write_msg (take (Suc j) ms)))"
      using Cons.IH [OF ms] by blast
    have "read_all (take k (concat (map write_msg (m # ms)))) = (m # take j ms, UnexpectedEof)"
      using False j(2) by (subst read_all.simps) (simp add: read_write [OF m])
    then show ?thesis using False j by (intro exI [of _ "Suc j"]) auto
  qed
qed

text \<open>
  C31: the protocol loses nothing on the wire. A message within the limits of the format is read back as it was sent, and
  only such messages are ever read. A stream of frames is read back message by message; when it is cut
  anywhere, exactly the messages sent in whole are read, and then the end of the stream is reported.
\<close>

theorem wire_exact:
  "(msg_fits m \<longrightarrow> decode_msg (encode_msg m) = Some m) \<and>
   (decode_msg b = Some m \<longrightarrow> msg_fits m) \<and>
   (list_all sendable ms \<longrightarrow> (\<exists>j\<le>length ms.
      read_all (take k (concat (map write_msg ms))) = (take j ms, UnexpectedEof) \<and>
      length (concat (map write_msg (take j ms))) \<le> k \<and>
      (j < length ms \<longrightarrow> k < length (concat (map write_msg (take (Suc j) ms))))))"
  using decode_encode_msg decode_fits read_all_cut by blast

theorem wire_exact_witness:
  "\<exists>j. read_all (take 20 (concat (map write_msg [GetTip, Hello (ascii ''a:1''), PublicBalanceReply (Some 7)]))) =
     (take j [GetTip, Hello (ascii ''a:1''), PublicBalanceReply (Some 7)], UnexpectedEof)"
proof -
  let ?ms = "[GetTip, Hello (ascii ''a:1''), PublicBalanceReply (Some 7)]"
  have "list_all sendable ?ms"
    by (simp add: sendable_def addr_fits_def wire_limits MAX_MSG_BYTES_def ascii_def)
  from wire_exact [THEN conjunct2, THEN conjunct2, rule_format, OF this, of 20] show ?thesis by blast
qed

text \<open>The encoder does not keep the limit on the entries of a stake reply: a node can answer what no client reads.\<close>

lemma long_stake_reply_unreadable:
  "MAX_UNBONDING_ENTRIES < length entries \<Longrightarrow> length entries < 2 ^ 32 \<Longrightarrow> decode_msg (encode_msg (StakeReply bonded entries)) = None"
  using rd_stake_put [of bonded entries] by (simp add: decode_msg_def)

end
