(* ===== verification/Node.thy ===== *)
theory Node
  imports Wire Finality Mempool Chain_Replay
begin

text \<open>
  The state of a node, \<^verbatim>\<open>NodeState\<close> in \<^verbatim>\<open>lat-p2p/src/lib.rs\<close>: its chain, its mempool, the peers it knows and the
  pool of finality votes. An operation returns its result and the node it leaves behind; a panic
  of the chain is a \<open>fault\<close>. The clock and the contents of a file are arguments.
\<close>

definition MAX_PEER_FAILURES :: u32 where "MAX_PEER_FAILURES = 5"

record peer =
  pr_addr :: bytes
  pr_failures :: u32

type_synonym vote_bucket = "(id32, arr64) fmap"

record ('g, 's, 'r) node_state =
  nd_chain :: "'g blockchain"
  nd_mempool :: "('g, 's, 'r) mempool"
  nd_miner :: id32
  nd_peers :: "peer list"
  nd_self_addr :: "bytes option"
  nd_votes :: "(u64 \<times> id32, vote_bucket) fmap"
  nd_validator_key :: "'s option"

definition node_new :: "'g blockchain \<Rightarrow> ('g, 's, 'r) node_state" where
  "node_new chain = \<lparr>nd_chain = chain, nd_mempool = mp_new, nd_miner = 0, nd_peers = [], nd_self_addr = None,
     nd_votes = fmempty, nd_validator_key = None\<rparr>"

definition with_miner :: "'g blockchain \<Rightarrow> id32 \<Rightarrow> ('g, 's, 'r) node_state" where
  "with_miner chain miner = (node_new chain)\<lparr>nd_miner := miner\<rparr>"

definition set_validator_key :: "'s \<Rightarrow> ('g, 's, 'r) node_state \<Rightarrow> ('g, 's, 'r) node_state" where
  "set_validator_key sk n = n\<lparr>nd_validator_key := Some sk\<rparr>"

section \<open>Peers\<close>

definition set_self_addr :: "bytes \<Rightarrow> ('g, 's, 'r) node_state \<Rightarrow> ('g, 's, 'r) node_state" where
  "set_self_addr a n = n\<lparr>nd_self_addr := Some (trim a)\<rparr>"

definition add_peer :: "bytes \<Rightarrow> ('g, 's, 'r) node_state \<Rightarrow> bool \<times> ('g, 's, 'r) node_state" where
  "add_peer a0 n = (let a = trim a0 in
     if a = [] \<or> length a > MAX_PEER_ADDR_LEN \<or> nd_self_addr n = Some a \<or> length (nd_peers n) \<ge> MAX_PEERS
        \<or> list_ex (\<lambda>p. pr_addr p = a) (nd_peers n)
     then (False, n)
     else (True, n\<lparr>nd_peers := nd_peers n @ [\<lparr>pr_addr = a, pr_failures = 0\<rparr>]\<rparr>))"

definition remove_peer :: "bytes \<Rightarrow> ('g, 's, 'r) node_state \<Rightarrow> bool \<times> ('g, 's, 'r) node_state" where
  "remove_peer a n = (let kept = filter (\<lambda>p. pr_addr p \<noteq> a) (nd_peers n) in
     (length kept \<noteq> length (nd_peers n), n\<lparr>nd_peers := kept\<rparr>))"

text \<open>\<^verbatim>\<open>iter_mut().find(..)\<close>: the first peer with the address is updated.\<close>

fun update_peer :: "bytes \<Rightarrow> (peer \<Rightarrow> peer) \<Rightarrow> peer list \<Rightarrow> peer list" where
  "update_peer a f [] = []"
| "update_peer a f (p # ps) = (if pr_addr p = a then f p # ps else p # update_peer a f ps)"

definition find_peer :: "bytes \<Rightarrow> peer list \<Rightarrow> peer option" where
  "find_peer a ps = find (\<lambda>p. pr_addr p = a) ps"

definition record_peer_ok :: "bytes \<Rightarrow> ('g, 's, 'r) node_state \<Rightarrow> ('g, 's, 'r) node_state" where
  "record_peer_ok a n = n\<lparr>nd_peers := update_peer a (\<lambda>p. p\<lparr>pr_failures := 0\<rparr>) (nd_peers n)\<rparr>"

definition record_peer_failure :: "bytes \<Rightarrow> ('g, 's, 'r) node_state \<Rightarrow> bool \<times> ('g, 's, 'r) node_state" where
  "record_peer_failure a n = (case find_peer a (nd_peers n) of
       None \<Rightarrow> (False, n)
     | Some p \<Rightarrow>
         let failures = pr_failures p + 1;
             n1 = n\<lparr>nd_peers := update_peer a (\<lambda>p. p\<lparr>pr_failures := failures\<rparr>) (nd_peers n)\<rparr>
         in if failures \<ge> MAX_PEER_FAILURES
            then (True, n1\<lparr>nd_peers := filter (\<lambda>p. pr_addr p \<noteq> a) (nd_peers n1)\<rparr>)
            else (False, n1))"

definition peers :: "('g, 's, 'r) node_state \<Rightarrow> bytes list" where
  "peers n = map pr_addr (nd_peers n)"

definition peer_count :: "('g, 's, 'r) node_state \<Rightarrow> nat" where
  "peer_count n = length (nd_peers n)"

text \<open>The body of the file, with one address per line; \<open>None\<close> is a file that cannot be read.\<close>

fun join :: "bytes \<Rightarrow> bytes list \<Rightarrow> bytes" where
  "join sep [] = []"
| "join sep [x] = x"
| "join sep (x # y # xs) = x @ sep @ join sep (y # xs)"

definition save_peers :: "('g, 's, 'r) node_state \<Rightarrow> bytes" where
  "save_peers n = join [0x0A] (map pr_addr (nd_peers n))"

text \<open>\<^verbatim>\<open>str::lines\<close>: the pieces between line feeds, the last one only when it is not empty, without a carriage return.\<close>

fun split_lf :: "bytes \<Rightarrow> bytes list" where
  "split_lf [] = [[]]"
| "split_lf (b # bs) = (case split_lf bs of l # ls \<Rightarrow> if b = 0x0A then [] # l # ls else (b # l) # ls | [] \<Rightarrow> [])"

definition strip_cr :: "bytes \<Rightarrow> bytes" where
  "strip_cr l = (if l \<noteq> [] \<and> last l = 0x0D then butlast l else l)"

definition lines_of :: "bytes \<Rightarrow> bytes list" where
  "lines_of body = (let ls = split_lf body in
     map strip_cr (butlast ls) @ (if last ls = [] then [] else [last ls]))"

definition load_peers :: "bytes option \<Rightarrow> ('g, 's, 'r) node_state \<Rightarrow> nat \<times> ('g, 's, 'r) node_state" where
  "load_peers file n = (case file of
       None \<Rightarrow> (0, n)
     | Some body \<Rightarrow> foldl (\<lambda>(k, m) l. case add_peer l m of (new, m') \<Rightarrow> (if new then Suc k else k, m')) (0, n) (lines_of body))"

section \<open>Transactions and blocks\<close>

definition node_submit_tx ::
  "('g::ab_group_add, 's::comm_ring_1, 'r) host \<Rightarrow> ('g, 's, 'r) transaction \<Rightarrow> ('g, 's, 'r) node_state \<Rightarrow> bool \<times> ('g, 's, 'r) node_state" where
  "node_submit_tx E tx n = (case check_tx (h_prims E) tx of
       Inl _ \<Rightarrow> (False, n)
     | Inr _ \<Rightarrow> (case mp_add (h_prims E) tx (nd_mempool n) of (added, mp) \<Rightarrow> (added, n\<lparr>nd_mempool := mp\<rparr>)))"

text \<open>An error of the chain becomes \<open>no\<close>; a panic or a run that never ends stays a fault.\<close>

definition or_else :: "fault option \<Rightarrow> 'a \<Rightarrow> 'a \<Rightarrow> fault + 'a" where
  "or_else r yes no = (case r of None \<Rightarrow> Inr yes | Some (Reject e) \<Rightarrow> Inr no | Some f \<Rightarrow> Inl f)"

definition produce_block ::
  "('g::ab_group_add, 's::comm_ring_1, 'r) host \<Rightarrow> u64 \<Rightarrow> nat \<Rightarrow> ('g, 's, 'r) node_state \<Rightarrow>
   (fault + bytes option) \<times> ('g, 's, 'r) node_state" where
  "produce_block E now max_txs n =
    (let mp1 = prune_expired (bc_active_height (nd_chain n) + 1) (nd_mempool n);
         (drained, mp2) = mp_drain max_txs mp1;
         n1 = n\<lparr>nd_mempool := mp2\<rparr>;
         txs = select_valid E drained (nd_chain n)
     in (case mine_with_reward E now (nd_miner n) txs (nd_chain n) of
         Inl f \<Rightarrow> (Inl f, n1)
       | Inr b \<Rightarrow> (case apply_block E b (nd_chain n) of (r, c) \<Rightarrow>
             (or_else r (Some (block_encode (h_prims E) b)) None, n1\<lparr>nd_chain := c\<rparr>))))"

definition accept_block_bytes ::
  "('g::ab_group_add, 's::comm_ring_1, 'r) host \<Rightarrow> bytes \<Rightarrow> ('g, 's, 'r) node_state \<Rightarrow> (fault + bool) \<times> ('g, 's, 'r) node_state" where
  "accept_block_bytes E data n = (case block_decode (h_prims E) data of
       None \<Rightarrow> (Inr False, n)
     | Some b \<Rightarrow> (case apply_block E b (nd_chain n) of
           (None, c) \<Rightarrow> (Inr True, n\<lparr>nd_chain := c,
              nd_mempool := prune_expired (bc_active_height c + 1) (remove_included (h_prims E) (blk_txs b) (nd_mempool n))\<rparr>)
         | (r, c) \<Rightarrow> (or_else r True False, n\<lparr>nd_chain := c\<rparr>)))"

section \<open>Finality votes\<close>

definition drop_final_votes :: "u64 \<Rightarrow> (u64 \<times> id32, vote_bucket) fmap \<Rightarrow> (u64 \<times> id32, vote_bucket) fmap" where
  "drop_final_votes fh votes = fmfilter (\<lambda>(h, _). h > fh) votes"

definition add_vote ::
  "('g::ab_group_add, 's, 'r) host \<Rightarrow> bytes \<Rightarrow> ('g, 's, 'r) node_state \<Rightarrow> (bool \<times> bytes option) \<times> ('g, 's, 'r) node_state" where
  "add_vote E data n = (case vote_decode data of
     None \<Rightarrow> ((False, None), n)
   | Some v \<Rightarrow>
       if (case bc_finalized (nd_chain n) of Some (fh, _) \<Rightarrow> vo_height v \<le> fh | None \<Rightarrow> False) then ((False, None), n)
       else if active_id_at (nd_chain n) (vo_height v) \<noteq> Some (vo_block_id v) then ((False, None), n)
       else (case validator_set_at (nd_chain n) (vo_height v) of
           None \<Rightarrow> ((False, None), n)
         | Some vset \<Rightarrow>
             if \<not> list_ex (\<lambda>(i, _). i = vo_validator v) vset \<or> \<not> vote_verify (h_prims E) v then ((False, None), n)
             else
               let key = (vo_height v, vo_block_id v);
                   old = (case fmlookup (nd_votes n) key of Some b \<Rightarrow> b | None \<Rightarrow> fmempty) in
               if vo_validator v |\<in>| fmdom old then ((False, None), n)
               else
                 let bucket = fmupd (vo_validator v) (vo_sig v) old;
                     n1 = n\<lparr>nd_votes := fmupd key bucket (nd_votes n)\<rparr>;
                     total = sum_list (map (\<lambda>(_, s). ucast s) vset) :: u128;
                     voted = sum_list (map (\<lambda>(_, s). ucast s) (filter (\<lambda>(i, _). i |\<in>| fmdom bucket) vset)) :: u128 in
                 if 3 * voted > 2 * total then
                   let cert = \<lparr>ce_block_id = vo_block_id v, ce_height = vo_height v, ce_votes = fm_entries bucket\<rparr> in
                   (case try_finalize E cert (nd_chain n1) of
                      (True, c) \<Rightarrow> ((True, Some (cert_encode cert)),
                         n1\<lparr>nd_chain := c, nd_votes := drop_final_votes (vo_height v) (nd_votes n1)\<rparr>)
                    | (False, c) \<Rightarrow> ((True, None), n1\<lparr>nd_chain := c\<rparr>))
                 else ((True, None), n1)))"

definition accept_cert ::
  "('g::ab_group_add, 's, 'r) host \<Rightarrow> bytes \<Rightarrow> ('g, 's, 'r) node_state \<Rightarrow> bool \<times> ('g, 's, 'r) node_state" where
  "accept_cert E data n = (case cert_decode data of
       None \<Rightarrow> (False, n)
     | Some cert \<Rightarrow> (case try_finalize E cert (nd_chain n) of
           (True, c) \<Rightarrow> (True, n\<lparr>nd_chain := c, nd_votes := drop_final_votes (ce_height cert) (nd_votes n)\<rparr>)
         | (False, c) \<Rightarrow> (False, n\<lparr>nd_chain := c\<rparr>)))"

definition cast_vote ::
  "('g::ab_group_add, 's::comm_ring_1, 'r) host \<Rightarrow> ('g, 's, 'r) node_state \<Rightarrow> (bytes \<times> bytes option) option \<times> ('g, 's, 'r) node_state" where
  "cast_vote E n = (case nd_validator_key n of
       None \<Rightarrow> (None, n)
     | Some sk \<Rightarrow>
         let data = vote_encode (vote_sign (h_prims E) sk (bc_active_tip (nd_chain n)) (bc_active_height (nd_chain n))) in
         (case add_vote E data n of ((pooled, cert), n') \<Rightarrow> (if pooled then Some (data, cert) else None, n')))"

section \<open>The vote pool\<close>

text \<open>A quorum among the members of a validator set, and the stake the two sums of \<open>add_vote\<close> count.\<close>

definition quorum :: "validators \<Rightarrow> id32 set \<Rightarrow> bool" where
  "quorum vset S \<longleftrightarrow> 2 * (\<Sum>i \<in> fst ` set vset. stake_of vset i) < 3 * (\<Sum>i \<in> S \<inter> fst ` set vset. stake_of vset i)"

definition good_vote :: "('g::ab_group_add, 's, 'r) host \<Rightarrow> validators \<Rightarrow> vote \<Rightarrow> bool" where
  "good_vote E vset v \<longleftrightarrow> vo_validator v \<in> fst ` set vset \<and> vote_verify (h_prims E) v"

definition bucket_at :: "('g, 's, 'r) node_state \<Rightarrow> u64 \<Rightarrow> id32 \<Rightarrow> vote_bucket" where
  "bucket_at n h i = (case fmlookup (nd_votes n) (h, i) of Some b \<Rightarrow> b | None \<Rightarrow> fmempty)"

definition bucket_good :: "('g::ab_group_add, 's, 'r) host \<Rightarrow> validators \<Rightarrow> u64 \<Rightarrow> id32 \<Rightarrow> vote_bucket \<Rightarrow> bool" where
  "bucket_good E vset h i b \<longleftrightarrow> (\<forall>v sg. fmlookup b v = Some sg \<longrightarrow>
     good_vote E vset \<lparr>vo_block_id = i, vo_height = h, vo_validator = v, vo_sig = sg\<rparr>)"

lemma stake_sum_bound:
  assumes "distinct (map fst vset)" and "length vset < 2 ^ 32"
  shows "3 * (\<Sum>i \<in> fst ` set vset. stake_of vset i) < 2 ^ 128"
proof -
  have "(\<Sum>i \<in> fst ` set vset. stake_of vset i) \<le> length vset * (2 ^ 64 - 1)"
    using stake_bound [of vset] stake_total [OF assms(1)] by simp
  also have "\<dots> \<le> 2 ^ 32 * (2 ^ 64 - 1)" using assms(2) by (intro mult_right_mono) simp_all
  finally show ?thesis by simp
qed

lemma filter_stake:
  assumes "distinct (map fst vset)"
  shows "sum_list (map (\<lambda>(_, s). ucast s) (filter (\<lambda>(i, _). i \<in> S) vset)) =
    (of_nat (\<Sum>i \<in> S \<inter> fst ` set vset. stake_of vset i) :: u128)"
proof -
  let ?f = "filter (\<lambda>(i, _). i \<in> S) vset"
  have d: "distinct (map fst ?f)" using assms by (simp add: distinct_map_filter)
  have set: "fst ` set ?f = S \<inter> fst ` set vset" by force
  have "map_of ?f i = map_of vset i" if "i \<in> S" for i
    using that by (induction vset) auto
  then have "(\<Sum>i \<in> fst ` set ?f. stake_of ?f i) = (\<Sum>i \<in> S \<inter> fst ` set vset. stake_of vset i)"
    unfolding set by (intro sum.cong) (auto simp: stake_of_def)
  then show ?thesis using stake_total [OF d] by (simp add: unat_stake_sum)
qed

lemma quorum_words:
  assumes "distinct (map fst vset)" and "length vset < 2 ^ 32"
  shows "3 * sum_list (map (\<lambda>(_, s). ucast s) (filter (\<lambda>(i, _). i \<in> S) vset)) >
      2 * (sum_list (map (\<lambda>(_, s). ucast s) vset) :: u128) \<longleftrightarrow> quorum vset S"
proof -
  let ?T = "\<Sum>i \<in> fst ` set vset. stake_of vset i" and ?V = "\<Sum>i \<in> S \<inter> fst ` set vset. stake_of vset i"
  have T: "3 * ?T < 2 ^ 128" by (rule stake_sum_bound [OF assms])
  have "?V \<le> ?T" by (rule sum_mono2) auto
  then have V: "3 * ?V < 2 ^ 128" using T by linarith
  have "unat (of_nat (3 * ?V) :: u128) = 3 * ?V" "unat (of_nat (2 * ?T) :: u128) = 2 * ?T"
    by (rule unat_of_nat_u128, use T V in linarith)+
  moreover have total: "sum_list (map (\<lambda>(_, s). ucast s) vset) = (of_nat ?T :: u128)"
    by (simp only: unat_stake_sum stake_total [OF assms(1)])
  ultimately show ?thesis
    unfolding filter_stake [OF assms(1)] total quorum_def word_less_nat_alt by (simp only: of_nat_mult of_nat_numeral)
qed

lemma tally_good:
  assumes "distinct (map fst votes)" and "fst ` set votes \<inter> seen = {}"
    and "\<And>i sg. (i, sg) \<in> set votes \<Longrightarrow> good_vote E vset \<lparr>vo_block_id = b, vo_height = h, vo_validator = i, vo_sig = sg\<rparr>"
  shows "tally (h_prims E) vset b h seen w votes = Some (w + of_nat (\<Sum>i \<leftarrow> map fst votes. stake_of vset i))"
  using assms
proof (induction votes arbitrary: seen w)
  case (Cons e votes)
  obtain i sg where e: "e = (i, sg)" by (cases e)
  have g: "i \<in> fst ` set vset" "vote_verify (h_prims E) \<lparr>vo_block_id = b, vo_height = h, vo_validator = i, vo_sig = sg\<rparr>"
    using Cons.prems(3) [of i sg] by (simp_all add: e good_vote_def)
  then obtain st where st: "map_of vset i = Some st"
    by (metis map_of_eq_None_iff not_None_eq)
  have "tally (h_prims E) vset b h (insert i seen) (w + ucast st) votes =
      Some (w + ucast st + of_nat (\<Sum>i \<leftarrow> map fst votes. stake_of vset i))"
    using Cons.prems by (intro Cons.IH) (auto simp: e)
  moreover have "of_nat (stake_of vset i) = (ucast st :: u128)" using st by (simp add: stake_of_def)
  ultimately show ?case using g st Cons.prems(2) by (simp add: e find_map_of add.assoc)
qed simp

lemma quorum_certifies:
  assumes "distinct (map fst vset)" and "length vset < 2 ^ 32" and "bucket_good E vset h i b"
  shows "cert_verify (h_prims E) vset \<lparr>ce_block_id = i, ce_height = h, ce_votes = fm_entries b\<rparr> \<longleftrightarrow>
    quorum vset (fset (fmdom b))"
proof -
  have entries: "(v, sg) \<in> set (fm_entries b) \<longleftrightarrow> fmlookup b v = Some sg" for v sg
    by (auto simp: fm_entries_def fmlookup_dom_iff image_iff)
  have dom: "fst ` set (fm_entries b) = fset (fmdom b)"
    using map_fst_entries [of b] by (metis set_map sorted_list_of_fset_simps(1))
  have sub: "fset (fmdom b) \<subseteq> fst ` set vset"
    using assms(3) by (auto simp: bucket_good_def good_vote_def fmlookup_dom_iff)
  have t: "tally (h_prims E) vset i h {} 0 (fm_entries b) = Some (of_nat (\<Sum>v \<in> fset (fmdom b). stake_of vset v))"
  proof -
    have "(\<Sum>v \<leftarrow> map fst (fm_entries b). stake_of vset v) = (\<Sum>v \<in> fset (fmdom b). stake_of vset v)"
      using distinct_entries [of b] dom by (simp only: sum_list_distinct_conv_sum_set set_map)
    with tally_good [of "fm_entries b" "{}" E vset i h 0, OF distinct_entries] assms(3) show ?thesis
      by (simp only: add_0 entries bucket_good_def) simp
  qed
  have inter: "fset (fmdom b) \<inter> fst ` set vset = fset (fmdom b)" using sub by blast
  have "fm_entries b \<noteq> [] \<and> vset \<noteq> []" if "quorum vset (fset (fmdom b))"
  proof -
    have "fset (fmdom b) \<noteq> {}" using that by (force simp: quorum_def)
    with dom sub show ?thesis by (metis image_empty list.set(1) subset_empty)
  qed
  moreover have "3 * (of_nat (\<Sum>v \<in> fset (fmdom b). stake_of vset v) :: u128) > 2 * sum_list (map (\<lambda>(_, s). ucast s) vset) \<longleftrightarrow>
      quorum vset (fset (fmdom b))"
    using quorum_words [OF assms(1,2), of "fset (fmdom b)"] by (simp only: filter_stake [OF assms(1)] inter)
  ultimately show ?thesis using t by (auto simp: cert_verify_def Let_def)
qed

definition watermark_above :: "'g blockchain \<Rightarrow> u64 \<Rightarrow> bool" where
  "watermark_above c h \<longleftrightarrow> (case bc_finalized c of Some (fh, _) \<Rightarrow> h \<le> fh | None \<Rightarrow> False)"

text \<open>A block that can be voted on: it is active, not final yet, and its validator set is known.\<close>

definition votable :: "'g blockchain \<Rightarrow> u64 \<Rightarrow> id32 \<Rightarrow> validators \<Rightarrow> bool" where
  "votable c h i vset \<longleftrightarrow> \<not> watermark_above c h \<and> active_id_at c h = Some i \<and> validator_set_at c h = Some vset"

lemma try_finalize_votable:
  assumes "votable c h i vset"
  shows "try_finalize E \<lparr>ce_block_id = i, ce_height = h, ce_votes = votes\<rparr> c =
    (if cert_verify (h_prims E) vset \<lparr>ce_block_id = i, ce_height = h, ce_votes = votes\<rparr>
     then (True, c\<lparr>bc_finalized := Some (h, i)\<rparr>) else (False, c))"
  using assms by (cases "bc_finalized c") (auto simp: votable_def watermark_above_def active_id_at_def try_finalize_def)

text \<open>What a vote for a votable block does: it is refused, or pooled, or completes the quorum.\<close>

lemma add_vote_votable:
  fixes n :: "('g::ab_group_add, 's, 'r) node_state"
  assumes "votable (nd_chain n) h i vset" and "distinct (map fst vset)" and "length vset < 2 ^ 32"
    and "bucket_good E vset h i (bucket_at n h i)" and "vo_height v = h" and "vo_block_id v = i"
  shows "add_vote E (vote_encode v) n =
    (let b = fmupd (vo_validator v) (vo_sig v) (bucket_at n h i);
         n1 = n\<lparr>nd_votes := fmupd (h, i) b (nd_votes n)\<rparr>;
         cert = \<lparr>ce_block_id = i, ce_height = h, ce_votes = fm_entries b\<rparr> in
     if \<not> good_vote E vset v \<or> vo_validator v |\<in>| fmdom (bucket_at n h i) then ((False, None), n)
     else if quorum vset (fset (fmdom b)) then
       ((True, Some (cert_encode cert)), n1\<lparr>nd_chain := (nd_chain n)\<lparr>bc_finalized := Some (h, i)\<rparr>,
          nd_votes := drop_final_votes h (nd_votes n1)\<rparr>)
     else ((True, None), n1))"
proof -
  let ?b = "fmupd (vo_validator v) (vo_sig v) (bucket_at n h i)"
  have good: "bucket_good E vset h i ?b" if "good_vote E vset v"
    using that assms(4-6) by (cases v) (auto simp: bucket_good_def good_vote_def)
  have member: "list_ex (\<lambda>(j, _). j = vo_validator v) vset \<longleftrightarrow> vo_validator v \<in> fst ` set vset"
    by (force simp: list_ex_iff)
  have "vote_decode (vote_encode v) = Some v" using vote_codec by blast
  moreover have "try_finalize E \<lparr>ce_block_id = i, ce_height = h, ce_votes = fm_entries ?b\<rparr> (nd_chain n) =
      (True, (nd_chain n)\<lparr>bc_finalized := Some (h, i)\<rparr>)" if "good_vote E vset v" "quorum vset (fset (fmdom ?b))"
    using try_finalize_votable [OF assms(1), of E] quorum_certifies [OF assms(2,3) good] that by simp
  moreover note quorum_words [OF assms(2,3), of "fset (fmdom ?b)"]
  ultimately show ?thesis
    using assms(1,5,6) member
    by (auto simp: add_vote_def votable_def watermark_above_def good_vote_def bucket_at_def Let_def split: option.splits)
qed

lemma bucket_members: "bucket_good E vset h i b \<Longrightarrow> fset (fmdom b) \<subseteq> fst ` set vset"
  by (auto simp: bucket_good_def good_vote_def fmlookup_dom_iff)

lemma bucket_at_upd [simp]: "bucket_at (n\<lparr>nd_votes := fmupd (h, i) b vs\<rparr>) h i = b"
  by (simp add: bucket_at_def)

text \<open>A list of votes for one block, from a pool that has no quorum yet.\<close>

definition signers :: "('g::ab_group_add, 's, 'r) host \<Rightarrow> validators \<Rightarrow> vote list \<Rightarrow> id32 set" where
  "signers E vset votes = vo_validator ` {v \<in> set votes. good_vote E vset v}"

definition pool_votes :: "('g::ab_group_add, 's, 'r) host \<Rightarrow> vote list \<Rightarrow> ('g, 's, 'r) node_state \<Rightarrow> ('g, 's, 'r) node_state" where
  "pool_votes E votes n = foldl (\<lambda>m v. snd (add_vote E (vote_encode v) m)) n votes"

lemma pool_votes_snoc [simp]: "pool_votes E (votes @ [v]) n = snd (add_vote E (vote_encode v) (pool_votes E votes n))"
  by (simp add: pool_votes_def)

lemma add_vote_final:
  "watermark_above (nd_chain n) (vo_height v) \<Longrightarrow> add_vote E (vote_encode v) n = ((False, None), n)"
  using vote_codec [of "vote_encode v" v] by (auto simp: add_vote_def watermark_above_def split: option.splits)

lemma quorum_mono: "quorum vset S \<Longrightarrow> S \<subseteq> S' \<Longrightarrow> quorum vset S'"
  unfolding quorum_def
  by (erule less_le_trans) (auto intro!: mult_left_mono sum_mono2)

lemma pool_votes_state:
  fixes n :: "('g::ab_group_add, 's, 'r) node_state"
  assumes "votable (nd_chain n) h i vset" and "distinct (map fst vset)" and "length vset < 2 ^ 32"
    and "bucket_good E vset h i (bucket_at n h i)" and "\<not> quorum vset (fset (fmdom (bucket_at n h i)))"
    and "list_all (\<lambda>v. vo_height v = h \<and> vo_block_id v = i) votes"
  defines "S \<equiv> fset (fmdom (bucket_at n h i)) \<union> signers E vset votes"
  shows "if quorum vset S then nd_chain (pool_votes E votes n) = (nd_chain n)\<lparr>bc_finalized := Some (h, i)\<rparr>
    else nd_chain (pool_votes E votes n) = nd_chain n \<and> fset (fmdom (bucket_at (pool_votes E votes n) h i)) = S \<and>
      bucket_good E vset h i (bucket_at (pool_votes E votes n) h i)"
  using assms(6) unfolding S_def
proof (induction votes rule: rev_induct)
  case Nil
  then show ?case using assms(4,5) by (simp add: pool_votes_def signers_def)
next
  case (snoc v votes)
  let ?m = "pool_votes E votes n" and ?D = "fset (fmdom (bucket_at n h i))"
  have v: "vo_height v = h" "vo_block_id v = i" and old: "list_all (\<lambda>v. vo_height v = h \<and> vo_block_id v = i) votes"
    using snoc.prems by simp_all
  have sg: "signers E vset (votes @ [v]) = (if good_vote E vset v then insert (vo_validator v) (signers E vset votes) else signers E vset votes)"
    by (auto simp: signers_def)
  show ?case
  proof (cases "quorum vset (?D \<union> signers E vset votes)")
    case True
    then have c: "nd_chain ?m = (nd_chain n)\<lparr>bc_finalized := Some (h, i)\<rparr>" using snoc.IH [OF old] by simp
    then have "watermark_above (nd_chain ?m) (vo_height v)" by (simp add: watermark_above_def v)
    moreover have "quorum vset (?D \<union> signers E vset (votes @ [v]))"
      by (rule quorum_mono [OF True]) (auto simp: sg)
    ultimately show ?thesis using c by (simp add: add_vote_final)
  next
    case False
    then have c: "nd_chain ?m = nd_chain n" and d: "fset (fmdom (bucket_at ?m h i)) = ?D \<union> signers E vset votes"
      and g: "bucket_good E vset h i (bucket_at ?m h i)" using snoc.IH [OF old] by simp_all
    have step: "add_vote E (vote_encode v) ?m = (let b = fmupd (vo_validator v) (vo_sig v) (bucket_at ?m h i);
         n1 = ?m\<lparr>nd_votes := fmupd (h, i) b (nd_votes ?m)\<rparr>;
         cert = \<lparr>ce_block_id = i, ce_height = h, ce_votes = fm_entries b\<rparr> in
       if \<not> good_vote E vset v \<or> vo_validator v |\<in>| fmdom (bucket_at ?m h i) then ((False, None), ?m)
       else if quorum vset (fset (fmdom b)) then
         ((True, Some (cert_encode cert)), n1\<lparr>nd_chain := (nd_chain ?m)\<lparr>bc_finalized := Some (h, i)\<rparr>,
            nd_votes := drop_final_votes h (nd_votes n1)\<rparr>)
       else ((True, None), n1))"
      by (rule add_vote_votable) (use assms(1-3) c g v in simp_all)
    show ?thesis
    proof (cases "\<not> good_vote E vset v \<or> vo_validator v |\<in>| fmdom (bucket_at ?m h i)")
      case True
      then have "?D \<union> signers E vset (votes @ [v]) = ?D \<union> signers E vset votes" using d by (auto simp: sg)
      then show ?thesis using True False step c d g by simp
    next
      case False2: False
      have e: "?D \<union> signers E vset (votes @ [v]) = insert (vo_validator v) (fset (fmdom (bucket_at ?m h i)))"
        using False2 d by (auto simp: sg)
      have "bucket_good E vset h i (fmupd (vo_validator v) (vo_sig v) (bucket_at ?m h i))"
        using g False2 v by (cases v) (auto simp: bucket_good_def)
      then show ?thesis using False2 step c by (simp add: e Let_def)
    qed
  qed
qed

text \<open>
  C30: votes finalize exactly at a quorum. Let a block be active, not final, with a known validator set, and let votes for it
  arrive in any order, repeated, forged or from strangers. The node finalizes the block if and only if the members of the set
  that signed, with those pooled before, hold more than two thirds of the stake; otherwise the chain is untouched.
  The vote that completes the quorum, and no other, makes the node emit a certificate; any other node that has the block
  active, not final, with the same validator set, finalizes it on reading that certificate.
\<close>

theorem quorum_finalizes:
  fixes n m :: "('g::ab_group_add, 's, 'r) node_state"
  assumes "votable (nd_chain n) h i vset" and "distinct (map fst vset)" and "length vset < 2 ^ 32"
    and "bucket_good E vset h i (bucket_at n h i)" and "\<not> quorum vset (fset (fmdom (bucket_at n h i)))"
    and "list_all (\<lambda>v. vo_height v = h \<and> vo_block_id v = i) (votes @ [v])"
  defines "n' \<equiv> pool_votes E votes n"
  shows "(bc_finalized (nd_chain n') = Some (h, i) \<longleftrightarrow> quorum vset (fset (fmdom (bucket_at n h i)) \<union> signers E vset votes)) \<and>
    (bc_finalized (nd_chain n') \<noteq> Some (h, i) \<longrightarrow> nd_chain n' = nd_chain n) \<and>
    ((\<exists>cert. snd (fst (add_vote E (vote_encode v) n')) = Some cert) \<longleftrightarrow>
       bc_finalized (nd_chain n') \<noteq> Some (h, i) \<and> bc_finalized (nd_chain (snd (add_vote E (vote_encode v) n'))) = Some (h, i)) \<and>
    (snd (fst (add_vote E (vote_encode v) n')) = Some cert \<and> votable (nd_chain m) h i vset \<longrightarrow>
       fst (accept_cert E cert m) \<and> bc_finalized (nd_chain (snd (accept_cert E cert m))) = Some (h, i))"
proof -
  let ?S = "fset (fmdom (bucket_at n h i)) \<union> signers E vset votes"
  have v: "vo_height v = h" "vo_block_id v = i" and votes: "list_all (\<lambda>v. vo_height v = h \<and> vo_block_id v = i) votes"
    using assms(6) by simp_all
  note st = pool_votes_state [OF assms(1-5) votes, folded n'_def]
  have nf: "bc_finalized (nd_chain n) \<noteq> Some (h, i)" using assms(1) by (auto simp: votable_def watermark_above_def)
  show ?thesis
  proof (cases "quorum vset ?S")
    case True
    with st have c: "nd_chain n' = (nd_chain n)\<lparr>bc_finalized := Some (h, i)\<rparr>" by simp
    then have "add_vote E (vote_encode v) n' = ((False, None), n')"
      by (intro add_vote_final) (simp add: watermark_above_def v)
    with True c show ?thesis by simp
  next
    case False
    with st have c: "nd_chain n' = nd_chain n" and g: "bucket_good E vset h i (bucket_at n' h i)" by simp_all
    let ?b = "fmupd (vo_validator v) (vo_sig v) (bucket_at n' h i)"
    let ?cert = "\<lparr>ce_block_id = i, ce_height = h, ce_votes = fm_entries ?b\<rparr>"
    note step = add_vote_votable [of n' h i vset E v, unfolded c, OF assms(1-3) g v, unfolded Let_def]
    have read: "fst (accept_cert E (cert_encode ?cert) m) \<and> bc_finalized (nd_chain (snd (accept_cert E (cert_encode ?cert) m))) = Some (h, i)"
      if m: "votable (nd_chain m) h i vset" and q: "quorum vset (fset (fmdom ?b))" and good: "good_vote E vset v"
    proof -
      have gb: "bucket_good E vset h i ?b" using g good v by (cases v) (auto simp: bucket_good_def)
      from bucket_members [OF this] have "card (fset (fmdom ?b)) \<le> length vset"
        by (meson List.finite_set card_image_le card_length card_mono finite_imageI le_trans)
      then have "length (fm_entries ?b) < 2 ^ 32"
        using assms(3) unfolding length_entries fcard.rep_eq by (rule le_less_trans)
      then have "cert_decode (cert_encode ?cert) = Some ?cert" using cert_codec by simp
      moreover have "cert_verify (h_prims E) vset ?cert" using quorum_certifies [OF assms(2,3) gb] q by simp
      ultimately show ?thesis using try_finalize_votable [OF m, of E "fm_entries ?b"] by (simp add: accept_cert_def)
    qed
    show ?thesis using False st c nf step read by (auto split: if_splits)
  qed
qed

text \<open>One validator has all the stake; a forged vote of a stranger comes first.\<close>

theorem quorum_finalizes_witness:
  "\<exists>c :: u64 blockchain. bc_finalized c = None \<and>
     bc_finalized (nd_chain (pool_votes flat_host
       [\<lparr>vo_block_id = 2, vo_height = 1, vo_validator = 9, vo_sig = 0\<rparr>, \<lparr>vo_block_id = 2, vo_height = 1, vo_validator = 0, vo_sig = 0\<rparr>]
       (node_new c))) = Some (1, 2)"
proof (rule flat_run)
  fix c c' :: "u64 blockchain"
  assume c: "bc_active_chain c' = [1, 2]" "bc_finalized c' = None" "validator_set_at c' 1 = Some [(0, 200000000)]"
  let ?v = "\<lambda>i. \<lparr>vo_block_id = 2, vo_height = 1, vo_validator = i, vo_sig = 0\<rparr>" and ?n = "node_new c' :: (u64, u64, unit) node_state" and ?V = "[(0, 200000000)]"
  have v: "votable (nd_chain ?n) 1 2 ?V"
    by (simp add: votable_def node_new_def watermark_above_def active_id_at_def vec_get_def c)
  have b: "bucket_at ?n 1 2 = fmempty" by (simp add: bucket_at_def node_new_def)
  have "good_vote flat_host ?V (?v 0)" "\<not> good_vote flat_host ?V (?v 9)" by (simp_all add: good_vote_def flat_checks)
  then have "{x \<in> set [?v 9, ?v 0]. good_vote flat_host ?V x} = {?v 0}" by auto
  then have s: "signers flat_host ?V [?v 9, ?v 0] = {0}" unfolding signers_def by simp
  have q: "quorum ?V {0}" "\<not> quorum ?V {}" by (simp_all add: quorum_def stake_of_def)
  have g: "bucket_good flat_host ?V 1 2 fmempty" by (simp add: bucket_good_def)
  have "bc_finalized (nd_chain (pool_votes flat_host [?v 9, ?v 0] ?n)) = Some (1, 2)"
  proof (subst quorum_finalizes [of ?n 1 2 ?V flat_host "[?v 9, ?v 0]" "?v 0", THEN conjunct1])
    show "quorum ?V (fset (fmdom (bucket_at ?n 1 2)) \<union> signers flat_host ?V [?v 9, ?v 0])"
      unfolding b s using q(1) by simp
  qed (use v b q g in simp_all)
  with c(2) show ?thesis by blast
qed

section \<open>The peer set\<close>

lemma trim_with_clean: "w \<in> set ws \<Longrightarrow> w \<noteq> [] \<Longrightarrow> take (length w) (trim_with ws b) \<noteq> w"
proof (induction ws b rule: trim_with.induct)
  case (1 ws b)
  then show ?case by (subst trim_with.simps) (auto simp: find_None_iff split: option.split)
qed

lemma trim_with_suffix: "\<exists>p. b = p @ trim_with ws b"
proof (induction ws b rule: trim_with.induct)
  case (1 ws b)
  show ?case
  proof (cases "find (\<lambda>w. w \<noteq> [] \<and> take (length w) b = w) ws")
    case None
    then show ?thesis by (subst trim_with.simps) simp
  next
    case (Some w)
    with 1 obtain p where "drop (length w) b = p @ trim_with ws (drop (length w) b)" by blast
    then have "b = (take (length w) b @ p) @ trim_with ws (drop (length w) b)" by (metis append_assoc append_take_drop_id)
    moreover have "trim_with ws b = trim_with ws (drop (length w) b)" using Some by (subst trim_with.simps) simp
    ultimately show ?thesis by metis
  qed
qed

lemma trim_with_done: "(\<And>w. w \<in> set ws \<Longrightarrow> w \<noteq> [] \<Longrightarrow> take (length w) b \<noteq> w) \<Longrightarrow> trim_with ws b = b"
proof -
  assume clean: "\<And>w. w \<in> set ws \<Longrightarrow> w \<noteq> [] \<Longrightarrow> take (length w) b \<noteq> w"
  have "find (\<lambda>w. w \<noteq> [] \<and> take (length w) b = w) ws = None" unfolding find_None_iff using clean by blast
  then show ?thesis by (subst trim_with.simps) simp
qed

lemma trim_parts:
  obtains y p where "trim b = rev (trim_with (map rev ws_encodings) (rev y))" and "y = trim_with ws_encodings b" and "y = trim b @ p"
proof -
  let ?y = "trim_with ws_encodings b"
  obtain p where p: "rev ?y = p @ trim_with (map rev ws_encodings) (rev ?y)" using trim_with_suffix by blast
  have "?y = rev (rev ?y)" by simp
  also have "\<dots> = rev (p @ trim_with (map rev ws_encodings) (rev ?y))" by (rule arg_cong [OF p])
  also have "\<dots> = trim b @ rev p" by (simp add: trim_def)
  finally show thesis by (rule that [OF _ refl, rotated]) (simp add: trim_def)
qed

lemma trim_idem [simp]: "trim (trim b) = trim b"
proof (rule trim_parts [of b])
  fix y p
  assume y: "trim b = rev (trim_with (map rev ws_encodings) (rev y))" "y = trim_with ws_encodings b" "y = trim b @ p"
  have "take (length w) (trim b) \<noteq> w" if w: "w \<in> set ws_encodings" "w \<noteq> []" for w
  proof
    assume t: "take (length w) (trim b) = w"
    then have "length w \<le> length (trim b)" by (metis length_take min.cobounded1)
    then have "take (length w) y = w" using t unfolding y(3) by simp
    then show False using trim_with_clean [OF w, of b] y(2) by simp
  qed
  then have "trim_with ws_encodings (trim b) = trim b" by (rule trim_with_done)
  moreover have "trim_with (map rev ws_encodings) (rev (trim b)) = rev (trim b)"
    unfolding y(1) rev_rev_ident by (rule trim_with_done) (rule trim_with_clean)
  ultimately show ?thesis by (simp add: trim_def [of "trim b"])
qed

lemma trimmed_last: "trim b = b \<Longrightarrow> b \<noteq> [] \<Longrightarrow> last b \<noteq> 0x0D"
proof
  assume b: "trim b = b" "b \<noteq> []" "last b = 0x0D"
  obtain y where "b = rev (trim_with (map rev ws_encodings) (rev y))" using trim_parts [of b] b(1) by metis
  then have r: "rev b = trim_with (map rev ws_encodings) (rev y)" by simp
  have "[0x0D] \<in> set (map rev ws_encodings)" by (simp add: ws_encodings_def)
  from trim_with_clean [OF this, of "rev y"] have "take 1 (rev b) \<noteq> [0x0D]" by (simp add: r)
  moreover have "take 1 (rev b) = [last b]" using b(2) by (metis hd_rev rev_is_Nil_conv take_Suc_Cons take0 One_nat_def list.collapse)
  ultimately show False using b(3) by simp
qed

text \<open>The invariant of the peers: capped, without duplicates, tidy addresses, and none that should be evicted.\<close>

definition peers_ok :: "('g, 's, 'r) node_state \<Rightarrow> bool" where
  "peers_ok n \<longleftrightarrow> length (nd_peers n) \<le> MAX_PEERS \<and> distinct (peers n) \<and>
     (\<forall>p \<in> set (nd_peers n). pr_addr p \<noteq> [] \<and> length (pr_addr p) \<le> MAX_PEER_ADDR_LEN \<and> trim (pr_addr p) = pr_addr p \<and>
        pr_failures p < MAX_PEER_FAILURES)"

lemma update_peer_addrs [simp]: "(\<And>p. pr_addr (f p) = pr_addr p) \<Longrightarrow> map pr_addr (update_peer a f ps) = map pr_addr ps"
  by (induction ps) auto

lemma update_peer_length [simp]: "length (update_peer a f ps) = length ps"
  by (induction ps) auto

lemma update_peer_mem:
  "p \<in> set (update_peer a f ps) \<Longrightarrow> p \<in> set ps \<or> (\<exists>q. find_peer a ps = Some q \<and> p = f q)"
  by (induction ps) (auto simp: find_peer_def split: if_splits)

lemma find_peer_Some: "find_peer a ps = Some p \<Longrightarrow> p \<in> set ps \<and> pr_addr p = a"
  by (auto simp: find_peer_def find_Some_iff)

lemma find_peer_None: "find_peer a ps = None \<longleftrightarrow> a \<notin> pr_addr ` set ps"
  by (auto simp: find_peer_def find_None_iff)

lemma find_update: "find_peer a ps = Some p \<Longrightarrow> pr_addr (f p) = pr_addr p \<Longrightarrow> find_peer a (update_peer a f ps) = Some (f p)"
  by (induction ps) (auto simp: find_peer_def split: if_splits)

lemma peers_ok_add: "peers_ok n \<Longrightarrow> peers_ok (snd (add_peer a n))"
  by (auto simp: peers_ok_def add_peer_def Let_def peers_def MAX_PEER_FAILURES_def list_ex_iff)

lemma peers_ok_filter: "peers_ok n \<Longrightarrow> peers_ok (n\<lparr>nd_peers := filter P (nd_peers n)\<rparr>)"
  by (auto simp: peers_ok_def peers_def distinct_map_filter intro: le_trans [OF length_filter_le])

lemma peers_ok_update:
  assumes "peers_ok n" and "\<And>p. pr_addr (f p) = pr_addr p" and "\<And>p. find_peer a (nd_peers n) = Some p \<Longrightarrow> pr_failures (f p) < MAX_PEER_FAILURES"
  shows "peers_ok (n\<lparr>nd_peers := update_peer a f (nd_peers n)\<rparr>)"
proof -
  have "pr_addr p \<noteq> [] \<and> length (pr_addr p) \<le> MAX_PEER_ADDR_LEN \<and> trim (pr_addr p) = pr_addr p \<and> pr_failures p < MAX_PEER_FAILURES"
    if "p \<in> set (update_peer a f (nd_peers n))" for p
    using update_peer_mem [OF that] assms by (auto simp: peers_ok_def dest: find_peer_Some)
  then show ?thesis using assms(1,2) by (simp add: peers_ok_def peers_def)
qed

lemma evict_update:
  assumes "distinct (map pr_addr ps)" and "find_peer a ps = Some p" and "\<And>p. pr_addr (f p) = pr_addr p"
  shows "filter (\<lambda>p. pr_addr p \<noteq> a) (update_peer a f ps) = filter (\<lambda>p. pr_addr p \<noteq> a) ps"
  using assms(1,2) by (induction ps) (auto simp: find_peer_def assms(3) split: if_splits)

lemma peers_ok_failure:
  assumes "peers_ok n"
  shows "peers_ok (snd (record_peer_failure a n))"
proof (cases "find_peer a (nd_peers n)")
  case (Some p)
  have d: "distinct (map pr_addr (nd_peers n))" using assms by (simp add: peers_ok_def peers_def)
  show ?thesis
  proof (cases "pr_failures p + 1 \<ge> MAX_PEER_FAILURES")
    case True
    then show ?thesis using Some peers_ok_filter [OF assms] evict_update [OF d Some]
      by (simp add: record_peer_failure_def Let_def)
  next
    case False
    then show ?thesis using Some by (auto simp: record_peer_failure_def Let_def not_le intro!: peers_ok_update [OF assms])
  qed
qed (use assms in \<open>simp add: record_peer_failure_def\<close>)

text \<open>A row of failures: the peer is forgotten at the fifth.\<close>

fun fail_times :: "nat \<Rightarrow> bytes \<Rightarrow> ('g, 's, 'r) node_state \<Rightarrow> ('g, 's, 'r) node_state" where
  "fail_times 0 a n = n"
| "fail_times (Suc k) a n = snd (record_peer_failure a (fail_times k a n))"

lemma peers_failure:
  "b \<noteq> a \<Longrightarrow> b \<in> set (peers (snd (record_peer_failure a n))) \<longleftrightarrow> b \<in> set (peers n)"
proof (cases "find_peer a (nd_peers n)")
  case (Some p)
  let ?u = "update_peer a (\<lambda>q. q\<lparr>pr_failures := pr_failures p + 1\<rparr>) (nd_peers n)"
  assume "b \<noteq> a"
  have "map pr_addr ?u = peers n" by (simp add: peers_def)
  then have "b \<in> pr_addr ` set ?u \<longleftrightarrow> b \<in> set (peers n)" by (metis set_map)
  then show ?thesis using Some \<open>b \<noteq> a\<close> by (auto simp: record_peer_failure_def Let_def peers_def)
qed (simp add: record_peer_failure_def)

lemma failures_count:
  assumes "find_peer a (nd_peers n) = Some p" and "pr_failures p = 0" and "k \<le> 5"
  shows "find_peer a (nd_peers (fail_times k a n)) = (if k < 5 then Some (p\<lparr>pr_failures := of_nat k\<rparr>) else None)"
  using assms(3)
proof (induction k)
  case 0
  then show ?case using assms(1,2) by simp
next
  case (Suc k)
  then have f: "find_peer a (nd_peers (fail_times k a n)) = Some (p\<lparr>pr_failures := of_nat k\<rparr>)" by simp
  have five: "(of_nat k :: u32) + 1 \<ge> MAX_PEER_FAILURES \<longleftrightarrow> \<not> Suc k < 5"
  proof -
    have "k < 5" using Suc.prems by simp
    then have "unat ((of_nat k :: u32) + 1) = Suc k" by (simp add: unat_word_ariths unat_of_nat)
    then show ?thesis by (simp add: MAX_PEER_FAILURES_def word_le_nat_alt not_less)
  qed
  show ?case
  proof (cases "Suc k < 5")
    case True
    then have "\<not> (of_nat k :: u32) + 1 \<ge> MAX_PEER_FAILURES" using five by simp
    then show ?thesis using f find_update [OF f] True by (simp add: record_peer_failure_def Let_def add.commute)
  next
    case False
    then have "(of_nat k :: u32) + 1 \<ge> MAX_PEER_FAILURES" using five by simp
    then show ?thesis using f False by (auto simp: record_peer_failure_def Let_def find_peer_None)
  qed
qed

subsection \<open>The peers file\<close>

lemma split_lf_nonempty: "split_lf b \<noteq> []"
  by (induction b) (auto split: list.splits)

lemma split_lf_line: "0x0A \<notin> set x \<Longrightarrow> split_lf x = [x]"
  by (induction x) auto

lemma split_lf_app: "0x0A \<notin> set x \<Longrightarrow> split_lf (x @ 0x0A # b) = x # split_lf b"
  using split_lf_nonempty [of b] by (induction x) (auto split: list.splits)

lemma split_lf_join: "\<forall>x\<in>set xs. 0x0A \<notin> set x \<Longrightarrow> xs \<noteq> [] \<Longrightarrow> split_lf (join [0x0A] xs) = xs"
  by (induction "[0x0A] :: bytes" xs rule: join.induct) (simp_all add: split_lf_line split_lf_app)

lemma lines_of_join:
  assumes "\<forall>x\<in>set xs. 0x0A \<notin> set x \<and> x \<noteq> [] \<and> last x \<noteq> 0x0D"
  shows "lines_of (join [0x0A] xs) = xs"
proof (cases "xs = []")
  case False
  have "split_lf (join [0x0A] xs) = xs" using assms False by (intro split_lf_join) simp_all
  moreover have "map strip_cr (butlast xs) = butlast xs"
    using assms by (intro map_idI) (auto simp: strip_cr_def dest: in_set_butlastD)
  ultimately show ?thesis using assms False by (simp add: lines_of_def Let_def append_butlast_last_id last_in_set)
qed (simp add: lines_of_def)

lemma foldl_add_peers:
  assumes "\<forall>x\<in>set xs. trim x = x \<and> x \<noteq> [] \<and> length x \<le> MAX_PEER_ADDR_LEN" and "nd_self_addr n = None"
    and "length (nd_peers n) + length xs \<le> MAX_PEERS" and "distinct (peers n @ xs)"
  shows "foldl (\<lambda>(k, m) l. case add_peer l m of (new, m') \<Rightarrow> (if new then Suc k else k, m')) (k, n) xs =
    (k + length xs, n\<lparr>nd_peers := nd_peers n @ map (\<lambda>x. \<lparr>pr_addr = x, pr_failures = 0\<rparr>) xs\<rparr>)"
  using assms
proof (induction xs arbitrary: n k)
  case (Cons x xs)
  let ?n = "n\<lparr>nd_peers := nd_peers n @ [\<lparr>pr_addr = x, pr_failures = 0\<rparr>]\<rparr>"
  have "add_peer x n = (True, ?n)"
    using Cons.prems by (auto simp: add_peer_def Let_def peers_def list_ex_iff image_iff)
  moreover have "foldl (\<lambda>(k, m) l. case add_peer l m of (new, m') \<Rightarrow> (if new then Suc k else k, m')) (Suc k, ?n) xs =
    (Suc k + length xs, ?n\<lparr>nd_peers := nd_peers ?n @ map (\<lambda>x. \<lparr>pr_addr = x, pr_failures = 0\<rparr>) xs\<rparr>)"
    using Cons.prems by (intro Cons.IH) (auto simp: peers_def)
  ultimately show ?case by simp
qed simp

lemma peers_ok_load: "peers_ok n \<Longrightarrow> peers_ok (snd (load_peers saved n))"
proof (cases saved)
  case (Some body)
  assume n: "peers_ok n"
  have "peers_ok m \<Longrightarrow> peers_ok (snd (foldl (\<lambda>(k, m) l. case add_peer l m of (new, m') \<Rightarrow> (if new then Suc k else k, m')) (k, m) xs))"
    for k xs and m :: "('a, 'b, 'c) node_state"
  proof (induction xs arbitrary: k m)
    case (Cons x xs)
    obtain new m' where x: "add_peer x m = (new, m')" by (cases "add_peer x m")
    with peers_ok_add [OF Cons.prems, of x] have "peers_ok m'" by simp
    from Cons.IH [OF this] show ?case by (simp add: x)
  qed simp
  from this [OF n] show ?thesis by (simp add: load_peers_def Some)
qed (simp add: load_peers_def)

text \<open>
  C32: the peer set stays healthy. Every operation, loading the peers file included, keeps it within its cap, without duplicates,
  with trimmed addresses of a bounded length, and without a peer that has failed five times. A known address counted from
  a success is forgotten at the fifth failure in a row, no earlier, and the failures of one peer never touch another. Saved
  addresses without a line feed are read back in their order.
\<close>

theorem peer_set_kept:
  fixes n :: "('g, 's, 'r) node_state"
  assumes "peers_ok n"
  shows "peers_ok (snd (add_peer a n)) \<and> peers_ok (snd (remove_peer a n)) \<and> peers_ok (record_peer_ok a n) \<and>
    peers_ok (snd (record_peer_failure a n)) \<and> peers_ok (snd (load_peers saved n)) \<and>
    (a \<in> set (peers n) \<and> k \<le> 5 \<longrightarrow> (a \<in> set (peers (fail_times k a (record_peer_ok a n))) \<longleftrightarrow> k < 5)) \<and>
    (b \<noteq> a \<longrightarrow> (b \<in> set (peers (fail_times k a n)) \<longleftrightarrow> b \<in> set (peers n))) \<and>
    ((\<forall>x\<in>set (peers n). 0x0A \<notin> set x) \<longrightarrow>
       peers (snd (load_peers (Some (save_peers n)) (node_new c :: ('g, 's, 'r) node_state))) = peers n)"
proof (intro conjI impI)
  show "peers_ok (snd (add_peer a n))" by (rule peers_ok_add [OF assms])
  show "peers_ok (snd (remove_peer a n))" using peers_ok_filter [OF assms] by (simp add: remove_peer_def Let_def)
  show "peers_ok (record_peer_ok a n)"
    unfolding record_peer_ok_def by (rule peers_ok_update [OF assms]) (simp_all add: MAX_PEER_FAILURES_def)
  show "peers_ok (snd (record_peer_failure a n))" by (rule peers_ok_failure [OF assms])
  show "peers_ok (snd (load_peers saved n))" by (rule peers_ok_load [OF assms])
  show "b \<in> set (peers (fail_times k a n)) \<longleftrightarrow> b \<in> set (peers n)" if "b \<noteq> a"
    by (induction k) (simp_all add: peers_failure [OF that])
  show "a \<in> set (peers (fail_times k a (record_peer_ok a n))) \<longleftrightarrow> k < 5" if k: "a \<in> set (peers n) \<and> k \<le> 5"
  proof -
    have known: "a \<in> set (peers m) \<longleftrightarrow> find_peer a (nd_peers m) \<noteq> None" for m :: "('g, 's, 'r) node_state"
      by (simp add: find_peer_None peers_def)
    with k obtain p where p: "find_peer a (nd_peers n) = Some p" by blast
    then have "find_peer a (nd_peers (record_peer_ok a n)) = Some (p\<lparr>pr_failures := 0\<rparr>)"
      by (simp add: record_peer_ok_def find_update)
    from failures_count [OF this, of k] k show ?thesis by (simp add: known)
  qed
  assume lf: "\<forall>x\<in>set (peers n). 0x0A \<notin> set x"
  have tidy: "\<forall>x\<in>set (peers n). trim x = x \<and> x \<noteq> [] \<and> length x \<le> MAX_PEER_ADDR_LEN"
    using assms by (auto simp: peers_ok_def peers_def)
  then have "lines_of (save_peers n) = peers n"
    unfolding save_peers_def peers_def [symmetric] using lf trimmed_last by (intro lines_of_join) blast
  moreover note foldl_add_peers [OF tidy, of "node_new c :: ('g, 's, 'r) node_state" 0]
  ultimately show "peers (snd (load_peers (Some (save_peers n)) (node_new c :: ('g, 's, 'r) node_state))) = peers n"
    using assms by (simp add: load_peers_def peers_ok_def node_new_def peers_def o_def)
qed

theorem peer_set_kept_witness:
  "\<forall>c :: u64 blockchain.
    let n = (node_new c :: (u64, u64, unit) node_state)\<lparr>nd_peers := [\<lparr>pr_addr = ascii ''h1'', pr_failures = 4\<rparr>]\<rparr> in
    ascii ''h1'' \<in> set (peers (fail_times 4 (ascii ''h1'') (record_peer_ok (ascii ''h1'') n))) \<and>
    peers (snd (load_peers (Some (save_peers n)) (node_new c :: (u64, u64, unit) node_state))) = [ascii ''h1'']"
proof
  fix c :: "u64 blockchain"
  let ?n = "(node_new c :: (u64, u64, unit) node_state)\<lparr>nd_peers := [\<lparr>pr_addr = ascii ''h1'', pr_failures = 4\<rparr>]\<rparr>"
  have "trim (ascii ''h1'') = ascii ''h1''" by (rule trim_visible) (simp_all add: ascii_def ascii_alnum_def)
  then have ok: "peers_ok ?n"
    by (simp add: peers_ok_def peers_def MAX_PEERS_def MAX_PEER_ADDR_LEN_def MAX_PEER_FAILURES_def) (simp add: ascii_def)
  have p: "peers ?n = [ascii ''h1'']" "0x0A \<notin> set (ascii ''h1'')" by (simp_all add: peers_def ascii_def)
  show "let n = ?n in
    ascii ''h1'' \<in> set (peers (fail_times 4 (ascii ''h1'') (record_peer_ok (ascii ''h1'') n))) \<and>
    peers (snd (load_peers (Some (save_peers n)) (node_new c :: (u64, u64, unit) node_state))) = [ascii ''h1'']"
    unfolding Let_def
    using peer_set_kept [OF ok, of "ascii ''h1''" None 4 "[]" c] p by simp
qed

end
