(* ===== verification/Protocol.thy ===== *)
theory Protocol
  imports Node Chain_Boot
begin

text \<open>
  How nodes talk: the answers of a served connection (\<^verbatim>\<open>handle_conn\<close> in \<^verbatim>\<open>lat-p2p/src/lib.rs\<close>), the calls of its clients
  and the synchronisation with a peer. The sockets, the threads and the locks are not modelled: a request
  is one step of the node, what a forwarding thread sends is a list of announcements, and the other end of a
  connection is a function from a request to its answer with a state of its own.
\<close>

section \<open>Answering a request\<close>

definition STATE_CHUNK_BYTES :: nat where "STATE_CHUNK_BYTES = 1024 * 1024"

datatype announce =
    AnnounceBlock id32 u64 bytes
  | AnnounceVote bytes
  | AnnounceCert bytes
  | AnnounceTx bytes

type_synonym state_chunks = "(bytes \<times> bytes) list list"

text \<open>A connection: the node and the chunks captured for this connection.\<close>

type_synonym ('g, 's, 'r) conn = "('g, 's, 'r) node_state \<times> state_chunks option"
type_synonym gossip = "(bytes \<times> announce) list"

fun split_records :: "nat \<Rightarrow> state_chunks \<Rightarrow> (bytes \<times> bytes) list \<Rightarrow> state_chunks" where
  "split_records used cs [] = cs"
| "split_records used cs ((key, value) # records) =
    (let cost = length key + length value;
         full = used + cost > STATE_CHUNK_BYTES \<and> last cs \<noteq> [];
         cs1 = (if full then cs @ [[]] else cs);
         used1 = (if full then 0 else used) + cost
     in split_records used1 (butlast cs1 @ [last cs1 @ [(key, value)]]) records)"

definition to_all :: "bytes list \<Rightarrow> announce \<Rightarrow> gossip" where
  "to_all ps a = map (\<lambda>p. (p, a)) ps"

text \<open>The block first and the vote behind it to each peer, then the certificate to all.\<close>

definition forward_block :: "bytes list \<Rightarrow> id32 \<Rightarrow> u64 \<Rightarrow> bytes \<Rightarrow> (bytes \<times> bytes option) option \<Rightarrow> gossip" where
  "forward_block ps i h data vote =
     concat (map (\<lambda>p. (p, AnnounceBlock i h data) # (case vote of Some (v, _) \<Rightarrow> [(p, AnnounceVote v)] | None \<Rightarrow> [])) ps) @
     (case vote of Some (_, Some cert) \<Rightarrow> to_all ps (AnnounceCert cert) | _ \<Rightarrow> [])"

definition on_new_block ::
  "('g::ab_group_add, 's::comm_ring_1, 'r) host \<Rightarrow> bytes \<Rightarrow> ('g, 's, 'r) node_state \<Rightarrow>
   (fault + msg) \<times> gossip \<times> ('g, 's, 'r) node_state" where
  "on_new_block E data n =
    (let header = map_option (\<lambda>b. (header_id (h_prims E) (blk_header b), bh_height (blk_header b))) (block_decode (h_prims E) data);
         already_known = (case header of Some (i, _) \<Rightarrow> has_block (nd_chain n) i | None \<Rightarrow> False)
     in (case accept_block_bytes E data n of
         (Inl f, n1) \<Rightarrow> (Inl f, [], n1)
       | (Inr ok, n1) \<Rightarrow>
           if ok \<and> \<not> already_known then
             (case cast_vote E n1 of (vote, n2) \<Rightarrow>
               (case header of
                  Some (i, h) \<Rightarrow> (Inr (Ack ok), forward_block (peers n2) i h data vote, n2)
                | None \<Rightarrow> (Inr (Ack ok), [], n2)))
           else (Inr (Ack ok), [], n1)))"

definition on_vote ::
  "('g::ab_group_add, 's, 'r) host \<Rightarrow> bytes \<Rightarrow> ('g, 's, 'r) node_state \<Rightarrow> msg \<times> gossip \<times> ('g, 's, 'r) node_state" where
  "on_vote E data n = (case add_vote E data n of
       ((True, cert), n1) \<Rightarrow> (Ack True, to_all (peers n1) (AnnounceVote data) @
          (case cert of Some c \<Rightarrow> to_all (peers n1) (AnnounceCert c) | None \<Rightarrow> []), n1)
     | ((False, cert), n1) \<Rightarrow> (Ack False, [], n1))"

definition on_cert ::
  "('g::ab_group_add, 's, 'r) host \<Rightarrow> bytes \<Rightarrow> ('g, 's, 'r) node_state \<Rightarrow> msg \<times> gossip \<times> ('g, 's, 'r) node_state" where
  "on_cert E data n = (case accept_cert E data n of (advanced, n1) \<Rightarrow>
     (Ack advanced, if advanced then to_all (peers n1) (AnnounceCert data) else [], n1))"

definition on_handshake :: "u32 \<Rightarrow> id32 \<Rightarrow> bytes \<Rightarrow> ('g, 's, 'r) node_state \<Rightarrow> msg \<times> ('g, 's, 'r) node_state" where
  "on_handshake version genesis a n =
    (let ours = bc_genesis_id (nd_chain n); accepted = (version = PROTOCOL_VERSION \<and> genesis = ours) in
     (HandshakeAck PROTOCOL_VERSION ours accepted, if accepted then snd (add_peer a n) else n))"

definition on_find_common :: "id32 list \<Rightarrow> ('g, 's, 'r) node_state \<Rightarrow> msg" where
  "on_find_common ids n = CommonHeight (foldl max 0 (List.map_filter (active_height_of (nd_chain n)) ids))"

text \<open>\<^verbatim>\<open>NewTx\<close> and \<^verbatim>\<open>SubmitTx\<close> do the same: a transaction that is new to the pool goes on to the peers.\<close>

definition on_tx ::
  "('g::ab_group_add, 's::comm_ring_1, 'r) host \<Rightarrow> bytes \<Rightarrow> ('g, 's, 'r) node_state \<Rightarrow>
   msg \<times> gossip \<times> ('g, 's, 'r) node_state" where
  "on_tx E data n = (case decode (h_prims E) data of
       None \<Rightarrow> (Ack False, [], n)
     | Some tx \<Rightarrow> (case node_submit_tx E tx n of (ok, n1) \<Rightarrow>
           (Ack ok, if ok then to_all (peers n1) (AnnounceTx data) else [], n1)))"

definition on_manifest ::
  "('g, 's, 'r) prims \<Rightarrow> ('g, 's, 'r) conn \<Rightarrow> msg \<times> ('g, 's, 'r) conn" where
  "on_manifest P st = (case st of (n, sync) \<Rightarrow> (case state_sync_payload P (nd_chain n) of
       Some (h, i, records) \<Rightarrow>
         let cs = split_records 0 [[]] records in
         (StateManifest h i (of_nat (length records)) (of_nat (length cs)), n, Some cs)
     | None \<Rightarrow> (StateManifest 0 0 0 0, n, sync)))"

definition on_chunk :: "u32 \<Rightarrow> state_chunks option \<Rightarrow> msg" where
  "on_chunk k sync = StateChunk (case Option.bind sync (\<lambda>cs. vec_get cs (unat k)) of Some c \<Rightarrow> c | None \<Rightarrow> [])"

definition on_ring :: "('g, 's, 'r) prims \<Rightarrow> u32 \<Rightarrow> u32 \<Rightarrow> 'g ledger \<Rightarrow> msg" where
  "on_ring P token limit L =
    (let all = ring_candidates L token; cap = min (min (unat limit) MAX_RING_CANDIDATES) (length all) in
     RingCandidates (if cap = 0 then [] else
       map (\<lambda>i. let (j, ct) = all ! (i * length all div cap) in (j, of_be (ct_to_bytes P ct))) [0..<cap]))"

definition view_lock :: "htlc \<Rightarrow> lock_view" where
  "view_lock h = (htlc_token h, htlc_from h, htlc_to h, htlc_amount h, htlc_hashlock h, htlc_expiry h)"

definition htlcs :: "'g ledger \<Rightarrow> (id32 \<times> htlc) list" where
  "htlcs L = fm_entries (l_htlcs L)"

abbreviation tip_ledger :: "('g, 's, 'r) node_state \<Rightarrow> 'g ledger" where
  "tip_ledger n \<equiv> fst (bc_active_state (nd_chain n))"

text \<open>The reply to a request, the announcements it sets off, and the connection after it; no reply is \<open>None\<close>.\<close>

fun handle_msg ::
  "('g::ab_group_add, 's::comm_ring_1, 'r) host \<Rightarrow> msg \<Rightarrow> ('g, 's, 'r) conn \<Rightarrow>
   (fault + msg option) \<times> gossip \<times> ('g, 's, 'r) conn" where
  "handle_msg E GetTip (n, sync) = (Inr (Some (TipIs (bc_active_height (nd_chain n)))), [], n, sync)"
| "handle_msg E (GetBlock h) (n, sync) = (Inr (Some (BlockIs (block_bytes (nd_chain n) h))), [], n, sync)"
| "handle_msg E (NewBlock data) (n, sync) = (case on_new_block E data n of
     (r, gossip, n1) \<Rightarrow> (map_sum id Some r, gossip, n1, sync))"
| "handle_msg E (FinalityVote data) (n, sync) = (case on_vote E data n of (r, gossip, n1) \<Rightarrow> (Inr (Some r), gossip, n1, sync))"
| "handle_msg E (FinalityCert data) (n, sync) = (case on_cert E data n of (r, gossip, n1) \<Rightarrow> (Inr (Some r), gossip, n1, sync))"
| "handle_msg E GetFinalized (n, sync) = (Inr (Some (FinalizedReply (bc_finalized (nd_chain n)))), [], n, sync)"
| "handle_msg E (GetStake i) (n, sync) = (Inr (Some (StakeReply (staked (tip_ledger n) i) (unbonding (tip_ledger n) i))), [], n, sync)"
| "handle_msg E (Hello a) (n, sync) = (case add_peer a n of (new, n1) \<Rightarrow> (Inr (Some (Ack new)), [], n1, sync))"
| "handle_msg E GetPeers (n, sync) = (Inr (Some (Peers (peers n))), [], n, sync)"
| "handle_msg E (Handshake version genesis a) (n, sync) = (case on_handshake version genesis a n of
     (r, n1) \<Rightarrow> (Inr (Some r), [], n1, sync))"
| "handle_msg E (FindCommon ids) (n, sync) = (Inr (Some (on_find_common ids n)), [], n, sync)"
| "handle_msg E (NewTx data) (n, sync) = (case on_tx E data n of (r, gossip, n1) \<Rightarrow> (Inr (Some r), gossip, n1, sync))"
| "handle_msg E (BlockAnnounce i h) (n, sync) = (Inr (Some (Ack (\<not> has_block (nd_chain n) i))), [], n, sync)"
| "handle_msg E GetStateManifest st = (case on_manifest (h_prims E) st of (r, st1) \<Rightarrow> (Inr (Some r), [], st1))"
| "handle_msg E (GetStateChunk k) (n, sync) = (Inr (Some (on_chunk k sync)), [], n, sync)"
| "handle_msg E (SubmitTx data) (n, sync) = (case on_tx E data n of (r, gossip, n1) \<Rightarrow> (Inr (Some r), gossip, n1, sync))"
| "handle_msg E (GetBalance i token) (n, sync) =
     (Inr (Some (BalanceReply (map_option (ct_to_bytes (h_prims E)) (ledger_balance (tip_ledger n) i token)))), [], n, sync)"
| "handle_msg E (GetNonce i) (n, sync) = (Inr (Some (NonceReply (ledger_nonce (tip_ledger n) i))), [], n, sync)"
| "handle_msg E (GetPublicBalance i token) (n, sync) =
     (Inr (Some (PublicBalanceReply (public_balance (tip_ledger n) i token))), [], n, sync)"
| "handle_msg E (GetPool token) (n, sync) =
     (Inr (Some (PoolReply (map_option (\<lambda>p. (pool_lat p, pool_tok p, pool_lp_supply p)) (get_pool (tip_ledger n) token)))), [], n, sync)"
| "handle_msg E (GetLpShares token i) (n, sync) =
     (Inr (Some (PublicBalanceReply (Some (lp_shares (tip_ledger n) token i)))), [], n, sync)"
| "handle_msg E (GetHtlc i) (n, sync) = (Inr (Some (HtlcReply (map_option view_lock (get_htlc (tip_ledger n) i)))), [], n, sync)"
| "handle_msg E GetHtlcs (n, sync) =
     (Inr (Some (HtlcsReply (map (\<lambda>(i, h). (i, view_lock h)) (htlcs (tip_ledger n))))), [], n, sync)"
| "handle_msg E (GetCurve token) (n, sync) =
     (Inr (Some (CurveReply (map_option (\<lambda>c. (cp_vlat c, cp_vtok c, cp_real_lat c, cp_graduated c)) (get_curve (tip_ledger n) token)))), [], n, sync)"
| "handle_msg E (GetPending i token) (n, sync) =
     (Inr (Some (BalanceReply (map_option (ct_to_bytes (h_prims E)) (ledger_pending (tip_ledger n) i token)))), [], n, sync)"
| "handle_msg E (GetRingCandidates token limit) (n, sync) = (Inr (Some (on_ring (h_prims E) token limit (tip_ledger n))), [], n, sync)"
| "handle_msg E (GetContractStorage i key) (n, sync) =
     (Inr (Some (ContractStorageReply (contract_storage (tip_ledger n) i key))), [], n, sync)"
| "handle_msg E (HasContract i) (n, sync) = (Inr (Some (Ack (has_contract (tip_ledger n) i))), [], n, sync)"
| "handle_msg E _ st = (Inr None, [], st)"

text \<open>
  The loop of a connection over the bytes the peer sends: the replies written, the gossip, the connection at the end,
  and what ended it; a panic ends it too.
\<close>

datatype conn_end = Closed io_error | Died fault

function serve_stream ::
  "('g::ab_group_add, 's::comm_ring_1, 'r) host \<Rightarrow> bytes \<Rightarrow> ('g, 's, 'r) conn \<Rightarrow>
   bytes \<times> gossip \<times> ('g, 's, 'r) conn \<times> conn_end" where
  "serve_stream E s st = (case read_msg s of
       Inl e \<Rightarrow> ([], [], st, Closed e)
     | Inr (m, r) \<Rightarrow> (case handle_msg E m st of
           (Inl f, gossip, st1) \<Rightarrow> ([], gossip, st1, Died f)
         | (Inr reply, gossip, st1) \<Rightarrow> (case serve_stream E r st1 of (out, gossip1, st2, why) \<Rightarrow>
               ((case reply of Some m \<Rightarrow> write_msg m | None \<Rightarrow> []) @ out, gossip @ gossip1, st2, why))))"
  by auto

termination
  by (relation "measure (\<lambda>(E, s, st). length s)") (auto dest: read_msg_shorter)

declare serve_stream.simps [simp del]

end
