(* ===== verification/Sync.thy ===== *)
theory Sync
  imports Protocol
begin

text \<open>
  The client side of \<^verbatim>\<open>lat-p2p/src/lib.rs\<close>: announcements, the calls of wallets and tools, and the synchronisation of a
  node with a peer. A connection that is open is a value \<open>k\<close>; \<open>ask k m\<close> writes \<open>m\<close> on it and gives what is read back, or the error
  of the stream, and the connection after it. The peer behind it may answer anything.
\<close>

type_synonym 'k link = "'k \<Rightarrow> msg \<Rightarrow> (io_error + msg) \<times> 'k"

definition expected :: "string \<Rightarrow> io_error" where
  "expected what = InvalidData (''expected '' @ what)"

section \<open>Announcements\<close>

definition ack_of :: "(io_error + msg) \<times> 'k \<Rightarrow> (io_error + bool) \<times> 'k" where
  "ack_of r = (case r of (Inr (Ack ok), k) \<Rightarrow> (Inr ok, k) | (Inr _, k) \<Rightarrow> (Inl (expected ''ack''), k) | (Inl e, k) \<Rightarrow> (Inl e, k))"

definition announce_block :: "'k link \<Rightarrow> 'k \<Rightarrow> bytes \<Rightarrow> (io_error + bool) \<times> 'k" where
  "announce_block ask k data = ack_of (ask k (NewBlock data))"

definition announce_vote :: "'k link \<Rightarrow> 'k \<Rightarrow> bytes \<Rightarrow> (io_error + bool) \<times> 'k" where
  "announce_vote ask k data = ack_of (ask k (FinalityVote data))"

definition announce_tx :: "'k link \<Rightarrow> 'k \<Rightarrow> bytes \<Rightarrow> (io_error + bool) \<times> 'k" where
  "announce_tx ask k data = ack_of (ask k (NewTx data))"

definition announce_cert :: "'k link \<Rightarrow> 'k \<Rightarrow> bytes \<Rightarrow> (io_error + bool) \<times> 'k" where
  "announce_cert ask k data = ack_of (ask k (FinalityCert data))"

definition announce_block_compact :: "'k link \<Rightarrow> 'k \<Rightarrow> id32 \<Rightarrow> u64 \<Rightarrow> bytes \<Rightarrow> (io_error + bool) \<times> 'k" where
  "announce_block_compact ask k i height data = (case ack_of (ask k (BlockAnnounce i height)) of
       (Inl e, k1) \<Rightarrow> (Inl e, k1)
     | (Inr wants, k1) \<Rightarrow> if \<not> wants then (Inr True, k1) else announce_block ask k1 data)"

section \<open>Calls\<close>

definition rpc :: "'k link \<Rightarrow> 'k \<Rightarrow> msg \<Rightarrow> io_error + msg" where
  "rpc ask k req = fst (ask k req)"

definition handshake :: "'k link \<Rightarrow> 'k \<Rightarrow> id32 \<Rightarrow> bytes \<Rightarrow> io_error + bool" where
  "handshake ask k my_genesis my_addr = (case rpc ask k (Handshake PROTOCOL_VERSION my_genesis my_addr) of
       Inl e \<Rightarrow> Inl e
     | Inr (HandshakeAck version genesis accepted) \<Rightarrow> Inr (accepted \<and> version = PROTOCOL_VERSION \<and> genesis = my_genesis)
     | Inr _ \<Rightarrow> Inl (expected ''handshake ack''))"

definition get_height :: "'k link \<Rightarrow> 'k \<Rightarrow> io_error + u64" where
  "get_height ask k = (case rpc ask k GetTip of Inl e \<Rightarrow> Inl e | Inr (TipIs h) \<Rightarrow> Inr h | Inr _ \<Rightarrow> Inl (expected ''tip''))"

definition get_block :: "'k link \<Rightarrow> 'k \<Rightarrow> u64 \<Rightarrow> io_error + bytes option" where
  "get_block ask k height = (case rpc ask k (GetBlock height) of
     Inl e \<Rightarrow> Inl e | Inr (BlockIs b) \<Rightarrow> Inr b | Inr _ \<Rightarrow> Inl (expected ''block''))"

definition submit_tx :: "'k link \<Rightarrow> 'k \<Rightarrow> bytes \<Rightarrow> io_error + bool" where
  "submit_tx ask k data = (case rpc ask k (SubmitTx data) of
     Inl e \<Rightarrow> Inl e | Inr (Ack ok) \<Rightarrow> Inr ok | Inr _ \<Rightarrow> Inl (expected ''ack''))"

text \<open>Only 64 bytes are a ciphertext.\<close>

definition only64 :: "bytes option \<Rightarrow> arr64 option" where
  "only64 b = (case b of Some x \<Rightarrow> if length x = 64 then Some (of_be x) else None | None \<Rightarrow> None)"

definition get_balance :: "'k link \<Rightarrow> 'k \<Rightarrow> id32 \<Rightarrow> u32 \<Rightarrow> io_error + arr64 option" where
  "get_balance ask k i token = (case rpc ask k (GetBalance i token) of
     Inl e \<Rightarrow> Inl e | Inr (BalanceReply b) \<Rightarrow> Inr (only64 b) | Inr _ \<Rightarrow> Inl (expected ''balance''))"

definition get_pending :: "'k link \<Rightarrow> 'k \<Rightarrow> id32 \<Rightarrow> u32 \<Rightarrow> io_error + arr64 option" where
  "get_pending ask k i token = (case rpc ask k (GetPending i token) of
     Inl e \<Rightarrow> Inl e | Inr (BalanceReply b) \<Rightarrow> Inr (only64 b) | Inr _ \<Rightarrow> Inl (expected ''balance''))"

definition get_nonce :: "'k link \<Rightarrow> 'k \<Rightarrow> id32 \<Rightarrow> io_error + u64 option" where
  "get_nonce ask k i = (case rpc ask k (GetNonce i) of
     Inl e \<Rightarrow> Inl e | Inr (NonceReply x) \<Rightarrow> Inr x | Inr _ \<Rightarrow> Inl (expected ''nonce''))"

definition get_public_balance :: "'k link \<Rightarrow> 'k \<Rightarrow> id32 \<Rightarrow> u32 \<Rightarrow> io_error + u64 option" where
  "get_public_balance ask k i token = (case rpc ask k (GetPublicBalance i token) of
     Inl e \<Rightarrow> Inl e | Inr (PublicBalanceReply x) \<Rightarrow> Inr x | Inr _ \<Rightarrow> Inl (expected ''public balance''))"

definition hello :: "'k link \<Rightarrow> 'k \<Rightarrow> bytes \<Rightarrow> io_error + bool" where
  "hello ask k my_addr = (case rpc ask k (Hello my_addr) of
     Inl e \<Rightarrow> Inl e | Inr (Ack ok) \<Rightarrow> Inr ok | Inr _ \<Rightarrow> Inl (expected ''ack''))"

definition get_peers :: "'k link \<Rightarrow> 'k \<Rightarrow> io_error + bytes list" where
  "get_peers ask k = (case rpc ask k GetPeers of Inl e \<Rightarrow> Inl e | Inr (Peers ps) \<Rightarrow> Inr ps | Inr _ \<Rightarrow> Inl (expected ''peers''))"

definition get_ring_candidates :: "'k link \<Rightarrow> 'k \<Rightarrow> u32 \<Rightarrow> u32 \<Rightarrow> io_error + (id32 \<times> arr64) list" where
  "get_ring_candidates ask k token limit = (case rpc ask k (GetRingCandidates token limit) of
     Inl e \<Rightarrow> Inl e | Inr (RingCandidates ms) \<Rightarrow> Inr ms | Inr _ \<Rightarrow> Inl (expected ''ring candidates''))"

definition get_contract_storage :: "'k link \<Rightarrow> 'k \<Rightarrow> id32 \<Rightarrow> u64 \<Rightarrow> io_error + u64" where
  "get_contract_storage ask k i key = (case rpc ask k (GetContractStorage i key) of
     Inl e \<Rightarrow> Inl e | Inr (ContractStorageReply v) \<Rightarrow> Inr v | Inr _ \<Rightarrow> Inl (expected ''contract storage''))"

definition rpc_has_contract :: "'k link \<Rightarrow> 'k \<Rightarrow> id32 \<Rightarrow> io_error + bool" where
  "rpc_has_contract ask k i = (case rpc ask k (HasContract i) of
     Inl e \<Rightarrow> Inl e | Inr (Ack ok) \<Rightarrow> Inr ok | Inr _ \<Rightarrow> Inl (expected ''ack''))"

definition rpc_pool :: "'k link \<Rightarrow> 'k \<Rightarrow> u32 \<Rightarrow> io_error + (u64 \<times> u64 \<times> u64) option" where
  "rpc_pool ask k token = (case rpc ask k (GetPool token) of
     Inl e \<Rightarrow> Inl e | Inr (PoolReply p) \<Rightarrow> Inr p | Inr _ \<Rightarrow> Inl (expected ''pool''))"

definition get_lp_shares :: "'k link \<Rightarrow> 'k \<Rightarrow> u32 \<Rightarrow> id32 \<Rightarrow> io_error + u64" where
  "get_lp_shares ask k token i = (case rpc ask k (GetLpShares token i) of
     Inl e \<Rightarrow> Inl e | Inr (PublicBalanceReply x) \<Rightarrow> Inr (case x of Some v \<Rightarrow> v | None \<Rightarrow> 0)
   | Inr _ \<Rightarrow> Inl (expected ''lp shares''))"

definition rpc_curve :: "'k link \<Rightarrow> 'k \<Rightarrow> u32 \<Rightarrow> io_error + (u64 \<times> u64 \<times> u64 \<times> bool) option" where
  "rpc_curve ask k token = (case rpc ask k (GetCurve token) of
     Inl e \<Rightarrow> Inl e | Inr (CurveReply c) \<Rightarrow> Inr c | Inr _ \<Rightarrow> Inl (expected ''curve''))"

definition rpc_htlc_at :: "'k link \<Rightarrow> 'k \<Rightarrow> id32 \<Rightarrow> io_error + lock_view option" where
  "rpc_htlc_at ask k i = (case rpc ask k (GetHtlc i) of
     Inl e \<Rightarrow> Inl e | Inr (HtlcReply h) \<Rightarrow> Inr h | Inr _ \<Rightarrow> Inl (expected ''htlc''))"

definition rpc_htlcs :: "'k link \<Rightarrow> 'k \<Rightarrow> io_error + (id32 \<times> lock_view) list" where
  "rpc_htlcs ask k = (case rpc ask k GetHtlcs of Inl e \<Rightarrow> Inl e | Inr (HtlcsReply ls) \<Rightarrow> Inr ls | Inr _ \<Rightarrow> Inl (expected ''htlcs''))"

definition get_stake :: "'k link \<Rightarrow> 'k \<Rightarrow> id32 \<Rightarrow> io_error + u64 \<times> (u64 \<times> u64) list" where
  "get_stake ask k i = (case rpc ask k (GetStake i) of
     Inl e \<Rightarrow> Inl e | Inr (StakeReply bonded entries) \<Rightarrow> Inr (bonded, entries) | Inr _ \<Rightarrow> Inl (expected ''stake reply''))"

definition get_finalized :: "'k link \<Rightarrow> 'k \<Rightarrow> io_error + (u64 \<times> id32) option" where
  "get_finalized ask k = (case rpc ask k GetFinalized of
     Inl e \<Rightarrow> Inl e | Inr (FinalizedReply f) \<Rightarrow> Inr f | Inr _ \<Rightarrow> Inl (expected ''finalized reply''))"

section \<open>Synchronisation\<close>

text \<open>What a synchronisation ends with instead of a result.\<close>

datatype sync_error = Io io_error | Fault fault

text \<open>
  \<^verbatim>\<open>while chain.height() < peer_height\<close>: a peer decides whether this ends, so a run that does not end is \<open>None\<close>.
\<close>

partial_function (option) sync_loop ::
  "('g::ab_group_add, 's::comm_ring_1, 'r) host \<Rightarrow> 'k link \<Rightarrow> u64 \<Rightarrow> 'k \<Rightarrow> 'g blockchain \<Rightarrow> nat \<Rightarrow>
   ((sync_error + nat) \<times> 'g blockchain) option" where
  "sync_loop E ask peer_height k c adopted =
    (if bc_active_height c < peer_height then
       (case ask k (GetBlock (bc_active_height c + 1)) of
          (Inl e, k1) \<Rightarrow> Some (Inl (Io e), c)
        | (Inr m, k1) \<Rightarrow> (case m of
              BlockIs (Some data) \<Rightarrow> (case block_decode (h_prims E) data of
                  None \<Rightarrow> Some (Inl (Io (InvalidData ''undecodable block'')), c)
                | Some b \<Rightarrow> (case apply_block E b c of
                      (None, c1) \<Rightarrow> sync_loop E ask peer_height k1 c1 (adopted + 1)
                    | (Some (Reject e), c1) \<Rightarrow> Some (Inl (Io (InvalidData ''invalid block'')), c1)
                    | (Some f, c1) \<Rightarrow> Some (Inl (Fault f), c1)))
            | BlockIs None \<Rightarrow> Some (Inr adopted, c)
            | _ \<Rightarrow> Some (Inl (Io (expected ''block'')), c)))
     else Some (Inr adopted, c))"

definition sync_from_peer ::
  "('g::ab_group_add, 's::comm_ring_1, 'r) host \<Rightarrow> 'k link \<Rightarrow> 'k \<Rightarrow> 'g blockchain \<Rightarrow>
   ((sync_error + nat) \<times> 'g blockchain) option" where
  "sync_from_peer E ask k c = (case ask k GetTip of
       (Inl e, k1) \<Rightarrow> Some (Inl (Io e), c)
     | (Inr (TipIs h), k1) \<Rightarrow> sync_loop E ask h k1 c 0
     | (Inr _, k1) \<Rightarrow> Some (Inl (Io (expected ''tip'')), c))"

text \<open>\<^verbatim>\<open>for h in common + 1..=peer_height\<close>, with the number of heights that are left.\<close>

fun pull_blocks ::
  "('g::ab_group_add, 's::comm_ring_1, 'r) host \<Rightarrow> 'k link \<Rightarrow> nat \<Rightarrow> u64 \<Rightarrow> 'k \<Rightarrow> nat \<Rightarrow> ('g, 's, 'r) node_state \<Rightarrow>
   (sync_error + nat) \<times> ('g, 's, 'r) node_state" where
  "pull_blocks E ask 0 h k adopted n = (Inr adopted, n)"
| "pull_blocks E ask (Suc left) h k adopted n = (case ask k (GetBlock h) of
       (Inl e, k1) \<Rightarrow> (Inl (Io e), n)
     | (Inr m, k1) \<Rightarrow> (case m of
           BlockIs (Some data) \<Rightarrow>
             let already_known = (case block_decode (h_prims E) data of
                   Some b \<Rightarrow> has_block (nd_chain n) (header_id (h_prims E) (blk_header b)) | None \<Rightarrow> False)
             in (case accept_block_bytes E data n of
                 (Inl f, n1) \<Rightarrow> (Inl (Fault f), n1)
               | (Inr False, n1) \<Rightarrow> (Inr adopted, n1)
               | (Inr True, n1) \<Rightarrow> pull_blocks E ask left (h + 1) k1 (if already_known then adopted else adopted + 1) n1)
         | BlockIs None \<Rightarrow> (Inr adopted, n)
         | _ \<Rightarrow> (Inl (Io (expected ''block'')), n)))"

definition sync_shared ::
  "('g::ab_group_add, 's::comm_ring_1, 'r) host \<Rightarrow> 'k link \<Rightarrow> 'k \<Rightarrow> ('g, 's, 'r) node_state \<Rightarrow>
   (sync_error + nat) \<times> ('g, 's, 'r) node_state" where
  "sync_shared E ask k n = (case ask k GetTip of
       (Inl e, k1) \<Rightarrow> (Inl (Io e), n)
     | (Inr (TipIs peer_height), k1) \<Rightarrow> (case locator (nd_chain n) of
           None \<Rightarrow> (Inl (Fault Diverge), n)
         | Some ids \<Rightarrow> (case ask k1 (FindCommon ids) of
               (Inl e, k2) \<Rightarrow> (Inl (Io e), n)
             | (Inr (CommonHeight common), k2) \<Rightarrow>
                 pull_blocks E ask (Suc (unat peer_height) - unat (common + 1)) (common + 1) k2 0 n
             | (Inr _, k2) \<Rightarrow> (Inl (Io (expected ''common height'')), n)))
     | (Inr _, k1) \<Rightarrow> (Inl (Io (expected ''tip'')), n))"

text \<open>The two download loops of the fast sync; \<open>Inr None\<close> is \<^verbatim>\<open>Ok(false)\<close>.\<close>

fun pull_chunks :: "'k link \<Rightarrow> nat \<Rightarrow> u32 \<Rightarrow> 'k \<Rightarrow> (bytes \<times> bytes) list \<Rightarrow> (io_error + (bytes \<times> bytes) list option) \<times> 'k" where
  "pull_chunks ask 0 i k records = (Inr (Some records), k)"
| "pull_chunks ask (Suc left) i k records = (case ask k (GetStateChunk i) of
       (Inl e, k1) \<Rightarrow> (Inl e, k1)
     | (Inr (StateChunk part), k1) \<Rightarrow> if part \<noteq> [] then pull_chunks ask left (i + 1) k1 (records @ part) else (Inr None, k1)
     | (Inr _, k1) \<Rightarrow> (Inl (expected ''state chunk''), k1))"

fun pull_chain :: "'k link \<Rightarrow> nat \<Rightarrow> u64 \<Rightarrow> 'k \<Rightarrow> bytes list \<Rightarrow> (io_error + bytes list option) \<times> 'k" where
  "pull_chain ask 0 h k blocks = (Inr (Some blocks), k)"
| "pull_chain ask (Suc left) h k blocks = (case ask k (GetBlock h) of
       (Inl e, k1) \<Rightarrow> (Inl e, k1)
     | (Inr m, k1) \<Rightarrow> (case m of
           BlockIs (Some b) \<Rightarrow> pull_chain ask left (h + 1) k1 (blocks @ [b])
         | BlockIs None \<Rightarrow> (Inr None, k1)
         | _ \<Rightarrow> (Inl (expected ''block''), k1)))"

text \<open>\<^verbatim>\<open>Vec::with_capacity(n)\<close> of byte vectors (24 bytes each) panics above \<open>isize::MAX\<close> bytes.\<close>

definition capacity_overflows :: "u64 \<Rightarrow> bool" where
  "capacity_overflows h \<longleftrightarrow> 24 * unat h > 2 ^ 63 - 1"

definition fast_sync_shared ::
  "('g::ab_group_add, 's::comm_ring_1, 'r) host \<Rightarrow> 'k link \<Rightarrow> 'k \<Rightarrow> ('g, 's, 'r) node_state \<Rightarrow>
   (sync_error + bool) \<times> ('g, 's, 'r) node_state" where
  "fast_sync_shared E ask k n =
    (if bc_active_height (nd_chain n) \<noteq> 0 then (Inr False, n)
     else (case ask k GetStateManifest of
       (Inl e, k1) \<Rightarrow> (Inl (Io e), n)
     | (Inr (StateManifest anchor_height anchor_id _ chunk_count), k1) \<Rightarrow>
         if chunk_count = 0 then (Inr False, n)
         else (case pull_chunks ask (unat chunk_count) 0 k1 [] of
             (Inl e, k2) \<Rightarrow> (Inl (Io e), n)
           | (Inr None, k2) \<Rightarrow> (Inr False, n)
           | (Inr (Some records), k2) \<Rightarrow> (case ask k2 GetTip of
                 (Inl e, k3) \<Rightarrow> (Inl (Io e), n)
               | (Inr (TipIs peer_height), k3) \<Rightarrow>
                   if peer_height < anchor_height then (Inr False, n)
                   else if capacity_overflows peer_height then (Inl (Fault Crash), n)
                   else (case pull_chain ask (unat peer_height) 1 k3 [] of
                       (Inl e, k4) \<Rightarrow> (Inl (Io e), n)
                     | (Inr None, k4) \<Rightarrow> (Inr False, n)
                     | (Inr (Some blocks), k4) \<Rightarrow>
                         (case fast_sync_adopt E blocks anchor_height anchor_id records (nd_chain n) of
                            (Inl f, c) \<Rightarrow> (Inl (Fault f), n\<lparr>nd_chain := c\<rparr>)
                          | (Inr ok, c) \<Rightarrow> (Inr ok, n\<lparr>nd_chain := c\<rparr>)))
               | (Inr _, k3) \<Rightarrow> (Inl (Io (expected ''tip'')), n)))
     | (Inr _, k1) \<Rightarrow> (Inl (Io (expected ''state manifest'')), n)))"

end
