(* ===== verification/Protocol_Facts.thy ===== *)
theory Protocol_Facts
  imports Protocol
begin

text \<open>
  What holds of a node whatever it is sent: the invariant of its parts, the end of every gossip, and the transfer
  of its state in chunks.
\<close>

section \<open>The invariant of a node\<close>

definition votes_ok :: "('g::ab_group_add, 's, 'r) host \<Rightarrow> ('g, 's, 'r) node_state \<Rightarrow> bool" where
  "votes_ok E n \<longleftrightarrow> (\<forall>h i b. fmlookup (nd_votes n) (h, i) = Some b \<longrightarrow> \<not> watermark_above (nd_chain n) h \<and>
     (\<forall>v sg. fmlookup b v = Some sg \<longrightarrow>
        vote_verify (h_prims E) \<lparr>vo_block_id = i, vo_height = h, vo_validator = v, vo_sig = sg\<rparr>))"

definition pool_ok :: "('g, 's, 'r) prims \<Rightarrow> ('g, 's, 'r) mempool \<Rightarrow> bool" where
  "pool_ok P mp \<longleftrightarrow> mp_inv P mp \<and> list_all (tx_fits P) (mp_txs mp)"

definition node_ok :: "('g::ab_group_add, 's::comm_ring_1, 'r) host \<Rightarrow> ('g, 's, 'r) node_state \<Rightarrow> bool" where
  "node_ok E n \<longleftrightarrow> chain_run E (nd_chain n) \<and> pool_ok (h_prims E) (nd_mempool n) \<and> peers_ok n \<and> votes_ok E n"

lemma peers_ok_more [simp]:
  "peers_ok (n\<lparr>nd_chain := c\<rparr>) = peers_ok n" "peers_ok (n\<lparr>nd_mempool := mp\<rparr>) = peers_ok n" "peers_ok (n\<lparr>nd_votes := vs\<rparr>) = peers_ok n"
  by (simp_all add: peers_ok_def peers_def)

lemma peers_more [simp]:
  "peers (n\<lparr>nd_chain := c\<rparr>) = peers n" "peers (n\<lparr>nd_mempool := mp\<rparr>) = peers n" "peers (n\<lparr>nd_votes := vs\<rparr>) = peers n"
  by (simp_all add: peers_def)

text \<open>The three ways of \<open>add_vote\<close>.\<close>

definition with_vote :: "vote \<Rightarrow> ('g, 's, 'r) node_state \<Rightarrow> ('g, 's, 'r) node_state" where
  "with_vote v n = n\<lparr>nd_votes := fmupd (vo_height v, vo_block_id v)
     (fmupd (vo_validator v) (vo_sig v) (bucket_at n (vo_height v) (vo_block_id v))) (nd_votes n)\<rparr>"

lemma add_vote_cases:
  obtains (refused) "add_vote E d n = ((False, None), n)"
  | (pooled) v where "vote_decode d = Some v" and "\<not> watermark_above (nd_chain n) (vo_height v)"
      and "vote_verify (h_prims E) v" and "add_vote E d n = ((True, None), with_vote v n)"
  | (certified) v cert c where "vote_decode d = Some v" and "\<not> watermark_above (nd_chain n) (vo_height v)"
      and "vote_verify (h_prims E) v" and "ce_height cert = vo_height v" and "try_finalize E cert (nd_chain n) = (True, c)"
      and "add_vote E d n = ((True, Some (cert_encode cert)),
        (with_vote v n)\<lparr>nd_chain := c, nd_votes := drop_final_votes (vo_height v) (nd_votes (with_vote v n))\<rparr>)"
proof (cases "vote_decode d")
  case None
  then show thesis using refused by (simp add: add_vote_def)
next
  case (Some v)
  let ?b = "fmupd (vo_validator v) (vo_sig v) (bucket_at n (vo_height v) (vo_block_id v))"
  let ?cert = "\<lparr>ce_block_id = vo_block_id v, ce_height = vo_height v, ce_votes = fm_entries ?b\<rparr>"
  obtain r c where f: "try_finalize E ?cert (nd_chain n) = (r, c)" by (cases "try_finalize E ?cert (nd_chain n)")
  have same: "c = nd_chain n" if "\<not> r" using f that by (auto elim: try_finalize_cases)
  have n1: "n\<lparr>nd_votes := fmupd (vo_height v, vo_block_id v) ?b (nd_votes n)\<rparr> = with_vote v n"
    by (simp add: with_vote_def)
  show thesis
  proof (cases "add_vote E d n = ((False, None), n)")
    case False
    then have g: "\<not> watermark_above (nd_chain n) (vo_height v)" "vote_verify (h_prims E) v"
      by (auto simp: add_vote_def Some watermark_above_def split: option.splits if_splits)
    have "add_vote E d n = ((True, None), with_vote v n) \<or>
        r \<and> add_vote E d n = ((True, Some (cert_encode ?cert)),
          (with_vote v n)\<lparr>nd_chain := c, nd_votes := drop_final_votes (vo_height v) (nd_votes (with_vote v n))\<rparr>)"
      using False f same
      by (cases r) (auto simp: add_vote_def Some Let_def bucket_at_def with_vote_def split: option.splits if_splits)
    then show thesis using pooled [OF Some g] certified [OF Some g, of ?cert c] f by auto
  qed (rule refused)
qed

lemma votes_ok_with:
  assumes "votes_ok E n" and "\<not> watermark_above (nd_chain n) (vo_height v)" and "vote_verify (h_prims E) v"
  shows "votes_ok E (with_vote v n)"
proof -
  have "vote_verify (h_prims E)
      \<lparr>vo_block_id = vo_block_id v, vo_height = vo_height v, vo_validator = vo_validator v, vo_sig = vo_sig v\<rparr>"
    using assms(3) by (cases v) simp
  with assms show ?thesis by (auto simp: votes_ok_def with_vote_def bucket_at_def split: option.splits if_splits)
qed

lemma votes_ok_final:
  assumes "votes_ok E n" and "bc_finalized c = Some (fh, i)"
  shows "votes_ok E (n\<lparr>nd_chain := c, nd_votes := drop_final_votes fh (nd_votes n)\<rparr>)"
  using assms by (auto simp: votes_ok_def drop_final_votes_def watermark_above_def)

lemma try_finalize_True:
  assumes "try_finalize E cert c = (True, c')"
  shows "bc_finalized c' = Some (ce_height cert, ce_block_id cert)" and "chain_step E c c'"
  using assms step_finalize [OF assms] by (auto elim: try_finalize_cases)

lemma add_vote_kept:
  assumes "node_ok E n" and "add_vote E d n = (r, n')"
  shows "node_ok E n' \<and> (chain_step E)\<^sup>*\<^sup>* (nd_chain n) (nd_chain n') \<and> peers n' = peers n \<and> bc_tree (nd_chain n') = bc_tree (nd_chain n)"
proof (cases rule: add_vote_cases [of E d n])
  case refused
  then show ?thesis using assms by simp
next
  case (pooled v)
  then have "votes_ok E (with_vote v n)" using votes_ok_with assms(1) by (auto simp: node_ok_def)
  then show ?thesis using pooled(4) assms by (simp add: node_ok_def) (simp add: with_vote_def)
next
  case (certified v cert c)
  note f = try_finalize_True [OF certified(5)]
  have tree: "bc_tree c = bc_tree (nd_chain n)" using certified(5) by (auto elim: try_finalize_cases)
  have w: "nd_chain (with_vote v n) = nd_chain n" "nd_mempool (with_vote v n) = nd_mempool n" "peers_ok (with_vote v n) = peers_ok n"
      "peers (with_vote v n) = peers n"
    by (simp_all add: with_vote_def)
  have "votes_ok E (with_vote v n)" using votes_ok_with [OF _ certified(2,3)] assms(1) by (simp add: node_ok_def)
  from votes_ok_final [OF this f(1)] certified(4)
  have "votes_ok E ((with_vote v n)\<lparr>nd_chain := c, nd_votes := drop_final_votes (vo_height v) (nd_votes (with_vote v n))\<rparr>)" by simp
  then show ?thesis using certified(6) assms w tree f(2) chain_run_step [OF _ f(2)] by (auto simp: node_ok_def)
qed

lemma accept_cert_kept:
  assumes "node_ok E n" and "accept_cert E d n = (r, n')"
  shows "node_ok E n' \<and> (chain_step E)\<^sup>*\<^sup>* (nd_chain n) (nd_chain n') \<and> peers n' = peers n"
proof (cases "cert_decode d")
  case (Some cert)
  obtain ok c where f: "try_finalize E cert (nd_chain n) = (ok, c)" by (cases "try_finalize E cert (nd_chain n)")
  show ?thesis
  proof (cases ok)
    case True
    then have "try_finalize E cert (nd_chain n) = (True, c)" using f by simp
    note t = try_finalize_True [OF this]
    show ?thesis using assms f True Some votes_ok_final [of E n, OF _ t(1)] chain_run_step [OF _ t(2)] t(2)
      by (auto simp: accept_cert_def node_ok_def)
  next
    case False
    then have "c = nd_chain n" using f by (auto elim: try_finalize_cases)
    then show ?thesis using assms f False Some by (auto simp: accept_cert_def)
  qed
qed (use assms in \<open>simp add: accept_cert_def\<close>)

lemma cast_vote_kept:
  assumes "node_ok E n" and "cast_vote E n = (r, n')"
  shows "node_ok E n' \<and> (chain_step E)\<^sup>*\<^sup>* (nd_chain n) (nd_chain n') \<and> peers n' = peers n \<and> bc_tree (nd_chain n') = bc_tree (nd_chain n)"
  using assms add_vote_kept [OF assms(1)]
  by (auto simp: cast_vote_def Let_def split: option.splits prod.splits)

lemma pool_ok_sub:
  assumes "pool_ok P mp" and "mp_inv P mp'" and "set (mp_txs mp') \<subseteq> set (mp_txs mp)"
  shows "pool_ok P mp'"
  using assms by (auto simp: pool_ok_def list_all_iff)

lemma pool_ok_filters:
  assumes "pool_ok P mp"
  shows "pool_ok P (remove_included P txs mp)" and "pool_ok P (prune_expired h mp)" and "pool_ok P (snd (mp_drain k mp))"
proof -
  have inv: "mp_inv P mp" using assms by (simp add: pool_ok_def)
  note kept = mempool_invariant [OF inv]
  show "pool_ok P (remove_included P txs mp)" by (rule pool_ok_sub [OF assms]) (use kept in blast, simp add: remove_included_def Let_def)
  show "pool_ok P (prune_expired h mp)" by (rule pool_ok_sub [OF assms]) (use kept in blast, auto simp: prune_expired_def)
  show "pool_ok P (snd (mp_drain k mp))"
    by (rule pool_ok_sub [OF assms]) (use kept in blast, auto simp: mp_drain_def Let_def)
qed

lemma swap_remove_set: "i < length xs \<Longrightarrow> set (swap_remove i xs) \<subseteq> set xs"
  using mset_swap_remove [of i xs] by (metis set_mset_add_mset_insert set_mset_mset subset_insertI)

lemma replace_spend_set: "replace_spend P tx txs = Some txs1 \<Longrightarrow> set txs1 \<subseteq> set txs"
  by (auto simp: replace_spend_def split: option.splits if_splits dest: position_Some swap_remove_set)

lemma make_room_set: "make_room tx txs = Some txs1 \<Longrightarrow> set txs1 \<subseteq> set txs"
  by (auto simp: make_room_def cheapest_def Let_def split: option.splits if_splits list.splits dest!: position_Some swap_remove_set)

lemma pool_ok_add:
  assumes "pool_ok P mp" and "tx_fits P tx"
  shows "pool_ok P (snd (mp_add P tx mp))"
proof -
  have "set (mp_txs (snd (mp_add P tx mp))) \<subseteq> insert tx (set (mp_txs mp))"
    by (auto simp: mp_add_def Let_def split: option.splits dest!: replace_spend_set make_room_set)
  then show ?thesis using assms mp_inv_add [of P mp tx] by (auto simp: pool_ok_def list_all_iff)
qed

lemma submit_kept:
  assumes "node_ok E n" and "tx_fits (h_prims E) tx" and "node_submit_tx E tx n = (r, n')"
  shows "node_ok E n' \<and> nd_chain n' = nd_chain n \<and> peers n' = peers n"
  using assms pool_ok_add [OF _ assms(2), of "nd_mempool n"]
  by (auto simp: node_submit_tx_def node_ok_def votes_ok_def split: sum.splits prod.splits)

text \<open>One block: the chain makes a step, and the finalized block stays.\<close>

lemma apply_block_kept:
  assumes "chain_run E c" and "small c" and "block_wf (h_prims E) b" and "apply_block E b c = (r, c')" and "r \<noteq> Some Crash"
  shows "chain_step E c c'" and "chain_run E c'" and "bc_finalized c' = bc_finalized c" and "\<nexists>f. r = Some f \<and> (\<nexists>e. f = Reject e)"
proof -
  show s: "chain_step E c c'" by (rule step_block [OF assms(2-5)])
  show "chain_run E c'" by (rule chain_run_step [OF assms(1) s])
  note sp = apply_block_spine [OF chain_run_spine [OF assms(1)] assms(2,4)]
  show "bc_finalized c' = bc_finalized c" by (rule sp(3))
  show "\<nexists>f. r = Some f \<and> (\<nexists>e. f = Reject e)" using sp(2) assms(5) by (metis fault.exhaust)
qed

lemma votes_ok_chain: "votes_ok E n \<Longrightarrow> bc_finalized c = bc_finalized (nd_chain n) \<Longrightarrow> votes_ok E (n\<lparr>nd_chain := c\<rparr>)"
  by (simp add: votes_ok_def watermark_above_def)

lemma accept_block_kept:
  assumes "encoding_laws (h_prims E)" and "node_ok E n" and "small (nd_chain n)"
    and "accept_block_bytes E d n = (r, n')" and "r \<noteq> Inl Crash"
  shows "node_ok E n'" and "(chain_step E)\<^sup>*\<^sup>* (nd_chain n) (nd_chain n')" and "peers n' = peers n" and "\<exists>ok. r = Inr ok"
proof -
  have "node_ok E n' \<and> (chain_step E)\<^sup>*\<^sup>* (nd_chain n) (nd_chain n') \<and> peers n' = peers n \<and> (\<exists>ok. r = Inr ok)"
  proof (cases "block_decode (h_prims E) d")
    case (Some b)
    then have wf: "block_wf (h_prims E) b" using block_codec [OF assms(1)] by simp
    obtain f c where a: "apply_block E b (nd_chain n) = (f, c)" by (cases "apply_block E b (nd_chain n)")
    have "f \<noteq> Some Crash" using assms(4,5) a Some by (auto simp: accept_block_bytes_def or_else_def)
    note k = apply_block_kept [OF _ assms(3) wf a this]
    have run: "chain_run E (nd_chain n)" and p: "pool_ok (h_prims E) (nd_mempool n)" and v: "votes_ok E n"
      using assms(2) by (simp_all add: node_ok_def)
    have vc: "votes_ok E (n\<lparr>nd_chain := c\<rparr>)" by (rule votes_ok_chain [OF v k(3) [OF run]])
    then have "votes_ok E (n\<lparr>nd_chain := c, nd_mempool := mp\<rparr>)" for mp by (simp add: votes_ok_def)
    moreover note vc
    moreover have "pool_ok (h_prims E) (prune_expired h (remove_included (h_prims E) txs (nd_mempool n)))" for h txs
      by (intro pool_ok_filters p)
    ultimately show ?thesis
      using assms(2,4) a Some k [OF run] by (auto simp: accept_block_bytes_def or_else_def node_ok_def split: option.splits)
  qed (use assms in \<open>auto simp: accept_block_bytes_def\<close>)
  then show "node_ok E n'" and "(chain_step E)\<^sup>*\<^sup>* (nd_chain n) (nd_chain n')" and "peers n' = peers n" and "\<exists>ok. r = Inr ok" by auto
qed

lemma decode_tx_fits: "encoding_laws P \<Longrightarrow> decode P d = Some tx \<Longrightarrow> length d < 2 ^ 32 \<Longrightarrow> tx_fits P tx"
  using decode_encode_all [of P d tx] by (auto simp: tx_fits_def)

text \<open>What a handler may do: keep the invariant, let the chain make steps, tell only peers, and answer.\<close>

definition steps_well ::
  "('g::ab_group_add, 's::comm_ring_1, 'r) host \<Rightarrow> ('g, 's, 'r) node_state \<Rightarrow> gossip \<Rightarrow> ('g, 's, 'r) node_state \<Rightarrow> bool" where
  "steps_well E n gossip n' \<longleftrightarrow> node_ok E n' \<and> (chain_step E)\<^sup>*\<^sup>* (nd_chain n) (nd_chain n') \<and> fst ` set gossip \<subseteq> set (peers n')"

lemma steps_well_same: "node_ok E n \<Longrightarrow> steps_well E n [] n"
  by (simp add: steps_well_def)

lemma to_all_mem [dest]: "(p, a) \<in> set (to_all ps b) \<Longrightarrow> p \<in> set ps"
  by (auto simp: to_all_def)

lemma forward_block_mem [dest]: "(p, a) \<in> set (forward_block ps i h d vote) \<Longrightarrow> p \<in> set ps"
  by (auto simp: forward_block_def to_all_def split: option.splits)

lemma add_peer_well: "node_ok E n \<Longrightarrow> steps_well E n [] (snd (add_peer a n))"
  using peers_ok_add [of n a] by (auto simp: steps_well_def node_ok_def add_peer_def Let_def votes_ok_def)

lemma on_vote_well:
  assumes "node_ok E n" and "on_vote E d n = (r, gossip, n')"
  shows "steps_well E n gossip n'"
proof -
  obtain pooled cert n1 where a: "add_vote E d n = ((pooled, cert), n1)" by (cases "add_vote E d n") auto
  note k = add_vote_kept [OF assms(1) a]
  show ?thesis using assms(2) k
    by (cases pooled) (auto simp: on_vote_def a steps_well_def split: option.splits)
qed

lemma on_cert_well:
  assumes "node_ok E n" and "on_cert E d n = (r, gossip, n')"
  shows "steps_well E n gossip n'"
proof -
  obtain ok n1 where a: "accept_cert E d n = (ok, n1)" by (cases "accept_cert E d n")
  show ?thesis using assms(2) accept_cert_kept [OF assms(1) a]
    by (auto simp: on_cert_def a steps_well_def split: if_splits)
qed

lemma on_tx_well:
  assumes "encoding_laws (h_prims E)" and "node_ok E n" and "length d < 2 ^ 32" and "on_tx E d n = (r, gossip, n')"
  shows "steps_well E n gossip n'"
proof (cases "decode (h_prims E) d")
  case (Some tx)
  obtain ok n1 where a: "node_submit_tx E tx n = (ok, n1)" by (cases "node_submit_tx E tx n")
  show ?thesis
    using assms(4) submit_kept [OF assms(2) decode_tx_fits [OF assms(1) Some assms(3)] a]
    by (auto simp: on_tx_def Some a steps_well_def split: if_splits)
qed (use assms in \<open>simp add: on_tx_def steps_well_same\<close>)

lemma on_new_block_well:
  assumes "encoding_laws (h_prims E)" and "node_ok E n" and "small (nd_chain n)"
    and "on_new_block E d n = (r, gossip, n')" and "r \<noteq> Inl Crash"
  shows "steps_well E n gossip n' \<and> (\<exists>reply. r = Inr reply)"
proof -
  obtain x n1 where a: "accept_block_bytes E d n = (x, n1)" by (cases "accept_block_bytes E d n")
  have "x \<noteq> Inl Crash" using assms(4,5) a by (auto simp: on_new_block_def Let_def)
  note k = accept_block_kept [OF assms(1-3) a this]
  obtain ok where ok: "x = Inr ok" using k(4) by blast
  obtain vote n2 where v: "cast_vote E n1 = (vote, n2)" by (cases "cast_vote E n1")
  note kv = cast_vote_kept [OF k(1) v]
  have "n' = n1 \<and> gossip = [] \<or> n' = n2 \<and> fst ` set gossip \<subseteq> set (peers n2)" "\<exists>reply. r = Inr reply"
    using assms(4) a ok v
    by (auto simp: on_new_block_def Let_def split: option.splits if_splits)
  moreover have "(chain_step E)\<^sup>*\<^sup>* (nd_chain n) (nd_chain n2)" using k(2) kv by (meson rtranclp_trans)
  ultimately show ?thesis using k kv by (auto simp: steps_well_def)
qed

lemma handle_kept:
  assumes "encoding_laws (h_prims E)" and "node_ok E n" and "small (nd_chain n)" and "length (encode_msg m) \<le> MAX_MSG_BYTES"
    and "handle_msg E m (n, sync) = (r, gossip, n', sync')" and "r \<noteq> Inl Crash"
  shows "steps_well E n gossip n' \<and> (\<exists>reply. r = Inr reply)"
proof -
  note same = steps_well_same [OF assms(2)]
  show ?thesis
  proof (cases m)
    case (NewBlock d)
    obtain x g n1 where a: "on_new_block E d n = (x, g, n1)" by (cases "on_new_block E d n")
    then have h: "r = map_sum id Some x" "gossip = g" "n' = n1" using assms(5) by (simp_all add: NewBlock)
    have "x \<noteq> Inl Crash" using assms(6) h by auto
    from on_new_block_well [OF assms(1-3) a this] show ?thesis using h by auto
  next
    case (FinalityVote d)
    then show ?thesis using assms(5) on_vote_well [OF assms(2), of d] by (auto split: prod.splits)
  next
    case (FinalityCert d)
    then show ?thesis using assms(5) on_cert_well [OF assms(2), of d] by (auto split: prod.splits)
  next
    case (NewTx d)
    then have "length d < 2 ^ 32" using assms(4) by (simp add: MAX_MSG_BYTES_def)
    from on_tx_well [OF assms(1,2) this] show ?thesis using NewTx assms(5) by (auto split: prod.splits)
  next
    case (SubmitTx d)
    then have "length d < 2 ^ 32" using assms(4) by (simp add: MAX_MSG_BYTES_def)
    from on_tx_well [OF assms(1,2) this] show ?thesis using SubmitTx assms(5) by (auto split: prod.splits)
  next
    case (Hello a)
    then show ?thesis using assms(5) add_peer_well [OF assms(2), of a] by (auto split: prod.splits)
  next
    case (Handshake v g a)
    then show ?thesis using assms(5) add_peer_well [OF assms(2), of a] same by (auto simp: on_handshake_def Let_def split: prod.splits if_splits)
  next
    case GetStateManifest
    then show ?thesis using assms(5) same by (auto simp: on_manifest_def Let_def split: prod.splits option.splits)
  qed (use assms(5) same in auto)
qed

lemma mined_txs:
  "mine_with_reward E now miner txs c = Inr b \<Longrightarrow> blk_txs b = txs"
  by (auto simp: mine_with_reward_def Let_def try_then_case split: option.splits prod.splits sum.splits)

lemma select_valid_sub: "set (select_valid E txs c) \<subseteq> set txs \<and> length (select_valid E txs c) \<le> length txs"
proof -
  have "set (select_loop P h txs L) \<subseteq> set txs \<and> length (select_loop P h txs L) \<le> length txs" for P h and L :: "'a ledger"
    by (induction P h txs L rule: select_loop.induct) (auto split: sum.splits prod.splits option.splits)
  then show ?thesis by (simp add: select_valid_def)
qed

lemma produce_kept:
  assumes "node_ok E n" and "small (nd_chain n)" and "produce_block E now k n = (Inr x, n')"
  shows "node_ok E n'" and "(chain_step E)\<^sup>*\<^sup>* (nd_chain n) (nd_chain n')"
proof -
  let ?P = "h_prims E" and ?mp = "prune_expired (bc_active_height (nd_chain n) + 1) (nd_mempool n)"
  obtain drained mp2 where d: "mp_drain k ?mp = (drained, mp2)" by (cases "mp_drain k ?mp")
  let ?txs = "select_valid E drained (nd_chain n)"
  obtain b where b: "mine_with_reward E now (nd_miner n) ?txs (nd_chain n) = Inr b"
    using assms(3) by (auto simp: produce_block_def Let_def d split: sum.splits)
  obtain r c where a: "apply_block E b (nd_chain n) = (r, c)" by (cases "apply_block E b (nd_chain n)")
  have n': "n' = n\<lparr>nd_mempool := mp2, nd_chain := c\<rparr>" and r: "r \<noteq> Some Crash"
    using assms(3) a b by (auto simp: produce_block_def Let_def d or_else_def)
  have ok: "chain_run E (nd_chain n)" "pool_ok ?P (nd_mempool n)" "peers_ok n" "votes_ok E n" using assms(1) by (simp_all add: node_ok_def)
  have mp: "pool_ok ?P ?mp" by (rule pool_ok_filters(2) [OF ok(2)])
  have sub: "set drained \<subseteq> set (mp_txs ?mp)" and len: "length drained \<le> length (mp_txs ?mp)"
    using d by (auto simp: mp_drain_def Let_def drain_order_def split: if_splits dest!: in_set_takeD)
  have "length (mp_txs ?mp) < 2 ^ 32" using mp by (simp add: pool_ok_def mp_inv_def MAX_MEMPOOL_TXS_def)
  then have wf: "block_wf ?P b"
    using mined_txs [OF b] select_valid_sub [of E drained "nd_chain n"] sub len mp
    by (auto simp: block_wf_def pool_ok_def list_all_iff)
  note s = apply_block_kept [OF ok(1) assms(2) wf a r]
  have "votes_ok E (n\<lparr>nd_chain := c\<rparr>)" by (rule votes_ok_chain [OF ok(4) s(3)])
  then have "votes_ok E n'" by (simp add: n' votes_ok_def)
  moreover have "pool_ok ?P mp2" using pool_ok_filters(3) [OF mp, of k] by (simp add: d)
  ultimately show "node_ok E n'" using s(2) ok(3) by (simp add: node_ok_def n')
  show "(chain_step E)\<^sup>*\<^sup>* (nd_chain n) (nd_chain n')" using s(1) by (simp add: n')
qed

end
