(* ===== verification/Node_Runs.thy ===== *)
theory Node_Runs
  imports Protocol_Facts Chain_Runs
begin

text \<open>
  The runs of a node, \<open>node_step\<close>: every request of a connection and every operation of the daemon, in any order. The
  invariant of the node, and the end of every gossip.
\<close>

section \<open>Runs\<close>

text \<open>
  Blocks of a synchronisation are read by \<open>step_pull\<close>; an operation that panics has no step here, and the tree has fewer
  than \<open>2 ^ 64\<close> blocks.
\<close>

inductive node_step :: "('g::ab_group_add, 's::comm_ring_1, 'r) host \<Rightarrow> ('g, 's, 'r) node_state \<Rightarrow> ('g, 's, 'r) node_state \<Rightarrow> bool" for E where
  step_msg: "small (nd_chain n) \<Longrightarrow> length (encode_msg m) \<le> MAX_MSG_BYTES \<Longrightarrow>
     handle_msg E m (n, sync) = (r, gossip, n', sync') \<Longrightarrow> r \<noteq> Inl Crash \<Longrightarrow> node_step E n n'"
| step_pull: "small (nd_chain n) \<Longrightarrow> accept_block_bytes E d n = (r, n') \<Longrightarrow> r \<noteq> Inl Crash \<Longrightarrow> node_step E n n'"
| step_produce: "small (nd_chain n) \<Longrightarrow> produce_block E now k n = (Inr x, n') \<Longrightarrow> node_step E n n'"
| step_vote: "cast_vote E n = (v, n') \<Longrightarrow> node_step E n n'"
| step_key: "node_step E n (set_validator_key sk n)"
| step_self: "node_step E n (set_self_addr a n)"
| step_peer: "node_step E n (snd (add_peer a n))"
| step_unpeer: "node_step E n (snd (remove_peer a n))"
| step_ok: "node_step E n (record_peer_ok a n)"
| step_failure: "node_step E n (snd (record_peer_failure a n))"
| step_load: "node_step E n (snd (load_peers saved n))"

lemma peer_ops_fields:
  fixes n :: "('g, 's, 'r) node_state"
  shows "nd_chain (snd (add_peer a n)) = nd_chain n" "nd_mempool (snd (add_peer a n)) = nd_mempool n" "nd_votes (snd (add_peer a n)) = nd_votes n"
    and "nd_chain (snd (remove_peer a n)) = nd_chain n" "nd_mempool (snd (remove_peer a n)) = nd_mempool n" "nd_votes (snd (remove_peer a n)) = nd_votes n"
    and "nd_chain (record_peer_ok a n) = nd_chain n" "nd_mempool (record_peer_ok a n) = nd_mempool n" "nd_votes (record_peer_ok a n) = nd_votes n"
    and "nd_chain (snd (record_peer_failure a n)) = nd_chain n" "nd_mempool (snd (record_peer_failure a n)) = nd_mempool n"
      "nd_votes (snd (record_peer_failure a n)) = nd_votes n"
  by (auto simp: add_peer_def remove_peer_def record_peer_ok_def record_peer_failure_def Let_def split: option.splits)

lemma load_peers_fields:
  fixes n :: "('g, 's, 'r) node_state"
  shows "nd_chain (snd (load_peers saved n)) = nd_chain n" "nd_mempool (snd (load_peers saved n)) = nd_mempool n"
    "nd_votes (snd (load_peers saved n)) = nd_votes n"
proof -
  have "let m' = snd (foldl (\<lambda>(k, m) l. case add_peer l m of (new, m') \<Rightarrow> (if new then Suc k else k, m')) (k, m) ls) in
      nd_chain m' = nd_chain m \<and> nd_mempool m' = nd_mempool m \<and> nd_votes m' = nd_votes m"
    for k ls and m :: "('g, 's, 'r) node_state"
  proof (induction ls arbitrary: k m)
    case (Cons l ls)
    obtain new m' where a: "add_peer l m = (new, m')" by (cases "add_peer l m")
    show ?case using Cons [of "if new then Suc k else k" m'] peer_ops_fields(1-3) [of l m] by (simp add: a Let_def)
  qed simp
  from this [of 0 n] show "nd_chain (snd (load_peers saved n)) = nd_chain n" "nd_mempool (snd (load_peers saved n)) = nd_mempool n"
    "nd_votes (snd (load_peers saved n)) = nd_votes n"
    by (simp_all add: load_peers_def Let_def split: option.splits)
qed

lemmas peer_fields = peer_ops_fields load_peers_fields

lemma node_ok_peers:
  assumes "node_ok E n" and "peers_ok n'" and "nd_chain n' = nd_chain n" and "nd_mempool n' = nd_mempool n" and "nd_votes n' = nd_votes n"
  shows "node_ok E n'"
  using assms by (simp add: node_ok_def votes_ok_def)

lemma node_step_kept:
  assumes "encoding_laws (h_prims E)" and "node_step E n n'" and "node_ok E n"
  shows "node_ok E n' \<and> (chain_step E)\<^sup>*\<^sup>* (nd_chain n) (nd_chain n')"
proof -
  have p: "peers_ok n" using assms(3) by (simp add: node_ok_def)
  note by_peers = node_ok_peers [OF assms(3)]
  show ?thesis
    using assms(2)
  proof (cases rule: node_step.cases)
    case (step_msg m sync r g sync')
    then show ?thesis using handle_kept [OF assms(1,3)] by (auto simp: steps_well_def)
  next
    case (step_pull d r)
    then show ?thesis using accept_block_kept [OF assms(1,3)] by blast
  next
    case (step_produce now k x)
    then show ?thesis using produce_kept [OF assms(3)] by blast
  next
    case (step_vote v)
    then show ?thesis using cast_vote_kept [OF assms(3)] by blast
  next
    case (step_key sk)
    then show ?thesis using by_peers [of n'] p by (simp add: set_validator_key_def peers_ok_def peers_def)
  next
    case (step_self a)
    then show ?thesis using by_peers [of n'] p by (simp add: set_self_addr_def peers_ok_def peers_def)
  next
    case (step_peer a)
    then show ?thesis using by_peers [of n'] peers_ok_add [OF p] by (simp add: peer_fields)
  next
    case (step_unpeer a)
    then show ?thesis using by_peers [of n'] peers_ok_filter [OF p] by (simp add: peer_fields) (simp add: remove_peer_def Let_def)
  next
    case (step_ok a)
    have "peers_ok n'" unfolding step_ok record_peer_ok_def
      by (rule peers_ok_update [OF p]) (simp_all add: MAX_PEER_FAILURES_def)
    then show ?thesis using by_peers [of n'] by (simp add: step_ok peer_fields)
  next
    case (step_failure a)
    then show ?thesis using by_peers [of n'] peers_ok_failure [OF p] by (simp add: peer_fields)
  next
    case (step_load saved)
    then show ?thesis using by_peers [of n'] peers_ok_load [OF p] by (simp add: peer_fields)
  qed
qed

lemma node_steps_kept:
  assumes "encoding_laws (h_prims E)" and "(node_step E)\<^sup>*\<^sup>* n n'" and "node_ok E n"
  shows "node_ok E n' \<and> (chain_step E)\<^sup>*\<^sup>* (nd_chain n) (nd_chain n')"
  using assms(2)
proof (induction rule: rtranclp_induct)
  case (step y z)
  then show ?case using node_step_kept [OF assms(1) step.hyps(2)] by (meson rtranclp_trans)
qed (use assms(3) in simp)

lemma node_new_ok: "chain_run E c \<Longrightarrow> node_ok E (with_miner c miner)"
  using mp_inv_new [of "h_prims E"]
  by (simp add: node_ok_def with_miner_def node_new_def pool_ok_def mp_new_def peers_ok_def peers_def votes_ok_def)

text \<open>
  C37: a node stays well whatever it is sent. Start a node on a chain that a run has produced, and let it handle any messages that
  fit a frame, from anyone, pull and produce blocks, vote and change its peers, in any order, without a panic. Then its chain
  has only made steps of the chain, its pool keeps its promises, its peers stay a capped set, and every pooled vote carries a
  valid signature and a height above the finalized one. The next message, whatever it is, is answered or ignored unless the
  handler panics, the invariant holds again, and what the message sets off is sent to peers only.
\<close>

theorem node_kept:
  assumes "encoding_laws (h_prims E)" and "chain_run E c" and "(node_step E)\<^sup>*\<^sup>* (with_miner c miner) n"
  shows "node_ok E n \<and> (chain_step E)\<^sup>*\<^sup>* c (nd_chain n) \<and>
    (small (nd_chain n) \<and> length (encode_msg m) \<le> MAX_MSG_BYTES \<and> handle_msg E m (n, sync) = (r, gossip, n', sync') \<and> r \<noteq> Inl Crash \<longrightarrow>
       (\<exists>reply. r = Inr reply) \<and> node_ok E n' \<and> fst ` set gossip \<subseteq> set (peers n'))"
  using node_steps_kept [OF assms(1,3) node_new_ok [OF assms(2)]] handle_kept [OF assms(1), of n m sync r gossip n' sync']
  by (auto simp: with_miner_def node_new_def steps_well_def)

lemma first_peer:
  "add_peer (ascii ''h1'') (with_miner c 7 :: (u64, u64, unit) node_state) =
     (True, (with_miner c 7)\<lparr>nd_peers := [\<lparr>pr_addr = ascii ''h1'', pr_failures = 0\<rparr>]\<rparr>)"
proof -
  have "trim (ascii ''h1'') = ascii ''h1''" by (rule trim_visible) (simp_all add: ascii_def ascii_alnum_def)
  then show ?thesis
    by (simp add: add_peer_def Let_def with_miner_def node_new_def MAX_PEERS_def MAX_PEER_ADDR_LEN_def) (simp add: ascii_def)
qed

text \<open>A node reads the block of a validator, and another one is told of a peer.\<close>

theorem node_kept_witness:
  "\<exists>(c :: u64 blockchain) n n'. chain_run flat_host c \<and>
     accept_block_bytes flat_host (block_encode flat_prims stake_block) (with_miner c 7) = (Inr True, n) \<and> node_ok flat_host n \<and>
     handle_msg flat_host (Hello (ascii ''h1'')) (with_miner c 7, None) = (Inr (Some (Ack True)), [], n', None) \<and> node_ok flat_host n'"
proof (rule flat_run)
  fix c c' :: "u64 blockchain"
  assume c: "chain_run flat_host c" "apply_block flat_host stake_block c = (None, c')" "small c"
  let ?n = "with_miner c 7 :: (u64, u64, unit) node_state" and ?data = "block_encode flat_prims stake_block"
  have E: "encoding_laws (h_prims flat_host)" using flat_encoding by simp
  note hello = first_peer [of c]
  have "block_decode flat_prims ?data = Some stake_block"
    using flat_encoding by (simp add: block_decode_iff block_wf_def stake_block_def tx_fits_def)
  then obtain n where n: "accept_block_bytes flat_host ?data ?n = (Inr True, n)"
    using c(2) by (simp add: accept_block_bytes_def with_miner_def node_new_def)
  have "node_step flat_host ?n n" by (rule step_pull [OF _ n]) (use c(3) in \<open>simp_all add: with_miner_def node_new_def\<close>)
  from node_kept [OF E c(1) r_into_rtranclp [of "node_step flat_host", OF this]] have ok: "node_ok flat_host n" by blast
  have "small (nd_chain ?n)" using c(3) by (simp add: with_miner_def node_new_def)
  moreover have "length (encode_msg (Hello (ascii ''h1''))) \<le> MAX_MSG_BYTES" by (simp add: MAX_MSG_BYTES_def ascii_def)
  moreover have "handle_msg flat_host (Hello (ascii ''h1'')) (?n, None) =
      (Inr (Some (Ack True)), [], ?n\<lparr>nd_peers := [\<lparr>pr_addr = ascii ''h1'', pr_failures = 0\<rparr>]\<rparr>, None)" by (simp add: hello)
  ultimately have "node_ok flat_host (?n\<lparr>nd_peers := [\<lparr>pr_addr = ascii ''h1'', pr_failures = 0\<rparr>]\<rparr>)"
    using node_kept [OF E c(1) rtranclp.rtrancl_refl [of "node_step flat_host"]] by blast
  then show ?thesis using c(1) n ok by (auto simp: hello)
qed

section \<open>The end of a gossip\<close>

text \<open>The message another node gets, and when the node that sent it has nothing to do with it any more.\<close>

fun msg_of :: "announce \<Rightarrow> msg" where
  "msg_of (AnnounceBlock i h d) = NewBlock d"
| "msg_of (AnnounceVote d) = FinalityVote d"
| "msg_of (AnnounceCert d) = FinalityCert d"
| "msg_of (AnnounceTx d) = NewTx d"

fun settled :: "('g::ab_group_add, 's::comm_ring_1, 'r) host \<Rightarrow> announce \<Rightarrow> ('g, 's, 'r) node_state \<Rightarrow> bool" where
  "settled E (AnnounceBlock i h d) n \<longleftrightarrow>
     (\<forall>b. block_decode (h_prims E) d = Some b \<longrightarrow> known (bc_tree (nd_chain n)) (header_id (h_prims E) (blk_header b)))"
| "settled E (AnnounceVote d) n \<longleftrightarrow>
     (\<forall>v. vote_decode d = Some v \<longrightarrow> watermark_above (nd_chain n) (vo_height v) \<or> vo_validator v |\<in>| fmdom (bucket_at n (vo_height v) (vo_block_id v)))"
| "settled E (AnnounceCert d) n \<longleftrightarrow> (\<forall>c. cert_decode d = Some c \<longrightarrow> watermark_above (nd_chain n) (ce_height c))"
| "settled E (AnnounceTx d) n \<longleftrightarrow> (\<forall>tx. decode (h_prims E) d = Some tx \<longrightarrow> tx_hash (h_prims E) tx |\<in>| mp_seen (nd_mempool n))"

lemma add_vote_settled:
  assumes "settled E (AnnounceVote d) n"
  shows "add_vote E d n = ((False, None), n)"
proof (cases "vote_decode d")
  case (Some v)
  then have "watermark_above (nd_chain n) (vo_height v) \<or> vo_validator v |\<in>| fmdom (bucket_at n (vo_height v) (vo_block_id v))"
    using assms by simp
  then show ?thesis by (auto simp: add_vote_def Some watermark_above_def bucket_at_def Let_def split: option.splits)
qed (simp add: add_vote_def)

lemma accept_cert_settled:
  assumes "settled E (AnnounceCert d) n"
  shows "\<not> fst (accept_cert E d n)"
  using assms by (auto simp: accept_cert_def try_finalize_def watermark_above_def split: option.splits)

lemma mp_add_True: "mp_add P tx mp = (True, mp') \<Longrightarrow> tx_hash P tx |\<notin>| mp_seen mp \<and> tx_hash P tx |\<in>| mp_seen mp'"
  by (auto simp: mp_add_def Let_def split: if_splits option.splits)

lemma settled_silent:
  assumes "settled E a n"
  shows "fst (snd (handle_msg E (msg_of a) (n, sync))) = []"
proof (cases a)
  case (AnnounceBlock i h d)
  then show ?thesis using assms
    by (cases "block_decode (h_prims E) d")
      (auto simp: on_new_block_def Let_def accept_block_bytes_def has_block_def split: prod.splits sum.splits option.splits)
next
  case (AnnounceVote d)
  then show ?thesis using add_vote_settled [of E d n] assms by (simp add: on_vote_def)
next
  case (AnnounceCert d)
  then show ?thesis using accept_cert_settled [of E d n] assms by (auto simp: on_cert_def split: prod.splits)
next
  case (AnnounceTx d)
  then show ?thesis using assms
    by (auto simp: on_tx_def node_submit_tx_def dest!: mp_add_True split: prod.splits option.splits sum.splits)
qed

subsection \<open>What a node sends is settled\<close>

lemma add_vote_sent:
  assumes "add_vote E d n = ((True, cert), n')"
  shows "settled E (AnnounceVote d) n'" and "cert = Some c \<Longrightarrow> settled E (AnnounceCert c) n'"
proof -
  have "settled E (AnnounceVote d) n' \<and> (cert = Some c \<longrightarrow> settled E (AnnounceCert c) n')"
  proof (cases rule: add_vote_cases [of E d n])
    case (certified v x y)
    note f = try_finalize_True(1) [OF certified(5)]
    have "ce_height z = ce_height x" if "cert_decode (cert_encode x) = Some z" for z
    proof -
      have "cert_encode x = cert_encode z" using that by (simp add: cert_codec)
      then have "le_bytes 8 (ce_height z) = le_bytes 8 (ce_height x)" by (simp add: cert_encode_def)
      then show ?thesis by simp
    qed
    then show ?thesis using certified assms f by (auto simp: watermark_above_def)
  qed (use assms in \<open>auto simp: with_vote_def bucket_at_def\<close>)
  then show "settled E (AnnounceVote d) n'" and "cert = Some c \<Longrightarrow> settled E (AnnounceCert c) n'" by auto
qed

lemma on_vote_sent: "on_vote E d n = (r, gossip, n') \<Longrightarrow> (p, a) \<in> set gossip \<Longrightarrow> settled E a n'"
  by (auto simp: on_vote_def to_all_def dest: add_vote_sent split: prod.splits bool.splits option.splits simp del: settled.simps)

lemma on_cert_sent: "on_cert E d n = (r, gossip, n') \<Longrightarrow> (p, a) \<in> set gossip \<Longrightarrow> settled E a n'"
  using try_finalize_True(1)
  by (fastforce simp: on_cert_def to_all_def accept_cert_def watermark_above_def split: prod.splits if_splits option.splits bool.splits)

lemma on_tx_sent: "on_tx E d n = (r, gossip, n') \<Longrightarrow> (p, a) \<in> set gossip \<Longrightarrow> settled E a n'"
  by (auto simp: on_tx_def to_all_def node_submit_tx_def dest!: mp_add_True split: prod.splits if_splits option.splits sum.splits)

lemma apply_block_known:
  assumes "apply_block E b c = (None, c')"
  shows "known (bc_tree c') (header_id (h_prims E) (blk_header b))"
proof -
  have pruned: "maybe_prune E (note_validator_set d) = (None, c') \<Longrightarrow> bc_tree c' = bc_tree d" for d
    using maybe_prune_frame(1) [of E "note_validator_set d" None c'] by simp
  show ?thesis using assms
    by (auto simp: apply_block_def extend_tip_def switch_branch_def Let_def dest!: pruned split: if_splits sum.splits option.splits)
qed

lemma cast_vote_sent:
  assumes "cast_vote E n = (Some (v, cert), n')"
  shows "settled E (AnnounceVote v) n'" and "cert = Some c \<Longrightarrow> settled E (AnnounceCert c) n'"
proof -
  have "add_vote E v n = ((True, cert), n')"
    using assms by (auto simp: cast_vote_def Let_def split: option.splits prod.splits if_splits)
  from add_vote_sent [OF this]
  show "settled E (AnnounceVote v) n'" and "cert = Some c \<Longrightarrow> settled E (AnnounceCert c) n'" by blast+
qed

lemma forward_block_cases:
  assumes "(p, a) \<in> set (forward_block ps i h d vote)"
  obtains "a = AnnounceBlock i h d" | v cert where "vote = Some (v, cert)" and "a = AnnounceVote v"
  | v c where "vote = Some (v, Some c)" and "a = AnnounceCert c"
  using assms by (auto simp: forward_block_def to_all_def split: option.splits)

lemma on_new_block_sent:
  assumes "node_ok E n1" and "accept_block_bytes E d n = (Inr True, n1)" and "cast_vote E n1 = (vote, n')"
    and "(p, a) \<in> set (forward_block ps i h d vote)"
  shows "settled E a n'"
  using assms(4)
proof (cases rule: forward_block_cases)
  case 1
  have "bc_tree (nd_chain n') = bc_tree (nd_chain n1)" using cast_vote_kept [OF assms(1,3)] by simp
  then show ?thesis
    using 1 assms(2) apply_block_known
    by (auto simp: accept_block_bytes_def or_else_def split: option.splits prod.splits fault.splits)
next
  case (2 v cert)
  then show ?thesis using cast_vote_sent(1) assms(3) by blast
next
  case (3 v c)
  then show ?thesis using cast_vote_sent(2) assms(3) by blast
qed

lemma handle_sent:
  assumes "encoding_laws (h_prims E)" and "node_ok E n" and "small (nd_chain n)"
    and "handle_msg E m (n, sync) = (r, gossip, n', sync')" and "r \<noteq> Inl Crash" and "(p, a) \<in> set gossip"
  shows "settled E a n'"
proof (cases m)
  case (NewBlock d)
  obtain x n1 where x: "accept_block_bytes E d n = (x, n1)" by (cases "accept_block_bytes E d n")
  obtain vote n2 where v: "cast_vote E n1 = (vote, n2)" by (cases "cast_vote E n1")
  have "x = Inr True" "n' = n2" "\<exists>i h. gossip = forward_block (peers n2) i h d vote"
    using assms(4,6) x v NewBlock by (auto simp: on_new_block_def Let_def split: prod.splits sum.splits if_splits option.splits)
  moreover from this x have "node_ok E n1" using accept_block_kept(1) [OF assms(1-3), of d "Inr True" n1] by simp
  ultimately show ?thesis using on_new_block_sent [of E n1 d n vote n2] x v assms(6) by auto
next
  case (FinalityVote d)
  then show ?thesis using assms(4,6) on_vote_sent by (fastforce split: prod.splits simp del: settled.simps)
next
  case (FinalityCert d)
  then show ?thesis using assms(4,6) on_cert_sent by (fastforce split: prod.splits simp del: settled.simps)
next
  case (NewTx d)
  then show ?thesis using assms(4,6) on_tx_sent by (fastforce split: prod.splits simp del: settled.simps)
next
  case (SubmitTx d)
  then show ?thesis using assms(4,6) on_tx_sent by (fastforce split: prod.splits simp del: settled.simps)
qed (use assms(4,6) in \<open>auto split: prod.splits\<close>)

subsection \<open>What is settled stays settled\<close>

lemma chain_step_grows:
  assumes "chain_step E c c'" and "chain_spine c"
  shows "(known (bc_tree c) i \<longrightarrow> known (bc_tree c') i) \<and> (watermark_above c h \<longrightarrow> watermark_above c' h)"
  using assms(1)
proof (cases rule: chain_step.cases)
  case (step_block b r)
  then show ?thesis using apply_block_spine(3,7) [OF assms(2) step_block(1,3)]
    by (auto simp: watermark_above_def fmlookup_dom_iff)
next
  case (step_finalize cert r)
  from step_finalize show ?thesis
    by (cases rule: try_finalize_cases) (auto simp: watermark_above_def split: option.splits)
qed (auto simp: set_prune_window_def watermark_above_def)

lemma chain_steps_grow:
  assumes "(chain_step E)\<^sup>*\<^sup>* c c'" and "chain_spine c"
  shows "(known (bc_tree c) i \<longrightarrow> known (bc_tree c') i) \<and> (watermark_above c h \<longrightarrow> watermark_above c' h)"
  using assms(1)
proof (induction rule: rtranclp_induct)
  case (step y z)
  then show ?case using chain_step_grows [OF step.hyps(2) chain_steps_spine [OF step.hyps(1) assms(2)]] by blast
qed simp

definition counted :: "('g, 's, 'r) node_state \<Rightarrow> u64 \<Rightarrow> id32 \<Rightarrow> id32 \<Rightarrow> bool" where
  "counted n h i v \<longleftrightarrow> watermark_above (nd_chain n) h \<or> v |\<in>| fmdom (bucket_at n h i)"

lemma counted_same: "nd_votes n' = nd_votes n \<Longrightarrow> (watermark_above (nd_chain n) h \<longrightarrow> watermark_above (nd_chain n') h) \<Longrightarrow>
    counted n h i v \<Longrightarrow> counted n' h i v"
  by (auto simp: counted_def bucket_at_def)

lemma bucket_with_vote: "v |\<in>| fmdom (bucket_at n h i) \<Longrightarrow> v |\<in>| fmdom (bucket_at (with_vote w n) h i)"
  by (auto simp: bucket_at_def with_vote_def)

lemma counted_final:
  assumes "bc_finalized c = Some (fh, j)" and "v |\<in>| fmdom (bucket_at n h i)"
  shows "counted (n\<lparr>nd_chain := c, nd_votes := drop_final_votes fh (nd_votes n)\<rparr>) h i v"
  using assms by (auto simp: counted_def bucket_at_def drop_final_votes_def watermark_above_def)

lemma add_vote_counted:
  fixes E :: "('g::ab_group_add, 's::comm_ring_1, 'r) host"
  assumes "add_vote E d n = (r, n')" and "counted n h i v" and "watermark_above (nd_chain n) h \<longrightarrow> watermark_above (nd_chain n') h"
  shows "counted n' h i v"
proof (cases rule: add_vote_cases [of E d n])
  case (pooled w)
  then show ?thesis using assms bucket_with_vote [of v n h i w] by (auto simp: counted_def)
next
  case (certified w cert c)
  then show ?thesis
    using assms counted_final [OF try_finalize_True(1) [OF certified(5)], of v "with_vote w n" h i] bucket_with_vote [of v n h i w]
    by (auto simp: counted_def)
qed (use assms in simp)

lemma accept_cert_counted:
  fixes E :: "('g::ab_group_add, 's::comm_ring_1, 'r) host"
  assumes "accept_cert E d n = (r, n')" and "counted n h i v" and "watermark_above (nd_chain n) h \<longrightarrow> watermark_above (nd_chain n') h"
  shows "counted n' h i v"
proof (cases "cert_decode d")
  case (Some cert)
  obtain ok c where f: "try_finalize E cert (nd_chain n) = (ok, c)" by (cases "try_finalize E cert (nd_chain n)")
  show ?thesis
  proof (cases ok)
    case True
    then have n': "n' = n\<lparr>nd_chain := c, nd_votes := drop_final_votes (ce_height cert) (nd_votes n)\<rparr>"
      using assms(1) f by (simp add: accept_cert_def Some)
    have "v |\<in>| fmdom (bucket_at n h i) \<Longrightarrow> counted n' h i v"
      unfolding n' by (rule counted_final [OF try_finalize_True(1)]) (use f True in simp)
    then show ?thesis using assms(2,3) unfolding counted_def by blast
  next
    case False
    then have "nd_votes n' = nd_votes n" using assms(1) f by (auto simp: accept_cert_def Some)
    from counted_same [OF this assms(3,2)] show ?thesis .
  qed
next
  case None
  then show ?thesis using assms by (simp add: accept_cert_def)
qed

lemma votes_untouched:
  shows "accept_block_bytes E d n = (x, n1) \<Longrightarrow> nd_votes n1 = nd_votes n"
    and "node_submit_tx E tx n = (ok, n2) \<Longrightarrow> nd_votes n2 = nd_votes n"
    and "produce_block E now k n = (y, n3) \<Longrightarrow> nd_votes n3 = nd_votes n"
    and "add_peer a n = (new, n4) \<Longrightarrow> nd_votes n4 = nd_votes n"
  by (auto simp: add_peer_def accept_block_bytes_def node_submit_tx_def produce_block_def Let_def
      split: option.splits prod.splits sum.splits if_splits)

lemma cast_vote_counted:
  fixes E :: "('g::ab_group_add, 's::comm_ring_1, 'r) host"
  assumes "cast_vote E n = (r, n')" and "counted n h i v" and "watermark_above (nd_chain n) h \<longrightarrow> watermark_above (nd_chain n') h"
  shows "counted n' h i v"
  using assms add_vote_counted [OF _ assms(2,3)] by (auto simp: cast_vote_def Let_def split: option.splits prod.splits)

lemma on_new_block_counted:
  assumes "encoding_laws (h_prims E)" and "node_ok E n" and "small (nd_chain n)" and "on_new_block E d n = (x, g, n')" and "x \<noteq> Inl Crash"
    and "counted n h i v"
  shows "counted n' h i v"
proof -
  obtain y n1 where a: "accept_block_bytes E d n = (y, n1)" by (cases "accept_block_bytes E d n")
  obtain vote n2 where c: "cast_vote E n1 = (vote, n2)" by (cases "cast_vote E n1")
  have "y \<noteq> Inl Crash" using assms(4,5) a by (auto simp: on_new_block_def Let_def)
  note k = accept_block_kept [OF assms(1-3) a this]
  have spine: "chain_spine (nd_chain n)" "chain_spine (nd_chain n1)"
    using assms(2) k(1) chain_run_spine by (auto simp: node_ok_def)
  have "counted n1 h i v"
    using counted_same [OF votes_untouched(1) [OF a] _ assms(6)] chain_steps_grow [OF k(2) spine(1)] by blast
  moreover from this have "counted n2 h i v"
    using cast_vote_counted [OF c] chain_steps_grow [of E "nd_chain n1" "nd_chain n2", OF _ spine(2)] cast_vote_kept [OF k(1) c] by blast
  moreover have "n' = n1 \<or> n' = n2"
    using assms(4) a c by (auto simp: on_new_block_def Let_def split: prod.splits sum.splits if_splits option.splits)
  ultimately show ?thesis by blast
qed

lemma node_step_counted:
  assumes "encoding_laws (h_prims E)" and "node_step E n n'" and "node_ok E n" and "counted n h i v"
  shows "counted n' h i v"
proof -
  have w: "watermark_above (nd_chain n) h \<longrightarrow> watermark_above (nd_chain n') h"
    using chain_steps_grow node_step_kept [OF assms(1-3)] chain_run_spine assms(3) unfolding node_ok_def by blast
  note same = counted_same [OF _ w assms(4)]
  show ?thesis
    using assms(2)
  proof (cases rule: node_step.cases)
    case (step_msg m sync r g sync')
    show ?thesis
    proof (cases m)
      case (NewBlock d)
      obtain x n1 where a: "on_new_block E d n = (x, g, n')" "r = map_sum id Some x"
        using step_msg(3) NewBlock by (auto split: prod.splits)
      then have "x \<noteq> Inl Crash" using step_msg(4) by auto
      then show ?thesis using on_new_block_counted [OF assms(1,3) step_msg(1) a(1) _ assms(4)] by blast
    next
      case (FinalityVote d)
      then show ?thesis using step_msg(3) add_vote_counted [OF _ assms(4) w]
        by (auto simp: on_vote_def split: prod.splits bool.splits)
    next
      case (FinalityCert d)
      then show ?thesis using step_msg(3) accept_cert_counted [OF _ assms(4) w] by (auto simp: on_cert_def split: prod.splits)
    qed (use step_msg(3) in \<open>auto simp: on_tx_def on_handshake_def on_manifest_def Let_def peer_fields intro!: same dest: votes_untouched
        split: prod.splits option.splits if_splits\<close>)
  next
    case (step_vote x)
    then show ?thesis using cast_vote_counted [OF _ assms(4) w] by blast
  qed (use same in \<open>auto simp: peer_fields set_validator_key_def set_self_addr_def dest: votes_untouched\<close>)
qed

lemma settled_step:
  assumes "encoding_laws (h_prims E)" and "node_step E n n'" and "node_ok E n" and "settled E a n" and "\<nexists>d. a = AnnounceTx d"
  shows "settled E a n'"
proof -
  have g: "(known (bc_tree (nd_chain n)) i \<longrightarrow> known (bc_tree (nd_chain n')) i) \<and>
      (watermark_above (nd_chain n) h \<longrightarrow> watermark_above (nd_chain n') h)" for i h
    using chain_steps_grow node_step_kept [OF assms(1-3)] chain_run_spine assms(3) unfolding node_ok_def by blast
  show ?thesis
  proof (cases a)
    case (AnnounceVote d)
    then show ?thesis using assms(4) node_step_counted [OF assms(1-3)] by (auto simp: counted_def)
  qed (use assms(4,5) g in auto)
qed

lemma settled_steps:
  assumes "encoding_laws (h_prims E)" and "(node_step E)\<^sup>*\<^sup>* n n'" and "node_ok E n" and "settled E a n" and "\<nexists>d. a = AnnounceTx d"
  shows "settled E a n'"
  using assms(2)
proof (induction rule: rtranclp_induct)
  case (step y z)
  then show ?case using settled_step [OF assms(1) step.hyps(2) _ _ assms(5)] node_steps_kept [OF assms(1) step.hyps(1) assms(3)] by blast
qed (rule assms(4))

text \<open>
  C38: every gossip dies out. Whatever a node that keeps its invariant sends out while it handles a message without a panic, the
  block, the vote, its own vote, a certificate or a transaction, sets off nothing when it comes back: not at once, and not
  after any run of the node; a transaction as long as the mempool still remembers its hash.
\<close>

theorem gossip_dies_out:
  assumes "encoding_laws (h_prims E)" and "node_ok E n" and "small (nd_chain n)" and "length (encode_msg m) \<le> MAX_MSG_BYTES"
    and "handle_msg E m (n, sync) = (r, gossip, n1, sync1)" and "r \<noteq> Inl Crash" and "(p, a) \<in> set gossip"
    and "(node_step E)\<^sup>*\<^sup>* n1 n2"
  shows "fst (snd (handle_msg E (msg_of a) (n1, sync2))) = [] \<and>
    ((\<forall>d tx. a = AnnounceTx d \<and> decode (h_prims E) d = Some tx \<longrightarrow> tx_hash (h_prims E) tx |\<in>| mp_seen (nd_mempool n2)) \<longrightarrow>
       fst (snd (handle_msg E (msg_of a) (n2, sync2))) = [])"
proof -
  have s: "settled E a n1" by (rule handle_sent [OF assms(1-3,5-7)])
  have "node_ok E n1" using handle_kept [OF assms(1-6)] by (simp add: steps_well_def)
  note steps = settled_steps [OF assms(1,8) this s]
  have "settled E a n2" if "\<forall>d tx. a = AnnounceTx d \<and> decode (h_prims E) d = Some tx \<longrightarrow> tx_hash (h_prims E) tx |\<in>| mp_seen (nd_mempool n2)"
    using steps that by (cases a) simp_all
  then show ?thesis using settled_silent s by blast
qed

text \<open>A node with one peer takes a transaction from a wallet; the peer sends it back.\<close>

theorem gossip_dies_out_witness:
  "\<exists>(c :: u64 blockchain) n n1. chain_run flat_host c \<and>
     handle_msg flat_host (SubmitTx (encode flat_prims stake_tx)) (n, None) =
       (Inr (Some (Ack True)), [(ascii ''h1'', AnnounceTx (encode flat_prims stake_tx))], n1, None) \<and>
     fst (snd (handle_msg flat_host (NewTx (encode flat_prims stake_tx)) (n1, None))) = []"
proof (rule flat_run)
  fix c c' :: "u64 blockchain"
  assume c: "chain_run flat_host c" "small c"
  let ?n = "(with_miner c 7 :: (u64, u64, unit) node_state)\<lparr>nd_peers := [\<lparr>pr_addr = ascii ''h1'', pr_failures = 0\<rparr>]\<rparr>"
  let ?d = "encode flat_prims stake_tx"
  let ?n1 = "?n\<lparr>nd_mempool := \<lparr>mp_txs = [stake_tx], mp_seen = {|tx_hash flat_prims stake_tx|}\<rparr>\<rparr>"
  have E: "encoding_laws (h_prims flat_host)" using flat_encoding by simp
  have "node_step flat_host (with_miner c 7) ?n" using step_peer [of flat_host "with_miner c 7" "ascii ''h1''"] by (simp add: first_peer)
  then have ok: "node_ok flat_host ?n" using node_step_kept [OF E] node_new_ok [OF c(1)] by blast
  have "decode flat_prims ?d = Some stake_tx"
    by (rule decode_encode [OF flat_encoding]) simp
  moreover have "check_tx flat_prims stake_tx = Inr ()" by simp
  moreover have "mp_add flat_prims stake_tx mp_new = (True, \<lparr>mp_txs = [stake_tx], mp_seen = {|tx_hash flat_prims stake_tx|}\<rparr>)"
    by (simp add: mp_add_def mp_new_def replace_spend_def make_room_def Let_def MAX_MEMPOOL_TXS_def MAX_SEEN_def fcard_fempty)
  ultimately have h: "handle_msg flat_host (SubmitTx ?d) (?n, None) = (Inr (Some (Ack True)), [(ascii ''h1'', AnnounceTx ?d)], ?n1, None)"
    by (simp add: on_tx_def node_submit_tx_def with_miner_def node_new_def to_all_def peers_def)
  have l: "length (encode_msg (SubmitTx ?d)) \<le> MAX_MSG_BYTES" by (simp add: MAX_MSG_BYTES_def)
  have "fst (snd (handle_msg flat_host (msg_of (AnnounceTx ?d)) (?n1, None))) = []"
    using gossip_dies_out [OF E ok _ l h _ _ rtranclp.rtrancl_refl [of "node_step flat_host"], of "ascii ''h1''" "AnnounceTx ?d" None] c(2)
    by (simp add: with_miner_def node_new_def)
  then show ?thesis using c(1) h by (intro exI [of _ c] exI [of _ ?n] exI [of _ ?n1]) simp
qed

end
