(* ===== verification/Serving.thy ===== *)
theory Serving
  imports Sync Chain_Runs
begin

text \<open>
  Clients and servers together: a call of a client over the wire gives what the node answers, and a state that
  is captured once arrives whole.
\<close>

section \<open>A served connection\<close>

text \<open>The client writes a request, the server's loop reads it and writes its reply, the client reads that.\<close>

definition served :: "('g::ab_group_add, 's::comm_ring_1, 'r) host \<Rightarrow> ('g, 's, 'r) conn link" where
  "served E st m = (case serve_stream E (write_msg m) st of (out, gossip, st1, why) \<Rightarrow> (map_sum id fst (read_msg out), st1))"

lemma served_reads:
  assumes "handle_msg E m st = (Inr (Some r), gossip, st1)" and "sendable m"
  shows "served E st m = (map_sum id fst (read_msg (write_msg r)), st1)"
proof -
  have "read_msg (write_msg m) = Inr (m, [])" using read_write [OF assms(2), of "[]"] by simp
  moreover have "read_msg ([] :: bytes) = Inl UnexpectedEof" by (simp add: read_msg_def rd_u32_def rd_take_def)
  ultimately have "serve_stream E (write_msg m) st = (write_msg r, gossip, st1, Closed UnexpectedEof)"
    using assms(1) by (simp add: serve_stream.simps [of E "write_msg m"] serve_stream.simps [of E "[]"])
  then show ?thesis by (simp add: served_def)
qed

lemma served_reply:
  assumes "handle_msg E m st = (Inr (Some r), gossip, st1)" and "sendable m" and "sendable r"
  shows "served E st m = (Inr r, st1)"
  using served_reads [OF assms(1,2)] read_write [OF assms(3), of "[]"] by simp

section \<open>Calls\<close>

lemma rpc_served:
  "handle_msg E m (n, sync) = (Inr (Some r), gossip, st) \<Longrightarrow> sendable m \<Longrightarrow> sendable r \<Longrightarrow> rpc (served E) (n, sync) m = Inr r"
  by (simp add: rpc_def served_reply)

lemma length_put_opt [simp]: "length (put_opt f x) = (case x of None \<Rightarrow> 1 | Some y \<Rightarrow> 1 + length (f y))"
  by (cases x) simp_all

lemma length_ct [simp]: "length (ct_to_bytes P ct) = 64"
  by (simp add: ct_to_bytes_def)

lemma small_frames:
  "sendable (GetBalance i token)" "sendable (GetPending i token)" "sendable (GetNonce i)" "sendable (GetPublicBalance i token)"
  "sendable (GetPool token)" "sendable (GetLpShares token i)" "sendable (GetHtlc i)" "sendable (GetCurve token)" "sendable GetFinalized"
  "sendable (GetContractStorage i key)" "sendable (HasContract i)" "sendable GetTip" "sendable (GetStake i)" "sendable (GetBlock h)"
  "sendable (TipIs h)" "sendable (NonceReply x)" "sendable (PublicBalanceReply x)" "sendable (ContractStorageReply h)" "sendable (Ack ok)"
  "sendable (HandshakeAck version i ok)" "sendable (FinalizedReply f)" "sendable (PoolReply p)" "sendable (HtlcReply l)" "sendable (CurveReply q)"
  "sendable (BalanceReply (map_option (ct_to_bytes P) ct))" "addr_fits a \<Longrightarrow> sendable (Handshake version i a)"
  by (auto simp: sendable_def MAX_MSG_BYTES_def put_addr_def MAX_PEER_ADDR_LEN_def split: option.split)

lemma long_stake_reply:
  assumes "MAX_UNBONDING_ENTRIES < length entries" and "length entries < 2 ^ 17"
  shows "read_msg (write_msg (StakeReply bonded entries)) = Inl (InvalidData ''bad message'')"
proof -
  let ?b = "encode_msg (StakeReply bonded entries)"
  have "length (concat (map put_entry entries)) = 16 * length entries" by (induction entries) auto
  then have l: "length ?b = 13 + 16 * length entries" by (simp add: put_stake_def enc_list_def)
  have "unat (of_nat (length ?b) :: u32) = length ?b"
    by (rule unat_of_nat_u32) (subst l, use assms(2) in simp)
  moreover have "length ?b \<le> MAX_MSG_BYTES" using assms(2) unfolding l by (simp add: MAX_MSG_BYTES_def)
  moreover have "decode_msg ?b = None" by (rule long_stake_reply_unreadable [OF assms(1)]) (use assms(2) in simp)
  ultimately show ?thesis by (simp add: read_msg_def write_msg_def Let_def codec_simps rd_take_def)
qed

lemma stake_sendable: "length entries \<le> MAX_UNBONDING_ENTRIES \<Longrightarrow> sendable (StakeReply bonded entries)"
proof -
  assume l: "length entries \<le> MAX_UNBONDING_ENTRIES"
  have "length (concat (map put_entry entries)) = 16 * length entries" by (induction entries) auto
  with l show ?thesis by (simp add: sendable_def put_stake_def enc_list_def MAX_UNBONDING_ENTRIES_def MAX_MSG_BYTES_def)
qed

text \<open>
  What a client is told is what the node holds. A call over the wire returns the height, the nonce, the balances, the pool, the shares,
  the lock, the curve, the storage and the finalized block of the node's active state; a block, when it fits a frame; the verdict
  of the node on a transaction; and a handshake accepts exactly the node of the same genesis. The one answer
  that can be lost is that on a stake: with more than 1024 unbonding entries the client reports a bad message.
\<close>

lemma rpc_exact:
  fixes E :: "('g::ab_group_add, 's::comm_ring_1, 'r) host" and sync :: "state_chunks option" and n :: "('g::ab_group_add, 's::comm_ring_1, 'r) node_state"
  defines "ask \<equiv> served E" and "k \<equiv> (n, sync)" and "L \<equiv> tip_ledger n" and "P \<equiv> h_prims E"
  shows "get_height ask k = Inr (bc_active_height (nd_chain n)) \<and> get_nonce ask k i = Inr (ledger_nonce L i) \<and>
    get_public_balance ask k i token = Inr (public_balance L i token) \<and>
    get_balance ask k i token = Inr (map_option (of_be \<circ> ct_to_bytes P) (ledger_balance L i token)) \<and>
    get_pending ask k i token = Inr (map_option (of_be \<circ> ct_to_bytes P) (ledger_pending L i token)) \<and>
    rpc_pool ask k token = Inr (map_option (\<lambda>p. (pool_lat p, pool_tok p, pool_lp_supply p)) (get_pool L token)) \<and>
    get_lp_shares ask k token i = Inr (lp_shares L token i) \<and> rpc_htlc_at ask k i = Inr (map_option view_lock (get_htlc L i)) \<and>
    rpc_curve ask k token = Inr (map_option (\<lambda>c. (cp_vlat c, cp_vtok c, cp_real_lat c, cp_graduated c)) (get_curve L token)) \<and>
    get_contract_storage ask k i key = Inr (contract_storage L i key) \<and> rpc_has_contract ask k i = Inr (has_contract L i) \<and>
    get_finalized ask k = Inr (bc_finalized (nd_chain n)) \<and>
    (addr_fits a \<longrightarrow> handshake ask k genesis a = Inr (genesis = bc_genesis_id (nd_chain n))) \<and>
    ((\<forall>b. block_bytes (nd_chain n) h = Some b \<longrightarrow> length b \<le> MAX_MSG_BYTES - 2) \<longrightarrow>
       get_block ask k h = Inr (block_bytes (nd_chain n) h)) \<and>
    (encoding_laws P \<and> tx_wf P tx \<and> length (encode P tx) < MAX_MSG_BYTES \<longrightarrow>
       submit_tx ask k (encode P tx) = Inr (fst (node_submit_tx E tx n))) \<and>
    (length (unbonding L i) < 2 ^ 17 \<longrightarrow>
       get_stake ask k i = (if length (unbonding L i) \<le> MAX_UNBONDING_ENTRIES then Inr (staked L i, unbonding L i)
                            else Inl (InvalidData ''bad message'')))"
  unfolding assms
proof (intro conjI impI)
  let ?k = "(n, sync)" and ?L = "tip_ledger n" and ?P = "h_prims E"
  show "get_height (served E) ?k = Inr (bc_active_height (nd_chain n))" by (simp add: get_height_def rpc_served small_frames)
  show "get_nonce (served E) ?k i = Inr (ledger_nonce ?L i)" by (simp add: get_nonce_def rpc_served small_frames)
  show "get_public_balance (served E) ?k i token = Inr (public_balance ?L i token)"
    by (simp add: get_public_balance_def rpc_served small_frames)
  show "get_balance (served E) ?k i token = Inr (map_option (of_be \<circ> ct_to_bytes ?P) (ledger_balance ?L i token))"
    by (simp add: get_balance_def rpc_served small_frames only64_def split: option.split)
  show "get_pending (served E) ?k i token = Inr (map_option (of_be \<circ> ct_to_bytes ?P) (ledger_pending ?L i token))"
    by (simp add: get_pending_def rpc_served small_frames only64_def split: option.split)
  show "rpc_pool (served E) ?k token = Inr (map_option (\<lambda>p. (pool_lat p, pool_tok p, pool_lp_supply p)) (get_pool ?L token))"
    by (simp add: rpc_pool_def rpc_served small_frames)
  show "get_lp_shares (served E) ?k token i = Inr (lp_shares ?L token i)" by (simp add: get_lp_shares_def rpc_served small_frames)
  show "rpc_htlc_at (served E) ?k i = Inr (map_option view_lock (get_htlc ?L i))" by (simp add: rpc_htlc_at_def rpc_served small_frames)
  show "rpc_curve (served E) ?k token = Inr (map_option (\<lambda>c. (cp_vlat c, cp_vtok c, cp_real_lat c, cp_graduated c)) (get_curve ?L token))"
    by (simp add: rpc_curve_def rpc_served small_frames)
  show "get_contract_storage (served E) ?k i key = Inr (contract_storage ?L i key)" by (simp add: get_contract_storage_def rpc_served small_frames)
  show "rpc_has_contract (served E) ?k i = Inr (has_contract ?L i)" by (simp add: rpc_has_contract_def rpc_served small_frames)
  show "get_finalized (served E) ?k = Inr (bc_finalized (nd_chain n))" by (simp add: get_finalized_def rpc_served small_frames)
  show "handshake (served E) ?k genesis a = Inr (genesis = bc_genesis_id (nd_chain n))" if "addr_fits a"
    using that by (auto simp: handshake_def rpc_served small_frames on_handshake_def Let_def)
  show "get_block (served E) ?k h = Inr (block_bytes (nd_chain n) h)"
    if "\<forall>b. block_bytes (nd_chain n) h = Some b \<longrightarrow> length b \<le> MAX_MSG_BYTES - 2"
  proof -
    have "sendable (BlockIs (block_bytes (nd_chain n) h))"
      using that by (auto simp: sendable_def MAX_MSG_BYTES_def split: option.split)
    then show ?thesis by (simp add: get_block_def rpc_served small_frames)
  qed
  show "submit_tx (served E) ?k (encode ?P tx) = Inr (fst (node_submit_tx E tx n))"
    if "encoding_laws ?P \<and> tx_wf ?P tx \<and> length (encode ?P tx) < MAX_MSG_BYTES"
  proof -
    have d: "decode ?P (encode ?P tx) = Some tx" using that by (intro decode_encode) simp_all
    obtain ok n' where r: "node_submit_tx E tx n = (ok, n')" by (cases "node_submit_tx E tx n")
    have "rpc (served E) ?k (SubmitTx (encode ?P tx)) = Inr (Ack ok)"
      by (rule rpc_served) (use that in \<open>simp_all add: on_tx_def d r small_frames sendable_def MAX_MSG_BYTES_def\<close>)
    then show ?thesis by (simp add: submit_tx_def r)
  qed
  show "get_stake (served E) ?k i = (if length (unbonding ?L i) \<le> MAX_UNBONDING_ENTRIES then Inr (staked ?L i, unbonding ?L i)
      else Inl (InvalidData ''bad message''))" if l: "length (unbonding ?L i) < 2 ^ 17"
  proof (cases "length (unbonding ?L i) \<le> MAX_UNBONDING_ENTRIES")
    case True
    then show ?thesis by (simp add: get_stake_def rpc_served small_frames stake_sendable)
  next
    case False
    have h: "handle_msg E (GetStake i) ?k = (Inr (Some (StakeReply (staked ?L i) (unbonding ?L i))), [], ?k)" by simp
    have "rpc (served E) ?k (GetStake i) = Inl (InvalidData ''bad message'')"
      using False l served_reads [OF h] by (simp add: rpc_def small_frames long_stake_reply)
    then show ?thesis using False by (simp add: get_stake_def)
  qed
qed

lemma rpc_exact_witness:
  "\<forall>c :: u64 blockchain. let c1 = c\<lparr>bc_active_state := (demo_validators, 0, mem_new), bc_active_chain := []\<rparr>;
      k = (node_new c1 :: (u64, u64, unit) node_state, None) in
    get_stake (served flat_host) k 0 = Inr (200000000, []) \<and> get_block (served flat_host) k 0 = Inr None \<and>
    handshake (served flat_host) k (bc_genesis_id c) (ascii ''a:1'') = Inr True \<and>
    submit_tx (served flat_host) k (encode flat_prims stake_tx) = Inr True"
proof
  fix c :: "u64 blockchain"
  let ?c = "c\<lparr>bc_active_state := (demo_validators, 0, mem_new), bc_active_chain := []\<rparr>"
  let ?n = "node_new ?c :: (u64, u64, unit) node_state"
  have v: "staked (tip_ledger ?n) 0 = 200000000" "unbonding (tip_ledger ?n) 0 = []"
    by (simp_all add: node_new_def staked_def unbonding_def demo_validators_def put_validator_def get_validator_def)
  have b: "block_bytes (nd_chain ?n) 0 = None" "bc_genesis_id (nd_chain ?n) = bc_genesis_id c"
    by (simp_all add: node_new_def block_bytes_def vec_get_def)
  have a: "addr_fits (ascii ''a:1'')" by (simp add: addr_fits_def wire_limits ascii_def)
  have "mp_add flat_prims stake_tx mp_new = (True, \<lparr>mp_txs = [stake_tx], mp_seen = {|tx_hash flat_prims stake_tx|}\<rparr>)"
    by (simp add: mp_add_def mp_new_def replace_spend_def make_room_def Let_def MAX_MEMPOOL_TXS_def MAX_SEEN_def fcard_fempty)
  then have t: "fst (node_submit_tx flat_host stake_tx ?n)" by (simp add: node_submit_tx_def node_new_def)
  have e: "encoding_laws (h_prims flat_host) \<and> tx_wf (h_prims flat_host) stake_tx \<and> length (encode (h_prims flat_host) stake_tx) < MAX_MSG_BYTES"
    using flat_encoding by (simp add: MAX_MSG_BYTES_def)
  show "let c1 = ?c; k = (node_new c1 :: (u64, u64, unit) node_state, None) in
    get_stake (served flat_host) k 0 = Inr (200000000, []) \<and> get_block (served flat_host) k 0 = Inr None \<and>
    handshake (served flat_host) k (bc_genesis_id c) (ascii ''a:1'') = Inr True \<and>
    submit_tx (served flat_host) k (encode flat_prims stake_tx) = Inr True"
    unfolding Let_def
    using rpc_exact [where E = flat_host and n = ?n and sync = None and i = 0 and h = 0 and a = "ascii ''a:1''" and genesis = "bc_genesis_id c"
        and tx = stake_tx] v b a t e by simp
qed

section \<open>The state in chunks\<close>

definition record_bytes :: "(bytes \<times> bytes) list \<Rightarrow> nat" where
  "record_bytes c = sum_list (map (\<lambda>(k, v). length k + length v) c)"

definition chunk_ok :: "(bytes \<times> bytes) list \<Rightarrow> bool" where
  "chunk_ok c \<longleftrightarrow> c \<noteq> [] \<and> (record_bytes c \<le> STATE_CHUNK_BYTES \<or> length c = 1)"

lemma record_bytes_snoc [simp]: "record_bytes (c @ [(k, v)]) = record_bytes c + length k + length v" "record_bytes [] = 0"
  by (simp_all add: record_bytes_def)

lemma split_records_props:
  assumes "cs \<noteq> []" and "used = record_bytes (last cs)" and "\<forall>c\<in>set (butlast cs). chunk_ok c" and "last cs = [] \<or> chunk_ok (last cs)"
  shows "concat (split_records used cs records) = concat cs @ records \<and>
    (records \<noteq> [] \<or> last cs \<noteq> [] \<longrightarrow> (\<forall>c\<in>set (split_records used cs records). chunk_ok c))"
  using assms
proof (induction records arbitrary: used cs)
  case Nil
  then have "set cs = insert (last cs) (set (butlast cs))"
    by (metis append_butlast_last_id list.simps(15) rotate1.simps(2) set_rotate1)
  then show ?case using Nil by auto
next
  case (Cons e records)
  obtain key "value" where e: "e = (key, value)" by (cases e)
  let ?cost = "length key + length value"
  have cs: "cs = butlast cs @ [last cs]" using Cons.prems(1) by simp
  show ?case
  proof (cases "used + ?cost > STATE_CHUNK_BYTES \<and> last cs \<noteq> []")
    case True
    let ?cs = "cs @ [[(key, value)]]"
    have "set cs = insert (last cs) (set (butlast cs))"
      by (subst cs) simp
    then have "\<forall>c\<in>set (butlast ?cs). chunk_ok c" using Cons.prems(3,4) True by auto
    then show ?thesis using True Cons.IH [of ?cs "record_bytes [(key, value)]"]
      by (simp add: e Let_def chunk_ok_def record_bytes_def)
  next
    case False
    let ?cs = "butlast cs @ [last cs @ [(key, value)]]"
    have "chunk_ok (last cs @ [(key, value)])"
      using False Cons.prems(2) by (cases "last cs = []") (auto simp: chunk_ok_def)
    moreover have "concat ?cs = concat cs @ [(key, value)]" by (subst (2) cs) simp
    moreover have "record_bytes (last ?cs) = used + ?cost" using Cons.prems(2) by simp
    moreover have "split_records used cs (e # records) = split_records (used + ?cost) ?cs records"
      using False by (auto simp: e Let_def)
    ultimately show ?thesis using Cons.IH [of ?cs "used + ?cost"] Cons.prems(3) by (simp add: e)
  qed
qed

lemma split_concat: "concat (split_records 0 [[]] records) = records"
  using split_records_props [of "[[]]" 0 records] by simp

lemma split_chunks_ok: "records \<noteq> [] \<Longrightarrow> c \<in> set (split_records 0 [[]] records) \<Longrightarrow> chunk_ok c"
  using split_records_props [of "[[]]" 0 records] by simp

lemma split_length: "records \<noteq> [] \<Longrightarrow> length (split_records 0 [[]] records) \<le> length records"
proof -
  assume r: "records \<noteq> []"
  have "length cs \<le> length (concat cs)" if "\<forall>c\<in>set cs. c \<noteq> []" for cs :: "'a list list"
    using that
  proof (induction cs)
    case (Cons c cs)
    then show ?case by (cases c) auto
  qed simp
  from this [of "split_records 0 [[]] records"] split_chunks_ok [OF r]
  show ?thesis by (simp add: split_concat chunk_ok_def)
qed

text \<open>Every record of a ledger has at least five bytes, so a chunk with its length fields fits a frame.\<close>

lemma record_min:
  assumes "e \<in> set (object_records P L)"
  shows "5 \<le> length (fst e) + length (snd e)"
  using assms by (auto simp: record_entries_def rec_key_def lp_key_def split: option.splits)

lemma put_records_length:
  "length (put_records c) = 4 + 8 * length c + record_bytes c"
proof -
  have "length (concat (map (enc_pair enc_bytes enc_bytes) c)) = 8 * length c + record_bytes c"
    by (induction c) (auto simp: enc_pair_def enc_bytes_def record_bytes_def)
  then show ?thesis by (simp add: put_records_def enc_list_def)
qed

lemma chunk_sendable:
  assumes "chunk_ok c" and "\<forall>e\<in>set c. 5 \<le> length (fst e) + length (snd e) \<and> length (fst e) + length (snd e) \<le> MAX_MSG_BYTES - 13"
  shows "sendable (StateChunk c)"
proof -
  have "5 * length c \<le> record_bytes c" using assms(2) by (induction c) (auto simp: record_bytes_def)
  then have "8 * length c + record_bytes c + 5 \<le> MAX_MSG_BYTES"
  proof (cases "length c = 1")
    case True
    then obtain e where "c = [e]" by (auto simp: length_Suc_conv)
    then show ?thesis using assms(2) by (simp add: record_bytes_def split_beta MAX_MSG_BYTES_def)
  qed (use assms(1) in \<open>simp add: chunk_ok_def MAX_MSG_BYTES_def STATE_CHUNK_BYTES_def\<close>)
  moreover from this have "length c < 2 ^ 32" by (simp add: MAX_MSG_BYTES_def)
  moreover have "list_all (\<lambda>r. length (fst r) < 2 ^ 32 \<and> length (snd r) < 2 ^ 32) c"
    using assms(2) by (fastforce simp: list_all_iff MAX_MSG_BYTES_def)
  ultimately show ?thesis by (simp add: sendable_def put_records_length)
qed

text \<open>Between the requests of a connection the node may change in any way; what has been captured does not.\<close>

definition drifting :: "(nat \<Rightarrow> 'n \<Rightarrow> 'n) \<Rightarrow> ('n \<times> 'c) link \<Rightarrow> (nat \<times> 'n \<times> 'c) link" where
  "drifting f ask st m = (case st of (t, n, sync) \<Rightarrow> (case ask (f t n, sync) m of (r, st1) \<Rightarrow> (r, Suc t, st1)))"

text \<open>What the download relies on: a connection that keeps serving one list of chunks.\<close>

locale chunk_link =
  fixes ask :: "'k link" and cs :: state_chunks and good :: "'k \<Rightarrow> bool"
  assumes few: "good st \<Longrightarrow> length cs < 2 ^ 32"
    and full: "good st \<Longrightarrow> c \<in> set cs \<Longrightarrow> c \<noteq> []"
    and serves: "good st \<Longrightarrow> k < length cs \<Longrightarrow>
      fst (ask st (GetStateChunk (of_nat k))) = Inr (StateChunk (cs ! k)) \<and> good (snd (ask st (GetStateChunk (of_nat k))))"
begin

lemma pull_from:
  "good st \<Longrightarrow> left + k = length cs \<Longrightarrow>
     \<exists>st'. good st' \<and> pull_chunks ask left (of_nat k) st rs = (Inr (Some (rs @ concat (drop k cs))), st')"
proof (induction left arbitrary: k st rs)
  case (Suc left)
  then have k: "k < length cs" "left + Suc k = length cs" by simp_all
  obtain st1 where r: "ask st (GetStateChunk (of_nat k)) = (Inr (StateChunk (cs ! k)), st1)" and g: "good st1"
    using serves [OF Suc.prems(1) k(1)] by (cases "ask st (GetStateChunk (of_nat k))") auto
  have d: "drop k cs = cs ! k # drop (Suc k) cs" using k(1) by (simp add: Cons_nth_drop_Suc)
  have w: "of_nat k + 1 = (of_nat (Suc k) :: u32)" by simp
  obtain st' where s: "good st'" "pull_chunks ask left (of_nat (Suc k)) st1 (rs @ cs ! k) =
      (Inr (Some ((rs @ cs ! k) @ concat (drop (Suc k) cs))), st')"
    using Suc.IH [OF g k(2)] by blast
  have "cs ! k \<noteq> []" using full [OF Suc.prems(1)] k(1) by simp
  then have "pull_chunks ask (Suc left) (of_nat k) st rs = pull_chunks ask left (of_nat (Suc k)) st1 (rs @ cs ! k)"
    unfolding pull_chunks.simps r w by simp
  then show ?case using s d by simp
qed auto

lemma pull_all:
  assumes "good st"
  shows "\<exists>st'. good st' \<and> pull_chunks ask (length cs) 0 st [] = (Inr (Some (concat cs)), st')"
  using pull_from [OF assms, of "length cs" 0 "[]"] by simp

end

definition chunks_ready :: "state_chunks \<Rightarrow> state_chunks option \<Rightarrow> bool" where
  "chunks_ready cs sync \<longleftrightarrow> sync = Some cs \<and> length cs < 2 ^ 32 \<and> (\<forall>c\<in>set cs. c \<noteq> [] \<and> sendable (StateChunk c))"

lemma served_chunk:
  assumes "chunks_ready cs sync" and "k < length cs"
  shows "served E (n, sync) (GetStateChunk (of_nat k)) = (Inr (StateChunk (cs ! k)), n, sync)"
proof -
  have "handle_msg E (GetStateChunk (of_nat k)) (n, sync) = (Inr (Some (StateChunk (cs ! k))), [], n, sync)"
    using assms by (simp add: chunks_ready_def on_chunk_def vec_get_def unat_of_nat)
  then show ?thesis
    by (rule served_reply) (use assms in \<open>auto simp: chunks_ready_def sendable_def MAX_MSG_BYTES_def\<close>)
qed

text \<open>A connection of a node serves them, at rest and while the node changes.\<close>

interpretation still: chunk_link "served E" cs "\<lambda>st. st = (n, Some cs) \<and> chunks_ready cs (Some cs)" for E n cs
  by unfold_locales (simp add: chunks_ready_def, simp add: chunks_ready_def, clarsimp simp: served_chunk [of cs])

interpretation drift: chunk_link "drifting f (served E)" cs "\<lambda>st. chunks_ready cs (snd (snd st))" for f E cs
  by unfold_locales (simp add: chunks_ready_def, simp add: chunks_ready_def, clarsimp simp: drifting_def served_chunk [of cs])

section \<open>The blocks of the active chain\<close>

definition chain_blocks :: "'g blockchain \<Rightarrow> bytes list" where
  "chain_blocks c = List.map_filter (\<lambda>h. block_bytes c (of_nat h)) [1..<Suc (unat (bc_active_height c))]"

lemma active_block:
  assumes "chain_spine c" and "h \<le> unat (bc_active_height c)"
  obtains b where "block_bytes c (of_nat h) = Some b"
proof -
  let ?T = "bc_tree c"
  have ok: "tree_ok ?T (bc_genesis_id c)" and tip: "known ?T (bc_active_tip c)" and ch: "bc_active_chain c = branch_to ?T (bc_active_tip c)"
    and h: "unat (bc_active_height c) = height_of ?T (bc_active_tip c)" using assms(1) by (simp_all add: spine_def)
  have u: "unat (of_nat h :: u64) = h"
    using le_less_trans [OF assms(2) unat_lt2p] by (simp add: unat_of_nat)
  have "length (branch_to ?T (bc_active_tip c)) = Suc (height_of ?T (bc_active_tip c))" using branch_to_props [OF ok tip] by simp
  then have "h < length (bc_active_chain c)" using assms(2) h ch by simp
  moreover have "known ?T (bc_active_chain c ! h)"
    unfolding ch using branch_to_props [OF ok tip] assms(2) h by (elim conjE allE [of _ h]) simp
  then obtain n where "fmlookup ?T (bc_active_chain c ! h) = Some n" by (rule knownE)
  ultimately show thesis using that by (simp add: block_bytes_def vec_get_def u)
qed

lemma served_block:
  assumes "block_bytes (nd_chain m) h = Some b" and "length b \<le> MAX_MSG_BYTES - 2"
  shows "served E (m, sync) (GetBlock h) = (Inr (BlockIs (Some b)), m, sync)"
proof -
  have "handle_msg E (GetBlock h) (m, sync) = (Inr (Some (BlockIs (Some b))), [], m, sync)" using assms(1) by simp
  then show ?thesis by (rule served_reply) (use assms(2) in \<open>simp_all add: sendable_def MAX_MSG_BYTES_def\<close>)
qed

lemma pull_chain_all:
  assumes "chain_spine (nd_chain m)" and "\<forall>h b. block_bytes (nd_chain m) h = Some b \<longrightarrow> length b \<le> MAX_MSG_BYTES - 2"
    and "left + k = Suc (unat (bc_active_height (nd_chain m)))"
  shows "pull_chain (served E) left (of_nat k) (m, sync) bs =
    (Inr (Some (bs @ List.map_filter (\<lambda>h. block_bytes (nd_chain m) (of_nat h)) [k..<left + k])), m, sync)"
  using assms(3)
proof (induction left arbitrary: k bs)
  case 0
  then show ?case by (simp add: List.map_filter_def)
next
  case (Suc left)
  then have "k \<le> unat (bc_active_height (nd_chain m))" by simp
  then obtain b where b: "block_bytes (nd_chain m) (of_nat k) = Some b" by (rule active_block [OF assms(1)])
  then have "served E (m, sync) (GetBlock (of_nat k)) = (Inr (BlockIs (Some b)), m, sync)"
    using assms(2) by (intro served_block) blast+
  moreover have "[k..<Suc left + k] = k # [Suc k..<left + Suc k]" by (simp add: upt_rec)
  moreover have "of_nat k + 1 = (of_nat (Suc k) :: u64)" by simp
  ultimately show ?case using Suc.IH [of "Suc k" "bs @ [b]"] Suc.prems b
    by (simp add: List.map_filter_simps del: of_nat_Suc)
qed

text \<open>
  C40: a captured state arrives whole. The chunks a node cuts its state into, one frame each, give the very records
  of the snapshot to the client that asks for them one by one, whatever happens to the node between two requests. And
  a fresh node that synchronises with a peer that stays as it is hands exactly the peer's state, anchored at its tip, and its
  active chain to the verification of \<open>fast_sync_adopt\<close>. No record may exceed a frame on its own, and no block.
\<close>

theorem state_transfer_exact:
  fixes m n :: "('g::ab_group_add, 's::comm_ring_1, 'r) node_state"
  assumes "chain_spine (nd_chain m)" and "state_sync_payload (h_prims E) (nd_chain m) = Some (h, i, records)"
    and "length records < 2 ^ 32" and "\<forall>(k, v)\<in>set records. length k + length v \<le> MAX_MSG_BYTES - 13"
  shows "(\<exists>count st. served E (m, sync) GetStateManifest = (Inr (StateManifest h i (of_nat (length records)) count), m, st) \<and>
      (records \<noteq> [] \<longrightarrow> fst (pull_chunks (drifting f (served E)) (unat count) 0 (0, m, st) []) = Inr (Some records))) \<and>
    (bc_active_height (nd_chain n) = 0 \<and> \<not> capacity_overflows h \<and>
     (\<forall>h b. block_bytes (nd_chain m) h = Some b \<longrightarrow> length b \<le> MAX_MSG_BYTES - 2) \<longrightarrow>
       fast_sync_shared E (served E) (m, sync) n =
         (case fast_sync_adopt E (chain_blocks (nd_chain m)) h i records (nd_chain n) of
            (Inl e, c) \<Rightarrow> (Inl (Fault e), n\<lparr>nd_chain := c\<rparr>) | (Inr ok, c) \<Rightarrow> (Inr ok, n\<lparr>nd_chain := c\<rparr>)))"
proof -
  let ?cs = "split_records 0 [[]] records" and ?c = "nd_chain m"
  have payload: "h = bc_active_height ?c" "bc_active_height ?c \<noteq> 0" "records = object_records (h_prims E) (fst (bc_active_state ?c))"
    using assms(2) by (auto simp: state_sync_payload_def split: if_splits)
  have manifest: "served E (m, sync) GetStateManifest = (Inr (StateManifest h i (of_nat (length records)) (of_nat (length ?cs))), m, Some ?cs)"
    by (rule served_reply [of E _ _ _ "[]"]) (simp_all add: on_manifest_def assms(2) Let_def sendable_def MAX_MSG_BYTES_def)
  have fits: "length ?cs < 2 ^ 32"
    using split_length [of records] assms(3) by (cases "records = []") simp_all
  have "sendable (StateChunk c)" "c \<noteq> []" if "c \<in> set ?cs" "records \<noteq> []" for c
  proof -
    have ok: "chunk_ok c" by (rule split_chunks_ok [OF that(2,1)])
    then show "c \<noteq> []" by (simp add: chunk_ok_def)
    have "set c \<subseteq> set records" using that(1) split_concat [of records] by (metis UN_upper set_concat)
    with ok show "sendable (StateChunk c)"
      using assms(4) record_min [of _ "h_prims E" "fst (bc_active_state ?c)"]
      by (intro chunk_sendable) (fastforce simp: payload(3) simp del: set_object_records)+
  qed
  then have ready: "chunks_ready ?cs (Some ?cs)" if "records \<noteq> []" using fits that by (simp add: chunks_ready_def)
  have count: "unat (of_nat (length ?cs) :: u32) = length ?cs" using fits by (simp add: unat_of_nat)
  have "?cs \<noteq> []" using split_concat [of records] by (cases "records = []") auto
  then have some: "of_nat (length ?cs) \<noteq> (0 :: u32)" using count by (metis length_0_conv unat_0)
  show ?thesis
  proof (intro conjI exI impI)
    show "served E (m, sync) GetStateManifest = (Inr (StateManifest h i (of_nat (length records)) (of_nat (length ?cs))), m, Some ?cs)"
      by (rule manifest)
    show "fst (pull_chunks (drifting f (served E)) (unat (of_nat (length ?cs) :: u32)) 0 (0, m, Some ?cs) []) = Inr (Some records)"
      if "records \<noteq> []" using drift.pull_all [of ?cs "(0, m, Some ?cs)" f E] ready [OF that] by (auto simp: count split_concat)
  next
    assume a: "bc_active_height (nd_chain n) = 0 \<and> \<not> capacity_overflows h \<and>
      (\<forall>h b. block_bytes (nd_chain m) h = Some b \<longrightarrow> length b \<le> MAX_MSG_BYTES - 2)"
    show "fast_sync_shared E (served E) (m, sync) n = (case fast_sync_adopt E (chain_blocks (nd_chain m)) h i records (nd_chain n) of
            (Inl e, c) \<Rightarrow> (Inl (Fault e), n\<lparr>nd_chain := c\<rparr>) | (Inr ok, c) \<Rightarrow> (Inr ok, n\<lparr>nd_chain := c\<rparr>))"
    proof (cases "records = []")
      case True
      have "served E (m, Some [[]]) (GetStateChunk 0) = (Inr (StateChunk []), m, Some [[]])"
        by (rule served_reply [of E _ _ _ "[]"]) (simp_all add: on_chunk_def vec_get_def sendable_def put_records_length MAX_MSG_BYTES_def)
      then show ?thesis using a manifest by (simp add: True fast_sync_shared_def fast_sync_adopt_def)
    next
      case False
      have pulled: "pull_chunks (served E) (length ?cs) 0 (m, Some ?cs) [] = (Inr (Some records), m, Some ?cs)"
        using still.pull_all [of "(m, Some ?cs)" m ?cs E] ready [OF False] by (auto simp: split_concat)
      have tip: "served E (m, Some ?cs) GetTip = (Inr (TipIs h), m, Some ?cs)"
        by (rule served_reply [of E _ _ _ "[]"]) (simp_all add: payload(1) sendable_def MAX_MSG_BYTES_def)
      have blocks: "pull_chain (served E) (unat h) 1 (m, Some ?cs) [] = (Inr (Some (chain_blocks ?c)), m, Some ?cs)"
        using pull_chain_all [OF assms(1), of "unat h" 1 E "Some ?cs" "[]"] a by (simp add: payload(1) chain_blocks_def)
      show ?thesis using a some
        by (simp add: fast_sync_shared_def manifest count pulled tip blocks)
    qed
  qed
qed

text \<open>The node is replaced by a fresh one after every request.\<close>

theorem state_transfer_exact_witness:
  "let records = object_records flat_prims (demo_validators\<lparr>l_dirty := {||}\<rparr>) in
   \<exists>(m :: (u64, u64, unit) node_state) fresh count st. records \<noteq> [] \<and>
     served flat_host (m, None) GetStateManifest = (Inr (StateManifest 1 2 (of_nat (length records)) count), m, st) \<and>
     fst (pull_chunks (drifting (\<lambda>_ _. node_new fresh) (served flat_host)) (unat count) 0 (0, m, st) []) = Inr (Some records)"
proof (rule flat_run)
  fix c c' :: "u64 blockchain"
  assume c: "chain_run flat_host c'" "bc_active_chain c' = [1, 2]"
  let ?L = "demo_validators\<lparr>l_dirty := {||}\<rparr>" and ?rs = "object_records flat_prims (demo_validators\<lparr>l_dirty := {||}\<rparr>)"
  let ?m = "node_new (c'\<lparr>bc_active_state := (?L, 0, mem_new)\<rparr>) :: (u64, u64, unit) node_state"
  note spine = chain_run_spine [OF c(1)]
  have ok: "tree_ok (bc_tree c') (bc_genesis_id c')" and tip: "known (bc_tree c') (bc_active_tip c')"
    and ch: "bc_active_chain c' = branch_to (bc_tree c') (bc_active_tip c')" and h: "unat (bc_active_height c') = height_of (bc_tree c') (bc_active_tip c')"
    using spine by (simp_all add: spine_def)
  have "length (bc_active_chain c') = Suc (unat (bc_active_height c'))" "last (bc_active_chain c') = bc_active_tip c'"
    using branch_to_props [OF ok tip] by (simp_all add: ch h)
  then have one: "bc_active_height c' = 1" "bc_active_tip c' = 2"
    using c(2) by (simp_all add: word_unat_eq_iff)
  have fields: "l_accounts ?L = fmupd 0 account_default fmempty" "l_validators ?L = fmupd 0 \<lparr>val_staked = 200000000, val_unbonding = [], val_tombstoned = False\<rparr> fmempty"
    "l_tokens ?L = fmempty" "l_tickers ?L = fmempty" "l_meta ?L = None" "l_next_token_id ?L = 1" "l_contracts ?L = fmempty"
    "l_nullifiers ?L = {||}" "l_pools ?L = fmempty" "l_lps ?L = fmempty" "l_htlcs ?L = fmempty" "l_curves ?L = fmempty"
    by (simp_all add: demo_validators_def put_validator_def put_account_def ledger_new_def)
  have entries: "record_entries flat_prims ?L = [(rec_key REC_ACCOUNT (arr 0), encode_account flat_prims account_default),
      (rec_key REC_VALIDATOR (arr 0), encode_validator \<lparr>val_staked = 200000000, val_unbonding = [], val_tombstoned = False\<rparr>)]"
    by (simp add: record_entries_def fields fm_entries_def sorted_list_of_fset.rep_eq)
  have "\<forall>(k, v)\<in>set ?rs. length k + length v \<le> MAX_MSG_BYTES - 13"
    by (simp add: entries rec_key_def encode_account_def encode_validator_def account_default_def MAX_MSG_BYTES_def
      encode_ct_map_def encode_u64_map_def enc_list_def enc_fmap_def fm_entries_def sorted_list_of_fset.rep_eq)
  moreover have "length ?rs < 2 ^ 32" by (simp add: object_records_def entries)
  moreover have "state_sync_payload (h_prims flat_host) (nd_chain ?m) = Some (1, 2, ?rs)"
    by (simp add: state_sync_payload_def node_new_def one)
  moreover have "chain_spine (nd_chain ?m)" using spine by (simp add: node_new_def)
  ultimately show ?thesis
    using state_transfer_exact [where E = flat_host and m = ?m and h = 1 and i = 2 and records = ?rs and sync = None
        and f = "\<lambda>_ _. node_new c", THEN conjunct1] demo_restart(4)
    unfolding Let_def by blast
qed

end
