(* ===== verification/Sync_Facts.thy ===== *)
theory Sync_Facts
  imports Node_Runs Serving
begin

text \<open>
  What a synchronisation does to a node, whoever the peer is: the block locator ends, every step is one the chain
  can make, and the count of adopted blocks is right.
\<close>

section \<open>The locator\<close>

text \<open>Below \<open>2 ^ 62\<close> blocks the distances do not wrap: a step is never longer than the way gone, but for the first.\<close>

lemma locator_loop_returns:
  assumes "unat tip < 2 ^ 62" and "unat far \<le> 2 * unat tip + 1" and "1 \<le> unat step" and "unat step \<le> unat far + 1"
  shows "\<exists>ids'. locator_loop chain tip far step ids = Some (ids @ ids')"
  using assms
proof (induction "unat tip - unat far" arbitrary: far step ids rule: less_induct)
  case less
  let ?h = "saturating_sub tip far"
  let ?ids = "case vec_get chain (unat ?h) of Some i \<Rightarrow> ids @ [i] | None \<Rightarrow> ids"
  let ?step = "if length ?ids \<ge> 8 then step * 2 else step"
  obtain more where more: "?ids = ids @ more" by (cases "vec_get chain (unat ?h)") auto
  show ?case
  proof (cases "?h = 0")
    case True
    then show ?thesis using more by (subst locator_loop.simps) simp
  next
    case False
    then have "far \<noteq> tip" "unat far \<le> unat tip" by (auto simp: saturating_sub_def word_le_nat_alt split: if_splits)
    then have lt: "unat far < unat tip" by (simp add: order.strict_iff_order word_unat_eq_iff)
    have b: "unat (far + step) = unat far + unat step" using less.prems lt by (intro unat_add_lem [THEN iffD1]) simp
    have s: "unat (step * 2) = unat step * 2" using less.prems lt by (subst unat_mult_lem [THEN iffD1]) simp_all
    have "\<exists>ids'. locator_loop chain tip (far + step) ?step ?ids = Some (?ids @ ids')"
      by (rule less.hyps) (use less.prems lt b s in auto)
    then show ?thesis using False more by (subst locator_loop.simps) (auto simp: Let_def)
  qed
qed

lemma locator_returns:
  assumes "unat (bc_active_height c) < 2 ^ 62"
  obtains ids where "locator c = Some ids"
  using locator_loop_returns [OF assms, of 0 1 "bc_active_chain c" "[]"] by (auto simp: locator_def)

section \<open>Pulling blocks\<close>

lemma apply_block_tree:
  assumes "apply_block E b c = (r, c')"
  shows "fmdom (bc_tree c) |\<subseteq>| fmdom (bc_tree c')"
    and "r = None \<Longrightarrow> fmdom (bc_tree c') = finsert (header_id (h_prims E) (blk_header b)) (fmdom (bc_tree c))"
proof -
  have pruned: "maybe_prune E (note_validator_set d) = (r, c') \<Longrightarrow> bc_tree c' = bc_tree d" for r c' d
    using maybe_prune_frame(1) [of E "note_validator_set d" r c'] by simp
  show "fmdom (bc_tree c) |\<subseteq>| fmdom (bc_tree c')" using assms
    by (auto simp: apply_block_def extend_tip_def switch_branch_def Let_def dest!: pruned split: if_splits sum.splits option.splits)
  show "fmdom (bc_tree c') = finsert (header_id (h_prims E) (blk_header b)) (fmdom (bc_tree c))" if "r = None"
    using assms that
    by (auto simp: apply_block_def extend_tip_def switch_branch_def Let_def dest!: pruned split: if_splits sum.splits option.splits)
qed

text \<open>One block read from a peer.\<close>

definition tree_size :: "'g blockchain \<Rightarrow> nat" where
  "tree_size c = fcard (fmdom (bc_tree c))"

lemma accept_block_tree:
  assumes "accept_block_bytes E d n = (r, n')"
  shows "tree_size (nd_chain n) \<le> tree_size (nd_chain n')"
    and "r = Inr True \<Longrightarrow> tree_size (nd_chain n') = tree_size (nd_chain n) +
      (if (case block_decode (h_prims E) d of Some b \<Rightarrow> has_block (nd_chain n) (header_id (h_prims E) (blk_header b)) | None \<Rightarrow> False) then 0 else 1)"
proof -
  have "tree_size (nd_chain n) \<le> tree_size (nd_chain n') \<and> (r = Inr True \<longrightarrow> tree_size (nd_chain n') = tree_size (nd_chain n) +
      (if (case block_decode (h_prims E) d of Some b \<Rightarrow> has_block (nd_chain n) (header_id (h_prims E) (blk_header b)) | None \<Rightarrow> False) then 0 else 1))"
  proof (cases "block_decode (h_prims E) d")
    case (Some b)
    obtain f c where a: "apply_block E b (nd_chain n) = (f, c)" by (cases "apply_block E b (nd_chain n)")
    have c: "nd_chain n' = c" "r = Inr True \<Longrightarrow> f = None"
      using assms a Some by (auto simp: accept_block_bytes_def or_else_def split: option.splits fault.splits)
    note t = apply_block_tree [OF a]
    have "tree_size (nd_chain n) \<le> tree_size c" unfolding tree_size_def using t(1) by (rule fcard_mono)
    moreover have "tree_size c = tree_size (nd_chain n) + (if has_block (nd_chain n) (header_id (h_prims E) (blk_header b)) then 0 else 1)"
      if "f = None" using t(2) [OF that] by (auto simp: tree_size_def has_block_def finsert_absorb fcard_finsert_disjoint)
    ultimately show ?thesis using c Some by auto
  qed (use assms in \<open>auto simp: accept_block_bytes_def\<close>)
  then show "tree_size (nd_chain n) \<le> tree_size (nd_chain n')"
    and "r = Inr True \<Longrightarrow> tree_size (nd_chain n') = tree_size (nd_chain n) +
      (if (case block_decode (h_prims E) d of Some b \<Rightarrow> has_block (nd_chain n) (header_id (h_prims E) (blk_header b)) | None \<Rightarrow> False) then 0 else 1)"
    by blast+
qed

lemma pull_blocks_cases:
  assumes "pull_blocks E ask (Suc left) h k adopted n = (r, n')"
  obtains (stop) "n' = n" and "r = Inr adopted \<or> (\<exists>e. r = Inl (Io e))"
  | (fault) d f where "accept_block_bytes E d n = (Inl f, n')" and "r = Inl (Fault f)"
  | (refused) d where "accept_block_bytes E d n = (Inr False, n')" and "r = Inr adopted"
  | (taken) d k1 n1 where "accept_block_bytes E d n = (Inr True, n1)"
      and "pull_blocks E ask left (h + 1) k1 (adopted + (tree_size (nd_chain n1) - tree_size (nd_chain n))) n1 = (r, n')"
proof -
  obtain x k1 where a: "ask k (GetBlock h) = (x, k1)" by (cases "ask k (GetBlock h)")
  show thesis
  proof (cases "\<exists>d. x = Inr (BlockIs (Some d))")
    case True
    then obtain d where d: "x = Inr (BlockIs (Some d))" by blast
    obtain y n1 where y: "accept_block_bytes E d n = (y, n1)" by (cases "accept_block_bytes E d n")
    show thesis
    proof (cases "y = Inr True")
      case True
      then show thesis using taken [of d n1 k1] assms a d y accept_block_tree(2) [OF y] by (simp add: Let_def split: if_splits)
    next
      case False
      then show thesis using fault [of d] refused [of d] assms a d y
        by (cases y) (auto simp: Let_def split: bool.splits)
    qed
  next
    case False
    then show thesis using stop assms a by (auto split: sum.splits msg.splits option.splits)
  qed
qed

lemma accept_block_final:
  assumes "node_ok E n" and "small (nd_chain n)" and "accept_block_bytes E d n = (r, n')"
  shows "bc_finalized (nd_chain n') = bc_finalized (nd_chain n)"
proof (cases "block_decode (h_prims E) d")
  case (Some b)
  obtain f c where a: "apply_block E b (nd_chain n) = (f, c)" by (cases "apply_block E b (nd_chain n)")
  have "bc_finalized c = bc_finalized (nd_chain n)"
    using apply_block_spine(3) [OF chain_run_spine [of E] assms(2) a] assms(1) by (simp add: node_ok_def)
  then show ?thesis using assms(3) a Some by (auto simp: accept_block_bytes_def split: option.splits)
qed (use assms(3) in \<open>simp add: accept_block_bytes_def\<close>)

lemma refused_same:
  assumes "node_ok E n" and "small (nd_chain n)" and "accept_block_bytes E d n = (Inr False, n')"
  shows "n' = n"
proof (cases "block_decode (h_prims E) d")
  case (Some b)
  obtain f c where a: "apply_block E b (nd_chain n) = (f, c)" by (cases "apply_block E b (nd_chain n)")
  then have "f \<noteq> None" "n' = n\<lparr>nd_chain := c\<rparr>"
    using assms(3) Some by (auto simp: accept_block_bytes_def or_else_def split: option.splits fault.splits)
  moreover have "fst (apply_block E b (nd_chain n)) \<noteq> None \<longrightarrow> snd (apply_block E b (nd_chain n)) = nd_chain n"
    using apply_block_atomic [of E "nd_chain n" b] assms(1,2) by (simp add: node_ok_def)
  ultimately show ?thesis using a by simp
qed (use assms(3) in \<open>simp add: accept_block_bytes_def\<close>)

lemma pull_blocks_grows: "pull_blocks E ask left h k adopted n = (r, n') \<Longrightarrow> tree_size (nd_chain n) \<le> tree_size (nd_chain n')"
proof (induction left arbitrary: h k adopted n)
  case (Suc left)
  from Suc.prems show ?case
    by (cases rule: pull_blocks_cases) (auto dest!: Suc.IH accept_block_tree(1))
qed simp

lemma pull_blocks_safe:
  assumes E: "encoding_laws (h_prims E)" and "pull_blocks E ask left h k adopted n = (r, n')"
    and "node_ok E n" and "small (nd_chain n')" and "r \<noteq> Inl (Fault Crash)"
  shows "(node_step E)\<^sup>*\<^sup>* n n' \<and> (\<forall>f. r \<noteq> Inl (Fault f)) \<and> peers n' = peers n \<and> bc_finalized (nd_chain n') = bc_finalized (nd_chain n) \<and>
    (\<forall>a. r = Inr a \<longrightarrow> a + tree_size (nd_chain n) = adopted + tree_size (nd_chain n'))"
  using assms(2-)
proof (induction left arbitrary: h k adopted n)
  case (Suc left)
  have sm: "small (nd_chain n)"
    using pull_blocks_grows [OF Suc.prems(1)] Suc.prems(3) by (simp add: small_def tree_size_def)
  from Suc.prems(1) show ?case
  proof (cases rule: pull_blocks_cases)
    case (fault d f)
    then show ?thesis using accept_block_kept(4) [OF E Suc.prems(2) sm fault(1)] Suc.prems(4) by auto
  next
    case (refused d)
    then show ?thesis using refused_same [OF Suc.prems(2) sm] by auto
  next
    case (taken d k1 n1)
    note kept = accept_block_kept [OF E Suc.prems(2) sm taken(1)]
    have "node_step E n n1" by (rule step_pull [OF sm taken(1)]) simp
    moreover have "tree_size (nd_chain n) \<le> tree_size (nd_chain n1)" by (rule accept_block_tree(1) [OF taken(1)])
    ultimately show ?thesis
      using Suc.IH [OF taken(2) _ Suc.prems(3,4)] kept accept_block_final [OF Suc.prems(2) sm taken(1)] by (auto intro: converse_rtranclp_into_rtranclp)
  qed auto
qed force

text \<open>
  C39: a synchronisation is safe with any peer. Whatever the other end answers, in whatever order, when nothing panics: below
  \<open>2 ^ 62\<close> blocks the locator is found; the node only makes steps it could make anyway, so it keeps its invariant; its
  finalized block and its peers stay; and the count it returns is the number of blocks its tree has gained.
\<close>

theorem sync_safe:
  assumes "encoding_laws (h_prims E)" and "node_ok E n" and "unat (bc_active_height (nd_chain n)) < 2 ^ 62"
    and "sync_shared E ask k n = (r, n')" and "small (nd_chain n')" and "r \<noteq> Inl (Fault Crash)"
  shows "(node_step E)\<^sup>*\<^sup>* n n' \<and> node_ok E n' \<and> (\<forall>f. r \<noteq> Inl (Fault f)) \<and> peers n' = peers n \<and>
    bc_finalized (nd_chain n') = bc_finalized (nd_chain n) \<and> (\<forall>a. r = Inr a \<longrightarrow> tree_size (nd_chain n') = tree_size (nd_chain n) + a)"
proof -
  obtain ids where ids: "locator (nd_chain n) = Some ids" by (rule locator_returns [OF assms(3)])
  have "n' = n \<and> (\<exists>e. r = Inl (Io e)) \<or> (\<exists>left h k1. pull_blocks E ask left h k1 0 n = (r, n'))"
    using assms(4) by (auto simp: sync_shared_def ids split: prod.splits sum.splits msg.splits)
  then show ?thesis
  proof
    assume "\<exists>left h k1. pull_blocks E ask left h k1 0 n = (r, n')"
    then obtain left h k1 where p: "pull_blocks E ask left h k1 0 n = (r, n')" by blast
    note s = pull_blocks_safe [OF assms(1) p assms(2,5,6)]
    then show ?thesis using node_steps_kept [OF assms(1) _ assms(2)] by auto
  qed (use assms(2) in auto)
qed

text \<open>A peer serves the block of a validator to a fresh node.\<close>

definition one_block :: "bytes \<Rightarrow> unit link" where
  "one_block d k m = (Inr (case m of GetTip \<Rightarrow> TipIs 1 | FindCommon ids \<Rightarrow> CommonHeight 0 | _ \<Rightarrow> BlockIs (Some d)), k)"

theorem sync_safe_witness:
  "\<exists>(c :: u64 blockchain) n'. sync_shared flat_host (one_block (block_encode flat_prims stake_block)) () (with_miner c 7) = (Inr 1, n') \<and>
     node_ok flat_host n' \<and> tree_size (nd_chain n') = tree_size c + 1"
proof (rule flat_genesis)
  fix c
  assume g: "genesis_with_public flat_host [] flat_premine 1 = Inr c" and d: "fmdom (bc_tree c) = {|1|}"
    and n: "\<exists>n. fmlookup (bc_tree c) 1 = Some n \<and> tn_height n = 0 \<and> tn_child_difficulty n = 1 \<and> tn_cum_work n = 0"
    and s: "\<exists>s. bc_active_state c = (flat_first\<lparr>l_dirty := {||}\<rparr>, 0, s)"
    and c: "bc_active_tip c = 1" "bc_active_height c = 0" "bc_active_chain c = [1]" "bc_finalized c = None"
      "bc_store c = None" "bc_prune_window c = None" "bc_recent_sets c = [(0, [])]" "bc_genesis_id c = 1"
  let ?n = "with_miner c 7 :: (u64, u64, unit) node_state" and ?d = "block_encode flat_prims stake_block"
  obtain c' where a: "apply_block flat_host stake_block c = (None, c')" using flat_block [OF g d _ _ _ _ _ c] n s by metis
  have "block_decode flat_prims ?d = Some stake_block"
    using flat_encoding by (simp add: block_decode_iff block_wf_def stake_block_def tx_fits_def)
  then obtain n' where b: "accept_block_bytes flat_host ?d ?n = (Inr True, n')" "nd_chain n' = c'" "block_decode flat_prims ?d = Some stake_block"
    using a by (simp add: accept_block_bytes_def with_miner_def node_new_def)
  have chain: "nd_chain ?n = c" by (simp add: with_miner_def node_new_def)
  have i: "header_id flat_prims (blk_header stake_block) = 2" by (simp add: flat_id stake_block_def)
  obtain ids where ids: "locator c = Some ids" using locator_returns [of c] c(2) by auto
  have "pull_blocks flat_host (one_block ?d) 1 1 () 0 ?n = (Inr 1, n')"
    by (simp add: one_block_def b chain has_block_def d i)
  then have sync: "sync_shared flat_host (one_block ?d) () ?n = (Inr 1, n')"
    by (simp add: sync_shared_def one_block_def chain ids)
  have "chain_run flat_host c" using g by (auto simp: chain_run_def)
  then have ok: "node_ok flat_host ?n" by (rule node_new_ok)
  have "small c'" using apply_block_tree(2) [OF a] d by (simp add: small_def i fcard_finsert_disjoint fcard_fempty)
  then have "node_ok flat_host n' \<and> tree_size (nd_chain n') = tree_size c + 1"
    using sync_safe [OF _ ok _ sync] flat_encoding c(2) by (simp add: chain b)
  then show ?thesis using sync by blast
qed

section \<open>Two peers that hurt\<close>

text \<open>
  The older loop of \<^verbatim>\<open>sync_from_peer\<close> counts on the height to grow. A peer that claims a height and answers every request with one
  block the client already has keeps it in the loop for ever.
\<close>

lemma sync_loop_endless:
  assumes "block_decode (h_prims E) d = Some b" and "has_block c (header_id (h_prims E) (blk_header b))" and "bc_active_height c < h"
  shows "sync_loop E (one_block d) h k c adopted = None"
proof (rule ccontr)
  have again: "apply_block E b c = (None, c)" using assms(2) by (simp add: apply_block_def has_block_def)
  assume "sync_loop E (one_block d) h k c adopted \<noteq> None"
  then obtain y where "sync_loop E (one_block d) h k c adopted = Some y" by blast
  then have "\<not> (one_block d = one_block d \<and> bc_active_height c < h \<and> apply_block E b c = (None, c) \<and> block_decode (h_prims E) d = Some b)"
    by (rule sync_loop.raw_induct [where P = "\<lambda>E ask h k c adopted y.
        \<not> (ask = one_block d \<and> bc_active_height c < h \<and> apply_block E b c = (None, c) \<and> block_decode (h_prims E) d = Some b)", rotated])
      (auto simp: one_block_def)
  with assms(1,3) again show False by simp
qed

lemma sync_from_peer_endless:
  assumes "block_decode (h_prims E) d = Some b" and "has_block c (header_id (h_prims E) (blk_header b))" and "bc_active_height c = 0"
  shows "sync_from_peer E (one_block d) () c = None"
  using sync_loop_endless [OF assms(1,2), of 1] assms(3) by (simp add: sync_from_peer_def one_block_def)

text \<open>A peer that claims a height of \<open>2 ^ 63\<close> makes the fast sync panic before a single block is read.\<close>

definition tall_peer :: "unit link" where
  "tall_peer k m = (Inr (case m of GetStateManifest \<Rightarrow> StateManifest 1 0 1 1 | GetStateChunk i \<Rightarrow> StateChunk [([], [])] | _ \<Rightarrow> TipIs (2 ^ 63)), k)"

lemma fast_sync_panics:
  assumes "bc_active_height (nd_chain n) = 0"
  shows "fast_sync_shared E tall_peer () n = (Inl (Fault Crash), n)"
  using assms by (simp add: fast_sync_shared_def tall_peer_def capacity_overflows_def)

end
