(* ===== verification/Spec2Isabelle.thy ===== *)
theory Spec2Isabelle
  imports Prelude VM Assembler Curve Crypto Solvent Anon Types Ledger Ledger_Apply Ledger_Frames
    Ledger_Pools Ledger_Arms Ledger_Value Ledger_Safety Ledger_Settlement Ledger_Dirty
    Codecs Records Ledger_Snapshot Ledger_Reach Store SparseMerkle SparseMerkle_Refines Prune Commitment Ledger_Store Parallel
    Consensus Finality Mempool Block_Log Chain Chain_Tree Chain_Inv Chain_Runs Chain_Replay Chain_Mining Chain_Boot
    Bridge_Encoding Bridge Bridge_Legs Wire Node Protocol Sync Protocol_Facts Node_Runs Serving Sync_Facts
begin

text \<open>
  Latebra: a proof-of-work blockchain with public and confidential balances, written in Rust. This library
  models the crates under \<^verbatim>\<open>src/crates\<close> that decide what the ledger and the chain are, and proves what
  makes them correct. Each theory opens with a text that says what it holds; this one gives the map.

  \<^bold>\<open>How the program works.\<close> A transaction (\<^verbatim>\<open>lat-types\<close>) arrives as bytes, is decoded, checked and applied
  to the ledger (\<^verbatim>\<open>lat-state\<close>), which keeps accounts, tokens, contracts, spent nullifiers, validators,
  liquidity pools, bonding curves and hash locks as records in a key-value store (\<^verbatim>\<open>lat-store\<close>). Confidential
  balances are ciphertexts; the proofs that move them are in \<^verbatim>\<open>lat-crypto\<close>. Contracts run on the stack machine
  of \<^verbatim>\<open>lat-vm\<close>; the bonding curve of \<^verbatim>\<open>lat-contracts\<close> is both a contract for it and a reference in Rust that the
  ledger uses. The ledger marks what it changes, and the state root folds the marked entries into a
  sparse Merkle trie over the store. A block applies its transactions in order, the transparent
  ones in parallel. \<^verbatim>\<open>lat-chain\<close> keeps the tree of known blocks, follows the branch with the most work that
  finality admits, rebuilds the state when it changes branch, mines, keeps the mempool and writes a log of blocks from which a
  node boots. Validators vote for blocks; votes of two thirds of the stake are a certificate that makes a block final.
  \<^verbatim>\<open>lat-p2p\<close> exchanges blocks, transactions, votes and state between nodes. \<^verbatim>\<open>lat-bridge\<close> swaps coins with Bitcoin, Ethereum and
  Solana through hash locks.

  \<^bold>\<open>Which theory models what.\<close>
  \<^item> \<open>Prelude\<close>, \<open>Codecs\<close>: bytes, Rust's integer operations, readers, the locales \<open>decodes\<close> and \<open>codec\<close> of a wire
    format with their interpretations and combinators, sums over finite maps.
  \<^item> \<open>VM\<close>, \<open>Assembler\<close>: \<^verbatim>\<open>lat-vm/src/lib.rs\<close>. The stack, storage, gas and program counter are the record \<open>vm\<close>;
    \<open>vm_step\<close> is one turn of the loop of \<^verbatim>\<open>execute\<close>, \<open>vm_run\<close> the loop, which ends because every
    step costs gas; \<open>assemble\<close> has the two passes of the assembler.
  \<^item> \<open>Curve\<close>: \<^verbatim>\<open>lat-contracts/src/bonding_curve.rs\<close>, the program and the reference \<open>apply_buy\<close>, \<open>apply_sell\<close>.
  \<^item> \<open>Crypto\<close>, \<open>Solvent\<close>, \<open>Anon\<close>: \<^verbatim>\<open>lat-crypto\<close>, over the record \<open>prims\<close> of third-party operations (group, scalars,
    hashes, Bulletproofs), whose documented laws are the named predicates \<open>module_laws\<close>,
    \<open>encoding_laws\<close>, \<open>order_large\<close>, \<open>range_complete\<close>, \<open>range_total\<close> and \<open>range_extractor\<close>. Toy primitives satisfy them.
  \<^item> \<open>Types\<close>: \<^verbatim>\<open>lat-types/src/lib.rs\<close>, the transaction, its wire format and its signing bytes.
  \<^item> \<open>Ledger\<close>, \<open>Ledger_Apply\<close>: \<^verbatim>\<open>lat-state/src/lib.rs\<close>, the state (record \<open>ledger\<close>, one finite map per kind of
    object record), its queries and credits, and one definition per arm of \<^verbatim>\<open>apply_inner\<close> with \<open>apply_at\<close> on top.
    \<open>Ledger_Frames\<close>, \<open>Ledger_Pools\<close> and \<open>Ledger_Arms\<close> hold what a write leaves alone, the arithmetic of
    the pools, and what a successful arm has checked and written.
  \<^item> \<open>Ledger_Value\<close>, \<open>Ledger_Safety\<close>, \<open>Ledger_Settlement\<close>, \<open>Ledger_Dirty\<close>, \<open>Ledger_Reach\<close>: the properties of the
    ledger: conservation, authorisation and replay, settlement of hash locks and validators, the marks, and the
    invariant of every reachable ledger.
  \<^item> \<open>Records\<close>, \<open>Ledger_Snapshot\<close>: the record bodies, the leaves of the commitment and the snapshot format.
  \<^item> \<open>Store\<close>, \<open>SparseMerkle\<close>, \<open>SparseMerkle_Refines\<close>, \<open>Prune\<close>: \<^verbatim>\<open>lat-store\<close>. The trait \<^verbatim>\<open>KVStore\<close> is the locale
    \<open>kv_store\<close>, with the in-memory store and the overlay as interpretations; the trie is specified by the hash
    of the full binary tree of a finite map, and refines that map.
  \<^item> \<open>Commitment\<close>: \<^verbatim>\<open>state_root\<close> and the account proofs of light clients, on top of ledger and trie.
  \<^item> \<open>Parallel\<close>: \<^verbatim>\<open>lat-state/src/parallel.rs\<close>. The locale \<open>local_actions\<close> (actions that read and write only
    their footprint) carries the argument that waves of disjoint transactions give the sequential result.
  \<^item> \<open>Ledger_Store\<close>: the object records in a store: listing, moving and reading a ledger back from them.
  \<^item> \<open>Consensus\<close>, \<open>Finality\<close>, \<open>Mempool\<close>, \<open>Block_Log\<close>: the rules of \<^verbatim>\<open>lat-chain/src/lib.rs\<close> (proof of work, retarget, emission, fee
    floors, blocks and their format), \<^verbatim>\<open>finality.rs\<close>, \<^verbatim>\<open>mempool.rs\<close> and \<^verbatim>\<open>store.rs\<close>.
  \<^item> \<open>Chain\<close>: the \<^verbatim>\<open>Blockchain\<close> of \<^verbatim>\<open>lat-chain/src/lib.rs\<close> (record \<open>blockchain\<close>): genesis, \<open>apply_block\<close> with its three ways
    (extend, switch, keep aside), finality, pruning, mining, queries. A call gives a \<open>fault\<close> where the code returns an
    error, panics or does not return. \<open>Chain_Tree\<close> holds the facts about trees of linked blocks, \<open>Chain_Inv\<close> the invariant \<open>spine\<close> and the
    step relation \<open>chain_step\<close> whose runs are \<open>chain_run\<close>, \<open>Chain_Runs\<close> fork choice and finality with a concrete run,
    \<open>Chain_Replay\<close> the state as the replay of the active blocks, \<open>Chain_Mining\<close> mining and the locale \<open>ledger_law\<close> (a property
    of ledgers that transactions keep holds in every run), \<open>Chain_Boot\<close> the boot paths, the snapshot file and the fast sync.
  \<^item> \<open>Bridge_Encoding\<close>, \<open>Bridge\<close>, \<open>Bridge_Legs\<close>: \<^verbatim>\<open>lat-bridge\<close>: the encodings of the remote chains, the swap coordinator and the
    watcher, the three adapters (interpretations of the locale \<open>chain_adapter\<close>) and the contract of the EVM leg.
  \<^item> \<open>Wire\<close>, \<open>Node\<close>: \<^verbatim>\<open>lat-p2p/src/lib.rs\<close>: the messages and their frames, and the state of a node with its peers and
    its vote pool.
  \<^item> \<open>Protocol\<close>, \<open>Sync\<close>: the same file: \<open>handle_msg\<close> is one turn of the loop of \<^verbatim>\<open>handle_conn\<close>, with what its forwarding
    threads send as a list of announcements; the client calls and the three synchronisation loops, over a link to a
    peer that may answer anything. \<open>Protocol_Facts\<close> and \<open>Node_Runs\<close> hold the invariant of a node, its runs \<open>node_step\<close> and the end
    of every gossip; \<open>Serving\<close> joins client and server (locale \<open>chunk_link\<close>: a state captured once arrives whole);
    \<open>Sync_Facts\<close> shows what a synchronisation can do to a node, and two peers that hurt.

  \<^bold>\<open>Conventions and bounds.\<close> Integers keep their width as words, so sums wrap where the release build wraps;
  an overflow that the source checks is a branch of the model. A \<^verbatim>\<open>[u8; 32]\<close> is the 256-bit word of its bytes, most
  significant first. Errors are values: \<open>Inl\<close> of the source's error type, \<open>None\<close> for the source's \<^verbatim>\<open>None\<close>. A panic is a
  value of type \<open>panic\<close> where the code can reach one. Recursions are total: the gas of the VM, the
  length of the input, the depth of the trie and the number of hashes not yet marked are the measures; nothing
  depends on fuel chosen by hand. blake3 has collisions like every function into 256 bits, so a result that needs
  it to have none is stated relative to a set of inputs on which it is injective.

  \<^bold>\<open>Not modelled.\<close> Locks and threads (a call is one step; a worker of the parallel executor is a function of its
  copy of the ledger; a request of a connection is one step although the handler of a new block takes the lock several
  times), the read cache of the ledger (it mirrors the store), the redb backend (a wrapper over a
  third-party database), file access, the boot mode and what opening a chain writes back to its store, the ring, membership
  and hidden-solvency building blocks of \<^verbatim>\<open>lat-crypto\<close> that no transaction uses, the reference program of the
  Solana leg (its transfers are comments), sockets, command-line, explorer and wallet programs.
\<close>

end
